(* ===== verification/Prelude.thy ===== *)
theory Prelude
  imports Main "HOL-Library.Word"
begin

unbundle bit_operations_syntax

text \<open>
  What every component theory shares: names for the machine types of the Go sources, signed
  64-bit wrap-around written out over \<^typ>\<open>int\<close> (Go's \<^verbatim>\<open>int64\<close> and, on the 64-bit targets the
  program is built for, \<^verbatim>\<open>int\<close>), truncating division, the binary search of the standard library's
  \<^verbatim>\<open>sort.Search\<close>, little-endian decoding (\<^verbatim>\<open>encoding/binary\<close>), and the generic lemmas on lists
  the component proofs rest on.
\<close>

section \<open>Machine types\<close>

type_synonym byte = "8 word"
type_synonym u16 = "16 word"
type_synonym u32 = "32 word"
type_synonym u64 = "64 word"

type_synonym bytes = "byte list"

text \<open>\<open>i64\<close> brings an integer back into the range of a signed 64-bit integer, as Go's arithmetic
  does on overflow.\<close>

definition i64 :: "int \<Rightarrow> int" where
  "i64 x = (x + 9223372036854775808) mod 18446744073709551616 - 9223372036854775808"

abbreviation is_i64 :: "int \<Rightarrow> bool" where
  "is_i64 x \<equiv> - 9223372036854775808 \<le> x \<and> x < 9223372036854775808"

abbreviation max_i64 :: int where
  "max_i64 \<equiv> 9223372036854775807"

named_theorems i64_simps \<open>arithmetic that stays inside the signed 64-bit range\<close>

lemma i64_id [i64_simps]: "is_i64 x \<Longrightarrow> i64 x = x"
  by (simp add: i64_def)

lemma i64_range: "is_i64 (i64 x)"
  by (simp add: i64_def)

lemma i64_idem [simp]: "i64 (i64 x) = i64 x"
  using i64_id [OF i64_range] .

lemma i64_sint: "i64 x = sint (word_of_int x :: u64)"
  by (simp add: i64_def sint_word_ariths signed_take_bit_eq_take_bit_shift take_bit_eq_mod
      signed_of_int)

text \<open>Go's division and remainder truncate towards zero. Division by zero panics in Go; every
  definition below that divides guards or bounds the divisor the way its source does.\<close>

definition go_div :: "int \<Rightarrow> int \<Rightarrow> int" where
  "go_div a b = sgn a * sgn b * (\<bar>a\<bar> div \<bar>b\<bar>)"

definition go_mod :: "int \<Rightarrow> int \<Rightarrow> int" where
  "go_mod a b = a - b * go_div a b"

lemma go_div_nonneg [simp]: "0 \<le> a \<Longrightarrow> 0 < b \<Longrightarrow> go_div a b = a div b"
  by (cases "a = 0") (simp_all add: go_div_def)

lemma go_mod_nonneg [simp]: "0 \<le> a \<Longrightarrow> 0 < b \<Longrightarrow> go_mod a b = a mod b"
  by (simp add: go_mod_def minus_mult_div_eq_mod)

lemma div_mult_below: "0 < (s::int) \<Longrightarrow> x div s * s \<le> x" "0 < (s::int) \<Longrightarrow> x < x div s * s + s"
  using minus_mod_eq_div_mult [of x s] pos_mod_sign [of s x] pos_mod_bound [of s x] by linarith+

lemma le_div_mult: "0 < (s::int) \<Longrightarrow> a \<le> x div s \<longleftrightarrow> a * s \<le> x"
proof
  assume s: "0 < s"
  show "a * s \<le> x" if "a \<le> x div s"
    using mult_right_mono [OF that, of s] div_mult_below(1) [OF s, of x] s by linarith
  show "a \<le> x div s" if "a * s \<le> x"
  proof (rule ccontr)
    assume "\<not> a \<le> x div s"
    then have "(x div s + 1) * s \<le> a * s" using s by (intro mult_right_mono) auto
    then show False using that div_mult_below(2) [OF s, of x] by (simp add: distrib_right)
  qed
qed

section \<open>Binary search\<close>

text \<open>
  The loop of Go's \<^verbatim>\<open>sort.Search\<close>: \<^verbatim>\<open>for i < j { h := (i+j)/2; if !f(h) { i = h+1 } else { j = h } }\<close>.
\<close>

function search_loop :: "(nat \<Rightarrow> bool) \<Rightarrow> nat \<Rightarrow> nat \<Rightarrow> nat" where
  "search_loop f i j =
     (if i < j then
        let h = (i + j) div 2
        in if \<not> f h then search_loop f (h + 1) j else search_loop f i h
      else i)"
  by pat_completeness auto
termination
  by (relation "measure (\<lambda>(f, i, j). j - i)") auto

declare search_loop.simps [simp del]

definition sort_Search :: "nat \<Rightarrow> (nat \<Rightarrow> bool) \<Rightarrow> nat" where
  "sort_Search n f = search_loop f 0 n"

text \<open>Whatever the predicate, the result lies between the bounds, the predicate fails just below
  it and holds at it, unless it stands at a bound.\<close>

lemma search_loop_spec:
  assumes "i \<le> j"
  shows "i \<le> search_loop f i j \<and> search_loop f i j \<le> j \<and>
    (search_loop f i j < j \<longrightarrow> f (search_loop f i j)) \<and>
    (i < search_loop f i j \<longrightarrow> \<not> f (search_loop f i j - 1))"
  using assms
proof (induction f i j rule: search_loop.induct)
  case (1 f i j)
  show ?case
  proof (cases "i < j")
    case True
    define h where "h = (i + j) div 2"
    have h: "i \<le> h" "h < j" using True by (auto simp: h_def)
    show ?thesis
    proof (cases "f h")
      case fh: True
      have eq: "search_loop f i j = search_loop f i h"
        using True fh by (subst search_loop.simps) (simp add: h_def [symmetric])
      have "\<not> \<not> f h" using fh by simp
      from "1.IH"(2) [OF True h_def this h(1)] show ?thesis
        using h fh by (cases "search_loop f i h = h") (auto simp: eq)
    next
      case fh: False
      have eq: "search_loop f i j = search_loop f (h + 1) j"
        using True fh by (subst search_loop.simps) (simp add: h_def [symmetric])
      have "h + 1 \<le> j" using h by simp
      from "1.IH"(1) [OF True h_def fh this] show ?thesis
        using h fh by (cases "search_loop f (h + 1) j = h + 1") (auto simp: eq)
    qed
  next
    case False
    then have "search_loop f i j = i" by (subst search_loop.simps) simp
    then show ?thesis using False "1.prems" by simp
  qed
qed

lemma sort_Search_le: "sort_Search n f \<le> n"
  using search_loop_spec [of 0 n f] by (simp add: sort_Search_def)

lemma sort_Search_holds: "sort_Search n f < n \<Longrightarrow> f (sort_Search n f)"
  using search_loop_spec [of 0 n f] by (simp add: sort_Search_def)

text \<open>For a predicate that stays true once true (the precondition \<^verbatim>\<open>sort.Search\<close> documents), the
  result separates the indices where it fails from those where it holds.\<close>

lemma sort_Search_below:
  assumes mono: "\<And>i j. i \<le> j \<Longrightarrow> j < n \<Longrightarrow> f i \<Longrightarrow> f j" and i: "i < sort_Search n f"
  shows "\<not> f i"
proof
  assume fi: "f i"
  let ?s = "sort_Search n f"
  have "i \<le> ?s - 1" "?s - 1 < n" using i sort_Search_le [of n f] by auto
  then have "f (?s - 1)" using mono fi by blast
  moreover have "\<not> f (?s - 1)"
    using search_loop_spec [of 0 n f] i by (simp add: sort_Search_def)
  ultimately show False by simp
qed

lemma sort_Search_above:
  assumes mono: "\<And>i j. i \<le> j \<Longrightarrow> j < n \<Longrightarrow> f i \<Longrightarrow> f j"
    and i: "sort_Search n f \<le> i" "i < n"
  shows "f i"
  using sort_Search_holds [of n f] mono i by (meson le_less_trans)

text \<open>On a list the result splits it into the elements that fail the predicate and those that
  satisfy it.\<close>

lemma sort_Search_split:
  assumes mono: "\<And>i j. i \<le> j \<Longrightarrow> j < length xs \<Longrightarrow> P (xs ! i) \<Longrightarrow> P (xs ! j)"
  obtains ys zs where "xs = ys @ zs" "sort_Search (length xs) (\<lambda>i. P (xs ! i)) = length ys"
    "\<forall>y \<in> set ys. \<not> P y" "\<forall>z \<in> set zs. P z"
proof -
  let ?s = "sort_Search (length xs) (\<lambda>i. P (xs ! i))"
  have le: "?s \<le> length xs" by (rule sort_Search_le)
  have "\<forall>y \<in> set (take ?s xs). \<not> P y"
  proof
    fix y assume "y \<in> set (take ?s xs)"
    then obtain i where "i < ?s" "y = xs ! i" by (auto simp: in_set_conv_nth)
    then show "\<not> P y"
      using sort_Search_below [of "length xs" "\<lambda>i. P (xs ! i)" i] mono by blast
  qed
  moreover have "\<forall>z \<in> set (drop ?s xs). P z"
  proof
    fix z assume "z \<in> set (drop ?s xs)"
    then obtain i where "i < length (drop ?s xs)" "z = drop ?s xs ! i"
      by (auto simp: in_set_conv_nth)
    then have "?s \<le> ?s + i" "?s + i < length xs" "z = xs ! (?s + i)" using le by auto
    then show "P z"
      using sort_Search_above [of "length xs" "\<lambda>i. P (xs ! i)" "?s + i"] mono by blast
  qed
  moreover have "xs = take ?s xs @ drop ?s xs" "?s = length (take ?s xs)" using le by simp_all
  ultimately show thesis using that by blast
qed

section \<open>Exclusive or\<close>

lemma xor_cancel_left [simp]: "(a :: 'a::len word) XOR (a XOR b) = b"
  by (simp add: xor.assoc [symmetric])

lemma xor_eq_0_iff: "(a :: 'a::len word) XOR b = 0 \<longleftrightarrow> a = b"
proof
  assume "a XOR b = 0"
  then have "a XOR (a XOR b) = a" by simp
  then show "a = b" by simp
qed simp

section \<open>Lists\<close>

lemma fold_upt_Suc: "fold f [0..<Suc n] s = f n (fold f [0..<n] s)"
  by simp

text \<open>A loop that rewrites the elements of an index range in place.\<close>

lemma length_fold_update:
  "(\<And>i xs. length (f i xs) = length xs) \<Longrightarrow> length (fold f is xs) = length xs"
  by (induction "is" arbitrary: xs) simp_all

lemma nth_fold_update:
  "i < length xs \<Longrightarrow> fold (\<lambda>i xs. xs[i := g i (xs ! i)]) [a..<b] xs ! i =
     (if a \<le> i \<and> i < b then g i (xs ! i) else xs ! i)"
  by (induction b) (auto simp: nth_list_update less_Suc_eq length_fold_update)

lemma find_Some_in: "find P xs = Some x \<Longrightarrow> x \<in> set xs \<and> P x"
  by (induction xs) (auto split: if_splits)

lemma find_None_iff_upt: "find P [a..<b] = None \<longleftrightarrow> (\<forall>i. a \<le> i \<and> i < b \<longrightarrow> \<not> P i)"
  by (auto simp: find_None_iff)

lemma find_Some_upt: "find P [a..<b] = Some i \<Longrightarrow> a \<le> i \<and> i < b \<and> P i \<and> (\<forall>j. a \<le> j \<and> j < i \<longrightarrow> \<not> P j)"
  by (auto simp: find_Some_iff) (metis add_less_cancel_left le_add_diff_inverse)

section \<open>Little-endian words\<close>

text \<open>\<^verbatim>\<open>binary.LittleEndian.Uint16\<close> and the two halves \<^verbatim>\<open>PutUint16\<close> writes.\<close>

definition le16 :: "byte \<Rightarrow> byte \<Rightarrow> u16" where
  "le16 b0 b1 = ucast b0 OR push_bit 8 (ucast b1)"

definition lo8 :: "u16 \<Rightarrow> byte" where "lo8 w = ucast w"
definition hi8 :: "u16 \<Rightarrow> byte" where "hi8 w = ucast (drop_bit 8 w)"

fun le_words :: "bytes \<Rightarrow> u16 list" where
  "le_words (b0 # b1 # bs) = le16 b0 b1 # le_words bs"
| "le_words bs = []"

fun le_bytes :: "u16 list \<Rightarrow> bytes" where
  "le_bytes [] = []"
| "le_bytes (w # ws) = lo8 w # hi8 w # le_bytes ws"

lemma bit_le16: "bit (le16 b0 b1) n \<longleftrightarrow> (if n < 8 then bit b0 n else bit b1 (n - 8))"
  unfolding le16_def bit_or_iff bit_push_bit_iff bit_ucast_iff
  by (auto simp: possible_bit_def dest: bit_imp_le_length)

lemma bit_lo8: "bit (lo8 w) n \<longleftrightarrow> n < 8 \<and> bit w n"
  unfolding lo8_def bit_ucast_iff by (simp add: possible_bit_def)

lemma bit_hi8: "bit (hi8 w) n \<longleftrightarrow> n < 8 \<and> bit w (n + 8)"
  unfolding hi8_def bit_ucast_iff bit_drop_bit_eq by (auto simp: possible_bit_def add.commute)

lemma le16_halves [simp]: "le16 (lo8 w) (hi8 w) = w"
  by (rule bit_word_eqI) (auto simp: bit_le16 bit_lo8 bit_hi8)

lemma halves_le16 [simp]: "lo8 (le16 b0 b1) = b0" "hi8 (le16 b0 b1) = b1"
  by (rule bit_word_eqI; auto simp: bit_le16 bit_lo8 bit_hi8)+

lemma le16_xor: "le16 (a0 XOR b0) (a1 XOR b1) = le16 a0 a1 XOR le16 b0 b1"
  by (rule bit_word_eqI) (auto simp: bit_le16 bit_xor_iff)

lemma le_words_bytes [simp]: "le_words (le_bytes ws) = ws"
  by (induction ws) simp_all

lemma le_words_short: "length bs < 2 \<Longrightarrow> le_words bs = []"
  by (cases bs rule: le_words.cases) simp_all

lemma length_le_bytes [simp]: "length (le_bytes ws) = 2 * length ws"
  by (induction ws) simp_all

lemma length_le_words [simp]: "length (le_words bs) = length bs div 2"
  by (induction bs rule: le_words.induct) simp_all

lemma le_bytes_words: "even (length bs) \<Longrightarrow> le_bytes (le_words bs) = bs"
  by (induction bs rule: le_words.induct) simp_all

lemma le_words_inj: "even (length bs) \<Longrightarrow> even (length cs) \<Longrightarrow> le_words bs = le_words cs \<Longrightarrow> bs = cs"
  by (metis le_bytes_words)

text \<open>\<^verbatim>\<open>binary.LittleEndian.Uint32\<close> and \<^verbatim>\<open>Uint64\<close> read an unsigned number; \<open>le_enc\<close> is the encoding they
  read.\<close>

fun le_nat :: "bytes \<Rightarrow> nat" where
  "le_nat [] = 0"
| "le_nat (b # bs) = unat b + 256 * le_nat bs"

primrec le_enc :: "nat \<Rightarrow> nat \<Rightarrow> bytes" where
  "le_enc 0 x = []"
| "le_enc (Suc n) x = of_nat (x mod 256) # le_enc n (x div 256)"

lemma unat_byte_less: "unat (b :: byte) < 256"
  using unsigned_less [of b, where ?'a = nat] by simp

lemma le_nat_less: "le_nat bs < 256 ^ length bs"
proof (induction bs)
  case (Cons b bs)
  have "le_nat (b # bs) < 256 + 256 * le_nat bs" using unat_byte_less [of b] by simp
  also have "\<dots> \<le> 256 * 256 ^ length bs" using Cons by simp
  finally show ?case by simp
qed simp

lemma length_le_enc [simp]: "length (le_enc n x) = n"
  by (induction n arbitrary: x) simp_all

lemma le_nat_le_enc: "x < 256 ^ n \<Longrightarrow> le_nat (le_enc n x) = x"
proof (induction n arbitrary: x)
  case (Suc n)
  have "unat (of_nat (x mod 256) :: byte) = x mod 256" by (simp add: unat_of_nat take_bit_eq_mod)
  moreover have "x div 256 < 256 ^ n" using Suc.prems by (simp add: less_mult_imp_div_less mult.commute)
  ultimately show ?case using Suc.IH by simp
qed simp

lemma digit_unique:
  fixes a :: nat
  assumes "a + 256 * c = b + 256 * d" "a < 256" "b < 256"
  shows "a = b \<and> c = d"
proof -
  have "a = (a + 256 * c) mod 256" "b = (b + 256 * d) mod 256" using assms(2,3) by simp_all
  then have "a = b" using assms(1) by simp
  then show ?thesis using assms(1) by simp
qed

lemma le_nat_inj: "length a = length b \<Longrightarrow> le_nat a = le_nat b \<longleftrightarrow> a = b"
proof (induction a b rule: list_induct2)
  case (Cons x xs y ys)
  have "unat x = unat y \<and> le_nat xs = le_nat ys" if "unat x + 256 * le_nat xs = unat y + 256 * le_nat ys"
    using digit_unique [OF that unat_byte_less unat_byte_less] .
  then show ?case using Cons.IH by (auto simp: word_unat_eq_iff)
qed simp

section \<open>Substrings\<close>

text \<open>\<^verbatim>\<open>bytes.Index\<close>: the first position where the pattern occurs.\<close>

definition bytes_Index :: "bytes \<Rightarrow> bytes \<Rightarrow> nat option" where
  "bytes_Index s pat = find (\<lambda>i. take (length pat) (drop i s) = pat) [0..<Suc (length s)]"

lemma bytes_Index_Some:
  "bytes_Index s pat = Some i \<Longrightarrow>
   take (length pat) (drop i s) = pat \<and> i \<le> length s \<and> (\<forall>j < i. take (length pat) (drop j s) \<noteq> pat)"
  unfolding bytes_Index_def by (drule find_Some_upt) simp

lemma bytes_Index_None:
  "bytes_Index s pat = None \<Longrightarrow> i \<le> length s \<Longrightarrow> take (length pat) (drop i s) \<noteq> pat"
  by (simp add: bytes_Index_def find_None_iff_upt del: upt_Suc)

lemma take_drop_append [simp]: "length xs = n \<Longrightarrow> take n (xs @ ys) = xs" "length xs = n \<Longrightarrow> drop n (xs @ ys) = ys"
  by simp_all

end
