(* ===== verification/Char2_Field.thy ===== *)
theory Char2_Field
  imports Prelude
begin

unbundle bit_operations_syntax

text \<open>
  The interface the PAR2 matrix code relies on: a product on 16-bit words that, with exclusive or
  as addition, is a field of characteristic 2. The locale \<open>char2_field\<close> states the laws; the linear
  algebra of dot products and row operations is proved once inside it. \<open>GF16\<close> interprets it on the
  table-driven \<^verbatim>\<open>gfMul\<close> and \<^verbatim>\<open>gfInv\<close>.
\<close>

section \<open>Vectors of words\<close>

definition vec_xor :: "u16 list \<Rightarrow> u16 list \<Rightarrow> u16 list" where
  "vec_xor xs ys = map2 (XOR) xs ys"

definition xor_list :: "u16 list \<Rightarrow> u16" where
  "xor_list xs = foldr (XOR) xs 0"

definition dot_with :: "(u16 \<Rightarrow> u16 \<Rightarrow> u16) \<Rightarrow> u16 list \<Rightarrow> u16 list \<Rightarrow> u16" where
  "dot_with mul xs ys = xor_list (map2 mul xs ys)"

definition unit_vec :: "nat \<Rightarrow> nat \<Rightarrow> u16 list" where
  "unit_vec k i = (replicate k 0)[i := 1]"

lemma xor_list_simps [simp]:
  "xor_list [] = 0" "xor_list (x # xs) = x XOR xor_list xs"
  by (simp_all add: xor_list_def)

lemma xor_list_append [simp]: "xor_list (xs @ ys) = xor_list xs XOR xor_list ys"
  by (induction xs) (simp_all add: xor.assoc)

lemma xor_list_same_elements:
  "distinct xs \<Longrightarrow> distinct ys \<Longrightarrow> set xs = set ys \<Longrightarrow> xor_list (map f xs) = xor_list (map f ys)"
proof (induction xs arbitrary: ys)
  case (Cons x xs)
  have "xor_list (map f ys) = f x XOR xor_list (map f (remove1 x ys))"
  proof -
    have "x \<in> set ys" using Cons.prems by auto
    then show ?thesis by (induction ys) (auto simp: xor.left_commute)
  qed
  moreover have "xor_list (map f xs) = xor_list (map f (remove1 x ys))"
    using Cons.prems by (intro Cons.IH) auto
  ultimately show ?case by simp
qed simp

lemma xor_list_split_filter:
  "xor_list (map f xs) = xor_list (map f (filter P xs)) XOR xor_list (map f (filter (\<lambda>x. \<not> P x) xs))"
  by (induction xs) (auto simp: ac_simps)

lemma fold_xor: "fold (\<lambda>j s. s XOR f j) js s = s XOR xor_list (map f js)"
  by (induction js arbitrary: s) (simp_all add: ac_simps)

lemma dot_with_map: "dot_with mul (map f xs) (map g xs) = xor_list (map (\<lambda>x. mul (f x) (g x)) xs)"
  by (induction xs) (simp_all add: dot_with_def)

lemma dot_with_nth:
  assumes "length a = length b"
  shows "dot_with mul a b = xor_list (map (\<lambda>j. mul (a ! j) (b ! j)) [0..<length b])"
proof -
  have "dot_with mul (map ((!) a) [0..<length b]) (map ((!) b) [0..<length b]) =
      xor_list (map (\<lambda>j. mul (a ! j) (b ! j)) [0..<length b])" by (rule dot_with_map)
  moreover have "map ((!) a) [0..<length b] = a" using assms map_nth [of a] by simp
  ultimately show ?thesis by (simp add: map_nth)
qed

lemma dot_with_simps [simp]:
  "dot_with mul [] ys = 0" "dot_with mul xs [] = 0"
  "dot_with mul (x # xs) (y # ys) = mul x y XOR dot_with mul xs ys"
  by (simp_all add: dot_with_def)

lemma vec_xor_simps [simp]:
  "vec_xor [] ys = []" "vec_xor xs [] = []" "vec_xor (x # xs) (y # ys) = (x XOR y) # vec_xor xs ys"
  by (simp_all add: vec_xor_def)

lemma length_vec_xor [simp]: "length (vec_xor xs ys) = min (length xs) (length ys)"
  by (simp add: vec_xor_def)

lemma nth_vec_xor [simp]:
  "i < length xs \<Longrightarrow> i < length ys \<Longrightarrow> vec_xor xs ys ! i = xs ! i XOR ys ! i"
  by (simp add: vec_xor_def)

lemma dot_with_append:
  "length a = length x \<Longrightarrow> dot_with mul (a @ b) (x @ y) = dot_with mul a x XOR dot_with mul b y"
  by (induction a x rule: list_induct2) (simp_all add: xor.assoc)

lemma length_unit_vec [simp]: "length (unit_vec k i) = k"
  by (simp add: unit_vec_def)

lemma nth_unit_vec: "j < k \<Longrightarrow> unit_vec k i ! j = (if i = j then 1 else 0)"
  by (auto simp: unit_vec_def nth_list_update)

section \<open>The interface and its linear algebra\<close>

locale char2_field =
  fixes mul :: "u16 \<Rightarrow> u16 \<Rightarrow> u16"
    and inv :: "u16 \<Rightarrow> u16"
  assumes mul_commute: "mul a b = mul b a"
    and mul_assoc: "mul (mul a b) c = mul a (mul b c)"
    and mul_one: "mul 1 a = a"
    and mul_xor: "mul (a XOR b) c = mul a c XOR mul b c"
    and mul_inv: "a \<noteq> 0 \<Longrightarrow> mul a (inv a) = 1"
begin

lemma mul_xor_right: "mul c (a XOR b) = mul c a XOR mul c b"
  by (simp add: mul_commute [of c] mul_xor)

lemma mul_zero: "mul 0 a = 0" "mul a 0 = 0"
  using mul_xor [of a a a] by (simp_all add: mul_commute [of a 0])

lemma mul_eq_zero: "mul a b = 0 \<longleftrightarrow> a = 0 \<or> b = 0"
proof
  assume z: "mul a b = 0"
  show "a = 0 \<or> b = 0"
  proof (rule disjCI)
    assume "b \<noteq> 0"
    then have "a = mul a (mul b (inv b))" by (simp add: mul_inv mul_commute [of a 1] mul_one)
    also have "\<dots> = 0" by (simp add: mul_assoc [symmetric] z mul_zero)
    finally show "a = 0" .
  qed
qed (auto simp: mul_zero)

lemma inv_nonzero: "a \<noteq> 0 \<Longrightarrow> inv a \<noteq> 0"
  using mul_inv [of a] by (auto simp: mul_zero)

lemma dot_commute: "dot_with mul xs ys = dot_with mul ys xs"
proof (induction xs arbitrary: ys)
  case (Cons x xs)
  then show ?case by (cases ys) (simp_all add: mul_commute)
qed simp

lemma dot_xor_left:
  "length a = length b \<Longrightarrow> length b = length x \<Longrightarrow>
   dot_with mul (vec_xor a b) x = dot_with mul a x XOR dot_with mul b x"
  by (induction a b x rule: list_induct3) (simp_all add: mul_xor ac_simps)

lemma dot_xor_right:
  "length x = length a \<Longrightarrow> length a = length b \<Longrightarrow>
   dot_with mul x (vec_xor a b) = dot_with mul x a XOR dot_with mul x b"
  by (induction x a b rule: list_induct3) (simp_all add: mul_xor_right ac_simps)

lemma dot_scale_left: "dot_with mul (map (mul c) a) x = mul c (dot_with mul a x)"
proof (induction a arbitrary: x)
  case (Cons y a)
  then show ?case by (cases x) (simp_all add: mul_xor_right mul_assoc mul_zero)
qed (simp add: mul_zero)

lemma dot_scale_right: "dot_with mul x (map (mul c) a) = mul c (dot_with mul x a)"
  by (simp add: dot_commute [of x] dot_scale_left)

lemma dot_zero_left: "dot_with mul (replicate n 0) x = 0"
proof (induction n arbitrary: x)
  case (Suc n)
  then show ?case by (cases x) (simp_all add: mul_zero)
qed simp

text \<open>The dot product as a sum over positions, and a vector with one nonzero entry.\<close>

lemma dot_single:
  assumes "length a = length x" "i < length x" "\<And>j. j < length x \<Longrightarrow> j \<noteq> i \<Longrightarrow> mul (a ! j) (x ! j) = 0"
  shows "dot_with mul a x = mul (a ! i) (x ! i)"
  using assms
proof (induction a x arbitrary: i rule: list_induct2)
  case (Cons y a z x)
  show ?case
  proof (cases i)
    case 0
    have "dot_with mul a x = 0"
    proof (cases x)
      case (Cons z' x')
      have "dot_with mul a x = mul (a ! 0) (x ! 0)"
        using Cons.prems(2) [of "Suc _"] 0 Cons
        by (intro Cons.IH) (use Cons.prems(2) 0 in fastforce)+
      also have "\<dots> = 0" using Cons.prems(2) [of 1] 0 Cons by simp
      finally show ?thesis .
    qed simp
    then show ?thesis using 0 by simp
  next
    case (Suc i')
    have "mul y z = 0" using Cons.prems(2) [of 0] Suc by simp
    moreover have "dot_with mul a x = mul (a ! i') (x ! i')"
      using Cons.prems Suc by (intro Cons.IH) fastforce+
    ultimately show ?thesis using Suc by simp
  qed
qed simp

lemma dot_update:
  assumes "length a = length x" "p < length x"
  shows "dot_with mul a (x[p := x ! p XOR d]) = dot_with mul a x XOR mul (a ! p) d"
  using assms
proof (induction a x arbitrary: p rule: list_induct2)
  case (Cons y a z x)
  then show ?case by (cases p) (simp_all add: mul_xor_right ac_simps)
qed simp

lemma dot_unit: "length x = k \<Longrightarrow> i < k \<Longrightarrow> dot_with mul (unit_vec k i) x = x ! i"
  using dot_single [of "unit_vec k i" x i] by (simp add: nth_unit_vec mul_zero mul_one)

end

end
