(* ===== verification/GF16.thy ===== *)
theory GF16
  imports Char2_Field
begin

unbundle bit_operations_syntax

text \<open>
  The field GF(2^16) of the PAR2 engine: \<^verbatim>\<open>src/pkg/usenet/par2/gf16.go\<close>. The log and exponent tables
  are built by the loop of \<^verbatim>\<open>initGFTables\<close>; \<^verbatim>\<open>gfMul\<close>, \<^verbatim>\<open>gfInv\<close>, \<^verbatim>\<open>gfPow\<close> and \<^verbatim>\<open>regionMulXOR\<close> read
  them. The reference for the multiplication is \<open>clmul\<close>, carry-less multiplication reduced by the
  PAR2 polynomial bit by bit, which uses no table.
\<close>

section \<open>Definitions\<close>

abbreviation gfSize :: nat where "gfSize \<equiv> 65536"
abbreviation gfOrd :: nat where "gfOrd \<equiv> 65535"
abbreviation gfPoly :: u32 where "gfPoly \<equiv> 0x1100B"

record gf_tables =
  exp_tab :: "nat \<Rightarrow> u16"
  log_tab :: "nat \<Rightarrow> u16"

definition gf_init_step :: "nat \<Rightarrow> u32 \<times> gf_tables \<Rightarrow> u32 \<times> gf_tables" where
  "gf_init_step i = (\<lambda>(x, t).
     let t' = t\<lparr>exp_tab := (exp_tab t)(i := ucast x), log_tab := (log_tab t)(unat x := of_nat i)\<rparr>;
         x1 = push_bit 1 x;
         x2 = (if x1 AND of_nat gfSize \<noteq> 0 then x1 XOR gfPoly else x1)
     in (x2, t'))"

definition initGFTables :: gf_tables where
  "initGFTables =
     (let (x, t) = fold gf_init_step [0..<gfOrd] (1, \<lparr>exp_tab = (\<lambda>_. 0), log_tab = (\<lambda>_. 0)\<rparr>)
      in t\<lparr>exp_tab := (exp_tab t)(gfOrd := exp_tab t 0)\<rparr>)"

definition gfExp :: "nat \<Rightarrow> u16" where
  "gfExp i = exp_tab initGFTables i"

definition gfLog :: "u16 \<Rightarrow> u16" where
  "gfLog a = log_tab initGFTables (unat a)"

definition gfMul :: "u16 \<Rightarrow> u16 \<Rightarrow> u16" where
  "gfMul a b =
     (if a = 0 \<or> b = 0 then 0
      else let s = unat (gfLog a) + unat (gfLog b);
               s' = (if s \<ge> gfOrd then s - gfOrd else s)
           in gfExp s')"

definition gfInv :: "u16 \<Rightarrow> u16" where
  "gfInv a = (if a = 0 then 0 else gfExp (gfOrd - unat (gfLog a)))"

definition gfPow :: "u16 \<Rightarrow> u32 \<Rightarrow> u16" where
  "gfPow base e =
     (if e = 0 then 1 else if base = 0 then 0
      else gfExp ((unat (gfLog base) * unat e) mod gfOrd))"

text \<open>The two loops of \<^verbatim>\<open>regionMulXOR\<close> walk the 16-bit words of both slices; a trailing odd byte is
  left alone. A length mismatch panics (\<^term>\<open>None\<close>).\<close>

fun region_xor :: "bytes \<Rightarrow> bytes \<Rightarrow> bytes" where
  "region_xor (d0 # d1 # ds) (s0 # s1 # ss) = (d0 XOR s0) # (d1 XOR s1) # region_xor ds ss"
| "region_xor ds ss = ds"

fun region_mul_xor :: "nat \<Rightarrow> bytes \<Rightarrow> bytes \<Rightarrow> bytes" where
  "region_mul_xor logC (d0 # d1 # ds) (s0 # s1 # ss) =
     (let w = le16 s0 s1
      in if w = 0 then d0 # d1 # region_mul_xor logC ds ss
         else let s = unat (gfLog w) + logC;
                  s' = (if s \<ge> gfOrd then s - gfOrd else s);
                  p = gfExp s'
              in (d0 XOR lo8 p) # (d1 XOR hi8 p) # region_mul_xor logC ds ss)"
| "region_mul_xor logC ds ss = ds"

definition regionMulXOR :: "bytes \<Rightarrow> bytes \<Rightarrow> u16 \<Rightarrow> bytes option" where
  "regionMulXOR dst src c =
     (if length dst \<noteq> length src then None
      else if c = 0 then Some dst
      else if c = 1 then Some (region_xor dst src)
      else Some (region_mul_xor (unat (gfLog c)) dst src))"

section \<open>Multiplication by \<open>x\<close> and the reference product\<close>

definition mulx :: "u16 \<Rightarrow> u16" where
  "mulx a = (if bit a 15 then push_bit 1 a XOR 0x100B else push_bit 1 a)"

abbreviation pow_x :: "nat \<Rightarrow> u16" where
  "pow_x n \<equiv> (mulx ^^ n) 1"

fun clmul_bits :: "nat \<Rightarrow> u16 \<Rightarrow> u16 \<Rightarrow> u16" where
  "clmul_bits 0 a b = 0"
| "clmul_bits (Suc n) a b =
     (if bit b 0 then a else 0) XOR clmul_bits n (mulx a) (drop_bit 1 b)"

definition clmul :: "u16 \<Rightarrow> u16 \<Rightarrow> u16" where
  "clmul a b = clmul_bits 16 a b"

lemma mulx_xor: "mulx (a XOR b) = mulx a XOR mulx b"
  unfolding mulx_def by (auto simp: bit_simps ac_simps)

lemma mulx_0 [simp]: "mulx 0 = 0"
  by (simp add: mulx_def)

lemma mulx_pow_xor: "(mulx ^^ n) (a XOR b) = (mulx ^^ n) a XOR (mulx ^^ n) b"
  by (induction n) (simp_all add: mulx_xor)

lemma mulx_pow_0 [simp]: "(mulx ^^ n) 0 = 0"
  by (induction n) simp_all

lemma mulx_eq_0: "mulx a = 0 \<longleftrightarrow> a = 0"
proof
  assume m: "mulx a = 0"
  show "a = 0"
  proof (rule bit_word_eqI)
    fix n assume n: "n < LENGTH(16)"
    have b: "bit (mulx a) j = False" for j using m by simp
    have b15: "\<not> bit a 15"
    proof
      assume "bit a 15"
      with b [of 0] show False by (simp add: mulx_def bit_simps mult.commute [of a])
    qed
    have "n = 15 \<or> n < 15" using n by auto
    then show "bit a n = bit 0 n"
      using b15 b [of "Suc n"] by (auto simp: mulx_def bit_simps mult.commute [of a])
  qed
qed simp

lemma mulx_inj: "mulx a = mulx b \<longleftrightarrow> a = b"
proof
  assume "mulx a = mulx b"
  then have "mulx (a XOR b) = 0" by (simp add: mulx_xor)
  then show "a = b" by (simp add: mulx_eq_0 xor_eq_0_iff)
qed simp

lemma mulx_pow_inj: "(mulx ^^ n) a = (mulx ^^ n) b \<longleftrightarrow> a = b"
  by (induction n) (simp_all add: mulx_inj)

lemma mulx_pow_eq_0: "(mulx ^^ n) a = 0 \<longleftrightarrow> a = 0"
  using mulx_pow_inj [of n a 0] by simp

lemma mulx_pow_add: "(mulx ^^ m) ((mulx ^^ n) a) = (mulx ^^ (m + n)) a"
  by (simp add: funpow_add)

lemma mulx_pow_commute: "(mulx ^^ m) ((mulx ^^ n) a) = (mulx ^^ n) ((mulx ^^ m) a)"
  by (simp add: mulx_pow_add add.commute)

text \<open>Below 16 the power of \<open>x\<close> is a single bit.\<close>

lemma mulx_small: "\<not> bit a 15 \<Longrightarrow> mulx a = 2 * a"
  by (simp add: mulx_def mult.commute)

lemma pow_x_small: "n < 16 \<Longrightarrow> pow_x n = 2 ^ n"
proof (induction n)
  case 0
  then show ?case by simp
next
  case (Suc n)
  then have "pow_x n = 2 ^ n" by simp
  moreover have "\<not> bit (2 ^ n :: u16) 15"
    using Suc.prems by (simp add: bit_simps)
  ultimately show ?case by (simp add: mulx_small)
qed

text \<open>The reference product is additive in both factors and moves powers of \<open>x\<close> out.\<close>

lemma clmul_bits_xor_left:
  "clmul_bits n (a XOR a') b = clmul_bits n a b XOR clmul_bits n a' b"
  by (induction n arbitrary: a a' b) (auto simp: mulx_xor ac_simps)

lemma clmul_bits_xor_right:
  "clmul_bits n a (b XOR b') = clmul_bits n a b XOR clmul_bits n a b'"
  by (induction n arbitrary: a b b') (auto simp: bit_simps ac_simps)

lemma clmul_bits_0_right [simp]: "clmul_bits n a 0 = 0"
  by (induction n arbitrary: a) auto

lemma clmul_bits_push:
  "k < n \<Longrightarrow> k < 16 \<Longrightarrow> clmul_bits n a (2 ^ k) = (mulx ^^ k) a"
proof (induction n arbitrary: a k)
  case 0
  then show ?case by simp
next
  case (Suc n)
  show ?case
  proof (cases k)
    case 0
    then show ?thesis by (simp add: bit_simps)
  next
    case (Suc k')
    have "drop_bit 1 (2 ^ Suc k' :: u16) = 2 ^ k'"
      using \<open>k < 16\<close> Suc by (intro bit_word_eqI) (auto simp: bit_simps simp del: power_Suc)
    moreover have "\<not> bit (2 ^ Suc k' :: u16) 0" by (simp add: bit_simps del: power_Suc)
    moreover have "clmul_bits n (mulx a) (2 ^ k') = (mulx ^^ k') (mulx a)"
      using Suc.IH [of k' "mulx a"] Suc.prems Suc by simp
    ultimately show ?thesis using Suc by (simp add: funpow_swap1 del: power_Suc)
  qed
qed

text \<open>A word is the sum of its bits, so an additive function is known from the powers of two.\<close>

lemma word16_additive_eqI:
  fixes f g :: "u16 \<Rightarrow> u16"
  assumes f: "\<And>a b. f (a XOR b) = f a XOR f b" and g: "\<And>a b. g (a XOR b) = g a XOR g b"
    and eq: "\<And>k. k < 16 \<Longrightarrow> f (2 ^ k) = g (2 ^ k)"
  shows "f a = g a"
proof -
  have f0: "f 0 = 0" using f [of 0 0] by simp
  have g0: "g 0 = 0" using g [of 0 0] by simp
  have "f (take_bit n a) = g (take_bit n a)" if "n \<le> 16" for n
    using that
  proof (induction n)
    case 0
    then show ?case by (simp add: f0 g0)
  next
    case (Suc n)
    have "take_bit (Suc n) a = take_bit n a XOR (if bit a n then 2 ^ n else 0)"
      using Suc.prems by (intro bit_word_eqI) (auto simp: bit_simps less_Suc_eq)
    then show ?case using Suc by (simp add: f g f0 g0 eq)
  qed
  from this [of 16] show ?thesis by (simp add: take_bit_length_eq [where ?'a = 16, simplified])
qed

lemma clmul_xor_left: "clmul (a XOR a') b = clmul a b XOR clmul a' b"
  by (simp add: clmul_def clmul_bits_xor_left)

lemma clmul_xor_right: "clmul a (b XOR b') = clmul a b XOR clmul a b'"
  by (simp add: clmul_def clmul_bits_xor_right)

lemma clmul_two_pow: "k < 16 \<Longrightarrow> clmul a (2 ^ k) = (mulx ^^ k) a"
  by (simp add: clmul_def clmul_bits_push)

lemma clmul_pow_x_left: "clmul (pow_x n) b = (mulx ^^ n) b"
proof (rule word16_additive_eqI [of "clmul (pow_x n)"])
  fix k :: nat assume k: "k < 16"
  have "clmul (pow_x n) (2 ^ k) = (mulx ^^ n) (pow_x k)"
    using k by (simp add: clmul_two_pow mulx_pow_commute [of k n])
  then show "clmul (pow_x n) (2 ^ k) = (mulx ^^ n) (2 ^ k)"
    using k by (simp add: pow_x_small)
qed (simp_all add: clmul_xor_right mulx_pow_xor)

lemma clmul_commute: "clmul a b = clmul b a"
proof (rule word16_additive_eqI [of "\<lambda>a. clmul a b"])
  fix j :: nat assume j: "j < 16"
  show "clmul (2 ^ j) b = clmul b (2 ^ j)"
    using j by (simp add: pow_x_small [symmetric] clmul_pow_x_left)
      (simp add: pow_x_small clmul_two_pow)
qed (simp_all add: clmul_xor_left clmul_xor_right)

section \<open>The order of \<open>x\<close>\<close>

text \<open>Squaring by the reference product evaluates high powers in a few steps.\<close>

lemma pow_x_double: "pow_x (2 * n) = clmul (pow_x n) (pow_x n)"
  by (simp add: clmul_pow_x_left mulx_pow_add mult_2)

lemma pow_x_double_Suc: "pow_x (2 * n + 1) = mulx (clmul (pow_x n) (pow_x n))"
  using pow_x_double [of n] by simp

lemma clmul_bits_numeral:
  "clmul_bits (numeral k) a b =
     (if bit b 0 then a else 0) XOR clmul_bits (pred_numeral k) (mulx a) (drop_bit 1 b)"
  by (simp only: numeral_eq_Suc clmul_bits.simps)

lemma mulx_literal:
  "mulx (numeral k) =
     (if bit (numeral k :: u16) 15 then push_bit 1 (numeral k) XOR 0x100B else push_bit 1 (numeral k))"
  "mulx 1 = 2"
  by (simp_all add: mulx_def)

lemmas clmul_eval = clmul_def clmul_bits_numeral mulx_literal

definition gf_sq :: "u16 \<Rightarrow> u16" where
  "gf_sq a = clmul a a"

lemma gf_sq_numeral: "gf_sq (numeral k) = clmul (numeral k) (numeral k)" "gf_sq 1 = clmul 1 1"
  by (simp_all add: gf_sq_def)

lemma pow_x_numeral:
  "pow_x (numeral num.One) = 2"
  "pow_x (numeral (num.Bit0 n)) = gf_sq (pow_x (numeral n))"
  "pow_x (numeral (num.Bit1 n)) = mulx (gf_sq (pow_x (numeral n)))"
  using pow_x_double [of "numeral n"] pow_x_double_Suc [of "numeral n"]
  by (simp_all add: gf_sq_def mulx_literal numeral_Bit0 [of n] numeral_Bit1 [of n] mult_2)

lemmas pow_x_eval = pow_x_numeral gf_sq_numeral clmul_eval

lemma pow_x_65535: "pow_x 65535 = 1"
  by (simp add: pow_x_eval)

lemma pow_x_proper_divisors:
  "pow_x 21845 \<noteq> 1" "pow_x 13107 \<noteq> 1" "pow_x 3855 \<noteq> 1" "pow_x 255 \<noteq> 1"
  by (simp_all add: pow_x_eval)

lemma coprime_or_dvd:
  fixes q :: nat
  assumes "\<forall>d \<in> {2..<q}. \<not> d dvd q" "1 < q"
  shows "q dvd e \<or> coprime e q"
proof (cases "q dvd e")
  case False
  define g where "g = gcd e q"
  have "g \<noteq> q" using False gcd_dvd1 [of e q] unfolding g_def by metis
  moreover have "g \<le> q" "0 < g" using assms(2) by (auto simp: g_def intro: dvd_imp_le)
  moreover have "g \<notin> {2..<q}" using assms(1) gcd_dvd2 [of e q] unfolding g_def by blast
  ultimately have "g = 1" by auto
  then show ?thesis by (simp add: g_def coprime_iff_gcd_eq_1)
qed simp

lemma small_primes:
  "\<forall>d \<in> {2..<3}. \<not> d dvd (3::nat)" "\<forall>d \<in> {2..<5}. \<not> d dvd (5::nat)"
  "\<forall>d \<in> {2..<17}. \<not> d dvd (17::nat)" "\<forall>d \<in> {2..<257}. \<not> d dvd (257::nat)"
  by code_simp+

lemma proper_divisor:
  assumes "g dvd 65535" "g \<noteq> (65535 :: nat)"
  shows "g dvd 21845 \<or> g dvd 13107 \<or> g dvd 3855 \<or> g dvd 255"
proof -
  obtain e where e: "65535 = g * e" using assms(1) by (rule dvdE)
  have "3 dvd e \<or> 5 dvd e \<or> 17 dvd e \<or> 257 dvd e"
  proof (rule ccontr)
    assume "\<not> ?thesis"
    then have "coprime e 3" "coprime e 5" "coprime e 17" "coprime e 257"
      using coprime_or_dvd [OF small_primes(1), of e] coprime_or_dvd [OF small_primes(2), of e]
        coprime_or_dvd [OF small_primes(3), of e] coprime_or_dvd [OF small_primes(4), of e] by auto
    then have "coprime e (3 * 5 * 17 * 257)" by (simp only: coprime_mult_right_iff)
    moreover have "e dvd 3 * 5 * 17 * 257" using e by (simp add: dvd_def) (metis mult.commute)
    ultimately have "e = 1" by (metis coprime_absorb_left nat_dvd_1_iff_1)
    then show False using e assms(2) by simp
  qed
  then show ?thesis
  proof (elim disjE)
    assume "3 dvd e" then obtain e' where "e = 3 * e'" by (rule dvdE)
    then have "21845 = g * e'" using e by (simp add: mult.commute) then show ?thesis by (metis dvd_triv_left)
  next
    assume "5 dvd e" then obtain e' where "e = 5 * e'" by (rule dvdE)
    then have "13107 = g * e'" using e by (simp add: mult.commute) then show ?thesis by (metis dvd_triv_left)
  next
    assume "17 dvd e" then obtain e' where "e = 17 * e'" by (rule dvdE)
    then have "3855 = g * e'" using e by (simp add: mult.commute) then show ?thesis by (metis dvd_triv_left)
  next
    assume "257 dvd e" then obtain e' where "e = 257 * e'" by (rule dvdE)
    then have "255 = g * e'" using e by (simp add: mult.commute) then show ?thesis by (metis dvd_triv_left)
  qed
qed

lemma pow_x_mult: "pow_x n = 1 \<Longrightarrow> pow_x (n * m) = 1"
  by (induction m) (simp_all add: funpow_add)

lemma pow_x_dvd: "pow_x n = 1 \<Longrightarrow> n dvd m \<Longrightarrow> pow_x m = 1"
  by (auto simp: dvd_def pow_x_mult)

lemma pow_x_gcd:
  assumes "pow_x m = 1" "pow_x n = 1" "0 < m"
  shows "pow_x (gcd m n) = 1"
proof -
  obtain x y where "m * x = n * y + gcd m n" using bezout_nat [of m n] assms(3) by auto
  then have "pow_x (m * x) = (mulx ^^ gcd m n) (pow_x (n * y))"
    by (simp add: mulx_pow_add add.commute)
  then show ?thesis using assms by (simp add: pow_x_mult)
qed

lemma pow_x_order:
  assumes "pow_x d = 1" "d < gfOrd"
  shows "d = 0"
proof (rule ccontr)
  assume "d \<noteq> 0"
  let ?g = "gcd d gfOrd"
  have "pow_x ?g = 1" using assms \<open>d \<noteq> 0\<close> by (intro pow_x_gcd) (auto simp: pow_x_65535)
  moreover have "?g \<le> d" using \<open>d \<noteq> 0\<close> by (intro dvd_imp_le) auto
  then have "?g \<noteq> gfOrd" using assms by linarith
  then have "?g dvd 21845 \<or> ?g dvd 13107 \<or> ?g dvd 3855 \<or> ?g dvd 255"
    by (intro proper_divisor) auto
  ultimately show False using pow_x_dvd [of ?g] pow_x_proper_divisors by blast
qed

lemma pow_x_inj_on: "inj_on pow_x {..<gfOrd}"
proof -
  have "i = j" if "pow_x i = pow_x j" "i \<le> j" "j < gfOrd" for i j
  proof -
    have "pow_x j = (mulx ^^ i) (pow_x (j - i))" using that by (simp add: mulx_pow_add)
    then have "pow_x (j - i) = 1" using that mulx_pow_inj [of i 1 "pow_x (j - i)"] by simp
    then show ?thesis using that pow_x_order [of "j - i"] by linarith
  qed
  then show ?thesis by (intro inj_onI) (metis lessThan_iff nle_le)
qed

lemma pow_x_nonzero [simp]: "pow_x n \<noteq> 0"
  by (simp add: mulx_pow_eq_0)

lemma pow_x_image: "pow_x ` {..<gfOrd} = UNIV - {0}"
proof (rule card_subset_eq)
  show "card (pow_x ` {..<gfOrd}) = card (UNIV - {0 :: u16})"
    by (simp add: card_image [OF pow_x_inj_on] card_Diff_subset card_word)
qed auto

lemma pow_x_mod: "pow_x (n mod gfOrd) = pow_x n"
proof -
  have "pow_x n = (mulx ^^ (n mod gfOrd)) (pow_x (gfOrd * (n div gfOrd)))"
    by (simp add: mulx_pow_add del: mult_div_mod_eq) 
  then show ?thesis using pow_x_mult [OF pow_x_65535] by simp
qed

section \<open>The tables\<close>

lemma gf_shift:
  fixes a :: u16
  defines "x1 \<equiv> push_bit 1 (ucast a :: u32)"
  shows "(if x1 AND of_nat gfSize \<noteq> 0 then x1 XOR gfPoly else x1) = ucast (mulx a)"
proof -
  have b: "bit x1 n \<longleftrightarrow> 0 < n \<and> n \<le> 16 \<and> bit a (n - 1)" for n
    unfolding x1_def bit_push_bit_iff by (auto simp: bit_simps dest: bit_imp_le_length)
  have t: "(x1 AND of_nat gfSize \<noteq> 0) = bit a 15"
    using and_exp_eq_0_iff_not_bit [of x1 16] b [of 16] by simp
  have u: "bit (ucast (push_bit 1 a) :: u32) n \<longleftrightarrow> 0 < n \<and> n < 16 \<and> bit a (n - 1)" if "n < 32" for n
  proof -
    have "bit (push_bit 1 a) n \<longleftrightarrow> 0 < n \<and> n < 16 \<and> bit a (n - 1)"
      unfolding bit_push_bit_iff by (auto dest: bit_imp_le_length)
    then show ?thesis using that unfolding bit_ucast_iff by (auto simp: possible_bit_def)
  qed
  show ?thesis
  proof (cases "bit a 15")
    case True
    have "x1 XOR 0x10000 = ucast (push_bit 1 a)"
    proof (rule bit_word_eqI)
      fix n assume n: "n < LENGTH(32)"
      have "(0x10000 :: u32) = 2 ^ 16" by simp
      then have e: "bit (0x10000 :: u32) n \<longleftrightarrow> n = 16"
        by (simp only: bit_exp_iff) (auto simp: possible_bit_def)
      show "bit (x1 XOR 0x10000) n = bit (ucast (push_bit 1 a) :: u32) n"
        unfolding bit_xor_iff b e using True u [of n] n by (cases "n = 16") auto
    qed
    moreover have "gfPoly = 0x10000 XOR 0x100B" by simp
    ultimately have "x1 XOR gfPoly = ucast (push_bit 1 a) XOR 0x100B"
      by (simp only: xor.assoc [symmetric])
    then have "x1 XOR gfPoly = ucast (push_bit 1 a XOR 0x100B)"
      by (simp add: unsigned_xor_eq)
    then show ?thesis using True t by (simp add: mulx_def)
  next
    case False
    have "x1 = ucast (push_bit 1 a)"
    proof (rule bit_word_eqI)
      fix n assume "n < LENGTH(32)"
      then show "bit x1 n = bit (ucast (push_bit 1 a) :: u32) n"
        unfolding b using False u [of n] by (cases "n = 16") auto
    qed
    then show ?thesis using False t by (simp add: mulx_def)
  qed
qed

lemma unat_u16_less: "unat (a :: u16) < 65536"
  using unsigned_less [of a, where ?'a = nat] by simp

lemma ucast_u16_u32: "unat (ucast (a :: u16) :: u32) = unat a" "ucast (ucast a :: u32) = a"
proof -
  show u: "unat (ucast (a :: u16) :: u32) = unat a"
    using unat_u16_less [of a] by (simp add: unsigned_ucast_eq take_bit_nat_eq_self)
  show "ucast (ucast a :: u32) = a"
    by (simp only: word_unat_eq_iff unsigned_ucast_eq) (simp add: take_bit_word_eq_self)
qed

lemma gf_init_step_pow:
  "gf_init_step i (ucast (pow_x n), t) =
     (ucast (pow_x (Suc n)),
      t\<lparr>exp_tab := (exp_tab t)(i := pow_x n), log_tab := (log_tab t)(unat (pow_x n) := of_nat i)\<rparr>)"
  unfolding gf_init_step_def Let_def prod.case gf_shift ucast_u16_u32 by simp

lemma gf_init_fold:
  assumes "n \<le> gfOrd"
  shows "\<exists>t. fold gf_init_step [0..<n] (1, \<lparr>exp_tab = (\<lambda>_. 0), log_tab = (\<lambda>_. 0)\<rparr>) = (ucast (pow_x n), t)
    \<and> (\<forall>i < n. exp_tab t i = pow_x i \<and> log_tab t (unat (pow_x i)) = of_nat i)"
  using assms
proof (induction n)
  case 0
  then show ?case by simp
next
  case (Suc n)
  then obtain t where t: "fold gf_init_step [0..<n] (1, \<lparr>exp_tab = (\<lambda>_. 0), log_tab = (\<lambda>_. 0)\<rparr>) = (ucast (pow_x n), t)"
    "\<forall>i < n. exp_tab t i = pow_x i \<and> log_tab t (unat (pow_x i)) = of_nat i" by auto
  have "unat (pow_x i) \<noteq> unat (pow_x n)" if "i < n" for i
    using inj_onD [OF pow_x_inj_on, of i n] that Suc.prems by (auto simp: word_unat_eq_iff)
  then show ?case using t(2)
    by (simp only: fold_upt_Suc t(1) gf_init_step_pow) (auto simp: less_Suc_eq)
qed

lemma gfExp_pow_x: "i \<le> gfOrd \<Longrightarrow> gfExp i = pow_x i"
  using gf_init_fold [of gfOrd] pow_x_65535
  by (cases "i = gfOrd") (auto simp: gfExp_def initGFTables_def)

lemma gfLog_pow_x: "i < gfOrd \<Longrightarrow> gfLog (pow_x i) = of_nat i"
  using gf_init_fold [of gfOrd] by (auto simp: gfLog_def initGFTables_def)

text \<open>Every nonzero element has a logarithm below the group order, and the exponent table inverts it.\<close>

lemma gfLog_cases:
  assumes "a \<noteq> 0"
  obtains i where "i < gfOrd" "a = pow_x i" "unat (gfLog a) = i"
proof -
  from assms have "a \<in> pow_x ` {..<gfOrd}" by (simp only: pow_x_image) simp
  then obtain i where i: "i < gfOrd" "a = pow_x i" by auto
  moreover have "unat (gfLog a) = i"
    using i by (simp add: gfLog_pow_x unat_of_nat take_bit_nat_eq_self)
  ultimately show thesis using that by blast
qed

section \<open>The field operations\<close>

lemma gfMul_clmul: "gfMul a b = clmul a b"
proof (cases "a = 0 \<or> b = 0")
  case True
  then show ?thesis by (auto simp: gfMul_def clmul_def clmul_commute [of 0, unfolded clmul_def])
next
  case False
  then obtain i j where i: "i < gfOrd" "a = pow_x i" "unat (gfLog a) = i"
    and j: "j < gfOrd" "b = pow_x j" "unat (gfLog b) = j"
    by (metis gfLog_cases)
  let ?s = "if i + j \<ge> gfOrd then i + j - gfOrd else i + j"
  have "?s = (i + j) mod gfOrd" "?s \<le> gfOrd" using i(1) j(1) by (auto simp: mod_if)
  then have "gfExp ?s = pow_x (i + j)" using gfExp_pow_x [of ?s] pow_x_mod [of "i + j"] by argo
  then show ?thesis using False i j by (simp add: gfMul_def Let_def clmul_pow_x_left mulx_pow_add)
qed

lemma gfMul_pow_x: "gfMul (pow_x i) (pow_x j) = pow_x (i + j)"
  by (simp add: gfMul_clmul clmul_pow_x_left mulx_pow_add)

lemma gfMul_0 [simp]: "gfMul 0 a = 0" "gfMul a 0 = 0"
  by (simp_all add: gfMul_def)

lemma gfMul_commute: "gfMul a b = gfMul b a"
  by (simp add: gfMul_clmul clmul_commute)

lemma gfMul_assoc: "gfMul (gfMul a b) c = gfMul a (gfMul b c)"
proof (cases "a = 0 \<or> b = 0 \<or> c = 0")
  case False
  then obtain i j k where "a = pow_x i" "b = pow_x j" "c = pow_x k" by (metis gfLog_cases)
  then show ?thesis by (simp add: gfMul_pow_x add.assoc)
qed auto

lemma gfMul_1 [simp]: "gfMul 1 a = a" "gfMul a 1 = a"
  using clmul_pow_x_left [of 0 a] by (simp_all add: gfMul_clmul clmul_commute [of a])

lemma gfMul_xor: "gfMul (a XOR b) c = gfMul a c XOR gfMul b c"
  "gfMul c (a XOR b) = gfMul c a XOR gfMul c b"
  by (simp_all add: gfMul_clmul clmul_xor_left clmul_xor_right)

lemma gfMul_gfInv: "a \<noteq> 0 \<Longrightarrow> gfMul a (gfInv a) = 1"
proof -
  assume a: "a \<noteq> 0"
  then obtain i where i: "i < gfOrd" "a = pow_x i" "unat (gfLog a) = i" by (rule gfLog_cases)
  then have "gfInv a = pow_x (gfOrd - i)" using a by (simp add: gfInv_def gfExp_pow_x)
  then show ?thesis using i by (simp add: gfMul_pow_x pow_x_65535)
qed

lemma gfMul_eq_0: "gfMul a b = 0 \<longleftrightarrow> a = 0 \<or> b = 0"
  by (metis gfMul_0 gfLog_cases gfMul_pow_x pow_x_nonzero)

lemma gfPow_iterate: "gfPow a e = (gfMul a ^^ unat e) 1"
proof (cases "a = 0")
  case True
  then show ?thesis by (cases "unat e") (auto simp: gfPow_def unat_eq_zero)
next
  case False
  then obtain i where i: "i < gfOrd" "a = pow_x i" "unat (gfLog a) = i" by (rule gfLog_cases)
  have pow: "(gfMul a ^^ n) 1 = pow_x (i * n)" for n
    by (induction n) (simp_all add: i(2) gfMul_pow_x)
  show ?thesis unfolding pow using False i(3)
    by (auto simp: gfPow_def gfExp_pow_x [OF less_imp_le] pow_x_mod)
qed

section \<open>The field interface\<close>

interpretation gf: char2_field gfMul gfInv
proof unfold_locales
  show "gfMul a b = gfMul b a" for a b by (rule gfMul_commute)
qed (simp_all add: gfMul_assoc gfMul_xor gfMul_gfInv)

abbreviation gf_dot :: "u16 list \<Rightarrow> u16 list \<Rightarrow> u16" where
  "gf_dot \<equiv> dot_with gfMul"

section \<open>The region primitive\<close>

lemma length_region: "length (region_xor ds ss) = length ds" "length (region_mul_xor l ds ss) = length ds"
  by (induction ds ss rule: region_xor.induct) (simp_all add: Let_def)

lemma region_xor_words:
  "length ds = length ss \<Longrightarrow> le_words (region_xor ds ss) = vec_xor (le_words ds) (le_words ss)"
  by (induction ds ss rule: region_xor.induct) (simp_all add: le16_xor le_words_short)

lemma region_mul_xor_words:
  "length ds = length ss \<Longrightarrow> c \<noteq> 0 \<Longrightarrow>
   le_words (region_mul_xor (unat (gfLog c)) ds ss) =
   vec_xor (le_words ds) (map (gfMul c) (le_words ss))"
proof (induction "unat (gfLog c)" ds ss rule: region_mul_xor.induct)
  case (1 d0 d1 ds s0 s1 ss)
  show ?case
  proof (cases "le16 s0 s1 = 0")
    case True
    then show ?thesis using 1 by (simp add: Let_def)
  next
    case False
    let ?s = "unat (gfLog (le16 s0 s1)) + unat (gfLog c)"
    have "gfExp (if ?s \<ge> gfOrd then ?s - gfOrd else ?s) = gfMul (le16 s0 s1) c"
      using False 1 by (simp add: gfMul_def Let_def)
    then show ?thesis using False 1
      by (simp add: Let_def le16_xor gfMul_commute [of c])
  qed
qed (simp_all add: le_words_short)

lemma regionMulXOR_words:
  assumes "length dst = length src"
  obtains out where "regionMulXOR dst src c = Some out" "length out = length dst"
    "le_words out = vec_xor (le_words dst) (map (gfMul c) (le_words src))"
proof -
  have z: "vec_xor xs (map (gfMul 0) ys) = xs" if "length xs = length ys" for xs ys
    using that by (induction xs ys rule: list_induct2) simp_all
  have o: "map (gfMul 1) ys = ys" for ys by (simp add: map_idI)
  show thesis
    using assms that
    by (cases "c = 0"; cases "c = 1")
      (simp_all add: regionMulXOR_def length_region region_xor_words region_mul_xor_words z o)
qed

text \<open>Literals: an inverse is recognised by multiplying, a power is evaluated by repeated products.\<close>

lemma gfInv_eqI: "gfMul a b = 1 \<Longrightarrow> gfInv a = b"
proof -
  assume ab: "gfMul a b = 1"
  then have "a \<noteq> 0" by auto
  then have "b = gfMul (gfMul a (gfInv a)) b" by (simp add: gfMul_gfInv)
  also have "\<dots> = gfMul (gfInv a) (gfMul a b)" by (simp add: gfMul_assoc gfMul_commute [of a])
  finally show ?thesis using ab by simp
qed

lemma gfMul_numeral:
  "gfMul (numeral k) (numeral l) = clmul (numeral k) (numeral l)"
  by (rule gfMul_clmul)

lemmas gf_eval = gfMul_numeral clmul_eval

section \<open>Properties\<close>

text \<open>C34. The table-driven product \<^verbatim>\<open>gfMul\<close> is the schoolbook product of polynomials over GF(2) reduced by
  the PAR2 polynomial x^16 + x^12 + x^3 + x + 1 (shift-and-xor, 16 rounds), for all 2^32 pairs of
  operands.\<close>

theorem gfMul_polynomial_product: "gfMul a b = clmul a b"
  by (rule gfMul_clmul)

text \<open>The tables built by \<^verbatim>\<open>initGFTables\<close> enumerate every nonzero element exactly once: \<^verbatim>\<open>gfExp\<close> is
  injective below the group order, reaches every nonzero word, wraps at 65535, and \<^verbatim>\<open>gfLog\<close> inverts
  it.\<close>

lemma gf_tables_bijective:
  "inj_on gfExp {..<gfOrd} \<and> gfExp ` {..<gfOrd} = UNIV - {0} \<and> gfExp gfOrd = gfExp 0 \<and>
   (\<forall>a. a \<noteq> 0 \<longrightarrow> unat (gfLog a) < gfOrd \<and> gfExp (unat (gfLog a)) = a)"
proof (intro conjI allI impI)
  show "inj_on gfExp {..<gfOrd}"
    using pow_x_inj_on inj_on_cong [of "{..<gfOrd}" gfExp pow_x] gfExp_pow_x by simp
  show "gfExp ` {..<gfOrd} = UNIV - {0}"
    using pow_x_image image_cong [of "{..<gfOrd}" "{..<gfOrd}" gfExp pow_x] gfExp_pow_x by simp
  show "gfExp gfOrd = gfExp 0" using pow_x_65535 by (simp add: gfExp_pow_x)
next
  fix a :: u16 assume "a \<noteq> 0"
  then obtain i where "i < gfOrd" "a = pow_x i" "unat (gfLog a) = i" by (rule gfLog_cases)
  then show "unat (gfLog a) < gfOrd" "gfExp (unat (gfLog a)) = a" by (simp_all add: gfExp_pow_x)
qed

text \<open>With exclusive or as addition, \<^verbatim>\<open>gfMul\<close> and \<^verbatim>\<open>gfInv\<close> satisfy the laws of a field, and
  \<^verbatim>\<open>gfPow\<close> (whose exponent is reduced modulo the group order) is the iterated product for every 32-bit
  exponent.\<close>

lemma gf_field_laws:
  "gfMul a b = gfMul b a \<and> gfMul (gfMul a b) c = gfMul a (gfMul b c) \<and> gfMul 1 a = a \<and>
   gfMul (a XOR b) c = gfMul a c XOR gfMul b c \<and> (a = 0 \<or> gfMul a (gfInv a) = 1) \<and>
   gfPow a e = (gfMul a ^^ unat e) 1"
  using gfMul_assoc gfMul_gfInv gfMul_xor gfPow_iterate
  by (simp add: gfMul_commute [of b a]) blast

text \<open>On slices of equal length \<^verbatim>\<open>regionMulXOR\<close> does not panic, keeps the length, and adds \<open>c\<close> times
  every little-endian word of the source to the destination word; on slices of different lengths it
  panics.\<close>

lemma regionMulXOR_adds_multiple:
  "(length dst \<noteq> length src \<longrightarrow> regionMulXOR dst src c = None) \<and>
   (length dst = length src \<longrightarrow> (\<exists>out. regionMulXOR dst src c = Some out \<and> length out = length dst \<and>
      le_words out = vec_xor (le_words dst) (map (gfMul c) (le_words src))))"
proof (intro conjI impI)
  show "regionMulXOR dst src c = None" if "length dst \<noteq> length src"
    using that by (simp add: regionMulXOR_def)
  show "\<exists>out. regionMulXOR dst src c = Some out \<and> length out = length dst \<and>
      le_words out = vec_xor (le_words dst) (map (gfMul c) (le_words src))"
    if "length dst = length src"
    using regionMulXOR_words [OF that] by blast
qed

end
