(* ===== verification/Par2_Constants.thy ===== *)
theory Par2_Constants
  imports GF16
begin

unbundle bit_operations_syntax

text \<open>
  The constants PAR2 assigns to input slices: the first part of \<^verbatim>\<open>src/pkg/usenet/par2/matrix.go\<close>. Slice
  \<open>i\<close> gets \<open>2\<close> to the \<open>(i+1)\<close>-th positive integer that is not a multiple of 3, 5, 17 or 257. The cached
  table is shown to hold exactly these constants and to hold 32768 different nonzero ones.
\<close>

section \<open>Definitions\<close>

abbreviation maxInputSlices :: nat where "maxInputSlices \<equiv> 32768"

definition isValidExponentCandidate :: "nat \<Rightarrow> bool" where
  "isValidExponentCandidate n \<longleftrightarrow> n mod 3 \<noteq> 0 \<and> n mod 5 \<noteq> 0 \<and> n mod 17 \<noteq> 0 \<and> n mod 257 \<noteq> 0"

lemma next_candidate: "\<exists>d. isValidExponentCandidate (v + d)"
proof
  have "v + (65534 * v + 1) = 1 + 3 * (21845 * v)" "v + (65534 * v + 1) = 1 + 5 * (13107 * v)"
    "v + (65534 * v + 1) = 1 + 17 * (3855 * v)" "v + (65534 * v + 1) = 1 + 257 * (255 * v)" by simp_all
  then have "(v + (65534 * v + 1)) mod 3 = 1 mod 3" "(v + (65534 * v + 1)) mod 5 = 1 mod 5"
    "(v + (65534 * v + 1)) mod 17 = 1 mod 17" "(v + (65534 * v + 1)) mod 257 = 1 mod 257"
    by (metis mod_mult_self2)+
  then show "isValidExponentCandidate (v + (65534 * v + 1))"
    unfolding isValidExponentCandidate_def by simp
qed

definition candidate_gap :: "nat \<Rightarrow> nat" where
  "candidate_gap v = (LEAST d. isValidExponentCandidate (v + d))"

lemma candidate_gap_Suc: "\<not> isValidExponentCandidate v \<Longrightarrow> candidate_gap (Suc v) < candidate_gap v"
proof -
  assume nv: "\<not> isValidExponentCandidate v"
  have ex: "isValidExponentCandidate (v + candidate_gap v)"
    unfolding candidate_gap_def by (rule LeastI_ex [OF next_candidate])
  then obtain d where d: "candidate_gap v = Suc d" using nv by (cases "candidate_gap v") auto
  then have "candidate_gap (Suc v) \<le> d"
    using ex unfolding candidate_gap_def [of "Suc v"] by (intro Least_le) simp
  then show ?thesis by (simp add: d)
qed

text \<open>\<^verbatim>\<open>buildInputConstants\<close>: \<open>need\<close> is the number of table entries still to fill, \<open>v\<close> the loop variable.\<close>

function build_constants :: "nat \<Rightarrow> nat \<Rightarrow> u16 list" where
  "build_constants need v =
     (if need = 0 then []
      else if isValidExponentCandidate v
      then gfPow 2 (of_nat v) # build_constants (need - 1) (v + 1)
      else build_constants need (v + 1))"
  by pat_completeness auto
termination
  by (relation "measures [\<lambda>(need, v). need, \<lambda>(need, v). candidate_gap v]")
    (auto simp: candidate_gap_Suc)

declare build_constants.simps [simp del]

definition buildInputConstants :: "u16 list" where
  "buildInputConstants = build_constants maxInputSlices 1"

text \<open>An index outside the table panics (\<^term>\<open>None\<close>).\<close>

definition inputConstant :: "int \<Rightarrow> u16 option" where
  "inputConstant i =
     (if i < 0 \<or> i \<ge> int maxInputSlices then None else Some (buildInputConstants ! nat i))"

text \<open>\<^verbatim>\<open>nthValidExponent\<close> never returns for \<open>n \<le> 0\<close>; the model's value is then \<^term>\<open>None\<close>.\<close>

partial_function (option) nth_exponent_loop :: "nat \<Rightarrow> nat \<Rightarrow> nat \<Rightarrow> nat option" where
  "nth_exponent_loop n count v =
     (if isValidExponentCandidate v then
        (if count + 1 = n then Some v else nth_exponent_loop n (count + 1) (v + 1))
      else nth_exponent_loop n count (v + 1))"

definition nthValidExponent :: "nat \<Rightarrow> nat option" where
  "nthValidExponent n = nth_exponent_loop n 0 1"

section \<open>Counting the candidates\<close>

text \<open>One step of the sieve: striking out the multiples of \<open>p\<close> from a set with period \<open>N\<close>.\<close>

lemma periodic_count:
  assumes per: "\<And>n v. P (N * n + v) \<longleftrightarrow> P (v :: nat)"
  shows "card {v. v < N * n \<and> P v} = n * card {v. v < N \<and> P v}"
proof (induction n)
  case (Suc n)
  let ?A = "{v. v < N * n \<and> P v}" and ?B = "(\<lambda>v. N * n + v) ` {v. v < N \<and> P v}"
  have "{v. v < N * Suc n \<and> P v} = ?A \<union> ?B"
  proof (intro equalityI subsetI)
    fix v assume v: "v \<in> {v. v < N * Suc n \<and> P v}"
    show "v \<in> ?A \<union> ?B"
    proof (cases "v < N * n")
      case False
      then have "v = N * n + (v - N * n)" by simp
      then show ?thesis using v per [of n "v - N * n"] by (auto intro!: image_eqI)
    qed (use v in auto)
  qed (auto simp: per)
  moreover have "?A \<inter> ?B = {}" by auto
  moreover have "card ?B = card {v. v < N \<and> P v}" by (subst card_image) auto
  ultimately show ?case using Suc by (simp add: card_Un_disjoint)
qed simp

lemma sieve_count:
  assumes per: "\<And>n v. P (N * n + v) \<longleftrightarrow> P (v :: nat)" and sc: "\<And>w. P (p * w) \<longleftrightarrow> P w" and p: "0 < p"
  shows "card {v. v < N * p \<and> P v \<and> \<not> p dvd v} = (p - 1) * card {v. v < N \<and> P v}"
proof -
  let ?S = "{v. v < N * p \<and> P v}" and ?T = "(\<lambda>w. p * w) ` {w. w < N \<and> P w}"
  have "{v. v < N * p \<and> P v \<and> \<not> p dvd v} = ?S - ?T" using p by (auto simp: sc elim!: dvdE)
  moreover have "?T \<subseteq> ?S" using p by (auto simp: sc)
  moreover have "card ?T = card {v. v < N \<and> P v}" using p by (subst card_image) (auto simp: inj_on_def)
  ultimately show ?thesis
    using periodic_count [of P N p, OF per] by (simp add: card_Diff_subset finite_subset diff_mult_distrib)
qed

lemma dvd_periodic: "q dvd N \<Longrightarrow> q dvd N * n + v \<longleftrightarrow> q dvd (v :: nat)"
  by (simp add: dvd_add_right_iff)

lemma candidate_dvd:
  "isValidExponentCandidate v \<longleftrightarrow> ((\<not> 3 dvd v \<and> \<not> 5 dvd v) \<and> \<not> 17 dvd v) \<and> \<not> 257 dvd v"
  by (auto simp: isValidExponentCandidate_def mod_eq_0_iff_dvd)

lemma candidate_card: "card {v. v < 65535 \<and> isValidExponentCandidate v} = maxInputSlices"
proof -
  have c: "coprime 3 (5 :: nat)" "coprime 3 (17 :: nat)" "coprime 3 (257 :: nat)"
    "coprime 5 (17 :: nat)" "coprime 5 (257 :: nat)" "coprime 17 (257 :: nat)" by code_simp+
  have d: "(5 :: nat) dvd 15" "(3 :: nat) dvd 15" "(5 :: nat) dvd 255" "(3 :: nat) dvd 255" "(17 :: nat) dvd 255" by simp_all
  note sc = coprime_dvd_mult_right_iff dvd_periodic c d
  have 3: "card {v. v < 3 \<and> \<not> 3 dvd (v :: nat)} = 2"
    using sieve_count [of "\<lambda>_. True" 1 3] by simp
  have 15: "card {v. v < 15 \<and> \<not> 3 dvd v \<and> \<not> 5 dvd (v :: nat)} = 8"
    using sieve_count [of "\<lambda>v. \<not> 3 dvd v" 3 5] 3 by (simp add: sc)
  have 255: "card {v. v < 255 \<and> (\<not> 3 dvd v \<and> \<not> 5 dvd v) \<and> \<not> 17 dvd (v :: nat)} = 128"
    using sieve_count [of "\<lambda>v. \<not> 3 dvd v \<and> \<not> 5 dvd v" 15 17] 15 by (simp add: sc)
  show ?thesis
    using sieve_count [of "\<lambda>v. (\<not> 3 dvd v \<and> \<not> 5 dvd v) \<and> \<not> 17 dvd v" 255 257] 255
    by (simp add: sc candidate_dvd)
qed

definition candidates :: "nat list" where
  "candidates = filter isValidExponentCandidate [1..<65535]"

lemma length_candidates: "length candidates = maxInputSlices"
proof -
  have "set candidates = {v. v < 65535 \<and> isValidExponentCandidate v}"
    by (auto simp: candidates_def isValidExponentCandidate_def intro: Suc_leI gr0I)
  then show ?thesis
    using candidate_card distinct_card [of candidates] by (simp add: candidates_def)
qed

text \<open>The table is the constants of the candidates in order, and the loop of \<^verbatim>\<open>nthValidExponent\<close>
  returns the same candidates.\<close>

lemma build_constants_filter:
  "need = length (filter isValidExponentCandidate [v..<w]) \<Longrightarrow>
   build_constants need v = map (\<lambda>v. gfPow 2 (of_nat v)) (filter isValidExponentCandidate [v..<w])"
proof (induction "w - v" arbitrary: v need)
  case 0
  then show ?case by (simp add: build_constants.simps [of 0])
next
  case (Suc n)
  then have u: "[v..<w] = v # [Suc v..<w]" and n: "n = w - Suc v" by (simp_all add: upt_conv_Cons)
  show ?case
  proof (cases "need = 0")
    case True
    then show ?thesis using Suc.prems by (simp add: build_constants.simps [of 0])
  next
    case False
    then show ?thesis
      using Suc.hyps(1) [OF n] Suc.prems
      by (subst build_constants.simps) (auto simp: u)
  qed
qed

lemma buildInputConstants_eq: "buildInputConstants = map (\<lambda>v. gfPow 2 (of_nat v)) candidates"
  using build_constants_filter [of maxInputSlices 1 65535] length_candidates
  by (simp add: buildInputConstants_def candidates_def)

lemma length_buildInputConstants [simp]: "length buildInputConstants = maxInputSlices"
  by (simp add: buildInputConstants_eq length_candidates)

lemma gfPow_2: "v < gfOrd \<Longrightarrow> gfPow 2 (of_nat v) = pow_x v"
proof -
  assume v: "v < gfOrd"
  have "(gfMul 2 ^^ n) 1 = pow_x n" for n
    using gfMul_pow_x [of 1] by (induction n) (simp_all add: mulx_literal)
  moreover have "unat (of_nat v :: u32) = v" using v by (simp add: unat_of_nat take_bit_nat_eq_self)
  ultimately show ?thesis by (simp add: gfPow_iterate)
qed

lemma candidates_less: "v \<in> set candidates \<Longrightarrow> v < gfOrd"
  by (auto simp: candidates_def)

lemma buildInputConstants_pow_x: "buildInputConstants = map pow_x candidates"
  unfolding buildInputConstants_eq using candidates_less by (intro map_cong) (auto simp: gfPow_2)

lemma inputConstants_distinct: "distinct buildInputConstants"
  unfolding buildInputConstants_pow_x distinct_map
proof
  show "distinct candidates" by (simp add: candidates_def)
  show "inj_on pow_x (set candidates)"
    using candidates_less by (intro inj_on_subset [OF pow_x_inj_on] subsetI) simp
qed

lemma inputConstants_nonzero: "0 \<notin> set buildInputConstants"
  by (auto simp: buildInputConstants_pow_x)

lemma nth_exponent_loop_filter:
  "n < count + 1 + length (filter isValidExponentCandidate [v..<w]) \<Longrightarrow> count < n \<Longrightarrow>
   nth_exponent_loop n count v = Some (filter isValidExponentCandidate [v..<w] ! (n - count - 1))"
proof (induction "w - v" arbitrary: v count)
  case (Suc m)
  then have u: "[v..<w] = v # [Suc v..<w]" and m: "m = w - Suc v" by (simp_all add: upt_conv_Cons)
  show ?case
    using Suc.hyps(1) [OF m] Suc.prems
    by (subst nth_exponent_loop.simps) (auto simp: u nth_Cons' Suc_diff_Suc)
qed simp

lemma nthValidExponent_candidates:
  "i < maxInputSlices \<Longrightarrow> nthValidExponent (i + 1) = Some (candidates ! i)"
  using nth_exponent_loop_filter [of "i + 1" 0 1 65535] length_candidates
  by (simp add: nthValidExponent_def candidates_def)

section \<open>Properties\<close>

text \<open>The cached table of \<^verbatim>\<open>buildInputConstants\<close> holds 32768 pairwise different nonzero constants, and
  entry \<open>i\<close> is 2 raised to the exponent \<^verbatim>\<open>nthValidExponent(i+1)\<close> finds by its unbounded search, which
  returns for every index of the table.\<close>

lemma inputConstant_table:
  "distinct buildInputConstants \<and> 0 \<notin> set buildInputConstants \<and>
   (\<forall>i < maxInputSlices. \<exists>v. nthValidExponent (i + 1) = Some v \<and>
      inputConstant (int i) = Some (gfPow 2 (of_nat v)))"
proof (intro conjI allI impI)
  fix i assume i: "i < maxInputSlices"
  show "\<exists>v. nthValidExponent (i + 1) = Some v \<and> inputConstant (int i) = Some (gfPow 2 (of_nat v))"
    using i length_candidates
    by (simp add: nthValidExponent_candidates [unfolded add_0, simplified] inputConstant_def
        buildInputConstants_eq)
qed (fact inputConstants_distinct inputConstants_nonzero)+

end
