(* ===== verification/Par2_Matrix.thy ===== *)
theory Par2_Matrix
  imports Par2_Constants
begin

unbundle bit_operations_syntax

text \<open>
  The matrix side of PAR2 repair: \<^verbatim>\<open>src/pkg/usenet/par2/matrix.go\<close>: Gauss-Jordan inversion over GF(2^16), and the greedy choice of an independent set of
  recovery slices. The inversion is shown to succeed exactly on the matrices with a trivial kernel
  and to return a left inverse; the greedy choice returns rows the inversion accepts, and fails only
  when every choice of rows is singular.
\<close>

section \<open>Definitions\<close>

datatype matrix_error =
    NotSquare nat
  | SingularAt nat
  | PickCount nat nat
  | PickIndexOutOfRange int
  | NotIndependent nat nat

type_synonym gfMatrix = "u16 list list"

definition find_pivot :: "nat \<Rightarrow> nat \<Rightarrow> gfMatrix \<Rightarrow> nat option" where
  "find_pivot k col aug = find (\<lambda>r. aug ! r ! col \<noteq> 0) [col..<k]"

definition scale_row :: "nat \<Rightarrow> nat \<Rightarrow> u16 list \<Rightarrow> u16 list" where
  "scale_row k col row =
     (let i = gfInv (row ! col)
      in if i \<noteq> 1 then fold (\<lambda>c row. row[c := gfMul (row ! c) i]) [col..<2 * k] row else row)"

definition eliminate_row :: "nat \<Rightarrow> nat \<Rightarrow> u16 list \<Rightarrow> u16 list \<Rightarrow> u16 list" where
  "eliminate_row k col pivotRow row =
     (let factor = row ! col
      in if factor = 0 then row
         else fold (\<lambda>c row. row[c := row ! c XOR gfMul (pivotRow ! c) factor]) [col..<2 * k] row)"

definition eliminate :: "nat \<Rightarrow> nat \<Rightarrow> gfMatrix \<Rightarrow> gfMatrix" where
  "eliminate k col aug =
     fold (\<lambda>r aug. if r = col then aug else aug[r := eliminate_row k col (aug ! col) (aug ! r)])
       [0..<k] aug"

definition gauss_column :: "nat \<Rightarrow> nat \<Rightarrow> gfMatrix \<Rightarrow> matrix_error + gfMatrix" where
  "gauss_column k col aug =
     (case find_pivot k col aug of
        None \<Rightarrow> Inl (SingularAt col)
      | Some pivot \<Rightarrow>
          let aug1 = aug[col := aug ! pivot, pivot := aug ! col];
              aug2 = aug1[col := scale_row k col (aug1 ! col)]
          in Inr (eliminate k col aug2))"

fun gauss_columns :: "nat \<Rightarrow> nat list \<Rightarrow> gfMatrix \<Rightarrow> matrix_error + gfMatrix" where
  "gauss_columns k [] aug = Inr aug"
| "gauss_columns k (col # cols) aug =
     (case gauss_column k col aug of Inl e \<Rightarrow> Inl e | Inr aug' \<Rightarrow> gauss_columns k cols aug')"

definition augment :: "gfMatrix \<Rightarrow> gfMatrix" where
  "augment m = map (\<lambda>i. m ! i @ unit_vec (length m) i) [0..<length m]"

definition invertMatrix :: "gfMatrix \<Rightarrow> matrix_error + gfMatrix" where
  "invertMatrix m =
     (let k = length m
      in if \<exists>row \<in> set m. length row \<noteq> k then Inl (NotSquare k)
         else case gauss_columns k [0..<k] (augment m) of
                Inl e \<Rightarrow> Inl e
              | Inr aug \<Rightarrow> Inr (map (drop k) aug))"

text \<open>\<^verbatim>\<open>PickRecovery\<close> keeps reduced rows with the column of their leading entry.\<close>

fun reduce_row :: "u16 list \<Rightarrow> (u16 list \<times> nat) list \<Rightarrow> u16 list" where
  "reduce_row row [] = row"
| "reduce_row row ((b, p) # basis) =
     (let f = row ! p
      in reduce_row (if f \<noteq> 0 then map2 (\<lambda>r b. r XOR gfMul b f) row b else row) basis)"

definition recovery_row :: "u16 list \<Rightarrow> u32 \<Rightarrow> u16 list" where
  "recovery_row consts e = map (\<lambda>c. gfPow c e) consts"

fun pick_loop ::
  "nat \<Rightarrow> u16 list \<Rightarrow> nat \<Rightarrow> u32 list \<Rightarrow> (u16 list \<times> nat) list \<Rightarrow> nat list \<Rightarrow> nat list option" where
  "pick_loop k consts j [] basis chosen = None"
| "pick_loop k consts j (e # es) basis chosen =
     (let row = reduce_row (recovery_row consts e) basis
      in case find (\<lambda>c. row ! c \<noteq> 0) [0..<k] of
           None \<Rightarrow> pick_loop k consts (Suc j) es basis chosen
         | Some pivot \<Rightarrow>
             let i = gfInv (row ! pivot);
                 basis' = basis @ [(map (\<lambda>v. gfMul v i) row, pivot)];
                 chosen' = chosen @ [j]
             in if length chosen' = k then Some chosen'
                else pick_loop k consts (Suc j) es basis' chosen')"

definition PickRecovery :: "int list \<Rightarrow> u32 list \<Rightarrow> nat \<Rightarrow> matrix_error + nat list" where
  "PickRecovery damaged exponents k =
     (if k = 0 then Inr []
      else if k \<noteq> length damaged then Inl (PickCount k (length damaged))
      else case find (\<lambda>d. d < 0 \<or> d \<ge> int maxInputSlices) damaged of
             Some d \<Rightarrow> Inl (PickIndexOutOfRange d)
           | None \<Rightarrow>
               (case pick_loop k (map (\<lambda>g. the (inputConstant g)) damaged) 0 exponents [] [] of
                  Some chosen \<Rightarrow> Inr chosen
                | None \<Rightarrow> Inl (NotIndependent k (length exponents))))"

section \<open>Gauss-Jordan elimination\<close>

definition mat_vec :: "gfMatrix \<Rightarrow> u16 list \<Rightarrow> u16 list" where
  "mat_vec m x = map (\<lambda>row. gf_dot row x) m"

definition square :: "gfMatrix \<Rightarrow> bool" where
  "square m \<longleftrightarrow> (\<forall>row \<in> set m. length row = length m)"

definition kernel :: "gfMatrix \<Rightarrow> u16 list set" where
  "kernel m = {x. length x = length m \<and> (\<forall>row \<in> set m. gf_dot row x = 0)}"

definition nonsingular :: "gfMatrix \<Rightarrow> bool" where
  "nonsingular m \<longleftrightarrow> kernel m \<subseteq> {replicate (length m) 0}"

lemma length_mat_vec [simp]: "length (mat_vec m x) = length m"
  by (simp add: mat_vec_def)

lemma nth_mat_vec [simp]: "r < length m \<Longrightarrow> mat_vec m x ! r = gf_dot (m ! r) x"
  by (simp add: mat_vec_def)

text \<open>A row of the augmented matrix records how its left half arises from the rows of \<open>m\<close>.\<close>

definition row_ok :: "gfMatrix \<Rightarrow> u16 list \<Rightarrow> bool" where
  "row_ok m row \<longleftrightarrow> length row = 2 * length m \<and>
     (\<forall>x. length x = length m \<longrightarrow>
        gf_dot (take (length m) row) x = gf_dot (drop (length m) row) (mat_vec m x))"

definition left_kernel :: "nat \<Rightarrow> gfMatrix \<Rightarrow> u16 list set" where
  "left_kernel k aug = {x. length x = k \<and> (\<forall>r < k. gf_dot (take k (aug ! r)) x = 0)}"

definition cleared :: "nat \<Rightarrow> nat \<Rightarrow> gfMatrix \<Rightarrow> bool" where
  "cleared k col aug \<longleftrightarrow> (\<forall>r < k. \<forall>c < col. aug ! r ! c = (if r = c then 1 else 0))"

definition rows_inv :: "gfMatrix \<Rightarrow> gfMatrix \<Rightarrow> bool" where
  "rows_inv m aug \<longleftrightarrow> length aug = length m \<and> (\<forall>r < length m. row_ok m (aug ! r)) \<and>
     left_kernel (length m) aug \<subseteq> kernel m"

lemma row_ok_scale: "row_ok m row \<Longrightarrow> row_ok m (map (gfMul c) row)"
  by (simp add: row_ok_def take_map drop_map gf.dot_scale_left)

lemma take_vec_xor: "take n (vec_xor a b) = vec_xor (take n a) (take n b)"
  by (simp add: vec_xor_def take_map take_zip)

lemma drop_vec_xor: "drop n (vec_xor a b) = vec_xor (drop n a) (drop n b)"
  by (simp add: vec_xor_def drop_map drop_zip)

lemma row_ok_xor: "row_ok m a \<Longrightarrow> row_ok m b \<Longrightarrow> row_ok m (vec_xor a b)"
  by (simp add: row_ok_def take_vec_xor drop_vec_xor gf.dot_xor_left)

lemma row_ok_length: "row_ok m row \<Longrightarrow> length row = 2 * length m"
  by (simp add: row_ok_def)

text \<open>The column loops touch the columns from \<open>col\<close> on; where the pivot row is zero to the left
  of \<open>col\<close> that is the whole-row operation.\<close>

lemma scale_row_full:
  assumes "length row = 2 * k" "\<And>c. c < col \<Longrightarrow> row ! c = 0" "col < k"
  shows "scale_row k col row = map (gfMul (gfInv (row ! col))) row"
proof (rule nth_equalityI)
  show "length (scale_row k col row) = length (map (gfMul (gfInv (row ! col))) row)"
    by (simp add: scale_row_def Let_def length_fold_update)
next
  fix c assume "c < length (scale_row k col row)"
  then have c: "c < 2 * k" using assms(1) by (simp add: scale_row_def Let_def length_fold_update split: if_splits)
  then show "scale_row k col row ! c = map (gfMul (gfInv (row ! col))) row ! c"
    using assms by (auto simp: scale_row_def Let_def gfMul_commute
        nth_fold_update [where g = "\<lambda>_ v. gfMul v (gfInv (row ! col))"])
qed

lemma eliminate_row_full:
  assumes "length row = 2 * k" "length p = 2 * k" "\<And>c. c < col \<Longrightarrow> p ! c = 0" "col < k"
  shows "eliminate_row k col p row = vec_xor row (map (gfMul (row ! col)) p)"
proof (rule nth_equalityI)
  show "length (eliminate_row k col p row) = length (vec_xor row (map (gfMul (row ! col)) p))"
    using assms by (simp add: eliminate_row_def Let_def length_fold_update)
next
  fix c assume "c < length (eliminate_row k col p row)"
  then have c: "c < 2 * k" using assms(1) by (simp add: eliminate_row_def Let_def length_fold_update split: if_splits)
  then show "eliminate_row k col p row ! c = vec_xor row (map (gfMul (row ! col)) p) ! c"
    using assms by (auto simp: eliminate_row_def Let_def gfMul_commute
        nth_fold_update [where g = "\<lambda>c v. v XOR gfMul (p ! c) (row ! col)"])
qed

lemma eliminate_nth:
  fixes k :: nat
  assumes "r < length aug" "col < length aug" "n \<le> length aug"
  defines "step \<equiv> \<lambda>r aug. if r = col then aug else aug[r := eliminate_row k col (aug ! col) (aug ! r)]"
  shows "length (fold step [0..<n] aug) = length aug \<and> fold step [0..<n] aug ! r =
    (if r = col \<or> n \<le> r then aug ! r else eliminate_row k col (aug ! col) (aug ! r))"
  using assms(1,2,3)
proof (induction n arbitrary: r)
  case 0
  then show ?case by simp
next
  case (Suc n)
  let ?f = "fold step [0..<n] aug"
  have l: "length ?f = length aug" and c: "?f ! col = aug ! col" and n: "?f ! n = aug ! n"
    using Suc.IH [of r] Suc.IH [of col] Suc.IH [of n] Suc.prems by auto
  have "step n ?f = (if n = col then ?f else ?f[n := eliminate_row k col (aug ! col) (aug ! n)])"
    by (simp add: step_def c [unfolded step_def] n [unfolded step_def])
  then show ?case
    using Suc.IH [of r] Suc.prems l by (auto simp: nth_list_update less_Suc_eq)
qed


lemma eliminate_spec:
  assumes "length aug = k" "col < k"
  shows "length (eliminate k col aug) = k"
    and "r < k \<Longrightarrow> eliminate k col aug ! r =
      (if r = col then aug ! r else eliminate_row k col (aug ! col) (aug ! r))"
  using eliminate_nth [where r = col and aug = aug and col = col and n = k and k = k]
    eliminate_nth [where r = r and aug = aug and col = col and n = k and k = k] assms
  by (simp_all add: eliminate_def)

text \<open>The three row operations keep what the rows record and do not enlarge the kernel.\<close>

lemma rows_inv_kernelI:
  assumes "rows_inv m aug" "length aug' = length m" "\<And>r. r < length m \<Longrightarrow> row_ok m (aug' ! r)"
    and "\<And>x r. length x = length m \<Longrightarrow>
      (\<And>r. r < length m \<Longrightarrow> gf_dot (take (length m) (aug' ! r)) x = 0) \<Longrightarrow> r < length m \<Longrightarrow>
      gf_dot (take (length m) (aug ! r)) x = 0"
  shows "rows_inv m aug'"
  using assms unfolding rows_inv_def left_kernel_def by blast

lemma rows_inv_swap:
  assumes "rows_inv m aug" "i < length m" "j < length m"
  shows "rows_inv m (aug[i := aug ! j, j := aug ! i])"
proof (rule rows_inv_kernelI [OF assms(1)])
  have len: "length aug = length m" using assms by (simp add: rows_inv_def)
  show "length (aug[i := aug ! j, j := aug ! i]) = length m" by (simp add: len)
  show "row_ok m (aug[i := aug ! j, j := aug ! i] ! r)" if "r < length m" for r
    using that assms by (auto simp: rows_inv_def nth_list_update)
  fix x r
  assume z: "\<And>r. r < length m \<Longrightarrow> gf_dot (take (length m) (aug[i := aug ! j, j := aug ! i] ! r)) x = 0"
    and "r < length m"
  then show "gf_dot (take (length m) (aug ! r)) x = 0"
    using z [of i] z [of j] z [of r] assms(2,3) len
    by (cases "r = i"; cases "r = j"; cases "i = j") (simp_all add: nth_list_update)
qed

lemma rows_inv_scale:
  assumes "rows_inv m aug" "i < length m" "g \<noteq> 0"
  shows "rows_inv m (aug[i := map (gfMul g) (aug ! i)])"
proof (rule rows_inv_kernelI [OF assms(1)])
  have len: "length aug = length m" using assms by (simp add: rows_inv_def)
  show "length (aug[i := map (gfMul g) (aug ! i)]) = length m" by (simp add: len)
  show "row_ok m (aug[i := map (gfMul g) (aug ! i)] ! r)" if "r < length m" for r
    using that assms by (auto simp: rows_inv_def nth_list_update row_ok_scale)
  fix x r
  assume z: "\<And>r. r < length m \<Longrightarrow> gf_dot (take (length m) (aug[i := map (gfMul g) (aug ! i)] ! r)) x = 0"
    and "r < length m"
  then show "gf_dot (take (length m) (aug ! r)) x = 0"
    using z [of r] assms(2,3) len
    by (cases "r = i") (auto simp: take_map gf.dot_scale_left gfMul_eq_0)
qed

lemma rows_inv_eliminate:
  assumes inv: "rows_inv m aug" and i: "i < length m" and len': "length aug' = length m"
    and rows: "\<And>r. r < length m \<Longrightarrow>
      aug' ! r = (if r = i then aug ! i else vec_xor (aug ! r) (map (gfMul (f r)) (aug ! i)))"
  shows "rows_inv m aug'"
proof (rule rows_inv_kernelI [OF inv len'])
  have ok: "\<And>r. r < length m \<Longrightarrow> row_ok m (aug ! r)" using inv by (simp add: rows_inv_def)
  show "row_ok m (aug' ! r)" if "r < length m" for r
    using that ok [OF that] ok [OF i] by (simp add: rows row_ok_xor row_ok_scale)
  fix x r
  assume x: "length x = length m" and r: "r < length m"
    and z: "\<And>r. r < length m \<Longrightarrow> gf_dot (take (length m) (aug' ! r)) x = 0"
  have zi: "gf_dot (take (length m) (aug ! i)) x = 0" using z [OF i] rows [OF i] by simp
  show "gf_dot (take (length m) (aug ! r)) x = 0"
  proof (cases "r = i")
    case False
    have "gf_dot (take (length m) (aug ! r)) x XOR
        gfMul (f r) (gf_dot (take (length m) (aug ! i)) x) = 0"
      using z [OF r] False x row_ok_length [OF ok [OF r]] row_ok_length [OF ok [OF i]]
      by (simp add: rows [OF r] take_vec_xor take_map gf.dot_xor_left gf.dot_scale_left)
    then show ?thesis using zi by simp
  qed (use zi in simp)
qed

text \<open>One column: pivot, swap, scale, eliminate.\<close>

lemma gauss_column_rows:
  assumes "gauss_column k col aug = Inr aug'" "length aug = k" "col < k"
    "\<And>row. row \<in> set aug \<Longrightarrow> length row = 2 * k" "cleared k col aug"
  obtains pivot aug1 p where
    "col \<le> pivot" "pivot < k" "aug1 = aug[col := aug ! pivot, pivot := aug ! col]"
    "aug1 ! col ! col \<noteq> 0" "p = map (gfMul (gfInv (aug1 ! col ! col))) (aug1 ! col)"
    "length aug' = k" "cleared k col aug1"
    "\<And>r. r < k \<Longrightarrow> aug' ! r = (if r = col then p else vec_xor (aug1 ! r) (map (gfMul (aug1 ! r ! col)) p))"
proof -
  from assms(1) obtain pivot where pivot: "find_pivot k col aug = Some pivot"
    by (auto simp: gauss_column_def split: option.splits)
  from find_Some_upt [OF this [unfolded find_pivot_def]]
  have pv: "col \<le> pivot" "pivot < k" "aug ! pivot ! col \<noteq> 0" by auto
  define aug1 where "aug1 = aug[col := aug ! pivot, pivot := aug ! col]"
  have a1: "aug1 ! r = (if r = col then aug ! pivot else if r = pivot then aug ! col else aug ! r)"
    if "r < k" for r using that pv assms(2,3) by (auto simp: aug1_def nth_list_update)
  have l1: "length (aug1 ! r) = 2 * k" if "r < k" for r
    using that pv assms(2-4) by (simp add: a1)
  have clr: "cleared k col aug1" using assms(5) pv assms(3) by (auto simp: cleared_def a1)
  have nz: "aug1 ! col ! col \<noteq> 0" using pv assms(3) by (simp add: a1)
  define p where "p = map (gfMul (gfInv (aug1 ! col ! col))) (aug1 ! col)"
  have sc: "scale_row k col (aug1 ! col) = p"
    unfolding p_def using clr assms(3) l1 by (intro scale_row_full) (auto simp: cleared_def)
  have p0: "p ! c = 0" if "c < col" for c
    using that clr assms(3) l1 by (simp add: p_def cleared_def)
  have aug': "aug' = eliminate k col (aug1[col := p])"
    using assms(1) pivot sc by (simp add: gauss_column_def aug1_def [symmetric] Let_def)
  have len1: "length aug1 = k" by (simp add: aug1_def assms(2))
  have "length p = 2 * k" using l1 [OF assms(3)] by (simp add: p_def)
  then have rows: "aug' ! r = (if r = col then p else vec_xor (aug1 ! r) (map (gfMul (aug1 ! r ! col)) p))"
    if "r < k" for r
    using that eliminate_spec(2) [of "aug1[col := p]" k col r] len1 assms(3) p0
      eliminate_row_full [of "aug1 ! r" k p col, OF l1 [OF that]] by (auto simp: aug')
  show thesis
    using that [OF pv(1,2) aug1_def nz p_def _ clr rows] eliminate_spec(1) len1 assms(3)
    by (simp add: aug')
qed

lemma gauss_column_step:
  assumes inv: "rows_inv m aug" "cleared (length m) col aug" and col: "col < length m"
    and step: "gauss_column (length m) col aug = Inr aug'"
  shows "rows_inv m aug'" "cleared (length m) (Suc col) aug'"
proof -
  let ?k = "length m"
  have len: "length aug = ?k" and rl: "\<And>row. row \<in> set aug \<Longrightarrow> length row = 2 * ?k"
    using inv(1) by (auto simp: rows_inv_def in_set_conv_nth dest: row_ok_length)
  obtain pivot aug1 p where pv: "col \<le> pivot" "pivot < ?k"
    and aug1: "aug1 = aug[col := aug ! pivot, pivot := aug ! col]" and nz: "aug1 ! col ! col \<noteq> 0"
    and p: "p = map (gfMul (gfInv (aug1 ! col ! col))) (aug1 ! col)" and len': "length aug' = ?k"
    and clr: "cleared ?k col aug1"
    and rows: "\<And>r. r < ?k \<Longrightarrow>
      aug' ! r = (if r = col then p else vec_xor (aug1 ! r) (map (gfMul (aug1 ! r ! col)) p))"
    using gauss_column_rows [OF step len col rl inv(2)] by blast
  have inv1: "rows_inv m aug1" unfolding aug1 using inv(1) col pv by (intro rows_inv_swap) auto
  have inv2: "rows_inv m (aug1[col := p])"
    unfolding p using inv1 col gf.inv_nonzero [OF nz] by (rule rows_inv_scale)
  have len1: "length aug1 = ?k" using inv1 by (simp add: rows_inv_def)
  show "rows_inv m aug'"
    by (rule rows_inv_eliminate [OF inv2 col len', where f = "\<lambda>r. aug1 ! r ! col"])
      (use len1 col rows in auto)
  have l: "length (aug1 ! r) = 2 * ?k" if "r < ?k" for r
    using inv1 that by (auto simp: rows_inv_def dest: row_ok_length)
  have pc: "p ! col = 1" "\<And>c. c < col \<Longrightarrow> p ! c = 0" "length p = 2 * ?k"
    using l [OF col] col gfMul_gfInv [OF nz] clr by (auto simp: p gfMul_commute cleared_def)
  show "cleared ?k (Suc col) aug'"
    unfolding cleared_def
  proof (intro allI impI)
    fix r c assume "r < ?k" "c < Suc col"
    then show "aug' ! r ! c = (if r = c then 1 else 0)"
      using clr col pc l [of r] by (auto simp: rows less_Suc_eq cleared_def)
  qed
qed


text \<open>A column without a pivot has a kernel vector: the free column is set to 1 and the cleared
  columns take the entries that cancel it.\<close>

lemma gauss_singular_kernel:
  assumes inv: "rows_inv m aug" "cleared (length m) col aug" and col: "col < length m"
    and none: "find_pivot (length m) col aug = None"
  shows "\<exists>x \<in> kernel m. x \<noteq> replicate (length m) 0"
proof -
  let ?k = "length m"
  define x where "x = map (\<lambda>c. if c < col then aug ! c ! col else if c = col then 1 else 0) [0..<?k]"
  have len: "length aug = ?k" using inv by (simp add: rows_inv_def)
  have nz: "x ! col = 1" "length x = ?k" using col by (simp_all add: x_def)
  have xs: "x ! c = (if c < col then aug ! c ! col else if c = col then 1 else 0)" if "c < ?k" for c
    using that by (simp add: x_def)
  have "gf_dot (take ?k (aug ! r)) x = 0" if r: "r < ?k" for r
  proof -
    have l: "length (aug ! r) = 2 * ?k" using inv r by (auto simp: rows_inv_def dest: row_ok_length)
    have clr: "aug ! r ! c = (if r = c then 1 else 0)" if "c < col" for c
      using inv(2) r that by (simp add: cleared_def)
    show ?thesis
    proof (cases "r < col")
      case False
      have "aug ! r ! col = 0"
        using none r False by (auto simp: find_pivot_def find_None_iff_upt)
      then have "gf_dot (take ?k (aug ! r)) x = gfMul (take ?k (aug ! r) ! col) (x ! col)"
        using l nz col clr False by (intro gf.dot_single) (auto simp: xs)
      then show ?thesis using \<open>aug ! r ! col = 0\<close> col by simp
    next
      case True
      let ?a = "unit_vec ?k r" and ?b = "(take ?k (aug ! r))[r := 0]"
      have "take ?k (aug ! r) = vec_xor ?a ?b"
        using l r clr [OF True] by (intro nth_equalityI) (auto simp: nth_unit_vec nth_list_update)
      moreover have "gf_dot ?a x = aug ! r ! col" using nz r True by (simp add: gf.dot_unit xs)
      moreover have "gf_dot ?b x = gfMul (?b ! col) (x ! col)"
        using l nz col clr True by (intro gf.dot_single) (auto simp: xs nth_list_update)
      moreover have "gf_dot (vec_xor ?a ?b) x = gf_dot ?a x XOR gf_dot ?b x"
        using l nz by (intro gf.dot_xor_left) auto
      ultimately show ?thesis using l nz col True by simp
    qed
  qed
  then have "x \<in> kernel m" using inv(1) nz by (auto simp: rows_inv_def left_kernel_def)
  moreover have "x \<noteq> replicate ?k 0" using nz col by (metis nth_replicate zero_neq_one)
  ultimately show ?thesis by blast
qed

text \<open>All columns.\<close>

lemma gauss_columns_spec:
  assumes "rows_inv m aug" "cleared (length m) col aug" "col \<le> length m"
  shows "case gauss_columns (length m) [col..<length m] aug of
      Inr aug' \<Rightarrow> rows_inv m aug' \<and> cleared (length m) (length m) aug'
    | Inl e \<Rightarrow> \<not> nonsingular m"
  using assms
proof (induction "length m - col" arbitrary: col aug)
  case 0
  then show ?case by simp
next
  case (Suc n)
  then have col: "col < length m" and n: "n = length m - Suc col" by auto
  have upt: "[col..<length m] = col # [Suc col..<length m]" using col by (simp add: upt_conv_Cons)
  show ?case
  proof (cases "gauss_column (length m) col aug")
    case (Inl e)
    then have "find_pivot (length m) col aug = None"
      by (auto simp: gauss_column_def Let_def split: option.splits)
    from gauss_singular_kernel [OF Suc.prems(1,2) col this] Inl show ?thesis
      by (auto simp: upt nonsingular_def)
  next
    case (Inr aug')
    from gauss_column_step [OF Suc.prems(1,2) col Inr] Suc.hyps(1) [OF n] col Inr
    show ?thesis by (simp add: upt)
  qed
qed

lemma augment_inv:
  assumes "square m"
  shows "rows_inv m (augment m)"
proof -
  let ?k = "length m"
  have rl: "length (m ! r) = ?k" if "r < ?k" for r using assms that by (simp add: square_def)
  have a: "augment m ! r = m ! r @ unit_vec ?k r" if "r < ?k" for r using that by (simp add: augment_def)
  have "row_ok m (augment m ! r)" if "r < ?k" for r
    using that rl [OF that] by (simp add: row_ok_def a gf.dot_unit mat_vec_def)
  moreover have "left_kernel ?k (augment m) \<subseteq> kernel m"
    by (auto simp: left_kernel_def kernel_def a rl in_set_conv_nth)
  ultimately show ?thesis by (simp add: rows_inv_def augment_def)
qed

lemma invertMatrix_Inr:
  assumes "invertMatrix m = Inr mi"
  shows "length mi = length m" "square mi" "\<And>x. length x = length m \<Longrightarrow> mat_vec mi (mat_vec m x) = x"
proof -
  let ?k = "length m"
  from assms have sq: "square m"
    by (auto simp: invertMatrix_def Let_def square_def split: if_splits)
  from assms obtain aug where g: "gauss_columns ?k [0..<?k] (augment m) = Inr aug"
    and mi: "mi = map (drop ?k) aug"
    by (auto simp: invertMatrix_def Let_def split: if_splits sum.splits)
  have "rows_inv m aug" "cleared ?k ?k aug"
    using gauss_columns_spec [OF augment_inv [OF sq], of 0] g by (auto simp: cleared_def)
  then have len: "length aug = ?k" and ok: "\<And>r. r < ?k \<Longrightarrow> row_ok m (aug ! r)"
    and clr: "\<And>r c. r < ?k \<Longrightarrow> c < ?k \<Longrightarrow> aug ! r ! c = (if r = c then 1 else 0)"
    by (auto simp: rows_inv_def cleared_def)
  show li: "length mi = ?k" by (simp add: mi len)
  show "square mi" using row_ok_length [OF ok] by (auto simp: square_def mi len in_set_conv_nth)
  fix x :: "u16 list" assume x: "length x = ?k"
  show "mat_vec mi (mat_vec m x) = x"
  proof (rule nth_equalityI)
    fix r assume "r < length (mat_vec mi (mat_vec m x))"
    then have r: "r < ?k" by (simp add: li)
    have "take ?k (aug ! r) = unit_vec ?k r"
      using row_ok_length [OF ok [OF r]] r clr by (intro nth_equalityI) (auto simp: nth_unit_vec)
    then have "gf_dot (drop ?k (aug ! r)) (mat_vec m x) = x ! r"
      using ok [OF r] x r by (simp add: row_ok_def gf.dot_unit [symmetric])
    then show "mat_vec mi (mat_vec m x) ! r = x ! r" using r by (simp add: mi len)
  qed (simp add: li x)
qed

lemma mat_vec_zero: "square m \<Longrightarrow> x \<in> kernel m \<Longrightarrow> mat_vec m x = replicate (length m) 0"
  by (intro nth_equalityI) (auto simp: mat_vec_def kernel_def)

lemma invertMatrix_iff:
  assumes "square m"
  shows "(\<exists>mi. invertMatrix m = Inr mi) \<longleftrightarrow> nonsingular m"
proof
  assume "\<exists>mi. invertMatrix m = Inr mi"
  then obtain mi where i: "invertMatrix m = Inr mi" ..
  have "x = replicate (length m) 0" if x: "x \<in> kernel m" for x
  proof -
    have "x = mat_vec mi (replicate (length m) 0)"
      using invertMatrix_Inr(3) [OF i, of x] mat_vec_zero [OF assms x] x by (simp add: kernel_def)
    also have "\<dots> = replicate (length m) 0"
      using invertMatrix_Inr(1) [OF i]
      by (intro nth_equalityI) (auto simp: mat_vec_def gf.dot_commute [of _ "replicate _ _"] gf.dot_zero_left)
    finally show ?thesis .
  qed
  then show "nonsingular m" by (auto simp: nonsingular_def)
next
  assume ns: "nonsingular m"
  show "\<exists>mi. invertMatrix m = Inr mi"
    using gauss_columns_spec [OF augment_inv [OF assms], of 0] ns assms
    by (auto simp: invertMatrix_def Let_def square_def cleared_def split: sum.splits)
qed

section \<open>Choosing independent recovery slices\<close>

fun echelon :: "nat \<Rightarrow> (u16 list \<times> nat) list \<Rightarrow> bool" where
  "echelon k [] = True"
| "echelon k ((b, p) # bs) =
     (length b = k \<and> p < k \<and> b ! p = 1 \<and> (\<forall>(b', p') \<in> set bs. b' ! p = 0) \<and> echelon k bs)"

definition annihilates :: "(u16 list \<times> nat) list \<Rightarrow> u16 list \<Rightarrow> bool" where
  "annihilates basis x \<longleftrightarrow> (\<forall>(b, p) \<in> set basis. gf_dot b x = 0)"

lemma annihilates_simps [simp]:
  "annihilates [] x" "annihilates ((b, p) # bs) x \<longleftrightarrow> gf_dot b x = 0 \<and> annihilates bs x"
  "annihilates (bs @ cs) x \<longleftrightarrow> annihilates bs x \<and> annihilates cs x"
  by (auto simp: annihilates_def)

lemma echelon_snoc:
  "echelon k (bs @ [(b, p)]) \<longleftrightarrow>
     echelon k bs \<and> length b = k \<and> p < k \<and> b ! p = 1 \<and> (\<forall>(b', p') \<in> set bs. b ! p' = 0)"
  by (induction bs) auto

lemma echelon_memD: "echelon k bs \<Longrightarrow> (b, p) \<in> set bs \<Longrightarrow> length b = k \<and> p < k \<and> b ! p = 1"
  by (induction bs) auto

lemma echelon_pivots: "echelon k bs \<Longrightarrow> snd ` set bs \<subseteq> {..<k}"
  by (auto dest: echelon_memD)

lemma echelon_distinct: "echelon k bs \<Longrightarrow> distinct (map snd bs)"
proof (induction bs)
  case (Cons a bs)
  then show ?case by (cases a) (fastforce dest: echelon_memD)
qed simp

definition reduce_step :: "u16 list \<Rightarrow> u16 list \<Rightarrow> nat \<Rightarrow> u16 list" where
  "reduce_step row b p = vec_xor row (map (gfMul (row ! p)) b)"

lemma reduce_row_Cons:
  "length row = length b \<Longrightarrow> reduce_row row ((b, p) # bs) = reduce_row (reduce_step row b p) bs"
proof -
  assume l: "length row = length b"
  have "map2 (\<lambda>r b. r XOR gfMul b f) row b = vec_xor row (map (gfMul f) b)" for f
    using l by (intro nth_equalityI) (auto simp: gfMul_commute)
  moreover have "vec_xor row (map (gfMul 0) b) = row"
    using l by (intro nth_equalityI) auto
  ultimately show ?thesis by (simp add: reduce_step_def Let_def)
qed

lemma length_reduce_step [simp]: "length (reduce_step row b p) = min (length row) (length b)"
  by (simp add: reduce_step_def)

lemma length_reduce_row: "echelon k bs \<Longrightarrow> length row = k \<Longrightarrow> length (reduce_row row bs) = k"
proof (induction bs arbitrary: row)
  case (Cons a bs)
  then show ?case by (cases a) (simp add: reduce_row_Cons del: reduce_row.simps)
qed simp

lemma reduce_row_keeps_zero:
  "echelon k bs \<Longrightarrow> length row = k \<Longrightarrow> q < k \<Longrightarrow> row ! q = 0 \<Longrightarrow> \<forall>(b, p) \<in> set bs. b ! q = 0 \<Longrightarrow>
   reduce_row row bs ! q = 0"
proof (induction bs arbitrary: row)
  case (Cons a bs)
  then show ?case
    by (cases a) (simp add: reduce_row_Cons reduce_step_def del: reduce_row.simps)
qed simp

lemma reduce_row_zero:
  "echelon k bs \<Longrightarrow> length row = k \<Longrightarrow> (b, p) \<in> set bs \<Longrightarrow> reduce_row row bs ! p = 0"
proof (induction bs arbitrary: row)
  case (Cons a bs)
  obtain b' p' where a: "a = (b', p')" by (cases a)
  show ?case
  proof (cases "(b, p) = (b', p')")
    case True
    then show ?thesis using Cons.prems reduce_row_keeps_zero [of k bs "reduce_step row b p" p]
      by (auto simp: a reduce_row_Cons reduce_step_def simp del: reduce_row.simps)
  next
    case False
    then show ?thesis using Cons by (auto simp: a reduce_row_Cons simp del: reduce_row.simps)
  qed
qed simp

lemma reduce_row_dot:
  "echelon k bs \<Longrightarrow> length row = k \<Longrightarrow> length x = k \<Longrightarrow> annihilates bs x \<Longrightarrow>
   gf_dot (reduce_row row bs) x = gf_dot row x"
proof (induction bs arbitrary: row)
  case (Cons a bs)
  then show ?case
    by (cases a) (simp add: reduce_row_Cons reduce_step_def gf.dot_xor_left gf.dot_scale_left
        del: reduce_row.simps)
qed simp

text \<open>A full echelon basis has a trivial kernel; a short one does not.\<close>

lemma echelon_full_kernel:
  assumes e: "echelon k (pre @ post)" and n: "length (pre @ post) = k" and x: "length x = k"
    and z: "annihilates (pre @ post) x"
  shows "\<forall>(b, p) \<in> set post. x ! p = 0"
  using e n z
proof (induction post arbitrary: pre)
  case (Cons a post)
  obtain b p where a: "a = (b, p)" by (cases a)
  let ?bs = "pre @ a # post"
  have IH: "\<forall>(b, p) \<in> set post. x ! p = 0" using Cons.IH [of "pre @ [a]"] Cons.prems by simp
  have bp: "length b = k" "p < k" "b ! p = 1" using echelon_memD [OF Cons.prems(1)] by (auto simp: a)
  have dp: "distinct (map snd ?bs)" using Cons.prems(1) by (rule echelon_distinct)
  have "set (map snd ?bs) \<subseteq> {..<k}" using echelon_pivots [OF Cons.prems(1)] by (simp only: set_map)
  moreover have "card (set (map snd ?bs)) = k" using Cons.prems(2) distinct_card [OF dp] by simp
  ultimately have all: "set (map snd ?bs) = {..<k}" by (intro card_subset_eq) auto
  have pre0: "b ! q = 0" if "(b', q) \<in> set pre" for b' q
    using Cons.prems(1) that
  proof (induction pre)
    case (Cons c pre)
    then show ?case by (cases c) (auto simp: a)
  qed simp
  have "gf_dot b x = gfMul (b ! p) (x ! p)"
  proof (rule gf.dot_single)
    fix j assume "j < length x" "j \<noteq> p"
    then have "j \<in> set (map snd (pre @ post))" using all x by (auto simp: a)
    then obtain c where "(c, j) \<in> set pre \<or> (c, j) \<in> set post" by fastforce
    then show "gfMul (b ! j) (x ! j) = 0" using pre0 IH by auto
  qed (use bp x in auto)
  then show ?case using IH bp Cons.prems(3) by (auto simp: a)
qed simp

lemma echelon_solve:
  "echelon k bs \<Longrightarrow> length x0 = k \<Longrightarrow>
   \<exists>x. length x = k \<and> annihilates bs x \<and> (\<forall>j < k. j \<notin> snd ` set bs \<longrightarrow> x ! j = x0 ! j)"
proof (induction bs)
  case Nil
  then show ?case by auto
next
  case (Cons a bs)
  obtain b p where a: "a = (b, p)" by (cases a)
  from Cons obtain x where x: "length x = k" "annihilates bs x"
    "\<forall>j < k. j \<notin> snd ` set bs \<longrightarrow> x ! j = x0 ! j" by (auto simp: a)
  let ?x = "x[p := x ! p XOR gf_dot b x]"
  have bp: "length b = k" "p < k" "b ! p = 1" using Cons.prems by (auto simp: a)
  have "gf_dot b ?x = 0" using bp x by (simp add: gf.dot_update)
  moreover have "annihilates bs ?x"
    unfolding annihilates_def
  proof (clarify)
    fix c q assume c: "(c, q) \<in> set bs"
    then have "c ! p = 0" "length c = k" using Cons.prems echelon_memD [of k bs] by (auto simp: a)
    moreover have "gf_dot c x = 0" using x(2) c by (auto simp: annihilates_def)
    ultimately show "gf_dot c ?x = 0" using bp x by (simp add: gf.dot_update)
  qed
  ultimately show ?case using x by (intro exI [of _ ?x]) (auto simp: a)
qed

lemma echelon_short_kernel:
  assumes "echelon k bs" "length bs < k"
  shows "\<exists>x. length x = k \<and> x \<noteq> replicate k 0 \<and> annihilates bs x"
proof -
  have "card (snd ` set bs) < card {..<k}"
    using card_length [of "map snd bs"] assms(2) by simp
  then obtain q where q: "q < k" "q \<notin> snd ` set bs"
    by (metis card_mono finite_imageI finite_set lessThan_iff not_le subsetI)
  from echelon_solve [OF assms(1), of "unit_vec k q"] obtain x where
    "length x = k" "annihilates bs x" "x ! q = 1" using q by (auto simp: nth_unit_vec)
  moreover from this have "x \<noteq> replicate k 0" using q(1) by (metis nth_replicate zero_neq_one)
  ultimately show ?thesis by blast
qed


text \<open>The invariant of the greedy loop: the basis is in echelon form, spans what the chosen rows
  span (they have the same kernel), and every row looked at so far lies in that span.\<close>

definition pick_inv :: "nat \<Rightarrow> (nat \<Rightarrow> u16 list) \<Rightarrow> nat \<Rightarrow> (u16 list \<times> nat) list \<Rightarrow> nat list \<Rightarrow> bool" where
  "pick_inv k row j basis chosen \<longleftrightarrow>
     echelon k basis \<and> length basis = length chosen \<and> length chosen < k \<and>
     sorted_wrt (<) chosen \<and> (\<forall>i \<in> set chosen. i < j) \<and>
     (\<forall>x. length x = k \<longrightarrow> (\<forall>i \<in> set chosen. gf_dot (row i) x = 0) \<longrightarrow> annihilates basis x) \<and>
     (\<forall>x. length x = k \<longrightarrow> annihilates basis x \<longrightarrow> (\<forall>i < j. gf_dot (row i) x = 0))"

definition pick_ok :: "nat \<Rightarrow> (nat \<Rightarrow> u16 list) \<Rightarrow> nat \<Rightarrow> nat list option \<Rightarrow> bool" where
  "pick_ok k row n res \<longleftrightarrow>
     (case res of
        Some chosen \<Rightarrow> length chosen = k \<and> sorted_wrt (<) chosen \<and> (\<forall>i \<in> set chosen. i < n) \<and>
          (\<forall>x. length x = k \<longrightarrow> (\<forall>i \<in> set chosen. gf_dot (row i) x = 0) \<longrightarrow> x = replicate k 0)
      | None \<Rightarrow> \<exists>x. length x = k \<and> x \<noteq> replicate k 0 \<and> (\<forall>i < n. gf_dot (row i) x = 0))"

lemma pick_inv_skip:
  assumes inv: "pick_inv k row j basis chosen" and l: "length (row j) = k"
    and none: "find (\<lambda>c. reduce_row (row j) basis ! c \<noteq> 0) [0..<k] = None"
  shows "pick_inv k row (Suc j) basis chosen"
proof -
  have e: "echelon k basis" using inv by (simp add: pick_inv_def)
  have "reduce_row (row j) basis = replicate k 0"
    using none length_reduce_row [OF e l] by (intro nth_equalityI) (auto simp: find_None_iff_upt)
  then have "gf_dot (row j) x = 0" if "length x = k" "annihilates basis x" for x
    using reduce_row_dot [OF e l that] by (simp add: gf.dot_zero_left)
  then show ?thesis using inv by (auto simp: pick_inv_def less_Suc_eq)
qed

lemma pick_extend:
  assumes inv: "pick_inv k row j basis chosen" and l: "length (row j) = k"
    and some: "find (\<lambda>c. reduce_row (row j) basis ! c \<noteq> 0) [0..<k] = Some pivot"
  defines "r \<equiv> reduce_row (row j) basis"
  defines "basis' \<equiv> basis @ [(map (\<lambda>v. gfMul v (gfInv (r ! pivot))) r, pivot)]"
  shows "echelon k basis'"
    "\<And>x. length x = k \<Longrightarrow> (\<forall>i \<in> set (chosen @ [j]). gf_dot (row i) x = 0) \<Longrightarrow> annihilates basis' x"
    "\<And>x. length x = k \<Longrightarrow> annihilates basis' x \<Longrightarrow> (\<forall>i < Suc j. gf_dot (row i) x = 0)"
proof -
  let ?g = "gfInv (r ! pivot)"
  have e: "echelon k basis" using inv by (simp add: pick_inv_def)
  have lr: "length r = k" unfolding r_def by (rule length_reduce_row [OF e l])
  have pv: "pivot < k" "r ! pivot \<noteq> 0" using find_Some_upt [OF some] by (auto simp: r_def)
  have m: "map (\<lambda>v. gfMul v ?g) r = map (gfMul ?g) r" by (simp add: gfMul_commute)
  have "r ! p = 0" if "(b, p) \<in> set basis" for b p
    unfolding r_def by (rule reduce_row_zero [OF e l that])
  then show "echelon k basis'"
    using e lr pv echelon_memD [OF e] by (auto simp: basis'_def echelon_snoc gfMul_gfInv)
  show "annihilates basis' x" if "length x = k" "\<forall>i \<in> set (chosen @ [j]). gf_dot (row i) x = 0" for x
  proof -
    have a: "annihilates basis x" using that inv by (auto simp: pick_inv_def)
    have "gf_dot r x = 0" using that reduce_row_dot [OF e l that(1) a] by (simp add: r_def)
    then show ?thesis using a by (simp add: basis'_def m gf.dot_scale_left)
  qed
  show "\<forall>i < Suc j. gf_dot (row i) x = 0" if x: "length x = k" "annihilates basis' x" for x
  proof -
    have a: "annihilates basis x" and "gfMul ?g (gf_dot r x) = 0"
      using x by (simp_all add: basis'_def m gf.dot_scale_left)
    then have "gf_dot r x = 0" using gf.inv_nonzero [OF pv(2)] by (simp add: gfMul_eq_0)
    then have "gf_dot (row j) x = 0" using reduce_row_dot [OF e l x(1) a] by (simp add: r_def)
    then show ?thesis using a x(1) inv by (auto simp: pick_inv_def less_Suc_eq)
  qed
qed

lemma pick_loop_ok:
  assumes "pick_inv (length consts) row j basis chosen"
    and "\<And>i. i < length es \<Longrightarrow> row (j + i) = recovery_row consts (es ! i)"
  shows "pick_ok (length consts) row (j + length es) (pick_loop (length consts) consts j es basis chosen)"
  using assms
proof (induction es arbitrary: j basis chosen)
  case Nil
  have "echelon (length consts) basis" "length basis < length consts"
    using Nil.prems(1) by (simp_all add: pick_inv_def)
  then obtain x where "length x = length consts" "x \<noteq> replicate (length consts) 0" "annihilates basis x"
    using echelon_short_kernel by blast
  moreover from this have "\<forall>i < j. gf_dot (row i) x = 0" using Nil.prems(1) unfolding pick_inv_def by blast
  ultimately show ?case by (simp add: pick_ok_def) blast
next
  case (Cons e es)
  let ?k = "length consts" and ?r = "reduce_row (row j) basis"
  have rj: "row j = recovery_row consts e" using Cons.prems(2) [of 0] by simp
  then have l: "length (row j) = ?k" by (simp add: recovery_row_def)
  have rest: "row (Suc j + i) = recovery_row consts (es ! i)" if "i < length es" for i
    using Cons.prems(2) [of "Suc i"] that by simp
  show ?case
  proof (cases "find (\<lambda>c. ?r ! c \<noteq> 0) [0..<?k]")
    case None
    from Cons.IH [OF pick_inv_skip [OF Cons.prems(1) l None] rest] None show ?thesis
      by (simp add: Let_def rj)
  next
    case (Some pivot)
    define basis' where "basis' = basis @ [(map (\<lambda>v. gfMul v (gfInv (?r ! pivot))) ?r, pivot)]"
    note ext = pick_extend [OF Cons.prems(1) l Some, folded basis'_def]
    have inv: "length basis = length chosen" "length chosen < ?k" "sorted_wrt (<) chosen"
      "\<forall>i \<in> set chosen. i < j" using Cons.prems(1) by (auto simp: pick_inv_def)
    have sorted: "sorted_wrt (<) (chosen @ [j])" using inv by (simp add: sorted_wrt_append)
    have unfold: "pick_loop ?k consts j (e # es) basis chosen =
      (if Suc (length chosen) = ?k then Some (chosen @ [j])
       else pick_loop ?k consts (Suc j) es basis' (chosen @ [j]))"
      using Some by (simp add: Let_def rj basis'_def)
    show ?thesis
    proof (cases "Suc (length chosen) = ?k")
      case True
      have "x = replicate ?k 0" if x: "length x = ?k" "\<forall>i \<in> set (chosen @ [j]). gf_dot (row i) x = 0" for x
      proof -
        have len: "length basis' = ?k" using True inv by (simp add: basis'_def)
        have z: "\<forall>(b, p) \<in> set basis'. x ! p = 0"
          using echelon_full_kernel [of ?k "[]" basis' x] ext(1) ext(2) [OF x] x len by simp
        have "set (map snd basis') = {..<?k}"
          using distinct_card [OF echelon_distinct [OF ext(1)]] echelon_pivots [OF ext(1)] len
          by (intro card_subset_eq) auto
        then have "x ! q = 0" if "q < ?k" for q using z that by force
        then show ?thesis using x(1) by (intro nth_equalityI) auto
      qed
      then show ?thesis unfolding unfold pick_ok_def using True sorted inv by auto
    next
      case False
      have "pick_inv ?k row (Suc j) basis' (chosen @ [j])"
        unfolding pick_inv_def
      proof (intro conjI)
        show "length basis' = length (chosen @ [j])" using inv by (simp add: basis'_def)
        show "\<forall>x. length x = ?k \<longrightarrow> (\<forall>i \<in> set (chosen @ [j]). gf_dot (row i) x = 0) \<longrightarrow> annihilates basis' x"
          using ext(2) by blast
        show "\<forall>x. length x = ?k \<longrightarrow> annihilates basis' x \<longrightarrow> (\<forall>i < Suc j. gf_dot (row i) x = 0)"
          using ext(3) by blast
        show "\<forall>i \<in> set (chosen @ [j]). i < Suc j" using inv by auto
      qed (use ext(1) inv sorted False in simp_all)
      from Cons.IH [OF this rest] False show ?thesis unfolding unfold by simp
    qed
  qed
qed


text \<open>The rows \<^verbatim>\<open>PickRecovery\<close> promises: one recovery row per chosen exponent.\<close>

definition damaged_constants :: "int list \<Rightarrow> u16 list" where
  "damaged_constants damaged = map (\<lambda>g. the (inputConstant g)) damaged"

definition recovery_matrix :: "u16 list \<Rightarrow> u32 list \<Rightarrow> gfMatrix" where
  "recovery_matrix consts exponents = map (recovery_row consts) exponents"

lemma square_recovery_matrix: "length es = length consts \<Longrightarrow> square (recovery_matrix consts es)"
  by (simp add: square_def recovery_matrix_def recovery_row_def)

lemma PickRecovery_ok:
  assumes "k \<noteq> 0" "k = length damaged" "\<forall>d \<in> set damaged. 0 \<le> d \<and> d < int maxInputSlices"
  shows "PickRecovery damaged exponents k =
      (case pick_loop k (damaged_constants damaged) 0 exponents [] [] of
         Some chosen \<Rightarrow> Inr chosen | None \<Rightarrow> Inl (NotIndependent k (length exponents)))"
    and "pick_ok k (\<lambda>i. recovery_row (damaged_constants damaged) (exponents ! i)) (length exponents)
      (pick_loop k (damaged_constants damaged) 0 exponents [] [])"
proof -
  have f: "find (\<lambda>d. d < 0 \<or> d \<ge> int maxInputSlices) damaged = None"
    using assms(3) by (auto simp: find_None_iff)
  show "PickRecovery damaged exponents k =
      (case pick_loop k (damaged_constants damaged) 0 exponents [] [] of
         Some chosen \<Rightarrow> Inr chosen | None \<Rightarrow> Inl (NotIndependent k (length exponents)))"
    unfolding PickRecovery_def f using assms(1,2) by (simp add: damaged_constants_def)
  have k: "k = length (damaged_constants damaged)" by (simp add: damaged_constants_def assms)
  show "pick_ok k (\<lambda>i. recovery_row (damaged_constants damaged) (exponents ! i)) (length exponents)
      (pick_loop k (damaged_constants damaged) 0 exponents [] [])"
    unfolding k using pick_loop_ok [of "damaged_constants damaged" _ 0 "[]" "[]" exponents] assms(1) k
    by (simp add: pick_inv_def)
qed

lemma PickRecovery_Inr_cases:
  assumes "PickRecovery damaged exponents k = Inr chosen"
  shows "chosen = [] \<and> k = 0 \<or> k \<noteq> 0 \<and> k = length damaged \<and>
    (\<forall>d \<in> set damaged. 0 \<le> d \<and> d < int maxInputSlices)"
  using assms unfolding PickRecovery_def
  by (fastforce simp: find_None_iff not_le not_less split: if_splits option.splits)

section \<open>Properties\<close>

text \<open>C12. \<^verbatim>\<open>invertMatrix\<close> succeeds on a square matrix exactly when only the zero vector is mapped to zero,
  and then applying the result after the matrix gives back every vector. (With at least one pivot
  missing it reports a singular column.)\<close>

theorem invertMatrix_inverts:
  "square m \<Longrightarrow>
   (case invertMatrix m of
      Inr mi \<Rightarrow> nonsingular m \<and> square mi \<and> length mi = length m \<and>
        (\<forall>x. length x = length m \<longrightarrow> mat_vec mi (mat_vec m x) = x)
    | Inl e \<Rightarrow> \<not> nonsingular m)"
  using invertMatrix_iff [of m] invertMatrix_Inr [of m] by (auto split: sum.split)

lemma gfInv_1 [simp]: "gfInv 1 = 1"
  by (rule gfInv_eqI) simp

lemmas gauss_eval = invertMatrix_def augment_def gauss_column_def find_pivot_def scale_row_def
  eliminate_def eliminate_row_def unit_vec_def Let_def upt_rec

theorem invertMatrix_inverts_witness:
  "nonsingular [[1, 1], [1, 2]] \<and> invertMatrix [[1, 1], [1, 1]] = Inl (SingularAt 1) \<and>
   \<not> nonsingular [[1, 1], [1, 1]]"
proof (intro conjI)
  have "invertMatrix [[1, 1], [1, 2]] \<noteq> Inl e" for e
    by (simp add: gauss_eval)
  then show "nonsingular [[1, 1], [1, 2]]"
    using invertMatrix_inverts [of "[[1, 1], [1, 2]]"] by (auto simp: square_def split: sum.splits)
  show s: "invertMatrix [[1, 1], [1, 1]] = Inl (SingularAt 1)"
    by (simp add: gauss_eval)
  show "\<not> nonsingular [[1, 1], [1, 1]]"
    using invertMatrix_inverts [of "[[1, 1], [1, 1]]"] by (auto simp: square_def s)
qed

lemma nonsingular_recovery_matrix:
  assumes "length js = length consts"
  shows "nonsingular (recovery_matrix consts (map ((!) es) js)) \<longleftrightarrow>
    (\<forall>x. length x = length consts \<longrightarrow> (\<forall>i \<in> set js. gf_dot (recovery_row consts (es ! i)) x = 0) \<longrightarrow>
       x = replicate (length consts) 0)"
  using assms by (auto simp: nonsingular_def kernel_def recovery_matrix_def)

text \<open>C13. For damaged slices in range, \<^verbatim>\<open>PickRecovery\<close> either returns \<open>k\<close> strictly increasing candidate
  positions whose recovery matrix \<^verbatim>\<open>invertMatrix\<close> accepts, or it returns an error and then no choice of
  \<open>k\<close> candidates at all has an invertible matrix.\<close>

theorem PickRecovery_complete:
  assumes "k \<noteq> 0" "k = length damaged" "\<forall>d \<in> set damaged. 0 \<le> d \<and> d < int maxInputSlices"
  shows "case PickRecovery damaged exponents k of
      Inr chosen \<Rightarrow> length chosen = k \<and> sorted_wrt (<) chosen \<and> (\<forall>i \<in> set chosen. i < length exponents) \<and>
        (\<exists>mi. invertMatrix (recovery_matrix (damaged_constants damaged) (map ((!) exponents) chosen)) = Inr mi)
    | Inl e \<Rightarrow> \<forall>js. length js = k \<and> set js \<subseteq> {..<length exponents} \<longrightarrow>
        (\<exists>e. invertMatrix (recovery_matrix (damaged_constants damaged) (map ((!) exponents) js)) = Inl e)"
proof -
  let ?c = "damaged_constants damaged"
  let ?m = "\<lambda>js. recovery_matrix ?c (map ((!) exponents) js)"
  have k: "length ?c = k" using assms(2) by (simp add: damaged_constants_def)
  have sq: "square (?m js)" if "length js = k" for js
    using that k by (intro square_recovery_matrix) simp
  have ns: "(\<exists>mi. invertMatrix (?m js) = Inr mi) \<longleftrightarrow>
      (\<forall>x. length x = k \<longrightarrow> (\<forall>i \<in> set js. gf_dot (recovery_row ?c (exponents ! i)) x = 0) \<longrightarrow>
        x = replicate k 0)" if "length js = k" for js
    using invertMatrix_iff [OF sq [OF that]] nonsingular_recovery_matrix [of js ?c exponents] that k by simp
  note ok = PickRecovery_ok(2) [OF assms, of exponents]
  show ?thesis
  proof (cases "pick_loop k ?c 0 exponents [] []")
    case None
    then obtain x where x: "length x = k" "x \<noteq> replicate k 0"
      "\<forall>i < length exponents. gf_dot (recovery_row ?c (exponents ! i)) x = 0"
      using ok by (auto simp: pick_ok_def)
    have "\<exists>e. invertMatrix (?m js) = Inl e" if "length js = k" "set js \<subseteq> {..<length exponents}" for js
      using ns [OF that(1)] x that(2) by (cases "invertMatrix (?m js)") auto
    then show ?thesis using None by (simp add: PickRecovery_ok(1) [OF assms])
  next
    case (Some chosen)
    then show ?thesis using ok ns [of chosen] by (simp add: PickRecovery_ok(1) [OF assms] pick_ok_def)
  qed
qed

text \<open>At exponent 0 every row is all ones: the second such row is refused for a pair of slices.\<close>

theorem PickRecovery_complete_witness:
  "(\<exists>e. PickRecovery [0, 1] [0, 0] 2 = Inl e) \<and>
   (\<exists>e. invertMatrix (recovery_matrix (damaged_constants [0, 1]) [0, 0]) = Inl e)"
proof -
  have p: "PickRecovery [0, 1] [0, 0] 2 = Inl (NotIndependent 2 2)"
    by (simp add: PickRecovery_def recovery_row_def gfPow_def inputConstant_def Let_def upt_rec)
  have "(2 :: nat) \<noteq> 0" "2 = length [0 :: int, 1]" "\<forall>d \<in> set [0 :: int, 1]. 0 \<le> d \<and> d < int maxInputSlices"
    by simp_all
  from PickRecovery_complete [OF this, of "[0, 0]"] have
    "\<exists>e. invertMatrix (recovery_matrix (damaged_constants [0, 1]) (map ((!) [0, 0]) [0, 1])) = Inl e"
    unfolding p by (auto dest: spec [of _ "[0, 1]"])
  then show ?thesis using p by simp
qed

end
