(* ===== verification/Par2_Packet.thy ===== *)
theory Par2_Packet
  imports Prelude
begin

text \<open>
  PAR2 packets: \<^verbatim>\<open>src/pkg/usenet/par2/packet.go\<close>. The header parser, the packet checksum and the walk over
  a file's packets, strict or lenient. MD5 (\<^verbatim>\<open>crypto/md5\<close>) is a parameter \<open>md5\<close> of the model. The walk's
  callbacks thread an explicit state: a callback that fails returns its error with the state it
  leaves behind. The lenient walk is shown to hand over exactly the verified packets it meets, in
  order, and to miss a verified packet only when it lies inside another one.
\<close>

section \<open>Definitions\<close>

abbreviation packetHeaderSize :: nat where "packetHeaderSize \<equiv> 64"

definition ascii :: "string \<Rightarrow> bytes" where
  "ascii s = map of_char s"

definition packetMagic :: bytes where
  "packetMagic = ascii ''PAR2'' @ [0] @ ascii ''PKT''"

definition typeMain :: bytes where "typeMain = ascii ''PAR 2.0'' @ [0] @ ascii ''Main'' @ [0, 0, 0, 0]"
definition typeFileDesc :: bytes where "typeFileDesc = ascii ''PAR 2.0'' @ [0] @ ascii ''FileDesc''"
definition typeIFSC :: bytes where "typeIFSC = ascii ''PAR 2.0'' @ [0] @ ascii ''IFSC'' @ [0, 0, 0, 0]"
definition typeRecvSlic :: bytes where "typeRecvSlic = ascii ''PAR 2.0'' @ [0] @ ascii ''RecvSlic''"

record packetHeader =
  Length :: int
  MD5 :: bytes
  RecoverySetID :: bytes
  Type :: bytes

datatype packet_error = TruncatedHeader nat | BadMagic | InvalidLength int

definition sub_bytes :: "bytes \<Rightarrow> nat \<Rightarrow> nat \<Rightarrow> bytes" where
  "sub_bytes b lo hi = take (hi - lo) (drop lo b)"

definition int64_of_bytes :: "bytes \<Rightarrow> int" where
  "int64_of_bytes b = i64 (int (le_nat b))"

definition parsePacketHeader :: "bytes \<Rightarrow> packet_error + packetHeader" where
  "parsePacketHeader b =
     (if length b < packetHeaderSize then Inl (TruncatedHeader (length b))
      else if sub_bytes b 0 8 \<noteq> packetMagic then Inl BadMagic
      else let l = int64_of_bytes (sub_bytes b 8 16)
           in if l < int packetHeaderSize \<or> go_mod l 4 \<noteq> 0 then Inl (InvalidLength l)
              else Inr \<lparr>Length = l, MD5 = sub_bytes b 16 32, RecoverySetID = sub_bytes b 32 48,
                        Type = sub_bytes b 48 64\<rparr>)"

definition verifyPacketMD5 :: "(bytes \<Rightarrow> bytes) \<Rightarrow> packetHeader \<Rightarrow> bytes \<Rightarrow> bool" where
  "verifyPacketMD5 md5 h packet \<longleftrightarrow>
     (if int (length packet) \<noteq> Length h then False else md5 (drop 32 packet) = MD5 h)"

definition hex_digit :: "nat \<Rightarrow> char" where
  "hex_digit n = ''0123456789abcdef'' ! n"

definition hex_string :: "bytes \<Rightarrow> string" where
  "hex_string bs = concat (map (\<lambda>b. [hex_digit (unat b div 16), hex_digit (unat b mod 16)]) bs)"

definition packetTypeName :: "bytes \<Rightarrow> string" where
  "packetTypeName t =
     (if t = typeMain then ''Main'' else if t = typeFileDesc then ''FileDesc''
      else if t = typeIFSC then ''IFSC'' else if t = typeRecvSlic then ''RecvSlic''
      else hex_string t)"

definition resync :: "bytes \<Rightarrow> nat \<Rightarrow> nat option" where
  "resync data pos = map_option (\<lambda>next. pos + 1 + next) (bytes_Index (drop (pos + 1) data) packetMagic)"

datatype 'e walk_error = PacketMD5Mismatch nat string | Callback 'e

text \<open>The header at a position, when it parses and the packet it declares fits the rest of the data.
  The source compares with the remaining byte count; a sum would wrap.\<close>

definition header_at :: "bytes \<Rightarrow> nat \<Rightarrow> packetHeader option" where
  "header_at data pos =
     (case parsePacketHeader (drop pos data) of
        Inl e \<Rightarrow> None
      | Inr h \<Rightarrow> if Length h > int (length data) - int pos then None else Some h)"

lemma parsePacketHeader_Length: "parsePacketHeader b = Inr h \<Longrightarrow> 64 \<le> Length h"
  by (auto simp: parsePacketHeader_def Let_def split: if_splits)

lemma header_at_Length: "header_at data pos = Some h \<Longrightarrow> 64 \<le> Length h \<and> pos + nat (Length h) \<le> length data"
  using parsePacketHeader_Length by (fastforce simp: header_at_def split: sum.splits if_splits)

lemma resync_bounds: "resync data pos = Some q \<Longrightarrow> pos < length data \<Longrightarrow> pos < q \<and> q \<le> length data"
  by (auto simp: resync_def dest!: bytes_Index_Some)

function walk_loop ::
  "(bytes \<Rightarrow> bytes) \<Rightarrow> bytes \<Rightarrow> (packetHeader \<Rightarrow> nat \<Rightarrow> 's \<Rightarrow> 's) option \<Rightarrow>
   (packetHeader \<Rightarrow> bytes \<Rightarrow> nat \<Rightarrow> 's \<Rightarrow> 'e option \<times> 's) \<Rightarrow> nat \<Rightarrow> 's \<Rightarrow> 'e walk_error option \<times> 's" where
  "walk_loop md5 data onBad fn pos s =
     (if pos + packetHeaderSize \<le> length data then
        (case header_at data pos of
           None \<Rightarrow>
             (if onBad = None then (None, s)
              else case resync data pos of
                     None \<Rightarrow> (None, s)
                   | Some pos' \<Rightarrow> walk_loop md5 data onBad fn pos' s)
         | Some h \<Rightarrow>
             let packet = take (nat (Length h)) (drop pos data)
             in if \<not> verifyPacketMD5 md5 h packet then
                  (case onBad of
                     None \<Rightarrow> (Some (PacketMD5Mismatch pos (packetTypeName (Type h))), s)
                   | Some bad \<Rightarrow>
                       let s' = bad h pos s
                       in case resync data pos of
                            None \<Rightarrow> (None, s')
                          | Some pos' \<Rightarrow> walk_loop md5 data onBad fn pos' s')
                else case fn h packet pos s of
                       (Some e, s') \<Rightarrow> (Some (Callback e), s')
                     | (None, s') \<Rightarrow> walk_loop md5 data onBad fn (pos + nat (Length h)) s')
      else (None, s))"
  by pat_completeness auto
termination
  by (relation "measure (\<lambda>(md5, data, onBad, fn, pos, s). length data - pos)")
    (auto dest: header_at_Length resync_bounds)

declare walk_loop.simps [simp del]

definition walkPackets ::
  "(bytes \<Rightarrow> bytes) \<Rightarrow> bytes \<Rightarrow> (packetHeader \<Rightarrow> nat \<Rightarrow> 's \<Rightarrow> 's) option \<Rightarrow>
   (packetHeader \<Rightarrow> bytes \<Rightarrow> nat \<Rightarrow> 's \<Rightarrow> 'e option \<times> 's) \<Rightarrow> 's \<Rightarrow> 'e walk_error option \<times> 's" where
  "walkPackets md5 data onBad fn s = walk_loop md5 data onBad fn 0 s"

section \<open>The lenient walk as a list of events\<close>

text \<open>What the lenient walk meets, independent of its callbacks.\<close>

datatype walk_event = Bad packetHeader nat | Good packetHeader bytes nat

definition packet_bytes :: "bytes \<Rightarrow> nat \<Rightarrow> packetHeader \<Rightarrow> bytes" where
  "packet_bytes data pos h = take (nat (Length h)) (drop pos data)"

definition packet_at :: "(bytes \<Rightarrow> bytes) \<Rightarrow> bytes \<Rightarrow> nat \<Rightarrow> packetHeader \<Rightarrow> bool" where
  "packet_at md5 data pos h \<longleftrightarrow> header_at data pos = Some h \<and> verifyPacketMD5 md5 h (packet_bytes data pos h)"

function lenient_events :: "(bytes \<Rightarrow> bytes) \<Rightarrow> bytes \<Rightarrow> nat \<Rightarrow> walk_event list" where
  "lenient_events md5 data pos =
     (if pos + packetHeaderSize \<le> length data then
        (case header_at data pos of
           None \<Rightarrow> (case resync data pos of None \<Rightarrow> [] | Some q \<Rightarrow> lenient_events md5 data q)
         | Some h \<Rightarrow>
             if verifyPacketMD5 md5 h (packet_bytes data pos h)
             then Good h (packet_bytes data pos h) pos # lenient_events md5 data (pos + nat (Length h))
             else Bad h pos # (case resync data pos of None \<Rightarrow> [] | Some q \<Rightarrow> lenient_events md5 data q))
      else [])"
  by pat_completeness auto
termination
  by (relation "measure (\<lambda>(md5, data, pos). length data - pos)")
    (auto dest: header_at_Length resync_bounds)

declare lenient_events.simps [simp del]

fun run_events ::
  "(packetHeader \<Rightarrow> nat \<Rightarrow> 's \<Rightarrow> 's) \<Rightarrow> (packetHeader \<Rightarrow> bytes \<Rightarrow> nat \<Rightarrow> 's \<Rightarrow> 'e option \<times> 's) \<Rightarrow>
   walk_event list \<Rightarrow> 's \<Rightarrow> 'e walk_error option \<times> 's" where
  "run_events bad fn [] s = (None, s)"
| "run_events bad fn (Bad h pos # es) s = run_events bad fn es (bad h pos s)"
| "run_events bad fn (Good h packet pos # es) s =
     (case fn h packet pos s of
        (Some e, s') \<Rightarrow> (Some (Callback e), s')
      | (None, s') \<Rightarrow> run_events bad fn es s')"

lemma walk_loop_events:
  "walk_loop md5 data (Some bad) fn pos s = run_events bad fn (lenient_events md5 data pos) s"
proof (induction md5 data pos arbitrary: s rule: lenient_events.induct)
  case (1 md5 data pos)
  show ?case
  proof (cases "pos + packetHeaderSize \<le> length data")
    case True
    show ?thesis
      using 1 True
      by (subst walk_loop.simps, subst lenient_events.simps)
        (auto simp: Let_def packet_bytes_def [symmetric] split: option.split prod.split)
  qed (simp add: walk_loop.simps [of _ _ _ _ pos] lenient_events.simps [of _ _ pos])
qed

lemma packet_at_bounds:
  "packet_at md5 data pos h \<Longrightarrow> pos + packetHeaderSize \<le> length data \<and> 64 \<le> Length h"
  using header_at_Length [of data pos h] by (auto simp: packet_at_def)

lemma packet_at_magic: "packet_at md5 data pos h \<Longrightarrow> take 8 (drop pos data) = packetMagic"
  by (auto simp: packet_at_def header_at_def parsePacketHeader_def sub_bytes_def Let_def
      split: sum.splits if_splits)

lemma length_packetMagic [simp]: "length packetMagic = 8"
  by (simp add: packetMagic_def ascii_def)

text \<open>The next packet magic lies at or before any verified packet further on.\<close>

lemma resync_reaches:
  assumes "packet_at md5 data p h" "pos < p"
  shows "\<exists>q. resync data pos = Some q \<and> pos < q \<and> q \<le> p"
proof -
  let ?d = "drop (pos + 1) data" and ?j = "p - pos - 1"
  have m: "take 8 (drop ?j ?d) = packetMagic" and j: "?j \<le> length ?d"
    using packet_at_magic [OF assms(1)] packet_at_bounds [OF assms(1)] assms(2) by auto
  then have "bytes_Index ?d packetMagic \<noteq> None"
    using bytes_Index_None [of ?d packetMagic ?j] by auto
  then obtain i where i: "bytes_Index ?d packetMagic = Some i" by blast
  then have "i \<le> ?j" using bytes_Index_Some [OF i] m by (metis length_packetMagic not_le)
  then show ?thesis using i assms(2) by (auto simp: resync_def)
qed

lemma lenient_events_sound:
  "e \<in> set (lenient_events md5 data pos) \<Longrightarrow>
   (case e of
      Good h packet q \<Rightarrow> pos \<le> q \<and> packet_at md5 data q h \<and> packet = packet_bytes data q h
    | Bad h q \<Rightarrow> pos \<le> q \<and> header_at data q = Some h \<and> \<not> packet_at md5 data q h)"
proof (induction md5 data pos rule: lenient_events.induct)
  case (1 md5 data pos)
  let ?concl = "\<lambda>pos. case e of
      Good h packet q \<Rightarrow> pos \<le> q \<and> packet_at md5 data q h \<and> packet = packet_bytes data q h
    | Bad h q \<Rightarrow> pos \<le> q \<and> header_at data q = Some h \<and> \<not> packet_at md5 data q h"
  have weaken: "?concl pos" if "?concl q" "pos \<le> q" for q
    using that by (auto split: walk_event.splits)
  have b: "pos + packetHeaderSize \<le> length data"
    using "1.prems" by (subst (asm) lenient_events.simps) (simp split: if_splits)
  have later: "?concl pos"
    if e: "e \<in> set (case resync data pos of None \<Rightarrow> [] | Some q \<Rightarrow> lenient_events md5 data q)"
      "header_at data pos = None \<or> (\<exists>h. header_at data pos = Some h \<and> \<not> verifyPacketMD5 md5 h (packet_bytes data pos h))"
  proof -
    obtain q where q: "resync data pos = Some q" "e \<in> set (lenient_events md5 data q)"
      using e(1) by (cases "resync data pos") auto
    from e(2) have "?concl q"
    proof (elim disjE exE conjE)
      assume "header_at data pos = None"
      from "1.IH"(1) [OF b this q] show ?thesis .
    next
      fix h assume "header_at data pos = Some h" "\<not> verifyPacketMD5 md5 h (packet_bytes data pos h)"
      from "1.IH"(3) [OF b this q] show ?thesis .
    qed
    then show ?thesis using weaken resync_bounds [OF q(1)] b by simp
  qed
  show ?case
  proof (cases "header_at data pos")
    case None
    then show ?thesis using later "1.prems" b by (subst (asm) lenient_events.simps) simp
  next
    case (Some h)
    show ?thesis
    proof (cases "verifyPacketMD5 md5 h (packet_bytes data pos h)")
      case True
      then consider "e = Good h (packet_bytes data pos h) pos"
        | "e \<in> set (lenient_events md5 data (pos + nat (Length h)))"
        using "1.prems" b Some by (subst (asm) lenient_events.simps) auto
      then show ?thesis
      proof cases
        case 1
        then show ?thesis using True Some by (simp add: packet_at_def)
      next
        case 2
        then show ?thesis using weaken "1.IH"(2) [OF b Some True] by simp
      qed
    next
      case False
      then consider "e = Bad h pos"
        | "e \<in> set (case resync data pos of None \<Rightarrow> [] | Some q \<Rightarrow> lenient_events md5 data q)"
        using "1.prems" b Some by (subst (asm) lenient_events.simps) auto
      then show ?thesis using later Some False by cases (auto simp: packet_at_def)
    qed
  qed
qed

lemma lenient_events_complete:
  "packet_at md5 data p h \<Longrightarrow> pos \<le> p \<Longrightarrow>
   \<exists>h' packet q. Good h' packet q \<in> set (lenient_events md5 data pos) \<and> q \<le> p \<and> p < q + nat (Length h')"
proof (induction md5 data pos rule: lenient_events.induct)
  case (1 md5 data pos)
  have b: "pos + packetHeaderSize \<le> length data"
    using packet_at_bounds [OF "1.prems"(1)] "1.prems"(2) by simp
  show ?case
  proof (cases "\<exists>h'. header_at data pos = Some h' \<and> verifyPacketMD5 md5 h' (packet_bytes data pos h')")
    case True
    then obtain h' where h': "header_at data pos = Some h'"
      "verifyPacketMD5 md5 h' (packet_bytes data pos h')" by blast
    have ev: "lenient_events md5 data pos =
        Good h' (packet_bytes data pos h') pos # lenient_events md5 data (pos + nat (Length h'))"
      using b h' by (subst lenient_events.simps) simp
    show ?thesis
    proof (cases "p < pos + nat (Length h')")
      case True
      then show ?thesis using "1.prems"(2) unfolding ev by (meson list.set_intros(1))
    next
      case False
      then show ?thesis using "1.IH"(2) [OF b h' "1.prems"(1)] unfolding ev by (meson list.set_intros(2) not_le)
    qed
  next
    case False
    then have "pos \<noteq> p" using "1.prems"(1) by (auto simp: packet_at_def)
    then obtain q where q: "resync data pos = Some q" "q \<le> p"
      using resync_reaches [OF "1.prems"(1), of pos] "1.prems"(2) by auto
    have sub: "set (lenient_events md5 data q) \<subseteq> set (lenient_events md5 data pos)"
      using b False q by (subst (2) lenient_events.simps) (auto split: option.split)
    have "\<exists>h' packet r. Good h' packet r \<in> set (lenient_events md5 data q) \<and> r \<le> p \<and> p < r + nat (Length h')"
    proof (cases "header_at data pos")
      case None
      from "1.IH"(1) [OF b this q(1) "1.prems"(1) q(2)] show ?thesis .
    next
      case (Some h')
      with False have "\<not> verifyPacketMD5 md5 h' (packet_bytes data pos h')" by blast
      from "1.IH"(3) [OF b Some this q(1) "1.prems"(1) q(2)] show ?thesis .
    qed
    then show ?thesis using sub by blast
  qed
qed

section \<open>Encoded packets\<close>

text \<open>A packet as the PAR2 format lays it out; the parser reads back what was encoded.\<close>

record par2_packet =
  p_set :: bytes
  p_type :: bytes
  p_body :: bytes

definition wf_packet :: "par2_packet \<Rightarrow> bool" where
  "wf_packet p \<longleftrightarrow> length (p_set p) = 16 \<and> length (p_type p) = 16 \<and> length (p_body p) mod 4 = 0 \<and>
     packetHeaderSize + length (p_body p) \<le> 9223372036854775807"

definition packet_header :: "(bytes \<Rightarrow> bytes) \<Rightarrow> par2_packet \<Rightarrow> packetHeader" where
  "packet_header md5 p = \<lparr>Length = int (packetHeaderSize + length (p_body p)),
     MD5 = md5 (p_set p @ p_type p @ p_body p), RecoverySetID = p_set p, Type = p_type p\<rparr>"

definition encode_packet :: "(bytes \<Rightarrow> bytes) \<Rightarrow> par2_packet \<Rightarrow> bytes" where
  "encode_packet md5 p =
     packetMagic @ le_enc 8 (packetHeaderSize + length (p_body p)) @ md5 (p_set p @ p_type p @ p_body p) @
     p_set p @ p_type p @ p_body p"

lemma length_encode_packet:
  "(\<And>x. length (md5 x) = 16) \<Longrightarrow> wf_packet p \<Longrightarrow> length (encode_packet md5 p) = packetHeaderSize + length (p_body p)"
  by (simp add: encode_packet_def wf_packet_def)

lemma parse_encode_packet:
  assumes md5: "\<And>x. length (md5 x) = 16" and wf: "wf_packet p"
  shows "parsePacketHeader (encode_packet md5 p @ rest) = Inr (packet_header md5 p)"
proof -
  let ?n = "packetHeaderSize + length (p_body p)" and ?b = "encode_packet md5 p @ rest"
  have n: "le_nat (le_enc 8 ?n) = ?n" using wf by (intro le_nat_le_enc) (simp add: wf_packet_def)
  have l: "\<not> length ?b < packetHeaderSize" using length_encode_packet [OF md5 wf] by simp
  have sub: "sub_bytes ?b 0 8 = packetMagic" "sub_bytes ?b 8 16 = le_enc 8 ?n"
    "sub_bytes ?b 16 32 = md5 (p_set p @ p_type p @ p_body p)"
    "sub_bytes ?b 32 48 = p_set p" "sub_bytes ?b 48 64 = p_type p"
    using wf md5 by (simp_all add: sub_bytes_def encode_packet_def wf_packet_def)
  have i: "int64_of_bytes (le_enc 8 ?n) = int ?n"
    unfolding int64_of_bytes_def n using wf by (intro i64_id) (simp add: wf_packet_def)
  have "int ?n mod 4 = 0" using wf unfolding wf_packet_def by presburger
  then have "go_mod (int ?n) 4 = 0" by (subst go_mod_nonneg) simp_all
  then show ?thesis using l unfolding parsePacketHeader_def sub Let_def i by (simp add: packet_header_def)
qed

lemma packet_at_encode:
  assumes md5: "\<And>x. length (md5 x) = 16" and wf: "wf_packet p"
  shows "packet_at md5 (pre @ encode_packet md5 p @ rest) (length pre) (packet_header md5 p)"
    and "packet_bytes (pre @ encode_packet md5 p @ rest) (length pre) (packet_header md5 p) = encode_packet md5 p"
proof -
  note l = length_encode_packet [OF md5 wf]
  show b: "packet_bytes (pre @ encode_packet md5 p @ rest) (length pre) (packet_header md5 p) = encode_packet md5 p"
    using l by (simp add: packet_bytes_def packet_header_def nat_add_distrib)
  have "drop 32 (encode_packet md5 p) = p_set p @ p_type p @ p_body p"
    using md5 by (simp add: encode_packet_def)
  then have "verifyPacketMD5 md5 (packet_header md5 p) (encode_packet md5 p)"
    using l by (simp add: verifyPacketMD5_def packet_header_def)
  moreover have "header_at (pre @ encode_packet md5 p @ rest) (length pre) = Some (packet_header md5 p)"
    using l parse_encode_packet [of md5 p rest, OF md5 wf] by (simp add: header_at_def packet_header_def)
  ultimately show "packet_at md5 (pre @ encode_packet md5 p @ rest) (length pre) (packet_header md5 p)"
    by (simp add: packet_at_def b)
qed

text \<open>Handing a list of packets to the callback, one after the other, until it fails.\<close>

fun feed_packets ::
  "(bytes \<Rightarrow> bytes) \<Rightarrow> (packetHeader \<Rightarrow> bytes \<Rightarrow> nat \<Rightarrow> 's \<Rightarrow> 'e option \<times> 's) \<Rightarrow> nat \<Rightarrow> par2_packet list \<Rightarrow> 's \<Rightarrow>
   'e walk_error option \<times> 's" where
  "feed_packets md5 fn pos [] s = (None, s)"
| "feed_packets md5 fn pos (p # ps) s =
     (case fn (packet_header md5 p) (encode_packet md5 p) pos s of
        (Some e, s') \<Rightarrow> (Some (Callback e), s')
      | (None, s') \<Rightarrow> feed_packets md5 fn (pos + length (encode_packet md5 p)) ps s')"

lemma walk_loop_feed:
  assumes md5: "\<And>x. length (md5 x) = 16" and "\<forall>p \<in> set ps. wf_packet p"
  shows "walk_loop md5 (pre @ concat (map (encode_packet md5) ps)) onBad fn (length pre) s =
    feed_packets md5 fn (length pre) ps s"
  using assms(2)
proof (induction ps arbitrary: pre s)
  case Nil
  then show ?case by (subst walk_loop.simps) simp
next
  case (Cons p ps)
  let ?e = "encode_packet md5 p" and ?rest = "concat (map (encode_packet md5) ps)"
  have wf: "wf_packet p" "\<forall>p \<in> set ps. wf_packet p" using Cons.prems by simp_all
  note l = length_encode_packet [OF md5 wf(1)] and at = packet_at_encode [of md5 p pre ?rest, OF md5 wf(1)]
  have n: "nat (Length (packet_header md5 p)) = length ?e" using l by (simp add: packet_header_def)
  have b: "length pre + packetHeaderSize \<le> length (pre @ ?e @ ?rest)" using l by simp
  have "walk_loop md5 (pre @ ?e @ ?rest) onBad fn (length pre) s =
      (case fn (packet_header md5 p) ?e (length pre) s of
         (Some e, s') \<Rightarrow> (Some (Callback e), s')
       | (None, s') \<Rightarrow> walk_loop md5 (pre @ ?e @ ?rest) onBad fn (length pre + length ?e) s')"
    using at b by (subst walk_loop.simps) (simp add: packet_at_def packet_bytes_def n Let_def split: prod.split option.split)
  then show ?case using Cons.IH [OF wf(2), of "pre @ ?e"] by (simp split: prod.split option.split)
qed

section \<open>Properties\<close>

text \<open>C30. The lenient walk (a damaged volume scanned for intact packets) hands its callback only packets
  that parse, fit the data and match their MD5, exactly as they stand in the data; and every such
  packet of the data is handed over unless it starts inside one that is. \<^verbatim>\<open>walkPackets\<close> here collects
  what its callback receives.\<close>

theorem walkPackets_salvages:
  fixes md5 data
  defines "collected \<equiv> snd (walkPackets md5 data (Some (\<lambda>h pos s. s))
    (\<lambda>h packet pos s. (None :: unit option, s @ [(h, packet, pos)])) [])"
  shows "(\<forall>(h, packet, pos) \<in> set collected. packet_at md5 data pos h \<and> packet = packet_bytes data pos h) \<and>
    (\<forall>pos h. packet_at md5 data pos h \<longrightarrow>
       (\<exists>(h', packet, q) \<in> set collected. q \<le> pos \<and> int pos < int q + Length h'))"
proof -
  let ?ev = "lenient_events md5 data 0"
  have run: "run_events (\<lambda>h pos s. s) (\<lambda>h packet pos s. (None :: unit option, s @ [(h, packet, pos)])) es s =
      (None, s @ concat (map (\<lambda>e. case e of Good h packet pos \<Rightarrow> [(h, packet, pos)] | Bad h pos \<Rightarrow> []) es))" for es s
  proof (induction es arbitrary: s)
    case (Cons e es)
    then show ?case by (cases e) simp_all
  qed simp
  have c: "x \<in> set collected \<longleftrightarrow> (case x of (h, packet, pos) \<Rightarrow> Good h packet pos \<in> set ?ev)" for x
    unfolding collected_def walkPackets_def walk_loop_events run
    by (cases x) (auto split: walk_event.splits)
  have "packet_at md5 data pos h \<and> packet = packet_bytes data pos h" if "(h, packet, pos) \<in> set collected" for h packet pos
    using that lenient_events_sound [of "Good h packet pos" md5 data 0] by (simp add: c)
  moreover have "\<exists>(h', packet, q) \<in> set collected. q \<le> pos \<and> int pos < int q + Length h'"
    if p: "packet_at md5 data pos h" for pos h
  proof -
    obtain h' packet q where g: "Good h' packet q \<in> set ?ev" "q \<le> pos" "pos < q + nat (Length h')"
      using lenient_events_complete [OF p, of 0] by auto
    then have "int pos < int q + Length h'" by (cases "0 \<le> Length h'") simp_all
    moreover have "(h', packet, q) \<in> set collected" using g(1) by (simp add: c)
    ultimately show ?thesis using g(2) by blast
  qed
  ultimately show ?thesis by blast
qed

text \<open>The empty packet of an all-zero set, behind three bytes of garbage, with a checksum that is constant.\<close>

theorem walkPackets_salvages_witness:
  "\<exists>(h', packet, q) \<in> set (snd (walkPackets (\<lambda>_. replicate 16 0)
      ([1, 2, 3] @ encode_packet (\<lambda>_. replicate 16 0) \<lparr>p_set = replicate 16 0, p_type = typeMain, p_body = []\<rparr> @ [])
      (Some (\<lambda>h pos s. s)) (\<lambda>h packet pos s. (None :: unit option, s @ [(h, packet, pos)])) [])).
      q \<le> 3 \<and> 3 < int q + Length h'"
proof -
  let ?p = "\<lparr>p_set = replicate 16 0, p_type = typeMain, p_body = []\<rparr>" and ?md5 = "\<lambda>_ :: bytes. replicate 16 (0 :: byte)"
  have wf: "wf_packet ?p" by (simp add: wf_packet_def typeMain_def ascii_def)
  have "packet_at ?md5 ([1, 2, 3] @ encode_packet ?md5 ?p @ []) (length [1 :: byte, 2, 3]) (packet_header ?md5 ?p)"
    by (rule packet_at_encode(1)) (simp_all add: wf)
  then have "packet_at ?md5 ([1, 2, 3] @ encode_packet ?md5 ?p @ []) 3 (packet_header ?md5 ?p)"
    by (simp add: numeral_3_eq_3)
  from conjunct2 [OF walkPackets_salvages, rule_format, OF this] show ?thesis
    by (simp only: of_nat_numeral)
qed

text \<open>Round trip: on a file that is a sequence of well-formed packets, the walk, strict or lenient,
  hands the callback every packet's header and bytes in order and at its offset, until the callback
  fails; nothing is reported as damaged and no other error is returned. \<open>md5\<close> need only return 16
  bytes.\<close>

lemma walkPackets_round_trip:
  assumes "\<And>x. length (md5 x) = 16" "\<forall>p \<in> set ps. wf_packet p"
  shows "walkPackets md5 (concat (map (encode_packet md5) ps)) onBad fn s = feed_packets md5 fn 0 ps s"
  using walk_loop_feed [of md5 ps "[]", OF assms] by (simp add: walkPackets_def)

text \<open>No length field, however large, makes the walk slice out of bounds or stop making progress:
  a header accepted at a position declares at least 64 bytes and ends inside the data.\<close>

lemma header_at_fits:
  assumes "header_at data pos = Some h"
  shows "64 \<le> Length h \<and> Length h mod 4 = 0 \<and> int pos + Length h \<le> int (length data)"
  using assms
  by (auto simp: header_at_def parsePacketHeader_def Let_def split: sum.splits if_splits)

end
