(* ===== verification/Par2_Index.thy ===== *)
theory Par2_Index
  imports Par2_Packet "HOL-Library.Multiset"
begin

text \<open>
  The index of a PAR2 recovery set: \<^verbatim>\<open>src/pkg/usenet/par2/index.go\<close> and \<^verbatim>\<open>checksum.go\<close>. Packets of all sources are
  folded into one \<open>Index\<close>; its global slice numbering, the mapping from damaged byte ranges to slices
  and the per-slice checksum are derived from it. MD5 and CRC32 are parameters. A \<^verbatim>\<open>[16]byte\<close> is a byte
  list, a Go \<^verbatim>\<open>string\<close> its bytes, a nil slice \<^term>\<open>None\<close>; 64-bit sums and products wrap.
\<close>

section \<open>Data\<close>

record FileDesc =
  FileID :: bytes
  FileMD5 :: bytes
  MD5_16k :: bytes
  fd_Length :: int
  fd_Name :: bytes

record SliceChecksum =
  sc_MD5 :: bytes
  sc_CRC32 :: u32

record RecoverySliceRef =
  Exponent :: u32
  Source :: nat
  Offset :: int
  ref_Length :: int

record SkippedPacket =
  sp_Source :: nat
  sp_Offset :: nat
  sp_Type :: string

record Index =
  SetID :: bytes
  SliceSize :: int
  FileOrder :: "bytes list option"
  Files :: "bytes \<Rightarrow> FileDesc option"
  Slices :: "bytes \<Rightarrow> SliceChecksum list option"
  Recovery :: "RecoverySliceRef list"
  SkippedPackets :: "SkippedPacket list"
  fileBase :: "int list"
  numSlices :: int

record source =
  src_Name :: bytes
  src_Data :: bytes

datatype index_error =
    DifferentSet bytes nat
  | TruncatedMain
  | InvalidSliceSize int
  | TruncatedMainList
  | TruncatedFileDesc
  | TruncatedIFSC
  | MalformedIFSC nat
  | TruncatedRecvSlic
  | NoPackets
  | NoMain
  | NoFileDesc bytes
  | TooManySlices int
  | NotInRecoverySet bytes
  | SliceOutOfRange int
  | SliceNotFound int
  | NoIFSCChecksum int
  | SlicePastEnd int
  | IndexPanic

definition zero_id :: bytes where "zero_id = replicate 16 0"

definition empty_index :: Index where
  "empty_index = \<lparr>SetID = zero_id, SliceSize = 0, FileOrder = None, Files = (\<lambda>_. None),
     Slices = (\<lambda>_. None), Recovery = [], SkippedPackets = [], fileBase = [], numSlices = 0\<rparr>"

abbreviation file_order :: "Index \<Rightarrow> bytes list" where
  "file_order idx \<equiv> (case FileOrder idx of None \<Rightarrow> [] | Some ids \<Rightarrow> ids)"

section \<open>Packet bodies\<close>

abbreviation maxSliceSize :: int where "maxSliceSize \<equiv> 1073741824"

text \<open>\<^verbatim>\<open>fileIDLess\<close> compares from the last byte down: the loop over the reversed arrays.\<close>

fun id_less_loop :: "bytes \<Rightarrow> bytes \<Rightarrow> bool" where
  "id_less_loop (x # xs) (y # ys) = (if x \<noteq> y then x < y else id_less_loop xs ys)"
| "id_less_loop xs ys = False"

definition fileIDLess :: "bytes \<Rightarrow> bytes \<Rightarrow> bool" where
  "fileIDLess a b = id_less_loop (rev a) (rev b)"

text \<open>\<^verbatim>\<open>sort.Slice\<close> with a strict order that is total on the elements: its result does not depend on the
  algorithm (\<open>sort_ids_unique\<close> below).\<close>

fun insert_id :: "bytes \<Rightarrow> bytes list \<Rightarrow> bytes list" where
  "insert_id x [] = [x]"
| "insert_id x (y # ys) = (if fileIDLess y x then y # insert_id x ys else x # y # ys)"

definition sort_ids :: "bytes list \<Rightarrow> bytes list" where
  "sort_ids ids = foldr insert_id ids []"

definition uint32_of_bytes :: "bytes \<Rightarrow> u32" where
  "uint32_of_bytes b = of_nat (le_nat b)"

definition parseMain :: "Index \<Rightarrow> bytes \<Rightarrow> index_error + Index" where
  "parseMain idx body =
     (if length body < 12 then Inl TruncatedMain
      else let sliceSize = int64_of_bytes (sub_bytes body 0 8)
           in if sliceSize \<le> 0 \<or> go_mod sliceSize 4 \<noteq> 0 \<or> sliceSize > maxSliceSize
              then Inl (InvalidSliceSize sliceSize)
              else let numFiles = unat (uint32_of_bytes (sub_bytes body 8 12));
                       need = 12 + numFiles * 16
                   in if length body < need then Inl TruncatedMainList
                      else let ids = map (\<lambda>i. sub_bytes body (12 + i * 16) (12 + (i + 1) * 16)) [0..<numFiles]
                           in Inr (idx\<lparr>SliceSize := sliceSize, FileOrder := Some (sort_ids ids)\<rparr>))"

definition parseFileDesc :: "Index \<Rightarrow> bytes \<Rightarrow> index_error + Index" where
  "parseFileDesc idx body =
     (if length body < 56 then Inl TruncatedFileDesc
      else let fd = \<lparr>FileID = sub_bytes body 0 16, FileMD5 = sub_bytes body 16 32,
                     MD5_16k = sub_bytes body 32 48, fd_Length = int64_of_bytes (sub_bytes body 48 56),
                     fd_Name = takeWhile (\<lambda>b. b \<noteq> 0) (drop 56 body)\<rparr>
           in Inr (idx\<lparr>Files := (Files idx)(FileID fd \<mapsto> fd)\<rparr>))"

definition parseIFSC :: "Index \<Rightarrow> bytes \<Rightarrow> index_error + Index" where
  "parseIFSC idx body =
     (if length body < 16 then Inl TruncatedIFSC
      else let fileID = sub_bytes body 0 16; rest = drop 16 body
           in if length rest mod 20 \<noteq> 0 then Inl (MalformedIFSC (length rest))
              else let checks = map (\<lambda>i. \<lparr>sc_MD5 = sub_bytes rest (i * 20) (i * 20 + 16),
                                          sc_CRC32 = uint32_of_bytes (sub_bytes rest (i * 20 + 16) (i * 20 + 20))\<rparr>)
                                  [0..<length rest div 20]
                   in Inr (idx\<lparr>Slices := (Slices idx)(fileID \<mapsto> checks)\<rparr>))"

definition parseRecvSlic :: "Index \<Rightarrow> nat \<Rightarrow> nat \<Rightarrow> bytes \<Rightarrow> index_error + Index" where
  "parseRecvSlic idx srcIdx packetOffset body =
     (if length body < 4 then Inl TruncatedRecvSlic
      else Inr (idx\<lparr>Recovery := Recovery idx @
                 [\<lparr>Exponent = uint32_of_bytes (sub_bytes body 0 4), Source = srcIdx,
                   Offset = int (packetOffset + packetHeaderSize + 4),
                   ref_Length = int (length body - 4)\<rparr>]\<rparr>))"

section \<open>Folding the sources\<close>

record parse_state =
  st_idx :: Index
  st_seen :: "bytes set"
  st_haveSetID :: bool

definition lift_parse :: "parse_state \<Rightarrow> index_error + Index \<Rightarrow> index_error option \<times> parse_state" where
  "lift_parse st r = (case r of Inl e \<Rightarrow> (Some e, st) | Inr idx \<Rightarrow> (None, st\<lparr>st_idx := idx\<rparr>))"

definition index_body :: "nat \<Rightarrow> packetHeader \<Rightarrow> bytes \<Rightarrow> nat \<Rightarrow> parse_state \<Rightarrow> index_error option \<times> parse_state" where
  "index_body srcIdx h packet offset st =
     (let body = drop packetHeaderSize packet; idx = st_idx st
      in if Type h = typeMain then lift_parse st (parseMain idx body)
         else if Type h = typeFileDesc then lift_parse st (parseFileDesc idx body)
         else if Type h = typeIFSC then lift_parse st (parseIFSC idx body)
         else if Type h = typeRecvSlic then lift_parse st (parseRecvSlic idx srcIdx offset body)
         else (None, st))"

definition index_packet ::
  "bytes option \<Rightarrow> bytes \<Rightarrow> nat \<Rightarrow> packetHeader \<Rightarrow> bytes \<Rightarrow> nat \<Rightarrow> parse_state \<Rightarrow> index_error option \<times> parse_state" where
  "index_packet want name srcIdx h packet offset st =
     (if want \<noteq> None \<and> want \<noteq> Some (RecoverySetID h) then (None, st)
      else if st_haveSetID st \<and> RecoverySetID h \<noteq> SetID (st_idx st) then (Some (DifferentSet name offset), st)
      else let st1 = (if st_haveSetID st then st
                      else st\<lparr>st_idx := (st_idx st)\<lparr>SetID := RecoverySetID h\<rparr>, st_haveSetID := True\<rparr>)
           in if MD5 h \<in> st_seen st1 then (None, st1)
              else index_body srcIdx h packet offset (st1\<lparr>st_seen := insert (MD5 h) (st_seen st1)\<rparr>))"

definition index_bad :: "nat \<Rightarrow> packetHeader \<Rightarrow> nat \<Rightarrow> parse_state \<Rightarrow> parse_state" where
  "index_bad srcIdx h offset st =
     st\<lparr>st_idx := (st_idx st)\<lparr>SkippedPackets := SkippedPackets (st_idx st) @
       [\<lparr>sp_Source = srcIdx, sp_Offset = offset, sp_Type = packetTypeName (Type h)\<rparr>]\<rparr>\<rparr>"

text \<open>A walk in lenient mode only fails through its callback.\<close>

fun walk_failure :: "index_error walk_error \<Rightarrow> index_error" where
  "walk_failure (Callback e) = e"
| "walk_failure (PacketMD5Mismatch pos t) = IndexPanic"

fun parse_sources ::
  "(bytes \<Rightarrow> bytes) \<Rightarrow> bytes option \<Rightarrow> nat \<Rightarrow> source list \<Rightarrow> parse_state \<Rightarrow> index_error + parse_state" where
  "parse_sources md5 want srcIdx [] st = Inr st"
| "parse_sources md5 want srcIdx (src # srcs) st =
     (case walkPackets md5 (src_Data src) (Some (index_bad srcIdx)) (index_packet want (src_Name src) srcIdx) st of
        (Some e, st') \<Rightarrow> Inl (walk_failure e)
      | (None, st') \<Rightarrow> parse_sources md5 want (Suc srcIdx) srcs st')"

definition ceilDiv :: "int \<Rightarrow> int \<Rightarrow> int" where
  "ceilDiv a b = (if a \<le> 0 then 0 else i64 (go_div (i64 (i64 (a + b) - 1)) b))"

fun finalize_loop :: "Index \<Rightarrow> bytes list \<Rightarrow> int \<Rightarrow> int list \<Rightarrow> index_error + int list \<times> int" where
  "finalize_loop idx [] tot bases = Inr (bases, tot)"
| "finalize_loop idx (fid # ids) tot bases =
     (case Files idx fid of
        None \<Rightarrow> Inl (NoFileDesc fid)
      | Some fd \<Rightarrow> finalize_loop idx ids (i64 (tot + ceilDiv (fd_Length fd) (SliceSize idx))) (bases @ [tot]))"

abbreviation max_input_slices :: int where "max_input_slices \<equiv> 32768"

definition finalize :: "Index \<Rightarrow> index_error + Index" where
  "finalize idx =
     (case finalize_loop idx (file_order idx) 0 [] of
        Inl e \<Rightarrow> Inl e
      | Inr (bases, tot) \<Rightarrow>
          if tot > max_input_slices then Inl (TooManySlices tot)
          else Inr (idx\<lparr>fileBase := bases, numSlices := tot\<rparr>))"

definition parseIndex :: "(bytes \<Rightarrow> bytes) \<Rightarrow> source list \<Rightarrow> bytes option \<Rightarrow> index_error + Index" where
  "parseIndex md5 sources want =
     (case parse_sources md5 want 0 sources \<lparr>st_idx = empty_index, st_seen = {}, st_haveSetID = False\<rparr> of
        Inl e \<Rightarrow> Inl e
      | Inr st \<Rightarrow>
          if \<not> st_haveSetID st then Inl NoPackets
          else if SliceSize (st_idx st) \<le> 0 \<or> FileOrder (st_idx st) = None then Inl NoMain
          else finalize (st_idx st))"

definition ParseIndex :: "(bytes \<Rightarrow> bytes) \<Rightarrow> source list \<Rightarrow> index_error + Index" where
  "ParseIndex md5 sources = parseIndex md5 sources None"

definition ParseIndexSet :: "(bytes \<Rightarrow> bytes) \<Rightarrow> source list \<Rightarrow> bytes \<Rightarrow> index_error + Index" where
  "ParseIndexSet md5 sources setID =
     (if setID = zero_id then parseIndex md5 sources None else parseIndex md5 sources (Some setID))"

definition SourceSetIDs :: "(bytes \<Rightarrow> bytes) \<Rightarrow> source list \<Rightarrow> bytes list" where
  "SourceSetIDs md5 sources =
     map (\<lambda>src. snd (walkPackets md5 (src_Data src) (Some (\<lambda>h pos s. s))
                       (\<lambda>h packet pos s. (Some (), RecoverySetID h)) zero_id)) sources"

section \<open>Slice numbering\<close>

fun slice_base_loop :: "bytes \<Rightarrow> bytes list \<Rightarrow> int list \<Rightarrow> index_error + int" where
  "slice_base_loop fileID [] bases = Inl (NotInRecoverySet fileID)"
| "slice_base_loop fileID (fid # ids) [] = (if fid = fileID then Inl IndexPanic else slice_base_loop fileID ids [])"
| "slice_base_loop fileID (fid # ids) (base # bases) =
     (if fid = fileID then Inr base else slice_base_loop fileID ids bases)"

definition SliceBase :: "Index \<Rightarrow> bytes \<Rightarrow> index_error + int" where
  "SliceBase idx fileID = slice_base_loop fileID (file_order idx) (fileBase idx)"

fun location_loop :: "int \<Rightarrow> int \<Rightarrow> bytes list \<Rightarrow> int list \<Rightarrow> index_error + bytes \<times> int" where
  "location_loop n g ids [] = Inl (SliceNotFound g)"
| "location_loop n g ids (base # bases) =
     (let fin = (case bases of [] \<Rightarrow> n | b # _ \<Rightarrow> b)
      in if g \<ge> base \<and> g < fin then (case ids of [] \<Rightarrow> Inl IndexPanic | fid # _ \<Rightarrow> Inr (fid, g - base))
         else location_loop n g (tl ids) bases)"

definition sliceLocation :: "Index \<Rightarrow> int \<Rightarrow> index_error + bytes \<times> int" where
  "sliceLocation idx g =
     (if g < 0 \<or> g \<ge> numSlices idx then Inl (SliceOutOfRange g)
      else location_loop (numSlices idx) g (file_order idx) (fileBase idx))"

text \<open>A slice size of zero, which no parsed index has, would divide by zero.\<close>

definition DamagedSlices :: "Index \<Rightarrow> bytes \<Rightarrow> int \<Rightarrow> int \<Rightarrow> index_error + int list" where
  "DamagedSlices idx fileID byteStart byteEnd0 =
     (let byteEnd = (case Files idx fileID of
                       Some fd \<Rightarrow> if byteEnd0 > fd_Length fd then fd_Length fd else byteEnd0
                     | None \<Rightarrow> byteEnd0)
      in if byteEnd \<le> byteStart then Inr []
         else case SliceBase idx fileID of
                Inl e \<Rightarrow> Inl e
              | Inr base \<Rightarrow>
                  if SliceSize idx = 0 then Inl IndexPanic
                  else let startSlice = i64 (base + go_div byteStart (SliceSize idx));
                           endSlice = i64 (base + go_div (i64 (byteEnd - 1)) (SliceSize idx))
                       in Inr [startSlice..endSlice])"

definition md5AndCRC32 :: "(bytes \<Rightarrow> bytes) \<Rightarrow> (bytes \<Rightarrow> u32) \<Rightarrow> bytes \<Rightarrow> SliceChecksum" where
  "md5AndCRC32 md5 crc data = \<lparr>sc_MD5 = md5 data, sc_CRC32 = crc data\<rparr>"

definition verifySliceChecksum ::
  "(bytes \<Rightarrow> bytes) \<Rightarrow> (bytes \<Rightarrow> u32) \<Rightarrow> Index \<Rightarrow> int \<Rightarrow> bytes \<Rightarrow> index_error + bool" where
  "verifySliceChecksum md5 crc idx g data =
     (case sliceLocation idx g of
        Inl e \<Rightarrow> Inl e
      | Inr (fileID, local) \<Rightarrow>
          let checks = (case Slices idx fileID of None \<Rightarrow> [] | Some cs \<Rightarrow> cs)
          in if local < 0 \<or> local \<ge> int (length checks) then Inl (NoIFSCChecksum g)
             else Inr (md5AndCRC32 md5 crc data = checks ! nat local))"

definition TrimSlice :: "Index \<Rightarrow> int \<Rightarrow> bytes \<Rightarrow> index_error + bytes" where
  "TrimSlice idx g data =
     (case sliceLocation idx g of
        Inl e \<Rightarrow> Inl e
      | Inr (fileID, local) \<Rightarrow>
          (case Files idx fileID of
             None \<Rightarrow> Inl (NoFileDesc fileID)
           | Some fd \<Rightarrow>
               let sliceStart = i64 (local * SliceSize idx);
                   remaining = i64 (fd_Length fd - sliceStart)
               in if remaining \<ge> int (length data) then Inr data
                  else if remaining < 0 then Inl (SlicePastEnd g)
                  else Inr (take (nat remaining) data)))"

section \<open>The order of file identifiers\<close>

lemma le_nat_snoc: "le_nat (xs @ [x]) = le_nat xs + 256 ^ length xs * unat x"
  by (induction xs) (simp_all add: algebra_simps)

lemma id_less_loop_iff:
  "length xs = length ys \<Longrightarrow> id_less_loop xs ys \<longleftrightarrow> le_nat (rev xs) < le_nat (rev ys)"
proof (induction xs ys rule: list_induct2)
  case (Cons x xs y ys)
  let ?n = "256 ^ length ys :: nat"
  have b: "le_nat (rev xs) < ?n" "le_nat (rev ys) < ?n"
    using le_nat_less [of "rev xs"] le_nat_less [of "rev ys"] Cons.hyps by simp_all
  have lt: "a + ?n * c < b + ?n * d" if "c < d" "a < ?n" for a b c d
  proof -
    have "a + ?n * c < ?n * Suc c" using that(2) by simp
    also have "\<dots> \<le> ?n * d" using that(1) by (intro mult_le_mono) simp_all
    finally show ?thesis by simp
  qed
  consider "x = y" | "unat x < unat y" | "unat y < unat x"
    using word_unat_eq_iff [of x y] by linarith
  then show ?case
    using lt [of "unat x" "unat y" "le_nat (rev xs)" "le_nat (rev ys)"]
      lt [of "unat y" "unat x" "le_nat (rev ys)" "le_nat (rev xs)"] b Cons
    by cases (auto simp: le_nat_snoc word_less_nat_alt word_unat_eq_iff)
qed simp

lemma fileIDLess_iff: "length a = length b \<Longrightarrow> fileIDLess a b \<longleftrightarrow> le_nat a < le_nat b"
  by (simp add: fileIDLess_def id_less_loop_iff)

lemma insert_id_insort:
  "\<forall>y \<in> set ys. length y = length x \<Longrightarrow> insert_id x ys = insort_key le_nat x ys"
  by (induction ys) (auto simp: fileIDLess_iff not_le)

lemma sort_ids_sort_key: "\<forall>x \<in> set ids. length x = n \<Longrightarrow> sort_ids ids = sort_key le_nat ids"
proof (induction ids)
  case (Cons x ids)
  then have "sort_ids (x # ids) = insert_id x (sort_key le_nat ids)" by (simp add: sort_ids_def)
  then show ?case using Cons.prems by (simp add: insert_id_insort)
qed (simp add: sort_ids_def)

lemma le_nat_inj_on: "\<forall>x \<in> set ids. length x = n \<Longrightarrow> inj_on le_nat (set ids)"
  by (auto intro!: inj_onI simp: le_nat_inj)

lemma sort_ids_unique:
  assumes l: "\<forall>x \<in> set ids. length x = n" and m: "mset ys = mset ids"
    and s: "sorted_wrt (\<lambda>a b. \<not> fileIDLess b a) ys"
  shows "sort_ids ids = ys"
proof -
  have "\<forall>x \<in> set ys. length x = n" using l m by (metis mset_eq_setD)
  with s have "sorted_wrt (\<lambda>a b. le_nat a \<le> le_nat b) ys"
    by (elim sorted_wrt_mono_rel [rotated]) (simp add: fileIDLess_iff not_less)
  then have "sorted (map le_nat ys)" by (simp add: sorted_wrt_map)
  then show ?thesis
    using sort_key_inj_key_eq [of ids ys le_nat] m le_nat_inj_on [OF l] sort_ids_sort_key [OF l] by simp
qed

section \<open>Slice numbering of a finalised index\<close>

text \<open>Reference: the number of slices of a file and the running sums of a list of counts.\<close>

definition slice_count :: "int \<Rightarrow> int \<Rightarrow> int" where
  "slice_count l s = (if l \<le> 0 then 0 else (l + s - 1) div s)"

fun prefix_sums :: "int \<Rightarrow> int list \<Rightarrow> int list" where
  "prefix_sums b [] = []"
| "prefix_sums b (c # cs) = b # prefix_sums (b + c) cs"

definition file_length :: "Index \<Rightarrow> bytes \<Rightarrow> int" where
  "file_length idx fid = (case Files idx fid of None \<Rightarrow> 0 | Some fd \<Rightarrow> fd_Length fd)"

definition slice_counts :: "Index \<Rightarrow> int list" where
  "slice_counts idx = map (\<lambda>fid. slice_count (file_length idx fid) (SliceSize idx)) (file_order idx)"

definition wf_index :: "Index \<Rightarrow> bool" where
  "wf_index idx \<longleftrightarrow> 0 < SliceSize idx \<and> SliceSize idx \<le> maxSliceSize \<and>
     (\<forall>fid \<in> set (file_order idx). Files idx fid \<noteq> None) \<and>
     fileBase idx = prefix_sums 0 (slice_counts idx) \<and> numSlices idx = sum_list (slice_counts idx) \<and>
     numSlices idx \<le> max_input_slices"

text \<open>The file lengths, each rounded up by a slice, add up without overflow.\<close>

definition lengths_fit :: "Index \<Rightarrow> bool" where
  "lengths_fit idx \<longleftrightarrow> (\<Sum>fid\<leftarrow>file_order idx. max 0 (file_length idx fid) + SliceSize idx) \<le> max_i64"

lemma slice_count_bounds: "0 < s \<Longrightarrow> 0 \<le> slice_count l s \<and> slice_count l s \<le> max 0 l + s"
proof -
  assume s: "0 < s"
  have "(l + s - 1) div s \<le> l + s - 1" if "0 < l"
    using that s zdiv_mono2 [of "l + s - 1" 1 s] by simp
  then show ?thesis using s by (auto simp: slice_count_def pos_imp_zdiv_nonneg_iff)
qed

lemma slice_count_least: "0 < s \<Longrightarrow> l \<le> slice_count l s * s \<and> (0 < l \<longrightarrow> (slice_count l s - 1) * s < l)"
proof -
  assume s: "0 < s"
  have "(l + s - 1) div s * s = l + s - 1 - (l + s - 1) mod s" by (simp add: minus_mod_eq_div_mult)
  moreover have "0 \<le> (l + s - 1) mod s" "(l + s - 1) mod s < s" using s by simp_all
  ultimately show ?thesis unfolding slice_count_def left_diff_distrib by auto
qed

lemma ceilDiv_count: "0 < s \<Longrightarrow> l + s \<le> max_i64 \<Longrightarrow> ceilDiv l s = slice_count l s"
proof (cases "0 < l")
  case True
  assume s: "0 < s" "l + s \<le> max_i64"
  have i: "i64 (i64 (l + s) - 1) = l + s - 1" using s True by (simp add: i64_id)
  have "0 \<le> (l + s - 1) div s" "(l + s - 1) div s \<le> l + s"
    using slice_count_bounds [of s l] s True by (auto simp: slice_count_def)
  then show ?thesis using s True unfolding ceilDiv_def i by (simp add: slice_count_def i64_id)
qed (simp add: ceilDiv_def slice_count_def)

lemma finalize_loop_spec:
  assumes "\<forall>fid \<in> set ids. Files idx fid \<noteq> None" "0 < SliceSize idx" "0 \<le> tot"
    "tot + (\<Sum>fid\<leftarrow>ids. max 0 (file_length idx fid) + SliceSize idx) \<le> max_i64"
  shows "finalize_loop idx ids tot bases =
    (let cs = map (\<lambda>fid. slice_count (file_length idx fid) (SliceSize idx)) ids
     in Inr (bases @ prefix_sums tot cs, tot + sum_list cs))"
  using assms
proof (induction ids arbitrary: tot bases)
  case (Cons fid ids)
  let ?s = "SliceSize idx" and ?l = "file_length idx fid"
  obtain fd where fd: "Files idx fid = Some fd" "?l = fd_Length fd"
    using Cons.prems(1) by (auto simp: file_length_def)
  have nn: "0 \<le> (\<Sum>fid\<leftarrow>ids. max 0 (file_length idx fid) + ?s)"
    using Cons.prems(2) by (intro sum_list_nonneg) auto
  note c = slice_count_bounds [OF Cons.prems(2), of ?l]
  have e: "ceilDiv (fd_Length fd) ?s = slice_count ?l ?s"
    using ceilDiv_count [of ?s ?l] Cons.prems nn fd by (auto simp: max_def split: if_splits)
  have "i64 (tot + slice_count ?l ?s) = tot + slice_count ?l ?s"
    using c nn Cons.prems by (intro i64_id) auto
  then show ?case using Cons fd e c by (simp add: Let_def)
qed simp

lemma finalize_loop_files:
  "finalize_loop idx ids tot bases = Inr r \<Longrightarrow> fid \<in> set ids \<Longrightarrow> Files idx fid \<noteq> None"
  by (induction ids arbitrary: tot bases) (auto split: option.splits)

text \<open>Keeping the sums apart from the fields that finalisation does not touch.\<close>

lemma slice_counts_update [simp]:
  "slice_counts (idx\<lparr>fileBase := b, numSlices := n\<rparr>) = slice_counts idx"
  by (simp add: slice_counts_def file_length_def)

lemma finalize_Inr:
  assumes "finalize idx = Inr idx'"
  obtains b n where "idx' = idx\<lparr>fileBase := b, numSlices := n\<rparr>" "n \<le> max_input_slices"
    "finalize_loop idx (file_order idx) 0 [] = Inr (b, n)"
  using assms that by (auto simp: finalize_def split: sum.splits if_splits)

lemma finalize_wf:
  assumes "finalize idx = Inr idx'" "0 < SliceSize idx" "SliceSize idx \<le> maxSliceSize" "lengths_fit idx"
  shows "wf_index idx'"
proof -
  obtain b n where idx': "idx' = idx\<lparr>fileBase := b, numSlices := n\<rparr>" and n: "n \<le> max_input_slices"
    and l: "finalize_loop idx (file_order idx) 0 [] = Inr (b, n)"
    using finalize_Inr [OF assms(1)] by blast
  have f: "\<forall>fid \<in> set (file_order idx). Files idx fid \<noteq> None" using finalize_loop_files [OF l] by blast
  then have "b = prefix_sums 0 (slice_counts idx)" "n = sum_list (slice_counts idx)"
    using finalize_loop_spec [OF f assms(2), of 0 "[]"] assms(4) l
    by (simp_all add: lengths_fit_def slice_counts_def Let_def)
  then show ?thesis using f n assms(2,3) unfolding wf_index_def idx' slice_counts_update by simp
qed

text \<open>Slice \<open>l\<close> of the file at position \<open>i\<close> has global number \<open>slice_offset idx i + l\<close>.\<close>

definition slice_offset :: "Index \<Rightarrow> nat \<Rightarrow> int" where
  "slice_offset idx i = sum_list (take i (slice_counts idx))"

lemma location_loop_prefix:
  assumes "length ids = length cs" "\<forall>c \<in> set cs. 0 \<le> c" "i < length cs" "0 \<le> l" "l < cs ! i"
    "n = b + sum_list cs" "g = b + sum_list (take i cs) + l"
  shows "location_loop n g ids (prefix_sums b cs) = Inr (ids ! i, l)"
  using assms
proof (induction cs arbitrary: ids b i)
  case (Cons c cs)
  obtain d ds where ids: "ids = d # ds" "length ds = length cs" using Cons.prems(1) by (cases ids) auto
  have fin: "(case prefix_sums (b + c) cs of [] \<Rightarrow> n | x # _ \<Rightarrow> x) = b + c"
    using Cons.prems(6) by (cases cs) simp_all
  have step: "location_loop n g ids (prefix_sums b (c # cs)) =
      (if b \<le> g \<and> g < b + c then Inr (d, g - b) else location_loop n g ds (prefix_sums (b + c) cs))"
    using fin by (simp add: ids(1))
  show ?case
  proof (cases i)
    case 0
    then show ?thesis using Cons.prems ids unfolding step by simp
  next
    case (Suc j)
    have nn: "0 \<le> sum_list (take j cs)"
      using Cons.prems(2) by (intro sum_list_nonneg) (auto dest: in_set_takeD)
    have "location_loop n g ds (prefix_sums (b + c) cs) = Inr (ds ! j, l)"
      using Cons.prems ids Suc by (intro Cons.IH) (auto simp: add.assoc)
    then show ?thesis using Cons.prems ids Suc nn unfolding step by simp
  qed
qed simp

lemma prefix_cover:
  fixes b g :: int
  assumes "\<forall>c \<in> set cs. 0 \<le> c" "b \<le> g" "g < b + sum_list cs"
  shows "\<exists>i < length cs. \<exists>l. 0 \<le> l \<and> l < cs ! i \<and> g = b + sum_list (take i cs) + l"
  using assms
proof (induction cs arbitrary: b)
  case (Cons c cs)
  show ?case
  proof (cases "g < b + c")
    case True
    then show ?thesis using Cons.prems by (intro exI [of _ 0]) (simp add: exI [of _ "g - b"])
  next
    case False
    then obtain i l where "i < length cs" "0 \<le> l" "l < cs ! i" "g = b + c + sum_list (take i cs) + l"
      using Cons.IH [of "b + c"] Cons.prems by auto
    then show ?thesis by (intro exI [of _ "Suc i"]) (simp add: add.assoc exI [of _ l])
  qed
qed simp

lemma slice_base_loop_prefix:
  assumes "length ids = length cs" "distinct ids" "i < length ids"
  shows "slice_base_loop (ids ! i) ids (prefix_sums b cs) = Inr (b + sum_list (take i cs))"
  using assms
proof (induction ids cs arbitrary: b i rule: list_induct2)
  case (Cons d ids c cs)
  show ?case
  proof (cases i)
    case (Suc j)
    then have "d \<noteq> ids ! j" "j < length ids" using Cons.prems by auto
    then show ?thesis using Suc Cons by (simp add: add.assoc)
  qed simp
qed simp

lemma length_slice_counts [simp]: "length (slice_counts idx) = length (file_order idx)"
  by (simp add: slice_counts_def)

lemma slice_counts_nonneg: "wf_index idx \<Longrightarrow> c \<in> set (slice_counts idx) \<Longrightarrow> 0 \<le> c"
  using slice_count_bounds by (auto simp: wf_index_def slice_counts_def)

lemma slice_offset_bounds:
  assumes wf: "wf_index idx" and i: "i < length (file_order idx)"
  shows "0 \<le> slice_offset idx i" "slice_offset idx i + slice_counts idx ! i \<le> numSlices idx"
proof -
  note nn = slice_counts_nonneg [OF wf]
  show "0 \<le> slice_offset idx i"
    using nn unfolding slice_offset_def by (intro sum_list_nonneg) (auto dest: in_set_takeD)
  have "numSlices idx = sum_list (take i (slice_counts idx) @ slice_counts idx ! i # drop (Suc i) (slice_counts idx))"
    using wf i by (simp add: wf_index_def id_take_nth_drop [symmetric])
  moreover have "0 \<le> sum_list (drop (Suc i) (slice_counts idx))"
    using nn by (intro sum_list_nonneg) (auto dest: in_set_dropD)
  ultimately show "slice_offset idx i + slice_counts idx ! i \<le> numSlices idx" by (simp add: slice_offset_def)
qed

lemma sliceLocation_offset:
  assumes wf: "wf_index idx" and i: "i < length (file_order idx)" and l: "0 \<le> l" "l < slice_counts idx ! i"
  shows "sliceLocation idx (slice_offset idx i + l) = Inr (file_order idx ! i, l)"
proof -
  have "location_loop (numSlices idx) (slice_offset idx i + l) (file_order idx) (prefix_sums 0 (slice_counts idx)) =
      Inr (file_order idx ! i, l)"
    using i l wf slice_counts_nonneg [OF wf]
    by (intro location_loop_prefix) (auto simp: wf_index_def slice_offset_def)
  then show ?thesis using slice_offset_bounds [OF wf i] l wf by (simp add: sliceLocation_def wf_index_def)
qed

lemma sliceLocation_cases:
  assumes wf: "wf_index idx" and g: "0 \<le> g" "g < numSlices idx"
  obtains i l where "i < length (file_order idx)" "0 \<le> l" "l < slice_counts idx ! i"
    "g = slice_offset idx i + l" "sliceLocation idx g = Inr (file_order idx ! i, l)"
  using prefix_cover [of "slice_counts idx" 0 g] slice_counts_nonneg [OF wf] g wf
    sliceLocation_offset [OF wf] that
  by (auto simp: wf_index_def slice_offset_def)

lemma sliceLocation_range: "sliceLocation idx g = Inr r \<Longrightarrow> 0 \<le> g \<and> g < numSlices idx"
  by (auto simp: sliceLocation_def split: if_splits)

lemma SliceBase_offset:
  "wf_index idx \<Longrightarrow> distinct (file_order idx) \<Longrightarrow> i < length (file_order idx) \<Longrightarrow>
   SliceBase idx (file_order idx ! i) = Inr (slice_offset idx i)"
  by (simp add: SliceBase_def wf_index_def slice_base_loop_prefix slice_offset_def)

lemma slice_counts_nth:
  "i < length (file_order idx) \<Longrightarrow>
   slice_counts idx ! i = slice_count (file_length idx (file_order idx ! i)) (SliceSize idx)"
  by (simp add: slice_counts_def)

text \<open>A byte range touches slice \<open>l\<close> of size \<open>s\<close> when the slice number lies between those of its ends.\<close>

lemma range_touches_slice:
  fixes s :: int
  assumes "0 < s" "a < b"
  shows "(\<exists>x. a \<le> x \<and> x < b \<and> l * s \<le> x \<and> x < (l + 1) * s) \<longleftrightarrow> a div s \<le> l \<and> l \<le> (b - 1) div s"
proof
  assume "\<exists>x. a \<le> x \<and> x < b \<and> l * s \<le> x \<and> x < (l + 1) * s"
  then obtain x where x: "a \<le> x" "x \<le> b - 1" "l * s \<le> x" "x < (l + 1) * s" by auto
  then have "x div s = l"
    using assms(1) by (intro int_div_pos_eq [of _ _ _ "x - l * s"]) (auto simp: algebra_simps)
  then show "a div s \<le> l \<and> l \<le> (b - 1) div s" using x assms(1) zdiv_mono1 by blast
next
  assume r: "a div s \<le> l \<and> l \<le> (b - 1) div s"
  have "l * s \<le> (b - 1) div s * s" "a div s * s \<le> l * s" using r assms(1) by simp_all
  moreover have "(b - 1) div s * s \<le> b - 1" "a < a div s * s + s"
    by (rule div_mult_below [OF assms(1)])+
  ultimately have "l * s < b" "a < l * s + s" by linarith+
  then show "\<exists>x. a \<le> x \<and> x < b \<and> l * s \<le> x \<and> x < (l + 1) * s"
    using assms by (intro exI [of _ "max a (l * s)"]) (auto simp: distrib_right)
qed

lemma slice_count_div: "0 < s \<Longrightarrow> 0 < b \<Longrightarrow> b \<le> l \<Longrightarrow> (b - 1) div s < slice_count l s"
proof -
  assume s: "0 < s" and b: "0 < b" "b \<le> l"
  have "(b - 1) div s * s \<le> b - 1" using div_mult_below(1) [OF s] .
  then have "(b - 1) div s * s < slice_count l s * s" using slice_count_least [OF s, of l] b by linarith
  then show ?thesis using s by simp
qed

lemma DamagedSlices_spec:
  assumes wf: "wf_index idx" and d: "distinct (file_order idx)" and i: "i < length (file_order idx)"
    and b: "0 \<le> byteStart" "byteEnd \<le> max_i64"
  defines "fid \<equiv> file_order idx ! i"
  defines "fin \<equiv> min byteEnd (file_length idx fid)"
  shows "DamagedSlices idx fid byteStart byteEnd =
    Inr (if byteStart < fin
         then [slice_offset idx i + byteStart div SliceSize idx..slice_offset idx i + (fin - 1) div SliceSize idx]
         else [])"
proof -
  let ?s = "SliceSize idx" and ?o = "slice_offset idx i"
  have s: "0 < ?s" using wf by (simp add: wf_index_def)
  obtain fd where fd: "Files idx fid = Some fd" "file_length idx fid = fd_Length fd"
    using wf nth_mem [OF i] unfolding wf_index_def fid_def file_length_def by fastforce
  have e: "(case Files idx fid of Some fd \<Rightarrow> if byteEnd > fd_Length fd then fd_Length fd else byteEnd
      | None \<Rightarrow> byteEnd) = fin"
    using fd by (simp add: fin_def min_def)
  have n: "slice_counts idx ! i = slice_count (file_length idx fid) ?s"
    using slice_counts_nth [OF i] by (simp add: fid_def)
  show ?thesis
  proof (cases "byteStart < fin")
    case True
    have fin: "0 < fin" "fin \<le> file_length idx fid" "fin \<le> max_i64" using True b by (auto simp: fin_def)
    have "(fin - 1) div ?s < slice_counts idx ! i" using slice_count_div [OF s fin(1,2)] n by simp
    moreover have "byteStart div ?s \<le> (fin - 1) div ?s" using True s by (intro zdiv_mono1) auto
    moreover have "0 \<le> byteStart div ?s" using b s by (simp add: pos_imp_zdiv_nonneg_iff)
    moreover note slice_offset_bounds [OF wf i]
    moreover have "numSlices idx \<le> max_input_slices" using wf by (simp add: wf_index_def)
    ultimately have "i64 (?o + byteStart div ?s) = ?o + byteStart div ?s"
      "i64 (?o + (fin - 1) div ?s) = ?o + (fin - 1) div ?s" by (auto intro!: i64_id)
    moreover have "go_div (i64 (fin - 1)) ?s = (fin - 1) div ?s" "go_div byteStart ?s = byteStart div ?s"
      using fin s b by (simp_all add: i64_id)
    moreover have "SliceBase idx fid = Inr ?o" using SliceBase_offset [OF wf d i] by (simp add: fid_def)
    ultimately show ?thesis unfolding DamagedSlices_def e Let_def using True s by simp
  qed (simp add: DamagedSlices_def e Let_def)
qed

section \<open>Invariants of the parse\<close>

lemma run_events_inv:
  assumes "P s" "\<And>h q s. Bad h q \<in> set es \<Longrightarrow> P s \<Longrightarrow> P (bad h q s)"
    "\<And>h pk q s. Good h pk q \<in> set es \<Longrightarrow> P s \<Longrightarrow> P (snd (fn h pk q s))"
  shows "P (snd (run_events bad fn es s))"
  using assms
proof (induction bad fn es s rule: run_events.induct)
  case (3 bad fn h packet pos es s)
  obtain e s' where f: "fn h packet pos s = (e, s')" by fastforce
  then have "P s'" using "3.prems"(1) "3.prems"(3) [of h packet pos s] by simp
  then show ?case using "3.IH" [OF f [symmetric]] "3.prems" f by (cases e) auto
qed simp_all

definition ref_ok :: "(bytes \<Rightarrow> bytes) \<Rightarrow> source list \<Rightarrow> bytes \<Rightarrow> RecoverySliceRef \<Rightarrow> bool" where
  "ref_ok md5 sources setID r \<longleftrightarrow> Source r < length sources \<and>
     (\<exists>pos h. packet_at md5 (src_Data (sources ! Source r)) pos h \<and> RecoverySetID h = setID \<and>
        Type h = typeRecvSlic \<and> Offset r = int pos + 68 \<and> 0 \<le> ref_Length r \<and> ref_Length r = Length h - 68 \<and>
        Exponent r = uint32_of_bytes (sub_bytes (src_Data (sources ! Source r)) (pos + 64) (pos + 68)))"

definition main_ok :: "Index \<Rightarrow> bool" where
  "main_ok idx \<longleftrightarrow> (case FileOrder idx of
     None \<Rightarrow> SliceSize idx = 0
   | Some ids \<Rightarrow> 0 < SliceSize idx \<and> SliceSize idx \<le> maxSliceSize \<and> SliceSize idx mod 4 = 0 \<and>
       sorted (map le_nat ids) \<and> (\<forall>fid \<in> set ids. length fid = 16))"

definition files_ok :: "Index \<Rightarrow> bool" where
  "files_ok idx \<longleftrightarrow> (\<forall>fid fd. Files idx fid = Some fd \<longrightarrow> FileID fd = fid \<and> length fid = 16 \<and> is_i64 (fd_Length fd))"

definition parse_inv :: "(bytes \<Rightarrow> bytes) \<Rightarrow> source list \<Rightarrow> bytes option \<Rightarrow> parse_state \<Rightarrow> bool" where
  "parse_inv md5 sources want st \<longleftrightarrow> main_ok (st_idx st) \<and> files_ok (st_idx st) \<and>
     (\<forall>r \<in> set (Recovery (st_idx st)). ref_ok md5 sources (SetID (st_idx st)) r) \<and>
     (\<not> st_haveSetID st \<longrightarrow> Recovery (st_idx st) = []) \<and>
     (st_haveSetID st \<longrightarrow> want = None \<or> want = Some (SetID (st_idx st)))"

lemma length_sub_bytes [simp]: "hi \<le> length b \<Longrightarrow> length (sub_bytes b lo hi) = hi - lo"
  by (simp add: sub_bytes_def)

lemma parseMain_inv: "parseMain idx body = Inr idx' \<Longrightarrow>
    main_ok idx' \<and> Files idx' = Files idx \<and> Recovery idx' = Recovery idx \<and> SetID idx' = SetID idx"
proof -
  assume p: "parseMain idx body = Inr idx'"
  define n where "n = unat (uint32_of_bytes (sub_bytes body 8 12))"
  define ids where "ids = map (\<lambda>i. sub_bytes body (12 + i * 16) (12 + (i + 1) * 16)) [0..<n]"
  have l: "12 + n * 16 \<le> length body" and idx': "idx' = idx\<lparr>SliceSize := int64_of_bytes (sub_bytes body 0 8), FileOrder := Some (sort_ids ids)\<rparr>"
    and s: "0 < int64_of_bytes (sub_bytes body 0 8)" "go_mod (int64_of_bytes (sub_bytes body 0 8)) 4 = 0"
      "int64_of_bytes (sub_bytes body 0 8) \<le> maxSliceSize"
    using p by (auto simp: parseMain_def Let_def n_def ids_def split: if_splits)
  have i: "\<forall>fid \<in> set ids. length fid = 16" using l by (auto simp: ids_def)
  have "sorted (map le_nat (sort_ids ids))" "set (sort_ids ids) = set ids"
    by (simp_all add: sort_ids_sort_key [OF i])
  then show ?thesis using s i by (simp add: idx' main_ok_def)
qed

lemma parseFileDesc_inv: "parseFileDesc idx body = Inr idx' \<Longrightarrow> files_ok idx \<Longrightarrow>
    files_ok idx' \<and> FileOrder idx' = FileOrder idx \<and> SliceSize idx' = SliceSize idx \<and>
    Recovery idx' = Recovery idx \<and> SetID idx' = SetID idx"
  using i64_range
  by (auto simp: parseFileDesc_def Let_def files_ok_def int64_of_bytes_def split: if_splits)

lemma parseIFSC_inv: "parseIFSC idx body = Inr idx' \<Longrightarrow>
    Files idx' = Files idx \<and> FileOrder idx' = FileOrder idx \<and> SliceSize idx' = SliceSize idx \<and>
    Recovery idx' = Recovery idx \<and> SetID idx' = SetID idx"
  by (auto simp: parseIFSC_def Let_def split: if_splits)

lemma parseRecvSlic_inv:
  assumes "parseRecvSlic idx srcIdx pos (drop 64 packet) = Inr idx'" "packet = packet_bytes data pos h"
    "packet_at md5 data pos h" "data = src_Data (sources ! srcIdx)" "srcIdx < length sources"
    "RecoverySetID h = setID" "Type h = typeRecvSlic"
  shows "\<exists>r. idx' = idx\<lparr>Recovery := Recovery idx @ [r]\<rparr> \<and> ref_ok md5 sources setID r"
proof -
  let ?n = "nat (Length h)"
  have b: "64 \<le> Length h" "pos + ?n \<le> length data" using header_at_Length [of data pos h] assms(3) by (auto simp: packet_at_def)
  then have l: "length (drop 64 packet) = ?n - 64" by (simp add: assms(2) packet_bytes_def)
  then have n: "68 \<le> ?n" using assms(1) b by (auto simp: parseRecvSlic_def split: if_splits)
  have "sub_bytes (drop 64 packet) 0 4 = sub_bytes data (pos + 64) (pos + 68)"
    using n by (simp add: assms(2) packet_bytes_def sub_bytes_def drop_take add.commute)
  moreover have "int (?n - 64 - 4) = Length h - 68" using n by simp
  ultimately show ?thesis
    using assms n l by (auto simp: parseRecvSlic_def ref_ok_def intro!: exI [of _ pos] exI [of _ h] split: if_splits)
qed

lemma main_ok_cong:
  "FileOrder idx' = FileOrder idx \<Longrightarrow> SliceSize idx' = SliceSize idx \<Longrightarrow> main_ok idx' = main_ok idx"
  by (simp add: main_ok_def split: option.split)

lemma files_ok_cong: "Files idx' = Files idx \<Longrightarrow> files_ok idx' = files_ok idx"
  by (simp add: files_ok_def)

lemma ok_update [simp]:
  "main_ok (idx\<lparr>Recovery := r\<rparr>) = main_ok idx" "files_ok (idx\<lparr>Recovery := r\<rparr>) = files_ok idx"
  "main_ok (idx\<lparr>SetID := i\<rparr>) = main_ok idx" "files_ok (idx\<lparr>SetID := i\<rparr>) = files_ok idx"
  "main_ok (idx\<lparr>SkippedPackets := k\<rparr>) = main_ok idx" "files_ok (idx\<lparr>SkippedPackets := k\<rparr>) = files_ok idx"
  by (rule main_ok_cong files_ok_cong; simp)+

lemma index_body_inv:
  assumes inv: "parse_inv md5 sources want st" "st_haveSetID st"
    and pk: "packet = packet_bytes (src_Data (sources ! srcIdx)) pos h"
      "packet_at md5 (src_Data (sources ! srcIdx)) pos h" "srcIdx < length sources"
      "RecoverySetID h = SetID (st_idx st)"
  shows "parse_inv md5 sources want (snd (index_body srcIdx h packet pos st))"
proof -
  let ?body = "drop packetHeaderSize packet"
  have lift: "parse_inv md5 sources want (snd (lift_parse st r))"
    if "\<And>idx'. r = Inr idx' \<Longrightarrow> main_ok idx' \<and> files_ok idx' \<and> SetID idx' = SetID (st_idx st) \<and>
      (\<forall>x \<in> set (Recovery idx'). ref_ok md5 sources (SetID idx') x)" for r
    using that inv by (cases r) (auto simp: lift_parse_def parse_inv_def)
  note ok = inv(1) [unfolded parse_inv_def]
  consider (main) "Type h = typeMain" | (desc) "Type h \<noteq> typeMain" "Type h = typeFileDesc"
    | (ifsc) "Type h \<notin> {typeMain, typeFileDesc}" "Type h = typeIFSC"
    | (recv) "Type h \<notin> {typeMain, typeFileDesc, typeIFSC}" "Type h = typeRecvSlic"
    | (other) "Type h \<notin> {typeMain, typeFileDesc, typeIFSC, typeRecvSlic}" by blast
  then show ?thesis
  proof cases
    case main
    have "parse_inv md5 sources want (snd (lift_parse st (parseMain (st_idx st) ?body)))"
      using ok parseMain_inv files_ok_cong by (intro lift) metis
    then show ?thesis using main by (simp add: index_body_def)
  next
    case desc
    have "parse_inv md5 sources want (snd (lift_parse st (parseFileDesc (st_idx st) ?body)))"
      using ok parseFileDesc_inv main_ok_cong by (intro lift) metis
    then show ?thesis using desc by (simp add: index_body_def)
  next
    case ifsc
    have "parse_inv md5 sources want (snd (lift_parse st (parseIFSC (st_idx st) ?body)))"
      using ok parseIFSC_inv main_ok_cong files_ok_cong by (intro lift) metis
    then show ?thesis using ifsc by (simp add: index_body_def)
  next
    case recv
    have "parse_inv md5 sources want (snd (lift_parse st (parseRecvSlic (st_idx st) srcIdx pos ?body)))"
    proof (rule lift)
      fix idx' assume "parseRecvSlic (st_idx st) srcIdx pos ?body = Inr idx'"
      from parseRecvSlic_inv [OF this pk(1,2) refl pk(3,4) recv(2)] obtain r where
        "idx' = (st_idx st)\<lparr>Recovery := Recovery (st_idx st) @ [r]\<rparr>" "ref_ok md5 sources (SetID (st_idx st)) r"
        by blast
      then show "main_ok idx' \<and> files_ok idx' \<and> SetID idx' = SetID (st_idx st) \<and>
          (\<forall>x \<in> set (Recovery idx'). ref_ok md5 sources (SetID idx') x)"
        using ok by auto
    qed
    then show ?thesis using recv by (simp add: index_body_def)
  next
    case other
    then show ?thesis using inv by (simp add: index_body_def Let_def)
  qed
qed

lemma index_packet_inv:
  assumes inv: "parse_inv md5 sources want st"
    and pk: "packet = packet_bytes (src_Data (sources ! srcIdx)) pos h"
      "packet_at md5 (src_Data (sources ! srcIdx)) pos h" "srcIdx < length sources"
  shows "parse_inv md5 sources want (snd (index_packet want name srcIdx h packet pos st))"
proof (cases "want \<noteq> None \<and> want \<noteq> Some (RecoverySetID h) \<or>
    st_haveSetID st \<and> RecoverySetID h \<noteq> SetID (st_idx st)")
  case True
  then show ?thesis using inv by (auto simp: index_packet_def)
next
  case False
  define st1 where "st1 = (if st_haveSetID st then st
    else st\<lparr>st_idx := (st_idx st)\<lparr>SetID := RecoverySetID h\<rparr>, st_haveSetID := True\<rparr>)"
  have st1: "parse_inv md5 sources want st1" "st_haveSetID st1" "RecoverySetID h = SetID (st_idx st1)"
    using inv False by (auto simp: parse_inv_def st1_def)
  let ?st2 = "st1\<lparr>st_seen := insert (MD5 h) (st_seen st1)\<rparr>"
  have "parse_inv md5 sources want ?st2" using st1(1) by (simp add: parse_inv_def)
  from index_body_inv [OF this _ pk] have "parse_inv md5 sources want (snd (index_body srcIdx h packet pos ?st2))"
    using st1 by simp
  moreover have "index_packet want name srcIdx h packet pos st =
      (if MD5 h \<in> st_seen st1 then (None, st1) else index_body srcIdx h packet pos ?st2)"
    using False unfolding index_packet_def st1_def [symmetric] Let_def by auto
  ultimately show ?thesis using st1(1) by simp
qed

lemma parse_sources_inv:
  assumes "parse_sources md5 want n srcs st = Inr st'" "parse_inv md5 sources want st" "srcs = drop n sources"
  shows "parse_inv md5 sources want st'"
  using assms
proof (induction srcs arbitrary: n st)
  case (Cons src srcs)
  have n: "n < length sources" "src = sources ! n" "srcs = drop (Suc n) sources"
    using Cons.prems(3) by (metis drop_all list.distinct(1) not_le, metis nth_via_drop, metis drop_Suc list.sel(3) tl_drop)
  define w where "w = walkPackets md5 (src_Data src) (Some (index_bad n)) (index_packet want (src_Name src) n) st"
  have "parse_inv md5 sources want (snd w)"
    unfolding w_def walkPackets_def walk_loop_events
  proof (rule run_events_inv [of "parse_inv md5 sources want", OF Cons.prems(2)])
    show "parse_inv md5 sources want (index_bad n h q s)" if "parse_inv md5 sources want s" for h q s
      using that by (simp add: index_bad_def parse_inv_def)
    show "parse_inv md5 sources want (snd (index_packet want (src_Name src) n h pk q s))"
      if "Good h pk q \<in> set (lenient_events md5 (src_Data src) 0)" "parse_inv md5 sources want s" for h pk q s
      using lenient_events_sound [OF that(1)] that(2) n by (intro index_packet_inv) auto
  qed
  moreover have "parse_sources md5 want (Suc n) srcs (snd w) = Inr st'"
    using Cons.prems(1) by (auto simp: w_def split: prod.splits option.splits)
  ultimately show ?case using Cons.IH n(3) by blast
qed simp

lemma parseIndex_cases:
  assumes "parseIndex md5 sources want = Inr idx"
  obtains st where "parse_inv md5 sources want st" "st_haveSetID st" "FileOrder (st_idx st) \<noteq> None"
    "finalize (st_idx st) = Inr idx"
proof -
  obtain st where st: "parse_sources md5 want 0 sources \<lparr>st_idx = empty_index, st_seen = {}, st_haveSetID = False\<rparr> = Inr st"
    "st_haveSetID st" "FileOrder (st_idx st) \<noteq> None" "finalize (st_idx st) = Inr idx"
    using assms by (auto simp: parseIndex_def split: sum.splits if_splits)
  have "parse_inv md5 sources want st"
    by (rule parse_sources_inv [OF st(1)])
      (simp_all add: parse_inv_def empty_index_def main_ok_def files_ok_def)
  with st that show thesis by blast
qed

lemma ref_ok_bounds:
  assumes "ref_ok md5 sources setID r"
  shows "0 \<le> Offset r \<and> 0 \<le> ref_Length r \<and> Offset r + ref_Length r \<le> int (length (src_Data (sources ! Source r)))"
  using assms header_at_Length by (fastforce simp: ref_ok_def packet_at_def)

section \<open>Properties\<close>

text \<open>C31. A successful parse returns an index of one recovery set: the slice size of its Main packet is a
  positive multiple of 4 up to 2^30, its file identifiers are sorted as numbers and all have a
  description filed under their own identifier, it has at most 32768 slices, and every recovery slice
  it lists lies inside its source, in a packet of that set and type whose MD5 verified, with that
  packet's exponent.\<close>

theorem parseIndex_sound:
  assumes "parseIndex md5 sources want = Inr idx"
  shows "0 < SliceSize idx \<and> SliceSize idx \<le> maxSliceSize \<and> SliceSize idx mod 4 = 0 \<and>
    sorted (map le_nat (file_order idx)) \<and>
    (\<forall>fid \<in> set (file_order idx). \<exists>fd. Files idx fid = Some fd \<and> FileID fd = fid) \<and>
    numSlices idx \<le> max_input_slices \<and> (want = None \<or> want = Some (SetID idx)) \<and>
    (\<forall>r \<in> set (Recovery idx). ref_ok md5 sources (SetID idx) r \<and>
       Offset r + ref_Length r \<le> int (length (src_Data (sources ! Source r))))"
proof -
  obtain st where st: "parse_inv md5 sources want st" "st_haveSetID st" "FileOrder (st_idx st) \<noteq> None"
    "finalize (st_idx st) = Inr idx" using parseIndex_cases [OF assms] .
  obtain b n where idx: "idx = (st_idx st)\<lparr>fileBase := b, numSlices := n\<rparr>" "n \<le> max_input_slices"
    and loop: "finalize_loop (st_idx st) (file_order (st_idx st)) 0 [] = Inr (b, n)"
    using finalize_Inr [OF st(4)] by blast
  note inv = st(1) [unfolded parse_inv_def]
  have m: "0 < SliceSize idx" "SliceSize idx \<le> maxSliceSize" "SliceSize idx mod 4 = 0" "sorted (map le_nat (file_order idx))"
    using inv st(3) by (auto simp: idx main_ok_def)
  have "\<exists>fd. Files idx fid = Some fd \<and> FileID fd = fid" if "fid \<in> set (file_order idx)" for fid
    using finalize_loop_files [OF loop, of fid] that inv by (auto simp: idx files_ok_def)
  moreover have "ref_ok md5 sources (SetID idx) r" if "r \<in> set (Recovery idx)" for r
    using that inv by (simp add: idx)
  ultimately show ?thesis using m idx inv st(2) ref_ok_bounds by auto
qed

text \<open>A Main packet without files followed by one recovery slice of four bytes with exponent 9; the checksum
  is a parameter, here the packet type.\<close>

definition example_md5 :: "bytes \<Rightarrow> bytes" where
  "example_md5 x = take 16 (drop 16 x @ replicate 16 0)"

lemma length_example_md5 [simp]: "length (example_md5 x) = 16"
  by (simp add: example_md5_def)

abbreviation example_packets :: "par2_packet list" where
  "example_packets \<equiv>
     [\<lparr>p_set = replicate 16 5, p_type = typeMain, p_body = le_enc 8 4 @ le_enc 4 0\<rparr>,
      \<lparr>p_set = replicate 16 5, p_type = typeRecvSlic, p_body = le_enc 4 9 @ [1, 2, 3, 4]\<rparr>]"

abbreviation example_source :: source where
  "example_source \<equiv> \<lparr>src_Name = [], src_Data = concat (map (encode_packet example_md5) example_packets)\<rparr>"

lemma length_types [simp]:
  "length typeMain = 16" "length typeFileDesc = 16" "length typeIFSC = 16" "length typeRecvSlic = 16"
  by (simp_all add: typeMain_def typeFileDesc_def typeIFSC_def typeRecvSlic_def ascii_def)

lemma types_differ [simp]:
  "typeMain \<noteq> typeRecvSlic" "typeRecvSlic \<noteq> typeMain" "typeRecvSlic \<noteq> typeFileDesc" "typeRecvSlic \<noteq> typeIFSC"
  by (simp_all add: typeMain_def typeFileDesc_def typeIFSC_def typeRecvSlic_def ascii_def)

lemma example_walk:
  "walkPackets example_md5 (src_Data example_source) onBad fn s = feed_packets example_md5 fn 0 example_packets s"
  using walk_loop_feed [of example_md5 example_packets "[]" onBad fn s]
  by (simp add: walkPackets_def wf_packet_def)

lemma example_parse_Main:
  "parseMain idx (le_enc 8 4 @ le_enc 4 0) = Inr (idx\<lparr>SliceSize := 4, FileOrder := Some []\<rparr>)"
proof -
  have le: "le_nat (le_enc 8 4) = 4" "le_nat (le_enc 4 0) = 0" by (subst le_nat_le_enc; simp)+
  show ?thesis
    unfolding parseMain_def sub_bytes_def int64_of_bytes_def uint32_of_bytes_def
    by (simp add: le i64_id sort_ids_def go_mod_def go_div_def)
qed

lemma example_header:
  assumes "wf_packet p"
  shows "MD5 (packet_header example_md5 p) = p_type p" "Type (packet_header example_md5 p) = p_type p"
    "RecoverySetID (packet_header example_md5 p) = p_set p" "drop 64 (encode_packet example_md5 p) = p_body p"
  using assms by (simp_all add: packet_header_def wf_packet_def encode_packet_def example_md5_def)

lemma example_index:
  "\<exists>idx. parseIndex example_md5 [example_source] None = Inr idx \<and> length (Recovery idx) = 1 \<and> SliceSize idx = 4"
proof -
  define p1 p2 where "p1 = example_packets ! 0" and "p2 = example_packets ! 1"
  have p: "example_packets = [p1, p2]" by (simp add: p1_def p2_def)
  have wf: "wf_packet p1" "wf_packet p2" by (simp_all add: p1_def p2_def wf_packet_def)
  have t: "p_type p1 = typeMain" "p_type p2 = typeRecvSlic" "p_set p2 = p_set p1"
    "p_body p1 = le_enc 8 4 @ le_enc 4 0" "length (p_body p2) = 8"
    by (simp_all add: p1_def p2_def)
  let ?st = "\<lparr>st_idx = empty_index, st_seen = {}, st_haveSetID = False\<rparr>"
  let ?i1 = "empty_index\<lparr>SetID := p_set p1, SliceSize := 4, FileOrder := Some []\<rparr>"
  have s1: "index_packet None name 0 (packet_header example_md5 p1) (encode_packet example_md5 p1) pos ?st =
      (None, \<lparr>st_idx = ?i1, st_seen = {typeMain}, st_haveSetID = True\<rparr>)" for name pos
    by (simp add: index_packet_def index_body_def lift_parse_def example_header [OF wf(1)] t example_parse_Main Let_def)
  have s2: "\<exists>r seen. index_packet None name 0 (packet_header example_md5 p2) (encode_packet example_md5 p2) pos
      \<lparr>st_idx = ?i1, st_seen = {typeMain}, st_haveSetID = True\<rparr> =
      (None, \<lparr>st_idx = ?i1\<lparr>Recovery := [r]\<rparr>, st_seen = seen, st_haveSetID = True\<rparr>)" for name pos
    by (simp add: index_packet_def index_body_def lift_parse_def example_header [OF wf(2)] t parseRecvSlic_def
        Let_def empty_index_def)
  obtain r seen where r: "index_packet None [] 0 (packet_header example_md5 p2) (encode_packet example_md5 p2)
      (length (encode_packet example_md5 p1)) \<lparr>st_idx = ?i1, st_seen = {typeMain}, st_haveSetID = True\<rparr> =
      (None, \<lparr>st_idx = ?i1\<lparr>Recovery := [r]\<rparr>, st_seen = seen, st_haveSetID = True\<rparr>)"
    using s2 by blast
  have "parse_sources example_md5 None 0 [example_source] ?st =
      Inr \<lparr>st_idx = ?i1\<lparr>Recovery := [r]\<rparr>, st_seen = seen, st_haveSetID = True\<rparr>"
    unfolding parse_sources.simps example_walk unfolding p feed_packets.simps by (simp add: s1 r)
  then show ?thesis by (simp add: parseIndex_def finalize_def)
qed

theorem parseIndex_sound_witness:
  "\<exists>idx. parseIndex example_md5 [example_source] None = Inr idx \<and>
     (\<exists>r \<in> set (Recovery idx). ref_ok example_md5 [example_source] (SetID idx) r)"
proof -
  obtain idx where idx: "parseIndex example_md5 [example_source] None = Inr idx" "length (Recovery idx) = 1"
    using example_index by blast
  then obtain r where "r \<in> set (Recovery idx)" by (cases "Recovery idx") auto
  then show ?thesis using parseIndex_sound [OF idx(1)] idx(1) by blast
qed

text \<open>Finalising an index whose file lengths add up in 64 bits gives a bijective slice numbering:
  \<^verbatim>\<open>sliceLocation\<close> succeeds exactly on the numbers below \<^verbatim>\<open>numSlices\<close> (at most 32768), slice \<open>l\<close> of file \<open>i\<close> is
  found at the sum of the counts before it plus \<open>l\<close>, and no other number is located there.\<close>

lemma slice_numbering:
  assumes "finalize idx0 = Inr idx" "0 < SliceSize idx0" "SliceSize idx0 \<le> maxSliceSize" "lengths_fit idx0"
  shows "numSlices idx \<le> max_input_slices \<and>
    (\<forall>g. (\<exists>r. sliceLocation idx g = Inr r) \<longleftrightarrow> 0 \<le> g \<and> g < numSlices idx) \<and>
    (\<forall>i l. i < length (file_order idx) \<and> 0 \<le> l \<and> l < slice_counts idx ! i \<longrightarrow>
       sliceLocation idx (slice_offset idx i + l) = Inr (file_order idx ! i, l)) \<and>
    (distinct (file_order idx) \<longrightarrow>
       (\<forall>g fid l. sliceLocation idx g = Inr (fid, l) \<longrightarrow> SliceBase idx fid = Inr (g - l)))"
proof -
  have wf: "wf_index idx" using finalize_wf [OF assms] .
  have "\<exists>r. sliceLocation idx g = Inr r" if "0 \<le> g" "g < numSlices idx" for g
    using sliceLocation_cases [OF wf that] by metis
  moreover have "SliceBase idx fid = Inr (g - l)" if d: "distinct (file_order idx)" and s: "sliceLocation idx g = Inr (fid, l)" for g fid l
  proof -
    obtain i k where i: "i < length (file_order idx)" "g = slice_offset idx i + k"
      "sliceLocation idx g = Inr (file_order idx ! i, k)"
      using sliceLocation_cases [OF wf] sliceLocation_range [OF s] by metis
    have "fid = file_order idx ! i" "k = l" using i(3) s by simp_all
    then show ?thesis using SliceBase_offset [OF wf d i(1)] i(2) by simp
  qed
  moreover have "numSlices idx \<le> max_input_slices" using wf by (simp add: wf_index_def)
  ultimately show ?thesis using sliceLocation_range sliceLocation_offset [OF wf] by blast
qed

text \<open>Two files of 10 and 3 bytes in slices of 4.\<close>

definition example_files :: Index where
  "example_files = empty_index\<lparr>SliceSize := 4, FileOrder := Some [[1], [2]],
     Files := [[1] \<mapsto> \<lparr>FileID = [1], FileMD5 = [], MD5_16k = [], fd_Length = 10, fd_Name = []\<rparr>,
               [2] \<mapsto> \<lparr>FileID = [2], FileMD5 = [], MD5_16k = [], fd_Length = 3, fd_Name = []\<rparr>]\<rparr>"

lemma example_files_finalize:
  "finalize example_files = Inr (example_files\<lparr>fileBase := [0, 3], numSlices := 4\<rparr>)"
  "0 < SliceSize example_files" "SliceSize example_files \<le> maxSliceSize" "lengths_fit example_files"
  by (simp_all add: finalize_def example_files_def ceilDiv_def i64_id lengths_fit_def file_length_def)

text \<open>C32. \<^verbatim>\<open>DamagedSlices\<close> returns, in ascending order and without repetition, exactly the global numbers of
  the slices of that file that contain a damaged byte before the file's end; a range past the end
  never names a slice of the next file.\<close>

theorem DamagedSlices_exact:
  assumes wf: "wf_index idx" and d: "distinct (file_order idx)" and fid: "fid \<in> set (file_order idx)"
    and b: "0 \<le> byteStart" "byteEnd \<le> max_i64"
  shows "\<exists>out. DamagedSlices idx fid byteStart byteEnd = Inr out \<and> sorted out \<and> distinct out \<and>
    set out = {g. \<exists>l. sliceLocation idx g = Inr (fid, l) \<and>
      (\<exists>x. byteStart \<le> x \<and> x < byteEnd \<and> x < file_length idx fid \<and>
           l * SliceSize idx \<le> x \<and> x < (l + 1) * SliceSize idx)}"
proof -
  obtain i where i: "i < length (file_order idx)" "fid = file_order idx ! i"
    using fid unfolding in_set_conv_nth by blast
  let ?s = "SliceSize idx" and ?fin = "min byteEnd (file_length idx fid)" and ?o = "slice_offset idx i"
  have s: "0 < ?s" using wf by (simp add: wf_index_def)
  have n: "slice_counts idx ! i = slice_count (file_length idx fid) ?s"
    using slice_counts_nth [OF i(1)] i(2) by simp
  have loc: "sliceLocation idx g = Inr (fid, l) \<longleftrightarrow> g = ?o + l \<and> 0 \<le> l \<and> l < slice_counts idx ! i" for g l
  proof
    assume sl: "sliceLocation idx g = Inr (fid, l)"
    obtain j k where j: "j < length (file_order idx)" "0 \<le> k" "k < slice_counts idx ! j"
      "g = slice_offset idx j + k" "sliceLocation idx g = Inr (file_order idx ! j, k)"
      using sliceLocation_cases [OF wf] sliceLocation_range [OF sl] by metis
    then have "j = i" using sl i d by (simp add: nth_eq_iff_index_eq)
    then show "g = ?o + l \<and> 0 \<le> l \<and> l < slice_counts idx ! i" using j sl by simp
  qed (use sliceLocation_offset [OF wf i(1)] i(2) in auto)
  have touch: "(\<exists>x. byteStart \<le> x \<and> x < byteEnd \<and> x < file_length idx fid \<and> l * ?s \<le> x \<and> x < (l + 1) * ?s) \<longleftrightarrow>
      byteStart < ?fin \<and> byteStart div ?s \<le> l \<and> l \<le> (?fin - 1) div ?s" for l
  proof (cases "byteStart < ?fin")
    case True
    from range_touches_slice [OF s this, of l] show ?thesis using True by (simp add: conj_ac)
  qed auto
  have cnt: "(?fin - 1) div ?s < slice_counts idx ! i" "0 \<le> byteStart div ?s" if "byteStart < ?fin"
    using slice_count_div [OF s, of ?fin "file_length idx fid"] that b n s
    by (auto simp: pos_imp_zdiv_nonneg_iff)
  let ?out = "if byteStart < ?fin then [?o + byteStart div ?s..?o + (?fin - 1) div ?s] else []"
  have "g \<in> set ?out \<longleftrightarrow> (\<exists>l. sliceLocation idx g = Inr (fid, l) \<and>
      byteStart < ?fin \<and> byteStart div ?s \<le> l \<and> l \<le> (?fin - 1) div ?s)" for g
    unfolding loc using cnt by (auto intro: exI [of _ "g - ?o"])
  then have "set ?out = {g. \<exists>l. sliceLocation idx g = Inr (fid, l) \<and>
      (\<exists>x. byteStart \<le> x \<and> x < byteEnd \<and> x < file_length idx fid \<and> l * ?s \<le> x \<and> x < (l + 1) * ?s)}"
    unfolding touch by blast
  moreover have "DamagedSlices idx fid byteStart byteEnd = Inr ?out"
    using DamagedSlices_spec [OF wf d i(1) b] i(2) by simp
  moreover have "sorted ?out" "distinct ?out" by auto
  ultimately show ?thesis by blast
qed

theorem DamagedSlices_exact_witness:
  "\<exists>out. DamagedSlices (example_files\<lparr>fileBase := [0, 3], numSlices := 4\<rparr>) [1] 5 100 = Inr out \<and> sorted out"
proof -
  have "wf_index (example_files\<lparr>fileBase := [0, 3], numSlices := 4\<rparr>)"
    using finalize_wf [OF example_files_finalize] .
  from DamagedSlices_exact [OF this, of "[1]" 5 100] show ?thesis by (auto simp: example_files_def)
qed

text \<open>Cutting a file into slices, the last one padded with zeros.\<close>

definition padded_slice :: "nat \<Rightarrow> bytes \<Rightarrow> nat \<Rightarrow> bytes" where
  "padded_slice s content l =
     (let d = take s (drop (l * s) content) in d @ replicate (s - length d) 0)"

text \<open>Trimming undoes PAR2's zero padding: cutting a file's content into slices, padding the last one
  with zeros and passing slice \<open>l\<close> to \<^verbatim>\<open>TrimSlice\<close> gives back the content's own bytes of that slice.\<close>

lemma TrimSlice_unpads:
  assumes wf: "wf_index idx" and i: "i < length (file_order idx)"
    and c: "int (length content) = file_length idx (file_order idx ! i)" "length content \<le> 9223372036854775807"
    and l: "int l < slice_counts idx ! i"
  shows "TrimSlice idx (slice_offset idx i + int l) (padded_slice (nat (SliceSize idx)) content l) =
    Inr (take (nat (SliceSize idx)) (drop (l * nat (SliceSize idx)) content))"
proof -
  define s where "s = nat (SliceSize idx)"
  have s: "0 < s" "SliceSize idx = int s" using wf by (simp_all add: wf_index_def s_def)
  obtain fd where fd: "Files idx (file_order idx ! i) = Some fd" "fd_Length fd = int (length content)"
    using wf nth_mem [OF i] c unfolding wf_index_def file_length_def by fastforce
  have "(slice_counts idx ! i - 1) * int s < int (length content)" "0 < length content"
    using slice_count_least [of "int s" "int (length content)"] s l slice_counts_nth [OF i] c
    by (auto simp: slice_count_def split: if_splits)
  moreover have "int l * int s \<le> (slice_counts idx ! i - 1) * int s" using l s by (intro mult_right_mono) auto
  ultimately have r: "l * s < length content" by (metis le_less_trans of_nat_less_iff of_nat_mult)
  define p where "p = l * s"
  have p: "p < length content" "int l * int s = int p" using r by (simp_all add: p_def)
  have b: "i64 (int p) = int p" "i64 (int (length content) - int p) = int (length content - p)"
    using p(1) c(2) by (auto simp: of_nat_diff intro!: i64_id)
  have "sliceLocation idx (slice_offset idx i + int l) = Inr (file_order idx ! i, int l)"
    using sliceLocation_offset [OF wf i, of "int l"] l by simp
  then show ?thesis
    unfolding TrimSlice_def s_def [symmetric] s(2) padded_slice_def Let_def
    using fd p(1) by (auto simp: b p(2) p_def [symmetric])
qed

text \<open>The order of the recovery set is the numeric order of the little-endian identifiers, and it is
  the only sorted arrangement of the listed identifiers: whatever the sorting algorithm, the result
  is \<open>sort_ids\<close>.\<close>

lemma file_order_unique:
  assumes "\<forall>x \<in> set ids. length x = 16"
  shows "(\<forall>a \<in> set ids. \<forall>b \<in> set ids. fileIDLess a b \<longleftrightarrow> le_nat a < le_nat b) \<and>
    mset (sort_ids ids) = mset ids \<and> sorted (map le_nat (sort_ids ids)) \<and>
    (\<forall>ys. mset ys = mset ids \<and> sorted_wrt (\<lambda>a b. \<not> fileIDLess b a) ys \<longrightarrow> sort_ids ids = ys)"
proof (intro conjI)
  show "\<forall>a \<in> set ids. \<forall>b \<in> set ids. fileIDLess a b \<longleftrightarrow> le_nat a < le_nat b"
    using assms fileIDLess_iff by metis
  show "mset (sort_ids ids) = mset ids" "sorted (map le_nat (sort_ids ids))"
    by (simp_all add: sort_ids_sort_key [OF assms])
  show "\<forall>ys. mset ys = mset ids \<and> sorted_wrt (\<lambda>a b. \<not> fileIDLess b a) ys \<longrightarrow> sort_ids ids = ys"
    using sort_ids_unique [OF assms] by blast
qed

text \<open>Without the bound on the lengths the numbering breaks: one file description of 2^63 - 1 bytes makes
  the rounding sum of \<^verbatim>\<open>ceilDiv\<close> wrap, and the index is accepted with a negative slice count.\<close>

lemma finalize_wraps:
  "\<exists>idx. finalize (example_files\<lparr>FileOrder := Some [[1]],
      Files := [[1] \<mapsto> \<lparr>FileID = [1], FileMD5 = [], MD5_16k = [], fd_Length = max_i64, fd_Name = []\<rparr>]\<rparr>) = Inr idx \<and>
    numSlices idx < 0"
  by (simp add: finalize_def example_files_def ceilDiv_def i64_def go_div_def)

end
