(* ===== verification/Par2_Repair.thy ===== *)
theory Par2_Repair
  imports Par2_Matrix Par2_Index
begin

unbundle bit_operations_syntax

text \<open>
  The repair pass: \<^verbatim>\<open>src/pkg/usenet/par2/repair.go\<close>. Recovery slices seed the accumulators, every intact slice
  is read once and its contribution cancelled, the remaining linear system is solved word by word, and
  every reconstructed slice is verified. The slice source is a parameter \<open>read\<close> (asked at most once per
  slice); MD5 and CRC32 are parameters; a panic is the error \<open>RepairPanic\<close>. The model returns, beside
  the result, the slice numbers passed to \<^verbatim>\<open>OnChecksumMismatch\<close>.
\<close>

section \<open>Definitions\<close>

datatype read_error = Unavailable | ReadFailure

datatype repair_error =
    TooManyDamaged nat
  | RecoveryCount nat nat
  | InvalidRepairSliceSize int
  | AccumulatorMemory int
  | DamagedOutOfRange int
  | DuplicateDamaged int
  | RecoverySliceLength nat nat
  | ReadIntact int
  | IntactLength int nat
  | VerifyIntact int index_error
  | IntactChecksumAbort nat
  | TooManyUnavailable nat int
  | UnavailableSlices nat int
  | MatrixFailed matrix_error
  | VerifyReconstructed int index_error
  | ReconstructedMismatch int
  | RepairPanic

record RecoverySlice =
  rs_Exponent :: u32
  rs_Data :: bytes

record RepairedSlice =
  rep_Index :: int
  rep_Data :: bytes

abbreviation maxRepairSlices :: nat where "maxRepairSlices \<equiv> 128"
abbreviation maxAccumulatorMemory :: int where "maxAccumulatorMemory \<equiv> 2147483648"
abbreviation maxIntactChecksumMismatches :: nat where "maxIntactChecksumMismatches \<equiv> 2"
abbreviation accumParallelMinK :: nat where "accumParallelMinK \<equiv> 4"

definition MaxRepairSlicesFor :: "int \<Rightarrow> int" where
  "MaxRepairSlicesFor sliceSize =
     (if sliceSize \<le> 0 then int maxRepairSlices
      else min (int maxRepairSlices) (go_div maxAccumulatorMemory sliceSize))"

text \<open>One call of \<^verbatim>\<open>regionMulXOR\<close> on accumulator \<open>j\<close>; \<^verbatim>\<open>accumulateSlice\<close> makes one per recovery slice. The
  workers' blocks touch disjoint accumulators: any interleaving of the calls gives the same result
  (\<open>accum_steps_schedule\<close> below), the model runs the blocks one after the other.\<close>

definition accum_step :: "bytes \<Rightarrow> u16 \<Rightarrow> RecoverySlice list \<Rightarrow> nat \<Rightarrow> bytes list \<Rightarrow> bytes list option" where
  "accum_step data ci recovery j accum =
     (case regionMulXOR (accum ! j) data (gfPow ci (rs_Exponent (recovery ! j))) of
        None \<Rightarrow> None
      | Some b \<Rightarrow> Some (accum[j := b]))"

fun accum_steps :: "bytes \<Rightarrow> u16 \<Rightarrow> RecoverySlice list \<Rightarrow> nat list \<Rightarrow> bytes list \<Rightarrow> bytes list option" where
  "accum_steps data ci recovery [] accum = Some accum"
| "accum_steps data ci recovery (j # js) accum =
     (case accum_step data ci recovery j accum of
        None \<Rightarrow> None
      | Some accum' \<Rightarrow> accum_steps data ci recovery js accum')"

definition worker_blocks :: "nat \<Rightarrow> nat \<Rightarrow> (nat \<times> nat) list" where
  "worker_blocks k workers0 =
     (let workers = (if workers0 > k then k else workers0);
          per = (k + workers - 1) div workers
      in map (\<lambda>w. (w * per, if w * per + per > k then k else w * per + per))
           (takeWhile (\<lambda>w. \<not> w * per \<ge> k) [0..<workers]))"

definition accumulateSlice ::
  "bytes list \<Rightarrow> bytes \<Rightarrow> u16 \<Rightarrow> RecoverySlice list \<Rightarrow> nat \<Rightarrow> bytes list option" where
  "accumulateSlice accum data ci recovery workers =
     (let k = length recovery
      in if workers \<le> 1 \<or> k < accumParallelMinK then accum_steps data ci recovery [0..<k] accum
         else accum_steps data ci recovery
                (concat (map (\<lambda>(lo, hi). [lo..<hi]) (worker_blocks k workers))) accum)"

text \<open>The streaming pass over the intact slices.\<close>

record pass_state =
  ps_accum :: "bytes list"
  ps_mismatches :: nat
  ps_unavailable :: nat
  ps_first :: int
  ps_calls :: "int list"

definition count_unavailable :: "int \<Rightarrow> int \<Rightarrow> pass_state \<Rightarrow> repair_error option \<times> pass_state" where
  "count_unavailable maxUnavailable s ps =
     (let first = (if ps_unavailable ps = 0 then s else ps_first ps);
          n = ps_unavailable ps + 1;
          ps' = ps\<lparr>ps_unavailable := n, ps_first := first\<rparr>
      in if maxUnavailable \<ge> 0 \<and> int n > maxUnavailable then (Some (TooManyUnavailable n first), ps') else (None, ps'))"

definition pass_slice ::
  "(bytes \<Rightarrow> bytes) \<Rightarrow> (bytes \<Rightarrow> u32) \<Rightarrow> nat \<Rightarrow> Index \<Rightarrow> RecoverySlice list \<Rightarrow> (int \<Rightarrow> read_error + bytes) \<Rightarrow> int \<Rightarrow>
   int \<Rightarrow> pass_state \<Rightarrow> repair_error option \<times> pass_state" where
  "pass_slice md5 crc workers idx recovery read maxUnavailable s ps =
     (case read s of
        Inl Unavailable \<Rightarrow> count_unavailable maxUnavailable s ps
      | Inl ReadFailure \<Rightarrow> (Some (ReadIntact s), ps)
      | Inr data \<Rightarrow>
          if int (length data) \<noteq> SliceSize idx then (Some (IntactLength s (length data)), ps)
          else case verifySliceChecksum md5 crc idx s data of
                 Inl e \<Rightarrow> (Some (VerifyIntact s e), ps)
               | Inr False \<Rightarrow>
                   let m = ps_mismatches ps + 1; ps' = ps\<lparr>ps_mismatches := m\<rparr>
                   in if m > maxIntactChecksumMismatches then (Some (IntactChecksumAbort m), ps')
                      else count_unavailable maxUnavailable s (ps'\<lparr>ps_calls := ps_calls ps @ [s]\<rparr>)
               | Inr True \<Rightarrow>
                   (case inputConstant s of
                      None \<Rightarrow> (Some RepairPanic, ps)
                    | Some ci \<Rightarrow>
                        (case accumulateSlice (ps_accum ps) data ci recovery workers of
                           None \<Rightarrow> (Some RepairPanic, ps)
                         | Some accum' \<Rightarrow> (None, ps\<lparr>ps_accum := accum'\<rparr>))))"

fun repair_pass ::
  "(int \<Rightarrow> pass_state \<Rightarrow> repair_error option \<times> pass_state) \<Rightarrow> int list \<Rightarrow> int list \<Rightarrow> pass_state \<Rightarrow>
   repair_error option \<times> pass_state" where
  "repair_pass step damaged [] ps = (None, ps)"
| "repair_pass step damaged (s # ss) ps =
     (if s \<in> set damaged then repair_pass step damaged ss ps
      else case step s ps of
             (Some e, ps') \<Rightarrow> (Some e, ps')
           | (None, ps') \<Rightarrow> repair_pass step damaged ss ps')"

fun check_damaged :: "int \<Rightarrow> int list \<Rightarrow> int list \<Rightarrow> repair_error option" where
  "check_damaged n seen [] = None"
| "check_damaged n seen (d # ds) =
     (if d < 0 \<or> d \<ge> n then Some (DamagedOutOfRange d)
      else if d \<in> set seen then Some (DuplicateDamaged d)
      else check_damaged n (d # seen) ds)"

fun seed_accumulators :: "int \<Rightarrow> nat \<Rightarrow> RecoverySlice list \<Rightarrow> repair_error + bytes list" where
  "seed_accumulators sliceSize j [] = Inr []"
| "seed_accumulators sliceSize j (rs # recovery) =
     (if int (length (rs_Data rs)) \<noteq> sliceSize then Inl (RecoverySliceLength j (length (rs_Data rs)))
      else case seed_accumulators sliceSize (Suc j) recovery of
             Inl e \<Rightarrow> Inl e
           | Inr accum \<Rightarrow> Inr (rs_Data rs # accum))"

definition repair_matrix :: "int list \<Rightarrow> RecoverySlice list \<Rightarrow> gfMatrix" where
  "repair_matrix damaged recovery =
     map (\<lambda>rs. map (\<lambda>g. gfPow (the (inputConstant g)) (rs_Exponent rs)) damaged) recovery"

definition solve_word :: "u16 list \<Rightarrow> u16 list \<Rightarrow> u16" where
  "solve_word row a =
     fold (\<lambda>j s. if row ! j = 0 \<or> a ! j = 0 then s else s XOR gfMul (row ! j) (a ! j)) [0..<length a] 0"

definition solve_slice :: "nat \<Rightarrow> bytes list \<Rightarrow> u16 list \<Rightarrow> bytes" where
  "solve_slice words accum row =
     le_bytes (map (\<lambda>w. solve_word row (map (\<lambda>acc. le_words acc ! w) accum)) [0..<words])"

fun verify_repaired ::
  "(bytes \<Rightarrow> bytes) \<Rightarrow> (bytes \<Rightarrow> u32) \<Rightarrow> Index \<Rightarrow> RepairedSlice list \<Rightarrow> repair_error option" where
  "verify_repaired md5 crc idx [] = None"
| "verify_repaired md5 crc idx (r # rs) =
     (case verifySliceChecksum md5 crc idx (rep_Index r) (rep_Data r) of
        Inl e \<Rightarrow> Some (VerifyReconstructed (rep_Index r) e)
      | Inr False \<Rightarrow> Some (ReconstructedMismatch (rep_Index r))
      | Inr True \<Rightarrow> verify_repaired md5 crc idx rs)"

definition reconstruct ::
  "(bytes \<Rightarrow> bytes) \<Rightarrow> (bytes \<Rightarrow> u32) \<Rightarrow> Index \<Rightarrow> int list \<Rightarrow> RecoverySlice list \<Rightarrow> bytes list \<Rightarrow>
   repair_error + RepairedSlice list" where
  "reconstruct md5 crc idx damaged recovery accum =
     (if \<exists>g \<in> set damaged. inputConstant g = None then Inl RepairPanic
      else case invertMatrix (repair_matrix damaged recovery) of
             Inl e \<Rightarrow> Inl (MatrixFailed e)
           | Inr mi \<Rightarrow>
               let words = nat (go_div (SliceSize idx) 2);
                   out = map (\<lambda>d. \<lparr>rep_Index = damaged ! d, rep_Data = solve_slice words accum (mi ! d)\<rparr>)
                           [0..<length damaged]
               in case verify_repaired md5 crc idx out of Some e \<Rightarrow> Inl e | None \<Rightarrow> Inr out)"

definition RepairWith ::
  "(bytes \<Rightarrow> bytes) \<Rightarrow> (bytes \<Rightarrow> u32) \<Rightarrow> nat \<Rightarrow> Index \<Rightarrow> int list \<Rightarrow> RecoverySlice list \<Rightarrow>
   (int \<Rightarrow> read_error + bytes) \<Rightarrow> int \<Rightarrow> int list \<times> (repair_error + RepairedSlice list)" where
  "RepairWith md5 crc gomaxprocs idx damaged recovery read maxUnavailable =
     (let k = length damaged; sliceSize = SliceSize idx
      in if k = 0 then ([], Inr [])
         else if k > maxRepairSlices then ([], Inl (TooManyDamaged k))
         else if length recovery \<noteq> k then ([], Inl (RecoveryCount k (length recovery)))
         else if sliceSize \<le> 0 \<or> go_mod sliceSize 2 \<noteq> 0 then ([], Inl (InvalidRepairSliceSize sliceSize))
         else if i64 (int k * sliceSize) > maxAccumulatorMemory
              then ([], Inl (AccumulatorMemory (i64 (int k * sliceSize))))
         else case check_damaged (numSlices idx) [] damaged of
                Some e \<Rightarrow> ([], Inl e)
              | None \<Rightarrow>
                  (case seed_accumulators sliceSize 0 recovery of
                     Inl e \<Rightarrow> ([], Inl e)
                   | Inr accum \<Rightarrow>
                       let workers = (if gomaxprocs > k then k else gomaxprocs)
                       in case repair_pass (pass_slice md5 crc workers idx recovery read maxUnavailable)
                                 damaged [0..numSlices idx - 1]
                                 \<lparr>ps_accum = accum, ps_mismatches = 0, ps_unavailable = 0, ps_first = 0, ps_calls = []\<rparr> of
                            (Some e, ps) \<Rightarrow> (ps_calls ps, Inl e)
                          | (None, ps) \<Rightarrow>
                              (ps_calls ps,
                               if ps_unavailable ps > 0 then Inl (UnavailableSlices (ps_unavailable ps) (ps_first ps))
                               else reconstruct md5 crc idx damaged recovery (ps_accum ps))))"

definition Repair ::
  "(bytes \<Rightarrow> bytes) \<Rightarrow> (bytes \<Rightarrow> u32) \<Rightarrow> nat \<Rightarrow> Index \<Rightarrow> int list \<Rightarrow> RecoverySlice list \<Rightarrow>
   (int \<Rightarrow> read_error + bytes) \<Rightarrow> int list \<times> (repair_error + RepairedSlice list)" where
  "Repair md5 crc gomaxprocs idx damaged recovery read =
     RepairWith md5 crc gomaxprocs idx damaged recovery read (-1)"

section \<open>Accumulation\<close>

text \<open>The calls touch disjoint accumulators, so the result depends only on which calls are made.\<close>

definition accum_call :: "bytes \<Rightarrow> u16 \<Rightarrow> RecoverySlice list \<Rightarrow> nat \<Rightarrow> bytes \<Rightarrow> bytes option" where
  "accum_call data ci recovery j a = regionMulXOR a data (gfPow ci (rs_Exponent (recovery ! j)))"

lemma accum_steps_eq:
  assumes "distinct js" "\<forall>j \<in> set js. j < length accum"
  shows "accum_steps data ci recovery js accum =
    (if \<forall>j \<in> set js. accum_call data ci recovery j (accum ! j) \<noteq> None
     then Some (map (\<lambda>j. if j \<in> set js then the (accum_call data ci recovery j (accum ! j)) else accum ! j)
                  [0..<length accum])
     else None)"
  using assms
proof (induction js arbitrary: accum)
  case Nil
  then show ?case by (simp add: map_nth)
next
  case (Cons j js)
  show ?case
  proof (cases "accum_call data ci recovery j (accum ! j)")
    case None
    then show ?thesis by (auto simp: accum_step_def accum_call_def)
  next
    case (Some b)
    have same: "accum[j := b] ! i = accum ! i" if "i \<in> set js" for i using that Cons.prems by (auto simp: nth_list_update)
    have "accum_steps data ci recovery (j # js) accum = accum_steps data ci recovery js (accum[j := b])"
      using Some by (simp add: accum_step_def accum_call_def)
    also have "\<dots> = (if \<forall>i \<in> set js. accum_call data ci recovery i (accum ! i) \<noteq> None
        then Some (map (\<lambda>i. if i \<in> set js then the (accum_call data ci recovery i (accum ! i)) else accum[j := b] ! i)
                     [0..<length accum]) else None)"
      using Cons.IH [of "accum[j := b]"] Cons.prems same by (simp cong: map_cong)
    finally show ?thesis using Some Cons.prems by (auto simp: nth_list_update)
  qed
qed

lemma accum_steps_schedule:
  "distinct js \<Longrightarrow> distinct js' \<Longrightarrow> set js = set js' \<Longrightarrow> \<forall>j \<in> set js. j < length accum \<Longrightarrow>
   accum_steps data ci recovery js accum = accum_steps data ci recovery js' accum"
  by (simp add: accum_steps_eq)

lemma takeWhile_upt:
  "\<exists>m \<le> n. takeWhile P [0..<n] = [0..<m] \<and> (\<forall>x < m. P x) \<and> (m < n \<longrightarrow> \<not> P m)"
proof (induction n)
  case (Suc n)
  then obtain m where m: "m \<le> n" "takeWhile P [0..<n] = [0..<m]" "\<forall>x < m. P x" "m < n \<longrightarrow> \<not> P m" by blast
  show ?case
  proof (cases "m = n")
    case True
    show ?thesis
    proof (cases "P n")
      case True
      then have "\<forall>x < Suc n. P x" using \<open>m = n\<close> m(3) by (simp add: less_Suc_eq)
      then show ?thesis by (intro exI [of _ "Suc n"]) (simp add: takeWhile_eq_all_conv del: upt_Suc)
    next
      case False
      then have "takeWhile P ([0..<n] @ [n]) = [0..<n] @ takeWhile P [n]"
        using \<open>m = n\<close> m(3) by (intro takeWhile_append2) auto
      then have "takeWhile P [0..<Suc n] = [0..<n]" using False by simp
      then show ?thesis using False \<open>m = n\<close> m(3) by (intro exI [of _ n]) (simp del: upt_Suc)
    qed
  next
    case False
    then have "takeWhile P [0..<Suc n] = [0..<m]"
      using m by (simp add: takeWhile_append1 [of m])
    then show ?thesis using m False by (intro exI [of _ m]) auto
  qed
qed simp

lemma upt_join: "a \<le> b \<Longrightarrow> [0..<a] @ [a..<b] = [0..<b]"
  using upt_add_eq_append [of 0 a "b - a"] by simp

lemma concat_blocks:
  "\<forall>x < m. x * per < k \<Longrightarrow>
   concat (map (\<lambda>x. [x * per..<if x * per + per > k then k else x * per + per]) [0..<m]) = [0..<min k (m * per)]"
proof (induction m)
  case (Suc m)
  have "m * per < k" using Suc.prems by simp
  then show ?case using Suc by (auto simp: min_def add.commute upt_join)
qed simp

lemma worker_blocks_cover:
  assumes "0 < k" "0 < workers"
  shows "concat (map (\<lambda>(lo, hi). [lo..<hi]) (worker_blocks k workers)) = [0..<k]"
proof -
  define W where "W = (if workers > k then k else workers)"
  define per where "per = (k + W - 1) div W"
  have W: "0 < W" using assms by (simp add: W_def)
  have "k + W - 1 < per * W + W" 
    using div_mult_mod_eq [of "k + W - 1" W] mod_less_divisor [OF W, of "k + W - 1"] unfolding per_def by linarith
  then have full: "k \<le> W * per" by (simp add: mult.commute)
  obtain m where m: "m \<le> W" "takeWhile (\<lambda>w. \<not> w * per \<ge> k) [0..<W] = [0..<m]"
    "\<forall>x < m. \<not> x * per \<ge> k" "m < W \<longrightarrow> m * per \<ge> k"
    using takeWhile_upt [of W "\<lambda>w. \<not> w * per \<ge> k"] by auto
  have "k \<le> m * per" using m(1,4) full by (cases "m = W") auto
  then show ?thesis
    using concat_blocks [of m per k] m(2,3)
    unfolding worker_blocks_def W_def [symmetric] per_def [symmetric] Let_def
    by (simp add: comp_def min_def not_le)
qed

lemma accumulateSlice_eq:
  assumes "length accum = length recovery"
  shows "accumulateSlice accum data ci recovery workers = accum_steps data ci recovery [0..<length recovery] accum"
proof (cases "workers \<le> 1 \<or> length recovery < accumParallelMinK")
  case False
  then have "0 < length recovery" "0 < workers" by auto
  from worker_blocks_cover [OF this] show ?thesis using False by (simp add: accumulateSlice_def Let_def)
qed (simp add: accumulateSlice_def)

text \<open>With equal lengths no call panics, and every word gains its multiple of the data's word.\<close>

lemma accumulateSlice_words:
  assumes len: "length accum = length recovery" "\<forall>a \<in> set accum. length a = length data"
  obtains accum' where "accumulateSlice accum data ci recovery workers = Some accum'"
    "length accum' = length recovery" "\<forall>a \<in> set accum'. length a = length data"
    "\<And>j w. j < length recovery \<Longrightarrow> w < length data div 2 \<Longrightarrow>
       le_words (accum' ! j) ! w = le_words (accum ! j) ! w XOR gfMul (gfPow ci (rs_Exponent (recovery ! j))) (le_words data ! w)"
proof -
  let ?k = "length recovery"
  have call: "\<exists>b. accum_call data ci recovery j (accum ! j) = Some b \<and> length b = length data \<and>
      le_words b = vec_xor (le_words (accum ! j)) (map (gfMul (gfPow ci (rs_Exponent (recovery ! j)))) (le_words data))"
    if "j < ?k" for j
    using that len regionMulXOR_words [of "accum ! j" data "gfPow ci (rs_Exponent (recovery ! j))"]
    unfolding accum_call_def by (metis nth_mem)
  define accum' where "accum' = map (\<lambda>j. the (accum_call data ci recovery j (accum ! j))) [0..<?k]"
  have "accum_steps data ci recovery [0..<?k] accum = Some accum'"
    using call len(1) by (subst accum_steps_eq) (fastforce simp: accum'_def)+
  moreover have "length (accum' ! j) = length data \<and> le_words (accum' ! j) =
      vec_xor (le_words (accum ! j)) (map (gfMul (gfPow ci (rs_Exponent (recovery ! j)))) (le_words data))"
    if "j < ?k" for j
    using call [OF that] that by (auto simp: accum'_def)
  moreover have "length (accum ! j) = length data" if "j < ?k" for j using that len by simp
  ultimately show thesis
    using len(1) by (intro that [of accum']) (auto simp: accumulateSlice_eq accum'_def in_set_conv_nth)
qed

section \<open>Recovery slices and the streaming pass\<close>

text \<open>What PAR2 stores as recovery slice: word by word the sum, over all input slices, of the slice's word
  times its constant to the recovery exponent. \<open>content\<close> gives the true bytes of each input slice.\<close>

definition contribution :: "(int \<Rightarrow> bytes) \<Rightarrow> u32 \<Rightarrow> nat \<Rightarrow> int \<Rightarrow> u16" where
  "contribution content e w g = gfMul (gfPow (the (inputConstant g)) e) (le_words (content g) ! w)"

definition is_recovery :: "Index \<Rightarrow> (int \<Rightarrow> bytes) \<Rightarrow> RecoverySlice \<Rightarrow> bool" where
  "is_recovery idx content rs \<longleftrightarrow> int (length (rs_Data rs)) = SliceSize idx \<and>
     (\<forall>w < length (rs_Data rs) div 2.
        le_words (rs_Data rs) ! w = xor_list (map (contribution content (rs_Exponent rs) w) [0..numSlices idx - 1]))"

text \<open>The true content has the recorded checksums.\<close>

definition content_verifies :: "(bytes \<Rightarrow> bytes) \<Rightarrow> (bytes \<Rightarrow> u32) \<Rightarrow> Index \<Rightarrow> (int \<Rightarrow> bytes) \<Rightarrow> bool" where
  "content_verifies md5 crc idx content \<longleftrightarrow>
     (\<forall>g. 0 \<le> g \<and> g < numSlices idx \<longrightarrow> int (length (content g)) = SliceSize idx \<and>
        verifySliceChecksum md5 crc idx g (content g) = Inr True)"

definition accum_ok :: "nat \<Rightarrow> RecoverySlice list \<Rightarrow> bytes list \<Rightarrow> bool" where
  "accum_ok S recovery accum \<longleftrightarrow> length accum = length recovery \<and> (\<forall>a \<in> set accum. length a = S)"

lemma inputConstant_Some: "0 \<le> g \<Longrightarrow> g < int maxInputSlices \<Longrightarrow> \<exists>c. inputConstant g = Some c"
  by (simp add: inputConstant_def)

lemma repair_pass_words:
  assumes S: "SliceSize idx = int S" and n: "numSlices idx \<le> max_input_slices"
    and c: "content_verifies md5 crc idx content"
    and r: "\<And>g. g \<in> set ss \<Longrightarrow> g \<notin> set damaged \<Longrightarrow> 0 \<le> g \<and> g < numSlices idx \<and> read g = Inr (content g)"
    and ok: "accum_ok S recovery (ps_accum ps)"
  shows "\<exists>accum'. repair_pass (pass_slice md5 crc workers idx recovery read mu) damaged ss ps = (None, ps\<lparr>ps_accum := accum'\<rparr>) \<and>
    accum_ok S recovery accum' \<and>
    (\<forall>j < length recovery. \<forall>w < S div 2. le_words (accum' ! j) ! w = le_words (ps_accum ps ! j) ! w XOR
       xor_list (map (contribution content (rs_Exponent (recovery ! j)) w) (filter (\<lambda>g. g \<notin> set damaged) ss)))"
  using r ok
proof (induction ss arbitrary: ps)
  case Nil
  then show ?case by (intro exI [of _ "ps_accum ps"]) simp
next
  case (Cons g ss)
  show ?case
  proof (cases "g \<in> set damaged")
    case True
    then show ?thesis using Cons.IH [of ps] Cons.prems by simp
  next
    case False
    then have g: "0 \<le> g" "g < numSlices idx" "read g = Inr (content g)" using Cons.prems(1) [of g] by auto
    then have l: "length (content g) = S" and v: "verifySliceChecksum md5 crc idx g (content g) = Inr True"
      using c S by (auto simp: content_verifies_def)
    obtain ci where ci: "inputConstant g = Some ci" using inputConstant_Some [of g] g n by auto
    obtain accum1 where a: "accumulateSlice (ps_accum ps) (content g) ci recovery workers = Some accum1"
      "accum_ok S recovery accum1"
      "\<And>j w. j < length recovery \<Longrightarrow> w < S div 2 \<Longrightarrow> le_words (accum1 ! j) ! w =
         le_words (ps_accum ps ! j) ! w XOR gfMul (gfPow ci (rs_Exponent (recovery ! j))) (le_words (content g) ! w)"
      using accumulateSlice_words [of "ps_accum ps" recovery "content g" ci workers] Cons.prems(2) l
      unfolding accum_ok_def by metis
    let ?ps1 = "ps\<lparr>ps_accum := accum1\<rparr>"
    have step: "pass_slice md5 crc workers idx recovery read mu g ps = (None, ?ps1)"
      using g l v ci a(1) S by (simp add: pass_slice_def)
    obtain accum' where ih: "repair_pass (pass_slice md5 crc workers idx recovery read mu) damaged ss ?ps1 = (None, ?ps1\<lparr>ps_accum := accum'\<rparr>)"
      "accum_ok S recovery accum'"
      "\<forall>j < length recovery. \<forall>w < S div 2. le_words (accum' ! j) ! w = le_words (accum1 ! j) ! w XOR
         xor_list (map (contribution content (rs_Exponent (recovery ! j)) w) (filter (\<lambda>g. g \<notin> set damaged) ss))"
      using Cons.IH [of ?ps1] Cons.prems a(2) by auto
    show ?thesis
      using ih a(3) False step ci by (intro exI [of _ accum']) (simp add: contribution_def [abs_def] xor.assoc)
  qed
qed

lemma seed_accumulators_Inr:
  "\<forall>rs \<in> set recovery. int (length (rs_Data rs)) = S \<Longrightarrow> seed_accumulators S j recovery = Inr (map rs_Data recovery)"
  by (induction recovery arbitrary: j) simp_all

lemma check_damaged_None:
  "check_damaged n seen ds = None \<longleftrightarrow> distinct ds \<and> set ds \<inter> set seen = {} \<and> (\<forall>d \<in> set ds. 0 \<le> d \<and> d < n)"
  by (induction ds arbitrary: seen) auto

lemma repair_matrix_eq:
  "repair_matrix damaged recovery = recovery_matrix (damaged_constants damaged) (map rs_Exponent recovery)"
  by (simp add: repair_matrix_def recovery_matrix_def recovery_row_def damaged_constants_def comp_def)

text \<open>After the pass accumulator \<open>j\<close> holds row \<open>j\<close> of the repair matrix applied to the damaged words.\<close>

definition damaged_words :: "(int \<Rightarrow> bytes) \<Rightarrow> int list \<Rightarrow> nat \<Rightarrow> u16 list" where
  "damaged_words content damaged w = map (\<lambda>g. le_words (content g) ! w) damaged"

lemma pass_leaves_damaged:
  assumes "distinct damaged" "\<forall>d \<in> set damaged. 0 \<le> d \<and> d < n"
  shows "xor_list (map (contribution content e w) [0..n - 1]) XOR
      xor_list (map (contribution content e w) (filter (\<lambda>g. g \<notin> set damaged) [0..n - 1])) =
    gf_dot (map (\<lambda>g. gfPow (the (inputConstant g)) e) damaged) (damaged_words content damaged w)"
proof -
  let ?f = "contribution content e w" and ?all = "[0..n - 1]"
  have "xor_list (map ?f (filter (\<lambda>g. g \<in> set damaged) ?all)) = xor_list (map ?f damaged)"
    using assms by (intro xor_list_same_elements) auto
  moreover have "gf_dot (map (\<lambda>g. gfPow (the (inputConstant g)) e) damaged) (damaged_words content damaged w) = xor_list (map ?f damaged)"
    by (simp add: damaged_words_def dot_with_map contribution_def [abs_def])
  ultimately show ?thesis
    using xor_list_split_filter [of ?f ?all "\<lambda>g. g \<in> set damaged"] by (simp add: xor.assoc)
qed

lemma solve_word_dot: "length row = length a \<Longrightarrow> solve_word row a = gf_dot row a"
proof -
  assume l: "length row = length a"
  have "(\<lambda>j s. if row ! j = 0 \<or> a ! j = 0 then s else s XOR gfMul (row ! j) (a ! j)) =
      (\<lambda>j s. s XOR gfMul (row ! j) (a ! j))" by (intro ext) auto
  then show ?thesis using l by (simp add: solve_word_def fold_xor dot_with_nth)
qed

lemma verify_repaired_None:
  "verify_repaired md5 crc idx rs = None \<longleftrightarrow>
   (\<forall>r \<in> set rs. verifySliceChecksum md5 crc idx (rep_Index r) (rep_Data r) = Inr True)"
  by (induction rs) (auto split: sum.splits bool.splits)

text \<open>Solving gives back the damaged slices.\<close>

lemma solve_slice_exact:
  assumes m: "length m = k" "\<And>x. length x = k \<Longrightarrow> mat_vec mi (mat_vec m x) = x" "length mi = k" "square mi"
    and a: "length accum = k" "\<And>w. w < S div 2 \<Longrightarrow> map (\<lambda>acc. le_words acc ! w) accum = mat_vec m (damaged_words content damaged w)"
    and d: "length damaged = k" "d < k" "length (content (damaged ! d)) = S" "even S"
  shows "solve_slice (S div 2) accum (mi ! d) = content (damaged ! d)"
proof -
  have "solve_word (mi ! d) (map (\<lambda>acc. le_words acc ! w) accum) = le_words (content (damaged ! d)) ! w" if w: "w < S div 2" for w
  proof -
    let ?x = "damaged_words content damaged w"
    have "length (mi ! d) = k" using m(3,4) d(2) by (simp add: square_def)
    then have "solve_word (mi ! d) (mat_vec m ?x) = mat_vec mi (mat_vec m ?x) ! d"
      using m(1,3) d(2) by (simp add: solve_word_dot)
    also have "\<dots> = ?x ! d" using m(2) [of ?x] d(1) by (simp add: damaged_words_def)
    finally show ?thesis using a(2) [OF w] d(1,2) by (simp add: damaged_words_def)
  qed
  then have "map (\<lambda>w. solve_word (mi ! d) (map (\<lambda>acc. le_words acc ! w) accum)) [0..<S div 2] = le_words (content (damaged ! d))"
    using d(3) by (intro nth_equalityI) simp_all
  then show ?thesis using d(3,4) by (simp add: solve_slice_def le_bytes_words)
qed

lemma RepairWith_stages:
  assumes "damaged \<noteq> []" "length damaged \<le> maxRepairSlices" "length recovery = length damaged"
    "0 < SliceSize idx" "even (SliceSize idx)" "int (length damaged) * SliceSize idx \<le> maxAccumulatorMemory"
    "distinct damaged" "\<forall>d \<in> set damaged. 0 \<le> d \<and> d < numSlices idx"
    "\<forall>rs \<in> set recovery. int (length (rs_Data rs)) = SliceSize idx"
    "repair_pass (pass_slice md5 crc (if procs > length damaged then length damaged else procs) idx recovery read mu) damaged [0..numSlices idx - 1]
       \<lparr>ps_accum = map rs_Data recovery, ps_mismatches = 0, ps_unavailable = 0, ps_first = 0, ps_calls = []\<rparr> = (None, ps)"
    "ps_unavailable ps = 0"
  shows "RepairWith md5 crc procs idx damaged recovery read mu = (ps_calls ps, reconstruct md5 crc idx damaged recovery (ps_accum ps))"
proof -
  let ?k = "length damaged"
  have k: "\<not> ?k = 0" "\<not> ?k > maxRepairSlices" "\<not> length recovery \<noteq> ?k" using assms(1-3) by auto
  have "go_mod (SliceSize idx) 2 = 0" using assms(4,5) by (simp add: even_iff_mod_2_eq_zero)
  then have s: "\<not> (SliceSize idx \<le> 0 \<or> go_mod (SliceSize idx) 2 \<noteq> 0)" using assms(4) by simp
  have "0 \<le> int ?k * SliceSize idx" using assms(4) by simp
  then have "i64 (int ?k * SliceSize idx) = int ?k * SliceSize idx" using assms(6) by (intro i64_id) simp
  then have mem: "\<not> i64 (int ?k * SliceSize idx) > maxAccumulatorMemory" using assms(6) by simp
  have ch: "check_damaged (numSlices idx) [] damaged = None" using assms(7,8) by (simp add: check_damaged_None)
  show ?thesis
    unfolding RepairWith_def Let_def if_not_P [OF k(1)] if_not_P [OF k(2)] if_not_P [OF k(3)] if_not_P [OF s] if_not_P [OF mem]
      ch option.case seed_accumulators_Inr [OF assms(9)] sum.case assms(10) prod.case
    using assms(11) by simp
qed

section \<open>Properties\<close>

text \<open>C1. Repair is exact. Let the recovery slices be what PAR2 stores for the true content, the intact
  slices read back as their true content, the recorded checksums be those of the true content, and
  the recovery matrix be nonsingular, within the size limits. Then \<^verbatim>\<open>RepairWith\<close> returns exactly the true
  bytes of every damaged slice, in the order asked, for every number of workers and every limit on
  unavailable slices, and reports no mismatch.\<close>

theorem Repair_reconstructs:
  assumes "damaged \<noteq> []" "length damaged \<le> maxRepairSlices" "length recovery = length damaged"
    "0 < SliceSize idx" "even (SliceSize idx)" "int (length damaged) * SliceSize idx \<le> maxAccumulatorMemory"
    "numSlices idx \<le> max_input_slices"
    "distinct damaged" "\<forall>d \<in> set damaged. 0 \<le> d \<and> d < numSlices idx"
    "content_verifies md5 crc idx content" "\<forall>rs \<in> set recovery. is_recovery idx content rs"
    "\<forall>g. 0 \<le> g \<and> g < numSlices idx \<and> g \<notin> set damaged \<longrightarrow> read g = Inr (content g)"
    "nonsingular (recovery_matrix (damaged_constants damaged) (map rs_Exponent recovery))"
  shows "RepairWith md5 crc gomaxprocs idx damaged recovery read maxUnavailable =
    ([], Inr (map (\<lambda>g. \<lparr>rep_Index = g, rep_Data = content g\<rparr>) damaged))"
proof -
  define S where "S = nat (SliceSize idx)"
  have S: "SliceSize idx = int S" "even S" using assms(4,5) by (simp_all add: S_def even_nat_iff)
  let ?k = "length damaged" and ?m = "repair_matrix damaged recovery" and ?accum = "map rs_Data recovery"
  let ?ps = "\<lparr>ps_accum = ?accum, ps_mismatches = 0, ps_unavailable = 0, ps_first = 0, ps_calls = []\<rparr>"
  let ?n = "numSlices idx"
  let ?workers = "if gomaxprocs > ?k then ?k else gomaxprocs"
  have rl: "\<forall>rs \<in> set recovery. int (length (rs_Data rs)) = SliceSize idx" using assms(11) by (simp add: is_recovery_def)
  then have ok: "accum_ok S recovery (ps_accum ?ps)" using S by (auto simp: accum_ok_def)
  have rd: "0 \<le> g \<and> g < ?n \<and> read g = Inr (content g)" if "g \<in> set [0..?n - 1]" "g \<notin> set damaged" for g
    using that assms(12) by auto
  obtain accum' where pass: "repair_pass (pass_slice md5 crc ?workers idx recovery read maxUnavailable) damaged [0..?n - 1] ?ps =
      (None, ?ps\<lparr>ps_accum := accum'\<rparr>)" "accum_ok S recovery accum'"
    "\<forall>j < length recovery. \<forall>w < S div 2. le_words (accum' ! j) ! w = le_words (?accum ! j) ! w XOR
       xor_list (map (contribution content (rs_Exponent (recovery ! j)) w) (filter (\<lambda>g. g \<notin> set damaged) [0..?n - 1]))"
    using repair_pass_words [where workers = ?workers and mu = maxUnavailable and damaged = damaged and ss = "[0..?n - 1]", OF S(1) assms(7) assms(10) rd ok] by (auto simp del: upto_rec1)
  have acc: "map (\<lambda>acc. le_words acc ! w) accum' = mat_vec ?m (damaged_words content damaged w)" if w: "w < S div 2" for w
  proof (rule nth_equalityI)
    fix j assume "j < length (map (\<lambda>acc. le_words acc ! w) accum')"
    then have j: "j < length recovery" "j < length accum'" using pass(2) by (simp_all add: accum_ok_def)
    then have "le_words (?accum ! j) ! w = xor_list (map (contribution content (rs_Exponent (recovery ! j)) w) [0..?n - 1])"
      using assms(11) w S rl by (simp add: is_recovery_def)
    then have "le_words (accum' ! j) ! w =
        gf_dot (map (\<lambda>g. gfPow (the (inputConstant g)) (rs_Exponent (recovery ! j))) damaged) (damaged_words content damaged w)"
      using pass(3) j(1) w pass_leaves_damaged [OF assms(8,9)] by simp
    then show "map (\<lambda>acc. le_words acc ! w) accum' ! j = mat_vec ?m (damaged_words content damaged w) ! j"
      using j by (simp add: repair_matrix_def)
  qed (use pass(2) in \<open>simp add: accum_ok_def repair_matrix_def\<close>)
  have sq: "square ?m" unfolding repair_matrix_eq using assms(3) by (intro square_recovery_matrix) (simp add: damaged_constants_def)
  obtain mi where mi: "invertMatrix ?m = Inr mi" using invertMatrix_iff [OF sq] assms(13) by (auto simp: repair_matrix_eq)
  have lm: "length ?m = ?k" using assms(3) by (simp add: repair_matrix_def)
  have cl: "length (content g) = S" if "g \<in> set damaged" for g using that assms(9,10) S by (auto simp: content_verifies_def)
  have "solve_slice (S div 2) accum' (mi ! d) = content (damaged ! d)" if "d < ?k" for d
    using that cl acc pass(2) S(2) lm invertMatrix_Inr [OF mi] assms(3)
    by (intro solve_slice_exact [of ?m ?k]) (auto simp: accum_ok_def)
  then have out: "map (\<lambda>d. \<lparr>rep_Index = damaged ! d, rep_Data = solve_slice (S div 2) accum' (mi ! d)\<rparr>) [0..<?k] =
      map (\<lambda>g. \<lparr>rep_Index = g, rep_Data = content g\<rparr>) damaged"
    by (intro nth_equalityI) simp_all
  have w: "nat (go_div (SliceSize idx) 2) = S div 2" using S by (simp add: nat_div_distrib)
  have v: "verify_repaired md5 crc idx (map (\<lambda>g. \<lparr>rep_Index = g, rep_Data = content g\<rparr>) damaged) = None"
    using assms(9,10) by (auto simp: verify_repaired_None content_verifies_def)
  have ic: "\<not> (\<exists>g \<in> set damaged. inputConstant g = None)" using assms(7,9) inputConstant_Some by fastforce
  have "reconstruct md5 crc idx damaged recovery accum' = Inr (map (\<lambda>g. \<lparr>rep_Index = g, rep_Data = content g\<rparr>) damaged)"
    unfolding reconstruct_def if_not_P [OF ic] mi sum.case w Let_def out v by simp
  then show ?thesis
    using RepairWith_stages [OF assms(1-6) assms(8,9) rl pass(1)] by simp
qed

text \<open>Two slices of two bytes, the second one lost, one recovery slice with exponent 0 (their exclusive or).\<close>

definition example_set :: Index where
  "example_set = empty_index\<lparr>SliceSize := 2, FileOrder := Some [[1]],
     Slices := [[1] \<mapsto> [\<lparr>sc_MD5 = [1, 2], sc_CRC32 = 0\<rparr>, \<lparr>sc_MD5 = [3, 4], sc_CRC32 = 0\<rparr>]],
     fileBase := [0], numSlices := 2\<rparr>"

abbreviation example_content :: "int \<Rightarrow> bytes" where
  "example_content \<equiv> \<lambda>g. if g = 0 then [1, 2] else [3, 4]"

lemma example_content_verifies: "content_verifies (\<lambda>x. x) (\<lambda>_. 0) example_set example_content"
proof -
  have "g = 0 \<or> g = 1" if "0 \<le> g" "g < 2" for g :: int using that by linarith
  then show ?thesis
    by (auto simp: content_verifies_def example_set_def empty_index_def verifySliceChecksum_def sliceLocation_def md5AndCRC32_def)
qed

lemma example_is_recovery: "is_recovery example_set example_content \<lparr>rs_Exponent = 0, rs_Data = [2, 6]\<rparr>"
  by (simp add: is_recovery_def example_set_def empty_index_def contribution_def gfPow_def le16_def upto_rec1)

lemma nonsingular_1: "nonsingular [[1]]"
  by (auto simp: nonsingular_def kernel_def length_Suc_conv)

theorem Repair_reconstructs_witness:
  "RepairWith (\<lambda>x. x) (\<lambda>_. 0) 8 example_set [1] [\<lparr>rs_Exponent = 0, rs_Data = [2, 6]\<rparr>]
     (\<lambda>g. if g = 0 then Inr [1, 2] else Inl Unavailable) (-1) =
   ([], Inr [\<lparr>rep_Index = 1, rep_Data = [3, 4]\<rparr>])"
proof -
  have "g = 0 \<or> g = 1" if "0 \<le> g" "g < 2" for g :: int using that by linarith
  then have rd: "\<forall>g. 0 \<le> g \<and> g < numSlices example_set \<and> g \<notin> set [1] \<longrightarrow>
      (if g = 0 then Inr [1, 2] else Inl Unavailable) = Inr (example_content g)"
    by (auto simp: example_set_def)
  have ns: "nonsingular (recovery_matrix (damaged_constants [1]) (map rs_Exponent [\<lparr>rs_Exponent = 0, rs_Data = [2, 6]\<rparr>]))"
    by (simp add: recovery_matrix_def recovery_row_def damaged_constants_def gfPow_def nonsingular_1)
  show ?thesis
    using Repair_reconstructs [OF _ _ _ _ _ _ _ _ _ example_content_verifies _ rd ns] example_is_recovery
    by (simp add: example_set_def)
qed

text \<open>C4. Nothing unverified is ever returned, whatever the recovery data and the slice source deliver: a
  successful repair returns one slice per damaged number, in order, each of the slice size and each
  matching its recorded MD5 and CRC32.\<close>

theorem Repair_never_fabricates:
  assumes "snd (RepairWith md5 crc gomaxprocs idx damaged recovery read maxUnavailable) = Inr out"
  shows "map rep_Index out = damaged \<and>
    (\<forall>r \<in> set out. int (length (rep_Data r)) = SliceSize idx \<and>
       verifySliceChecksum md5 crc idx (rep_Index r) (rep_Data r) = Inr True)"
proof (cases "damaged = []")
  case True
  then show ?thesis using assms by (simp add: RepairWith_def)
next
  case False
  from assms obtain accum where rec: "reconstruct md5 crc idx damaged recovery accum = Inr out"
    and s: "0 < SliceSize idx" "go_mod (SliceSize idx) 2 = 0"
    using False by (auto simp: RepairWith_def Let_def split: if_splits option.splits sum.splits prod.splits)
  obtain words mi where out: "out = map (\<lambda>d. \<lparr>rep_Index = damaged ! d, rep_Data = solve_slice words accum (mi ! d)\<rparr>) [0..<length damaged]"
    and w: "words = nat (go_div (SliceSize idx) 2)" and v: "verify_repaired md5 crc idx out = None"
    using rec by (auto simp: reconstruct_def Let_def split: if_splits option.splits sum.splits)
  have "2 * int words = SliceSize idx" using s div_mult_mod_eq [of "SliceSize idx" 2] unfolding w by simp
  then have "int (length (solve_slice words accum row)) = SliceSize idx" for row by (simp add: solve_slice_def)
  moreover have "map rep_Index out = damaged" unfolding out by (simp add: comp_def map_nth)
  ultimately show ?thesis using v by (auto simp: verify_repaired_None out)
qed

theorem Repair_never_fabricates_witness:
  "\<exists>out. snd (RepairWith (\<lambda>x. x) (\<lambda>_. 0) 8 example_set [1] [\<lparr>rs_Exponent = 0, rs_Data = [2, 6]\<rparr>]
     (\<lambda>g. if g = 0 then Inr [1, 2] else Inl Unavailable) (-1)) = Inr out \<and> map rep_Index out = [1]"
proof -
  let ?r = "RepairWith (\<lambda>x. x) (\<lambda>_. 0) 8 example_set [1] [\<lparr>rs_Exponent = 0, rs_Data = [2, 6]\<rparr>]
     (\<lambda>g. if g = 0 then Inr [1, 2] else Inl Unavailable) (-1)"
  have "\<exists>out. snd ?r = Inr out"
  proof -
    have "invertMatrix [[1]] = Inr [[1]]" by (simp add: gauss_eval)
    then show ?thesis
      by (simp add: RepairWith_def example_set_def empty_index_def go_mod_def go_div_def i64_id pass_slice_def
          verifySliceChecksum_def sliceLocation_def md5AndCRC32_def upto_rec1 inputConstant_def accumulateSlice_def
          accum_step_def regionMulXOR_def gfPow_def reconstruct_def repair_matrix_def solve_slice_def solve_word_def
          le16_def lo8_def hi8_def Let_def)
  qed
  then obtain out where "snd ?r = Inr out" by blast
  with Repair_never_fabricates [OF this] show ?thesis by (intro exI [of _ out]) simp
qed

text \<open>C35. The parallel accumulation is the serial loop: for every number of workers, and for every order in
  which the workers' calls happen to run, the accumulators (or the panic) are those of the loop over
  the recovery slices in order.\<close>

theorem accumulateSlice_parallel:
  assumes "length accum = length recovery" "distinct schedule" "set schedule = {..<length recovery}"
  shows "accumulateSlice accum data ci recovery workers = accum_steps data ci recovery [0..<length recovery] accum \<and>
    accum_steps data ci recovery schedule accum = accum_steps data ci recovery [0..<length recovery] accum"
proof
  show "accumulateSlice accum data ci recovery workers = accum_steps data ci recovery [0..<length recovery] accum"
    using assms(1) by (rule accumulateSlice_eq)
  show "accum_steps data ci recovery schedule accum = accum_steps data ci recovery [0..<length recovery] accum"
    using assms by (intro accum_steps_schedule) (simp_all add: atLeast0LessThan)
qed

theorem accumulateSlice_parallel_witness:
  "accum_steps [1, 2] 1 (replicate 2 \<lparr>rs_Exponent = 0, rs_Data = []\<rparr>) [1, 0] [[0, 0], [5, 5]] =
   accum_steps [1, 2] 1 (replicate 2 \<lparr>rs_Exponent = 0, rs_Data = []\<rparr>) [0, 1] [[0, 0], [5, 5]]"
  using accumulateSlice_parallel [of "[[0, 0], [5, 5]]" "replicate 2 \<lparr>rs_Exponent = 0, rs_Data = []\<rparr>" "[1, 0]" "[1, 2]" 1]
  by (simp add: numeral_2_eq_2 lessThan_Suc insert_commute)

text \<open>\<^verbatim>\<open>MaxRepairSlicesFor\<close> tells in advance what \<^verbatim>\<open>RepairWith\<close> accepts: a number of damaged slices is within
  it exactly when it passes both the slice cap and the memory cap.\<close>

lemma MaxRepairSlicesFor_exact:
  assumes "0 < sliceSize"
  shows "int k \<le> MaxRepairSlicesFor sliceSize \<longleftrightarrow>
    k \<le> maxRepairSlices \<and> int k * sliceSize \<le> maxAccumulatorMemory"
proof -
  have "int k \<le> maxAccumulatorMemory div sliceSize \<longleftrightarrow> int k * sliceSize \<le> maxAccumulatorMemory"
    using assms by (rule le_div_mult)
  then show ?thesis using assms by (auto simp: MaxRepairSlicesFor_def)
qed

end
