(* ===== verification/Par2_Match.thy ===== *)
theory Par2_Match
  imports Par2_Index
begin

text \<open>
  Pairing posted files with the file descriptions of a PAR2 index: \<^verbatim>\<open>src/pkg/usenet/par2/mapping.go\<close>. Go leaves
  the order of a map iteration open: the orders in which the code's maps deliver their keys are
  parameters (\<open>files\<close> for \<^verbatim>\<open>idx.Files\<close>, \<open>lens\<close>, \<open>rest\<close>, \<open>names\<close> for the grouping maps). \<^verbatim>\<open>strings.ToLower\<close> is the
  parameter \<open>lower\<close>. A posted file's hash callback may be asked twice (tie-break and residual pass)
  and may answer differently: its argument tells the passes apart.
\<close>

section \<open>Definitions\<close>

datatype match_pass = TieBreak | Residual

record PostedFile =
  pf_Name :: bytes
  pf_Length :: int
  pf_MD5_16k :: "(match_pass \<Rightarrow> bytes option) option"

record Match =
  PostedIndex :: nat
  m_FileID :: bytes
  NameMismatch :: bool

type_synonym match_skip = "nat \<times> match_pass"

record match_state =
  ms_matches :: "(nat \<times> bytes) list"
  ms_skipped :: "match_skip list"
  ms_hashed :: "nat set"

definition newMatch :: "Index \<Rightarrow> PostedFile list \<Rightarrow> nat \<Rightarrow> bytes \<Rightarrow> Match" where
  "newMatch idx posted postedIndex fileID =
     \<lparr>PostedIndex = postedIndex, m_FileID = fileID,
      NameMismatch = (case Files idx fileID of None \<Rightarrow> False | Some fd \<Rightarrow> fd_Name fd \<noteq> pf_Name (posted ! postedIndex))\<rparr>"

definition byLength :: "Index \<Rightarrow> bytes list \<Rightarrow> int \<Rightarrow> bytes list" where
  "byLength idx files l =
     filter (\<lambda>fid. (case Files idx fid of None \<Rightarrow> False | Some fd \<Rightarrow> fd_Length fd = l) \<and>
                   \<not> (file_order idx \<noteq> [] \<and> fid \<notin> set (file_order idx))) files"

definition postedByLength :: "PostedFile list \<Rightarrow> int \<Rightarrow> nat list" where
  "postedByLength posted l = filter (\<lambda>i. pf_Length (posted ! i) = l) [0..<length posted]"

text \<open>The hashes of the tied posted files, the files whose hash failed, and those hashed.\<close>

definition tie_hash :: "PostedFile list \<Rightarrow> nat \<Rightarrow> bytes option" where
  "tie_hash posted i = (case pf_MD5_16k (posted ! i) of None \<Rightarrow> None | Some f \<Rightarrow> f TieBreak)"

definition hash_failed :: "PostedFile list \<Rightarrow> match_pass \<Rightarrow> nat \<Rightarrow> bool" where
  "hash_failed posted p i = (case pf_MD5_16k (posted ! i) of None \<Rightarrow> False | Some f \<Rightarrow> f p = None)"

fun claim_loop :: "Index \<Rightarrow> (nat \<Rightarrow> bytes option) \<Rightarrow> nat list \<Rightarrow> bytes list \<Rightarrow> nat list \<Rightarrow> (nat \<times> bytes) list" where
  "claim_loop idx sums postedIdxs [] claimed = []"
| "claim_loop idx sums postedIdxs (fid # fids) claimed =
     (case find (\<lambda>i. sums i \<noteq> None \<and> sums i = map_option MD5_16k (Files idx fid) \<and> i \<notin> set claimed) postedIdxs of
        None \<Rightarrow> claim_loop idx sums postedIdxs fids claimed
      | Some i \<Rightarrow> (i, fid) # claim_loop idx sums postedIdxs fids (i # claimed))"

definition match_length :: "Index \<Rightarrow> PostedFile list \<Rightarrow> bytes list \<Rightarrow> int \<Rightarrow> match_state \<Rightarrow> match_state" where
  "match_length idx posted files l st =
     (let fileIDs = byLength idx files l; postedIdxs = postedByLength posted l
      in if fileIDs = [] \<or> postedIdxs = [] then st
         else if length fileIDs = 1 \<and> length postedIdxs = 1
         then st\<lparr>ms_matches := ms_matches st @ [(hd postedIdxs, hd fileIDs)]\<rparr>
         else st\<lparr>ms_matches := ms_matches st @ claim_loop idx (tie_hash posted) postedIdxs fileIDs [],
                 ms_skipped := ms_skipped st @ map (\<lambda>i. (i, TieBreak)) (filter (hash_failed posted TieBreak) postedIdxs),
                 ms_hashed := ms_hashed st \<union> set (filter (\<lambda>i. tie_hash posted i \<noteq> None) postedIdxs)\<rparr>)"

abbreviation matchedPosted :: "(nat \<times> bytes) list \<Rightarrow> nat set" where
  "matchedPosted ms \<equiv> fst ` set ms"

abbreviation matchedFID :: "(nat \<times> bytes) list \<Rightarrow> bytes set" where
  "matchedFID ms \<equiv> snd ` set ms"

definition residual_step :: "Index \<Rightarrow> PostedFile list \<Rightarrow> nat \<Rightarrow> match_state \<Rightarrow> match_state" where
  "residual_step idx posted i st =
     (if i \<in> matchedPosted (ms_matches st) then st
      else case pf_MD5_16k (posted ! i) of
             None \<Rightarrow> st
           | Some f \<Rightarrow>
               (case f Residual of
                  None \<Rightarrow> st\<lparr>ms_skipped := ms_skipped st @ [(i, Residual)]\<rparr>
                | Some md \<Rightarrow>
                    let st' = st\<lparr>ms_hashed := insert i (ms_hashed st)\<rparr>;
                        cands = filter (\<lambda>fid. fid \<notin> matchedFID (ms_matches st) \<and>
                                  (case Files idx fid of None \<Rightarrow> False | Some fd \<Rightarrow> MD5_16k fd = md)) (file_order idx)
                    in if length cands = 1 then st'\<lparr>ms_matches := ms_matches st @ [(i, hd cands)]\<rparr> else st'))"

definition only_pair :: "bytes list \<Rightarrow> nat list \<Rightarrow> (nat \<times> bytes) list" where
  "only_pair fids is = (if length fids \<noteq> 1 \<or> length is \<noteq> 1 then [] else [(hd is, hd fids)])"

definition unmatchedFDByLength :: "Index \<Rightarrow> (nat \<times> bytes) list \<Rightarrow> int \<Rightarrow> bytes list" where
  "unmatchedFDByLength idx ms l =
     filter (\<lambda>fid. fid \<notin> matchedFID ms \<and> (case Files idx fid of None \<Rightarrow> False | Some fd \<Rightarrow> fd_Length fd = l)) (file_order idx)"

definition unmatchedPostedByLength :: "PostedFile list \<Rightarrow> (nat \<times> bytes) list \<Rightarrow> int \<Rightarrow> nat list" where
  "unmatchedPostedByLength posted ms l =
     filter (\<lambda>i. i \<notin> matchedPosted ms \<and> pf_Length (posted ! i) = l) [0..<length posted]"

definition last_standing :: "Index \<Rightarrow> PostedFile list \<Rightarrow> int list \<Rightarrow> (nat \<times> bytes) list \<Rightarrow> (nat \<times> bytes) list" where
  "last_standing idx posted rest ms =
     ms @ concat (map (\<lambda>l. only_pair (unmatchedFDByLength idx ms l) (unmatchedPostedByLength posted ms l)) rest)"

definition unmatchedFDByName :: "(bytes \<Rightarrow> bytes) \<Rightarrow> Index \<Rightarrow> (nat \<times> bytes) list \<Rightarrow> bytes \<Rightarrow> bytes list" where
  "unmatchedFDByName lower idx ms name =
     filter (\<lambda>fid. fid \<notin> matchedFID ms \<and>
       (case Files idx fid of None \<Rightarrow> False | Some fd \<Rightarrow> fd_Name fd \<noteq> [] \<and> lower (fd_Name fd) = name)) (file_order idx)"

definition unmatchedPostedByName ::
  "(bytes \<Rightarrow> bytes) \<Rightarrow> PostedFile list \<Rightarrow> (nat \<times> bytes) list \<Rightarrow> nat set \<Rightarrow> bytes \<Rightarrow> nat list" where
  "unmatchedPostedByName lower posted ms hashed name =
     filter (\<lambda>i. i \<notin> matchedPosted ms \<and> i \<notin> hashed \<and> pf_Name (posted ! i) \<noteq> [] \<and> lower (pf_Name (posted ! i)) = name)
       [0..<length posted]"

definition unique_names ::
  "(bytes \<Rightarrow> bytes) \<Rightarrow> Index \<Rightarrow> PostedFile list \<Rightarrow> bytes list \<Rightarrow> nat set \<Rightarrow> (nat \<times> bytes) list \<Rightarrow> (nat \<times> bytes) list" where
  "unique_names lower idx posted names hashed ms =
     ms @ concat (map (\<lambda>name. only_pair (unmatchedFDByName lower idx ms name)
                              (unmatchedPostedByName lower posted ms hashed name)) names)"

fun dedup_skips :: "nat set \<Rightarrow> nat set \<Rightarrow> match_skip list \<Rightarrow> match_skip list" where
  "dedup_skips matched seen [] = []"
| "dedup_skips matched seen ((i, p) # ss) =
     (if i \<in> matched \<or> i \<in> seen then dedup_skips matched seen ss
      else (i, p) # dedup_skips matched (insert i seen) ss)"

definition MatchFiles ::
  "(bytes \<Rightarrow> bytes) \<Rightarrow> bytes list \<Rightarrow> int list \<Rightarrow> int list \<Rightarrow> bytes list \<Rightarrow> Index \<Rightarrow> PostedFile list \<Rightarrow>
   Match list \<times> match_skip list" where
  "MatchFiles lower files lens rest names idx posted =
     (let st1 = fold (match_length idx posted files) lens \<lparr>ms_matches = [], ms_skipped = [], ms_hashed = {}\<rparr>;
          st2 = fold (residual_step idx posted) [0..<length posted] st1;
          ms3 = last_standing idx posted rest (ms_matches st2);
          ms4 = unique_names lower idx posted names (ms_hashed st2) ms3
      in (map (\<lambda>(i, fid). newMatch idx posted i fid) ms4,
          dedup_skips (matchedPosted ms4) {} (ms_skipped st2)))"

section \<open>Matchings\<close>

definition matching :: "(nat \<times> bytes) list \<Rightarrow> bool" where
  "matching ms \<longleftrightarrow> distinct (map fst ms) \<and> distinct (map snd ms)"

lemma matching_append:
  "matching (xs @ ys) \<longleftrightarrow> matching xs \<and> matching ys \<and> matchedPosted xs \<inter> matchedPosted ys = {} \<and> matchedFID xs \<inter> matchedFID ys = {}"
  by (auto simp: matching_def)

text \<open>Groups with different keys do not share files.\<close>

lemma matching_concat:
  assumes "distinct ks" "\<And>k. matching (g k)"
    "\<And>k i fid. (i, fid) \<in> set (g k) \<Longrightarrow> kp i = k \<and> kf fid = k"
  shows "matching (concat (map g ks))"
  using assms(1)
proof (induction ks)
  case (Cons k ks)
  have key: "kp i = k" "kf fid = k" if "(i, fid) \<in> set (g k)" for k i fid using assms(3) [OF that] by simp_all
  have "matchedPosted (g k) \<inter> matchedPosted (concat (map g ks)) = {}"
  proof (rule ccontr)
    assume "matchedPosted (g k) \<inter> matchedPosted (concat (map g ks)) \<noteq> {}"
    then obtain i fid fid' k' where "(i, fid) \<in> set (g k)" "k' \<in> set ks" "(i, fid') \<in> set (g k')" by auto
    then have "kp i = k" "kp i = k'" "k' \<in> set ks" using key(1) by blast+
    then show False using Cons.prems by auto
  qed
  moreover have "matchedFID (g k) \<inter> matchedFID (concat (map g ks)) = {}"
  proof (rule ccontr)
    assume "matchedFID (g k) \<inter> matchedFID (concat (map g ks)) \<noteq> {}"
    then obtain i i' fid k' where "(i, fid) \<in> set (g k)" "k' \<in> set ks" "(i', fid) \<in> set (g k')" by auto
    then have "kf fid = k" "kf fid = k'" "k' \<in> set ks" using key(2) by blast+
    then show False using Cons.prems by auto
  qed
  ultimately show ?case using Cons assms(2) by (simp add: matching_append)
qed (simp add: matching_def)

lemma claim_loop_props:
  assumes "(i, fid) \<in> set (claim_loop idx sums is fids claimed)"
  shows "i \<in> set is \<and> i \<notin> set claimed \<and> fid \<in> set fids \<and> (\<exists>fd. Files idx fid = Some fd \<and> sums i = Some (MD5_16k fd))"
  using assms
proof (induction fids arbitrary: claimed)
  case (Cons f fids)
  let ?find = "find (\<lambda>i. sums i \<noteq> None \<and> sums i = map_option MD5_16k (Files idx f) \<and> i \<notin> set claimed) is"
  show ?case
  proof (cases ?find)
    case None
    then show ?thesis using Cons.IH [of claimed] Cons.prems by simp
  next
    case (Some j)
    note j = find_Some_in [OF Some]
    show ?thesis
    proof (cases "(i, fid) = (j, f)")
      case True
      then show ?thesis using j by auto
    next
      case False
      then show ?thesis using Cons.IH [of "j # claimed"] Cons.prems Some by auto
    qed
  qed
qed simp

lemma claim_loop_matching: "distinct fids \<Longrightarrow> matching (claim_loop idx sums is fids claimed)"
proof (induction fids arbitrary: claimed)
  case (Cons f fids)
  have "i \<notin> matchedPosted (claim_loop idx sums is fids (i # claimed))" for i
    using claim_loop_props [of i _ idx sums "is" fids "i # claimed"] by fastforce
  moreover have "f \<notin> matchedFID (claim_loop idx sums is fids cl)" for cl
    using claim_loop_props [of _ f idx sums "is" fids cl] Cons.prems by fastforce
  ultimately show ?case using Cons by (auto simp: matching_def split: option.split)
qed (simp add: matching_def)

text \<open>The matches one length group contributes.\<close>

definition length_group :: "Index \<Rightarrow> PostedFile list \<Rightarrow> bytes list \<Rightarrow> int \<Rightarrow> (nat \<times> bytes) list" where
  "length_group idx posted files l =
     (let fileIDs = byLength idx files l; postedIdxs = postedByLength posted l
      in if fileIDs = [] \<or> postedIdxs = [] then []
         else if length fileIDs = 1 \<and> length postedIdxs = 1 then [(hd postedIdxs, hd fileIDs)]
         else claim_loop idx (tie_hash posted) postedIdxs fileIDs [])"

lemma match_length_matches:
  "ms_matches (match_length idx posted files l st) = ms_matches st @ length_group idx posted files l"
  by (simp add: match_length_def length_group_def Let_def)

lemma fold_match_length:
  "ms_matches (fold (match_length idx posted files) lens st) = ms_matches st @ concat (map (length_group idx posted files) lens)"
  by (induction lens arbitrary: st) (simp_all add: match_length_matches)

text \<open>Why a pair was made: equal lengths, equal hashes, or equal names where no hash was available.\<close>

definition pair_ok :: "(bytes \<Rightarrow> bytes) \<Rightarrow> Index \<Rightarrow> PostedFile list \<Rightarrow> nat \<Rightarrow> bytes \<Rightarrow> bool" where
  "pair_ok lower idx posted i fid \<longleftrightarrow> i < length posted \<and>
     (\<exists>fd. Files idx fid = Some fd \<and> (file_order idx = [] \<or> fid \<in> set (file_order idx)) \<and>
        (fd_Length fd = pf_Length (posted ! i) \<or>
         (\<exists>f. pf_MD5_16k (posted ! i) = Some f \<and> f Residual = Some (MD5_16k fd)) \<or>
         fd_Name fd \<noteq> [] \<and> lower (fd_Name fd) = lower (pf_Name (posted ! i))))"

lemma byLength_in: "fid \<in> set (byLength idx files l) \<Longrightarrow>
   fid \<in> set files \<and> (\<exists>fd. Files idx fid = Some fd \<and> fd_Length fd = l) \<and> (file_order idx = [] \<or> fid \<in> set (file_order idx))"
  by (auto simp: byLength_def split: option.splits)

lemma length_group_in:
  "(i, fid) \<in> set (length_group idx posted files l) \<Longrightarrow> i \<in> set (postedByLength posted l) \<and> fid \<in> set (byLength idx files l)"
  unfolding length_group_def Let_def
  by (auto dest: claim_loop_props split: if_splits)

lemma length_group_matching: "distinct files \<Longrightarrow> matching (length_group idx posted files l)"
  using claim_loop_matching [of "byLength idx files l"]
  by (auto simp: length_group_def Let_def byLength_def matching_def)

lemma length_groups_matching:
  assumes "distinct files" "distinct lens"
  shows "matching (concat (map (length_group idx posted files) lens))"
  using assms(2)
proof (rule matching_concat)
  show "matching (length_group idx posted files k)" for k using length_group_matching [OF assms(1)] .
  show "pf_Length (posted ! i) = k \<and> file_length idx fid = k" if "(i, fid) \<in> set (length_group idx posted files k)" for k i fid
    using length_group_in [OF that] byLength_in [of fid idx files k] by (auto simp: postedByLength_def file_length_def)
qed

definition match_inv :: "(bytes \<Rightarrow> bytes) \<Rightarrow> Index \<Rightarrow> PostedFile list \<Rightarrow> (nat \<times> bytes) list \<Rightarrow> bool" where
  "match_inv lower idx posted ms \<longleftrightarrow> matching ms \<and> (\<forall>(i, fid) \<in> set ms. pair_ok lower idx posted i fid)"

lemma match_inv_append:
  "match_inv lower idx posted (xs @ ys) \<longleftrightarrow> match_inv lower idx posted xs \<and> match_inv lower idx posted ys \<and>
     matchedPosted xs \<inter> matchedPosted ys = {} \<and> matchedFID xs \<inter> matchedFID ys = {}"
  by (auto simp: match_inv_def matching_append)

lemma residual_step_inv:
  assumes "match_inv lower idx posted (ms_matches st)" "i < length posted"
  shows "match_inv lower idx posted (ms_matches (residual_step idx posted i st))"
proof -
  let ?cands = "\<lambda>md. filter (\<lambda>fid. fid \<notin> matchedFID (ms_matches st) \<and>
     (case Files idx fid of None \<Rightarrow> False | Some fd \<Rightarrow> MD5_16k fd = md)) (file_order idx)"
  have added: "match_inv lower idx posted (ms_matches st @ [(i, hd (?cands md))])"
    if "i \<notin> matchedPosted (ms_matches st)" "pf_MD5_16k (posted ! i) = Some f" "f Residual = Some md" "length (?cands md) = 1" for f md
  proof -
    have "hd (?cands md) \<in> set (?cands md)" using that(4) by (intro hd_in_set) auto
    then have "hd (?cands md) \<in> set (file_order idx)" "hd (?cands md) \<notin> matchedFID (ms_matches st)"
      "\<exists>fd. Files idx (hd (?cands md)) = Some fd \<and> MD5_16k fd = md" by (auto split: option.splits)
    then show ?thesis using assms that by (auto simp: match_inv_append match_inv_def matching_def pair_ok_def)
  qed
  show ?thesis
  proof (cases "i \<in> matchedPosted (ms_matches st)")
    case False
    show ?thesis
    proof (cases "pf_MD5_16k (posted ! i)")
      case (Some f)
      show ?thesis
      proof (cases "f Residual")
        case (Some md)
        then show ?thesis
          using assms(1) added [OF False \<open>pf_MD5_16k (posted ! i) = Some f\<close> Some] False \<open>pf_MD5_16k (posted ! i) = Some f\<close>
          by (simp add: residual_step_def Let_def)
      qed (use assms(1) False Some in \<open>simp add: residual_step_def\<close>)
    qed (use assms(1) False in \<open>simp add: residual_step_def\<close>)
  qed (use assms(1) in \<open>simp add: residual_step_def\<close>)
qed

lemma only_pair_in: "(i, fid) \<in> set (only_pair fids is) \<Longrightarrow> i \<in> set is \<and> fid \<in> set fids"
  by (auto simp: only_pair_def length_Suc_conv split: if_splits)

lemma only_pair_matching: "matching (only_pair fids is)"
  by (simp add: only_pair_def matching_def)

lemma match_inv_extend:
  assumes "match_inv lower idx posted ms" "matching new"
    "\<And>i fid. (i, fid) \<in> set new \<Longrightarrow> pair_ok lower idx posted i fid \<and> i \<notin> matchedPosted ms \<and> fid \<notin> matchedFID ms"
  shows "match_inv lower idx posted (ms @ new)"
proof -
  have "i \<notin> matchedPosted ms" if i: "i \<in> matchedPosted new" for i
  proof -
    obtain fid where "(i, fid) \<in> set new" using i by auto
    then show ?thesis using assms(3) by blast
  qed
  then have "matchedPosted ms \<inter> matchedPosted new = {}" by blast
  moreover have "fid \<notin> matchedFID ms" if fid: "fid \<in> matchedFID new" for fid
  proof -
    obtain i where "(i, fid) \<in> set new" using fid by auto
    then show ?thesis using assms(3) by blast
  qed
  then have "matchedFID ms \<inter> matchedFID new = {}" by blast
  moreover have "match_inv lower idx posted new" using assms(2,3) by (auto simp: match_inv_def)
  ultimately show ?thesis using assms(1) by (simp add: match_inv_append)
qed

text \<open>The two closing passes pair, group by group, files that are still unmatched.\<close>

lemma closing_pass_inv:
  assumes inv: "match_inv lower idx posted ms" and d: "distinct keys"
    and g: "\<And>k i. i \<in> set (gi k) \<Longrightarrow> i \<notin> matchedPosted ms \<and> kp i = k"
      "\<And>k fid. fid \<in> set (gf k) \<Longrightarrow> fid \<notin> matchedFID ms \<and> kf fid = k"
      "\<And>k i fid. i \<in> set (gi k) \<Longrightarrow> fid \<in> set (gf k) \<Longrightarrow> pair_ok lower idx posted i fid"
  shows "match_inv lower idx posted (ms @ concat (map (\<lambda>k. only_pair (gf k) (gi k)) keys))"
proof -
  let ?new = "concat (map (\<lambda>k. only_pair (gf k) (gi k)) keys)"
  have "matching ?new"
    using d
  proof (rule matching_concat)
    show "kp i = k \<and> kf fid = k" if "(i, fid) \<in> set (only_pair (gf k) (gi k))" for k i fid
      using only_pair_in [OF that] g(1,2) by blast
  qed (rule only_pair_matching)
  moreover have "pair_ok lower idx posted i fid \<and> i \<notin> matchedPosted ms \<and> fid \<notin> matchedFID ms" if "(i, fid) \<in> set ?new" for i fid
  proof -
    from that have "\<exists>k. (i, fid) \<in> set (only_pair (gf k) (gi k))" by auto
    then show ?thesis using only_pair_in g by blast
  qed
  ultimately show ?thesis using match_inv_extend [OF inv] by blast
qed

lemma last_standing_inv:
  assumes "match_inv lower idx posted ms" "distinct rest"
  shows "match_inv lower idx posted (last_standing idx posted rest ms)"
  unfolding last_standing_def
  using assms
  by (rule closing_pass_inv [where kp = "\<lambda>i. pf_Length (posted ! i)" and kf = "file_length idx"])
    (auto simp: unmatchedFDByLength_def unmatchedPostedByLength_def pair_ok_def file_length_def split: option.splits)

lemma unique_names_inv:
  assumes "match_inv lower idx posted ms" "distinct names"
  shows "match_inv lower idx posted (unique_names lower idx posted names hashed ms)"
  unfolding unique_names_def
  using assms
  by (rule closing_pass_inv [where kp = "\<lambda>i. lower (pf_Name (posted ! i))"
        and kf = "\<lambda>fid. lower (fd_Name (the (Files idx fid)))"])
    (auto simp: unmatchedFDByName_def unmatchedPostedByName_def pair_ok_def split: option.splits)

lemma dedup_skips_props:
  "distinct (map fst (dedup_skips matched seen ss)) \<and>
   fst ` set (dedup_skips matched seen ss) = fst ` set ss - matched - seen"
proof (induction ss arbitrary: seen)
  case (Cons s ss)
  obtain i p where s: "s = (i, p)" by (cases s)
  show ?case
    using Cons.IH [of seen] Cons.IH [of "insert i seen"] unfolding s by auto
qed simp

section \<open>Properties\<close>

lemma MatchFiles_inv:
  assumes "distinct files" "distinct lens" "distinct rest" "distinct names"
  obtains ms skipped where "match_inv lower idx posted ms"
    "MatchFiles lower files lens rest names idx posted =
       (map (\<lambda>(i, fid). newMatch idx posted i fid) ms, dedup_skips (matchedPosted ms) {} skipped)"
proof -
  define st1 where "st1 = fold (match_length idx posted files) lens \<lparr>ms_matches = [], ms_skipped = [], ms_hashed = {}\<rparr>"
  define st2 where "st2 = fold (residual_step idx posted) [0..<length posted] st1"
  have m1: "ms_matches st1 = concat (map (length_group idx posted files) lens)"
    by (simp add: st1_def fold_match_length)
  have "pair_ok lower idx posted i fid" if "(i, fid) \<in> set (ms_matches st1)" for i fid
    using that length_group_in [of i fid idx posted files] byLength_in [of fid idx files]
    by (fastforce simp: m1 pair_ok_def postedByLength_def)
  then have "match_inv lower idx posted (ms_matches st1)"
    using length_groups_matching [OF assms(1,2)] by (auto simp: match_inv_def m1)
  moreover have "match_inv lower idx posted (ms_matches (fold (residual_step idx posted) is st))"
    if "match_inv lower idx posted (ms_matches st)" "\<forall>i \<in> set is. i < length posted" for "is" st
    using that by (induction "is" arbitrary: st) (simp_all add: residual_step_inv)
  ultimately have "match_inv lower idx posted (ms_matches st2)" by (simp add: st2_def)
  then show thesis
    using that [of "unique_names lower idx posted names (ms_hashed st2) (last_standing idx posted rest (ms_matches st2))" "ms_skipped st2"]
      last_standing_inv unique_names_inv assms(3,4)
    by (simp add: MatchFiles_def Let_def st1_def st2_def)
qed

text \<open>C33. \<^verbatim>\<open>MatchFiles\<close> pairs each posted file with at most one file of the recovery set and each file of the
  set with at most one posted file, whatever order the maps iterate in; every pair has equal lengths,
  or an equal MD5 of the first 16 KB, or (ignoring case) equal names; and a file reported as skipped is
  not matched and is reported once.\<close>

theorem MatchFiles_injective:
  assumes "distinct files" "distinct lens" "distinct rest" "distinct names"
  shows "case MatchFiles lower files lens rest names idx posted of (matches, skipped) \<Rightarrow>
    distinct (map PostedIndex matches) \<and> distinct (map m_FileID matches) \<and>
    (\<forall>m \<in> set matches. pair_ok lower idx posted (PostedIndex m) (m_FileID m)) \<and>
    distinct (map fst skipped) \<and> fst ` set skipped \<inter> PostedIndex ` set matches = {}"
proof -
  obtain ms sk where inv: "match_inv lower idx posted ms"
    and eq: "MatchFiles lower files lens rest names idx posted =
       (map (\<lambda>(i, fid). newMatch idx posted i fid) ms, dedup_skips (matchedPosted ms) {} sk)"
    using MatchFiles_inv [OF assms] .
  let ?f = "\<lambda>(i, fid). newMatch idx posted i fid"
  have p: "PostedIndex (?f x) = fst x" "m_FileID (?f x) = snd x" for x
    by (simp_all add: newMatch_def split: prod.split)
  note sk = dedup_skips_props [of "matchedPosted ms" "{}" sk]
  show ?thesis
    unfolding eq prod.case
  proof (intro conjI)
    show "distinct (map PostedIndex (map ?f ms))" "distinct (map m_FileID (map ?f ms))"
      using inv by (simp_all add: p comp_def match_inv_def matching_def)
    show "\<forall>m \<in> set (map ?f ms). pair_ok lower idx posted (PostedIndex m) (m_FileID m)"
      using inv by (auto simp: newMatch_def match_inv_def)
    show "distinct (map fst (dedup_skips (matchedPosted ms) {} sk))" using sk by blast
    have "PostedIndex ` set (map ?f ms) = matchedPosted ms" by (simp add: p image_image)
    then show "fst ` set (dedup_skips (matchedPosted ms) {} sk) \<inter> PostedIndex ` set (map ?f ms) = {}" using sk by blast
  qed
qed

text \<open>Two posted copies of one described file: only the first is paired.\<close>

definition example_copy :: Index where
  "example_copy = empty_index\<lparr>SliceSize := 4, FileOrder := Some [[1]],
     Files := [[1] \<mapsto> \<lparr>FileID = [1], FileMD5 = [], MD5_16k = [9], fd_Length = 4, fd_Name = [7]\<rparr>]\<rparr>"

theorem MatchFiles_injective_witness:
  "case MatchFiles (\<lambda>x. x) [[1]] [4] [4] [] example_copy
      [\<lparr>pf_Name = [7], pf_Length = 4, pf_MD5_16k = Some (\<lambda>_. Some [9])\<rparr>, \<lparr>pf_Name = [8], pf_Length = 4, pf_MD5_16k = None\<rparr>] of
    (matches, skipped) \<Rightarrow> distinct (map PostedIndex matches) \<and> length matches = 1"
proof -
  let ?posted = "[\<lparr>pf_Name = [7], pf_Length = 4, pf_MD5_16k = Some (\<lambda>_. Some [9])\<rparr>, \<lparr>pf_Name = [8], pf_Length = 4, pf_MD5_16k = None\<rparr>]"
  have "length (fst (MatchFiles (\<lambda>x. x) [[1]] [4] [4] [] example_copy ?posted)) = 1"
    by (simp add: MatchFiles_def example_copy_def empty_index_def match_length_def byLength_def postedByLength_def
        tie_hash_def hash_failed_def residual_step_def last_standing_def unmatchedFDByLength_def
        unmatchedPostedByLength_def only_pair_def unique_names_def upt_rec)
  then show ?thesis
    using MatchFiles_injective [of "[[1]]" "[4]" "[4]" "[]" "\<lambda>x. x" example_copy ?posted] by (auto split: prod.splits)
qed

end
