(* ===== verification/Intervals.thy ===== *)
theory Intervals
  imports Prelude
begin

text \<open>
  Half-open intervals of 64-bit offsets. The first part is the mathematics both range sets of the
  program rest on: lists of intervals with gaps between them and the bytes they cover. The second
  part is the interface their clients rely on, a set of byte offsets with insertion, removal and a
  containment test, as the locale \<open>byte_set\<close>: histories of operations are proved once inside it.
  \<open>Extents\<close> and \<open>Ranges\<close> interpret it.
\<close>

section \<open>Lists of intervals\<close>

type_synonym seg = "int \<times> int"

abbreviation seg_bytes :: "seg \<Rightarrow> int set" where
  "seg_bytes s \<equiv> {fst s..<snd s}"

definition cover :: "seg list \<Rightarrow> int set" where
  "cover ss = (\<Union>s \<in> set ss. seg_bytes s)"

definition gapped :: "seg list \<Rightarrow> bool" where
  "gapped ss \<longleftrightarrow> sorted_wrt (\<lambda>a b. snd a < fst b) ss \<and> (\<forall>s \<in> set ss. fst s < snd s)"

definition bounded_segs :: "seg list \<Rightarrow> bool" where
  "bounded_segs ss \<longleftrightarrow> (\<forall>s \<in> set ss. 0 \<le> fst s \<and> snd s \<le> max_i64)"

lemma cover_simps [simp]:
  "cover [] = {}" "cover (s # ss) = seg_bytes s \<union> cover ss" "cover (ss @ ts) = cover ss \<union> cover ts"
  by (auto simp: cover_def)

lemma gapped_simps [simp]:
  "gapped []" "gapped (s # ss) \<longleftrightarrow> fst s < snd s \<and> (\<forall>t \<in> set ss. snd s < fst t) \<and> gapped ss"
  by (auto simp: gapped_def)

lemma gapped_append:
  "gapped (ss @ ts) \<longleftrightarrow> gapped ss \<and> gapped ts \<and> (\<forall>s \<in> set ss. \<forall>t \<in> set ts. snd s < fst t)"
  by (induction ss) auto

lemma bounded_simps [simp]:
  "bounded_segs []" "bounded_segs (s # ss) \<longleftrightarrow> 0 \<le> fst s \<and> snd s \<le> max_i64 \<and> bounded_segs ss"
  "bounded_segs (ss @ ts) \<longleftrightarrow> bounded_segs ss \<and> bounded_segs ts"
  by (auto simp: bounded_segs_def)

lemma gapped_nth: "gapped ss \<Longrightarrow> i < j \<Longrightarrow> j < length ss \<Longrightarrow> snd (ss ! i) < fst (ss ! j)"
  by (simp add: gapped_def sorted_wrt_iff_nth_less)

lemma gapped_nth_pos: "gapped ss \<Longrightarrow> i < length ss \<Longrightarrow> fst (ss ! i) < snd (ss ! i)"
  by (simp add: gapped_def)

lemma gapped_fst_mono:
  assumes "gapped ss" "i \<le> j" "j < length ss"
  shows "fst (ss ! i) \<le> fst (ss ! j) \<and> snd (ss ! i) \<le> snd (ss ! j)"
proof (cases "i = j")
  case False
  then show ?thesis
    using gapped_nth [OF assms(1), of i j] gapped_nth_pos [OF assms(1), of i] gapped_nth_pos [OF assms(1), of j] assms
    by auto
qed simp

text \<open>Merging an interval into the intervals that follow it.\<close>

fun absorb :: "seg \<Rightarrow> seg list \<Rightarrow> seg \<times> seg list" where
  "absorb (lo, hi) [] = ((lo, hi), [])"
| "absorb (lo, hi) (s # ss) = (if fst s \<le> hi then absorb (lo, max hi (snd s)) ss else ((lo, hi), s # ss))"

lemma absorb_spec:
  assumes "absorb (lo, hi) ss = (s, rest)" "gapped ss" "lo < hi" "\<forall>t \<in> set ss. lo \<le> fst t"
  shows "gapped (s # rest) \<and> cover (s # rest) = {lo..<hi} \<union> cover ss \<and> fst s = lo \<and> hi \<le> snd s \<and> set rest \<subseteq> set ss"
  using assms
proof (induction "(lo, hi)" ss arbitrary: hi rule: absorb.induct)
  case (2 hi t ss)
  show ?case
  proof (cases "fst t \<le> hi")
    case True
    then have "gapped (s # rest) \<and> cover (s # rest) = {lo..<max hi (snd t)} \<union> cover ss \<and> fst s = lo \<and>
        max hi (snd t) \<le> snd s \<and> set rest \<subseteq> set ss"
      using True "2.prems" by (intro "2.hyps") auto
    moreover have "{lo..<max hi (snd t)} = {lo..<hi} \<union> seg_bytes t" using True "2.prems" by auto
    ultimately show ?thesis by auto
  next
    case False
    then have "s = (lo, hi)" "rest = t # ss" using "2.prems"(1) by auto
    moreover have "hi < fst u" if "u \<in> set (t # ss)" for u
      using that False "2.prems"(2) by (cases "u = t") force+
    ultimately show ?thesis using "2.prems" by auto
  qed
qed auto

text \<open>Inserting \<open>[lo, hi)\<close> between intervals that end before it and intervals it may swallow.\<close>

lemma absorb_insert:
  assumes g: "gapped (as @ ss)" and a: "\<forall>s \<in> set as. snd s < lo" and lo: "lo < hi" "\<forall>t \<in> set ss. lo \<le> fst t"
    and ab: "absorb (lo, hi) ss = (s, rest)"
  shows "gapped (as @ s # rest)" "cover (as @ s # rest) = cover (as @ ss) \<union> {lo..<hi}"
proof -
  have ss: "gapped ss" using g by (simp add: gapped_append)
  note sp = absorb_spec [OF ab ss lo]
  show "cover (as @ s # rest) = cover (as @ ss) \<union> {lo..<hi}" using sp by auto
  have "snd x < fst t" if "x \<in> set as" "t \<in> set (s # rest)" for x t
    using that sp g a unfolding gapped_append by (cases "t = s") auto
  then show "gapped (as @ s # rest)" using sp g by (simp add: gapped_append)
qed

lemma cover_bounded: "bounded_segs ss \<Longrightarrow> x \<in> cover ss \<Longrightarrow> 0 \<le> x \<and> x < max_i64"
  by (induction ss) auto

lemma absorb_bounded:
  "absorb (lo, hi) ss = (s, rest) \<Longrightarrow> bounded_segs ss \<Longrightarrow> 0 \<le> lo \<Longrightarrow> hi \<le> max_i64 \<Longrightarrow> bounded_segs (s # rest)"
  by (induction "(lo, hi)" ss arbitrary: hi rule: absorb.induct) (auto split: if_splits)

text \<open>Intervals with gaps are determined by the bytes they cover.\<close>

lemma cover_Cons_after: "gapped (s # ss) \<Longrightarrow> x \<in> cover ss \<Longrightarrow> snd s < x"
  by (force simp: cover_def)

lemma gapped_cover_inj:
  assumes "gapped ss" "gapped ts" "cover ss = cover ts"
  shows "ss = ts"
  using assms
proof (induction ss arbitrary: ts)
  case Nil
  then show ?case by (cases ts) auto
next
  case (Cons s ss)
  have s: "fst s \<in> cover (s # ss)" "snd s \<notin> cover (s # ss)"
    using Cons.prems(1) cover_Cons_after [OF Cons.prems(1), of "snd s"] by auto
  obtain t ts' where ts: "ts = t # ts'" using s(1) Cons.prems(3) by (cases ts) auto
  have t: "fst t \<in> cover ts" "snd t \<notin> cover ts"
    using Cons.prems(2) cover_Cons_after [of t ts' "snd t"] by (auto simp: ts)
  have lower: "fst s \<le> x" if "x \<in> cover (s # ss)" for x using that cover_Cons_after [OF Cons.prems(1), of x] Cons.prems(1) by auto
  have lower': "fst t \<le> x" if "x \<in> cover ts" for x
    using that cover_Cons_after [of t ts' x] Cons.prems(2) by (auto simp: ts)
  have "fst s \<le> fst t" using lower t(1) Cons.prems(3) by blast
  moreover have "fst t \<le> fst s" using lower' s(1) Cons.prems(3) by blast
  ultimately have f: "fst s = fst t" by simp
  have "snd s = snd t"
  proof (rule ccontr)
    assume "snd s \<noteq> snd t"
    then consider "snd s < snd t" | "snd t < snd s" by linarith
    then show False
    proof cases
      case 1
      then have "snd s \<in> cover ts" using f Cons.prems(1) by (simp add: ts)
      then show False using s(2) Cons.prems(3) by blast
    next
      case 2
      then have "snd t \<in> cover (s # ss)" using f Cons.prems(2) by (simp add: ts)
      then show False using t(2) Cons.prems(3) by blast
    qed
  qed
  with f have st: "s = t" by (simp add: prod_eq_iff)
  have rest: "cover us = cover (u # us) - seg_bytes u" if "gapped (u # us)" for u us
    using cover_Cons_after [OF that] by fastforce
  have "cover ss = cover (s # ss) - seg_bytes s" "cover ts' = cover ts - seg_bytes t"
    using rest Cons.prems(1,2) unfolding ts by blast+
  then have "cover ss = cover ts'" using st Cons.prems(3) by simp
  then show ?case using Cons.IH [of ts'] Cons.prems(1,2) st by (simp add: ts)
qed

section \<open>Sets of byte offsets\<close>

datatype range_op = Ins int int | Rem int int

abbreviation valid_range :: "int \<Rightarrow> int \<Rightarrow> bool" where
  "valid_range pos len \<equiv> 0 \<le> pos \<and> 0 \<le> len \<and> pos + len \<le> max_i64"

fun valid_op :: "range_op \<Rightarrow> bool" where
  "valid_op (Ins pos len) \<longleftrightarrow> valid_range pos len"
| "valid_op (Rem pos len) \<longleftrightarrow> valid_range pos len"

fun abs_op :: "range_op \<Rightarrow> int set \<Rightarrow> int set" where
  "abs_op (Ins pos len) b = b \<union> {pos..<pos + len}"
| "abs_op (Rem pos len) b = b - {pos..<pos + len}"

fun run_op :: "('s \<Rightarrow> int \<Rightarrow> int \<Rightarrow> 's) \<Rightarrow> ('s \<Rightarrow> int \<Rightarrow> int \<Rightarrow> 's) \<Rightarrow> range_op \<Rightarrow> 's \<Rightarrow> 's" where
  "run_op ins rem (Ins pos len) s = ins s pos len"
| "run_op ins rem (Rem pos len) s = rem s pos len"

locale byte_set =
  fixes empty :: 's
    and ok :: "'s \<Rightarrow> bool"
    and bytes_in :: "'s \<Rightarrow> int set"
    and ins :: "'s \<Rightarrow> int \<Rightarrow> int \<Rightarrow> 's"
    and rem :: "'s \<Rightarrow> int \<Rightarrow> int \<Rightarrow> 's"
    and has :: "'s \<Rightarrow> int \<Rightarrow> int \<Rightarrow> bool"
  assumes empty_ok: "ok empty"
    and empty_bytes: "bytes_in empty = {}"
    and ins_ok: "ok s \<Longrightarrow> valid_range pos len \<Longrightarrow> ok (ins s pos len)"
    and ins_bytes: "ok s \<Longrightarrow> valid_range pos len \<Longrightarrow> bytes_in (ins s pos len) = bytes_in s \<union> {pos..<pos + len}"
    and rem_ok: "ok s \<Longrightarrow> valid_range pos len \<Longrightarrow> ok (rem s pos len)"
    and rem_bytes: "ok s \<Longrightarrow> valid_range pos len \<Longrightarrow> bytes_in (rem s pos len) = bytes_in s - {pos..<pos + len}"
    and has_iff: "ok s \<Longrightarrow> valid_range pos len \<Longrightarrow> has s pos len \<longleftrightarrow> {pos..<pos + len} \<subseteq> bytes_in s"
begin

abbreviation run_ops :: "range_op list \<Rightarrow> 's \<Rightarrow> 's" where
  "run_ops ops s \<equiv> fold (run_op ins rem) ops s"

lemma run_op_refines:
  "ok s \<Longrightarrow> valid_op oper \<Longrightarrow> ok (run_op ins rem oper s) \<and> bytes_in (run_op ins rem oper s) = abs_op oper (bytes_in s)"
  by (cases oper) (simp_all add: ins_ok ins_bytes rem_ok rem_bytes)

lemma run_ops_refines:
  "ok s \<Longrightarrow> \<forall>oper \<in> set ops. valid_op oper \<Longrightarrow>
   ok (run_ops ops s) \<and> bytes_in (run_ops ops s) = fold abs_op ops (bytes_in s)"
  by (induction ops arbitrary: s) (simp_all add: run_op_refines)

lemma history:
  "\<forall>oper \<in> set ops. valid_op oper \<Longrightarrow> valid_range pos len \<Longrightarrow>
   has (run_ops ops empty) pos len \<longleftrightarrow> {pos..<pos + len} \<subseteq> fold abs_op ops {}"
  using run_ops_refines [OF empty_ok, of ops] by (simp add: has_iff empty_bytes)

lemma has_after_ins: "ok s \<Longrightarrow> valid_range pos len \<Longrightarrow> has (ins s pos len) pos len"
  by (simp add: has_iff ins_ok ins_bytes)

lemma has_not_after_rem: "ok s \<Longrightarrow> valid_range pos len \<Longrightarrow> 0 < len \<Longrightarrow> \<not> has (rem s pos len) pos len"
  using has_iff [OF rem_ok, of s pos len pos len] by (auto simp: rem_bytes subset_iff dest: spec [of _ pos])

end

end
