(* ===== verification/Extents.thy ===== *)
theory Extents
  imports Intervals
begin

text \<open>
  The range set of the download buffer: \<^verbatim>\<open>src/internal/buffer/ranges.go\<close>. A sorted slice of half-open extents
  tracks which bytes are present; insertion and removal report by how many bytes the presence changed.
  Sums wrap at 64 bits. Every operation is shown to act on the set of covered offsets as its name says,
  to keep extents sorted with real gaps, and to count exactly; the theory interprets \<open>byte_set\<close>.
\<close>

section \<open>Definitions\<close>

record extent =
  ext_off :: int
  ext_end :: int

type_synonym rangeSet = "extent list"

definition newRangeSet :: rangeSet where "newRangeSet = []"

fun coverage_loop :: "int \<Rightarrow> int \<Rightarrow> extent list \<Rightarrow> int \<Rightarrow> int" where
  "coverage_loop lo hi [] c = c"
| "coverage_loop lo hi (e # es) c =
     (if ext_off e < hi then
        let a = max (ext_off e) lo; b = min (ext_end e) hi
        in coverage_loop lo hi es (if b > a then i64 (c + i64 (b - a)) else c)
      else c)"

definition coverage :: "rangeSet \<Rightarrow> int \<Rightarrow> int \<Rightarrow> int" where
  "coverage rs lo hi =
     (if hi \<le> lo then 0
      else coverage_loop lo hi (drop (sort_Search (length rs) (\<lambda>i. ext_end (rs ! i) > lo)) rs) 0)"

fun merge_following :: "extent \<Rightarrow> extent list \<Rightarrow> extent list" where
  "merge_following e [] = [e]"
| "merge_following e (f # fs) =
     (if ext_off f \<le> ext_end e
      then merge_following (if ext_end f > ext_end e then e\<lparr>ext_end := ext_end f\<rparr> else e) fs
      else e # f # fs)"

definition insert_extent :: "rangeSet \<Rightarrow> int \<Rightarrow> int \<Rightarrow> int \<times> rangeSet" where
  "insert_extent rs pos len =
     (if len \<le> 0 then (0, rs)
      else let fin = i64 (pos + len);
               added = i64 (len - coverage rs pos fin);
               i = sort_Search (length rs) (\<lambda>i. ext_end (rs ! i) \<ge> pos)
           in if i = length rs then (added, rs @ [\<lparr>ext_off = pos, ext_end = fin\<rparr>])
              else if fin < ext_off (rs ! i) then (added, take i rs @ \<lparr>ext_off = pos, ext_end = fin\<rparr> # drop i rs)
              else let e = rs ! i;
                       e1 = (if pos < ext_off e then e\<lparr>ext_off := pos\<rparr> else e);
                       e2 = (if fin > ext_end e1 then e1\<lparr>ext_end := fin\<rparr> else e1)
                   in (added, take i rs @ merge_following e2 (drop (i + 1) rs)))"

fun remove_loop :: "int \<Rightarrow> int \<Rightarrow> extent list \<Rightarrow> extent list" where
  "remove_loop pos fin [] = []"
| "remove_loop pos fin (e # es) =
     (if \<not> ext_off e < fin then e # es
      else if ext_off e \<ge> pos \<and> ext_end e \<le> fin then remove_loop pos fin es
      else if ext_off e < pos \<and> ext_end e > fin
      then e\<lparr>ext_end := pos\<rparr> # \<lparr>ext_off = fin, ext_end = ext_end e\<rparr> # es
      else if ext_off e < pos then e\<lparr>ext_end := pos\<rparr> # remove_loop pos fin es
      else if ext_end e > fin then e\<lparr>ext_off := fin\<rparr> # remove_loop pos fin es
      else e # remove_loop pos fin es)"

definition remove_extent :: "rangeSet \<Rightarrow> int \<Rightarrow> int \<Rightarrow> int \<times> rangeSet" where
  "remove_extent rs pos len =
     (if len \<le> 0 then (0, rs)
      else let fin = i64 (pos + len);
               removed = coverage rs pos fin;
               i = sort_Search (length rs) (\<lambda>i. ext_end (rs ! i) > pos)
           in if i = length rs then (removed, rs)
              else (removed, take i rs @ remove_loop pos fin (drop i rs)))"

definition present :: "rangeSet \<Rightarrow> int \<Rightarrow> int \<Rightarrow> bool" where
  "present rs pos len =
     (if len \<le> 0 then True
      else let fin = i64 (pos + len);
               i = sort_Search (length rs) (\<lambda>i. ext_end (rs ! i) > pos)
           in i < length rs \<and> ext_off (rs ! i) \<le> pos \<and> ext_end (rs ! i) \<ge> fin)"

definition anyPresent :: "rangeSet \<Rightarrow> int \<Rightarrow> int \<Rightarrow> bool" where
  "anyPresent rs pos len =
     (if len \<le> 0 then False
      else let fin = i64 (pos + len);
               i = sort_Search (length rs) (\<lambda>i. ext_end (rs ! i) > pos)
           in i < length rs \<and> ext_off (rs ! i) < fin)"

text \<open>The result's ranges as offset and size.\<close>

fun present_loop :: "int \<Rightarrow> int \<Rightarrow> extent list \<Rightarrow> (int \<times> int) list" where
  "present_loop pos fin [] = []"
| "present_loop pos fin (e # es) =
     (if ext_off e < fin then
        let lo = max (ext_off e) pos; hi = min (ext_end e) fin
        in (if hi > lo then [(lo, i64 (hi - lo))] else []) @ present_loop pos fin es
      else [])"

definition presentRanges :: "rangeSet \<Rightarrow> int \<Rightarrow> int \<Rightarrow> (int \<times> int) list" where
  "presentRanges rs pos len =
     (if len \<le> 0 then []
      else let fin = i64 (pos + len)
           in present_loop pos fin (drop (sort_Search (length rs) (\<lambda>i. ext_end (rs ! i) > pos)) rs))"

definition totalSize :: "rangeSet \<Rightarrow> int" where
  "totalSize rs = fold (\<lambda>e tot. i64 (tot + i64 (ext_end e - ext_off e))) rs 0"

section \<open>The covered bytes\<close>

definition segs :: "rangeSet \<Rightarrow> seg list" where
  "segs rs = map (\<lambda>e. (ext_off e, ext_end e)) rs"

definition extents_ok :: "rangeSet \<Rightarrow> bool" where
  "extents_ok rs \<longleftrightarrow> gapped (segs rs) \<and> bounded_segs (segs rs)"

definition extent_bytes :: "rangeSet \<Rightarrow> int set" where
  "extent_bytes rs = cover (segs rs)"

lemma segs_simps [simp]:
  "segs [] = []" "segs (e # es) = (ext_off e, ext_end e) # segs es" "segs (es @ fs) = segs es @ segs fs"
  by (simp_all add: segs_def)

lemma set_segs: "set (segs rs) = (\<lambda>e. (ext_off e, ext_end e)) ` set rs"
  by (simp add: segs_def)

lemma segs_nth: "i < length rs \<Longrightarrow> segs rs ! i = (ext_off (rs ! i), ext_end (rs ! i))"
  by (simp add: segs_def)

lemma extent_split:
  assumes ok: "extents_ok rs" and mono: "\<And>x y. x \<le> y \<Longrightarrow> P x \<Longrightarrow> P y"
  obtains ys zs where "rs = ys @ zs" "sort_Search (length rs) (\<lambda>i. P (ext_end (rs ! i))) = length ys"
    "\<forall>e \<in> set ys. \<not> P (ext_end e)" "\<forall>e \<in> set zs. P (ext_end e)" "gapped (segs ys)" "gapped (segs zs)"
    "\<forall>y \<in> set ys. \<forall>z \<in> set zs. ext_end y < ext_off z" "bounded_segs (segs ys)" "bounded_segs (segs zs)"
proof -
  have g: "gapped (segs rs)" "bounded_segs (segs rs)" using ok by (simp_all add: extents_ok_def)
  have "P (ext_end (rs ! j))" if "i \<le> j" "j < length rs" "P (ext_end (rs ! i))" for i j
    using gapped_fst_mono [OF g(1) that(1)] that mono by (simp add: segs_nth) (metis segs_def length_map snd_conv)
  then obtain ys zs where yz: "rs = ys @ zs" "sort_Search (length rs) (\<lambda>i. P (ext_end (rs ! i))) = length ys"
    "\<forall>e \<in> set ys. \<not> P (ext_end e)" "\<forall>e \<in> set zs. P (ext_end e)"
    using sort_Search_split [of rs "\<lambda>e. P (ext_end e)"] by metis
  then show thesis using g that [of ys zs] by (auto simp: gapped_append set_segs)
qed

lemma cover_below: "\<forall>e \<in> set es. ext_end e \<le> lo \<Longrightarrow> cover (segs es) \<inter> {lo..<hi} = {}"
  by (induction es) auto

lemma cover_above: "\<forall>e \<in> set es. hi \<le> ext_off e \<Longrightarrow> cover (segs es) \<inter> {lo..<hi} = {}"
  by (induction es) auto

lemma gapped_tail_above: "gapped (segs (e # es)) \<Longrightarrow> f \<in> set es \<Longrightarrow> ext_end e < ext_off f"
  by (auto simp: set_segs)

lemma finite_cover [simp]: "finite (cover ss)"
  by (induction ss) auto

text \<open>The count of covered bytes in a window splits at every extent.\<close>

lemma card_window_Cons:
  assumes "gapped (segs (e # es))"
  shows "int (card (cover (segs (e # es)) \<inter> {lo..<hi})) =
    max 0 (min (ext_end e) hi - max (ext_off e) lo) + int (card (cover (segs es) \<inter> {lo..<hi}))"
proof -
  have "cover (segs (e # es)) \<inter> {lo..<hi} = {max (ext_off e) lo..<min (ext_end e) hi} \<union> cover (segs es) \<inter> {lo..<hi}"
    by auto
  moreover have "x \<notin> cover (segs es)" if "x < ext_end e" for x
    using that gapped_tail_above [OF assms] by (force simp: cover_def set_segs)
  then have "{max (ext_off e) lo..<min (ext_end e) hi} \<inter> (cover (segs es) \<inter> {lo..<hi}) = {}" by auto
  ultimately have "card (cover (segs (e # es)) \<inter> {lo..<hi}) =
      card {max (ext_off e) lo..<min (ext_end e) hi} + card (cover (segs es) \<inter> {lo..<hi})"
    by (simp add: card_Un_disjoint)
  moreover have "int (card {a..<b}) = max 0 (b - a)" for a b :: int by (simp add: max_def)
  ultimately show ?thesis by (simp only: of_nat_add)
qed

lemma coverage_loop_card:
  assumes "gapped (segs es)" "bounded_segs (segs es)" "0 \<le> c"
    "c + int (card (cover (segs es) \<inter> {lo..<hi})) \<le> max_i64"
  shows "coverage_loop lo hi es c = c + int (card (cover (segs es) \<inter> {lo..<hi}))"
  using assms
proof (induction es arbitrary: c)
  case (Cons e es)
  note card = card_window_Cons [OF Cons.prems(1), of lo hi]
  show ?case
  proof (cases "ext_off e < hi")
    case True
    define d where "d = min (ext_end e) hi - max (ext_off e) lo"
    have b: "c + max 0 d + int (card (cover (segs es) \<inter> {lo..<hi})) \<le> max_i64"
      using Cons.prems(4) card by (simp add: d_def)
    then have i: "i64 (c + i64 d) = c + d" if "0 < d" using that Cons.prems(3) by (simp add: i64_id)
    have "coverage_loop lo hi (e # es) c = coverage_loop lo hi es (c + max 0 d)"
    proof -
      have "coverage_loop lo hi (e # es) c = coverage_loop lo hi es (if 0 < d then i64 (c + i64 d) else c)"
        using True by (simp only: coverage_loop.simps Let_def d_def if_True diff_gt_0_iff_gt)
      then show ?thesis using i by (cases "0 < d") simp_all
    qed
    also have "\<dots> = c + max 0 d + int (card (cover (segs es) \<inter> {lo..<hi}))"
      using Cons.prems b by (intro Cons.IH) auto
    finally show ?thesis using card by (simp add: d_def)
  next
    case False
    have "\<forall>f \<in> set (e # es). hi \<le> ext_off f" using False gapped_tail_above [OF Cons.prems(1)] Cons.prems(1) by fastforce
    then have "cover (segs (e # es)) \<inter> {lo..<hi} = {}" by (rule cover_above)
    then show ?thesis using False by simp
  qed
qed simp

lemma card_window_le: "int (card (cover ss \<inter> {lo..<hi})) \<le> max 0 (hi - lo)"
proof -
  have "card (cover ss \<inter> {lo..<hi}) \<le> card {lo..<hi}" by (intro card_mono) auto
  then show ?thesis by simp
qed

lemma coverage_card:
  assumes ok: "extents_ok rs" and r: "0 \<le> lo" "hi \<le> max_i64"
  shows "coverage rs lo hi = int (card (extent_bytes rs \<inter> {lo..<hi}))"
proof (cases "hi \<le> lo")
  case False
  obtain ys zs where yz: "rs = ys @ zs" "sort_Search (length rs) (\<lambda>i. lo < ext_end (rs ! i)) = length ys"
    "\<forall>e \<in> set ys. \<not> lo < ext_end e" "gapped (segs zs)" "bounded_segs (segs zs)"
    by (rule extent_split [OF ok, of "\<lambda>x. lo < x"]) auto
  have "cover (segs ys) \<inter> {lo..<hi} = {}" using yz(3) by (intro cover_below) auto
  then have e: "extent_bytes rs \<inter> {lo..<hi} = cover (segs zs) \<inter> {lo..<hi}" by (auto simp: extent_bytes_def yz(1))
  have "int (card (cover (segs zs) \<inter> {lo..<hi})) \<le> max_i64" using card_window_le [of "segs zs" lo hi] r by simp
  then have "coverage_loop lo hi zs 0 = int (card (cover (segs zs) \<inter> {lo..<hi}))"
    using coverage_loop_card [OF yz(4,5), of 0 lo hi] by simp
  moreover have "coverage rs lo hi = coverage_loop lo hi zs 0"
    unfolding coverage_def yz(2) using False by (simp add: yz(1))
  ultimately show ?thesis by (simp add: e)
qed (simp add: coverage_def)

section \<open>Insertion and removal\<close>

lemma merge_following_absorb:
  "ext_off e < ext_end e \<Longrightarrow> segs (merge_following e es) = (case absorb (ext_off e, ext_end e) (segs es) of (s, rest) \<Rightarrow> s # rest)"
proof (induction e es rule: merge_following.induct)
  case (2 e f fs)
  show ?case
    using 2 by (cases "ext_end f > ext_end e") (auto simp: max_def)
qed simp

lemma insert_extent_spec:
  assumes ok: "extents_ok rs" and r: "valid_range pos len"
  shows "extents_ok (snd (insert_extent rs pos len)) \<and>
    extent_bytes (snd (insert_extent rs pos len)) = extent_bytes rs \<union> {pos..<pos + len}"
proof (cases "len \<le> 0")
  case False
  define fin where "fin = pos + len"
  have fin: "i64 (pos + len) = fin" "pos < fin" "fin \<le> max_i64" using r False by (simp_all add: fin_def i64_id)
  obtain ys zs where yz: "rs = ys @ zs" "sort_Search (length rs) (\<lambda>i. pos \<le> ext_end (rs ! i)) = length ys"
    "\<forall>e \<in> set ys. \<not> pos \<le> ext_end e" "\<forall>e \<in> set zs. pos \<le> ext_end e"
    by (rule extent_split [OF ok, of "\<lambda>x. pos \<le> x"]) auto
  have g: "gapped (segs ys @ segs zs)" "bounded_segs (segs ys)" "bounded_segs (segs zs)"
    using ok by (simp_all add: extents_ok_def yz(1))
  have before: "\<forall>s \<in> set (segs ys). snd s < pos" using yz(3) by (auto simp: set_segs)
  have finish: "extents_ok out \<and> extent_bytes out = extent_bytes rs \<union> {pos..<pos + len}"
    if o: "segs out = segs ys @ s # rest" "absorb (lo, hi) ss = (s, rest)" "gapped (segs ys @ ss)" "lo < hi"
      "\<forall>t \<in> set ss. lo \<le> fst t" "\<forall>s \<in> set (segs ys). snd s < lo" "bounded_segs ss" "0 \<le> lo" "hi \<le> max_i64"
      "{lo..<hi} \<union> cover ss = cover (segs zs) \<union> {pos..<fin}" for out s rest lo hi ss
  proof -
    note ab = absorb_insert [OF o(3) o(6) o(4) o(5) o(2)]
    have "cover (segs out) = cover (segs ys) \<union> (cover ss \<union> {lo..<hi})" unfolding o(1) ab(2) by auto
    then have "extent_bytes out = extent_bytes rs \<union> {pos..<pos + len}"
      using o(10) by (auto simp: extent_bytes_def yz(1) fin_def)
    then show ?thesis using ab(1) absorb_bounded [OF o(2) o(7-9)] g(2) by (simp add: extents_ok_def o(1))
  qed
  let ?new = "\<lparr>ext_off = pos, ext_end = fin\<rparr>"
  show ?thesis
  proof (cases zs)
    case Nil
    then have "snd (insert_extent rs pos len) = ys @ [?new]"
      using False yz(2) by (simp add: insert_extent_def Let_def fin(1) yz(1))
    then show ?thesis using finish [of _ "(pos, fin)" "[]" pos fin "[]"] Nil g(1) before r fin by simp
  next
    case (Cons z zs')
    have i: "rs ! length ys = z" "length ys \<noteq> length rs" "drop (length ys + 1) rs = zs'" "take (length ys) rs = ys" "drop (length ys) rs = zs"
      using Cons by (simp_all add: yz(1))
    show ?thesis
    proof (cases "fin < ext_off z")
      case True
      have out: "snd (insert_extent rs pos len) = ys @ ?new # zs"
        using False True i unfolding insert_extent_def Let_def fin(1) yz(2) by simp
      have "\<forall>t \<in> set (segs zs). fin < fst t" using True g(1) by (auto simp: gapped_append Cons)
      then have ab: "absorb (pos, fin) (segs zs) = ((pos, fin), segs zs)" "\<forall>t \<in> set (segs zs). pos \<le> fst t"
        using fin(2) by (cases "segs zs"; auto)+
      show ?thesis
        unfolding out using ab g before r fin(2,3)
        by (intro finish [of _ "(pos, fin)" "segs zs" pos fin "segs zs"]) (simp_all add: Un_commute)
    next
      case False2: False
      define e2 where "e2 = \<lparr>ext_off = min pos (ext_off z), ext_end = max fin (ext_end z)\<rparr>"
      have e2: "(let e1 = if pos < ext_off z then z\<lparr>ext_off := pos\<rparr> else z
          in if fin > ext_end e1 then e1\<lparr>ext_end := fin\<rparr> else e1) = e2"
        by (simp add: e2_def min_def max_def Let_def)
      have out: "snd (insert_extent rs pos len) = ys @ merge_following e2 zs'"
        using False False2 i unfolding insert_extent_def Let_def fin(1) yz(2) by (simp add: e2 [symmetric])
      obtain s rest where ab: "absorb (min pos (ext_off z), max fin (ext_end z)) (segs zs') = (s, rest)" by fastforce
      have z: "ext_off z < ext_end z" "pos \<le> ext_end z" "\<forall>t \<in> set (segs zs'). ext_end z < fst t" "ext_end z \<le> max_i64" "0 \<le> ext_off z"
        using g yz(4) by (auto simp: gapped_append Cons)
      have "segs (ys @ merge_following e2 zs') = segs ys @ s # rest"
        using ab z fin(2) by (simp add: merge_following_absorb e2_def)
      moreover have "{min pos (ext_off z)..<max fin (ext_end z)} \<union> cover (segs zs') = cover (segs zs) \<union> {pos..<fin}"
        using z fin(2) False2 by (auto simp: Cons)
      moreover have "\<forall>s \<in> set (segs ys). snd s < min pos (ext_off z)" using before g(1) by (auto simp: gapped_append Cons)
      ultimately show ?thesis
        unfolding out using ab z g r fin
        by (intro finish [of _ s rest "min pos (ext_off z)" "max fin (ext_end z)" "segs zs'"]) (auto simp: gapped_append Cons)
    qed
  qed
qed (use assms in \<open>simp add: insert_extent_def\<close>)

lemma remove_loop_spec:
  assumes "gapped (segs es)" "bounded_segs (segs es)" "pos < fin" "0 \<le> pos" "fin \<le> max_i64" "\<forall>e \<in> set es. pos < ext_end e"
  shows "gapped (segs (remove_loop pos fin es)) \<and> bounded_segs (segs (remove_loop pos fin es)) \<and>
    cover (segs (remove_loop pos fin es)) = cover (segs es) - {pos..<fin} \<and>
    (\<forall>x. (\<forall>e \<in> set es. x < ext_off e) \<longrightarrow> (\<forall>e \<in> set (remove_loop pos fin es). x < ext_off e))"
  using assms
proof (induction es)
  case (Cons e es)
  have g: "gapped (segs es)" "ext_off e < ext_end e" "\<And>f. f \<in> set es \<Longrightarrow> ext_end e < ext_off f" "\<forall>e \<in> set es. pos < ext_end e"
    using Cons.prems gapped_tail_above by auto
  note ih = Cons.IH [OF g(1) _ Cons.prems(3-5) g(4)]
  have later: "ext_end e < ext_off f" if "f \<in> set (remove_loop pos fin es)" for f
    using ih Cons.prems(2) g(3) that by auto
  have above: "cover (segs es) \<inter> {pos..<fin} = {}" if "fin \<le> ext_end e"
    using that g(3) by (intro cover_above) force
  show ?case
  proof (cases "ext_off e < fin")
    case False
    then have "\<forall>f \<in> set (e # es). fin \<le> ext_off f" using g(2,3) by force
    then have "cover (segs (e # es)) \<inter> {pos..<fin} = {}" by (rule cover_above)
    then show ?thesis using False Cons.prems by (simp add: Diff_triv)
  next
    case True
    show ?thesis
    proof (cases "ext_end e \<le> fin")
      case le: True
      have sp: "gapped (segs (remove_loop pos fin es))" "bounded_segs (segs (remove_loop pos fin es))"
        "cover (segs (remove_loop pos fin es)) = cover (segs es) - {pos..<fin}"
        "\<And>x. \<forall>e \<in> set es. x < ext_off e \<Longrightarrow> \<forall>e \<in> set (remove_loop pos fin es). x < ext_off e"
        using ih Cons.prems(2) by simp_all
      show ?thesis
      proof (cases "pos \<le> ext_off e")
        case ge: True
        then have "cover (segs (remove_loop pos fin (e # es))) = cover (segs (e # es)) - {pos..<fin}"
          using True le sp(3) by auto
        then show ?thesis using True le ge sp(1,2,4) by simp
      next
        case lt: False
        have "{ext_off e..<ext_end e} - {pos..<fin} = {ext_off e..<pos}" using lt le Cons.prems(6) by auto
        then have c: "cover (segs (remove_loop pos fin (e # es))) = cover (segs (e # es)) - {pos..<fin}"
          using True le lt sp(3) by (simp add: Un_Diff)
        have "\<forall>t \<in> set (segs (remove_loop pos fin es)). pos < fst t"
          using later Cons.prems(6) by (fastforce simp: set_segs)
        then show ?thesis using True le lt sp(1,2,4) Cons.prems c by auto
      qed
    next
      case gt: False
      have tail: "remove_loop pos fin es = es" using gt g(3) by (cases es) force+
      have diff: "cover (segs es) - {pos..<fin} = cover (segs es)" using above gt by (simp add: Diff_triv)
      have f: "\<forall>t \<in> set (segs es). ext_end e < fst t" using g(3) by (auto simp: set_segs)
      show ?thesis
      proof (cases "ext_off e < pos")
        case lt: True
        have "{ext_off e..<pos} \<union> {fin..<ext_end e} = {ext_off e..<ext_end e} - {pos..<fin}"
          using lt gt Cons.prems(3) by auto
        then have "cover (segs (remove_loop pos fin (e # es))) = cover (segs (e # es)) - {pos..<fin}"
          using True gt lt diff by (simp add: Un_Diff Un_assoc [symmetric])
        then show ?thesis using True gt lt f g(1) Cons.prems by fastforce
      next
        case ge: False
        have "{fin..<ext_end e} = {ext_off e..<ext_end e} - {pos..<fin}" using ge gt True by auto
        then have "cover (segs (remove_loop pos fin (e # es))) = cover (segs (e # es)) - {pos..<fin}"
          using True gt ge diff tail by (simp add: Un_Diff)
        then show ?thesis using True gt ge f g(1) Cons.prems tail by auto
      qed
    qed
  qed
qed simp

lemma remove_extent_spec:
  assumes ok: "extents_ok rs" and r: "valid_range pos len"
  shows "extents_ok (snd (remove_extent rs pos len)) \<and>
    extent_bytes (snd (remove_extent rs pos len)) = extent_bytes rs - {pos..<pos + len}"
proof (cases "len \<le> 0")
  case False
  define fin where "fin = pos + len"
  have fin: "i64 (pos + len) = fin" "pos < fin" "fin \<le> max_i64" using r False by (simp_all add: fin_def i64_id)
  obtain ys zs where yz: "rs = ys @ zs" "sort_Search (length rs) (\<lambda>i. pos < ext_end (rs ! i)) = length ys"
    "\<forall>e \<in> set ys. \<not> pos < ext_end e" "\<forall>e \<in> set zs. pos < ext_end e" "gapped (segs ys)" "gapped (segs zs)"
    "\<forall>y \<in> set ys. \<forall>z \<in> set zs. ext_end y < ext_off z" "bounded_segs (segs ys)" "bounded_segs (segs zs)"
    by (rule extent_split [OF ok, of "\<lambda>x. pos < x"]) auto
  have "snd (remove_extent rs pos len) = ys @ remove_loop pos fin zs"
    using False unfolding remove_extent_def Let_def fin(1) yz(2) by (simp add: yz(1))
  moreover note sp = remove_loop_spec [OF yz(6,9) fin(2) _ fin(3) yz(4)]
  moreover have "cover (segs ys) \<inter> {pos..<fin} = {}" using yz(3) by (intro cover_below) auto
  moreover have "\<forall>y \<in> set ys. \<forall>z \<in> set (remove_loop pos fin zs). ext_end y < ext_off z" using sp yz(7) r by auto
  ultimately show ?thesis
    using yz r by (auto simp: extents_ok_def extent_bytes_def gapped_append set_segs fin_def)
qed (use assms in \<open>simp add: remove_extent_def\<close>)

section \<open>Queries\<close>

lemma search_window:
  assumes ok: "extents_ok rs" and r: "valid_range pos len" and l: "0 < len"
  obtains (none) ys where "rs = ys" "sort_Search (length rs) (\<lambda>i. pos < ext_end (rs ! i)) = length rs"
      "extent_bytes rs \<inter> {pos..<pos + len} = {}" "pos \<notin> extent_bytes rs"
  | (some) ys z zs where "rs = ys @ z # zs" "sort_Search (length rs) (\<lambda>i. pos < ext_end (rs ! i)) = length ys"
      "pos < ext_end z" "ext_off z < ext_end z" "cover (segs ys) \<inter> {pos..<pos + len} = {}" "\<forall>x \<in> cover (segs zs). ext_end z < x"
      "gapped (segs (z # zs))" "bounded_segs (segs (z # zs))" "pos \<notin> cover (segs ys)"
proof -
  obtain ys zs where yz: "rs = ys @ zs" "sort_Search (length rs) (\<lambda>i. pos < ext_end (rs ! i)) = length ys"
    "\<forall>e \<in> set ys. \<not> pos < ext_end e" "\<forall>e \<in> set zs. pos < ext_end e" "gapped (segs zs)" "bounded_segs (segs zs)"
    by (rule extent_split [OF ok, of "\<lambda>x. pos < x"]) auto
  have b: "cover (segs ys) \<inter> {pos..<pos + len} = {}" using yz(3) by (intro cover_below) auto
  then have p: "pos \<notin> cover (segs ys)" using l by auto
  show thesis
  proof (cases zs)
    case Nil
    then show thesis using none yz b p by (simp add: extent_bytes_def)
  next
    case (Cons z zs')
    have "\<forall>x \<in> cover (segs zs'). ext_end z < x"
      using yz(5) by (force simp: Cons cover_def set_segs)
    then show thesis using some [of ys z zs'] yz b p by (simp add: Cons)
  qed
qed

lemma present_iff:
  assumes ok: "extents_ok rs" and r: "valid_range pos len"
  shows "present rs pos len \<longleftrightarrow> {pos..<pos + len} \<subseteq> extent_bytes rs"
proof (cases "0 < len")
  case True
  have fin: "i64 (pos + len) = pos + len" using r by (intro i64_id) auto
  show ?thesis
  proof (cases rule: search_window [OF ok r True])
    case (1 ys)
    have "pos \<in> {pos..<pos + len}" using True by simp
    then have "\<not> {pos..<pos + len} \<subseteq> extent_bytes rs" using 1(4) by blast
    then show ?thesis using True 1(2) unfolding present_def Let_def fin by simp
  next
    case (2 ys z zs)
    have p: "present rs pos len \<longleftrightarrow> ext_off z \<le> pos \<and> pos + len \<le> ext_end z"
      using True unfolding present_def Let_def fin 2(2) by (simp add: 2(1))
    have sub: "{pos..<pos + len} \<subseteq> extent_bytes rs \<longleftrightarrow> {pos..<pos + len} \<subseteq> {ext_off z..<ext_end z} \<union> cover (segs zs)"
      using 2(5) by (auto simp: extent_bytes_def 2(1))
    have "ext_off z \<le> pos \<and> pos + len \<le> ext_end z" if s: "{pos..<pos + len} \<subseteq> {ext_off z..<ext_end z} \<union> cover (segs zs)"
    proof -
      have "pos \<in> {pos..<pos + len}" using True by simp
      from subsetD [OF s this] have "pos \<in> {ext_off z..<ext_end z} \<union> cover (segs zs)" .
      then have "ext_off z \<le> pos" using 2(3,6) by auto
      moreover have "pos + len \<le> ext_end z"
      proof (rule ccontr)
        assume "\<not> pos + len \<le> ext_end z"
        then have "ext_end z \<in> {pos..<pos + len}" using 2(3) by simp
        from subsetD [OF s this] have "ext_end z \<in> {ext_off z..<ext_end z} \<union> cover (segs zs)" .
        then show False using 2(6) by auto
      qed
      ultimately show ?thesis by simp
    qed
    then show ?thesis unfolding p sub by auto
  qed
qed (use r in \<open>auto simp: present_def\<close>)

lemma anyPresent_iff:
  assumes ok: "extents_ok rs" and r: "valid_range pos len"
  shows "anyPresent rs pos len \<longleftrightarrow> extent_bytes rs \<inter> {pos..<pos + len} \<noteq> {}"
proof (cases "0 < len")
  case True
  have fin: "i64 (pos + len) = pos + len" using r by (intro i64_id) auto
  show ?thesis
  proof (cases rule: search_window [OF ok r True])
    case (1 ys)
    then show ?thesis using True unfolding anyPresent_def Let_def fin by simp
  next
    case (2 ys z zs)
    have p: "anyPresent rs pos len \<longleftrightarrow> ext_off z < pos + len"
      using True unfolding anyPresent_def Let_def fin 2(2) by (simp add: 2(1))
    have c: "extent_bytes rs \<inter> {pos..<pos + len} = ({ext_off z..<ext_end z} \<union> cover (segs zs)) \<inter> {pos..<pos + len}"
      using 2(5) by (auto simp: extent_bytes_def 2(1))
    have "max (ext_off z) pos \<in> extent_bytes rs \<inter> {pos..<pos + len}" if "ext_off z < pos + len"
      using that 2(3,4) True unfolding c by auto
    moreover have "ext_off z < pos + len" if "x \<in> extent_bytes rs \<inter> {pos..<pos + len}" for x
      using that 2(4,6) unfolding c by fastforce
    ultimately show ?thesis unfolding p by blast
  qed
qed (use r in \<open>auto simp: anyPresent_def\<close>)

lemma present_loop_cover:
  assumes "gapped (segs es)" "bounded_segs (segs es)" "0 \<le> pos" "fin \<le> max_i64"
  shows "cover (map (\<lambda>(lo, size). (lo, lo + size)) (present_loop pos fin es)) = cover (segs es) \<inter> {pos..<fin}"
  using assms(1,2)
proof (induction es)
  case (Cons e es)
  show ?case
  proof (cases "ext_off e < fin")
    case True
    have i: "i64 (min (ext_end e) fin - max (ext_off e) pos) = min (ext_end e) fin - max (ext_off e) pos"
      if "max (ext_off e) pos < min (ext_end e) fin"
      using that Cons.prems(2) assms(3,4) by (intro i64_id) auto
    have "{ext_off e..<ext_end e} \<inter> {pos..<fin} = {max (ext_off e) pos..<min (ext_end e) fin}" by auto
    then show ?thesis using True i Cons by (auto simp: Let_def Int_Un_distrib2)
  next
    case False
    have "\<forall>f \<in> set (e # es). fin \<le> ext_off f" using False gapped_tail_above [OF Cons.prems(1)] Cons.prems(1) by fastforce
    from cover_above [OF this, of pos] show ?thesis using False by simp
  qed
qed simp

lemma presentRanges_cover:
  assumes ok: "extents_ok rs" and r: "valid_range pos len"
  shows "cover (map (\<lambda>(lo, size). (lo, lo + size)) (presentRanges rs pos len)) = extent_bytes rs \<inter> {pos..<pos + len}"
proof (cases "0 < len")
  case True
  have fin: "i64 (pos + len) = pos + len" using r by (intro i64_id) auto
  obtain ys zs where yz: "rs = ys @ zs" "sort_Search (length rs) (\<lambda>i. pos < ext_end (rs ! i)) = length ys"
    "\<forall>e \<in> set ys. \<not> pos < ext_end e" "gapped (segs zs)" "bounded_segs (segs zs)"
    by (rule extent_split [OF ok, of "\<lambda>x. pos < x"]) auto
  have "cover (segs ys) \<inter> {pos..<pos + len} = {}" using yz(3) by (intro cover_below) auto
  moreover have "presentRanges rs pos len = present_loop pos (pos + len) zs"
    using True unfolding presentRanges_def Let_def fin yz(2) by (simp add: yz(1))
  ultimately show ?thesis
    using present_loop_cover [OF yz(4,5), of pos "pos + len"] r by (auto simp: extent_bytes_def yz(1))
qed (use r in \<open>auto simp: presentRanges_def\<close>)

lemma totalSize_fold:
  assumes "gapped (segs es)" "bounded_segs (segs es)" "0 \<le> tot" "tot + int (card (cover (segs es))) \<le> max_i64"
  shows "fold (\<lambda>e tot. i64 (tot + i64 (ext_end e - ext_off e))) es tot = tot + int (card (cover (segs es)))"
  using assms
proof (induction es arbitrary: tot)
  case (Cons e es)
  have all: "cover (segs fs) \<inter> {0..<max_i64} = cover (segs fs)" if "bounded_segs (segs fs)" for fs
    using cover_bounded [OF that] by auto
  have c: "int (card (cover (segs (e # es)))) = ext_end e - ext_off e + int (card (cover (segs es)))"
    using card_window_Cons [OF Cons.prems(1), of 0 max_i64] all [of "e # es"] all [of es] Cons.prems(1,2)
    by (simp add: min_def max_def split: if_splits)
  have "i64 (tot + i64 (ext_end e - ext_off e)) = tot + (ext_end e - ext_off e)"
    using Cons.prems c by (simp add: i64_id)
  then show ?case using Cons.IH [of "tot + (ext_end e - ext_off e)"] Cons.prems c by simp
qed simp

lemma card_bytes_le: "extents_ok rs \<Longrightarrow> int (card (extent_bytes rs)) \<le> max_i64"
proof -
  assume "extents_ok rs"
  then have "extent_bytes rs \<subseteq> {0..<max_i64}"
    using cover_bounded by (auto simp: extents_ok_def extent_bytes_def)
  then have "card (extent_bytes rs) \<le> card {0..<max_i64}" by (intro card_mono) auto
  then show ?thesis by simp
qed

lemma totalSize_card: "extents_ok rs \<Longrightarrow> totalSize rs = int (card (extent_bytes rs))"
  using totalSize_fold [of rs 0] card_bytes_le by (simp add: totalSize_def extents_ok_def extent_bytes_def)

interpretation extent_set: byte_set newRangeSet extents_ok extent_bytes
  "\<lambda>rs pos len. snd (insert_extent rs pos len)" "\<lambda>rs pos len. snd (remove_extent rs pos len)" present
  by unfold_locales
    (auto simp: newRangeSet_def extents_ok_def extent_bytes_def insert_extent_spec [unfolded extents_ok_def extent_bytes_def]
      remove_extent_spec [unfolded extents_ok_def extent_bytes_def] present_iff [unfolded extents_ok_def extent_bytes_def])

section \<open>Properties\<close>

text \<open>The byte counts are exact: inserting reports how many bytes became present, removing how many
  ceased to be, so the buffer's running total of its footprint, kept by adding and subtracting these
  numbers, always equals the number of present bytes that \<^verbatim>\<open>totalSize\<close> would recount.\<close>

lemma extent_counts:
  assumes "extents_ok rs" "valid_range pos len"
  shows "totalSize (snd (insert_extent rs pos len)) = totalSize rs + fst (insert_extent rs pos len) \<and>
    totalSize (snd (remove_extent rs pos len)) = totalSize rs - fst (remove_extent rs pos len) \<and>
    totalSize rs = int (card (extent_bytes rs))"
proof -
  let ?w = "{pos..<pos + len}" and ?b = "extent_bytes rs"
  have f: "finite ?b" by (simp add: extent_bytes_def)
  note i = insert_extent_spec [OF assms] and r = remove_extent_spec [OF assms]
  have c: "coverage rs pos (pos + len) = int (card (?b \<inter> ?w))" using assms by (intro coverage_card) auto
  have fin: "i64 (pos + len) = pos + len" using assms(2) by (intro i64_id) auto
  have le: "int (card (?b \<inter> ?w)) \<le> len" using card_window_le [of "segs rs" pos "pos + len"] assms(2) by (simp add: extent_bytes_def)
  have "i64 (len - int (card (?b \<inter> ?w))) = len - int (card (?b \<inter> ?w))" using le assms(2) by (intro i64_id) auto
  then have fi: "fst (insert_extent rs pos len) = (if len \<le> 0 then 0 else len - int (card (?b \<inter> ?w)))"
    by (simp add: insert_extent_def Let_def fin c)
  have fr: "fst (remove_extent rs pos len) = (if len \<le> 0 then 0 else int (card (?b \<inter> ?w)))"
    by (simp add: remove_extent_def Let_def fin c)
  have "card (?b \<union> ?w) + card (?b \<inter> ?w) = card ?b + card ?w" using f by (intro card_Un_Int [symmetric]) auto
  moreover have "card (?b - ?w) = card ?b - card (?b \<inter> ?w)" "card (?b \<inter> ?w) \<le> card ?b"
    using f by (simp_all add: card_Diff_subset_Int card_mono)
  moreover have "int (card ?w) = len" using assms(2) by simp
  moreover have "?w = {}" if "len \<le> 0" using that by auto
  ultimately show ?thesis using totalSize_card i r assms(1) fi fr by auto
qed

text \<open>The queries agree with the set of present bytes: \<^verbatim>\<open>present\<close> is containment, \<^verbatim>\<open>anyPresent\<close> overlap,
  \<^verbatim>\<open>presentRanges\<close> lists exactly the present part of the window and \<^verbatim>\<open>coverage\<close> counts it.\<close>

lemma extent_queries:
  assumes "extents_ok rs" "valid_range pos len"
  shows "(present rs pos len \<longleftrightarrow> {pos..<pos + len} \<subseteq> extent_bytes rs) \<and>
    (anyPresent rs pos len \<longleftrightarrow> extent_bytes rs \<inter> {pos..<pos + len} \<noteq> {}) \<and>
    cover (map (\<lambda>(lo, size). (lo, lo + size)) (presentRanges rs pos len)) = extent_bytes rs \<inter> {pos..<pos + len} \<and>
    coverage rs pos (pos + len) = int (card (extent_bytes rs \<inter> {pos..<pos + len}))"
  using present_iff [OF assms] anyPresent_iff [OF assms] presentRanges_cover [OF assms] coverage_card [OF assms(1), of pos "pos + len"] assms(2)
  by simp

end
