(* ===== verification/Ranges.thy ===== *)
theory Ranges
  imports Intervals
begin

text \<open>
  The range set of the mounted file cache: \<^verbatim>\<open>src/pkg/mount/dfs/vfs/ranges/ranges.go\<close>. A sorted, coalesced slice
  of (position, size) ranges records which bytes of a cached file are on disk. Sums wrap at 64 bits.
  \<^verbatim>\<open>merge\<close> returns the updated destination, or \<^term>\<open>None\<close> when it reports false; \<^verbatim>\<open>FindAll\<close> and \<^verbatim>\<open>Intersection\<close> are
  loops that could run forever on ill-formed input, so they are partial functions and shown to return.
  The theory interprets \<open>byte_set\<close>.
\<close>

section \<open>Definitions\<close>

record Range =
  Pos :: int
  Size :: int

type_synonym Ranges = "Range list"

definition End :: "Range \<Rightarrow> int" where
  "End r = i64 (Pos r + Size r)"

definition IsEmpty :: "Range \<Rightarrow> bool" where
  "IsEmpty r \<longleftrightarrow> Size r \<le> 0"

definition Clip :: "Range \<Rightarrow> int \<Rightarrow> Range" where
  "Clip r offset =
     (if End r \<le> offset then r
      else let r1 = r\<lparr>Size := i64 (Size r - i64 (End r - offset))\<rparr>
           in if Size r1 < 0 then \<lparr>Pos = 0, Size = 0\<rparr> else r1)"

definition no_range :: Range where "no_range = \<lparr>Pos = 0, Size = 0\<rparr>"

definition Range_Intersection :: "Range \<Rightarrow> Range \<Rightarrow> Range" where
  "Range_Intersection r b =
     (if Pos r \<ge> Pos b \<and> Pos r < End b \<or> Pos b \<ge> Pos r \<and> Pos b < End r
      then let p = max (Pos r) (Pos b) in \<lparr>Pos = p, Size = i64 (min (End r) (End b) - p)\<rparr>
      else no_range)"

definition merge :: "Range \<Rightarrow> Range \<Rightarrow> Range option" where
  "merge new dst =
     (if End new < Pos dst then None
      else Some (if End new > End dst then \<lparr>Pos = Pos new, Size = Size new\<rparr>
                 else \<lparr>Pos = Pos new, Size = i64 (Size dst + i64 (Pos dst - Pos new))\<rparr>))"

function coalesce_loop :: "Range list \<Rightarrow> nat \<Rightarrow> nat \<Rightarrow> Range list \<times> nat" where
  "coalesce_loop ranges j endChop =
     (if j + 1 < length ranges then
        (case merge (ranges ! j) (ranges ! (j + 1)) of
           None \<Rightarrow> (ranges, endChop)
         | Some m \<Rightarrow> coalesce_loop (ranges[j + 1 := m]) (j + 1) (j + 1))
      else (ranges, endChop))"
  by pat_completeness auto
termination
  by (relation "measure (\<lambda>(ranges, j, endChop). length ranges - j)") auto

declare coalesce_loop.simps [simp del]

definition coalesce :: "Ranges \<Rightarrow> nat \<Rightarrow> Ranges" where
  "coalesce ranges i =
     (let (ranges1, startChop) =
            (if i > 0 then (case merge (ranges ! (i - 1)) (ranges ! i) of
                              None \<Rightarrow> (ranges, i)
                            | Some m \<Rightarrow> (ranges[i := m], i - 1))
             else (ranges, i));
          (ranges2, endChop) = coalesce_loop ranges1 i i
      in if endChop > startChop then take startChop ranges2 @ drop endChop ranges2 else ranges2)"

definition search :: "Ranges \<Rightarrow> Range \<Rightarrow> nat" where
  "search rs r = sort_Search (length rs) (\<lambda>i. Pos (rs ! i) \<ge> Pos r)"

definition Insert :: "Ranges \<Rightarrow> Range \<Rightarrow> Ranges" where
  "Insert rs r =
     (if IsEmpty r then rs
      else if rs = [] then [r]
      else let i = search rs r
           in case (if i = length rs then None else merge r (rs ! i)) of
                None \<Rightarrow> coalesce (take i rs @ r # drop i rs) i
              | Some m \<Rightarrow> coalesce (rs[i := m]) i)"

definition Find :: "Ranges \<Rightarrow> Range \<Rightarrow> Range \<times> Range \<times> bool" where
  "Find rs r =
     (if IsEmpty r then (r, no_range, False)
      else let i = search rs r;
               ip = (if i > 0 then Range_Intersection (rs ! (i - 1)) r else no_range)
           in if i > 0 \<and> \<not> IsEmpty ip
              then (ip, \<lparr>Pos = End ip, Size = i64 (Size r - Size ip)\<rparr>, True)
              else if i \<ge> length rs then (r, no_range, False)
              else let inter = Range_Intersection (rs ! i) r
                   in if IsEmpty inter then (r, no_range, False)
                      else if Pos r < Pos inter
                      then let cur = \<lparr>Pos = Pos r, Size = i64 (Pos inter - Pos r)\<rparr>
                           in (cur, \<lparr>Pos = End cur, Size = i64 (Size r - Size cur)\<rparr>, False)
                      else (inter, \<lparr>Pos = End inter, Size = i64 (Size r - Size inter)\<rparr>, True))"

partial_function (option) find_all_loop :: "Ranges \<Rightarrow> Range \<Rightarrow> (Range \<times> bool) list \<Rightarrow> (Range \<times> bool) list option" where
  "find_all_loop rs r frs =
     (if IsEmpty r then Some frs
      else find_all_loop rs (fst (snd (Find rs r))) (frs @ [(fst (Find rs r), snd (snd (Find rs r)))]))"

definition FindAll :: "Ranges \<Rightarrow> Range \<Rightarrow> (Range \<times> bool) list option" where
  "FindAll rs r = find_all_loop rs r []"

definition Present :: "Ranges \<Rightarrow> Range \<Rightarrow> bool" where
  "Present rs r =
     (if IsEmpty r then True
      else case Find rs r of (cur, next, p) \<Rightarrow> if \<not> p then False else if IsEmpty next then True else False)"

partial_function (option) intersection_loop :: "Ranges \<Rightarrow> Range \<Rightarrow> Ranges \<Rightarrow> Ranges option" where
  "intersection_loop rs r newRs =
     (if IsEmpty r then Some newRs
      else intersection_loop rs (fst (snd (Find rs r)))
             (if snd (snd (Find rs r)) then Insert newRs (fst (Find rs r)) else newRs))"

definition Ranges_Intersection :: "Ranges \<Rightarrow> Range \<Rightarrow> Ranges option" where
  "Ranges_Intersection rs r = (if rs = [] then Some rs else intersection_loop rs r [])"

definition Equal :: "Ranges \<Rightarrow> Ranges \<Rightarrow> bool" where
  "Equal rs bs = (if length rs \<noteq> length bs then False else list_all2 (=) rs bs)"

definition Ranges_Size :: "Ranges \<Rightarrow> int" where
  "Ranges_Size rs = fold (\<lambda>r size. i64 (size + Size r)) rs 0"

definition FindMissing :: "Ranges \<Rightarrow> Range \<Rightarrow> Range" where
  "FindMissing rs r =
     (if IsEmpty r then r
      else case Find rs r of (cur, next, p) \<Rightarrow>
             if \<not> p then r
             else \<lparr>Pos = End cur, Size = i64 (Size r - i64 (End cur - Pos r))\<rparr>)"

definition remove_seg :: "Range \<Rightarrow> Range \<Rightarrow> Range list" where
  "remove_seg r seg =
     (if End seg \<le> Pos r \<or> Pos seg \<ge> End r then [seg]
      else (if Pos seg < Pos r then [\<lparr>Pos = Pos seg, Size = i64 (Pos r - Pos seg)\<rparr>] else []) @
           (if End seg > End r then [\<lparr>Pos = End r, Size = i64 (End seg - End r)\<rparr>] else []))"

definition Remove :: "Ranges \<Rightarrow> Range \<Rightarrow> Ranges" where
  "Remove rs r = (if IsEmpty r \<or> rs = [] then rs else concat (map (remove_seg r) rs))"

definition Clear :: "Ranges \<Rightarrow> Ranges" where
  "Clear rs = take 0 rs"

section \<open>Positions and ends\<close>

definition seg_of :: "Range \<Rightarrow> seg" where
  "seg_of r = (Pos r, Pos r + Size r)"

abbreviation range_segs :: "Ranges \<Rightarrow> seg list" where
  "range_segs rs \<equiv> map seg_of rs"

definition ranges_ok :: "Ranges \<Rightarrow> bool" where
  "ranges_ok rs \<longleftrightarrow> gapped (range_segs rs) \<and> bounded_segs (range_segs rs)"

definition ranges_bytes :: "Ranges \<Rightarrow> int set" where
  "ranges_bytes rs = cover (range_segs rs)"

definition good_range :: "Range \<Rightarrow> bool" where
  "good_range r \<longleftrightarrow> 0 \<le> Pos r \<and> 0 < Size r \<and> Pos r + Size r \<le> max_i64"

lemma fst_seg_of [simp]: "fst (seg_of r) = Pos r" "snd (seg_of r) = Pos r + Size r"
  by (simp_all add: seg_of_def)

lemma End_good: "good_range r \<Longrightarrow> End r = Pos r + Size r"
  by (auto simp: End_def good_range_def intro: i64_id)

lemma ranges_ok_good: "ranges_ok rs \<Longrightarrow> r \<in> set rs \<Longrightarrow> good_range r"
  by (auto simp: ranges_ok_def gapped_def bounded_segs_def good_range_def)

lemma merge_good:
  assumes "good_range a" "good_range b" "Pos a \<le> Pos b"
  shows "merge a b = (if Pos a + Size a < Pos b then None
    else Some \<lparr>Pos = Pos a, Size = max (Pos a + Size a) (Pos b + Size b) - Pos a\<rparr>)"
proof -
  have "i64 (Size b + i64 (Pos b - Pos a)) = Pos b + Size b - Pos a"
    using assms by (simp add: good_range_def i64_id)
  then show ?thesis using assms by (auto simp: merge_def End_good)
qed

section \<open>Insertion\<close>

lemma coalesce_loop_absorb:
  assumes "good_range x" "\<forall>z \<in> set zs. good_range z \<and> Pos x \<le> Pos z"
  shows "\<exists>ranges' e c rest. coalesce_loop (P @ x # zs) (length P) (length P) = (ranges', e) \<and> length P \<le> e \<and>
    take (length P) ranges' = P \<and> drop e ranges' = c # rest \<and>
    absorb (seg_of x) (range_segs zs) = (seg_of c, range_segs rest)"
  using assms
proof (induction zs arbitrary: P x)
  case Nil
  then show ?case by (subst coalesce_loop.simps) (simp add: seg_of_def)
next
  case (Cons z zs)
  have m: "merge x z = (if Pos x + Size x < Pos z then None
      else Some \<lparr>Pos = Pos x, Size = max (Pos x + Size x) (Pos z + Size z) - Pos x\<rparr>)"
    using Cons.prems by (intro merge_good) auto
  show ?case
  proof (cases "Pos x + Size x < Pos z")
    case True
    then have "coalesce_loop (P @ x # z # zs) (length P) (length P) = (P @ x # z # zs, length P)"
      using m by (subst coalesce_loop.simps) (simp add: nth_append)
    then show ?thesis using True by (simp add: seg_of_def)
  next
    case False
    let ?m = "\<lparr>Pos = Pos x, Size = max (Pos x + Size x) (Pos z + Size z) - Pos x\<rparr>"
    have "coalesce_loop (P @ x # z # zs) (length P) (length P) =
        coalesce_loop ((P @ [x]) @ ?m # zs) (length (P @ [x])) (length (P @ [x]))"
      using m False by (subst coalesce_loop.simps) (simp add: nth_append list_update_append)
    moreover have "good_range ?m" "\<forall>z \<in> set zs. good_range z \<and> Pos ?m \<le> Pos z"
      using Cons.prems by (auto simp: good_range_def)
    from Cons.IH [OF this, of "P @ [x]"] obtain ranges' e c rest where ih:
      "coalesce_loop ((P @ [x]) @ ?m # zs) (length (P @ [x])) (length (P @ [x])) = (ranges', e)"
      "length (P @ [x]) \<le> e" "take (length (P @ [x])) ranges' = P @ [x]" "drop e ranges' = c # rest"
      "absorb (seg_of ?m) (range_segs zs) = (seg_of c, range_segs rest)" by blast
    moreover have "take (length P) ranges' = P" using arg_cong [OF ih(3), of "take (length P)"] by simp
    moreover have "absorb (seg_of x) (range_segs (z # zs)) = absorb (seg_of ?m) (range_segs zs)"
      using False by (simp add: seg_of_def)
    ultimately show ?thesis by (intro exI [of _ ranges'] exI [of _ e] exI [of _ c] exI [of _ rest]) auto
  qed
qed

text \<open>The whole of \<^verbatim>\<open>coalesce\<close>: the inserted range swallows its predecessor if they touch, then what follows.\<close>

lemma coalesce_absorb:
  assumes good: "good_range x" "\<forall>z \<in> set zs. good_range z \<and> Pos x \<le> Pos z" "\<forall>y \<in> set ys. good_range y \<and> Pos y \<le> Pos x"
  obtains c rest as lo hi where "coalesce (ys @ x # zs) (length ys) = as @ c # rest"
    "absorb (lo, hi) (range_segs zs) = (seg_of c, range_segs rest)"
    "as = ys \<and> lo = Pos x \<and> hi = Pos x + Size x \<and> (ys = [] \<or> Pos (last ys) + Size (last ys) < Pos x) \<or>
     (\<exists>y. ys = as @ [y] \<and> Pos x \<le> Pos y + Size y \<and> lo = Pos y \<and> hi = max (Pos y + Size y) (Pos x + Size x))"
proof (cases "ys \<noteq> [] \<and> \<not> Pos (last ys) + Size (last ys) < Pos x")
  case True
  then obtain as y where ys: "ys = as @ [y]" by (metis append_butlast_last_id)
  let ?m = "\<lparr>Pos = Pos y, Size = max (Pos y + Size y) (Pos x + Size x) - Pos y\<rparr>"
  have m: "merge y x = Some ?m" using True good by (subst merge_good) (auto simp: ys)
  have "good_range ?m" "\<forall>z \<in> set zs. good_range z \<and> Pos ?m \<le> Pos z" using good by (fastforce simp: ys good_range_def)+
  from coalesce_loop_absorb [OF this, of ys] obtain ranges' e c rest where l:
    "coalesce_loop (ys @ ?m # zs) (length ys) (length ys) = (ranges', e)" "length ys \<le> e"
    "take (length ys) ranges' = ys" "drop e ranges' = c # rest" "absorb (seg_of ?m) (range_segs zs) = (seg_of c, range_segs rest)"
    by blast
  have u: "(ys @ x # zs)[length ys := ?m] = ys @ ?m # zs" by simp
  have n: "(ys @ x # zs) ! (length ys - 1) = y" "(ys @ x # zs) ! length ys = x" "length ys > 0"
    by (simp_all add: ys nth_append)
  have t: "take (length ys - 1) ranges' = as" using arg_cong [OF l(3), of "take (length ys - 1)"] by (simp add: ys)
  have "coalesce (ys @ x # zs) (length ys) = as @ c # rest"
  proof -
    have "length ys - 1 < e" using n(3) l(2) by linarith
    then show ?thesis unfolding coalesce_def n m using n(3) l(1,4) t by (simp add: u)
  qed
  then show thesis
    using l(5) True that [of as c rest "Pos y" "max (Pos y + Size y) (Pos x + Size x)"] by (auto simp: seg_of_def ys)
next
  case False
  obtain ranges' e c rest where l:
    "coalesce_loop (ys @ x # zs) (length ys) (length ys) = (ranges', e)" "length ys \<le> e"
    "take (length ys) ranges' = ys" "drop e ranges' = c # rest" "absorb (seg_of x) (range_segs zs) = (seg_of c, range_segs rest)"
    using coalesce_loop_absorb [OF good(1,2), of ys] by blast
  have "(if length ys > 0 then (case merge ((ys @ x # zs) ! (length ys - 1)) ((ys @ x # zs) ! length ys) of
      None \<Rightarrow> (ys @ x # zs, length ys) | Some m \<Rightarrow> ((ys @ x # zs)[length ys := m], length ys - 1))
      else (ys @ x # zs, length ys)) = (ys @ x # zs, length ys)"
  proof (cases "ys = []")
    case ne: False
    then have "(ys @ x # zs) ! (length ys - 1) = last ys" by (simp add: nth_append last_conv_nth)
    moreover have "merge (last ys) x = None" using False ne good by (subst merge_good) auto
    ultimately show ?thesis by simp
  qed simp
  then have "coalesce (ys @ x # zs) (length ys) = (if e > length ys then take (length ys) ranges' @ drop e ranges' else ranges')"
    unfolding coalesce_def by (simp add: l(1))
  also have "\<dots> = ys @ c # rest"
    using l(2-4) append_take_drop_id [of "length ys" ranges'] by (cases "e = length ys") auto
  finally show thesis using l(5) False that [of ys c rest "Pos x" "Pos x + Size x"] by (auto simp: seg_of_def)
qed

lemma search_split:
  assumes ok: "ranges_ok rs"
  obtains ys zs where "rs = ys @ zs" "search rs r = length ys" "\<forall>y \<in> set ys. Pos y < Pos r" "\<forall>z \<in> set zs. Pos r \<le> Pos z"
    "gapped (range_segs ys)" "gapped (range_segs zs)" "\<forall>y \<in> set ys. \<forall>z \<in> set zs. Pos y + Size y < Pos z"
    "\<forall>y \<in> set ys. good_range y" "\<forall>z \<in> set zs. good_range z"
proof -
  have g: "gapped (range_segs rs)" using ok by (simp add: ranges_ok_def)
  have "Pos r \<le> Pos (rs ! j)" if "i \<le> j" "j < length rs" "Pos r \<le> Pos (rs ! i)" for i j
    using gapped_fst_mono [OF g that(1)] that by simp
  then obtain ys zs where yz: "rs = ys @ zs" "sort_Search (length rs) (\<lambda>i. Pos r \<le> Pos (rs ! i)) = length ys"
    "\<forall>y \<in> set ys. \<not> Pos r \<le> Pos y" "\<forall>z \<in> set zs. Pos r \<le> Pos z"
    using sort_Search_split [of rs "\<lambda>x. Pos r \<le> Pos x"] by metis
  show thesis
    by (rule that [of ys zs])
      (use yz g ranges_ok_good [OF ok] in \<open>auto simp: search_def gapped_append\<close>)
qed

lemma ranges_okI: "gapped (range_segs rs) \<Longrightarrow> bounded_segs (range_segs rs) \<Longrightarrow> ranges_ok rs"
  by (simp add: ranges_ok_def)

lemma good_bounded: "\<forall>r \<in> set rs. good_range r \<Longrightarrow> bounded_segs (range_segs rs)"
  by (auto simp: bounded_segs_def good_range_def)

text \<open>Inserting between the ranges before and the ranges from the search position on, when the first
  of the latter has been merged into the new range already or does not touch it.\<close>

lemma coalesce_inserts:
  assumes g: "gapped (range_segs (ys @ zs))" and good: "\<forall>y \<in> set ys. good_range y" "\<forall>z \<in> set zs. good_range z" "good_range x"
    and pos: "\<forall>y \<in> set ys. Pos y < Pos x" "\<forall>z \<in> set zs. Pos x \<le> Pos z"
  shows "ranges_ok (coalesce (ys @ x # zs) (length ys)) \<and>
    ranges_bytes (coalesce (ys @ x # zs) (length ys)) = cover (range_segs (ys @ zs)) \<union> seg_bytes (seg_of x)"
proof -
  have "\<forall>z \<in> set zs. good_range z \<and> Pos x \<le> Pos z" "\<forall>y \<in> set ys. good_range y \<and> Pos y \<le> Pos x"
    using good pos by auto
  then obtain c rest as lo hi where c: "coalesce (ys @ x # zs) (length ys) = as @ c # rest"
    "absorb (lo, hi) (range_segs zs) = (seg_of c, range_segs rest)"
    "as = ys \<and> lo = Pos x \<and> hi = Pos x + Size x \<and> (ys = [] \<or> Pos (last ys) + Size (last ys) < Pos x) \<or>
     (\<exists>y. ys = as @ [y] \<and> Pos x \<le> Pos y + Size y \<and> lo = Pos y \<and> hi = max (Pos y + Size y) (Pos x + Size x))"
    by (rule coalesce_absorb [OF good(3)])
  have fin: "ranges_ok (as @ c # rest) \<and> ranges_bytes (as @ c # rest) = cover (range_segs (ys @ zs)) \<union> seg_bytes (seg_of x)"
    if "gapped (range_segs as @ range_segs zs)" "\<forall>s \<in> set (range_segs as). snd s < lo" "lo < hi" "\<forall>t \<in> set (range_segs zs). lo \<le> fst t"
      "0 \<le> lo" "hi \<le> max_i64" "cover (range_segs as) \<union> {lo..<hi} = cover (range_segs ys) \<union> seg_bytes (seg_of x)" "\<forall>a \<in> set as. good_range a"
  proof -
    note ab = absorb_insert [OF that(1-4) c(2)]
    have "bounded_segs (seg_of c # range_segs rest)" using absorb_bounded [OF c(2)] good_bounded [OF good(2)] that(5,6) by simp
    moreover have "bounded_segs (range_segs as)" using good_bounded that(8) by blast
    moreover have "cover (range_segs (as @ c # rest)) = cover (range_segs as) \<union> {lo..<hi} \<union> cover (range_segs zs)"
      using ab(2) by auto
    ultimately show ?thesis using ab(1) that(7) by (auto simp: ranges_ok_def ranges_bytes_def)
  qed
  from c(3) show ?thesis
  proof
    assume A: "as = ys \<and> lo = Pos x \<and> hi = Pos x + Size x \<and> (ys = [] \<or> Pos (last ys) + Size (last ys) < Pos x)"
    have "snd s < Pos x" if s: "s \<in> set (range_segs ys)" for s
    proof -
      have ne: "ys \<noteq> []" using s by auto
      obtain i where i: "i < length ys" "s = range_segs ys ! i" using s by (auto simp: in_set_conv_nth)
      have "snd (range_segs ys ! i) \<le> snd (range_segs ys ! (length ys - 1))"
        using g i ne by (intro conjunct2 [OF gapped_fst_mono]) (auto simp: gapped_append)
      then show ?thesis using A ne i by (simp add: last_conv_nth)
    qed
    then show ?thesis unfolding c(1) using A g good pos by (intro fin) (auto simp: good_range_def)
  next
    assume "\<exists>y. ys = as @ [y] \<and> Pos x \<le> Pos y + Size y \<and> lo = Pos y \<and> hi = max (Pos y + Size y) (Pos x + Size x)"
    then obtain y where y: "ys = as @ [y]" "Pos x \<le> Pos y + Size y" "lo = Pos y" "hi = max (Pos y + Size y) (Pos x + Size x)" by blast
    have "{lo..<hi} = seg_bytes (seg_of y) \<union> seg_bytes (seg_of x)" using y pos by auto
    moreover have "0 \<le> Pos y" "0 < Size y" "Pos y + Size y \<le> max_i64" "Pos y < Pos x"
      "0 < Size x" "Pos x + Size x \<le> max_i64" using good pos y(1) by (auto simp: good_range_def)
    moreover have "gapped (range_segs as @ range_segs zs)" "\<forall>s \<in> set (range_segs as). snd s < Pos y"
      using g by (auto simp: y(1) gapped_append)
    ultimately show ?thesis unfolding c(1) using y pos(2) good(1)
      by (intro fin) (auto simp: less_imp_le intro: less_imp_le order.trans)
  qed
qed

lemma Insert_spec:
  assumes ok: "ranges_ok rs" and r: "good_range r"
  shows "ranges_ok (Insert rs r) \<and> ranges_bytes (Insert rs r) = ranges_bytes rs \<union> seg_bytes (seg_of r)"
proof (cases "rs = []")
  case True
  then show ?thesis using r by (auto simp: Insert_def IsEmpty_def good_range_def ranges_ok_def ranges_bytes_def)
next
  case False
  have e: "\<not> IsEmpty r" using r by (simp add: IsEmpty_def good_range_def)
  obtain ys zs where yz: "rs = ys @ zs" "search rs r = length ys" "\<forall>y \<in> set ys. Pos y < Pos r" "\<forall>z \<in> set zs. Pos r \<le> Pos z"
    "\<forall>y \<in> set ys. good_range y" "\<forall>z \<in> set zs. good_range z"
    by (rule search_split [OF ok, of r]) blast
  have g: "gapped (range_segs (ys @ zs))" using ok by (simp add: ranges_ok_def yz(1))
  have plain: "ranges_ok (Insert rs r) \<and> ranges_bytes (Insert rs r) = ranges_bytes rs \<union> seg_bytes (seg_of r)"
    if "(if length ys = length rs then None else merge r (rs ! length ys)) = None"
  proof -
    have "Insert rs r = coalesce (ys @ r # zs) (length ys)"
      unfolding Insert_def yz(2) Let_def if_not_P [OF e] if_not_P [OF False] that by (simp add: yz(1))
    then show ?thesis using coalesce_inserts [OF g yz(5,6) r yz(3,4)] by (simp add: ranges_bytes_def yz(1))
  qed
  show ?thesis
  proof (cases zs)
    case Nil
    then show ?thesis using plain by (simp add: yz(1))
  next
    case (Cons z zs')
    have i: "rs ! length ys = z" "length ys \<noteq> length rs" using Cons by (simp_all add: yz(1))
    have m: "merge r z = (if Pos r + Size r < Pos z then None
        else Some \<lparr>Pos = Pos r, Size = max (Pos r + Size r) (Pos z + Size z) - Pos r\<rparr>)"
      using r yz(4,6) by (intro merge_good) (auto simp: Cons)
    show ?thesis
    proof (cases "Pos r + Size r < Pos z")
      case True
      then show ?thesis using plain i m by simp
    next
      case touch: False
      let ?m = "\<lparr>Pos = Pos r, Size = max (Pos r + Size r) (Pos z + Size z) - Pos r\<rparr>"
      have "rs[length ys := ?m] = ys @ ?m # zs'" by (simp add: yz(1) Cons)
      then have "Insert rs r = coalesce (ys @ ?m # zs') (length ys)"
        using e False i m touch unfolding Insert_def yz(2) Let_def by simp
      moreover have "good_range ?m" using r yz(6) by (auto simp: good_range_def Cons)
      moreover have "gapped (range_segs (ys @ zs'))" using g by (auto simp: gapped_append Cons)
      moreover have "seg_bytes (seg_of ?m) = seg_bytes (seg_of r) \<union> seg_bytes (seg_of z)"
        using touch yz(4) by (auto simp: Cons)
      ultimately show ?thesis
        using coalesce_inserts [of ys zs' ?m] yz by (auto simp: ranges_bytes_def Cons)
    qed
  qed
qed

section \<open>Removal\<close>

lemma remove_seg_spec:
  assumes "good_range r" "good_range s"
  shows "cover (range_segs (remove_seg r s)) = seg_bytes (seg_of s) - seg_bytes (seg_of r) \<and> gapped (range_segs (remove_seg r s)) \<and>
    (\<forall>t \<in> set (remove_seg r s). good_range t \<and> Pos s \<le> Pos t \<and> Pos t + Size t \<le> Pos s + Size s)"
proof -
  have e: "End r = Pos r + Size r" "End s = Pos s + Size s" using assms by (simp_all add: End_good)
  have i: "i64 (Pos r - Pos s) = Pos r - Pos s" "i64 (Pos s + Size s - (Pos r + Size r)) = Pos s + Size s - (Pos r + Size r)"
    using assms by (simp_all add: good_range_def i64_id)
  show ?thesis
    using assms by (auto simp: remove_seg_def e i good_range_def)
qed

lemma concat_remove_spec:
  assumes "good_range r" "gapped (range_segs rs)" "\<forall>s \<in> set rs. good_range s"
  shows "cover (range_segs (concat (map (remove_seg r) rs))) = cover (range_segs rs) - seg_bytes (seg_of r) \<and>
    gapped (range_segs (concat (map (remove_seg r) rs))) \<and>
    (\<forall>t \<in> set (concat (map (remove_seg r) rs)). good_range t \<and> (\<exists>s \<in> set rs. Pos s \<le> Pos t))"
  using assms(2,3)
proof (induction rs)
  case (Cons s rs)
  let ?rest = "concat (map (remove_seg r) rs)"
  have s: "good_range s" "gapped (range_segs rs)" "\<forall>s \<in> set rs. good_range s" "\<And>t. t \<in> set rs \<Longrightarrow> Pos s + Size s < Pos t"
    using Cons.prems by auto
  note sp = remove_seg_spec [OF assms(1) s(1)] and ih = Cons.IH [OF s(2,3)]
  have "Pos a + Size a < Pos b" if ab: "a \<in> set (remove_seg r s)" "b \<in> set ?rest" for a b
  proof -
    obtain t where "t \<in> set rs" "Pos t \<le> Pos b" using ih ab(2) by blast
    moreover have "Pos a + Size a \<le> Pos s + Size s" using sp ab(1) by blast
    ultimately show ?thesis using s(4) [of t] by simp
  qed
  then have g: "gapped (range_segs (concat (map (remove_seg r) (s # rs))))" using sp ih by (auto simp: gapped_append)
  have c: "cover (range_segs (concat (map (remove_seg r) (s # rs)))) = cover (range_segs (s # rs)) - seg_bytes (seg_of r)"
    using sp ih by auto
  have "good_range t \<and> (\<exists>s \<in> set (s # rs). Pos s \<le> Pos t)" if "t \<in> set (concat (map (remove_seg r) (s # rs)))" for t
    using that sp ih by auto
  then show ?case using c g by blast
qed simp

lemma Remove_spec:
  assumes "ranges_ok rs" "good_range r"
  shows "ranges_ok (Remove rs r) \<and> ranges_bytes (Remove rs r) = ranges_bytes rs - seg_bytes (seg_of r)"
proof (cases "rs = []")
  case False
  have "\<not> IsEmpty r" using assms(2) by (simp add: IsEmpty_def good_range_def)
  then have "Remove rs r = concat (map (remove_seg r) rs)" using False by (simp add: Remove_def)
  then show ?thesis
    using concat_remove_spec [OF assms(2), of rs] assms(1) ranges_ok_good [OF assms(1)] good_bounded [of "Remove rs r"]
    by (simp add: ranges_ok_def ranges_bytes_def)
qed (simp add: Remove_def ranges_ok_def ranges_bytes_def)

section \<open>Searching\<close>

lemma Range_Intersection_good:
  assumes "good_range a" "good_range b"
  shows "IsEmpty (Range_Intersection a b) \<longleftrightarrow> seg_bytes (seg_of a) \<inter> seg_bytes (seg_of b) = {}"
    "\<not> IsEmpty (Range_Intersection a b) \<Longrightarrow>
     Range_Intersection a b = \<lparr>Pos = max (Pos a) (Pos b), Size = min (Pos a + Size a) (Pos b + Size b) - max (Pos a) (Pos b)\<rparr> \<and>
     good_range (Range_Intersection a b)"
proof -
  let ?p = "max (Pos a) (Pos b)" and ?e = "min (Pos a + Size a) (Pos b + Size b)"
  have i: "i64 (?e - ?p) = ?e - ?p" using assms by (intro i64_id) (auto simp: good_range_def)
  have eq: "Range_Intersection a b = (if ?p < ?e then \<lparr>Pos = ?p, Size = ?e - ?p\<rparr> else no_range)"
    using assms i by (auto simp: Range_Intersection_def End_good good_range_def Let_def)
  show "IsEmpty (Range_Intersection a b) \<longleftrightarrow> seg_bytes (seg_of a) \<inter> seg_bytes (seg_of b) = {}"
  proof
    assume "IsEmpty (Range_Intersection a b)"
    then have "\<not> ?p < ?e" unfolding eq by (auto simp: IsEmpty_def no_range_def split: if_splits)
    then show "seg_bytes (seg_of a) \<inter> seg_bytes (seg_of b) = {}" by auto
  next
    assume "seg_bytes (seg_of a) \<inter> seg_bytes (seg_of b) = {}"
    then have "?p \<notin> seg_bytes (seg_of a) \<inter> seg_bytes (seg_of b)" by blast
    then have "\<not> ?p < ?e" by auto
    then show "IsEmpty (Range_Intersection a b)" unfolding eq by (subst if_not_P) (simp_all add: IsEmpty_def no_range_def)
  qed
  show "Range_Intersection a b = \<lparr>Pos = ?p, Size = ?e - ?p\<rparr> \<and> good_range (Range_Intersection a b)"
    if "\<not> IsEmpty (Range_Intersection a b)"
    using that assms unfolding eq by (auto simp: IsEmpty_def no_range_def good_range_def split: if_splits)
qed

text \<open>What \<^verbatim>\<open>Find\<close> promises: the leading part of the query that is entirely present or entirely absent, and
  the rest of the query.\<close>

definition find_ok :: "Ranges \<Rightarrow> Range \<Rightarrow> Range \<times> Range \<times> bool \<Rightarrow> bool" where
  "find_ok rs r res \<longleftrightarrow> (case res of (cur, next, p) \<Rightarrow>
     good_range cur \<and> Pos cur = Pos r \<and> Pos cur + Size cur \<le> Pos r + Size r \<and>
     (if p then seg_bytes (seg_of cur) \<subseteq> ranges_bytes rs else seg_bytes (seg_of cur) \<inter> ranges_bytes rs = {}) \<and>
     (p \<longrightarrow> Pos cur + Size cur \<notin> ranges_bytes rs \<or> Pos cur + Size cur = Pos r + Size r) \<and>
     (if Pos cur + Size cur = Pos r + Size r then IsEmpty next
      else good_range next \<and> Pos next = Pos cur + Size cur \<and> Pos next + Size next = Pos r + Size r))"

lemma find_okI:
  assumes "good_range r" "good_range c" "Pos c = Pos r" "Pos c + Size c \<le> Pos r + Size r"
    "if p then seg_bytes (seg_of c) \<subseteq> ranges_bytes rs else seg_bytes (seg_of c) \<inter> ranges_bytes rs = {}"
    "p \<longrightarrow> Pos c + Size c \<notin> ranges_bytes rs \<or> Pos c + Size c = Pos r + Size r"
  shows "find_ok rs r (c, \<lparr>Pos = End c, Size = i64 (Size r - Size c)\<rparr>, p)"
proof -
  have "End c = Pos c + Size c" "i64 (Size r - Size c) = Size r - Size c"
    using assms(1-4) by (auto simp: End_good good_range_def intro!: i64_id)
  then show ?thesis using assms by (auto simp: find_ok_def good_range_def IsEmpty_def)
qed

lemma find_okD:
  assumes "find_ok rs r (cur, next, p)"
  shows "good_range cur" "Pos cur = Pos r" "Pos cur + Size cur \<le> Pos r + Size r"
    "p \<Longrightarrow> seg_bytes (seg_of cur) \<subseteq> ranges_bytes rs" "\<not> p \<Longrightarrow> seg_bytes (seg_of cur) \<inter> ranges_bytes rs = {}"
    "p \<Longrightarrow> Pos cur + Size cur \<notin> ranges_bytes rs \<or> Pos cur + Size cur = Pos r + Size r"
    "IsEmpty next \<longleftrightarrow> Pos cur + Size cur = Pos r + Size r"
    "\<not> IsEmpty next \<Longrightarrow> good_range next \<and> Pos next = Pos cur + Size cur \<and> Pos next + Size next = Pos r + Size r"
  using assms by (auto simp: find_ok_def good_range_def IsEmpty_def split: if_splits)

lemma find_ok_absent: "good_range r \<Longrightarrow> seg_bytes (seg_of r) \<inter> ranges_bytes rs = {} \<Longrightarrow> find_ok rs r (r, no_range, False)"
  by (simp add: find_ok_def IsEmpty_def no_range_def)

lemma cover_not_end:
  assumes "ranges_ok rs" "s \<in> set rs" shows "Pos s + Size s \<notin> ranges_bytes rs"
proof
  assume "Pos s + Size s \<in> ranges_bytes rs"
  then obtain t where t: "t \<in> set rs" "Pos t \<le> Pos s + Size s" "Pos s + Size s < Pos t + Size t"
    by (auto simp: ranges_bytes_def cover_def)
  obtain i j where ij: "i < length rs" "s = rs ! i" "j < length rs" "t = rs ! j"
    using assms(2) t(1) by (auto simp: in_set_conv_nth)
  have g: "gapped (range_segs rs)" using assms(1) by (simp add: ranges_ok_def)
  consider "i < j" | "i = j" | "j < i" by linarith
  then show False
  proof cases
    case 1
    then show False using gapped_nth [OF g, of i j] ij t by simp
  next
    case 2
    then show False using ij t by simp
  next
    case 3
    then show False using gapped_nth [OF g, of j i] gapped_nth_pos [OF g, of i] ij t by simp
  qed
qed

lemma seg_in_bytes: "s \<in> set rs \<Longrightarrow> seg_bytes (seg_of s) \<subseteq> ranges_bytes rs"
  by (auto simp: ranges_bytes_def cover_def)

lemma ranges_bytes_append: "ranges_bytes (ys @ zs) = ranges_bytes ys \<union> ranges_bytes zs"
  by (simp add: ranges_bytes_def)

lemma Find_from:
  assumes r: "good_range r" and ok: "ranges_ok (ys @ zs)" and below: "\<forall>y \<in> set ys. Pos y + Size y \<le> Pos r"
    and above: "\<forall>z \<in> set zs. Pos r \<le> Pos z"
  shows "find_ok (ys @ zs) r
    (if zs = [] then (r, no_range, False)
     else let inter = Range_Intersection (hd zs) r
          in if IsEmpty inter then (r, no_range, False)
             else if Pos r < Pos inter
             then let cur = \<lparr>Pos = Pos r, Size = i64 (Pos inter - Pos r)\<rparr>
                  in (cur, \<lparr>Pos = End cur, Size = i64 (Size r - Size cur)\<rparr>, False)
             else (inter, \<lparr>Pos = End inter, Size = i64 (Size r - Size inter)\<rparr>, True))"
proof -
  have no_ys: "ranges_bytes ys \<inter> {Pos r..<b} = {}" for b using below by (force simp: ranges_bytes_def cover_def)
  show ?thesis
  proof (cases zs)
    case Nil
    then show ?thesis using find_ok_absent [OF r, of ys] no_ys by (simp add: Int_commute)
  next
    case (Cons z zs')
    have z: "good_range z" "Pos r \<le> Pos z" "\<forall>t \<in> set zs'. Pos z + Size z < Pos t"
      using ranges_ok_good [OF ok, of z] above ok by (auto simp: Cons ranges_ok_def gapped_append)
    have no_zs: "ranges_bytes zs \<inter> {Pos r..<b} = {}" if "b \<le> Pos z" for b
      using that z(1,3) by (force simp: ranges_bytes_def cover_def Cons good_range_def)
    show ?thesis
    proof (cases "IsEmpty (Range_Intersection z r)")
      case True
      then have "seg_bytes (seg_of z) \<inter> seg_bytes (seg_of r) = {}" using Range_Intersection_good(1) [OF z(1) r] by simp
      then have "Pos z \<notin> seg_bytes (seg_of z) \<inter> seg_bytes (seg_of r)" by blast
      then have "Pos r + Size r \<le> Pos z" using z by (auto simp: good_range_def)
      then have "seg_bytes (seg_of r) \<inter> ranges_bytes (ys @ zs) = {}"
        using no_ys [of "Pos r + Size r"] no_zs by (auto simp: ranges_bytes_append)
      then show ?thesis using find_ok_absent [OF r] True by (simp add: Cons)
    next
      case False
      let ?i = "Range_Intersection z r"
      have i: "?i = \<lparr>Pos = Pos z, Size = min (Pos z + Size z) (Pos r + Size r) - Pos z\<rparr>" "good_range ?i"
        using Range_Intersection_good(2) [OF z(1) r False] z(2) by (auto simp: max_absorb1)
      have w: "Pos z < Pos r + Size r" using i by (simp add: good_range_def)
      show ?thesis
      proof (cases "Pos r < Pos z")
        case True
        let ?c = "\<lparr>Pos = Pos r, Size = i64 (Pos z - Pos r)\<rparr>"
        have e: "i64 (Pos z - Pos r) = Pos z - Pos r" using z(1) r by (intro i64_id) (auto simp: good_range_def)
        have "find_ok (ys @ zs) r (?c, \<lparr>Pos = End ?c, Size = i64 (Size r - Size ?c)\<rparr>, False)"
          using r z True w no_ys [of "Pos z"] no_zs [of "Pos z"]
          by (intro find_okI) (auto simp: e good_range_def ranges_bytes_append)
        then show ?thesis using False True i(1) by (simp add: Cons Let_def)
      next
        case same: False
        have "Pos z + Size z \<notin> ranges_bytes (ys @ zs)" using cover_not_end [OF ok, of z] by (simp add: Cons)
        moreover have "seg_bytes (seg_of ?i) \<subseteq> ranges_bytes (ys @ zs)"
          using seg_in_bytes [of z "ys @ zs"] i(1) by (auto simp: Cons)
        ultimately have "find_ok (ys @ zs) r (?i, \<lparr>Pos = End ?i, Size = i64 (Size r - Size ?i)\<rparr>, True)"
          using r i same z by (intro find_okI) (auto simp: min_def)
        then show ?thesis using False same i(1) by (simp add: Cons Let_def)
      qed
    qed
  qed
qed

lemma Find_ok:
  assumes ok: "ranges_ok rs" and r: "good_range r"
  shows "find_ok rs r (Find rs r)"
proof -
  obtain ys zs where yz: "rs = ys @ zs" "search rs r = length ys" "\<forall>y \<in> set ys. Pos y < Pos r" "\<forall>z \<in> set zs. Pos r \<le> Pos z"
    "gapped (range_segs ys)" "\<forall>y \<in> set ys. good_range y"
    by (rule search_split [OF ok, of r]) blast
  have e: "\<not> IsEmpty r" using r by (simp add: IsEmpty_def good_range_def)
  have hd: "zs \<noteq> [] \<Longrightarrow> rs ! length ys = hd zs" "(length ys \<ge> length rs) = (zs = [])"
    by (simp_all add: yz(1) nth_append hd_conv_nth)
  show ?thesis
  proof (cases "ys \<noteq> [] \<and> \<not> IsEmpty (Range_Intersection (last ys) r)")
    case True
    let ?p = "last ys" let ?i = "Range_Intersection ?p r"
    have p: "good_range ?p" "Pos ?p < Pos r" "?p \<in> set rs" "rs ! (length ys - 1) = ?p"
      using True yz(3,6) by (auto simp: yz(1) nth_append last_conv_nth)
    have i: "?i = \<lparr>Pos = Pos r, Size = min (Pos ?p + Size ?p) (Pos r + Size r) - Pos r\<rparr>" "good_range ?i"
      using Range_Intersection_good(2) [OF p(1) r] True p(2) by (auto simp: max_absorb2)
    have "seg_bytes (seg_of ?i) \<subseteq> ranges_bytes rs"
      using seg_in_bytes [OF p(3)] i(1) p(2) by auto
    then have "find_ok rs r (?i, \<lparr>Pos = End ?i, Size = i64 (Size r - Size ?i)\<rparr>, True)"
      using r i cover_not_end [OF ok p(3)] by (intro find_okI) (auto simp: min_def)
    moreover have "Find rs r = (?i, \<lparr>Pos = End ?i, Size = i64 (Size r - Size ?i)\<rparr>, True)"
      using e True p(4) unfolding Find_def yz(2) Let_def by simp
    ultimately show ?thesis by simp
  next
    case False
    have "Pos y + Size y \<le> Pos r" if y: "y \<in> set ys" for y
    proof -
      have ne: "ys \<noteq> []" using y by auto
      then have p: "good_range (last ys)" "Pos (last ys) < Pos r" using yz(3,6) by simp_all
      have "seg_bytes (seg_of (last ys)) \<inter> seg_bytes (seg_of r) = {}"
        using False ne Range_Intersection_good(1) [OF p(1) r] by simp
      then have "Pos r \<notin> seg_bytes (seg_of (last ys)) \<inter> seg_bytes (seg_of r)" by blast
      then have last: "Pos (last ys) + Size (last ys) \<le> Pos r" using p r by (auto simp: good_range_def)
      obtain i where i: "i < length ys" "y = ys ! i" using y by (auto simp: in_set_conv_nth)
      then have "snd (range_segs ys ! i) \<le> snd (range_segs ys ! (length ys - 1))"
        using yz(5) ne by (intro conjunct2 [OF gapped_fst_mono]) auto
      then show ?thesis using last i ne by (simp add: last_conv_nth)
    qed
    then have below: "\<forall>y \<in> set ys. Pos y + Size y \<le> Pos r" by blast
    have prev: "\<not> (length ys > 0 \<and> \<not> IsEmpty (if length ys > 0 then Range_Intersection (rs ! (length ys - 1)) r else no_range))"
      using False by (auto simp: yz(1) nth_append last_conv_nth IsEmpty_def no_range_def)
    note found = Find_from [OF r ok [unfolded yz(1)] below yz(4), unfolded Let_def, folded yz(1)]
    show ?thesis
    proof (cases "zs = []")
      case True
      then show ?thesis
        using found unfolding Find_def yz(2) Let_def if_not_P [OF e] if_not_P [OF prev] hd(2) by simp
    next
      case ne: False
      from found show ?thesis
        unfolding Find_def yz(2) Let_def if_not_P [OF e] if_not_P [OF prev] hd(2) if_not_P [OF ne] hd(1) [OF ne] .
    qed
  qed
qed

text \<open>A loop that asks \<^verbatim>\<open>Find\<close> again for the rest of its query ends, because the rest is smaller.\<close>

lemma find_induct [consumes 2, case_names step]:
  assumes "ranges_ok rs" "good_range r"
    and step: "\<And>r cur next p. good_range r \<Longrightarrow> Find rs r = (cur, next, p) \<Longrightarrow> find_ok rs r (cur, next, p) \<Longrightarrow>
      (\<not> IsEmpty next \<Longrightarrow> P next) \<Longrightarrow> P r"
  shows "P r"
  using assms(2)
proof (induction "nat (Size r)" arbitrary: r rule: less_induct)
  case less
  obtain cur nx p where f: "Find rs r = (cur, nx, p)" by (cases "Find rs r") auto
  then have fo: "find_ok rs r (cur, nx, p)" using Find_ok [OF assms(1) less.prems] by simp
  show ?case
  proof (rule step [OF less.prems f fo])
    assume "\<not> IsEmpty nx"
    then have "good_range nx" "Size nx < Size r" "0 < Size nx"
      using fo by (auto simp: find_ok_def good_range_def IsEmpty_def split: if_splits)
    then show "P nx" using less.hyps [of nx] by simp
  qed
qed

lemma Present_iff:
  assumes "ranges_ok rs" "good_range r"
  shows "Present rs r \<longleftrightarrow> seg_bytes (seg_of r) \<subseteq> ranges_bytes rs"
proof -
  obtain cur nx p where f: "Find rs r = (cur, nx, p)" by (cases "Find rs r") auto
  then have fo: "find_ok rs r (cur, nx, p)" using Find_ok [OF assms] by simp
  have P: "Present rs r \<longleftrightarrow> p \<and> IsEmpty nx"
    using assms(2) by (simp add: Present_def f IsEmpty_def good_range_def)
  have r: "Pos r \<in> seg_bytes (seg_of r)" using assms(2) by (simp add: good_range_def)
  show ?thesis
  proof (cases p)
    case False
    have "Pos r \<in> seg_bytes (seg_of cur)" using fo by (auto simp: find_ok_def good_range_def)
    then have "Pos r \<notin> ranges_bytes rs" using find_okD(5) [OF fo False] by blast
    then show ?thesis using P False r by blast
  next
    case True
    show ?thesis
    proof (cases "Pos cur + Size cur = Pos r + Size r")
      case same: True
      then show ?thesis using fo True P by (auto simp: find_ok_def)
    next
      case less: False
      then have "Pos cur + Size cur \<notin> ranges_bytes rs" "Pos cur + Size cur \<in> seg_bytes (seg_of r)" "\<not> IsEmpty nx"
        using fo True by (auto simp: find_ok_def good_range_def IsEmpty_def)
      then show ?thesis using P by blast
    qed
  qed
qed

fun tiles :: "Ranges \<Rightarrow> int \<Rightarrow> int \<Rightarrow> (Range \<times> bool) list \<Rightarrow> bool" where
  "tiles rs lo hi [] \<longleftrightarrow> lo = hi"
| "tiles rs lo hi ((c, p) # frs) \<longleftrightarrow> Pos c = lo \<and> 0 < Size c \<and>
     (if p then seg_bytes (seg_of c) \<subseteq> ranges_bytes rs else seg_bytes (seg_of c) \<inter> ranges_bytes rs = {}) \<and>
     tiles rs (lo + Size c) hi frs"

lemma find_all_loop_tiles:
  assumes "ranges_ok rs" "good_range r"
  shows "\<exists>frs'. find_all_loop rs r frs = Some (frs @ frs') \<and> tiles rs (Pos r) (Pos r + Size r) frs'"
  using assms
proof (induction r arbitrary: frs rule: find_induct)
  case (step r cur nx p)
  have ne: "\<not> IsEmpty r" using step(1) by (simp add: IsEmpty_def good_range_def)
  have u: "find_all_loop rs r frs = find_all_loop rs nx (frs @ [(cur, p)])"
    using ne step(2) by (subst find_all_loop.simps) simp
  show ?case
  proof (cases "IsEmpty nx")
    case True
    then have "find_all_loop rs nx (frs @ [(cur, p)]) = Some (frs @ [(cur, p)])" by (subst find_all_loop.simps) simp
    moreover have "tiles rs (Pos r) (Pos r + Size r) [(cur, p)]"
      using step(3) True by (auto simp: find_ok_def good_range_def IsEmpty_def split: if_splits)
    ultimately show ?thesis unfolding u by blast
  next
    case False
    then obtain frs' where "find_all_loop rs nx (frs @ [(cur, p)]) = Some ((frs @ [(cur, p)]) @ frs')"
      "tiles rs (Pos nx) (Pos nx + Size nx) frs'" using step(4) by blast
    moreover from this(2) have "tiles rs (Pos r + Size cur) (Pos r + Size r) frs'"
      using find_okD(8) [OF step(3) False] find_okD(2) [OF step(3)] by metis
    then have "tiles rs (Pos r) (Pos r + Size r) ((cur, p) # frs')"
      using find_okD(1-5) [OF step(3)] by (simp add: good_range_def)
    ultimately show ?thesis unfolding u by (intro exI [of _ "(cur, p) # frs'"]) (simp del: tiles.simps)
  qed
qed

lemma intersection_loop_bytes:
  assumes "ranges_ok rs" "good_range r" "ranges_ok new"
  shows "\<exists>out. intersection_loop rs r new = Some out \<and> ranges_ok out \<and>
    ranges_bytes out = ranges_bytes new \<union> (ranges_bytes rs \<inter> seg_bytes (seg_of r))"
  using assms
proof (induction r arbitrary: new rule: find_induct)
  case (step r cur nx p)
  let ?new = "if p then Insert new cur else new"
  have ne: "\<not> IsEmpty r" using step(1) by (simp add: IsEmpty_def good_range_def)
  have u: "intersection_loop rs r new = intersection_loop rs nx ?new"
    using ne step(2) by (subst intersection_loop.simps) simp
  have c: "good_range cur" "Pos cur = Pos r" "Pos cur + Size cur \<le> Pos r + Size r"
    "if p then seg_bytes (seg_of cur) \<subseteq> ranges_bytes rs else seg_bytes (seg_of cur) \<inter> ranges_bytes rs = {}"
    using find_okD [OF step(3)] by auto
  have n: "ranges_ok ?new" "ranges_bytes ?new = ranges_bytes new \<union> (ranges_bytes rs \<inter> seg_bytes (seg_of cur))"
    using Insert_spec [OF step(5) c(1)] step(5) c(4) by (auto split: if_splits)
  show ?case
  proof (cases "IsEmpty nx")
    case True
    then have "intersection_loop rs nx ?new = Some ?new" by (subst intersection_loop.simps) simp
    moreover have "seg_of cur = seg_of r" using step(3) True by (auto simp: find_ok_def good_range_def IsEmpty_def seg_of_def split: if_splits)
    ultimately show ?thesis using u n by simp
  next
    case False
    then obtain out where "intersection_loop rs nx ?new = Some out" "ranges_ok out"
      "ranges_bytes out = ranges_bytes ?new \<union> (ranges_bytes rs \<inter> seg_bytes (seg_of nx))" using step(4) [OF False n(1)] by blast
    moreover have "seg_bytes (seg_of r) = seg_bytes (seg_of cur) \<union> seg_bytes (seg_of nx)"
      using step(3) False by (auto simp: find_ok_def good_range_def split: if_splits)
    ultimately show ?thesis using u n(2) by auto
  qed
qed

interpretation range_set: byte_set "[]" ranges_ok ranges_bytes
  "\<lambda>rs pos len. Insert rs \<lparr>Pos = pos, Size = len\<rparr>" "\<lambda>rs pos len. Remove rs \<lparr>Pos = pos, Size = len\<rparr>"
  "\<lambda>rs pos len. Present rs \<lparr>Pos = pos, Size = len\<rparr>"
proof unfold_locales
  fix rs :: Ranges and pos len :: int
  assume ok: "ranges_ok rs" and v: "valid_range pos len"
  let ?r = "\<lparr>Pos = pos, Size = len\<rparr>"
  have g: "len = 0 \<or> good_range ?r" using v by (auto simp: good_range_def)
  have e: "Insert rs ?r = rs" "Remove rs ?r = rs" "Present rs ?r" if "len = 0"
    using that by (simp_all add: Insert_def Remove_def Present_def IsEmpty_def)
  show "ranges_ok (Insert rs ?r)" "ranges_bytes (Insert rs ?r) = ranges_bytes rs \<union> {pos..<pos + len}"
    "ranges_ok (Remove rs ?r)" "ranges_bytes (Remove rs ?r) = ranges_bytes rs - {pos..<pos + len}"
    "Present rs ?r \<longleftrightarrow> {pos..<pos + len} \<subseteq> ranges_bytes rs"
    using g e ok Insert_spec [OF ok, of ?r] Remove_spec [OF ok, of ?r] Present_iff [OF ok, of ?r] by auto
qed (simp_all add: ranges_ok_def ranges_bytes_def)

lemma Ranges_Size_fold:
  assumes "gapped (range_segs rs)" "\<forall>r \<in> set rs. good_range r" "0 \<le> n" "n + int (card (cover (range_segs rs))) \<le> max_i64"
  shows "fold (\<lambda>r size. i64 (size + Size r)) rs n = n + int (card (cover (range_segs rs)))"
  using assms
proof (induction rs arbitrary: n)
  case (Cons r rs)
  have fin: "finite (cover ss)" for ss by (induction ss) auto
  have "seg_bytes (seg_of r) \<inter> cover (range_segs rs) = {}"
    using cover_Cons_after [of "seg_of r" "range_segs rs"] Cons.prems(1) by fastforce
  then have "card (cover (range_segs (r # rs))) = card (seg_bytes (seg_of r)) + card (cover (range_segs rs))"
    using fin by (simp add: card_Un_disjoint)
  then have c: "int (card (cover (range_segs (r # rs)))) = Size r + int (card (cover (range_segs rs)))"
    using Cons.prems(2) by (simp add: good_range_def)
  have "i64 (n + Size r) = n + Size r" using Cons.prems c by (intro i64_id) (auto simp: good_range_def)
  then show ?case using Cons.IH [of "n + Size r"] Cons.prems c by (auto simp: good_range_def)
qed simp

section \<open>Properties\<close>

text \<open>\<^verbatim>\<open>FindAll\<close> returns for every well-formed query, and its result cuts the query into consecutive
  non-empty pieces, each of which is entirely present or entirely absent as its flag says.\<close>

lemma FindAll_tiles:
  assumes "ranges_ok rs" "good_range r"
  shows "\<exists>frs. FindAll rs r = Some frs \<and> tiles rs (Pos r) (Pos r + Size r) frs"
  using find_all_loop_tiles [OF assms, of "[]"] by (simp add: FindAll_def)

text \<open>\<^verbatim>\<open>Intersection\<close> returns and keeps exactly the present bytes inside the query, again sorted and
  coalesced; \<^verbatim>\<open>FindMissing\<close> skips exactly the leading present part of the query and keeps its end; \<^verbatim>\<open>Size\<close>
  counts the present bytes.\<close>

lemma Ranges_queries:
  assumes "ranges_ok rs" "good_range r"
  shows "(\<exists>out. Ranges_Intersection rs r = Some out \<and> ranges_ok out \<and>
      ranges_bytes out = ranges_bytes rs \<inter> {Pos r..<Pos r + Size r}) \<and>
    (let m = FindMissing rs r in Pos m + Size m = Pos r + Size r \<and> Pos r \<le> Pos m \<and>
      {Pos r..<Pos m} \<subseteq> ranges_bytes rs \<and> (Size m = 0 \<or> Pos m \<notin> ranges_bytes rs)) \<and>
    Ranges_Size rs = int (card (ranges_bytes rs))"
proof (intro conjI)
  show "\<exists>out. Ranges_Intersection rs r = Some out \<and> ranges_ok out \<and> ranges_bytes out = ranges_bytes rs \<inter> {Pos r..<Pos r + Size r}"
  proof (cases "rs = []")
    case False
    then show ?thesis
      using intersection_loop_bytes [OF assms, of "[]"] by (simp add: Ranges_Intersection_def ranges_ok_def ranges_bytes_def)
  qed (simp add: Ranges_Intersection_def ranges_ok_def ranges_bytes_def)
  obtain cur nx p where f: "Find rs r = (cur, nx, p)" by (cases "Find rs r") auto
  have fo: "find_ok rs r (cur, nx, p)" using Find_ok [OF assms] f by simp
  note d = find_okD [OF fo]
  have ne: "\<not> IsEmpty r" using assms(2) by (simp add: IsEmpty_def good_range_def)
  have e: "End cur = Pos cur + Size cur" "i64 (Size r - i64 (End cur - Pos r)) = Size r - Size cur"
    using d(1-3) assms(2) by (simp_all add: End_good) (simp add: good_range_def i64_id)
  show "let m = FindMissing rs r in Pos m + Size m = Pos r + Size r \<and> Pos r \<le> Pos m \<and>
      {Pos r..<Pos m} \<subseteq> ranges_bytes rs \<and> (Size m = 0 \<or> Pos m \<notin> ranges_bytes rs)"
  proof (cases p)
    case True
    have m: "FindMissing rs r = \<lparr>Pos = Pos cur + Size cur, Size = Size r - Size cur\<rparr>"
      using ne True e by (simp add: FindMissing_def f)
    show ?thesis using d(1-4,6) True unfolding m by (auto simp: good_range_def)
  next
    case False
    have m: "FindMissing rs r = r" using ne False by (simp add: FindMissing_def f)
    have "Pos r \<in> seg_bytes (seg_of cur)" using d(1,2) by (simp add: good_range_def)
    then show ?thesis using d(5) [OF False] unfolding m Let_def by auto
  qed
  have "ranges_bytes rs \<subseteq> {0..<max_i64}"
    using assms(1) cover_bounded by (auto simp: ranges_ok_def ranges_bytes_def)
  then have "card (ranges_bytes rs) \<le> card {0..<max_i64}" by (intro card_mono) auto
  then show "Ranges_Size rs = int (card (ranges_bytes rs))"
    using Ranges_Size_fold [of rs 0] assms(1) ranges_ok_good [OF assms(1)]
    by (simp add: Ranges_Size_def ranges_bytes_def ranges_ok_def)
qed

text \<open>The representation is canonical: two well-formed range sets are \<^verbatim>\<open>Equal\<close> exactly when they contain
  the same bytes.\<close>

lemma Equal_canonical:
  assumes "ranges_ok rs" "ranges_ok bs"
  shows "Equal rs bs \<longleftrightarrow> ranges_bytes rs = ranges_bytes bs"
proof
  assume "Equal rs bs"
  then show "ranges_bytes rs = ranges_bytes bs" by (auto simp: Equal_def list.rel_eq split: if_splits)
next
  assume "ranges_bytes rs = ranges_bytes bs"
  then have "range_segs rs = range_segs bs"
    using assms gapped_cover_inj by (simp add: ranges_ok_def ranges_bytes_def)
  moreover have "inj seg_of" by (auto simp: inj_on_def seg_of_def)
  ultimately have "rs = bs" using inj_map_eq_map by blast
  then show "Equal rs bs" by (simp add: Equal_def list.rel_eq)
qed

end
