(* ===== verification/Float64.thy ===== *)
theory Float64
  imports Complex_Main Prelude
begin

text \<open>
  Go's \<^verbatim>\<open>float64\<close> as the components use it: finite values, as rationals, every operation rounded to 53
  significant bits, ties to the even significand. The exponent range is not bounded, which the uses
  here never reach: they convert 64-bit integers and multiply or divide them by ratios of ordinary size.
\<close>

section \<open>Rounding\<close>

fun bits :: "nat \<Rightarrow> nat" where
  "bits n = (if n = 0 then 0 else Suc (bits (n div 2)))"

declare bits.simps [simp del]

definition round_even :: "rat \<Rightarrow> int" where
  "round_even x =
     (let f = \<lfloor>x\<rfloor>; d = x - of_int f
      in if d < 1 / 2 then f else if d > 1 / 2 then f + 1 else if even f then f else f + 1)"

text \<open>The binary exponent of a positive rational: the \<open>e\<close> with \<open>2 ^ e \<le> x < 2 ^ (e + 1)\<close>.\<close>

definition exponent :: "rat \<Rightarrow> int" where
  "exponent x =
     (let (p, q) = quotient_of x;
          k = int (bits (nat p)) - int (bits (nat q))
      in if x < 2 powi k then k - 1 else k)"

definition fl_pos :: "rat \<Rightarrow> rat" where
  "fl_pos x = (let ulp = 2 powi (exponent x - 52) in of_int (round_even (x / ulp)) * ulp)"

definition fl :: "rat \<Rightarrow> rat" where
  "fl x = (if x = 0 then 0 else if x < 0 then - fl_pos (- x) else fl_pos x)"

definition float_of_int :: "int \<Rightarrow> rat" where
  "float_of_int n = fl (of_int n)"

section \<open>Accuracy\<close>

lemma bits_bounds: "0 < n \<Longrightarrow> 2 ^ (bits n - 1) \<le> n \<and> n < 2 ^ bits n \<and> 0 < bits n"
proof (induction n rule: bits.induct)
  case (1 n)
  show ?case
  proof (cases "n div 2 = 0")
    case True
    then show ?thesis using "1.prems" by (simp add: bits.simps [of n] bits.simps [of 0])
  next
    case False
    then have ih: "2 ^ (bits (n div 2) - 1) \<le> n div 2" "n div 2 < 2 ^ bits (n div 2)" "0 < bits (n div 2)"
      using "1.IH" "1.prems" by auto
    from ih(3) obtain k where k: "bits (n div 2) = Suc k" by (cases "bits (n div 2)") auto
    show ?thesis using ih "1.prems" by (simp add: bits.simps [of n] k) linarith
  qed
qed

lemma bits_powi:
  assumes "0 < p"
  shows "2 powi (int (bits (nat p)) - 1) \<le> (of_int p :: rat)" "(of_int p :: rat) < 2 powi int (bits (nat p))"
proof -
  have A: "2 ^ (bits (nat p) - 1) \<le> nat p" "nat p < 2 ^ bits (nat p)" "0 < bits (nat p)"
    using bits_bounds [of "nat p"] assms by auto
  have p: "(of_int p :: rat) = of_nat (nat p)" using assms by simp
  have "(2::rat) powi (int (bits (nat p)) - 1) = of_nat (2 ^ (bits (nat p) - 1))"
    using A(3) by (simp add: power_int_def nat_diff_distrib')
  also have "\<dots> \<le> of_nat (nat p)" using A(1) by (rule of_nat_mono)
  finally show "2 powi (int (bits (nat p)) - 1) \<le> (of_int p :: rat)" unfolding p .
  have "(of_nat (nat p) :: rat) < of_nat (2 ^ bits (nat p))" using A(2) by (rule of_nat_less_iff [THEN iffD2])
  then show "(of_int p :: rat) < 2 powi int (bits (nat p))" unfolding p by simp
qed

lemma exponent_bounds:
  assumes "0 < x"
  shows "2 powi exponent x \<le> x" "x < 2 powi (exponent x + 1)"
proof -
  obtain p q where pq: "quotient_of x = (p, q)" by fastforce
  then have x: "x = of_int p / of_int q" and q: "0 < q" by (simp_all add: quotient_of_div quotient_of_denom_pos)
  with assms have p: "0 < p" by (simp add: zero_less_divide_iff)
  define a b where "a = bits (nat p)" and "b = bits (nat q)"
  note A' = bits_powi [OF p, folded a_def] and B' = bits_powi [OF q, folded b_def]
  let ?k = "int a - int b"
  have lo: "2 powi (?k - 1) \<le> x"
  proof -
    have "(2::rat) powi (?k - 1) = 2 powi (int a - 1) / 2 powi int b" by (simp add: power_int_diff)
    also have "\<dots> \<le> x" unfolding x using A' B' q p by (intro frac_le) (auto intro: order.strict_implies_order)
    finally show ?thesis .
  qed
  have hi: "x < 2 powi (?k + 1)"
  proof -
    have "x < 2 powi int a / 2 powi (int b - 1)" unfolding x using A' B' q p by (intro frac_less) auto
    also have "\<dots> = 2 powi (?k + 1)" by (simp add: power_int_diff power_int_add field_simps)
    finally show ?thesis .
  qed
  have "exponent x = (if x < 2 powi ?k then ?k - 1 else ?k)" by (simp add: exponent_def pq a_def b_def)
  then show "2 powi exponent x \<le> x" "x < 2 powi (exponent x + 1)" using lo hi by auto
qed

lemma round_even_error: "\<bar>of_int (round_even x) - x\<bar> \<le> 1 / 2"
proof -
  have "of_int \<lfloor>x\<rfloor> \<le> x" "x < of_int \<lfloor>x\<rfloor> + 1" by linarith+
  then show ?thesis by (auto simp: round_even_def Let_def)
qed

lemma round_even_int [simp]: "round_even (of_int n) = n"
  by (simp add: round_even_def)

lemma fl_0 [simp]: "fl 0 = 0"
  by (simp add: fl_def)

lemma fl_error:
  assumes "0 \<le> x"
  shows "\<bar>fl x - x\<bar> \<le> x / 2 ^ 53"
proof (cases "x = 0")
  case False
  define ulp :: rat where "ulp = 2 powi (exponent x - 52)"
  have u: "0 < ulp" by (simp add: ulp_def)
  have "fl x - x = (of_int (round_even (x / ulp)) - x / ulp) * ulp"
    using False assms u by (simp add: fl_def fl_pos_def Let_def ulp_def [symmetric] algebra_simps)
  then have "\<bar>fl x - x\<bar> = \<bar>of_int (round_even (x / ulp)) - x / ulp\<bar> * ulp" using u by (simp add: abs_mult)
  also have "\<dots> \<le> 1 / 2 * ulp" using round_even_error u by (intro mult_right_mono) auto
  also have "\<dots> = 2 powi exponent x / 2 ^ 53" by (simp add: ulp_def power_int_diff)
  also have "\<dots> \<le> x / 2 ^ 53" using exponent_bounds(1) [of x] False assms by (intro divide_right_mono) auto
  finally show ?thesis .
qed simp

lemma fl_nonneg: "0 \<le> x \<Longrightarrow> 0 \<le> fl x"
proof -
  assume "0 \<le> x"
  moreover have "x / 2 ^ 53 \<le> x" using \<open>0 \<le> x\<close> by simp
  ultimately show ?thesis using fl_error [of x] by linarith
qed

lemma float_of_int_0 [simp]: "float_of_int 0 = 0"
  by (simp add: float_of_int_def)

text \<open>Comparing an integer with a rounded product loses at most a relative error of three roundings.\<close>

lemma fl_bounds:
  assumes "0 \<le> x"
  shows "x * (1 - 1 / 2 ^ 53) \<le> fl x" "fl x \<le> x * (1 + 1 / 2 ^ 53)"
proof -
  define y where "y = fl x"
  have "y - x \<le> x / 2 ^ 53" "x - y \<le> x / 2 ^ 53" using fl_error [OF assms] unfolding y_def by linarith+
  then show "x * (1 - 1 / 2 ^ 53) \<le> fl x" "fl x \<le> x * (1 + 1 / 2 ^ 53)"
    unfolding y_def [symmetric] by (simp_all add: algebra_simps)
qed

lemma float_compare_sound:
  assumes "0 \<le> n" "0 \<le> m" "0 \<le> r" "float_of_int n \<le> fl (float_of_int m * r)"
  shows "of_int n \<le> of_int m * r * (1 + 1 / 2 ^ 50)"
proof -
  let ?e = "1 / 2 ^ 53 :: rat"
  have a: "of_int n * (1 - ?e) \<le> float_of_int n"
    unfolding float_of_int_def using assms(1) by (intro fl_bounds(1)) simp
  have b: "float_of_int m \<le> of_int m * (1 + ?e)" "0 \<le> float_of_int m"
    unfolding float_of_int_def using assms(2) by (intro fl_bounds(2) fl_nonneg; simp)+
  have "fl (float_of_int m * r) \<le> float_of_int m * r * (1 + ?e)"
    using b(2) assms(3) by (intro fl_bounds(2)) simp
  also have "\<dots> \<le> of_int m * (1 + ?e) * r * (1 + ?e)"
    using b assms(3) by (intro mult_right_mono) auto
  also have "\<dots> = of_int m * r * ((1 + ?e) * (1 + ?e))" by (simp only: mult.assoc mult.commute mult.left_commute)
  finally have "of_int n * (1 - ?e) \<le> of_int m * r * ((1 + ?e) * (1 + ?e))" using a assms(4) by linarith
  also have "\<dots> \<le> of_int m * r * ((1 + 1 / 2 ^ 50) * (1 - ?e))"
    using assms(2,3) by (intro mult_left_mono) auto
  finally have "of_int n * (1 - ?e) \<le> (of_int m * r * (1 + 1 / 2 ^ 50)) * (1 - ?e)" by (simp add: mult.assoc)
  then show ?thesis by (subst (asm) mult_le_cancel_right_pos) auto
qed

end
