(* ===== verification/Transition.thy ===== *)
theory Transition
  imports Main
begin

text \<open>
  Labelled transition systems: a component with long-lived state is a set of initial states and a step
  relation whose labels are its operations. The locale \<open>invariant\<close> is the interface every such component
  interprets: what holds initially and is kept by each step holds in every reachable state, and along
  every run.
\<close>

inductive reachable :: "('s \<Rightarrow> bool) \<Rightarrow> ('l \<Rightarrow> 's \<Rightarrow> 's \<Rightarrow> bool) \<Rightarrow> 's \<Rightarrow> bool"
  for init :: "'s \<Rightarrow> bool" and step :: "'l \<Rightarrow> 's \<Rightarrow> 's \<Rightarrow> bool" where
  reach_init: "init s \<Longrightarrow> reachable init step s"
| reach_step: "reachable init step s \<Longrightarrow> step l s t \<Longrightarrow> reachable init step t"

inductive trace :: "('l \<Rightarrow> 's \<Rightarrow> 's \<Rightarrow> bool) \<Rightarrow> 's \<Rightarrow> 'l list \<Rightarrow> 's \<Rightarrow> bool"
  for step :: "'l \<Rightarrow> 's \<Rightarrow> 's \<Rightarrow> bool" where
  trace_Nil: "trace step s [] s"
| trace_Cons: "step l s t \<Longrightarrow> trace step t ls u \<Longrightarrow> trace step s (l # ls) u"

inductive_simps trace_Nil_iff [simp]: "trace step s [] t"
inductive_simps trace_Cons_iff [simp]: "trace step s (l # ls) t"

text \<open>A property kept by the steps whose labels satisfy \<open>P\<close> is kept by runs of such steps.\<close>

lemma trace_preserves:
  assumes "trace step s ls t" "I s" "\<forall>l \<in> set ls. P l" "\<And>l s t. step l s t \<Longrightarrow> P l \<Longrightarrow> I s \<Longrightarrow> I t"
  shows "I t"
  using assms(1-3)
proof (induction rule: trace.induct)
  case (trace_Cons l s t ls u)
  then show ?case using assms(4) by auto
qed simp

lemma reachable_trace: "reachable init step s \<Longrightarrow> trace step s ls t \<Longrightarrow> reachable init step t"
  by (rotate_tac, induction rule: trace.induct) (auto intro: reach_step)

locale invariant =
  fixes init :: "'s \<Rightarrow> bool"
    and step :: "'l \<Rightarrow> 's \<Rightarrow> 's \<Rightarrow> bool"
    and I :: "'s \<Rightarrow> bool"
  assumes init_inv: "init s \<Longrightarrow> I s"
    and step_inv: "I s \<Longrightarrow> step l s t \<Longrightarrow> I t"
begin

lemma reachable_inv: "reachable init step s \<Longrightarrow> I s"
  by (induction rule: reachable.induct) (auto intro: init_inv step_inv)

lemma trace_inv: "trace step s ls t \<Longrightarrow> I s \<Longrightarrow> I t"
  by (induction rule: trace.induct) (auto intro: step_inv)

end

text \<open>A component that refines an abstract one: every step that keeps the invariant is a step of the abstract system with the
  same label, so every run is a run of it.\<close>

locale refinement = invariant init step I
  for init :: "'s \<Rightarrow> bool" and step :: "'l \<Rightarrow> 's \<Rightarrow> 's \<Rightarrow> bool" and I :: "'s \<Rightarrow> bool" +
  fixes astep :: "'l \<Rightarrow> 'a \<Rightarrow> 'a \<Rightarrow> bool"
    and abs :: "'s \<Rightarrow> 'a"
  assumes step_sim: "I s \<Longrightarrow> step l s t \<Longrightarrow> astep l (abs s) (abs t)"
begin

lemma trace_sim: "trace step s ls t \<Longrightarrow> I s \<Longrightarrow> trace astep (abs s) ls (abs t)"
  by (induction rule: trace.induct) (auto intro: step_inv step_sim)

end

end
