(* ===== verification/Go_Strings.thy ===== *)
theory Go_Strings
  imports Prelude
begin

text \<open>
  The functions on strings that the components take from Go's standard library. A string is the list
  of its bytes.
\<close>

section \<open>Definitions\<close>

text \<open>\<^verbatim>\<open>strconv.Itoa\<close>.\<close>

fun decimal :: "nat \<Rightarrow> string" where
  "decimal n = (if n < 10 then [char_of (48 + n)] else decimal (n div 10) @ [char_of (48 + n mod 10)])"

declare decimal.simps [simp del]

definition Itoa :: "int \<Rightarrow> string" where
  "Itoa i = (if i < 0 then ''-'' @ decimal (nat (- i)) else decimal (nat i))"

text \<open>\<^verbatim>\<open>filepath.Ext\<close>: the suffix from the last dot after the last separator.\<close>

fun ext_loop :: "string \<Rightarrow> string \<Rightarrow> string" where
  "ext_loop [] suffix = []"
| "ext_loop (c # rest) suffix =
     (if c = CHR ''/'' then [] else if c = CHR ''.'' then c # suffix else ext_loop rest (c # suffix))"

definition filepath_Ext :: "string \<Rightarrow> string" where
  "filepath_Ext path = ext_loop (rev path) []"

text \<open>\<^verbatim>\<open>strings.ToLower\<close> as far as a comparison with ASCII strings can see it: besides the ASCII capitals,
  the only runes whose lower case is ASCII are U+0130 (i) and U+212A (k); no other rune becomes ASCII.\<close>

function lower_ascii :: "string \<Rightarrow> string" where
  "lower_ascii [] = []"
| "lower_ascii (c # s) =
     (if c = CHR 0xC4 \<and> take 1 s = [CHR 0xB0] then CHR ''i'' # lower_ascii (drop 1 s)
      else if c = CHR 0xE2 \<and> take 2 s = [CHR 0x84, CHR 0xAA] then CHR ''k'' # lower_ascii (drop 2 s)
      else if (of_char c :: nat) \<ge> 65 \<and> (of_char c :: nat) \<le> 90 then char_of ((of_char c :: nat) + 32) # lower_ascii s
      else c # lower_ascii s)"
  by pat_completeness auto
termination
  by (relation "measure length") auto

text \<open>\<^verbatim>\<open>strings.Contains\<close> and \<^verbatim>\<open>strings.Join\<close>.\<close>

fun has_prefix :: "string \<Rightarrow> string \<Rightarrow> bool" where
  "has_prefix [] s = True"
| "has_prefix (p # ps) [] = False"
| "has_prefix (p # ps) (c # s) = (p = c \<and> has_prefix ps s)"

fun strings_Contains :: "string \<Rightarrow> string \<Rightarrow> bool" where
  "strings_Contains [] sub = (sub = [])"
| "strings_Contains (c # s) sub = (has_prefix sub (c # s) \<or> strings_Contains s sub)"

fun strings_Join :: "string list \<Rightarrow> string \<Rightarrow> string" where
  "strings_Join [] sep = []"
| "strings_Join [s] sep = s"
| "strings_Join (s # t # ts) sep = s @ sep @ strings_Join (t # ts) sep"

text \<open>\<^verbatim>\<open>strings.TrimSpace\<close>: the UTF-8 encodings of the runes that \<^verbatim>\<open>unicode.IsSpace\<close> accepts, stripped from both
  ends.\<close>

definition white_runes :: "string list" where
  "white_runes =
     map (\<lambda>n. [char_of (n :: nat)]) [9, 10, 11, 12, 13, 32] @ [[CHR 0xC2, CHR 0x85], [CHR 0xC2, CHR 0xA0], [CHR 0xE1, CHR 0x9A, CHR 0x80]] @
     map (\<lambda>n. [CHR 0xE2, CHR 0x80, char_of n]) ([0x80..<0x8B] @ [0xA8, 0xA9, 0xAF]) @ [[CHR 0xE2, CHR 0x81, CHR 0x9F], [CHR 0xE3, CHR 0x80, CHR 0x80]]"

lemma has_prefix_length: "has_prefix p s \<Longrightarrow> length p \<le> length s"
  by (induction p s rule: has_prefix.induct) auto

function strip_leading :: "string list \<Rightarrow> string \<Rightarrow> string" where
  "strip_leading ws s =
     (case find (\<lambda>w. w \<noteq> [] \<and> has_prefix w s) ws of None \<Rightarrow> s | Some w \<Rightarrow> strip_leading ws (drop (length w) s))"
  by pat_completeness auto
termination
  by (relation "measure (\<lambda>(ws, s). length s)")
    (auto dest!: has_prefix_length simp: find_Some_iff intro!: diff_less elim: order_less_le_trans [rotated])

declare strip_leading.simps [simp del]

definition strings_TrimSpace :: "string \<Rightarrow> string" where
  "strings_TrimSpace s = rev (strip_leading (map rev white_runes) (rev (strip_leading white_runes s)))"

text \<open>\<^verbatim>\<open>hex.EncodeToString\<close>.\<close>

definition hex_digit :: "nat \<Rightarrow> char" where
  "hex_digit n = (if n < 10 then char_of (48 + n) else char_of (87 + n))"

definition hex_encode :: "bytes \<Rightarrow> string" where
  "hex_encode bs = concat (map (\<lambda>b. [hex_digit (unat b div 16), hex_digit (unat b mod 16)]) bs)"

section \<open>Decimal numerals\<close>

fun value_of :: "string \<Rightarrow> nat" where
  "value_of s = foldl (\<lambda>v c. 10 * v + (of_char c - 48)) 0 s"

declare value_of.simps [simp del]

lemma value_of_decimal: "value_of (decimal n) = n"
proof (induction n rule: decimal.induct)
  case (1 n)
  show ?case
  proof (cases "n < 10")
    case True
    then show ?thesis by (simp add: decimal.simps [of n] value_of.simps)
  next
    case False
    have "value_of (decimal (n div 10) @ [char_of (48 + n mod 10)]) = 10 * value_of (decimal (n div 10)) + n mod 10"
      by (simp add: value_of.simps)
    then show ?thesis using "1.IH" False by (simp add: decimal.simps [of n])
  qed
qed

lemma decimal_digits: "set (decimal n) \<subseteq> {c. 48 \<le> (of_char c :: nat) \<and> (of_char c :: nat) \<le> 57}"
proof (induction n rule: decimal.induct)
  case (1 n)
  show ?case
  proof (cases "n < 10")
    case True
    then show ?thesis by (simp add: decimal.simps [of n])
  next
    case False
    then have "set (decimal n) = insert (char_of (48 + n mod 10)) (set (decimal (n div 10)))" by (simp add: decimal.simps [of n])
    then show ?thesis using "1.IH" False by auto
  qed
qed

lemma decimal_inj: "decimal m = decimal n \<longleftrightarrow> m = n"
  using value_of_decimal by metis

lemma decimal_no_char: "(of_char c :: nat) < 48 \<or> 57 < (of_char c :: nat) \<Longrightarrow> c \<notin> set (decimal n)"
  using decimal_digits by fastforce

lemma Itoa_inj: "Itoa i = Itoa j \<longleftrightarrow> i = j"
proof -
  have "CHR ''-'' \<notin> set (decimal n)" for n by (rule decimal_no_char) simp
  then have "decimal m \<noteq> ''-'' @ decimal n" for m n by (metis append_Cons list.set_intros(1))
  then show ?thesis by (auto simp: Itoa_def decimal_inj split: if_splits) (metis append_Cons)+
qed

lemma Itoa_no_colon: "CHR '':'' \<notin> set (Itoa i)"
  using decimal_no_char [of "CHR '':''"] by (simp add: Itoa_def)

end
