(* ===== verification/Overlay.thy ===== *)
theory Overlay
  imports Float64 Transition Go_Strings "HOL-Library.AList" "HOL-Library.Char_ord" "HOL-Library.List_Lexorder"
begin

text \<open>
  The overlay store: \<^verbatim>\<open>src/pkg/usenet/overlay/overlay.go\<close> and \<^verbatim>\<open>policy.go\<close>. It records the articles confirmed
  missing, decides whether a hole may be padded with zeros, and keeps the bytes PAR2 recovered.

  The state \<open>Store\<close> is what the code keeps in memory (rejected and swept entries, logged pads, caps,
  installed callbacks) and what it keeps on disk (entry directories, one manifest file per entry, the
  patch blobs); callbacks are code of other packages and appear as events. Each operation holds the
  entry's mutex from its load to its save, so it is one step; \<^verbatim>\<open>PatchBytes\<close> releases the mutex before it
  opens the blob, so it reads two states. What the file system answers is the argument \<open>io\<close> of each
  operation: every failing system call of the source is a value of it. A manifest file holds the
  manifest itself (the JSON encoding is transparent) or something that does not decode. A blob's path
  is its entry, the FNV-1a hash of the file name and the segment index, which the source prints into
  the name. Entry identifiers are taken to be single path components.
\<close>

section \<open>Data\<close>

datatype Verdict = VerdictClean | VerdictDegraded | VerdictFailed

datatype SegmentStatus = StatusDead | StatusPadded | StatusPatched

datatype Decision = DecisionFail | DecisionPad

record DeadSegment =
  Index :: int
  MessageID :: string
  Bytes :: int
  Status :: SegmentStatus
  PatchLen :: int

record FileEntry =
  DeadSegments :: "DeadSegment list"
  fe_verdict :: Verdict
  CoverageFraction :: rat

record Manifest =
  Version :: int
  Files :: "(string \<times> FileEntry) list"

record Policy =
  MaxRunSegments :: int
  MaxTotalSegments :: int
  MaxByteRatio :: rat

datatype manifest_file = Undecodable | Stored Manifest

datatype event = EnqueueRepair string int | FailedNotify string string | ViewerPadNotify string string

record Store =
  dirs :: "string set"
  manifests :: "string \<rightharpoonup> manifest_file"
  blobs :: "string \<times> u64 \<times> int \<rightharpoonup> bytes"
  loggedPads :: "string set"
  rejected :: "string set"
  sweepEntries :: "string \<rightharpoonup> bool"
  store_policy :: "Policy option"
  repairEnqueue :: bool
  viewerPadNotify :: bool
  failedNotify :: bool
  events :: "event list"

datatype write_io = MkdirFails | WriteFails | WriteOk

datatype remove_io = Removed | RemoveFails bool "u64 \<times> int \<Rightarrow> bool"

record io =
  manifest_readable :: bool
  save_io :: write_io
  patch_io :: write_io
  blob_readable :: bool
  unlink_ok :: "int \<Rightarrow> bool"
  removeAll_io :: remove_io

datatype overlay_error = RootRequired | CreateRoot | ReadManifest | DecodeManifest | SaveDir | SaveFile
  | PatchDir | PatchFile | ErrEntryRejected | PatchSize int int int | RemoveEntry | NilHandle

definition manifestVersion :: int where "manifestVersion = 1"

section \<open>The store\<close>

definition NewStore :: "string \<Rightarrow> bool \<Rightarrow> Store \<Rightarrow> overlay_error + Store" where
  "NewStore rootDir mkdir_ok disk =
     (if rootDir = [] then Inl RootRequired
      else if \<not> mkdir_ok then Inl CreateRoot
      else Inr (disk\<lparr>loggedPads := {}, rejected := {}, sweepEntries := Map.empty, store_policy := None,
                     repairEnqueue := False, viewerPadNotify := False, failedNotify := False\<rparr>))"

definition SetRepairEnqueuer :: "bool \<Rightarrow> Store \<Rightarrow> Store" where
  "SetRepairEnqueuer installed s = s\<lparr>repairEnqueue := installed\<rparr>"

definition SetFailedNotifier :: "bool \<Rightarrow> Store \<Rightarrow> Store" where
  "SetFailedNotifier installed s = s\<lparr>failedNotify := installed\<rparr>"

definition SetViewerPadNotifier :: "bool \<Rightarrow> Store \<Rightarrow> Store" where
  "SetViewerPadNotifier installed s = s\<lparr>viewerPadNotify := installed\<rparr>"

definition notifyFailed :: "string \<Rightarrow> string \<Rightarrow> Store \<Rightarrow> Store" where
  "notifyFailed nzbID file s =
     (if failedNotify s then s\<lparr>events := events s @ [FailedNotify nzbID file]\<rparr> else s)"

definition notifyViewerPad :: "string \<Rightarrow> string \<Rightarrow> Store \<Rightarrow> Store" where
  "notifyViewerPad nzbID file s =
     (if viewerPadNotify s then s\<lparr>events := events s @ [ViewerPadNotify nzbID file]\<rparr> else s)"

definition DefaultPolicy :: Policy where
  "DefaultPolicy = \<lparr>MaxRunSegments = 4, MaxTotalSegments = 64, MaxByteRatio = fl (2 / 100)\<rparr>"

definition SetPolicy :: "Policy \<Rightarrow> Store \<Rightarrow> Store" where
  "SetPolicy p s = s\<lparr>store_policy := Some p\<rparr>"

definition Store_Policy :: "Store \<Rightarrow> Policy" where
  "Store_Policy s = (case store_policy s of Some p \<Rightarrow> p | None \<Rightarrow> DefaultPolicy)"

definition MarkRejected :: "string \<Rightarrow> Store \<Rightarrow> Store" where
  "MarkRejected nzbID s = (if nzbID = [] then s else s\<lparr>rejected := insert nzbID (rejected s)\<rparr>)"

definition ClearRejected :: "string \<Rightarrow> Store \<Rightarrow> Store" where
  "ClearRejected nzbID s = (if nzbID = [] then s else s\<lparr>rejected := rejected s - {nzbID}\<rparr>)"

definition isRejected :: "string \<Rightarrow> Store \<Rightarrow> bool" where
  "isRejected nzbID s \<longleftrightarrow> nzbID \<in> rejected s"

definition MarkSweepEntry :: "string \<Rightarrow> Store \<Rightarrow> Store" where
  "MarkSweepEntry nzbID s =
     (if nzbID = [] then s
      else case sweepEntries s nzbID of
             Some _ \<Rightarrow> s
           | None \<Rightarrow> s\<lparr>sweepEntries := (sweepEntries s)(nzbID \<mapsto> False)\<rparr>)"

definition ClearSweepEntry :: "string \<Rightarrow> Store \<Rightarrow> Store" where
  "ClearSweepEntry nzbID s = (if nzbID = [] then s else s\<lparr>sweepEntries := (sweepEntries s)(nzbID := None)\<rparr>)"

definition IsEntrySweepActive :: "string \<Rightarrow> Store \<Rightarrow> bool" where
  "IsEntrySweepActive nzbID s = (if nzbID = [] then False else sweepEntries s nzbID \<noteq> None)"

definition MarkSweepDead :: "string \<Rightarrow> Store \<Rightarrow> Store" where
  "MarkSweepDead nzbID s =
     (if nzbID = [] then s
      else case sweepEntries s nzbID of
             Some _ \<Rightarrow> s\<lparr>sweepEntries := (sweepEntries s)(nzbID \<mapsto> True)\<rparr>
           | None \<Rightarrow> s)"

definition IsEntrySweepDead :: "string \<Rightarrow> Store \<Rightarrow> bool" where
  "IsEntrySweepDead nzbID s =
     (if nzbID = [] then False else case sweepEntries s nzbID of Some deadSeen \<Rightarrow> deadSeen | None \<Rightarrow> False)"

text \<open>FNV-1a over the bytes of the file name, as \<^verbatim>\<open>hash/fnv\<close> computes it.\<close>

definition fnv64a :: "string \<Rightarrow> u64" where
  "fnv64a name = fold (\<lambda>b h. (h XOR ucast b) * 1099511628211) (map (of_char :: char \<Rightarrow> byte) name) 14695981039346656037"

definition patchPath :: "string \<Rightarrow> string \<Rightarrow> int \<Rightarrow> string \<times> u64 \<times> int" where
  "patchPath nzbID file segIndex = (nzbID, fnv64a file, segIndex)"

definition emptyManifest :: Manifest where
  "emptyManifest = \<lparr>Version = manifestVersion, Files = []\<rparr>"

definition loadManifestLocked :: "io \<Rightarrow> string \<Rightarrow> Store \<Rightarrow> overlay_error + Manifest" where
  "loadManifestLocked io nzbID s =
     (if \<not> manifest_readable io then Inl ReadManifest
      else case manifests s nzbID of
             None \<Rightarrow> Inr emptyManifest
           | Some Undecodable \<Rightarrow> Inl DecodeManifest
           | Some (Stored m) \<Rightarrow> Inr (if Version m = 0 then m\<lparr>Version := manifestVersion\<rparr> else m))"

definition saveManifestLocked :: "io \<Rightarrow> string \<Rightarrow> Manifest \<Rightarrow> Store \<Rightarrow> overlay_error option \<times> Store" where
  "saveManifestLocked io nzbID m s =
     (case save_io io of
        MkdirFails \<Rightarrow> (Some SaveDir, s)
      | WriteFails \<Rightarrow> (Some SaveFile, s\<lparr>dirs := insert nzbID (dirs s)\<rparr>)
      | WriteOk \<Rightarrow> (None, s\<lparr>dirs := insert nzbID (dirs s), manifests := (manifests s)(nzbID \<mapsto> Stored m)\<rparr>))"

definition writeFileAtomic :: "io \<Rightarrow> string \<Rightarrow> string \<times> u64 \<times> int \<Rightarrow> bytes \<Rightarrow> Store \<Rightarrow> overlay_error option \<times> Store" where
  "writeFileAtomic io nzbID path data s =
     (case patch_io io of
        MkdirFails \<Rightarrow> (Some PatchDir, s)
      | WriteFails \<Rightarrow> (Some PatchFile, s\<lparr>dirs := insert nzbID (dirs s)\<rparr>)
      | WriteOk \<Rightarrow> (None, s\<lparr>dirs := insert nzbID (dirs s), blobs := (blobs s)(path \<mapsto> data)\<rparr>))"

text \<open>\<^verbatim>\<open>os.RemoveAll\<close> of an entry's directory; a failing removal may already have removed some of the files.\<close>

definition removeEntryDir :: "io \<Rightarrow> string \<Rightarrow> Store \<Rightarrow> overlay_error option \<times> Store" where
  "removeEntryDir io nzbID s =
     (case removeAll_io io of
        Removed \<Rightarrow> (None, s\<lparr>dirs := dirs s - {nzbID}, manifests := (manifests s)(nzbID := None),
                          blobs := (\<lambda>(n, k). if n = nzbID then None else blobs s (n, k))\<rparr>)
      | RemoveFails keepManifest keepBlob \<Rightarrow>
          (Some RemoveEntry, s\<lparr>manifests := (if keepManifest then manifests s else (manifests s)(nzbID := None)),
                               blobs := (\<lambda>(n, k). if n = nzbID \<and> \<not> keepBlob k then None else blobs s (n, k))\<rparr>))"

definition newFileEntry :: FileEntry where
  "newFileEntry = \<lparr>DeadSegments = [], fe_verdict = VerdictClean, CoverageFraction = 0\<rparr>"

definition fileEntryLocked :: "Manifest \<Rightarrow> string \<Rightarrow> FileEntry" where
  "fileEntryLocked m file = (case map_of (Files m) file of Some fe \<Rightarrow> fe | None \<Rightarrow> newFileEntry)"

text \<open>The entry is a pointer into the manifest, so the caller's changes to it are changes of the manifest.\<close>

definition putFile :: "Manifest \<Rightarrow> string \<Rightarrow> FileEntry \<Rightarrow> Manifest" where
  "putFile m file fe = m\<lparr>Files := AList.update file fe (Files m)\<rparr>"

definition sortDeadSegments :: "FileEntry \<Rightarrow> FileEntry" where
  "sortDeadSegments fe = fe\<lparr>DeadSegments := sort_key Index (DeadSegments fe)\<rparr>"

definition recomputeVerdictLocked :: "FileEntry \<Rightarrow> FileEntry" where
  "recomputeVerdictLocked fe =
     (if fe_verdict fe = VerdictFailed then fe
      else if list_ex (\<lambda>d. Status d \<noteq> StatusPatched) (DeadSegments fe)
      then fe\<lparr>fe_verdict := VerdictDegraded\<rparr>
      else fe\<lparr>fe_verdict := VerdictClean\<rparr>)"

definition known :: "FileEntry \<Rightarrow> int \<Rightarrow> bool" where
  "known fe segIndex \<longleftrightarrow> list_ex (\<lambda>d. Index d = segIndex) (DeadSegments fe)"

definition appendDead :: "FileEntry \<Rightarrow> DeadSegment \<Rightarrow> FileEntry" where
  "appendDead fe d = sortDeadSegments (fe\<lparr>DeadSegments := DeadSegments fe @ [d]\<rparr>)"

definition RecordDead :: "io \<Rightarrow> string \<Rightarrow> string \<Rightarrow> int \<Rightarrow> string \<Rightarrow> int \<Rightarrow> Store \<Rightarrow> overlay_error option \<times> Store" where
  "RecordDead io nzbID file segIndex msgID len s =
     (if isRejected nzbID s then (None, s)
      else case loadManifestLocked io nzbID s of
             Inl err \<Rightarrow> (Some err, s)
           | Inr m \<Rightarrow>
               let fe = fileEntryLocked m file
               in if known fe segIndex then (None, s)
                  else let fe' = recomputeVerdictLocked (appendDead fe
                         \<lparr>Index = segIndex, MessageID = msgID, Bytes = len, Status = StatusDead, PatchLen = 0\<rparr>)
                       in saveManifestLocked io nzbID (putFile m file fe') s)"

text \<open>The manifest is read in state \<open>s\<close>; the blob after the mutex is released, in \<open>s'\<close>.\<close>

definition PatchBytes :: "io \<Rightarrow> string \<Rightarrow> string \<Rightarrow> int \<Rightarrow> Store \<Rightarrow> Store \<Rightarrow> bytes option" where
  "PatchBytes io nzbID file segIndex s s' =
     (case loadManifestLocked io nzbID s of
        Inl err \<Rightarrow> None
      | Inr m \<Rightarrow>
          (case map_of (Files m) file of
             None \<Rightarrow> None
           | Some fe \<Rightarrow>
               if \<not> list_ex (\<lambda>d. Index d = segIndex \<and> Status d = StatusPatched) (DeadSegments fe) then None
               else if \<not> blob_readable io then None
               else blobs s' (patchPath nzbID file segIndex)))"

definition PatchedSegments :: "io \<Rightarrow> string \<Rightarrow> string \<Rightarrow> Store \<Rightarrow> int list" where
  "PatchedSegments io nzbID file s =
     (case loadManifestLocked io nzbID s of
        Inl err \<Rightarrow> []
      | Inr m \<Rightarrow>
          (case map_of (Files m) file of
             None \<Rightarrow> []
           | Some fe \<Rightarrow> map Index (filter (\<lambda>d. Status d = StatusPatched) (DeadSegments fe))))"

text \<open>The first record with the index is the one the loops of the source find.\<close>

fun update_first :: "('a \<Rightarrow> bool) \<Rightarrow> ('a \<Rightarrow> 'a) \<Rightarrow> 'a list \<Rightarrow> 'a list" where
  "update_first P f [] = []"
| "update_first P f (x # xs) = (if P x then f x # xs else x # update_first P f xs)"

definition WritePatch :: "io \<Rightarrow> string \<Rightarrow> string \<Rightarrow> int \<Rightarrow> bytes \<Rightarrow> Store \<Rightarrow> overlay_error option \<times> Store" where
  "WritePatch io nzbID file segIndex data s =
     (if isRejected nzbID s then (Some ErrEntryRejected, s)
      else case loadManifestLocked io nzbID s of
             Inl err \<Rightarrow> (Some err, s)
           | Inr m \<Rightarrow>
               let fe = fileEntryLocked m file;
                   found = find (\<lambda>d. Index d = segIndex) (DeadSegments fe);
                   n = int (length data)
               in case (case found of Some d \<Rightarrow> if Bytes d > 0 \<and> n \<noteq> Bytes d then Some (PatchSize segIndex n (Bytes d)) else None
                        | None \<Rightarrow> None) of
                    Some err \<Rightarrow> (Some err, s)
                  | None \<Rightarrow>
                      (case writeFileAtomic io nzbID (patchPath nzbID file segIndex) data s of
                         (Some err, s1) \<Rightarrow> (Some err, s1)
                       | (None, s1) \<Rightarrow>
                           let fe1 = (if found \<noteq> None
                                      then fe\<lparr>DeadSegments := update_first (\<lambda>d. Index d = segIndex)
                                                (\<lambda>d. d\<lparr>Status := StatusPatched, PatchLen := n\<rparr>) (DeadSegments fe)\<rparr>
                                      else appendDead fe \<lparr>Index = segIndex, MessageID = [], Bytes = n,
                                                          Status = StatusPatched, PatchLen = n\<rparr>)
                           in saveManifestLocked io nzbID (putFile m file (recomputeVerdictLocked fe1)) s1))"

definition Store_Verdict :: "io \<Rightarrow> string \<Rightarrow> string \<Rightarrow> Store \<Rightarrow> Verdict" where
  "Store_Verdict io nzbID file s =
     (case loadManifestLocked io nzbID s of
        Inl err \<Rightarrow> VerdictClean
      | Inr m \<Rightarrow> (case map_of (Files m) file of None \<Rightarrow> VerdictClean | Some fe \<Rightarrow> fe_verdict fe))"

definition SetCoverageFraction :: "io \<Rightarrow> string \<Rightarrow> string \<Rightarrow> rat \<Rightarrow> Store \<Rightarrow> overlay_error option \<times> Store" where
  "SetCoverageFraction io nzbID file fraction s =
     (if isRejected nzbID s then (None, s)
      else case loadManifestLocked io nzbID s of
             Inl err \<Rightarrow> (Some err, s)
           | Inr m \<Rightarrow>
               (case map_of (Files m) file of
                  None \<Rightarrow> (None, s)
                | Some fe \<Rightarrow> saveManifestLocked io nzbID (putFile m file (fe\<lparr>CoverageFraction := fraction\<rparr>)) s))"

definition unpatched :: "FileEntry \<Rightarrow> DeadSegment list" where
  "unpatched fe = filter (\<lambda>d. Status d \<noteq> StatusPatched) (DeadSegments fe)"

definition PendingRepair :: "io \<Rightarrow> string \<Rightarrow> Store \<Rightarrow> overlay_error + (string \<times> DeadSegment list) list" where
  "PendingRepair io nzbID s =
     (case loadManifestLocked io nzbID s of
        Inl err \<Rightarrow> Inl err
      | Inr m \<Rightarrow> Inr (filter (\<lambda>(file, pending). pending \<noteq> []) (map (\<lambda>(file, fe). (file, unpatched fe)) (Files m))))"

definition enqueueRepair :: "io \<Rightarrow> string \<Rightarrow> Store \<Rightarrow> Store" where
  "enqueueRepair io nzbID s =
     (if \<not> repairEnqueue s then s
      else let deadSegments = (case PendingRepair io nzbID s of
                                 Inl err \<Rightarrow> 0
                               | Inr pending \<Rightarrow> sum_list (map (\<lambda>(file, segs). int (length segs)) pending))
           in s\<lparr>events := events s @ [EnqueueRepair nzbID deadSegments]\<rparr>)"

definition ListNZBIDs :: "Store \<Rightarrow> string set" where
  "ListNZBIDs s = dirs s"

definition GetManifest :: "io \<Rightarrow> string \<Rightarrow> Store \<Rightarrow> overlay_error + Manifest" where
  "GetManifest io nzbID s = loadManifestLocked io nzbID s"

definition FilePatchBytes :: "string \<Rightarrow> string \<Rightarrow> FileEntry option \<Rightarrow> Store \<Rightarrow> int" where
  "FilePatchBytes nzbID file fe s =
     (case fe of
        None \<Rightarrow> 0
      | Some fe \<Rightarrow>
          fold (\<lambda>d tot. if Status d \<noteq> StatusPatched then tot
                        else case blobs s (patchPath nzbID file (Index d)) of
                               Some data \<Rightarrow> i64 (tot + int (length data))
                             | None \<Rightarrow> tot) (DeadSegments fe) 0)"

definition EntryExists :: "string \<Rightarrow> Store \<Rightarrow> bool" where
  "EntryExists nzbID s = (if nzbID = [] then False else nzbID \<in> dirs s)"

definition DeleteEntry :: "io \<Rightarrow> string \<Rightarrow> Store \<Rightarrow> overlay_error option \<times> Store" where
  "DeleteEntry io nzbID s = removeEntryDir io nzbID s"

definition ClearFileDamage :: "io \<Rightarrow> string \<Rightarrow> string \<Rightarrow> Store \<Rightarrow> (bool \<times> overlay_error option) \<times> Store" where
  "ClearFileDamage io nzbID file s =
     (case loadManifestLocked io nzbID s of
        Inl err \<Rightarrow> ((False, Some err), s)
      | Inr m \<Rightarrow>
          (case map_of (Files m) file of
             None \<Rightarrow> ((False, None), s)
           | Some fe \<Rightarrow>
               let patched = filter (\<lambda>d. Status d = StatusPatched) (DeadSegments fe)
               in if patched = [] then
                    let m1 = m\<lparr>Files := AList.delete file (Files m)\<rparr>
                    in if Files m1 = [] then (case removeEntryDir io nzbID s of (err, s1) \<Rightarrow> ((False, err), s1))
                       else (case saveManifestLocked io nzbID m1 s of (err, s1) \<Rightarrow> ((False, err), s1))
                  else let fe1 = fe\<lparr>DeadSegments := patched, fe_verdict := VerdictClean, CoverageFraction := 0\<rparr>
                       in (case saveManifestLocked io nzbID (putFile m file fe1) s of (err, s1) \<Rightarrow> ((True, err), s1))))"

definition fully_patched :: "FileEntry \<Rightarrow> bool" where
  "fully_patched fe \<longleftrightarrow> fe_verdict fe = VerdictFailed \<and> DeadSegments fe \<noteq> [] \<and>
     list_all (\<lambda>d. Status d = StatusPatched) (DeadSegments fe)"

definition UnfailRepaired :: "io \<Rightarrow> string \<Rightarrow> Store \<Rightarrow> (string list \<times> overlay_error option) \<times> Store" where
  "UnfailRepaired io nzbID s =
     (if isRejected nzbID s then (([], None), s)
      else case loadManifestLocked io nzbID s of
             Inl err \<Rightarrow> (([], Some err), s)
           | Inr m \<Rightarrow>
               let cleared = map fst (filter (\<lambda>(name, fe). fully_patched fe) (Files m));
                   m1 = m\<lparr>Files := map (\<lambda>(name, fe). (name, if fully_patched fe then fe\<lparr>fe_verdict := VerdictClean\<rparr> else fe)) (Files m)\<rparr>
               in if cleared = [] then (([], None), s)
                  else (case saveManifestLocked io nzbID m1 s of (err, s1) \<Rightarrow> ((sort cleared, err), s1)))"

definition unlinkPatches :: "io \<Rightarrow> string \<Rightarrow> string \<Rightarrow> FileEntry \<Rightarrow> Store \<Rightarrow> Store" where
  "unlinkPatches io nzbID file fe s =
     fold (\<lambda>d s. if Status d = StatusPatched \<and> unlink_ok io (Index d)
                 then s\<lparr>blobs := (blobs s)(patchPath nzbID file (Index d) := None)\<rparr> else s) (DeadSegments fe) s"

definition DeleteFile :: "io \<Rightarrow> string \<Rightarrow> string \<Rightarrow> Store \<Rightarrow> (bool \<times> overlay_error option) \<times> Store" where
  "DeleteFile io nzbID file s =
     (case loadManifestLocked io nzbID s of
        Inl err \<Rightarrow> ((False, Some err), s)
      | Inr m \<Rightarrow>
          (case map_of (Files m) file of
             None \<Rightarrow> ((False, None), s)
           | Some fe \<Rightarrow>
               let s1 = unlinkPatches io nzbID file fe s;
                   m1 = m\<lparr>Files := AList.delete file (Files m)\<rparr>
               in if Files m1 = []
                  then (case removeEntryDir io nzbID s1 of
                          (Some err, s2) \<Rightarrow> ((False, Some err), s2)
                        | (None, s2) \<Rightarrow> ((True, None), s2))
                  else (case saveManifestLocked io nzbID m1 s1 of
                          (Some err, s2) \<Rightarrow> ((False, Some err), s2)
                        | (None, s2) \<Rightarrow> ((True, None), s2))))"

definition ShouldLogPad :: "string \<Rightarrow> string \<Rightarrow> int \<Rightarrow> Store \<Rightarrow> bool \<times> Store" where
  "ShouldLogPad nzbID file segIndex s =
     (let key = nzbID @ [CHR 0x00] @ file @ [CHR 0x00] @ Itoa segIndex
      in (key \<notin> loggedPads s, s\<lparr>loggedPads := insert key (loggedPads s)\<rparr>))"

definition videoContainerExts :: "string set" where
  "videoContainerExts = {''.mkv'', ''.mp4'', ''.avi'', ''.ts'', ''.m2ts'', ''.mov'', ''.wmv''}"

definition IsVideoContainer :: "string \<Rightarrow> bool" where
  "IsVideoContainer filename \<longleftrightarrow> lower_ascii (filepath_Ext filename) \<in> videoContainerExts"

section \<open>The padding policy\<close>

record CapEvaluation =
  TotalDead :: int
  PadBytes :: int
  LongestRun :: int
  ByteRatio :: rat
  HeaderDamage :: bool

text \<open>The loop over the sorted indices: the previous index, the current run and the best so far.\<close>

fun run_loop :: "int \<Rightarrow> int list \<Rightarrow> int \<Rightarrow> int \<Rightarrow> int" where
  "run_loop prev [] run best = best"
| "run_loop prev (i # is) run best =
     (let run1 = (if i = i64 (prev + 1) then run + 1 else 1)
      in run_loop i is run1 (if run1 > best then run1 else best))"

definition best_run :: "int list \<Rightarrow> int" where
  "best_run indices = (case indices of [] \<Rightarrow> 1 | i # is \<Rightarrow> run_loop i is 1 1)"

definition header_damage :: "int list \<Rightarrow> int \<Rightarrow> bool" where
  "header_damage indices totalSegments \<longleftrightarrow>
     totalSegments > 0 \<and> indices \<noteq> [] \<and> hd indices < max 1 (go_div totalSegments 100)"

definition WithinPadCaps :: "FileEntry \<Rightarrow> int \<Rightarrow> Policy \<Rightarrow> int \<Rightarrow> CapEvaluation \<times> bool" where
  "WithinPadCaps fe fileSize policy totalSegments =
     (let dead = unpatched fe;
          total_dead = int (length dead);
          padBytes = fold (\<lambda>d n. i64 (n + Bytes d)) dead 0;
          indices = sort (map Index dead);
          best = best_run indices;
          byteRatio = (if fileSize > 0 then fl (float_of_int padBytes / float_of_int fileSize) else 0);
          headerDamage = header_damage indices totalSegments
      in (\<lparr>TotalDead = total_dead, PadBytes = padBytes, LongestRun = (if indices = [] then 0 else best),
           ByteRatio = byteRatio, HeaderDamage = headerDamage\<rparr>,
          \<not> total_dead > MaxTotalSegments policy \<and>
          \<not> (fileSize > 0 \<and> float_of_int padBytes > fl (float_of_int fileSize * MaxByteRatio policy)) \<and>
          \<not> (indices \<noteq> [] \<and> best > MaxRunSegments policy) \<and>
          \<not> headerDamage))"

definition viewerCeiling :: "Policy \<Rightarrow> Policy" where
  "viewerCeiling policy =
     \<lparr>MaxRunSegments = max (MaxRunSegments policy) 64, MaxTotalSegments = max_i64,
      MaxByteRatio = max (MaxByteRatio policy) (fl (10 / 100))\<rparr>"

definition viewerMayPad :: "FileEntry \<Rightarrow> int \<Rightarrow> Policy \<Rightarrow> int \<Rightarrow> bool" where
  "viewerMayPad fe fileSize policy totalSegments = snd (WithinPadCaps fe fileSize (viewerCeiling policy) totalSegments)"

definition markPaddedLocked :: "FileEntry \<Rightarrow> int \<Rightarrow> FileEntry" where
  "markPaddedLocked fe segIndex =
     fe\<lparr>DeadSegments := update_first (\<lambda>d. Index d = segIndex) (\<lambda>d. d\<lparr>Status := StatusPadded\<rparr>) (DeadSegments fe)\<rparr>"

text \<open>\<^verbatim>\<open>_ = s.saveManifestLocked(...)\<close>: the error is dropped.\<close>

definition saveIgnored :: "io \<Rightarrow> string \<Rightarrow> Manifest \<Rightarrow> Store \<Rightarrow> Store" where
  "saveIgnored io nzbID m s = snd (saveManifestLocked io nzbID m s)"

definition decide ::
  "io \<Rightarrow> string \<Rightarrow> string \<Rightarrow> int \<Rightarrow> string \<Rightarrow> int \<Rightarrow> int \<Rightarrow> int \<Rightarrow> bool \<Rightarrow> Store \<Rightarrow> (Decision \<times> Verdict) \<times> Store" where
  "decide io nzbID file segIndex msgID segBytes fileSize totalSegments viewer s =
     (if isRejected nzbID s then ((DecisionFail, VerdictFailed), s)
      else case loadManifestLocked io nzbID s of
             Inl err \<Rightarrow> ((DecisionFail, VerdictFailed), s)
           | Inr m \<Rightarrow>
               let fe = fileEntryLocked m file
               in if fe_verdict fe = VerdictFailed \<and> \<not> viewer then ((DecisionFail, VerdictFailed), s)
                  else
                    let fe1 = (if known fe segIndex then fe
                               else appendDead fe \<lparr>Index = segIndex, MessageID = msgID, Bytes = segBytes, Status = StatusDead, PatchLen = 0\<rparr>)
                    in if \<not> IsVideoContainer file then
                         ((DecisionFail, VerdictFailed),
                          notifyFailed nzbID file (saveIgnored io nzbID (putFile m file (fe1\<lparr>fe_verdict := VerdictFailed\<rparr>)) s))
                       else
                         let policy = Store_Policy s
                         in if \<not> snd (WithinPadCaps fe1 fileSize policy totalSegments) \<or> fe_verdict fe1 = VerdictFailed then
                              let wasFailed = (fe_verdict fe1 = VerdictFailed);
                                  fe2 = fe1\<lparr>fe_verdict := VerdictFailed\<rparr>
                              in if \<not> viewer \<or> \<not> viewerMayPad fe2 fileSize policy totalSegments then
                                   let s1 = saveIgnored io nzbID (putFile m file fe2) s
                                   in ((DecisionFail, VerdictFailed), if \<not> wasFailed then notifyFailed nzbID file s1 else s1)
                                 else
                                   let s1 = saveIgnored io nzbID (putFile m file (markPaddedLocked fe2 segIndex)) s;
                                       s2 = (if \<not> wasFailed then notifyFailed nzbID file s1 else s1)
                                   in ((DecisionPad, VerdictFailed), notifyViewerPad nzbID file s2)
                            else
                              ((DecisionPad, VerdictDegraded),
                               saveIgnored io nzbID (putFile m file ((markPaddedLocked fe1 segIndex)\<lparr>fe_verdict := VerdictDegraded\<rparr>)) s))"

definition Decide where
  "Decide io nzbID file segIndex msgID segBytes fileSize totalSegments s =
     decide io nzbID file segIndex msgID segBytes fileSize totalSegments False s"

definition DecideForViewer where
  "DecideForViewer io nzbID file segIndex msgID segBytes fileSize totalSegments s =
     decide io nzbID file segIndex msgID segBytes fileSize totalSegments True s"

section \<open>Handles\<close>

text \<open>A \<^verbatim>\<open>*Handle\<close> is \<^term>\<open>None\<close> when nil, as on a nil store; otherwise it is bound to one entry.\<close>

type_synonym Handle = "string option"

definition Store_Handle :: "bool \<Rightarrow> string \<Rightarrow> Handle" where
  "Store_Handle store_nil nzbID = (if store_nil then None else Some nzbID)"

definition Handle_NzbID :: "Handle \<Rightarrow> string" where
  "Handle_NzbID h = (case h of None \<Rightarrow> [] | Some nzbID \<Rightarrow> nzbID)"

definition Handle_IsSweepActive :: "Handle \<Rightarrow> Store \<Rightarrow> bool" where
  "Handle_IsSweepActive h s = (case h of None \<Rightarrow> False | Some nzbID \<Rightarrow> IsEntrySweepActive nzbID s)"

definition Handle_MarkSweepDead :: "Handle \<Rightarrow> Store \<Rightarrow> Store" where
  "Handle_MarkSweepDead h s = (case h of None \<Rightarrow> s | Some nzbID \<Rightarrow> MarkSweepDead nzbID s)"

definition Handle_IsSweepDead :: "Handle \<Rightarrow> Store \<Rightarrow> bool" where
  "Handle_IsSweepDead h s = (case h of None \<Rightarrow> False | Some nzbID \<Rightarrow> IsEntrySweepDead nzbID s)"

definition Handle_PatchBytes :: "io \<Rightarrow> Handle \<Rightarrow> string \<Rightarrow> int \<Rightarrow> Store \<Rightarrow> Store \<Rightarrow> bytes option" where
  "Handle_PatchBytes io h file segIndex s s' =
     (case h of None \<Rightarrow> None | Some nzbID \<Rightarrow> PatchBytes io nzbID file segIndex s s')"

definition Handle_PatchedSegments :: "io \<Rightarrow> Handle \<Rightarrow> string \<Rightarrow> Store \<Rightarrow> int list" where
  "Handle_PatchedSegments io h file s = (case h of None \<Rightarrow> [] | Some nzbID \<Rightarrow> PatchedSegments io nzbID file s)"

definition Handle_WritePatch :: "io \<Rightarrow> Handle \<Rightarrow> string \<Rightarrow> int \<Rightarrow> bytes \<Rightarrow> Store \<Rightarrow> overlay_error option \<times> Store" where
  "Handle_WritePatch io h file segIndex data s =
     (case h of None \<Rightarrow> (Some NilHandle, s) | Some nzbID \<Rightarrow> WritePatch io nzbID file segIndex data s)"

definition Handle_RecordDead :: "io \<Rightarrow> Handle \<Rightarrow> string \<Rightarrow> int \<Rightarrow> string \<Rightarrow> int \<Rightarrow> Store \<Rightarrow> overlay_error option \<times> Store" where
  "Handle_RecordDead io h file segIndex msgID len s =
     (case h of None \<Rightarrow> (Some NilHandle, s) | Some nzbID \<Rightarrow> RecordDead io nzbID file segIndex msgID len s)"

definition Handle_Decide ::
  "io \<Rightarrow> Handle \<Rightarrow> string \<Rightarrow> int \<Rightarrow> string \<Rightarrow> int \<Rightarrow> int \<Rightarrow> int \<Rightarrow> Store \<Rightarrow> (Decision \<times> Verdict) \<times> Store" where
  "Handle_Decide io h file segIndex msgID segBytes fileSize totalSegments s =
     (case h of
        None \<Rightarrow> ((DecisionFail, VerdictFailed), s)
      | Some nzbID \<Rightarrow> Decide io nzbID file segIndex msgID segBytes fileSize totalSegments s)"

definition Handle_DecideForViewer ::
  "io \<Rightarrow> Handle \<Rightarrow> string \<Rightarrow> int \<Rightarrow> string \<Rightarrow> int \<Rightarrow> int \<Rightarrow> int \<Rightarrow> Store \<Rightarrow> (Decision \<times> Verdict) \<times> Store" where
  "Handle_DecideForViewer io h file segIndex msgID segBytes fileSize totalSegments s =
     (case h of
        None \<Rightarrow> ((DecisionFail, VerdictFailed), s)
      | Some nzbID \<Rightarrow> DecideForViewer io nzbID file segIndex msgID segBytes fileSize totalSegments s)"

definition Handle_Verdict :: "io \<Rightarrow> Handle \<Rightarrow> string \<Rightarrow> Store \<Rightarrow> Verdict" where
  "Handle_Verdict io h file s = (case h of None \<Rightarrow> VerdictClean | Some nzbID \<Rightarrow> Store_Verdict io nzbID file s)"

definition Handle_ShouldLogPad :: "Handle \<Rightarrow> string \<Rightarrow> int \<Rightarrow> Store \<Rightarrow> bool \<times> Store" where
  "Handle_ShouldLogPad h file segIndex s =
     (case h of None \<Rightarrow> (False, s) | Some nzbID \<Rightarrow> ShouldLogPad nzbID file segIndex s)"

definition Handle_EnqueueRepair :: "io \<Rightarrow> Handle \<Rightarrow> Store \<Rightarrow> Store" where
  "Handle_EnqueueRepair io h s = (case h of None \<Rightarrow> s | Some nzbID \<Rightarrow> enqueueRepair io nzbID s)"

section \<open>Steps\<close>

text \<open>The operations that change the store. Those of a handle are the operations of its store.\<close>

datatype store_op =
    OpRecordDead string string int string int
  | OpDecide string string int string int int int bool
  | OpWritePatch string string int bytes
  | OpSetCoverageFraction string string rat
  | OpDeleteEntry string
  | OpClearFileDamage string string
  | OpUnfailRepaired string
  | OpDeleteFile string string
  | OpShouldLogPad string string int
  | OpEnqueueRepair string
  | OpMarkRejected string
  | OpClearRejected string
  | OpMarkSweepEntry string
  | OpClearSweepEntry string
  | OpMarkSweepDead string
  | OpSetPolicy Policy
  | OpInstall bool bool bool

fun apply_op :: "io \<Rightarrow> store_op \<Rightarrow> Store \<Rightarrow> Store" where
  "apply_op io (OpRecordDead n f i msg len) s = snd (RecordDead io n f i msg len s)"
| "apply_op io (OpDecide n f i msg len fsize tot viewer) s = snd (decide io n f i msg len fsize tot viewer s)"
| "apply_op io (OpWritePatch n f i data) s = snd (WritePatch io n f i data s)"
| "apply_op io (OpSetCoverageFraction n f r) s = snd (SetCoverageFraction io n f r s)"
| "apply_op io (OpDeleteEntry n) s = snd (DeleteEntry io n s)"
| "apply_op io (OpClearFileDamage n f) s = snd (ClearFileDamage io n f s)"
| "apply_op io (OpUnfailRepaired n) s = snd (UnfailRepaired io n s)"
| "apply_op io (OpDeleteFile n f) s = snd (DeleteFile io n f s)"
| "apply_op io (OpShouldLogPad n f i) s = snd (ShouldLogPad n f i s)"
| "apply_op io (OpEnqueueRepair n) s = enqueueRepair io n s"
| "apply_op io (OpMarkRejected n) s = MarkRejected n s"
| "apply_op io (OpClearRejected n) s = ClearRejected n s"
| "apply_op io (OpMarkSweepEntry n) s = MarkSweepEntry n s"
| "apply_op io (OpClearSweepEntry n) s = ClearSweepEntry n s"
| "apply_op io (OpMarkSweepDead n) s = MarkSweepDead n s"
| "apply_op io (OpSetPolicy p) s = SetPolicy p s"
| "apply_op io (OpInstall a b c) s = SetViewerPadNotifier c (SetFailedNotifier b (SetRepairEnqueuer a s))"

text \<open>A label is a call or a restart of the process, which reopens the store on the same disk.\<close>

datatype label = Restart | Call store_op

inductive store_step :: "label \<Rightarrow> Store \<Rightarrow> Store \<Rightarrow> bool" where
  restart: "NewStore rootDir mkdir_ok s = Inr t \<Longrightarrow> store_step Restart s t"
| call: "store_step (Call oper) s (apply_op io oper s)"

inductive_cases restart_stepE: "store_step Restart s t"
inductive_cases call_stepE: "store_step (Call oper) s t"

definition emptyDisk :: Store where
  "emptyDisk = \<lparr>dirs = {}, manifests = Map.empty, blobs = Map.empty, loggedPads = {}, rejected = {},
     sweepEntries = Map.empty, store_policy = None, repairEnqueue = False, viewerPadNotify = False,
     failedNotify = False, events = []\<rparr>"

definition fresh_store :: "Store \<Rightarrow> bool" where
  "fresh_store s \<longleftrightarrow> NewStore ''overlay'' True emptyDisk = Inr s"

abbreviation reachable_store :: "Store \<Rightarrow> bool" where
  "reachable_store \<equiv> reachable fresh_store store_step"

end
