(* ===== verification/Overlay_Steps.thy ===== *)
theory Overlay_Steps
  imports Overlay
begin

text \<open>
  What each operation of the overlay store does to the disk, one case rule per operation, and the
  invariant they all keep. The store interprets \<open>invariant\<close>.
\<close>

section \<open>What an operation changes\<close>

definition entry_of :: "Store \<Rightarrow> string \<Rightarrow> string \<Rightarrow> FileEntry option" where
  "entry_of s n f = (case manifests s n of Some (Stored m) \<Rightarrow> map_of (Files m) f | _ \<Rightarrow> None)"

lemma saveIgnored_cases:
  obtains (failed) D where "saveIgnored io n m s = s\<lparr>dirs := D\<rparr>" "D = dirs s \<or> D = insert n (dirs s)" "save_io io \<noteq> WriteOk"
  | (saved) "saveIgnored io n m s = s\<lparr>dirs := insert n (dirs s), manifests := (manifests s)(n \<mapsto> Stored m)\<rparr>" "save_io io = WriteOk"
proof (cases "save_io io")
  case MkdirFails
  then show thesis by (intro failed [of "dirs s"]) (auto simp: saveIgnored_def saveManifestLocked_def)
qed (auto intro: that simp: saveIgnored_def saveManifestLocked_def)

lemma snd_save [simp]: "snd (saveManifestLocked io n m s) = saveIgnored io n m s"
  by (simp add: saveIgnored_def)

lemma saveIgnored_simps [simp]:
  "blobs (saveIgnored io n m s) = blobs s"
  "rejected (saveIgnored io n m s) = rejected s"
  "entry_of (saveIgnored io n m s) n' f = (if save_io io = WriteOk \<and> n' = n then map_of (Files m) f else entry_of s n' f)"
  "fst (saveManifestLocked io n m s) = None \<longleftrightarrow> save_io io = WriteOk"
  by (cases "save_io io"; simp add: saveIgnored_def saveManifestLocked_def entry_of_def)+

lemma notify_simps [simp]:
  "dirs (notifyFailed n f s) = dirs s" "manifests (notifyFailed n f s) = manifests s" "blobs (notifyFailed n f s) = blobs s"
  "rejected (notifyFailed n f s) = rejected s" "entry_of (notifyFailed n f s) = entry_of s"
  "dirs (notifyViewerPad n f s) = dirs s" "manifests (notifyViewerPad n f s) = manifests s" "blobs (notifyViewerPad n f s) = blobs s"
  "rejected (notifyViewerPad n f s) = rejected s" "entry_of (notifyViewerPad n f s) = entry_of s"
  by (simp_all add: notifyFailed_def notifyViewerPad_def entry_of_def fun_eq_iff)

lemma load_Inr:
  assumes "loadManifestLocked io n s = Inr m"
  shows "Files m = (case manifests s n of Some (Stored m') \<Rightarrow> Files m' | _ \<Rightarrow> [])" "map_of (Files m) f = entry_of s n f"
  using assms by (auto simp: loadManifestLocked_def entry_of_def emptyManifest_def split: if_splits option.splits manifest_file.splits)

lemma map_of_putFile [simp]: "map_of (Files (putFile m f fe)) = (map_of (Files m))(f \<mapsto> fe)"
  by (simp add: putFile_def update_conv')

lemma fileEntryLocked_entry: "loadManifestLocked io n s = Inr m \<Longrightarrow>
   fileEntryLocked m f = (case entry_of s n f of Some fe \<Rightarrow> fe | None \<Rightarrow> newFileEntry)"
  by (simp add: fileEntryLocked_def load_Inr(2))

text \<open>Every operation either leaves a manifest alone, removes it, or saves a changed copy of the loaded
  one. For a decision the saved entry is one of three.\<close>

abbreviation new_dead :: "int \<Rightarrow> string \<Rightarrow> int \<Rightarrow> DeadSegment" where
  "new_dead i msg len \<equiv> \<lparr>Index = i, MessageID = msg, Bytes = len, Status = StatusDead, PatchLen = 0\<rparr>"

definition with_dead :: "FileEntry \<Rightarrow> int \<Rightarrow> string \<Rightarrow> int \<Rightarrow> FileEntry" where
  "with_dead fe i msg len = (if known fe i then fe else appendDead fe (new_dead i msg len))"

lemma caps_verdict [simp]:
  "WithinPadCaps (fe\<lparr>fe_verdict := v\<rparr>) = WithinPadCaps fe" "viewerMayPad (fe\<lparr>fe_verdict := v\<rparr>) = viewerMayPad fe"
  by (simp_all add: fun_eq_iff WithinPadCaps_def viewerMayPad_def unpatched_def)

lemma markPadded_verdict: "markPaddedLocked (fe\<lparr>fe_verdict := v\<rparr>) i = (markPaddedLocked fe i)\<lparr>fe_verdict := v\<rparr>"
  by (simp add: markPaddedLocked_def)

lemma with_dead_verdict [simp]: "fe_verdict (with_dead fe i msg len) = fe_verdict fe"
  by (simp add: with_dead_def appendDead_def sortDeadSegments_def)

abbreviation same_disk :: "Store \<Rightarrow> Store \<Rightarrow> bool" where
  "same_disk s t \<equiv> dirs s = dirs t \<and> manifests s = manifests t \<and> blobs s = blobs t \<and> rejected s = rejected t"

lemma decide_cases:
  obtains (same) "decide io n f i msg len fsize tot viewer s = ((DecisionFail, VerdictFailed), s)"
  | (saved) m fe' t d v where "\<not> isRejected n s" "loadManifestLocked io n s = Inr m"
      "decide io n f i msg len fsize tot viewer s = ((d, v), t)" "same_disk t (saveIgnored io n (putFile m f fe') s)"
      "d = DecisionFail \<and> v = VerdictFailed \<and> fe' = (with_dead (fileEntryLocked m f) i msg len)\<lparr>fe_verdict := VerdictFailed\<rparr> \<or>
       d = DecisionPad \<and> v = VerdictFailed \<and> viewer \<and> IsVideoContainer f \<and>
         viewerMayPad (with_dead (fileEntryLocked m f) i msg len) fsize (Store_Policy s) tot \<and>
         fe' = (markPaddedLocked (with_dead (fileEntryLocked m f) i msg len) i)\<lparr>fe_verdict := VerdictFailed\<rparr> \<or>
       d = DecisionPad \<and> v = VerdictDegraded \<and> IsVideoContainer f \<and> fe_verdict (fileEntryLocked m f) \<noteq> VerdictFailed \<and>
         snd (WithinPadCaps (with_dead (fileEntryLocked m f) i msg len) fsize (Store_Policy s) tot) \<and>
         fe' = (markPaddedLocked (with_dead (fileEntryLocked m f) i msg len) i)\<lparr>fe_verdict := VerdictDegraded\<rparr>"
proof (cases "isRejected n s \<or> (\<exists>err. loadManifestLocked io n s = Inl err)")
  case True
  then have "decide io n f i msg len fsize tot viewer s = ((DecisionFail, VerdictFailed), s)"
    by (auto simp: decide_def)
  then show thesis by (rule same)
next
  case False
  then obtain m where m: "\<not> isRejected n s" "loadManifestLocked io n s = Inr m" by (cases "loadManifestLocked io n s") auto
  let ?fe = "with_dead (fileEntryLocked m f) i msg len"
  show thesis
  proof (cases "fe_verdict (fileEntryLocked m f) = VerdictFailed \<and> \<not> viewer")
    case True
    then have "decide io n f i msg len fsize tot viewer s = ((DecisionFail, VerdictFailed), s)"
      using m by (simp add: decide_def)
    then show thesis by (rule same)
  next
    case nf: False
    note dd = decide_def [of io n f i msg len fsize tot viewer s, unfolded with_dead_def [symmetric] Let_def]
    show thesis
    proof (cases "IsVideoContainer f")
      case False
      then have "decide io n f i msg len fsize tot viewer s = ((DecisionFail, VerdictFailed),
          notifyFailed n f (saveIgnored io n (putFile m f (?fe\<lparr>fe_verdict := VerdictFailed\<rparr>)) s))"
        unfolding dd using m nf by auto
      then show thesis by (rule saved [OF m]) auto
    next
      case video: True
      show thesis
      proof (cases "snd (WithinPadCaps ?fe fsize (Store_Policy s) tot) \<and> fe_verdict (fileEntryLocked m f) \<noteq> VerdictFailed")
        case True
        then have "decide io n f i msg len fsize tot viewer s = ((DecisionPad, VerdictDegraded),
            saveIgnored io n (putFile m f ((markPaddedLocked ?fe i)\<lparr>fe_verdict := VerdictDegraded\<rparr>)) s)"
          using m nf video by (simp add: dd)
        then show thesis by (rule saved [OF m]) (use True video in auto)
      next
        case over: False
        show thesis
        proof (cases "viewer \<and> viewerMayPad ?fe fsize (Store_Policy s) tot")
          case True
          let ?s1 = "saveIgnored io n (putFile m f ((markPaddedLocked ?fe i)\<lparr>fe_verdict := VerdictFailed\<rparr>)) s"
          have "decide io n f i msg len fsize tot viewer s = ((DecisionPad, VerdictFailed),
              notifyViewerPad n f (if fe_verdict (fileEntryLocked m f) \<noteq> VerdictFailed then notifyFailed n f ?s1 else ?s1))"
            unfolding dd using True m nf video over by (auto simp: markPadded_verdict)
          then show thesis by (rule saved [OF m]) (use True video in auto)
        next
          case False
          let ?s1 = "saveIgnored io n (putFile m f (?fe\<lparr>fe_verdict := VerdictFailed\<rparr>)) s"
          have "decide io n f i msg len fsize tot viewer s = ((DecisionFail, VerdictFailed),
              (if fe_verdict (fileEntryLocked m f) \<noteq> VerdictFailed then notifyFailed n f ?s1 else ?s1))"
            unfolding dd using False m nf video over by auto
          then show thesis by (rule saved [OF m]) auto
        qed
      qed
    qed
  qed
qed

section \<open>The invariant\<close>

definition entry_ok :: "FileEntry \<Rightarrow> bool" where
  "entry_ok fe \<longleftrightarrow> sorted_wrt (<) (map Index (DeadSegments fe)) \<and> DeadSegments fe \<noteq> [] \<and>
     (fe_verdict fe = VerdictClean \<longrightarrow> unpatched fe = []) \<and> (fe_verdict fe = VerdictDegraded \<longrightarrow> unpatched fe \<noteq> [])"

definition files_ok :: "(string \<times> FileEntry) list \<Rightarrow> bool" where
  "files_ok fs \<longleftrightarrow> distinct (map fst fs) \<and> (\<forall>f fe. map_of fs f = Some fe \<longrightarrow> entry_ok fe)"

definition store_ok :: "Store \<Rightarrow> bool" where
  "store_ok s \<longleftrightarrow> dom (manifests s) \<subseteq> dirs s \<and> fst ` dom (blobs s) \<subseteq> dirs s \<and>
     (\<forall>n mf. manifests s n = Some mf \<longrightarrow> (\<exists>m. mf = Stored m \<and> files_ok (Files m) \<and> Files m \<noteq> []))"

lemma update_first_map: "(\<And>x. g (h x) = g x) \<Longrightarrow> map g (update_first P h xs) = map g xs"
  by (induction xs) auto

lemma update_first_eq_Nil [simp]: "update_first P h xs = [] \<longleftrightarrow> xs = []"
  by (cases xs) auto

lemma set_update_first: "set (update_first P h xs) \<subseteq> set xs \<union> h ` {x \<in> set xs. P x}"
  by (induction xs) auto

lemma update_first_hit: "x \<in> set xs \<Longrightarrow> P x \<Longrightarrow> \<exists>y \<in> set xs. P y \<and> h y \<in> set (update_first P h xs)"
  by (induction xs) auto

lemma sorted_wrt_sort_key:
  assumes "sorted_wrt (<) (map key xs)" "\<forall>x \<in> set xs. key x \<noteq> (key y :: int)"
  shows "sorted_wrt (<) (map key (sort_key key (xs @ [y])))"
proof -
  have "distinct (map key (xs @ [y]))" using assms by (auto simp: strict_sorted_iff)
  then have "card (set (map key (sort_key key (xs @ [y])))) = length (map key (sort_key key (xs @ [y])))"
    using distinct_card [of "map key (xs @ [y])"] by simp
  then have "distinct (map key (sort_key key (xs @ [y])))" by (rule card_distinct)
  moreover have "sorted (map key (sort_key key (xs @ [y])))" by simp
  ultimately show ?thesis by (simp add: strict_sorted_iff)
qed

lemma set_appendDead [simp]: "set (DeadSegments (appendDead fe d)) = insert d (set (DeadSegments fe))"
  by (simp add: appendDead_def sortDeadSegments_def)

lemma appendDead_verdict [simp]: "fe_verdict (appendDead fe d) = fe_verdict fe"
  by (simp add: appendDead_def sortDeadSegments_def)

lemma known_iff: "known fe i \<longleftrightarrow> (\<exists>d \<in> set (DeadSegments fe). Index d = i)"
  by (simp add: known_def list_ex_iff)

abbreviation sorted_dead :: "FileEntry \<Rightarrow> bool" where
  "sorted_dead fe \<equiv> sorted_wrt (<) (map Index (DeadSegments fe))"

lemma sorted_appendDead: "sorted_dead fe \<Longrightarrow> \<not> known fe (Index d) \<Longrightarrow> sorted_dead (appendDead fe d)"
  unfolding appendDead_def sortDeadSegments_def by (auto simp: known_iff intro!: sorted_wrt_sort_key)

lemma appendDead_ne [simp]: "DeadSegments (appendDead fe d) \<noteq> []"
  using set_appendDead [of fe d] by force

lemma unpatched_Nil_iff: "unpatched fe = [] \<longleftrightarrow> (\<forall>d \<in> set (DeadSegments fe). Status d = StatusPatched)"
  by (auto simp: unpatched_def filter_empty_conv)

lemma recompute_ok: "sorted_dead fe \<Longrightarrow> DeadSegments fe \<noteq> [] \<Longrightarrow> entry_ok (recomputeVerdictLocked fe)"
  by (auto simp: entry_ok_def recomputeVerdictLocked_def list_ex_iff unpatched_Nil_iff)

lemma recompute_simps [simp]:
  "DeadSegments (recomputeVerdictLocked fe) = DeadSegments fe"
  "fe_verdict (recomputeVerdictLocked fe) = VerdictFailed \<longleftrightarrow> fe_verdict fe = VerdictFailed"
  by (simp_all add: recomputeVerdictLocked_def)

lemma sorted_with_dead: "sorted_dead fe \<Longrightarrow> sorted_dead (with_dead fe i msg len)"
  by (auto simp: with_dead_def intro: sorted_appendDead)

lemma known_with_dead: "known (with_dead fe i msg len) i"
  by (auto simp: with_dead_def known_iff)

lemma known_ne: "known fe i \<Longrightarrow> DeadSegments fe \<noteq> []"
  by (auto simp: known_iff)

lemma markPadded_simps:
  "map Index (DeadSegments (markPaddedLocked fe i)) = map Index (DeadSegments fe)"
  "DeadSegments (markPaddedLocked fe i) = [] \<longleftrightarrow> DeadSegments fe = []"
  by (simp_all add: markPaddedLocked_def update_first_map)

lemma markPadded_unpatched: "known fe i \<Longrightarrow> unpatched (markPaddedLocked fe i) \<noteq> []"
  using update_first_hit [of _ "DeadSegments fe" "\<lambda>d. Index d = i" "\<lambda>d. d\<lparr>Status := StatusPadded\<rparr>"]
  by (fastforce simp: known_iff unpatched_Nil_iff markPaddedLocked_def)

lemma files_ok_entry: "files_ok fs \<Longrightarrow> map_of fs f = Some fe \<Longrightarrow> entry_ok fe"
  by (simp add: files_ok_def)

lemma files_ok_Nil [simp]: "files_ok []"
  by (simp add: files_ok_def)

lemma files_ok_put: "files_ok (Files m) \<Longrightarrow> entry_ok fe \<Longrightarrow> files_ok (Files (putFile m f fe)) \<and> Files (putFile m f fe) \<noteq> []"
  by (auto simp: files_ok_def putFile_def distinct_update update_conv' split: if_splits)

lemma files_ok_delete: "files_ok fs \<Longrightarrow> files_ok (AList.delete f fs)"
  by (auto simp: files_ok_def distinct_delete delete_conv' split: if_splits)

lemma entry_sorted: "files_ok (Files m) \<Longrightarrow> sorted_dead (fileEntryLocked m f)"
  using files_ok_entry [of "Files m" f]
  by (auto simp: fileEntryLocked_def newFileEntry_def entry_ok_def split: option.splits)

lemma load_ok: "store_ok s \<Longrightarrow> loadManifestLocked io n s = Inr m \<Longrightarrow> files_ok (Files m)"
  using load_Inr(1) [of io n s m]
  by (fastforce simp: store_ok_def split: option.splits manifest_file.splits)

lemma save_ok: "store_ok s \<Longrightarrow> files_ok (Files m) \<Longrightarrow> Files m \<noteq> [] \<Longrightarrow> store_ok (saveIgnored io n m s)"
  by (cases rule: saveIgnored_cases [of io n m s]) (fastforce simp: store_ok_def)+

lemma same_disk_ok: "same_disk s t \<Longrightarrow> store_ok s \<longleftrightarrow> store_ok t"
  by (simp add: store_ok_def)

lemma put_ok: "store_ok s \<Longrightarrow> loadManifestLocked io n s = Inr m \<Longrightarrow> entry_ok fe \<Longrightarrow> store_ok (saveIgnored io' n (putFile m f fe) s)"
  using files_ok_put load_ok save_ok by blast

lemma remove_blobs: "blobs (snd (removeEntryDir io n s)) k = Some data \<Longrightarrow>
   blobs s k = Some data \<and> (removeAll_io io = Removed \<longrightarrow> fst k \<noteq> n)"
  by (cases k) (auto simp: removeEntryDir_def split: remove_io.splits if_splits)

lemma remove_manifests: "manifests (snd (removeEntryDir io n s)) n' = Some mf \<Longrightarrow>
   manifests s n' = Some mf \<and> (removeAll_io io = Removed \<longrightarrow> n' \<noteq> n)"
  by (auto simp: removeEntryDir_def split: remove_io.splits if_splits)

lemma remove_simps [simp]:
  "dirs (snd (removeEntryDir io n s)) = (if removeAll_io io = Removed then dirs s - {n} else dirs s)"
  "rejected (snd (removeEntryDir io n s)) = rejected s"
  "n' \<noteq> n \<Longrightarrow> manifests (snd (removeEntryDir io n s)) n' = manifests s n'"
  "n' \<noteq> n \<Longrightarrow> blobs (snd (removeEntryDir io n s)) (n', k) = blobs s (n', k)"
  by (auto simp: removeEntryDir_def split: remove_io.splits)

lemma remove_ok:
  assumes "store_ok s"
  shows "store_ok (snd (removeEntryDir io n s))"
  unfolding store_ok_def
proof (intro conjI allI impI subsetI)
  fix x assume "x \<in> dom (manifests (snd (removeEntryDir io n s)))"
  then show "x \<in> dirs (snd (removeEntryDir io n s))"
    using assms by (auto simp: store_ok_def dest!: remove_manifests)
next
  fix x assume "x \<in> fst ` dom (blobs (snd (removeEntryDir io n s)))"
  then obtain k data where k: "x = fst k" "blobs (snd (removeEntryDir io n s)) k = Some data" by blast
  then have "x \<in> fst ` dom (blobs s)" using remove_blobs by blast
  then have "x \<in> dirs s" using assms unfolding store_ok_def by blast
  then show "x \<in> dirs (snd (removeEntryDir io n s))" using k remove_blobs [OF k(2)] by auto
next
  fix n' mf assume "manifests (snd (removeEntryDir io n s)) n' = Some mf"
  from remove_manifests [OF this] have "manifests s n' = Some mf" by simp
  then show "\<exists>m. mf = Stored m \<and> files_ok (Files m) \<and> Files m \<noteq> []" using assms by (simp add: store_ok_def)
qed

lemma write_cases:
  obtains (failed) D err where "writeFileAtomic io n path data s = (Some err, s\<lparr>dirs := D\<rparr>)" "D = dirs s \<or> D = insert n (dirs s)"
  | (written) "writeFileAtomic io n path data s =
      (None, s\<lparr>dirs := insert n (dirs s), blobs := (blobs s)(path \<mapsto> data)\<rparr>)" "patch_io io = WriteOk"
proof (cases "patch_io io")
  case MkdirFails
  then show thesis by (intro failed [of PatchDir "dirs s"]) (simp_all add: writeFileAtomic_def)
next
  case WriteFails
  then show thesis by (intro failed [of PatchFile "insert n (dirs s)"]) (simp_all add: writeFileAtomic_def)
next
  case WriteOk
  then show thesis by (intro written) (simp_all add: writeFileAtomic_def)
qed

lemma RecordDead_cases:
  obtains (same) e where "RecordDead io n f i msg len s = (e, s)"
  | (saved) m where "\<not> isRejected n s" "loadManifestLocked io n s = Inr m" "\<not> known (fileEntryLocked m f) i"
      "RecordDead io n f i msg len s =
       saveManifestLocked io n (putFile m f (recomputeVerdictLocked (appendDead (fileEntryLocked m f) (new_dead i msg len)))) s"
proof (cases "isRejected n s \<or> (\<exists>err. loadManifestLocked io n s = Inl err) \<or>
    (\<exists>m. loadManifestLocked io n s = Inr m \<and> known (fileEntryLocked m f) i)")
  case True
  then have "\<exists>e. RecordDead io n f i msg len s = (e, s)" by (auto simp: RecordDead_def)
  then show thesis using same by blast
next
  case False
  then obtain m where m: "\<not> isRejected n s" "loadManifestLocked io n s = Inr m" "\<not> known (fileEntryLocked m f) i"
    by (cases "loadManifestLocked io n s") auto
  show thesis by (rule saved [OF m]) (use m in \<open>simp add: RecordDead_def Let_def\<close>)
qed

text \<open>The entry a patch leaves behind.\<close>

definition with_patch :: "FileEntry \<Rightarrow> int \<Rightarrow> bytes \<Rightarrow> FileEntry" where
  "with_patch fe i data = recomputeVerdictLocked
     (if known fe i
      then fe\<lparr>DeadSegments := update_first (\<lambda>d. Index d = i) (\<lambda>d. d\<lparr>Status := StatusPatched, PatchLen := int (length data)\<rparr>) (DeadSegments fe)\<rparr>
      else appendDead fe \<lparr>Index = i, MessageID = [], Bytes = int (length data), Status = StatusPatched, PatchLen = int (length data)\<rparr>)"

lemma find_known: "(find (\<lambda>d. Index d = i) (DeadSegments fe) \<noteq> None) = known fe i"
  by (auto simp: known_iff find_None_iff2 find_None_iff)

lemma WritePatch_cases:
  obtains (same) e where "WritePatch io n f i data s = (Some e, s)"
  | (failed) e D where "WritePatch io n f i data s = (Some e, s\<lparr>dirs := D\<rparr>)" "D = dirs s \<or> D = insert n (dirs s)" "\<not> isRejected n s"
  | (saved) m where "\<not> isRejected n s" "loadManifestLocked io n s = Inr m"
      "\<And>d. find (\<lambda>d. Index d = i) (DeadSegments (fileEntryLocked m f)) = Some d \<Longrightarrow> Bytes d > 0 \<Longrightarrow> int (length data) = Bytes d"
      "WritePatch io n f i data s = saveManifestLocked io n (putFile m f (with_patch (fileEntryLocked m f) i data))
         (s\<lparr>dirs := insert n (dirs s), blobs := (blobs s)(patchPath n f i \<mapsto> data)\<rparr>)"
proof (cases "isRejected n s \<or> (\<exists>err. loadManifestLocked io n s = Inl err)")
  case True
  then have "\<exists>e. WritePatch io n f i data s = (Some e, s)" by (auto simp: WritePatch_def)
  then show thesis using same by blast
next
  case False
  then obtain m where m: "\<not> isRejected n s" "loadManifestLocked io n s = Inr m" by (cases "loadManifestLocked io n s") auto
  let ?found = "find (\<lambda>d. Index d = i) (DeadSegments (fileEntryLocked m f))"
  show thesis
  proof (cases "\<exists>d. ?found = Some d \<and> Bytes d > 0 \<and> int (length data) \<noteq> Bytes d")
    case True
    then have "\<exists>e. WritePatch io n f i data s = (Some e, s)" using m by (auto simp: WritePatch_def)
    then show thesis using same by blast
  next
    case len: False
    then have eq: "WritePatch io n f i data s = (case writeFileAtomic io n (patchPath n f i) data s of (Some err, s1) \<Rightarrow> (Some err, s1)
        | (None, s1) \<Rightarrow> saveManifestLocked io n (putFile m f (with_patch (fileEntryLocked m f) i data)) s1)"
      using m unfolding WritePatch_def Let_def with_patch_def find_known [symmetric] by (cases ?found) auto
    show thesis
    proof (cases rule: write_cases [of io n "patchPath n f i" data s])
      case (failed D err)
      then show thesis using that(2) m eq by simp
    next
      case written
      then have "WritePatch io n f i data s = saveManifestLocked io n (putFile m f (with_patch (fileEntryLocked m f) i data))
         (s\<lparr>dirs := insert n (dirs s), blobs := (blobs s)(patchPath n f i \<mapsto> data)\<rparr>)" by (simp add: eq)
      then show thesis by (rule saved [OF m, rotated]) (use len in auto)
    qed
  qed
qed

lemma fold_keeps: "(\<And>x s. P (h x s) = P s) \<Longrightarrow> P (fold h xs s) = P s"
  by (induction xs arbitrary: s) auto

lemma ClearFileDamage_cases:
  obtains (same) "snd (ClearFileDamage io n f s) = s"
  | (removed) m where "loadManifestLocked io n s = Inr m" "AList.delete f (Files m) = []"
      "snd (ClearFileDamage io n f s) = snd (removeEntryDir io n s)"
  | (deleted) m where "loadManifestLocked io n s = Inr m" "AList.delete f (Files m) \<noteq> []"
      "snd (ClearFileDamage io n f s) = saveIgnored io n (m\<lparr>Files := AList.delete f (Files m)\<rparr>) s"
  | (kept) m fe where "loadManifestLocked io n s = Inr m" "map_of (Files m) f = Some fe"
      "filter (\<lambda>d. Status d = StatusPatched) (DeadSegments fe) \<noteq> []"
      "snd (ClearFileDamage io n f s) = saveIgnored io n (putFile m f
         (fe\<lparr>DeadSegments := filter (\<lambda>d. Status d = StatusPatched) (DeadSegments fe), fe_verdict := VerdictClean, CoverageFraction := 0\<rparr>)) s"
proof (cases "(\<exists>err. loadManifestLocked io n s = Inl err) \<or> (\<exists>m. loadManifestLocked io n s = Inr m \<and> map_of (Files m) f = None)")
  case True
  then have "snd (ClearFileDamage io n f s) = s" by (auto simp: ClearFileDamage_def)
  then show thesis using same by blast
next
  case False
  then obtain m fe where m: "loadManifestLocked io n s = Inr m" "map_of (Files m) f = Some fe"
    by (cases "loadManifestLocked io n s") auto
  note cd = ClearFileDamage_def [of io n f s] m Let_def
  consider "filter (\<lambda>d. Status d = StatusPatched) (DeadSegments fe) = []" "AList.delete f (Files m) = []"
    | "filter (\<lambda>d. Status d = StatusPatched) (DeadSegments fe) = []" "AList.delete f (Files m) \<noteq> []"
    | "filter (\<lambda>d. Status d = StatusPatched) (DeadSegments fe) \<noteq> []" by blast
  then show thesis
  proof cases
    case 1
    then have "snd (ClearFileDamage io n f s) = snd (removeEntryDir io n s)" by (simp add: cd split: prod.splits)
    then show thesis using removed [OF m(1) 1(2)] by blast
  next
    case 2
    then have "snd (ClearFileDamage io n f s) = saveIgnored io n (m\<lparr>Files := AList.delete f (Files m)\<rparr>) s"
      by (simp add: cd prod.case_eq_if)
    then show thesis using deleted [OF m(1) 2(2)] by blast
  next
    case 3
    then have "snd (ClearFileDamage io n f s) = saveIgnored io n (putFile m f
         (fe\<lparr>DeadSegments := filter (\<lambda>d. Status d = StatusPatched) (DeadSegments fe), fe_verdict := VerdictClean, CoverageFraction := 0\<rparr>)) s"
      by (simp add: cd prod.case_eq_if)
    then show thesis using kept [OF m 3] by blast
  qed
qed

lemma unlink_simps [simp]:
  "dirs (unlinkPatches io n f fe s) = dirs s" "manifests (unlinkPatches io n f fe s) = manifests s"
  "rejected (unlinkPatches io n f fe s) = rejected s"
  unfolding unlinkPatches_def by (rule fold_keeps; simp)+

lemma unlink_entry_of [simp]: "entry_of (unlinkPatches io n f fe s) = entry_of s"
  by (simp add: entry_of_def fun_eq_iff)

lemma unlink_blobs: "blobs (unlinkPatches io n f fe s) k = Some data \<Longrightarrow> blobs s k = Some data"
  unfolding unlinkPatches_def
proof (induction "DeadSegments fe" arbitrary: fe s rule: rev_induct)
  case (snoc d ds)
  from snoc.hyps(2) [symmetric] snoc.prems show ?case
    using snoc.hyps(1) [of "fe\<lparr>DeadSegments := ds\<rparr>" s] by (auto split: if_splits)
qed simp

lemma unlink_other [simp]: "n' \<noteq> n \<Longrightarrow> blobs (unlinkPatches io n f fe s) (n', k) = blobs s (n', k)"
  unfolding unlinkPatches_def by (rule fold_keeps) (simp add: patchPath_def)

lemma DeleteFile_cases:
  obtains (same) "snd (DeleteFile io n f s) = s"
  | (removed) m fe where "loadManifestLocked io n s = Inr m" "AList.delete f (Files m) = []"
      "snd (DeleteFile io n f s) = snd (removeEntryDir io n (unlinkPatches io n f fe s))"
  | (deleted) m fe where "loadManifestLocked io n s = Inr m" "AList.delete f (Files m) \<noteq> []"
      "snd (DeleteFile io n f s) = saveIgnored io n (m\<lparr>Files := AList.delete f (Files m)\<rparr>) (unlinkPatches io n f fe s)"
proof (cases "(\<exists>err. loadManifestLocked io n s = Inl err) \<or> (\<exists>m. loadManifestLocked io n s = Inr m \<and> map_of (Files m) f = None)")
  case True
  then have "snd (DeleteFile io n f s) = s" by (auto simp: DeleteFile_def)
  then show thesis using same by blast
next
  case False
  then obtain m fe where m: "loadManifestLocked io n s = Inr m" "map_of (Files m) f = Some fe"
    by (cases "loadManifestLocked io n s") auto
  note dd = DeleteFile_def [of io n f s] m Let_def
  show thesis
  proof (cases "AList.delete f (Files m) = []")
    case True
    then have "snd (DeleteFile io n f s) = snd (removeEntryDir io n (unlinkPatches io n f fe s))"
      by (simp add: dd split: prod.splits option.splits)
    then show thesis using removed [OF m(1) True] by blast
  next
    case False
    then have "snd (DeleteFile io n f s) = saveIgnored io n (m\<lparr>Files := AList.delete f (Files m)\<rparr>) (unlinkPatches io n f fe s)"
      by (simp add: dd prod.case_eq_if split: option.splits)
    then show thesis using deleted [OF m(1) False] by blast
  qed
qed

definition unfail :: "FileEntry \<Rightarrow> FileEntry" where
  "unfail fe = (if fully_patched fe then fe\<lparr>fe_verdict := VerdictClean\<rparr> else fe)"

lemma UnfailRepaired_cases:
  obtains (same) "snd (UnfailRepaired io n s) = s"
  | (saved) m where "\<not> isRejected n s" "loadManifestLocked io n s = Inr m" "Files m \<noteq> []"
      "snd (UnfailRepaired io n s) = saveIgnored io n (m\<lparr>Files := map (\<lambda>(name, fe). (name, unfail fe)) (Files m)\<rparr>) s"
proof (cases "isRejected n s \<or> (\<exists>err. loadManifestLocked io n s = Inl err) \<or>
    (\<exists>m. loadManifestLocked io n s = Inr m \<and> filter (\<lambda>(name, fe). fully_patched fe) (Files m) = [])")
  case True
  then have "snd (UnfailRepaired io n s) = s" by (auto simp: UnfailRepaired_def)
  then show thesis using same by blast
next
  case False
  then obtain m where m: "\<not> isRejected n s" "loadManifestLocked io n s = Inr m"
    "filter (\<lambda>(name, fe). fully_patched fe) (Files m) \<noteq> []"
    by (cases "loadManifestLocked io n s") auto
  then have "Files m \<noteq> []" by auto
  moreover have "snd (UnfailRepaired io n s) = saveIgnored io n (m\<lparr>Files := map (\<lambda>(name, fe). (name, unfail fe)) (Files m)\<rparr>) s"
    using m by (simp add: UnfailRepaired_def Let_def unfail_def prod.case_eq_if)
  ultimately show thesis using saved m by blast
qed

lemma entry_ok_decided:
  assumes "sorted_dead fe" "known fe i"
  shows "entry_ok (fe\<lparr>fe_verdict := VerdictFailed\<rparr>)"
    "entry_ok ((markPaddedLocked fe i)\<lparr>fe_verdict := VerdictFailed\<rparr>)"
    "entry_ok ((markPaddedLocked fe i)\<lparr>fe_verdict := VerdictDegraded\<rparr>)"
  using assms markPadded_unpatched [OF assms(2)] markPadded_simps [of fe i] known_ne [OF assms(2)]
  by (auto simp: entry_ok_def unpatched_def)

lemma with_patch_ok: "sorted_dead fe \<Longrightarrow> entry_ok (with_patch fe i data)"
  unfolding with_patch_def
  by (rule recompute_ok) (auto simp: update_first_map known_ne intro: sorted_appendDead)

lemma patched_only_ok:
  assumes "entry_ok fe" "filter (\<lambda>d. Status d = StatusPatched) (DeadSegments fe) \<noteq> []"
  shows "entry_ok (fe\<lparr>DeadSegments := filter (\<lambda>d. Status d = StatusPatched) (DeadSegments fe), fe_verdict := VerdictClean, CoverageFraction := 0\<rparr>)"
  using assms by (auto simp: entry_ok_def unpatched_def sorted_wrt_map sorted_wrt_filter)

lemma unfail_ok: "entry_ok fe \<Longrightarrow> entry_ok (unfail fe)"
  by (auto simp: unfail_def entry_ok_def fully_patched_def unpatched_def list_all_iff)

lemma files_ok_unfail: "files_ok fs \<Longrightarrow> files_ok (map (\<lambda>(name, fe). (name, unfail fe)) fs)"
  by (auto simp: files_ok_def map_of_map comp_def case_prod_beta intro: unfail_ok)

lemma write_ok: "store_ok s \<Longrightarrow> store_ok (s\<lparr>dirs := insert n (dirs s), blobs := (blobs s)(patchPath n f i \<mapsto> data)\<rparr>)"
  by (fastforce simp: store_ok_def patchPath_def)

lemma dirs_ok: "store_ok s \<Longrightarrow> D = dirs s \<or> D = insert n (dirs s) \<Longrightarrow> store_ok (s\<lparr>dirs := D\<rparr>)"
  by (fastforce simp: store_ok_def)

lemma unlink_ok: "store_ok s \<Longrightarrow> store_ok (unlinkPatches io n f fe s)"
  unfolding store_ok_def by (auto dest!: unlink_blobs) (metis domI fst_conv image_eqI subsetD)

lemma decide_ok: "store_ok s \<Longrightarrow> store_ok (snd (decide io n f i msg len fsize tot viewer s))"
proof (cases rule: decide_cases [of io n f i msg len fsize tot viewer s])
  case (saved m fe' t d v)
  assume ok: "store_ok s"
  let ?fe = "with_dead (fileEntryLocked m f) i msg len"
  have "sorted_dead ?fe" using entry_sorted [OF load_ok [OF ok saved(2)]] by (rule sorted_with_dead)
  note e = entry_ok_decided [OF this known_with_dead]
  have "entry_ok fe'" using saved(5) e by blast
  then have "store_ok (saveIgnored io n (putFile m f fe') s)" using put_ok [OF ok saved(2)] by blast
  then show ?thesis using saved(3) same_disk_ok [OF saved(4)] by simp
qed simp

lemma WritePatch_ok: "store_ok s \<Longrightarrow> store_ok (snd (WritePatch io n f i data s))"
proof (cases rule: WritePatch_cases [of io n f i data s])
  case (saved m)
  assume ok: "store_ok s"
  note fo = load_ok [OF ok saved(2)]
  show ?thesis
    using files_ok_put [OF fo with_patch_ok [OF entry_sorted [OF fo]]] save_ok [OF write_ok [OF ok]] by (simp add: saved(4))
qed (auto intro: dirs_ok)

lemma RecordDead_ok: "store_ok s \<Longrightarrow> store_ok (snd (RecordDead io n f i msg len s))"
proof (cases rule: RecordDead_cases [of io n f i msg len s])
  case (saved m)
  assume ok: "store_ok s"
  have "entry_ok (recomputeVerdictLocked (appendDead (fileEntryLocked m f) (new_dead i msg len)))"
    using entry_sorted [OF load_ok [OF ok saved(2)]] saved(3) by (intro recompute_ok sorted_appendDead) simp_all
  then show ?thesis using put_ok [OF ok saved(2)] by (simp add: saved(4))
qed simp

lemma ClearFileDamage_ok: "store_ok s \<Longrightarrow> store_ok (snd (ClearFileDamage io n f s))"
proof (cases rule: ClearFileDamage_cases [of io n f s])
  case (deleted m)
  assume ok: "store_ok s"
  show ?thesis using save_ok [OF ok, of "m\<lparr>Files := AList.delete f (Files m)\<rparr>"] files_ok_delete [OF load_ok [OF ok deleted(1)]] deleted by simp
next
  case (kept m fe)
  assume ok: "store_ok s"
  show ?thesis using put_ok [OF ok kept(1) patched_only_ok [OF files_ok_entry [OF load_ok [OF ok kept(1)] kept(2)] kept(3)]] kept(4) by simp
qed (simp_all add: remove_ok)

lemma DeleteFile_ok: "store_ok s \<Longrightarrow> store_ok (snd (DeleteFile io n f s))"
proof (cases rule: DeleteFile_cases [of io n f s])
  case (deleted m fe)
  assume ok: "store_ok s"
  show ?thesis
    using save_ok [OF unlink_ok [OF ok], of "m\<lparr>Files := AList.delete f (Files m)\<rparr>"] files_ok_delete [OF load_ok [OF ok deleted(1)]] deleted by simp
qed (simp_all add: remove_ok unlink_ok)

lemma UnfailRepaired_ok: "store_ok s \<Longrightarrow> store_ok (snd (UnfailRepaired io n s))"
proof (cases rule: UnfailRepaired_cases [of io n s])
  case (saved m)
  assume ok: "store_ok s"
  show ?thesis
    using save_ok [OF ok, of "m\<lparr>Files := map (\<lambda>(name, fe). (name, unfail fe)) (Files m)\<rparr>"]
      files_ok_unfail [OF load_ok [OF ok saved(2)]] saved by simp
qed simp

lemma SetCoverageFraction_cases:
  obtains (same) "snd (SetCoverageFraction io n f r s) = s"
  | (saved) m fe where "\<not> isRejected n s" "loadManifestLocked io n s = Inr m" "map_of (Files m) f = Some fe"
      "snd (SetCoverageFraction io n f r s) = saveIgnored io n (putFile m f (fe\<lparr>CoverageFraction := r\<rparr>)) s"
  by (cases "isRejected n s"; cases "loadManifestLocked io n s"; cases "map_of (Files (projr (loadManifestLocked io n s))) f")
    (simp_all add: SetCoverageFraction_def)

lemma SetCoverageFraction_ok: "store_ok s \<Longrightarrow> store_ok (snd (SetCoverageFraction io n f r s))"
proof (cases rule: SetCoverageFraction_cases [of io n f r s])
  case (saved m fe)
  assume ok: "store_ok s"
  have "entry_ok (fe\<lparr>CoverageFraction := r\<rparr>)"
    using files_ok_entry [OF load_ok [OF ok saved(2)] saved(3)] by (simp add: entry_ok_def unpatched_def)
  then show ?thesis using put_ok [OF ok saved(2)] saved(4) by simp
qed simp

text \<open>The operations on the in-memory state leave the disk alone.\<close>

lemma memory_ops [simp]:
  "dirs (enqueueRepair io n s) = dirs s" "manifests (enqueueRepair io n s) = manifests s" "blobs (enqueueRepair io n s) = blobs s"
  "rejected (enqueueRepair io n s) = rejected s"
  "dirs (MarkRejected n s) = dirs s" "manifests (MarkRejected n s) = manifests s" "blobs (MarkRejected n s) = blobs s"
  "dirs (ClearRejected n s) = dirs s" "manifests (ClearRejected n s) = manifests s" "blobs (ClearRejected n s) = blobs s"
  by (simp_all add: enqueueRepair_def MarkRejected_def ClearRejected_def Let_def)

lemma sweep_ops [simp]:
  "same_disk (MarkSweepEntry n s) s" "same_disk (ClearSweepEntry n s) s" "same_disk (MarkSweepDead n s) s"
  "same_disk (snd (ShouldLogPad n f i s)) s" "same_disk (SetPolicy p s) s"
  "same_disk (SetViewerPadNotifier c (SetFailedNotifier b (SetRepairEnqueuer a s))) s"
  by (auto simp: MarkSweepEntry_def ClearSweepEntry_def MarkSweepDead_def ShouldLogPad_def SetPolicy_def Let_def
      SetViewerPadNotifier_def SetFailedNotifier_def SetRepairEnqueuer_def split: option.splits)

lemmas op_ok = RecordDead_ok decide_ok WritePatch_ok SetCoverageFraction_ok ClearFileDamage_ok UnfailRepaired_ok DeleteFile_ok remove_ok

lemma apply_op_ok: "store_ok s \<Longrightarrow> store_ok (apply_op io oper s)"
  by (cases oper) (auto simp: op_ok DeleteEntry_def same_disk_ok [OF sweep_ops(1)] same_disk_ok [OF sweep_ops(2)]
      same_disk_ok [OF sweep_ops(3)] same_disk_ok [OF sweep_ops(4)] same_disk_ok [OF sweep_ops(5)] same_disk_ok [OF sweep_ops(6)]
      store_ok_def [of "enqueueRepair _ _ _"] store_ok_def [of "MarkRejected _ _"] store_ok_def [of "ClearRejected _ _"] store_ok_def [of s])

lemma NewStore_disk: "NewStore d ok s = Inr t \<Longrightarrow> dirs t = dirs s \<and> manifests t = manifests s \<and> blobs t = blobs s"
  by (auto simp: NewStore_def split: if_splits)

lemma NewStore_ok: "NewStore d ok s = Inr t \<Longrightarrow> store_ok s \<Longrightarrow> store_ok t"
  by (drule NewStore_disk) (simp add: store_ok_def)

interpretation overlay: invariant fresh_store store_step store_ok
proof
  fix s assume "fresh_store s"
  then show "store_ok s" by (auto simp: fresh_store_def NewStore_def emptyDisk_def store_ok_def)
next
  fix s l t assume "store_ok s" "store_step l s t"
  then show "store_ok t"
    by (cases l) (auto elim!: restart_stepE call_stepE intro: apply_op_ok NewStore_ok)
qed

end
