(* ===== verification/Overlay_Props.thy ===== *)
theory Overlay_Props
  imports Overlay_Steps
begin

text \<open>
  The properties of the overlay store: the caps, the verdict, patches, torn-down entries, and three
  places where the code and its comments differ.
\<close>

section \<open>The caps\<close>

lemma run_loop_exceeds:
  assumes "sorted_wrt (<) (prev # is)" "\<forall>i \<in> set (prev # is). is_i64 i" "1 \<le> r" "r \<le> b"
  shows "run_loop prev is r b > M \<longleftrightarrow>
    b > M \<or> (\<exists>a \<in> {prev - r + 1..prev} \<union> set is. {a..a + M} \<subseteq> {prev - r + 1..prev} \<union> set is)"
  using assms
proof (induction "is" arbitrary: prev r b)
  case Nil
  have "b > M" if "a \<in> {prev - r + 1..prev}" "{a..a + M} \<subseteq> {prev - r + 1..prev}" for a
  proof (cases "M < 0")
    case False
    then have "a + M \<in> {prev - r + 1..prev}" using that(2) by auto
    then show ?thesis using that(1) Nil.prems by auto
  qed (use Nil.prems in simp)
  then show ?case by auto
next
  case (Cons i "is")
  have i: "prev < i" "sorted_wrt (<) (i # is)" "\<forall>j \<in> set is. i < j" using Cons.prems by auto
  have next_iff: "i = i64 (prev + 1) \<longleftrightarrow> i = prev + 1"
    using Cons.prems i by (cases "prev = 9223372036854775807") (auto simp: i64_id)
  show ?case
  proof (cases "i = prev + 1")
    case True
    have T: "{i - (r + 1) + 1..i} \<union> set is = {prev - r + 1..prev} \<union> set (i # is)"
      using True Cons.prems(3) by auto
    have "\<exists>a \<in> {prev - r + 1..prev} \<union> set (i # is). {a..a + M} \<subseteq> {prev - r + 1..prev} \<union> set (i # is)" if "r + 1 > M"
      unfolding T [symmetric] using that True Cons.prems(3) by (intro bexI [of _ "prev - r + 1"]) auto
    moreover have "run_loop prev (i # is) r b = run_loop i is (r + 1) (max b (r + 1))"
      using True next_iff by (cases "b = r + 1") (auto simp: max_def Let_def)
    moreover have "run_loop i is (r + 1) (max b (r + 1)) > M \<longleftrightarrow> max b (r + 1) > M \<or>
        (\<exists>a \<in> {prev - r + 1..prev} \<union> set (i # is). {a..a + M} \<subseteq> {prev - r + 1..prev} \<union> set (i # is))"
      unfolding T [symmetric] using Cons.prems i(2) by (intro Cons.IH) auto
    ultimately show ?thesis by (auto simp: less_max_iff_disj)
  next
    case False
    have m: "run_loop prev (i # is) r b = run_loop i is 1 b"
      using False next_iff Cons.prems(3,4) by (auto simp: Let_def)
    have sub: "b > M \<or> a \<in> insert i (set is) \<and> {a..a + M} \<subseteq> insert i (set is)"
      if a: "a \<in> {prev - r + 1..prev} \<union> set (i # is)" "{a..a + M} \<subseteq> {prev - r + 1..prev} \<union> set (i # is)" for a
    proof (cases "b > M")
      case nb: False
      have "a \<notin> {prev - r + 1..prev}"
      proof
        assume A: "a \<in> {prev - r + 1..prev}"
        have "prev + 1 \<notin> {prev - r + 1..prev} \<union> set (i # is)" using False i by force
        then have "prev + 1 \<notin> {a..a + M}" using a(2) by blast
        then have "\<not> prev + 1 \<le> a + M" using A by simp
        then show False using nb A Cons.prems(3,4) by auto
      qed
      moreover have "{a..a + M} \<subseteq> insert i (set is)" if "a \<in> insert i (set is)"
        using a(2) that i by force
      ultimately show ?thesis using a(1) by auto
    qed simp
    have ih: "run_loop i is 1 b > M \<longleftrightarrow> b > M \<or> (\<exists>a \<in> insert i (set is). {a..a + M} \<subseteq> insert i (set is))"
      using Cons.IH [of i 1 b] Cons.prems i(2) by simp
    have mono: "insert i (set is) \<subseteq> {prev - r + 1..prev} \<union> set (i # is)" by auto
    show ?thesis unfolding m ih using sub mono by (meson subset_iff)
  qed
qed

lemma best_run_exceeds:
  assumes "sorted_wrt (<) is" "\<forall>i \<in> set is. is_i64 i" "is \<noteq> []"
  shows "best_run is > M \<longleftrightarrow> (\<exists>a \<in> set is. {a..a + M} \<subseteq> set is)"
proof -
  obtain i js where is_eq: "is = i # js" using assms(3) by (cases "is") auto
  have "run_loop i js 1 1 > M \<longleftrightarrow> 1 > M \<or> (\<exists>a \<in> {i - 1 + 1..i} \<union> set js. {a..a + M} \<subseteq> {i - 1 + 1..i} \<union> set js)"
    using assms unfolding is_eq by (intro run_loop_exceeds) auto
  moreover have "\<exists>a \<in> set is. {a..a + M} \<subseteq> set is" if "1 > M"
    using that unfolding is_eq by (cases "M = 0") (auto intro!: bexI [of _ i])
  ultimately show ?thesis unfolding is_eq best_run_def by auto
qed

text \<open>What the caps mean, without the loops: \<open>dead\<close> are the segments that still count as damage.\<close>

definition within_caps :: "Policy \<Rightarrow> int \<Rightarrow> int \<Rightarrow> DeadSegment list \<Rightarrow> bool" where
  "within_caps p fileSize totalSegments dead \<longleftrightarrow>
     int (length dead) \<le> MaxTotalSegments p \<and>
     (fileSize > 0 \<longrightarrow> float_of_int (i64 (\<Sum>d\<leftarrow>dead. Bytes d)) \<le> fl (float_of_int fileSize * MaxByteRatio p)) \<and>
     (\<forall>a \<in> Index ` set dead. \<not> {a..a + MaxRunSegments p} \<subseteq> Index ` set dead) \<and>
     (totalSegments > 0 \<longrightarrow> (\<forall>d \<in> set dead. max 1 (totalSegments div 100) \<le> Index d))"

lemma i64_add: "i64 (i64 a + b) = i64 (a + b)"
  by (simp add: i64_def mod_simps algebra_simps)

lemma padBytes_sum: "fold (\<lambda>d n. i64 (n + Bytes d)) ds (i64 a) = i64 (a + (\<Sum>d\<leftarrow>ds. Bytes d))"
  by (induction ds arbitrary: a) (simp_all add: i64_add add.assoc)

lemma sorted_unpatched: "sorted_dead fe \<Longrightarrow> sorted_wrt (<) (map Index (unpatched fe))"
  by (simp add: unpatched_def sorted_wrt_map sorted_wrt_filter)

lemma WithinPadCaps_iff:
  assumes "sorted_dead fe" "\<forall>d \<in> set (DeadSegments fe). is_i64 (Index d)"
  shows "snd (WithinPadCaps fe fsize p tot) \<longleftrightarrow> within_caps p fsize tot (unpatched fe)"
proof -
  let ?is = "map Index (unpatched fe)"
  note so = sorted_unpatched [OF assms(1)]
  have srt: "sort ?is = ?is" using so by (simp add: strict_sorted_iff sorted_sort_id)
  have i: "\<forall>i \<in> set ?is. is_i64 i" using assms(2) by (auto simp: unpatched_def)
  have pad: "fold (\<lambda>d n. i64 (n + Bytes d)) (unpatched fe) 0 = i64 (\<Sum>d\<leftarrow>unpatched fe. Bytes d)"
    using padBytes_sum [of "unpatched fe" 0] by (simp add: i64_def)
  have run: "(?is \<noteq> [] \<and> best_run ?is > MaxRunSegments p) \<longleftrightarrow>
      (\<exists>a \<in> Index ` set (unpatched fe). {a..a + MaxRunSegments p} \<subseteq> Index ` set (unpatched fe))"
    using best_run_exceeds [OF so i, of "MaxRunSegments p"] by (cases "?is = []") simp_all
  have hd_le: "hd ?is < b \<longleftrightarrow> (\<exists>i \<in> set ?is. i < b)" if "?is \<noteq> []" for b
  proof -
    obtain j js where "?is = j # js" using \<open>?is \<noteq> []\<close> by (cases ?is) auto
    then show ?thesis using so by (force simp del: map_eq_Cons_conv)
  qed
  have header: "header_damage ?is tot \<longleftrightarrow> tot > 0 \<and> (\<exists>d \<in> set (unpatched fe). Index d < max 1 (tot div 100))"
    using hd_le [of "max 1 (tot div 100)"] by (cases "?is = []") (auto simp: header_damage_def)
  show ?thesis
    unfolding WithinPadCaps_def Let_def srt snd_conv pad run header within_caps_def by (auto simp: not_less not_le)
qed

section \<open>Entries across steps\<close>

lemma entry_of_ok:
  assumes "store_ok s" "entry_of s n f = Some fe"
  shows "entry_ok fe"
proof -
  obtain m where m: "manifests s n = Some (Stored m)" "map_of (Files m) f = Some fe"
    using assms(2) by (auto simp: entry_of_def split: option.splits manifest_file.splits)
  then have "files_ok (Files m)" using assms(1) by (auto simp: store_ok_def)
  then show ?thesis using m(2) by (rule files_ok_entry)
qed

lemma load_put_entry:
  assumes "loadManifestLocked io n s = Inr m"
  shows "entry_of (saveIgnored io' n (putFile m g fe) s') n' f =
    (if save_io io' = WriteOk \<and> n' = n then (if f = g then Some fe else entry_of s n f) else entry_of s' n' f)"
  using load_Inr(2) [OF assms] by auto

lemma entry_of_cong: "manifests s = manifests t \<Longrightarrow> entry_of s = entry_of t"
  by (simp add: entry_of_def fun_eq_iff)

lemma entry_of_disk [simp]: "entry_of (s\<lparr>dirs := D\<rparr>) = entry_of s" "entry_of (s\<lparr>dirs := D, blobs := B\<rparr>) = entry_of s"
  by (simp_all add: entry_of_def fun_eq_iff)

lemma load_delete_entry:
  assumes "loadManifestLocked io n s = Inr m"
  shows "entry_of (saveIgnored io' n (m\<lparr>Files := AList.delete g (Files m)\<rparr>) s') n' f =
    (if save_io io' = WriteOk \<and> n' = n then (if f = g then None else entry_of s n f) else entry_of s' n' f)"
  using load_Inr(2) [OF assms] by (auto simp: delete_conv')

lemma delete_Nil_entry:
  assumes "loadManifestLocked io n s = Inr m" "AList.delete g (Files m) = []" "f \<noteq> g"
  shows "entry_of s n f = None"
  using arg_cong [OF assms(2), of "\<lambda>fs. map_of fs f"] load_Inr(2) [OF assms(1), of f] assms(3) by (simp add: delete_conv')

lemma remove_entry_other: "n' \<noteq> n \<Longrightarrow> entry_of (snd (removeEntryDir io n s)) n' f = entry_of s n' f"
  by (simp add: entry_of_def)

lemma decide_entry:
  assumes "entry_of s n f = Some fe" "fe_verdict fe = VerdictFailed"
  shows "\<exists>fe'. entry_of (snd (decide io n' g i msg len fsize tot viewer s)) n f = Some fe' \<and> fe_verdict fe' = VerdictFailed"
proof (cases rule: decide_cases [of io n' g i msg len fsize tot viewer s])
  case (saved m fe' t d v)
  have "fe_verdict fe' = VerdictFailed" if "n' = n" "g = f"
    using saved(5) that assms fileEntryLocked_entry [OF saved(2), of g] by auto
  then show ?thesis using assms saved(3,4) load_put_entry [OF saved(2)] entry_of_cong [of t] by auto
qed (use assms in simp)

lemma with_patch_failed: "fe_verdict fe = VerdictFailed \<Longrightarrow> fe_verdict (with_patch fe i data) = VerdictFailed"
  by (simp add: with_patch_def)

lemma WritePatch_entry:
  assumes "entry_of s n f = Some fe" "fe_verdict fe = VerdictFailed"
  shows "\<exists>fe'. entry_of (snd (WritePatch io n' g i data s)) n f = Some fe' \<and> fe_verdict fe' = VerdictFailed"
proof (cases rule: WritePatch_cases [of io n' g i data s])
  case (saved m)
  then show ?thesis
    using assms load_put_entry [OF saved(2)] fileEntryLocked_entry [OF saved(2), of g] with_patch_failed by auto
qed (use assms in simp_all)

lemma RecordDead_entry:
  assumes "entry_of s n f = Some fe" "fe_verdict fe = VerdictFailed"
  shows "\<exists>fe'. entry_of (snd (RecordDead io n' g i msg len s)) n f = Some fe' \<and> fe_verdict fe' = VerdictFailed"
proof (cases rule: RecordDead_cases [of io n' g i msg len s])
  case (saved m)
  then show ?thesis
    using assms load_put_entry [OF saved(2)] fileEntryLocked_entry [OF saved(2), of g] by auto
qed (use assms in simp_all)

lemma ClearFileDamage_entry:
  assumes "entry_of s n f = Some fe" "(n', g) \<noteq> (n, f)"
  shows "entry_of (snd (ClearFileDamage io n' g s)) n f = Some fe"
proof (cases rule: ClearFileDamage_cases [of io n' g s])
  case (removed m)
  then have "n' \<noteq> n" using delete_Nil_entry [of io n' s m g f] assms by auto
  then show ?thesis using removed(3) assms by (simp add: remove_entry_other)
next
  case (deleted m)
  then show ?thesis using assms load_delete_entry [OF deleted(1)] by auto
next
  case (kept m fe')
  then show ?thesis using assms load_put_entry [OF kept(1)] by auto
qed (use assms in simp)

lemma DeleteFile_entry:
  assumes "entry_of s n f = Some fe" "(n', g) \<noteq> (n, f)"
  shows "entry_of (snd (DeleteFile io n' g s)) n f = Some fe"
proof (cases rule: DeleteFile_cases [of io n' g s])
  case (removed m fe')
  then have "n' \<noteq> n" using delete_Nil_entry [of io n' s m g f] assms by auto
  then show ?thesis using removed(3) assms by (simp add: remove_entry_other)
next
  case (deleted m fe')
  then show ?thesis using assms load_delete_entry [OF deleted(1)] by auto
qed (use assms in simp)

lemma UnfailRepaired_entry:
  assumes "entry_of s n f = Some fe"
  shows "entry_of (snd (UnfailRepaired io n' s)) n f \<in> {Some fe, Some (unfail fe)}"
    "n' \<noteq> n \<Longrightarrow> entry_of (snd (UnfailRepaired io n' s)) n f = Some fe"
proof -
  have "entry_of (snd (UnfailRepaired io n' s)) n f \<in> {Some fe, Some (unfail fe)} \<and>
    (n' \<noteq> n \<longrightarrow> entry_of (snd (UnfailRepaired io n' s)) n f = Some fe)"
  proof (cases rule: UnfailRepaired_cases [of io n' s])
    case (saved m)
    then show ?thesis using assms load_Inr(2) [OF saved(2), of f] by (auto simp: map_of_map comp_def case_prod_beta)
  qed (use assms in simp)
  then show "entry_of (snd (UnfailRepaired io n' s)) n f \<in> {Some fe, Some (unfail fe)}"
    "n' \<noteq> n \<Longrightarrow> entry_of (snd (UnfailRepaired io n' s)) n f = Some fe" by auto
qed

lemma SetCoverageFraction_entry:
  assumes "entry_of s n f = Some fe" "fe_verdict fe = VerdictFailed"
  shows "\<exists>fe'. entry_of (snd (SetCoverageFraction io n' g r s)) n f = Some fe' \<and> fe_verdict fe' = VerdictFailed"
proof (cases rule: SetCoverageFraction_cases [of io n' g r s])
  case (saved m fe')
  then show ?thesis using assms load_put_entry [OF saved(2)] load_Inr(2) [OF saved(2), of g] by auto
qed (use assms in simp)

text \<open>The calls that may take a failed verdict away from a file: those that delete its record, and
  \<^verbatim>\<open>UnfailRepaired\<close>.\<close>

definition clears :: "string \<Rightarrow> string \<Rightarrow> label \<Rightarrow> bool" where
  "clears n f l \<longleftrightarrow> l \<in> {Call (OpDeleteEntry n), Call (OpClearFileDamage n f), Call (OpDeleteFile n f), Call (OpUnfailRepaired n)}"

lemma step_failed:
  assumes "store_step l s t" "\<not> clears n f l" "\<exists>fe. entry_of s n f = Some fe \<and> fe_verdict fe = VerdictFailed"
  shows "\<exists>fe. entry_of t n f = Some fe \<and> fe_verdict fe = VerdictFailed"
proof -
  obtain fe where fe: "entry_of s n f = Some fe" "fe_verdict fe = VerdictFailed" using assms(3) by blast
  from assms(1) show ?thesis
  proof cases
    case (restart d ok)
    then show ?thesis using assms(3) entry_of_cong [of t s] by (simp add: NewStore_disk)
  next
    case (call oper io)
    have same: ?thesis if "manifests t = manifests s" using that entry_of_cong [of t s] assms(3) by simp
    show ?thesis
    proof (cases oper)
      case (OpUnfailRepaired n')
      then show ?thesis using assms(2) call fe UnfailRepaired_entry(2) [OF fe(1), of n' io] by (auto simp: clears_def)
    next
      case (OpDeleteEntry n')
      then show ?thesis using assms(2) call fe remove_entry_other [of n n' io s f] by (auto simp: clears_def DeleteEntry_def)
    next
      case (OpClearFileDamage n' g)
      then show ?thesis using assms(2) call fe ClearFileDamage_entry [OF fe(1), of n' g io] by (auto simp: clears_def)
    next
      case (OpDeleteFile n' g)
      then show ?thesis using assms(2) call fe DeleteFile_entry [OF fe(1), of n' g io] by (auto simp: clears_def)
    next
      case OpRecordDead
      then show ?thesis using call RecordDead_entry [OF fe] by simp
    next
      case OpDecide
      then show ?thesis using call decide_entry [OF fe] by simp
    next
      case OpWritePatch
      then show ?thesis using call WritePatch_entry [OF fe] by simp
    next
      case OpSetCoverageFraction
      then show ?thesis using call SetCoverageFraction_entry [OF fe] by simp
    qed (use same call in simp_all)
  qed
qed

lemma decide_failed:
  assumes "entry_of s n f = Some fe" "fe_verdict fe = VerdictFailed"
  shows "Decide io n f i msg len fsize tot s = ((DecisionFail, VerdictFailed), s)"
proof (cases "loadManifestLocked io n s")
  case (Inr m)
  then show ?thesis using assms fileEntryLocked_entry [OF Inr, of f] by (simp add: Decide_def decide_def)
qed (simp add: Decide_def decide_def)

text \<open>A viewer's read of a failed file may still be padded, within the viewer ceilings; the file stays failed.\<close>

lemma viewer_failed:
  assumes "entry_of s n f = Some fe" "fe_verdict fe = VerdictFailed"
  shows "snd (fst (DecideForViewer io n f i msg len fsize tot s)) = VerdictFailed \<and>
    (fst (fst (DecideForViewer io n f i msg len fsize tot s)) = DecisionPad \<longrightarrow>
      n \<notin> rejected s \<and> IsVideoContainer f \<and> viewerMayPad (with_dead fe i msg len) fsize (Store_Policy s) tot)"
proof (cases "loadManifestLocked io n s")
  case (Inr m)
  have fe: "fileEntryLocked m f = fe" using fileEntryLocked_entry [OF Inr, of f] assms(1) by simp
  have "(with_dead fe i msg len)\<lparr>fe_verdict := VerdictFailed\<rparr> = with_dead fe i msg len"
    using assms(2) by (simp add: with_dead_def appendDead_def sortDeadSegments_def)
  then show ?thesis
    using Inr assms(2) fe by (simp add: DecideForViewer_def decide_def Let_def with_dead_def isRejected_def appendDead_def sortDeadSegments_def split: if_splits)
qed (simp add: DecideForViewer_def decide_def)

section \<open>Torn-down entries\<close>

definition torn_down :: "string \<Rightarrow> Store \<Rightarrow> bool" where
  "torn_down n s \<longleftrightarrow> n \<in> rejected s \<and> n \<notin> dirs s \<and> manifests s n = None \<and> (\<forall>k. blobs s (n, k) = None)"

lemma save_other:
  assumes "n' \<noteq> n" "torn_down n s"
  shows "torn_down n (saveIgnored io n' m s)"
  by (cases rule: saveIgnored_cases [of io n' m s]) (use assms in \<open>auto simp: torn_down_def\<close>)

lemma torn_down_cong: "same_disk s t \<Longrightarrow> torn_down n s \<longleftrightarrow> torn_down n t"
  by (simp add: torn_down_def)

lemma torn_down_rejected: "torn_down n s \<Longrightarrow> isRejected n s"
  by (simp add: torn_down_def isRejected_def)

lemma torn_down_load: "torn_down n s \<Longrightarrow> loadManifestLocked io n s = Inr m \<Longrightarrow> Files m = []"
  using load_Inr(1) [of io n s m] by (simp add: torn_down_def)

lemma torn_down_unlink: "torn_down n s \<Longrightarrow> torn_down n (unlinkPatches io n' f fe s)"
  using unlink_blobs [of io n' f fe s] by (simp add: torn_down_def) (metis option.exhaust option.distinct(1))

lemma torn_down_remove: "torn_down n s \<Longrightarrow> torn_down n (snd (removeEntryDir io n' s))"
  using remove_blobs [of io n' s] remove_manifests [of io n' s]
  by (simp add: torn_down_def) (metis option.exhaust option.distinct(1))

lemma ClearFileDamage_torn: "torn_down n s \<Longrightarrow> torn_down n (snd (ClearFileDamage io n' g s))"
proof (cases rule: ClearFileDamage_cases [of io n' g s])
  case (deleted m)
  assume td: "torn_down n s"
  have "n' \<noteq> n" using deleted torn_down_load [OF td] by auto
  then show ?thesis using save_other [OF _ td] deleted by simp
next
  case (kept m fe)
  assume td: "torn_down n s"
  have "n' \<noteq> n" using kept torn_down_load [OF td] by auto
  then show ?thesis using save_other [OF _ td] kept by simp
qed (simp_all add: torn_down_remove)

lemma DeleteFile_torn: "torn_down n s \<Longrightarrow> torn_down n (snd (DeleteFile io n' g s))"
proof (cases rule: DeleteFile_cases [of io n' g s])
  case (deleted m fe)
  assume td: "torn_down n s"
  have "n' \<noteq> n" using deleted torn_down_load [OF td] by auto
  then show ?thesis using save_other [OF _ torn_down_unlink [OF td]] deleted by simp
qed (simp_all add: torn_down_remove torn_down_unlink)

lemma gated_torn:
  assumes "torn_down n s"
  shows "torn_down n (snd (RecordDead io n' g i msg len s))" "torn_down n (snd (decide io n' g i msg len fsize tot viewer s))"
    "torn_down n (snd (WritePatch io n' g i data s))" "torn_down n (snd (SetCoverageFraction io n' g r s))"
    "torn_down n (snd (UnfailRepaired io n' s))"
proof -
  have ne: "n' \<noteq> n" if "\<not> isRejected n' s" using that torn_down_rejected [OF assms] by auto
  show "torn_down n (snd (RecordDead io n' g i msg len s))"
    by (cases rule: RecordDead_cases [of io n' g i msg len s]) (use assms save_other ne in simp_all)
  show "torn_down n (snd (decide io n' g i msg len fsize tot viewer s))"
  proof (cases rule: decide_cases [of io n' g i msg len fsize tot viewer s])
    case (saved m fe' t d v)
    then show ?thesis using save_other [OF ne [OF saved(1)] assms] torn_down_cong [OF saved(4)] by simp
  qed (use assms in simp)
  show "torn_down n (snd (WritePatch io n' g i data s))"
  proof (cases rule: WritePatch_cases [of io n' g i data s])
    case (failed e D)
    then show ?thesis using assms ne by (auto simp: torn_down_def)
  next
    case (saved m)
    have "torn_down n (s\<lparr>dirs := insert n' (dirs s), blobs := (blobs s)(patchPath n' g i \<mapsto> data)\<rparr>)"
      using assms ne [OF saved(1)] by (auto simp: torn_down_def patchPath_def)
    then show ?thesis using save_other [OF ne [OF saved(1)]] saved(4) by simp
  qed (use assms in simp)
  show "torn_down n (snd (SetCoverageFraction io n' g r s))"
    by (cases rule: SetCoverageFraction_cases [of io n' g r s]) (use assms save_other ne in simp_all)
  show "torn_down n (snd (UnfailRepaired io n' s))"
    by (cases rule: UnfailRepaired_cases [of io n' s]) (use assms save_other ne in simp_all)
qed

lemma step_torn_down:
  assumes "store_step l s t" "l \<noteq> Restart \<and> l \<noteq> Call (OpClearRejected n)" "torn_down n s"
  shows "torn_down n t"
proof -
  obtain oper io where l: "l = Call oper" "t = apply_op io oper s" using assms(1,2) by (cases rule: store_step.cases) auto
  show ?thesis
    using assms(2,3) gated_torn [OF assms(3)] ClearFileDamage_torn [OF assms(3)] DeleteFile_torn [OF assms(3)] torn_down_remove [OF assms(3)]
    unfolding l by (cases oper) (auto simp: DeleteEntry_def torn_down_def MarkRejected_def ClearRejected_def)
qed

lemma rejected_kept [simp]:
  "rejected (snd (RecordDead io n f i msg len s)) = rejected s"
  "rejected (snd (decide io n f i msg len fsize tot viewer s)) = rejected s"
  "rejected (snd (WritePatch io n f i data s)) = rejected s"
  "rejected (snd (SetCoverageFraction io n f r s)) = rejected s"
  "rejected (snd (ClearFileDamage io n f s)) = rejected s"
  "rejected (snd (UnfailRepaired io n s)) = rejected s"
  "rejected (snd (DeleteFile io n f s)) = rejected s"
proof -
  show "rejected (snd (RecordDead io n f i msg len s)) = rejected s"
    by (cases rule: RecordDead_cases [of io n f i msg len s]) simp_all
  show "rejected (snd (decide io n f i msg len fsize tot viewer s)) = rejected s"
    by (cases rule: decide_cases [of io n f i msg len fsize tot viewer s]) simp_all
  show "rejected (snd (WritePatch io n f i data s)) = rejected s"
    by (cases rule: WritePatch_cases [of io n f i data s]) simp_all
  show "rejected (snd (SetCoverageFraction io n f r s)) = rejected s"
    by (cases rule: SetCoverageFraction_cases [of io n f r s]) simp_all
  show "rejected (snd (ClearFileDamage io n f s)) = rejected s"
    by (cases rule: ClearFileDamage_cases [of io n f s]) simp_all
  show "rejected (snd (UnfailRepaired io n s)) = rejected s"
    by (cases rule: UnfailRepaired_cases [of io n s]) simp_all
  show "rejected (snd (DeleteFile io n f s)) = rejected s"
    by (cases rule: DeleteFile_cases [of io n f s]) simp_all
qed

lemma step_rejected:
  assumes "store_step l s t" "l \<noteq> Restart \<and> l \<noteq> Call (OpClearRejected n)" "n \<in> rejected s"
  shows "n \<in> rejected t"
proof -
  obtain oper io where l: "l = Call oper" "t = apply_op io oper s" using assms(1,2) by (cases rule: store_step.cases) auto
  show ?thesis using assms(2,3) unfolding l
    by (cases oper) (auto simp: DeleteEntry_def MarkRejected_def ClearRejected_def)
qed

section \<open>Patches\<close>

abbreviation patched_of :: "FileEntry \<Rightarrow> DeadSegment set" where
  "patched_of fe \<equiv> {d \<in> set (DeadSegments fe). Status d = StatusPatched}"

lemma sorted_dead_inj: "sorted_dead fe \<Longrightarrow> d \<in> set (DeadSegments fe) \<Longrightarrow> e \<in> set (DeadSegments fe) \<Longrightarrow> Index d = Index e \<Longrightarrow> d = e"
  by (auto simp: strict_sorted_iff distinct_map dest: inj_onD)

lemma update_first_keeps: "(\<And>x. P x \<Longrightarrow> P (h x)) \<Longrightarrow> {x \<in> set (update_first P h xs). \<not> P x} = {x \<in> set xs. \<not> P x}"
  by (induction xs) auto

lemma with_patch_dead:
  "DeadSegments (with_patch fe i data) =
     (if known fe i then update_first (\<lambda>d. Index d = i) (\<lambda>d. d\<lparr>Status := StatusPatched, PatchLen := int (length data)\<rparr>) (DeadSegments fe)
      else DeadSegments (appendDead fe \<lparr>Index = i, MessageID = [], Bytes = int (length data), Status = StatusPatched, PatchLen = int (length data)\<rparr>))"
  by (simp add: with_patch_def)

lemma with_patch_others: "{d \<in> set (DeadSegments (with_patch fe i data)). Index d \<noteq> i} = {d \<in> set (DeadSegments fe). Index d \<noteq> i}"
proof (cases "known fe i")
  case True
  show ?thesis
    unfolding with_patch_dead if_P [OF True] by (rule update_first_keeps) simp
next
  case False
  show ?thesis unfolding with_patch_dead if_not_P [OF False] set_appendDead by auto
qed

lemma find_sorted:
  assumes "sorted_dead fe" "e \<in> set (DeadSegments fe)" "Index e = i"
  shows "find (\<lambda>d. Index d = i) (DeadSegments fe) = Some e"
proof (cases "find (\<lambda>d. Index d = i) (DeadSegments fe)")
  case None
  then show ?thesis using assms by (auto simp: find_None_iff)
next
  case (Some d)
  then have "d \<in> set (DeadSegments fe)" "Index d = i" by (auto simp: find_Some_iff)
  then have "d = e" using sorted_dead_inj [OF assms(1)] assms(2,3) by blast
  then show ?thesis using Some by simp
qed

text \<open>The record with the patched index: the old one marked, or a new one.\<close>

lemma with_patch_record:
  assumes "sorted_dead fe" "d \<in> set (DeadSegments (with_patch fe i data))" "Index d = i"
  shows "Status d = StatusPatched \<and> PatchLen d = int (length data) \<and>
    (if known fe i then \<exists>e \<in> set (DeadSegments fe). Index e = i \<and> Bytes d = Bytes e else Bytes d = int (length data))"
proof (cases "known fe i")
  case True
  let ?h = "\<lambda>d. d\<lparr>Status := StatusPatched, PatchLen := int (length data)\<rparr>"
  have D: "DeadSegments (with_patch fe i data) = update_first (\<lambda>d. Index d = i) ?h (DeadSegments fe)"
    using True by (simp add: with_patch_def)
  obtain e where e: "e \<in> set (DeadSegments fe)" "Index e = i" "?h e \<in> set (DeadSegments (with_patch fe i data))"
    using True update_first_hit [of _ "DeadSegments fe" "\<lambda>d. Index d = i" ?h] unfolding D known_iff by blast
  have so: "sorted_dead (with_patch fe i data)" using with_patch_ok [OF assms(1)] by (simp add: entry_ok_def)
  have "d = ?h e" using sorted_dead_inj [OF so assms(2) e(3)] assms(3) e(2) by simp
  then show ?thesis using True e by auto
next
  case False
  then have "d = \<lparr>Index = i, MessageID = [], Bytes = int (length data), Status = StatusPatched, PatchLen = int (length data)\<rparr>"
    using assms(2,3) by (auto simp: with_patch_dead known_iff)
  then show ?thesis using False by simp
qed

lemma with_patch_known: "\<exists>d \<in> set (DeadSegments (with_patch fe i data)). Index d = i"
proof (cases "known fe i")
  case True
  let ?h = "\<lambda>d. d\<lparr>Status := StatusPatched, PatchLen := int (length data)\<rparr>"
  obtain e where "Index e = i" "?h e \<in> set (update_first (\<lambda>d. Index d = i) ?h (DeadSegments fe))"
    using True update_first_hit [of _ "DeadSegments fe" "\<lambda>d. Index d = i" ?h] unfolding known_iff by blast
  then show ?thesis unfolding with_patch_dead if_P [OF True] by (intro bexI [of _ "?h e"]) simp_all
qed (simp add: with_patch_dead)

lemma patched_with_dead: "patched_of (with_dead fe i msg len) = patched_of fe"
  by (auto simp: with_dead_def)

lemma patched_markPadded: "patched_of (markPaddedLocked fe i) \<subseteq> patched_of fe"
  using set_update_first [of "\<lambda>d. Index d = i" "\<lambda>d. d\<lparr>Status := StatusPadded\<rparr>" "DeadSegments fe"]
  by (auto simp: markPaddedLocked_def)

definition fits :: "string set \<Rightarrow> Store \<Rightarrow> bool" where
  "fits F s \<longleftrightarrow> (\<forall>n f fe. entry_of s n f = Some fe \<longrightarrow> f \<in> F \<and>
     (\<forall>d \<in> patched_of fe. 0 < Bytes d \<longrightarrow>
       (\<forall>data. blobs s (patchPath n f (Index d)) = Some data \<longrightarrow> int (length data) = Bytes d)))"

lemma fits_file: "fits F s \<Longrightarrow> entry_of s n f = Some fe \<Longrightarrow> f \<in> F"
  by (simp add: fits_def)

lemma fits_shrink:
  assumes "fits F s" "\<And>k data. blobs t k = Some data \<Longrightarrow> blobs s k = Some data"
    "\<And>n f fe'. entry_of t n f = Some fe' \<Longrightarrow> \<exists>fe. entry_of s n f = Some fe \<and> patched_of fe' \<subseteq> patched_of fe"
  shows "fits F t"
  unfolding fits_def
proof (intro allI impI conjI ballI)
  fix n f fe' assume e: "entry_of t n f = Some fe'"
  then obtain fe where fe: "entry_of s n f = Some fe" "patched_of fe' \<subseteq> patched_of fe" using assms(3) by blast
  then show "f \<in> F" using assms(1) by (simp add: fits_def)
  fix d data assume "d \<in> patched_of fe'" "0 < Bytes d" "blobs t (patchPath n f (Index d)) = Some data"
  then show "int (length data) = Bytes d" using assms(1,2) fe unfolding fits_def by blast
qed

lemma fits_put:
  assumes "fits F s" "loadManifestLocked io n s = Inr m" "f \<in> F" "patched_of fe' \<subseteq> patched_of (fileEntryLocked m f)"
  shows "fits F (saveIgnored io' n (putFile m f fe') s)"
  unfolding fits_def
proof (intro allI impI conjI ballI)
  fix n' g fe assume e: "entry_of (saveIgnored io' n (putFile m f fe') s) n' g = Some fe"
  show "g \<in> F" using e assms(3) fits_file [OF assms(1)] by (auto simp: load_Inr(2) [OF assms(2)] split: if_splits)
  fix d data assume d: "d \<in> patched_of fe" "0 < Bytes d" "blobs (saveIgnored io' n (putFile m f fe') s) (patchPath n' g (Index d)) = Some data"
  have "\<exists>fe0. entry_of s n' g = Some fe0 \<and> d \<in> patched_of fe0"
  proof (cases "save_io io' = WriteOk \<and> n' = n \<and> g = f")
    case True
    then have "d \<in> patched_of (fileEntryLocked m f)" using e d(1) assms(4) by (auto simp: load_Inr(2) [OF assms(2)])
    then show ?thesis using True fileEntryLocked_entry [OF assms(2), of f] by (auto simp: newFileEntry_def split: option.splits)
  next
    case False
    then show ?thesis using e d(1) by (auto simp: load_Inr(2) [OF assms(2)] split: if_splits)
  qed
  then show "int (length data) = Bytes d" using assms(1) d(2,3) unfolding fits_def by auto
qed

lemma fits_cong: "same_disk s t \<Longrightarrow> fits F s \<longleftrightarrow> fits F t"
  using entry_of_cong [of s t] by (simp add: fits_def)

lemma fits_same: "manifests t = manifests s \<Longrightarrow> blobs t = blobs s \<Longrightarrow> fits F t \<longleftrightarrow> fits F s"
  using entry_of_cong [of t s] by (simp add: fits_def)

lemma fits_decide:
  assumes "fits F s" "f \<in> F"
  shows "fits F (snd (decide io n f i msg len fsize tot viewer s))"
proof (cases rule: decide_cases [of io n f i msg len fsize tot viewer s])
  case (saved m fe' t d v)
  let ?fe = "fileEntryLocked m f"
  have "patched_of fe' \<subseteq> patched_of ?fe"
    using saved(5) patched_markPadded [of "with_dead ?fe i msg len" i] patched_with_dead [of ?fe i msg len] by auto
  then show ?thesis using fits_put [OF assms(1) saved(2) assms(2)] fits_cong [OF saved(4)] saved(3) by simp
qed (use assms in simp)

lemma fits_RecordDead:
  assumes "fits F s" "f \<in> F"
  shows "fits F (snd (RecordDead io n f i msg len s))"
proof (cases rule: RecordDead_cases [of io n f i msg len s])
  case (saved m)
  then show ?thesis by (auto intro!: fits_put [OF assms(1) saved(2) assms(2)])
qed (use assms in simp)

lemma fits_WritePatch:
  assumes "fits F s" "f \<in> F" "store_ok s" "inj_on fnv64a F"
  shows "fits F (snd (WritePatch io n f i data s))"
proof (cases rule: WritePatch_cases [of io n f i data s])
  case (failed e D)
  then show ?thesis using assms(1) by (simp add: fits_def)
next
  case (saved m)
  let ?fe = "fileEntryLocked m f"
  let ?s1 = "s\<lparr>dirs := insert n (dirs s), blobs := (blobs s)(patchPath n f i \<mapsto> data)\<rparr>"
  let ?t = "saveIgnored io n (putFile m f (with_patch ?fe i data)) ?s1"
  have so: "sorted_dead ?fe" using entry_sorted [OF load_ok [OF assms(3) saved(2)]] .
  have slot: "int (length data) = Bytes d" if "d \<in> set (DeadSegments ?fe)" "Index d = i" "0 < Bytes d" for d
    using saved(3) [OF find_sorted [OF so that(1,2)] that(3)] .
  have old: "d \<in> set (DeadSegments ?fe)" if "entry_of s n f = Some fe" "d \<in> set (DeadSegments fe)" for d fe
    using that fileEntryLocked_entry [OF saved(2), of f] by simp
  have "fits F ?t"
    unfolding fits_def
  proof (intro allI impI conjI ballI)
    fix n' g fe assume e: "entry_of ?t n' g = Some fe"
    have g: "g \<in> F" using e assms(2) fits_file [OF assms(1)] by (auto simp: load_Inr(2) [OF saved(2)] split: if_splits)
    then show "g \<in> F" .
    fix d data' assume d: "d \<in> patched_of fe" "0 < Bytes d" "blobs ?t (patchPath n' g (Index d)) = Some data'"
    show "int (length data') = Bytes d"
    proof (cases "n' = n \<and> g = f \<and> Index d = i")
      case True
      then have dd: "data' = data" using d(3) by simp
      consider "save_io io = WriteOk" "fe = with_patch ?fe i data" | "entry_of s n f = Some fe"
        using e True by (auto simp: load_Inr(2) [OF saved(2)] split: if_splits)
      then show ?thesis
      proof cases
        case 1
        then show ?thesis
          using with_patch_record [OF so, of d i data] d(1,2) True slot unfolding dd by (auto split: if_splits)
      next
        case 2
        then show ?thesis using slot [of d] old [OF 2, of d] d(1,2) True unfolding dd by simp
      qed
    next
      case False
      have "patchPath n' g (Index d) \<noteq> patchPath n f i"
        using False inj_onD [OF assms(4) _ g assms(2)] by (auto simp: patchPath_def)
      then have b: "blobs s (patchPath n' g (Index d)) = Some data'" using d(3) by simp
      have "\<exists>fe0. entry_of s n' g = Some fe0 \<and> d \<in> patched_of fe0"
      proof (cases "save_io io = WriteOk \<and> n' = n \<and> g = f")
        case ng: True
        then have "d \<in> {d \<in> set (DeadSegments (with_patch ?fe i data)). Index d \<noteq> i}"
          using e d(1) False by (auto simp: load_Inr(2) [OF saved(2)])
        then have "d \<in> set (DeadSegments ?fe)" unfolding with_patch_others by simp
        then show ?thesis
          using ng d(1) fileEntryLocked_entry [OF saved(2), of f] by (auto simp: newFileEntry_def split: option.splits)
      next
        case ng: False
        then show ?thesis using e d(1) by (auto simp: load_Inr(2) [OF saved(2)] split: if_splits)
      qed
      then show ?thesis using assms(1) b d(2) unfolding fits_def by auto
    qed
  qed
  then show ?thesis using saved(4) by simp
qed (use assms in simp)

lemma remove_entry: "entry_of (snd (removeEntryDir io n s)) n' f = Some fe \<Longrightarrow> entry_of s n' f = Some fe"
  using remove_manifests [of io n s n'] by (auto simp: entry_of_def split: option.splits manifest_file.splits)

lemma fits_remove: "fits F s \<Longrightarrow> fits F (snd (removeEntryDir io n s))"
  by (rule fits_shrink [of F s]) (auto dest: remove_blobs remove_entry)

lemma fits_unlink: "fits F s \<Longrightarrow> fits F (unlinkPatches io n f fe s)"
  by (rule fits_shrink [of F s]) (auto dest: unlink_blobs)

lemma fits_delete:
  assumes "fits F s'" "loadManifestLocked io n s = Inr m" "manifests s' = manifests s"
  shows "fits F (saveIgnored io' n (m\<lparr>Files := AList.delete g (Files m)\<rparr>) s')"
proof (rule fits_shrink [OF assms(1)])
  fix n' f fe' assume "entry_of (saveIgnored io' n (m\<lparr>Files := AList.delete g (Files m)\<rparr>) s') n' f = Some fe'"
  then show "\<exists>fe. entry_of s' n' f = Some fe \<and> patched_of fe' \<subseteq> patched_of fe"
    using entry_of_cong [OF assms(3)] by (auto simp: load_Inr(2) [OF assms(2)] delete_conv' split: if_splits)
qed simp

lemma fits_ClearFileDamage:
  assumes "fits F s"
  shows "fits F (snd (ClearFileDamage io n f s))"
proof (cases rule: ClearFileDamage_cases [of io n f s])
  case (kept m fe)
  have "fileEntryLocked m f = fe" "f \<in> F" using kept(2) fits_file [OF assms] load_Inr(2) [OF kept(1), of f] by (auto simp: fileEntryLocked_def)
  then show ?thesis unfolding kept(4) by (intro fits_put [OF assms kept(1)]) auto
qed (use assms fits_remove fits_delete in auto)

lemma fits_DeleteFile:
  assumes "fits F s"
  shows "fits F (snd (DeleteFile io n f s))"
proof (cases rule: DeleteFile_cases [of io n f s])
  case (deleted m fe)
  then show ?thesis using fits_delete [OF fits_unlink [OF assms] deleted(1)] by simp
qed (use assms fits_remove fits_unlink in auto)

lemma fits_UnfailRepaired:
  assumes "fits F s"
  shows "fits F (snd (UnfailRepaired io n s))"
proof (cases rule: UnfailRepaired_cases [of io n s])
  case (saved m)
  have u: "patched_of (unfail fe) = patched_of fe" for fe by (simp add: unfail_def)
  show ?thesis unfolding saved(4)
  proof (rule fits_shrink [OF assms])
    fix n' f fe' assume e: "entry_of (saveIgnored io n (m\<lparr>Files := map (\<lambda>(name, fe). (name, unfail fe)) (Files m)\<rparr>) s) n' f = Some fe'"
    show "\<exists>fe. entry_of s n' f = Some fe \<and> patched_of fe' \<subseteq> patched_of fe"
    proof (cases "save_io io = WriteOk \<and> n' = n")
      case True
      then obtain fe where "entry_of s n f = Some fe" "fe' = unfail fe"
        using e load_Inr(2) [OF saved(2), of f] by (auto simp: map_of_map comp_def case_prod_beta)
      then show ?thesis using True u by auto
    qed (use e in auto)
  qed simp
qed (use assms in simp)

lemma fits_SetCoverageFraction:
  assumes "fits F s"
  shows "fits F (snd (SetCoverageFraction io n f r s))"
proof (cases rule: SetCoverageFraction_cases [of io n f r s])
  case (saved m fe)
  have "fileEntryLocked m f = fe" "f \<in> F" using saved(3) fits_file [OF assms] load_Inr(2) [OF saved(2), of f] by (auto simp: fileEntryLocked_def)
  then show ?thesis unfolding saved(4) by (intro fits_put [OF assms saved(2)]) auto
qed (use assms in simp)

text \<open>The file a call names, when it may create a record for it.\<close>

fun names_file :: "label \<Rightarrow> string set" where
  "names_file (Call (OpRecordDead n f i msg len)) = {f}"
| "names_file (Call (OpDecide n f i msg len fsize tot viewer)) = {f}"
| "names_file (Call (OpWritePatch n f i data)) = {f}"
| "names_file _ = {}"

lemma step_fits:
  assumes "store_step l s t" "names_file l \<subseteq> F" "store_ok s" "fits F s" "inj_on fnv64a F"
  shows "fits F t"
  using assms(1)
proof cases
  case (restart d ok)
  then show ?thesis using assms(4) fits_same [of t s F] by (simp add: NewStore_disk)
next
  case (call oper io)
  note rules = fits_decide [OF assms(4)] fits_RecordDead [OF assms(4)] fits_WritePatch [OF assms(4) _ assms(3,5)]
    fits_ClearFileDamage [OF assms(4)] fits_DeleteFile [OF assms(4)] fits_UnfailRepaired [OF assms(4)]
    fits_SetCoverageFraction [OF assms(4)] fits_remove [OF assms(4)]
  show ?thesis
    using assms(2,4) rules fits_same [of t s F] unfolding call by (cases oper) (auto simp: DeleteEntry_def)
qed

section \<open>Decisions\<close>

abbreviation seg_cost :: "DeadSegment \<Rightarrow> int \<times> int" where
  "seg_cost d \<equiv> (Index d, Bytes d)"

lemma within_caps_cong:
  assumes "map seg_cost xs = map seg_cost ys"
  shows "within_caps p fsize tot xs = within_caps p fsize tot ys"
proof -
  have len: "length xs = length ys" using arg_cong [OF assms, of length] by simp
  have byt: "map Bytes xs = map Bytes ys" using arg_cong [OF assms, of "map snd"] by (simp add: comp_def)
  have idx: "map Index xs = map Index ys" using arg_cong [OF assms, of "map fst"] by (simp add: comp_def)
  have st: "Index ` set xs = Index ` set ys" using arg_cong [OF idx, of set] by simp
  have hd: "(\<forall>d \<in> set zs. b \<le> Index d) \<longleftrightarrow> (\<forall>i \<in> Index ` set zs. b \<le> i)" for zs b by simp
  show ?thesis unfolding within_caps_def hd st len byt ..
qed

lemma unpatched_markPadded:
  assumes "\<forall>d \<in> set (DeadSegments fe). Index d = i \<longrightarrow> Status d \<noteq> StatusPatched"
  shows "map seg_cost (unpatched (markPaddedLocked fe i)) = map seg_cost (unpatched fe)"
proof -
  have "map seg_cost (filter (\<lambda>d. Status d \<noteq> StatusPatched)
      (update_first (\<lambda>d. Index d = i) (\<lambda>d. d\<lparr>Status := StatusPadded\<rparr>) ds)) =
    map seg_cost (filter (\<lambda>d. Status d \<noteq> StatusPatched) ds)"
    if "\<forall>d \<in> set ds. Index d = i \<longrightarrow> Status d \<noteq> StatusPatched" for ds
    using that by (induction ds) auto
  then show ?thesis using assms by (simp add: unpatched_def markPaddedLocked_def)
qed

lemma within_caps_bytes:
  assumes "within_caps p fsize tot dead" "0 < fsize" "0 \<le> MaxByteRatio p" "\<forall>d \<in> set dead. 0 \<le> Bytes d" "(\<Sum>d\<leftarrow>dead. Bytes d) \<le> max_i64"
  shows "of_int (\<Sum>d\<leftarrow>dead. Bytes d) \<le> of_int fsize * MaxByteRatio p * (1 + 1 / 2 ^ 50)"
proof -
  have nn: "0 \<le> (\<Sum>d\<leftarrow>dead. Bytes d)" using assms(4) by (intro sum_list_nonneg) auto
  then have "i64 (\<Sum>d\<leftarrow>dead. Bytes d) = (\<Sum>d\<leftarrow>dead. Bytes d)" using assms(5) by (intro i64_id) simp
  then show ?thesis using assms nn by (intro float_compare_sound) (simp_all add: within_caps_def)
qed

lemma set_with_dead: "set (DeadSegments (with_dead fe i msg len)) = (if known fe i then set (DeadSegments fe) else insert (new_dead i msg len) (set (DeadSegments fe)))"
  by (simp add: with_dead_def)

text \<open>What a pad leaves behind: the damage still counted, the new segment included, is within the caps that
  the decision was taken under.\<close>

lemma decide_pad_caps:
  assumes "store_ok s" "decide io n f i msg len fsize tot viewer s = ((DecisionPad, v), t)"
    and "\<forall>fe d. entry_of s n f = Some fe \<longrightarrow> d \<in> set (DeadSegments fe) \<longrightarrow> is_i64 (Index d) \<and> (Index d = i \<longrightarrow> Status d \<noteq> StatusPatched)"
    and "is_i64 i"
  obtains fe' where "\<not> isRejected n s" "IsVideoContainer f" "i \<in> Index ` set (unpatched fe')" "save_io io = WriteOk \<Longrightarrow> entry_of t n f = Some fe'"
    "fe_verdict fe' = v"
    "v = VerdictDegraded \<and> within_caps (Store_Policy s) fsize tot (unpatched fe') \<or>
     v = VerdictFailed \<and> viewer \<and> within_caps (viewerCeiling (Store_Policy s)) fsize tot (unpatched fe')"
proof (cases rule: decide_cases [of io n f i msg len fsize tot viewer s])
  case same
  then show thesis using assms(2) by simp
next
  case (saved m fe' t' d' v')
  let ?fe = "with_dead (fileEntryLocked m f) i msg len"
  have eq: "d' = DecisionPad" "v' = v" "t' = t" using saved(3) assms(2) by auto
  have fe: "fe' = (markPaddedLocked ?fe i)\<lparr>fe_verdict := v\<rparr>" "IsVideoContainer f" using saved(5) eq by auto
  have so: "sorted_dead ?fe" using entry_sorted [OF load_ok [OF assms(1) saved(2)]] by (rule sorted_with_dead)
  have seg: "is_i64 (Index d) \<and> (Index d = i \<longrightarrow> Status d \<noteq> StatusPatched)" if "d \<in> set (DeadSegments ?fe)" for d
    using that assms(3,4) fileEntryLocked_entry [OF saved(2), of f]
    by (auto simp: set_with_dead newFileEntry_def split: if_splits option.splits)
  have cost: "map seg_cost (unpatched fe') = map seg_cost (unpatched ?fe)"
    using unpatched_markPadded [of ?fe i] seg by (simp add: fe(1) unpatched_def)
  have caps: "snd (WithinPadCaps ?fe fsize p tot) \<longleftrightarrow> within_caps p fsize tot (unpatched fe')" for p
    using WithinPadCaps_iff [OF so, of fsize p tot] seg within_caps_cong [OF cost] by simp
  obtain d where "d \<in> set (DeadSegments ?fe)" "Index d = i" using known_with_dead [of "fileEntryLocked m f" i msg len] by (auto simp: known_iff)
  then have "i \<in> Index ` set (unpatched ?fe)" using seg by (auto simp: unpatched_def)
  moreover have "Index ` set (unpatched fe') = Index ` set (unpatched ?fe)"
    using arg_cong [OF cost, of "\<lambda>xs. fst ` set xs"] by (simp add: image_image)
  moreover have "save_io io = WriteOk \<Longrightarrow> entry_of t n f = Some fe'"
    using saved(4) eq(3) entry_of_cong [of t] by simp
  moreover have "v = VerdictDegraded \<and> within_caps (Store_Policy s) fsize tot (unpatched fe') \<or>
     v = VerdictFailed \<and> viewer \<and> within_caps (viewerCeiling (Store_Policy s)) fsize tot (unpatched fe')"
    using saved(5) eq caps by (auto simp: viewerMayPad_def)
  ultimately show thesis using that [of fe'] saved(1) fe by simp
qed

section \<open>Concrete stores\<close>

definition io_ok :: io where
  "io_ok = \<lparr>manifest_readable = True, save_io = WriteOk, patch_io = WriteOk, blob_readable = True, unlink_ok = (\<lambda>_. True), removeAll_io = Removed\<rparr>"

definition one_patch :: Store where
  "one_patch = snd (WritePatch io_ok ''n'' ''a.mkv'' 7 [1, 2] emptyDisk)"

lemmas store_eval = isRejected_def loadManifestLocked_def emptyManifest_def fileEntryLocked_def known_def newFileEntry_def
  appendDead_def sortDeadSegments_def recomputeVerdictLocked_def putFile_def saveManifestLocked_def writeFileAtomic_def Let_def

lemma emptyDisk_simps [simp]: "entry_of emptyDisk n f = None" "Store_Policy emptyDisk = DefaultPolicy" "rejected emptyDisk = {}"
  by (simp_all add: emptyDisk_def entry_of_def Store_Policy_def)

lemma io_ok_simps [simp]: "save_io io_ok = WriteOk" "manifest_readable io_ok" "blob_readable io_ok" "patch_io io_ok = WriteOk" "removeAll_io io_ok = Removed"
  by (simp_all add: io_ok_def)

lemma fresh_emptyDisk: "fresh_store emptyDisk"
  by (simp add: fresh_store_def NewStore_def emptyDisk_def)

lemma one_patch_eq: "one_patch = emptyDisk\<lparr>dirs := {''n''},
    manifests := [''n'' \<mapsto> Stored \<lparr>Version = 1, Files = [(''a.mkv'', \<lparr>DeadSegments =
      [\<lparr>Index = 7, MessageID = [], Bytes = 2, Status = StatusPatched, PatchLen = 2\<rparr>], fe_verdict = VerdictClean, CoverageFraction = 0\<rparr>)]\<rparr>],
    blobs := [patchPath ''n'' ''a.mkv'' 7 \<mapsto> [1, 2]]\<rparr>"
  by (simp add: one_patch_def WritePatch_def store_eval io_ok_def emptyDisk_def manifestVersion_def saveIgnored_def del: snd_save)

lemma one_patch_reachable: "reachable_store one_patch"
proof (rule reach_step)
  show "reachable_store emptyDisk" using fresh_emptyDisk by (rule reach_init)
  show "store_step (Call (OpWritePatch ''n'' ''a.mkv'' 7 [1, 2])) emptyDisk one_patch"
    using call [of "OpWritePatch ''n'' ''a.mkv'' 7 [1, 2]" emptyDisk io_ok] by (simp add: one_patch_def)
qed

lemma one_patch_entry: "entry_of one_patch ''n'' ''a.mkv'' = Some \<lparr>DeadSegments =
      [\<lparr>Index = 7, MessageID = [], Bytes = 2, Status = StatusPatched, PatchLen = 2\<rparr>], fe_verdict = VerdictClean, CoverageFraction = 0\<rparr>"
  by (simp add: one_patch_eq entry_of_def)

lemma video_mkv: "IsVideoContainer ''a.mkv''"
  by (simp add: IsVideoContainer_def filepath_Ext_def videoContainerExts_def)

section \<open>Properties\<close>

text \<open>C14. In every reachable store each manifest decodes and describes at least one file, its files are
  distinct, each file's segments are strictly sorted by index, and the verdict is honest: a clean file
  has no segment that is still dead or padded, a degraded file has one.\<close>

theorem overlay_consistent:
  assumes "reachable_store s" "manifests s n = Some mf"
  shows "n \<in> ListNZBIDs s \<and> (\<exists>m. mf = Stored m \<and> Files m \<noteq> [] \<and> distinct (map fst (Files m)) \<and>
    (\<forall>f fe. map_of (Files m) f = Some fe \<longrightarrow>
       sorted_wrt (<) (map Index (DeadSegments fe)) \<and> DeadSegments fe \<noteq> [] \<and>
       (fe_verdict fe = VerdictClean \<longrightarrow> unpatched fe = []) \<and> (fe_verdict fe = VerdictDegraded \<longrightarrow> unpatched fe \<noteq> [])))"
  using overlay.reachable_inv [OF assms(1)] assms(2)
  by (fastforce simp: store_ok_def files_ok_def entry_ok_def ListNZBIDs_def)

theorem overlay_consistent_witness: "''n'' \<in> ListNZBIDs one_patch"
  using overlay_consistent [OF one_patch_reachable, of "''n''"] by (auto simp: one_patch_eq)

text \<open>C15. A failed verdict is sticky. Whatever calls and restarts follow, unless one of them deletes the
  file's record or is \<^verbatim>\<open>UnfailRepaired\<close> on its entry, the file stays failed: no ordinary read of it is
  padded, a viewer's read reports it failed too and is padded only for a video within the viewer ceilings, and
  \<^verbatim>\<open>UnfailRepaired\<close> leaves it failed while any segment is still dead or padded.\<close>

theorem failed_until_cleared:
  assumes "trace store_step s ls t" "\<exists>fe. entry_of s n f = Some fe \<and> fe_verdict fe = VerdictFailed" "\<forall>l \<in> set ls. \<not> clears n f l"
  shows "(\<exists>fe. entry_of t n f = Some fe \<and> fe_verdict fe = VerdictFailed \<and>
      (unpatched fe \<noteq> [] \<longrightarrow> entry_of (snd (UnfailRepaired io n t)) n f = Some fe) \<and>
      (fst (fst (DecideForViewer io n f i msg len fsize tot t)) = DecisionPad \<longrightarrow>
        n \<notin> rejected t \<and> IsVideoContainer f \<and> viewerMayPad (with_dead fe i msg len) fsize (Store_Policy t) tot)) \<and>
    snd (fst (DecideForViewer io n f i msg len fsize tot t)) = VerdictFailed \<and>
    Decide io n f i msg len fsize tot t = ((DecisionFail, VerdictFailed), t)"
proof -
  have "\<exists>fe. entry_of t n f = Some fe \<and> fe_verdict fe = VerdictFailed"
    by (rule trace_preserves [OF assms(1), of "\<lambda>s. \<exists>fe. entry_of s n f = Some fe \<and> fe_verdict fe = VerdictFailed", OF assms(2,3)])
      (rule step_failed)
  then obtain fe where fe: "entry_of t n f = Some fe" "fe_verdict fe = VerdictFailed" by blast
  have "unfail fe = fe" if "unpatched fe \<noteq> []"
    using that by (auto simp: unfail_def fully_patched_def unpatched_def list_all_iff filter_empty_conv)
  then show ?thesis using fe UnfailRepaired_entry(1) [OF fe(1), of io n] decide_failed [OF fe] viewer_failed [OF fe] by auto
qed

definition failed_text :: Store where
  "failed_text = snd (decide io_ok ''n'' ''a.nfo'' 3 [] 10 100 5 False emptyDisk)"

lemma not_video_nfo: "\<not> IsVideoContainer ''a.nfo''"
  by (simp add: IsVideoContainer_def filepath_Ext_def videoContainerExts_def)

lemma failed_text_eq: "failed_text = emptyDisk\<lparr>dirs := {''n''},
    manifests := [''n'' \<mapsto> Stored \<lparr>Version = 1, Files = [(''a.nfo'', \<lparr>DeadSegments = [new_dead 3 [] 10], fe_verdict = VerdictFailed, CoverageFraction = 0\<rparr>)]\<rparr>]\<rparr>"
  by (simp add: failed_text_def decide_def not_video_nfo store_eval io_ok_def emptyDisk_def manifestVersion_def saveIgnored_def notifyFailed_def del: snd_save)

theorem failed_until_cleared_witness:
  "Decide io_ok ''n'' ''a.nfo'' 4 [] 10 100 5 failed_text = ((DecisionFail, VerdictFailed), failed_text)"
  using failed_until_cleared [of failed_text "[]" failed_text "''n''" "''a.nfo''" io_ok 4 "[]" 10 100 5]
  by (simp add: failed_text_eq entry_of_def)

text \<open>The optimised cap check agrees with its meaning: the number of damaged segments, the padded bytes
  (in the arithmetic of \<^verbatim>\<open>float64\<close>), the longest run of consecutive indices and the header region, patched
  segments left out.\<close>

lemma WithinPadCaps_spec:
  assumes "sorted_wrt (<) (map Index (DeadSegments fe))" "\<forall>d \<in> set (DeadSegments fe). is_i64 (Index d)"
  shows "snd (WithinPadCaps fe fsize p tot) \<longleftrightarrow> within_caps p fsize tot (unpatched fe)"
  using assms by (rule WithinPadCaps_iff)

text \<open>C6. Padding is bounded. When a read of a segment that is not already patched is padded and the save of the manifest
  succeeds, the entry is not torn down, the file is a video, and the damage that now counts against it, this segment included, is
  within the configured caps and the verdict is degraded; a viewer's read may exceed them, with verdict failed, up to the
  viewer ceilings. Both conditions are needed: a patched segment is not counted (see the note below), and without the save the
  bound does not hold (the last property of this theory).\<close>

theorem pad_within_caps:
  assumes "reachable_store s" "decide io n f i msg len fsize tot viewer s = ((DecisionPad, v), t)"
    and "\<forall>fe d. entry_of s n f = Some fe \<longrightarrow> d \<in> set (DeadSegments fe) \<longrightarrow> is_i64 (Index d) \<and> (Index d = i \<longrightarrow> Status d \<noteq> StatusPatched)"
    and "is_i64 i" "save_io io = WriteOk"
  shows "n \<notin> rejected s \<and> IsVideoContainer f \<and> (\<exists>fe'. entry_of t n f = Some fe' \<and> fe_verdict fe' = v \<and> i \<in> Index ` set (unpatched fe') \<and>
    (v = VerdictDegraded \<and> within_caps (Store_Policy s) fsize tot (unpatched fe') \<or>
     v = VerdictFailed \<and> viewer \<and> within_caps (viewerCeiling (Store_Policy s)) fsize tot (unpatched fe')))"
  using decide_pad_caps [OF overlay.reachable_inv [OF assms(1)] assms(2-4)] assms(5) by (metis isRejected_def)

lemma one_pad: "fst (decide io_ok ''n'' ''a.mkv'' 50 [] 10 0 100 False emptyDisk) = (DecisionPad, VerdictDegraded)"
  by (simp add: decide_def video_mkv store_eval io_ok_def emptyDisk_def WithinPadCaps_def unpatched_def header_damage_def
      best_run_def Store_Policy_def DefaultPolicy_def)

theorem pad_within_caps_witness:
  "IsVideoContainer ''a.mkv'' \<and> (\<exists>fe'. entry_of (snd (decide io_ok ''n'' ''a.mkv'' 50 [] 10 0 100 False emptyDisk)) ''n'' ''a.mkv'' = Some fe' \<and>
     within_caps DefaultPolicy 0 100 (unpatched fe'))"
proof -
  obtain t where d: "decide io_ok ''n'' ''a.mkv'' 50 [] 10 0 100 False emptyDisk = ((DecisionPad, VerdictDegraded), t)"
    using one_pad by (metis prod.collapse)
  have "reachable_store emptyDisk" using fresh_emptyDisk by (rule reach_init)
  from pad_within_caps [OF this d] show ?thesis unfolding d by auto
qed

text \<open>C16. A torn-down entry stays gone. After \<^verbatim>\<open>MarkRejected\<close> and a successful \<^verbatim>\<open>DeleteEntry\<close>, with any calls in
  between, no sequence of calls by straggling readers or repairs brings its directory, manifest or
  blobs back, short of a restart or \<^verbatim>\<open>ClearRejected\<close>; every decision about it is a failure.\<close>

theorem torn_down_stays:
  assumes "trace store_step (MarkRejected n s) ls s1" "removeAll_io io = Removed" "n \<noteq> []"
    and "trace store_step (snd (DeleteEntry io n s1)) ls' t"
    and "\<forall>l \<in> set ls \<union> set ls'. l \<noteq> Restart \<and> l \<noteq> Call (OpClearRejected n)"
  shows "\<not> EntryExists n t \<and> manifests t n = None \<and> (\<forall>k. blobs t (n, k) = None) \<and>
    fst (decide io' n f i msg len fsize tot viewer t) = (DecisionFail, VerdictFailed)"
proof -
  have keep: "n \<in> rejected t'" if "store_step l s' t'" "l \<noteq> Restart \<and> l \<noteq> Call (OpClearRejected n)" "n \<in> rejected s'" for l s' t'
    using step_rejected [OF that] .
  have "n \<in> rejected s1"
    by (rule trace_preserves [OF assms(1), of "\<lambda>s. n \<in> rejected s" "\<lambda>l. l \<noteq> Restart \<and> l \<noteq> Call (OpClearRejected n)"])
      (use assms(3,5) keep in \<open>auto simp: MarkRejected_def\<close>)
  then have "torn_down n (snd (DeleteEntry io n s1))"
    using assms(2) by (auto simp: torn_down_def DeleteEntry_def removeEntryDir_def)
  then have "torn_down n t"
    by (rule trace_preserves [OF assms(4), of "torn_down n" "\<lambda>l. l \<noteq> Restart \<and> l \<noteq> Call (OpClearRejected n)"])
      (use assms(5) step_torn_down in auto)
  then show ?thesis by (auto simp: torn_down_def EntryExists_def decide_def isRejected_def)
qed

theorem torn_down_stays_witness:
  "\<not> EntryExists ''n'' (snd (RecordDead io_ok ''n'' ''a.mkv'' 3 [] 9 (snd (DeleteEntry io_ok ''n'' (MarkRejected ''n'' one_patch)))))"
  using torn_down_stays [of "''n''" one_patch "[]" "MarkRejected ''n'' one_patch" io_ok
      "[Call (OpRecordDead ''n'' ''a.mkv'' 3 [] 9)]"
      "snd (RecordDead io_ok ''n'' ''a.mkv'' 3 [] 9 (snd (DeleteEntry io_ok ''n'' (MarkRejected ''n'' one_patch))))"]
    call [of "OpRecordDead ''n'' ''a.mkv'' 3 [] 9" "snd (DeleteEntry io_ok ''n'' (MarkRejected ''n'' one_patch))" io_ok]
  by (simp add: io_ok_def)

text \<open>A patch written is the patch read: when \<^verbatim>\<open>WritePatch\<close> reports no error, \<^verbatim>\<open>PatchBytes\<close> returns exactly those
  bytes, the segment is listed as patched and no longer pending, a recorded slot length was respected,
  and no other file's record and no other blob changed.\<close>

lemma patch_round_trip:
  assumes "reachable_store s" "WritePatch io n f i data s = (None, t)" "manifest_readable io'" "blob_readable io'"
  shows "PatchBytes io' n f i t t = Some data \<and> i \<in> set (PatchedSegments io' n f t) \<and>
    (\<forall>pending. PendingRepair io' n t = Inr pending \<longrightarrow> (\<forall>segs. (f, segs) \<in> set pending \<longrightarrow> i \<notin> Index ` set segs)) \<and>
    (\<forall>fe d. entry_of s n f = Some fe \<longrightarrow> d \<in> set (DeadSegments fe) \<longrightarrow> Index d = i \<longrightarrow> 0 < Bytes d \<longrightarrow> Bytes d = int (length data)) \<and>
    (\<forall>n' g. (n', g) \<noteq> (n, f) \<longrightarrow> entry_of t n' g = entry_of s n' g) \<and>
    (\<forall>k. k \<noteq> patchPath n f i \<longrightarrow> blobs t k = blobs s k)"
proof (cases rule: WritePatch_cases [of io n f i data s])
  case (saved m)
  note ok = overlay.reachable_inv [OF assms(1)]
  let ?fe = "fileEntryLocked m f"
  let ?s1 = "s\<lparr>dirs := insert n (dirs s), blobs := (blobs s)(patchPath n f i \<mapsto> data)\<rparr>"
  have w: "save_io io = WriteOk" "t = saveIgnored io n (putFile m f (with_patch ?fe i data)) ?s1"
    using assms(2) saved(4) saveIgnored_simps(4) [of io n] by (metis fst_conv, metis snd_conv snd_save)
  have so: "sorted_dead ?fe" using entry_sorted [OF load_ok [OF ok saved(2)]] .
  have man: "manifests t n = Some (Stored (putFile m f (with_patch ?fe i data)))"
    by (cases rule: saveIgnored_cases [of io n "putFile m f (with_patch ?fe i data)" ?s1]) (use w in auto)
  obtain m' where m': "loadManifestLocked io' n t = Inr m'" "Files m' = Files (putFile m f (with_patch ?fe i data))"
    using assms(3) man by (auto simp: loadManifestLocked_def)
  have fm: "map_of (Files m') f = Some (with_patch ?fe i data)" by (simp add: m'(2))
  obtain d where d: "d \<in> set (DeadSegments (with_patch ?fe i data))" "Index d = i" using with_patch_known by blast
  then have pd: "Status d = StatusPatched" using with_patch_record [OF so] by blast
  have pb: "PatchBytes io' n f i t t = Some data"
    using m'(1) fm d pd assms(4) w(2) by (auto simp: PatchBytes_def list_ex_iff)
  have ps: "i \<in> set (PatchedSegments io' n f t)"
    using m'(1) fm d pd by (auto simp: PatchedSegments_def)
  have "distinct (map fst (Files m'))"
    using files_ok_put [OF load_ok [OF ok saved(2)] with_patch_ok [OF so]] unfolding m'(2) files_ok_def by blast
  then have uniq: "fe = with_patch ?fe i data" if "(f, fe) \<in> set (Files m')" for fe
    using fm that map_of_is_SomeI [of "Files m'" f fe] by simp
  have pend: "i \<notin> Index ` set segs" if pr: "PendingRepair io' n t = Inr pending" "(f, segs) \<in> set pending" for pending segs
  proof
    assume i: "i \<in> Index ` set segs"
    obtain fe where "(f, fe) \<in> set (Files m')" "segs = unpatched fe" using pr m'(1) by (auto simp: PendingRepair_def)
    then have "segs = unpatched (with_patch ?fe i data)" using uniq by blast
    then obtain e where "e \<in> set (DeadSegments (with_patch ?fe i data))" "Index e = i" "Status e \<noteq> StatusPatched"
      using i by (auto simp: unpatched_def)
    then show False using with_patch_record [OF so] by blast
  qed
  have slot: "Bytes e = int (length data)" if "entry_of s n f = Some fe" "e \<in> set (DeadSegments fe)" "Index e = i" "0 < Bytes e" for fe e
    using saved(3) [OF find_sorted [OF so _ that(3)] that(4)] that fileEntryLocked_entry [OF saved(2), of f] by simp
  have other: "entry_of t n' g = entry_of s n' g" if "(n', g) \<noteq> (n, f)" for n' g
    using that by (auto simp: w load_put_entry [OF saved(2)] load_Inr(2) [OF saved(2)])
  show ?thesis using pb ps pend slot other w(2) by auto
qed (use assms in simp_all)

text \<open>C17. No patch is served that does not fit its slot: as long as the hash tells the file names in use apart,
  in every store reached from an empty disk a patch that \<^verbatim>\<open>PatchBytes\<close> returns has the length recorded for the
  segment, when one was recorded, whatever system calls failed on the way.\<close>

theorem patches_fit:
  assumes "trace store_step emptyDisk ls s" "inj_on fnv64a F" "\<forall>l \<in> set ls. names_file l \<subseteq> F"
    and "entry_of s n f = Some fe" "d \<in> set (DeadSegments fe)" "0 < Bytes d" "PatchBytes io n f (Index d) s s = Some data"
  shows "int (length data) = Bytes d"
proof -
  have ok0: "store_ok emptyDisk" by (simp add: store_ok_def emptyDisk_def)
  have "store_ok emptyDisk \<and> fits F emptyDisk" using ok0 by (simp add: fits_def)
  then have "store_ok s \<and> fits F s"
  proof (rule trace_preserves [OF assms(1) _ assms(3)])
    fix l s t assume "store_step l s t" "names_file l \<subseteq> F" "store_ok s \<and> fits F s"
    then show "store_ok t \<and> fits F t" using step_fits [of l s t F] overlay.step_inv [of s l t] assms(2) by simp
  qed
  then have ok: "store_ok s" "fits F s" by simp_all
  have entry: "entry_ok fe" using entry_of_ok [OF ok(1) assms(4)] .
  obtain m where m: "loadManifestLocked io n s = Inr m" using assms(7) by (auto simp: PatchBytes_def split: sum.splits)
  have "list_ex (\<lambda>e. Index e = Index d \<and> Status e = StatusPatched) (DeadSegments fe)" "blobs s (patchPath n f (Index d)) = Some data"
    using assms(4,7) m load_Inr(2) [OF m, of f] by (auto simp: PatchBytes_def split: if_splits)
  moreover from this(1) have "Status d = StatusPatched"
    using sorted_dead_inj [of fe _ d] entry assms(5) by (auto simp: entry_ok_def list_ex_iff)
  ultimately show ?thesis using ok(2) assms(4-6) unfolding fits_def by blast
qed

theorem patches_fit_witness: "PatchBytes io_ok ''n'' ''a.mkv'' 7 one_patch one_patch = Some [1, 2] \<and> int (length [1, 2 :: byte]) = 2"
  using patches_fit [of "[Call (OpWritePatch ''n'' ''a.mkv'' 7 [1, 2])]" one_patch "{''a.mkv''}" "''n''" "''a.mkv''" _
      "\<lparr>Index = 7, MessageID = [], Bytes = 2, Status = StatusPatched, PatchLen = 2\<rparr>" io_ok "[1, 2]", OF _ _ _ one_patch_entry]
    call [of "OpWritePatch ''n'' ''a.mkv'' 7 [1, 2]" emptyDisk io_ok] one_patch_entry
  by (simp add: one_patch_def [symmetric] PatchBytes_def loadManifestLocked_def one_patch_eq)

text \<open>Deciding on a segment that PAR2 has already patched throws the patch away: the record goes back to
  padded, \<^verbatim>\<open>PatchBytes\<close> stops serving the blob although it is still on disk, and the segment is pending again.
  This happens to a reader whose fetch failed just before the repair finished.\<close>

lemma decide_demotes_patch:
  assumes "reachable_store s" "entry_of s n f = Some fe" "d \<in> set (DeadSegments fe)" "Status d = StatusPatched"
    and "decide io n f (Index d) msg len fsize tot viewer s = ((DecisionPad, v), t)" "save_io io = WriteOk"
  shows "PatchBytes io' n f (Index d) t t = None \<and> blobs t = blobs s \<and>
    (\<exists>fe'. entry_of t n f = Some fe' \<and> Index d \<in> Index ` set (unpatched fe'))"
proof (cases rule: decide_cases [of io n f "Index d" msg len fsize tot viewer s])
  case same
  then show ?thesis using assms(5) by simp
next
  case (saved m fe' t' d' v')
  have eq: "d' = DecisionPad" "v' = v" "t' = t" using saved(3) assms(5) by auto
  have fm: "fileEntryLocked m f = fe" using fileEntryLocked_entry [OF saved(2), of f] assms(2) by simp
  have kn: "known fe (Index d)" using assms(3) by (auto simp: known_iff)
  then have fe: "fe' = (markPaddedLocked fe (Index d))\<lparr>fe_verdict := v\<rparr>" using saved(5) eq by (auto simp: fm with_dead_def)
  have so: "sorted_dead fe"
    using entry_sorted [OF load_ok [OF overlay.reachable_inv [OF assms(1)] saved(2)], of f] fm by simp
  let ?h = "\<lambda>d. d\<lparr>Status := StatusPadded\<rparr>"
  have so': "sorted_dead fe'" using so markPadded_simps(1) [of fe "Index d"] by (simp add: fe)
  obtain e where e: "Index e = Index d" "?h e \<in> set (DeadSegments fe')"
    using assms(3) update_first_hit [of d "DeadSegments fe" "\<lambda>e. Index e = Index d" ?h] by (auto simp: fe markPaddedLocked_def)
  have un: "Status x = StatusPadded" if "x \<in> set (DeadSegments fe')" "Index x = Index d" for x
    using sorted_dead_inj [OF so' that(1) e(2)] that e(1) by simp
  have ent: "entry_of t n f = Some fe'" using saved(4) eq(3) assms(6) entry_of_cong [of t] by simp
  have "PatchBytes io' n f (Index d) t t = None"
    using ent un load_Inr(2) [of io' n t _ f] by (auto simp: PatchBytes_def list_ex_iff split: sum.splits)
  moreover have "Index d \<in> Index ` set (unpatched fe')"
    using e by (intro image_eqI [of _ _ "?h e"]) (simp_all add: unpatched_def)
  ultimately show ?thesis using ent saved(4) eq(3) by auto
qed

text \<open>The decisions of successive failed fetches, under the same answers of the file system.\<close>

fun decide_each :: "io \<Rightarrow> string \<Rightarrow> string \<Rightarrow> int list \<Rightarrow> int \<Rightarrow> int \<Rightarrow> int \<Rightarrow> Store \<Rightarrow> (Decision \<times> Verdict) list" where
  "decide_each io n f [] len fsize tot s = []"
| "decide_each io n f (i # is) len fsize tot s =
     (case Decide io n f i [] len fsize tot s of (d, t) \<Rightarrow> d # decide_each io n f is len fsize tot t)"

lemma decide_unsaved:
  assumes "save_io io = MkdirFails" "manifest_readable io" "n \<notin> rejected s" "manifests s n = None" "IsVideoContainer f"
    and "within_caps (Store_Policy s) fsize tot [new_dead i [] len]" "is_i64 i"
  shows "Decide io n f i [] len fsize tot s = ((DecisionPad, VerdictDegraded), s)"
proof -
  let ?fe = "\<lparr>DeadSegments = [new_dead i [] len], fe_verdict = VerdictClean, CoverageFraction = 0\<rparr>"
  have "snd (WithinPadCaps ?fe fsize (Store_Policy s) tot)"
    using WithinPadCaps_iff [of ?fe fsize "Store_Policy s" tot] assms(6,7) by (simp add: unpatched_def)
  then show ?thesis
    using assms(1-5)
    by (simp add: Decide_def decide_def isRejected_def loadManifestLocked_def emptyManifest_def fileEntryLocked_def newFileEntry_def known_def
        appendDead_def sortDeadSegments_def saveIgnored_def saveManifestLocked_def del: snd_save)
qed

text \<open>C36. The caps are not enforced while the manifest cannot be written: every segment that would be within
  the caps on its own is padded, however many there are, because nothing is remembered. The comment in
  \<^verbatim>\<open>decide\<close> says that padding is never granted when the policy state cannot be persisted.\<close>

theorem unsaved_pads_unbounded:
  assumes "save_io io = MkdirFails" "manifest_readable io" "n \<notin> rejected s" "manifests s n = None" "IsVideoContainer f"
    and "\<forall>i \<in> set is. is_i64 i \<and> within_caps (Store_Policy s) fsize tot [new_dead i [] len]"
  shows "decide_each io n f is len fsize tot s = replicate (length is) (DecisionPad, VerdictDegraded)"
  using assms(6)
proof (induction "is")
  case (Cons i "is")
  then show ?case using decide_unsaved [OF assms(1-5)] by simp
qed simp

theorem unsaved_pads_unbounded_witness:
  "decide_each (io_ok\<lparr>save_io := MkdirFails\<rparr>) ''n'' ''a.mkv'' [1..1000] 10 0 100 emptyDisk = replicate 1000 (DecisionPad, VerdictDegraded) \<and>
   MaxTotalSegments (Store_Policy emptyDisk) = 64"
proof -
  have "within_caps DefaultPolicy 0 100 [new_dead i [] 10]" if "1 \<le> i" for i
  proof -
    have "i + 1 \<in> {i..i + 4}" "i + 1 \<noteq> i" by simp_all
    then have "\<not> {i..i + 4} \<subseteq> {i}" by blast
    then show ?thesis using that by (simp add: within_caps_def DefaultPolicy_def)
  qed
  then show ?thesis
    using unsaved_pads_unbounded [of "io_ok\<lparr>save_io := MkdirFails\<rparr>" "''n''" emptyDisk "''a.mkv''" "[1..1000]" 0 100 10] video_mkv
    by (simp add: DefaultPolicy_def emptyDisk_def [THEN arg_cong [of _ _ manifests]])
qed

text \<open>A viewer's read of a file that is not a video and has already failed reports the failure again each
  time, where the notifier is documented to be told of fresh transitions only.\<close>

lemma failed_notified_again:
  assumes "entry_of s n f = Some fe" "fe_verdict fe = VerdictFailed" "\<not> IsVideoContainer f" "failedNotify s"
    and "manifest_readable io" "n \<notin> rejected s"
  shows "events (snd (DecideForViewer io n f i msg len fsize tot s)) = events s @ [FailedNotify n f]"
proof -
  obtain m where m: "loadManifestLocked io n s = Inr m"
    using assms(1,5) by (auto simp: entry_of_def loadManifestLocked_def split: option.splits manifest_file.splits)
  have ev: "events (saveIgnored io n m' s) = events s" "failedNotify (saveIgnored io n m' s) = failedNotify s" for m'
    by (cases rule: saveIgnored_cases [of io n m' s]; simp)+
  show ?thesis using assms m by (simp add: DecideForViewer_def decide_def isRejected_def notifyFailed_def ev Let_def)
qed

end
