(* ===== verification/Job_Queue.thy ===== *)
theory Job_Queue
  imports Prelude Transition "HOL-Library.Multiset" "HOL-Library.Sublist"
begin

text \<open>
  The import queue: \<^verbatim>\<open>src/pkg/manager/jobqueue.go\<close>. One unbounded list of jobs under a mutex, a condition
  variable, and a fixed pool of workers. Each step of the model is one critical section or one atomic
  update, and the workers interleave freely: a worker is about to look at the queue, parked in
  \<^verbatim>\<open>cond.Wait\<close>, holding a job it has popped, running it (counted in \<^verbatim>\<open>active\<close>), or gone. \<^verbatim>\<open>Signal\<close> wakes some
  parked worker if there is one. The processing function is code of other files; that it returned or
  panicked makes no difference to the queue, because \<^verbatim>\<open>runJob\<close> recovers.
\<close>

section \<open>Definitions\<close>

datatype JobType = JobTypeTorrent | JobTypeNZB

record 'a Job =
  ID :: string
  Type :: JobType
  Request :: "'a option"
  ParseAttempts :: int
  CreatedAt :: int

datatype 'a worker = Ready | Parked | Popped "'a Job" | Running "'a Job" | Exited

record 'a JobQueue =
  jobs :: "'a Job list"
  closed :: bool
  workers :: "'a worker list"
  active :: int
  ctx_done :: bool
  broadcast :: bool

definition NewJob :: "('a \<Rightarrow> string) \<Rightarrow> JobType \<Rightarrow> 'a option \<Rightarrow> int \<Rightarrow> 'a Job" where
  "NewJob req_Id jobType req now =
     \<lparr>ID = (case req of None \<Rightarrow> [] | Some r \<Rightarrow> req_Id r), Type = jobType, Request = req, ParseAttempts = 0, CreatedAt = now\<rparr>"

definition NewJobQueue :: "int \<Rightarrow> 'a JobQueue" where
  "NewJobQueue maxWorkers =
     (let n = (if maxWorkers \<le> 0 then 5 else maxWorkers)
      in \<lparr>jobs = [], closed = False, workers = replicate (nat n) Ready, active = 0, ctx_done = False, broadcast = False\<rparr>)"

text \<open>\<^verbatim>\<open>cond.Signal\<close>: \<open>w\<close> is the worker the runtime picks.\<close>

definition may_wake :: "'a JobQueue \<Rightarrow> nat option \<Rightarrow> bool" where
  "may_wake q w \<longleftrightarrow> (case w of None \<Rightarrow> Parked \<notin> set (workers q) | Some i \<Rightarrow> i < length (workers q) \<and> workers q ! i = Parked)"

definition Signal :: "nat option \<Rightarrow> 'a JobQueue \<Rightarrow> 'a JobQueue" where
  "Signal w q = (case w of None \<Rightarrow> q | Some i \<Rightarrow> q\<lparr>workers := (workers q)[i := Ready]\<rparr>)"

definition Broadcast :: "'a JobQueue \<Rightarrow> 'a JobQueue" where
  "Broadcast q = q\<lparr>workers := map (\<lambda>s. if s = Parked then Ready else s) (workers q), broadcast := True\<rparr>"

text \<open>\<^term>\<open>None\<close> is the error that the queue is closed.\<close>

definition Submit :: "'a Job \<Rightarrow> nat option \<Rightarrow> 'a JobQueue \<Rightarrow> 'a JobQueue option" where
  "Submit job w q = (if closed q then None else Some (Signal w (q\<lparr>jobs := jobs q @ [job]\<rparr>)))"

definition Len :: "'a JobQueue \<Rightarrow> int" where
  "Len q = int (length (jobs q))"

definition ActiveCount :: "'a JobQueue \<Rightarrow> int" where
  "ActiveCount q = active q"

text \<open>The goroutine of \<^verbatim>\<open>Retry\<close> when its select returns: by the context, which needs it to be done, or by the
  timer.\<close>

definition Retry :: "'a Job \<Rightarrow> bool \<Rightarrow> nat option \<Rightarrow> 'a JobQueue \<Rightarrow> 'a JobQueue" where
  "Retry job by_timer w q =
     (if by_timer then (case Submit job w q of Some q' \<Rightarrow> q' | None \<Rightarrow> q) else q)"

definition Close_flag :: "'a JobQueue \<Rightarrow> 'a JobQueue" where
  "Close_flag q = q\<lparr>closed := True\<rparr>"

definition Close_cancel :: "'a JobQueue \<Rightarrow> 'a JobQueue" where
  "Close_cancel q = q\<lparr>ctx_done := True\<rparr>"

datatype 'a pop_result = MustWait | NoJob | Got "'a Job"

text \<open>One pass through \<^verbatim>\<open>pop\<close> with the mutex held.\<close>

definition pop :: "'a JobQueue \<Rightarrow> 'a pop_result \<times> 'a JobQueue" where
  "pop q = (if jobs q = [] \<and> \<not> closed q then (MustWait, q)
            else if closed q then (NoJob, q)
            else (Got (hd (jobs q)), q\<lparr>jobs := tl (jobs q)\<rparr>))"

definition set_worker :: "nat \<Rightarrow> 'a worker \<Rightarrow> 'a JobQueue \<Rightarrow> 'a JobQueue" where
  "set_worker i s q = q\<lparr>workers := (workers q)[i := s]\<rparr>"

text \<open>The loop of \<^verbatim>\<open>worker\<close>, cut at its blocking points and atomic updates.\<close>

definition worker_look :: "nat \<Rightarrow> 'a JobQueue \<Rightarrow> 'a JobQueue" where
  "worker_look i q =
     (case pop q of
        (MustWait, q1) \<Rightarrow> set_worker i Parked q1
      | (NoJob, q1) \<Rightarrow> set_worker i Exited q1
      | (Got job, q1) \<Rightarrow> set_worker i (Popped job) q1)"

definition worker_start :: "nat \<Rightarrow> 'a Job \<Rightarrow> 'a JobQueue \<Rightarrow> 'a JobQueue" where
  "worker_start i job q = (set_worker i (Running job) q)\<lparr>active := active q + 1\<rparr>"

definition runJob_done :: "nat \<Rightarrow> 'a JobQueue \<Rightarrow> 'a JobQueue" where
  "runJob_done i q = (set_worker i Ready q)\<lparr>active := active q - 1\<rparr>"

fun remove_job :: "string \<Rightarrow> 'a Job list \<Rightarrow> ('a Job \<times> 'a Job list) option" where
  "remove_job i [] = None"
| "remove_job i (job # rest) =
     (if ID job = i then Some (job, rest)
      else case remove_job i rest of None \<Rightarrow> None | Some (found, rest') \<Rightarrow> Some (found, job # rest'))"

definition DeleteJob :: "string \<Rightarrow> 'a JobQueue \<Rightarrow> bool \<times> 'a JobQueue" where
  "DeleteJob jobID q =
     (case remove_job jobID (jobs q) of None \<Rightarrow> (False, q) | Some (found, rest) \<Rightarrow> (True, q\<lparr>jobs := rest\<rparr>))"

definition FindJob :: "string \<Rightarrow> 'a JobQueue \<Rightarrow> 'a Job option" where
  "FindJob jobID q = find (\<lambda>job. ID job = jobID) (jobs q)"

definition PendingCount :: "JobType option \<Rightarrow> 'a JobQueue \<Rightarrow> int" where
  "PendingCount jobType q =
     (case jobType of
        None \<Rightarrow> int (length (jobs q))
      | Some t \<Rightarrow> int (length (filter (\<lambda>job. Type job = t) (jobs q))))"

section \<open>Steps\<close>

datatype 'a qlabel = LSubmit "'a Job" | LRefused "'a Job" | LCancelled "'a Job" | LPop nat "'a Job" | LPark nat | LExit nat
  | LStart nat "'a Job" | LFinish nat "'a Job" | LDelete "'a Job" | LMissing string | LCloseFlag | LCloseCancel | LBroadcast

inductive queue_step :: "'a qlabel \<Rightarrow> 'a JobQueue \<Rightarrow> 'a JobQueue \<Rightarrow> bool" where
  submit: "Submit job w q = Some q' \<Longrightarrow> may_wake q w \<Longrightarrow> queue_step (LSubmit job) q q'"
| refused: "Submit job w q = None \<Longrightarrow> queue_step (LRefused job) q q"
| retry: "Retry job True w q = q' \<Longrightarrow> \<not> closed q \<Longrightarrow> may_wake q w \<Longrightarrow> queue_step (LSubmit job) q q'"
| retry_refused: "Retry job True w q = q' \<Longrightarrow> closed q \<Longrightarrow> queue_step (LRefused job) q q'"
| cancelled: "ctx_done q \<Longrightarrow> Retry job False w q = q' \<Longrightarrow> queue_step (LCancelled job) q q'"
| take_job: "i < length (workers q) \<Longrightarrow> workers q ! i = Ready \<Longrightarrow> fst (pop q) = Got job \<Longrightarrow>
    queue_step (LPop i job) q (worker_look i q)"
| park: "i < length (workers q) \<Longrightarrow> workers q ! i = Ready \<Longrightarrow> fst (pop q) = MustWait \<Longrightarrow>
    queue_step (LPark i) q (worker_look i q)"
| leave: "i < length (workers q) \<Longrightarrow> workers q ! i = Ready \<Longrightarrow> fst (pop q) = NoJob \<Longrightarrow>
    queue_step (LExit i) q (worker_look i q)"
| start: "i < length (workers q) \<Longrightarrow> workers q ! i = Popped job \<Longrightarrow> queue_step (LStart i job) q (worker_start i job q)"
| finish: "i < length (workers q) \<Longrightarrow> workers q ! i = Running job \<Longrightarrow> queue_step (LFinish i job) q (runJob_done i q)"
| delete: "DeleteJob jobID q = (True, q') \<Longrightarrow> FindJob jobID q = Some job \<Longrightarrow> queue_step (LDelete job) q q'"
| missing: "DeleteJob jobID q = (False, q') \<Longrightarrow> queue_step (LMissing jobID) q q'"
| close_flag: "queue_step LCloseFlag q (Close_flag q)"
| close_cancel: "closed q \<Longrightarrow> queue_step LCloseCancel q (Close_cancel q)"
| close_broadcast: "closed q \<Longrightarrow> ctx_done q \<Longrightarrow> queue_step LBroadcast q (Broadcast q)"

definition fresh_queue :: "'a JobQueue \<Rightarrow> bool" where
  "fresh_queue q \<longleftrightarrow> (\<exists>n. q = NewJobQueue n)"

abbreviation reachable_queue :: "'a JobQueue \<Rightarrow> bool" where
  "reachable_queue \<equiv> reachable fresh_queue queue_step"

text \<open>What the labels of a run record.\<close>

fun submitted :: "'a qlabel list \<Rightarrow> 'a Job list" where
  "submitted [] = []"
| "submitted (LSubmit job # ls) = job # submitted ls"
| "submitted (l # ls) = submitted ls"

fun popped :: "'a qlabel list \<Rightarrow> 'a Job list" where
  "popped [] = []"
| "popped (LPop i job # ls) = job # popped ls"
| "popped (l # ls) = popped ls"

fun deleted :: "'a qlabel list \<Rightarrow> 'a Job list" where
  "deleted [] = []"
| "deleted (LDelete job # ls) = job # deleted ls"
| "deleted (l # ls) = deleted ls"

section \<open>The invariant\<close>

abbreviation count_state :: "('a worker \<Rightarrow> bool) \<Rightarrow> 'a JobQueue \<Rightarrow> nat" where
  "count_state P q \<equiv> length (filter P (workers q))"

fun is_running :: "'a worker \<Rightarrow> bool" where
  "is_running (Running j) = True"
| "is_running _ = False"

text \<open>No wake-up is lost: while a worker is parked, every pending job has a worker of its own that is about
  to look at the queue. Once \<^verbatim>\<open>Broadcast\<close> is done nobody is parked.\<close>

definition queue_ok :: "'a JobQueue \<Rightarrow> bool" where
  "queue_ok q \<longleftrightarrow> active q = int (count_state is_running q) \<and>
     (\<not> closed q \<longrightarrow> Parked \<in> set (workers q) \<longrightarrow> length (jobs q) \<le> count_state (\<lambda>s. s = Ready) q) \<and>
     (broadcast q \<longrightarrow> closed q \<and> Parked \<notin> set (workers q)) \<and> (Exited \<in> set (workers q) \<longrightarrow> closed q)"

lemma length_filter_update:
  assumes "i < length xs"
  shows "length (filter P (xs[i := y])) + (if P (xs ! i) then 1 else 0) = length (filter P xs) + (if P y then 1 else 0)"
  using assms
proof (induction xs arbitrary: i)
  case (Cons x xs)
  then show ?case by (cases i) auto
qed simp

lemma in_update: "i < length ws \<Longrightarrow> s \<noteq> t \<Longrightarrow> t \<in> set (ws[i := s]) \<Longrightarrow> t \<in> set ws"
  using set_update_subset_insert [of ws i s] by auto

lemma remove_job_length: "remove_job i js = Some (j, js') \<Longrightarrow> length js = Suc (length js')"
  by (induction js arbitrary: js') (auto split: if_splits option.splits)

lemma count_Broadcast: "length (filter is_running (map (\<lambda>s. if s = Parked then Ready else s) ws)) = length (filter is_running ws)"
  by (induction ws) auto

lemma Submit_ok:
  assumes "queue_ok q" "Submit job w q = Some q'" "may_wake q w"
  shows "queue_ok q'"
proof (cases w)
  case None
  then show ?thesis using assms by (auto simp: Submit_def Signal_def may_wake_def queue_ok_def split: if_splits)
next
  case (Some i)
  then have i: "i < length (workers q)" "workers q ! i = Parked" "\<not> closed q"
    using assms(2,3) by (auto simp: may_wake_def Submit_def split: if_splits)
  then have "Parked \<in> set (workers q)" by (metis nth_mem)
  then show ?thesis
    using assms i Some in_update [OF i(1), of Ready Exited] length_filter_update [OF i(1), of is_running Ready] length_filter_update [OF i(1), of "\<lambda>s. s = Ready" Ready]
    by (auto simp: Submit_def Signal_def queue_ok_def)
qed

lemma worker_look_ok:
  assumes "queue_ok q" "i < length (workers q)" "workers q ! i = Ready"
  shows "queue_ok (worker_look i q)"
proof -
  note c = length_filter_update [OF assms(2), of is_running] length_filter_update [OF assms(2), of "\<lambda>s. s = Ready"]
  consider "jobs q = []" "\<not> closed q" | "closed q" | "jobs q \<noteq> []" "\<not> closed q" by blast
  then show ?thesis
  proof cases
    case 1
    then show ?thesis
      using assms c(1) [of Parked] in_update [OF assms(2), of Parked Exited] by (auto simp: worker_look_def pop_def set_worker_def queue_ok_def)
  next
    case 2
    then show ?thesis
      using assms c(1) [of Exited] in_update [OF assms(2), of Exited Parked]
      by (auto simp: worker_look_def pop_def set_worker_def queue_ok_def)
  next
    case 3
    then have "length (tl (jobs q)) + 1 = length (jobs q)" by simp
    then show ?thesis
      using 3 assms c(1) [of "Popped (hd (jobs q))"] c(2) [of "Popped (hd (jobs q))"] in_update [OF assms(2), of "Popped (hd (jobs q))"]
      by (auto simp: worker_look_def pop_def set_worker_def queue_ok_def)
  qed
qed

lemma set_worker_ok:
  assumes "queue_ok q" "i < length (workers q)" "workers q ! i \<noteq> Ready" "s \<noteq> Parked" "s \<noteq> Exited"
    and "a - (if is_running s then 1 else 0) = active q - (if is_running (workers q ! i) then 1 else 0)"
  shows "queue_ok ((set_worker i s q)\<lparr>active := a\<rparr>)"
  using assms length_filter_update [OF assms(2), of is_running s] length_filter_update [OF assms(2), of "\<lambda>s. s = Ready" s]
    in_update [OF assms(2,4)] in_update [OF assms(2,5)]
  by (auto simp: set_worker_def queue_ok_def split: if_splits)

interpretation queue: invariant fresh_queue queue_step queue_ok
proof
  fix q :: "'a JobQueue" assume "fresh_queue q"
  then obtain n where "q = NewJobQueue n" by (auto simp: fresh_queue_def)
  then show "queue_ok q" by (simp add: NewJobQueue_def Let_def queue_ok_def)
next
  fix q q' :: "'a JobQueue" and l assume ok: "queue_ok q" and "queue_step l q q'"
  from this(2) show "queue_ok q'"
  proof cases
    case (submit job w)
    then show ?thesis using Submit_ok ok by blast
  next
    case (retry job w)
    then show ?thesis using Submit_ok [OF ok, of job w] by (auto simp: Retry_def Submit_def)
  next
    case (start i job)
    then show ?thesis using ok set_worker_ok [OF ok, of i "Running job" "active q + 1"] by (simp add: worker_start_def)
  next
    case (finish i job)
    then show ?thesis using ok set_worker_ok [OF ok, of i Ready "active q - 1"] by (simp add: runJob_done_def)
  next
    case (delete jobID job)
    then show ?thesis using ok remove_job_length [of jobID "jobs q"]
      by (auto simp: DeleteJob_def queue_ok_def split: option.splits)
  next
    case close_broadcast
    then show ?thesis using ok count_Broadcast [of "workers q"] by (auto simp: Broadcast_def queue_ok_def simp del: filter_map)
  qed (use ok worker_look_ok in \<open>auto simp: Retry_def Submit_def DeleteJob_def Close_flag_def Close_cancel_def queue_ok_def split: option.splits\<close>)
qed

section \<open>Conservation and order\<close>

lemma remove_job_split: "remove_job i js = Some (j, js') \<Longrightarrow> find (\<lambda>job. ID job = i) js = Some j \<and> (\<exists>as bs. js = as @ j # bs \<and> js' = as @ bs)"
proof (induction js arbitrary: js')
  case (Cons x xs)
  show ?case
  proof (cases "ID x = i")
    case True
    then show ?thesis using Cons.prems by (auto intro: exI [of _ "[]"])
  next
    case False
    then obtain ys where ys: "remove_job i xs = Some (j, ys)" "js' = x # ys" using Cons.prems by (auto split: option.splits)
    then obtain as bs where "xs = as @ j # bs" "ys = as @ bs" "find (\<lambda>job. ID job = i) xs = Some j" using Cons.IH by blast
    then show ?thesis using ys(2) False by (intro conjI exI [of _ "x # as"] exI [of _ bs]) simp_all
  qed
qed simp

lemma step_conserves:
  assumes "queue_step l q q'"
  shows "mset (submitted [l]) + mset (jobs q) = mset (popped [l]) + mset (deleted [l]) + mset (jobs q') \<and>
    subseq (popped [l] @ jobs q') (jobs q @ submitted [l])"
  using assms
proof cases
  case (take_job i job)
  then have "jobs q = job # jobs q'" "l = LPop i job"
    by (auto simp: worker_look_def pop_def set_worker_def split: if_splits)
  then show ?thesis by simp
next
  case (park i)
  then show ?thesis by (auto simp: worker_look_def pop_def set_worker_def split: if_splits)
next
  case (leave i)
  then show ?thesis by (auto simp: worker_look_def pop_def set_worker_def split: if_splits)
next
  case (delete jobID job)
  then obtain as bs where "jobs q = as @ job # bs" "jobs q' = as @ bs"
    using remove_job_split [of jobID "jobs q"] by (auto simp: DeleteJob_def FindJob_def split: option.splits)
  then show ?thesis using delete by (auto intro!: list_emb_append_mono)
qed (auto simp: Submit_def Signal_def Retry_def worker_start_def runJob_done_def set_worker_def DeleteJob_def Close_flag_def
    Close_cancel_def Broadcast_def split: option.splits if_splits)

lemma submitted_Cons: "submitted (l # ls) = submitted [l] @ submitted ls" "popped (l # ls) = popped [l] @ popped ls"
  "deleted (l # ls) = deleted [l] @ deleted ls"
  by (cases l; simp)+

lemma trace_conserves:
  "trace queue_step q ls q' \<Longrightarrow>
   mset (submitted ls) + mset (jobs q) = mset (popped ls) + mset (deleted ls) + mset (jobs q') \<and>
   subseq (popped ls @ jobs q') (jobs q @ submitted ls)"
proof (induction rule: trace.induct)
  case (trace_Cons l q q1 ls q')
  note st = step_conserves [OF trace_Cons.hyps(1)]
  have "mset (submitted (l # ls)) + mset (jobs q) = mset (popped [l]) + mset (deleted [l]) + (mset (jobs q1) + mset (submitted ls))"
    using st by (simp add: submitted_Cons [of l ls] ac_simps)
  also have "\<dots> = mset (popped (l # ls)) + mset (deleted (l # ls)) + mset (jobs q')"
    using trace_Cons.IH by (simp add: submitted_Cons [of l ls] ac_simps)
  finally have m: "mset (submitted (l # ls)) + mset (jobs q) = mset (popped (l # ls)) + mset (deleted (l # ls)) + mset (jobs q')" .
  have "subseq (popped [l] @ (popped ls @ jobs q')) (popped [l] @ (jobs q1 @ submitted ls))"
    by (rule list_emb_append_mono) (use trace_Cons.IH in auto)
  moreover have "subseq ((popped [l] @ jobs q1) @ submitted ls) ((jobs q @ submitted [l]) @ submitted ls)"
    by (rule list_emb_append_mono) (use st in auto)
  ultimately have "subseq (popped (l # ls) @ jobs q') (jobs q @ submitted (l # ls))"
    using subseq_order.trans by (simp add: submitted_Cons [of l ls])
  then show ?case using m by simp
qed simp

lemma closed_stays: "queue_step l q q' \<Longrightarrow> closed q \<Longrightarrow> closed q' \<and> popped [l] = [] \<and> submitted [l] = []"
  by (cases rule: queue_step.cases)
    (auto simp: Submit_def Signal_def Retry_def worker_look_def pop_def worker_start_def runJob_done_def set_worker_def DeleteJob_def
      Close_flag_def Close_cancel_def Broadcast_def split: option.splits if_splits)

fun busy :: "'a worker \<Rightarrow> bool" where
  "busy (Popped j) = True"
| "busy (Running j) = True"
| "busy _ = False"

section \<open>Properties\<close>

text \<open>C22. No job is lost, duplicated or overtaken. In every run of a new queue, under every interleaving of
  submitters, workers, deletions and retries, the accepted jobs are exactly those handed to a worker, those
  deleted and those still pending, and the jobs handed out followed by the pending ones are in the order
  of submission; without deletions they are all of them.\<close>

theorem queue_conserves_jobs:
  assumes "trace queue_step (NewJobQueue n) ls q"
  shows "mset (submitted ls) = mset (popped ls) + mset (deleted ls) + mset (jobs q) \<and>
    subseq (popped ls @ jobs q) (submitted ls) \<and> (deleted ls = [] \<longrightarrow> popped ls @ jobs q = submitted ls)"
proof -
  have c: "mset (submitted ls) = mset (popped ls) + mset (deleted ls) + mset (jobs q)" "subseq (popped ls @ jobs q) (submitted ls)"
    using trace_conserves [OF assms] by (simp_all add: NewJobQueue_def Let_def)
  have "popped ls @ jobs q = submitted ls" if "deleted ls = []"
  proof (rule subseq_same_length [OF c(2)])
    show "length (popped ls @ jobs q) = length (submitted ls)" using arg_cong [OF c(1), of size] that by simp
  qed
  then show ?thesis using c by simp
qed

definition sample_job :: "unit Job" where
  "sample_job = NewJob (\<lambda>_. ''j'') JobTypeNZB (Some ()) 0"

lemma sample_run:
  "trace queue_step (NewJobQueue 1) [LPark 0, LSubmit sample_job, LPop 0 sample_job]
     \<lparr>jobs = [], closed = False, workers = [Popped sample_job], active = 0, ctx_done = False, broadcast = False\<rparr>"
proof -
  let ?q0 = "NewJobQueue 1 :: unit JobQueue"
  let ?q1 = "\<lparr>jobs = [], closed = False, workers = [Parked], active = 0, ctx_done = False, broadcast = False\<rparr>"
  let ?q2 = "\<lparr>jobs = [sample_job], closed = False, workers = [Ready], active = 0, ctx_done = False, broadcast = False\<rparr>"
  let ?q3 = "\<lparr>jobs = [], closed = False, workers = [Popped sample_job], active = 0, ctx_done = False, broadcast = False\<rparr>"
  have s1: "queue_step (LPark 0) ?q0 ?q1"
    using park [of 0 ?q0] by (simp add: NewJobQueue_def pop_def worker_look_def set_worker_def Let_def)
  have s2: "queue_step (LSubmit sample_job) ?q1 ?q2"
    using submit [of sample_job "Some 0" ?q1 ?q2] by (simp add: Submit_def Signal_def may_wake_def)
  have s3: "queue_step (LPop 0 sample_job) ?q2 ?q3"
    using take_job [of 0 ?q2 sample_job] by (simp add: pop_def worker_look_def set_worker_def)
  from s1 s2 s3 show ?thesis unfolding trace_Cons_iff trace_Nil_iff by blast
qed

theorem queue_conserves_jobs_witness:
  "popped [LPark 0, LSubmit sample_job, LPop 0 sample_job] = submitted [LPark 0, LSubmit sample_job, LPop 0 sample_job]"
  using queue_conserves_jobs [OF sample_run] by simp

text \<open>C11. The queue cannot hang. While jobs are pending and the queue is open, some worker can take one at
  once unless every worker is busy with a job: no wake-up is lost. After \<^verbatim>\<open>Close\<close> has broadcast, every worker has
  left, can leave at once, or is busy, so waiting for them ends with the running jobs. \<^verbatim>\<open>ActiveCount\<close> is the
  number of running jobs.\<close>

theorem queue_progress:
  assumes "reachable_queue q"
  shows "(\<not> closed q \<and> jobs q \<noteq> [] \<longrightarrow>
      (\<exists>i job q'. queue_step (LPop i job) q q') \<or> (\<forall>s \<in> set (workers q). busy s)) \<and>
    (broadcast q \<longrightarrow> (\<forall>i < length (workers q). workers q ! i = Exited \<or> (\<exists>q'. queue_step (LExit i) q q') \<or> busy (workers q ! i))) \<and>
    ActiveCount q = int (length (filter is_running (workers q)))"
proof (intro conjI impI)
  note ok = queue.reachable_inv [OF assms]
  show "(\<exists>i job q'. queue_step (LPop i job) q q') \<or> (\<forall>s \<in> set (workers q). busy s)" if A: "\<not> closed q \<and> jobs q \<noteq> []"
  proof (cases "Ready \<in> set (workers q)")
    case True
    then obtain i where "i < length (workers q)" "workers q ! i = Ready" by (auto simp: in_set_conv_nth)
    then have "queue_step (LPop i (hd (jobs q))) q (worker_look i q)" using A by (intro take_job) (auto simp: pop_def)
    then show ?thesis by blast
  next
    case False
    then have "filter (\<lambda>s. s = Ready) (workers q) = []" by (auto simp: filter_empty_conv)
    then have "Parked \<notin> set (workers q)" using ok A by (auto simp: queue_ok_def)
    moreover have "Exited \<notin> set (workers q)" using ok A by (auto simp: queue_ok_def)
    ultimately have "busy s" if "s \<in> set (workers q)" for s using that False by (cases s) auto
    then show ?thesis by blast
  qed
  show "\<forall>i < length (workers q). workers q ! i = Exited \<or> (\<exists>q'. queue_step (LExit i) q q') \<or> busy (workers q ! i)" if "broadcast q"
  proof (intro allI impI)
    fix i assume i: "i < length (workers q)"
    have cl: "closed q" "Parked \<notin> set (workers q)" using ok that by (auto simp: queue_ok_def)
    show "workers q ! i = Exited \<or> (\<exists>q'. queue_step (LExit i) q q') \<or> busy (workers q ! i)"
    proof (cases "workers q ! i")
      case Ready
      then have "queue_step (LExit i) q (worker_look i q)" using cl i by (intro leave) (auto simp: pop_def)
      then show ?thesis by blast
    next
      case Parked
      then show ?thesis using cl(2) i nth_mem by metis
    qed auto
  qed
  show "ActiveCount q = int (length (filter is_running (workers q)))" using ok by (simp add: ActiveCount_def queue_ok_def)
qed

theorem queue_progress_witness:
  "ActiveCount \<lparr>jobs = [], closed = False, workers = [Popped sample_job], active = 0, ctx_done = False, broadcast = False\<rparr> = 0"
proof -
  have "reachable_queue (NewJobQueue 1 :: unit JobQueue)" by (rule reach_init) (auto simp: fresh_queue_def)
  then show ?thesis using queue_progress [OF reachable_trace [OF _ sample_run]] by simp
qed

text \<open>A closed queue hands out nothing and accepts nothing, whatever is still pending: the pending jobs
  are dropped, where the comment on \<^verbatim>\<open>pop\<close> says that it returns nil when the queue is closed and empty.\<close>

lemma closed_queue_drops:
  assumes "trace queue_step q ls q'" "closed q"
  shows "popped ls = [] \<and> submitted ls = [] \<and> closed q' \<and> fst (pop q') = NoJob"
  using assms
proof (induction rule: trace.induct)
  case (trace_Cons l q q1 ls q')
  then show ?case using closed_stays [of l q q1] submitted_Cons [of l ls] by simp
qed (simp add: pop_def)

end
