(* ===== verification/Regrab_Guard.thy ===== *)
theory Regrab_Guard
  imports Go_Strings "HOL-Library.AList" "HOL-Library.Char_ord" "HOL-Library.List_Lexorder"
begin

text \<open>
  The guard on automatic re-grabs: \<^verbatim>\<open>src/pkg/manager/regrab_guard.go\<close> and its records in
  \<^verbatim>\<open>src/pkg/storage/regrab_guard.go\<close>. Times are nanoseconds; \<^verbatim>\<open>time.Time.Sub\<close> saturates at the range of a
  duration. The clock, and whether the database accepted a write, are arguments. Go maps are association
  lists; the persisted records are an association list in the order the database enumerates them.
\<close>

section \<open>Definitions\<close>

abbreviation hour :: int where "hour \<equiv> 3600 * 1000000000"

definition time_Sub :: "int \<Rightarrow> int \<Rightarrow> int" where
  "time_Sub t u = max (- 9223372036854775808) (min 9223372036854775807 (t - u))"

definition regrabGuardMaxAttempts :: nat where "regrabGuardMaxAttempts = 2"
definition regrabGuardWindow :: int where "regrabGuardWindow = 24 * hour"
definition regrabDedupeWindow :: int where "regrabDedupeWindow = 2 * 60 * 1000000000"
definition keepReleaseRetryWindow :: int where "keepReleaseRetryWindow = 30 * 24 * hour"
definition regrabGuardTerminalTTL :: int where "regrabGuardTerminalTTL = 7 * 24 * hour"

definition regrabGuardTerminalReason :: string where
  "regrabGuardTerminalReason =
     ''replacement grabs also missing articles '' @ [CHR 0xE2, CHR 0x80, CHR 0x94] @ '' posting appears dead at source''"

record KeepReleaseMark =
  At :: int
  FromNZB :: string

record RegrabGuardRecord =
  Identity :: string
  Attempts :: "int list"
  Terminal :: bool
  TerminalAt :: int
  Reason :: string
  RecentReleases :: "(string \<times> int) list"
  KeepRelease :: "(string \<times> KeepReleaseMark) list"

record regrabAttemptRecord =
  attempts :: "int list"
  terminal :: bool
  terminalAt :: int
  reason :: string
  loggedTerminal :: bool
  recentReleases :: "(string \<times> int) list"
  keepRelease :: "(string \<times> KeepReleaseMark) list"

record regrabGuard =
  records :: "string \<rightharpoonup> regrabAttemptRecord"
  attached :: bool
  disk :: "(string \<times> RegrabGuardRecord) list"

definition zeroTime :: int where "zeroTime = - 62135596800 * 1000000000"

definition newRecord :: regrabAttemptRecord where
  "newRecord = \<lparr>attempts = [], terminal = False, terminalAt = zeroTime, reason = [], loggedTerminal = False, recentReleases = [], keepRelease = []\<rparr>"

definition toStorage :: "regrabAttemptRecord \<Rightarrow> string \<Rightarrow> RegrabGuardRecord" where
  "toStorage rec identity =
     \<lparr>Identity = identity, Attempts = attempts rec, Terminal = terminal rec, TerminalAt = terminalAt rec, Reason = reason rec,
      RecentReleases = recentReleases rec, KeepRelease = keepRelease rec\<rparr>"

definition rec_empty :: "regrabAttemptRecord \<Rightarrow> bool" where
  "rec_empty rec \<longleftrightarrow> attempts rec = [] \<and> \<not> terminal rec \<and> keepRelease rec = []"

definition newRegrabGuard :: "(string \<times> RegrabGuardRecord) list \<Rightarrow> regrabGuard" where
  "newRegrabGuard d = \<lparr>records = Map.empty, attached = False, disk = d\<rparr>"

definition SaveRegrabGuardRecord :: "bool \<Rightarrow> RegrabGuardRecord \<Rightarrow> (string \<times> RegrabGuardRecord) list \<Rightarrow> (string \<times> RegrabGuardRecord) list" where
  "SaveRegrabGuardRecord put_ok rec d = (if Identity rec = [] \<or> \<not> put_ok then d else AList.update (Identity rec) rec d)"

definition DeleteRegrabGuardRecord :: "bool \<Rightarrow> string \<Rightarrow> (string \<times> RegrabGuardRecord) list \<Rightarrow> (string \<times> RegrabGuardRecord) list" where
  "DeleteRegrabGuardRecord put_ok identity d = (if identity = [] \<or> \<not> put_ok then d else AList.delete identity d)"

definition keep_live :: "int \<Rightarrow> (string \<times> KeepReleaseMark) list \<Rightarrow> (string \<times> KeepReleaseMark) list" where
  "keep_live now marks = filter (\<lambda>(name, m). \<not> time_Sub now (At m) \<ge> keepReleaseRetryWindow) marks"

text \<open>The record that \<^verbatim>\<open>attach\<close> rebuilds from a persisted one.\<close>

definition loadRecord :: "int \<Rightarrow> RegrabGuardRecord \<Rightarrow> regrabAttemptRecord" where
  "loadRecord now sr =
     \<lparr>attempts = filter (\<lambda>t. time_Sub now t < regrabGuardWindow) (Attempts sr),
      terminal = (Terminal sr \<and> time_Sub now (TerminalAt sr) < regrabGuardTerminalTTL),
      terminalAt = TerminalAt sr, reason = Reason sr, loggedTerminal = Terminal sr,
      recentReleases = RecentReleases sr, keepRelease = keep_live now (KeepRelease sr)\<rparr>"

text \<open>\<open>visits\<close> is how many records the enumeration visits before it fails, the whole list when it does not.\<close>

definition attach :: "int \<Rightarrow> bool \<Rightarrow> nat \<Rightarrow> regrabGuard \<Rightarrow> regrabGuard" where
  "attach now put_ok visits g =
     (let visited = take visits (disk g);
          stale = map fst (filter (\<lambda>(i, sr). rec_empty (loadRecord now sr)) visited)
      in \<lparr>records = fold (\<lambda>(i, sr) rs. if rec_empty (loadRecord now sr) then rs else rs(i \<mapsto> loadRecord now sr)) visited (records g),
          attached = True,
          disk = fold (DeleteRegrabGuardRecord put_ok) stale (disk g)\<rparr>)"

definition persist :: "bool \<Rightarrow> string \<Rightarrow> regrabAttemptRecord option \<Rightarrow> regrabGuard \<Rightarrow> regrabGuard" where
  "persist put_ok identity rec g =
     (if \<not> attached g then g
      else g\<lparr>disk := (case rec of
                         None \<Rightarrow> DeleteRegrabGuardRecord put_ok identity (disk g)
                       | Some r \<Rightarrow> if rec_empty r then DeleteRegrabGuardRecord put_ok identity (disk g)
                                   else SaveRegrabGuardRecord put_ok (toStorage r identity) (disk g))\<rparr>)"

definition keepReleaseRepeated :: "int \<Rightarrow> string \<Rightarrow> string \<Rightarrow> string \<Rightarrow> regrabGuard \<Rightarrow> bool" where
  "keepReleaseRepeated now identity posting currentNZB g =
     (if identity = [] \<or> posting = [] then False
      else case records g identity of
             None \<Rightarrow> False
           | Some rec \<Rightarrow>
               (case map_of (keepRelease rec) posting of
                  None \<Rightarrow> False
                | Some mark \<Rightarrow> FromNZB mark \<noteq> currentNZB \<and> time_Sub now (At mark) < keepReleaseRetryWindow))"

definition recordOf :: "string \<Rightarrow> regrabGuard \<Rightarrow> regrabAttemptRecord" where
  "recordOf identity g = (case records g identity of Some rec \<Rightarrow> rec | None \<Rightarrow> newRecord)"

definition putRecord :: "string \<Rightarrow> regrabAttemptRecord \<Rightarrow> regrabGuard \<Rightarrow> regrabGuard" where
  "putRecord identity rec g = g\<lparr>records := (records g)(identity \<mapsto> rec)\<rparr>"

definition recordKeepRelease :: "int \<Rightarrow> bool \<Rightarrow> string \<Rightarrow> string \<Rightarrow> string \<Rightarrow> regrabGuard \<Rightarrow> regrabGuard" where
  "recordKeepRelease now put_ok identity posting fromNZB g =
     (if identity = [] \<or> posting = [] then g
      else let rec = recordOf identity g;
               rec' = rec\<lparr>keepRelease := AList.update posting \<lparr>At = now, FromNZB = fromNZB\<rparr> (keep_live now (keepRelease rec))\<rparr>
           in persist put_ok identity (Some rec') (putRecord identity rec' g))"

text \<open>\<^verbatim>\<open>normalizeCooldownKey\<close> of \<^verbatim>\<open>repair_sweep.go\<close>.\<close>

definition normalizeCooldownKey :: "string \<Rightarrow> string" where
  "normalizeCooldownKey name =
     filter (\<lambda>r. (97 \<le> (of_char r :: nat) \<and> (of_char r :: nat) \<le> 122) \<or> (48 \<le> (of_char r :: nat) \<and> (of_char r :: nat) \<le> 57)) (lower_ascii name)"

definition regrabIdentityKey :: "string \<Rightarrow> int \<Rightarrow> int \<Rightarrow> string \<Rightarrow> string" where
  "regrabIdentityKey arrName mediaID episodeID fallbackEntryName =
     (if arrName \<noteq> [] \<and> mediaID \<noteq> 0 then ''arr:'' @ arrName @ '':'' @ Itoa mediaID @ '':'' @ Itoa episodeID
      else ''name:'' @ normalizeCooldownKey fallbackEntryName)"

text \<open>The four ways \<^verbatim>\<open>checkAndRecord\<close> ends.\<close>

datatype guard_outcome = Refused | Duplicate | Tripped | Struck

text \<open>The body of \<^verbatim>\<open>checkAndRecord\<close> on the identity's record.\<close>

definition expireTerminal :: "int \<Rightarrow> regrabAttemptRecord \<Rightarrow> regrabAttemptRecord" where
  "expireTerminal now rec =
     (if terminal rec \<and> time_Sub now (terminalAt rec) \<ge> regrabGuardTerminalTTL
      then rec\<lparr>terminal := False, reason := [], loggedTerminal := False, attempts := []\<rparr> else rec)"

definition checkRecord :: "int \<Rightarrow> string \<Rightarrow> regrabAttemptRecord \<Rightarrow> guard_outcome \<times> regrabAttemptRecord" where
  "checkRecord now releaseName rec0 =
     (let rec = expireTerminal now rec0
      in if terminal rec then (Refused, rec)
         else if releaseName \<noteq> [] \<and> (case map_of (recentReleases rec) releaseName of
                                          Some seen \<Rightarrow> time_Sub now seen < regrabDedupeWindow | None \<Rightarrow> False)
         then (Duplicate, rec)
         else let live = filter (\<lambda>t. t > now - regrabGuardWindow) (attempts rec);
                  rec1 = rec\<lparr>attempts := live\<rparr>
              in if length live \<ge> regrabGuardMaxAttempts
                 then (Tripped, rec1\<lparr>terminal := True, terminalAt := now, reason := regrabGuardTerminalReason, loggedTerminal := True\<rparr>)
                 else let rec2 = rec1\<lparr>attempts := live @ [now]\<rparr>
                      in (Struck, if releaseName = [] then rec2
                                  else rec2\<lparr>recentReleases := AList.update releaseName now
                                              (filter (\<lambda>(name, t). \<not> time_Sub now t \<ge> regrabDedupeWindow) (recentReleases rec2))\<rparr>))"

definition checkAndRecord :: "int \<Rightarrow> bool \<Rightarrow> string \<Rightarrow> string \<Rightarrow> regrabGuard \<Rightarrow> (bool \<times> string \<times> bool) \<times> regrabGuard" where
  "checkAndRecord now put_ok identity releaseName g =
     (if identity = [] then ((True, [], False), g)
      else case checkRecord now releaseName (recordOf identity g) of
             (Refused, rec) \<Rightarrow> ((False, reason rec, False), putRecord identity rec g)
           | (Duplicate, rec) \<Rightarrow> ((True, [], False), putRecord identity rec g)
           | (Tripped, rec) \<Rightarrow> ((False, reason rec, True), persist put_ok identity (Some rec) (putRecord identity rec g))
           | (Struck, rec) \<Rightarrow> ((True, [], False), persist put_ok identity (Some rec) (putRecord identity rec g)))"

definition guard_clear :: "bool \<Rightarrow> string \<Rightarrow> regrabGuard \<Rightarrow> regrabGuard" where
  "guard_clear put_ok identity g =
     (if identity = [] then g else persist put_ok identity None (g\<lparr>records := (records g)(identity := None)\<rparr>))"

definition guard_state :: "string \<Rightarrow> regrabGuard \<Rightarrow> nat \<times> bool \<times> string" where
  "guard_state identity g =
     (case records g identity of None \<Rightarrow> (0, False, []) | Some rec \<Rightarrow> (length (attempts rec), terminal rec, reason rec))"

text \<open>The posting's identity, from the message identifiers of each file's segments; the hash is SHA-256.\<close>

definition first_ids :: "string list list \<Rightarrow> string list" where
  "first_ids files = concat (map (\<lambda>segs. case segs of [] \<Rightarrow> [] | m # _ \<Rightarrow> if m \<noteq> [] then [m] else []) files)"

definition nzbPostingIdentity :: "(bytes \<Rightarrow> bytes) \<Rightarrow> (string list list \<times> string list list) option \<Rightarrow> string" where
  "nzbPostingIdentity sha256 nzb =
     (case nzb of
        None \<Rightarrow> []
      | Some (par2Source, files) \<Rightarrow>
          let ids0 = first_ids par2Source;
              ids = (if ids0 = [] then first_ids files else ids0)
          in if ids = [] then []
             else ''posting:'' @ hex_encode (take 12 (sha256 (map (of_char :: char \<Rightarrow> byte) (strings_Join (sort ids) [CHR 0x0A])))))"

section \<open>Runs\<close>

datatype guard_op = Check string string | Keep string string string | Clear string | Restart

text \<open>A restart reads the history back into a new guard. The database accepts every write.\<close>

fun guard_step :: "int \<Rightarrow> guard_op \<Rightarrow> regrabGuard \<Rightarrow> regrabGuard" where
  "guard_step now (Check identity releaseName) g = snd (checkAndRecord now True identity releaseName g)"
| "guard_step now (Keep identity posting fromNZB) g = recordKeepRelease now True identity posting fromNZB g"
| "guard_step now (Clear identity) g = guard_clear True identity g"
| "guard_step now Restart g = attach now True (length (disk g)) (newRegrabGuard (disk g))"

text \<open>The times at which automatic re-grabs were counted against an identity since it was last cleared by hand.\<close>

fun strikes :: "string \<Rightarrow> int \<Rightarrow> guard_op \<Rightarrow> regrabGuard \<Rightarrow> int list \<Rightarrow> int list" where
  "strikes i now (Check j r) g H = (if j = i \<and> fst (checkRecord now r (recordOf i g)) = Struck then H @ [now] else H)"
| "strikes i now (Clear j) g H = (if j = i then [] else H)"
| "strikes i now _ g H = H"

fun guard_runs :: "string \<Rightarrow> (int \<times> guard_op) list \<Rightarrow> regrabGuard \<Rightarrow> int list \<Rightarrow> regrabGuard \<times> int list" where
  "guard_runs i [] g H = (g, H)"
| "guard_runs i ((now, oper) # evs) g H = guard_runs i evs (guard_step now oper g) (strikes i now oper g H)"

definition freshGuard :: regrabGuard where
  "freshGuard = attach 0 True 0 (newRegrabGuard [])"

section \<open>Windows\<close>

lemma time_Sub_less: "- 9223372036854775808 < w \<Longrightarrow> w \<le> 9223372036854775807 \<Longrightarrow> time_Sub t u < w \<longleftrightarrow> t - u < w"
  by (auto simp: time_Sub_def)

lemma window_less: "time_Sub now t < regrabGuardWindow \<longleftrightarrow> now - regrabGuardWindow < t"
  "time_Sub now t < regrabGuardTerminalTTL \<longleftrightarrow> now - regrabGuardTerminalTTL < t"
  using time_Sub_less [of regrabGuardWindow now t] time_Sub_less [of regrabGuardTerminalTTL now t]
  by (auto simp: regrabGuardWindow_def regrabGuardTerminalTTL_def)

lemma TTL_window: "regrabGuardWindow \<le> regrabGuardTerminalTTL" "0 < regrabGuardWindow"
  by (simp_all add: regrabGuardWindow_def regrabGuardTerminalTTL_def)

abbreviation after :: "int \<Rightarrow> int list \<Rightarrow> nat" where
  "after x ts \<equiv> length (filter (\<lambda>t. x < t) ts)"

text \<open>A history of strikes is covered by a record when the record still shows every strike that can matter:
  those of the last window, or, once terminal, none after the trip.\<close>

definition covers :: "int \<Rightarrow> int list \<Rightarrow> int list \<Rightarrow> bool \<Rightarrow> int \<Rightarrow> bool" where
  "covers now H as tm ta \<longleftrightarrow> (if tm then \<forall>h \<in> set H. h \<le> ta else \<forall>x \<ge> now - regrabGuardWindow. after x H \<le> after x as)"

abbreviation covers_rec :: "int \<Rightarrow> int list \<Rightarrow> regrabAttemptRecord \<Rightarrow> bool" where
  "covers_rec now H rec \<equiv> covers now H (attempts rec) (terminal rec) (terminalAt rec)"

definition covers_disk :: "int \<Rightarrow> int list \<Rightarrow> RegrabGuardRecord option \<Rightarrow> bool" where
  "covers_disk now H sr = (case sr of None \<Rightarrow> covers now H [] False 0 | Some r \<Rightarrow> covers now H (Attempts r) (Terminal r) (TerminalAt r))"

lemma covers_mono: "covers now H as tm ta \<Longrightarrow> now \<le> now' \<Longrightarrow> covers now' H as tm ta"
  by (auto simp: covers_def)

lemma covers_disk_mono: "covers_disk now H sr \<Longrightarrow> now \<le> now' \<Longrightarrow> covers_disk now' H sr"
  by (auto simp: covers_disk_def intro: covers_mono split: option.splits)

lemma after_live: "c \<le> x \<Longrightarrow> after x (filter (\<lambda>t. c < t) ts) = after x ts"
  by (induction ts) auto

lemma covers_live:
  assumes "covers now H as False ta"
  shows "covers now H (filter (\<lambda>t. now - regrabGuardWindow < t) as) False ta'"
  using assms by (simp add: covers_def after_live del: filter_filter)

lemma covers_expired:
  assumes "covers now H as True ta" "ta \<le> now - regrabGuardTerminalTTL"
  shows "covers now H bs False ta'"
proof -
  have "after x H = 0" if "now - regrabGuardWindow \<le> x" for x
    using assms that TTL_window by (auto simp: covers_def filter_empty_conv not_less)
  then show ?thesis by (simp add: covers_def)
qed

lemma covers_tm: "covers now H as False ta = covers now H as False ta'"
  by (simp add: covers_def)

lemma covers_expireTerminal: "covers_rec now H rec \<Longrightarrow> covers_rec now H (expireTerminal now rec)"
  using covers_expired [of now H "attempts rec" "terminalAt rec" "[]"] window_less(2) [of now "terminalAt rec"]
  by (auto simp: expireTerminal_def not_less)

lemma covers_load:
  assumes "covers now H (Attempts sr) (Terminal sr) (TerminalAt sr)"
  shows "covers_rec now H (loadRecord now sr)"
proof (cases "Terminal sr")
  case True
  then show ?thesis
    using assms covers_expired [of now H "Attempts sr" "TerminalAt sr"] window_less(2) [of now "TerminalAt sr"]
    by (cases "time_Sub now (TerminalAt sr) < regrabGuardTerminalTTL") (auto simp: loadRecord_def covers_def [of _ _ _ True])
next
  case False
  then show ?thesis using assms covers_live [of now H "Attempts sr"] by (auto simp: loadRecord_def window_less)
qed

text \<open>At most two strikes in any window.\<close>

definition sparse :: "int list \<Rightarrow> bool" where
  "sparse H \<longleftrightarrow> (\<forall>t. length (filter (\<lambda>h. t < h \<and> h \<le> t + regrabGuardWindow) H) \<le> regrabGuardMaxAttempts)"

lemma sparse_strike:
  assumes "sparse H" "covers now H as False ta" "length (filter (\<lambda>t. now - regrabGuardWindow < t) as) < regrabGuardMaxAttempts"
  shows "sparse (H @ [now])"
  unfolding sparse_def
proof
  fix t
  let ?W = regrabGuardWindow
  show "length (filter (\<lambda>h. t < h \<and> h \<le> t + ?W) (H @ [now])) \<le> regrabGuardMaxAttempts"
  proof (cases "t < now \<and> now \<le> t + ?W")
    case True
    have "length (filter (\<lambda>h. t < h \<and> h \<le> t + ?W) H) \<le> after t H" by (induction H) auto
    also have "\<dots> \<le> after t as" using assms(2) True by (auto simp: covers_def)
    also have "\<dots> \<le> length (filter (\<lambda>t. now - ?W < t) as)" using True by (induction as) auto
    finally show ?thesis using assms(3) True by simp
  next
    case False
    then show ?thesis using assms(1) by (auto simp: sparse_def)
  qed
qed

section \<open>The record through a check\<close>

lemma checkRecord_cases:
  assumes "checkRecord now r rec = (out, rec')"
  defines "e \<equiv> expireTerminal now rec" and "live \<equiv> filter (\<lambda>t. now - regrabGuardWindow < t) (attempts (expireTerminal now rec))"
  obtains (refused) "out = Refused" "rec' = e" "terminal e" | (dup) "out = Duplicate" "rec' = e" "\<not> terminal e"
    | (tripped) "out = Tripped" "terminal rec'" "terminalAt rec' = now" "reason rec' = regrabGuardTerminalReason"
    | (struck) "out = Struck" "\<not> terminal e" "length live < regrabGuardMaxAttempts" "attempts rec' = live @ [now]" "\<not> terminal rec'"
proof -
  let ?dup = "r \<noteq> [] \<and> (case map_of (recentReleases e) r of Some seen \<Rightarrow> time_Sub now seen < regrabDedupeWindow | None \<Rightarrow> False)"
  note cd = assms(1) [unfolded checkRecord_def Let_def, folded e_def live_def]
  show thesis
  proof (cases "terminal e")
    case True
    then show thesis using cd refused by simp
  next
    case nt: False
    show thesis
    proof (cases ?dup)
      case True
      then have "out = Duplicate" "rec' = e" using cd nt unfolding if_not_P [OF nt] if_P [OF True] by simp_all
      then show thesis using dup nt by blast
    next
      case False
      note c = cd [unfolded if_not_P [OF nt] if_not_P [OF False]]
      show thesis
      proof (cases "length live \<ge> regrabGuardMaxAttempts")
        case True
        then show thesis using c by (intro tripped) auto
      next
        case len: False
        then have "out = Struck" "attempts rec' = live @ [now]" "\<not> terminal rec'" using c nt by (auto split: if_splits)
        then show thesis using struck nt len by simp
      qed
    qed
  qed
qed

lemma checkRecord_covers:
  assumes "covers_rec now H rec" "checkRecord now r rec = (out, rec')" "\<forall>h \<in> set H. h \<le> now" "sparse H"
  shows "covers_rec now (if out = Struck then H @ [now] else H) rec' \<and> sparse (if out = Struck then H @ [now] else H)"
proof -
  let ?e = "expireTerminal now rec" and ?c = "now - regrabGuardWindow"
  let ?live = "filter (\<lambda>t. ?c < t) (attempts ?e)"
  note ce = covers_expireTerminal [OF assms(1)]
  consider (refused) "out = Refused" "rec' = ?e" | (dup) "out = Duplicate" "rec' = ?e"
    | (tripped) "out = Tripped" "terminal rec'" "terminalAt rec' = now"
    | (struck) "out = Struck" "\<not> terminal ?e" "length ?live < regrabGuardMaxAttempts" "attempts rec' = ?live @ [now]" "\<not> terminal rec'"
    using checkRecord_cases [OF assms(2)] by metis
  then show ?thesis
  proof cases
    case tripped
    then show ?thesis using assms(3,4) by (auto simp: covers_def)
  next
    case struck
    have c: "covers now H (attempts ?e) False 0" using ce struck(2) covers_tm by (metis (full_types))
    have "after x (H @ [now]) \<le> after x (?live @ [now])" if "?c \<le> x" for x
      using covers_live [OF c] that by (auto simp: covers_def)
    then show ?thesis using struck sparse_strike [OF assms(4) c struck(3)] by (auto simp: covers_def)
  qed (use ce assms(4) in auto)
qed

definition guard_ok :: "string \<Rightarrow> int \<Rightarrow> int list \<Rightarrow> regrabGuard \<Rightarrow> bool" where
  "guard_ok i now H g \<longleftrightarrow> attached g \<and> distinct (map fst (disk g)) \<and> sparse H \<and> (\<forall>h \<in> set H. h \<le> now) \<and>
     covers_rec now H (recordOf i g) \<and> covers_disk now H (map_of (disk g) i)"

lemma recordOf_put [simp]: "recordOf i (putRecord j rec g) = (if i = j then rec else recordOf i g)"
  by (simp add: recordOf_def putRecord_def)

lemma put_simps [simp]: "attached (putRecord j rec g) = attached g" "disk (putRecord j rec g) = disk g"
  by (simp_all add: putRecord_def)

lemma recordOf_persist [simp]: "recordOf i (persist ok j rec g) = recordOf i g"
  by (simp add: recordOf_def persist_def)

lemma persist_attached [simp]: "attached (persist ok j rec g) = attached g"
  by (simp add: persist_def)

lemma persist_distinct: "distinct (map fst (disk g)) \<Longrightarrow> distinct (map fst (disk (persist ok j rec g)))"
  by (auto simp: persist_def DeleteRegrabGuardRecord_def SaveRegrabGuardRecord_def distinct_update distinct_delete split: option.splits)

lemma persist_other: "j \<noteq> i \<Longrightarrow> map_of (disk (persist ok j rec g)) i = map_of (disk g) i"
  by (auto simp: persist_def DeleteRegrabGuardRecord_def SaveRegrabGuardRecord_def update_conv' delete_conv' toStorage_def split: option.splits)

lemma persist_same: "attached g \<Longrightarrow> i \<noteq> [] \<Longrightarrow>
   map_of (disk (persist True i (Some rec) g)) i = (if rec_empty rec then None else Some (toStorage rec i))"
  by (simp add: persist_def DeleteRegrabGuardRecord_def SaveRegrabGuardRecord_def update_conv' delete_conv' toStorage_def)

lemma covers_persist: "covers_rec now H rec \<Longrightarrow> covers_disk now H (if rec_empty rec then None else Some (toStorage rec i))"
  using covers_tm [of now H "attempts rec" "terminalAt rec" 0] by (auto simp: covers_disk_def toStorage_def rec_empty_def)

text \<open>An identity's history is not touched by the operations on other identities.\<close>

lemma checkAndRecord_other: "j \<noteq> i \<Longrightarrow> guard_ok i now H g \<Longrightarrow> guard_ok i now H (snd (checkAndRecord now' ok j r g))"
  by (auto simp: checkAndRecord_def guard_ok_def persist_distinct persist_other split: prod.splits guard_outcome.splits)

lemma guard_ok_check:
  assumes "guard_ok i now H g" "i \<noteq> []"
  shows "guard_ok i now (strikes i now (Check i r) g H) (snd (checkAndRecord now True i r g))"
proof -
  obtain out rec where c: "checkRecord now r (recordOf i g) = (out, rec)" by fastforce
  have g: "covers_rec now H (recordOf i g)" "\<forall>h \<in> set H. h \<le> now" "sparse H" "attached g" "distinct (map fst (disk g))"
    "covers_disk now H (map_of (disk g) i)" using assms(1) by (auto simp: guard_ok_def)
  note cr = checkRecord_covers [OF g(1) c g(2,3)]
  have d: "covers_disk now H' (map_of (disk (persist True i (Some rec) (putRecord i rec g))) i)" if "covers_rec now H' rec" for H'
    using covers_persist [OF that, of i] persist_same [of "putRecord i rec g" i rec] assms(2) g(4) by simp
  show ?thesis
    using c cr d g assms(2) by (cases out) (auto simp: checkAndRecord_def guard_ok_def persist_distinct)
qed

lemma guard_ok_keep:
  assumes "guard_ok i now H g"
  shows "guard_ok i now H (recordKeepRelease now True j p n g)"
proof (cases "j = [] \<or> p = []")
  case False
  define rec' where "rec' = (recordOf j g)\<lparr>keepRelease := AList.update p \<lparr>At = now, FromNZB = n\<rparr> (keep_live now (keepRelease (recordOf j g)))\<rparr>"
  have eq: "recordKeepRelease now True j p n g = persist True j (Some rec') (putRecord j rec' g)"
    using False by (simp add: recordKeepRelease_def rec'_def Let_def)
  have cov: "covers_rec now H rec'" if "j = i" using assms that by (simp add: guard_ok_def rec'_def)
  then have "covers_disk now H (map_of (disk (persist True j (Some rec') (putRecord j rec' g))) i)"
    using assms False persist_same [of "putRecord j rec' g" j rec'] persist_other [of j i True "Some rec'" "putRecord j rec' g"] covers_persist [of now H rec' i]
    by (cases "j = i") (auto simp: guard_ok_def)
  then show ?thesis using assms cov unfolding eq by (auto simp: guard_ok_def persist_distinct)
qed (use assms in \<open>auto simp: recordKeepRelease_def\<close>)

lemma guard_ok_clear:
  assumes "guard_ok i now H g" "i \<noteq> []"
  shows "guard_ok i now (if j = i then [] else H) (guard_clear True j g)"
proof (cases "j = []")
  case False
  let ?g = "g\<lparr>records := (records g)(j := None)\<rparr>"
  have r: "recordOf i ?g = (if j = i then newRecord else recordOf i g)" by (simp add: recordOf_def)
  have dk: "distinct (map fst (disk (persist True j None ?g)))" using assms by (intro persist_distinct) (simp add: guard_ok_def)
  show ?thesis
  proof (cases "j = i")
    case True
    then show ?thesis
      using False assms dk by (simp add: guard_clear_def guard_ok_def r sparse_def covers_def covers_disk_def split: option.splits)
  next
    case ne: False
    then show ?thesis using False assms dk persist_other [OF ne, of True None ?g] by (simp add: guard_clear_def guard_ok_def r)
  qed
qed (use assms in \<open>auto simp: guard_clear_def\<close>)

section \<open>Restarts\<close>

lemma load_fold:
  "distinct (map fst d) \<Longrightarrow>
   fold (\<lambda>(j, sr) rs. if E sr then rs else rs(j \<mapsto> L sr)) d rs i =
   (case map_of d i of None \<Rightarrow> rs i | Some sr \<Rightarrow> if E sr then rs i else Some (L sr))"
proof (induction d arbitrary: rs)
  case (Cons x d)
  obtain j sr where x: "x = (j, sr)" by fastforce
  have "map_of d j = None" using Cons.prems by (simp add: x map_of_eq_None_iff)
  then show ?case using Cons.IH [of "if E sr then rs else rs(j \<mapsto> L sr)"] Cons.prems by (auto simp: x split: option.splits)
qed simp

lemma delete_fold: "map_of (fold (DeleteRegrabGuardRecord True) js d) i = (if i \<in> set js \<and> i \<noteq> [] then None else map_of d i)"
  by (induction js arbitrary: d) (auto simp: DeleteRegrabGuardRecord_def delete_conv')

lemma delete_fold_distinct: "distinct (map fst d) \<Longrightarrow> distinct (map fst (fold (DeleteRegrabGuardRecord ok) js d))"
  by (induction js arbitrary: d) (auto simp: DeleteRegrabGuardRecord_def distinct_delete)

lemma restart_simps:
  fixes now :: int
  assumes "distinct (map fst (disk g))" "i \<noteq> []"
  defines "g' \<equiv> guard_step now Restart g"
  shows "attached g'" "distinct (map fst (disk g'))"
    "recordOf i g' = (case map_of (disk g) i of
       None \<Rightarrow> newRecord | Some sr \<Rightarrow> if rec_empty (loadRecord now sr) then newRecord else loadRecord now sr)"
    "map_of (disk g') i = (case map_of (disk g) i of
       None \<Rightarrow> None | Some sr \<Rightarrow> if rec_empty (loadRecord now sr) then None else Some sr)"
proof -
  let ?stale = "map fst (filter (\<lambda>(i, sr). rec_empty (loadRecord now sr)) (disk g))"
  have g': "g' = \<lparr>records = fold (\<lambda>(i, sr) rs. if rec_empty (loadRecord now sr) then rs else rs(i \<mapsto> loadRecord now sr)) (disk g) Map.empty,
      attached = True, disk = fold (DeleteRegrabGuardRecord True) ?stale (disk g)\<rparr>"
    by (simp add: g'_def attach_def newRegrabGuard_def Let_def)
  have st: "i \<in> set ?stale \<longleftrightarrow> (\<exists>sr. map_of (disk g) i = Some sr \<and> rec_empty (loadRecord now sr))"
    using map_of_eq_Some_iff [OF assms(1)] by (force simp: image_iff)
  show "attached g'" "distinct (map fst (disk g'))" by (simp_all add: g' delete_fold_distinct assms(1))
  show "recordOf i g' = (case map_of (disk g) i of
       None \<Rightarrow> newRecord | Some sr \<Rightarrow> if rec_empty (loadRecord now sr) then newRecord else loadRecord now sr)"
    using load_fold [OF assms(1), of "\<lambda>sr. rec_empty (loadRecord now sr)" "loadRecord now" Map.empty i]
    by (simp add: g' recordOf_def split: option.splits)
  show "map_of (disk g') i = (case map_of (disk g) i of
       None \<Rightarrow> None | Some sr \<Rightarrow> if rec_empty (loadRecord now sr) then None else Some sr)"
    using delete_fold [of ?stale "disk g" i] st assms(2) by (auto simp: g' split: option.splits)
qed

lemma guard_ok_restart:
  assumes "guard_ok i now H g" "i \<noteq> []"
  shows "guard_ok i now H (guard_step now Restart g)"
proof -
  have d: "distinct (map fst (disk g))" and c: "covers_disk now H (map_of (disk g) i)" using assms(1) by (auto simp: guard_ok_def)
  note r = restart_simps [OF d assms(2), of now]
  have new: "covers_rec now H newRecord = covers now H [] False 0" using covers_tm by (simp add: newRecord_def)
  have "covers_rec now H (recordOf i (guard_step now Restart g)) \<and> covers_disk now H (map_of (disk (guard_step now Restart g)) i)"
  proof (cases "map_of (disk g) i")
    case None
    then show ?thesis using c new by (simp add: r(3,4) covers_disk_def del: guard_step.simps)
  next
    case (Some sr)
    then have l: "covers_rec now H (loadRecord now sr)" using c covers_load by (simp add: covers_disk_def)
    show ?thesis
    proof (cases "rec_empty (loadRecord now sr)")
      case True
      then have "covers now H [] False 0" using l covers_tm [of now H "[]" 0] by (auto simp: rec_empty_def)
      then show ?thesis using Some True new by (simp add: r(3,4) covers_disk_def del: guard_step.simps)
    next
      case False
      then show ?thesis using Some l c by (simp add: r(3,4) del: guard_step.simps)
    qed
  qed
  then show ?thesis using r(1,2) assms(1) by (simp add: guard_ok_def del: guard_step.simps)
qed

lemma guard_ok_mono: "guard_ok i now H g \<Longrightarrow> now \<le> now' \<Longrightarrow> guard_ok i now' H g"
  by (auto simp: guard_ok_def intro: covers_mono covers_disk_mono)

lemma guard_ok_step:
  assumes "guard_ok i now H g" "i \<noteq> []"
  shows "guard_ok i now (strikes i now oper g H) (guard_step now oper g)"
proof (cases oper)
  case (Check j r)
  show ?thesis
  proof (cases "j = i")
    case True
    then show ?thesis using guard_ok_check [OF assms] by (simp add: Check)
  next
    case False
    then show ?thesis using checkAndRecord_other [OF False assms(1)] by (simp add: Check)
  qed
next
  case Restart
  then show ?thesis using guard_ok_restart [OF assms] by simp
qed (use assms guard_ok_keep guard_ok_clear in simp_all)

lemma guard_ok_runs:
  assumes "guard_ok i now H g" "i \<noteq> []" "sorted (now # map fst evs)"
  shows "\<exists>now'. guard_ok i now' (snd (guard_runs i evs g H)) (fst (guard_runs i evs g H))"
  using assms
proof (induction evs arbitrary: now H g)
  case (Cons ev evs)
  obtain t oper where ev: "ev = (t, oper)" by fastforce
  have "guard_ok i t (strikes i t oper g H) (guard_step t oper g)"
    using guard_ok_step [OF guard_ok_mono [OF Cons.prems(1)] Cons.prems(2)] Cons.prems(3) by (simp add: ev)
  then show ?case using Cons.IH [of t] Cons.prems by (simp add: ev)
qed auto

lemma guard_ok_fresh: "guard_ok i now [] freshGuard"
  by (simp add: guard_ok_def freshGuard_def attach_def newRegrabGuard_def sparse_def covers_def covers_disk_def split: option.splits)

text \<open>While the terminal mark lasts, in memory and on disk.\<close>

definition tripped_at :: "string \<Rightarrow> int \<Rightarrow> regrabGuard \<Rightarrow> bool" where
  "tripped_at i t g \<longleftrightarrow> attached g \<and> distinct (map fst (disk g)) \<and> terminal (recordOf i g) \<and> terminalAt (recordOf i g) = t \<and>
     (\<exists>sr. map_of (disk g) i = Some sr \<and> Terminal sr \<and> TerminalAt sr = t)"

lemma tripped_refuses:
  assumes "tripped_at i t g" "now < t + regrabGuardTerminalTTL"
  shows "checkRecord now r (recordOf i g) = (Refused, recordOf i g)"
proof -
  have "expireTerminal now (recordOf i g) = recordOf i g"
    using assms window_less(2) [of now t] by (auto simp: expireTerminal_def tripped_at_def)
  then show ?thesis using assms(1) by (simp add: checkRecord_def tripped_at_def)
qed

lemma tripped_step:
  assumes "tripped_at i t g" "now < t + regrabGuardTerminalTTL" "i \<noteq> []" "oper \<noteq> Clear i"
  shows "tripped_at i t (guard_step now oper g)"
proof (cases oper)
  case (Check j r)
  show ?thesis
  proof (cases "j = i")
    case True
    then have "guard_step now oper g = putRecord i (recordOf i g) g"
      using tripped_refuses [OF assms(1,2), of r] assms(3) by (simp add: Check checkAndRecord_def)
    then show ?thesis using assms(1) by (auto simp: tripped_at_def)
  next
    case False
    then show ?thesis using assms(1)
      by (auto simp: Check checkAndRecord_def tripped_at_def persist_distinct persist_other
          simp del: map_of_eq_Some_iff split: prod.splits guard_outcome.splits)
  qed
next
  case (Keep j p n)
  show ?thesis
  proof (cases "j = i")
    case True
    then show ?thesis using assms(1,3)
      by (auto simp: Keep recordKeepRelease_def Let_def tripped_at_def persist_distinct persist_same rec_empty_def toStorage_def
          simp del: map_of_eq_Some_iff)
  next
    case False
    then show ?thesis using assms(1) by (auto simp: Keep recordKeepRelease_def Let_def tripped_at_def persist_distinct persist_other
          simp del: map_of_eq_Some_iff)
  qed
next
  case (Clear j)
  then have "j \<noteq> i" using assms(4) by simp
  moreover from this have "recordOf i (g\<lparr>records := (records g)(j := None)\<rparr>) = recordOf i g" by (simp add: recordOf_def)
  ultimately show ?thesis
    using assms(1) persist_other [of j i True None "g\<lparr>records := (records g)(j := None)\<rparr>"]
      persist_distinct [of "g\<lparr>records := (records g)(j := None)\<rparr>" True j None]
    by (auto simp: Clear guard_clear_def tripped_at_def simp del: map_of_eq_Some_iff)
next
  case Restart
  obtain sr where sr: "map_of (disk g) i = Some sr" "Terminal sr" "TerminalAt sr = t" using assms(1) by (auto simp: tripped_at_def)
  have "terminal (loadRecord now sr)" "terminalAt (loadRecord now sr) = t"
    using sr assms(2) window_less(2) [of now t] by (auto simp: loadRecord_def)
  then show ?thesis
    using restart_simps [of g i now] assms(1,3) sr by (auto simp: Restart tripped_at_def rec_empty_def simp del: guard_step.simps)
qed

section \<open>Properties\<close>

text \<open>C25. At most two automatic re-grabs of a file count in any 24 hours. Whatever checks, keep-release
  marks, manual clears and restarts happen in between, on this file and on others, the re-grabs struck
  against one identity since it was last cleared by hand never fall three to a window.\<close>

theorem strikes_bounded:
  assumes "sorted (map fst evs)" "i \<noteq> []"
  shows "length (filter (\<lambda>h. t < h \<and> h \<le> t + regrabGuardWindow) (snd (guard_runs i evs freshGuard []))) \<le> regrabGuardMaxAttempts"
proof -
  obtain now where "sorted (now # map fst evs)"
    using assms(1) by (cases evs) auto
  then show ?thesis using guard_ok_runs [OF guard_ok_fresh assms(2)] by (auto simp: guard_ok_def sparse_def)
qed

theorem strikes_bounded_witness:
  "length (filter (\<lambda>h. 0 < h \<and> h \<le> 0 + regrabGuardWindow) (snd (guard_runs ''x'' [(1, Check ''x'' ''a''), (2, Check ''x'' ''b''), (3, Restart), (4, Check ''x'' ''c'')] freshGuard []))) \<le> regrabGuardMaxAttempts"
  by (rule strikes_bounded) simp_all

text \<open>C26. Once the guard trips on a file it refuses every automatic re-grab of it for seven days, whatever
  else happens and however often the process restarts, unless the file is cleared by hand.\<close>

theorem tripped_stays_refused:
  assumes "attached g" "distinct (map fst (disk g))" "i \<noteq> []" "checkAndRecord t True i r g = ((False, reason0, True), g')"
    and "\<forall>(now, oper) \<in> set evs. now < t + regrabGuardTerminalTTL \<and> oper \<noteq> Clear i" "now < t + regrabGuardTerminalTTL"
  shows "fst (fst (checkAndRecord now ok i r' (fst (guard_runs i evs g' H)))) = False"
proof -
  obtain out rec where c: "checkRecord t r (recordOf i g) = (out, rec)" by fastforce
  have o: "out = Tripped" "g' = persist True i (Some rec) (putRecord i rec g)"
    using assms(3,4) c by (auto simp: checkAndRecord_def split: guard_outcome.splits)
  have "terminal rec" "terminalAt rec = t" using checkRecord_cases [OF c] o(1) by blast+
  then have trip: "tripped_at i t g'"
    using assms(1-3) persist_same [of "putRecord i rec g" i rec] by (auto simp: o(2) tripped_at_def persist_distinct rec_empty_def toStorage_def)
  have "tripped_at i t (fst (guard_runs i evs g' H))"
    using trip assms(5)
  proof (induction evs arbitrary: g' H)
    case (Cons ev evs)
    obtain n oper where ev: "ev = (n, oper)" by fastforce
    then show ?case using Cons.IH [OF tripped_step [OF Cons.prems(1) _ assms(3)]] Cons.prems(2) by auto
  qed simp
  from tripped_refuses [OF this assms(6), of r'] show ?thesis using assms(3) by (simp add: checkAndRecord_def)
qed

definition twice_struck :: regrabGuard where
  "twice_struck = \<lparr>records = [''x'' \<mapsto> newRecord\<lparr>attempts := [1, 2]\<rparr>], attached = True, disk = []\<rparr>"

lemma third_trips: "fst (checkAndRecord 3 True ''x'' ''c'' twice_struck) = (False, regrabGuardTerminalReason, True)"
  by (simp add: twice_struck_def checkAndRecord_def checkRecord_def recordOf_def newRecord_def expireTerminal_def Let_def
      regrabGuardWindow_def regrabGuardMaxAttempts_def)

theorem tripped_stays_refused_witness:
  "fst (fst (checkAndRecord 9 True ''x'' ''d'' (guard_step 5 Restart (snd (checkAndRecord 3 True ''x'' ''c'' twice_struck))))) = False"
proof -
  have c: "checkAndRecord 3 True ''x'' ''c'' twice_struck =
      ((False, regrabGuardTerminalReason, True), snd (checkAndRecord 3 True ''x'' ''c'' twice_struck))"
    using third_trips by (metis prod.collapse)
  show ?thesis
    using tripped_stays_refused [of twice_struck "''x''" 3 "''c''" _ _ "[(5, Restart)]" 9 True "''d''" "[]", OF _ _ _ c]
    by (simp add: twice_struck_def regrabGuardTerminalTTL_def)
qed

text \<open>Identities built from an Arr record tell files apart, and from those built from a name.\<close>

lemma colon_split: "a @ '':'' @ b = c @ '':'' @ d \<Longrightarrow> CHR '':'' \<notin> set b \<Longrightarrow> CHR '':'' \<notin> set d \<Longrightarrow> a = c \<and> b = d"
proof (induction a arbitrary: c)
  case Nil
  then show ?case by (cases c) auto
next
  case (Cons x a)
  then show ?case by (cases c) auto
qed

lemma regrabIdentityKey_inj:
  assumes "arr \<noteq> []" "media \<noteq> 0" "arr' \<noteq> []" "media' \<noteq> 0"
    and "regrabIdentityKey arr media ep nm = regrabIdentityKey arr' media' ep' nm'"
  shows "arr = arr' \<and> media = media' \<and> ep = ep'"
proof -
  have "(arr @ '':'' @ Itoa media) @ '':'' @ Itoa ep = (arr' @ '':'' @ Itoa media') @ '':'' @ Itoa ep'"
    using assms by (simp add: regrabIdentityKey_def)
  from colon_split [OF this Itoa_no_colon Itoa_no_colon]
  have "arr @ '':'' @ Itoa media = arr' @ '':'' @ Itoa media'" "ep = ep'" by (auto simp: Itoa_inj)
  then show ?thesis using colon_split [OF _ Itoa_no_colon Itoa_no_colon, of arr media arr' media'] by (simp add: Itoa_inj)
qed

end
