(* ===== verification/Par2_Backoff.thy ===== *)
theory Par2_Backoff
  imports Go_Strings
begin

text \<open>
  When a failed PAR2 repair may be tried again: \<^verbatim>\<open>src/pkg/manager/par2_backoff.go\<close>, with the persisted state of
  \<^verbatim>\<open>src/pkg/storage/par2_repair_state.go\<close>. An error is what the classification asks of it: the sentinels
  \<^verbatim>\<open>errors.Is\<close> finds in its chain, whether it is an article-not-found error, and its message. Times and
  durations are nanoseconds; the clock and the database's answers are arguments.
\<close>

section \<open>Definitions\<close>

abbreviation minute :: int where "minute \<equiv> 60 * 1000000000"

definition par2BackoffBase :: int where "par2BackoffBase = 5 * minute"
definition par2BackoffCap :: int where "par2BackoffCap = 6 * 60 * minute"
definition par2BackoffMaxShift :: int where "par2BackoffMaxShift = 11"
definition par2SuspectAttemptLimit :: int where "par2SuspectAttemptLimit = 3"

definition par2BackoffDuration :: "int \<Rightarrow> int" where
  "par2BackoffDuration attemptCount =
     (if attemptCount \<le> 0 then 0
      else let shift0 = i64 (attemptCount - 1);
               shift = (if shift0 > par2BackoffMaxShift then par2BackoffMaxShift else shift0);
               d = i64 (par2BackoffBase * sint (push_bit (nat shift) (1 :: u64)))
           in if d \<le> 0 \<or> d > par2BackoffCap then par2BackoffCap else d)"

record par2FailureClass =
  fc_terminal :: bool
  fc_reason :: string
  fc_suspect :: bool

definition class_name :: "par2FailureClass \<Rightarrow> string" where
  "class_name c =
     (if fc_terminal c \<and> fc_suspect c then ''terminal_after_suspect''
      else if fc_terminal c then ''terminal''
      else if fc_suspect c then ''suspect''
      else ''transient'')"

definition par2TerminalSubstrings :: "string list" where
  "par2TerminalSubstrings =
    [''no PAR2 data available'',
     ''no PAR2 data and backfill failed'',
     ''no PAR2 recovery volumes retained'',
     ''failed to fetch any PAR2 file'',
     ''no posted file matched the PAR2 recovery set'',
     ''match posted files:'',
     ''is not part of any matched posted file'',
     ''no posted-file fetcher for file'',
     ''map dead segment'',
     ''exceeds the'',
     ''recovery slices fetched/available'',
     ''recovery slice'',
     ''parse PAR2 index'',
     ''could not be tied to one of the release'' @ [CHR 0x27] @ ''s'',
     ''more damage than recorded'',
     ''confirmed missing across every provider'',
     ''corrupt on every provider'']"

definition par2SuspectSubstrings :: "string list" where
  "par2SuspectSubstrings =
    [''decoded shorter than their recorded size'',
     ''failed their PAR2 checksum'']"

record repair_failure =
  deadline_or_canceled :: bool
  checksum_mismatch :: bool
  intact_abort :: bool
  article_not_found :: bool
  message :: string

definition transientClass :: par2FailureClass where
  "transientClass = \<lparr>fc_terminal = False, fc_reason = [], fc_suspect = False\<rparr>"

definition suspectClass :: "string \<Rightarrow> par2FailureClass" where
  "suspectClass why = \<lparr>fc_terminal = False, fc_reason = why, fc_suspect = True\<rparr>"

definition terminalClass :: "string \<Rightarrow> par2FailureClass" where
  "terminalClass why = \<lparr>fc_terminal = True, fc_reason = why, fc_suspect = False\<rparr>"

definition classifyPar2Failure :: "repair_failure option \<Rightarrow> par2FailureClass" where
  "classifyPar2Failure err =
     (case err of
        None \<Rightarrow> transientClass
      | Some e \<Rightarrow>
          if deadline_or_canceled e then transientClass
          else if checksum_mismatch e then
            (if intact_abort e
             then suspectClass ''intact slices failed their own checksum (CRC canary) - offset mapping or a mis-served copy''
             else terminalClass (''checksum verification failed (CRC canary) - retained recovery/intact data can'' @ [CHR 0x27] @ ''t be trusted''))
          else if article_not_found e then terminalClass ''source article(s) confirmed missing across every provider''
          else let msg = message e
               in if strings_Contains msg ''(transient:'' then transientClass
                  else if strings_Contains msg ''packet MD5 mismatch'' then transientClass
                  else if \<not> strings_Contains msg ''confirmed missing across every provider'' \<and>
                          \<not> strings_Contains msg ''corrupt on every provider'' \<and>
                          list_ex (strings_Contains msg) par2SuspectSubstrings
                  then suspectClass msg
                  else if list_ex (strings_Contains msg) par2TerminalSubstrings then terminalClass msg
                  else transientClass)"

definition par2OutcomeClass :: "repair_failure option \<Rightarrow> int \<Rightarrow> par2FailureClass" where
  "par2OutcomeClass err tries =
     (let cls = classifyPar2Failure err
      in if fc_suspect cls \<and> tries \<ge> par2SuspectAttemptLimit
         then cls\<lparr>fc_terminal := True, fc_reason := fc_reason cls @ '' (after '' @ Itoa tries @ '' attempts)''\<rparr>
         else cls)"

text \<open>The zero time is \<^term>\<open>None\<close>.\<close>

record Par2RepairState =
  NzbID :: string
  LastAttempt :: "int option"
  AttemptCount :: int
  SuspectCount :: int
  LastError :: string
  st_Terminal :: bool
  TerminalReason :: string
  DeadSegmentsDiscovered :: int
  NextRetryAt :: "int option"

type_synonym repair_states = "string \<rightharpoonup> Par2RepairState"

text \<open>The accessors of the store; \<open>read_ok\<close> and \<open>write_ok\<close> are whether the database does its part. A read that
  fails and an absent state are the same to every caller.\<close>

definition SavePar2RepairState :: "bool \<Rightarrow> Par2RepairState \<Rightarrow> repair_states \<Rightarrow> repair_states" where
  "SavePar2RepairState write_ok st db = (if NzbID st = [] then db else if write_ok then db(NzbID st \<mapsto> st) else db)"

definition GetPar2RepairState :: "bool \<Rightarrow> string \<Rightarrow> repair_states \<Rightarrow> Par2RepairState option" where
  "GetPar2RepairState read_ok nzbID db =
     (if nzbID = [] then None
      else if \<not> read_ok then None
      else case db nzbID of
             None \<Rightarrow> None
           | Some st \<Rightarrow> Some (if NzbID st = [] then st\<lparr>NzbID := nzbID\<rparr> else st))"

definition DeletePar2RepairState :: "bool \<Rightarrow> string \<Rightarrow> repair_states \<Rightarrow> repair_states" where
  "DeletePar2RepairState write_ok nzbID db = (if nzbID = [] then db else if write_ok then db(nzbID := None) else db)"

definition par2ShouldAutoEnqueue :: "bool \<Rightarrow> int \<Rightarrow> string \<Rightarrow> repair_states \<Rightarrow> bool" where
  "par2ShouldAutoEnqueue read_ok now nzbID db =
     (case GetPar2RepairState read_ok nzbID db of
        None \<Rightarrow> True
      | Some st \<Rightarrow>
          if st_Terminal st then False
          else case NextRetryAt st of None \<Rightarrow> True | Some t \<Rightarrow> \<not> now < t)"

definition newRepairState :: "string \<Rightarrow> Par2RepairState" where
  "newRepairState nzbID =
     \<lparr>NzbID = nzbID, LastAttempt = None, AttemptCount = 0, SuspectCount = 0, LastError = [], st_Terminal = False,
      TerminalReason = [], DeadSegmentsDiscovered = 0, NextRetryAt = None\<rparr>"

text \<open>\<open>now\<close> and \<open>now'\<close> are the two readings of the clock; the last component says whether the entry's health is
  marked dirty.\<close>

definition recordPar2Outcome ::
  "bool \<Rightarrow> bool \<Rightarrow> int \<Rightarrow> int \<Rightarrow> string \<Rightarrow> repair_failure option \<Rightarrow> int \<Rightarrow> repair_states \<Rightarrow> par2FailureClass \<times> repair_states \<times> bool" where
  "recordPar2Outcome read_ok write_ok now now' nzbID err dead db =
     (case err of
        None \<Rightarrow>
          (transientClass,
           (if GetPar2RepairState read_ok nzbID db \<noteq> None then DeletePar2RepairState write_ok nzbID db else db), False)
      | Some e \<Rightarrow>
          let st0 = (case GetPar2RepairState read_ok nzbID db of Some st \<Rightarrow> st | None \<Rightarrow> newRepairState nzbID);
              st1 = st0\<lparr>LastAttempt := Some now, AttemptCount := i64 (AttemptCount st0 + 1), LastError := message e,
                        DeadSegmentsDiscovered := dead,
                        SuspectCount := (if fc_suspect (classifyPar2Failure err) then i64 (SuspectCount st0 + 1) else SuspectCount st0)\<rparr>;
              cls = par2OutcomeClass err (SuspectCount st1);
              st2 = (if fc_terminal cls
                     then st1\<lparr>st_Terminal := True, TerminalReason := fc_reason cls, NextRetryAt := None\<rparr>
                     else st1\<lparr>st_Terminal := False, TerminalReason := [], NextRetryAt := Some (now' + par2BackoffDuration (AttemptCount st1))\<rparr>)
          in (cls, SavePar2RepairState write_ok st2 db, fc_terminal cls))"

section \<open>The delay\<close>

lemma push_one: "k \<le> 11 \<Longrightarrow> sint (push_bit k (1 :: u64)) = 2 ^ k"
proof -
  have "\<forall>k \<in> set [0..<12]. sint (push_bit k (1 :: u64)) = 2 ^ k" by (simp add: upt_rec push_bit_eq_mult)
  then show "k \<le> 11 \<Longrightarrow> ?thesis" by simp
qed

text \<open>The delay before the next automatic attempt after \<open>n\<close> failures is the base doubled \<open>n - 1\<close> times, never
  more than the cap: the shift, the product and their overflow guards compute exactly that for every positive
  count, and no count gives a negative delay.\<close>

lemma backoff_capped_doubling:
  assumes "0 < n" "n \<le> max_i64"
  shows "par2BackoffDuration n = min par2BackoffCap (par2BackoffBase * 2 ^ nat (n - 1))"
proof (cases "n - 1 \<le> 11")
  case True
  define p where "p = (2::int) ^ nat (n - 1)"
  have sh: "i64 (n - 1) = n - 1" using assms by (intro i64_id) auto
  have k: "nat (n - 1) \<le> 11" using True by simp
  have "p \<le> 2 ^ 11" unfolding p_def using k by (intro power_increasing) auto
  then have "p \<le> 2048" by simp
  moreover have "1 \<le> p" by (simp add: p_def)
  ultimately have "i64 (par2BackoffBase * p) = par2BackoffBase * p" "0 < par2BackoffBase * p"
    by (auto simp: par2BackoffBase_def intro!: i64_id)
  then show ?thesis
    using assms(1) True sh push_one [OF k]
    by (auto simp: par2BackoffDuration_def par2BackoffMaxShift_def Let_def p_def [symmetric] min_def)
next
  case False
  have sh: "i64 (n - 1) = n - 1" using assms by (intro i64_id) auto
  have "(2::int) ^ 12 \<le> 2 ^ nat (n - 1)" using False by (intro power_increasing) auto
  then have "par2BackoffCap \<le> par2BackoffBase * 2 ^ nat (n - 1)" by (simp add: par2BackoffCap_def par2BackoffBase_def)
  moreover have "par2BackoffDuration n = par2BackoffCap"
    using assms(1) False sh push_one [of 11]
    by (simp add: par2BackoffDuration_def par2BackoffMaxShift_def par2BackoffBase_def par2BackoffCap_def Let_def i64_id)
  ultimately show ?thesis by simp
qed

section \<open>The recorded outcomes\<close>

text \<open>One failed attempt: the two clock readings, the error and the number of dead segments it found.\<close>

type_synonym attempt = "int \<times> int \<times> repair_failure \<times> int"

definition record_failure :: "string \<Rightarrow> attempt \<Rightarrow> repair_states \<Rightarrow> repair_states" where
  "record_failure nzbID a db =
     (case a of (now, now', e, dead) \<Rightarrow> fst (snd (recordPar2Outcome True True now now' nzbID (Some e) dead db)))"

definition suspects :: "attempt list \<Rightarrow> int" where
  "suspects as = int (length (filter (\<lambda>(now, now', e, dead). fc_suspect (classifyPar2Failure (Some e))) as))"

lemma suspects_simps [simp]:
  "suspects [] = 0"
  "suspects (as @ [(now, now', e, dead)]) = suspects as + (if fc_suspect (classifyPar2Failure (Some e)) then 1 else 0)"
  by (simp_all add: suspects_def)

lemma suspects_bound: "0 \<le> suspects as \<and> suspects as \<le> int (length as)"
  by (simp add: suspects_def)

lemma Get_fresh: "db nzbID = None \<Longrightarrow> GetPar2RepairState ok nzbID db = None"
  by (simp add: GetPar2RepairState_def)

lemma Get_saved:
  "nzbID \<noteq> [] \<Longrightarrow> db nzbID = Some st \<Longrightarrow> NzbID st = nzbID \<Longrightarrow> GetPar2RepairState True nzbID db = Some st"
  by (simp add: GetPar2RepairState_def)

text \<open>What the store holds after the failures \<open>as\<close> since the state was last cleared.\<close>

definition tracks :: "string \<Rightarrow> attempt list \<Rightarrow> repair_states \<Rightarrow> bool" where
  "tracks nzbID as db \<longleftrightarrow>
     (if as = [] then db nzbID = None
      else \<exists>st. db nzbID = Some st \<and> NzbID st = nzbID \<and> AttemptCount st = int (length as) \<and> SuspectCount st = suspects as)"

lemma tracks_read:
  assumes "nzbID \<noteq> []" "tracks nzbID as db"
  obtains st where "(case GetPar2RepairState True nzbID db of Some st \<Rightarrow> st | None \<Rightarrow> newRepairState nzbID) = st"
    "NzbID st = nzbID" "AttemptCount st = int (length as)" "SuspectCount st = suspects as"
proof (cases "as = []")
  case True
  then show thesis using assms that [of "newRepairState nzbID"] by (simp add: tracks_def Get_fresh newRepairState_def)
next
  case False
  then show thesis using assms that by (auto simp: tracks_def Get_saved)
qed

text \<open>The outcome of the next failure, in full.\<close>

lemma recordPar2Outcome_failure:
  assumes "nzbID \<noteq> []" "tracks nzbID as db" "int (length as) < max_i64"
    and as': "as' = as @ [(now, now', e, dead)]" and c: "c = par2OutcomeClass (Some e) (suspects as')"
  obtains st where "recordPar2Outcome True True now now' nzbID (Some e) dead db = (c, db(nzbID \<mapsto> st), fc_terminal c)"
    "NzbID st = nzbID" "AttemptCount st = int (length as')" "SuspectCount st = suspects as'" "st_Terminal st = fc_terminal c"
    "NextRetryAt st = (if fc_terminal c then None else Some (now' + par2BackoffDuration (int (length as'))))"
    "TerminalReason st = (if fc_terminal c then fc_reason c else [])"
proof -
  obtain st where st: "(case GetPar2RepairState True nzbID db of Some st \<Rightarrow> st | None \<Rightarrow> newRepairState nzbID) = st"
    "NzbID st = nzbID" "AttemptCount st = int (length as)" "SuspectCount st = suspects as"
    using tracks_read [OF assms(1,2)] .
  have n: "i64 (int (length as) + 1) = int (length as')" "i64 (suspects as + 1) = suspects as + 1"
    using assms(3) suspects_bound [of as] i64_id [of "int (length as) + 1"] i64_id [of "suspects as + 1"] by (simp_all add: as')
  have s: "(if fc_suspect (classifyPar2Failure (Some e)) then i64 (suspects as + 1) else suspects as) = suspects as'"
    by (simp add: as' n)
  define st1 where "st1 = st\<lparr>LastAttempt := Some now, AttemptCount := int (length as'), LastError := message e,
    DeadSegmentsDiscovered := dead, SuspectCount := suspects as'\<rparr>"
  define st2 where "st2 = (if fc_terminal c then st1\<lparr>st_Terminal := True, TerminalReason := fc_reason c, NextRetryAt := None\<rparr>
    else st1\<lparr>st_Terminal := False, TerminalReason := [], NextRetryAt := Some (now' + par2BackoffDuration (int (length as')))\<rparr>)"
  have id: "NzbID st2 = nzbID" by (simp add: st2_def st1_def st)
  have f: "AttemptCount st1 = int (length as')" "SuspectCount st1 = suspects as'" by (simp_all add: st1_def)
  have "recordPar2Outcome True True now now' nzbID (Some e) dead db = (c, SavePar2RepairState True st2 db, fc_terminal c)"
    unfolding recordPar2Outcome_def option.case Let_def st n(1) s st1_def [symmetric] f c [symmetric] st2_def [symmetric] ..
  then have "recordPar2Outcome True True now now' nzbID (Some e) dead db = (c, db(nzbID \<mapsto> st2), fc_terminal c)"
    using assms(1) by (simp add: SavePar2RepairState_def id)
  then show thesis by (rule that) (simp_all add: st2_def st1_def st)
qed

lemma tracks_step:
  assumes "nzbID \<noteq> []" "tracks nzbID as db" "int (length as) < max_i64"
  shows "tracks nzbID (as @ [a]) (record_failure nzbID a db) \<and>
    (\<forall>nzb. nzb \<noteq> nzbID \<longrightarrow> record_failure nzbID a db nzb = db nzb)"
proof -
  obtain now now' e dead where a: "a = (now, now', e, dead)" by (cases a)
  show ?thesis
    by (rule recordPar2Outcome_failure [OF assms, of _ now now' e dead, OF refl refl])
      (simp add: a record_failure_def tracks_def del: suspects_simps)
qed

lemma tracks_history:
  "nzbID \<noteq> [] \<Longrightarrow> db nzbID = None \<Longrightarrow> int (length as) \<le> max_i64 \<Longrightarrow>
    tracks nzbID as (fold (record_failure nzbID) as db) \<and>
    (\<forall>nzb. nzb \<noteq> nzbID \<longrightarrow> fold (record_failure nzbID) as db nzb = db nzb)"
proof (induction as rule: rev_induct)
  case Nil
  then show ?case by (simp add: tracks_def)
next
  case (snoc a as)
  then show ?case using tracks_step [of nzbID as _ a] by simp
qed

text \<open>C27. After any run of failed attempts that starts with no recorded state, the next failure is terminal exactly
  when its error is, or when it is suspect and at least the third suspect failure of the run - however many
  transient failures lie between. Terminal, no automatic attempt is ever admitted again; otherwise automatic
  attempts are admitted exactly from the second clock reading plus the backoff for the whole number of failures
  on. A success clears the record, so that attempts are admitted at once, and no step touches another release.\<close>

theorem retry_gate:
  assumes "nzbID \<noteq> []" "db nzbID = None" "int (length as) < max_i64"
    and "recordPar2Outcome True True now now' nzbID (Some e) dead (fold (record_failure nzbID) as db) = (c, db', dirty)"
  shows "(fc_terminal c \<longleftrightarrow> fc_terminal (classifyPar2Failure (Some e)) \<or>
            fc_suspect (classifyPar2Failure (Some e)) \<and> 3 \<le> suspects (as @ [(now, now', e, dead)])) \<and>
    (dirty \<longleftrightarrow> fc_terminal c) \<and>
    (\<forall>t. par2ShouldAutoEnqueue True t nzbID db' \<longleftrightarrow>
            \<not> fc_terminal c \<and> now' + par2BackoffDuration (int (length as) + 1) \<le> t) \<and>
    (\<forall>t. par2ShouldAutoEnqueue True t nzbID (fst (snd (recordPar2Outcome True True now now' nzbID None dead db')))) \<and>
    (\<forall>nzb. nzb \<noteq> nzbID \<longrightarrow> db' nzb = db nzb)"
proof -
  define as' where "as' = as @ [(now, now', e, dead)]"
  define c' where "c' = par2OutcomeClass (Some e) (suspects as')"
  have tr: "tracks nzbID as (fold (record_failure nzbID) as db)"
    and other: "\<forall>nzb. nzb \<noteq> nzbID \<longrightarrow> fold (record_failure nzbID) as db nzb = db nzb"
    using tracks_history assms(1-3) by simp_all
  obtain st where st: "recordPar2Outcome True True now now' nzbID (Some e) dead (fold (record_failure nzbID) as db)
      = (c', (fold (record_failure nzbID) as db)(nzbID \<mapsto> st), fc_terminal c')"
    "NzbID st = nzbID" "st_Terminal st = fc_terminal c'"
    "NextRetryAt st = (if fc_terminal c' then None else Some (now' + par2BackoffDuration (int (length as'))))"
    using recordPar2Outcome_failure [OF assms(1) tr assms(3) as'_def c'_def] by metis
  have r: "c = c'" "db' = (fold (record_failure nzbID) as db)(nzbID \<mapsto> st)" "dirty = fc_terminal c'"
    using assms(4) st(1) by auto
  have get: "GetPar2RepairState True nzbID db' = Some st" using assms(1) st(2) by (simp add: r Get_saved)
  have cls: "fc_terminal c \<longleftrightarrow> fc_terminal (classifyPar2Failure (Some e)) \<or>
      fc_suspect (classifyPar2Failure (Some e)) \<and> 3 \<le> suspects as'"
    by (auto simp: r c'_def par2OutcomeClass_def Let_def par2SuspectAttemptLimit_def)
  have gate: "par2ShouldAutoEnqueue True t nzbID db' \<longleftrightarrow> \<not> fc_terminal c \<and> now' + par2BackoffDuration (int (length as) + 1) \<le> t" for t
    using get st(3,4) by (auto simp: par2ShouldAutoEnqueue_def r as'_def add.commute)
  have cleared: "fst (snd (recordPar2Outcome True True now now' nzbID None dead db')) nzbID = None"
    using assms(1) by (simp add: recordPar2Outcome_def get DeletePar2RepairState_def)
  show ?thesis using cls gate cleared by (simp add: as'_def r other par2ShouldAutoEnqueue_def Get_fresh)
qed

theorem retry_gate_witness:
  "let e = \<lparr>deadline_or_canceled = False, checksum_mismatch = True, intact_abort = True, article_not_found = False, message = ''slice 7''\<rparr>;
       late = \<lparr>deadline_or_canceled = True, checksum_mismatch = False, intact_abort = False, article_not_found = False, message = ''deadline''\<rparr>;
       db = fold (record_failure ''nzb'') [(0, 1, e, 1), (2, 3, late, 0), (4, 5, e, 1)] Map.empty
   in par2ShouldAutoEnqueue True (7 + 40 * minute) ''nzb'' (fst (snd (recordPar2Outcome True True 6 7 ''nzb'' (Some late) 0 db))) \<and>
      fc_terminal (fst (recordPar2Outcome True True 6 7 ''nzb'' (Some e) 1 db))"
proof -
  define e where "e = \<lparr>deadline_or_canceled = False, checksum_mismatch = True, intact_abort = True, article_not_found = False, message = ''slice 7''\<rparr>"
  define late where "late = \<lparr>deadline_or_canceled = True, checksum_mismatch = False, intact_abort = False, article_not_found = False, message = ''deadline''\<rparr>"
  define as where "as = [(0::int, 1::int, e, 1::int), (2, 3, late, 0), (4, 5, e, 1)]"
  define db where "db = fold (record_failure ''nzb'') as Map.empty"
  have cls: "classifyPar2Failure (Some late) = transientClass" "fc_suspect (classifyPar2Failure (Some e))"
    by (simp_all add: classifyPar2Failure_def late_def e_def suspectClass_def)
  have n: "suspects (as @ [(6, 7, e, 1)]) = 3" "int (length as) = 3"
    using cls by (simp_all add: suspects_def as_def transientClass_def)
  have d: "par2BackoffDuration 4 = 40 * minute"
    by (simp add: par2BackoffDuration_def par2BackoffMaxShift_def par2BackoffBase_def par2BackoffCap_def i64_id push_one)
  obtain c db' dirty where r: "recordPar2Outcome True True 6 7 ''nzb'' (Some e) 1 db = (c, db', dirty)" by (rule prod_cases3)
  obtain c2 db2 dirty2 where r2: "recordPar2Outcome True True 6 7 ''nzb'' (Some late) 0 db = (c2, db2, dirty2)" by (rule prod_cases3)
  have "fc_terminal c" using retry_gate [of "''nzb''" Map.empty as 6 7 e 1 c db' dirty] r cls n by (simp add: db_def)
  moreover have "par2ShouldAutoEnqueue True (7 + 40 * minute) ''nzb'' db2"
    using retry_gate [of "''nzb''" Map.empty as 6 7 late 0 c2 db2 dirty2] r2 cls n d by (simp add: db_def transientClass_def)
  ultimately show ?thesis using r r2 by (simp add: Let_def e_def late_def db_def as_def)
qed

end
