(* ===== verification/Byte_Codec.thy ===== *)
theory Byte_Codec
  imports Prelude
begin

text \<open>
  The byte writer and byte reader of \<^verbatim>\<open>src/pkg/usenet/nzbcodec.go\<close>, with the variable-length integers of the
  standard library's \<^verbatim>\<open>encoding/binary\<close> they are built on. A writer method is the bytes it appends. A reader
  method takes the reader and returns an error or a value with the advanced reader; indexing and slicing outside
  the buffer is the error \<open>CodecPanic\<close>. A Go string is its bytes, a \<^verbatim>\<open>float64\<close> its bit pattern.

  Two relations carry the proofs about the codec built from these methods: \<open>reads p w v\<close>, that \<open>p\<close> reads \<open>v\<close> from
  the bytes \<open>w\<close> wherever they stand in a buffer, and \<open>safe p\<close>, that \<open>p\<close> never panics.
\<close>

section \<open>Definitions\<close>

datatype codec_error =
    BadUvarint int | BadVarint int | CountExceeds string u64 u64 | SpanOutOfRange | SkipOutOfRange | BoolOutOfRange
  | FloatOutOfRange | MatchCountImplausible u64 | MatchIDOutOfRange | BitsetImplausible u64 | BitsetOutOfRange
  | NotV2 | HeaderRegionOutOfRange | SegRegionOutOfRange | DecompressHeader | DecompressSegMeta | DecompressMsgIDs
  | SegmentCountExceeds nat u64 | VolumeOrderCount u64 nat | SegmentsCannotFit int int | GroupIndexOutOfRange u64
  | SampleAmbiguousName | EmptyMetaFile | CodecPanic

subsection \<open>Writing\<close>

text \<open>\<^verbatim>\<open>binary.AppendUvarint\<close>: seven bits a byte, least significant first, the top bit set on all but the last.\<close>

lemma unat_drop7: "unat (drop_bit 7 (v :: u64)) = unat v div 128"
  by (simp only: unat_drop_bit_eq) (simp add: drop_bit_eq_div)

function uvarint_bytes :: "u64 \<Rightarrow> bytes" where
  "uvarint_bytes v = (if v \<ge> 0x80 then (ucast v OR 0x80) # uvarint_bytes (drop_bit 7 v) else [ucast v])"
  by pat_completeness auto
termination
proof (relation "measure unat")
  fix v :: u64
  assume "0x80 \<le> v"
  then have "0 < unat v" by (simp add: word_le_nat_alt)
  then show "(drop_bit 7 v, v) \<in> measure unat" by (simp add: unat_drop7)
qed simp

declare uvarint_bytes.simps [simp del]

text \<open>\<^verbatim>\<open>binary.AppendVarint\<close>: the sign folded into the lowest bit.\<close>

definition zigzag :: "int \<Rightarrow> u64" where
  "zigzag x = (let ux = push_bit 1 (word_of_int x :: u64) in if x < 0 then NOT ux else ux)"

definition put_uvarint :: "u64 \<Rightarrow> bytes" where "put_uvarint v = uvarint_bytes v"
definition put_varint :: "int \<Rightarrow> bytes" where "put_varint v = uvarint_bytes (zigzag v)"
definition put_str :: "bytes \<Rightarrow> bytes" where "put_str s = put_uvarint (of_nat (length s)) @ s"
definition put_raw :: "bytes \<Rightarrow> bytes" where "put_raw b = put_uvarint (of_nat (length b)) @ b"
definition put_boolean :: "bool \<Rightarrow> bytes" where "put_boolean b = (if b then [1] else [0])"
definition put_f64 :: "u64 \<Rightarrow> bytes" where "put_f64 f = le_enc 8 (unat f)"

subsection \<open>Reading\<close>

record byteReader =
  rd_buf :: bytes
  rd_pos :: int

type_synonym 'a reader = "byteReader \<Rightarrow> codec_error + 'a \<times> byteReader"

text \<open>Sequencing: an error is returned at once.\<close>

definition rbind :: "'a reader \<Rightarrow> ('a \<Rightarrow> 'b reader) \<Rightarrow> 'b reader" where
  "rbind p f r = (case p r of Inl e \<Rightarrow> Inl e | Inr (v, r') \<Rightarrow> f v r')"

definition rret :: "'a \<Rightarrow> 'a reader" where
  "rret v r = Inr (v, r)"

definition rguard :: "bool \<Rightarrow> codec_error \<Rightarrow> unit reader" where
  "rguard ok e r = (if ok then Inr ((), r) else Inl e)"

definition rfail :: "codec_error \<Rightarrow> 'a reader" where
  "rfail e r = Inl e"

text \<open>A loop over the elements of a list, collecting what each pass reads.\<close>

primrec rmap :: "('i \<Rightarrow> 'a reader) \<Rightarrow> 'i list \<Rightarrow> 'a list reader" where
  "rmap p [] = rret []"
| "rmap p (i # is) = rbind (p i) (\<lambda>v. rbind (rmap p is) (\<lambda>vs. rret (v # vs)))"

definition rmany :: "nat \<Rightarrow> 'a reader \<Rightarrow> 'a list reader" where
  "rmany n p = rmap (\<lambda>_. p) [0..<n]"

text \<open>\<^verbatim>\<open>if r.pos < len(buf)\<close>: read on only if there is more.\<close>

definition rmore :: "'a \<Rightarrow> 'a reader \<Rightarrow> 'a reader" where
  "rmore d p r = (if rd_pos r < int (length (rd_buf r)) then p r else Inr (d, r))"

text \<open>\<^verbatim>\<open>buf[lo:hi]\<close>.\<close>

definition slice_of :: "bytes \<Rightarrow> int \<Rightarrow> int \<Rightarrow> codec_error + bytes" where
  "slice_of buf lo hi =
     (if 0 \<le> lo \<and> lo \<le> hi \<and> hi \<le> int (length buf) then Inr (take (nat (hi - lo)) (drop (nat lo) buf)) else Inl CodecPanic)"

text \<open>\<^verbatim>\<open>binary.Uvarint\<close>: the value and the number of bytes read, which is zero when the buffer is too short and
  negative when the value does not fit 64 bits.\<close>

fun uvarint_loop :: "nat \<Rightarrow> u64 \<Rightarrow> nat \<Rightarrow> bytes \<Rightarrow> u64 \<times> int" where
  "uvarint_loop i x s [] = (0, 0)"
| "uvarint_loop i x s (b # bs) =
     (if i = 10 then (0, - (int i + 1))
      else if b < 0x80 then
        (if i = 9 \<and> b > 1 then (0, - (int i + 1)) else (x OR push_bit s (ucast b), int i + 1))
      else uvarint_loop (i + 1) (x OR push_bit s (ucast (b AND 0x7f))) (s + 7) bs)"

text \<open>\<^verbatim>\<open>binary.Varint\<close>.\<close>

definition unzigzag :: "u64 \<Rightarrow> int" where
  "unzigzag ux = (let x = drop_bit 1 ux in sint (if ux AND 1 \<noteq> 0 then NOT x else x))"

definition get_uvarint :: "u64 reader" where
  "get_uvarint r =
     (case slice_of (rd_buf r) (rd_pos r) (int (length (rd_buf r))) of
        Inl e \<Rightarrow> Inl e
      | Inr b \<Rightarrow> let (v, n) = uvarint_loop 0 0 0 b
                 in if n \<le> 0 then Inl (BadUvarint (rd_pos r)) else Inr (v, r\<lparr>rd_pos := rd_pos r + n\<rparr>))"

definition get_varint :: "int reader" where
  "get_varint r =
     (case slice_of (rd_buf r) (rd_pos r) (int (length (rd_buf r))) of
        Inl e \<Rightarrow> Inl e
      | Inr b \<Rightarrow> let (ux, n) = uvarint_loop 0 0 0 b
                 in if n \<le> 0 then Inl (BadVarint (rd_pos r)) else Inr (unzigzag ux, r\<lparr>rd_pos := rd_pos r + n\<rparr>))"

definition remaining :: "byteReader \<Rightarrow> u64" where
  "remaining r = (if rd_pos r \<ge> int (length (rd_buf r)) then 0 else word_of_int (int (length (rd_buf r)) - rd_pos r))"

definition countFits :: "u64 \<Rightarrow> string \<Rightarrow> unit reader" where
  "countFits n what r = (if n > remaining r then Inl (CountExceeds what n (remaining r)) else Inr ((), r))"

text \<open>A length and that many bytes; \<open>e\<close> is the error for a length beyond the end.\<close>

definition take_span :: "codec_error \<Rightarrow> bytes reader" where
  "take_span e = rbind get_uvarint (\<lambda>n r.
     if n > remaining r then Inl e
     else let hi = i64 (rd_pos r + i64 (uint n))
          in case slice_of (rd_buf r) (rd_pos r) hi of Inl e' \<Rightarrow> Inl e' | Inr b \<Rightarrow> Inr (b, r\<lparr>rd_pos := hi\<rparr>))"

definition span :: "bytes reader" where
  "span = take_span SpanOutOfRange"

text \<open>\<^verbatim>\<open>strCopy\<close>, \<^verbatim>\<open>strAlias\<close> and \<^verbatim>\<open>bytesCopy\<close> differ only in who owns the bytes.\<close>

definition strCopy :: "bytes reader" where "strCopy = span"
definition strAlias :: "bytes reader" where "strAlias = span"
definition bytesCopy :: "bytes reader" where "bytesCopy = span"

definition skip :: "unit reader" where
  "skip = rbind get_uvarint (\<lambda>n r.
     if n > remaining r then Inl SkipOutOfRange else Inr ((), r\<lparr>rd_pos := i64 (rd_pos r + i64 (uint n))\<rparr>))"

definition get_boolean :: "bool reader" where
  "get_boolean r =
     (if rd_pos r \<ge> int (length (rd_buf r)) then Inl BoolOutOfRange
      else case slice_of (rd_buf r) (rd_pos r) (rd_pos r + 1) of
             Inl e \<Rightarrow> Inl e
           | Inr b \<Rightarrow> Inr (hd b \<noteq> 0, r\<lparr>rd_pos := rd_pos r + 1\<rparr>))"

definition get_f64 :: "u64 reader" where
  "get_f64 r =
     (if i64 (rd_pos r + 8) > int (length (rd_buf r)) then Inl FloatOutOfRange
      else case slice_of (rd_buf r) (rd_pos r) (rd_pos r + 8) of
             Inl e \<Rightarrow> Inl e
           | Inr b \<Rightarrow> Inr (of_nat (le_nat b), r\<lparr>rd_pos := rd_pos r + 8\<rparr>))"

definition readStrings :: "bytes list reader" where
  "readStrings = rbind get_uvarint (\<lambda>n. if n = 0 then rret []
     else rbind (countFits n ''string'') (\<lambda>_. rmany (unat n) strCopy))"

text \<open>A time is its Unix seconds and the nanoseconds within the second; only the seconds are stored.\<close>

record go_time =
  unix :: int
  nsec :: int

definition readTime :: "go_time reader" where
  "readTime = rbind get_varint (\<lambda>sec. rret \<lparr>unix = sec, nsec = 0\<rparr>)"

section \<open>Variable-length integers\<close>

lemma byte_ge_0x80: "(b :: byte) < 0x80 \<longleftrightarrow> \<not> bit b 7"
proof -
  have "bit b 7 \<longleftrightarrow> odd (unat b div 128)"
    using bit_unsigned_iff [of b 7, where ?'a = nat] by (simp add: bit_iff_odd [of "unat b"] possible_bit_def)
  moreover have "unat b div 128 = (if unat b < 128 then 0 else 1)" using unat_byte_less [of b] by auto
  ultimately show ?thesis by (simp add: word_less_nat_alt)
qed

lemma low_seven: "(ucast ((ucast (v :: u64) OR 0x80 :: byte) AND 0x7f) :: u64) = take_bit 7 v"
proof -
  have c: "(0x7f :: byte) = mask 7" by (simp add: mask_eq_exp_minus_1)
  have d: "bit (0x80 :: int) n \<longleftrightarrow> n = 7" for n
    using bit_exp_iff [of 7 n, where ?'a = int] by auto
  show ?thesis unfolding c by (rule bit_word_eqI) (auto simp: bit_and_iff bit_or_iff bit_ucast_iff bit_take_bit_iff bit_mask_iff possible_bit_def d)
qed

lemma join_sevens: "push_bit k (take_bit 7 (v :: u64)) OR push_bit (k + 7) (drop_bit 7 v) = push_bit k v"
proof (rule bit_word_eqI)
  fix n assume "n < LENGTH(64)"
  then show "bit (push_bit k (take_bit 7 v) OR push_bit (k + 7) (drop_bit 7 v)) n = bit (push_bit k v) n"
    by (cases "n < k + 7") (auto simp: bit_simps possible_bit_def)
qed

lemma uvarint_loop_bytes:
  assumes "i \<le> 9" "unat v < 2 ^ (64 - 7 * i)"
  shows "uvarint_loop i x (7 * i) (uvarint_bytes v @ rest) = (x OR push_bit (7 * i) v, int i + int (length (uvarint_bytes v)))"
  using assms
proof (induction v arbitrary: i x rule: uvarint_bytes.induct)
  case (1 v)
  show ?case
  proof (cases "v \<ge> 0x80")
    case True
    let ?b = "ucast v OR 0x80 :: byte"
    have u: "128 \<le> unat v" using True by (simp add: word_le_nat_alt)
    then have "(2::nat) ^ 7 < 2 ^ (64 - 7 * i)" using "1.prems"(2) by simp
    then have i: "i \<le> 8" by (subst (asm) power_strict_increasing_iff) auto
    have e: "64 - 7 * i = Suc (Suc (Suc (Suc (Suc (Suc (Suc (64 - 7 * (i + 1))))))))" using i by simp
    have v': "unat (drop_bit 7 v) < 2 ^ (64 - 7 * (i + 1))"
      using "1.prems"(2) unfolding e by (simp add: unat_drop7 less_mult_imp_div_less mult.commute)
    have b: "\<not> ?b < 0x80" unfolding byte_ge_0x80 by (simp add: bit_or_iff)
    have x: "(x OR push_bit (7 * i) (ucast (?b AND 0x7f))) OR push_bit (7 * (i + 1)) (drop_bit 7 v) = x OR push_bit (7 * i) v"
      using join_sevens [of "7 * i" v] by (simp add: low_seven or.assoc add.commute)
    have "uvarint_loop i x (7 * i) (uvarint_bytes v @ rest) =
        uvarint_loop (i + 1) (x OR push_bit (7 * i) (ucast (?b AND 0x7f))) (7 * (i + 1)) (uvarint_bytes (drop_bit 7 v) @ rest)"
      using True b i by (simp add: uvarint_bytes.simps [of v] add.commute)
    also have "\<dots> = (x OR push_bit (7 * i) v, int (i + 1) + int (length (uvarint_bytes (drop_bit 7 v))))"
      using "1.IH" [OF True _ v'] i x by simp
    finally show ?thesis using True by (simp add: uvarint_bytes.simps [of v])
  next
    case False
    then have u: "unat v < 128" by (simp add: word_le_nat_alt)
    have uu: "unat (ucast v :: byte) = unat v" using u by (simp add: unsigned_ucast_eq take_bit_eq_mod)
    have b: "(ucast v :: byte) < 0x80" using u uu by (simp add: word_less_nat_alt)
    have c: "(ucast (ucast v :: byte) :: u64) = v" using u by (simp add: word_unat_eq_iff unsigned_ucast_eq take_bit_eq_mod unat_mod)
    have "\<not> (i = 9 \<and> (ucast v :: byte) > 1)" using "1.prems"(2) uu by (auto simp: word_less_nat_alt)
    then show ?thesis using False b c "1.prems"(1) by (simp add: uvarint_bytes.simps [of v])
  qed
qed

lemma unzigzag_zigzag:
  assumes "is_i64 v"
  shows "unzigzag (zigzag v) = v"
proof -
  define w where "w = (word_of_int v :: u64)"
  have s: "sint w = v" using i64_sint [of v] i64_id [OF assms] by (simp add: w_def)
  have top: "bit w 63 \<longleftrightarrow> v < 0" using bit_last_iff [of w] s by simp
  show ?thesis
  proof (cases "v < 0")
    case True
    have "NOT (drop_bit 1 (NOT (push_bit 1 w))) = w"
    proof (rule bit_word_eqI)
      fix n assume "n < LENGTH(64)"
      then show "bit (NOT (drop_bit 1 (NOT (push_bit 1 w)))) n = bit w n"
        unfolding bit_not_iff bit_drop_bit_eq comp_def bit_push_bit_iff
        using top True by (cases "n = 63") (auto simp: possible_bit_def)
    qed
    moreover have "NOT (push_bit 1 w) AND 1 \<noteq> 0"
      by (simp add: and_one_eq mod_2_eq_odd even_not_iff)
    ultimately show ?thesis using True s by (simp add: unzigzag_def zigzag_def Let_def w_def [symmetric])
  next
    case False
    have "drop_bit 1 (push_bit 1 w) = w"
    proof (rule bit_word_eqI)
      fix n assume "n < LENGTH(64)"
      then show "bit (drop_bit 1 (push_bit 1 w)) n = bit w n"
        unfolding bit_drop_bit_eq comp_def bit_push_bit_iff
        using top False by (cases "n = 63") (auto simp: possible_bit_def)
    qed
    moreover have "push_bit 1 w AND 1 = 0" by (simp add: and_one_eq mod_2_eq_odd)
    ultimately show ?thesis using False s by (simp add: unzigzag_def zigzag_def Let_def w_def [symmetric])
  qed
qed

lemma uvarint_bytes_ne [simp]: "uvarint_bytes v \<noteq> []"
  by (simp add: uvarint_bytes.simps [of v])

lemma uvarint_read: "uvarint_loop 0 0 0 (uvarint_bytes v @ rest) = (v, int (length (uvarint_bytes v)))"
  using uvarint_loop_bytes [of 0 v 0 rest] unsigned_less [of v, where ?'a = nat] by simp

text \<open>The number of bytes read never exceeds what is there.\<close>

lemma uvarint_loop_bound: "snd (uvarint_loop i x s bs) \<le> int i + int (length bs)"
  by (induction i x s bs rule: uvarint_loop.induct) auto

section \<open>What a reader reads\<close>

text \<open>No buffer reaches this length: an address space has fewer bytes.\<close>

abbreviation max_buf :: int where "max_buf \<equiv> 1152921504606846975"

definition reads :: "'a reader \<Rightarrow> bytes \<Rightarrow> 'a \<Rightarrow> bool" where
  "reads p w v \<longleftrightarrow>
     (\<forall>pre suf. int (length (pre @ w @ suf)) \<le> max_buf \<longrightarrow>
        p \<lparr>rd_buf = pre @ w @ suf, rd_pos = int (length pre)\<rparr> =
        Inr (v, \<lparr>rd_buf = pre @ w @ suf, rd_pos = int (length (pre @ w))\<rparr>))"

named_theorems reads_intros \<open>how readers read what the writers wrote\<close>

lemma readsD:
  "reads p w v \<Longrightarrow> int (length pre + length w + length suf) \<le> max_buf \<Longrightarrow>
   p \<lparr>rd_buf = pre @ w @ suf, rd_pos = int (length pre)\<rparr> =
   Inr (v, \<lparr>rd_buf = pre @ w @ suf, rd_pos = int (length pre) + int (length w)\<rparr>)"
  by (simp add: reads_def)

lemma reads_rret [reads_intros]: "reads (rret v) [] v"
  by (simp add: reads_def rret_def)

lemma reads_rbind [reads_intros]:
  assumes "reads p w1 v1" "reads (f v1) w2 v2"
  shows "reads (rbind p f) (w1 @ w2) v2"
  unfolding reads_def
proof (intro allI impI)
  fix pre suf
  assume l: "int (length (pre @ (w1 @ w2) @ suf)) \<le> max_buf"
  have "p \<lparr>rd_buf = pre @ w1 @ (w2 @ suf), rd_pos = int (length pre)\<rparr> =
      Inr (v1, \<lparr>rd_buf = pre @ w1 @ (w2 @ suf), rd_pos = int (length pre) + int (length w1)\<rparr>)"
    using l by (intro readsD [OF assms(1)]) simp
  moreover have "f v1 \<lparr>rd_buf = (pre @ w1) @ w2 @ suf, rd_pos = int (length (pre @ w1))\<rparr> =
      Inr (v2, \<lparr>rd_buf = (pre @ w1) @ w2 @ suf, rd_pos = int (length (pre @ w1)) + int (length w2)\<rparr>)"
    using l by (intro readsD [OF assms(2)]) simp
  ultimately show "rbind p f \<lparr>rd_buf = pre @ (w1 @ w2) @ suf, rd_pos = int (length pre)\<rparr> =
      Inr (v2, \<lparr>rd_buf = pre @ (w1 @ w2) @ suf, rd_pos = int (length (pre @ w1 @ w2))\<rparr>)"
    by (simp add: rbind_def)
qed

lemma reads_rbind_last: "reads p w v1 \<Longrightarrow> reads (f v1) [] v2 \<Longrightarrow> reads (rbind p f) w v2"
  using reads_rbind [of p w v1 f "[]" v2] by simp

lemma slice_rest:
  "slice_of (pre @ ys) (int (length pre)) (int (length (pre @ ys))) = Inr ys"
  by (simp add: slice_of_def)

lemma slice_middle:
  "slice_of (pre @ w @ suf) (int (length pre)) (int (length pre) + int (length w)) = Inr w"
  by (simp add: slice_of_def)

lemma reads_uvarint [reads_intros]: "reads get_uvarint (put_uvarint v) v"
  using slice_rest [of _ "uvarint_bytes v @ _"]
  by (simp add: reads_def get_uvarint_def put_uvarint_def uvarint_read)

lemma reads_varint [reads_intros]: "is_i64 v \<Longrightarrow> reads get_varint (put_varint v) v"
  using slice_rest [of _ "uvarint_bytes (zigzag v) @ _"]
  by (simp add: reads_def get_varint_def put_varint_def uvarint_read unzigzag_zigzag)

text \<open>What is left after a position, as an unsigned number.\<close>

lemma remaining_at:
  "int (length pre + length rest) \<le> max_buf \<Longrightarrow>
   remaining \<lparr>rd_buf = pre @ rest, rd_pos = int (length pre)\<rparr> = of_nat (length rest)"
  by (auto simp: remaining_def)

lemma of_nat_u64_le: "int m \<le> max_buf \<Longrightarrow> n \<le> m \<Longrightarrow> \<not> (of_nat m :: u64) < of_nat n"
  by (simp add: word_less_nat_alt unat_of_nat take_bit_eq_mod)

lemma i64_uint_of_nat: "int n \<le> max_buf \<Longrightarrow> i64 (uint (of_nat n :: u64)) = int n"
  by (simp add: uint_nat unat_of_nat take_bit_eq_mod i64_id)

lemma remaining_enough:
  "int (length pre) + (int (length w) + int (length suf)) \<le> max_buf \<Longrightarrow> n \<le> length w \<Longrightarrow>
   \<not> remaining \<lparr>rd_buf = pre @ w @ suf, rd_pos = int (length pre)\<rparr> < of_nat n"
  using remaining_at [of pre "w @ suf"] of_nat_u64_le [of "length w + length suf" n] by simp

lemma reads_take_span: "reads (take_span e) (put_str s) s"
  unfolding take_span_def put_str_def
proof (rule reads_rbind [OF reads_uvarint])
  show "reads (\<lambda>r. if of_nat (length s) > remaining r then Inl e
      else let hi = i64 (rd_pos r + i64 (uint (of_nat (length s) :: u64)))
           in case slice_of (rd_buf r) (rd_pos r) hi of Inl e' \<Rightarrow> Inl e' | Inr b \<Rightarrow> Inr (b, r\<lparr>rd_pos := hi\<rparr>)) s s"
    unfolding reads_def
    by (auto simp: remaining_enough i64_uint_of_nat i64_id Let_def slice_middle)
qed

lemma reads_span [reads_intros]: "reads span (put_str s) s"
  unfolding span_def by (rule reads_take_span)

lemma put_ne [simp]:
  "put_uvarint n \<noteq> []" "put_varint v \<noteq> []" "put_str s \<noteq> []" "put_raw s \<noteq> []" "put_boolean b \<noteq> []"
  by (simp_all add: put_uvarint_def put_varint_def put_str_def put_raw_def put_boolean_def)

lemmas str_defs = strCopy_def strAlias_def bytesCopy_def

lemma reads_strs [reads_intros]:
  "reads strCopy (put_str s) s" "reads strAlias (put_str s) s" "reads bytesCopy (put_raw s) s"
  using reads_span by (simp_all add: str_defs put_raw_def put_str_def)

lemma reads_skip [reads_intros]: "reads skip (put_str s) ()"
  unfolding skip_def put_str_def
proof (rule reads_rbind [OF reads_uvarint])
  show "reads (\<lambda>r. if of_nat (length s) > remaining r then Inl SkipOutOfRange
      else Inr ((), r\<lparr>rd_pos := i64 (rd_pos r + i64 (uint (of_nat (length s) :: u64)))\<rparr>)) s ()"
    unfolding reads_def by (auto simp: remaining_enough i64_uint_of_nat i64_id)
qed

lemma reads_boolean [reads_intros]: "reads get_boolean (put_boolean b) b"
  by (auto simp: reads_def get_boolean_def put_boolean_def slice_of_def)

lemma reads_f64 [reads_intros]: "reads get_f64 (put_f64 f) f"
proof -
  have l: "of_nat (le_nat (le_enc 8 (unat f))) = f"
    using unsigned_less [of f, where ?'a = nat] by (simp add: le_nat_le_enc)
  then show ?thesis
    using slice_middle [of _ "le_enc 8 (unat f)"] by (auto simp: reads_def get_f64_def put_f64_def i64_id)
qed

lemma reads_time [reads_intros]: "is_i64 t \<Longrightarrow> reads readTime (put_varint t) \<lparr>unix = t, nsec = 0\<rparr>"
  unfolding readTime_def by (rule reads_rbind_last [OF reads_varint reads_rret])

text \<open>Lists: the elements one after the other, each at least one byte, after their number.\<close>

lemma reads_rmap:
  "length is = length xs \<Longrightarrow> (\<And>k. k < length xs \<Longrightarrow> reads (p (is ! k)) (put (xs ! k)) (g (xs ! k))) \<Longrightarrow>
   reads (rmap p is) (concat (map put xs)) (map g xs)"
proof (induction "is" xs rule: list_induct2)
  case (Cons i "is" x xs)
  have x: "reads (p i) (put x) (g x)" using Cons.prems [of 0] by simp
  have "reads (rmap p is) (concat (map put xs)) (map g xs)" using Cons.IH Cons.prems [of "Suc _"] by simp
  then have "reads (rbind (rmap p is) (\<lambda>vs. rret (g x # vs))) (concat (map put xs)) (g x # map g xs)"
    by (rule reads_rbind_last) (rule reads_rret)
  then show ?case using x by (auto intro!: reads_rbind)
qed (simp add: reads_rret)

lemma reads_rmany:
  "n = length xs \<Longrightarrow> (\<And>x. x \<in> set xs \<Longrightarrow> reads p (put x) (g x)) \<Longrightarrow> reads (rmany n p) (concat (map put xs)) (map g xs)"
  unfolding rmany_def by (rule reads_rmap) simp_all

lemma length_concat_ge: "(\<And>x. x \<in> set xs \<Longrightarrow> put x \<noteq> []) \<Longrightarrow> length xs \<le> length (concat (map put xs))"
proof (induction xs)
  case (Cons x xs)
  then have "put x \<noteq> []" "length xs \<le> length (concat (map put xs))" by simp_all
  then show ?case by (cases "put x") simp_all
qed simp

text \<open>Counted reads are checked on the buffer: it is enough to consider counts no larger than what is left.\<close>

lemma reads_bounded:
  assumes "\<And>suf. int (length w) \<le> max_buf \<Longrightarrow> reads p w v"
  shows "reads p w v"
  using assms unfolding reads_def by auto

lemma unat_of_length: "int (length xs) \<le> max_buf \<Longrightarrow> unat (of_nat (length xs) :: u64) = length xs"
  by (simp add: unat_of_nat take_bit_eq_mod)

lemma reads_countFits:
  assumes "n \<le> length w" "reads p w v"
  shows "reads (rbind (countFits (of_nat n) what) (\<lambda>_. p)) w v"
  unfolding reads_def
proof (intro allI impI)
  fix pre suf
  assume l: "int (length (pre @ w @ suf)) \<le> max_buf"
  have "\<not> remaining \<lparr>rd_buf = pre @ w @ suf, rd_pos = int (length pre)\<rparr> < of_nat n"
    using l assms(1) by (intro remaining_enough) simp_all
  then show "rbind (countFits (of_nat n) what) (\<lambda>_. p) \<lparr>rd_buf = pre @ w @ suf, rd_pos = int (length pre)\<rparr> =
      Inr (v, \<lparr>rd_buf = pre @ w @ suf, rd_pos = int (length (pre @ w))\<rparr>)"
    using readsD [OF assms(2), of pre suf] l by (simp add: rbind_def countFits_def)
qed

lemma reads_counted:
  assumes "\<And>x. x \<in> set xs \<Longrightarrow> reads p (put x) (g x)" "\<And>x. x \<in> set xs \<Longrightarrow> put x \<noteq> []"
  shows "reads (rbind get_uvarint (\<lambda>n. if n = 0 then rret [] else rbind (countFits n what) (\<lambda>_. rmany (unat n) p)))
    (put_uvarint (of_nat (length xs)) @ concat (map put xs)) (map g xs)"
proof (rule reads_bounded)
  assume b: "int (length (put_uvarint (of_nat (length xs)) @ concat (map put xs))) \<le> max_buf"
  have len: "length xs \<le> length (concat (map put xs))" using assms(2) by (rule length_concat_ge)
  then have n: "unat (of_nat (length xs) :: u64) = length xs" using b by (intro unat_of_length) simp
  show "reads (rbind get_uvarint (\<lambda>n. if n = 0 then rret [] else rbind (countFits n what) (\<lambda>_. rmany (unat n) p)))
    (put_uvarint (of_nat (length xs)) @ concat (map put xs)) (map g xs)"
  proof (rule reads_rbind [OF reads_uvarint])
    show "reads (if of_nat (length xs) = (0 :: u64) then rret []
        else rbind (countFits (of_nat (length xs)) what) (\<lambda>_. rmany (unat (of_nat (length xs) :: u64)) p))
        (concat (map put xs)) (map g xs)"
    proof (cases "xs = []")
      case True
      then show ?thesis by (simp add: reads_rret)
    next
      case False
      then have "of_nat (length xs) \<noteq> (0 :: u64)" using n by (metis length_0_conv unat_0)
      then show ?thesis using reads_countFits [OF len reads_rmany [OF refl assms(1)]] n by simp
    qed
  qed
qed

lemma reads_strings [reads_intros]:
  "reads readStrings (put_uvarint (of_nat (length xs)) @ concat (map put_str xs)) xs"
  using reads_counted [of xs strCopy put_str "\<lambda>x. x" "''string''"] by (simp add: readStrings_def reads_strs(1))

text \<open>Reading to the end of the buffer.\<close>

definition reads_end :: "'a reader \<Rightarrow> bytes \<Rightarrow> 'a \<Rightarrow> bool" where
  "reads_end p w v \<longleftrightarrow>
     (\<forall>pre. int (length (pre @ w)) \<le> max_buf \<longrightarrow>
        p \<lparr>rd_buf = pre @ w, rd_pos = int (length pre)\<rparr> = Inr (v, \<lparr>rd_buf = pre @ w, rd_pos = int (length (pre @ w))\<rparr>))"

lemma reads_endI: "reads p w v \<Longrightarrow> reads_end p w v"
  unfolding reads_end_def using readsD [where suf = "[]"] by auto

lemma reads_endD:
  "reads_end p w v \<Longrightarrow> int (length w) \<le> max_buf \<Longrightarrow>
   p \<lparr>rd_buf = w, rd_pos = 0\<rparr> = Inr (v, \<lparr>rd_buf = w, rd_pos = int (length w)\<rparr>)"
  unfolding reads_end_def by (drule spec [of _ "[]"]) simp

lemma reads_end_rbind:
  assumes "reads p w1 v1" "reads_end (f v1) w2 v2"
  shows "reads_end (rbind p f) (w1 @ w2) v2"
  unfolding reads_end_def
proof (intro allI impI)
  fix pre
  assume l: "int (length (pre @ w1 @ w2)) \<le> max_buf"
  have "p \<lparr>rd_buf = pre @ w1 @ w2, rd_pos = int (length pre)\<rparr> =
      Inr (v1, \<lparr>rd_buf = pre @ w1 @ w2, rd_pos = int (length pre) + int (length w1)\<rparr>)"
    using l by (intro readsD [OF assms(1)]) simp
  moreover have "f v1 \<lparr>rd_buf = (pre @ w1) @ w2, rd_pos = int (length (pre @ w1))\<rparr> =
      Inr (v2, \<lparr>rd_buf = (pre @ w1) @ w2, rd_pos = int (length ((pre @ w1) @ w2))\<rparr>)"
    using l assms(2) [unfolded reads_end_def, rule_format, of "pre @ w1"] by simp
  ultimately show "rbind p f \<lparr>rd_buf = pre @ w1 @ w2, rd_pos = int (length pre)\<rparr> =
      Inr (v2, \<lparr>rd_buf = pre @ w1 @ w2, rd_pos = int (length (pre @ w1 @ w2))\<rparr>)"
    by (simp add: rbind_def)
qed

lemma reads_end_rmore: "w \<noteq> [] \<Longrightarrow> reads_end p w v \<Longrightarrow> reads_end (rmore d p) w v"
  by (auto simp: reads_end_def rmore_def)

lemma reads_end_stop: "reads_end (rmore d p) [] d"
  by (simp add: reads_end_def rmore_def)

section \<open>No reader panics\<close>

definition wf_reader :: "byteReader \<Rightarrow> bool" where
  "wf_reader r \<longleftrightarrow> 0 \<le> rd_pos r \<and> rd_pos r \<le> int (length (rd_buf r)) \<and> int (length (rd_buf r)) \<le> max_buf"

definition safe :: "'a reader \<Rightarrow> bool" where
  "safe p \<longleftrightarrow>
     (\<forall>r. wf_reader r \<longrightarrow> (case p r of Inl e \<Rightarrow> e \<noteq> CodecPanic | Inr (v, r') \<Rightarrow> wf_reader r' \<and> rd_buf r' = rd_buf r))"

named_theorems safe_intros \<open>readers that never panic\<close>

lemma safeI:
  "(\<And>r. wf_reader r \<Longrightarrow> case p r of Inl e \<Rightarrow> e \<noteq> CodecPanic | Inr (v, r') \<Rightarrow> wf_reader r' \<and> rd_buf r' = rd_buf r) \<Longrightarrow> safe p"
  by (simp add: safe_def)

lemma safe_rret [safe_intros]: "safe (rret v)"
  by (simp add: safe_def rret_def)

lemma safe_rguard [safe_intros]: "e \<noteq> CodecPanic \<Longrightarrow> safe (rguard ok e)"
  by (simp add: safe_def rguard_def)

lemma safe_rbind [safe_intros]:
  assumes "safe p" "\<And>v. safe (f v)"
  shows "safe (rbind p f)"
proof (rule safeI)
  fix r assume r: "wf_reader r"
  show "case rbind p f r of Inl e \<Rightarrow> e \<noteq> CodecPanic | Inr (v, r') \<Rightarrow> wf_reader r' \<and> rd_buf r' = rd_buf r"
  proof (cases "p r")
    case (Inl e)
    then show ?thesis using assms(1) r by (auto simp: safe_def rbind_def dest: spec [of _ r])
  next
    case (Inr x)
    obtain v r' where x: "x = (v, r')" by (cases x)
    have r': "wf_reader r'" "rd_buf r' = rd_buf r" using assms(1) r Inr x by (auto simp: safe_def dest: spec [of _ r])
    have "case f v r' of Inl e \<Rightarrow> e \<noteq> CodecPanic | Inr (v, r'') \<Rightarrow> wf_reader r'' \<and> rd_buf r'' = rd_buf r'"
      using assms(2) [of v] r'(1) by (simp add: safe_def)
    then show ?thesis using Inr x r'(2) by (simp add: rbind_def split: sum.splits prod.splits)
  qed
qed

lemma safe_if [safe_intros]: "safe p \<Longrightarrow> safe q \<Longrightarrow> safe (if c then p else q)"
  by simp

lemma safe_rmap [safe_intros]: "(\<And>i. safe (p i)) \<Longrightarrow> safe (rmap p is)"
  by (induction "is") (auto intro: safe_intros)

lemma safe_rmany [safe_intros]: "safe p \<Longrightarrow> safe (rmany n p)"
  unfolding rmany_def by (rule safe_rmap)

lemma safe_rfail [safe_intros]: "e \<noteq> CodecPanic \<Longrightarrow> safe (rfail e)"
  by (simp add: safe_def rfail_def)

lemma safe_rmore [safe_intros]: "safe p \<Longrightarrow> safe (rmore d p)"
  by (auto simp: safe_def rmore_def)

lemma safe_countFits [safe_intros]: "safe (countFits n what)"
  by (simp add: safe_def countFits_def)

lemma slice_of_rest: "wf_reader r \<Longrightarrow> slice_of (rd_buf r) (rd_pos r) (int (length (rd_buf r))) = Inr (drop (nat (rd_pos r)) (rd_buf r))"
  by (simp add: slice_of_def wf_reader_def)

lemma uvarint_advance:
  assumes "wf_reader r" "uvarint_loop 0 0 0 (drop (nat (rd_pos r)) (rd_buf r)) = (v, n)" "0 < n"
  shows "wf_reader (r\<lparr>rd_pos := rd_pos r + n\<rparr>)"
  using assms(1,3) uvarint_loop_bound [of 0 0 0 "drop (nat (rd_pos r)) (rd_buf r)"] unfolding assms(2)
  by (auto simp: wf_reader_def)

lemma safe_uvarint [safe_intros]: "safe get_uvarint"
  by (rule safeI) (auto simp: get_uvarint_def slice_of_rest intro: uvarint_advance split: prod.split)

lemma safe_varint [safe_intros]: "safe get_varint"
  by (rule safeI) (auto simp: get_varint_def slice_of_rest intro: uvarint_advance split: prod.split)

lemma advance_ok:
  assumes "wf_reader r" "\<not> n > remaining r"
  shows "i64 (rd_pos r + i64 (uint n)) = rd_pos r + uint n" "rd_pos r + uint n \<le> int (length (rd_buf r))"
proof -
  have "uint n \<le> int (length (rd_buf r)) - rd_pos r"
  proof (cases "rd_pos r = int (length (rd_buf r))")
    case False
    have "uint (word_of_int x :: u64) = x" if "0 \<le> x" "x \<le> max_buf" for x
      using that by (simp add: uint_word_of_int)
    then have "uint (remaining r) = int (length (rd_buf r)) - rd_pos r"
      using False assms(1) unfolding remaining_def wf_reader_def by (simp del: of_int_diff)
    then show ?thesis using assms(2) by (simp add: word_less_def)
  qed (use assms in \<open>simp add: remaining_def word_gt_0\<close>)
  moreover have "is_i64 (uint n)" "is_i64 (rd_pos r + uint n)"
    using calculation assms(1) by (auto simp: wf_reader_def intro: order_trans [of _ 0])
  ultimately show "i64 (rd_pos r + i64 (uint n)) = rd_pos r + uint n" "rd_pos r + uint n \<le> int (length (rd_buf r))"
    by (simp_all only: i64_id)
qed

lemma safe_take_span:
  assumes "e \<noteq> CodecPanic"
  shows "safe (take_span e)"
  unfolding take_span_def
proof (rule safe_rbind [OF safe_uvarint], rule safeI)
  fix n and r :: byteReader
  assume r: "wf_reader r"
  show "case (if n > remaining r then Inl e
      else let hi = i64 (rd_pos r + i64 (uint n))
           in case slice_of (rd_buf r) (rd_pos r) hi of Inl e' \<Rightarrow> Inl e' | Inr b \<Rightarrow> Inr (b, r\<lparr>rd_pos := hi\<rparr>)) of
    Inl e \<Rightarrow> e \<noteq> CodecPanic | Inr (v, r') \<Rightarrow> wf_reader r' \<and> rd_buf r' = rd_buf r"
    using r assms advance_ok [OF r, of n] by (simp add: slice_of_def Let_def wf_reader_def)
qed

lemma safe_span [safe_intros]: "safe span"
  unfolding span_def by (rule safe_take_span) simp

lemmas safe_strs [safe_intros] = safe_span [folded strCopy_def] safe_span [folded strAlias_def] safe_span [folded bytesCopy_def]

lemma safe_skip [safe_intros]: "safe skip"
  unfolding skip_def
proof (rule safe_rbind [OF safe_uvarint], rule safeI)
  fix n and r :: byteReader
  assume r: "wf_reader r"
  show "case (if n > remaining r then Inl SkipOutOfRange else Inr ((), r\<lparr>rd_pos := i64 (rd_pos r + i64 (uint n))\<rparr>)) of
    Inl e \<Rightarrow> e \<noteq> CodecPanic | Inr (v, r') \<Rightarrow> wf_reader r' \<and> rd_buf r' = rd_buf r"
    using r advance_ok [OF r, of n] by (simp add: wf_reader_def)
qed

lemma safe_boolean [safe_intros]: "safe get_boolean"
  by (rule safeI) (simp add: get_boolean_def slice_of_def wf_reader_def)

lemma safe_f64 [safe_intros]: "safe get_f64"
  by (rule safeI) (simp add: get_f64_def slice_of_def wf_reader_def i64_id)

lemma safe_strings [safe_intros]: "safe readStrings"
  unfolding readStrings_def by (intro safe_intros)

lemma safe_time [safe_intros]: "safe readTime"
  unfolding readTime_def by (intro safe_intros)

end
