(* ===== verification/Nzb_Codec.thy ===== *)
theory Nzb_Codec
  imports Byte_Codec
begin

text \<open>
  The on-disk format of an NZB record, \<^verbatim>\<open>src/pkg/usenet/nzbcodec.go\<close>, over the types of
  \<^verbatim>\<open>src/pkg/storage/nzb.go\<close>: a header, the columns of all segments and the message ids, each compressed. The
  compressor is a parameter. A nil slice and an empty one are the same list here, and the three regions of a
  decoded record that share one backing array are plain lists.
\<close>

section \<open>Records\<close>

record NZBSegment =
  seg_Number :: int
  seg_MessageID :: bytes
  seg_Bytes :: int
  seg_StartOffset :: int
  seg_EndOffset :: int
  seg_Group :: bytes
  seg_SegmentDataStart :: int

record NZBFile =
  file_NzbID :: bytes
  file_Name :: bytes
  file_InternalPath :: bytes
  file_Size :: int
  file_StartOffset :: int
  file_Segments :: "NZBSegment list"
  file_Groups :: "bytes list"
  file_FileType :: bytes
  file_Password :: bytes
  file_IsDeleted :: bool
  file_IsStored :: bool
  file_SegmentSize :: int
  file_EncryptionKey :: bytes
  file_EncryptionIV :: bytes
  file_IsEncrypted :: bool
  file_VolumeOrderVerified :: bool

record Par2SegmentRef =
  ref_MessageID :: bytes
  ref_Bytes :: int
  ref_Real :: bool

text \<open>\<^verbatim>\<open>Par2FileRef\<close> and \<^verbatim>\<open>PostedFileRef\<close> have the same fields.\<close>

record Par2FileRef =
  ref_Name :: bytes
  ref_Size :: int
  ref_Segments :: "Par2SegmentRef list"

type_synonym PostedFileRef = Par2FileRef

record Par2MatchRef =
  PostedName :: bytes
  match_FileID :: bytes
  NameMismatch :: bool

record NZB =
  nzb_ID :: bytes
  nzb_Name :: bytes
  nzb_Title :: bytes
  nzb_Path :: bytes
  nzb_TotalSize :: int
  nzb_DatePosted :: go_time
  nzb_Category :: bytes
  nzb_Groups :: "bytes list"
  nzb_Files :: "NZBFile list"
  nzb_Downloaded :: bool
  nzb_AddedOn :: go_time
  nzb_LastActivity :: go_time
  nzb_Status :: bytes
  nzb_Progress :: u64
  nzb_Percentage :: u64
  nzb_SizeDownloaded :: int
  nzb_ETA :: int
  nzb_Speed :: int
  nzb_CompletedOn :: go_time
  nzb_IsBad :: bool
  nzb_Storage :: bytes
  nzb_FailMessage :: bytes
  nzb_Password :: bytes
  nzb_Passwords :: "bytes list"
  nzb_ContentHash :: bytes
  nzb_Par2Files :: "Par2FileRef list"
  nzb_Par2Source :: "PostedFileRef list"
  nzb_Par2Match :: "Par2MatchRef list"

section \<open>Encoding\<close>

definition put_strings :: "bytes list \<Rightarrow> bytes" where
  "put_strings xs = put_uvarint (of_nat (length xs)) @ concat (map put_str xs)"

definition put_time :: "go_time \<Rightarrow> bytes" where
  "put_time t = put_varint (unix t)"

definition encode_file :: "NZBFile \<Rightarrow> bytes" where
  "encode_file f =
     put_str (file_Name f) @ put_str (file_InternalPath f) @ put_varint (file_Size f) @ put_varint (file_StartOffset f) @
     put_strings (file_Groups f) @ put_str (file_FileType f) @ put_str (file_Password f) @ put_boolean (file_IsDeleted f) @
     put_boolean (file_IsStored f) @ put_varint (file_SegmentSize f) @ put_raw (file_EncryptionKey f) @ put_raw (file_EncryptionIV f) @
     put_boolean (file_IsEncrypted f) @ put_uvarint (of_nat (length (file_Segments f)))"

definition encode_segment_ref :: "Par2SegmentRef \<Rightarrow> bytes" where
  "encode_segment_ref s = put_str (ref_MessageID s) @ put_varint (ref_Bytes s)"

definition encode_file_ref :: "Par2FileRef \<Rightarrow> bytes" where
  "encode_file_ref f =
     put_str (ref_Name f) @ put_varint (ref_Size f) @
     put_uvarint (of_nat (length (ref_Segments f))) @ concat (map encode_segment_ref (ref_Segments f))"

definition writePar2FileRefs :: "Par2FileRef list \<Rightarrow> bytes" where
  "writePar2FileRefs files = put_uvarint (of_nat (length files)) @ concat (map encode_file_ref files)"

definition par2RealTargets :: "Par2FileRef list \<Rightarrow> PostedFileRef list \<Rightarrow> Par2SegmentRef list list" where
  "par2RealTargets par2 source = map ref_Segments par2 @ map ref_Segments source"

text \<open>The packed bits: bit \<open>i\<close> is counted from the most significant end of byte \<open>i div 8\<close>.\<close>

definition pack_bits :: "bool list \<Rightarrow> bytes" where
  "pack_bits rs =
     fold (\<lambda>i bits. if rs ! i then bits[i div 8 := bits ! (i div 8) OR push_bit (7 - i mod 8) 1] else bits)
       [0..<length rs] (replicate ((length rs + 7) div 8) 0)"

definition writeRealBitset :: "Par2SegmentRef list list \<Rightarrow> bytes" where
  "writeRealBitset segLists =
     (let rs = map ref_Real (concat segLists)
      in put_uvarint (of_nat (length rs)) @ (if rs = [] then [] else pack_bits rs))"

definition encode_match_ref :: "Par2MatchRef \<Rightarrow> bytes" where
  "encode_match_ref m = put_str (PostedName m) @ match_FileID m @ put_boolean (NameMismatch m)"

definition writePar2MatchRefs :: "Par2MatchRef list \<Rightarrow> bytes" where
  "writePar2MatchRefs refs = put_uvarint (of_nat (length refs)) @ concat (map encode_match_ref refs)"

text \<open>The original layout, and what later versions append to it, oldest first.\<close>

definition header_base :: "NZB \<Rightarrow> bytes" where
  "header_base nzb =
     put_str (nzb_ID nzb) @ put_str (nzb_Name nzb) @ put_str (nzb_Title nzb) @ put_str (nzb_Path nzb) @ put_varint (nzb_TotalSize nzb) @
     put_time (nzb_DatePosted nzb) @ put_str (nzb_Category nzb) @ put_strings (nzb_Groups nzb) @ put_boolean (nzb_Downloaded nzb) @
     put_time (nzb_AddedOn nzb) @ put_time (nzb_LastActivity nzb) @ put_str (nzb_Status nzb) @ put_f64 (nzb_Progress nzb) @
     put_f64 (nzb_Percentage nzb) @ put_varint (nzb_SizeDownloaded nzb) @ put_varint (nzb_ETA nzb) @ put_varint (nzb_Speed nzb) @
     put_time (nzb_CompletedOn nzb) @ put_boolean (nzb_IsBad nzb) @ put_str (nzb_Storage nzb) @ put_str (nzb_FailMessage nzb) @
     put_str (nzb_Password nzb) @ put_uvarint (of_nat (length (nzb_Files nzb))) @ concat (map encode_file (nzb_Files nzb))"

definition header_trailers :: "NZB \<Rightarrow> bytes list" where
  "header_trailers nzb =
     [writePar2FileRefs (nzb_Par2Files nzb) @ writePar2FileRefs (nzb_Par2Source nzb),
      writeRealBitset (par2RealTargets (nzb_Par2Files nzb) (nzb_Par2Source nzb)),
      writePar2MatchRefs (nzb_Par2Match nzb),
      put_str (nzb_ContentHash nzb),
      put_uvarint (of_nat (length (nzb_Files nzb))) @ concat (map (\<lambda>f. put_boolean (file_VolumeOrderVerified f)) (nzb_Files nzb))]"

definition encodeHeader :: "NZB \<Rightarrow> bytes" where
  "encodeHeader nzb = header_base nzb @ concat (header_trailers nzb)"

text \<open>The interning table of group names: the index of each name seen, and the names in order.\<close>

type_synonym group_table = "(bytes \<rightharpoonup> u64) \<times> bytes list"

definition idxOf :: "bytes \<Rightarrow> group_table \<Rightarrow> u64 \<times> group_table" where
  "idxOf g t =
     (case fst t g of
        Some i \<Rightarrow> (i, t)
      | None \<Rightarrow> let i = of_nat (length (snd t)) in (i, ((fst t)(g \<mapsto> i), snd t @ [g])))"

fun intern_all :: "bytes list \<Rightarrow> group_table \<Rightarrow> u64 list \<times> group_table" where
  "intern_all [] t = ([], t)"
| "intern_all (g # gs) t = (let (i, t1) = idxOf g t; (is, t2) = intern_all gs t1 in (i # is, t2))"

definition all_segments :: "NZB \<Rightarrow> NZBSegment list" where
  "all_segments nzb = concat (map file_Segments (nzb_Files nzb))"

definition encodeSegments :: "NZB \<Rightarrow> bytes \<times> bytes" where
  "encodeSegments nzb =
     (let segs = all_segments nzb;
          (idxCol, table) = intern_all (map seg_Group segs) (Map.empty, []);
          column = (\<lambda>field. concat (map (\<lambda>s. put_varint (field s)) segs))
      in (put_strings (snd table) @ column seg_Number @ column seg_Bytes @ column seg_StartOffset @ column seg_EndOffset @
          column seg_SegmentDataStart @ concat (map put_uvarint idxCol),
          concat (map (\<lambda>s. put_str (seg_MessageID s)) segs)))"

abbreviation codecMagicV2 :: byte where "codecMagicV2 \<equiv> 0xB1"

definition encodeNZBV2 :: "(bytes \<Rightarrow> bytes) \<Rightarrow> NZB \<Rightarrow> bytes" where
  "encodeNZBV2 compress nzb =
     (let hc = compress (encodeHeader nzb); sc = compress (fst (encodeSegments nzb)); mc = compress (snd (encodeSegments nzb))
      in [codecMagicV2] @ put_uvarint (of_nat (length hc)) @ hc @ put_uvarint (of_nat (length sc)) @ sc @ mc)"

section \<open>Decoding\<close>

definition isCodecV2 :: "bytes \<Rightarrow> bool" where
  "isCodecV2 data \<longleftrightarrow> data \<noteq> [] \<and> hd data = codecMagicV2"

definition splitRegions :: "bytes \<Rightarrow> codec_error + bytes \<times> bytes \<times> bytes" where
  "splitRegions data =
     (if \<not> isCodecV2 data then Inl NotV2
      else map_sum (\<lambda>e. e) fst
        (rbind (take_span HeaderRegionOutOfRange) (\<lambda>hc. rbind (take_span SegRegionOutOfRange) (\<lambda>sc r.
          (case slice_of (rd_buf r) (rd_pos r) (int (length (rd_buf r))) of Inl e \<Rightarrow> Inl e | Inr mc \<Rightarrow> Inr ((hc, sc, mc), r))))
        \<lparr>rd_buf = data, rd_pos = 1\<rparr>))"

abbreviation maxSegmentsPerFile :: u64 where "maxSegmentsPerFile \<equiv> 4194304"

text \<open>One pass of the loop over the files: the record and its number of segments.\<close>

definition decode_file :: "bytes \<Rightarrow> nat \<Rightarrow> (NZBFile \<times> nat) reader" where
  "decode_file nzbID i =
     rbind strCopy (\<lambda>name. rbind strCopy (\<lambda>path. rbind get_varint (\<lambda>sz. rbind get_varint (\<lambda>start.
     rbind readStrings (\<lambda>groups. rbind strCopy (\<lambda>ft. rbind strCopy (\<lambda>pw. rbind get_boolean (\<lambda>deleted.
     rbind get_boolean (\<lambda>stored. rbind get_varint (\<lambda>segSize. rbind bytesCopy (\<lambda>key. rbind bytesCopy (\<lambda>iv.
     rbind get_boolean (\<lambda>enc. rbind get_uvarint (\<lambda>c. rbind (rguard (\<not> c > maxSegmentsPerFile) (SegmentCountExceeds i c)) (\<lambda>_.
     rret (\<lparr>file_NzbID = nzbID, file_Name = name, file_InternalPath = path, file_Size = sz, file_StartOffset = start,
            file_Segments = [], file_Groups = groups, file_FileType = ft, file_Password = pw, file_IsDeleted = deleted,
            file_IsStored = stored, file_SegmentSize = segSize, file_EncryptionKey = key, file_EncryptionIV = iv,
            file_IsEncrypted = enc, file_VolumeOrderVerified = False\<rparr>, unat c))))))))))))))))"

definition decode_segment_ref :: "Par2SegmentRef reader" where
  "decode_segment_ref =
     rbind strCopy (\<lambda>m. rbind get_varint (\<lambda>n. rret \<lparr>ref_MessageID = m, ref_Bytes = n, ref_Real = False\<rparr>))"

definition readPar2Segments :: "Par2SegmentRef list reader" where
  "readPar2Segments = rbind get_uvarint (\<lambda>n. if n = 0 then rret []
     else rbind (countFits n ''segment'') (\<lambda>_. rmany (unat n) decode_segment_ref))"

definition decode_file_ref :: "Par2FileRef reader" where
  "decode_file_ref = rbind strCopy (\<lambda>name. rbind get_varint (\<lambda>sz. rbind readPar2Segments (\<lambda>segs.
     rret \<lparr>ref_Name = name, ref_Size = sz, ref_Segments = segs\<rparr>)))"

definition readPar2FileRefs :: "Par2FileRef list reader" where
  "readPar2FileRefs = rbind get_uvarint (\<lambda>n. if n = 0 then rret []
     else rbind (countFits n ''par2 file'') (\<lambda>_. rmany (unat n) decode_file_ref))"

definition readPostedFileRefs :: "PostedFileRef list reader" where
  "readPostedFileRefs = rbind get_uvarint (\<lambda>n. if n = 0 then rret []
     else rbind (countFits n ''posted file'') (\<lambda>_. rmany (unat n) decode_file_ref))"

text \<open>Marking the segments from the bitset, \<open>i\<close> being the running index over all the lists.\<close>

fun set_real :: "bytes \<Rightarrow> nat \<Rightarrow> Par2SegmentRef list \<Rightarrow> Par2SegmentRef list" where
  "set_real bits i [] = []"
| "set_real bits i (s # ss) =
     s\<lparr>ref_Real := (bits ! (i div 8) AND push_bit (7 - i mod 8) 1 \<noteq> 0)\<rparr> # set_real bits (i + 1) ss"

fun set_reals :: "bytes \<Rightarrow> nat \<Rightarrow> Par2SegmentRef list list \<Rightarrow> Par2SegmentRef list list" where
  "set_reals bits i [] = []"
| "set_reals bits i (l # ls) = set_real bits i l # set_reals bits (i + length l) ls"

definition read_bits :: "Par2SegmentRef list list \<Rightarrow> u64 \<Rightarrow> Par2SegmentRef list list reader" where
  "read_bits segLists count r =
     (if count > word_of_int (8 * int (length (rd_buf r))) then Inl (BitsetImplausible count)
      else let nbytes = i64 (uint ((count + 7) div 8)); hi = i64 (rd_pos r + nbytes)
           in if hi > int (length (rd_buf r)) then Inl BitsetOutOfRange
              else case slice_of (rd_buf r) (rd_pos r) hi of
                     Inl e \<Rightarrow> Inl e
                   | Inr bits \<Rightarrow>
                       let actual = length (concat segLists); r' = r\<lparr>rd_pos := hi\<rparr>
                       in if int actual \<noteq> uint count then Inr (segLists, r')
                          else if \<not> actual \<le> 8 * length bits then Inl CodecPanic
                          else Inr (set_reals bits 0 segLists, r'))"

definition readRealBitset :: "Par2SegmentRef list list \<Rightarrow> Par2SegmentRef list list reader" where
  "readRealBitset segLists = rbind get_uvarint (read_bits segLists)"

definition decode_match_ref :: "Par2MatchRef reader" where
  "decode_match_ref = rbind strCopy (\<lambda>name. rbind
     (\<lambda>r. if i64 (rd_pos r + 16) > int (length (rd_buf r)) then Inl MatchIDOutOfRange
          else case slice_of (rd_buf r) (rd_pos r) (rd_pos r + 16) of
                 Inl e \<Rightarrow> Inl e | Inr b \<Rightarrow> Inr (b, r\<lparr>rd_pos := rd_pos r + 16\<rparr>)) (\<lambda>fid.
     rbind get_boolean (\<lambda>mismatch. rret \<lparr>PostedName = name, match_FileID = fid, NameMismatch = mismatch\<rparr>)))"

definition readPar2MatchRefs :: "Par2MatchRef list reader" where
  "readPar2MatchRefs = rbind get_uvarint (\<lambda>n. if n = 0 then rret []
     else rbind (\<lambda>r. rguard (\<not> n > of_nat (length (rd_buf r))) (MatchCountImplausible n) r) (\<lambda>_. rmany (unat n) decode_match_ref))"

text \<open>What later versions append, each read only if the header goes on.\<close>

definition decode_volume_flags :: "NZB \<Rightarrow> NZB reader" where
  "decode_volume_flags nzb = rbind get_uvarint (\<lambda>n.
     rbind (rguard (n = of_nat (length (nzb_Files nzb))) (VolumeOrderCount n (length (nzb_Files nzb)))) (\<lambda>_.
     rbind (rmany (length (nzb_Files nzb)) get_boolean) (\<lambda>flags.
     rret (nzb\<lparr>nzb_Files := map2 (\<lambda>f b. f\<lparr>file_VolumeOrderVerified := b\<rparr>) (nzb_Files nzb) flags\<rparr>))))"

definition decode_content_hash :: "NZB \<Rightarrow> NZB reader" where
  "decode_content_hash nzb = rbind strCopy (\<lambda>h.
     let nzb1 = nzb\<lparr>nzb_ContentHash := h\<rparr> in rmore nzb1 (decode_volume_flags nzb1))"

definition decode_match :: "NZB \<Rightarrow> NZB reader" where
  "decode_match nzb = rbind readPar2MatchRefs (\<lambda>m.
     let nzb1 = nzb\<lparr>nzb_Par2Match := m\<rparr> in rmore nzb1 (decode_content_hash nzb1))"

definition put_targets :: "Par2SegmentRef list list \<Rightarrow> NZB \<Rightarrow> NZB" where
  "put_targets segLists nzb =
     (let fill = map2 (\<lambda>f l. f\<lparr>ref_Segments := l\<rparr>); n = length (nzb_Par2Files nzb)
      in nzb\<lparr>nzb_Par2Files := fill (nzb_Par2Files nzb) (take n segLists), nzb_Par2Source := fill (nzb_Par2Source nzb) (drop n segLists)\<rparr>)"

definition decode_bitset :: "NZB \<Rightarrow> NZB reader" where
  "decode_bitset nzb = rbind (readRealBitset (par2RealTargets (nzb_Par2Files nzb) (nzb_Par2Source nzb))) (\<lambda>segLists.
     let nzb1 = put_targets segLists nzb in rmore nzb1 (decode_match nzb1))"

definition decode_par2 :: "NZB \<Rightarrow> NZB reader" where
  "decode_par2 nzb = rbind readPar2FileRefs (\<lambda>files. rbind readPostedFileRefs (\<lambda>source.
     let nzb1 = nzb\<lparr>nzb_Par2Files := files, nzb_Par2Source := source\<rparr> in rmore nzb1 (decode_bitset nzb1)))"

definition decode_base :: "(NZB \<times> nat list) reader" where
  "decode_base =
     rbind strCopy (\<lambda>i. rbind strCopy (\<lambda>name. rbind strCopy (\<lambda>title. rbind strCopy (\<lambda>path. rbind get_varint (\<lambda>total_size.
     rbind readTime (\<lambda>posted. rbind strCopy (\<lambda>category. rbind readStrings (\<lambda>groups. rbind get_boolean (\<lambda>downloaded.
     rbind readTime (\<lambda>added. rbind readTime (\<lambda>activity. rbind strCopy (\<lambda>status. rbind get_f64 (\<lambda>progress.
     rbind get_f64 (\<lambda>percentage. rbind get_varint (\<lambda>sized. rbind get_varint (\<lambda>eta. rbind get_varint (\<lambda>speed.
     rbind readTime (\<lambda>completed. rbind get_boolean (\<lambda>bad. rbind strCopy (\<lambda>store. rbind strCopy (\<lambda>msg.
     rbind strCopy (\<lambda>pw. rbind get_uvarint (\<lambda>nFiles. rbind (countFits nFiles ''file'') (\<lambda>_.
     rbind (rmap (decode_file i) [0..<unat nFiles]) (\<lambda>files.
     rret (\<lparr>nzb_ID = i, nzb_Name = name, nzb_Title = title, nzb_Path = path, nzb_TotalSize = total_size, nzb_DatePosted = posted,
            nzb_Category = category, nzb_Groups = groups, nzb_Files = map fst files, nzb_Downloaded = downloaded,
            nzb_AddedOn = added, nzb_LastActivity = activity, nzb_Status = status, nzb_Progress = progress,
            nzb_Percentage = percentage, nzb_SizeDownloaded = sized, nzb_ETA = eta, nzb_Speed = speed, nzb_CompletedOn = completed,
            nzb_IsBad = bad, nzb_Storage = store, nzb_FailMessage = msg, nzb_Password = pw, nzb_Passwords = [],
            nzb_ContentHash = [], nzb_Par2Files = [], nzb_Par2Source = [], nzb_Par2Match = []\<rparr>,
           map snd files))))))))))))))))))))))))))"

definition decodeHeader :: "bytes \<Rightarrow> codec_error + NZB \<times> nat list" where
  "decodeHeader buf =
     map_sum (\<lambda>e. e) fst
       (rbind decode_base (\<lambda>(nzb, counts). rbind (rmore nzb (decode_par2 nzb)) (\<lambda>nzb'. rret (nzb', counts)))
         \<lparr>rd_buf = buf, rd_pos = 0\<rparr>)"

text \<open>A group index is compared as a signed number and used as an unsigned one.\<close>

definition read_group :: "bytes list \<Rightarrow> bytes reader" where
  "read_group groups = rbind get_uvarint (\<lambda>idx.
     if i64 (uint idx) \<ge> int (length groups) then rfail (GroupIndexOutOfRange idx)
     else if unat idx < length groups then rret (groups ! unat idx) else rfail CodecPanic)"

definition decode_columns :: "nat \<Rightarrow> NZBSegment list reader" where
  "decode_columns n =
     rbind readStrings (\<lambda>groups. rbind (rmany n get_varint) (\<lambda>numbers. rbind (rmany n get_varint) (\<lambda>sizes.
     rbind (rmany n get_varint) (\<lambda>starts. rbind (rmany n get_varint) (\<lambda>ends. rbind (rmany n get_varint) (\<lambda>data.
     rbind (rmany n (read_group groups)) (\<lambda>gs.
     rret (map (\<lambda>k. \<lparr>seg_Number = numbers ! k, seg_MessageID = [], seg_Bytes = sizes ! k, seg_StartOffset = starts ! k,
                        seg_EndOffset = ends ! k, seg_Group = gs ! k, seg_SegmentDataStart = data ! k\<rparr>) [0..<n]))))))))"

fun hand_out :: "nat list \<Rightarrow> NZBSegment list \<Rightarrow> NZBFile list \<Rightarrow> NZBFile list" where
  "hand_out (c # counts) segs (f # files) = f\<lparr>file_Segments := take c segs\<rparr> # hand_out counts (drop c segs) files"
| "hand_out counts segs files = []"

definition decodeSegments :: "NZB \<Rightarrow> nat list \<Rightarrow> bytes \<Rightarrow> bytes \<Rightarrow> codec_error + NZB" where
  "decodeSegments nzb counts segMeta msgIDs =
     (let total_segs = fold (\<lambda>c t. i64 (t + int c)) counts 0; n = nat total_segs
      in if total_segs > int (length segMeta) then Inl (SegmentsCannotFit total_segs (int (length segMeta)))
         else if total_segs < 0 then Inl CodecPanic
         else case decode_columns n \<lparr>rd_buf = segMeta, rd_pos = 0\<rparr> of
                Inl e \<Rightarrow> Inl e
              | Inr (segs, _) \<Rightarrow>
                  (case rmany n strAlias \<lparr>rd_buf = msgIDs, rd_pos = 0\<rparr> of
                     Inl e \<Rightarrow> Inl e
                   | Inr (ids, _) \<Rightarrow> Inr (nzb\<lparr>nzb_Files := hand_out counts (map2 (\<lambda>s m. s\<lparr>seg_MessageID := m\<rparr>) segs ids) (nzb_Files nzb)\<rparr>)))"

definition decodeNZBV2Header :: "(bytes \<Rightarrow> bytes option) \<Rightarrow> bytes \<Rightarrow> codec_error + NZB" where
  "decodeNZBV2Header decompress data =
     (case splitRegions data of
        Inl e \<Rightarrow> Inl e
      | Inr (hc, _, _) \<Rightarrow>
          (case decompress hc of None \<Rightarrow> Inl DecompressHeader | Some header \<Rightarrow> map_sum (\<lambda>e. e) fst (decodeHeader header)))"

definition decodeNZBV2 :: "(bytes \<Rightarrow> bytes option) \<Rightarrow> bytes \<Rightarrow> codec_error + NZB" where
  "decodeNZBV2 decompress data =
     (case splitRegions data of
        Inl e \<Rightarrow> Inl e
      | Inr (hc, sc, mc) \<Rightarrow>
          (case decompress hc of
             None \<Rightarrow> Inl DecompressHeader
           | Some header \<Rightarrow>
               (case decodeHeader header of
                  Inl e \<Rightarrow> Inl e
                | Inr (nzb, counts) \<Rightarrow>
                    (case decompress sc of
                       None \<Rightarrow> Inl DecompressSegMeta
                     | Some segMeta \<Rightarrow>
                         (case decompress mc of
                            None \<Rightarrow> Inl DecompressMsgIDs
                          | Some msgIDs \<Rightarrow> decodeSegments nzb counts segMeta msgIDs)))))"

end
