(* ===== verification/Nzb_Round_Trip.thy ===== *)
theory Nzb_Round_Trip
  imports Nzb_Codec
begin

text \<open>
  What decoding an encoded NZB record gives: the record itself, up to what the format does not keep. The proofs
  follow the format: each encoded part is read back by its reader wherever it stands (\<^term>\<open>reads\<close>), and the parts
  that later versions appended are read to the end of the header (\<^term>\<open>reads_end\<close>), so that headers which stop
  earlier decode as well.
\<close>

section \<open>Records within machine bounds\<close>

definition seg_ok :: "NZBSegment \<Rightarrow> bool" where
  "seg_ok s \<longleftrightarrow> is_i64 (seg_Number s) \<and> is_i64 (seg_Bytes s) \<and> is_i64 (seg_StartOffset s) \<and> is_i64 (seg_EndOffset s) \<and>
     is_i64 (seg_SegmentDataStart s)"

definition file_ok :: "NZBFile \<Rightarrow> bool" where
  "file_ok f \<longleftrightarrow> is_i64 (file_Size f) \<and> is_i64 (file_StartOffset f) \<and> is_i64 (file_SegmentSize f) \<and>
     length (file_Segments f) \<le> 4194304 \<and> (\<forall>s \<in> set (file_Segments f). seg_ok s)"

definition ref_ok :: "Par2FileRef \<Rightarrow> bool" where
  "ref_ok f \<longleftrightarrow> is_i64 (ref_Size f) \<and> (\<forall>s \<in> set (ref_Segments f). is_i64 (ref_Bytes s))"

text \<open>The integers are in range, the file ids have their sixteen bytes, and no file has more segments than decoding
  accepts.\<close>

definition nzb_ok :: "NZB \<Rightarrow> bool" where
  "nzb_ok nzb \<longleftrightarrow>
     is_i64 (nzb_TotalSize nzb) \<and> is_i64 (unix (nzb_DatePosted nzb)) \<and> is_i64 (unix (nzb_AddedOn nzb)) \<and>
     is_i64 (unix (nzb_LastActivity nzb)) \<and> is_i64 (unix (nzb_CompletedOn nzb)) \<and> is_i64 (nzb_SizeDownloaded nzb) \<and>
     is_i64 (nzb_ETA nzb) \<and> is_i64 (nzb_Speed nzb) \<and> (\<forall>f \<in> set (nzb_Files nzb). file_ok f) \<and>
     (\<forall>f \<in> set (nzb_Par2Files nzb). ref_ok f) \<and> (\<forall>f \<in> set (nzb_Par2Source nzb). ref_ok f) \<and>
     (\<forall>m \<in> set (nzb_Par2Match nzb). length (match_FileID m) = 16)"

text \<open>What is kept: times to the second, the files under the record's own id, no candidate passwords.\<close>

definition stored :: "NZB \<Rightarrow> NZB" where
  "stored nzb = nzb\<lparr>nzb_DatePosted := (nzb_DatePosted nzb)\<lparr>nsec := 0\<rparr>, nzb_AddedOn := (nzb_AddedOn nzb)\<lparr>nsec := 0\<rparr>,
     nzb_LastActivity := (nzb_LastActivity nzb)\<lparr>nsec := 0\<rparr>, nzb_CompletedOn := (nzb_CompletedOn nzb)\<lparr>nsec := 0\<rparr>,
     nzb_Files := map (\<lambda>f. f\<lparr>file_NzbID := nzb_ID nzb\<rparr>) (nzb_Files nzb), nzb_Passwords := []\<rparr>"

section \<open>The parts of the header\<close>

lemma reads_app_nil: "reads p (w @ []) v \<Longrightarrow> reads p w v"
  by simp

lemma reads_rret_eq: "v = v' \<Longrightarrow> reads (rret v) [] v'"
  by (simp add: reads_rret)

lemma reads_guard: "c \<Longrightarrow> reads p w v \<Longrightarrow> reads (rbind (rguard c e) (\<lambda>_. p)) w v"
  by (simp add: reads_def rbind_def rguard_def)

lemma reads_put_strings: "reads readStrings (put_strings xs) xs"
  unfolding put_strings_def by (rule reads_strings)

lemma reads_put_time: "is_i64 (unix t) \<Longrightarrow> reads readTime (put_time t) (t\<lparr>nsec := 0\<rparr>)"
  unfolding put_time_def using reads_time [of "unix t"] by (cases t) simp

lemmas reads_fields = reads_strs reads_varint reads_uvarint reads_boolean reads_f64 reads_put_strings reads_put_time

lemma encode_ne [simp]:
  "encode_file f \<noteq> []" "encode_segment_ref s \<noteq> []" "encode_file_ref r \<noteq> []" "encode_match_ref m \<noteq> []"
  by (simp_all add: encode_file_def encode_segment_ref_def encode_file_ref_def encode_match_ref_def)

definition header_file :: "bytes \<Rightarrow> NZBFile \<Rightarrow> NZBFile" where
  "header_file nzbID f = f\<lparr>file_NzbID := nzbID, file_Segments := [], file_VolumeOrderVerified := False\<rparr>"

lemma reads_decode_file:
  assumes "file_ok f"
  shows "reads (decode_file nzbID i) (encode_file f) (header_file nzbID f, length (file_Segments f))"
proof -
  have c: "unat (of_nat (length (file_Segments f)) :: u64) = length (file_Segments f)"
    "\<not> (of_nat (length (file_Segments f)) :: u64) > maxSegmentsPerFile"
    using assms by (simp_all add: file_ok_def unat_of_nat take_bit_eq_mod word_less_nat_alt)
  show ?thesis
    unfolding decode_file_def encode_file_def
    apply (rule reads_app_nil)
    unfolding append_assoc
    apply (rule reads_rbind reads_fields reads_guard c reads_rret_eq | (use assms in \<open>simp add: file_ok_def; fail\<close>))+
    apply (simp add: header_file_def c)
    done
qed

lemma reads_segment_ref: "is_i64 (ref_Bytes s) \<Longrightarrow> reads decode_segment_ref (encode_segment_ref s) (s\<lparr>ref_Real := False\<rparr>)"
  unfolding decode_segment_ref_def encode_segment_ref_def
  apply (rule reads_app_nil)
  unfolding append_assoc
  by (rule reads_rbind reads_fields reads_rret_eq | simp)+

lemma reads_file_ref:
  assumes "ref_ok f"
  shows "reads decode_file_ref (encode_file_ref f) (f\<lparr>ref_Segments := map (\<lambda>s. s\<lparr>ref_Real := False\<rparr>) (ref_Segments f)\<rparr>)"
proof -
  have "reads readPar2Segments (put_uvarint (of_nat (length (ref_Segments f))) @ concat (map encode_segment_ref (ref_Segments f)))
      (map (\<lambda>s. s\<lparr>ref_Real := False\<rparr>) (ref_Segments f))"
    unfolding readPar2Segments_def by (rule reads_counted) (use assms in \<open>auto simp: ref_ok_def reads_segment_ref\<close>)
  then have "reads (rbind readPar2Segments (\<lambda>segs. rret \<lparr>ref_Name = ref_Name f, ref_Size = ref_Size f, ref_Segments = segs\<rparr>))
      (put_uvarint (of_nat (length (ref_Segments f))) @ concat (map encode_segment_ref (ref_Segments f)))
      (f\<lparr>ref_Segments := map (\<lambda>s. s\<lparr>ref_Real := False\<rparr>) (ref_Segments f)\<rparr>)"
    by (rule reads_rbind_last) (simp add: reads_rret_eq)
  then show ?thesis
    unfolding decode_file_ref_def encode_file_ref_def
    using assms by (intro reads_rbind [OF reads_strs(1)] reads_rbind [OF reads_varint]) (simp_all add: ref_ok_def)
qed

abbreviation unmarked :: "Par2FileRef list \<Rightarrow> Par2FileRef list" where
  "unmarked \<equiv> map (\<lambda>f. f\<lparr>ref_Segments := map (\<lambda>s. s\<lparr>ref_Real := False\<rparr>) (ref_Segments f)\<rparr>)"

lemma reads_par2_refs:
  assumes "\<forall>f \<in> set files. ref_ok f"
  shows "reads readPar2FileRefs (writePar2FileRefs files) (unmarked files)"
    "reads readPostedFileRefs (writePar2FileRefs files) (unmarked files)"
  unfolding readPar2FileRefs_def readPostedFileRefs_def writePar2FileRefs_def
  by (rule reads_counted; use assms in \<open>simp add: reads_file_ref\<close>)+

section \<open>The bitset\<close>

lemma pack_step:
  assumes m: "m < n" "length bits = (n + 7) div 8"
    and inv: "\<And>i. i < n \<Longrightarrow> bit (bits ! (i div 8)) (7 - i mod 8) \<longleftrightarrow> i < m \<and> rs ! i"
    and bits': "bits' = (if rs ! m then bits[m div 8 := bits ! (m div 8) OR push_bit (7 - m mod 8) (1 :: byte)] else bits)"
    and i: "i < n"
  shows "bit (bits' ! (i div 8)) (7 - i mod 8) \<longleftrightarrow> i < Suc m \<and> rs ! i"
proof (cases "rs ! m \<and> i div 8 = m div 8")
  case True
  have k: "m div 8 < length bits" using m by simp
  have "bits' ! (i div 8) = bits ! (i div 8) OR push_bit (7 - m mod 8) 1" using True k by (simp add: bits')
  moreover have "bit (push_bit (7 - m mod 8) (1 :: byte)) (7 - i mod 8) \<longleftrightarrow> i = m"
  proof -
    have "i mod 8 < 8" "m mod 8 < 8" by simp_all
    moreover have "i = m" if "i mod 8 = m mod 8" using that True by (metis mult_div_mod_eq)
    moreover have "bit (push_bit (7 - m mod 8) (1 :: byte)) (7 - i mod 8) \<longleftrightarrow> 7 - i mod 8 = 7 - m mod 8"
      using bit_exp_iff [of "7 - m mod 8" "7 - i mod 8", where ?'a = byte] by (auto simp: possible_bit_def)
    moreover have "7 - i mod 8 = 7 - m mod 8 \<longleftrightarrow> i mod 8 = m mod 8" using calculation(1,2) by linarith
    ultimately show ?thesis by auto
  qed
  ultimately show ?thesis using inv [OF i] True by (auto simp: bit_or_iff less_Suc_eq)
next
  case False
  then have "bits' ! (i div 8) = bits ! (i div 8)" using m by (auto simp: bits' nth_list_update)
  then show ?thesis using inv [OF i] False by (auto simp: less_Suc_eq)
qed

lemma pack_bits:
  shows length_pack_bits: "length (pack_bits rs) = (length rs + 7) div 8"
    and bit_pack_bits: "i < length rs \<Longrightarrow> bit (pack_bits rs ! (i div 8)) (7 - i mod 8) \<longleftrightarrow> rs ! i"
proof -
  define step where
    "step = (\<lambda>i bits. if rs ! i then bits[i div 8 := bits ! (i div 8) OR push_bit (7 - i mod 8) (1 :: byte)] else bits)"
  have F: "length (fold step [0..<m] (replicate ((length rs + 7) div 8) 0)) = (length rs + 7) div 8 \<and>
      (\<forall>i < length rs. bit (fold step [0..<m] (replicate ((length rs + 7) div 8) 0) ! (i div 8)) (7 - i mod 8) \<longleftrightarrow> i < m \<and> rs ! i)"
    if "m \<le> length rs" for m
    using that
  proof (induction m)
    case 0
    have "i div 8 < (length rs + 7) div 8" if "i < length rs" for i using that by simp
    then show ?case by simp
  next
    case (Suc m)
    then show ?case
      using pack_step [of m "length rs" "fold step [0..<m] (replicate ((length rs + 7) div 8) 0)" rs
          "step m (fold step [0..<m] (replicate ((length rs + 7) div 8) 0))"]
      by (auto simp: step_def)
  qed
  have e: "pack_bits rs = fold step [0..<length rs] (replicate ((length rs + 7) div 8) 0)"
    by (simp add: pack_bits_def step_def)
  show "length (pack_bits rs) = (length rs + 7) div 8" using F [of "length rs"] e by simp
  show "i < length rs \<Longrightarrow> bit (pack_bits rs ! (i div 8)) (7 - i mod 8) \<longleftrightarrow> rs ! i" using F [of "length rs"] e by simp
qed

abbreviation unmark :: "Par2SegmentRef list \<Rightarrow> Par2SegmentRef list" where
  "unmark \<equiv> map (\<lambda>s. s\<lparr>ref_Real := False\<rparr>)"

lemma set_real_unmark:
  "(\<And>j. j < length l \<Longrightarrow> bit (bits ! ((i + j) div 8)) (7 - (i + j) mod 8) \<longleftrightarrow> ref_Real (l ! j)) \<Longrightarrow> set_real bits i (unmark l) = l"
proof (induction l arbitrary: i)
  case (Cons s l)
  have "bit (bits ! (i div 8)) (7 - i mod 8) \<longleftrightarrow> ref_Real s" using Cons.prems [of 0] by simp
  moreover have "set_real bits (i + 1) (unmark l) = l" using Cons.IH [of "i + 1"] Cons.prems [of "Suc _"] by simp
  ultimately show ?case by (simp add: bit_iff_and_push_bit_not_eq_0)
qed simp

lemma set_reals_unmark:
  "(\<And>j. j < length (concat ls) \<Longrightarrow> bit (bits ! ((i + j) div 8)) (7 - (i + j) mod 8) \<longleftrightarrow> ref_Real (concat ls ! j)) \<Longrightarrow>
   set_reals bits i (map unmark ls) = ls"
proof (induction ls arbitrary: i)
  case (Cons l ls)
  have "set_real bits i (unmark l) = l"
  proof (rule set_real_unmark)
    fix j assume "j < length l"
    then show "bit (bits ! ((i + j) div 8)) (7 - (i + j) mod 8) \<longleftrightarrow> ref_Real (l ! j)" using Cons.prems [of j] by (simp add: nth_append)
  qed
  moreover have "set_reals bits (i + length l) (map unmark ls) = ls"
  proof (rule Cons.IH)
    fix j assume "j < length (concat ls)"
    then show "bit (bits ! ((i + length l + j) div 8)) (7 - (i + length l + j) mod 8) \<longleftrightarrow> ref_Real (concat ls ! j)"
      using Cons.prems [of "length l + j"] by (simp add: nth_append add.assoc)
  qed
  ultimately show ?case by simp
qed simp

lemma of_nat_less_u64: "int m \<le> 8 * max_buf \<Longrightarrow> n \<le> m \<Longrightarrow> \<not> (of_nat m :: u64) < of_nat n"
  by (simp add: word_less_nat_alt unat_of_nat take_bit_eq_mod)

lemma reads_bitset: "reads (readRealBitset (map unmark ls)) (writeRealBitset ls) ls"
proof (rule reads_bounded)
  define rs where "rs = map ref_Real (concat ls)"
  have w: "writeRealBitset ls = put_uvarint (of_nat (length rs)) @ pack_bits rs"
    by (simp add: writeRealBitset_def Let_def rs_def [symmetric] pack_bits_def)
  assume "int (length (writeRealBitset ls)) \<le> max_buf"
  then have n: "length rs \<le> 8 * length (pack_bits rs)" "int (length (pack_bits rs)) \<le> max_buf"
    unfolding w by (simp_all add: length_pack_bits)
  have sets: "set_reals (pack_bits rs) 0 (map unmark ls) = ls"
    by (rule set_reals_unmark) (use bit_pack_bits [of _ rs] in \<open>simp add: rs_def\<close>)
  have cnt: "uint (of_nat (length rs) :: u64) = int (length rs)"
    using n by (simp add: uint_nat unat_of_nat take_bit_eq_mod)
  have len: "length (concat (map unmark ls)) = length rs" by (simp add: rs_def length_concat comp_def)
  have "unat (of_nat (length rs) + 7 :: u64) = length rs + 7"
    using n unat_of_nat [of "length rs + 7", where ?'a = 64] by (simp add: take_bit_eq_mod)
  then have "unat ((of_nat (length rs) + 7 :: u64) div 8) = length (pack_bits rs)" by (simp add: unat_div length_pack_bits)
  then have nb: "i64 (uint ((of_nat (length rs) + 7 :: u64) div 8)) = int (length (pack_bits rs))"
    using n(2) by (simp add: uint_nat i64_id)
  show "reads (readRealBitset (map unmark ls)) (writeRealBitset ls) ls"
    unfolding w readRealBitset_def
  proof (rule reads_rbind [OF reads_uvarint])
    show "reads (read_bits (map unmark ls) (of_nat (length rs))) (pack_bits rs) ls"
      unfolding reads_def
    proof (intro allI impI)
      fix pre suf
      assume l: "int (length (pre @ pack_bits rs @ suf)) \<le> max_buf"
      let ?r = "\<lparr>rd_buf = pre @ pack_bits rs @ suf, rd_pos = int (length pre)\<rparr>"
      have "\<not> (word_of_int (8 * int (length (rd_buf ?r))) :: u64) < of_nat (length rs)"
        using of_nat_less_u64 [of "8 * length (pre @ pack_bits rs @ suf)" "length rs"] l n(1) by simp
      moreover have "i64 (int (length pre) + int (length (pack_bits rs))) = int (length pre) + int (length (pack_bits rs))"
        using l by (intro i64_id) simp
      ultimately show "read_bits (map unmark ls) (of_nat (length rs)) ?r =
          Inr (ls, \<lparr>rd_buf = pre @ pack_bits rs @ suf, rd_pos = int (length (pre @ pack_bits rs))\<rparr>)"
        using n(1) sets slice_middle [of pre "pack_bits rs" suf] by (simp add: read_bits_def nb len cnt)
    qed
  qed
qed

section \<open>The header and its versions\<close>

lemma reads_file_id:
  "length w = 16 \<Longrightarrow> reads (\<lambda>r. if i64 (rd_pos r + 16) > int (length (rd_buf r)) then Inl MatchIDOutOfRange
     else case slice_of (rd_buf r) (rd_pos r) (rd_pos r + 16) of Inl e \<Rightarrow> Inl e | Inr b \<Rightarrow> Inr (b, r\<lparr>rd_pos := rd_pos r + 16\<rparr>)) w w"
  using slice_middle [of _ w] by (auto simp: reads_def i64_id)

lemma reads_match_ref: "length (match_FileID m) = 16 \<Longrightarrow> reads decode_match_ref (encode_match_ref m) m"
  unfolding decode_match_ref_def encode_match_ref_def
  apply (rule reads_app_nil)
  unfolding append_assoc
  by (rule reads_rbind reads_file_id reads_fields reads_rret_eq | simp)+

lemma reads_match_refs:
  assumes "\<forall>m \<in> set refs. length (match_FileID m) = 16"
  shows "reads readPar2MatchRefs (writePar2MatchRefs refs) refs"
proof (rule reads_bounded)
  let ?w = "concat (map encode_match_ref refs)"
  assume b: "int (length (writePar2MatchRefs refs)) \<le> max_buf"
  have len: "length refs \<le> length ?w" by (rule length_concat_ge) simp
  then have n: "unat (of_nat (length refs) :: u64) = length refs"
    using b by (intro unat_of_length) (simp add: writePar2MatchRefs_def)
  have many: "reads (rmany (length refs) decode_match_ref) ?w refs"
    using reads_rmany [of "length refs" refs decode_match_ref encode_match_ref "\<lambda>m. m"] assms by (simp add: reads_match_ref)
  have guarded: "reads (rbind (\<lambda>r. rguard (\<not> of_nat (length refs) > (of_nat (length (rd_buf r)) :: u64)) (MatchCountImplausible (of_nat (length refs))) r)
      (\<lambda>_. rmany (length refs) decode_match_ref)) ?w refs"
    unfolding reads_def
  proof (intro allI impI)
    fix pre suf
    assume l: "int (length (pre @ ?w @ suf)) \<le> max_buf"
    have "\<not> (of_nat (length (pre @ ?w @ suf)) :: u64) < of_nat (length refs)"
      by (rule of_nat_u64_le) (use l len in simp_all)
    then show "rbind (\<lambda>r. rguard (\<not> of_nat (length refs) > (of_nat (length (rd_buf r)) :: u64)) (MatchCountImplausible (of_nat (length refs))) r)
        (\<lambda>_. rmany (length refs) decode_match_ref) \<lparr>rd_buf = pre @ ?w @ suf, rd_pos = int (length pre)\<rparr> =
        Inr (refs, \<lparr>rd_buf = pre @ ?w @ suf, rd_pos = int (length (pre @ ?w))\<rparr>)"
      using readsD [OF many, of pre suf] l by (simp add: rbind_def rguard_def)
  qed
  have z: "refs \<noteq> [] \<Longrightarrow> of_nat (length refs) \<noteq> (0 :: u64)" using n by (metis length_0_conv unat_0)
  show "reads readPar2MatchRefs (writePar2MatchRefs refs) refs"
    unfolding readPar2MatchRefs_def writePar2MatchRefs_def
  proof (rule reads_rbind [OF reads_uvarint])
    show "reads (if of_nat (length refs) = (0 :: u64) then rret []
        else rbind (\<lambda>r. rguard (\<not> of_nat (length refs) > (of_nat (length (rd_buf r)) :: u64)) (MatchCountImplausible (of_nat (length refs))) r)
          (\<lambda>_. rmany (unat (of_nat (length refs) :: u64)) decode_match_ref)) ?w refs"
      using guarded z n by (cases "refs = []") (simp_all add: reads_rret)
  qed
qed

text \<open>The header of a record as a version that wrote \<open>k\<close> of the five appended parts stored it.\<close>

definition as_of :: "nat \<Rightarrow> NZB \<Rightarrow> NZB" where
  "as_of k nzb = (stored nzb)\<lparr>
     nzb_Files := map (\<lambda>f. f\<lparr>file_NzbID := nzb_ID nzb, file_Segments := [], file_VolumeOrderVerified := (5 \<le> k \<and> file_VolumeOrderVerified f)\<rparr>)
       (nzb_Files nzb),
     nzb_Par2Files := (if 2 \<le> k then nzb_Par2Files nzb else if 1 \<le> k then unmarked (nzb_Par2Files nzb) else []),
     nzb_Par2Source := (if 2 \<le> k then nzb_Par2Source nzb else if 1 \<le> k then unmarked (nzb_Par2Source nzb) else []),
     nzb_Par2Match := (if 3 \<le> k then nzb_Par2Match nzb else []),
     nzb_ContentHash := (if 4 \<le> k then nzb_ContentHash nzb else [])\<rparr>"

lemma reads_volume_flags:
  "reads_end (decode_volume_flags (as_of 4 nzb)) (header_trailers nzb ! 4) (as_of 5 nzb)"
proof -
  let ?fs = "nzb_Files nzb"
  have n: "length (nzb_Files (as_of 4 nzb)) = length ?fs" by (simp add: as_of_def)
  have flags: "reads (rmany (length ?fs) get_boolean) (concat (map (\<lambda>f. put_boolean (file_VolumeOrderVerified f)) ?fs))
      (map file_VolumeOrderVerified ?fs)"
    by (rule reads_rmany) (simp_all add: reads_boolean)
  have eq: "(as_of 4 nzb)\<lparr>nzb_Files := map2 (\<lambda>f b. f\<lparr>file_VolumeOrderVerified := b\<rparr>) (nzb_Files (as_of 4 nzb))
      (map file_VolumeOrderVerified ?fs)\<rparr> = as_of 5 nzb"
    by (simp add: as_of_def zip_map_map zip_same_conv_map comp_def)
  have t: "header_trailers nzb ! 4 = put_uvarint (of_nat (length ?fs)) @ concat (map (\<lambda>f. put_boolean (file_VolumeOrderVerified f)) ?fs)"
    by (simp add: header_trailers_def)
  have "reads (decode_volume_flags (as_of 4 nzb)) (header_trailers nzb ! 4) (as_of 5 nzb)"
    unfolding decode_volume_flags_def n t
    by (rule reads_rbind [OF reads_uvarint], rule reads_guard, simp, rule reads_rbind_last [OF flags], rule reads_rret_eq, rule eq)
  then show ?thesis by (rule reads_endI)
qed

text \<open>From each version on: the remaining parts, as far as the header has them.\<close>

abbreviation parts :: "nat \<Rightarrow> nat \<Rightarrow> NZB \<Rightarrow> bytes" where
  "parts k j nzb \<equiv> concat (take j (drop k (header_trailers nzb)))"

lemma parts_ne: "k < 5 \<Longrightarrow> header_trailers nzb ! k \<noteq> []"
  by (auto simp: header_trailers_def writePar2FileRefs_def writeRealBitset_def writePar2MatchRefs_def Let_def less_Suc_eq numeral_eq_Suc)

lemma parts_Suc: "k < 5 \<Longrightarrow> parts k (Suc j) nzb = header_trailers nzb ! k @ parts (Suc k) j nzb"
  using Cons_nth_drop_Suc [of k "header_trailers nzb", symmetric] by (simp add: header_trailers_def)

lemma reads_parts:
  assumes "k < 5" "\<And>j. j + Suc k \<le> 5 \<Longrightarrow> reads_end (dec (as_of k nzb)) (header_trailers nzb ! k @ parts (Suc k) j nzb) (as_of (Suc k + j) nzb)"
    and "j + k \<le> 5"
  shows "reads_end (rmore (as_of k nzb) (dec (as_of k nzb))) (parts k j nzb) (as_of (k + j) nzb)"
proof (cases j)
  case 0
  then show ?thesis by (simp add: reads_end_stop)
next
  case (Suc j')
  have "reads_end (dec (as_of k nzb)) (parts k j nzb) (as_of (k + j) nzb)"
    using assms(2) [of j'] assms(3) Suc by (simp add: parts_Suc [OF assms(1)] del: take_Suc)
  moreover have "parts k j nzb \<noteq> []" using parts_ne [OF assms(1)] by (simp add: Suc parts_Suc [OF assms(1)] del: take_Suc)
  ultimately show ?thesis by (intro reads_end_rmore)
qed

lemma reads_from_4: "j + 4 \<le> 5 \<Longrightarrow> reads_end (rmore (as_of 4 nzb) (decode_volume_flags (as_of 4 nzb))) (parts 4 j nzb) (as_of (4 + j) nzb)"
  by (rule reads_parts) (use reads_volume_flags in \<open>simp_all add: header_trailers_def\<close>)

lemma reads_from_3: "j + 3 \<le> 5 \<Longrightarrow> reads_end (rmore (as_of 3 nzb) (decode_content_hash (as_of 3 nzb))) (parts 3 j nzb) (as_of (3 + j) nzb)"
proof (rule reads_parts)
  fix j assume j: "j + Suc 3 \<le> (5 :: nat)"
  show "reads_end (decode_content_hash (as_of 3 nzb)) (header_trailers nzb ! 3 @ parts (Suc 3) j nzb) (as_of (Suc 3 + j) nzb)"
    unfolding decode_content_hash_def
  proof (rule reads_end_rbind)
    show "reads strCopy (header_trailers nzb ! 3) (nzb_ContentHash nzb)" by (simp add: header_trailers_def reads_strs)
    have "(as_of 3 nzb)\<lparr>nzb_ContentHash := nzb_ContentHash nzb\<rparr> = as_of 4 nzb" by (simp add: as_of_def)
    then show "reads_end (let nzb1 = (as_of 3 nzb)\<lparr>nzb_ContentHash := nzb_ContentHash nzb\<rparr> in rmore nzb1 (decode_volume_flags nzb1))
        (parts (Suc 3) j nzb) (as_of (Suc 3 + j) nzb)"
      using reads_from_4 [of j nzb] j by (simp add: Let_def)
  qed
qed simp_all

lemma reads_from_2:
  assumes "nzb_ok nzb"
  shows "j + 2 \<le> 5 \<Longrightarrow> reads_end (rmore (as_of 2 nzb) (decode_match (as_of 2 nzb))) (parts 2 j nzb) (as_of (2 + j) nzb)"
proof (rule reads_parts)
  fix j assume j: "j + Suc 2 \<le> (5 :: nat)"
  show "reads_end (decode_match (as_of 2 nzb)) (header_trailers nzb ! 2 @ parts (Suc 2) j nzb) (as_of (Suc 2 + j) nzb)"
    unfolding decode_match_def
  proof (rule reads_end_rbind)
    show "reads readPar2MatchRefs (header_trailers nzb ! 2) (nzb_Par2Match nzb)"
      using assms by (simp add: header_trailers_def reads_match_refs nzb_ok_def)
    have "(as_of 2 nzb)\<lparr>nzb_Par2Match := nzb_Par2Match nzb\<rparr> = as_of 3 nzb" by (simp add: as_of_def)
    then show "reads_end (let nzb1 = (as_of 2 nzb)\<lparr>nzb_Par2Match := nzb_Par2Match nzb\<rparr> in rmore nzb1 (decode_content_hash nzb1))
        (parts (Suc 2) j nzb) (as_of (Suc 2 + j) nzb)"
      using reads_from_3 [of j nzb] j by (simp add: Let_def)
  qed
qed simp_all

lemma par2RealTargets_unmarked: "par2RealTargets (unmarked pf) (unmarked ps) = map unmark (par2RealTargets pf ps)"
  by (simp add: par2RealTargets_def comp_def)

lemma fill_segments: "map2 (\<lambda>f l. f\<lparr>ref_Segments := l\<rparr>) (unmarked fs) (map ref_Segments fs) = fs"
  by (simp add: zip_map_map zip_same_conv_map comp_def)

lemma reads_from_1:
  assumes "nzb_ok nzb"
  shows "j + 1 \<le> 5 \<Longrightarrow> reads_end (rmore (as_of 1 nzb) (decode_bitset (as_of 1 nzb))) (parts 1 j nzb) (as_of (1 + j) nzb)"
proof (rule reads_parts)
  fix j assume j: "j + Suc 1 \<le> (5 :: nat)"
  let ?t = "par2RealTargets (nzb_Par2Files nzb) (nzb_Par2Source nzb)"
  show "reads_end (decode_bitset (as_of 1 nzb)) (header_trailers nzb ! 1 @ parts (Suc 1) j nzb) (as_of (Suc 1 + j) nzb)"
    unfolding decode_bitset_def
  proof (rule reads_end_rbind)
    show "reads (readRealBitset (par2RealTargets (nzb_Par2Files (as_of 1 nzb)) (nzb_Par2Source (as_of 1 nzb)))) (header_trailers nzb ! 1) ?t"
      using reads_bitset [of ?t] by (simp add: as_of_def par2RealTargets_unmarked header_trailers_def)
    have "put_targets ?t (as_of 1 nzb) = as_of 2 nzb"
      by (simp add: put_targets_def as_of_def par2RealTargets_def fill_segments Let_def)
    then show "reads_end (let nzb1 = put_targets ?t (as_of 1 nzb) in rmore nzb1 (decode_match nzb1)) (parts (Suc 1) j nzb) (as_of (Suc 1 + j) nzb)"
      using reads_from_2 [OF assms, of j] j by (simp add: Let_def numeral_2_eq_2)
  qed
qed simp_all

lemma reads_from_0:
  assumes "nzb_ok nzb"
  shows "j \<le> 5 \<Longrightarrow> reads_end (rmore (as_of 0 nzb) (decode_par2 (as_of 0 nzb))) (parts 0 j nzb) (as_of j nzb)"
proof -
  have "reads_end (rmore (as_of 0 nzb) (decode_par2 (as_of 0 nzb))) (parts 0 j nzb) (as_of (0 + j) nzb)" if "j + 0 \<le> 5"
  proof (rule reads_parts)
    fix j assume j: "j + Suc 0 \<le> (5 :: nat)"
    have t: "header_trailers nzb ! 0 @ parts (Suc 0) j nzb =
        writePar2FileRefs (nzb_Par2Files nzb) @ writePar2FileRefs (nzb_Par2Source nzb) @ parts (Suc 0) j nzb"
      by (simp add: header_trailers_def)
    have "(as_of 0 nzb)\<lparr>nzb_Par2Files := unmarked (nzb_Par2Files nzb), nzb_Par2Source := unmarked (nzb_Par2Source nzb)\<rparr> = as_of 1 nzb"
      by (simp add: as_of_def)
    then have "reads_end (let nzb1 = (as_of 0 nzb)\<lparr>nzb_Par2Files := unmarked (nzb_Par2Files nzb), nzb_Par2Source := unmarked (nzb_Par2Source nzb)\<rparr>
          in rmore nzb1 (decode_bitset nzb1)) (parts (Suc 0) j nzb) (as_of (Suc 0 + j) nzb)"
      using reads_from_1 [OF assms, of j] j by (simp add: Let_def)
    then show "reads_end (decode_par2 (as_of 0 nzb)) (header_trailers nzb ! 0 @ parts (Suc 0) j nzb) (as_of (Suc 0 + j) nzb)"
      unfolding decode_par2_def t
      using assms by (intro reads_end_rbind [OF reads_par2_refs(1)] reads_end_rbind [OF reads_par2_refs(2)]) (simp_all add: nzb_ok_def)
  qed (use that in simp_all)
  then show "j \<le> 5 \<Longrightarrow> reads_end (rmore (as_of 0 nzb) (decode_par2 (as_of 0 nzb))) (parts 0 j nzb) (as_of j nzb)" by simp
qed

lemma reads_base:
  assumes "nzb_ok nzb"
  shows "reads decode_base (header_base nzb) (as_of 0 nzb, map (\<lambda>f. length (file_Segments f)) (nzb_Files nzb))"
proof (rule reads_bounded)
  let ?fs = "nzb_Files nzb"
  let ?w = "concat (map encode_file ?fs)"
  assume "int (length (header_base nzb)) \<le> max_buf"
  then have b: "int (length ?w) \<le> max_buf" by (simp add: header_base_def)
  have len: "length ?fs \<le> length ?w" by (rule length_concat_ge) simp
  have n: "unat (of_nat (length ?fs) :: u64) = length ?fs" using len b by (intro unat_of_length) simp
  have files: "reads (rmap (decode_file (nzb_ID nzb)) [0..<unat (of_nat (length ?fs) :: u64)]) ?w
      (map (\<lambda>f. (header_file (nzb_ID nzb) f, length (file_Segments f))) ?fs)"
    unfolding n by (rule reads_rmap) (use assms in \<open>auto simp: nzb_ok_def intro!: reads_decode_file\<close>)
  show "reads decode_base (header_base nzb) (as_of 0 nzb, map (\<lambda>f. length (file_Segments f)) ?fs)"
    unfolding decode_base_def header_base_def
    apply (rule reads_rbind reads_fields | (use assms in \<open>simp add: nzb_ok_def; fail\<close>))+
    apply (rule reads_countFits [OF len])
    apply (rule reads_rbind_last [OF files])
    apply (rule reads_rret_eq)
    apply (simp add: as_of_def stored_def header_file_def comp_def)
    done
qed

abbreviation segment_counts :: "NZB \<Rightarrow> nat list" where
  "segment_counts nzb \<equiv> map (\<lambda>f. length (file_Segments f)) (nzb_Files nzb)"

lemma decodeHeader_as_of:
  assumes "nzb_ok nzb" "k \<le> 5" "int (length (header_base nzb @ concat (take k (header_trailers nzb)))) \<le> max_buf"
  shows "decodeHeader (header_base nzb @ concat (take k (header_trailers nzb))) = Inr (as_of k nzb, segment_counts nzb)"
proof -
  let ?w = "concat (take k (header_trailers nzb))" and ?tail = "\<lambda>(n, counts). rbind (rmore n (decode_par2 n)) (\<lambda>n'. rret (n', counts))"
  have "reads_end (rmore (as_of 0 nzb) (decode_par2 (as_of 0 nzb))) ?w (as_of k nzb)" using reads_from_0 [OF assms(1,2)] by simp
  then have "reads_end (?tail (as_of 0 nzb, segment_counts nzb)) ?w (as_of k nzb, segment_counts nzb)"
    by (simp add: reads_end_def rbind_def rret_def)
  then have "reads_end (rbind decode_base ?tail) (header_base nzb @ ?w) (as_of k nzb, segment_counts nzb)"
    by (rule reads_end_rbind [OF reads_base [OF assms(1)]])
  from reads_endD [OF this assms(3)]
  show ?thesis by (simp add: decodeHeader_def)
qed

section \<open>The segments\<close>

definition table_ok :: "group_table \<Rightarrow> bool" where
  "table_ok t \<longleftrightarrow> (\<forall>g i. fst t g = Some i \<longrightarrow> unat i < length (snd t) \<and> snd t ! unat i = g)"

lemma idxOf_spec:
  assumes "table_ok t" "int (length (snd t)) \<le> max_buf" "idxOf g t = (i, t1)"
  shows "table_ok t1 \<and> unat i < length (snd t1) \<and> snd t1 ! unat i = g \<and> (\<exists>more. snd t1 = snd t @ more) \<and>
    length (snd t1) \<le> Suc (length (snd t))"
proof (cases "fst t g")
  case None
  have u: "unat (of_nat (length (snd t)) :: u64) = length (snd t)" using assms(2) by (rule unat_of_length)
  have t1: "i = of_nat (length (snd t))" "t1 = ((fst t)(g \<mapsto> of_nat (length (snd t))), snd t @ [g])"
    using assms(3) None by (auto simp: idxOf_def Let_def)
  have "unat j < length (snd t @ [g]) \<and> (snd t @ [g]) ! unat j = h" if "fst t h = Some j" for h j
  proof -
    have "unat j < length (snd t)" "snd t ! unat j = h" using assms(1) that by (simp_all add: table_ok_def)
    then show ?thesis by (simp add: nth_append)
  qed
  then show ?thesis using u by (auto simp: t1 table_ok_def)
next
  case (Some j)
  then show ?thesis using assms(1,3) by (auto simp: idxOf_def table_ok_def)
qed

lemma intern_all_spec:
  "table_ok t \<Longrightarrow> int (length (snd t) + length gs) \<le> max_buf \<Longrightarrow> intern_all gs t = (ixs, t') \<Longrightarrow>
   length ixs = length gs \<and> (\<exists>more. snd t' = snd t @ more) \<and> length (snd t') \<le> length (snd t) + length gs \<and>
   (\<forall>k < length gs. unat (ixs ! k) < length (snd t') \<and> snd t' ! unat (ixs ! k) = gs ! k)"
proof (induction gs arbitrary: t ixs t')
  case (Cons g gs)
  obtain i t1 where i: "idxOf g t = (i, t1)" by (cases "idxOf g t")
  obtain js t2 where js: "intern_all gs t1 = (js, t2)" by (cases "intern_all gs t1")
  have r: "ixs = i # js" "t' = t2" using Cons.prems(3) by (auto simp: i js)
  have I: "table_ok t1" "unat i < length (snd t1)" "snd t1 ! unat i = g" "\<exists>more. snd t1 = snd t @ more"
    "length (snd t1) \<le> Suc (length (snd t))"
    using idxOf_spec [OF Cons.prems(1) _ i] Cons.prems(2) by auto
  have J: "length js = length gs" "\<exists>more. snd t2 = snd t1 @ more" "length (snd t2) \<le> length (snd t1) + length gs"
    "\<forall>k < length gs. unat (js ! k) < length (snd t2) \<and> snd t2 ! unat (js ! k) = gs ! k"
    using Cons.IH [OF I(1) _ js] Cons.prems(2) I(5) by auto
  obtain more where m: "snd t2 = snd t1 @ more" using J(2) by blast
  have "unat (ixs ! k) < length (snd t') \<and> snd t' ! unat (ixs ! k) = (g # gs) ! k" if "k < length (g # gs)" for k
    using that I(2,3) J(4) by (cases k) (auto simp: r m nth_append)
  then show ?case using J I(4,5) by (auto simp: r)
qed auto

lemma reads_group:
  assumes "unat i < length groups" "int (length groups) \<le> max_buf"
  shows "reads (read_group groups) (put_uvarint i) (groups ! unat i)"
proof -
  have u: "uint i = int (unat i)" by simp
  have "i64 (uint i) = int (unat i)" unfolding u by (rule i64_id) (use assms in linarith)
  then have "\<not> i64 (uint i) \<ge> int (length groups)" using assms(1) by linarith
  then show ?thesis
    unfolding read_group_def by (intro reads_rbind_last [OF reads_uvarint]) (use assms in \<open>simp add: reads_rret\<close>)
qed

lemma reads_column:
  assumes "\<forall>s \<in> set segs. is_i64 (field s)"
  shows "reads (rmany (length segs) get_varint) (concat (map (\<lambda>s. put_varint (field s)) segs)) (map field segs)"
  by (rule reads_rmany) (use assms in \<open>simp_all add: reads_varint\<close>)

lemma reads_columns:
  assumes "\<forall>s \<in> set (all_segments nzb). seg_ok s" "int (length (fst (encodeSegments nzb))) \<le> max_buf"
  shows "reads (decode_columns (length (all_segments nzb))) (fst (encodeSegments nzb))
    (map (\<lambda>s. s\<lparr>seg_MessageID := []\<rparr>) (all_segments nzb))"
proof -
  let ?segs = "all_segments nzb"
  obtain ixs t where it: "intern_all (map seg_Group ?segs) (Map.empty, []) = (ixs, t)"
    by (cases "intern_all (map seg_Group ?segs) (Map.empty, [])")
  let ?col = "\<lambda>field. concat (map (\<lambda>s. put_varint (field s)) ?segs)"
  have e: "fst (encodeSegments nzb) = put_strings (snd t) @ ?col seg_Number @ ?col seg_Bytes @ ?col seg_StartOffset @ ?col seg_EndOffset @
      ?col seg_SegmentDataStart @ concat (map put_uvarint ixs)"
    by (simp add: encodeSegments_def it Let_def)
  have "length ?segs \<le> length (?col seg_Number)" by (rule length_concat_ge) simp
  then have l: "int (length ?segs) \<le> max_buf" using assms(2) unfolding e by simp
  have T: "length ixs = length ?segs" "length (snd t) \<le> length ?segs"
    "\<forall>k < length ?segs. unat (ixs ! k) < length (snd t) \<and> snd t ! unat (ixs ! k) = seg_Group (?segs ! k)"
    using intern_all_spec [OF _ _ it] l by (auto simp: table_ok_def)
  have groups: "reads (rmany (length ?segs) (read_group (snd t))) (concat (map put_uvarint ixs)) (map (\<lambda>i. snd t ! unat i) ixs)"
    using T l by (intro reads_rmany reads_group) (auto simp: in_set_conv_nth)
  have gs: "map (\<lambda>i. snd t ! unat i) ixs = map seg_Group ?segs" using T by (auto intro: nth_equalityI)
  have "map (\<lambda>k. \<lparr>seg_Number = map seg_Number ?segs ! k, seg_MessageID = [], seg_Bytes = map seg_Bytes ?segs ! k,
      seg_StartOffset = map seg_StartOffset ?segs ! k, seg_EndOffset = map seg_EndOffset ?segs ! k,
      seg_Group = map seg_Group ?segs ! k, seg_SegmentDataStart = map seg_SegmentDataStart ?segs ! k\<rparr>) [0..<length ?segs] =
    map (\<lambda>s. s\<lparr>seg_MessageID := []\<rparr>) ?segs"
    by (auto intro!: nth_equalityI)
  then show ?thesis
    unfolding decode_columns_def e
    apply (intro reads_rbind [OF reads_put_strings] reads_rbind [OF reads_column] reads_rbind_last [OF groups [unfolded gs]])
    using assms(1) by (auto simp: seg_ok_def intro!: reads_rret_eq)
qed

lemma hand_out_all:
  "hand_out (map (\<lambda>f. length (file_Segments f)) fs) (concat (map file_Segments fs)) (map g fs) =
   map (\<lambda>f. (g f)\<lparr>file_Segments := file_Segments f\<rparr>) fs"
  by (induction fs) simp_all

lemma fold_counts: "0 \<le> t \<Longrightarrow> t + int (sum_list cs) \<le> max_buf \<Longrightarrow> fold (\<lambda>c t. i64 (t + int c)) cs t = t + int (sum_list cs)"
proof (induction cs arbitrary: t)
  case (Cons c cs)
  then have "i64 (t + int c) = t + int c" by (intro i64_id) simp
  then show ?case using Cons by simp
qed simp

lemma segment_fill: "map2 (\<lambda>s m. s\<lparr>seg_MessageID := m\<rparr>) (map (\<lambda>s. s\<lparr>seg_MessageID := []\<rparr>) segs) (map seg_MessageID segs) = segs"
  by (simp add: zip_map_map zip_same_conv_map comp_def)

lemma decodeSegments_encoded:
  assumes "nzb_ok nzb" "encodeSegments nzb = (segMeta, msgIDs)" "int (length segMeta) \<le> max_buf" "int (length msgIDs) \<le> max_buf"
  shows "decodeSegments (as_of k nzb) (segment_counts nzb) segMeta msgIDs =
    Inr ((as_of k nzb)\<lparr>nzb_Files := map (\<lambda>f. f\<lparr>file_NzbID := nzb_ID nzb, file_VolumeOrderVerified := (5 \<le> k \<and> file_VolumeOrderVerified f)\<rparr>)
      (nzb_Files nzb)\<rparr>)"
proof -
  let ?segs = "all_segments nzb"
  have ok: "\<forall>s \<in> set ?segs. seg_ok s" using assms(1) by (auto simp: nzb_ok_def all_segments_def file_ok_def)
  have cols: "reads (decode_columns (length ?segs)) segMeta (map (\<lambda>s. s\<lparr>seg_MessageID := []\<rparr>) ?segs)"
    using reads_columns [OF ok] assms(2,3) by simp
  have ids: "reads (rmany (length ?segs) strAlias) msgIDs (map seg_MessageID ?segs)"
    using reads_rmany [OF refl, of ?segs strAlias "\<lambda>s. put_str (seg_MessageID s)" seg_MessageID] assms(2)
    by (auto simp: reads_strs encodeSegments_def Let_def split: prod.splits)
  have "length ?segs \<le> length (concat (map (\<lambda>s. put_varint (seg_Number s)) ?segs))" by (rule length_concat_ge) simp
  then have n: "length ?segs \<le> length segMeta" using assms(2) by (auto simp: encodeSegments_def Let_def split: prod.splits)
  have c: "sum_list (segment_counts nzb) = length ?segs" by (simp add: all_segments_def length_concat comp_def)
  have t: "fold (\<lambda>c t. i64 (t + int c)) (segment_counts nzb) 0 = int (length ?segs)"
    using fold_counts [of 0 "segment_counts nzb"] n assms(3) by (simp add: c)
  have files: "nzb_Files (as_of k nzb) = map (\<lambda>f. f\<lparr>file_NzbID := nzb_ID nzb, file_Segments := [],
      file_VolumeOrderVerified := (5 \<le> k \<and> file_VolumeOrderVerified f)\<rparr>) (nzb_Files nzb)"
    by (simp add: as_of_def)
  show ?thesis
    using readsD [OF cols, of "[]" "[]"] readsD [OF ids, of "[]" "[]"] n assms(3,4)
      hand_out_all [of "nzb_Files nzb" "\<lambda>f. f\<lparr>file_NzbID := nzb_ID nzb, file_Segments := [],
      file_VolumeOrderVerified := (5 \<le> k \<and> file_VolumeOrderVerified f)\<rparr>", folded all_segments_def]
    by (simp add: decodeSegments_def t segment_fill files)
qed

section \<open>The record\<close>

lemma splitRegions_blob:
  assumes "int (length ([codecMagicV2] @ put_str hc @ put_str sc @ mc)) \<le> max_buf"
  shows "splitRegions ([codecMagicV2] @ put_str hc @ put_str sc @ mc) = Inr (hc, sc, mc)"
proof -
  let ?data = "[codecMagicV2] @ put_str hc @ put_str sc @ mc"
  have h: "take_span HeaderRegionOutOfRange \<lparr>rd_buf = ?data, rd_pos = 1\<rparr> =
      Inr (hc, \<lparr>rd_buf = ?data, rd_pos = 1 + int (length (put_str hc))\<rparr>)"
    using readsD [OF reads_take_span, of "[codecMagicV2]" hc "put_str sc @ mc"] assms by simp
  have s: "take_span SegRegionOutOfRange \<lparr>rd_buf = ?data, rd_pos = 1 + int (length (put_str hc))\<rparr> =
      Inr (sc, \<lparr>rd_buf = ?data, rd_pos = 1 + int (length (put_str hc)) + int (length (put_str sc))\<rparr>)"
    using readsD [OF reads_take_span, of "[codecMagicV2] @ put_str hc" sc mc] assms by simp
  have m: "slice_of ?data (1 + int (length (put_str hc)) + int (length (put_str sc))) (int (length ?data)) = Inr mc"
    using slice_rest [of "[codecMagicV2] @ put_str hc @ put_str sc" mc] by (simp add: add.assoc)
  show ?thesis using h s m by (simp add: splitRegions_def isCodecV2_def rbind_def)
qed

lemma encodeNZBV2_blob:
  "encodeNZBV2 compress nzb = [codecMagicV2] @ put_str (compress (encodeHeader nzb)) @ put_str (compress (fst (encodeSegments nzb))) @
     compress (snd (encodeSegments nzb))"
  by (simp add: encodeNZBV2_def Let_def put_str_def)

lemma header_trailers_5 [simp]: "take 5 (header_trailers nzb) = header_trailers nzb"
  by (simp add: header_trailers_def)

text \<open>The record without its segments, as a header-only read returns it.\<close>

definition without_segments :: "NZB \<Rightarrow> NZB" where
  "without_segments nzb = nzb\<lparr>nzb_Files := map (\<lambda>f. f\<lparr>file_Segments := []\<rparr>) (nzb_Files nzb)\<rparr>"

lemma as_of_5: "as_of 5 nzb = without_segments (stored nzb)"
  by (simp add: as_of_def without_segments_def stored_def comp_def)

lemma splitRegions_encoded:
  "int (length (encodeNZBV2 compress nzb)) \<le> max_buf \<Longrightarrow>
   splitRegions (encodeNZBV2 compress nzb) =
     Inr (compress (encodeHeader nzb), compress (fst (encodeSegments nzb)), compress (snd (encodeSegments nzb)))"
  unfolding encodeNZBV2_blob by (rule splitRegions_blob)

lemma decodeHeader_encoded:
  assumes "nzb_ok nzb" "int (length (encodeHeader nzb)) \<le> max_buf"
  shows "decodeHeader (encodeHeader nzb) = Inr (as_of 5 nzb, segment_counts nzb)"
  using decodeHeader_as_of [OF assms(1), of 5] assms(2) by (simp add: encodeHeader_def)

lemma decodeNZBV2_encoded:
  assumes "\<forall>b. decompress (compress b) = Some b" "nzb_ok nzb"
    and "int (length (encodeHeader nzb)) \<le> max_buf" "int (length (fst (encodeSegments nzb))) \<le> max_buf"
    and "int (length (snd (encodeSegments nzb))) \<le> max_buf" "int (length (encodeNZBV2 compress nzb)) \<le> max_buf"
  shows "decodeNZBV2 decompress (encodeNZBV2 compress nzb) = Inr (stored nzb)"
proof -
  note sp = splitRegions_encoded [OF assms(6)] and hd = decodeHeader_encoded [OF assms(2,3)]
  have "(as_of 5 nzb)\<lparr>nzb_Files := map (\<lambda>f. f\<lparr>file_NzbID := nzb_ID nzb\<rparr>) (nzb_Files nzb)\<rparr> = stored nzb"
    by (simp add: as_of_def stored_def)
  then have "decodeSegments (as_of 5 nzb) (segment_counts nzb) (fst (encodeSegments nzb)) (snd (encodeSegments nzb)) = Inr (stored nzb)"
    using decodeSegments_encoded [OF assms(2) _ assms(4,5), of 5] by simp
  then show ?thesis using sp hd assms(1) by (simp add: decodeNZBV2_def)
qed

text \<open>C19. An encoded record decodes to itself, up to what the format does not keep: every field, every segment of every
  file with its group and message id, the PAR2 references with their provenance bits, the match cache and the
  per-file flags come back; times lose their fraction of a second, every file carries the record's own id, and
  candidate passwords are not stored. The header-only read returns the same record without its segments. This
  holds for any lossless compressor, for every record whose integers fit their types, whose file ids have sixteen
  bytes, whose files have at most the accepted number of segments, and whose regions fit in memory.\<close>

theorem nzb_round_trip:
  assumes "\<forall>b. decompress (compress b) = Some b" "nzb_ok nzb"
    and "int (length (encodeHeader nzb)) \<le> max_buf" "int (length (fst (encodeSegments nzb))) \<le> max_buf"
    and "int (length (snd (encodeSegments nzb))) \<le> max_buf" "int (length (encodeNZBV2 compress nzb)) \<le> max_buf"
  shows "decodeNZBV2 decompress (encodeNZBV2 compress nzb) = Inr (stored nzb) \<and>
    decodeNZBV2Header decompress (encodeNZBV2 compress nzb) = Inr (without_segments (stored nzb))"
  using decodeNZBV2_encoded [OF assms] splitRegions_encoded [OF assms(6)] decodeHeader_encoded [OF assms(2,3)] assms(1)
  by (simp add: decodeNZBV2Header_def as_of_5)

text \<open>A header written by an older version, which stops after any number of the five parts that were appended
  over time, still decodes: to the same record and segment counts, the parts it does not have at their defaults -
  no PAR2 references, no segment marked real, no match cache, no content hash, no volume order verified.\<close>

lemma older_headers_decode:
  assumes "nzb_ok nzb" "k \<le> 5" "int (length (header_base nzb @ concat (take k (header_trailers nzb)))) \<le> max_buf"
  shows "decodeHeader (header_base nzb @ concat (take k (header_trailers nzb))) =
    Inr (without_segments ((stored nzb)\<lparr>
           nzb_Files := map (\<lambda>f. f\<lparr>file_NzbID := nzb_ID nzb, file_VolumeOrderVerified := (5 \<le> k \<and> file_VolumeOrderVerified f)\<rparr>)
             (nzb_Files nzb),
           nzb_Par2Files := (if 2 \<le> k then nzb_Par2Files nzb else if 1 \<le> k then unmarked (nzb_Par2Files nzb) else []),
           nzb_Par2Source := (if 2 \<le> k then nzb_Par2Source nzb else if 1 \<le> k then unmarked (nzb_Par2Source nzb) else []),
           nzb_Par2Match := (if 3 \<le> k then nzb_Par2Match nzb else []),
           nzb_ContentHash := (if 4 \<le> k then nzb_ContentHash nzb else [])\<rparr>),
         map (\<lambda>f. length (file_Segments f)) (nzb_Files nzb))"
  unfolding decodeHeader_as_of [OF assms] by (simp add: as_of_def without_segments_def comp_def)

definition sample_file :: NZBFile where
  "sample_file = \<lparr>file_NzbID = [1], file_Name = [2], file_InternalPath = [], file_Size = 5, file_StartOffset = 0,
     file_Segments = [\<lparr>seg_Number = 1, seg_MessageID = [7], seg_Bytes = 5, seg_StartOffset = 0, seg_EndOffset = 4,
       seg_Group = [97], seg_SegmentDataStart = 0\<rparr>],
     file_Groups = [], file_FileType = [], file_Password = [], file_IsDeleted = False, file_IsStored = True, file_SegmentSize = 5,
     file_EncryptionKey = [], file_EncryptionIV = [], file_IsEncrypted = False, file_VolumeOrderVerified = True\<rparr>"

definition sample_nzb :: NZB where
  "sample_nzb = \<lparr>nzb_ID = [1], nzb_Name = [2], nzb_Title = [], nzb_Path = [], nzb_TotalSize = 5, nzb_DatePosted = \<lparr>unix = - 62135596800, nsec = 0\<rparr>,
     nzb_Category = [], nzb_Groups = [[97]], nzb_Files = [sample_file], nzb_Downloaded = True, nzb_AddedOn = \<lparr>unix = 1700000000, nsec = 0\<rparr>,
     nzb_LastActivity = \<lparr>unix = 1700000000, nsec = 0\<rparr>, nzb_Status = [], nzb_Progress = 0, nzb_Percentage = 0,
     nzb_SizeDownloaded = 0, nzb_ETA = 0, nzb_Speed = 0, nzb_CompletedOn = \<lparr>unix = 1700000000, nsec = 0\<rparr>, nzb_IsBad = False,
     nzb_Storage = [], nzb_FailMessage = [], nzb_Password = [], nzb_Passwords = [], nzb_ContentHash = [3],
     nzb_Par2Files = [\<lparr>ref_Name = [4], ref_Size = 9, ref_Segments = [\<lparr>ref_MessageID = [8], ref_Bytes = 9, ref_Real = True\<rparr>]\<rparr>],
     nzb_Par2Source = [], nzb_Par2Match = [\<lparr>PostedName = [2], match_FileID = replicate 16 0, NameMismatch = False\<rparr>]\<rparr>"

lemma sample_nzb_ok: "nzb_ok sample_nzb"
  by (simp add: sample_nzb_def sample_file_def nzb_ok_def file_ok_def seg_ok_def ref_ok_def)

lemma sample_nzb_size:
  "int (length (encodeHeader sample_nzb)) \<le> max_buf" "int (length (fst (encodeSegments sample_nzb))) \<le> max_buf"
  "int (length (snd (encodeSegments sample_nzb))) \<le> max_buf" "int (length (encodeNZBV2 (\<lambda>b. b) sample_nzb)) \<le> max_buf"
  by code_simp+

theorem nzb_round_trip_witness: "decodeNZBV2 Some (encodeNZBV2 (\<lambda>b. b) sample_nzb) = Inr sample_nzb"
  using nzb_round_trip [of Some "\<lambda>b. b" sample_nzb] sample_nzb_ok sample_nzb_size
  by (simp add: stored_def sample_nzb_def sample_file_def)

end
