(* ===== verification/Nzb_Faults.thy ===== *)
theory Nzb_Faults
  imports Nzb_Round_Trip
begin

text \<open>
  What the codec does with bytes it did not write. Reading a header never panics, whatever its bytes. The full read
  does on one kind of damage: a group index of 2^63 or more, which the range check reads as a negative number.
\<close>

section \<open>The header readers never panic\<close>

lemma safe_file_id:
  "safe (\<lambda>r. if i64 (rd_pos r + 16) > int (length (rd_buf r)) then Inl MatchIDOutOfRange
     else case slice_of (rd_buf r) (rd_pos r) (rd_pos r + 16) of Inl e \<Rightarrow> Inl e | Inr b \<Rightarrow> Inr (b, r\<lparr>rd_pos := rd_pos r + 16\<rparr>))"
  by (rule safeI) (simp add: slice_of_def wf_reader_def i64_id)

lemma safe_buffer_guard: "e \<noteq> CodecPanic \<Longrightarrow> safe (\<lambda>r. rguard (c r) e r)"
  by (rule safeI) (simp add: rguard_def)

lemma bitset_bytes:
  assumes "wf_reader r" "\<not> n > (word_of_int (8 * int (length (rd_buf r))) :: u64)"
  shows "i64 (uint ((n + 7) div 8)) = (uint n + 7) div 8" "uint n \<le> 8 * int (length (rd_buf r))"
proof -
  have l: "int (length (rd_buf r)) \<le> max_buf" using assms(1) by (simp add: wf_reader_def)
  have small: "uint (word_of_int x :: u64) = x" if "0 \<le> x" "x \<le> 8 * max_buf" for x
    using that by (simp add: uint_word_of_int)
  have "uint (word_of_int (8 * int (length (rd_buf r))) :: u64) = 8 * int (length (rd_buf r))"
    by (rule small) (use l in simp_all)
  then show u: "uint n \<le> 8 * int (length (rd_buf r))" using assms(2) by (simp add: word_less_def)
  have "uint (n + 7) = uint n + 7" using u l by (simp add: uint_word_ariths)
  then have e: "uint ((n + 7) div 8) = (uint n + 7) div 8" by (simp add: uint_div)
  have "0 \<le> (uint n + 7) div 8" by (simp add: pos_imp_zdiv_nonneg_iff)
  moreover have "(uint n + 7) div 8 \<le> max_buf + 1" using u l by linarith
  ultimately show "i64 (uint ((n + 7) div 8)) = (uint n + 7) div 8" unfolding e by (intro i64_id) simp
qed

lemma safe_read_bits: "safe (read_bits segLists n)"
proof (rule safeI)
  fix r :: byteReader
  assume r: "wf_reader r"
  define nbytes where "nbytes = (uint n + 7) div 8"
  show "case read_bits segLists n r of Inl e \<Rightarrow> e \<noteq> CodecPanic | Inr (v, r') \<Rightarrow> wf_reader r' \<and> rd_buf r' = rd_buf r"
  proof (cases "n > (word_of_int (8 * int (length (rd_buf r))) :: u64)")
    case True
    then show ?thesis by (simp add: read_bits_def)
  next
    case False
    have b: "i64 (uint ((n + 7) div 8)) = nbytes" "uint n \<le> 8 * int (length (rd_buf r))"
      using bitset_bytes [OF r False] by (simp_all add: nbytes_def)
    have nb: "0 \<le> nbytes" "nbytes \<le> int (length (rd_buf r)) + 1" "uint n \<le> 8 * nbytes"
      using b(2) by (simp_all add: nbytes_def pos_imp_zdiv_nonneg_iff)
    have hi: "i64 (rd_pos r + nbytes) = rd_pos r + nbytes" using r nb by (intro i64_id) (simp add: wf_reader_def)
    show ?thesis
      using False r nb
      by (auto simp: read_bits_def b(1) hi Let_def slice_of_def wf_reader_def min_def)
  qed
qed

lemma safe_bitset: "safe (readRealBitset segLists)"
  unfolding readRealBitset_def by (intro safe_rbind safe_uvarint safe_read_bits)

lemma safe_decode_file: "safe (decode_file nzbID i)"
  unfolding decode_file_def by (intro safe_intros) simp

lemma safe_file_refs: "safe readPar2FileRefs" "safe readPostedFileRefs"
  unfolding readPar2FileRefs_def readPostedFileRefs_def decode_file_ref_def readPar2Segments_def decode_segment_ref_def
  by (intro safe_intros)+

lemma safe_match_refs: "safe readPar2MatchRefs"
  unfolding readPar2MatchRefs_def decode_match_ref_def
  by (intro safe_rbind safe_if safe_rret safe_rmany safe_strs safe_boolean safe_uvarint safe_file_id safe_buffer_guard) simp

lemma safe_volume_flags: "safe (decode_volume_flags nzb)"
  unfolding decode_volume_flags_def by (intro safe_intros) simp

lemma safe_trailers: "safe (rmore nzb (decode_par2 nzb))"
  unfolding decode_par2_def decode_bitset_def decode_match_def decode_content_hash_def Let_def
  by (intro safe_rbind safe_rmore safe_file_refs safe_bitset safe_match_refs safe_strs safe_volume_flags)

lemma safe_base: "safe decode_base"
  unfolding decode_base_def by (intro safe_intros safe_decode_file)

lemma safe_header: "safe (rbind decode_base (\<lambda>(nzb, counts). rbind (rmore nzb (decode_par2 nzb)) (\<lambda>nzb'. rret (nzb', counts))))"
proof (rule safe_rbind [OF safe_base])
  fix x :: "NZB \<times> nat list"
  show "safe ((\<lambda>(nzb, counts). rbind (rmore nzb (decode_par2 nzb)) (\<lambda>nzb'. rret (nzb', counts))) x)"
    using safe_rbind [OF safe_trailers safe_rret] by (cases x) simp
qed

lemma safe_run:
  assumes "safe p" "int (length buf) \<le> max_buf" "k \<le> length buf"
  shows "p \<lparr>rd_buf = buf, rd_pos = int k\<rparr> \<noteq> Inl CodecPanic"
  using assms(1) [unfolded safe_def, rule_format, of "\<lparr>rd_buf = buf, rd_pos = int k\<rparr>"] assms(2,3)
  by (auto simp: wf_reader_def)

lemma decodeHeader_no_panic: "int (length buf) \<le> max_buf \<Longrightarrow> decodeHeader buf \<noteq> Inl CodecPanic"
  using safe_run [OF safe_header, of buf 0] by (auto simp: decodeHeader_def map_sum_def split: sum.splits)

lemma splitRegions_no_panic:
  assumes "int (length data) \<le> max_buf"
  shows "splitRegions data \<noteq> Inl CodecPanic"
proof (cases "isCodecV2 data")
  case True
  then have l: "1 \<le> length data" by (cases data) (auto simp: isCodecV2_def)
  have "safe (\<lambda>r. case slice_of (rd_buf r) (rd_pos r) (int (length (rd_buf r))) of Inl e \<Rightarrow> Inl e | Inr mc \<Rightarrow> Inr ((hc, sc, mc), r))" for hc sc :: bytes
    by (rule safeI) (simp add: slice_of_rest)
  then have "safe (rbind (take_span HeaderRegionOutOfRange) (\<lambda>hc. rbind (take_span SegRegionOutOfRange) (\<lambda>sc r.
      case slice_of (rd_buf r) (rd_pos r) (int (length (rd_buf r))) of Inl e \<Rightarrow> Inl e | Inr mc \<Rightarrow> Inr ((hc, sc, mc), r))))"
    by (intro safe_rbind safe_take_span) simp_all
  from safe_run [OF this assms l] True show ?thesis
    by (auto simp: splitRegions_def map_sum_def split: sum.splits)
qed (simp add: splitRegions_def)

section \<open>A corrupt group index\<close>

text \<open>Readers that fail on what they find, wherever it stands.\<close>

definition fails :: "'a reader \<Rightarrow> bytes \<Rightarrow> codec_error \<Rightarrow> bool" where
  "fails p w e \<longleftrightarrow> (\<forall>pre suf. int (length (pre @ w @ suf)) \<le> max_buf \<longrightarrow> p \<lparr>rd_buf = pre @ w @ suf, rd_pos = int (length pre)\<rparr> = Inl e)"

lemma fails_first: "fails p w e \<Longrightarrow> fails (rbind p f) w e"
  by (simp add: fails_def rbind_def)

lemma fails_rbind:
  assumes "reads p w1 v" "fails (f v) w2 e"
  shows "fails (rbind p f) (w1 @ w2) e"
  unfolding fails_def
proof (intro allI impI)
  fix pre suf
  assume l: "int (length (pre @ (w1 @ w2) @ suf)) \<le> max_buf"
  have "p \<lparr>rd_buf = pre @ w1 @ (w2 @ suf), rd_pos = int (length pre)\<rparr> =
      Inr (v, \<lparr>rd_buf = pre @ w1 @ (w2 @ suf), rd_pos = int (length pre) + int (length w1)\<rparr>)"
    using l by (intro readsD [OF assms(1)]) simp
  moreover have "f v \<lparr>rd_buf = (pre @ w1) @ w2 @ suf, rd_pos = int (length (pre @ w1))\<rparr> = Inl e"
    using l assms(2) [unfolded fails_def, rule_format, of "pre @ w1" suf] by simp
  ultimately show "rbind p f \<lparr>rd_buf = pre @ (w1 @ w2) @ suf, rd_pos = int (length pre)\<rparr> = Inl e"
    by (simp add: rbind_def)
qed

lemma fails_append: "fails p w e \<Longrightarrow> fails p (w @ w') e"
  by (simp add: fails_def)

lemma fails_rmap:
  assumes "j < length xs" "length ys = length xs" "\<And>k. k < j \<Longrightarrow> reads p (put (xs ! k)) (g (xs ! k))" "fails p (put (xs ! j)) e"
  shows "fails (rmap (\<lambda>_. p) ys) (concat (map put xs)) e"
  using assms
proof (induction xs arbitrary: j ys)
  case (Cons x xs)
  then obtain y ys' where ys: "ys = y # ys'" by (cases ys) auto
  show ?case
  proof (cases j)
    case 0
    then show ?thesis using Cons.prems(4) by (simp add: ys fails_first fails_append)
  next
    case (Suc m)
    have "reads p (put (xs ! k)) (g (xs ! k))" if "k < m" for k using Cons.prems(3) [of "Suc k"] Suc that by simp
    then have "fails (rmap (\<lambda>_. p) ys') (concat (map put xs)) e"
      by (intro Cons.IH [of m]) (use Cons.prems Suc ys in auto)
    then have "fails (rbind (rmap (\<lambda>_. p) ys') (\<lambda>vs. rret (g x # vs))) (concat (map put xs)) e" by (rule fails_first)
    moreover have "reads p (put x) (g x)" using Cons.prems(3) [of 0] Suc by simp
    ultimately show ?thesis by (simp add: ys fails_rbind)
  qed
qed simp

text \<open>The segment columns of a record, with the group index of segment \<open>j\<close> replaced.\<close>

definition damaged_segments :: "nat \<Rightarrow> u64 \<Rightarrow> NZB \<Rightarrow> bytes" where
  "damaged_segments j idx nzb =
     (let segs = all_segments nzb;
          (idxCol, table) = intern_all (map seg_Group segs) (Map.empty, []);
          column = (\<lambda>field. concat (map (\<lambda>s. put_varint (field s)) segs))
      in put_strings (snd table) @ column seg_Number @ column seg_Bytes @ column seg_StartOffset @ column seg_EndOffset @
         column seg_SegmentDataStart @ concat (map put_uvarint (idxCol[j := idx])))"

definition damaged_record :: "(bytes \<Rightarrow> bytes) \<Rightarrow> nat \<Rightarrow> u64 \<Rightarrow> NZB \<Rightarrow> bytes" where
  "damaged_record compress j idx nzb =
     [codecMagicV2] @ put_str (compress (encodeHeader nzb)) @ put_str (compress (damaged_segments j idx nzb)) @ compress (snd (encodeSegments nzb))"

lemma i64_huge: "2 ^ 63 \<le> uint idx \<Longrightarrow> i64 (uint idx) < 0" for idx :: u64
proof -
  assume idx: "2 ^ 63 \<le> uint idx"
  have "(uint idx + 2 ^ 63) mod 2 ^ 64 = (uint idx - 2 ^ 63 + 1 * 2 ^ 64) mod 2 ^ 64" by (simp add: add.commute)
  also have "\<dots> = uint idx - 2 ^ 63" using idx uint_bounded [of idx] by (simp only: mod_mult_self1) simp
  finally show ?thesis using uint_bounded [of idx] by (simp add: i64_def)
qed

lemma fails_group:
  assumes "2 ^ 63 \<le> uint idx" "int (length groups) \<le> max_buf"
  shows "fails (read_group groups) (put_uvarint idx) CodecPanic"
proof -
  have "fails (rfail CodecPanic :: bytes reader) [] CodecPanic" by (simp add: fails_def rfail_def)
  moreover have "\<not> i64 (uint idx) \<ge> int (length groups)" using i64_huge [OF assms(1)] by linarith
  moreover have "\<not> unat idx < length groups"
  proof
    assume "unat idx < length groups"
    moreover have "uint idx = int (unat idx)" by simp
    moreover have "max_buf < 2 ^ 63" by simp
    ultimately show False using assms by linarith
  qed
  ultimately show ?thesis
    unfolding read_group_def by (intro fails_rbind [OF reads_uvarint, where ?w2.0 = "[]", simplified]) simp
qed

lemma fails_columns:
  assumes "\<forall>s \<in> set (all_segments nzb). seg_ok s" "int (length (damaged_segments j idx nzb)) \<le> max_buf"
    and "j < length (all_segments nzb)" "2 ^ 63 \<le> uint idx"
  shows "fails (decode_columns (length (all_segments nzb))) (damaged_segments j idx nzb) CodecPanic \<and>
    length (all_segments nzb) \<le> length (damaged_segments j idx nzb)"
proof -
  let ?segs = "all_segments nzb"
  obtain ixs t where it: "intern_all (map seg_Group ?segs) (Map.empty, []) = (ixs, t)"
    by (cases "intern_all (map seg_Group ?segs) (Map.empty, [])")
  let ?col = "\<lambda>field. concat (map (\<lambda>s. put_varint (field s)) ?segs)"
  have e: "damaged_segments j idx nzb = put_strings (snd t) @ ?col seg_Number @ ?col seg_Bytes @ ?col seg_StartOffset @ ?col seg_EndOffset @
      ?col seg_SegmentDataStart @ concat (map put_uvarint (ixs[j := idx]))"
    by (simp add: damaged_segments_def it Let_def)
  have long: "length ?segs \<le> length (?col seg_Number)" by (rule length_concat_ge) simp
  then have l: "int (length ?segs) \<le> max_buf" using assms(2) unfolding e by simp
  have T: "length ixs = length ?segs" "length (snd t) \<le> length ?segs" "\<forall>k < length ?segs. unat (ixs ! k) < length (snd t)"
    using intern_all_spec [OF _ _ it] l by (auto simp: table_ok_def)
  have "fails (rmany (length ?segs) (read_group (snd t))) (concat (map put_uvarint (ixs[j := idx]))) CodecPanic"
    unfolding rmany_def
    by (rule fails_rmap [where j = j and g = "\<lambda>i. snd t ! unat i"])
      (use assms(3,4) T l in \<open>auto intro!: reads_group fails_group\<close>)
  then have groups: "fails (rbind (rmany (length ?segs) (read_group (snd t))) f) (concat (map put_uvarint (ixs[j := idx]))) CodecPanic" for f :: "bytes list \<Rightarrow> NZBSegment list reader"
    by (rule fails_first)
  have "fails (decode_columns (length ?segs)) (damaged_segments j idx nzb) CodecPanic"
    unfolding decode_columns_def e
    by (intro fails_rbind [OF reads_put_strings] fails_rbind [OF reads_column] groups) (use assms(1) in \<open>auto simp: seg_ok_def\<close>)
  then show ?thesis using long unfolding e by simp
qed

lemma decodeSegments_damaged:
  assumes "nzb_ok nzb" "int (length (damaged_segments j idx nzb)) \<le> max_buf" "j < length (all_segments nzb)" "2 ^ 63 \<le> uint idx"
  shows "decodeSegments rec (segment_counts nzb) (damaged_segments j idx nzb) msgIDs = Inl CodecPanic"
proof -
  let ?segs = "all_segments nzb"
  have ok: "\<forall>s \<in> set ?segs. seg_ok s" using assms(1) by (auto simp: nzb_ok_def all_segments_def file_ok_def)
  have cols: "fails (decode_columns (length ?segs)) (damaged_segments j idx nzb) CodecPanic" "length ?segs \<le> length (damaged_segments j idx nzb)"
    using fails_columns [OF ok assms(2-4)] by auto
  have c: "sum_list (segment_counts nzb) = length ?segs" by (simp add: all_segments_def length_concat comp_def)
  have t: "fold (\<lambda>c t. i64 (t + int c)) (segment_counts nzb) 0 = int (length ?segs)"
    using fold_counts [of 0 "segment_counts nzb"] cols(2) assms(2) by (simp add: c)
  show ?thesis
    using cols(1) [unfolded fails_def, rule_format, of "[]" "[]"] cols(2) assms(2) by (simp add: decodeSegments_def t)
qed

text \<open>C37. Reading the header of a stored record never panics, whatever the bytes of the file: every length and count
  is checked before it is used. The full read is not as careful: it compares the group index of a segment as a
  signed number and indexes with the unsigned one. Take the encoding of any record and replace the group index of any one of its
  segments by any number of 2^63 or more: the file has no other damage, its index passes the check, and the full read panics. (The
  sizes are those of the round trip, and the compressor has to be lossless on the three regions of this file only.)\<close>

theorem group_index_panics:
  assumes "int (length data) \<le> max_buf" "\<forall>b header. decompress b = Some header \<longrightarrow> int (length header) \<le> max_buf"
    and "\<forall>b \<in> {encodeHeader nzb, damaged_segments j idx nzb, snd (encodeSegments nzb)}. decompress (compress b) = Some b"
    and "nzb_ok nzb" "int (length (damaged_record compress j idx nzb)) \<le> max_buf"
    and "j < length (all_segments nzb)" "2 ^ 63 \<le> uint idx"
  shows "decodeNZBV2Header decompress data \<noteq> Inl CodecPanic \<and>
    decodeNZBV2 decompress (damaged_record compress j idx nzb) = Inl CodecPanic"
proof
  have "splitRegions data \<noteq> Inl CodecPanic" using assms(1) by (rule splitRegions_no_panic)
  moreover have "decodeHeader header \<noteq> Inl CodecPanic" if "decompress b = Some header" for b header
    using assms(2) that by (intro decodeHeader_no_panic) auto
  ultimately show "decodeNZBV2Header decompress data \<noteq> Inl CodecPanic"
    by (auto simp: decodeNZBV2Header_def map_sum_def split: sum.splits option.splits prod.splits)
  have regions: "decompress (compress (encodeHeader nzb)) = Some (encodeHeader nzb)" "decompress (compress (damaged_segments j idx nzb)) = Some (damaged_segments j idx nzb)"
    "decompress (compress (snd (encodeSegments nzb))) = Some (snd (encodeSegments nzb))" using assms(3) by simp_all
  have sizes: "int (length (encodeHeader nzb)) \<le> max_buf" "int (length (damaged_segments j idx nzb)) \<le> max_buf"
    using assms(2) regions by blast+
  have "decodeHeader (encodeHeader nzb) = Inr (as_of 5 nzb, segment_counts nzb)" by (rule decodeHeader_encoded [OF assms(4) sizes(1)])
  then show "decodeNZBV2 decompress (damaged_record compress j idx nzb) = Inl CodecPanic"
    using splitRegions_blob [OF assms(5) [unfolded damaged_record_def]] decodeSegments_damaged [OF assms(4) sizes(2) assms(6,7)] regions
    by (simp add: decodeNZBV2_def damaged_record_def del: append_Cons)
qed

theorem group_index_panics_witness:
  "decodeNZBV2 (\<lambda>b. if int (length b) \<le> max_buf then Some b else None) (damaged_record (\<lambda>b. b) 0 (2 ^ 63) sample_nzb) = Inl CodecPanic"
proof -
  have size: "int (length (damaged_record (\<lambda>b. b) 0 (2 ^ 63) sample_nzb)) \<le> max_buf" "int (length (damaged_segments 0 (2 ^ 63) sample_nzb)) \<le> max_buf"
    by code_simp+
  let ?decompress = "\<lambda>b. if int (length b) \<le> max_buf then Some b else None"
  have "\<forall>b header. ?decompress b = Some header \<longrightarrow> int (length header) \<le> max_buf" by (simp split: if_splits)
  moreover have "\<forall>b \<in> {encodeHeader sample_nzb, damaged_segments 0 (2 ^ 63) sample_nzb, snd (encodeSegments sample_nzb)}. ?decompress b = Some b"
    using sample_nzb_size(1,3) size(2) by simp
  moreover have "0 < length (all_segments sample_nzb)" "2 ^ 63 \<le> uint (2 ^ 63 :: u64)" by code_simp+
  ultimately show ?thesis
    using conjunct2 [OF group_index_panics [of "[]", OF _ _ _ sample_nzb_ok size(1)]] by simp
qed

end
