(* ===== verification/Nzb_Sample.thy ===== *)
theory Nzb_Sample
  imports Nzb_Round_Trip Float64
begin

text \<open>
  Sampling the message ids of one file for an availability check, \<^verbatim>\<open>SampleFileMessageIDs\<close> of
  \<^verbatim>\<open>src/pkg/usenet/storage.go\<close>: from the stored bytes by \<^verbatim>\<open>decodeFileMessageIDsSampled\<close> of
  \<^verbatim>\<open>src/pkg/usenet/nzbcodec.go\<close>, which reads the header and the message ids only, or from the decoded record when
  several live files share the name. The file served for a name is \<^verbatim>\<open>GetFileByName\<close> of
  \<^verbatim>\<open>src/pkg/storage/nzb.go\<close>. Both ways are shown to sample the articles of that file.
\<close>

section \<open>Definitions\<close>

definition LayoutCoversSize :: "NZBFile \<Rightarrow> bool" where
  "LayoutCoversSize f =
     (let segs = file_Segments f
      in if file_Size f \<le> 0 \<or> segs = [] \<or> seg_StartOffset (hd segs) \<noteq> 0 then False
         else if \<exists>i \<in> set [1..<length segs]. seg_StartOffset (segs ! i) \<noteq> i64 (seg_EndOffset (segs ! (i - 1)) + 1) then False
         else i64 (seg_EndOffset (last segs) + 1) = file_Size f)"

definition named :: "bytes \<Rightarrow> NZBFile \<Rightarrow> bool" where
  "named name f \<longleftrightarrow> \<not> file_IsDeleted f \<and> file_Name f = name"

definition GetFileByName :: "NZB \<Rightarrow> bytes \<Rightarrow> NZBFile option" where
  "GetFileByName nzb name =
     (let (lst, best) = fold (\<lambda>f (lst, best).
            if \<not> named name f then (lst, best)
            else (Some f, if LayoutCoversSize f \<and> (case best of None \<Rightarrow> True | Some b \<Rightarrow> file_Size f \<ge> file_Size b) then Some f else best))
          (nzb_Files nzb) (None, None)
      in case (lst, best) of
           (Some l, Some b) \<Rightarrow> if \<not> LayoutCoversSize l then Some b else Some l
         | _ \<Rightarrow> lst)"

definition FileNameCount :: "NZB \<Rightarrow> bytes \<Rightarrow> nat" where
  "FileNameCount nzb name = length (filter (named name) (nzb_Files nzb))"

text \<open>The conversion of a non-negative float64 to int truncates.\<close>

definition middle_index :: "int \<Rightarrow> int \<Rightarrow> int \<Rightarrow> int" where
  "middle_index mlen middleCount i =
     (let step = fl (float_of_int mlen / float_of_int (middleCount + 1));
          idx = \<lfloor>fl (step * float_of_int (i + 1))\<rfloor>
      in if idx \<ge> mlen then mlen - 1 else idx)"

definition sampleIndices :: "int \<Rightarrow> int \<Rightarrow> int list" where
  "sampleIndices n percent =
     (if n = 0 then []
      else if percent \<ge> 100 \<or> n \<le> 3 then [0..n - 1]
      else let t0 = max (go_div (i64 (n * percent)) 100) 2;
               targetCount = (if t0 > n then n else t0);
               middleCount = targetCount - 2
           in [0] @ (if middleCount > 0 then map (\<lambda>i. 1 + middle_index (n - 2) middleCount i) [0..middleCount - 1] else []) @ [n - 1])"

definition decodeFileMessageIDsSampled ::
  "(bytes \<Rightarrow> bytes option) \<Rightarrow> bytes \<Rightarrow> bytes \<Rightarrow> int \<Rightarrow> codec_error + bytes list \<times> int" where
  "decodeFileMessageIDsSampled decompress data filename percent =
     (case splitRegions data of
        Inl e \<Rightarrow> Inl e
      | Inr (hc, _, mc) \<Rightarrow>
          (case decompress hc of
             None \<Rightarrow> Inl DecompressHeader
           | Some header \<Rightarrow>
               (case decodeHeader header of
                  Inl e \<Rightarrow> Inl e
                | Inr (nzb, counts) \<Rightarrow>
                    (case filter (\<lambda>i. named filename (nzb_Files nzb ! i)) [0..<length (nzb_Files nzb)] of
                       [] \<Rightarrow> Inr ([], - 1)
                     | [target] \<Rightarrow>
                         let c = counts ! target; before = nat (fold (\<lambda>c t. i64 (t + int c)) (take target counts) 0)
                         in if c = 0 then Inr ([], 0)
                            else let want = sampleIndices (int c) percent
                                 in (case decompress mc of
                                       None \<Rightarrow> Inl DecompressMsgIDs
                                     | Some msgIDs \<Rightarrow>
                                         map_sum (\<lambda>e. e) (\<lambda>(outs, _). (concat outs, int c))
                                           (rbind (rmany before skip) (\<lambda>_.
                                              rmap (\<lambda>j. if int j \<in> set want then rbind strCopy (\<lambda>s. rret [s]) else rbind skip (\<lambda>_. rret [])) [0..<c])
                                            \<lparr>rd_buf = msgIDs, rd_pos = 0\<rparr>))
                     | _ \<Rightarrow> Inl SampleAmbiguousName))))"

text \<open>The decoder of the legacy format is a parameter.\<close>

definition decodeNZB :: "(bytes \<Rightarrow> codec_error + NZB) \<Rightarrow> (bytes \<Rightarrow> bytes option) \<Rightarrow> bytes \<Rightarrow> codec_error + NZB" where
  "decodeNZB legacy decompress data =
     (if data = [] then Inl EmptyMetaFile else if isCodecV2 data then decodeNZBV2 decompress data else legacy data)"

definition SampleFileMessageIDs ::
  "(bytes \<Rightarrow> codec_error + NZB) \<Rightarrow> (bytes \<Rightarrow> bytes option) \<Rightarrow> bytes \<Rightarrow> bytes \<Rightarrow> int \<Rightarrow> codec_error + bytes list" where
  "SampleFileMessageIDs legacy decompress data filename percent =
     (let fast = (if isCodecV2 data then decodeFileMessageIDsSampled decompress data filename percent else Inl SampleAmbiguousName)
      in if fast \<noteq> Inl SampleAmbiguousName then map_sum (\<lambda>e. e) fst fast
         else (case decodeNZB legacy decompress data of
                 Inl e \<Rightarrow> Inl e
               | Inr nzb \<Rightarrow>
                   (case GetFileByName nzb filename of
                      None \<Rightarrow> Inr []
                    | Some f \<Rightarrow>
                        if file_Segments f = [] then Inr []
                        else Inr (map (\<lambda>i. seg_MessageID (file_Segments f ! nat i)) (sampleIndices (int (length (file_Segments f))) percent)))))"

section \<open>The sampled indices\<close>

text \<open>Up to 2^22 articles the roundings are far too small to move a sample onto its neighbour.\<close>

lemma fl_small_int:
  assumes "0 \<le> n" "n \<le> 2 ^ 52"
  shows "fl (of_int n) = of_int n"
proof (cases "n = 0")
  case False
  define e where "e = exponent (of_int n)"
  have "2 powi e \<le> (of_int n :: rat)" unfolding e_def using assms(1) False by (intro exponent_bounds) simp
  also have "\<dots> \<le> of_int (2 ^ 52)" using assms(2) by (simp only: of_int_le_iff)
  also have "\<dots> = 2 powi 52" by simp
  finally have "2 powi e \<le> (2 :: rat) powi 52" .
  then have e: "e \<le> 52" using power_int_strict_increasing [of 52 e "2 :: rat"] by linarith
  define k where "k = nat (52 - e)"
  have ulp: "(2 :: rat) powi (e - 52) = 1 / 2 ^ k" using e by (simp add: k_def power_int_def field_simps)
  have "fl (of_int n) = of_int (round_even (of_int (n * 2 ^ k))) / 2 ^ k"
    using False assms(1) by (simp add: fl_def fl_pos_def Let_def e_def [symmetric] ulp)
  also have "\<dots> = of_int n" unfolding round_even_int by simp
  finally show ?thesis .
qed simp

lemma float_of_small_int: "0 \<le> n \<Longrightarrow> n \<le> 2 ^ 52 \<Longrightarrow> float_of_int n = of_int n"
  by (simp add: float_of_int_def fl_small_int)

definition sample_at :: "rat \<Rightarrow> rat \<Rightarrow> rat \<Rightarrow> rat" where
  "sample_at L q k = fl (fl (L / q) * k)"

lemma sample_at_bounds:
  assumes "1 \<le> q" "q \<le> L" "0 \<le> k"
  shows "L / q * k * (1 - 1 / 2 ^ 52) \<le> sample_at L q k" "sample_at L q k \<le> L / q * k * (1 + 1 / 2 ^ 51)"
proof -
  define e :: rat where "e = 1 / 2 ^ 53"
  define s where "s = L / q"
  have s: "0 \<le> s" using assms by (simp add: s_def)
  have S: "s * (1 - e) \<le> fl s" "fl s \<le> s * (1 + e)" using fl_bounds [OF s] by (simp_all add: e_def)
  have e: "0 \<le> e" "0 \<le> 1 - e" by (simp_all add: e_def)
  have p: "0 \<le> fl s * k" using fl_nonneg [OF s] assms(3) by simp
  have X: "fl s * k * (1 - e) \<le> sample_at L q k" "sample_at L q k \<le> fl s * k * (1 + e)"
    using fl_bounds [OF p] by (simp_all add: e_def sample_at_def s_def)
  have "s * k * (1 - 2 * e) \<le> s * k * ((1 - e) * (1 - e))" using s assms(3) by (intro mult_left_mono) (simp_all add: e_def)
  also have "\<dots> = s * (1 - e) * k * (1 - e)" by (simp add: mult_ac)
  also have "\<dots> \<le> fl s * k * (1 - e)" using S(1) assms(3) e by (intro mult_right_mono) simp_all
  finally show "L / q * k * (1 - 1 / 2 ^ 52) \<le> sample_at L q k" using X(1) by (simp add: e_def s_def)
  have "fl s * k * (1 + e) \<le> s * (1 + e) * k * (1 + e)" using S(2) assms(3) e by (intro mult_right_mono) simp_all
  also have "\<dots> = s * k * ((1 + e) * (1 + e))" by (simp add: mult_ac)
  also have "\<dots> \<le> s * k * (1 + 4 * e)" using s assms(3) by (intro mult_left_mono) (simp_all add: e_def)
  finally show "sample_at L q k \<le> L / q * k * (1 + 1 / 2 ^ 51)" using X(2) by (simp add: e_def s_def)
qed

lemma sample_at_step:
  assumes "1 \<le> q" "q + 1 \<le> L" "q \<le> 2 ^ 22" "0 \<le> k" "k + 1 \<le> q"
  shows "sample_at L q k + 1 \<le> sample_at L q (k + 1)"
proof -
  define s where "s = L / q"
  define a :: rat where "a = 1 / 2 ^ 52"
  have s: "(q + 1) / q \<le> s" unfolding s_def using assms(1,2) by (intro divide_right_mono) simp_all
  have "3 * a * (q * (q + 1)) \<le> 3 * a * (2 ^ 22 * (2 ^ 22 + 1))"
    using assms(1,3) by (intro mult_left_mono mult_mono) (simp_all add: a_def)
  also have "\<dots> \<le> 1" by (simp add: a_def)
  finally have "q \<le> (q + 1) * (1 - 3 * a * q)" by (simp add: algebra_simps)
  then have "1 \<le> (q + 1) / q * (1 - 3 * a * q)" using assms(1) by (simp add: pos_le_divide_eq)
  also have "\<dots> \<le> s * (1 - 3 * a * q)"
  proof (rule mult_right_mono [OF s])
    have "3 * a * q \<le> 3 * a * 2 ^ 22" using assms(3) by (intro mult_left_mono) (simp_all add: a_def)
    then show "0 \<le> 1 - 3 * a * q" by (simp add: a_def)
  qed
  also have "\<dots> \<le> s * (1 - a * (k + 1) - 2 * a * k)"
  proof (rule mult_left_mono)
    have "a * (k + 1) \<le> a * q" "2 * a * k \<le> 2 * a * q" using assms(5) by (auto intro!: mult_left_mono simp: a_def)
    then show "1 - 3 * a * q \<le> 1 - a * (k + 1) - 2 * a * k" by linarith
    show "0 \<le> s" using assms(1,2) by (simp add: s_def)
  qed
  also have "\<dots> = s * (k + 1) * (1 - a) - s * k * (1 + 2 * a)" by (simp add: algebra_simps)
  finally have "1 \<le> s * (k + 1) * (1 - a) - s * k * (1 + 2 * a)" .
  then show ?thesis
    using sample_at_bounds(1) [of q L "k + 1"] sample_at_bounds(2) [of q L k] assms by (simp add: a_def s_def)
qed

lemma sample_at_below:
  assumes "1 \<le> q" "q \<le> L" "L \<le> 2 ^ 22" "0 \<le> k" "k + 1 \<le> q"
  shows "sample_at L q k < L"
proof -
  have "L / q * k \<le> L / q * (q - 1)" using assms by (intro mult_left_mono) simp_all
  also have "\<dots> = L - L / q" using assms(1) by (simp add: field_simps)
  also have "\<dots> \<le> L - 1" using assms(1,2) by simp
  finally have k: "L / q * k \<le> L - 1" .
  have "sample_at L q k \<le> L / q * k * (1 + 1 / 2 ^ 51)" using assms by (intro sample_at_bounds) simp_all
  also have "\<dots> \<le> (L - 1) * (1 + 1 / 2 ^ 51)" using k by (intro mult_right_mono) simp_all
  also have "\<dots> < L" using assms(3) by (simp add: field_simps)
  finally show ?thesis .
qed

lemma sample_at_nonneg: "1 \<le> q \<Longrightarrow> q \<le> L \<Longrightarrow> 0 \<le> k \<Longrightarrow> 0 \<le> sample_at L q k"
  unfolding sample_at_def by (intro fl_nonneg mult_nonneg_nonneg) simp_all

lemma middle_index_exact:
  assumes "0 < M" "M + 1 \<le> mlen" "mlen \<le> 2 ^ 22" "0 \<le> i" "i < M"
  shows "middle_index mlen M i = \<lfloor>sample_at (of_int mlen) (of_int (M + 1)) (of_int (i + 1))\<rfloor>"
    "0 \<le> middle_index mlen M i" "middle_index mlen M i < mlen"
proof -
  let ?x = "sample_at (of_int mlen) (of_int (M + 1)) (of_int (i + 1))"
  have f: "float_of_int mlen = of_int mlen" "float_of_int (M + 1) = of_int (M + 1)" "float_of_int (i + 1) = of_int (i + 1)"
    by (rule float_of_small_int; use assms in simp)+
  have "of_int mlen \<le> (2 ^ 22 :: rat)" "of_int (i + 1) + 1 \<le> (of_int (M + 1) :: rat)" using assms(3,5) by simp_all
  then have "?x < of_int mlen" using assms(1,2,4) by (intro sample_at_below) (simp_all del: of_int_add)
  moreover have "0 \<le> ?x" using assms by (intro sample_at_nonneg) simp_all
  ultimately show "middle_index mlen M i = \<lfloor>?x\<rfloor>" "0 \<le> middle_index mlen M i" "middle_index mlen M i < mlen"
    using f by (auto simp: middle_index_def Let_def sample_at_def floor_less_iff le_floor_iff)
qed

lemma sample_at_exact: "0 < L \<Longrightarrow> 0 \<le> k \<Longrightarrow> k \<le> 2 ^ 52 \<Longrightarrow> sample_at L L (of_int k) = of_int k"
  using fl_small_int [of 1] fl_small_int [of k] by (simp add: sample_at_def)

lemma middle_index_step:
  assumes "0 < M" "M + 1 \<le> mlen" "mlen \<le> 2 ^ 22" "0 \<le> i" "i + 1 < M"
  shows "middle_index mlen M i < middle_index mlen M (i + 1)"
proof -
  let ?x = "\<lambda>i. sample_at (of_int mlen) (of_int (M + 1)) (of_int (i + 1))"
  have "?x i + 1 \<le> ?x (i + 1)"
  proof (cases "mlen = M + 1")
    case True
    then show ?thesis
      using sample_at_exact [of "of_int mlen" "i + 1"] sample_at_exact [of "of_int mlen" "i + 1 + 1"] assms by simp
  next
    case False
    have "sample_at (of_int mlen) (of_int (M + 1)) (of_int (i + 1)) + 1 \<le> sample_at (of_int mlen) (of_int (M + 1)) (of_int (i + 1) + 1)"
    proof (rule sample_at_step)
      show "of_int (M + 1) + 1 \<le> (of_int mlen :: rat)" using False assms(2) by (metis of_int_1 of_int_add of_int_le_iff zless_imp_add1_zle order_le_less)
      show "of_int (M + 1) \<le> (2 ^ 22 :: rat)" using assms(2,3) by simp
      show "of_int (i + 1) + 1 \<le> (of_int (M + 1) :: rat)" using assms(5) by simp
    qed (use assms in simp_all)
    then show ?thesis by (simp add: add.assoc)
  qed
  then show ?thesis using middle_index_exact(1) [of M mlen i] middle_index_exact(1) [of M mlen "i + 1"] assms by linarith
qed

lemma middle_index_mono:
  assumes "0 < M" "M + 1 \<le> mlen" "mlen \<le> 2 ^ 22" "0 \<le> i" "i < j" "j < M"
  shows "middle_index mlen M i < middle_index mlen M j"
  using assms(5,6)
proof (induction j rule: int_gr_induct)
  case base
  then show ?case using middle_index_step [OF assms(1-4)] by simp
next
  case (step j)
  then show ?case using middle_index_step [OF assms(1-3), of j] assms(4) by fastforce
qed

lemma framed_sorted:
  fixes n :: int
  assumes "sorted_wrt (<) mid" "\<And>x. x \<in> set mid \<Longrightarrow> 0 < x \<and> x < n - 1" "1 < n"
  shows "sorted_wrt (<) ([0] @ mid @ [n - 1]) \<and> set ([0] @ mid @ [n - 1]) \<subseteq> {0..<n} \<and>
    0 \<in> set ([0] @ mid @ [n - 1]) \<and> n - 1 \<in> set ([0] @ mid @ [n - 1])"
  using assms by (fastforce simp: sorted_wrt_append)

text \<open>The sample: strictly increasing indices of the file's articles, the first and the last among them.\<close>

lemma sampleIndices_spec:
  assumes "0 < n" "n \<le> 2 ^ 22" "0 \<le> percent"
  shows "sorted_wrt (<) (sampleIndices n percent) \<and> set (sampleIndices n percent) \<subseteq> {0..<n} \<and>
    0 \<in> set (sampleIndices n percent) \<and> n - 1 \<in> set (sampleIndices n percent)"
proof (cases "percent \<ge> 100 \<or> n \<le> 3")
  case True
  then show ?thesis using assms(1) by (auto simp: sampleIndices_def sorted_wrt_upto)
next
  case False
  define T where "T = max (n * percent div 100) 2"
  have "n * percent \<le> n * 99" using False assms(1) by (intro mult_left_mono) simp_all
  moreover have "n * 99 \<le> 2 ^ 22 * 99" using assms(2) by simp
  ultimately have bound: "0 \<le> n * percent" "n * percent \<le> 2 ^ 22 * 99" using assms(1,3) by (simp, linarith)
  have "n * percent div 100 < n" using \<open>n * percent \<le> n * 99\<close> assms(1) by linarith
  then have T: "2 \<le> T" "T \<le> n - 1" using False by (simp_all add: T_def)
  have go: "go_div (i64 (n * percent)) 100 = n * percent div 100" using bound by (simp add: i64_id)
  let ?mid = "if 0 < T - 2 then map (\<lambda>i. 1 + middle_index (n - 2) (T - 2) i) [0..T - 2 - 1] else []"
  have e: "sampleIndices n percent = [0] @ ?mid @ [n - 1]"
    using False assms(1) T unfolding sampleIndices_def go T_def [symmetric] by (simp add: Let_def)
  have r: "0 \<le> middle_index (n - 2) (T - 2) i \<and> middle_index (n - 2) (T - 2) i < n - 2" if "0 < T - 2" "0 \<le> i" "i < T - 2" for i
    using middle_index_exact(2,3) [of "T - 2" "n - 2" i] that T assms(2) by simp
  have "sorted_wrt (\<lambda>i j. middle_index (n - 2) (T - 2) i < middle_index (n - 2) (T - 2) j) [0..T - 2 - 1]"
    by (rule sorted_wrt_mono_rel [OF _ sorted_wrt_upto]) (use middle_index_mono [of "T - 2" "n - 2"] T assms(2) in auto)
  then have m: "sorted_wrt (<) ?mid" by (simp add: sorted_wrt_map)
  have "0 < x \<and> x < n - 1" if "x \<in> set ?mid" for x using that r by (fastforce split: if_splits)
  then show ?thesis unfolding e by (intro framed_sorted m) (use False in auto)
qed

lemma pick_sorted:
  assumes "sorted_wrt (<) want" "set want \<subseteq> {0..<int c}"
  shows "filter (\<lambda>k. int k \<in> set want) [0..<c] = map nat want"
proof (rule sorted_distinct_set_unique)
  have "sorted_wrt (\<lambda>x y. nat x < nat y) want"
    by (rule sorted_wrt_mono_rel [OF _ assms(1)]) (use assms(2) in \<open>force simp: subset_iff\<close>)
  then have s: "sorted_wrt (<) (map nat want)" by (simp add: sorted_wrt_map)
  then show "sorted (map nat want)" "distinct (map nat want)" by (simp_all add: strict_sorted_iff)
  show "set (filter (\<lambda>k. int k \<in> set want) [0..<c]) = set (map nat want)"
    using assms(2) by (force simp: image_iff)
qed (simp_all add: sorted_wrt_filter)

section \<open>The file of a name\<close>

lemma fold_guarded: "fold (\<lambda>x acc. if \<not> P x then acc else h x acc) xs acc = fold h (filter P xs) acc"
  by (induction xs arbitrary: acc) simp_all

lemma GetFileByName_filter:
  "GetFileByName nzb name =
     (let (lst, best) = fold (\<lambda>f (lst, best).
          (Some f, if LayoutCoversSize f \<and> (case best of None \<Rightarrow> True | Some b \<Rightarrow> file_Size f \<ge> file_Size b) then Some f else best))
        (filter (named name) (nzb_Files nzb)) (None, None)
      in case (lst, best) of (Some l, Some b) \<Rightarrow> if \<not> LayoutCoversSize l then Some b else Some l | _ \<Rightarrow> lst)"
proof -
  have e: "(\<lambda>f (lst, best). if \<not> named name f then (lst, best)
      else (Some f, if LayoutCoversSize f \<and> (case best of None \<Rightarrow> True | Some b \<Rightarrow> file_Size f \<ge> file_Size b) then Some f else best)) =
    (\<lambda>f acc. if \<not> named name f then acc else (\<lambda>f (lst, best).
      (Some f, if LayoutCoversSize f \<and> (case best of None \<Rightarrow> True | Some b \<Rightarrow> file_Size f \<ge> file_Size b) then Some f else best)) f acc)"
    by (auto simp: fun_eq_iff)
  show ?thesis unfolding GetFileByName_def e fold_guarded ..
qed

lemma GetFileByName_none: "filter (named name) (nzb_Files nzb) = [] \<Longrightarrow> GetFileByName nzb name = None"
  by (simp add: GetFileByName_filter)

lemma GetFileByName_one: "filter (named name) (nzb_Files nzb) = [f] \<Longrightarrow> GetFileByName nzb name = Some f"
  by (simp add: GetFileByName_filter)

section \<open>Sampling from the stored bytes\<close>

lemma filter_indices: "map (\<lambda>i. xs ! i) (filter (\<lambda>i. P (xs ! i)) [0..<length xs]) = filter P xs"
proof -
  have "filter P xs = filter P (map ((!) xs) [0..<length xs])" by (simp add: map_nth)
  then show ?thesis by (simp add: filter_map comp_def)
qed

lemma split_files: "t < length fs \<Longrightarrow> concat (map g fs) = concat (map g (take t fs)) @ g (fs ! t) @ concat (map g (drop (Suc t) fs))"
  by (metis append_Cons append_Nil concat_append concat.simps(2) id_take_nth_drop list.simps(9) map_append)

abbreviation id_bytes :: "NZBSegment list \<Rightarrow> bytes" where
  "id_bytes segs \<equiv> concat (map (\<lambda>s. put_str (seg_MessageID s)) segs)"

lemma reads_sample:
  assumes "sorted_wrt (<) want" "set want \<subseteq> {0..<int (length segs)}"
  shows "\<exists>outs. reads (rmap (\<lambda>j. if int j \<in> set want then rbind strCopy (\<lambda>s. rret [s]) else rbind skip (\<lambda>_. rret [])) [0..<length segs])
      (id_bytes segs) outs \<and> concat outs = map (\<lambda>i. seg_MessageID (segs ! nat i)) want"
proof (intro exI conjI)
  let ?outs = "map (\<lambda>k. if int k \<in> set want then [seg_MessageID (segs ! k)] else []) [0..<length segs]"
  have "reads (rmap (\<lambda>j. if int j \<in> set want then rbind strCopy (\<lambda>s. rret [s]) else rbind skip (\<lambda>_. rret [])) [0..<length segs])
      (concat (map (\<lambda>k. put_str (seg_MessageID (segs ! k))) [0..<length segs])) ?outs"
    by (rule reads_rmap) (auto intro: reads_rbind_last [OF reads_strs(1) reads_rret] reads_rbind_last [OF reads_skip reads_rret])
  moreover have "map (\<lambda>k. put_str (seg_MessageID (segs ! k))) [0..<length segs] = map (\<lambda>s. put_str (seg_MessageID s)) segs"
    by (rule nth_equalityI) simp_all
  ultimately show "reads (rmap (\<lambda>j. if int j \<in> set want then rbind strCopy (\<lambda>s. rret [s]) else rbind skip (\<lambda>_. rret [])) [0..<length segs])
      (id_bytes segs) ?outs" by simp
  have "concat (map (\<lambda>k. if P k then [g k] else []) ks) = map g (filter P ks)" for P and g :: "nat \<Rightarrow> bytes" and ks
    by (induction ks) simp_all
  then have "concat ?outs = map (\<lambda>k. seg_MessageID (segs ! k)) (filter (\<lambda>k. int k \<in> set want) [0..<length segs])" .
  then show "concat ?outs = map (\<lambda>i. seg_MessageID (segs ! nat i)) want" by (simp add: pick_sorted [OF assms] comp_def)
qed

lemma named_as_of: "i < length (nzb_Files nzb) \<Longrightarrow> named name (nzb_Files (as_of k nzb) ! i) = named name (nzb_Files nzb ! i)"
  by (simp add: as_of_def named_def)

lemma length_as_of: "length (nzb_Files (as_of k nzb)) = length (nzb_Files nzb)"
  by (simp add: as_of_def)

text \<open>Skipping the articles of the files before the one at \<open>t\<close>, then taking the sample of its own.\<close>

lemma sample_region:
  assumes "t < length fs" "int (length (id_bytes (concat (map file_Segments fs)))) \<le> max_buf"
    and "sorted_wrt (<) want" "set want \<subseteq> {0..<int (length (file_Segments (fs ! t)))}"
  shows "map_sum (\<lambda>e. e) (\<lambda>(outs, _). (concat outs, n)) (rbind (rmany (length (concat (map file_Segments (take t fs)))) skip) (\<lambda>_.
      rmap (\<lambda>j. if int j \<in> set want then rbind strCopy (\<lambda>s. rret [s]) else rbind skip (\<lambda>_. rret [])) [0..<length (file_Segments (fs ! t))])
      \<lparr>rd_buf = id_bytes (concat (map file_Segments fs)), rd_pos = 0\<rparr>) =
    Inr (map (\<lambda>i. seg_MessageID (file_Segments (fs ! t) ! nat i)) want, n)"
proof -
  let ?segs = "file_Segments (fs ! t)" and ?pre = "concat (map file_Segments (take t fs))"
  let ?suf = "id_bytes (concat (map file_Segments (drop (Suc t) fs)))"
  let ?take = "rmap (\<lambda>j. if int j \<in> set want then rbind strCopy (\<lambda>s. rret [s]) else rbind skip (\<lambda>_. rret [])) [0..<length ?segs]"
  obtain outs where o: "reads ?take (id_bytes ?segs) outs" "concat outs = map (\<lambda>i. seg_MessageID (?segs ! nat i)) want"
    using reads_sample [OF assms(3,4)] by blast
  have "reads (rmany (length ?pre) skip) (id_bytes ?pre) (map (\<lambda>_. ()) ?pre)"
    by (rule reads_rmany) (simp_all add: reads_skip)
  then have r: "reads (rbind (rmany (length ?pre) skip) (\<lambda>_. ?take)) (id_bytes ?pre @ id_bytes ?segs) outs"
    by (rule reads_rbind) (rule o(1))
  have w: "id_bytes (concat (map file_Segments fs)) = (id_bytes ?pre @ id_bytes ?segs) @ ?suf"
    using split_files [OF assms(1), of file_Segments] by simp
  show ?thesis using readsD [OF r, of "[]" ?suf] assms(2) o(2) unfolding w by simp
qed

lemma decodeFileMessageIDsSampled_one:
  assumes "\<forall>b. decompress (compress b) = Some b" "nzb_ok nzb" "0 \<le> percent"
    and "int (length (encodeHeader nzb)) \<le> max_buf" "int (length (snd (encodeSegments nzb))) \<le> max_buf"
    and "int (length (encodeNZBV2 compress nzb)) \<le> max_buf" "filter (named name) (nzb_Files nzb) = [f]"
  shows "decodeFileMessageIDsSampled decompress (encodeNZBV2 compress nzb) name percent =
    Inr (map (\<lambda>i. seg_MessageID (file_Segments f ! nat i)) (sampleIndices (int (length (file_Segments f))) percent), int (length (file_Segments f)))"
proof -
  let ?fs = "nzb_Files nzb"
  have ix: "filter (\<lambda>i. named name (nzb_Files (as_of 5 nzb) ! i)) [0..<length (nzb_Files (as_of 5 nzb))] =
      filter (\<lambda>i. named name (?fs ! i)) [0..<length ?fs]"
    unfolding length_as_of by (rule filter_cong) (simp_all add: named_as_of)
  obtain t where t: "filter (\<lambda>i. named name (?fs ! i)) [0..<length ?fs] = [t]" "?fs ! t = f" "t < length ?fs"
  proof -
    have m: "map ((!) ?fs) (filter (\<lambda>i. named name (?fs ! i)) [0..<length ?fs]) = [f]" using filter_indices [of ?fs "named name"] assms(7) by simp
    then obtain t where u: "filter (\<lambda>i. named name (?fs ! i)) [0..<length ?fs] = [t]" "?fs ! t = f" by auto
    have "t < length ?fs" using arg_cong [OF u(1), of set] by auto
    then show thesis using u that by blast
  qed
  have "file_ok f" using assms(2) t by (auto simp: nzb_ok_def)
  then have n: "length (file_Segments f) \<le> 2 ^ 22" by (simp add: file_ok_def)
  have msg: "snd (encodeSegments nzb) = id_bytes (concat (map file_Segments ?fs))"
    by (simp add: encodeSegments_def all_segments_def Let_def split: prod.splits)
  have c: "segment_counts nzb ! t = length (file_Segments f)" using t by simp
  have "take t (segment_counts nzb) = map (\<lambda>f. length (file_Segments f)) (take t ?fs)" by (simp add: take_map)
  moreover have "sum_list (map (\<lambda>f. length (file_Segments f)) (take t ?fs)) = length (concat (map file_Segments (take t ?fs)))"
    by (simp add: length_concat comp_def)
  moreover have "length (concat (map file_Segments (take t ?fs))) \<le> length (id_bytes (concat (map file_Segments ?fs)))"
  proof -
    have "length (concat (map file_Segments (take t ?fs))) \<le> length (concat (map file_Segments ?fs))"
      using split_files [OF t(3), of file_Segments] by simp
    also have "\<dots> \<le> length (id_bytes (concat (map file_Segments ?fs)))" by (rule length_concat_ge) simp
    finally show ?thesis .
  qed
  ultimately have bf: "nat (fold (\<lambda>c t. i64 (t + int c)) (take t (segment_counts nzb)) 0) = length (concat (map file_Segments (take t ?fs)))"
    using fold_counts [of 0 "take t (segment_counts nzb)"] assms(5) msg by simp
  note base = splitRegions_encoded [OF assms(6)] decodeHeader_encoded [OF assms(2,4)]
  show ?thesis
  proof (cases "file_Segments f = []")
    case True
    then show ?thesis using assms(1) base ix t c by (simp add: decodeFileMessageIDsSampled_def sampleIndices_def)
  next
    case False
    then have want: "sorted_wrt (<) (sampleIndices (int (length (file_Segments f))) percent)"
      "set (sampleIndices (int (length (file_Segments f))) percent) \<subseteq> {0..<int (length (file_Segments f))}"
      using sampleIndices_spec [of "int (length (file_Segments f))" percent] n assms(3) by simp_all
    have l: "int (length (id_bytes (concat (map file_Segments ?fs)))) \<le> max_buf" using assms(5) msg by simp
    have reg: "map_sum (\<lambda>e. e) (\<lambda>(outs, _). (concat outs, int (length (file_Segments f))))
        (rbind (rmany (length (concat (map file_Segments (take t ?fs)))) skip) (\<lambda>_.
          rmap (\<lambda>j. if int j \<in> set (sampleIndices (int (length (file_Segments f))) percent) then rbind strCopy (\<lambda>s. rret [s]) else rbind skip (\<lambda>_. rret []))
            [0..<length (file_Segments f)])
          \<lparr>rd_buf = id_bytes (concat (map file_Segments ?fs)), rd_pos = 0\<rparr>) =
        Inr (map (\<lambda>i. seg_MessageID (file_Segments f ! nat i)) (sampleIndices (int (length (file_Segments f))) percent), int (length (file_Segments f)))"
      using sample_region [OF t(3) l, of "sampleIndices (int (length (file_Segments f))) percent" "int (length (file_Segments f))"] want
      unfolding t(2) by simp
    have z: "length (file_Segments f) \<noteq> 0" using False by simp
    show ?thesis
      unfolding decodeFileMessageIDsSampled_def base sum.case prod.case assms(1) [rule_format] option.case ix t(1) list.case Let_def c bf msg if_not_P [OF z] reg ..
  qed
qed

lemma decodeFileMessageIDsSampled_none:
  assumes "\<forall>b. decompress (compress b) = Some b" "nzb_ok nzb" "int (length (encodeHeader nzb)) \<le> max_buf"
    and "int (length (encodeNZBV2 compress nzb)) \<le> max_buf"
  shows "filter (named name) (nzb_Files nzb) = [] \<Longrightarrow>
      decodeFileMessageIDsSampled decompress (encodeNZBV2 compress nzb) name percent = Inr ([], - 1)"
    and "filter (named name) (nzb_Files nzb) = f # g # fs \<Longrightarrow>
      decodeFileMessageIDsSampled decompress (encodeNZBV2 compress nzb) name percent = Inl SampleAmbiguousName"
proof -
  let ?fs = "nzb_Files nzb"
  let ?ix = "filter (\<lambda>i. named name (nzb_Files (as_of 5 nzb) ! i)) [0..<length (nzb_Files (as_of 5 nzb))]"
  have "?ix = filter (\<lambda>i. named name (?fs ! i)) [0..<length ?fs]"
    unfolding length_as_of by (rule filter_cong) (simp_all add: named_as_of)
  then have m: "map ((!) ?fs) ?ix = filter (named name) ?fs" using filter_indices [of ?fs "named name"] by simp
  note base = splitRegions_encoded [OF assms(4)] decodeHeader_encoded [OF assms(2,3)]
  have d: "decodeFileMessageIDsSampled decompress (encodeNZBV2 compress nzb) name percent = Inr ([], - 1)" if "?ix = []"
    unfolding decodeFileMessageIDsSampled_def base sum.case prod.case assms(1) [rule_format] option.case that list.case ..
  have a: "decodeFileMessageIDsSampled decompress (encodeNZBV2 compress nzb) name percent = Inl SampleAmbiguousName" if "?ix = i # j # js" for i j js
    unfolding decodeFileMessageIDsSampled_def base sum.case prod.case assms(1) [rule_format] option.case that list.case ..
  show "filter (named name) ?fs = [] \<Longrightarrow> decodeFileMessageIDsSampled decompress (encodeNZBV2 compress nzb) name percent = Inr ([], - 1)"
    using m d by simp
  show "filter (named name) ?fs = f # g # fs \<Longrightarrow>
      decodeFileMessageIDsSampled decompress (encodeNZBV2 compress nzb) name percent = Inl SampleAmbiguousName"
    using m a by (auto simp: map_eq_Cons_conv)
qed

lemma named_stored: "filter (named name) (nzb_Files (stored nzb)) = map (\<lambda>f. f\<lparr>file_NzbID := nzb_ID nzb\<rparr>) (filter (named name) (nzb_Files nzb))"
  by (simp add: stored_def filter_map comp_def named_def [abs_def])

text \<open>C21. Sampling a file of a stored record returns the message ids of the articles it means: those of the file that
  is served under the name, at the sampled indices, in their order - whether they are read from the compressed
  bytes without decoding the record, or from the full record when several live files share the name. A name
  without a live file gives no ids.\<close>

theorem sampled_ids_exact:
  assumes "\<forall>b. decompress (compress b) = Some b" "nzb_ok nzb" "0 \<le> percent"
    and "int (length (encodeHeader nzb)) \<le> max_buf" "int (length (fst (encodeSegments nzb))) \<le> max_buf"
    and "int (length (snd (encodeSegments nzb))) \<le> max_buf" "int (length (encodeNZBV2 compress nzb)) \<le> max_buf"
  shows "SampleFileMessageIDs legacy decompress (encodeNZBV2 compress nzb) name percent =
    Inr (case GetFileByName (stored nzb) name of
           None \<Rightarrow> []
         | Some f \<Rightarrow> map (\<lambda>i. seg_MessageID (file_Segments f ! nat i)) (sampleIndices (int (length (file_Segments f))) percent))"
proof -
  have v2: "isCodecV2 (encodeNZBV2 compress nzb)" "encodeNZBV2 compress nzb \<noteq> []"
    by (simp_all add: isCodecV2_def encodeNZBV2_def Let_def)
  have full: "decodeNZBV2 decompress (encodeNZBV2 compress nzb) = Inr (stored nzb)"
    using assms by (intro decodeNZBV2_encoded) simp_all
  consider (none) "filter (named name) (nzb_Files nzb) = []" | (one) f where "filter (named name) (nzb_Files nzb) = [f]"
    | (more) f g fs where "filter (named name) (nzb_Files nzb) = f # g # fs" by (metis list.exhaust)
  then show ?thesis
  proof cases
    case none
    then show ?thesis
      using v2 decodeFileMessageIDsSampled_none(1) [OF assms(1,2,4,7)] GetFileByName_none [of name "stored nzb"]
      by (simp add: SampleFileMessageIDs_def named_stored)
  next
    case one
    then show ?thesis
      using v2 decodeFileMessageIDsSampled_one [OF assms(1-4,6,7)] GetFileByName_one [of name "stored nzb"]
      by (simp add: SampleFileMessageIDs_def named_stored)
  next
    case more
    then show ?thesis
      using v2 full decodeFileMessageIDsSampled_none(2) [OF assms(1,2,4,7)]
      by (auto simp: SampleFileMessageIDs_def decodeNZB_def sampleIndices_def split: option.splits)
  qed
qed

theorem sampled_ids_exact_witness: "SampleFileMessageIDs (\<lambda>_. Inl NotV2) Some (encodeNZBV2 (\<lambda>b. b) sample_nzb) [2] 10 = Inr [[7]]"
proof -
  have "GetFileByName (stored sample_nzb) [2] = Some (sample_file\<lparr>file_NzbID := [1]\<rparr>)"
    by (rule GetFileByName_one) (simp add: stored_def sample_nzb_def sample_file_def named_def)
  then show ?thesis
    using sampled_ids_exact [of Some "\<lambda>b. b" sample_nzb 10 "\<lambda>_. Inl NotV2" "[2]"] sample_nzb_ok sample_nzb_size
    by (simp add: sample_file_def sampleIndices_def)
qed

end
