(* ===== verification/Nzb_Store.thy ===== *)
theory Nzb_Store
  imports Nzb_Sample Transition "HOL-Library.AList"
begin

text \<open>
  The file storage of NZB records, \<^verbatim>\<open>NZBStorage\<close> of \<^verbatim>\<open>src/pkg/usenet/storage.go\<close>: one file for each record in the
  meta directory, with a cached count and total size. The directory is an association list from ids to file
  contents; a record of flags says which system calls succeed. Every operation but the migration runs under the
  storage lock, so that it is one step; the migration reads and encodes outside it, so that its two halves are
  separate steps. Temporary files, which no reader looks at, are left out, and file sizes are taken to stay below
  2^63. The legacy decoder and the compressor are parameters.
\<close>

section \<open>Definitions\<close>

record NZBStorage =
  meta :: "(bytes \<times> bytes) list"
  metaCount :: int
  metaTotalBytes :: int

record store_io =
  can_stat :: bool
  can_read :: bool
  can_write :: bool
  can_rename :: bool
  can_remove :: bool

definition io_ok :: store_io where
  "io_ok = \<lparr>can_stat = True, can_read = True, can_write = True, can_rename = True, can_remove = True\<rparr>"

datatype store_error = NZBNotFound | NZBGone | ReadFailed | StatFailed | WriteFailed | RenameFailed | RemoveFailed
  | DecodeFailed codec_error | CallbackFailed

abbreviation file_size :: "bytes \<Rightarrow> int" where "file_size data \<equiv> int (length data)"

definition recalculateStatsLocked :: "NZBStorage \<Rightarrow> NZBStorage" where
  "recalculateStatsLocked s = s\<lparr>metaCount := int (length (meta s)), metaTotalBytes := (\<Sum>(name, data) \<leftarrow> meta s. file_size data)\<rparr>"

definition NewNZBStorage :: "(bytes \<times> bytes) list \<Rightarrow> NZBStorage" where
  "NewNZBStorage dir = recalculateStatsLocked \<lparr>meta = dir, metaCount = 0, metaTotalBytes = 0\<rparr>"

definition addNZBLocked :: "store_io \<Rightarrow> (bytes \<Rightarrow> bytes) \<Rightarrow> NZB \<Rightarrow> NZBStorage \<Rightarrow> store_error option \<times> NZBStorage" where
  "addNZBLocked io compress nzb s =
     (let data = encodeNZBV2 compress nzb; i = nzb_ID nzb
      in if \<not> can_stat io then (Some StatFailed, s)
         else if \<not> can_write io then (Some WriteFailed, s)
         else if \<not> can_rename io then (Some RenameFailed, s)
         else let s1 = s\<lparr>meta := AList.update i data (meta s)\<rparr>
              in (None, case map_of (meta s) i of
                          Some old \<Rightarrow> s1\<lparr>metaTotalBytes := metaTotalBytes s + (file_size data - file_size old)\<rparr>
                        | None \<Rightarrow> s1\<lparr>metaCount := metaCount s + 1, metaTotalBytes := metaTotalBytes s + file_size data\<rparr>))"

definition AddNZB :: "store_io \<Rightarrow> (bytes \<Rightarrow> bytes) \<Rightarrow> NZB \<Rightarrow> NZBStorage \<Rightarrow> store_error option \<times> NZBStorage" where
  "AddNZB io compress nzb s = addNZBLocked io compress nzb s"

text \<open>\<open>fn\<close> returns its error, or whether it changed the record, and the record.\<close>

definition Update ::
  "store_io \<Rightarrow> (bytes \<Rightarrow> codec_error + NZB) \<Rightarrow> (bytes \<Rightarrow> bytes option) \<Rightarrow> (bytes \<Rightarrow> bytes) \<Rightarrow> bytes \<Rightarrow> (NZB \<Rightarrow> bool option \<times> NZB) \<Rightarrow>
   NZBStorage \<Rightarrow> store_error option \<times> NZBStorage" where
  "Update io legacy decompress compress i fn s =
     (case map_of (meta s) i of
        None \<Rightarrow> (Some NZBGone, s)
      | Some data \<Rightarrow>
          if \<not> can_read io then (Some ReadFailed, s)
          else (case decodeNZB legacy decompress data of
                  Inl e \<Rightarrow> (Some (DecodeFailed e), s)
                | Inr nzb \<Rightarrow>
                    (case fn nzb of
                       (None, _) \<Rightarrow> (Some CallbackFailed, s)
                     | (Some False, _) \<Rightarrow> (None, s)
                     | (Some True, nzb') \<Rightarrow> addNZBLocked io compress nzb' s)))"

definition GetNZB :: "store_io \<Rightarrow> (bytes \<Rightarrow> codec_error + NZB) \<Rightarrow> (bytes \<Rightarrow> bytes option) \<Rightarrow> bytes \<Rightarrow> NZBStorage \<Rightarrow> store_error + NZB" where
  "GetNZB io legacy decompress i s =
     (case map_of (meta s) i of
        None \<Rightarrow> Inl NZBNotFound
      | Some data \<Rightarrow> if \<not> can_read io then Inl ReadFailed else map_sum DecodeFailed (\<lambda>nzb. nzb) (decodeNZB legacy decompress data))"

definition GetNZBHeader :: "store_io \<Rightarrow> (bytes \<Rightarrow> codec_error + NZB) \<Rightarrow> (bytes \<Rightarrow> bytes option) \<Rightarrow> bytes \<Rightarrow> NZBStorage \<Rightarrow> store_error + NZB" where
  "GetNZBHeader io legacy decompress i s =
     (case map_of (meta s) i of
        None \<Rightarrow> Inl NZBNotFound
      | Some data \<Rightarrow>
          if \<not> can_read io then Inl ReadFailed
          else map_sum DecodeFailed (\<lambda>nzb. nzb)
                 (if isCodecV2 data then decodeNZBV2Header decompress data else decodeNZB legacy decompress data))"

definition DeleteNZB :: "store_io \<Rightarrow> bytes \<Rightarrow> NZBStorage \<Rightarrow> store_error option \<times> NZBStorage" where
  "DeleteNZB io i s =
     (if \<not> can_stat io then (Some StatFailed, s)
      else case map_of (meta s) i of
             None \<Rightarrow> (None, s)
           | Some old \<Rightarrow>
               if \<not> can_remove io then (Some RemoveFailed, s)
               else let bytes_left = metaTotalBytes s - file_size old
                    in (None, s\<lparr>meta := AList.delete i (meta s), metaCount := (if metaCount s > 0 then metaCount s - 1 else metaCount s),
                                metaTotalBytes := (if bytes_left < 0 then 0 else bytes_left)\<rparr>))"

definition NZB_Exists :: "bytes \<Rightarrow> NZBStorage \<Rightarrow> bool" where
  "NZB_Exists i s \<longleftrightarrow> map_of (meta s) i \<noteq> None"

text \<open>The two halves of \<^verbatim>\<open>migrateFile\<close>: what is encoded for a legacy file, and the rename under the lock.
  \<^term>\<open>Inr None\<close> is a file that needs no migration.\<close>

definition migrate_read ::
  "store_io \<Rightarrow> (bytes \<Rightarrow> codec_error + NZB) \<Rightarrow> (bytes \<Rightarrow> bytes option) \<Rightarrow> (bytes \<Rightarrow> bytes) \<Rightarrow> bytes \<Rightarrow> NZBStorage \<Rightarrow> store_error + bytes option" where
  "migrate_read io legacy decompress compress i s =
     (case map_of (meta s) i of
        None \<Rightarrow> Inl ReadFailed
      | Some data \<Rightarrow>
          if \<not> can_read io then Inl ReadFailed
          else if isCodecV2 data then Inr None
          else (case decodeNZB legacy decompress data of
                  Inl e \<Rightarrow> Inl (DecodeFailed e)
                | Inr nzb \<Rightarrow> if \<not> can_write io then Inl WriteFailed else Inr (Some (encodeNZBV2 compress nzb))))"

definition fileIsCodecV2 :: "store_io \<Rightarrow> bytes \<Rightarrow> NZBStorage \<Rightarrow> bool option" where
  "fileIsCodecV2 io i s =
     (case map_of (meta s) i of None \<Rightarrow> None | Some data \<Rightarrow> if \<not> can_read io then None else Some (isCodecV2 data))"

definition migrate_rename :: "store_io \<Rightarrow> bytes \<Rightarrow> bytes \<Rightarrow> NZBStorage \<Rightarrow> (store_error + bool) \<times> NZBStorage" where
  "migrate_rename io i out s =
     (if fileIsCodecV2 io i s = Some True then (Inr False, s)
      else if \<not> can_rename io then (Inl RenameFailed, s)
      else (Inr True, s\<lparr>meta := AList.update i out (meta s)\<rparr>))"

section \<open>The directory\<close>

lemma store_io_ok_simps [simp]: "can_stat io_ok" "can_read io_ok" "can_write io_ok" "can_rename io_ok" "can_remove io_ok"
  by (simp_all add: io_ok_def)

lemma length_AList_update: "length (AList.update k v xs) = (case map_of xs k of None \<Rightarrow> Suc (length xs) | Some _ \<Rightarrow> length xs)"
  by (induction xs) (auto split: option.splits)

definition dir_bytes :: "(bytes \<times> bytes) list \<Rightarrow> int" where
  "dir_bytes xs = (\<Sum>(name, data) \<leftarrow> xs. file_size data)"

lemma dir_bytes_update:
  "dir_bytes (AList.update k v xs) = dir_bytes xs + file_size v - (case map_of xs k of None \<Rightarrow> 0 | Some old \<Rightarrow> file_size old)"
  by (induction xs) (auto simp: dir_bytes_def split: option.splits)

lemma dir_bytes_delete:
  "distinct (map fst xs) \<Longrightarrow> map_of xs k = Some old \<Longrightarrow>
   dir_bytes (AList.delete k xs) = dir_bytes xs - file_size old \<and> Suc (length (AList.delete k xs)) = length xs"
  by (induction xs) (auto simp: dir_bytes_def AList.delete_idem split: if_splits)

lemma dir_bytes_nonneg: "0 \<le> dir_bytes xs"
  by (induction xs) (auto simp: dir_bytes_def)

section \<open>Steps\<close>

text \<open>Records that decode back: see the round trip.\<close>

definition fits :: "(bytes \<Rightarrow> bytes) \<Rightarrow> NZB \<Rightarrow> bool" where
  "fits compress nzb \<longleftrightarrow> nzb_ok nzb \<and> int (length (encodeHeader nzb)) \<le> max_buf \<and> int (length (fst (encodeSegments nzb))) \<le> max_buf \<and>
     int (length (snd (encodeSegments nzb))) \<le> max_buf \<and> int (length (encodeNZBV2 compress nzb)) \<le> max_buf"

datatype slabel = LPut NZB | LDel bytes | LSame

inductive store_step ::
  "(bytes \<Rightarrow> codec_error + NZB) \<Rightarrow> (bytes \<Rightarrow> bytes option) \<Rightarrow> (bytes \<Rightarrow> bytes) \<Rightarrow> slabel \<Rightarrow> NZBStorage \<Rightarrow> NZBStorage \<Rightarrow> bool"
  for legacy decompress compress where
  add: "AddNZB io compress nzb s = (None, s') \<Longrightarrow> fits compress nzb \<Longrightarrow> store_step legacy decompress compress (LPut nzb) s s'"
| add_failed: "AddNZB io compress nzb s = (Some e, s') \<Longrightarrow> store_step legacy decompress compress LSame s s'"
| update: "Update io legacy decompress compress i fn s = (None, s') \<Longrightarrow> map_of (meta s) i = Some data \<Longrightarrow>
    decodeNZB legacy decompress data = Inr nzb \<Longrightarrow> fn nzb = (Some True, nzb') \<Longrightarrow> fits compress nzb' \<Longrightarrow>
    store_step legacy decompress compress (LPut nzb') s s'"
| unchanged: "Update io legacy decompress compress i fn s = (None, s') \<Longrightarrow> map_of (meta s) i = Some data \<Longrightarrow>
    decodeNZB legacy decompress data = Inr nzb \<Longrightarrow> fn nzb = (Some False, nzb') \<Longrightarrow> store_step legacy decompress compress LSame s s'"
| update_failed: "Update io legacy decompress compress i fn s = (Some e, s') \<Longrightarrow> store_step legacy decompress compress LSame s s'"
| delete: "DeleteNZB io i s = (None, s') \<Longrightarrow> store_step legacy decompress compress (LDel i) s s'"
| delete_failed: "DeleteNZB io i s = (Some e, s') \<Longrightarrow> store_step legacy decompress compress LSame s s'"
| recalculate: "store_step legacy decompress compress LSame s (recalculateStatsLocked s)"

text \<open>What the directory should hold under an id: what it held before, nothing, or a record.\<close>

datatype slot = Untouched | Gone | Holds NZB

fun abs_step :: "slabel \<Rightarrow> (bytes \<Rightarrow> slot) \<Rightarrow> bytes \<Rightarrow> slot" where
  "abs_step (LPut nzb) m = m(nzb_ID nzb := Holds (stored nzb))"
| "abs_step (LDel i) m = m(i := Gone)"
| "abs_step LSame m = m"

section \<open>The counters\<close>

definition store_exact :: "NZBStorage \<Rightarrow> bool" where
  "store_exact s \<longleftrightarrow> distinct (map fst (meta s)) \<and> metaCount s = int (length (meta s)) \<and> metaTotalBytes s = dir_bytes (meta s)"

lemma addNZBLocked_cases:
  assumes "addNZBLocked io compress nzb s = (r, s')"
  shows "(r \<noteq> None \<and> s' = s) \<or> (r = None \<and> meta s' = AList.update (nzb_ID nzb) (encodeNZBV2 compress nzb) (meta s) \<and>
    (store_exact s \<longrightarrow> store_exact s'))"
  using assms
  by (auto simp: addNZBLocked_def Let_def store_exact_def length_AList_update dir_bytes_update distinct_update split: if_splits option.splits)

lemma DeleteNZB_cases:
  assumes "DeleteNZB io i s = (r, s')"
  shows "(r \<noteq> None \<and> s' = s) \<or> (r = None \<and> map_of (meta s') = (map_of (meta s))(i := None) \<and> (store_exact s \<longrightarrow> store_exact s'))"
proof (cases "map_of (meta s) i")
  case None
  then show ?thesis using assms by (auto simp: DeleteNZB_def split: if_splits)
next
  case (Some old)
  then have "0 < length (meta s)" by (cases "meta s") auto
  then show ?thesis
    using assms Some dir_bytes_delete [of "meta s" i old] dir_bytes_nonneg [of "AList.delete i (meta s)"]
    by (auto simp: DeleteNZB_def Let_def store_exact_def distinct_delete delete_conv' split: if_splits)
qed

lemma Update_cases:
  assumes "Update io legacy decompress compress i fn s = (r, s')"
  shows "s' = s \<or> (\<exists>nzb. addNZBLocked io compress nzb s = (r, s'))"
  using assms by (auto simp: Update_def split: if_splits option.splits sum.splits prod.splits bool.splits)

lemma Update_put:
  "Update io legacy decompress compress i fn s = (None, s') \<Longrightarrow> map_of (meta s) i = Some data \<Longrightarrow>
   decodeNZB legacy decompress data = Inr nzb \<Longrightarrow> fn nzb = (Some True, nzb') \<Longrightarrow> addNZBLocked io compress nzb' s = (None, s')"
  by (auto simp: Update_def split: if_splits)

lemma Update_failed: "Update io legacy decompress compress i fn s = (Some e, s') \<Longrightarrow> s' = s"
  using Update_cases addNZBLocked_cases by (metis option.discI)

lemma Update_unchanged:
  "Update io legacy decompress compress i fn s = (None, s') \<Longrightarrow> map_of (meta s) i = Some data \<Longrightarrow>
   decodeNZB legacy decompress data = Inr nzb \<Longrightarrow> fn nzb = (Some False, nzb') \<Longrightarrow> s' = s"
  by (auto simp: Update_def split: if_splits)

text \<open>Every step of the store is one of three: a record is put, an id is removed, or the directory stays as it is.\<close>

lemma store_step_effect:
  assumes "store_step legacy decompress compress l s s'"
  shows "(store_exact s \<longrightarrow> store_exact s') \<and>
    (case l of
       LPut nzb \<Rightarrow> fits compress nzb \<and> map_of (meta s') = (map_of (meta s))(nzb_ID nzb \<mapsto> encodeNZBV2 compress nzb)
     | LDel i \<Rightarrow> map_of (meta s') = (map_of (meta s))(i := None)
     | LSame \<Rightarrow> map_of (meta s') = map_of (meta s))"
  using assms
proof cases
  case add
  then show ?thesis using addNZBLocked_cases by (fastforce simp: AddNZB_def update_conv')
next
  case add_failed
  then show ?thesis using addNZBLocked_cases by (fastforce simp: AddNZB_def)
next
  case (update io i fn data nzb nzb')
  then show ?thesis using addNZBLocked_cases [OF Update_put [OF update(2-5)]] by (simp add: update_conv')
next
  case (unchanged io i fn data nzb nzb')
  then show ?thesis using Update_unchanged [OF unchanged(2-5)] by simp
next
  case (update_failed io i fn e)
  then show ?thesis using Update_failed [OF update_failed(2)] by simp
next
  case delete
  then show ?thesis using DeleteNZB_cases by fastforce
next
  case delete_failed
  then show ?thesis using DeleteNZB_cases by fastforce
next
  case recalculate
  then show ?thesis by (simp add: store_exact_def recalculateStatsLocked_def dir_bytes_def)
qed

definition fresh_store :: "NZBStorage \<Rightarrow> bool" where
  "fresh_store s \<longleftrightarrow> (\<exists>dir. distinct (map fst dir) \<and> s = NewNZBStorage dir)"

interpretation nzb_store: invariant fresh_store "store_step legacy decompress compress" store_exact for legacy decompress compress
proof
  show "store_exact s" if "fresh_store s" for s
    using that by (auto simp: fresh_store_def NewNZBStorage_def recalculateStatsLocked_def store_exact_def dir_bytes_def)
  show "store_exact s'" if "store_exact s" "store_step legacy decompress compress l s s'" for l s s'
    using store_step_effect [OF that(2)] that(1) by simp
qed

section \<open>Refinement\<close>

text \<open>The file of an id agrees with its slot.\<close>

definition slot_ok :: "(bytes \<Rightarrow> bytes option) \<Rightarrow> bytes option \<Rightarrow> slot \<Rightarrow> bytes option \<Rightarrow> bool" where
  "slot_ok decompress before sl now \<longleftrightarrow>
     (case sl of
        Untouched \<Rightarrow> now = before
      | Gone \<Rightarrow> now = None
      | Holds nzb \<Rightarrow> (\<exists>data. now = Some data \<and> isCodecV2 data \<and> decodeNZBV2 decompress data = Inr nzb \<and>
                        decodeNZBV2Header decompress data = Inr (without_segments nzb)))"

lemma slot_ok_put:
  assumes "\<forall>b. decompress (compress b) = Some b" "fits compress nzb"
  shows "slot_ok decompress before (Holds (stored nzb)) (Some (encodeNZBV2 compress nzb))"
proof -
  have "decodeNZBV2 decompress (encodeNZBV2 compress nzb) = Inr (stored nzb)"
    using assms by (intro decodeNZBV2_encoded) (simp_all add: fits_def)
  moreover have "decodeNZBV2Header decompress (encodeNZBV2 compress nzb) = Inr (without_segments (stored nzb))"
    using assms splitRegions_encoded [of compress nzb] decodeHeader_encoded [of nzb]
    by (simp add: fits_def decodeNZBV2Header_def as_of_5)
  moreover have "isCodecV2 (encodeNZBV2 compress nzb)" by (simp add: isCodecV2_def encodeNZBV2_def Let_def)
  ultimately show ?thesis by (simp add: slot_ok_def)
qed

lemma trace_slots:
  assumes "trace (store_step legacy decompress compress) s ls t" "\<forall>b. decompress (compress b) = Some b"
    and "\<forall>i. slot_ok decompress (dir i) (m i) (map_of (meta s) i)"
  shows "\<forall>i. slot_ok decompress (dir i) (fold abs_step ls m i) (map_of (meta t) i)"
  using assms(1,3)
proof (induction arbitrary: m rule: trace.induct)
  case (trace_Cons l s t ls u)
  have "\<forall>i. slot_ok decompress (dir i) (abs_step l m i) (map_of (meta t) i)"
    using store_step_effect [OF trace_Cons.hyps(1)] trace_Cons.prems slot_ok_put [of decompress compress, OF assms(2)]
    by (cases l) (auto simp: slot_ok_def split: slot.splits)
  then show ?case using trace_Cons.IH by simp
qed simp

text \<open>C20. The file storage refines a map from ids to records. Start from any directory; run any sequence of additions,
  updates and deletions, each system call of which may fail; then reading an id returns the record last put
  under it as it was stored, or that there is none if it was deleted since, or what the directory held under it
  before if it was not touched. A header-only read returns the same record without segments, and the cached count
  and total size are exactly those of the directory. (Records written in between are those that decode back.)\<close>

theorem store_refines_map:
  assumes "\<forall>b. decompress (compress b) = Some b" "distinct (map fst dir)"
    and "trace (store_step legacy decompress compress) (NewNZBStorage dir) ls s"
  shows "GetNZB io_ok legacy decompress i s =
      (case fold abs_step ls (\<lambda>_. Untouched) i of
         Untouched \<Rightarrow> GetNZB io_ok legacy decompress i (NewNZBStorage dir) | Gone \<Rightarrow> Inl NZBNotFound | Holds nzb \<Rightarrow> Inr nzb) \<and>
    GetNZBHeader io_ok legacy decompress i s =
      (case fold abs_step ls (\<lambda>_. Untouched) i of
         Untouched \<Rightarrow> GetNZBHeader io_ok legacy decompress i (NewNZBStorage dir) | Gone \<Rightarrow> Inl NZBNotFound
       | Holds nzb \<Rightarrow> Inr (without_segments nzb)) \<and>
    metaCount s = int (length (meta s)) \<and> metaTotalBytes s = (\<Sum>(name, data) \<leftarrow> meta s. file_size data)"
proof -
  have dir: "meta (NewNZBStorage dir) = dir" by (simp add: NewNZBStorage_def recalculateStatsLocked_def)
  have "fresh_store (NewNZBStorage dir)" using assms(2) by (auto simp: fresh_store_def)
  then have "store_exact (NewNZBStorage dir)" by (rule nzb_store.init_inv)
  then have ex: "store_exact s" by (rule nzb_store.trace_inv [OF assms(3)])
  have "slot_ok decompress (map_of dir i) (fold abs_step ls (\<lambda>_. Untouched) i) (map_of (meta s) i)"
    using trace_slots [of legacy decompress compress, OF assms(3,1), of "map_of dir" "\<lambda>_. Untouched"] by (simp add: slot_ok_def dir)
  then have "GetNZB io_ok legacy decompress i s =
      (case fold abs_step ls (\<lambda>_. Untouched) i of
         Untouched \<Rightarrow> GetNZB io_ok legacy decompress i (NewNZBStorage dir) | Gone \<Rightarrow> Inl NZBNotFound | Holds nzb \<Rightarrow> Inr nzb)"
    "GetNZBHeader io_ok legacy decompress i s =
      (case fold abs_step ls (\<lambda>_. Untouched) i of
         Untouched \<Rightarrow> GetNZBHeader io_ok legacy decompress i (NewNZBStorage dir) | Gone \<Rightarrow> Inl NZBNotFound
       | Holds nzb \<Rightarrow> Inr (without_segments nzb))"
    by (auto simp: slot_ok_def GetNZB_def GetNZBHeader_def decodeNZB_def isCodecV2_def dir split: slot.splits)
  then show ?thesis using ex by (simp add: store_exact_def dir_bytes_def)
qed

theorem store_refines_map_witness:
  "GetNZB io_ok (\<lambda>_. Inl NotV2) Some [1] (snd (AddNZB io_ok (\<lambda>b. b) sample_nzb (NewNZBStorage []))) = Inr sample_nzb"
proof -
  have "store_step (\<lambda>_. Inl NotV2) Some (\<lambda>b. b) (LPut sample_nzb) (NewNZBStorage []) (snd (AddNZB io_ok (\<lambda>b. b) sample_nzb (NewNZBStorage [])))"
    by (rule store_step.add [of io_ok])
      (use sample_nzb_ok sample_nzb_size in \<open>simp_all add: AddNZB_def addNZBLocked_def fits_def Let_def\<close>)
  then have "trace (store_step (\<lambda>_. Inl NotV2) Some (\<lambda>b. b)) (NewNZBStorage []) [LPut sample_nzb] (snd (AddNZB io_ok (\<lambda>b. b) sample_nzb (NewNZBStorage [])))"
    by simp
  from store_refines_map [of Some "\<lambda>b. b" "[]" "\<lambda>_. Inl NotV2" "[LPut sample_nzb]" _ "[1]", OF _ _ this]
  show ?thesis by (simp add: stored_def sample_nzb_def sample_file_def)
qed

section \<open>Migration\<close>

text \<open>C38. A migration in progress undoes a deletion: after it has read a legacy file, deleting that record succeeds
  and the record is gone; then the migration, whose check under the lock only looks for a file that has become
  version 2, renames its copy into place. The record exists again, with the contents it had, and the count and
  size of the store do not know of it.\<close>

theorem migration_resurrects:
  assumes "map_of (meta s) i = Some data" "\<not> isCodecV2 data" "decodeNZB legacy decompress data = Inr nzb"
    and "\<forall>b. decompress (compress b) = Some b" "fits compress nzb" "store_exact s"
  shows "migrate_read io_ok legacy decompress compress i s = Inr (Some (encodeNZBV2 compress nzb)) \<and>
    fst (DeleteNZB io_ok i s) = None \<and> \<not> NZB_Exists i (snd (DeleteNZB io_ok i s)) \<and>
    (let s' = snd (migrate_rename io_ok i (encodeNZBV2 compress nzb) (snd (DeleteNZB io_ok i s)))
     in NZB_Exists i s' \<and> GetNZB io_ok legacy decompress i s' = Inr (stored nzb) \<and> metaCount s' = int (length (meta s')) - 1)"
proof -
  obtain r s1 where d: "DeleteNZB io_ok i s = (r, s1)" by (cases "DeleteNZB io_ok i s")
  have "r = None" using d assms(1) by (auto simp: DeleteNZB_def Let_def)
  then have s1: "map_of (meta s1) i = None" "store_exact s1" using DeleteNZB_cases [OF d] assms(6) by auto
  have rn: "snd (migrate_rename io_ok i (encodeNZBV2 compress nzb) s1) = s1\<lparr>meta := AList.update i (encodeNZBV2 compress nzb) (meta s1)\<rparr>"
    using s1(1) by (simp add: migrate_rename_def fileIsCodecV2_def)
  have "decodeNZBV2 decompress (encodeNZBV2 compress nzb) = Inr (stored nzb)"
    using assms(4,5) by (intro decodeNZBV2_encoded) (simp_all add: fits_def)
  moreover have "isCodecV2 (encodeNZBV2 compress nzb)" "encodeNZBV2 compress nzb \<noteq> []"
    by (simp_all add: isCodecV2_def encodeNZBV2_def Let_def)
  moreover have "migrate_read io_ok legacy decompress compress i s = Inr (Some (encodeNZBV2 compress nzb))"
    using assms(1-3) by (simp add: migrate_read_def)
  ultimately show ?thesis
    using s1 \<open>r = None\<close>
    by (simp add: d rn Let_def NZB_Exists_def GetNZB_def decodeNZB_def update_conv' store_exact_def length_AList_update)
qed

theorem migration_resurrects_witness:
  "NZB_Exists [1] (snd (migrate_rename io_ok [1] (encodeNZBV2 (\<lambda>b. b) sample_nzb) (snd (DeleteNZB io_ok [1] (NewNZBStorage [([1], [9])])))))"
proof -
  have "fresh_store (NewNZBStorage [([1], [9])])" unfolding fresh_store_def by (rule exI [of _ "[([1], [9])]"]) simp
  then have ex: "store_exact (NewNZBStorage [([1], [9])])" by (rule nzb_store.init_inv)
  have m: "map_of (meta (NewNZBStorage [([1], [9])])) [1] = Some [9]" by (simp add: NewNZBStorage_def recalculateStatsLocked_def)
  show ?thesis
    using migration_resurrects [of "NewNZBStorage [([1], [9])]" "[1]" "[9]" "\<lambda>_. Inr sample_nzb" Some sample_nzb "\<lambda>b. b", OF m _ _ _ _ ex]
      sample_nzb_ok sample_nzb_size by (simp add: isCodecV2_def decodeNZB_def fits_def Let_def)
qed

end
