(* ===== verification/Buffer_Cache.thy ===== *)
theory Buffer_Cache
  imports Extents
begin

unbundle bit_operations_syntax

text \<open>
  The download buffer: \<^verbatim>\<open>src/internal/buffer/buffer.go\<close>, \<^verbatim>\<open>block.go\<close>, the allocator of \<^verbatim>\<open>alloc.go\<close> and the counters
  that a buffer keeps in its \<^verbatim>\<open>pool.go\<close>. A buffer is a sparse byte array whose recent writes live in 1 MiB blocks in
  memory and the rest in a file. The state is a record; an operation under the buffer's lock is one function on it.
  Block memory and file contents are functions from offsets to bytes, the file with a size past which nothing
  is read. The least-recently-used list is the list of the offsets of its blocks, most recent first. System calls may
  fail: \<open>faults\<close> lists the outcomes of the calls to come, and a failing write has written a prefix. The iteration order
  of Go's map of blocks is an argument where it matters. Offsets stay below \<^term>\<open>2 ^ 63\<close>; sums that the code
  computes in 64 bits are exact for the ranges that the theorems speak of.
\<close>

section \<open>Blocks\<close>

abbreviation blockSize :: int where "blockSize \<equiv> 1048576"

record block =
  data :: "int \<Rightarrow> byte"
  dirty :: "seg list"

definition isClean :: "block \<Rightarrow> bool" where
  "isClean blk = (dirty blk = [])"

fun add_extent :: "int \<Rightarrow> int \<Rightarrow> seg list \<Rightarrow> seg list" where
  "add_extent lo hi [] = [(lo, hi)]"
| "add_extent lo hi (e # es) =
     (if hi < fst e then (lo, hi) # e # es
      else if lo > snd e then e # add_extent lo hi es
      else case absorb (if lo < fst e then lo else fst e, if hi > snd e then hi else snd e) es of (s, rest) \<Rightarrow> s # rest)"

definition addDirty :: "int \<Rightarrow> int \<Rightarrow> block \<Rightarrow> block" where
  "addDirty lo hi blk = (if hi \<le> lo then blk else blk\<lparr>dirty := add_extent lo hi (dirty blk)\<rparr>)"

fun cut_extents :: "int \<Rightarrow> int \<Rightarrow> seg list \<Rightarrow> seg list" where
  "cut_extents lo hi [] = []"
| "cut_extents lo hi (e # es) =
     (if \<not> fst e < hi then e # es
      else if snd e \<le> lo then e # cut_extents lo hi es
      else if fst e \<ge> lo \<and> snd e \<le> hi then cut_extents lo hi es
      else if fst e < lo \<and> snd e > hi then (fst e, lo) # (hi, snd e) # es
      else if fst e < lo then (fst e, lo) # cut_extents lo hi es
      else (hi, snd e) # cut_extents lo hi es)"

definition removeDirty :: "int \<Rightarrow> int \<Rightarrow> block \<Rightarrow> block" where
  "removeDirty lo hi blk = blk\<lparr>dirty := cut_extents lo hi (dirty blk)\<rparr>"

section \<open>State\<close>

record disk_file =
  content :: "int \<Rightarrow> byte"
  fsize :: int

datatype io = Fine | Fault nat

datatype buf_error = ErrNotPresent | ErrClosed | ErrOutOfRange | ErrNoEvictable | ErrIO | ErrUnexpectedEOF

record pool_counters =
  memBudget :: int
  diskLimit :: int
  memInUse :: int
  diskInUse :: int
  evictSig :: bool
  poolPunches :: int
  poolReclaimed :: int
  statsWritten :: int
  statsFlushedBytes :: int
  statsWriteThroughBytes :: int
  statsReleasedInRAM :: int

record buffer_counters =
  statsHits :: int
  statsPartialHits :: int
  statsMisses :: int
  statsFlushes :: int
  statsEvictions :: int
  statsWriteThrough :: int
  statsPunches :: int
  statsReclaimed :: int

record buffer =
  dfile :: disk_file
  faults :: "io list"
  punching :: bool
  blocks :: "int \<rightharpoonup> block"
  lru :: "int list"
  bytesInRAM :: int
  maxBytes :: int
  ranges :: rangeSet
  onDisk :: rangeSet
  states :: "bool list option"
  readHead :: int
  diskBytes :: int
  free :: "(int \<Rightarrow> byte) list"
  maxFree :: nat
  buf_closed :: bool
  dropBehindPos :: int
  pool :: pool_counters
  counters :: buffer_counters

section \<open>System calls\<close>

definition io_now :: "buffer \<Rightarrow> io" where
  "io_now b = (if faults b = [] then Fine else hd (faults b))"

definition pwrite :: "disk_file \<Rightarrow> int \<Rightarrow> (int \<Rightarrow> byte) \<Rightarrow> int \<Rightarrow> disk_file" where
  "pwrite f off src n =
     (if n \<le> 0 then f
      else \<lparr>content = (\<lambda>x. if off \<le> x \<and> x < off + n then src (x - off) else content f x), fsize = max (fsize f) (off + n)\<rparr>)"

definition file_WriteAt :: "(int \<Rightarrow> byte) \<Rightarrow> int \<Rightarrow> int \<Rightarrow> buffer \<Rightarrow> bool \<times> buffer" where
  "file_WriteAt src n off b =
     (io_now b = Fine,
      b\<lparr>faults := tl (faults b), dfile := pwrite (dfile b) off src (case io_now b of Fine \<Rightarrow> n | Fault k \<Rightarrow> min (int k) n)\<rparr>)"

text \<open>A read returns the bytes up to the end of the file; a failing one reports no bytes.\<close>

definition file_ReadAt :: "int \<Rightarrow> int \<Rightarrow> buffer \<Rightarrow> byte list option \<times> buffer" where
  "file_ReadAt n off b =
     (if io_now b = Fine then Some (map (content (dfile b)) [off..off + min n (fsize (dfile b) - off) - 1]) else None,
      b\<lparr>faults := tl (faults b)\<rparr>)"

definition zero_out :: "int \<Rightarrow> int \<Rightarrow> disk_file \<Rightarrow> disk_file" where
  "zero_out off len f = f\<lparr>content := (\<lambda>x. if off \<le> x \<and> x < off + len then 0 else content f x)\<rparr>"

definition punchHole :: "int \<Rightarrow> int \<Rightarrow> buffer \<Rightarrow> bool \<times> buffer" where
  "punchHole off len b =
     (if len \<le> 0 \<or> \<not> punching b then (True, b)
      else (io_now b = Fine,
            b\<lparr>faults := tl (faults b), dfile := (if io_now b = Fine then zero_out off len (dfile b) else dfile b)\<rparr>))"

section \<open>Pool accounting\<close>

definition wouldExceedMemory :: "pool_counters \<Rightarrow> bool" where
  "wouldExceedMemory p = (memBudget p > 0 \<and> memInUse p + blockSize > memBudget p)"

definition addBlock :: "pool_counters \<Rightarrow> pool_counters" where
  "addBlock p = p\<lparr>memInUse := memInUse p + blockSize\<rparr>"

definition dropBytes :: "int \<Rightarrow> pool_counters \<Rightarrow> pool_counters" where
  "dropBytes n p = (if n > 0 then p\<lparr>memInUse := memInUse p - n\<rparr> else p)"

definition addDisk :: "int \<Rightarrow> pool_counters \<Rightarrow> pool_counters" where
  "addDisk n p =
     (if n \<le> 0 then p
      else let v = diskInUse p + n
           in p\<lparr>diskInUse := v, evictSig := evictSig p \<or> diskLimit p > 0 \<and> v > diskLimit p\<rparr>)"

definition subDisk :: "int \<Rightarrow> pool_counters \<Rightarrow> pool_counters" where
  "subDisk n p = (if n > 0 then p\<lparr>diskInUse := diskInUse p - n\<rparr> else p)"

section \<open>The block cache\<close>

definition alignDown :: "int \<Rightarrow> int" where
  "alignDown off = off AND NOT (blockSize - 1)"

definition stateSlot :: "buffer \<Rightarrow> int \<Rightarrow> nat option" where
  "stateSlot b blockOff =
     (case states b of None \<Rightarrow> None
      | Some ss \<Rightarrow> let idx = drop_bit 20 blockOff in if idx < 0 \<or> idx \<ge> int (length ss) then None else Some (nat idx))"

definition set_state :: "int \<Rightarrow> bool \<Rightarrow> buffer \<Rightarrow> buffer" where
  "set_state blockOff fast b =
     (case stateSlot b blockOff of None \<Rightarrow> b | Some i \<Rightarrow> b\<lparr>states := map_option (\<lambda>ss. ss[i := fast]) (states b)\<rparr>)"

definition markStateForBlockLocked :: "int \<Rightarrow> buffer \<Rightarrow> buffer" where
  "markStateForBlockLocked blockOff b =
     set_state blockOff (blocks b blockOff = None \<and> present (ranges b) blockOff blockSize) b"

definition rangesInsert :: "int \<Rightarrow> int \<Rightarrow> buffer \<Rightarrow> buffer" where
  "rangesInsert off len b =
     (case insert_extent (ranges b) off len of (added, rs) \<Rightarrow>
        let b = b\<lparr>ranges := rs\<rparr>
        in if added > 0 then b\<lparr>diskBytes := diskBytes b + added, pool := addDisk added (pool b)\<rparr> else b)"

definition rangesRemove :: "int \<Rightarrow> int \<Rightarrow> buffer \<Rightarrow> int \<times> buffer" where
  "rangesRemove off len b =
     (case remove_extent (ranges b) off len of (removed, rs) \<Rightarrow>
        let b = b\<lparr>ranges := rs\<rparr>
        in (removed, if removed > 0 then b\<lparr>diskBytes := diskBytes b - removed, pool := subDisk removed (pool b)\<rparr> else b))"

definition alloc_get :: "buffer \<Rightarrow> (int \<Rightarrow> byte) \<times> buffer" where
  "alloc_get b = (if free b \<noteq> [] then (last (free b), b\<lparr>free := butlast (free b)\<rparr>) else ((\<lambda>_. 0), b))"

definition alloc_put :: "(int \<Rightarrow> byte) \<Rightarrow> buffer \<Rightarrow> buffer" where
  "alloc_put d b = (if length (free b) < maxFree b then b\<lparr>free := free b @ [d]\<rparr> else b)"

definition pushFrontLocked :: "int \<Rightarrow> buffer \<Rightarrow> buffer" where
  "pushFrontLocked off b = b\<lparr>lru := off # lru b\<rparr>"

definition unlinkLocked :: "int \<Rightarrow> buffer \<Rightarrow> buffer" where
  "unlinkLocked off b = b\<lparr>lru := removeAll off (lru b)\<rparr>"

definition touchLocked :: "int \<Rightarrow> buffer \<Rightarrow> buffer" where
  "touchLocked off b = (if lru b \<noteq> [] \<and> hd (lru b) = off then b else pushFrontLocked off (unlinkLocked off b))"

definition dropBlockLocked :: "int \<Rightarrow> block \<Rightarrow> buffer \<Rightarrow> buffer" where
  "dropBlockLocked off blk b =
     (let b = unlinkLocked off (b\<lparr>blocks := (blocks b)(off := None)\<rparr>);
          b = b\<lparr>bytesInRAM := bytesInRAM b - blockSize, pool := dropBytes blockSize (pool b)\<rparr>
      in markStateForBlockLocked off (alloc_put (data blk) b))"

fun flush_extents :: "int \<Rightarrow> (int \<Rightarrow> byte) \<Rightarrow> seg list \<Rightarrow> buffer \<Rightarrow> buf_error option \<times> buffer" where
  "flush_extents off d [] b = (None, b)"
| "flush_extents off d ((lo, hi) # es) b =
     (let (ok, b) = file_WriteAt (\<lambda>i. d (lo + i)) (hi - lo) (off + lo) b
      in if ok then
           flush_extents off d es
             (b\<lparr>counters := (counters b)\<lparr>statsFlushes := statsFlushes (counters b) + 1\<rparr>,
                pool := (pool b)\<lparr>statsFlushedBytes := statsFlushedBytes (pool b) + (hi - lo)\<rparr>,
                onDisk := snd (insert_extent (onDisk b) (off + lo) (hi - lo))\<rparr>)
         else (Some ErrIO, b))"

definition flushBlockLocked :: "int \<Rightarrow> block \<Rightarrow> buffer \<Rightarrow> buf_error option \<times> buffer" where
  "flushBlockLocked off blk b =
     (if isClean blk then (None, b)
      else case flush_extents off (data blk) (dirty blk) b of
        (Some err, b) \<Rightarrow> (Some err, b)
      | (None, b) \<Rightarrow> (None, b\<lparr>blocks := (blocks b)(off \<mapsto> blk\<lparr>dirty := []\<rparr>)\<rparr>))"

definition count_eviction :: "buffer \<Rightarrow> buffer" where
  "count_eviction b = b\<lparr>counters := (counters b)\<lparr>statsEvictions := statsEvictions (counters b) + 1\<rparr>\<rparr>"

text \<open>The oldest clean block is dropped, or, when every block is dirty, the oldest one is flushed and dropped.\<close>

definition evictOneLocked :: "buffer \<Rightarrow> (bool \<times> buf_error option) \<times> buffer" where
  "evictOneLocked b =
     (case find (\<lambda>off. case blocks b off of Some blk \<Rightarrow> isClean blk | None \<Rightarrow> False) (rev (lru b)) of
        Some off \<Rightarrow> ((True, None), count_eviction (dropBlockLocked off (the (blocks b off)) b))
      | None \<Rightarrow>
          if lru b = [] then ((False, None), b)
          else let off = last (lru b); blk = the (blocks b off)
               in case flushBlockLocked off blk b of
                    (Some err, b) \<Rightarrow> ((False, Some err), b)
                  | (None, b) \<Rightarrow> ((True, None), count_eviction (dropBlockLocked off blk b)))"

lemma lru_frame [simp]:
  "lru (set_state off v b) = lru b" "lru (alloc_put d b) = lru b" "lru (count_eviction b) = lru b"
  "lru (snd (flush_extents off d es b)) = lru b"
  by (simp_all add: set_state_def alloc_put_def count_eviction_def split: option.split)
    (induction off d es b rule: flush_extents.induct; simp add: file_WriteAt_def Let_def)

lemma lru_flushBlock [simp]: "lru (snd (flushBlockLocked off blk b)) = lru b"
  using lru_frame(4) [of off "data blk" "dirty blk" b]
  by (cases "flush_extents off (data blk) (dirty blk) b") (auto simp: flushBlockLocked_def split: option.split)

lemma lru_dropBlock [simp]: "lru (dropBlockLocked off blk b) = removeAll off (lru b)"
  by (simp add: dropBlockLocked_def markStateForBlockLocked_def unlinkLocked_def Let_def)

lemma evict_shrinks:
  assumes "evictOneLocked b = ((True, err), b')"
  shows "length (lru b') < length (lru b)"
proof (cases "find (\<lambda>off. case blocks b off of Some blk \<Rightarrow> isClean blk | None \<Rightarrow> False) (rev (lru b))")
  case (Some off)
  then have "off \<in> set (lru b)" by (auto simp: find_Some_iff dest: nth_mem [of _ "rev (lru b)", simplified])
  then show ?thesis using assms Some by (auto simp: evictOneLocked_def length_removeAll_less)
next
  case None
  have "lru b \<noteq> []" using assms None by (auto simp: evictOneLocked_def)
  then have "last (lru b) \<in> set (lru b)" by simp
  moreover have "lru b' = removeAll (last (lru b)) (lru b)"
    using assms None lru_flushBlock [of "last (lru b)" "the (blocks b (last (lru b)))" b]
    by (cases "flushBlockLocked (last (lru b)) (the (blocks b (last (lru b)))) b")
      (auto simp: evictOneLocked_def Let_def split: if_splits option.splits)
  ultimately show ?thesis by (simp add: length_removeAll_less)
qed

text \<open>The loop that makes room for one more block. Every round that evicts shortens the list, so it ends.\<close>

function make_room :: "buffer \<Rightarrow> buf_error option \<times> buffer" where
  "make_room b =
     (if bytesInRAM b + blockSize > maxBytes b \<or> wouldExceedMemory (pool b) then
        case evictOneLocked b of ((True, err), b') \<Rightarrow> make_room b'
        | ((False, err), b') \<Rightarrow>
            if bytesInRAM b' + blockSize > maxBytes b' then (Some (case err of None \<Rightarrow> ErrNoEvictable | Some e \<Rightarrow> e), b')
            else (None, b')
      else (None, b))"
  by pat_completeness auto
termination
  by (relation "measure (\<lambda>b. length (lru b))") (auto dest: evict_shrinks [OF sym])

declare make_room.simps [simp del]

definition acquireBlockLocked :: "int \<Rightarrow> buffer \<Rightarrow> (buf_error + block) \<times> buffer" where
  "acquireBlockLocked blockOff b =
     (case blocks b blockOff of Some blk \<Rightarrow> (Inr blk, b)
      | None \<Rightarrow>
          (case make_room b of (Some err, b) \<Rightarrow> (Inl err, b)
           | (None, b) \<Rightarrow>
               (case alloc_get b of (buf, b) \<Rightarrow>
                  let (loaded, b) = (if anyPresent (ranges b) blockOff blockSize then
                         case file_ReadAt blockSize blockOff b of (None, b) \<Rightarrow> (None, b)
                         | (Some bs, b) \<Rightarrow> (Some (\<lambda>i. if 0 \<le> i \<and> i < int (length bs) then bs ! nat i else buf i), b)
                       else (Some buf, b))
                  in case loaded of None \<Rightarrow> (Inl ErrIO, alloc_put buf b)
                     | Some d \<Rightarrow>
                         let blk = \<lparr>data = d, dirty = []\<rparr>;
                             b = b\<lparr>blocks := (blocks b)(blockOff \<mapsto> blk), bytesInRAM := bytesInRAM b + blockSize,
                                   pool := addBlock (pool b)\<rparr>
                         in (Inr blk, set_state blockOff False (pushFrontLocked blockOff b)))))"

section \<open>Writing\<close>

definition writeIntoBlockLocked :: "int \<Rightarrow> int \<Rightarrow> int \<Rightarrow> (int \<Rightarrow> byte) \<Rightarrow> block \<Rightarrow> buffer \<Rightarrow> buffer" where
  "writeIntoBlockLocked off lo hi src blk b =
     (let blk = addDirty lo hi blk;
          blk = blk\<lparr>data := (\<lambda>i. if lo \<le> i \<and> i < hi then src (i - lo) else data blk i)\<rparr>;
          b = touchLocked off (b\<lparr>blocks := (blocks b)(off \<mapsto> blk)\<rparr>)
      in set_state off False (rangesInsert (off + lo) (hi - lo) b))"

text \<open>The write-through path writes to the file without the lock; publishing the range is its second step.\<close>

definition write_through_publish :: "int \<Rightarrow> int \<Rightarrow> int \<Rightarrow> (int \<Rightarrow> byte) \<Rightarrow> buffer \<Rightarrow> buf_error option \<times> buffer" where
  "write_through_publish blockOff lo hi src b =
     (if buf_closed b then (Some ErrClosed, b)
      else
        let diskOff = blockOff + lo;
            b = b\<lparr>onDisk := snd (insert_extent (onDisk b) diskOff (hi - lo))\<rparr>
        in (None, case blocks b blockOff of
              Some blk \<Rightarrow> writeIntoBlockLocked blockOff lo hi src blk b
            | None \<Rightarrow> markStateForBlockLocked blockOff (rangesInsert diskOff (hi - lo) b)))"

definition write_through :: "int \<Rightarrow> int \<Rightarrow> int \<Rightarrow> (int \<Rightarrow> byte) \<Rightarrow> buffer \<Rightarrow> buf_error option \<times> buffer" where
  "write_through blockOff lo hi src b =
     (let (ok, b) = file_WriteAt src (hi - lo) (blockOff + lo) b
      in if ok then
           write_through_publish blockOff lo hi src
             (b\<lparr>counters := (counters b)\<lparr>statsWriteThrough := statsWriteThrough (counters b) + 1\<rparr>,
                pool := (pool b)\<lparr>statsWriteThroughBytes := statsWriteThroughBytes (pool b) + (hi - lo)\<rparr>\<rparr>)
         else (Some ErrIO, b))"

definition canCache :: "buffer \<Rightarrow> bool" where
  "canCache b = (bytesInRAM b + blockSize \<le> maxBytes b \<and> \<not> wouldExceedMemory (pool b))"

definition writeRegion :: "int \<Rightarrow> int \<Rightarrow> int \<Rightarrow> (int \<Rightarrow> byte) \<Rightarrow> buffer \<Rightarrow> buf_error option \<times> buffer" where
  "writeRegion blockOff lo hi src b =
     (if blocks b blockOff \<noteq> None \<or> canCache b then
        if buf_closed b then (Some ErrClosed, b)
        else case acquireBlockLocked blockOff b of
               (Inl err, b) \<Rightarrow> (Some err, b)
             | (Inr blk, b) \<Rightarrow> (None, writeIntoBlockLocked blockOff lo hi src blk b)
      else write_through blockOff lo hi src b)"

lemma alignDown_eq: "alignDown off = off - off mod blockSize"
proof -
  have "off AND NOT (mask 20) = push_bit 20 (drop_bit 20 off)"
    by (rule bit_eqI) (auto simp: bit_simps)
  moreover have "blockSize - 1 = mask 20" by (simp add: mask_eq_exp_minus_1)
  ultimately show ?thesis
    by (simp add: alignDown_def push_bit_eq_mult drop_bit_eq_div minus_mod_eq_div_mult)
qed

lemma alignDown_bounds: "alignDown off \<le> off" "off < alignDown off + blockSize"
  unfolding alignDown_eq using pos_mod_bound [of blockSize off] by simp_all

function write_loop :: "byte list \<Rightarrow> int \<Rightarrow> int \<Rightarrow> buffer \<Rightarrow> (int \<times> buf_error option) \<times> buffer" where
  "write_loop p off cur b =
     (let fin = off + int (length p) in
      if cur < fin then
        let blockOff = alignDown cur; lo = cur - blockOff; hi = min fin (blockOff + blockSize) - blockOff; srcLo = cur - off
        in case writeRegion blockOff lo hi (\<lambda>i. p ! nat (srcLo + i)) b of
             (Some err, b) \<Rightarrow> ((srcLo, Some err), b)
           | (None, b) \<Rightarrow> write_loop p off (cur + (hi - lo)) b
      else ((int (length p), None), b\<lparr>pool := (pool b)\<lparr>statsWritten := statsWritten (pool b) + int (length p)\<rparr>\<rparr>))"
  by pat_completeness auto
termination
  by (relation "measure (\<lambda>(p, off, cur, b). nat (off + int (length p) - cur))") (use alignDown_bounds in \<open>auto simp: Let_def\<close>)

declare write_loop.simps [simp del]

definition WriteAt :: "byte list \<Rightarrow> int \<Rightarrow> buffer \<Rightarrow> (int \<times> buf_error option) \<times> buffer" where
  "WriteAt p off b =
     (if buf_closed b then ((0, Some ErrClosed), b)
      else if p = [] then ((0, None), b)
      else if off < 0 then ((0, Some ErrOutOfRange), b)
      else write_loop p off off b)"

end
