(* ===== verification/Buffer_Ops.thy ===== *)
theory Buffer_Ops
  imports Buffer_Cache
begin

text \<open>
  The other operations of \<^verbatim>\<open>src/internal/buffer/buffer.go\<close>: reading, discarding, flushing, closing, construction and
  the disk backstop of \<^verbatim>\<open>pool.go\<close>. Reading and discarding are two steps each where the code leaves its lock between
  them: the check of the state slots and the read of the file, and the change under the lock and the hole punch.
\<close>

section \<open>Reading\<close>

text \<open>The offsets of the blocks that a range touches.\<close>

definition block_offs :: "int \<Rightarrow> int \<Rightarrow> int list" where
  "block_offs off fin = map (\<lambda>k. alignDown off + int k * blockSize) [0..<nat ((fin - alignDown off + blockSize - 1) div blockSize)]"

definition fast_slot :: "buffer \<Rightarrow> int \<Rightarrow> bool" where
  "fast_slot b blockOff = (case stateSlot b blockOff of None \<Rightarrow> False | Some i \<Rightarrow> (case states b of None \<Rightarrow> False | Some ss \<Rightarrow> ss ! i))"

definition all_fast :: "int \<Rightarrow> int \<Rightarrow> buffer \<Rightarrow> bool" where
  "all_fast off n b = (states b \<noteq> None \<and> (\<forall>blockOff \<in> set (block_offs off (off + n)). fast_slot b blockOff))"

definition count_read :: "bool \<Rightarrow> bool \<Rightarrow> buffer \<Rightarrow> buffer" where
  "count_read ram disk b =
     b\<lparr>counters := (if ram \<and> \<not> disk then (counters b)\<lparr>statsHits := statsHits (counters b) + 1\<rparr>
                    else if ram \<and> disk then (counters b)\<lparr>statsPartialHits := statsPartialHits (counters b) + 1\<rparr>
                    else (counters b)\<lparr>statsMisses := statsMisses (counters b) + 1\<rparr>)\<rparr>"

definition fast_read :: "int \<Rightarrow> int \<Rightarrow> buffer \<Rightarrow> (byte list \<times> buf_error option) \<times> buffer" where
  "fast_read n off b =
     (case file_ReadAt n off b of (None, b) \<Rightarrow> (([], Some ErrIO), b)
      | (Some bs, b) \<Rightarrow> if int (length bs) < n then ((bs, Some ErrUnexpectedEOF), b) else ((bs, None), count_read False True b))"

function read_loop :: "int \<Rightarrow> int \<Rightarrow> byte list \<Rightarrow> bool \<Rightarrow> bool \<Rightarrow> buffer \<Rightarrow> (byte list \<times> buf_error option) \<times> buffer" where
  "read_loop cur fin acc ram disk b =
     (if cur < fin then
        let blockOff = alignDown cur; lo = cur - blockOff; hi = min fin (blockOff + blockSize) - blockOff
        in case blocks b blockOff of
             Some blk \<Rightarrow> read_loop (cur + (hi - lo)) fin (acc @ map (data blk) [lo..hi - 1]) True disk b
           | None \<Rightarrow>
               (let (got, b) = file_ReadAt (hi - lo) cur b
                in case got of None \<Rightarrow> ((acc, Some ErrIO), b)
                   | Some bs \<Rightarrow>
                       if int (length bs) < hi - lo then ((acc @ bs, Some ErrUnexpectedEOF), b)
                       else read_loop (cur + (hi - lo)) fin (acc @ bs) ram True b)
      else ((acc, None), count_read ram disk b))"
  by pat_completeness auto
termination
  by (relation "measure (\<lambda>(cur, fin, acc, ram, disk, b). nat (fin - cur))") (use alignDown_bounds in \<open>auto simp: Let_def\<close>)

declare read_loop.simps [simp del]

definition slow_read :: "int \<Rightarrow> int \<Rightarrow> buffer \<Rightarrow> (byte list \<times> buf_error option) \<times> buffer" where
  "slow_read n off b =
     (if \<not> present (ranges b) off n then (([], Some ErrNotPresent), count_read False True b)
      else read_loop off (off + n) [] False False b)"

definition ReadAt :: "int \<Rightarrow> int \<Rightarrow> buffer \<Rightarrow> (byte list \<times> buf_error option) \<times> buffer" where
  "ReadAt n off b =
     (if buf_closed b then (([], Some ErrClosed), b)
      else if n = 0 then (([], None), b)
      else if off < 0 then (([], Some ErrOutOfRange), b)
      else if all_fast off n b then fast_read n off b
      else slow_read n off b)"

definition HasRange :: "int \<Rightarrow> int \<Rightarrow> buffer \<Rightarrow> bool" where
  "HasRange off len b = (if buf_closed b \<or> len \<le> 0 then False else present (ranges b) off len)"

definition Buffer_Present :: "int \<Rightarrow> int \<Rightarrow> buffer \<Rightarrow> (int \<times> int) list" where
  "Buffer_Present off len b = (if buf_closed b \<or> len \<le> 0 then [] else presentRanges (ranges b) off len)"

section \<open>Discarding\<close>

definition discard_block :: "int \<Rightarrow> int \<Rightarrow> int \<Rightarrow> buffer \<Rightarrow> buffer" where
  "discard_block off fin blkOff b =
     (case blocks b blkOff of None \<Rightarrow> b
      | Some blk \<Rightarrow>
          if blkOff \<ge> off \<and> blkOff + blockSize \<le> fin then dropBlockLocked blkOff blk b
          else b\<lparr>blocks := (blocks b)(blkOff \<mapsto> removeDirty (max (off - blkOff) 0) (min (fin - blkOff) blockSize) blk)\<rparr>)"

definition drop_if_empty :: "int \<Rightarrow> buffer \<Rightarrow> buffer" where
  "drop_if_empty blkOff b =
     (case blocks b blkOff of None \<Rightarrow> b
      | Some blk \<Rightarrow> if \<not> anyPresent (ranges b) blkOff blockSize then dropBlockLocked blkOff blk b else b)"

text \<open>The part under the lock: how many bytes it removed, and whether any of them had reached the file.\<close>

definition discard_locked :: "int \<Rightarrow> int \<Rightarrow> buffer \<Rightarrow> (int \<times> bool) \<times> buffer" where
  "discard_locked off len b =
     (if buf_closed b then ((0, False), b)
      else
        let fin = off + len;
            b = fold (discard_block off fin) (block_offs off fin) b;
            (removed, b) = rangesRemove off len b;
            b = fold drop_if_empty [alignDown off, alignDown (fin - 1)] b;
            (cut, od) = remove_extent (onDisk b) off len;
            b = b\<lparr>onDisk := od\<rparr>;
            b = (if states b \<noteq> None then fold markStateForBlockLocked (block_offs off fin) b else b)
        in ((removed, cut > 0), b))"

definition discard_punch :: "int \<Rightarrow> int \<Rightarrow> int \<Rightarrow> bool \<Rightarrow> buffer \<Rightarrow> buffer" where
  "discard_punch off len removed hadDisk b =
     (if \<not> hadDisk then b\<lparr>pool := (pool b)\<lparr>statsReleasedInRAM := statsReleasedInRAM (pool b) + removed\<rparr>\<rparr>
      else
        let (ok, b) = punchHole off len b
        in if ok then b\<lparr>counters := (counters b)\<lparr>statsPunches := statsPunches (counters b) + 1,
               statsReclaimed := statsReclaimed (counters b) + removed\<rparr>\<rparr>
           else b)"

definition discard :: "int \<Rightarrow> int \<Rightarrow> buffer \<Rightarrow> int \<times> buffer" where
  "discard off len b =
     (if buf_closed b then (0, b)
      else case discard_locked off len b of ((removed, hadDisk), b) \<Rightarrow> (removed, discard_punch off len removed hadDisk b))"

definition Discard :: "int \<Rightarrow> int \<Rightarrow> buffer \<Rightarrow> buf_error option \<times> buffer" where
  "Discard off len b =
     (if buf_closed b then (Some ErrClosed, b)
      else if len = 0 then (None, b)
      else if off < 0 \<or> len < 0 then (Some ErrOutOfRange, b)
      else (None, snd (discard off len b)))"

fun punch_ranges :: "(int \<times> int) list \<Rightarrow> int \<Rightarrow> (int \<times> int) list \<Rightarrow> buffer \<Rightarrow> (int \<times> (int \<times> int) list) \<times> buffer" where
  "punch_ranges [] reclaimed evicted b = ((reclaimed, evicted), b)"
| "punch_ranges ((off, len) # rs) reclaimed evicted b =
     (case discard off len b of (n, b) \<Rightarrow>
        if n > 0 then punch_ranges rs (reclaimed + n) (evicted @ [(off, len)]) b
        else punch_ranges rs reclaimed evicted b)"

text \<open>The ranges handed to the owner's \<^verbatim>\<open>OnEvict\<close> are part of the result. The ranges to punch are chosen first, from the
  read head as it is then.\<close>

definition punch_plan :: "int \<Rightarrow> buffer \<Rightarrow> (int \<times> int) list" where
  "punch_plan backWindow b =
     (if buf_closed b \<or> readHead b \<le> 0 \<or> readHead b - backWindow \<le> 0 then []
      else presentRanges (ranges b) 0 (readHead b - backWindow))"

definition punchBehindWindow :: "int \<Rightarrow> buffer \<Rightarrow> (int \<times> (int \<times> int) list) \<times> buffer" where
  "punchBehindWindow backWindow b =
     (case punch_ranges (punch_plan backWindow b) 0 [] b of ((reclaimed, evicted), b) \<Rightarrow>
        ((reclaimed, evicted),
         if reclaimed > 0 then b\<lparr>pool := (pool b)\<lparr>poolPunches := poolPunches (pool b) + 1, poolReclaimed := poolReclaimed (pool b) + reclaimed\<rparr>\<rparr>
         else b))"

definition SetReadHead :: "int \<Rightarrow> buffer \<Rightarrow> buffer" where
  "SetReadHead off b = b\<lparr>readHead := (if off < 0 then 0 else off)\<rparr>"

definition DropBehind :: "int \<Rightarrow> int \<Rightarrow> buffer \<Rightarrow> buffer" where
  "DropBehind offset margin b =
     (if buf_closed b \<or> margin \<le> 0 \<or> offset \<le> margin then b
      else if offset - margin \<le> dropBehindPos b then b
      else b\<lparr>dropBehindPos := offset - margin\<rparr>)"

section \<open>Flushing and closing\<close>

text \<open>Go visits the blocks of its map in any order, here the one given.\<close>

fun flushAllLocked :: "int list \<Rightarrow> buffer \<Rightarrow> buf_error option \<times> buffer" where
  "flushAllLocked [] b = (None, b)"
| "flushAllLocked (off # offs) b =
     (case blocks b off of None \<Rightarrow> flushAllLocked offs b
      | Some blk \<Rightarrow> (case flushBlockLocked off blk b of (Some err, b) \<Rightarrow> (Some err, b) | (None, b) \<Rightarrow> flushAllLocked offs b))"

definition Flush :: "int list \<Rightarrow> buffer \<Rightarrow> buf_error option \<times> buffer" where
  "Flush order b = (if buf_closed b then (Some ErrClosed, b) else flushAllLocked order b)"

definition Sync :: "int list \<Rightarrow> buffer \<Rightarrow> buf_error option \<times> buffer" where
  "Sync order b =
     (if buf_closed b then (Some ErrClosed, b)
      else case flushAllLocked order b of (Some err, b) \<Rightarrow> (Some err, b)
        | (None, b) \<Rightarrow> (if io_now b = Fine then None else Some ErrIO, b\<lparr>faults := tl (faults b)\<rparr>))"

fun close_blocks :: "int list \<Rightarrow> buffer \<Rightarrow> buffer" where
  "close_blocks [] b = b"
| "close_blocks (off # offs) b =
     (case blocks b off of None \<Rightarrow> close_blocks offs b
      | Some blk \<Rightarrow>
          (let b = (if isClean blk then b else snd (flushBlockLocked off blk b))
           in close_blocks offs (b\<lparr>blocks := (blocks b)(off := None)\<rparr>)))"

definition Buffer_Close :: "int list \<Rightarrow> buffer \<Rightarrow> buf_error option \<times> buffer" where
  "Buffer_Close order b =
     (if buf_closed b then (Some ErrClosed, b)
      else
        let b = close_blocks order (b\<lparr>buf_closed := True\<rparr>);
            b = b\<lparr>pool := dropBytes (bytesInRAM b) (pool b), bytesInRAM := 0\<rparr>;
            b = b\<lparr>pool := subDisk (diskBytes b) (pool b), diskBytes := 0, ranges := newRangeSet, onDisk := newRangeSet, free := []\<rparr>
        in (if io_now b = Fine then None else Some ErrIO, b\<lparr>faults := tl (faults b)\<rparr>))"

section \<open>Construction\<close>

record buf_config =
  MemorySize :: int
  TotalSize :: int
  InitialRanges :: "(int \<times> int) list"

definition defaultMemorySize :: int where "defaultMemorySize = 33554432"

definition maxReuseBlocks :: nat where "maxReuseBlocks = 8"

definition memory_size :: "buf_config \<Rightarrow> int" where
  "memory_size cfg =
     (let m = (if MemorySize cfg \<le> 0 then defaultMemorySize else MemorySize cfg) in if m < blockSize then blockSize else m)"

definition seed_range :: "int \<times> int \<Rightarrow> buffer \<Rightarrow> buffer" where
  "seed_range r b =
     (if snd r > 0 then
        let b = rangesInsert (fst r) (snd r) b in b\<lparr>onDisk := snd (insert_extent (onDisk b) (fst r) (snd r))\<rparr>
      else b)"

definition seed_states :: "buffer \<Rightarrow> buffer" where
  "seed_states b =
     b\<lparr>states := map_option (\<lambda>ss. map (\<lambda>i. ss ! i \<or> present (ranges b) (push_bit 20 (int i)) blockSize) [0..<length ss]) (states b)\<rparr>"

text \<open>The file as opening gives it, none when that fails, before it is truncated to the size of the buffer. Truncating keeps the bytes below the
  new size and reads as zero above the old one.\<close>

definition file_Truncate :: "int \<Rightarrow> disk_file \<Rightarrow> disk_file" where
  "file_Truncate n f = \<lparr>content = (\<lambda>x. if x < fsize f \<and> x < n then content f x else 0), fsize = n\<rparr>"

definition blank_buffer :: "buf_config \<Rightarrow> bool \<Rightarrow> disk_file \<Rightarrow> io list \<Rightarrow> pool_counters \<Rightarrow> buffer" where
  "blank_buffer cfg punches f io p =
     \<lparr>dfile = f, faults = io, punching = punches, blocks = (\<lambda>_. None), lru = [], bytesInRAM = 0, maxBytes = memory_size cfg,
      ranges = newRangeSet, onDisk = newRangeSet, states = None, readHead = 0, diskBytes = 0, free = [],
      maxFree = (let n = min (nat (memory_size cfg div blockSize)) maxReuseBlocks in if n < 1 then 1 else n),
      buf_closed = False, dropBehindPos = 0, pool = p,
      counters = \<lparr>statsHits = 0, statsPartialHits = 0, statsMisses = 0, statsFlushes = 0, statsEvictions = 0,
        statsWriteThrough = 0, statsPunches = 0, statsReclaimed = 0\<rparr>\<rparr>"

definition size_file :: "int \<Rightarrow> buffer \<Rightarrow> buffer" where
  "size_file sz b =
     (if sz > 0 then
        b\<lparr>faults := tl (faults b), dfile := file_Truncate sz (dfile b),
          states := Some (replicate (nat ((sz + blockSize - 1) div blockSize)) False)\<rparr>
      else b)"

definition newBuffer :: "buf_config \<Rightarrow> bool \<Rightarrow> disk_file option \<Rightarrow> io list \<Rightarrow> pool_counters \<Rightarrow> buf_error + buffer" where
  "newBuffer cfg punches opened io p =
     (if TotalSize cfg < 0 then Inl ErrOutOfRange
      else case opened of None \<Rightarrow> Inl ErrIO
        | Some f \<Rightarrow>
            let b = blank_buffer cfg punches f io p
            in if TotalSize cfg > 0 \<and> io_now b \<noteq> Fine then Inl ErrIO
               else Inr (seed_states (fold seed_range (InitialRanges cfg) (size_file (TotalSize cfg) b))))"

record buf_stats =
  BlocksInRAM :: nat
  BytesInRAM :: int
  BytesPresent :: int
  ReadCounters :: buffer_counters

definition Stats :: "buffer \<Rightarrow> buf_stats" where
  "Stats b = \<lparr>BlocksInRAM = length (filter (\<lambda>off. blocks b off \<noteq> None) (lru b)), BytesInRAM = bytesInRAM b, BytesPresent = totalSize (ranges b), ReadCounters = counters b\<rparr>"

end
