(* ===== verification/Buffer_Inv.thy ===== *)
theory Buffer_Inv
  imports Buffer_Ops
begin

text \<open>
  The arithmetic the buffer's invariant rests on: block offsets, the blocks that a range touches, and the dirty extents of
  a block as a set of bytes.
\<close>

section \<open>Block arithmetic\<close>

lemma alignDown_aligned: "alignDown x mod blockSize = 0"
  by (simp add: alignDown_eq minus_mod_eq_mult_div)

lemma alignDown_eqI: "off mod blockSize = 0 \<Longrightarrow> off \<le> x \<Longrightarrow> x < off + blockSize \<Longrightarrow> alignDown x = off"
proof -
  assume a: "off mod blockSize = 0" "off \<le> x" "x < off + blockSize"
  then obtain k where k: "off = blockSize * k" by (auto simp: mod_eq_0_iff_dvd elim: dvdE)
  have "x mod blockSize = x - off" using a unfolding k by (intro int_mod_pos_eq [of _ _ k]) auto
  then show ?thesis by (simp add: alignDown_eq)
qed

lemma alignDown_iff: "off mod blockSize = 0 \<Longrightarrow> alignDown x = off \<longleftrightarrow> off \<le> x \<and> x < off + blockSize"
  using alignDown_eqI [of off x] alignDown_bounds [of x] by auto

lemma alignDown_mult: "alignDown x = blockSize * (x div blockSize)"
  by (simp add: alignDown_eq minus_mod_eq_mult_div)

lemma alignDown_nonneg: "0 \<le> x \<Longrightarrow> 0 \<le> alignDown x"
  by (simp add: alignDown_mult)

lemma alignDown_mono: "x \<le> y \<Longrightarrow> alignDown x \<le> alignDown y"
  by (simp add: alignDown_mult zdiv_mono1)

lemma alignDown_shift: "off mod blockSize = 0 \<Longrightarrow> 0 \<le> i \<Longrightarrow> i < blockSize \<Longrightarrow> alignDown (off + i) = off"
  by (simp add: alignDown_iff)

lemma block_offs_mem: "x \<in> set (block_offs off fin) \<longleftrightarrow> x mod blockSize = 0 \<and> alignDown off \<le> x \<and> x < fin"
proof -
  define a where "a = alignDown off"
  have a: "a mod blockSize = 0" by (simp add: a_def alignDown_aligned)
  have le: "k < nat ((fin - a + blockSize - 1) div blockSize) \<longleftrightarrow> a + int k * blockSize < fin" for k
  proof -
    have "k < nat ((fin - a + blockSize - 1) div blockSize) \<longleftrightarrow> int k + 1 \<le> (fin - a + blockSize - 1) div blockSize" by linarith
    also have "\<dots> \<longleftrightarrow> (int k + 1) * blockSize \<le> fin - a + blockSize - 1" by (rule le_div_mult) simp
    finally show ?thesis by (simp add: algebra_simps) linarith
  qed
  have "x \<in> set (block_offs off fin) \<longleftrightarrow> (\<exists>k. a + int k * blockSize < fin \<and> x = a + int k * blockSize)"
    using le by (auto simp: block_offs_def a_def [symmetric] image_iff)
  also have "\<dots> \<longleftrightarrow> x mod blockSize = 0 \<and> a \<le> x \<and> x < fin"
  proof
    assume "x mod blockSize = 0 \<and> a \<le> x \<and> x < fin"
    moreover from this have "blockSize dvd x - a" using a by (simp add: dvd_eq_mod_eq_0 mod_diff_eq [symmetric, of x])
    then obtain j where "x - a = blockSize * j" by (rule dvdE)
    ultimately have "x = a + int (nat j) * blockSize" by auto
    then show "\<exists>k. a + int k * blockSize < fin \<and> x = a + int k * blockSize"
      using \<open>x mod blockSize = 0 \<and> a \<le> x \<and> x < fin\<close> by (intro exI [of _ "nat j"]) simp
  next
    assume "\<exists>k. a + int k * blockSize < fin \<and> x = a + int k * blockSize"
    then show "x mod blockSize = 0 \<and> a \<le> x \<and> x < fin" using a by auto
  qed
  finally show ?thesis by (simp add: a_def)
qed

lemma block_offs_cover: "off \<le> x \<Longrightarrow> x < fin \<Longrightarrow> alignDown x \<in> set (block_offs off fin)"
proof -
  assume x: "off \<le> x" "x < fin"
  have "alignDown off \<le> alignDown x" using x by (intro alignDown_mono)
  then show ?thesis using alignDown_aligned [of x] alignDown_bounds [of x] x by (auto simp: block_offs_mem)
qed

section \<open>Dirty extents\<close>

lemma add_extent_spec:
  assumes "gapped es" "lo < hi"
  shows "gapped (add_extent lo hi es) \<and> cover (add_extent lo hi es) = cover es \<union> {lo..<hi}"
  using assms
proof (induction es)
  case (Cons e es)
  consider "hi < fst e" | "snd e < lo" "\<not> hi < fst e" | "fst e \<le> hi" "lo \<le> snd e" by linarith
  then show ?case
  proof cases
    case 1
    then show ?thesis using Cons.prems by (auto intro: less_trans)
  next
    case 2
    have "gapped (e # add_extent lo hi es)"
    proof -
      have g: "gapped (add_extent lo hi es)" "cover (add_extent lo hi es) = cover es \<union> {lo..<hi}" using Cons by auto
      have "snd e < fst t" if t: "t \<in> set (add_extent lo hi es)" for t
      proof -
        have "fst t < snd t" using g(1) t by (auto simp: gapped_def)
        then have "fst t \<in> cover (add_extent lo hi es)" using t by (force simp: cover_def)
        then show ?thesis using g(2) 2 cover_Cons_after [OF Cons.prems(1), of "fst t"] by auto
      qed
      then show ?thesis using g(1) Cons.prems(1) by auto
    qed
    then show ?thesis using Cons 2 by auto
  next
    case 3
    obtain s rest where ab: "absorb (min lo (fst e), max hi (snd e)) es = (s, rest)" by (metis surj_pair)
    have "\<forall>t \<in> set es. min lo (fst e) \<le> fst t" using Cons.prems(1) by auto
    moreover have "min lo (fst e) < max hi (snd e)" using Cons.prems(2) by linarith
    ultimately have sp: "gapped (s # rest)" "cover (s # rest) = {min lo (fst e)..<max hi (snd e)} \<union> cover es"
      using absorb_spec [OF ab] Cons.prems by auto
    have "add_extent lo hi (e # es) = s # rest"
      using 3 ab by (auto simp: min_def max_def not_less split: if_splits)
    moreover have "{min lo (fst e)..<max hi (snd e)} = {lo..<hi} \<union> seg_bytes e" using 3 Cons.prems by auto
    ultimately show ?thesis using sp by auto
  qed
qed auto

lemma cut_extents_spec:
  assumes "gapped es" "lo < hi"
  shows "gapped (cut_extents lo hi es) \<and> cover (cut_extents lo hi es) = cover es - {lo..<hi}"
  using assms
proof (induction es)
  case (Cons e es)
  have g: "gapped es" "fst e < snd e" "\<And>t. t \<in> set es \<Longrightarrow> snd e < fst t" using Cons.prems by auto
  have IH: "gapped (cut_extents lo hi es)" "cover (cut_extents lo hi es) = cover es - {lo..<hi}" using Cons g by auto
  have after: "snd e < x" if "x \<in> cover es" for x using cover_Cons_after [OF Cons.prems(1) that] .
  have fsts: "snd e < fst t" if "t \<in> set (cut_extents lo hi es)" for t
  proof -
    have "fst t < snd t" using IH(1) that by (auto simp: gapped_def)
    then have "fst t \<in> cover (cut_extents lo hi es)" using that by (force simp: cover_def)
    then show ?thesis using IH(2) after by auto
  qed
  have far: "cover es \<inter> {lo..<hi} = {}" if "hi \<le> snd e" using after that by force
  have tail: "fst s < snd s \<Longrightarrow> snd s \<le> snd e \<Longrightarrow> gapped (s # cut_extents lo hi es)" for s
    using fsts IH(1) by fastforce
  have rest: "fst s < snd s \<Longrightarrow> snd s \<le> snd e \<Longrightarrow> gapped (s # es)" for s using g by fastforce
  consider "hi \<le> fst e" | "fst e < hi" "snd e \<le> lo" | "fst e < hi" "lo \<le> fst e" "snd e \<le> hi" "\<not> snd e \<le> lo"
    | "fst e < lo" "hi < snd e" | "fst e < lo" "lo < snd e" "snd e \<le> hi" | "lo \<le> fst e" "fst e < hi" "hi < snd e" by linarith
  then show ?case
  proof cases
    case 1
    then show ?thesis using Cons.prems far g(2) by auto
  next
    case 2
    then show ?thesis using tail [of e] g(2) IH by auto
  next
    case 3
    then show ?thesis using IH by auto
  next
    case 4
    then have "gapped ((fst e, lo) # (hi, snd e) # es)" using rest [of "(hi, snd e)"] g Cons.prems(2) by fastforce
    moreover have "cut_extents lo hi (e # es) = (fst e, lo) # (hi, snd e) # es" using 4 Cons.prems(2) by simp
    moreover have "cover es - {lo..<hi} = cover es" using far 4 by auto
    ultimately show ?thesis using 4 by auto
  next
    case 5
    then have "cut_extents lo hi (e # es) = (fst e, lo) # cut_extents lo hi es" using Cons.prems(2) by simp
    then show ?thesis using tail [of "(fst e, lo)"] IH 5 by auto
  next
    case 6
    then have "cut_extents lo hi (e # es) = (hi, snd e) # cut_extents lo hi es" using Cons.prems(2) by simp
    then show ?thesis using tail [of "(hi, snd e)"] IH 6 by auto
  qed
qed auto

end
