(* ===== verification/Buffer_Coherence.thy ===== *)
theory Buffer_Coherence
  imports Buffer_Inv
begin

text \<open>
  The invariant of the download buffer, what each step under its lock does to it, and the byte array it stands for.
\<close>

section \<open>The invariant\<close>

definition block_ok :: "rangeSet \<Rightarrow> int \<Rightarrow> block \<Rightarrow> bool" where
  "block_ok rg off blk \<longleftrightarrow> off mod blockSize = 0 \<and> 0 \<le> off \<and> off + blockSize \<le> max_i64 \<and> gapped (dirty blk) \<and>
     cover (dirty blk) \<subseteq> {0..<blockSize} \<and> (\<forall>i \<in> cover (dirty blk). off + i \<in> extent_bytes rg)"

text \<open>A present byte whose block is not resident is on disk; in a resident block it is dirty, or on disk as it is in the
  block.\<close>

definition copy_ok :: "disk_file \<Rightarrow> (int \<rightharpoonup> block) \<Rightarrow> rangeSet \<Rightarrow> int \<Rightarrow> bool" where
  "copy_ok fl bl od x \<longleftrightarrow> (case bl (alignDown x) of None \<Rightarrow> x \<in> extent_bytes od
     | Some blk \<Rightarrow> x - alignDown x \<in> cover (dirty blk) \<or>
         x \<in> extent_bytes od \<and> content fl x = data blk (x - alignDown x))"

definition coherent :: "disk_file \<Rightarrow> (int \<rightharpoonup> block) \<Rightarrow> rangeSet \<Rightarrow> rangeSet \<Rightarrow> bool" where
  "coherent fl bl rg od \<longleftrightarrow> extents_ok rg \<and> extents_ok od \<and> extent_bytes od \<subseteq> extent_bytes rg \<and>
     (\<forall>x \<in> extent_bytes od. x < fsize fl) \<and> (\<forall>off blk. bl off = Some blk \<longrightarrow> block_ok rg off blk) \<and>
     (\<forall>x \<in> extent_bytes rg. copy_ok fl bl od x)"

definition mem_of :: "disk_file \<Rightarrow> (int \<rightharpoonup> block) \<Rightarrow> rangeSet \<Rightarrow> int \<rightharpoonup> byte" where
  "mem_of fl bl rg x = (if x \<in> extent_bytes rg then
     Some (case bl (alignDown x) of None \<Rightarrow> content fl x | Some blk \<Rightarrow> data blk (x - alignDown x)) else None)"

abbreviation buf_coherent :: "buffer \<Rightarrow> bool" where
  "buf_coherent b \<equiv> coherent (dfile b) (blocks b) (ranges b) (onDisk b)"

definition memory :: "buffer \<Rightarrow> int \<rightharpoonup> byte" where
  "memory b = mem_of (dfile b) (blocks b) (ranges b)"

definition slots_ok :: "(int \<rightharpoonup> block) \<Rightarrow> rangeSet \<Rightarrow> bool list option \<Rightarrow> bool" where
  "slots_ok bl rg st \<longleftrightarrow> (\<forall>ss i. st = Some ss \<longrightarrow> i < length ss \<longrightarrow> ss ! i \<longrightarrow>
     bl (int i * blockSize) = None \<and> {int i * blockSize..<int i * blockSize + blockSize} \<subseteq> extent_bytes rg)"

definition counts_ok :: "buffer \<Rightarrow> bool" where
  "counts_ok b \<longleftrightarrow> distinct (lru b) \<and> set (lru b) = dom (blocks b) \<and> bytesInRAM b = blockSize * int (length (lru b)) \<and>
     bytesInRAM b \<le> maxBytes b \<and> blockSize \<le> maxBytes b \<and> diskBytes b = int (card (extent_bytes (ranges b)))"

definition buf_ok :: "buffer \<Rightarrow> bool" where
  "buf_ok b \<longleftrightarrow> \<not> buf_closed b \<and> buf_coherent b \<and> slots_ok (blocks b) (ranges b) (states b) \<and> counts_ok b"

text \<open>What the rest of the pool has in use.\<close>

definition foreign :: "buffer \<Rightarrow> int \<times> int" where
  "foreign b = (memInUse (pool b) - bytesInRAM b, diskInUse (pool b) - diskBytes b)"

lemma coherentD:
  assumes "coherent fl bl rg od"
  shows "extents_ok rg" "extents_ok od" "extent_bytes od \<subseteq> extent_bytes rg" "x \<in> extent_bytes od \<Longrightarrow> x < fsize fl"
    "bl off = Some blk \<Longrightarrow> block_ok rg off blk" "x \<in> extent_bytes rg \<Longrightarrow> copy_ok fl bl od x"
  using assms by (auto simp: coherent_def)

lemma extent_bytes_bounds: "extents_ok rg \<Longrightarrow> x \<in> extent_bytes rg \<Longrightarrow> 0 \<le> x \<and> x < max_i64"
  unfolding extents_ok_def extent_bytes_def by (blast dest: cover_bounded)

lemma insert_bytes:
  "extents_ok rg \<Longrightarrow> valid_range pos len \<Longrightarrow> extents_ok (snd (insert_extent rg pos len)) \<and>
     extent_bytes (snd (insert_extent rg pos len)) = extent_bytes rg \<union> {pos..<pos + len}"
  using extent_set.ins_ok extent_set.ins_bytes by blast

lemma remove_bytes:
  "extents_ok rg \<Longrightarrow> valid_range pos len \<Longrightarrow> extents_ok (snd (remove_extent rg pos len)) \<and>
     extent_bytes (snd (remove_extent rg pos len)) = extent_bytes rg - {pos..<pos + len}"
  using extent_set.rem_ok extent_set.rem_bytes by blast

section \<open>Flushing\<close>

lemma pwrite_content:
  "content (pwrite f off src n) x = (if off \<le> x \<and> x < off + n then src (x - off) else content f x)"
  "fsize f \<le> fsize (pwrite f off src n)" "0 < n \<Longrightarrow> off + n \<le> fsize (pwrite f off src n)"
  by (simp_all add: pwrite_def)

text \<open>Writing any part of a block's dirty bytes to the file changes no byte of the array.\<close>

lemma coherent_write_dirty:
  assumes c: "coherent fl bl rg od" and blk: "bl off = Some blk" and d: "{lo..<lo + n} \<subseteq> cover (dirty blk)"
  shows "coherent (pwrite fl (off + lo) src n) bl rg od"
    "mem_of (pwrite fl (off + lo) src n) bl rg = mem_of fl bl rg"
proof -
  have ok: "block_ok rg off blk" using coherentD(5) [OF c blk] .
  have same: "content (pwrite fl (off + lo) src n) x = content fl x"
    if "\<not> (alignDown x = off \<and> x - alignDown x \<in> cover (dirty blk))" for x
  proof -
    have "alignDown x = off \<and> x - off \<in> cover (dirty blk)" if x: "off + lo \<le> x" "x < off + lo + n"
    proof -
      have "x - off \<in> cover (dirty blk)" using d x by auto
      moreover from this have "0 \<le> x - off" "x - off < blockSize" using ok by (auto simp: block_ok_def)
      ultimately show ?thesis using ok by (auto simp: block_ok_def alignDown_iff)
    qed
    then show ?thesis using that by (auto simp: pwrite_content)
  qed
  have "copy_ok (pwrite fl (off + lo) src n) bl od x" if "x \<in> extent_bytes rg" for x
    using coherentD(6) [OF c that] same [of x] blk
    by (cases "alignDown x = off") (auto simp: copy_ok_def split: option.splits)
  moreover have "x < fsize (pwrite fl (off + lo) src n)" if "x \<in> extent_bytes od" for x
    using coherentD(4) [OF c that] pwrite_content(2) [of fl "off + lo" src n] by linarith
  ultimately show "coherent (pwrite fl (off + lo) src n) bl rg od"
    using c by (auto simp: coherent_def)
  show "mem_of (pwrite fl (off + lo) src n) bl rg = mem_of fl bl rg"
  proof
    fix x
    show "mem_of (pwrite fl (off + lo) src n) bl rg x = mem_of fl bl rg x"
      using same [of x] blk by (cases "alignDown x = off") (auto simp: mem_of_def split: option.split)
  qed
qed

text \<open>Recording bytes of a resident block that are dirty as on disk.\<close>

lemma coherent_mark_disk:
  assumes c: "coherent fl bl rg od" and blk: "bl off = Some blk" and d: "{lo..<hi} \<subseteq> cover (dirty blk)" "lo < hi"
    and sz: "off + hi \<le> fsize fl"
  shows "coherent fl bl rg (snd (insert_extent od (off + lo) (hi - lo)))"
    "extent_bytes (snd (insert_extent od (off + lo) (hi - lo))) = extent_bytes od \<union> {off + lo..<off + hi}"
proof -
  have ok: "block_ok rg off blk" using coherentD(5) [OF c blk] .
  have "cover (dirty blk) \<subseteq> {0..<blockSize}" using ok by (simp add: block_ok_def)
  with d(1) have "{lo..<hi} \<subseteq> {0..<blockSize}" by (rule subset_trans)
  then have "0 \<le> lo" "hi \<le> blockSize" using d(2) by simp_all
  then have v: "valid_range (off + lo) (hi - lo)" using ok d by (auto simp: block_ok_def)
  note i = insert_bytes [OF coherentD(2) [OF c] v]
  show b: "extent_bytes (snd (insert_extent od (off + lo) (hi - lo))) = extent_bytes od \<union> {off + lo..<off + hi}"
    using i by (simp add: add.assoc)
  have new: "x \<in> extent_bytes rg" if "x \<in> {off + lo..<off + hi}" for x
  proof -
    have "x - off \<in> cover (dirty blk)" using that d by auto
    then show ?thesis using ok unfolding block_ok_def by (metis add.commute diff_add_cancel)
  qed
  have "copy_ok fl bl (snd (insert_extent od (off + lo) (hi - lo))) x" if "x \<in> extent_bytes rg" for x
    using coherentD(6) [OF c that] by (auto simp: copy_ok_def b split: option.splits)
  then show "coherent fl bl rg (snd (insert_extent od (off + lo) (hi - lo)))"
    using c i new sz unfolding coherent_def b by auto
qed

text \<open>A block whose dirty bytes have all reached the file becomes clean; a clean block can be dropped.\<close>

lemma coherent_clean:
  assumes c: "coherent fl bl rg od" and blk: "bl off = Some blk"
    and d: "\<And>i. i \<in> cover (dirty blk) \<Longrightarrow> off + i \<in> extent_bytes od \<and> content fl (off + i) = data blk i"
  shows "coherent fl (bl(off \<mapsto> blk\<lparr>dirty := []\<rparr>)) rg od" "mem_of fl (bl(off \<mapsto> blk\<lparr>dirty := []\<rparr>)) rg = mem_of fl bl rg"
proof -
  have "copy_ok fl (bl(off \<mapsto> blk\<lparr>dirty := []\<rparr>)) od x" if "x \<in> extent_bytes rg" for x
    using coherentD(6) [OF c that] blk d [of "x - off"] by (cases "alignDown x = off") (auto simp: copy_ok_def)
  then show "coherent fl (bl(off \<mapsto> blk\<lparr>dirty := []\<rparr>)) rg od"
    using c coherentD(5) [OF c blk] by (auto simp: coherent_def block_ok_def)
  show "mem_of fl (bl(off \<mapsto> blk\<lparr>dirty := []\<rparr>)) rg = mem_of fl bl rg"
    using blk by (auto simp: mem_of_def)
qed

lemma coherent_drop:
  assumes c: "coherent fl bl rg od" and blk: "bl off = Some blk" "dirty blk = []"
  shows "coherent fl (bl(off := None)) rg od" "mem_of fl (bl(off := None)) rg = mem_of fl bl rg"
proof -
  have x: "x \<in> extent_bytes od \<and> content fl x = data blk (x - off)" if "x \<in> extent_bytes rg" "alignDown x = off" for x
    using coherentD(6) [OF c that(1)] blk that(2) by (auto simp: copy_ok_def)
  then have "copy_ok fl (bl(off := None)) od x" if "x \<in> extent_bytes rg" for x
    using coherentD(6) [OF c that] that by (cases "alignDown x = off") (auto simp: copy_ok_def)
  then show "coherent fl (bl(off := None)) rg od" using c by (auto simp: coherent_def)
  show "mem_of fl (bl(off := None)) rg = mem_of fl bl rg"
    using x blk by (auto simp: mem_of_def)
qed

definition same_books :: "buffer \<Rightarrow> buffer \<Rightarrow> bool" where
  "same_books b b' \<longleftrightarrow> lru b' = lru b \<and> bytesInRAM b' = bytesInRAM b \<and> maxBytes b' = maxBytes b \<and> ranges b' = ranges b \<and>
     states b' = states b \<and> diskBytes b' = diskBytes b \<and> buf_closed b' = buf_closed b \<and> readHead b' = readHead b \<and>
     memInUse (pool b') = memInUse (pool b) \<and> memBudget (pool b') = memBudget (pool b) \<and> diskInUse (pool b') = diskInUse (pool b) \<and>
     punching b' = punching b \<and> (faults b = [] \<longrightarrow> faults b' = [])"

lemma same_books_trans: "same_books a b \<Longrightarrow> same_books b c \<Longrightarrow> same_books a c"
  by (auto simp: same_books_def)

lemma flush_extents_spec:
  assumes "flush_extents off (data blk) es b = (err, b')" "buf_coherent b" "blocks b off = Some blk"
    "\<forall>e \<in> set es. fst e < snd e \<and> seg_bytes e \<subseteq> cover (dirty blk)"
  shows "buf_coherent b' \<and> memory b' = memory b \<and> blocks b' = blocks b \<and> same_books b b' \<and>
    (faults b = [] \<longrightarrow> err = None) \<and>
    (\<forall>i. off + i \<in> extent_bytes (onDisk b) \<and> content (dfile b) (off + i) = data blk i \<longrightarrow>
       off + i \<in> extent_bytes (onDisk b') \<and> content (dfile b') (off + i) = data blk i) \<and>
    (err = None \<longrightarrow> (\<forall>i \<in> cover es. off + i \<in> extent_bytes (onDisk b') \<and> content (dfile b') (off + i) = data blk i))"
  using assms
proof (induction es arbitrary: b)
  case Nil
  then show ?case by (auto simp: same_books_def)
next
  case (Cons e es)
  obtain lo hi where e: "e = (lo, hi)" by (cases e)
  let ?n = "case io_now b of Fine \<Rightarrow> hi - lo | Fault k \<Rightarrow> min (int k) (hi - lo)"
  let ?f = "pwrite (dfile b) (off + lo) (\<lambda>i. data blk (lo + i)) ?n"
  have lh: "lo < hi" "{lo..<hi} \<subseteq> cover (dirty blk)" using Cons.prems(4) by (auto simp: e)
  have "?n \<le> hi - lo" by (simp split: io.split)
  then have "{lo..<lo + ?n} \<subseteq> cover (dirty blk)" using lh(2) by (intro subset_trans [OF _ lh(2)]) auto
  note w = coherent_write_dirty [OF Cons.prems(2,3) this, of "\<lambda>i. data blk (lo + i)"]
  have keep: "content ?f (off + i) = data blk i" if "content (dfile b) (off + i) = data blk i" for i
    using that by (auto simp: pwrite_content)
  show ?case
  proof (cases "io_now b")
    case (Fault k)
    then have "err = Some ErrIO" "b' = b\<lparr>faults := tl (faults b), dfile := ?f\<rparr>"
      using Cons.prems(1) by (auto simp: e file_WriteAt_def)
    moreover have "faults b \<noteq> []" using Fault by (auto simp: io_now_def)
    ultimately show ?thesis using w keep by (auto simp: memory_def same_books_def)
  next
    case Fine
    let ?b = "b\<lparr>faults := tl (faults b), dfile := ?f, counters := (counters b)\<lparr>statsFlushes := statsFlushes (counters b) + 1\<rparr>,
      pool := (pool b)\<lparr>statsFlushedBytes := statsFlushedBytes (pool b) + (hi - lo)\<rparr>,
      onDisk := snd (insert_extent (onDisk b) (off + lo) (hi - lo))\<rparr>"
    have run: "flush_extents off (data blk) es ?b = (err, b')"
      using Cons.prems(1) Fine by (simp add: e file_WriteAt_def)
    have "off + hi \<le> fsize ?f" using pwrite_content(3) [of "hi - lo" "off + lo" "dfile b"] lh Fine by simp
    note m = coherent_mark_disk [OF w(1) Cons.prems(3) lh(2,1) this]
    have step: "buf_coherent ?b" "memory ?b = memory b" "blocks ?b = blocks b" "same_books b ?b"
      using m w by (auto simp: memory_def same_books_def)
    note ih = Cons.IH [OF run step(1)]
    have new: "off + i \<in> extent_bytes (onDisk ?b) \<and> content (dfile ?b) (off + i) = data blk i" if "i \<in> {lo..<hi}" for i
      using that m(2) Fine by (auto simp: pwrite_content)
    have old: "off + i \<in> extent_bytes (onDisk ?b) \<and> content (dfile ?b) (off + i) = data blk i"
      if "off + i \<in> extent_bytes (onDisk b)" "content (dfile b) (off + i) = data blk i" for i
      using that m(2) keep by simp
    show ?thesis
      using ih step Cons.prems(3,4) new old same_books_trans [OF step(4)] by (auto simp: e)
  qed
qed

end
