(* ===== verification/Buffer_Steps.thy ===== *)
theory Buffer_Steps
  imports Buffer_Coherence
begin

text \<open>
  Each step under the buffer's lock keeps the invariant and changes the byte array as its caller expects: flushing,
  evicting and loading not at all, writing at the bytes written.
\<close>

section \<open>State slots\<close>

definition slots_except :: "int set \<Rightarrow> (int \<rightharpoonup> block) \<Rightarrow> rangeSet \<Rightarrow> bool list option \<Rightarrow> bool" where
  "slots_except K bl rg st \<longleftrightarrow> (\<forall>ss i. st = Some ss \<longrightarrow> i < length ss \<longrightarrow> ss ! i \<longrightarrow> int i * blockSize \<notin> K \<longrightarrow>
     bl (int i * blockSize) = None \<and> {int i * blockSize..<int i * blockSize + blockSize} \<subseteq> extent_bytes rg)"

lemma slots_except_empty: "slots_except {} bl rg st = slots_ok bl rg st"
  by (simp add: slots_except_def slots_ok_def)

lemma slots_except_mono:
  assumes "slots_except K bl rg st" "K \<subseteq> K'" "\<And>off. off \<notin> K' \<Longrightarrow> bl off = None \<Longrightarrow> bl' off = None"
    and "\<And>off. off \<notin> K' \<Longrightarrow> {off..<off + blockSize} \<subseteq> extent_bytes rg \<Longrightarrow> {off..<off + blockSize} \<subseteq> extent_bytes rg'"
  shows "slots_except K' bl' rg' st"
  unfolding slots_except_def
proof (intro allI impI)
  fix ss i assume a: "st = Some ss" "i < length ss" "ss ! i" "int i * blockSize \<notin> K'"
  moreover from this have "int i * blockSize \<notin> K" using assms(2) by blast
  ultimately have "bl (int i * blockSize) = None \<and> {int i * blockSize..<int i * blockSize + blockSize} \<subseteq> extent_bytes rg"
    using assms(1) unfolding slots_except_def by blast
  then show "bl' (int i * blockSize) = None \<and> {int i * blockSize..<int i * blockSize + blockSize} \<subseteq> extent_bytes rg'"
    using assms(3,4) a(4) by blast
qed

lemma stateSlot_eq:
  assumes "off mod blockSize = 0" "states b = Some ss"
  shows "stateSlot b off = (if 0 \<le> off \<and> off < int (length ss) * blockSize then Some (nat (off div blockSize)) else None)"
proof -
  obtain k where k: "off = blockSize * k" using assms(1) by (auto simp: mod_eq_0_iff_dvd elim: dvdE)
  have "drop_bit 20 off = k" by (simp add: k drop_bit_eq_div)
  then show ?thesis using assms(2) by (auto simp: stateSlot_def Let_def k)
qed

lemma set_state_fields [simp]:
  "dfile (set_state off v b) = dfile b" "faults (set_state off v b) = faults b" "blocks (set_state off v b) = blocks b"
  "ranges (set_state off v b) = ranges b" "onDisk (set_state off v b) = onDisk b" "bytesInRAM (set_state off v b) = bytesInRAM b"
  "maxBytes (set_state off v b) = maxBytes b" "diskBytes (set_state off v b) = diskBytes b" "pool (set_state off v b) = pool b"
  "buf_closed (set_state off v b) = buf_closed b" "readHead (set_state off v b) = readHead b" "punching (set_state off v b) = punching b"
  by (simp_all add: set_state_def split: option.split)

lemma states_None_set_state [simp]: "states (set_state off v b) = None \<longleftrightarrow> states b = None"
  by (simp add: set_state_def split: option.split)

lemma set_state_slots:
  assumes "off mod blockSize = 0" "slots_except (insert off K) bl rg (states b)"
    and "v \<Longrightarrow> bl off = None \<and> {off..<off + blockSize} \<subseteq> extent_bytes rg"
  shows "slots_except K bl rg (states (set_state off v b))"
proof (cases "states b")
  case None
  then show ?thesis by (simp add: slots_except_def set_state_def stateSlot_def)
next
  case (Some ss)
  obtain k where k: "off = blockSize * k" using assms(1) by (auto simp: mod_eq_0_iff_dvd elim: dvdE)
  show ?thesis
  proof (cases "0 \<le> off \<and> off < int (length ss) * blockSize")
    case True
    then have kk: "0 \<le> k" "nat k < length ss" by (auto simp: k)
    have set: "states (set_state off v b) = Some (ss[nat k := v])"
      using True Some assms(1) by (simp add: set_state_def stateSlot_eq k)
    show ?thesis
      unfolding slots_except_def
    proof (intro allI impI)
      fix ss' i assume a: "states (set_state off v b) = Some ss'" "i < length ss'" "ss' ! i" "int i * blockSize \<notin> K"
      have ss': "ss' = ss[nat k := v]" using a(1) set by simp
      show "bl (int i * blockSize) = None \<and> {int i * blockSize..<int i * blockSize + blockSize} \<subseteq> extent_bytes rg"
      proof (cases "i = nat k")
        case True
        then have "v" "int i * blockSize = off" using a(2,3) kk by (simp_all add: ss' k)
        then show ?thesis using assms(3) by simp
      next
        case False
        then have "int i * blockSize \<noteq> off" using kk by (auto simp: k)
        then show ?thesis using a assms(2) Some False unfolding slots_except_def by (simp add: ss')
      qed
    qed
  next
    case False
    then have "states (set_state off v b) = Some ss" using Some assms(1) by (auto simp: set_state_def stateSlot_eq)
    moreover have "int i * blockSize \<noteq> off" if "i < length ss" for i using that False by auto
    ultimately show ?thesis using assms(2) Some unfolding slots_except_def by simp
  qed
qed

section \<open>Steps that keep the array\<close>

definition kept :: "buffer \<Rightarrow> buffer \<Rightarrow> bool" where
  "kept b b' \<longleftrightarrow> buf_ok b' \<and> memory b' = memory b \<and> foreign b' = foreign b \<and> maxBytes b' = maxBytes b \<and>
     ranges b' = ranges b \<and> readHead b' = readHead b \<and> punching b' = punching b \<and> (faults b = [] \<longrightarrow> faults b' = [])"

lemma kept_refl: "buf_ok b \<Longrightarrow> kept b b"
  by (simp add: kept_def)

lemma kept_trans: "kept a b \<Longrightarrow> kept b c \<Longrightarrow> kept a c"
  by (auto simp: kept_def)

lemma kept_ok: "kept b b' \<Longrightarrow> buf_ok b'"
  by (simp add: kept_def)

lemma buf_okD:
  assumes "buf_ok b"
  shows "\<not> buf_closed b" "buf_coherent b" "slots_ok (blocks b) (ranges b) (states b)" "counts_ok b"
  using assms by (auto simp: buf_ok_def)

lemma flushBlock_coherent:
  assumes f: "flushBlockLocked off blk b = (err, b')" and c: "buf_coherent b" and blk: "blocks b off = Some blk"
  shows "buf_coherent b' \<and> memory b' = memory b \<and> same_books b b' \<and> (faults b = [] \<longrightarrow> err = None) \<and>
    blocks b' = (if err = None then (blocks b)(off \<mapsto> blk\<lparr>dirty := []\<rparr>) else blocks b)"
proof (cases "isClean blk")
  case True
  then have "blk\<lparr>dirty := []\<rparr> = blk" by (simp add: isClean_def)
  then show ?thesis using True f c blk by (auto simp: flushBlockLocked_def same_books_def)
next
  case False
  obtain err1 b1 where run: "flush_extents off (data blk) (dirty blk) b = (err1, b1)" by (metis surj_pair)
  have "\<forall>e \<in> set (dirty blk). fst e < snd e \<and> seg_bytes e \<subseteq> cover (dirty blk)"
    using coherentD(5) [OF c blk] by (auto simp: block_ok_def gapped_def cover_def)
  note fl = flush_extents_spec [OF run c blk this]
  show ?thesis
  proof (cases err1)
    case None
    then have e: "err = None" "b' = b1\<lparr>blocks := (blocks b)(off \<mapsto> blk\<lparr>dirty := []\<rparr>)\<rparr>"
      using f run False fl by (auto simp: flushBlockLocked_def)
    have "coherent (dfile b1) ((blocks b1)(off \<mapsto> blk\<lparr>dirty := []\<rparr>)) (ranges b1) (onDisk b1)"
      "mem_of (dfile b1) ((blocks b1)(off \<mapsto> blk\<lparr>dirty := []\<rparr>)) (ranges b1) = mem_of (dfile b1) (blocks b1) (ranges b1)"
      using coherent_clean [of "dfile b1" "blocks b1" "ranges b1" "onDisk b1" off blk] fl blk None by auto
    then show ?thesis using fl by (auto simp: e memory_def same_books_def)
  next
    case (Some e1)
    then have "err = Some e1" "b' = b1" using f run False by (auto simp: flushBlockLocked_def)
    then show ?thesis using fl Some by auto
  qed
qed

lemma flushBlock_spec:
  assumes f: "flushBlockLocked off blk b = (err, b')" and ok: "buf_ok b" and blk: "blocks b off = Some blk"
  shows "kept b b' \<and> lru b' = lru b \<and> (faults b = [] \<longrightarrow> err = None) \<and>
    blocks b' = (if err = None then (blocks b)(off \<mapsto> blk\<lparr>dirty := []\<rparr>) else blocks b)"
proof -
  note fl = flushBlock_coherent [OF f buf_okD(2) [OF ok] blk]
  have "dom (blocks b') = dom (blocks b)" "slots_ok (blocks b') (ranges b) (states b)"
    using fl buf_okD(3) [OF ok] blk by (auto simp: slots_ok_def)
  then show ?thesis
    using fl ok by (auto simp: kept_def buf_ok_def same_books_def counts_ok_def foreign_def)
qed

lemma dropBlock_fields [simp]:
  "dfile (dropBlockLocked off blk b) = dfile b" "faults (dropBlockLocked off blk b) = faults b"
  "blocks (dropBlockLocked off blk b) = (blocks b)(off := None)" "ranges (dropBlockLocked off blk b) = ranges b"
  "onDisk (dropBlockLocked off blk b) = onDisk b" "bytesInRAM (dropBlockLocked off blk b) = bytesInRAM b - blockSize"
  "maxBytes (dropBlockLocked off blk b) = maxBytes b" "diskBytes (dropBlockLocked off blk b) = diskBytes b"
  "pool (dropBlockLocked off blk b) = (pool b)\<lparr>memInUse := memInUse (pool b) - blockSize\<rparr>"
  "buf_closed (dropBlockLocked off blk b) = buf_closed b" "readHead (dropBlockLocked off blk b) = readHead b"
  "punching (dropBlockLocked off blk b) = punching b"
  by (simp_all add: dropBlockLocked_def Let_def markStateForBlockLocked_def alloc_put_def unlinkLocked_def dropBytes_def)

lemma states_dropBlock:
  "states (dropBlockLocked off blk b) =
     states (set_state off (present (ranges b) off blockSize) b)"
  by (simp add: dropBlockLocked_def Let_def markStateForBlockLocked_def alloc_put_def unlinkLocked_def set_state_def stateSlot_def
      split: option.split)

lemma present_block:
  assumes "extents_ok rg" "0 \<le> off" "off + blockSize \<le> max_i64"
  shows "present rg off blockSize \<longleftrightarrow> {off..<off + blockSize} \<subseteq> extent_bytes rg"
  using present_iff [OF assms(1), of off blockSize] assms by simp

lemma slots_drop:
  assumes "slots_except K (blocks b) (ranges b) (states b)" "block_ok (ranges b) off blk" "extents_ok (ranges b)"
  shows "slots_except K ((blocks b)(off := None)) (ranges b) (states (dropBlockLocked off blk b))"
  unfolding states_dropBlock
proof (rule set_state_slots)
  show "off mod blockSize = 0" using assms(2) by (simp add: block_ok_def)
  show "slots_except (insert off K) ((blocks b)(off := None)) (ranges b) (states b)"
    using assms(1) by (rule slots_except_mono) auto
  assume "present (ranges b) off blockSize"
  then show "((blocks b)(off := None)) off = None \<and> {off..<off + blockSize} \<subseteq> extent_bytes (ranges b)"
    using present_block [OF assms(3), of off] assms(2) by (simp add: block_ok_def)
qed

lemma length_removeAll_distinct: "distinct xs \<Longrightarrow> x \<in> set xs \<Longrightarrow> length (removeAll x xs) = length xs - 1"
  by (metis distinct_remove1_removeAll length_remove1)

lemma counts_drop:
  assumes "counts_ok b" "off \<in> dom (blocks b)"
  shows "distinct (removeAll off (lru b))" "set (removeAll off (lru b)) = dom ((blocks b)(off := None))"
    "bytesInRAM b - blockSize = blockSize * int (length (removeAll off (lru b)))"
proof -
  have m: "off \<in> set (lru b)" "distinct (lru b)" "0 < length (lru b)" using assms by (auto simp: counts_ok_def)
  show "distinct (removeAll off (lru b))" "set (removeAll off (lru b)) = dom ((blocks b)(off := None))"
    using assms by (auto simp: counts_ok_def distinct_removeAll)
  show "bytesInRAM b - blockSize = blockSize * int (length (removeAll off (lru b)))"
    using assms m by (simp add: counts_ok_def length_removeAll_distinct of_nat_diff Suc_leI algebra_simps)
qed

lemma dropBlock_kept:
  assumes ok: "buf_ok b" and blk: "blocks b off = Some blk" "dirty blk = []"
  shows "kept b (dropBlockLocked off blk b)"
proof -
  have bo: "block_ok (ranges b) off blk" using coherentD(5) [OF buf_okD(2) [OF ok] blk(1)] .
  note c = counts_drop [OF buf_okD(4) [OF ok], of off]
  have "slots_ok ((blocks b)(off := None)) (ranges b) (states (dropBlockLocked off blk b))"
    using slots_drop [of "{}", OF _ bo] buf_okD(3) [OF ok] coherentD(1) [OF buf_okD(2) [OF ok]] by (simp add: slots_except_empty)
  moreover have "counts_ok (dropBlockLocked off blk b)"
    using c blk(1) buf_okD(4) [OF ok] by (auto simp: counts_ok_def)
  ultimately show ?thesis
    using coherent_drop [OF buf_okD(2) [OF ok] blk] buf_okD(1) [OF ok] by (auto simp: kept_def buf_ok_def memory_def foreign_def)
qed

lemma count_eviction_kept: "buf_ok b \<Longrightarrow> kept b (count_eviction b)"
  by (simp add: kept_def count_eviction_def buf_ok_def counts_ok_def memory_def foreign_def)

lemma evict_spec:
  assumes e: "evictOneLocked b = ((evicted, err), b')" and ok: "buf_ok b"
  shows "kept b b' \<and> set (lru b') \<subseteq> set (lru b) \<and> (evicted \<longrightarrow> bytesInRAM b' = bytesInRAM b - blockSize) \<and>
    (\<not> evicted \<longrightarrow> bytesInRAM b' = bytesInRAM b \<and> lru b' = lru b \<and> (faults b = [] \<longrightarrow> lru b = []))"
proof (cases "find (\<lambda>off. case blocks b off of Some blk \<Rightarrow> isClean blk | None \<Rightarrow> False) (rev (lru b))")
  case (Some off)
  then obtain blk where blk: "blocks b off = Some blk" "dirty blk = []"
    by (auto simp: find_Some_iff isClean_def split: option.splits)
  have "b' = count_eviction (dropBlockLocked off blk b)" "evicted" using e Some blk by (auto simp: evictOneLocked_def)
  then show ?thesis
    using dropBlock_kept [OF ok blk] kept_trans count_eviction_kept kept_ok by (auto simp: count_eviction_def)
next
  case None
  show ?thesis
  proof (cases "lru b = []")
    case True
    then show ?thesis using e None ok by (auto simp: evictOneLocked_def kept_refl)
  next
    case False
    let ?off = "last (lru b)"
    have "?off \<in> dom (blocks b)" using False buf_okD(4) [OF ok] last_in_set [OF False] by (simp add: counts_ok_def)
    then obtain blk where blk: "blocks b ?off = Some blk" by auto
    obtain err1 b1 where f: "flushBlockLocked ?off blk b = (err1, b1)" by (metis surj_pair)
    note fl = flushBlock_spec [OF f ok blk]
    show ?thesis
    proof (cases err1)
      case (Some x)
      then have "evicted = False" "b' = b1" using e None False f blk by (auto simp: evictOneLocked_def Let_def)
      moreover have "bytesInRAM b1 = bytesInRAM b"
        using fl ok kept_ok [of b b1] by (auto simp: buf_ok_def counts_ok_def)
      ultimately show ?thesis using fl Some by auto
    next
      case none: None
      then have b': "evicted" "b' = count_eviction (dropBlockLocked ?off blk b1)"
        using e None False f blk by (auto simp: evictOneLocked_def Let_def)
      have eq: "dropBlockLocked ?off blk b1 = dropBlockLocked ?off (blk\<lparr>dirty := []\<rparr>) b1"
        by (simp add: dropBlockLocked_def)
      have "kept b1 (dropBlockLocked ?off (blk\<lparr>dirty := []\<rparr>) b1)"
        using fl none kept_ok [of b b1] by (intro dropBlock_kept) auto
      then have "kept b b'" using fl b' eq kept_trans count_eviction_kept kept_ok by metis
      moreover have "bytesInRAM b1 = bytesInRAM b"
        using fl ok kept_ok [of b b1] by (auto simp: buf_ok_def counts_ok_def)
      ultimately show ?thesis using b' fl by (auto simp: count_eviction_def)
    qed
  qed
qed

lemma make_room_spec:
  assumes "make_room b = (err, b')" "buf_ok b"
  shows "kept b b' \<and> (err = None \<longrightarrow> bytesInRAM b' + blockSize \<le> maxBytes b') \<and> set (lru b') \<subseteq> set (lru b) \<and>
    (faults b = [] \<longrightarrow> err = None)"
  using assms
proof (induction b rule: make_room.induct)
  case (1 b)
  show ?case
  proof (cases "bytesInRAM b + blockSize > maxBytes b \<or> wouldExceedMemory (pool b)")
    case False
    then show ?thesis using "1.prems" by (auto simp: make_room.simps [of b] kept_refl)
  next
    case True
    obtain evicted err1 b1 where e: "evictOneLocked b = ((evicted, err1), b1)" by (metis surj_pair)
    note ev = evict_spec [OF e "1.prems"(2)]
    show ?thesis
    proof (cases evicted)
      case ev1: True
      have run: "make_room b1 = (err, b')" using "1.prems"(1) True e ev1 by (simp add: make_room.simps [of b])
      have "(evicted, err1) = (True, err1)" using ev1 by simp
      from "1.IH" [OF True _ this, of b1] have "kept b1 b' \<and> (err = None \<longrightarrow> bytesInRAM b' + blockSize \<le> maxBytes b') \<and>
          set (lru b') \<subseteq> set (lru b1) \<and> (faults b1 = [] \<longrightarrow> err = None)"
        using run ev e ev1 by (auto simp: kept_def)
      then show ?thesis using ev kept_trans [of b b1 b'] by (auto simp: kept_def)
    next
      case ev0: False
      then have r: "b' = b1" "err = (if bytesInRAM b1 + blockSize > maxBytes b1 then Some (case err1 of None \<Rightarrow> ErrNoEvictable | Some e \<Rightarrow> e) else None)"
        using "1.prems"(1) True e by (auto simp: make_room.simps [of b] split: if_splits)
      have "bytesInRAM b1 + blockSize \<le> maxBytes b1" if "lru b = []"
        using that ev ev0 kept_ok [of b b1] by (auto simp: buf_ok_def counts_ok_def)
      then show ?thesis using r ev ev0 by auto
    qed
  qed
qed

section \<open>Loading a block\<close>

lemma coherent_load:
  assumes c: "coherent fl bl rg od" and off: "bl off = None" "off mod blockSize = 0" "0 \<le> off" "off + blockSize \<le> max_i64"
    and d: "\<And>x. x \<in> extent_bytes rg \<Longrightarrow> alignDown x = off \<Longrightarrow> d (x - off) = content fl x"
  shows "coherent fl (bl(off \<mapsto> \<lparr>data = d, dirty = []\<rparr>)) rg od" "mem_of fl (bl(off \<mapsto> \<lparr>data = d, dirty = []\<rparr>)) rg = mem_of fl bl rg"
proof -
  have "copy_ok fl (bl(off \<mapsto> \<lparr>data = d, dirty = []\<rparr>)) od x" if "x \<in> extent_bytes rg" for x
    using coherentD(6) [OF c that] that off(1) d [of x] by (cases "alignDown x = off") (auto simp: copy_ok_def)
  then show "coherent fl (bl(off \<mapsto> \<lparr>data = d, dirty = []\<rparr>)) rg od"
    using c off by (auto simp: coherent_def block_ok_def)
  show "mem_of fl (bl(off \<mapsto> \<lparr>data = d, dirty = []\<rparr>)) rg = mem_of fl bl rg"
    using d off(1) by (auto simp: mem_of_def)
qed

lemma alloc_fields [simp]:
  "dfile (snd (alloc_get b)) = dfile b" "faults (snd (alloc_get b)) = faults b" "blocks (snd (alloc_get b)) = blocks b"
  "ranges (snd (alloc_get b)) = ranges b" "onDisk (snd (alloc_get b)) = onDisk b" "bytesInRAM (snd (alloc_get b)) = bytesInRAM b"
  "maxBytes (snd (alloc_get b)) = maxBytes b" "diskBytes (snd (alloc_get b)) = diskBytes b" "pool (snd (alloc_get b)) = pool b"
  "buf_closed (snd (alloc_get b)) = buf_closed b" "readHead (snd (alloc_get b)) = readHead b" "punching (snd (alloc_get b)) = punching b"
  "states (snd (alloc_get b)) = states b" "lru (snd (alloc_get b)) = lru b"
  "dfile (alloc_put d b) = dfile b" "faults (alloc_put d b) = faults b" "blocks (alloc_put d b) = blocks b"
  "ranges (alloc_put d b) = ranges b" "onDisk (alloc_put d b) = onDisk b" "bytesInRAM (alloc_put d b) = bytesInRAM b"
  "maxBytes (alloc_put d b) = maxBytes b" "diskBytes (alloc_put d b) = diskBytes b" "pool (alloc_put d b) = pool b"
  "buf_closed (alloc_put d b) = buf_closed b" "readHead (alloc_put d b) = readHead b" "punching (alloc_put d b) = punching b"
  "states (alloc_put d b) = states b"
  by (simp_all add: alloc_get_def alloc_put_def)

text \<open>The block that is installed, from its contents on.\<close>

definition install :: "int \<Rightarrow> (int \<Rightarrow> byte) \<Rightarrow> buffer \<Rightarrow> buffer" where
  "install off d b = set_state off False (pushFrontLocked off
     (b\<lparr>blocks := (blocks b)(off \<mapsto> \<lparr>data = d, dirty = []\<rparr>), bytesInRAM := bytesInRAM b + blockSize, pool := addBlock (pool b)\<rparr>))"

lemma install_kept:
  assumes ok: "buf_ok b" and off: "blocks b off = None" "off mod blockSize = 0" "0 \<le> off" "off + blockSize \<le> max_i64"
    and d: "\<And>x. x \<in> extent_bytes (ranges b) \<Longrightarrow> alignDown x = off \<Longrightarrow> d (x - off) = content (dfile b) x"
    and room: "bytesInRAM b + blockSize \<le> maxBytes b"
  shows "kept b (install off d b)"
proof -
  note co = coherent_load [OF buf_okD(2) [OF ok] off d]
  let ?b = "pushFrontLocked off (b\<lparr>blocks := (blocks b)(off \<mapsto> \<lparr>data = d, dirty = []\<rparr>), bytesInRAM := bytesInRAM b + blockSize, pool := addBlock (pool b)\<rparr>)"
  have "slots_except (insert off {}) ((blocks b)(off \<mapsto> \<lparr>data = d, dirty = []\<rparr>)) (ranges b) (states ?b)"
  proof (rule slots_except_mono)
    show "slots_except {} (blocks b) (ranges b) (states ?b)" using buf_okD(3) [OF ok] by (simp add: slots_except_empty pushFrontLocked_def)
  qed simp_all
  from set_state_slots [OF off(2) this, of False]
  have "slots_ok ((blocks b)(off \<mapsto> \<lparr>data = d, dirty = []\<rparr>)) (ranges b) (states (install off d b))"
    by (simp add: slots_except_empty install_def)
  moreover have "off \<notin> set (lru b)" using buf_okD(4) [OF ok] off(1) by (auto simp: counts_ok_def)
  then have "counts_ok (install off d b)"
    using buf_okD(4) [OF ok] room by (simp add: counts_ok_def install_def pushFrontLocked_def)
  ultimately show ?thesis
    using co buf_okD(1) [OF ok]
    by (auto simp: kept_def buf_ok_def install_def pushFrontLocked_def memory_def foreign_def addBlock_def)
qed

lemma acquire_spec:
  assumes a: "acquireBlockLocked off b = (res, b')" and ok: "buf_ok b"
    and off: "off mod blockSize = 0" "0 \<le> off" "off + blockSize \<le> max_i64"
  shows "kept b b' \<and> (\<forall>blk. res = Inr blk \<longrightarrow> blocks b' off = Some blk) \<and> (faults b = [] \<longrightarrow> (\<exists>blk. res = Inr blk))"
proof (cases "blocks b off")
  case (Some blk)
  then show ?thesis using a ok by (auto simp: acquireBlockLocked_def kept_refl)
next
  case None
  obtain err b1 where mr: "make_room b = (err, b1)" by (metis surj_pair)
  note room = make_room_spec [OF mr ok]
  have ok1: "buf_ok b1" using room kept_ok by blast
  have none1: "blocks b1 off = None"
    using None room ok ok1 by (auto simp: buf_ok_def counts_ok_def)
  show ?thesis
  proof (cases err)
    case (Some e)
    then show ?thesis using a None mr room by (auto simp: acquireBlockLocked_def)
  next
    case e0: None
    obtain buf b2 where ag: "alloc_get b1 = (buf, b2)" by (metis surj_pair)
    have b2: "b2 = snd (alloc_get b1)" using ag by simp
    have k2: "kept b1 b2"
      using ok1 by (simp add: b2 kept_def buf_ok_def counts_ok_def memory_def foreign_def)
    have room2: "bytesInRAM b2 + blockSize \<le> maxBytes b2" using room e0 by (simp add: b2)
    have none2: "blocks b2 off = None" using none1 by (simp add: b2)
    have k: "kept b b2" using room k2 kept_trans by blast
    have any: "anyPresent (ranges b2) off blockSize \<longleftrightarrow> extent_bytes (ranges b2) \<inter> {off..<off + blockSize} \<noteq> {}"
      using anyPresent_iff [of "ranges b2" off blockSize] off coherentD(1) [OF buf_okD(2) [OF kept_ok [OF k2]]] by simp
    show ?thesis
    proof (cases "anyPresent (ranges b2) off blockSize")
      case False
      then have r: "res = Inr \<lparr>data = buf, dirty = []\<rparr>" "b' = install off buf b2"
        using a None mr e0 ag by (auto simp: acquireBlockLocked_def Let_def install_def)
      have "kept b2 b'"
        unfolding r using kept_ok [OF k2] none2 off room2 False any by (intro install_kept) (auto simp: alignDown_iff)
      then have "kept b b'" using k kept_trans by blast
      then show ?thesis using r by (simp add: install_def pushFrontLocked_def)
    next
      case True
      show ?thesis
      proof (cases "io_now b2")
        case (Fault n)
        then have r: "res = Inl ErrIO" "b' = alloc_put buf (b2\<lparr>faults := tl (faults b2)\<rparr>)"
          using a None mr e0 ag True by (auto simp: acquireBlockLocked_def Let_def file_ReadAt_def)
        have "faults b2 \<noteq> []" using Fault by (auto simp: io_now_def)
        moreover have "kept b2 b'"
          using kept_ok [OF k2] by (simp add: r kept_def buf_ok_def counts_ok_def memory_def foreign_def)
        ultimately show ?thesis using k kept_trans r by (auto simp: kept_def)
      next
        case Fine
        let ?b = "b2\<lparr>faults := tl (faults b2)\<rparr>" and ?n = "min blockSize (fsize (dfile b2) - off)"
        let ?bs = "map (content (dfile b2)) [off..off + ?n - 1]"
        let ?d = "\<lambda>i. if 0 \<le> i \<and> i < int (length ?bs) then ?bs ! nat i else buf i"
        have r: "res = Inr \<lparr>data = ?d, dirty = []\<rparr>" "b' = install off ?d ?b"
          using a None mr e0 ag True Fine by (auto simp: acquireBlockLocked_def Let_def file_ReadAt_def install_def)
        have kb: "kept b2 ?b"
          using kept_ok [OF k2] by (simp add: kept_def buf_ok_def counts_ok_def memory_def foreign_def)
        have d: "?d (x - off) = content (dfile b2) x" if x: "x \<in> extent_bytes (ranges b2)" "alignDown x = off" for x
        proof -
          have "copy_ok (dfile b2) (blocks b2) (onDisk b2) x"
            using coherentD(6) [OF buf_okD(2) [OF kept_ok [OF k2]]] x by blast
          then have "x < fsize (dfile b2)"
            using none2 x(2) coherentD(4) [OF buf_okD(2) [OF kept_ok [OF k2]]] by (simp add: copy_ok_def)
          moreover have "off \<le> x" "x < off + blockSize" using x(2) off(1) by (auto simp: alignDown_iff)
          ultimately show ?thesis by (simp add: nth_upto)
        qed
        have "kept ?b b'"
          unfolding r using kept_ok [OF kb] none2 off room2 d by (intro install_kept) simp_all
        then have "kept b b'" using k kb kept_trans by blast
        moreover have "blocks b' off = Some \<lparr>data = ?d, dirty = []\<rparr>" by (simp add: r install_def pushFrontLocked_def)
        ultimately show ?thesis using r(1) by simp
      qed
    qed
  qed
qed

end
