(* ===== verification/Buffer_Writes.thy ===== *)
theory Buffer_Writes
  imports Buffer_Steps
begin

text \<open>
  Writing to the buffer, through the cache or past it, changes the array at the bytes written and nowhere else.
\<close>

section \<open>The range tracker\<close>

lemma insert_card:
  assumes "extents_ok rg" "valid_range pos len"
  shows "fst (insert_extent rg pos len) = int (card (extent_bytes (snd (insert_extent rg pos len)))) - int (card (extent_bytes rg))"
    "0 \<le> fst (insert_extent rg pos len)"
proof -
  note i = insert_bytes [OF assms] and n = extent_counts [OF assms]
  show eq: "fst (insert_extent rg pos len) = int (card (extent_bytes (snd (insert_extent rg pos len)))) - int (card (extent_bytes rg))"
    using n totalSize_card [of "snd (insert_extent rg pos len)"] i by simp
  have "card (extent_bytes rg) \<le> card (extent_bytes (snd (insert_extent rg pos len)))"
    using i by (intro card_mono) (auto simp: extent_bytes_def)
  then show "0 \<le> fst (insert_extent rg pos len)" using eq by simp
qed

lemma remove_card:
  assumes "extents_ok rg" "valid_range pos len"
  shows "fst (remove_extent rg pos len) = int (card (extent_bytes rg)) - int (card (extent_bytes (snd (remove_extent rg pos len))))"
    "0 \<le> fst (remove_extent rg pos len)"
proof -
  note i = remove_bytes [OF assms] and n = extent_counts [OF assms]
  show eq: "fst (remove_extent rg pos len) = int (card (extent_bytes rg)) - int (card (extent_bytes (snd (remove_extent rg pos len))))"
    using n totalSize_card [of "snd (remove_extent rg pos len)"] i by simp
  have "card (extent_bytes (snd (remove_extent rg pos len))) \<le> card (extent_bytes rg)"
    using i by (intro card_mono) (auto simp: extent_bytes_def)
  then show "0 \<le> fst (remove_extent rg pos len)" using eq by simp
qed

lemma rangesInsert_fields [simp]:
  "dfile (rangesInsert pos len b) = dfile b" "faults (rangesInsert pos len b) = faults b" "blocks (rangesInsert pos len b) = blocks b"
  "ranges (rangesInsert pos len b) = snd (insert_extent (ranges b) pos len)" "onDisk (rangesInsert pos len b) = onDisk b"
  "bytesInRAM (rangesInsert pos len b) = bytesInRAM b" "maxBytes (rangesInsert pos len b) = maxBytes b"
  "buf_closed (rangesInsert pos len b) = buf_closed b" "readHead (rangesInsert pos len b) = readHead b"
  "punching (rangesInsert pos len b) = punching b" "states (rangesInsert pos len b) = states b" "lru (rangesInsert pos len b) = lru b"
  "memInUse (pool (rangesInsert pos len b)) = memInUse (pool b)"
  by (simp_all add: rangesInsert_def Let_def addDisk_def split: prod.split)

lemma rangesInsert_disk:
  assumes "extents_ok (ranges b)" "valid_range pos len"
  shows "diskBytes (rangesInsert pos len b) =
      diskBytes b + int (card (extent_bytes (snd (insert_extent (ranges b) pos len)))) - int (card (extent_bytes (ranges b)))"
    "diskInUse (pool (rangesInsert pos len b)) - diskBytes (rangesInsert pos len b) = diskInUse (pool b) - diskBytes b"
  using insert_card [OF assms] by (auto simp: rangesInsert_def Let_def addDisk_def split: prod.split)

section \<open>Writing into a block\<close>

definition write_mem :: "(int \<rightharpoonup> byte) \<Rightarrow> int \<Rightarrow> int \<Rightarrow> (int \<Rightarrow> byte) \<Rightarrow> int \<rightharpoonup> byte" where
  "write_mem m pos n src = (\<lambda>x. if pos \<le> x \<and> x < pos + n then Some (src (x - pos)) else m x)"

definition steady :: "buffer \<Rightarrow> buffer \<Rightarrow> bool" where
  "steady b b' \<longleftrightarrow> buf_ok b' \<and> foreign b' = foreign b \<and> maxBytes b' = maxBytes b \<and> readHead b' = readHead b \<and>
     punching b' = punching b \<and> (faults b = [] \<longrightarrow> faults b' = [])"

lemma kept_steady: "kept b b' \<longleftrightarrow> steady b b' \<and> memory b' = memory b \<and> ranges b' = ranges b"
  by (auto simp: kept_def steady_def)

lemma steady_trans: "steady a b \<Longrightarrow> steady b c \<Longrightarrow> steady a c"
  by (auto simp: steady_def)

lemma data_addDirty [simp]: "data (addDirty lo hi blk) = data blk"
  by (simp add: addDirty_def)

lemma coherent_write_block:
  fixes src :: "int \<Rightarrow> byte"
  assumes c: "coherent fl bl rg od" and blk: "bl off = Some blk" and lh: "0 \<le> lo" "lo < hi" "hi \<le> blockSize"
  defines "blk' \<equiv> (addDirty lo hi blk)\<lparr>data := (\<lambda>i. if lo \<le> i \<and> i < hi then src (i - lo) else data blk i)\<rparr>"
    and "rg' \<equiv> snd (insert_extent rg (off + lo) (hi - lo))"
  shows "coherent fl (bl(off \<mapsto> blk')) rg' od" "mem_of fl (bl(off \<mapsto> blk')) rg' = write_mem (mem_of fl bl rg) (off + lo) (hi - lo) src"
    "valid_range (off + lo) (hi - lo)"
proof -
  have bo: "block_ok rg off blk" using coherentD(5) [OF c blk] .
  show v: "valid_range (off + lo) (hi - lo)" using bo lh by (simp add: block_ok_def)
  have rg': "extents_ok rg'" "extent_bytes rg' = extent_bytes rg \<union> {off + lo..<off + hi}"
    using insert_bytes [OF coherentD(1) [OF c] v] by (simp_all add: rg'_def)
  have dirty: "gapped (dirty blk')" "cover (dirty blk') = cover (dirty blk) \<union> {lo..<hi}"
    using add_extent_spec [of "dirty blk" lo hi] bo lh by (simp_all add: blk'_def addDirty_def block_ok_def)
  have al: "off mod blockSize = 0" using bo by (simp add: block_ok_def)
  have ok': "block_ok rg' off blk'"
    unfolding block_ok_def using bo lh dirty rg' by (auto simp: block_ok_def)
  have others: "block_ok rg' k x" if "bl k = Some x" for k x
    using coherentD(5) [OF c that] rg'(2) by (auto simp: block_ok_def)
  have "copy_ok fl (bl(off \<mapsto> blk')) od x" if "x \<in> extent_bytes rg'" for x
  proof (cases "alignDown x = off")
    case True
    show ?thesis
    proof (cases "x \<in> {off + lo..<off + hi}")
      case False
      then have "copy_ok fl bl od x" using that rg' coherentD(6) [OF c] by auto
      moreover have "x - off \<notin> {lo..<hi}" using False by auto
      ultimately show ?thesis using True blk dirty by (auto simp: copy_ok_def blk'_def addDirty_def)
    qed (use True dirty in \<open>auto simp: copy_ok_def\<close>)
  next
    case False
    then have "x \<notin> {off + lo..<off + hi}" using al lh by (auto simp: alignDown_iff)
    then show ?thesis using False that rg' coherentD(6) [OF c, of x] by (auto simp: copy_ok_def)
  qed
  then show "coherent fl (bl(off \<mapsto> blk')) rg' od"
    using c rg' ok' others by (auto simp: coherent_def)
  show "mem_of fl (bl(off \<mapsto> blk')) rg' = write_mem (mem_of fl bl rg) (off + lo) (hi - lo) src"
  proof
    fix x
    show "mem_of fl (bl(off \<mapsto> blk')) rg' x = write_mem (mem_of fl bl rg) (off + lo) (hi - lo) src x"
    proof (cases "x \<in> {off + lo..<off + hi}")
      case True
      then have "alignDown x = off" using al lh by (auto simp: alignDown_iff)
      then show ?thesis using True rg' by (auto simp: mem_of_def write_mem_def blk'_def algebra_simps)
    next
      case False
      then show ?thesis
        using rg' blk by (cases "alignDown x = off") (auto simp: mem_of_def write_mem_def blk'_def addDirty_def)
    qed
  qed
qed

lemma touch_fields [simp]:
  "dfile (touchLocked off b) = dfile b" "faults (touchLocked off b) = faults b" "blocks (touchLocked off b) = blocks b"
  "ranges (touchLocked off b) = ranges b" "onDisk (touchLocked off b) = onDisk b" "bytesInRAM (touchLocked off b) = bytesInRAM b"
  "maxBytes (touchLocked off b) = maxBytes b" "diskBytes (touchLocked off b) = diskBytes b" "pool (touchLocked off b) = pool b"
  "buf_closed (touchLocked off b) = buf_closed b" "readHead (touchLocked off b) = readHead b" "punching (touchLocked off b) = punching b"
  "states (touchLocked off b) = states b"
  by (simp_all add: touchLocked_def pushFrontLocked_def unlinkLocked_def)

lemma touch_lru:
  assumes "distinct (lru b)" "off \<in> set (lru b)"
  shows "distinct (lru (touchLocked off b))" "set (lru (touchLocked off b)) = set (lru b)" "length (lru (touchLocked off b)) = length (lru b)"
proof -
  have "Suc (length (removeAll off (lru b))) = length (lru b)"
    using assms length_removeAll_distinct [OF assms] length_pos_if_in_set [OF assms(2)] by simp
  then show "length (lru (touchLocked off b)) = length (lru b)" by (simp add: touchLocked_def pushFrontLocked_def unlinkLocked_def)
  show "distinct (lru (touchLocked off b))" "set (lru (touchLocked off b)) = set (lru b)"
    using assms by (auto simp: touchLocked_def pushFrontLocked_def unlinkLocked_def distinct_removeAll)
qed

lemma writeInto_spec:
  assumes ok: "buf_ok b" and blk: "blocks b off = Some blk" and lh: "0 \<le> lo" "lo < hi" "hi \<le> blockSize"
  shows "steady b (writeIntoBlockLocked off lo hi src blk b) \<and>
    memory (writeIntoBlockLocked off lo hi src blk b) = write_mem (memory b) (off + lo) (hi - lo) src"
proof -
  define blk' where "blk' = (addDirty lo hi blk)\<lparr>data := (\<lambda>i. if lo \<le> i \<and> i < hi then src (i - lo) else data blk i)\<rparr>"
  define rg' where "rg' = snd (insert_extent (ranges b) (off + lo) (hi - lo))"
  define b1 where "b1 = rangesInsert (off + lo) (hi - lo) (touchLocked off (b\<lparr>blocks := (blocks b)(off \<mapsto> blk')\<rparr>))"
  have w: "writeIntoBlockLocked off lo hi src blk b = set_state off False b1"
    by (simp add: writeIntoBlockLocked_def Let_def b1_def blk'_def cong: if_cong)
  note co = coherent_write_block(1,2) [OF buf_okD(2) [OF ok] blk lh, of src, folded blk'_def rg'_def]
    coherent_write_block(3) [OF buf_okD(2) [OF ok] blk lh]
  have bo: "block_ok (ranges b) off blk" using coherentD(5) [OF buf_okD(2) [OF ok] blk] .
  have ex: "extents_ok (ranges b)" using coherentD(1) [OF buf_okD(2) [OF ok]] .
  have grow: "extent_bytes (ranges b) \<subseteq> extent_bytes rg'" using insert_bytes [OF ex co(3)] by (auto simp: rg'_def)
  have "slots_except (insert off {}) ((blocks b)(off \<mapsto> blk')) rg' (states b1)"
  proof (rule slots_except_mono)
    show "slots_except {} (blocks b) (ranges b) (states b1)" using buf_okD(3) [OF ok] by (simp add: slots_except_empty b1_def)
    show "{k..<k + blockSize} \<subseteq> extent_bytes rg'" if "{k..<k + blockSize} \<subseteq> extent_bytes (ranges b)" for k
      using that grow by (rule subset_trans)
  qed simp_all
  from set_state_slots [OF _ this, of False]
  have "slots_ok ((blocks b)(off \<mapsto> blk')) rg' (states (set_state off False b1))"
    using bo by (simp add: slots_except_empty block_ok_def)
  moreover have "off \<in> set (lru b)" "distinct (lru b)" using buf_okD(4) [OF ok] blk by (auto simp: counts_ok_def)
  note lru = touch_lru [of "b\<lparr>blocks := (blocks b)(off \<mapsto> blk')\<rparr>" off, simplified, OF this(2,1)]
  have "counts_ok (set_state off False b1)"
    using buf_okD(4) [OF ok] blk lru
      rangesInsert_disk(1) [of "touchLocked off (b\<lparr>blocks := (blocks b)(off \<mapsto> blk')\<rparr>)", OF _ co(3)] ex
    by (auto simp: counts_ok_def b1_def insert_absorb)
  moreover have "foreign (set_state off False b1) = foreign b"
    using rangesInsert_disk(2) [of "touchLocked off (b\<lparr>blocks := (blocks b)(off \<mapsto> blk')\<rparr>)", OF _ co(3)] ex
    by (simp add: foreign_def b1_def)
  ultimately show ?thesis
    using co(1,2) buf_okD(1) [OF ok] unfolding w
    by (simp add: steady_def buf_ok_def memory_def) (simp add: b1_def rg'_def)
qed

section \<open>Writing through\<close>

text \<open>What a write that fails may leave behind: every byte of its region is the old one or the new one, and no byte has
  become present.\<close>

definition torn :: "(int \<rightharpoonup> byte) \<Rightarrow> int \<Rightarrow> int \<Rightarrow> (int \<Rightarrow> byte) \<Rightarrow> (int \<rightharpoonup> byte) \<Rightarrow> bool" where
  "torn m pos n src m' \<longleftrightarrow> dom m' = dom m \<and>
     (\<forall>x. m' x = m x \<or> pos \<le> x \<and> x < pos + n \<and> m' x = Some (src (x - pos)))"

lemma torn_refl: "torn m pos n src m"
  by (simp add: torn_def)

lemma coherent_write_disk:
  assumes c: "coherent fl bl rg od" and off: "bl off = None" "off mod blockSize = 0"
    and region: "0 \<le> lo" "lo + n \<le> blockSize"
  shows "coherent (pwrite fl (off + lo) src n) bl rg od"
    "mem_of (pwrite fl (off + lo) src n) bl rg =
       (\<lambda>x. if x \<in> extent_bytes rg \<and> off + lo \<le> x \<and> x < off + lo + n then Some (src (x - (off + lo))) else mem_of fl bl rg x)"
proof -
  have here: "alignDown x = off" if "off + lo \<le> x" "x < off + lo + n" for x using that off region by (simp add: alignDown_iff)
  have "copy_ok (pwrite fl (off + lo) src n) bl od x" if "x \<in> extent_bytes rg" for x
    using coherentD(6) [OF c that] off(1) here [of x]
    by (cases "alignDown x = off") (auto simp: copy_ok_def pwrite_content split: option.splits)
  moreover have "x < fsize (pwrite fl (off + lo) src n)" if "x \<in> extent_bytes od" for x
    using coherentD(4) [OF c that] pwrite_content(2) [of fl "off + lo" src n] by linarith
  ultimately show "coherent (pwrite fl (off + lo) src n) bl rg od" using c by (auto simp: coherent_def)
  show "mem_of (pwrite fl (off + lo) src n) bl rg =
       (\<lambda>x. if x \<in> extent_bytes rg \<and> off + lo \<le> x \<and> x < off + lo + n then Some (src (x - (off + lo))) else mem_of fl bl rg x)"
  proof
    fix x
    show "mem_of (pwrite fl (off + lo) src n) bl rg x =
       (if x \<in> extent_bytes rg \<and> off + lo \<le> x \<and> x < off + lo + n then Some (src (x - (off + lo))) else mem_of fl bl rg x)"
      using here [of x] off(1) by (auto simp: mem_of_def pwrite_content split: option.split)
  qed
qed

lemma coherent_publish:
  assumes c: "coherent fl bl rg od" and off: "bl off = None" "off mod blockSize = 0" "0 \<le> off" "off + blockSize \<le> max_i64"
    and lh: "0 \<le> lo" "lo < hi" "hi \<le> blockSize" and sz: "off + hi \<le> fsize fl"
  defines "rg' \<equiv> snd (insert_extent rg (off + lo) (hi - lo))" and "od' \<equiv> snd (insert_extent od (off + lo) (hi - lo))"
  shows "coherent fl bl rg' od'"
    "mem_of fl bl rg' = (\<lambda>x. if off + lo \<le> x \<and> x < off + hi then Some (content fl x) else mem_of fl bl rg x)"
    "valid_range (off + lo) (hi - lo)"
proof -
  show v: "valid_range (off + lo) (hi - lo)" using off lh by simp
  have rg': "extents_ok rg'" "extent_bytes rg' = extent_bytes rg \<union> {off + lo..<off + hi}"
    using insert_bytes [OF coherentD(1) [OF c] v] by (simp_all add: rg'_def)
  have od': "extents_ok od'" "extent_bytes od' = extent_bytes od \<union> {off + lo..<off + hi}"
    using insert_bytes [OF coherentD(2) [OF c] v] by (simp_all add: od'_def)
  have here: "alignDown x = off" if "off + lo \<le> x" "x < off + hi" for x using that off lh by (simp add: alignDown_iff)
  have "copy_ok fl bl od' x" if x: "x \<in> extent_bytes rg'" for x
  proof (cases "x \<in> {off + lo..<off + hi}")
    case True
    then show ?thesis using here [of x] off(1) od' by (simp add: copy_ok_def)
  next
    case False
    then show ?thesis using coherentD(6) [OF c, of x] x rg' od' by (auto simp: copy_ok_def split: option.splits)
  qed
  moreover have "block_ok rg' k blk" if "bl k = Some blk" for k blk
    using coherentD(5) [OF c that] rg'(2) by (auto simp: block_ok_def)
  moreover have "x < fsize fl" if "x \<in> extent_bytes od'" for x using that od' sz coherentD(4) [OF c, of x] by auto
  ultimately show "coherent fl bl rg' od'" using rg' od' coherentD(3) [OF c] by (auto simp: coherent_def)
  show "mem_of fl bl rg' = (\<lambda>x. if off + lo \<le> x \<and> x < off + hi then Some (content fl x) else mem_of fl bl rg x)"
  proof
    fix x
    show "mem_of fl bl rg' x = (if off + lo \<le> x \<and> x < off + hi then Some (content fl x) else mem_of fl bl rg x)"
      using here [of x] off(1) rg' by (auto simp: mem_of_def split: option.split)
  qed
qed

lemma mark_fields [simp]:
  "dfile (markStateForBlockLocked off b) = dfile b" "faults (markStateForBlockLocked off b) = faults b"
  "blocks (markStateForBlockLocked off b) = blocks b" "ranges (markStateForBlockLocked off b) = ranges b"
  "onDisk (markStateForBlockLocked off b) = onDisk b" "bytesInRAM (markStateForBlockLocked off b) = bytesInRAM b"
  "maxBytes (markStateForBlockLocked off b) = maxBytes b" "diskBytes (markStateForBlockLocked off b) = diskBytes b"
  "pool (markStateForBlockLocked off b) = pool b" "buf_closed (markStateForBlockLocked off b) = buf_closed b"
  "readHead (markStateForBlockLocked off b) = readHead b" "punching (markStateForBlockLocked off b) = punching b"
  "lru (markStateForBlockLocked off b) = lru b"
  by (simp_all add: markStateForBlockLocked_def)

lemma mark_slots:
  assumes "slots_except (insert off K) (blocks b) (ranges b) (states b)" "extents_ok (ranges b)"
    and "off mod blockSize = 0" "0 \<le> off" "off + blockSize \<le> max_i64"
  shows "slots_except K (blocks b) (ranges b) (states (markStateForBlockLocked off b))"
  unfolding markStateForBlockLocked_def
  using assms present_block [OF assms(2,4,5)] by (intro set_state_slots) auto

lemma publish_spec:
  assumes ok: "buf_ok b" and off: "blocks b off = None" "off mod blockSize = 0" "0 \<le> off" "off + blockSize \<le> max_i64"
    and lh: "0 \<le> lo" "lo < hi" "hi \<le> blockSize" and sz: "off + hi \<le> fsize (dfile b)"
    and src: "\<And>i. lo \<le> i \<Longrightarrow> i < hi \<Longrightarrow> content (dfile b) (off + i) = src (i - lo)"
    and p: "write_through_publish off lo hi src b = (err, b')"
  shows "err = None \<and> steady b b' \<and> memory b' = write_mem (memory b) (off + lo) (hi - lo) src"
proof -
  note co = coherent_publish(1,2) [OF buf_okD(2) [OF ok] off lh sz]
    and v = coherent_publish(3) [OF buf_okD(2) [OF ok] off lh sz]
  define b1 where "b1 = rangesInsert (off + lo) (hi - lo) (b\<lparr>onDisk := snd (insert_extent (onDisk b) (off + lo) (hi - lo))\<rparr>)"
  have r: "err = None" "b' = markStateForBlockLocked off b1"
    using p off(1) buf_okD(1) [OF ok] by (auto simp: write_through_publish_def Let_def b1_def)
  have ex: "extents_ok (ranges b)" using coherentD(1) [OF buf_okD(2) [OF ok]] .
  have grow: "extents_ok (ranges b1)" "extent_bytes (ranges b) \<subseteq> extent_bytes (ranges b1)"
    using insert_bytes [OF ex v] by (auto simp: b1_def)
  have "slots_except (insert off {}) (blocks b1) (ranges b1) (states b1)"
  proof (rule slots_except_mono)
    show "slots_except {} (blocks b) (ranges b) (states b1)" using buf_okD(3) [OF ok] by (simp add: slots_except_empty b1_def)
    show "{k..<k + blockSize} \<subseteq> extent_bytes (ranges b1)" if "{k..<k + blockSize} \<subseteq> extent_bytes (ranges b)" for k
      using that grow(2) by (rule subset_trans)
  qed (simp_all add: b1_def)
  from mark_slots [OF this grow(1) off(2,3,4)] have "slots_ok (blocks b') (ranges b') (states b')"
    by (simp add: r slots_except_empty)
  moreover have "counts_ok b'"
    using buf_okD(4) [OF ok] rangesInsert_disk(1) [of "b\<lparr>onDisk := snd (insert_extent (onDisk b) (off + lo) (hi - lo))\<rparr>", OF _ v] ex
    by (simp add: counts_ok_def r b1_def)
  moreover have "foreign b' = foreign b"
    using rangesInsert_disk(2) [of "b\<lparr>onDisk := snd (insert_extent (onDisk b) (off + lo) (hi - lo))\<rparr>", OF _ v] ex
    by (simp add: foreign_def r b1_def)
  moreover have "memory b' = write_mem (memory b) (off + lo) (hi - lo) src"
  proof
    fix x
    show "memory b' x = write_mem (memory b) (off + lo) (hi - lo) src x"
      using fun_cong [OF co(2), of x] src [of "x - off"] by (auto simp: memory_def r b1_def write_mem_def algebra_simps)
  qed
  ultimately show ?thesis
    using co(1) buf_okD(1) [OF ok] by (simp add: steady_def buf_ok_def r b1_def)
qed

lemma write_through_spec:
  assumes w: "write_through off lo hi src b = (err, b')" and ok: "buf_ok b"
    and off: "blocks b off = None" "off mod blockSize = 0" "0 \<le> off" "off + blockSize \<le> max_i64"
    and lh: "0 \<le> lo" "lo < hi" "hi \<le> blockSize"
  shows "steady b b' \<and> (err = None \<longrightarrow> memory b' = write_mem (memory b) (off + lo) (hi - lo) src) \<and>
    (err \<noteq> None \<longrightarrow> torn (memory b) (off + lo) (hi - lo) src (memory b')) \<and> (faults b = [] \<longrightarrow> err = None)"
proof -
  let ?n = "case io_now b of Fine \<Rightarrow> hi - lo | Fault k \<Rightarrow> min (int k) (hi - lo)"
  let ?b = "b\<lparr>faults := tl (faults b), dfile := pwrite (dfile b) (off + lo) src ?n\<rparr>"
  have n: "?n \<le> hi - lo" by (simp split: io.split)
  then have "lo + ?n \<le> blockSize" using lh by linarith
  note co = coherent_write_disk [OF buf_okD(2) [OF ok] off(1,2) lh(1) this, of src]
  have st: "steady b ?b"
    using ok co(1) by (simp add: steady_def buf_ok_def counts_ok_def foreign_def)
  have mem: "memory ?b = (\<lambda>x. if x \<in> extent_bytes (ranges b) \<and> off + lo \<le> x \<and> x < off + lo + ?n
      then Some (src (x - (off + lo))) else memory b x)"
    unfolding memory_def using co(2) by simp
  show ?thesis
  proof (cases "io_now b")
    case (Fault k)
    then have r: "err = Some ErrIO" "b' = ?b" using w by (auto simp: write_through_def file_WriteAt_def)
    have "dom (memory ?b) = dom (memory b)" by (auto simp: memory_def mem_of_def split: if_splits)
    then have "torn (memory b) (off + lo) (hi - lo) src (memory ?b)"
      using n unfolding torn_def mem by auto
    moreover have "faults b \<noteq> []" using Fault by (auto simp: io_now_def)
    ultimately show ?thesis using st r by simp
  next
    case Fine
    let ?c = "?b\<lparr>counters := (counters b)\<lparr>statsWriteThrough := statsWriteThrough (counters b) + 1\<rparr>,
      pool := (pool b)\<lparr>statsWriteThroughBytes := statsWriteThroughBytes (pool b) + (hi - lo)\<rparr>\<rparr>"
    have run: "write_through_publish off lo hi src ?c = (err, b')" using w Fine by (simp add: write_through_def file_WriteAt_def)
    have okc: "buf_ok ?c" "steady b ?c" using st by (simp_all add: steady_def buf_ok_def counts_ok_def foreign_def)
    have "off + hi \<le> fsize (dfile ?c)" using pwrite_content(3) [of "hi - lo" "off + lo" "dfile b"] lh Fine by simp
    moreover have "content (dfile ?c) (off + i) = src (i - lo)" if "lo \<le> i" "i < hi" for i
      using that Fine by (simp add: pwrite_content)
    ultimately have p: "err = None \<and> steady ?c b' \<and> memory b' = write_mem (memory ?c) (off + lo) (hi - lo) src"
      using off by (intro publish_spec [OF okc(1) _ _ _ _ lh _ _ run]) simp_all
    have "memory ?c = memory ?b" by (simp add: memory_def)
    then have "memory ?c x = memory b x" if "\<not> (off + lo \<le> x \<and> x < off + hi)" for x
      using that Fine fun_cong [OF mem, of x] by auto
    then have "write_mem (memory ?c) (off + lo) (hi - lo) src = write_mem (memory b) (off + lo) (hi - lo) src"
      by (intro ext) (simp add: write_mem_def)
    then show ?thesis using p okc(2) steady_trans by auto
  qed
qed

lemma writeRegion_spec:
  assumes w: "writeRegion off lo hi src b = (err, b')" and ok: "buf_ok b"
    and off: "off mod blockSize = 0" "0 \<le> off" "off + blockSize \<le> max_i64" and lh: "0 \<le> lo" "lo < hi" "hi \<le> blockSize"
  shows "steady b b' \<and> (err = None \<longrightarrow> memory b' = write_mem (memory b) (off + lo) (hi - lo) src) \<and>
    (err \<noteq> None \<longrightarrow> torn (memory b) (off + lo) (hi - lo) src (memory b')) \<and> (faults b = [] \<longrightarrow> err = None)"
proof (cases "blocks b off \<noteq> None \<or> canCache b")
  case False
  then have "write_through off lo hi src b = (err, b')" "blocks b off = None" using w by (auto simp: writeRegion_def)
  from write_through_spec [OF this(1) ok this(2) off lh] show ?thesis .
next
  case True
  obtain res b1 where a: "acquireBlockLocked off b = (res, b1)" by (metis surj_pair)
  note ac = acquire_spec [OF a ok off]
  have ok1: "buf_ok b1" using ac by (auto simp: kept_def)
  show ?thesis
  proof (cases res)
    case (Inl e)
    then have "err = Some e" "b' = b1" using w True a buf_okD(1) [OF ok] by (auto simp: writeRegion_def)
    then show ?thesis using ac Inl torn_refl by (auto simp: kept_steady)
  next
    case (Inr blk)
    then have r: "err = None" "b' = writeIntoBlockLocked off lo hi src blk b1"
      using w True a buf_okD(1) [OF ok] by (auto simp: writeRegion_def)
    have "blocks b1 off = Some blk" using ac Inr by simp
    from writeInto_spec [OF ok1 this lh, of src] show ?thesis
      using ac steady_trans unfolding r kept_steady by auto
  qed
qed

end
