(* ===== verification/Buffer_Array.thy ===== *)
theory Buffer_Array
  imports Buffer_Writes
begin

text \<open>
  \<^verbatim>\<open>WriteAt\<close> and \<^verbatim>\<open>ReadAt\<close> as operations on the byte array that a buffer stands for.
\<close>

section \<open>WriteAt\<close>

text \<open>The array with the first bytes of a list written at an offset.\<close>

definition wrote :: "byte list \<Rightarrow> int \<Rightarrow> int \<Rightarrow> (int \<rightharpoonup> byte) \<Rightarrow> int \<rightharpoonup> byte" where
  "wrote p off n m = write_mem m off n (\<lambda>i. p ! nat i)"

lemma wrote_region:
  "0 \<le> a \<Longrightarrow> 0 \<le> c \<Longrightarrow> write_mem (wrote p off a m) (off + a) c (\<lambda>i. p ! nat (a + i)) = wrote p off (a + c) m"
  by (auto simp: wrote_def write_mem_def algebra_simps intro!: ext)

lemma wrote_none [simp]: "wrote p off 0 m = m"
  by (rule ext) (auto simp: wrote_def write_mem_def)

lemma torn_mono: "torn m pos n src m' \<Longrightarrow> n \<le> k \<Longrightarrow> torn m pos k src m'"
  unfolding torn_def by force

lemma write_loop_spec:
  assumes "write_loop p off cur b = ((n, err), b')" "buf_ok b" "memory b = wrote p off (cur - off) m"
    "0 \<le> off" "off \<le> cur" "cur \<le> off + int (length p)" "off + int (length p) \<le> max_i64 - blockSize"
  shows "steady b b' \<and> (faults b = [] \<longrightarrow> err = None) \<and>
    (err = None \<longrightarrow> n = int (length p) \<and> memory b' = wrote p off n m) \<and>
    (err \<noteq> None \<longrightarrow> cur - off \<le> n \<and> n < int (length p) \<and>
       torn (wrote p off n m) (off + n) (int (length p) - n) (\<lambda>i. p ! nat (n + i)) (memory b'))"
  using assms
proof (induction p off cur b rule: write_loop.induct)
  case (1 p off cur b)
  let ?fin = "off + int (length p)" and ?bo = "alignDown cur"
  let ?hi = "min ?fin (?bo + blockSize) - ?bo" and ?lo = "cur - ?bo"
  note al = alignDown_bounds [of cur] alignDown_aligned [of cur] alignDown_nonneg [of cur]
  show ?case
  proof (cases "cur < ?fin")
    case False
    then have "n = int (length p)" "err = None" "memory b' = memory b" "steady b b'"
      using "1.prems"(1,2) by (auto simp: write_loop.simps [of p off cur] memory_def steady_def buf_ok_def counts_ok_def foreign_def)
    then show ?thesis using False "1.prems" by simp
  next
    case True
    obtain err1 b1 where w: "writeRegion ?bo ?lo ?hi (\<lambda>i. p ! nat (cur - off + i)) b = (err1, b1)" by (metis surj_pair)
    have lh: "0 \<le> ?lo" "?lo < ?hi" "?hi \<le> blockSize" "0 \<le> ?bo" "?bo + blockSize \<le> max_i64"
      using True al "1.prems" by auto
    have pos: "?bo + ?lo = cur" "?bo + ?lo = off + (cur - off)" by simp_all
    note r = writeRegion_spec [OF w "1.prems"(2) al(3) lh(4,5) lh(1,2,3), unfolded pos(1)]
    show ?thesis
    proof (cases err1)
      case (Some e)
      then have res: "n = cur - off" "err = Some e" "b' = b1"
        using "1.prems"(1) True w by (auto simp: write_loop.simps [of p off cur] Let_def)
      have "torn (wrote p off n m) (off + n) (int (length p) - n) (\<lambda>i. p ! nat (n + i)) (memory b')"
        using r Some "1.prems"(3) by (auto simp: res intro: torn_mono)
      then show ?thesis using r Some res True by auto
    next
      case None
      have run: "write_loop p off (cur + (?hi - ?lo)) b1 = ((n, err), b')"
        using "1.prems"(1) True w None by (simp add: write_loop.simps [of p off cur] Let_def)
      have "memory b1 = wrote p off (cur - off + (?hi - ?lo)) m"
        using r None "1.prems"(3,5) lh wrote_region [of "cur - off" "?hi - ?lo" p off m] by simp
      then have "memory b1 = wrote p off (cur + (?hi - ?lo) - off) m" by (simp add: algebra_simps)
      from "1.IH" [OF refl True refl refl refl refl w [symmetric] None run _ this] r
      show ?thesis using "1.prems" lh steady_trans by (auto simp: steady_def)
    qed
  qed
qed

lemma WriteAt_spec:
  assumes "WriteAt p off b = ((n, err), b')" "buf_ok b" "0 \<le> off" "off + int (length p) \<le> max_i64 - blockSize"
  shows "steady b b' \<and> (faults b = [] \<longrightarrow> err = None) \<and>
    (err = None \<longrightarrow> n = int (length p) \<and> memory b' = wrote p off n (memory b)) \<and>
    (err \<noteq> None \<longrightarrow> 0 \<le> n \<and> n < int (length p) \<and>
       torn (wrote p off n (memory b)) (off + n) (int (length p) - n) (\<lambda>i. p ! nat (n + i)) (memory b'))"
proof (cases "p = []")
  case True
  then show ?thesis
    using assms buf_okD(1) [OF assms(2)] by (auto simp: WriteAt_def steady_def)
next
  case False
  then have "write_loop p off off b = ((n, err), b')" using assms buf_okD(1) [OF assms(2)] by (simp add: WriteAt_def)
  then show ?thesis
    using write_loop_spec [of p off off b n err b' "memory b"] assms by simp
qed

section \<open>ReadAt\<close>

definition stretch :: "buffer \<Rightarrow> int \<Rightarrow> int \<Rightarrow> byte list" where
  "stretch b lo hi = map (\<lambda>x. the (memory b x)) [lo..hi - 1]"

lemma map_upto_shift: "(\<And>i. lo \<le> i \<Longrightarrow> i < hi \<Longrightarrow> f i = g (i + d)) \<Longrightarrow> map f [lo..hi - 1] = map g [lo + d..hi + d - 1]"
  by (auto simp: list_eq_iff_nth_eq nth_upto algebra_simps)

lemma upto_append: "(lo::int) \<le> mid \<Longrightarrow> mid \<le> hi \<Longrightarrow> [lo..mid - 1] @ [mid..hi - 1] = [lo..hi - 1]"
  using upto_split1 [of lo "mid" hi] by (metis diff_add_cancel upto_split1 upto_split2 le_cases order.trans diff_le_eq linorder_not_le upto_empty append_Nil2 zle_diff1_eq zless_imp_add1_zle)

lemma stretch_append: "lo \<le> mid \<Longrightarrow> mid \<le> hi \<Longrightarrow> stretch b lo mid @ stretch b mid hi = stretch b lo hi"
  unfolding stretch_def map_append [symmetric] by (simp add: upto_append)

lemma memory_dom: "dom (memory b) = extent_bytes (ranges b)"
  by (auto simp: memory_def mem_of_def split: if_splits)

lemma memory_block: "x \<in> extent_bytes (ranges b) \<Longrightarrow> blocks b (alignDown x) = Some blk \<Longrightarrow> memory b x = Some (data blk (x - alignDown x))"
  by (simp add: memory_def mem_of_def)

lemma memory_file:
  assumes "buf_ok b" "x \<in> extent_bytes (ranges b)" "blocks b (alignDown x) = None"
  shows "memory b x = Some (content (dfile b) x)" "x < fsize (dfile b)"
proof -
  have "copy_ok (dfile b) (blocks b) (onDisk b) x" using coherentD(6) [OF buf_okD(2) [OF assms(1)] assms(2)] .
  then have "x \<in> extent_bytes (onDisk b)" using assms(3) by (simp add: copy_ok_def)
  then show "x < fsize (dfile b)" using coherentD(4) [OF buf_okD(2) [OF assms(1)]] by blast
  show "memory b x = Some (content (dfile b) x)" using assms by (simp add: memory_def mem_of_def)
qed

lemma read_file:
  assumes ok: "buf_ok b" and x: "{off..<off + n} \<subseteq> extent_bytes (ranges b)" "\<And>x. off \<le> x \<Longrightarrow> x < off + n \<Longrightarrow> blocks b (alignDown x) = None"
    and n: "0 < n"
  shows "file_ReadAt n off b = (if io_now b = Fine then Some (stretch b off (off + n)) else None, b\<lparr>faults := tl (faults b)\<rparr>)"
proof -
  note mf = memory_file [OF ok]
  have "off + n - 1 < fsize (dfile b)" using mf(2) [of "off + n - 1"] subsetD [OF x(1), of "off + n - 1"] x(2) n by simp
  then have "min n (fsize (dfile b) - off) = n" by simp
  moreover have "map (content (dfile b)) [off..off + n - 1] = stretch b off (off + n)"
    using mf(1) x by (auto simp: stretch_def)
  ultimately show ?thesis by (simp add: file_ReadAt_def)
qed

lemma pop_fault_kept: "buf_ok b \<Longrightarrow> kept b (b\<lparr>faults := tl (faults b)\<rparr>)"
  by (simp add: kept_def buf_ok_def counts_ok_def memory_def foreign_def)

lemma count_read_kept: "buf_ok b \<Longrightarrow> kept b (count_read r d b)"
  by (simp add: kept_def count_read_def buf_ok_def counts_ok_def memory_def foreign_def)

text \<open>What a read may return: the bytes of the array, or, after a failed call, an error and fewer of them.\<close>

definition read_ok :: "int \<Rightarrow> int \<Rightarrow> buffer \<Rightarrow> byte list \<Rightarrow> buf_error option \<Rightarrow> bool" where
  "read_ok off n b bs err \<longleftrightarrow>
     (if err = None then bs = stretch b off (off + n)
      else err = Some ErrIO \<and> faults b \<noteq> [] \<and> (\<exists>k. 0 \<le> k \<and> k < n \<and> bs = stretch b off (off + k)))"

lemma kept_stretch: "kept b b' \<Longrightarrow> stretch b' = stretch b"
  by (intro ext) (simp add: stretch_def kept_def)

lemma read_loop_spec:
  assumes "read_loop cur fin acc ram disk b = ((bs, err), b')" "buf_ok b" "acc = stretch b off cur" "off \<le> cur" "cur \<le> fin"
    "{off..<fin} \<subseteq> extent_bytes (ranges b)" "0 \<le> off"
  shows "kept b b' \<and> read_ok off (fin - off) b bs err"
  using assms
proof (induction cur fin acc ram disk b rule: read_loop.induct)
  case (1 cur fin acc ram disk b)
  let ?bo = "alignDown cur"
  let ?hi = "min fin (?bo + blockSize) - ?bo" and ?lo = "cur - ?bo"
  let ?next = "cur + (?hi - ?lo)"
  note al = alignDown_bounds [of cur] alignDown_aligned [of cur]
  show ?case
  proof (cases "cur < fin")
    case False
    then have "bs = acc" "err = None" "b' = count_read ram disk b" "cur = fin"
      using "1.prems"(1,5) by (auto simp: read_loop.simps [of cur fin] read_loop.simps [of fin fin])
    then show ?thesis using "1.prems" by (simp add: read_ok_def count_read_kept)
  next
    case True
    have step: "cur < ?next" "?next \<le> fin" "?next = ?bo + ?hi" using True al by auto
    have here: "alignDown x = ?bo" "x \<in> extent_bytes (ranges b)" if "cur \<le> x" "x < ?next" for x
      using that al "1.prems"(4,6) step by (auto simp: alignDown_iff)
    have grow: "stretch b off cur @ stretch b cur ?next = stretch b off ?next"
      using "1.prems"(4) step by (intro stretch_append) simp_all
    show ?thesis
    proof (cases "blocks b ?bo")
      case (Some blk)
      have "map (data blk) [?lo..?hi - 1] = stretch b cur ?next"
      proof -
        have dx: "data blk i = the (memory b (i + ?bo))" if "?lo \<le> i" "i < ?hi" for i
        proof -
          have x: "cur \<le> i + ?bo" "i + ?bo < ?next" using that step(3) by linarith+
          then show ?thesis using memory_block [OF here(2) [OF x]] here(1) [OF x] Some by simp
        qed
        have "map (data blk) [?lo..?hi - 1] = map (\<lambda>x. the (memory b x)) [?lo + ?bo..?hi + ?bo - 1]"
          by (rule map_upto_shift) (rule dx)
        then show ?thesis by (simp add: stretch_def algebra_simps)
      qed
      then have run: "read_loop ?next fin (stretch b off ?next) True disk b = ((bs, err), b')"
        using "1.prems"(1,3) True Some grow by (simp add: read_loop.simps [of cur fin] Let_def)
      show ?thesis
        using "1.IH"(2) [OF True refl refl refl Some] run "1.prems" step grow
          \<open>map (data blk) [?lo..?hi - 1] = stretch b cur ?next\<close> by simp
    next
      case None
      have rd: "file_ReadAt (?hi - ?lo) cur b =
          (if io_now b = Fine then Some (stretch b cur ?next) else None, b\<lparr>faults := tl (faults b)\<rparr>)"
      proof (rule read_file [OF "1.prems"(2), of cur "?hi - ?lo"])
        show "{cur..<?next} \<subseteq> extent_bytes (ranges b)"
        proof
          fix x assume "x \<in> {cur..<?next}"
          then show "x \<in> extent_bytes (ranges b)" using here(2) [of x] by (simp only: atLeastLessThan_iff)
        qed
        show "0 < ?hi - ?lo" using step(1) by linarith
        show "blocks b (alignDown x) = None" if "cur \<le> x" "x < ?next" for x using here(1) [OF that] None by simp
      qed
      show ?thesis
      proof (cases "io_now b")
        case (Fault k)
        then have "bs = acc" "err = Some ErrIO" "b' = b\<lparr>faults := tl (faults b)\<rparr>" "faults b \<noteq> []"
          using "1.prems"(1) True None rd by (auto simp: read_loop.simps [of cur fin] Let_def io_now_def)
        then show ?thesis
          using "1.prems" True pop_fault_kept [OF "1.prems"(2)] by (auto simp: read_ok_def intro!: exI [of _ "cur - off"])
      next
        case Fine
        let ?b = "b\<lparr>faults := tl (faults b)\<rparr>"
        have k: "kept b ?b" using pop_fault_kept [OF "1.prems"(2)] .
        have rd': "(Some (stretch b cur ?next), ?b) = file_ReadAt (?hi - ?lo) cur b" using rd Fine by simp
        have len: "\<not> int (length (stretch b cur ?next)) < ?hi - ?lo" using step by (simp add: stretch_def)
        have run: "read_loop ?next fin (acc @ stretch b cur ?next) ram True ?b = ((bs, err), b')"
          using "1.prems"(1) True None rd Fine len by (simp add: read_loop.simps [of cur fin] Let_def)
        have "kept ?b b' \<and> read_ok off (fin - off) ?b bs err"
          using "1.IH"(1) [OF True refl refl refl None refl rd' refl len run] k "1.prems" step grow
          by (simp add: kept_stretch [OF k] kept_ok)
        moreover have "faults ?b \<noteq> [] \<Longrightarrow> faults b \<noteq> []" by auto
        ultimately show ?thesis
          using kept_trans [OF k] by (auto simp: read_ok_def kept_stretch [OF k])
      qed
    qed
  qed
qed

text \<open>A slot that is set vouches for its block.\<close>

lemma fast_slotD:
  assumes "slots_ok bl (ranges b) (states b)" "bl = blocks b" "fast_slot b off" "off mod blockSize = 0"
  shows "blocks b off = None" "{off..<off + blockSize} \<subseteq> extent_bytes (ranges b)"
proof -
  obtain i ss where i: "stateSlot b off = Some i" "states b = Some ss" "ss ! i"
    using assms(3) by (auto simp: fast_slot_def split: option.splits)
  have "0 \<le> off" "off < int (length ss) * blockSize" "i = nat (off div blockSize)"
    using i(1) stateSlot_eq [OF assms(4) i(2)] by (auto split: if_splits)
  moreover obtain k where k: "off = blockSize * k" using assms(4) by (auto simp: mod_eq_0_iff_dvd elim: dvdE)
  ultimately have "i < length ss" "int i * blockSize = off" by auto
  then have "blocks b off = None \<and> {off..<off + blockSize} \<subseteq> extent_bytes (ranges b)"
    using assms(1,2) i unfolding slots_ok_def by metis
  then show "blocks b off = None" "{off..<off + blockSize} \<subseteq> extent_bytes (ranges b)" by simp_all
qed

lemma all_fastD:
  assumes ok: "buf_ok b" and f: "all_fast off n b" and x: "off \<le> x" "x < off + n"
  shows "blocks b (alignDown x) = None" "x \<in> extent_bytes (ranges b)"
proof -
  have "fast_slot b (alignDown x)" using f block_offs_cover [OF x] by (simp add: all_fast_def)
  note s = fast_slotD [OF buf_okD(3) [OF ok] refl this alignDown_aligned]
  show "blocks b (alignDown x) = None" using s(1) .
  show "x \<in> extent_bytes (ranges b)" using subsetD [OF s(2), of x] alignDown_bounds [of x] by simp
qed

lemma ReadAt_spec:
  assumes r: "ReadAt n off b = ((bs, err), b')" and ok: "buf_ok b" and v: "0 < n" "0 \<le> off" "off + n \<le> max_i64"
  shows "kept b b' \<and> (if {off..<off + n} \<subseteq> dom (memory b) then read_ok off n b bs err else bs = [] \<and> err = Some ErrNotPresent)"
proof (cases "all_fast off n b")
  case True
  note fast = all_fastD [OF ok True]
  have sub: "{off..<off + n} \<subseteq> extent_bytes (ranges b)" using fast(2) by auto
  have len: "\<not> int (length (stretch b off (off + n))) < n" using v by (simp add: stretch_def)
  note k = pop_fault_kept [OF ok]
  show ?thesis
  proof (cases "io_now b")
    case (Fault j)
    then have "bs = []" "err = Some ErrIO" "b' = b\<lparr>faults := tl (faults b)\<rparr>" "faults b \<noteq> []"
      using r True buf_okD(1) [OF ok] v read_file [OF ok sub fast(1) v(1)] by (auto simp: ReadAt_def fast_read_def io_now_def)
    then show ?thesis
      using sub k v by (auto simp: memory_dom read_ok_def stretch_def intro!: exI [of _ "0::int"])
  next
    case Fine
    then have "bs = stretch b off (off + n)" "err = None" "b' = count_read False True (b\<lparr>faults := tl (faults b)\<rparr>)"
      using r True buf_okD(1) [OF ok] v read_file [OF ok sub fast(1) v(1)] len by (auto simp: ReadAt_def fast_read_def)
    then show ?thesis
      using sub kept_trans [OF k count_read_kept [OF kept_ok [OF k]]] by (simp add: memory_dom read_ok_def)
  qed
next
  case False
  have p: "present (ranges b) off n \<longleftrightarrow> {off..<off + n} \<subseteq> extent_bytes (ranges b)"
    using present_iff [OF coherentD(1) [OF buf_okD(2) [OF ok]], of off n] v by simp
  have sl: "slow_read n off b = ((bs, err), b')" using r False buf_okD(1) [OF ok] v by (simp add: ReadAt_def)
  show ?thesis
  proof (cases "present (ranges b) off n")
    case True
    then have "read_loop off (off + n) [] False False b = ((bs, err), b')" using sl by (simp add: slow_read_def)
    from read_loop_spec [OF this ok, of off] show ?thesis using True p v by (simp add: memory_dom stretch_def)
  next
    case False
    then show ?thesis using sl p count_read_kept [OF ok] by (auto simp: slow_read_def memory_dom)
  qed
qed

end
