(* ===== verification/Buffer_Discard.thy ===== *)
theory Buffer_Discard
  imports Buffer_Array
begin

text \<open>
  Discarding a range. Under the lock the code drops the blocks inside it before it removes the range, so the
  invariant does not hold in between: the copies of a byte are compared before and after only, and the books and the
  state slots are followed from step to step.
\<close>

section \<open>The copies of a byte\<close>

lemma coherent_discard:
  assumes c: "coherent fl bl rg od" and v: "valid_range off len" "0 < len"
    and some: "\<And>k blk'. bl' k = Some blk' \<Longrightarrow> \<exists>blk. bl k = Some blk \<and> data blk' = data blk \<and>
      (dirty blk' = dirty blk \<and> {k..<k + blockSize} \<inter> {off..<off + len} = {} \<or>
       dirty blk' = cut_extents (max (off - k) 0) (min (off + len - k) blockSize) (dirty blk) \<and> k < off + len \<and> off < k + blockSize)"
    and none: "\<And>k. bl' k = None \<Longrightarrow> bl k = None \<or> {k..<k + blockSize} \<inter> (extent_bytes rg - {off..<off + len}) = {}"
  defines "rg' \<equiv> snd (remove_extent rg off len)" and "od' \<equiv> snd (remove_extent od off len)"
  shows "coherent fl bl' rg' od'" "mem_of fl bl' rg' = mem_of fl bl rg |` (- {off..<off + len})"
proof -
  have rg': "extents_ok rg'" "extent_bytes rg' = extent_bytes rg - {off..<off + len}"
    using remove_bytes [OF coherentD(1) [OF c] v(1)] by (simp_all add: rg'_def)
  have od': "extents_ok od'" "extent_bytes od' = extent_bytes od - {off..<off + len}"
    using remove_bytes [OF coherentD(2) [OF c] v(1)] by (simp_all add: od'_def)
  have dirty: "\<exists>blk. bl k = Some blk \<and> data blk' = data blk \<and> gapped (dirty blk') \<and>
      cover (dirty blk') = {i \<in> cover (dirty blk). k + i \<notin> {off..<off + len}} \<and> block_ok rg k blk" if k: "bl' k = Some blk'" for k blk'
  proof -
    obtain blk where blk: "bl k = Some blk" "data blk' = data blk" and d: "dirty blk' = dirty blk \<and> {k..<k + blockSize} \<inter> {off..<off + len} = {} \<or>
       dirty blk' = cut_extents (max (off - k) 0) (min (off + len - k) blockSize) (dirty blk) \<and> k < off + len \<and> off < k + blockSize"
      using some [OF k] by blast
    have bo: "block_ok rg k blk" using coherentD(5) [OF c blk(1)] .
    have inb: "0 \<le> i \<and> i < blockSize" if "i \<in> cover (dirty blk)" for i
      using subsetD [of "cover (dirty blk)" "{0..<blockSize}" i] bo that by (simp add: block_ok_def)
    have "gapped (dirty blk') \<and> cover (dirty blk') = {i \<in> cover (dirty blk). k + i \<notin> {off..<off + len}}" using d
    proof
      assume a: "dirty blk' = dirty blk \<and> {k..<k + blockSize} \<inter> {off..<off + len} = {}"
      have "k + i \<notin> {off..<off + len}" if "i \<in> cover (dirty blk)" for i
      proof -
        have "k + i \<in> {k..<k + blockSize}" using inb [OF that] by simp
        then show ?thesis using a by blast
      qed
      then show ?thesis using a bo by (auto simp: block_ok_def)
    next
      assume a: "dirty blk' = cut_extents (max (off - k) 0) (min (off + len - k) blockSize) (dirty blk) \<and> k < off + len \<and> off < k + blockSize"
      then have "max (off - k) 0 < min (off + len - k) blockSize" using v by auto
      from cut_extents_spec [OF _ this, of "dirty blk"] a bo
      have "gapped (dirty blk')" "cover (dirty blk') = cover (dirty blk) - {max (off - k) 0..<min (off + len - k) blockSize}"
        by (auto simp: block_ok_def)
      then show ?thesis using inb by auto
    qed
    then show ?thesis using blk bo by blast
  qed
  have ok': "block_ok rg' k blk'" if k: "bl' k = Some blk'" for k blk'
  proof -
    obtain blk where b: "gapped (dirty blk')" "cover (dirty blk') = {i \<in> cover (dirty blk). k + i \<notin> {off..<off + len}}" "block_ok rg k blk"
      using dirty [OF k] by blast
    have "cover (dirty blk') \<subseteq> cover (dirty blk)" unfolding b(2) by blast
    moreover have "cover (dirty blk) \<subseteq> {0..<blockSize}" using b(3) by (simp add: block_ok_def)
    ultimately have "cover (dirty blk') \<subseteq> {0..<blockSize}" by (rule subset_trans)
    moreover have "\<forall>i \<in> cover (dirty blk'). k + i \<in> extent_bytes rg'" using b(3) unfolding rg'(2) b(2) block_ok_def by blast
    ultimately show ?thesis using b(1,3) by (simp add: block_ok_def)
  qed
  have here: "x \<in> {alignDown x..<alignDown x + blockSize}" for x using alignDown_bounds [of x] by simp
  have "copy_ok fl bl' od' x" "mem_of fl bl' rg' x = mem_of fl bl rg x" if x: "x \<in> extent_bytes rg'" for x
  proof -
    have xx: "x \<in> extent_bytes rg" "x \<notin> {off..<off + len}" using x rg' by auto
    have cx: "copy_ok fl bl od x" using coherentD(6) [OF c xx(1)] .
    have "copy_ok fl bl' od' x \<and> mem_of fl bl' rg' x = mem_of fl bl rg x"
    proof (cases "bl' (alignDown x)")
      case None
      then have "bl (alignDown x) = None" using none [OF None] here [of x] xx by blast
      then show ?thesis using None cx xx x by (simp add: copy_ok_def od' mem_of_def)
    next
      case (Some blk')
      obtain blk where b: "bl (alignDown x) = Some blk" "data blk' = data blk"
        "cover (dirty blk') = {i \<in> cover (dirty blk). alignDown x + i \<notin> {off..<off + len}}"
        using dirty [OF Some] by blast
      then show ?thesis using Some cx xx x by (auto simp: copy_ok_def od' mem_of_def)
    qed
    then show "copy_ok fl bl' od' x" "mem_of fl bl' rg' x = mem_of fl bl rg x" by simp_all
  qed
  note x = this
  have "extent_bytes od' \<subseteq> extent_bytes rg'" using coherentD(3) [OF c] unfolding rg' od' by blast
  moreover have "\<forall>x \<in> extent_bytes od'. x < fsize fl" using coherentD(4) [OF c] unfolding od' by blast
  ultimately show "coherent fl bl' rg' od'" using rg'(1) od'(1) x(1) ok' by (simp add: coherent_def)
  show "mem_of fl bl' rg' = mem_of fl bl rg |` (- {off..<off + len})"
  proof
    fix y
    show "mem_of fl bl' rg' y = (mem_of fl bl rg |` (- {off..<off + len})) y"
      using x(2) [of y] rg'(2) by (cases "y \<in> extent_bytes rg'") (auto simp: restrict_map_def mem_of_def)
  qed
qed

section \<open>The books\<close>

definition same_array :: "buffer \<Rightarrow> buffer \<Rightarrow> bool" where
  "same_array b b' \<longleftrightarrow> dfile b' = dfile b \<and> faults b' = faults b \<and> onDisk b' = onDisk b \<and> maxBytes b' = maxBytes b \<and>
     buf_closed b' = buf_closed b \<and> readHead b' = readHead b \<and> punching b' = punching b \<and> foreign b' = foreign b"

lemma same_array_trans: "same_array a b \<Longrightarrow> same_array b c \<Longrightarrow> same_array a c"
  by (simp add: same_array_def)

lemma slots_except_blocks:
  assumes "slots_except K bl rg st" "\<And>off. off \<notin> K \<Longrightarrow> bl off = None \<Longrightarrow> bl' off = None"
  shows "slots_except K bl' rg st"
  by (rule slots_except_mono [OF assms(1) subset_refl assms(2)])

lemma set_state_except:
  assumes "off mod blockSize = 0" "off \<in> K" "slots_except K bl rg (states b)"
  shows "slots_except K bl rg (states (set_state off v b))"
proof (cases "states b")
  case None
  then show ?thesis by (simp add: slots_except_def set_state_def stateSlot_def)
next
  case (Some ss)
  obtain k where k: "off = blockSize * k" using assms(1) by (auto simp: mod_eq_0_iff_dvd elim: dvdE)
  show ?thesis
  proof (cases "0 \<le> off \<and> off < int (length ss) * blockSize")
    case True
    then have kk: "0 \<le> k" "nat k < length ss" by (auto simp: k)
    have set: "states (set_state off v b) = Some (ss[nat k := v])"
      using True Some assms(1) by (simp add: set_state_def stateSlot_eq k)
    have "i \<noteq> nat k" if "int i * blockSize \<notin> K" for i
      using that assms(2) kk by (auto simp: k mult.commute)
    then have "ss[nat k := v] ! i = ss ! i" if "int i * blockSize \<notin> K" for i using that by (metis nth_list_update_neq)
    moreover have "bl (int i * blockSize) = None \<and> {int i * blockSize..<int i * blockSize + blockSize} \<subseteq> extent_bytes rg"
      if "i < length ss" "ss ! i" "int i * blockSize \<notin> K" for i
      using assms(3) that Some unfolding slots_except_def by blast
    ultimately show ?thesis unfolding slots_except_def set by auto
  next
    case False
    then have "states (set_state off v b) = Some ss" using Some assms(1) by (auto simp: set_state_def stateSlot_eq)
    then show ?thesis using assms(3) Some by simp
  qed
qed

text \<open>What a step of a discard keeps, the copies apart.\<close>

definition books_ok :: "int set \<Rightarrow> buffer \<Rightarrow> bool" where
  "books_ok K b \<longleftrightarrow> counts_ok b \<and> slots_except K (blocks b) (ranges b) (states b)"

lemma dropBlock_books:
  assumes "books_ok K b" "blocks b off = Some blk" "off \<in> K" "off mod blockSize = 0"
  shows "books_ok K (dropBlockLocked off blk b)" "same_array b (dropBlockLocked off blk b)"
proof -
  note c = counts_drop [of b off]
  have "counts_ok (dropBlockLocked off blk b)" using c assms(1,2) by (auto simp: counts_ok_def books_ok_def)
  moreover have "slots_except K ((blocks b)(off := None)) (ranges b) (states b)"
    by (rule slots_except_blocks [of K "blocks b"]) (use assms(1) in \<open>simp_all add: books_ok_def\<close>)
  from set_state_except [OF assms(4,3) this]
  have "slots_except K (blocks (dropBlockLocked off blk b)) (ranges b) (states (dropBlockLocked off blk b))"
    by (simp add: states_dropBlock)
  ultimately show "books_ok K (dropBlockLocked off blk b)" by (simp add: books_ok_def)
  show "same_array b (dropBlockLocked off blk b)" by (simp add: same_array_def foreign_def)
qed

definition trimmed :: "int \<Rightarrow> int \<Rightarrow> int \<Rightarrow> block option \<Rightarrow> block option" where
  "trimmed off fin k bo = (case bo of None \<Rightarrow> None
     | Some blk \<Rightarrow> if k \<ge> off \<and> k + blockSize \<le> fin then None
         else Some (removeDirty (max (off - k) 0) (min (fin - k) blockSize) blk))"

lemma discard_block_books:
  assumes "books_ok K b" "k \<in> K" "k mod blockSize = 0"
  shows "books_ok K (discard_block off fin k b)" "same_array b (discard_block off fin k b)"
    "blocks (discard_block off fin k b) = (blocks b)(k := trimmed off fin k (blocks b k))"
    "ranges (discard_block off fin k b) = ranges b"
proof -
  have "books_ok K (discard_block off fin k b) \<and> same_array b (discard_block off fin k b) \<and>
    blocks (discard_block off fin k b) = (blocks b)(k := trimmed off fin k (blocks b k)) \<and> ranges (discard_block off fin k b) = ranges b"
  proof (cases "blocks b k")
    case None
    then show ?thesis using assms by (auto simp: discard_block_def trimmed_def same_array_def)
  next
    case (Some blk)
    show ?thesis
    proof (cases "k \<ge> off \<and> k + blockSize \<le> fin")
      case True
      then show ?thesis using dropBlock_books [OF assms(1) Some assms(2,3)] Some by (simp add: discard_block_def trimmed_def)
    next
      case False
      let ?bl = "(blocks b)(k \<mapsto> removeDirty (max (off - k) 0) (min (fin - k) blockSize) blk)"
      have d: "discard_block off fin k b = b\<lparr>blocks := ?bl\<rparr>"
        using False Some by (auto simp: discard_block_def)
      have "slots_except K ?bl (ranges b) (states b)"
        by (rule slots_except_blocks [of K "blocks b"]) (use assms(1,2) in \<open>auto simp: books_ok_def\<close>)
      moreover have "dom ?bl = dom (blocks b)" using Some by auto
      moreover have "trimmed off fin k (blocks b k) = Some (removeDirty (max (off - k) 0) (min (fin - k) blockSize) blk)"
        using False Some by (auto simp: trimmed_def)
      ultimately show ?thesis
        using assms(1) unfolding d by (simp add: books_ok_def counts_ok_def same_array_def foreign_def)
    qed
  qed
  then show "books_ok K (discard_block off fin k b)" "same_array b (discard_block off fin k b)"
    "blocks (discard_block off fin k b) = (blocks b)(k := trimmed off fin k (blocks b k))"
    "ranges (discard_block off fin k b) = ranges b" by simp_all
qed

lemma discard_blocks:
  assumes "books_ok K b" "set ks \<subseteq> K" "\<forall>k \<in> K. k mod blockSize = 0" "distinct ks"
  shows "books_ok K (fold (discard_block off fin) ks b) \<and> same_array b (fold (discard_block off fin) ks b) \<and>
    ranges (fold (discard_block off fin) ks b) = ranges b \<and>
    blocks (fold (discard_block off fin) ks b) = (\<lambda>k. if k \<in> set ks then trimmed off fin k (blocks b k) else blocks b k)"
  using assms
proof (induction ks arbitrary: b)
  case Nil
  then show ?case by (simp add: same_array_def)
next
  case (Cons k ks)
  have k: "k \<in> K" "k mod blockSize = 0" "set ks \<subseteq> K" "distinct ks" "k \<notin> set ks" using Cons.prems by auto
  note d = discard_block_books [OF Cons.prems(1) k(1,2), of off fin]
  show ?case
    using Cons.IH [OF d(1) k(3) Cons.prems(3) k(4)] d(3,4) k(5) same_array_trans [OF d(2)] by (auto simp: fun_eq_iff)
qed

lemma distinct_block_offs: "distinct (block_offs off fin)"
  by (auto simp: block_offs_def distinct_map inj_on_def)

lemma drop_if_empty_books:
  assumes "books_ok K b" "k \<in> K" "k mod blockSize = 0"
  shows "books_ok K (drop_if_empty k b) \<and> same_array b (drop_if_empty k b) \<and> ranges (drop_if_empty k b) = ranges b \<and>
    blocks (drop_if_empty k b) = (if anyPresent (ranges b) k blockSize then blocks b else (blocks b)(k := None))"
proof (cases "blocks b k")
  case None
  then show ?thesis using assms by (auto simp: drop_if_empty_def same_array_def)
next
  case (Some blk)
  then show ?thesis using dropBlock_books [OF assms(1) Some assms(2,3)] assms by (simp add: drop_if_empty_def same_array_def)
qed

lemma slots_except_shrink:
  assumes "slots_except K bl rg st" "\<And>off. off mod blockSize = 0 \<Longrightarrow> 0 \<le> off \<Longrightarrow> off \<notin> K \<Longrightarrow> {off..<off + blockSize} \<inter> W = {}"
    and "extent_bytes rg' = extent_bytes rg - W"
  shows "slots_except K bl rg' st"
  unfolding slots_except_def
proof (intro allI impI)
  fix ss i assume a: "st = Some ss" "i < length ss" "ss ! i" "int i * blockSize \<notin> K"
  have "{int i * blockSize..<int i * blockSize + blockSize} \<inter> W = {}" using a(4) by (intro assms(2)) simp_all
  then show "bl (int i * blockSize) = None \<and> {int i * blockSize..<int i * blockSize + blockSize} \<subseteq> extent_bytes rg'"
    using assms(1) a unfolding slots_except_def assms(3) by blast
qed

lemma rangesRemove_fields:
  assumes "extents_ok (ranges b)" "valid_range pos len" "rangesRemove pos len b = (removed, b')"
  shows "same_array b b'" "blocks b' = blocks b" "states b' = states b" "lru b' = lru b" "bytesInRAM b' = bytesInRAM b"
    "ranges b' = snd (remove_extent (ranges b) pos len)" "removed = fst (remove_extent (ranges b) pos len)"
    "diskBytes b' = diskBytes b + int (card (extent_bytes (ranges b'))) - int (card (extent_bytes (ranges b)))"
  using remove_card [OF assms(1,2)] assms(3)
  by (auto simp: rangesRemove_def Let_def subDisk_def same_array_def foreign_def split: prod.splits if_splits)

lemma window_blocks:
  assumes "off < fin" "k mod blockSize = 0" "k \<notin> set (block_offs off fin)"
  shows "{k..<k + blockSize} \<inter> {off..<fin} = {}"
proof (rule ccontr)
  assume "{k..<k + blockSize} \<inter> {off..<fin} \<noteq> {}"
  then obtain x where "x \<in> {k..<k + blockSize} \<inter> {off..<fin}" by blast
  then have x: "k \<le> x" "x < k + blockSize" "off \<le> x" "x < fin" by simp_all
  then have "alignDown x = k" using assms(2) by (simp add: alignDown_iff)
  then show False using block_offs_cover [OF x(3,4)] assms(3) by simp
qed

text \<open>The slots of the blocks in the range are recomputed last.\<close>

lemma mark_all:
  assumes "slots_except (set ks \<union> K) (blocks b) (ranges b) (states b)" "extents_ok (ranges b)"
    "\<forall>k \<in> set ks. k mod blockSize = 0 \<and> 0 \<le> k \<and> k + blockSize \<le> max_i64"
  shows "slots_except K (blocks b) (ranges b) (states (fold markStateForBlockLocked ks b)) \<and>
    same_array b (fold markStateForBlockLocked ks b) \<and> (counts_ok b \<longrightarrow> counts_ok (fold markStateForBlockLocked ks b)) \<and>
    blocks (fold markStateForBlockLocked ks b) = blocks b \<and> ranges (fold markStateForBlockLocked ks b) = ranges b"
  using assms
proof (induction ks arbitrary: b)
  case Nil
  then show ?case by (simp add: same_array_def)
next
  case (Cons k ks)
  let ?b = "markStateForBlockLocked k b"
  have "slots_except (insert k (set ks \<union> K)) (blocks b) (ranges b) (states b)" using Cons.prems(1) by simp
  then have "slots_except (set ks \<union> K) (blocks b) (ranges b) (states ?b)"
    using Cons.prems(2,3) by (intro mark_slots) simp_all
  then have "slots_except K (blocks b) (ranges b) (states (fold markStateForBlockLocked ks ?b)) \<and>
    same_array ?b (fold markStateForBlockLocked ks ?b) \<and> (counts_ok ?b \<longrightarrow> counts_ok (fold markStateForBlockLocked ks ?b)) \<and>
    blocks (fold markStateForBlockLocked ks ?b) = blocks b \<and> ranges (fold markStateForBlockLocked ks ?b) = ranges b"
    using Cons.IH [of ?b] Cons.prems(2,3) by simp
  moreover have "same_array b ?b" "counts_ok b \<Longrightarrow> counts_ok ?b" by (simp_all add: same_array_def foreign_def counts_ok_def)
  ultimately show ?case using same_array_trans by auto
qed

section \<open>Under the lock\<close>

lemma trimmed_Some:
  "trimmed off fin k bo = Some blk' \<longleftrightarrow> (\<exists>blk. bo = Some blk \<and> \<not> (off \<le> k \<and> k + blockSize \<le> fin) \<and>
     blk' = removeDirty (max (off - k) 0) (min (fin - k) blockSize) blk)"
  by (auto simp: trimmed_def split: option.splits if_splits)

lemma trimmed_None: "trimmed off fin k bo = None \<longleftrightarrow> bo = None \<or> off \<le> k \<and> k + blockSize \<le> fin"
  by (auto simp: trimmed_def split: option.splits)

definition emptied :: "rangeSet \<Rightarrow> int \<Rightarrow> bool" where
  "emptied rg k \<longleftrightarrow> \<not> anyPresent rg k blockSize"

lemma discard_steps:
  assumes ok: "buf_ok b" and v: "0 \<le> off" "0 < len" "off + len \<le> max_i64 - blockSize"
    and run: "discard_locked off len b = ((removed, hadDisk), b')"
  defines "fin \<equiv> off + len" and "rg' \<equiv> snd (remove_extent (ranges b) off len)"
  shows "counts_ok b'" "slots_ok (blocks b') rg' (states b')" "ranges b' = rg'"
    "onDisk b' = snd (remove_extent (onDisk b) off len)" "dfile b' = dfile b" "faults b' = faults b" "maxBytes b' = maxBytes b"
    "\<not> buf_closed b'" "readHead b' = readHead b" "punching b' = punching b" "foreign b' = foreign b"
    "blocks b' = (\<lambda>k. if k \<in> {alignDown off, alignDown (fin - 1)} \<and> emptied rg' k then None
       else if k \<in> set (block_offs off fin) then trimmed off fin k (blocks b k) else blocks b k)"
    "removed = fst (remove_extent (ranges b) off len)" "hadDisk \<longleftrightarrow> fst (remove_extent (onDisk b) off len) > 0"
proof -
  let ?ks = "block_offs off fin" and ?e1 = "alignDown off" and ?e2 = "alignDown (fin - 1)"
  let ?K = "set ?ks"
  have K: "\<forall>k \<in> ?K. k mod blockSize = 0 \<and> 0 \<le> k \<and> k + blockSize \<le> max_i64"
    using v alignDown_nonneg [of off] by (auto simp: block_offs_mem fin_def)
  have ends: "?e1 \<in> ?K" "?e2 \<in> ?K" using v block_offs_cover [of off off fin] block_offs_cover [of off "fin - 1" fin] by (simp_all add: fin_def)
  have al: "?e1 mod blockSize = 0" "?e2 mod blockSize = 0" using alignDown_aligned by simp_all
  have val: "valid_range off len" using v by simp
  have ex: "extents_ok (ranges b)" "extents_ok (onDisk b)" using coherentD(1,2) [OF buf_okD(2) [OF ok]] by simp_all
  define b1 where "b1 = fold (discard_block off fin) ?ks b"
  have "slots_except ?K (blocks b) (ranges b) (states b)"
    using buf_okD(3) [OF ok] unfolding slots_ok_def slots_except_def by blast
  then have "books_ok ?K b" using buf_okD(4) [OF ok] by (simp add: books_ok_def)
  from discard_blocks [OF this subset_refl _ distinct_block_offs, of off fin] K
  have s1: "books_ok ?K b1" "same_array b b1" "ranges b1 = ranges b" "blocks b1 = (\<lambda>k. if k \<in> ?K then trimmed off fin k (blocks b k) else blocks b k)"
    by (simp_all add: b1_def)
  obtain rem b2 where b2: "rangesRemove off len b1 = (rem, b2)" by (metis surj_pair)
  have "extents_ok (ranges b1)" using ex s1(3) by simp
  note r = rangesRemove_fields [OF this val b2]
  have rg2: "ranges b2 = rg'" "extents_ok rg'" "extent_bytes rg' = extent_bytes (ranges b) - {off..<fin}"
    using r(6) s1(3) remove_bytes [OF ex(1) val] by (simp_all add: rg'_def fin_def)
  have w: "{k..<k + blockSize} \<inter> {off..<fin} = {}" if "k mod blockSize = 0" "k \<notin> ?K" for k
    using window_blocks [of off fin k] v that by (simp add: fin_def)
  have "slots_except ?K (blocks b2) (ranges b2) (states b2)"
    by (rule slots_except_shrink [of _ _ "ranges b1" _ "{off..<fin}"])
      (use s1(1) w rg2 in \<open>simp_all only: books_ok_def r(2,3) s1(3)\<close>)
  moreover have "counts_ok b2"
    using s1(1,2) r unfolding books_ok_def counts_ok_def same_array_def by auto
  ultimately have s2: "books_ok ?K b2" "same_array b b2" using same_array_trans [OF s1(2) r(1)] by (simp_all add: books_ok_def)
  define b3 where "b3 = drop_if_empty ?e2 (drop_if_empty ?e1 b2)"
  note d1 = drop_if_empty_books [OF s2(1) ends(1) al(1)]
  note d2 = drop_if_empty_books [OF conjunct1 [OF d1] ends(2) al(2)]
  have s3: "books_ok ?K b3" "same_array b b3" "ranges b3 = rg'"
    using d1 d2 rg2(1) same_array_trans [OF s2(2)] same_array_trans by (auto simp: b3_def)
  have bl3: "blocks b3 = (\<lambda>k. if k \<in> {?e1, ?e2} \<and> emptied rg' k then None
       else if k \<in> ?K then trimmed off fin k (blocks b k) else blocks b k)"
    using d1 d2 rg2(1) by (auto simp: b3_def emptied_def r(2) s1(4) fun_eq_iff)
  define b4 where "b4 = b3\<lparr>onDisk := snd (remove_extent (onDisk b3) off len)\<rparr>"
  have slots4: "slots_except (?K \<union> {}) (blocks b4) (ranges b4) (states b4)" "counts_ok b4"
    using s3(1) by (simp_all add: b4_def books_ok_def counts_ok_def)
  have "extents_ok (ranges b4)" using s3(3) rg2(2) by (simp add: b4_def)
  note m = mark_all [OF slots4(1) this K]
  define b5 where "b5 = (if states b4 \<noteq> None then fold markStateForBlockLocked ?ks b4 else b4)"
  have s5: "counts_ok b5" "same_array b4 b5" "blocks b5 = blocks b4" "ranges b5 = ranges b4" "slots_ok (blocks b4) (ranges b4) (states b5)"
    using m slots4(2) by (auto simp: b5_def same_array_def slots_except_empty slots_ok_def)
  have od: "onDisk b3 = onDisk b" using s3(2) by (simp add: same_array_def)
  have "((removed, hadDisk), b') = ((rem, fst (remove_extent (onDisk b) off len) > 0), b5)"
    using run buf_okD(1) [OF ok] b2 od
    by (auto simp: discard_locked_def Let_def fin_def [symmetric] b1_def [symmetric] b3_def b4_def b5_def split: prod.splits)
  then have fin: "removed = rem" "hadDisk \<longleftrightarrow> fst (remove_extent (onDisk b) off len) > 0" "b' = b5" by simp_all
  show "counts_ok b'" "slots_ok (blocks b') rg' (states b')" "ranges b' = rg'"
    using s5 s3(3) by (simp_all add: fin b4_def)
  have "same_array b3 (b5\<lparr>onDisk := onDisk b3\<rparr>)" "onDisk b5 = snd (remove_extent (onDisk b) off len)"
    using s5(2) od by (simp_all add: same_array_def b4_def foreign_def)
  then show "onDisk b' = snd (remove_extent (onDisk b) off len)" "dfile b' = dfile b" "faults b' = faults b" "maxBytes b' = maxBytes b"
    "\<not> buf_closed b'" "readHead b' = readHead b" "punching b' = punching b" "foreign b' = foreign b"
    using s3(2) buf_okD(1) [OF ok] by (simp_all add: fin same_array_def foreign_def)
  show "blocks b' = (\<lambda>k. if k \<in> {?e1, ?e2} \<and> emptied rg' k then None
       else if k \<in> ?K then trimmed off fin k (blocks b k) else blocks b k)"
    using bl3 s5(3) by (simp add: fin b4_def)
  show "removed = fst (remove_extent (ranges b) off len)" using r(7) s1(3) fin by simp
  show "hadDisk \<longleftrightarrow> fst (remove_extent (onDisk b) off len) > 0" using fin by simp
qed

lemma discard_locked_spec:
  assumes ok: "buf_ok b" and v: "0 \<le> off" "0 < len" "off + len \<le> max_i64 - blockSize"
    and run: "discard_locked off len b = ((removed, hadDisk), b')"
  shows "steady b b' \<and> memory b' = memory b |` (- {off..<off + len}) \<and>
    removed = int (card (dom (memory b))) - int (card (dom (memory b'))) \<and> 0 \<le> removed"
proof -
  note s = discard_steps [OF ok v run]
  have val: "valid_range off len" using v by simp
  have c: "buf_coherent b" using buf_okD(2) [OF ok] .
  let ?rg = "snd (remove_extent (ranges b) off len)"
  have rg: "extents_ok ?rg" "extent_bytes ?rg = extent_bytes (ranges b) - {off..<off + len}"
    using remove_bytes [OF coherentD(1) [OF c] val] by simp_all
  have al: "k mod blockSize = 0" if "blocks b k = Some blk" for k blk
    using coherentD(5) [OF c that] by (simp add: block_ok_def)
  have em: "{k..<k + blockSize} \<inter> (extent_bytes (ranges b) - {off..<off + len}) = {}"
    if "emptied ?rg k" "k \<in> {alignDown off, alignDown (off + len - 1)}" for k
  proof -
    have "0 \<le> k" "k + blockSize \<le> max_i64"
      using that(2) v alignDown_nonneg [of off] alignDown_nonneg [of "off + len - 1"] alignDown_bounds(1) [of off]
        alignDown_bounds(1) [of "off + len - 1"] by auto
    then show ?thesis
      using that(1) anyPresent_iff [OF rg(1), of k blockSize] by (simp add: emptied_def rg(2) Int_commute)
  qed
  have some: "\<exists>blk. blocks b k = Some blk \<and> data blk' = data blk \<and>
      (dirty blk' = dirty blk \<and> {k..<k + blockSize} \<inter> {off..<off + len} = {} \<or>
       dirty blk' = cut_extents (max (off - k) 0) (min (off + len - k) blockSize) (dirty blk) \<and> k < off + len \<and> off < k + blockSize)"
    if k: "blocks b' k = Some blk'" for k blk'
  proof (cases "k \<in> set (block_offs off (off + len))")
    case True
    then have "trimmed off (off + len) k (blocks b k) = Some blk'" using k unfolding s(12) by (auto split: if_splits)
    moreover have "k < off + len" "off < k + blockSize" using True alignDown_bounds(2) [of off] by (auto simp: block_offs_mem)
    ultimately show ?thesis by (auto simp: trimmed_Some removeDirty_def)
  next
    case False
    then have blk: "blocks b k = Some blk'" using k unfolding s(12) by (auto split: if_splits)
    then show ?thesis using window_blocks [OF _ al [OF blk] False] v by simp
  qed
  have none: "blocks b k = None \<or> {k..<k + blockSize} \<inter> (extent_bytes (ranges b) - {off..<off + len}) = {}"
    if k: "blocks b' k = None" for k
  proof (cases "k \<in> {alignDown off, alignDown (off + len - 1)} \<and> emptied ?rg k")
    case True
    then show ?thesis using em by blast
  next
    case False
    then have "(if k \<in> set (block_offs off (off + len)) then trimmed off (off + len) k (blocks b k) else blocks b k) = None"
      using k unfolding s(12) by metis
    then have "blocks b k = None \<or> off \<le> k \<and> k + blockSize \<le> off + len" by (auto simp: trimmed_None split: if_splits)
    then show ?thesis by auto
  qed
  note coherent_discard [OF c val v(2) some none]
  then have "buf_ok b'" "memory b' = memory b |` (- {off..<off + len})"
    using s by (simp_all add: buf_ok_def memory_def)
  moreover have "removed = int (card (dom (memory b))) - int (card (dom (memory b')))" "0 \<le> removed"
    using remove_card [OF coherentD(1) [OF c] val] s by (simp_all add: memory_dom)
  ultimately show ?thesis using s by (simp add: steady_def)
qed

section \<open>The hole punch\<close>

lemma coherent_zero:
  assumes c: "coherent fl bl rg od" and w: "extent_bytes rg \<inter> {off..<off + len} = {}"
  shows "coherent (zero_out off len fl) bl rg od" "mem_of (zero_out off len fl) bl rg = mem_of fl bl rg"
proof -
  have x: "content (zero_out off len fl) x = content fl x" if "x \<in> extent_bytes rg" for x
    using that w by (auto simp: zero_out_def)
  then have "copy_ok (zero_out off len fl) bl od x" if "x \<in> extent_bytes rg" for x
    using coherentD(6) [OF c that] x [OF that] by (auto simp: copy_ok_def split: option.splits)
  then show "coherent (zero_out off len fl) bl rg od" using c by (simp add: coherent_def zero_out_def)
  show "mem_of (zero_out off len fl) bl rg = mem_of fl bl rg"
    using x by (auto simp: mem_of_def fun_eq_iff split: option.split)
qed

lemma discard_punch_kept:
  assumes "buf_ok b" "dom (memory b) \<inter> {off..<off + len} = {}"
  shows "kept b (discard_punch off len removed hadDisk b)"
  using coherent_zero [OF buf_okD(2) [OF assms(1)] assms(2) [unfolded memory_dom]] assms(1)
  by (auto simp: discard_punch_def punchHole_def kept_def buf_ok_def counts_ok_def memory_def foreign_def Let_def)

lemma discard_spec:
  assumes ok: "buf_ok b" and v: "0 \<le> off" "0 < len" "off + len \<le> max_i64 - blockSize" and run: "discard off len b = (removed, b')"
  shows "steady b b' \<and> memory b' = memory b |` (- {off..<off + len}) \<and>
    removed = int (card (dom (memory b))) - int (card (dom (memory b'))) \<and> 0 \<le> removed"
proof -
  obtain rem had b1 where d: "discard_locked off len b = ((rem, had), b1)" by (metis surj_pair)
  note s = discard_locked_spec [OF ok v d]
  have r: "removed = rem" "b' = discard_punch off len rem had b1" using run d buf_okD(1) [OF ok] by (auto simp: discard_def)
  have "kept b1 b'" unfolding r using s by (intro discard_punch_kept) (auto simp: steady_def)
  then show ?thesis using s r steady_trans unfolding kept_steady by auto
qed

end
