(* ===== verification/Buffer_Life.thy ===== *)
theory Buffer_Life
  imports Buffer_Discard
begin

text \<open>
  The disk backstop, flushing, closing and opening a buffer.
\<close>

section \<open>The disk backstop\<close>

lemma present_loop_ranges:
  assumes "r \<in> set (present_loop pos fin es)" "bounded_segs (segs es)" "0 \<le> pos" "fin \<le> max_i64"
  shows "pos \<le> fst r \<and> 0 < snd r \<and> fst r + snd r \<le> fin"
  using assms(1,2)
proof (induction es)
  case (Cons e es)
  have "i64 (min (ext_end e) fin - max (ext_off e) pos) = min (ext_end e) fin - max (ext_off e) pos"
    if "max (ext_off e) pos < min (ext_end e) fin"
    using that Cons.prems(2) assms(3,4) by (intro i64_id) auto
  then show ?case using Cons by (auto simp: Let_def split: if_splits)
qed simp

lemma presentRanges_ranges:
  assumes ok: "extents_ok rs" and r: "valid_range pos len" and m: "r \<in> set (presentRanges rs pos len)"
  shows "pos \<le> fst r \<and> 0 < snd r \<and> fst r + snd r \<le> pos + len"
proof -
  have fin: "i64 (pos + len) = pos + len" using r by (intro i64_id) auto
  obtain ys zs where yz: "rs = ys @ zs" "sort_Search (length rs) (\<lambda>i. pos < ext_end (rs ! i)) = length ys" "bounded_segs (segs zs)"
    by (rule extent_split [OF ok, of "\<lambda>x. pos < x"]) auto
  have "r \<in> set (present_loop pos (pos + len) zs)"
    using m unfolding presentRanges_def Let_def fin yz(2) by (auto simp: yz(1) split: if_splits)
  then show ?thesis using present_loop_ranges [of r pos "pos + len" zs] yz(3) r by simp
qed

abbreviation spans :: "(int \<times> int) list \<Rightarrow> int set" where
  "spans rs \<equiv> cover (map (\<lambda>(lo, size). (lo, lo + size)) rs)"

lemma punch_ranges_spec:
  assumes "punch_ranges rs n ev b = ((n', ev'), b')" "buf_ok b"
    "\<forall>r \<in> set rs. 0 \<le> fst r \<and> 0 < snd r \<and> fst r + snd r \<le> max_i64 - blockSize"
  shows "steady b b' \<and> memory b' = memory b |` (- spans rs) \<and>
    n' = n + int (card (dom (memory b))) - int (card (dom (memory b'))) \<and> n \<le> n' \<and>
    (\<exists>new. ev' = ev @ new \<and> set new \<subseteq> set rs \<and> dom (memory b) \<inter> spans rs \<subseteq> spans new)"
  using assms
proof (induction rs n ev b rule: punch_ranges.induct)
  case (1 n ev b)
  then show ?case by (auto simp: steady_def)
next
  case (2 off len rs n ev b)
  obtain k b1 where d: "discard off len b = (k, b1)" by (metis surj_pair)
  have v: "0 \<le> off" "0 < len" "off + len \<le> max_i64 - blockSize" using "2.prems"(3) by auto
  note s = discard_spec [OF "2.prems"(2) v d]
  have ok1: "buf_ok b1" using s by (simp add: steady_def)
  have rest: "\<forall>r \<in> set rs. 0 \<le> fst r \<and> 0 < snd r \<and> fst r + snd r \<le> max_i64 - blockSize" using "2.prems"(3) by simp
  have sp: "spans ((off, len) # rs) = {off..<off + len} \<union> spans rs" by simp
  have mem: "memory b1 |` (- spans rs) = memory b |` (- spans ((off, len) # rs))"
    using s by (auto simp: restrict_map_def)
  have f: "finite (dom (memory b))" by (simp add: memory_dom extent_bytes_def)
  show ?case
  proof (cases "k > 0")
    case True
    have run: "punch_ranges rs (n + k) (ev @ [(off, len)]) b1 = ((n', ev'), b')" using "2.prems"(1) d True by simp
    note ih = "2.IH"(1) [OF d [symmetric] True run ok1 rest]
    have "dom (memory b) \<inter> spans ((off, len) # rs) \<subseteq> spans ((off, len) # new)" if "dom (memory b1) \<inter> spans rs \<subseteq> spans new" for new
      using that s by auto
    then show ?thesis using ih s mem steady_trans by fastforce
  next
    case False
    then have k0: "k = 0" using s by linarith
    have "dom (memory b1) = dom (memory b)"
      using s k0 f by (intro card_subset_eq) auto
    then have gone: "dom (memory b) \<inter> {off..<off + len} = {}" using s by auto
    have run: "punch_ranges rs n ev b1 = ((n', ev'), b')" using "2.prems"(1) d False by simp
    note ih = "2.IH"(2) [OF d [symmetric] False run ok1 rest]
    have "dom (memory b) \<inter> spans ((off, len) # rs) \<subseteq> spans new" if "dom (memory b1) \<inter> spans rs \<subseteq> spans new" for new
      using that gone \<open>dom (memory b1) = dom (memory b)\<close> by auto
    then show ?thesis using ih s mem steady_trans k0 by fastforce
  qed
qed

text \<open>The backstop removes what is present more than the window behind the read head, reports how much that was, and tells
  the owner of every byte that it took away.\<close>

lemma punchBehindWindow_spec:
  assumes run: "punchBehindWindow w b = ((n, ev), b')" and ok: "buf_ok b" and h: "readHead b - w \<le> max_i64 - blockSize"
  defines "gone \<equiv> (if readHead b \<le> 0 then {} else {0..<readHead b - w})"
  shows "steady b b' \<and> memory b' = memory b |` (- gone) \<and> n = int (card (dom (memory b) \<inter> gone)) \<and>
    dom (memory b) \<inter> gone \<subseteq> spans ev \<and> spans ev \<subseteq> gone"
proof -
  obtain n1 ev1 b1 where p: "punch_ranges (punch_plan w b) 0 [] b = ((n1, ev1), b1)" by (metis surj_pair)
  have ex: "extents_ok (ranges b)" using coherentD(1) [OF buf_okD(2) [OF ok]] .
  have plan: "\<forall>r \<in> set (punch_plan w b). 0 \<le> fst r \<and> 0 < snd r \<and> fst r + snd r \<le> readHead b - w"
    "spans (punch_plan w b) = dom (memory b) \<inter> gone"
    using presentRanges_ranges [OF ex, of 0 "readHead b - w"] presentRanges_cover [OF ex, of 0 "readHead b - w"] h buf_okD(1) [OF ok]
    by (auto simp: punch_plan_def gone_def memory_dom)
  note s = punch_ranges_spec [OF p ok]
  have "\<forall>r \<in> set (punch_plan w b). 0 \<le> fst r \<and> 0 < snd r \<and> fst r + snd r \<le> max_i64 - blockSize" using plan(1) h by force
  note s = s [OF this, unfolded plan(2)]
  have m: "memory b1 = memory b |` (- gone)" using s by (auto simp: restrict_map_def fun_eq_iff dom_def)
  have f: "finite (dom (memory b))" by (simp add: memory_dom extent_bytes_def)
  have "dom (memory b1) = dom (memory b) - dom (memory b) \<inter> gone" by (auto simp: m)
  then have "int (card (dom (memory b1))) = int (card (dom (memory b))) - int (card (dom (memory b) \<inter> gone))"
    using f by (simp add: card_Diff_subset of_nat_diff card_mono)
  moreover have "n1 = 0 + int (card (dom (memory b))) - int (card (dom (memory b1)))" using s by blast
  ultimately have n1: "n1 = int (card (dom (memory b) \<inter> gone))" by linarith
  have "spans ev1 \<subseteq> spans (punch_plan w b)" using s by (auto simp: cover_def)
  then have ev: "dom (memory b) \<inter> gone \<subseteq> spans ev1" "spans ev1 \<subseteq> gone" using s plan(2) by auto
  have "n = n1" "ev = ev1" "steady b1 b'" "memory b' = memory b1"
    using run p s by (auto simp: punchBehindWindow_def steady_def buf_ok_def counts_ok_def foreign_def memory_def split: if_splits)
  then show ?thesis using steady_trans [OF conjunct1 [OF s]] m n1 ev by simp
qed

section \<open>Flushing\<close>

text \<open>Bytes of the file that hold the array.\<close>

definition on_file :: "buffer \<Rightarrow> bool" where
  "on_file b \<longleftrightarrow> (\<forall>x v. memory b x = Some v \<longrightarrow> x < fsize (dfile b) \<and> content (dfile b) x = v)"

lemma clean_on_file:
  assumes c: "buf_coherent b" and clean: "\<And>k blk. blocks b k = Some blk \<Longrightarrow> dirty blk = []"
  shows "on_file b"
  unfolding on_file_def
proof (intro allI impI)
  fix x v assume m: "memory b x = Some v"
  then have x: "x \<in> extent_bytes (ranges b)" using memory_dom [of b] by blast
  have "copy_ok (dfile b) (blocks b) (onDisk b) x" using coherentD(6) [OF c x] .
  then have "x \<in> extent_bytes (onDisk b) \<and> content (dfile b) x = v"
    using m x clean [of "alignDown x"] by (auto simp: copy_ok_def memory_def mem_of_def split: option.splits)
  then show "x < fsize (dfile b) \<and> content (dfile b) x = v" using coherentD(4) [OF c] by blast
qed

lemma flushAll_spec:
  assumes "flushAllLocked order b = (err, b')" "buf_ok b"
  shows "kept b b' \<and> (faults b = [] \<longrightarrow> err = None) \<and> dom (blocks b') = dom (blocks b) \<and>
    (err = None \<longrightarrow> (\<forall>k blk. blocks b' k = Some blk \<longrightarrow> dirty blk = [] \<or> k \<notin> set order \<and> blocks b k = Some blk))"
  using assms
proof (induction order b rule: flushAllLocked.induct)
  case (1 b)
  then show ?case by (auto simp: kept_refl)
next
  case (2 off offs b)
  show ?case
  proof (cases "blocks b off")
    case None
    then have "flushAllLocked offs b = (err, b')" using "2.prems"(1) by simp
    from "2.IH"(1) [OF None this "2.prems"(2)] None show ?thesis by fastforce
  next
    case (Some blk)
    obtain err1 b1 where f: "flushBlockLocked off blk b = (err1, b1)" by (metis surj_pair)
    note fl = flushBlock_spec [OF f "2.prems"(2) Some]
    show ?thesis
    proof (cases err1)
      case e: (Some x)
      then show ?thesis using "2.prems"(1) Some f fl by auto
    next
      case None
      then have run: "flushAllLocked offs b1 = (err, b')" using "2.prems"(1) Some f by simp
      have ok1: "buf_ok b1" using fl kept_ok by blast
      have bl: "blocks b1 = (blocks b)(off \<mapsto> blk\<lparr>dirty := []\<rparr>)" using fl None by simp
      note ih = "2.IH"(2) [OF Some f [symmetric] None run ok1]
      have "dirty c = [] \<or> k \<notin> set (off # offs) \<and> blocks b k = Some c" if "err = None" "blocks b' k = Some c" for k c
      proof -
        have "dirty c = [] \<or> k \<notin> set offs \<and> blocks b1 k = Some c" using ih that by blast
        then show ?thesis unfolding bl by (auto split: if_splits)
      qed
      then show ?thesis using ih fl bl Some kept_trans [of b b1 b'] by (auto simp: kept_def)
    qed
  qed
qed

text \<open>After a successful flush over all blocks the file alone holds the array.\<close>

lemma Flush_spec:
  assumes "Flush order b = (err, b')" "buf_ok b"
  shows "kept b b' \<and> (faults b = [] \<longrightarrow> err = None) \<and> (err = None \<and> dom (blocks b) \<subseteq> set order \<longrightarrow> on_file b')"
proof -
  have "flushAllLocked order b = (err, b')" using assms buf_okD(1) [OF assms(2)] by (simp add: Flush_def)
  note f = flushAll_spec [OF this assms(2)]
  have "on_file b'" if "err = None" "dom (blocks b) \<subseteq> set order"
  proof (rule clean_on_file)
    show "buf_coherent b'" using f kept_ok buf_okD(2) by blast
    show "dirty blk = []" if "blocks b' k = Some blk" for k blk using f that \<open>err = None\<close> \<open>dom (blocks b) \<subseteq> set order\<close> by blast
  qed
  then show ?thesis using f by blast
qed

lemma Sync_spec:
  assumes "Sync order b = (err, b')" "buf_ok b"
  shows "kept b b' \<and> (faults b = [] \<longrightarrow> err = None) \<and> (err = None \<and> dom (blocks b) \<subseteq> set order \<longrightarrow> on_file b')"
proof -
  obtain err1 b1 where f: "flushAllLocked order b = (err1, b1)" by (metis surj_pair)
  have "Flush order b = (err1, b1)" using f buf_okD(1) [OF assms(2)] by (simp add: Flush_def)
  note fl = Flush_spec [OF this assms(2)]
  show ?thesis
  proof (cases err1)
    case None
    then have "b' = b1\<lparr>faults := tl (faults b1)\<rparr>" "err = (if io_now b1 = Fine then None else Some ErrIO)"
      using assms(1) f buf_okD(1) [OF assms(2)] by (auto simp: Sync_def)
    moreover have "kept b1 (b1\<lparr>faults := tl (faults b1)\<rparr>)" using fl kept_ok pop_fault_kept by blast
    moreover have "faults b = [] \<Longrightarrow> io_now b1 = Fine" using fl by (simp add: kept_def io_now_def)
    moreover have "on_file (b1\<lparr>faults := tl (faults b1)\<rparr>) = on_file b1" by (simp add: on_file_def memory_def)
    ultimately show ?thesis using fl None kept_trans by metis
  next
    case (Some e)
    then show ?thesis using assms(1) f buf_okD(1) [OF assms(2)] fl by (auto simp: Sync_def)
  qed
qed

section \<open>Closing\<close>

lemma flush_extents_books: "same_books b (snd (flush_extents off d es b))"
proof (induction es arbitrary: b)
  case (Cons e es)
  obtain lo hi where "e = (lo, hi)" by (cases e)
  then show ?case using Cons by (auto simp: Let_def file_WriteAt_def same_books_def)
qed (simp add: same_books_def)

lemma flushBlock_books: "same_books b (snd (flushBlockLocked off blk b))"
  using flush_extents_books [of b off "data blk" "dirty blk"]
  by (cases "flush_extents off (data blk) (dirty blk) b") (auto simp: flushBlockLocked_def same_books_def split: option.split)

lemma close_blocks_books: "same_books b (close_blocks order b)"
proof (induction order b rule: close_blocks.induct)
  case (2 off offs b)
  show ?case
  proof (cases "blocks b off")
    case (Some blk)
    have "same_books b (if isClean blk then b else snd (flushBlockLocked off blk b))"
      using flushBlock_books by (simp add: same_books_def)
    then show ?thesis using "2.IH"(2) [OF Some refl] Some by (simp add: Let_def same_books_def)
  qed (use "2.IH"(1) in simp)
qed (simp add: same_books_def)

lemma close_blocks_file:
  assumes "buf_coherent b" "faults b = []"
  shows "buf_coherent (close_blocks order b) \<and> memory (close_blocks order b) = memory b \<and>
    (\<forall>k \<in> dom (blocks (close_blocks order b)). k \<in> dom (blocks b) \<and> k \<notin> set order)"
  using assms
proof (induction order b rule: close_blocks.induct)
  case (2 off offs b)
  show ?case
  proof (cases "blocks b off")
    case None
    then show ?thesis using "2.IH"(1) [OF None "2.prems"] by auto
  next
    case (Some blk)
    let ?b1 = "if isClean blk then b else snd (flushBlockLocked off blk b)"
    obtain err b1 where f: "flushBlockLocked off blk b = (err, b1)" by (metis surj_pair)
    note fl = flushBlock_coherent [OF f "2.prems"(1) Some]
    have f1: "buf_coherent b1" "memory b1 = memory b" "faults b1 = []" "blocks b1 = (blocks b)(off \<mapsto> blk\<lparr>dirty := []\<rparr>)"
      using fl "2.prems"(2) unfolding same_books_def by metis+
    obtain c where c: "blocks ?b1 off = Some c" "dirty c = []" "buf_coherent ?b1" "memory ?b1 = memory b" "faults ?b1 = []"
      "dom (blocks ?b1) = dom (blocks b)"
    proof (cases "isClean blk")
      case True
      then show ?thesis using that [of blk] Some "2.prems" by (simp add: isClean_def)
    next
      case False
      have "dom (blocks b1) = dom (blocks b)" using f1(4) Some by auto
      then show ?thesis using that [of "blk\<lparr>dirty := []\<rparr>"] False f f1 by simp
    qed
    note d = coherent_drop [OF c(3,1,2)]
    let ?b2 = "?b1\<lparr>blocks := (blocks ?b1)(off := None)\<rparr>"
    have b2: "buf_coherent ?b2" "faults ?b2 = []" "memory ?b2 = memory b" "dom (blocks ?b2) = dom (blocks b) - {off}"
      using d c by (simp_all add: memory_def)
    have run: "close_blocks (off # offs) b = close_blocks offs ?b2" using Some by (simp add: Let_def)
    note ih = "2.IH"(2) [OF Some refl b2(1,2), unfolded b2(3,4)]
    show ?thesis unfolding run using ih by (metis Diff_iff insert_iff list.set(2) singletonI)
  qed
qed simp

text \<open>Closing returns exactly the buffer's share to the pool, whatever fails on the way; when nothing does, the file holds
  the array.\<close>

lemma Close_spec:
  assumes run: "Buffer_Close order b = (err, b')" and ok: "buf_ok b"
  shows "buf_closed b' \<and> memInUse (pool b') = fst (foreign b) \<and> diskInUse (pool b') = snd (foreign b) \<and>
    (faults b = [] \<and> dom (blocks b) \<subseteq> set order \<longrightarrow>
       err = None \<and> (\<forall>x v. memory b x = Some v \<longrightarrow> x < fsize (dfile b') \<and> content (dfile b') x = v))"
proof -
  let ?b0 = "b\<lparr>buf_closed := True\<rparr>"
  let ?b1 = "close_blocks order ?b0"
  have sb: "same_books ?b0 ?b1" by (rule close_blocks_books)
  have r: "err = (if io_now ?b1 = Fine then None else Some ErrIO)" "dfile b' = dfile ?b1" "buf_closed b' = buf_closed ?b1"
    "memInUse (pool b') = memInUse (pool ?b1) - (if bytesInRAM ?b1 > 0 then bytesInRAM ?b1 else 0)"
    "diskInUse (pool b') = diskInUse (pool ?b1) - (if diskBytes ?b1 > 0 then diskBytes ?b1 else 0)"
    using run buf_okD(1) [OF ok] by (auto simp: Buffer_Close_def Let_def io_now_def dropBytes_def subDisk_def)
  have nn: "0 \<le> bytesInRAM b" "0 \<le> diskBytes b" using buf_okD(4) [OF ok] by (auto simp: counts_ok_def)
  have acc: "buf_closed b'" "memInUse (pool b') = fst (foreign b)" "diskInUse (pool b') = snd (foreign b)"
    using sb r nn by (auto simp: same_books_def foreign_def)
  have "err = None \<and> (\<forall>x v. memory b x = Some v \<longrightarrow> x < fsize (dfile b') \<and> content (dfile b') x = v)"
    if a: "faults b = []" "dom (blocks b) \<subseteq> set order"
  proof -
    have "buf_coherent ?b0" "faults ?b0 = []" "memory ?b0 = memory b" using buf_okD(2) [OF ok] a by (simp_all add: memory_def)
    note cl = close_blocks_file [OF this(1,2), of order] and m = this(3)
    have "dom (blocks ?b1) = {}" using cl a(2) unfolding ball_simps by fastforce
    then have "on_file ?b1" using cl by (intro clean_on_file) auto
    moreover have "io_now ?b1 = Fine" using sb a by (simp add: same_books_def io_now_def)
    ultimately show ?thesis using cl m r by (simp add: on_file_def)
  qed
  then show ?thesis using acc by blast
qed

section \<open>Opening\<close>

definition opened_file :: "buf_config \<Rightarrow> disk_file \<Rightarrow> disk_file" where
  "opened_file cfg f = (if TotalSize cfg > 0 then file_Truncate (TotalSize cfg) f else f)"

lemma seed_ranges_spec:
  assumes "coherent (dfile b) (\<lambda>_. None) (ranges b) (onDisk b)" "blocks b = (\<lambda>_. None)" "ranges b = onDisk b" "diskBytes b = int (card (extent_bytes (ranges b)))"
    "\<forall>r \<in> set rs. 0 < snd r \<longrightarrow> 0 \<le> fst r \<and> fst r + snd r \<le> fsize (dfile b)" "fsize (dfile b) \<le> max_i64"
  defines "b' \<equiv> fold seed_range rs b"
  shows "coherent (dfile b) (\<lambda>_. None) (ranges b') (onDisk b') \<and> blocks b' = (\<lambda>_. None) \<and> diskBytes b' = int (card (extent_bytes (ranges b'))) \<and>
    extent_bytes (ranges b') = extent_bytes (ranges b) \<union> spans rs \<and> dfile b' = dfile b \<and> lru b' = lru b \<and> bytesInRAM b' = bytesInRAM b \<and>
    maxBytes b' = maxBytes b \<and> buf_closed b' = buf_closed b \<and> states b' = states b \<and> foreign b' = foreign b"
  using assms(1-6) unfolding b'_def
proof (induction rs arbitrary: b)
  case (Cons r rs)
  show ?case
  proof (cases "0 < snd r")
    case False
    then have skip: "fold seed_range (r # rs) b = fold seed_range rs b" "spans (r # rs) = spans rs" by (cases r; simp add: seed_range_def)+
    have rest: "\<forall>r \<in> set rs. 0 < snd r \<longrightarrow> 0 \<le> fst r \<and> fst r + snd r \<le> fsize (dfile b)" using Cons.prems(5) by simp
    show ?thesis unfolding skip by (rule Cons.IH [OF Cons.prems(1-4) rest Cons.prems(6)])
  next
    case True
    let ?b = "seed_range r b"
    have v: "valid_range (fst r) (snd r)" using Cons.prems(5,6) True by auto
    note ex = coherentD(1) [OF Cons.prems(1)]
    have i: "extents_ok (snd (insert_extent (ranges b) (fst r) (snd r)))"
      "extent_bytes (snd (insert_extent (ranges b) (fst r) (snd r))) = extent_bytes (ranges b) \<union> {fst r..<fst r + snd r}"
      using insert_bytes [OF ex v] by simp_all
    have f: "dfile ?b = dfile b" "blocks ?b = blocks b" "ranges ?b = snd (insert_extent (ranges b) (fst r) (snd r))" "onDisk ?b = ranges ?b"
      "lru ?b = lru b" "bytesInRAM ?b = bytesInRAM b" "maxBytes ?b = maxBytes b" "buf_closed ?b = buf_closed b" "states ?b = states b"
      "foreign ?b = foreign b" "diskBytes ?b = int (card (extent_bytes (ranges ?b)))"
      using True Cons.prems(3,4) rangesInsert_disk [OF ex v] by (simp_all add: seed_range_def Let_def foreign_def)
    have "x < fsize (dfile b)" if "x \<in> extent_bytes (ranges ?b)" for x
      using that i(2) f(3) coherentD(4) [OF Cons.prems(1), of x] Cons.prems(3,5) True by auto
    then have c: "coherent (dfile ?b) (\<lambda>_. None) (ranges ?b) (onDisk ?b)" using i(1) f by (simp add: coherent_def copy_ok_def)
    have sp: "extent_bytes (ranges b) \<union> spans (r # rs) = extent_bytes (ranges ?b) \<union> spans rs"
      unfolding f(3) i(2) by (cases r) (simp add: Un_assoc)
    have run: "fold seed_range (r # rs) b = fold seed_range rs ?b" by simp
    show ?thesis unfolding sp run using Cons.IH [OF c] f Cons.prems(2,5,6) by simp
  qed
qed simp

lemma seed_slots:
  assumes "extents_ok (ranges b)" "blocks b = (\<lambda>_. None)" "states b = Some (replicate n False)" "int n * blockSize \<le> max_i64"
  shows "slots_ok (blocks b) (ranges b) (states (seed_states b))"
  unfolding slots_ok_def
proof (intro allI impI)
  fix ss i assume a: "states (seed_states b) = Some ss" "i < length ss" "ss ! i"
  have "i < n" "present (ranges b) (int i * blockSize) blockSize"
    using a assms(3) by (auto simp: seed_states_def push_bit_eq_mult)
  moreover from this have "int i * blockSize + blockSize \<le> max_i64" using assms(4) by auto
  ultimately show "blocks b (int i * blockSize) = None \<and> {int i * blockSize..<int i * blockSize + blockSize} \<subseteq> extent_bytes (ranges b)"
    using present_block [OF assms(1), of "int i * blockSize"] assms(2) by simp
qed

lemma memory_size_least: "blockSize \<le> memory_size cfg"
  by (simp add: memory_size_def Let_def)

lemma newBuffer_spec:
  assumes n: "newBuffer cfg punches (Some f) io p = Inr b"
    and seeds: "\<forall>r \<in> set (InitialRanges cfg). 0 < snd r \<longrightarrow> 0 \<le> fst r \<and> fst r + snd r \<le> fsize (opened_file cfg f)"
    and sz: "fsize (opened_file cfg f) \<le> max_i64 - blockSize"
  shows "buf_ok b \<and> foreign b = (memInUse p, diskInUse p) \<and>
    memory b = (\<lambda>x. if x \<in> spans (InitialRanges cfg) then Some (content (opened_file cfg f) x) else None)"
proof -
  define b0 where "b0 = size_file (TotalSize cfg) (blank_buffer cfg punches f io p)"
  have bb: "b = seed_states (fold seed_range (InitialRanges cfg) b0)"
    using n by (simp add: newBuffer_def Let_def b0_def split: if_splits)
  have b0: "dfile b0 = opened_file cfg f" "blocks b0 = (\<lambda>_. None)"
    "lru b0 = []" "bytesInRAM b0 = 0" "maxBytes b0 = memory_size cfg" "ranges b0 = newRangeSet" "onDisk b0 = newRangeSet" "diskBytes b0 = 0"
    "\<not> buf_closed b0" "pool b0 = p"
    "states b0 = (if TotalSize cfg > 0 then Some (replicate (nat ((TotalSize cfg + blockSize - 1) div blockSize)) False) else None)"
    by (simp_all add: opened_file_def b0_def size_file_def blank_buffer_def)
  have e: "extents_ok newRangeSet" "extent_bytes newRangeSet = {}" by (simp_all add: newRangeSet_def extents_ok_def extent_bytes_def)
  have c0: "coherent (dfile b0) (\<lambda>_. None) (ranges b0) (onDisk b0)" by (simp add: coherent_def b0 e)
  let ?b1 = "fold seed_range (InitialRanges cfg) b0"
  have s: "coherent (dfile b0) (\<lambda>_. None) (ranges ?b1) (onDisk ?b1) \<and> blocks ?b1 = (\<lambda>_. None) \<and> diskBytes ?b1 = int (card (extent_bytes (ranges ?b1))) \<and>
    extent_bytes (ranges ?b1) = extent_bytes (ranges b0) \<union> spans (InitialRanges cfg) \<and> dfile ?b1 = dfile b0 \<and> lru ?b1 = lru b0 \<and> bytesInRAM ?b1 = bytesInRAM b0 \<and>
    maxBytes ?b1 = maxBytes b0 \<and> buf_closed ?b1 = buf_closed b0 \<and> states ?b1 = states b0 \<and> foreign ?b1 = foreign b0"
    using sz seeds b0 e by (intro seed_ranges_spec [OF c0]) auto
  have sl: "slots_ok (blocks ?b1) (ranges ?b1) (states (seed_states ?b1))"
  proof (cases "TotalSize cfg > 0")
    case False
    then show ?thesis using s b0 by (simp add: slots_ok_def seed_states_def)
  next
    case True
    let ?n = "nat ((TotalSize cfg + blockSize - 1) div blockSize)"
    have "TotalSize cfg \<le> max_i64 - blockSize" using sz True by (simp add: opened_file_def file_Truncate_def)
    moreover have "(TotalSize cfg + blockSize - 1) div blockSize * blockSize \<le> TotalSize cfg + blockSize - 1"
      by (simp add: minus_mod_eq_div_mult [symmetric])
    ultimately have "int ?n * blockSize \<le> max_i64" using True by simp
    then show ?thesis using s b0 True by (intro seed_slots) (auto simp: coherent_def)
  qed
  have b: "blocks b = blocks ?b1" "ranges b = ranges ?b1" "dfile b = dfile ?b1" "onDisk b = onDisk ?b1" "lru b = lru ?b1"
    "bytesInRAM b = bytesInRAM ?b1" "maxBytes b = maxBytes ?b1" "buf_closed b = buf_closed ?b1" "foreign b = foreign ?b1" "diskBytes b = diskBytes ?b1"
    "states b = states (seed_states ?b1)" by (simp_all add: bb seed_states_def foreign_def)
  have "buf_ok b" using s sl b0 memory_size_least [of cfg] by (simp add: buf_ok_def counts_ok_def b)
  moreover have "foreign b0 = (memInUse p, diskInUse p)" by (simp add: foreign_def b0)
  then have "foreign b = (memInUse p, diskInUse p)" unfolding b(9) using s by simp
  moreover have "memory b = (\<lambda>x. if x \<in> spans (InitialRanges cfg) then Some (content (opened_file cfg f) x) else None)"
    using s b0 e by (auto simp: memory_def mem_of_def b)
  ultimately show ?thesis by blast
qed

end
