(* ===== verification/Buffer_Refinement.thy ===== *)
theory Buffer_Refinement
  imports Buffer_Life Transition
begin

text \<open>
  The buffer as an implementation of a sparse byte array with a read head. The abstract system has the operations
  of the buffer, with their results, on the array alone; blocks, files, budgets and failing system calls
  are not part of it. Every run of the buffer is a run of the array.
\<close>

section \<open>The two systems\<close>

datatype buf_op = Op_WriteAt "byte list" int | Op_ReadAt int int | Op_Discard int int | Op_punchBehindWindow int
  | Op_Flush "int list" | Op_Sync "int list" | Op_SetReadHead int | Op_DropBehind int int | Op_HasRange int int | Op_Present int int

datatype buf_res = Wrote int "buf_error option" | Got "byte list" "buf_error option" | Done "buf_error option"
  | Punched int "(int \<times> int) list" | Holds bool | Parts "(int \<times> int) list"

fun run_buf_op :: "buf_op \<Rightarrow> buffer \<Rightarrow> buf_res \<times> buffer" where
  "run_buf_op (Op_WriteAt p off) b = (case WriteAt p off b of ((n, err), b) \<Rightarrow> (Wrote n err, b))"
| "run_buf_op (Op_ReadAt n off) b = (case ReadAt n off b of ((bs, err), b) \<Rightarrow> (Got bs err, b))"
| "run_buf_op (Op_Discard off len) b = (case Discard off len b of (err, b) \<Rightarrow> (Done err, b))"
| "run_buf_op (Op_punchBehindWindow w) b = (case punchBehindWindow w b of ((n, ev), b) \<Rightarrow> (Punched n ev, b))"
| "run_buf_op (Op_Flush order) b = (case Flush order b of (err, b) \<Rightarrow> (Done err, b))"
| "run_buf_op (Op_Sync order) b = (case Sync order b of (err, b) \<Rightarrow> (Done err, b))"
| "run_buf_op (Op_SetReadHead off) b = (Done None, SetReadHead off b)"
| "run_buf_op (Op_DropBehind off margin) b = (Done None, DropBehind off margin b)"
| "run_buf_op (Op_HasRange off len) b = (Holds (HasRange off len b), b)"
| "run_buf_op (Op_Present off len) b = (Parts (Buffer_Present off len b), b)"

text \<open>The arguments the theorems speak of: offsets at least one block below the largest 64-bit integer.\<close>

fun args_ok :: "buf_op \<Rightarrow> bool" where
  "args_ok (Op_WriteAt p off) \<longleftrightarrow> off + int (length p) \<le> max_i64 - blockSize"
| "args_ok (Op_ReadAt n off) \<longleftrightarrow> 0 \<le> n \<and> off + n \<le> max_i64"
| "args_ok (Op_Discard off len) \<longleftrightarrow> off + len \<le> max_i64 - blockSize"
| "args_ok (Op_SetReadHead off) \<longleftrightarrow> off \<le> max_i64 - blockSize"
| "args_ok (Op_punchBehindWindow w) \<longleftrightarrow> 0 \<le> w"
| "args_ok (Op_HasRange off len) \<longleftrightarrow> 0 \<le> off \<and> off + len \<le> max_i64"
| "args_ok (Op_Present off len) \<longleftrightarrow> 0 \<le> off \<and> off + len \<le> max_i64"
| "args_ok _ \<longleftrightarrow> True"

definition buf_step :: "buf_op \<times> buf_res \<Rightarrow> buffer \<Rightarrow> buffer \<Rightarrow> bool" where
  "buf_step l b b' \<longleftrightarrow> args_ok (fst l) \<and> run_buf_op (fst l) b = (snd l, b')"

type_synonym array_state = "(int \<rightharpoonup> byte) \<times> int"

definition reads :: "(int \<rightharpoonup> byte) \<Rightarrow> int \<Rightarrow> int \<Rightarrow> byte list" where
  "reads m off n = map (\<lambda>x. the (m x)) [off..off + n - 1]"

text \<open>What the array allows each operation to return and to do.\<close>

fun array_step :: "buf_op \<times> buf_res \<Rightarrow> array_state \<Rightarrow> array_state \<Rightarrow> bool" where
  "array_step (Op_WriteAt p off, Wrote n err) (m, h) (m', h') \<longleftrightarrow> h' = h \<and>
     (if off < 0 \<and> p \<noteq> [] then n = 0 \<and> err = Some ErrOutOfRange \<and> m' = m
      else if err = None then n = int (length p) \<and> m' = wrote p off n m
      else 0 \<le> n \<and> n < int (length p) \<and> torn (wrote p off n m) (off + n) (int (length p) - n) (\<lambda>i. p ! nat (n + i)) m')"
| "array_step (Op_ReadAt n off, Got bs err) (m, h) (m', h') \<longleftrightarrow> h' = h \<and> m' = m \<and>
     (if n = 0 then bs = [] \<and> err = None
      else if off < 0 then bs = [] \<and> err = Some ErrOutOfRange
      else if \<not> {off..<off + n} \<subseteq> dom m then bs = [] \<and> err = Some ErrNotPresent
      else if err = None then bs = reads m off n
      else err = Some ErrIO \<and> (\<exists>k. 0 \<le> k \<and> k < n \<and> bs = reads m off k))"
| "array_step (Op_Discard off len, Done err) (m, h) (m', h') \<longleftrightarrow> h' = h \<and>
     (if len \<noteq> 0 \<and> (off < 0 \<or> len < 0) then err = Some ErrOutOfRange \<and> m' = m
      else err = None \<and> m' = m |` (- {off..<off + len}))"
| "array_step (Op_punchBehindWindow w, Punched n ev) (m, h) (m', h') \<longleftrightarrow> h' = h \<and>
     (let gone = (if h \<le> 0 then {} else {0..<h - w})
      in m' = m |` (- gone) \<and> n = int (card (dom m \<inter> gone)) \<and> dom m \<inter> gone \<subseteq> spans ev \<and> spans ev \<subseteq> gone)"
| "array_step (Op_Flush _, Done err) (m, h) (m', h') \<longleftrightarrow> h' = h \<and> m' = m"
| "array_step (Op_Sync _, Done err) (m, h) (m', h') \<longleftrightarrow> h' = h \<and> m' = m"
| "array_step (Op_SetReadHead off, Done err) (m, h) (m', h') \<longleftrightarrow> err = None \<and> m' = m \<and> h' = max off 0"
| "array_step (Op_DropBehind _ _, Done err) (m, h) (m', h') \<longleftrightarrow> err = None \<and> h' = h \<and> m' = m"
| "array_step (Op_HasRange off len, Holds r) (m, h) (m', h') \<longleftrightarrow> h' = h \<and> m' = m \<and> r = (0 < len \<and> {off..<off + len} \<subseteq> dom m)"
| "array_step (Op_Present off len, Parts rs) (m, h) (m', h') \<longleftrightarrow> h' = h \<and> m' = m \<and> spans rs = dom m \<inter> {off..<off + len}"
| "array_step _ _ _ \<longleftrightarrow> False"

definition abs_buffer :: "buffer \<Rightarrow> array_state" where
  "abs_buffer b = (memory b, readHead b)"

text \<open>A buffer that has been opened for a pool that has the given bytes in use elsewhere.\<close>

definition buf_init :: "int \<times> int \<Rightarrow> buffer \<Rightarrow> bool" where
  "buf_init others b \<longleftrightarrow> (\<exists>cfg punches f io p. newBuffer cfg punches (Some f) io p = Inr b \<and> others = (memInUse p, diskInUse p) \<and>
     fsize (opened_file cfg f) \<le> max_i64 - blockSize \<and>
     (\<forall>r \<in> set (InitialRanges cfg). 0 < snd r \<longrightarrow> 0 \<le> fst r \<and> fst r + snd r \<le> fsize (opened_file cfg f)))"

definition buf_inv :: "int \<times> int \<Rightarrow> buffer \<Rightarrow> bool" where
  "buf_inv others b \<longleftrightarrow> buf_ok b \<and> foreign b = others \<and> readHead b \<le> max_i64 - blockSize"

section \<open>Every step\<close>

lemma readHead_newBuffer: "newBuffer cfg punches (Some f) io p = Inr b \<Longrightarrow> readHead b = 0"
proof -
  have "readHead (fold seed_range rs b) = readHead b" for rs b
    by (induction rs arbitrary: b) (simp_all add: seed_range_def Let_def)
  then show "newBuffer cfg punches (Some f) io p = Inr b \<Longrightarrow> readHead b = 0"
    by (auto simp: newBuffer_def Let_def seed_states_def size_file_def blank_buffer_def split: if_splits)
qed

lemma buf_invD: "buf_inv others b \<Longrightarrow> buf_ok b" "buf_inv others b \<Longrightarrow> readHead b \<le> max_i64 - blockSize"
  by (simp_all add: buf_inv_def)

lemma steady_inv: "steady b b' \<Longrightarrow> buf_inv others b \<Longrightarrow> buf_inv others b'"
  by (simp add: steady_def buf_inv_def)

lemma kept_inv: "kept b b' \<Longrightarrow> buf_inv others b \<Longrightarrow> buf_inv others b'"
  using steady_inv kept_steady by blast

lemma abs_steady: "steady b b' \<Longrightarrow> abs_buffer b' = (memory b', readHead b)"
  by (simp add: steady_def abs_buffer_def)

lemma abs_kept: "kept b b' \<Longrightarrow> abs_buffer b' = abs_buffer b"
  by (simp add: kept_def abs_buffer_def)

lemma step_write:
  assumes "buf_inv others b" "buf_step (Op_WriteAt p off, r) b b'"
  shows "buf_inv others b' \<and> array_step (Op_WriteAt p off, r) (abs_buffer b) (abs_buffer b')"
proof -
  obtain n err where w: "WriteAt p off b = ((n, err), b')" "r = Wrote n err"
    using assms(2) by (auto simp: buf_step_def split: prod.splits)
  note ok = buf_invD(1) [OF assms(1)]
  show ?thesis
  proof (cases "off < 0 \<and> p \<noteq> []")
    case True
    then show ?thesis using w assms(1) buf_okD(1) [OF ok] by (auto simp: WriteAt_def abs_buffer_def)
  next
    case False
    have "steady b b' \<and> (faults b = [] \<longrightarrow> err = None) \<and>
        (err = None \<longrightarrow> n = int (length p) \<and> memory b' = wrote p off n (memory b)) \<and>
        (err \<noteq> None \<longrightarrow> 0 \<le> n \<and> n < int (length p) \<and>
          torn (wrote p off n (memory b)) (off + n) (int (length p) - n) (\<lambda>i. p ! nat (n + i)) (memory b'))"
    proof (cases "p = []")
      case True
      then show ?thesis using w ok buf_okD(1) [OF ok] by (auto simp: WriteAt_def steady_def)
    next
      case p: False
      then show ?thesis using WriteAt_spec [OF w(1) ok] False assms(2) by (simp add: buf_step_def)
    qed
    then show ?thesis using False steady_inv [OF _ assms(1)] abs_steady by (auto simp: w(2) abs_buffer_def)
  qed
qed

lemma step_read:
  assumes "buf_inv others b" "buf_step (Op_ReadAt n off, r) b b'"
  shows "buf_inv others b' \<and> array_step (Op_ReadAt n off, r) (abs_buffer b) (abs_buffer b')"
proof -
  obtain bs err where w: "ReadAt n off b = ((bs, err), b')" "r = Got bs err" and n: "0 \<le> n" "off + n \<le> max_i64"
    using assms(2) by (auto simp: buf_step_def split: prod.splits)
  note ok = buf_invD(1) [OF assms(1)]
  show ?thesis
  proof (cases "n = 0 \<or> off < 0")
    case True
    then have "b' = b" "bs = []" "err = (if n = 0 then None else Some ErrOutOfRange)"
      using w buf_okD(1) [OF ok] by (auto simp: ReadAt_def split: if_splits)
    then show ?thesis using True w(2) assms(1) by (auto simp: abs_buffer_def)
  next
    case False
    have "stretch b off (off + k) = reads (memory b) off k" for k by (simp add: stretch_def reads_def)
    then show ?thesis
      using ReadAt_spec [OF w(1) ok] False n kept_inv [OF _ assms(1)] abs_kept [of b b']
      by (auto simp: w(2) abs_buffer_def read_ok_def)
  qed
qed

lemma step_discard:
  assumes "buf_inv others b" "buf_step (Op_Discard off len, r) b b'"
  shows "buf_inv others b' \<and> array_step (Op_Discard off len, r) (abs_buffer b) (abs_buffer b')"
proof -
  obtain err where w: "Discard off len b = (err, b')" "r = Done err"
    using assms(2) by (auto simp: buf_step_def split: prod.splits)
  note ok = buf_invD(1) [OF assms(1)]
  show ?thesis
  proof (cases "len = 0 \<or> off < 0 \<or> len < 0")
    case True
    then show ?thesis using w assms(1) buf_okD(1) [OF ok] by (auto simp: Discard_def abs_buffer_def)
  next
    case False
    obtain k where d: "discard off len b = (k, b')" "err = None"
      using w(1) False buf_okD(1) [OF ok] by (cases "discard off len b") (auto simp: Discard_def)
    then show ?thesis
      using discard_spec [OF ok _ _ _ d(1)] False assms(2) steady_inv [OF _ assms(1)] abs_steady [of b b']
      by (auto simp: w(2) buf_step_def abs_buffer_def)
  qed
qed

lemma step_punch:
  assumes "buf_inv others b" "buf_step (Op_punchBehindWindow w, r) b b'"
  shows "buf_inv others b' \<and> array_step (Op_punchBehindWindow w, r) (abs_buffer b) (abs_buffer b')"
proof -
  obtain n ev where p: "punchBehindWindow w b = ((n, ev), b')" "r = Punched n ev" "0 \<le> w"
    using assms(2) by (auto simp: buf_step_def split: prod.splits)
  have "readHead b - w \<le> max_i64 - blockSize" using buf_invD(2) [OF assms(1)] p(3) by linarith
  from punchBehindWindow_spec [OF p(1) buf_invD(1) [OF assms(1)] this]
  show ?thesis using steady_inv [OF _ assms(1)] abs_steady [of b b'] by (simp add: p(2) abs_buffer_def Let_def)
qed

lemma DropBehind_kept: "buf_ok b \<Longrightarrow> kept b (DropBehind off margin b)"
  by (simp add: DropBehind_def kept_def buf_ok_def counts_ok_def memory_def foreign_def)

lemma step_other:
  assumes "buf_inv others b" "buf_step (op, r) b b'"
    "\<nexists>p off. op = Op_WriteAt p off" "\<nexists>n off. op = Op_ReadAt n off" "\<nexists>off len. op = Op_Discard off len" "\<nexists>w. op = Op_punchBehindWindow w"
  shows "buf_inv others b' \<and> array_step (op, r) (abs_buffer b) (abs_buffer b')"
proof -
  note ok = buf_invD(1) [OF assms(1)] and ex = coherentD(1) [OF buf_okD(2) [OF buf_invD(1) [OF assms(1)]]]
  show ?thesis
  proof (cases op)
    case (Op_Flush order)
    then show ?thesis
      using assms(2) Flush_spec [OF _ ok, of order] kept_inv [OF _ assms(1), of b'] abs_kept [of b b']
      by (auto simp: buf_step_def abs_buffer_def split: prod.splits)
  next
    case (Op_Sync order)
    then show ?thesis
      using assms(2) Sync_spec [OF _ ok, of order] kept_inv [OF _ assms(1), of b'] abs_kept [of b b']
      by (auto simp: buf_step_def abs_buffer_def split: prod.splits)
  next
    case (Op_SetReadHead off)
    then show ?thesis using assms(1,2)
      by (auto simp: buf_step_def SetReadHead_def abs_buffer_def buf_inv_def buf_ok_def counts_ok_def foreign_def memory_def)
  next
    case (Op_DropBehind off margin)
    then have "b' = DropBehind off margin b" "r = Done None" using assms(2) by (simp_all add: buf_step_def)
    then show ?thesis
      using Op_DropBehind kept_inv [OF DropBehind_kept [OF ok] assms(1)] abs_kept [OF DropBehind_kept [OF ok]] by (simp add: abs_buffer_def)
  next
    case (Op_HasRange off len)
    then show ?thesis using assms(1,2) buf_okD(1) [OF ok] present_iff [OF ex, of off len]
      by (auto simp: buf_step_def HasRange_def abs_buffer_def memory_dom)
  next
    case (Op_Present off len)
    then show ?thesis using assms(1,2) buf_okD(1) [OF ok] presentRanges_cover [OF ex, of off len]
      by (auto simp: buf_step_def Buffer_Present_def abs_buffer_def memory_dom)
  qed (use assms(3-) in auto)
qed

lemma buf_step_sim:
  assumes "buf_inv others b" "buf_step l b b'"
  shows "buf_inv others b' \<and> array_step l (abs_buffer b) (abs_buffer b')"
proof -
  obtain op r where l: "l = (op, r)" by (cases l)
  note s = assms(2) [unfolded l]
  show ?thesis unfolding l
  proof (cases op)
    case (Op_WriteAt p off)
    from s show "buf_inv others b' \<and> array_step (op, r) (abs_buffer b) (abs_buffer b')"
      unfolding Op_WriteAt by (rule step_write [OF assms(1)])
  next
    case (Op_ReadAt n off)
    from s show "buf_inv others b' \<and> array_step (op, r) (abs_buffer b) (abs_buffer b')"
      unfolding Op_ReadAt by (rule step_read [OF assms(1)])
  next
    case (Op_Discard off len)
    from s show "buf_inv others b' \<and> array_step (op, r) (abs_buffer b) (abs_buffer b')"
      unfolding Op_Discard by (rule step_discard [OF assms(1)])
  next
    case (Op_punchBehindWindow w)
    from s show "buf_inv others b' \<and> array_step (op, r) (abs_buffer b) (abs_buffer b')"
      unfolding Op_punchBehindWindow by (rule step_punch [OF assms(1)])
  qed (rule step_other [OF assms(1) s]; simp)+
qed

interpretation array_refinement: refinement "buf_init others" buf_step "buf_inv others" array_step abs_buffer
proof
  fix b assume "buf_init others b"
  then obtain cfg punches f io p where i: "newBuffer cfg punches (Some f) io p = Inr b" "others = (memInUse p, diskInUse p)"
     "fsize (opened_file cfg f) \<le> max_i64 - blockSize"
     "\<forall>r \<in> set (InitialRanges cfg). 0 < snd r \<longrightarrow> 0 \<le> fst r \<and> fst r + snd r \<le> fsize (opened_file cfg f)"
    by (auto simp: buf_init_def)
  then show "buf_inv others b" using newBuffer_spec [OF i(1,4,3)] readHead_newBuffer [OF i(1)] by (simp add: buf_inv_def)
qed (use buf_step_sim in blast)+

section \<open>Properties\<close>

text \<open>C2. Whatever system calls fail, every run of an opened buffer is a run of the byte array with the same results, its
  blocks stay within the memory ceiling, and the pool's counters are what others have in use plus the buffer's own
  bytes in memory and present.\<close>

theorem buffer_refines_array:
  assumes "buf_init others b" "trace buf_step b ls b'"
  shows "trace array_step (abs_buffer b) ls (abs_buffer b') \<and> bytesInRAM b' \<le> maxBytes b' \<and>
    memInUse (pool b') = fst others + bytesInRAM b' \<and> diskInUse (pool b') = snd others + int (card (dom (memory b')))"
proof -
  have i: "buf_inv others b" using array_refinement.init_inv [OF assms(1)] .
  then have "buf_inv others b'" using array_refinement.trace_inv [OF assms(2)] by blast
  then show ?thesis
    using array_refinement.trace_sim [OF assms(2) i] by (auto simp: buf_inv_def foreign_def buf_ok_def counts_ok_def memory_dom)
qed

definition sample_buffer :: buffer where
  "sample_buffer = seed_states (blank_buffer \<lparr>MemorySize = 0, TotalSize = 0, InitialRanges = []\<rparr> True \<lparr>content = (\<lambda>_. 0), fsize = 0\<rparr> []
     \<lparr>memBudget = 0, diskLimit = 0, memInUse = 7, diskInUse = 9, evictSig = False, poolPunches = 0, poolReclaimed = 0,
      statsWritten = 0, statsFlushedBytes = 0, statsWriteThroughBytes = 0, statsReleasedInRAM = 0\<rparr>)"

lemma sample_init: "buf_init (7, 9) sample_buffer"
  unfolding buf_init_def
  by (intro exI [of _ "\<lparr>MemorySize = 0, TotalSize = 0, InitialRanges = []\<rparr>"] exI [of _ True] exI [of _ "\<lparr>content = (\<lambda>_. 0), fsize = 0\<rparr>"] exI [of _ "[]"]
    exI [of _ "\<lparr>memBudget = 0, diskLimit = 0, memInUse = 7, diskInUse = 9, evictSig = False, poolPunches = 0, poolReclaimed = 0,
      statsWritten = 0, statsFlushedBytes = 0, statsWriteThroughBytes = 0, statsReleasedInRAM = 0\<rparr>"])
    (simp add: newBuffer_def sample_buffer_def opened_file_def size_file_def Let_def)

lemma sample_reach: "reachable (buf_init (7, 9)) buf_step sample_buffer"
  using sample_init by (rule reach_init)

lemma sample_write: "fst (WriteAt [1, 2, 3] 5 sample_buffer) = (3, None)"
  by code_simp

theorem buffer_refines_array_witness:
  "trace array_step (abs_buffer sample_buffer) [(Op_WriteAt [1, 2, 3] 5, Wrote 3 None)] (abs_buffer (snd (WriteAt [1, 2, 3] 5 sample_buffer)))"
proof -
  have "trace buf_step sample_buffer [(Op_WriteAt [1, 2, 3] 5, Wrote 3 None)] (snd (WriteAt [1, 2, 3] 5 sample_buffer))"
    using sample_write by (cases "WriteAt [1, 2, 3] 5 sample_buffer") (auto simp: buf_step_def)
  from buffer_refines_array [OF sample_init this] show ?thesis by simp
qed

text \<open>Operations that leave a range alone.\<close>

fun spares :: "int \<Rightarrow> int \<Rightarrow> buf_op \<Rightarrow> bool" where
  "spares off n (Op_WriteAt p pos) \<longleftrightarrow> pos + int (length p) \<le> off \<or> off + n \<le> pos"
| "spares off n (Op_Discard pos len) \<longleftrightarrow> pos + len \<le> off \<or> off + n \<le> pos"
| "spares off n (Op_punchBehindWindow w) \<longleftrightarrow> False"
| "spares off n _ \<longleftrightarrow> True"

lemma array_spares:
  assumes "array_step l (m, h) (m', h')" "spares off n (fst l)" "off \<le> x" "x < off + n"
  shows "m' x = m x"
proof -
  obtain op r where l: "l = (op, r)" by (cases l)
  show ?thesis
  proof (cases op)
    case (Op_WriteAt p pos)
    obtain k err where r: "r = Wrote k err" using assms(1) unfolding l Op_WriteAt by (cases r) auto
    have out: "\<not> (pos \<le> x \<and> x < pos + int (length p))" using assms(2-) by (auto simp: l Op_WriteAt)
    have "wrote p pos j m x = m x" if "j \<le> int (length p)" for j using out that by (auto simp: wrote_def write_mem_def)
    moreover have "m' x = wrote p pos k m x" if "torn (wrote p pos k m) (pos + k) (int (length p) - k) src m'" "0 \<le> k" for src
      using that out unfolding torn_def by force
    ultimately show ?thesis using assms(1) unfolding l Op_WriteAt r by (auto split: if_splits)
  next
    case (Op_Discard pos len)
    obtain err where r: "r = Done err" using assms(1) unfolding l Op_Discard by (cases r) auto
    show ?thesis using assms unfolding l Op_Discard r by (auto simp: restrict_map_def split: if_splits)
  next
    case (Op_punchBehindWindow w)
    then show ?thesis using assms(2) by (simp add: l)
  qed (use assms(1) in \<open>cases r; simp add: l\<close>)+
qed

text \<open>C7. Bytes that have been written are read back: through evictions, flushes, failing calls, reads and writes elsewhere, a
  read of the range returns them, or reports a failed system call and returns fewer.\<close>

theorem read_your_writes:
  assumes "reachable (buf_init others) buf_step b" "buf_step (Op_WriteAt p off, Wrote n None) b b1" "p \<noteq> []" "0 \<le> off"
    "trace buf_step b1 ls b2" "\<forall>l \<in> set ls. spares off (int (length p)) (fst l)"
    "ReadAt (int (length p)) off b2 = ((bs, err), b3)"
  shows "if err = None then bs = p else err = Some ErrIO \<and> faults b2 \<noteq> [] \<and> (\<exists>k < length p. bs = take k p)"
proof -
  have inv: "buf_inv others b" "buf_inv others b1" "buf_inv others b2"
    using array_refinement.reachable_inv reachable_trace assms(1,2,5) reach_step by metis+
  have bound: "off + int (length p) \<le> max_i64 - blockSize" using assms(2) by (simp add: buf_step_def)
  have w: "array_step (Op_WriteAt p off, Wrote n None) (abs_buffer b) (abs_buffer b1)" using buf_step_sim [OF inv(1) assms(2)] by blast
  have "memory b2 x = memory b1 x" if "off \<le> x" "x < off + int (length p)" for x
  proof -
    have step: "buf_inv others t \<and> memory t x = memory b1 x"
      if "buf_step l s t" "spares off (int (length p)) (fst l)" "buf_inv others s \<and> memory s x = memory b1 x" for l s t
      using buf_step_sim [of others s l t] array_spares [of l "memory s" "readHead s" "memory t" "readHead t" off "int (length p)" x]
        that \<open>off \<le> x\<close> \<open>x < off + int (length p)\<close> by (simp add: abs_buffer_def)
    have "buf_inv others b2 \<and> memory b2 x = memory b1 x"
      by (rule trace_preserves [OF assms(5), where I = "\<lambda>b. buf_inv others b \<and> memory b x = memory b1 x"
          and P = "\<lambda>l. spares off (int (length p)) (fst l)"])
        (use inv assms(6) step in auto)
    then show ?thesis by simp
  qed
  moreover have "memory b1 = wrote p off (int (length p)) (memory b)" using w assms(4) by (simp add: abs_buffer_def)
  ultimately have m: "memory b2 x = Some (p ! nat (x - off))" if "off \<le> x" "x < off + int (length p)" for x
    using that by (simp add: wrote_def write_mem_def)
  have st: "stretch b2 off (off + int k) = take k p" if "k \<le> length p" for k
    using that m by (auto simp: stretch_def list_eq_iff_nth_eq nth_upto)
  have "{off..<off + int (length p)} \<subseteq> dom (memory b2)" using m by auto
  then have "read_ok off (int (length p)) b2 bs err"
    using ReadAt_spec [OF assms(7) buf_invD(1) [OF inv(3)]] assms(3,4) bound by simp
  then show ?thesis
    using st [of "length p"] st [of "nat k" for k] unfolding read_ok_def by (auto split: if_splits) (metis nat_0_le nat_less_iff order_less_imp_le)
qed

theorem read_your_writes_witness:
  "fst (ReadAt 3 5 (snd (WriteAt [1, 2, 3] 5 sample_buffer))) = ([1, 2, 3], None)"
proof -
  let ?b1 = "snd (WriteAt [1, 2, 3] 5 sample_buffer)"
  obtain bs err b3 where r: "ReadAt (int (length [1, 2, 3 :: byte])) 5 ?b1 = ((bs, err), b3)" by (metis surj_pair)
  have w: "WriteAt [1, 2, 3] 5 sample_buffer = ((3, None), ?b1)" using sample_write by (metis prod.collapse)
  have s: "buf_step (Op_WriteAt [1, 2, 3] 5, Wrote 3 None) sample_buffer ?b1"
    using sample_write by (cases "WriteAt [1, 2, 3] 5 sample_buffer") (auto simp: buf_step_def)
  have i: "buf_inv (7, 9) sample_buffer" using array_refinement.init_inv [OF sample_init] .
  have "faults ?b1 = []"
    using WriteAt_spec [OF w buf_invD(1) [OF i]] by (simp add: steady_def sample_buffer_def seed_states_def blank_buffer_def)
  then have "err = None \<and> bs = [1, 2, 3]"
    using read_your_writes [OF sample_reach s _ _ trace_Nil _ r] by (auto split: if_splits)
  then show ?thesis using r by simp
qed

text \<open>C10. Closing a buffer, whatever fails on the way, leaves the pool's counters at what the others have in use; when no
  call fails the file holds the whole array, so an owner that reopens it finds every byte it recorded.\<close>

theorem close_settles_pool:
  assumes "reachable (buf_init others) buf_step b" "Buffer_Close order b = (err, b')"
  shows "buf_closed b' \<and> (memInUse (pool b'), diskInUse (pool b')) = others \<and>
    (faults b = [] \<and> dom (blocks b) \<subseteq> set order \<longrightarrow>
       err = None \<and> (\<forall>x v. memory b x = Some v \<longrightarrow> x < fsize (dfile b') \<and> content (dfile b') x = v))"
proof -
  have i: "buf_inv others b" using array_refinement.reachable_inv [OF assms(1)] .
  then have "foreign b = others" by (simp add: buf_inv_def)
  then show ?thesis using Close_spec [OF assms(2) buf_invD(1) [OF i]] by (metis prod.collapse)
qed

theorem close_settles_pool_witness: "memInUse (pool (snd (Buffer_Close [] sample_buffer))) = 7"
proof -
  obtain err b' where c: "Buffer_Close [] sample_buffer = (err, b')" by (metis surj_pair)
  from close_settles_pool [OF sample_reach c] show ?thesis by (simp add: c)
qed

text \<open>A flush that succeeds over every block leaves each byte of the array in the file, as a sync does; owners rely on
  it before they record what is present.\<close>

lemma flush_writes_all:
  assumes "reachable (buf_init others) buf_step b" "dom (blocks b) \<subseteq> set order"
    "buf_step (op, Done None) b b'" "op = Op_Flush order \<or> op = Op_Sync order"
  shows "memory b' = memory b \<and> on_file b'"
proof -
  have i: "buf_ok b" using array_refinement.reachable_inv [OF assms(1)] buf_invD by blast
  have "Flush order b = (None, b') \<or> Sync order b = (None, b')" using assms(3,4) by (auto simp: buf_step_def split: prod.splits)
  then show ?thesis using Flush_spec [OF _ i] Sync_spec [OF _ i] assms(2) by (auto simp: kept_def)
qed

section \<open>The backstop and a seek back\<close>

lemma discard_zeroes:
  assumes ok: "buf_ok b" and v: "0 \<le> off" "0 < len" "off + len \<le> max_i64 - blockSize" and run: "discard off len b = (k, b')"
    and env: "faults b = []" "punching b"
  shows "fsize (dfile b') = fsize (dfile b)" "extent_bytes (onDisk b') = extent_bytes (onDisk b) - {off..<off + len}"
    "content (dfile b) x = 0 \<Longrightarrow> content (dfile b') x = 0"
    "x \<in> extent_bytes (onDisk b) \<Longrightarrow> off \<le> x \<Longrightarrow> x < off + len \<Longrightarrow> content (dfile b') x = 0"
proof -
  obtain rem had b1 where d: "discard_locked off len b = ((rem, had), b1)" by (metis surj_pair)
  note s = discard_steps [OF ok v d]
  have val: "valid_range off len" using v by simp
  note od = remove_bytes [OF coherentD(2) [OF buf_okD(2) [OF ok]] val] and cd = remove_card [OF coherentD(2) [OF buf_okD(2) [OF ok]] val]
  have b': "b' = discard_punch off len rem had b1" using run d buf_okD(1) [OF ok] by (auto simp: discard_def)
  have io: "io_now b1 = Fine" "punching b1" using env s by (simp_all add: io_now_def)
  have f: "dfile b' = (if had then zero_out off len (dfile b) else dfile b)" "onDisk b' = onDisk b1"
    using io v s(5) by (simp_all add: b' discard_punch_def punchHole_def Let_def)
  show "fsize (dfile b') = fsize (dfile b)" by (simp add: f zero_out_def)
  show "extent_bytes (onDisk b') = extent_bytes (onDisk b) - {off..<off + len}" using od s(4) f by simp
  show "content (dfile b) x = 0 \<Longrightarrow> content (dfile b') x = 0" by (simp add: f zero_out_def)
  assume x: "x \<in> extent_bytes (onDisk b)" "off \<le> x" "x < off + len"
  have "extent_bytes (onDisk b) - {off..<off + len} \<subset> extent_bytes (onDisk b)" using x by auto
  then have "card (extent_bytes (onDisk b) - {off..<off + len}) < card (extent_bytes (onDisk b))"
    by (intro psubset_card_mono) (simp_all add: extent_bytes_def)
  then have "had" using s(14) cd od by simp
  then show "content (dfile b') x = 0" using x by (simp add: f zero_out_def)
qed

lemma punch_zeroes:
  assumes "punch_ranges rs n ev b = (r, b')" "buf_ok b" "faults b = []" "punching b"
    "\<forall>r \<in> set rs. 0 \<le> fst r \<and> 0 < snd r \<and> fst r + snd r \<le> max_i64 - blockSize"
  shows "fsize (dfile b') = fsize (dfile b) \<and> faults b' = [] \<and> (content (dfile b) x = 0 \<longrightarrow> content (dfile b') x = 0) \<and>
    (x \<in> extent_bytes (onDisk b) \<inter> spans rs \<longrightarrow> content (dfile b') x = 0)"
  using assms
proof (induction rs n ev b rule: punch_ranges.induct)
  case (2 off len rs n ev b)
  obtain k b1 where d: "discard off len b = (k, b1)" by (metis surj_pair)
  have v: "0 \<le> off" "0 < len" "off + len \<le> max_i64 - blockSize" using "2.prems"(5) by auto
  note z = discard_zeroes [OF "2.prems"(2) v d "2.prems"(3,4)] and s = discard_spec [OF "2.prems"(2) v d]
  have b1: "buf_ok b1" "faults b1 = []" "punching b1" using s "2.prems"(3,4) by (simp_all add: steady_def)
  have rest: "\<forall>r \<in> set rs. 0 \<le> fst r \<and> 0 < snd r \<and> fst r + snd r \<le> max_i64 - blockSize" using "2.prems"(5) by simp
  have ih: "fsize (dfile b') = fsize (dfile b1) \<and> faults b' = [] \<and> (content (dfile b1) x = 0 \<longrightarrow> content (dfile b') x = 0) \<and>
    (x \<in> extent_bytes (onDisk b1) \<inter> spans rs \<longrightarrow> content (dfile b') x = 0)"
  proof (cases "k > 0")
    case True
    then show ?thesis using "2.IH"(1) [OF d [symmetric] True _ b1 rest] "2.prems"(1) d by simp
  next
    case False
    then show ?thesis using "2.IH"(2) [OF d [symmetric] False _ b1 rest] "2.prems"(1) d by simp
  qed
  then show ?case using z(1,2) z(3,4) [of x] by auto
qed simp

lemma map_zero: "(\<And>x. off \<le> x \<Longrightarrow> x < off + n \<Longrightarrow> f x = (0 :: byte)) \<Longrightarrow> map f [off..off + n - 1] = replicate (nat n) 0"
  by (auto simp: list_eq_iff_nth_eq nth_upto)

text \<open>C39. The backstop decides what to punch from the read head it saw first. A reader that seeks back, publishes its
  offset and then reads, as the contract of \<^verbatim>\<open>SetReadHead\<close> asks, can still have its state slots checked before that
  punch and the file read after it: it is given zeros, without an error, for bytes that were present.\<close>

theorem seek_back_reads_hole:
  assumes "reachable (buf_init others) buf_step b" "faults b = []" "punching b" "0 \<le> w"
    and "0 < n" "0 \<le> off" "off + n \<le> readHead b - w" "all_fast off n b"
  shows "fst (ReadAt n off (SetReadHead off b)) = (reads (memory b) off n, None) \<and> all_fast off n (SetReadHead off b) \<and>
    fst (fast_read n off (snd (punch_ranges (punch_plan w b) 0 [] (SetReadHead off b)))) = (replicate (nat n) 0, None)"
proof -
  let ?b = "SetReadHead off b"
  have i: "buf_inv others b" using array_refinement.reachable_inv [OF assms(1)] .
  note ok = buf_invD(1) [OF i] and head = buf_invD(2) [OF i]
  have same: "memory ?b = memory b" "ranges ?b = ranges b" "onDisk ?b = onDisk b" "dfile ?b = dfile b" "faults ?b = faults b" "punching ?b = punching b"
    by (simp_all add: SetReadHead_def memory_def)
  have okb: "buf_ok ?b" using ok by (simp add: SetReadHead_def buf_ok_def counts_ok_def)
  have st: "states ?b = states b" by (simp add: SetReadHead_def)
  have af: "all_fast off n ?b" using assms(8) unfolding all_fast_def fast_slot_def stateSlot_def st .
  note fast = all_fastD [OF okb af]
  have hb: "off + n \<le> max_i64 - blockSize" using head assms(4,7) by linarith
  obtain bs err b' where r: "ReadAt n off ?b = ((bs, err), b')" by (metis surj_pair)
  have sub: "{off..<off + n} \<subseteq> dom (memory ?b)" using fast(2) by (auto simp: memory_dom)
  then have "read_ok off n ?b bs err" using ReadAt_spec [OF r okb assms(5,6)] hb by simp
  then have rd: "fst (ReadAt n off ?b) = (reads (memory b) off n, None)"
    using assms(2) same r by (auto simp: read_ok_def stretch_def reads_def split: if_splits)
  have ex: "extents_ok (ranges b)" using coherentD(1) [OF buf_okD(2) [OF ok]] .
  have hd: "0 < readHead b" "0 < readHead b - w" using assms(4-7) by linarith+
  have v: "valid_range 0 (readHead b - w)" using hd head assms(4) by simp
  have plan: "punch_plan w b = presentRanges (ranges b) 0 (readHead b - w)" using hd buf_okD(1) [OF ok] by (simp add: punch_plan_def)
  have rs: "\<forall>r \<in> set (punch_plan w b). 0 \<le> fst r \<and> 0 < snd r \<and> fst r + snd r \<le> max_i64 - blockSize"
    using presentRanges_ranges [OF ex v] head assms(4) unfolding plan by force
  obtain q b2 where p: "punch_ranges (punch_plan w b) 0 [] ?b = (q, b2)" by (metis surj_pair)
  have zero: "content (dfile b2) x = 0 \<and> x < fsize (dfile b2) \<and> faults b2 = []" if x: "off \<le> x" "x < off + n" for x
  proof -
    have "copy_ok (dfile ?b) (blocks ?b) (onDisk ?b) x" using coherentD(6) [OF buf_okD(2) [OF okb] fast(2) [OF x]] .
    then have od: "x \<in> extent_bytes (onDisk ?b)" using fast(1) [OF x] by (simp add: copy_ok_def)
    moreover have "x \<in> spans (punch_plan w b)"
      using presentRanges_cover [OF ex v] fast(2) [OF x] x assms(6,7) unfolding plan same by auto
    ultimately show ?thesis
      using punch_zeroes [OF p okb _ _ rs, of x] memory_file(2) [OF okb fast(2,1) [OF x]] assms(2,3) same by simp
  qed
  have last: "off \<le> off + n - 1" "off + n - 1 < off + n" using assms(5) by simp_all
  have "min n (fsize (dfile b2) - off) = n" "io_now b2 = Fine" using zero [OF last] by (simp_all add: io_now_def)
  moreover have "map (content (dfile b2)) [off..off + n - 1] = replicate (nat n) 0" using zero by (intro map_zero) blast
  ultimately have "fst (fast_read n off b2) = (replicate (nat n) 0, None)"
    using assms(5) by (simp add: fast_read_def file_ReadAt_def)
  then show ?thesis using rd af p by simp
qed

definition seeded_config :: buf_config where
  "seeded_config = \<lparr>MemorySize = 0, TotalSize = 2097152, InitialRanges = [(0, 1048576)]\<rparr>"

definition seeded_pool :: pool_counters where
  "seeded_pool = \<lparr>memBudget = 0, diskLimit = 0, memInUse = 0, diskInUse = 0, evictSig = False, poolPunches = 0, poolReclaimed = 0,
     statsWritten = 0, statsFlushedBytes = 0, statsWriteThroughBytes = 0, statsReleasedInRAM = 0\<rparr>"

definition seeded_file :: disk_file where
  "seeded_file = \<lparr>content = (\<lambda>_. 5), fsize = 2097152\<rparr>"

definition seeded_buffer :: buffer where
  "seeded_buffer = seed_states (fold seed_range [(0, 1048576)] (size_file 2097152 (blank_buffer seeded_config True seeded_file [] seeded_pool)))"

lemma seeded_init: "buf_init (0, 0) seeded_buffer"
  unfolding buf_init_def
  by (rule exI [of _ seeded_config], rule exI [of _ True], rule exI [of _ seeded_file], rule exI [of _ "[]"], rule exI [of _ seeded_pool])
    (simp add: newBuffer_def seeded_buffer_def opened_file_def Let_def seeded_config_def seeded_pool_def seeded_file_def
      io_now_def blank_buffer_def file_Truncate_def)

theorem seek_back_reads_hole_witness:
  "fst (fast_read 2 0 (snd (punch_ranges (punch_plan 0 (SetReadHead 1048576 seeded_buffer)) 0 [] (SetReadHead 0 (SetReadHead 1048576 seeded_buffer))))) = ([0, 0], None) \<and>
   fst (ReadAt 2 0 (SetReadHead 0 (SetReadHead 1048576 seeded_buffer))) = ([5, 5], None)"
proof -
  let ?b = "SetReadHead 1048576 seeded_buffer"
  have "buf_step (Op_SetReadHead 1048576, Done None) seeded_buffer ?b" by (simp add: buf_step_def)
  then have r: "reachable (buf_init (0, 0)) buf_step ?b" using seeded_init reach_init reach_step by metis
  have env: "faults ?b = []" "punching ?b" "readHead ?b = 1048576" by code_simp+
  have "all_fast 0 2 ?b" by code_simp
  from seek_back_reads_hole [OF r env(1,2) _ _ _ _ this, of 0] env(3)
  have "fst (fast_read 2 0 (snd (punch_ranges (punch_plan 0 ?b) 0 [] (SetReadHead 0 ?b)))) = ([0, 0], None)"
    by (simp add: numeral_2_eq_2)
  moreover have "fst (ReadAt 2 0 (SetReadHead 0 ?b)) = ([5, 5], None)" by code_simp
  ultimately show ?thesis by blast
qed

end
