(* ===== verification/Buffer_Pool.thy ===== *)
theory Buffer_Pool
  imports Buffer_Refinement
begin

text \<open>
  The pool of \<^verbatim>\<open>src/internal/buffer/pool.go\<close>: buffers that share the counters of memory and disk in use, and the
  worker that reclaims disk. A registered buffer is a cell, named by a number in place of its pointer. An operation on
  a buffer works on the shared counters: they are put into the buffer's record for its duration. The order in which Go
  visits the map of buffers is an argument, one list for each pass.
\<close>

section \<open>State and operations\<close>

type_synonym cell = "nat \<times> buffer"

record buf_pool =
  cells :: "cell list"
  backWindow :: int
  shared :: pool_counters
  next_cell :: nat
  pool_closed :: bool

record pool_config =
  MemoryBudget :: int
  DiskLimit :: int
  BackWindow :: int

definition NewPool :: "pool_config \<Rightarrow> buf_pool" where
  "NewPool cfg =
     (let nonneg = (\<lambda>n :: int. if n < 0 then 0 else n)
      in \<lparr>cells = [], backWindow = nonneg (BackWindow cfg),
          shared = \<lparr>memBudget = nonneg (MemoryBudget cfg), diskLimit = nonneg (DiskLimit cfg), memInUse = 0, diskInUse = 0, evictSig = False,
            poolPunches = 0, poolReclaimed = 0, statsWritten = 0, statsFlushedBytes = 0, statsWriteThroughBytes = 0, statsReleasedInRAM = 0\<rparr>,
          next_cell = 0, pool_closed = False\<rparr>)"

definition Pool_NewBuffer :: "buf_config \<Rightarrow> bool \<Rightarrow> disk_file option \<Rightarrow> io list \<Rightarrow> buf_pool \<Rightarrow> (buf_error + nat) \<times> buf_pool" where
  "Pool_NewBuffer cfg punches opened io P =
     (case newBuffer cfg punches opened io (shared P) of Inl err \<Rightarrow> (Inl err, P)
      | Inr b \<Rightarrow> (Inr (next_cell P), P\<lparr>cells := cells P @ [(next_cell P, b)], shared := pool b, next_cell := next_cell P + 1\<rparr>))"

text \<open>An operation on one of the buffers.\<close>

fun at_cell :: "nat \<Rightarrow> (buffer \<Rightarrow> 'r \<times> buffer) \<Rightarrow> pool_counters \<Rightarrow> cell list \<Rightarrow> ('r \<times> pool_counters \<times> cell list) option" where
  "at_cell i f p [] = None"
| "at_cell i f p ((j, b) # cs) =
     (if i = j then case f (b\<lparr>pool := p\<rparr>) of (r, b') \<Rightarrow> Some (r, pool b', (j, b') # cs)
      else map_option (\<lambda>(r, p', cs'). (r, p', (j, b) # cs')) (at_cell i f p cs))"

definition Pool_run :: "nat \<Rightarrow> buf_op \<Rightarrow> buf_pool \<Rightarrow> buf_res option \<times> buf_pool" where
  "Pool_run i op P =
     (case at_cell i (run_buf_op op) (shared P) (cells P) of None \<Rightarrow> (None, P)
      | Some (r, p, cs) \<Rightarrow> (Some r, P\<lparr>shared := p, cells := cs\<rparr>))"

text \<open>Closing a buffer unregisters it; the order is that of its blocks.\<close>

definition Pool_close_buffer :: "nat \<Rightarrow> int list \<Rightarrow> buf_pool \<Rightarrow> buf_error option \<times> buf_pool" where
  "Pool_close_buffer i order P =
     (case at_cell i (Buffer_Close order) (shared P) (cells P) of None \<Rightarrow> (Some ErrClosed, P)
      | Some (err, p, cs) \<Rightarrow> (err, P\<lparr>shared := p, cells := filter (\<lambda>c. fst c \<noteq> i) cs\<rparr>))"

fun close_all :: "(nat \<times> int list) list \<Rightarrow> buf_error option \<Rightarrow> buf_pool \<Rightarrow> buf_error option \<times> buf_pool" where
  "close_all [] firstErr P = (firstErr, P)"
| "close_all ((i, order) # is) firstErr P =
     (case Pool_close_buffer i order P of (err, P) \<Rightarrow> close_all is (if err \<noteq> None \<and> firstErr = None then err else firstErr) P)"

definition Pool_Close :: "(nat \<times> int list) list \<Rightarrow> buf_pool \<Rightarrow> buf_error option \<times> buf_pool" where
  "Pool_Close bufs P = (if pool_closed P then (None, P) else close_all bufs None (P\<lparr>pool_closed := True\<rparr>))"

fun reclaim_pass :: "int \<Rightarrow> int \<Rightarrow> nat list \<Rightarrow> pool_counters \<Rightarrow> cell list \<Rightarrow> (int \<times> bool) \<times> pool_counters \<times> cell list" where
  "reclaim_pass w limit [] p cs = ((0, False), p, cs)"
| "reclaim_pass w limit (i # is) p cs =
     (case at_cell i (punchBehindWindow w) p cs of None \<Rightarrow> reclaim_pass w limit is p cs
      | Some ((n, ev), p, cs) \<Rightarrow>
          if diskInUse p \<le> limit then ((n, True), p, cs)
          else case reclaim_pass w limit is p cs of ((m, stop), p, cs) \<Rightarrow> ((n + m, stop), p, cs))"

text \<open>The loop, with the visiting order of each pass; none when they run out before it ends.\<close>

fun reclaim_loop :: "nat list list \<Rightarrow> int \<Rightarrow> int \<Rightarrow> pool_counters \<Rightarrow> cell list \<Rightarrow> (pool_counters \<times> cell list) option" where
  "reclaim_loop orders w limit p cs =
     (if \<not> diskInUse p > limit then Some (p, cs)
      else if cs = [] then Some (p, cs)
      else case orders of [] \<Rightarrow> None
        | is # orders \<Rightarrow>
            (case reclaim_pass w limit is p cs of ((n, stop), p, cs) \<Rightarrow>
               if stop \<or> n = 0 then Some (p, cs) else reclaim_loop orders w limit p cs))"

definition reclaimDisk :: "nat list list \<Rightarrow> buf_pool \<Rightarrow> buf_pool option" where
  "reclaimDisk orders P =
     (if diskLimit (shared P) \<le> 0 then Some P
      else map_option (\<lambda>(p, cs). P\<lparr>shared := p, cells := cs\<rparr>) (reclaim_loop orders (backWindow P) (diskLimit (shared P)) (shared P) (cells P)))"

definition Pool_Stats :: "buf_pool \<Rightarrow> pool_counters \<times> nat" where
  "Pool_Stats P = (shared P, length (cells P))"

section \<open>The counters\<close>

definition cell_ok :: "buffer \<Rightarrow> bool" where
  "cell_ok b \<longleftrightarrow> buf_ok b \<and> readHead b \<le> max_i64 - blockSize"

definition usage :: "cell list \<Rightarrow> int \<times> int" where
  "usage cs = (\<Sum>c \<leftarrow> cs. bytesInRAM (snd c), \<Sum>c \<leftarrow> cs. diskBytes (snd c))"

definition books :: "pool_counters \<Rightarrow> cell list \<Rightarrow> bool" where
  "books p cs \<longleftrightarrow> distinct (map fst cs) \<and> (\<forall>c \<in> set cs. cell_ok (snd c)) \<and> (memInUse p, diskInUse p) = usage cs"

definition pool_ok :: "buf_pool \<Rightarrow> bool" where
  "pool_ok P \<longleftrightarrow> books (shared P) (cells P) \<and> 0 \<le> backWindow P \<and> (\<forall>c \<in> set (cells P). fst c < next_cell P)"

lemma at_cell_Some:
  assumes "at_cell i f p cs = Some (r, p', cs')"
  shows "\<exists>xs b b' ys. cs = xs @ (i, b) # ys \<and> i \<notin> fst ` set xs \<and> f (b\<lparr>pool := p\<rparr>) = (r, b') \<and> p' = pool b' \<and> cs' = xs @ (i, b') # ys"
  using assms
proof (induction i f p cs arbitrary: cs' rule: at_cell.induct)
  case (2 i f p j b cs)
  show ?case
  proof (cases "i = j")
    case True
    then obtain c where "f (b\<lparr>pool := p\<rparr>) = (r, c)" "p' = pool c" "cs' = (j, c) # cs" using "2.prems" by (auto split: prod.splits)
    then show ?thesis using True by (intro exI [of _ "[]"] exI [of _ b] exI [of _ c] exI [of _ cs]) simp
  next
    case False
    then obtain cs1 where a: "at_cell i f p cs = Some (r, p', cs1)" "cs' = (j, b) # cs1" using "2.prems" by auto
    from "2.IH" [OF False a(1)] obtain xs c b' ys where
      "cs = xs @ (i, c) # ys" "i \<notin> fst ` set xs" "f (c\<lparr>pool := p\<rparr>) = (r, b')" "p' = pool b'" "cs1 = xs @ (i, b') # ys" by blast
    then show ?thesis using a(2) False by (intro exI [of _ "(j, b) # xs"]) auto
  qed
qed simp

lemma at_cell_None: "at_cell i f p cs = None \<longleftrightarrow> i \<notin> fst ` set cs"
  by (induction i f p cs rule: at_cell.induct) (auto split: prod.splits)

lemma cell_ok_pool [simp]: "cell_ok (b\<lparr>pool := p\<rparr>) = cell_ok b"
  by (simp add: cell_ok_def buf_ok_def counts_ok_def)

lemma memory_pool [simp]: "memory (b\<lparr>pool := p\<rparr>) = memory b"
  by (simp add: memory_def)

text \<open>An operation that keeps the share of the others keeps the books.\<close>

lemma books_cell:
  assumes "books p (xs @ (i, b) # ys)" "cell_ok b'" "foreign b' = foreign (b\<lparr>pool := p\<rparr>)"
  shows "books (pool b') (xs @ (i, b') # ys)"
  using assms by (auto simp: books_def usage_def foreign_def)

lemma books_run:
  assumes "books p cs" "at_cell i (run_buf_op op) p cs = Some (r, p', cs')" "args_ok op"
  shows "books p' cs'"
proof -
  obtain xs b b' ys where a: "cs = xs @ (i, b) # ys" "run_buf_op op (b\<lparr>pool := p\<rparr>) = (r, b')" "p' = pool b'" "cs' = xs @ (i, b') # ys"
    using at_cell_Some [OF assms(2)] by blast
  have "buf_inv (foreign (b\<lparr>pool := p\<rparr>)) (b\<lparr>pool := p\<rparr>)"
    using assms(1) unfolding a(1) books_def by (simp add: buf_inv_def cell_ok_def [symmetric] buf_ok_def counts_ok_def) (simp add: cell_ok_def buf_ok_def counts_ok_def)
  moreover have "buf_step (op, r) (b\<lparr>pool := p\<rparr>) b'" using a(2) assms(3) by (simp add: buf_step_def)
  ultimately have "buf_inv (foreign (b\<lparr>pool := p\<rparr>)) b'" using buf_step_sim by blast
  then show ?thesis using books_cell [OF assms(1) [unfolded a(1)], of b'] unfolding a by (simp add: buf_inv_def cell_ok_def)
qed

section \<open>Reclaiming\<close>

definition gone :: "int \<Rightarrow> buffer \<Rightarrow> int set" where
  "gone w b = (if readHead b \<le> 0 then {} else {0..<readHead b - w})"

text \<open>Nothing is present behind the window; what a pass may do to a buffer.\<close>

definition tidy :: "int \<Rightarrow> buffer \<Rightarrow> bool" where
  "tidy w b \<longleftrightarrow> dom (memory b) \<inter> gone w b = {}"

definition cut_behind :: "int \<Rightarrow> cell \<Rightarrow> cell \<Rightarrow> bool" where
  "cut_behind w c c' \<longleftrightarrow> fst c' = fst c \<and> readHead (snd c') = readHead (snd c) \<and>
     (memory (snd c') = memory (snd c) \<or> memory (snd c') = memory (snd c) |` (- gone w (snd c)))"

lemma cut_refl: "cut_behind w c c"
  by (simp add: cut_behind_def)

lemma cut_trans: "cut_behind w a b \<Longrightarrow> cut_behind w b c \<Longrightarrow> cut_behind w a c"
  by (auto simp: cut_behind_def gone_def)

lemma cut_tidy:
  assumes "cut_behind w c c'" "tidy w (snd c)"
  shows "tidy w (snd c')"
proof -
  have "gone w (snd c') = gone w (snd c)" using assms(1) by (simp add: cut_behind_def gone_def)
  moreover have "dom (memory (snd c')) \<subseteq> dom (memory (snd c))" using assms(1) by (auto simp: cut_behind_def restrict_map_def split: if_splits)
  ultimately show ?thesis using assms(2) unfolding tidy_def by blast
qed

lemma cuts_trans: "list_all2 (cut_behind w) as bs \<Longrightarrow> list_all2 (cut_behind w) bs cs \<Longrightarrow> list_all2 (cut_behind w) as cs"
  using cut_trans by (rule list_all2_trans)

lemma cuts_from: "list_all2 (cut_behind w) cs cs' \<Longrightarrow> c' \<in> set cs' \<Longrightarrow> \<exists>c \<in> set cs. cut_behind w c c'"
  by (metis in_set_conv_nth list_all2_conv_all_nth)

lemma punch_cell:
  assumes b: "books p cs" and w: "0 \<le> w" and a: "at_cell i (punchBehindWindow w) p cs = Some ((n, ev), p', cs')"
  shows "books p' cs' \<and> list_all2 (cut_behind w) cs cs' \<and> 0 \<le> n \<and> (\<forall>c \<in> set cs'. fst c = i \<longrightarrow> tidy w (snd c)) \<and>
    ((\<forall>c \<in> set cs. tidy w (snd c)) \<longrightarrow> n = 0)"
proof -
  obtain xs c c' ys where s: "cs = xs @ (i, c) # ys" "punchBehindWindow w (c\<lparr>pool := p\<rparr>) = ((n, ev), c')" "p' = pool c'" "cs' = xs @ (i, c') # ys"
    using at_cell_Some [OF a] by blast
  have ok: "cell_ok (c\<lparr>pool := p\<rparr>)" "distinct (map fst (xs @ (i, c) # ys))" using b unfolding s(1) books_def by auto
  then have "readHead (c\<lparr>pool := p\<rparr>) - w \<le> max_i64 - blockSize" "buf_ok (c\<lparr>pool := p\<rparr>)" using w unfolding cell_ok_def by auto
  from punchBehindWindow_spec [OF s(2) this(2,1)]
  have sp: "steady (c\<lparr>pool := p\<rparr>) c'" "memory c' = memory c |` (- gone w c)" "n = int (card (dom (memory c) \<inter> gone w c))"
    by (simp_all add: gone_def)
  have ch: "cell_ok c'" "foreign c' = foreign (c\<lparr>pool := p\<rparr>)" "readHead c' = readHead c" using sp(1) ok(1) by (auto simp: steady_def cell_ok_def)
  have "books p' cs'" unfolding s using books_cell [OF b [unfolded s(1)] ch(1,2)] .
  moreover have "cut_behind w (i, c) (i, c')" using sp(2) ch(3) by (simp add: cut_behind_def)
  then have "list_all2 (cut_behind w) cs cs'" unfolding s by (simp add: list_all2_append list_all2_same cut_refl)
  moreover have "tidy w c'" using sp(2) ch(3) by (auto simp: tidy_def gone_def)
  then have "\<forall>c \<in> set cs'. fst c = i \<longrightarrow> tidy w (snd c)" using ok(2) unfolding s by force
  moreover have "n = 0" if "\<forall>c \<in> set cs. tidy w (snd c)" using that sp(3) unfolding s by (simp add: tidy_def)
  ultimately show ?thesis using sp(3) by simp
qed

lemma reclaim_pass_spec:
  assumes "reclaim_pass w limit is p cs = ((n, stop), p', cs')" "books p cs" "0 \<le> w"
  shows "books p' cs' \<and> list_all2 (cut_behind w) cs cs' \<and> 0 \<le> n \<and> (stop \<longrightarrow> diskInUse p' \<le> limit) \<and>
    (\<not> stop \<longrightarrow> (\<forall>c \<in> set cs'. fst c \<in> set is \<longrightarrow> tidy w (snd c))) \<and> ((\<forall>c \<in> set cs. tidy w (snd c)) \<longrightarrow> n = 0)"
  using assms
proof (induction w limit "is" p cs arbitrary: n rule: reclaim_pass.induct)
  case (1 w limit p cs)
  then show ?case by (auto simp: list_all2_same cut_refl)
next
  case (2 w limit i "is" p cs)
  show ?case
  proof (cases "at_cell i (punchBehindWindow w) p cs")
    case None
    then have run: "reclaim_pass w limit is p cs = ((n, stop), p', cs')" using "2.prems"(1) by simp
    note ih = "2.IH"(1) [OF None run "2.prems"(2,3)]
    have "i \<notin> fst ` set cs'"
      using None cuts_from [of w cs cs'] ih by (force simp: at_cell_None cut_behind_def)
    then show ?thesis using ih by auto
  next
    case (Some res)
    obtain k ev p1 cs1 where res: "res = ((k, ev), p1, cs1)" by (metis surj_pair)
    note pc = punch_cell [OF "2.prems"(2,3) Some [unfolded res]]
    show ?thesis
    proof (cases "diskInUse p1 \<le> limit")
      case True
      then show ?thesis using "2.prems"(1) Some res pc by auto
    next
      case False
      obtain m st p2 cs2 where r: "reclaim_pass w limit is p1 cs1 = ((m, st), p2, cs2)" by (metis surj_pair)
      have e: "n = k + m" "stop = st" "p' = p2" "cs' = cs2" using "2.prems"(1) Some res False r by auto
      have ih: "books p2 cs2 \<and> list_all2 (cut_behind w) cs1 cs2 \<and> 0 \<le> m \<and> (st \<longrightarrow> diskInUse p2 \<le> limit) \<and>
        (\<not> st \<longrightarrow> (\<forall>c \<in> set cs2. fst c \<in> set is \<longrightarrow> tidy w (snd c))) \<and> ((\<forall>c \<in> set cs1. tidy w (snd c)) \<longrightarrow> m = 0)"
        using "2.IH"(2) [OF Some res [symmetric] refl refl False] r e pc "2.prems"(3) by simp
      have first: "tidy w (snd c)" if "c \<in> set cs2" "fst c = i" for c
      proof -
        obtain c1 where "c1 \<in> set cs1" "cut_behind w c1 c" using cuts_from ih \<open>c \<in> set cs2\<close> by blast
        moreover from this have "tidy w (snd c1)" using pc \<open>fst c = i\<close> by (auto simp: cut_behind_def)
        ultimately show ?thesis using cut_tidy by blast
      qed
      have "\<forall>c \<in> set cs1. tidy w (snd c)" if "\<forall>c \<in> set cs. tidy w (snd c)"
        using that pc cuts_from [of w cs cs1] cut_tidy by blast
      then have zero: "k + m = 0" if "\<forall>c \<in> set cs. tidy w (snd c)" using that ih pc by simp
      have "list_all2 (cut_behind w) cs cs2" using cuts_trans pc ih by blast
      moreover have "\<not> st \<longrightarrow> (\<forall>c \<in> set cs2. fst c \<in> set (i # is) \<longrightarrow> tidy w (snd c))" using ih first by simp
      ultimately show ?thesis unfolding e using ih pc zero by simp
    qed
  qed
qed

lemma reclaimDisk_spec:
  assumes "pool_ok P" "fst ` set (cells P) \<subseteq> set order" "fst ` set (cells P) \<subseteq> set order'"
  shows "\<exists>P'. reclaimDisk [order, order'] P = Some P' \<and> pool_ok P' \<and> list_all2 (cut_behind (backWindow P)) (cells P) (cells P') \<and>
    (0 < diskLimit (shared P) \<longrightarrow> diskInUse (shared P') \<le> diskLimit (shared P) \<or> (\<forall>c \<in> set (cells P'). tidy (backWindow P) (snd c)))"
proof -
  let ?w = "backWindow P" and ?limit = "diskLimit (shared P)" and ?p = "shared P" and ?cs = "cells P"
  have b: "books ?p ?cs" "0 \<le> ?w" "\<forall>c \<in> set ?cs. fst c < next_cell P" using assms(1) by (simp_all add: pool_ok_def)
  have refl: "list_all2 (cut_behind ?w) cs cs" for cs by (simp add: list_all2_same cut_refl)
  obtain n stop p1 cs1 where r1: "reclaim_pass ?w ?limit order ?p ?cs = ((n, stop), p1, cs1)" by (metis surj_pair)
  note s1 = reclaim_pass_spec [OF r1 b(1,2)]
  obtain m stop2 p2 cs2 where r2: "reclaim_pass ?w ?limit order' p1 cs1 = ((m, stop2), p2, cs2)" by (metis surj_pair)
  note s2 = reclaim_pass_spec [OF r2 conjunct1 [OF s1] b(2)]
  have tidy1: "\<forall>c \<in> set cs1. tidy ?w (snd c)" if "\<not> stop"
  proof
    fix c assume c: "c \<in> set cs1"
    then obtain c0 where "c0 \<in> set ?cs" "fst c = fst c0" using cuts_from [of ?w ?cs cs1 c] s1 unfolding cut_behind_def by blast
    then have "fst c \<in> set order" using assms(2) by auto
    then show "tidy ?w (snd c)" using s1 that c by blast
  qed
  have tidy2: "\<forall>c \<in> set cs2. tidy ?w (snd c)" if "\<not> stop" using tidy1 [OF that] s2 cuts_from [of ?w cs1 cs2] cut_tidy by blast
  have names: "\<forall>c \<in> set cs. fst c < next_cell P" if la: "list_all2 (cut_behind ?w) ?cs cs" for cs
  proof
    fix c assume "c \<in> set cs"
    then obtain c0 where "c0 \<in> set ?cs" "fst c = fst c0" using cuts_from [OF la, of c] unfolding cut_behind_def by blast
    then show "fst c < next_cell P" using b(3) by simp
  qed
  have out: "\<exists>p' cs'. reclaim_loop [order, order'] ?w ?limit ?p ?cs = Some (p', cs') \<and> books p' cs' \<and> list_all2 (cut_behind ?w) ?cs cs' \<and>
      (diskInUse p' \<le> ?limit \<or> (\<forall>c \<in> set cs'. tidy ?w (snd c)))"
  proof (cases "diskInUse ?p > ?limit \<and> ?cs \<noteq> []")
    case False
    then show ?thesis using b refl by auto
  next
    case go: True
    show ?thesis
    proof (cases "stop \<or> n = 0")
      case True
      then show ?thesis using go r1 s1 tidy1 by auto
    next
      case False
      have "m = 0" using s2 tidy1 False by blast
      moreover have "cs1 \<noteq> []" using go s1 by auto
      ultimately have "reclaim_loop [order'] ?w ?limit p1 cs1 = Some (p1, cs1) \<or> reclaim_loop [order'] ?w ?limit p1 cs1 = Some (p2, cs2)"
        using r2 by simp
      moreover have "reclaim_loop [order, order'] ?w ?limit ?p ?cs = reclaim_loop [order'] ?w ?limit p1 cs1" using go False r1 by simp
      ultimately show ?thesis using s1 s2 tidy1 tidy2 False cuts_trans by metis
    qed
  qed
  show ?thesis
  proof (cases "?limit \<le> 0")
    case True
    then show ?thesis using assms(1) refl by (simp add: reclaimDisk_def)
  next
    case False
    obtain p' cs' where o: "reclaim_loop [order, order'] ?w ?limit ?p ?cs = Some (p', cs')" "books p' cs'" "list_all2 (cut_behind ?w) ?cs cs'"
      "diskInUse p' \<le> ?limit \<or> (\<forall>c \<in> set cs'. tidy ?w (snd c))" using out by blast
    then have "reclaimDisk [order, order'] P = Some (P\<lparr>shared := p', cells := cs'\<rparr>)" using False by (simp add: reclaimDisk_def)
    moreover have "pool_ok (P\<lparr>shared := p', cells := cs'\<rparr>)" using o b names [OF o(3)] by (simp add: pool_ok_def)
    ultimately show ?thesis using o by auto
  qed
qed

lemma reclaimDisk_ok:
  assumes "pool_ok P" "fst ` set (cells P) \<subseteq> set o1" "fst ` set (cells P) \<subseteq> set o2" "reclaimDisk [o1, o2] P = Some P'"
  shows "pool_ok P'"
  using reclaimDisk_spec [OF assms(1-3)] assms(4) by auto

section \<open>Every pool\<close>

lemma close_cell:
  assumes "books p cs" "at_cell i (Buffer_Close order) p cs = Some (err, p', cs')"
  shows "books p' (filter (\<lambda>c. fst c \<noteq> i) cs')" "filter (\<lambda>c. fst c \<noteq> i) cs' = filter (\<lambda>c. fst c \<noteq> i) cs"
proof -
  obtain xs b b' ys where a: "cs = xs @ (i, b) # ys" "Buffer_Close order (b\<lparr>pool := p\<rparr>) = (err, b')" "p' = pool b'" "cs' = xs @ (i, b') # ys"
    using at_cell_Some [OF assms(2)] by blast
  have ok: "cell_ok (b\<lparr>pool := p\<rparr>)" "distinct (map fst cs)" using assms(1) unfolding a(1) books_def by auto
  have "filter (\<lambda>c. fst c \<noteq> i) xs = xs" "filter (\<lambda>c. fst c \<noteq> i) ys = ys"
    using ok(2) unfolding a(1) by (auto simp: filter_id_conv)
  then have f: "filter (\<lambda>c. fst c \<noteq> i) cs' = xs @ ys" "filter (\<lambda>c. fst c \<noteq> i) cs = xs @ ys" by (simp_all add: a)
  then show "filter (\<lambda>c. fst c \<noteq> i) cs' = filter (\<lambda>c. fst c \<noteq> i) cs" by simp
  have "memInUse p' = memInUse p - bytesInRAM b \<and> diskInUse p' = diskInUse p - diskBytes b"
    using Close_spec [OF a(2)] ok(1) by (simp add: a(3) cell_ok_def foreign_def)
  then show "books p' (filter (\<lambda>c. fst c \<noteq> i) cs')" unfolding f using assms(1) by (auto simp: a(1) books_def usage_def)
qed

datatype pool_event = Open buf_config bool "disk_file option" "io list" | Run nat buf_op | Shut nat "int list" | Reclaim "nat list" "nat list"

inductive pool_step :: "pool_event \<Rightarrow> buf_pool \<Rightarrow> buf_pool \<Rightarrow> bool" where
  step_open: "Pool_NewBuffer cfg punches opened io P = (r, P') \<Longrightarrow>
     \<forall>f. opened = Some f \<longrightarrow> fsize (opened_file cfg f) \<le> max_i64 - blockSize \<and>
       (\<forall>r \<in> set (InitialRanges cfg). 0 < snd r \<longrightarrow> 0 \<le> fst r \<and> fst r + snd r \<le> fsize (opened_file cfg f)) \<Longrightarrow>
     pool_step (Open cfg punches opened io) P P'"
| step_run: "args_ok op \<Longrightarrow> Pool_run i op P = (r, P') \<Longrightarrow> pool_step (Run i op) P P'"
| step_shut: "Pool_close_buffer i order P = (err, P') \<Longrightarrow> pool_step (Shut i order) P P'"
| step_reclaim: "fst ` set (cells P) \<subseteq> set o1 \<Longrightarrow> fst ` set (cells P) \<subseteq> set o2 \<Longrightarrow> reclaimDisk [o1, o2] P = Some P' \<Longrightarrow>
     pool_step (Reclaim o1 o2) P P'"

lemma cells_names:
  assumes "at_cell i f p cs = Some (r, p', cs')"
  shows "map fst cs' = map fst cs"
  using at_cell_Some [OF assms] by auto

lemma pool_ok_open:
  assumes "pool_ok P" "Pool_NewBuffer cfg punches opened io P = (r, P')"
    "\<forall>f. opened = Some f \<longrightarrow> fsize (opened_file cfg f) \<le> max_i64 - blockSize \<and>
       (\<forall>r \<in> set (InitialRanges cfg). 0 < snd r \<longrightarrow> 0 \<le> fst r \<and> fst r + snd r \<le> fsize (opened_file cfg f))"
  shows "pool_ok P'"
proof (cases "newBuffer cfg punches opened io (shared P)")
  case (Inl e)
  then show ?thesis using assms by (simp add: Pool_NewBuffer_def)
next
  case (Inr b)
  then obtain f where f: "opened = Some f" by (cases opened) (auto simp: newBuffer_def split: if_splits)
  then have n: "newBuffer cfg punches (Some f) io (shared P) = Inr b" using Inr by simp
  have "buf_ok b" "foreign b = (memInUse (shared P), diskInUse (shared P))" "readHead b = 0"
    using newBuffer_spec [OF n] readHead_newBuffer [OF n] assms(3) f by auto
  moreover have "P' = P\<lparr>cells := cells P @ [(next_cell P, b)], shared := pool b, next_cell := next_cell P + 1\<rparr>"
    using assms(2) Inr by (simp add: Pool_NewBuffer_def)
  ultimately show ?thesis
    using assms(1) by (auto simp: pool_ok_def books_def usage_def foreign_def cell_ok_def)
qed

lemma pool_ok_step:
  assumes "pool_ok P" "pool_step e P P'"
  shows "pool_ok P'"
  using assms(2)
proof cases
  case (step_open cfg punches opened io r)
  then show ?thesis using pool_ok_open [OF assms(1)] by blast
next
  case (step_run op i r)
  show ?thesis
  proof (cases "at_cell i (run_buf_op op) (shared P) (cells P)")
    case None
    then show ?thesis using step_run assms(1) by (simp add: Pool_run_def)
  next
    case (Some x)
    obtain q p cs where x: "x = (q, p, cs)" by (metis surj_pair)
    have "books p cs" using books_run [OF _ Some [unfolded x] step_run(2)] assms(1) by (simp add: pool_ok_def)
    moreover have "\<forall>n \<in> fst ` set cs. n < next_cell P" using cells_names [OF Some [unfolded x]] assms(1) unfolding pool_ok_def set_map [symmetric] by simp
    moreover have "P' = P\<lparr>shared := p, cells := cs\<rparr>" using step_run(3) Some x by (simp add: Pool_run_def)
    ultimately show ?thesis using assms(1) by (simp add: pool_ok_def)
  qed
next
  case (step_shut i order err)
  show ?thesis
  proof (cases "at_cell i (Buffer_Close order) (shared P) (cells P)")
    case None
    then show ?thesis using step_shut assms(1) by (simp add: Pool_close_buffer_def)
  next
    case (Some x)
    obtain q p cs where x: "x = (q, p, cs)" by (metis surj_pair)
    have b: "books (shared P) (cells P)" "0 \<le> backWindow P" "\<forall>c \<in> set (cells P). fst c < next_cell P" using assms(1) by (simp_all add: pool_ok_def)
    have "P' = P\<lparr>shared := p, cells := filter (\<lambda>c. fst c \<noteq> i) cs\<rparr>" using step_shut(2) Some x by (simp add: Pool_close_buffer_def)
    then show ?thesis using close_cell [OF b(1) Some [unfolded x]] b(2,3) by (simp add: pool_ok_def)
  qed
next
  case (step_reclaim o1 o2)
  then show ?thesis using reclaimDisk_ok [OF assms(1)] by blast
qed

interpretation pool_books: invariant "\<lambda>P. \<exists>cfg. P = NewPool cfg" pool_step pool_ok
proof
  show "\<exists>cfg. P = NewPool cfg \<Longrightarrow> pool_ok P" for P by (auto simp: NewPool_def pool_ok_def books_def usage_def Let_def)
qed (rule pool_ok_step)

lemma close_all_empties:
  assumes "close_all bufs e P = (err, P')" "pool_ok P"
  shows "pool_ok P' \<and> fst ` set (cells P') = fst ` set (cells P) - fst ` set bufs"
  using assms
proof (induction bufs e P rule: close_all.induct)
  case (2 i order bufs e P)
  obtain e1 P1 where c: "Pool_close_buffer i order P = (e1, P1)" by (metis surj_pair)
  have ok: "pool_ok P1" using pool_ok_step [OF "2.prems"(2) step_shut [OF c]] .
  have "fst ` set (cells P1) = fst ` set (cells P) - {i}"
  proof (cases "at_cell i (Buffer_Close order) (shared P) (cells P)")
    case None
    then have "P1 = P" using c by (simp add: Pool_close_buffer_def)
    then show ?thesis using None [unfolded at_cell_None] by simp
  next
    case (Some x)
    obtain q p cs where x: "x = (q, p, cs)" by (metis surj_pair)
    have "books (shared P) (cells P)" using "2.prems"(2) by (simp add: pool_ok_def)
    from close_cell(2) [OF this Some [unfolded x]] c Some x show ?thesis by (auto simp: Pool_close_buffer_def image_iff)
  qed
  then show ?case using "2.IH" [OF c [symmetric] _ ok] "2.prems"(1) c by auto
qed simp

definition sample_pool :: buf_pool where
  "sample_pool = snd (Pool_NewBuffer seeded_config True (Some seeded_file) [] (NewPool \<lparr>MemoryBudget = 0, DiskLimit = 9, BackWindow = 0\<rparr>))"

lemma sample_pool_reachable: "reachable (\<lambda>P. \<exists>cfg. P = NewPool cfg) pool_step sample_pool"
proof (rule reach_step)
  show "reachable (\<lambda>P. \<exists>cfg. P = NewPool cfg) pool_step (NewPool \<lparr>MemoryBudget = 0, DiskLimit = 9, BackWindow = 0\<rparr>)"
    by (rule reach_init) blast
  show "pool_step (Open seeded_config True (Some seeded_file) []) (NewPool \<lparr>MemoryBudget = 0, DiskLimit = 9, BackWindow = 0\<rparr>) sample_pool"
    unfolding sample_pool_def
    by (rule step_open [OF prod.collapse [symmetric]]) (simp add: opened_file_def seeded_config_def seeded_file_def file_Truncate_def)
qed

text \<open>C8. In every reachable pool the counters of memory and disk in use are the sums over the registered buffers of their
  resident blocks and of their present bytes; once the pool has closed them all, both are zero.\<close>

theorem pool_accounts:
  assumes "reachable (\<lambda>P. \<exists>cfg. P = NewPool cfg) pool_step P"
  shows "memInUse (shared P) = (\<Sum>c \<leftarrow> cells P. bytesInRAM (snd c)) \<and>
    diskInUse (shared P) = (\<Sum>c \<leftarrow> cells P. int (card (dom (memory (snd c))))) \<and>
    (\<forall>bufs err P'. \<not> pool_closed P \<longrightarrow> fst ` set (cells P) \<subseteq> fst ` set bufs \<longrightarrow> Pool_Close bufs P = (err, P') \<longrightarrow>
       cells P' = [] \<and> memInUse (shared P') = 0 \<and> diskInUse (shared P') = 0)"
proof -
  have ok: "pool_ok P" using pool_books.reachable_inv [OF assms] .
  then have b: "\<forall>c \<in> set (cells P). diskBytes (snd c) = int (card (dom (memory (snd c))))" "(memInUse (shared P), diskInUse (shared P)) = usage (cells P)"
    by (auto simp: pool_ok_def books_def cell_ok_def buf_ok_def counts_ok_def memory_dom)
  have "cells P' = [] \<and> memInUse (shared P') = 0 \<and> diskInUse (shared P') = 0"
    if c: "\<not> pool_closed P" "fst ` set (cells P) \<subseteq> fst ` set bufs" "Pool_Close bufs P = (err, P')" for bufs err P'
  proof -
    have run: "close_all bufs None (P\<lparr>pool_closed := True\<rparr>) = (err, P')" using c by (simp add: Pool_Close_def)
    have "pool_ok (P\<lparr>pool_closed := True\<rparr>)" using ok by (simp add: pool_ok_def)
    from close_all_empties [OF run this] have "pool_ok P'" "fst ` set (cells P') = {}" using c(2) by (simp_all add: Diff_eq_empty_iff)
    then have "pool_ok P'" "cells P' = []" by simp_all
    then show ?thesis by (simp add: pool_ok_def books_def usage_def)
  qed
  moreover have "(\<Sum>c \<leftarrow> cells P. diskBytes (snd c)) = (\<Sum>c \<leftarrow> cells P. int (card (dom (memory (snd c)))))"
    using b(1) by (intro arg_cong [of _ _ sum_list] map_cong) auto
  ultimately show ?thesis using b(2) unfolding usage_def prod.inject by metis
qed

theorem pool_accounts_witness: "diskInUse (shared sample_pool) = (\<Sum>c \<leftarrow> cells sample_pool. int (card (dom (memory (snd c)))))"
  using pool_accounts [OF sample_pool_reachable] by blast

text \<open>Run without operations in between, the disk backstop ends after at most two passes, whatever order the buffers are visited in: it is then within the
  limit, or no buffer has a present byte behind its window. No byte at or above a window is touched, and the counters stay exact.\<close>

lemma reclaimDisk_settles:
  assumes "reachable (\<lambda>P. \<exists>cfg. P = NewPool cfg) pool_step P" "fst ` set (cells P) \<subseteq> set order" "fst ` set (cells P) \<subseteq> set order'"
  shows "\<exists>P'. reclaimDisk [order, order'] P = Some P' \<and> list_all2 (cut_behind (backWindow P)) (cells P) (cells P') \<and>
    (0 < diskLimit (shared P) \<longrightarrow> diskInUse (shared P') \<le> diskLimit (shared P) \<or> (\<forall>c \<in> set (cells P'). tidy (backWindow P) (snd c)))"
  using reclaimDisk_spec [OF pool_books.reachable_inv [OF assms(1)] assms(2,3)] by blast

end
