(* ===== verification/Go_Time.thy ===== *)
theory Go_Time
  imports Prelude
begin

text \<open>
  Go's \<^verbatim>\<open>time\<close> package, as far as the sources use it on a wall clock. An instant is its number of
  nanoseconds since the Unix epoch; a location is its offset from UTC in nanoseconds (zones whose
  offset changes during the year are outside the model). \<open>civil_of\<close> reads the date of a day
  in the proleptic Gregorian calendar, \<open>day_number\<close> builds a day from a date, normalising months and
  days that are out of range as \<^verbatim>\<open>time.Date\<close> documents, and \<open>AddDate\<close> is their composition.
\<close>

section \<open>Years and months\<close>

definition leap :: "int \<Rightarrow> bool" where
  "leap y \<longleftrightarrow> y mod 4 = 0 \<and> (y mod 100 \<noteq> 0 \<or> y mod 400 = 0)"

text \<open>Days from the first of January of year 1 to the first of January of year \<open>y\<close>.\<close>

definition days_before_year :: "int \<Rightarrow> int" where
  "days_before_year y = 365 * (y - 1) + (y - 1) div 4 - (y - 1) div 100 + (y - 1) div 400"

text \<open>Days from the first of January to the first of month \<open>m\<close> of the same year; month 13 stands for the
  next January.\<close>

definition days_before_month :: "bool \<Rightarrow> int \<Rightarrow> int" where
  "days_before_month l m =
     [0, 31, 59, 90, 120, 151, 181, 212, 243, 273, 304, 334, 365] ! nat (m - 1) + (if l \<and> 2 < m then 1 else 0)"

definition days_in :: "int \<Rightarrow> int \<Rightarrow> int" where
  "days_in y m = days_before_month (leap y) (m + 1) - days_before_month (leap y) m"

text \<open>The day of the Unix epoch, the first of January 1970, counted from year 1.\<close>

definition epoch_day :: int where
  "epoch_day = 719162"

definition day_number :: "int \<Rightarrow> int \<Rightarrow> int \<Rightarrow> int" where
  "day_number y m d =
     (let y' = y + (m - 1) div 12; m' = (m - 1) mod 12 + 1
      in days_before_year y' + days_before_month (leap y') m' + (d - 1) - epoch_day)"

definition year_of :: "int \<Rightarrow> int" where
  "year_of n =
     (let y = 400 * n div 146097 + 1
      in if days_before_year (y + 1) \<le> n then y + 1 else if days_before_year y \<le> n then y else y - 1)"

text \<open>The month whose days include the one \<open>k\<close> days after the first of January: one more than the number of later
  months that have begun.\<close>

definition month_of :: "bool \<Rightarrow> int \<Rightarrow> int" where
  "month_of l k = 1 + int (length (takeWhile (\<lambda>m. days_before_month l m \<le> k) [2..12]))"

definition civil_of :: "int \<Rightarrow> int \<times> int \<times> int" where
  "civil_of n =
     (let y = year_of (n + epoch_day); k = n + epoch_day - days_before_year y; m = month_of (leap y) k
      in (y, m, k - days_before_month (leap y) m + 1))"

text \<open>\<^verbatim>\<open>Time.Weekday\<close>, with Sunday as 0; the epoch was a Thursday.\<close>

definition weekday :: "int \<Rightarrow> int" where
  "weekday n = (n + 4) mod 7"

section \<open>Instants\<close>

definition hour_ns :: int where
  "hour_ns = 3600000000000"

definition day_ns :: int where
  "day_ns = 86400000000000"

definition local_day :: "int \<Rightarrow> int \<Rightarrow> int" where
  "local_day loc t = (t + loc) div day_ns"

definition clock_of :: "int \<Rightarrow> int \<Rightarrow> int" where
  "clock_of loc t = (t + loc) mod day_ns"

text \<open>\<^verbatim>\<open>time.Date\<close>, with the clock reading given as nanoseconds since midnight.\<close>

definition time_Date :: "int \<Rightarrow> int \<Rightarrow> int \<Rightarrow> int \<Rightarrow> int \<Rightarrow> int" where
  "time_Date loc y m d clock = day_number y m d * day_ns + clock - loc"

definition AddDate :: "int \<Rightarrow> int \<Rightarrow> int \<Rightarrow> int \<Rightarrow> int \<Rightarrow> int" where
  "AddDate loc t years months days =
     (case civil_of (local_day loc t) of (y, m, d) \<Rightarrow>
        time_Date loc (y + years) (m + months) (d + days) (clock_of loc t))"

section \<open>The calendar\<close>

lemma div_pred: "0 < k \<Longrightarrow> (y::int) div k = (y - 1) div k + (if y mod k = 0 then 1 else 0)"
proof -
  assume k: "0 < k"
  have y: "k * (y div k) + y mod k = y" by simp
  have r: "0 \<le> y mod k" "y mod k < k" using k by simp_all
  show ?thesis
  proof (cases "y mod k = 0")
    case True
    then have "(y - 1) div k = y div k - 1"
      using y r k by (intro int_div_pos_eq [of _ _ _ "k - 1"]) (auto simp: algebra_simps)
    then show ?thesis using True by simp
  next
    case False
    then have "0 \<le> y mod k - 1" "y mod k - 1 < k" using r by linarith+
    then have "(y - 1) div k = y div k"
      using y by (intro int_div_pos_eq [of _ _ _ "y mod k - 1"]) (auto simp: algebra_simps)
    then show ?thesis using False by simp
  qed
qed

lemma leap_mod: "(y::int) mod 400 = 0 \<Longrightarrow> y mod 100 = 0" "(y::int) mod 100 = 0 \<Longrightarrow> y mod 4 = 0"
  using dvd_trans [of 100 400 y] dvd_trans [of 4 100 y] by (simp_all add: mod_eq_0_iff_dvd)

lemma days_before_year_step: "days_before_year (y + 1) = days_before_year y + (if leap y then 366 else 365)"
proof -
  let ?d = "\<lambda>k. if y mod k = 0 then 1 else 0 :: int"
  have nxt: "days_before_year (y + 1) = 365 * y + y div 4 - y div 100 + y div 400"
    by (simp add: days_before_year_def)
  have step: "y div 4 = (y - 1) div 4 + ?d 4" "y div 100 = (y - 1) div 100 + ?d 100" "y div 400 = (y - 1) div 400 + ?d 400"
    by (rule div_pred, simp)+
  have count: "(if p \<and> (\<not> q \<or> r) then 366 else 365 :: int) =
      365 + (if p then 1 else 0) - (if q then 1 else 0) + (if r then 1 else 0)" if "r \<longrightarrow> q" "q \<longrightarrow> p" for p q r
    using that by (cases p; cases q; cases r; simp)
  have leap: "(if leap y then 366 else 365 :: int) = 365 + ?d 4 - ?d 100 + ?d 400"
    unfolding leap_def by (rule count; rule impI; erule leap_mod)
  show ?thesis
    unfolding leap nxt step unfolding days_before_year_def by algebra
qed

lemma year_of: "days_before_year (year_of n) \<le> n" "n < days_before_year (year_of n + 1)"
proof -
  define y where "y = 400 * n div 146097 + 1"
  have y: "146097 * (y - 1) \<le> 400 * n" "400 * n < 146097 * y"
    unfolding y_def using div_mult_below [of 146097 "400 * n"] by (simp_all add: algebra_simps)
  have q: "a - 3 \<le> 4 * (a div 4)" "4 * (a div 4) \<le> a" "a - 99 \<le> 100 * (a div 100)" "100 * (a div 100) \<le> a"
    "a - 399 \<le> 400 * (a div 400)" "400 * (a div 400) \<le> a" for a :: int
    by presburger+
  have low: "days_before_year (y - 1) \<le> n"
    using q [of "y - 2"] y unfolding days_before_year_def by (simp add: algebra_simps)
  have high: "n < days_before_year (y + 2)"
    using q [of "y + 1"] y unfolding days_before_year_def by (simp add: algebra_simps)
  show "days_before_year (year_of n) \<le> n" "n < days_before_year (year_of n + 1)"
    using low high unfolding year_of_def y_def [symmetric] Let_def by (auto simp: add.assoc)
qed

lemma days_before_month_simps [simp]:
  "days_before_month l 1 = 0" "days_before_month l 2 = 31"
  "days_before_month l 3 = (if l then 60 else 59)" "days_before_month l 4 = (if l then 91 else 90)"
  "days_before_month l 5 = (if l then 121 else 120)" "days_before_month l 6 = (if l then 152 else 151)"
  "days_before_month l 7 = (if l then 182 else 181)" "days_before_month l 8 = (if l then 213 else 212)"
  "days_before_month l 9 = (if l then 244 else 243)" "days_before_month l 10 = (if l then 274 else 273)"
  "days_before_month l 11 = (if l then 305 else 304)" "days_before_month l 12 = (if l then 335 else 334)"
  "days_before_month l 13 = (if l then 366 else 365)"
  by (simp_all add: days_before_month_def)

lemma days_in_range: "\<forall>m \<in> {1..12}. 28 \<le> days_in y m \<and> days_in y m \<le> 31"
  by (simp add: simp_from_to days_in_def)

lemma days_in_bounds: "1 \<le> m \<Longrightarrow> m \<le> 12 \<Longrightarrow> 28 \<le> days_in y m" "1 \<le> m \<Longrightarrow> m \<le> 12 \<Longrightarrow> days_in y m \<le> 31"
  using days_in_range [of y] by simp_all

lemma month_of:
  assumes "0 \<le> k" "k < days_before_month l 13"
  shows "1 \<le> month_of l k" "month_of l k \<le> 12" "days_before_month l (month_of l k) \<le> k"
    "k < days_before_month l (month_of l k + 1)"
proof -
  define P where "P = (\<lambda>m. days_before_month l m \<le> k)"
  define ms :: "int list" where "ms = [2..12]"
  define n where "n = length (takeWhile P ms)"
  have m: "month_of l k = 1 + int n" unfolding month_of_def P_def n_def ms_def by (rule refl)
  have ms_len: "length ms = 11" by (simp add: ms_def)
  have n: "n \<le> 11" using length_takeWhile_le [of P ms] by (simp add: n_def ms_def)
  have at: "ms ! j = 2 + int j" if "j < 11" for j using that unfolding ms_def by (intro nth_upto) simp
  show "1 \<le> month_of l k" "month_of l k \<le> 12" using n by (simp_all add: m)
  show "days_before_month l (month_of l k) \<le> k"
  proof (cases n)
    case 0
    then show ?thesis using assms by (simp add: m)
  next
    case (Suc j)
    then have "takeWhile P ms ! j = ms ! j" "j < length (takeWhile P ms)"
      by (simp_all add: takeWhile_nth n_def)
    then have "P (ms ! j)" by (metis nth_mem set_takeWhileD)
    then show ?thesis using Suc n at [of j] by (simp add: m P_def add.commute)
  qed
  show "k < days_before_month l (month_of l k + 1)"
  proof (cases "n < 11")
    case True
    then have "\<not> P (ms ! n)" using nth_length_takeWhile [of P ms] by (simp add: n_def ms_len)
    then show ?thesis using True at [of n] by (simp add: m P_def add.commute)
  next
    case False
    then show ?thesis using n assms by (simp add: m)
  qed
qed

subsection \<open>Months numbered from year zero\<close>

definition month_first :: "int \<Rightarrow> int" where
  "month_first i = day_number (i div 12) (i mod 12 + 1) 1"

abbreviation month_index :: "int \<Rightarrow> int \<Rightarrow> int" where
  "month_index y m \<equiv> 12 * y + (m - 1)"

lemma day_number_plain:
  "1 \<le> m \<Longrightarrow> m \<le> 12 \<Longrightarrow> day_number y m d = days_before_year y + days_before_month (leap y) m + (d - 1) - epoch_day"
  by (simp add: day_number_def)

lemma day_number_first: "day_number y m d = month_first (month_index y m) + d - 1"
  by (simp add: day_number_def month_first_def Let_def)

lemma month_first_step: "month_first (i + 1) = month_first i + days_in (i div 12) (i mod 12 + 1)"
proof -
  have r: "0 \<le> i mod 12" "i mod 12 < 12" by simp_all
  have i: "i + 1 = 12 * (i div 12) + (i mod 12 + 1)" by simp
  have "(i + 1) div 12 = i div 12 + 1 \<and> (i + 1) mod 12 = 0" if "i mod 12 = 11"
    using i that by (intro conjI int_div_pos_eq [of _ _ _ 0] int_mod_pos_eq [of _ _ "i div 12 + 1"]) auto
  moreover have "(i + 1) div 12 = i div 12 \<and> (i + 1) mod 12 = i mod 12 + 1" if "i mod 12 < 11"
    using i that r by (intro conjI int_div_pos_eq [of _ _ _ "i mod 12 + 1"] int_mod_pos_eq [of _ _ "i div 12"]) auto
  ultimately consider "i mod 12 = 11" "(i + 1) div 12 = i div 12 + 1" "(i + 1) mod 12 = 0"
    | "i mod 12 < 11" "(i + 1) div 12 = i div 12" "(i + 1) mod 12 = i mod 12 + 1"
    using r by linarith
  then show ?thesis
  proof cases
    case 1
    then show ?thesis by (simp add: month_first_def day_number_plain days_in_def days_before_year_step)
  next
    case 2
    define q m where "q = i div 12" and "m = i mod 12 + 1"
    have "1 \<le> m" "m + 1 \<le> 12" "i mod 12 + 1 + 1 = m + 1" using 2(1) r by (auto simp: m_def)
    then show ?thesis
      unfolding month_first_def 2 q_def [symmetric] m_def [symmetric] by (simp add: day_number_plain days_in_def)
  qed
qed

lemma month_first_next: "month_first i + 28 \<le> month_first (i + 1)"
proof -
  have "0 \<le> i mod 12" "i mod 12 < 12" by simp_all
  then have "28 \<le> days_in (i div 12) (i mod 12 + 1)" by (intro days_in_bounds) linarith+
  then show ?thesis by (simp add: month_first_step)
qed

lemma month_first_less: "i < j \<Longrightarrow> month_first i + 28 \<le> month_first j"
proof (induction j rule: int_gr_induct)
  case base
  show ?case by (rule month_first_next)
next
  case (step j)
  then show ?case using month_first_next [of j] by linarith
qed

lemma month_first_mono: "i \<le> j \<Longrightarrow> month_first i \<le> month_first j"
  using month_first_less [of i j] by (cases "i = j") auto

text \<open>A day lies in exactly one month.\<close>

definition in_month :: "int \<Rightarrow> int \<Rightarrow> bool" where
  "in_month i n \<longleftrightarrow> month_first i \<le> n \<and> n < month_first (i + 1)"

lemma in_month_unique: "in_month i n \<Longrightarrow> in_month j n \<Longrightarrow> i = j"
  unfolding in_month_def
  using month_first_mono [of "i + 1" j] month_first_mono [of "j + 1" i] by (cases i j rule: linorder_cases) auto

lemma in_month_mono: "in_month i n \<Longrightarrow> in_month j k \<Longrightarrow> n \<le> k \<Longrightarrow> i \<le> j"
  unfolding in_month_def using month_first_mono [of "j + 1" i] by (cases "i \<le> j") auto

text \<open>The date read back from a day is that day's: its month is the one the day lies in and its day
  of the month counts from the first.\<close>

lemma civil_of:
  assumes "civil_of n = (y, m, d)"
  shows "1 \<le> m" "m \<le> 12" "1 \<le> d" "d \<le> days_in y m" "in_month (month_index y m) n"
    "n = month_first (month_index y m) + d - 1"
proof -
  define k where "k = n + epoch_day - days_before_year (year_of (n + epoch_day))"
  have y: "y = year_of (n + epoch_day)" and m: "m = month_of (leap y) k" and d: "d = k - days_before_month (leap y) m + 1"
    using assms by (auto simp: civil_of_def Let_def k_def)
  have "0 \<le> k" "k < days_before_month (leap y) 13"
    using year_of [of "n + epoch_day"] by (auto simp: k_def y days_before_year_step split: if_splits)
  note mo = month_of [OF this, folded m]
  show rng: "1 \<le> m" "m \<le> 12" "1 \<le> d" "d \<le> days_in y m" using mo by (auto simp: d days_in_def)
  show n: "n = month_first (month_index y m) + d - 1"
    using mo by (simp add: day_number_first [symmetric] day_number_plain d k_def y)
  have "(12 * y + (m - 1)) div 12 = y" "(12 * y + (m - 1)) mod 12 + 1 = m" using rng(1,2) by simp_all
  then show "in_month (month_index y m) n"
    using rng n month_first_step [of "month_index y m"] by (simp add: in_month_def)
qed

lemma civil_of_day_number:
  assumes "1 \<le> m" "m \<le> 12" "1 \<le> d" "d \<le> days_in y m"
  shows "civil_of (day_number y m d) = (y, m, d)"
proof -
  obtain y' m' d' where c: "civil_of (day_number y m d) = (y', m', d')" by (metis prod_cases3)
  have "(12 * y + (m - 1)) div 12 = y" "(12 * y + (m - 1)) mod 12 + 1 = m" using assms by simp_all
  then have "in_month (month_index y m) (day_number y m d)"
    using assms month_first_step [of "month_index y m"] by (simp add: in_month_def day_number_first)
  then have i: "month_index y' m' = month_index y m" using in_month_unique civil_of(5) [OF c] by blast
  then have "y' = y" "m' = m" using civil_of(1,2) [OF c] assms by presburger+
  then show ?thesis using civil_of(6) [OF c] c by (simp add: day_number_first)
qed

section \<open>Instants and dates\<close>

lemma day_ns_pos [simp]: "0 < day_ns"
  by (simp add: day_ns_def)

lemma clock_of_bounds: "0 \<le> clock_of loc t" "clock_of loc t < day_ns"
  by (simp_all add: clock_of_def)

lemma instant_split: "t = local_day loc t * day_ns + clock_of loc t - loc"
  using div_mult_mod_eq [of "t + loc" day_ns] by (simp add: local_day_def clock_of_def)

lemma local_day_Date [simp]: "0 \<le> c \<Longrightarrow> c < day_ns \<Longrightarrow> local_day loc (time_Date loc y m d c) = day_number y m d"
  by (simp add: local_day_def time_Date_def)

lemma clock_of_Date [simp]: "0 \<le> c \<Longrightarrow> c < day_ns \<Longrightarrow> clock_of loc (time_Date loc y m d c) = c"
  by (simp add: clock_of_def time_Date_def)

text \<open>Instants compare by day first and by clock within a day.\<close>

lemma instant_le_iff:
  "s \<le> t \<longleftrightarrow> local_day loc s < local_day loc t \<or> local_day loc s = local_day loc t \<and> clock_of loc s \<le> clock_of loc t"
proof -
  have *: "x * day_ns + day_ns \<le> y * day_ns" if "x < y" for x y
    using mult_right_mono [of "x + 1" y day_ns] that day_ns_pos by (simp add: distrib_right)
  show ?thesis
    using instant_split [of s loc] instant_split [of t loc] clock_of_bounds [of loc s] clock_of_bounds [of loc t]
      * [of "local_day loc s" "local_day loc t"] * [of "local_day loc t" "local_day loc s"]
    by (cases "local_day loc s" "local_day loc t" rule: linorder_cases) auto
qed

text \<open>Adding days moves the day by that many and keeps the clock.\<close>

lemma AddDate_days: "AddDate loc t 0 0 days = t + days * day_ns"
proof -
  obtain y m d where c: "civil_of (local_day loc t) = (y, m, d)" by (metis prod_cases3)
  have "day_number y m (d + days) = local_day loc t + days"
    using civil_of(6) [OF c] by (simp add: day_number_first)
  then show ?thesis
    using instant_split [of t loc] c by (simp add: AddDate_def time_Date_def distrib_right)
qed

end
