(* ===== verification/Bandwidth.thy ===== *)
theory Bandwidth
  imports Go_Time Go_Strings
begin

text \<open>
  The per-provider download quotas of \<^verbatim>\<open>src/internal/nntp/bandwidth.go\<close>: the quota rule and its reset
  boundaries, the byte counter that the socket reader feeds, the tier a provider serves at, and the ledger
  that carries the counters over a restart. The tracker is passed explicitly; a provider is named by its
  host, which the code's map from hosts to trackers never changes. The wall clock, the result of a file
  write, and \<^verbatim>\<open>config.ParseSize\<close> are arguments. The ledger file is what it decodes to: \<^term>\<open>None\<close> when
  it is missing or not the JSON that \<open>save\<close> writes.
\<close>

section \<open>Quota rules\<close>

record providerQuota =
  limitBytes :: int
  reserveBytes :: int
  period :: string
  resetDay :: int
  resetHour :: int

definition softThreshold :: "providerQuota \<Rightarrow> int" where
  "softThreshold q =
     (if limitBytes q \<le> 0 then 0 else let s = i64 (limitBytes q - reserveBytes q) in if s < 0 then 0 else s)"

record UsenetProvider =
  Host :: string
  Backbone :: string
  MaxConnections :: int
  Backup :: bool
  Quota :: string
  QuotaPeriod :: string
  QuotaResetDay :: int
  QuotaResetHour :: int
  Reserve :: string

definition normalizePeriod :: "string \<Rightarrow> string" where
  "normalizePeriod s =
     (let t = lower_ascii (strings_TrimSpace s)
      in if t = ''day'' \<or> t = ''daily'' then ''day'' else if t = ''month'' \<or> t = ''monthly'' then ''month'' else ''week'')"

definition quota_limit :: "(string \<Rightarrow> int option) \<Rightarrow> UsenetProvider \<Rightarrow> int" where
  "quota_limit ParseSize p =
     (if Quota p \<noteq> [] then case ParseSize (Quota p) of Some n \<Rightarrow> if n > 0 then n else 0 | None \<Rightarrow> 0 else 0)"

definition quota_reserve :: "(string \<Rightarrow> int option) \<Rightarrow> UsenetProvider \<Rightarrow> int \<Rightarrow> int" where
  "quota_reserve ParseSize p limit =
     (if limit > 0 then
        let r = (if Reserve p \<noteq> [] then case ParseSize (Reserve p) of Some n \<Rightarrow> if n \<ge> 0 then n else 0 | None \<Rightarrow> 0
                 else go_div limit 10)
        in if r > limit then limit else r
      else 0)"

definition parseProviderQuota :: "(string \<Rightarrow> int option) \<Rightarrow> UsenetProvider \<Rightarrow> providerQuota" where
  "parseProviderQuota ParseSize p =
     (let per = normalizePeriod (QuotaPeriod p);
          limit = quota_limit ParseSize p;
          hour = (if QuotaResetHour p < 0 \<or> QuotaResetHour p > 23 then 0 else QuotaResetHour p);
          day = (if per = ''week'' then go_mod (go_mod (QuotaResetDay p) 7 + 7) 7
                 else if per = ''month'' then
                   (let d = (if QuotaResetDay p < 1 then 1 else QuotaResetDay p) in if d > 31 then 31 else d)
                 else QuotaResetDay p)
      in \<lparr>limitBytes = limit, reserveBytes = quota_reserve ParseSize p limit, period = per, resetDay = day, resetHour = hour\<rparr>)"

section \<open>Reset boundaries\<close>

definition clampDay :: "int \<Rightarrow> int \<Rightarrow> int \<Rightarrow> int" where
  "clampDay y m wanted =
     (let wanted = (if wanted < 1 then 1 else wanted);
          last_day = (case civil_of (local_day 0 (time_Date 0 y (m + 1) 0 0)) of (_, _, d) \<Rightarrow> d)
      in if wanted > last_day then last_day else wanted)"

definition currentWindowStart :: "int \<Rightarrow> int \<Rightarrow> providerQuota \<Rightarrow> int" where
  "currentWindowStart loc now q =
     (let h = resetHour q * hour_ns in
      case civil_of (local_day loc now) of (y, m, d) \<Rightarrow>
        if period q = ''day'' then
          (let s = time_Date loc y m d h in if s > now then AddDate loc s 0 0 (- 1) else s)
        else if period q = ''month'' then
          (let s = time_Date loc y m (clampDay y m (resetDay q)) h
           in if s > now then
                (case civil_of (local_day loc (AddDate loc now 0 (- 1) 0)) of (py, pm, pd) \<Rightarrow>
                   time_Date loc py pm (clampDay py pm (resetDay q)) h)
              else s)
        else
          (let s = time_Date loc y m d h;
               back = go_mod (weekday (local_day loc s) - resetDay q + 7) 7;
               s = AddDate loc s 0 0 (- back)
           in if s > now then AddDate loc s 0 0 (- 7) else s))"

definition nextReset :: "int \<Rightarrow> int \<Rightarrow> providerQuota \<Rightarrow> int" where
  "nextReset loc now q =
     (let start = currentWindowStart loc now q in
      if period q = ''day'' then AddDate loc start 0 0 1
      else if period q = ''month'' then
        (case civil_of (local_day loc (AddDate loc start 0 1 0)) of (y, m, d) \<Rightarrow>
           time_Date loc y m (clampDay y m (resetDay q)) (resetHour q * hour_ns))
      else AddDate loc start 0 0 7)"

section \<open>The tracker\<close>

datatype QuotaTier = QuotaNormal | QuotaReserve | QuotaBlocked

record bwProvider =
  used :: int
  periodStart :: int
  quota :: providerQuota
  loggedBlock :: bool
  loggedReserve :: bool

record persistedProvider =
  BytesUsed :: int
  PeriodStart :: "int option"

type_synonym persistedState = "string \<rightharpoonup> persistedProvider"

record BandwidthTracker =
  byHost :: "string \<rightharpoonup> bwProvider"
  ledger :: "persistedState option"
  dirty :: bool

record ProviderBandwidthSnapshot =
  snap_BytesUsed :: int
  snap_QuotaBytes :: int
  snap_ReserveBytes :: int
  snap_SoftThreshold :: int
  snap_Period :: string
  snap_ResetAt :: "int option"
  snap_Exceeded :: bool
  snap_FillOnly :: bool

definition rollIfNeeded :: "int \<Rightarrow> BandwidthTracker \<Rightarrow> string \<Rightarrow> int \<Rightarrow> BandwidthTracker" where
  "rollIfNeeded loc bt host now =
     (case byHost bt host of None \<Rightarrow> bt
      | Some bp \<Rightarrow>
          let ws = currentWindowStart loc now (quota bp)
          in if periodStart bp = ws then bt
             else bt\<lparr>byHost := (byHost bt)(host \<mapsto> bp\<lparr>periodStart := ws, used := 0, loggedBlock := False, loggedReserve := False\<rparr>),
                     dirty := True\<rparr>)"

definition load_provider :: "persistedState \<Rightarrow> string \<Rightarrow> bwProvider \<Rightarrow> bwProvider" where
  "load_provider st host bp =
     (case st host of None \<Rightarrow> bp
      | Some pp \<Rightarrow> (case PeriodStart pp of None \<Rightarrow> bp\<lparr>used := BytesUsed pp\<rparr>
          | Some ps \<Rightarrow> bp\<lparr>used := BytesUsed pp, periodStart := ps\<rparr>))"

definition load :: "BandwidthTracker \<Rightarrow> BandwidthTracker" where
  "load bt =
     (case ledger bt of None \<Rightarrow> bt
      | Some st \<Rightarrow> bt\<lparr>byHost := (\<lambda>host. map_option (load_provider st host) (byHost bt host))\<rparr>)"

definition save :: "bool \<Rightarrow> BandwidthTracker \<Rightarrow> BandwidthTracker" where
  "save ok bt =
     (if ok then bt\<lparr>ledger := Some (\<lambda>host. map_option (\<lambda>bp. \<lparr>BytesUsed = used bp, PeriodStart = Some (periodStart bp)\<rparr>) (byHost bt host))\<rparr>
      else bt)"

definition fresh_provider :: "(string \<Rightarrow> int option) \<Rightarrow> UsenetProvider \<Rightarrow> bwProvider" where
  "fresh_provider ParseSize p =
     \<lparr>used = 0, periodStart = 0, quota = parseProviderQuota ParseSize p, loggedBlock = False, loggedReserve = False\<rparr>"

definition init_provider :: "int \<Rightarrow> int \<Rightarrow> BandwidthTracker \<Rightarrow> string \<Rightarrow> BandwidthTracker" where
  "init_provider loc now bt host =
     (case byHost bt host of None \<Rightarrow> bt
      | Some bp \<Rightarrow>
          if periodStart bp = 0 then bt\<lparr>byHost := (byHost bt)(host \<mapsto> bp\<lparr>periodStart := currentWindowStart loc now (quota bp)\<rparr>)\<rparr>
          else rollIfNeeded loc bt host now)"

definition newBandwidthTracker ::
    "(string \<Rightarrow> int option) \<Rightarrow> int \<Rightarrow> UsenetProvider list \<Rightarrow> persistedState option \<Rightarrow> int \<Rightarrow> BandwidthTracker" where
  "newBandwidthTracker ParseSize loc providers file now =
     (let bt = \<lparr>byHost = (\<lambda>_. None), ledger = file, dirty = False\<rparr>;
          bt = fold (\<lambda>p bt. bt\<lparr>byHost := (byHost bt)(Host p \<mapsto> fresh_provider ParseSize p)\<rparr>) providers bt
      in fold (\<lambda>host bt. init_provider loc now bt host) (remdups (map Host providers)) (load bt))"

text \<open>One read of \<^verbatim>\<open>countingReader\<close> that delivered \<open>n\<close> bytes; the reader of an unknown host is not wrapped.\<close>

definition countingReader_Read :: "BandwidthTracker \<Rightarrow> string \<Rightarrow> int \<Rightarrow> BandwidthTracker" where
  "countingReader_Read bt host n =
     (case byHost bt host of None \<Rightarrow> bt
      | Some bp \<Rightarrow> if n > 0 then bt\<lparr>byHost := (byHost bt)(host \<mapsto> bp\<lparr>used := i64 (used bp + n)\<rparr>), dirty := True\<rparr> else bt)"

definition usage_tier :: "providerQuota \<Rightarrow> int \<Rightarrow> QuotaTier" where
  "usage_tier q u = (if u \<ge> limitBytes q then QuotaBlocked else if u \<ge> softThreshold q then QuotaReserve else QuotaNormal)"

definition tierOf :: "int \<Rightarrow> BandwidthTracker \<Rightarrow> string \<Rightarrow> bwProvider \<Rightarrow> int \<Rightarrow> (QuotaTier \<times> int) \<times> BandwidthTracker" where
  "tierOf loc bt host bp now =
     (if limitBytes (quota bp) \<le> 0 then ((QuotaNormal, used bp), bt)
      else
        let bt = rollIfNeeded loc bt host now;
            u = (case byHost bt host of Some bp \<Rightarrow> used bp | None \<Rightarrow> 0)
        in ((usage_tier (quota bp) u, u), bt))"

definition Tier :: "int \<Rightarrow> BandwidthTracker \<Rightarrow> string \<Rightarrow> int \<Rightarrow> QuotaTier \<times> BandwidthTracker" where
  "Tier loc bt host now =
     (case byHost bt host of None \<Rightarrow> (QuotaNormal, bt)
      | Some bp \<Rightarrow>
          (case tierOf loc bt host bp now of ((t, u), bt) \<Rightarrow>
             (t, bt\<lparr>byHost := (byHost bt)(host := map_option (\<lambda>bp.
                 case t of QuotaBlocked \<Rightarrow> bp\<lparr>loggedBlock := True\<rparr> | QuotaReserve \<Rightarrow> bp\<lparr>loggedReserve := True\<rparr>
                 | QuotaNormal \<Rightarrow> bp) (byHost bt host))\<rparr>)))"

definition Snapshot :: "int \<Rightarrow> BandwidthTracker \<Rightarrow> string \<Rightarrow> int \<Rightarrow> ProviderBandwidthSnapshot option \<times> BandwidthTracker" where
  "Snapshot loc bt host now =
     (case byHost bt host of None \<Rightarrow> (None, bt)
      | Some bp \<Rightarrow>
          (case tierOf loc bt host bp now of ((t, u), bt) \<Rightarrow>
             let q = quota bp; capped = limitBytes q > 0
             in (Some \<lparr>snap_BytesUsed = u, snap_QuotaBytes = limitBytes q, snap_ReserveBytes = reserveBytes q,
                   snap_SoftThreshold = (if capped then softThreshold q else 0), snap_Period = period q,
                   snap_ResetAt = (if capped then Some (nextReset loc now q) else None),
                   snap_Exceeded = (t = QuotaBlocked), snap_FillOnly = (t = QuotaReserve)\<rparr>, bt)))"

text \<open>A tick of \<^verbatim>\<open>saveLoop\<close>, and the flush when the tracker is closed.\<close>

definition saveLoop_tick :: "bool \<Rightarrow> BandwidthTracker \<Rightarrow> BandwidthTracker" where
  "saveLoop_tick ok bt = (if dirty bt then save ok (bt\<lparr>dirty := False\<rparr>) else bt)"

definition Close :: "bool \<Rightarrow> BandwidthTracker \<Rightarrow> BandwidthTracker" where
  "Close ok bt = save ok bt"

section \<open>The role of a provider\<close>

datatype Priority = PriorityNormal | PriorityUrgent

datatype serveTier = tierLead | tierFill | tierBlocked

definition providerTier :: "int \<Rightarrow> BandwidthTracker option \<Rightarrow> Priority \<Rightarrow> UsenetProvider \<Rightarrow> int \<Rightarrow> serveTier \<times> BandwidthTracker option" where
  "providerTier loc bw priority p now =
     (let (t, bw) = (case bw of None \<Rightarrow> (QuotaNormal, None) | Some bt \<Rightarrow> (case Tier loc bt (Host p) now of (t, bt) \<Rightarrow> (t, Some bt)))
      in (case t of QuotaBlocked \<Rightarrow> tierBlocked
          | QuotaReserve \<Rightarrow> if \<not> Backup p \<and> priority = PriorityUrgent then tierLead else tierFill
          | QuotaNormal \<Rightarrow> if Backup p then tierFill else tierLead, bw))"

fun HasLeadHeadroom :: "int \<Rightarrow> BandwidthTracker option \<Rightarrow> UsenetProvider list \<Rightarrow> int \<Rightarrow> bool \<times> BandwidthTracker option" where
  "HasLeadHeadroom loc bw [] now = (False, bw)"
| "HasLeadHeadroom loc bw (p # ps) now =
     (if Backup p then HasLeadHeadroom loc bw ps now
      else case providerTier loc bw PriorityNormal p now of (t, bw) \<Rightarrow>
        if t = tierLead then (True, bw) else HasLeadHeadroom loc bw ps now)"

definition tierLabel :: "serveTier \<Rightarrow> string" where
  "tierLabel t = (if t = tierLead then ''primary'' else ''backup'')"

end
