(* ===== verification/Quota_Windows.thy ===== *)
theory Quota_Windows
  imports Bandwidth
begin

text \<open>
  When a quota resets: the window that \<open>currentWindowStart\<close> computes against the reset boundaries its
  quota rule describes.
\<close>

section \<open>Well-formed quotas\<close>

definition wf_quota :: "providerQuota \<Rightarrow> bool" where
  "wf_quota q \<longleftrightarrow> 0 \<le> limitBytes q \<and> 0 \<le> reserveBytes q \<and> reserveBytes q \<le> limitBytes q \<and>
     period q \<in> {''day'', ''week'', ''month''} \<and> 0 \<le> resetHour q \<and> resetHour q \<le> 23 \<and>
     (period q = ''week'' \<longrightarrow> 0 \<le> resetDay q \<and> resetDay q \<le> 6) \<and> (period q = ''month'' \<longrightarrow> 1 \<le> resetDay q \<and> resetDay q \<le> 31)"

lemma go_mod_bounds: "0 < b \<Longrightarrow> - b < go_mod a b \<and> go_mod a b < b"
proof -
  assume b: "0 < b"
  have "b * (c div b) = c - c mod b" for c by (rule minus_mod_eq_mult_div [symmetric])
  then have "go_mod a b = sgn a * (\<bar>a\<bar> mod b)"
    using b by (cases a "0::int" rule: linorder_cases) (auto simp: go_mod_def go_div_def)
  moreover obtain r where "\<bar>a\<bar> mod b = r" "0 \<le> r" "r < b" using b by auto
  ultimately show ?thesis by (cases a "0::int" rule: linorder_cases) simp_all
qed

lemma parseProviderQuota_wf: "wf_quota (parseProviderQuota ParseSize p)"
proof -
  have per: "normalizePeriod s \<in> {''day'', ''week'', ''month''}" for s
    by (simp add: normalizePeriod_def Let_def)
  have lim: "0 \<le> quota_limit ParseSize p" by (simp add: quota_limit_def split: option.split)
  then have "0 \<le> quota_reserve ParseSize p (quota_limit ParseSize p) \<and>
      quota_reserve ParseSize p (quota_limit ParseSize p) \<le> quota_limit ParseSize p"
    by (auto simp: quota_reserve_def Let_def split: option.split)
  moreover have "0 \<le> go_mod (go_mod d 7 + 7) 7 \<and> go_mod (go_mod d 7 + 7) 7 \<le> 6" for d
    using go_mod_bounds [of 7 d] by simp
  ultimately show ?thesis
    using lim per [of "QuotaPeriod p"] by (auto simp: wf_quota_def parseProviderQuota_def Let_def)
qed

section \<open>Boundaries\<close>

text \<open>The instants at which a quota resets: at the reset hour of every day, of one day of the week, or of
  one day of the month, which is the last day in a month too short to have it.\<close>

definition reset_on :: "providerQuota \<Rightarrow> int \<Rightarrow> bool" where
  "reset_on q n \<longleftrightarrow> (period q = ''week'' \<longrightarrow> weekday n = resetDay q) \<and>
     (period q = ''month'' \<longrightarrow> (case civil_of n of (y, m, d) \<Rightarrow> d = min (resetDay q) (days_in y m)))"

definition boundary :: "int \<Rightarrow> providerQuota \<Rightarrow> int \<Rightarrow> bool" where
  "boundary loc q t \<longleftrightarrow> clock_of loc t = resetHour q * hour_ns \<and> reset_on q (local_day loc t)"

definition latest_boundary :: "int \<Rightarrow> providerQuota \<Rightarrow> int \<Rightarrow> int \<Rightarrow> bool" where
  "latest_boundary loc q now s \<longleftrightarrow> boundary loc q s \<and> s \<le> now \<and> (\<forall>t. boundary loc q t \<and> t \<le> now \<longrightarrow> t \<le> s)"

lemma reset_clock: "wf_quota q \<Longrightarrow> 0 \<le> resetHour q * hour_ns" "wf_quota q \<Longrightarrow> resetHour q * hour_ns < day_ns"
  by (auto simp: wf_quota_def hour_ns_def day_ns_def)

lemma day_number_civil: "civil_of n = (y, m, d) \<Longrightarrow> day_number y m d = n"
  using civil_of(6) by (simp add: day_number_first)

text \<open>The last day whose reset hour has passed. A boundary has passed exactly when its day is not after it,
  so the latest boundary is the one on the latest reset day up to it.\<close>

definition last_day :: "int \<Rightarrow> providerQuota \<Rightarrow> int \<Rightarrow> int" where
  "last_day loc q now = (if resetHour q * hour_ns \<le> clock_of loc now then local_day loc now else local_day loc now - 1)"

lemma passed_iff: "clock_of loc t = resetHour q * hour_ns \<Longrightarrow> t \<le> now \<longleftrightarrow> local_day loc t \<le> last_day loc q now"
  by (subst instant_le_iff [of _ _ loc]) (auto simp: last_day_def)

lemma boundary_le_iff:
  "clock_of loc s = resetHour q * hour_ns \<Longrightarrow> clock_of loc t = resetHour q * hour_ns \<Longrightarrow> s \<le> t \<longleftrightarrow> local_day loc s \<le> local_day loc t"
  by (subst instant_le_iff [of _ _ loc]) auto

lemma latest_boundaryI:
  assumes "clock_of loc s = resetHour q * hour_ns" "reset_on q (local_day loc s)" "local_day loc s \<le> last_day loc q now"
    and "\<And>n. reset_on q n \<Longrightarrow> n \<le> last_day loc q now \<Longrightarrow> n \<le> local_day loc s"
  shows "latest_boundary loc q now s"
proof -
  have "t \<le> s" if t: "boundary loc q t" "t \<le> now" for t
    using assms(4) [of "local_day loc t"] t passed_iff [of loc t q now] boundary_le_iff [OF _ assms(1), of t]
    by (simp add: boundary_def)
  then show ?thesis using assms(1-3) passed_iff [of loc s q now] by (simp add: latest_boundary_def boundary_def)
qed

lemma instant_shift:
  "local_day loc (t + k * day_ns) = local_day loc t + k" "clock_of loc (t + k * day_ns) = clock_of loc t"
proof -
  have t: "t + k * day_ns + loc = (t + loc) + k * day_ns" by simp
  have "day_ns \<noteq> 0" by (simp add: day_ns_def)
  then show "local_day loc (t + k * day_ns) = local_day loc t + k"
    unfolding local_day_def t by (metis add.commute div_mult_self1)
  show "clock_of loc (t + k * day_ns) = clock_of loc t"
    unfolding clock_of_def t by (rule mod_mult_self1)
qed

subsection \<open>Daily and weekly\<close>

lemma day_window:
  assumes q: "wf_quota q" "period q = ''day''"
  shows "latest_boundary loc q now (currentWindowStart loc now q)"
proof -
  obtain y m d where c: "civil_of (local_day loc now) = (y, m, d)" by (metis prod_cases3)
  define s where "s = time_Date loc y m d (resetHour q * hour_ns)"
  have s: "local_day loc s = local_day loc now" "clock_of loc s = resetHour q * hour_ns"
    using reset_clock [OF q(1)] day_number_civil [OF c] by (simp_all add: s_def)
  have w: "currentWindowStart loc now q = (if s > now then s + (- 1) * day_ns else s)"
    using q c by (simp add: currentWindowStart_def s_def AddDate_days)
  have late: "s > now \<longleftrightarrow> last_day loc q now < local_day loc now" using passed_iff [OF s(2)] s by (metis not_le)
  then show ?thesis
    using s q instant_shift [of loc s "- 1"] unfolding w
    by (intro latest_boundaryI) (auto simp: reset_on_def last_day_def split: if_splits)
qed

lemma weekday_back: "weekday (n - (weekday n - r) mod 7) = r mod 7"
proof -
  have "n - (weekday n - r) mod 7 + 4 - r = 7 * ((weekday n - r) div 7 + (n + 4) div 7)"
    using minus_mod_eq_mult_div [of "weekday n - r" 7] minus_mod_eq_mult_div [of "n + 4" 7] by (simp add: weekday_def)
  then show ?thesis
    unfolding weekday_def [of "n - _"] mod_eq_dvd_iff by (metis dvd_triv_left)
qed

lemma weekday_eq_dvd: "weekday a = weekday b \<longleftrightarrow> 7 dvd a - b"
  by (simp add: weekday_def mod_eq_dvd_iff)

lemma week_window:
  assumes q: "wf_quota q" "period q = ''week''"
  shows "latest_boundary loc q now (currentWindowStart loc now q)"
proof -
  obtain y m d where c: "civil_of (local_day loc now) = (y, m, d)" by (metis prod_cases3)
  let ?h = "resetHour q * hour_ns" and ?n = "local_day loc now"
  have r: "0 \<le> resetDay q" "resetDay q \<le> 6" using q by (auto simp: wf_quota_def)
  define bk where "bk = (weekday ?n - resetDay q) mod 7"
  define s where "s = time_Date loc y m d ?h + (- bk) * day_ns"
  have date: "local_day loc (time_Date loc y m d ?h) = ?n" "clock_of loc (time_Date loc y m d ?h) = ?h"
    using reset_clock [OF q(1)] day_number_civil [OF c] by simp_all
  have s: "local_day loc s = ?n - bk" "clock_of loc s = ?h"
    unfolding s_def instant_shift date by simp_all
  have "0 \<le> weekday ?n" by (simp add: weekday_def)
  then have "go_mod (weekday ?n - resetDay q + 7) 7 = bk" using r by (simp add: bk_def)
  then have w: "currentWindowStart loc now q = (if s > now then s + (- 7) * day_ns else s)"
    using q c date by (simp add: currentWindowStart_def s_def AddDate_days)
  have on: "weekday (?n - bk) = resetDay q" using weekday_back [of ?n "resetDay q"] r by (simp add: bk_def)
  have b: "0 \<le> bk" "bk < 7" by (simp_all add: bk_def)
  have late: "s > now \<longleftrightarrow> bk = 0 \<and> last_day loc q now = ?n - 1"
    using passed_iff [OF s(2), of now] s(1) b by (auto simp: last_day_def not_le [symmetric] split: if_splits)
  show ?thesis
  proof (rule latest_boundaryI)
    show "clock_of loc (currentWindowStart loc now q) = ?h" using s(2) instant_shift(2) [of loc s "- 7"] by (simp add: w)
    show "reset_on q (local_day loc (currentWindowStart loc now q))"
      using q on s(1) instant_shift(1) [of loc s "- 7"] weekday_eq_dvd [of "?n - bk" "?n - bk - 7"] by (simp add: w reset_on_def)
    show "local_day loc (currentWindowStart loc now q) \<le> last_day loc q now"
      using late s(1) b instant_shift(1) [of loc s "- 7"] by (auto simp: w last_day_def)
    fix n assume n: "reset_on q n" "n \<le> last_day loc q now"
    then have "7 dvd n - (?n - bk)" using q on weekday_eq_dvd [of n "?n - bk"] by (simp add: reset_on_def)
    then obtain k where k: "n - (?n - bk) = 7 * k" by (rule dvdE)
    moreover have "n \<le> ?n" using n(2) by (auto simp: last_day_def split: if_splits)
    ultimately have "k \<le> 0" using b by linarith
    moreover have "k \<le> - 1" if "s > now" using that late n(2) k by auto
    ultimately show "n \<le> local_day loc (currentWindowStart loc now q)"
      using k s(1) instant_shift(1) [of loc s "- 7"] by (auto simp: w)
  qed
qed

subsection \<open>Monthly\<close>

lemma clampDay: "1 \<le> m \<Longrightarrow> m \<le> 12 \<Longrightarrow> 1 \<le> r \<Longrightarrow> clampDay y m r = min r (days_in y m)"
proof -
  assume m: "1 \<le> m" "m \<le> 12" and r: "1 \<le> r"
  have i: "(12 * y + (m - 1)) div 12 = y" "(12 * y + (m - 1)) mod 12 + 1 = m" using m by simp_all
  have "day_number y (m + 1) 0 = day_number y m (days_in y m)"
    using month_first_step [of "month_index y m"] i by (simp add: day_number_first)
  then have "civil_of (day_number y (m + 1) 0) = (y, m, days_in y m)"
    using civil_of_day_number m days_in_bounds(1) [OF m, of y] by simp
  then show ?thesis using r by (simp add: clampDay_def Let_def min_def)
qed

text \<open>The reset day of a month, by the month's number.\<close>

definition month_reset :: "providerQuota \<Rightarrow> int \<Rightarrow> int" where
  "month_reset q i = month_first i + min (resetDay q) (days_in (i div 12) (i mod 12 + 1)) - 1"

lemma month_index_inverse: "1 \<le> m \<Longrightarrow> m \<le> 12 \<Longrightarrow> month_index y m div 12 = y" "1 \<le> m \<Longrightarrow> m \<le> 12 \<Longrightarrow> month_index y m mod 12 + 1 = m"
  by simp_all

lemma month_reset_in_month: "1 \<le> resetDay q \<Longrightarrow> in_month i (month_reset q i)"
proof -
  have "0 \<le> i mod 12" "i mod 12 < 12" by simp_all
  then have "28 \<le> days_in (i div 12) (i mod 12 + 1)" by (intro days_in_bounds) linarith+
  moreover assume "1 \<le> resetDay q"
  ultimately show ?thesis by (simp add: in_month_def month_reset_def month_first_step)
qed

lemma month_reset_mono:
  assumes "1 \<le> resetDay q"
  shows "month_reset q i \<le> month_reset q j \<longleftrightarrow> i \<le> j"
  using in_month_mono [OF month_reset_in_month month_reset_in_month, OF assms assms]
  by (metis linorder_le_cases order.antisym)

lemma reset_on_month:
  assumes "period q = ''month''" "1 \<le> resetDay q"
  shows "reset_on q n \<longleftrightarrow> (\<exists>i. n = month_reset q i)"
proof -
  obtain y m d where c: "civil_of n = (y, m, d)" by (metis prod_cases3)
  note mi = month_index_inverse [OF civil_of(1,2) [OF c]]
  have "reset_on q n \<longleftrightarrow> n = month_reset q (month_index y m)"
    using c civil_of(6) [OF c] assms(1) unfolding month_reset_def mi by (auto simp: reset_on_def)
  moreover have "i = month_index y m" if "n = month_reset q i" for i
    using that in_month_unique month_reset_in_month [OF assms(2), of i] civil_of(5) [OF c] by blast
  ultimately show ?thesis by blast
qed

lemma month_date: "1 \<le> m \<Longrightarrow> m \<le> 12 \<Longrightarrow> 1 \<le> resetDay q \<Longrightarrow> day_number y m (clampDay y m (resetDay q)) = month_reset q (month_index y m)"
  unfolding month_reset_def month_index_inverse by (simp add: day_number_first clampDay)

text \<open>Going back one calendar month from a day of the month that the month before does not have ends in the same
  month, as the missing days are counted on from its end.\<close>

lemma month_before:
  assumes c: "civil_of n = (y, m, d)" and p: "civil_of (day_number y (m - 1) d) = (py, pm, pd)"
  defines "i \<equiv> month_index y m"
  shows "month_index py pm = (if d \<le> days_in ((i - 1) div 12) ((i - 1) mod 12 + 1) then i - 1 else i)"
proof -
  have "0 \<le> (i - 1) mod 12" "(i - 1) mod 12 < 12" by simp_all
  then have len: "28 \<le> days_in ((i - 1) div 12) ((i - 1) mod 12 + 1)" by (intro days_in_bounds) linarith+
  have "d \<le> 31" using civil_of(4) [OF c] days_in_bounds(2) [OF civil_of(1,2) [OF c], of y] by linarith
  have n: "day_number y (m - 1) d = month_first (i - 1) + d - 1"
    using day_number_first [of y "m - 1" d] by (simp add: i_def add_diff_eq)
  have "in_month (if d \<le> days_in ((i - 1) div 12) ((i - 1) mod 12 + 1) then i - 1 else i) (day_number y (m - 1) d)"
    using civil_of(3) [OF c] \<open>d \<le> 31\<close> len month_first_step [of "i - 1"] month_first_next [of i]
    unfolding n in_month_def by auto
  then show ?thesis using in_month_unique civil_of(5) [OF p] by blast
qed

lemma month_window:
  assumes q: "wf_quota q" "period q = ''month''" and c: "civil_of (local_day loc now) = (y, m, d)"
  defines "i \<equiv> month_index y m"
  defines "j \<equiv> (if last_day loc q now < month_reset q i \<and> d \<le> days_in ((i - 1) div 12) ((i - 1) mod 12 + 1) then i - 1 else i)"
  shows "clock_of loc (currentWindowStart loc now q) = resetHour q * hour_ns"
    "local_day loc (currentWindowStart loc now q) = month_reset q j"
    "latest_boundary loc q now (currentWindowStart loc now q) \<longleftrightarrow> month_reset q j \<le> last_day loc q now"
proof -
  let ?h = "resetHour q * hour_ns" and ?n = "local_day loc now" and ?w = "currentWindowStart loc now q"
  have r: "1 \<le> resetDay q" using q by (simp add: wf_quota_def)
  note h = reset_clock [OF q(1)]
  have date: "local_day loc (time_Date loc y' m' (clampDay y' m' (resetDay q)) ?h) = month_reset q (month_index y' m')"
    if "1 \<le> m'" "m' \<le> 12" for y' m' using h that r by (simp add: month_date)
  define s where "s = time_Date loc y m (clampDay y m (resetDay q)) ?h"
  have s: "local_day loc s = month_reset q i" "clock_of loc s = ?h"
    using date civil_of(1,2) [OF c] h by (simp_all add: s_def i_def)
  obtain py pm pd where p: "civil_of (day_number y (m - 1) d) = (py, pm, pd)" by (metis prod_cases3)
  have back_day: "local_day loc (AddDate loc now 0 (- 1) 0) = day_number y (m - 1) d"
    using c clock_of_bounds by (simp add: AddDate_def)
  have w: "?w = (if s > now then time_Date loc py pm (clampDay py pm (resetDay q)) ?h else s)"
    using q c p back_day by (simp add: currentWindowStart_def s_def Let_def)
  show clock: "clock_of loc ?w = ?h" using h s(2) by (simp add: w)
  have late: "s > now \<longleftrightarrow> last_day loc q now < month_reset q i" using passed_iff [OF s(2), of now] s(1) by auto
  show day: "local_day loc ?w = month_reset q j"
    using s(1) date [OF civil_of(1,2) [OF p]] month_before [OF c p, folded i_def] late by (simp add: w j_def)
  show "latest_boundary loc q now ?w \<longleftrightarrow> month_reset q j \<le> last_day loc q now"
  proof
    assume "latest_boundary loc q now ?w"
    then show "month_reset q j \<le> last_day loc q now"
      using passed_iff [OF clock, of now] by (simp add: latest_boundary_def day)
  next
    assume passed: "month_reset q j \<le> last_day loc q now"
    show "latest_boundary loc q now ?w"
    proof (rule latest_boundaryI [OF clock], unfold day)
      show "reset_on q (month_reset q j)" using reset_on_month [OF q(2) r] by blast
      show "month_reset q j \<le> last_day loc q now" by (rule passed)
      fix n assume "reset_on q n" and n: "n \<le> last_day loc q now"
      then obtain k where k: "n = month_reset q k" using reset_on_month [OF q(2) r] by blast
      have "n \<le> ?n" using n by (auto simp: last_day_def split: if_splits)
      then have "k \<le> i" using in_month_mono month_reset_in_month [OF r, of k] civil_of(5) [OF c] k i_def by blast
      moreover have "k \<noteq> i" if "last_day loc q now < month_reset q i" using n k that by auto
      ultimately have "k \<le> j" using passed by (auto simp: j_def split: if_splits)
      then show "n \<le> month_reset q j" using month_reset_mono [OF r] k by simp
    qed
  qed
qed

section \<open>The window of a quota\<close>

text \<open>The days of the month before.\<close>

definition previous_month_days :: "int \<Rightarrow> int \<Rightarrow> int" where
  "previous_month_days y m = (if m = 1 then days_in (y - 1) 12 else days_in y (m - 1))"

lemma previous_month_index:
  assumes "1 \<le> m" "m \<le> 12"
  shows "days_in ((month_index y m - 1) div 12) ((month_index y m - 1) mod 12 + 1) = previous_month_days y m"
proof (cases "m = 1")
  case True
  then have "month_index y m - 1 = month_index (y - 1) 12" by simp
  then show ?thesis using True month_index_inverse [of 12 "y - 1"] by (simp add: previous_month_days_def)
next
  case False
  then have "month_index y m - 1 = month_index y (m - 1)" "1 \<le> m - 1" "m - 1 \<le> 12" using assms by simp_all
  then show ?thesis
    using False month_index_inverse [of "m - 1" y] by (simp only: previous_month_days_def) simp
qed

text \<open>C29. A quota's window starts at its latest reset boundary, daily, weekly or monthly, with one exception that is
  exactly characterised: a monthly quota whose boundary in the current month is still to come, on a day of the month
  that the previous month does not have. There the computed start is not a boundary that has passed, so the usage
  is reset before the boundary.\<close>

theorem window_start_latest:
  assumes "wf_quota q" and "civil_of (local_day loc now) = (y, m, d)"
  shows "latest_boundary loc q now (currentWindowStart loc now q) \<longleftrightarrow>
    \<not> (period q = ''month'' \<and> previous_month_days y m < d \<and>
       now < time_Date loc y m (min (resetDay q) (days_in y m)) (resetHour q * hour_ns))"
proof (cases "period q = ''month''")
  case False
  then consider "period q = ''day''" | "period q = ''week''" using assms(1) by (auto simp: wf_quota_def)
  then show ?thesis using False day_window [OF assms(1)] week_window [OF assms(1)] by cases auto
next
  case month: True
  let ?s = "time_Date loc y m (min (resetDay q) (days_in y m)) (resetHour q * hour_ns)" and ?i = "month_index y m"
  have r: "1 \<le> resetDay q" using assms(1) month by (simp add: wf_quota_def)
  note m = civil_of(1,2) [OF assms(2)] and h = reset_clock [OF assms(1)]
  have s: "local_day loc ?s = month_reset q ?i" "clock_of loc ?s = resetHour q * hour_ns"
    using h month_date [OF m r] by (simp_all add: clampDay [OF m r])
  have late: "now < ?s \<longleftrightarrow> last_day loc q now < month_reset q ?i" using passed_iff [OF s(2), of now] s(1) by auto
  have "local_day loc now - 1 \<le> last_day loc q now" by (simp add: last_day_def)
  moreover have "month_reset q (?i - 1) < month_first ?i" "month_first ?i \<le> local_day loc now"
    using month_reset_in_month [OF r, of "?i - 1"] civil_of(5) [OF assms(2)]
    by (simp_all only: in_month_def diff_add_cancel)
  ultimately have "month_reset q (?i - 1) \<le> last_day loc q now" by linarith
  then show ?thesis
    using month_window(3) [OF assms(1) month assms(2)] month late previous_month_index [OF m, of y] by auto
qed

lemmas calendar_eval = civil_of_def year_of_def month_of_def days_before_year_def epoch_day_def leap_def days_in_def
  local_day_def clock_of_def time_Date_def day_number_def AddDate_def day_ns_def hour_ns_def Let_def

definition month_end_quota :: providerQuota where
  "month_end_quota = \<lparr>limitBytes = 100, reserveBytes = 10, period = ''month'', resetDay = 31, resetHour = 12\<rparr>"

text \<open>Noon of the thirtieth of March 2026, in UTC, under a quota that resets at noon of the last day of the month.\<close>

lemma march_30: "civil_of (local_day 0 1774872000000000000) = (2026, 3, 30)"
  by (simp add: calendar_eval)

theorem window_start_latest_witness:
  "wf_quota month_end_quota \<and> \<not> latest_boundary 0 month_end_quota 1774872000000000000 (currentWindowStart 0 1774872000000000000 month_end_quota)"
proof -
  have wf: "wf_quota month_end_quota" by (simp add: wf_quota_def month_end_quota_def)
  moreover have "previous_month_days 2026 3 = 28" "days_in 2026 3 = 31" by (simp_all add: previous_month_days_def calendar_eval)
  moreover have "time_Date 0 2026 3 31 (12 * hour_ns) = 1774958400000000000" by (simp add: calendar_eval)
  ultimately show ?thesis
    using window_start_latest [OF wf march_30] by (simp add: month_end_quota_def)
qed

text \<open>In the exceptional case the computed start is the boundary still to come.\<close>

lemma month_window_starts_early:
  assumes q: "wf_quota q" "period q = ''month''" and c: "civil_of (local_day loc now) = (y, m, d)"
    and "previous_month_days y m < d" "now < time_Date loc y m (min (resetDay q) (days_in y m)) (resetHour q * hour_ns)"
  shows "currentWindowStart loc now q = time_Date loc y m (min (resetDay q) (days_in y m)) (resetHour q * hour_ns)"
proof -
  let ?s = "time_Date loc y m (min (resetDay q) (days_in y m)) (resetHour q * hour_ns)"
  have r: "1 \<le> resetDay q" using q by (simp add: wf_quota_def)
  note m = civil_of(1,2) [OF c] and h = reset_clock [OF q(1)]
  have "local_day loc ?s = month_reset q (month_index y m)" "clock_of loc ?s = resetHour q * hour_ns"
    using h month_date [OF m r] by (simp_all add: clampDay [OF m r])
  moreover have "local_day loc (currentWindowStart loc now q) = month_reset q (month_index y m)"
    using month_window(2) [OF q c] assms(4) previous_month_index [OF m, of y] by simp
  ultimately show ?thesis
    using instant_split [of "currentWindowStart loc now q" loc] instant_split [of ?s loc] month_window(1) [OF q c] by simp
qed

text \<open>The next reset that is shown after a boundary on the thirty-first of January is the thirty-first of March, past
  the boundary at the end of February.\<close>

lemma nextReset_skips_february:
  "nextReset 0 (time_Date 0 2026 2 1 0) month_end_quota = time_Date 0 2026 3 31 (12 * hour_ns)"
  "boundary 0 month_end_quota (time_Date 0 2026 2 28 (12 * hour_ns))"
proof -
  have noon: "0 \<le> 12 * hour_ns" "12 * hour_ns < day_ns" by (simp_all add: hour_ns_def day_ns_def)
  have valid: "days_in 2026 1 = 31" "days_in 2026 2 = 28" "days_in 2026 3 = 31" by (simp_all add: days_in_def leap_def)
  have dn: "day_number 2026 1 1 = 20454" "day_number 2026 2 1 = 20485" "day_number 2026 2 31 = 20515" "day_number 2026 2 28 = 20512"
    by (simp_all add: day_number_def days_before_year_def epoch_day_def leap_def)
  have c: "civil_of 20454 = (2026, 1, 1)" "civil_of 20485 = (2026, 2, 1)" "civil_of 20512 = (2026, 2, 28)" "civil_of 20484 = (2026, 1, 31)"
    "civil_of 20515 = (2026, 3, 3)"
    by (simp_all add: civil_of_def year_of_def month_of_def days_before_year_def epoch_day_def leap_def)
  have "day_number 2026 1 31 = 20484" by (simp add: day_number_def days_before_year_def epoch_day_def leap_def)
  moreover have "\<not> time_Date 0 2026 2 28 (12 * hour_ns) \<le> time_Date 0 2026 2 1 0"
    using noon by (simp add: time_Date_def dn day_ns_def)
  ultimately have start: "currentWindowStart 0 (time_Date 0 2026 2 1 0) month_end_quota = time_Date 0 2026 1 31 (12 * hour_ns)"
    by (simp add: currentWindowStart_def month_end_quota_def AddDate_def clampDay valid dn c)
  show "boundary 0 month_end_quota (time_Date 0 2026 2 28 (12 * hour_ns))"
    using noon by (simp add: boundary_def reset_on_def month_end_quota_def dn c valid)
  show "nextReset 0 (time_Date 0 2026 2 1 0) month_end_quota = time_Date 0 2026 3 31 (12 * hour_ns)"
    using noon \<open>day_number 2026 1 31 = 20484\<close> unfolding nextReset_def start
    by (simp add: month_end_quota_def AddDate_def clampDay valid dn c)
qed

end
