(* ===== verification/Quota_Usage.thy ===== *)
theory Quota_Usage
  imports Quota_Windows
begin

text \<open>
  What a provider has used: the counter of \<^verbatim>\<open>bandwidth.go\<close> over the events of its life, namely reads from the
  socket, tier checks, stats snapshots, ticks of the saver and restarts of the program.
\<close>

section \<open>One provider at a time\<close>

text \<open>Every operation acts on the tracker of one host by a function of that tracker alone.\<close>

definition roll_one :: "int \<Rightarrow> int \<Rightarrow> bwProvider \<Rightarrow> bwProvider" where
  "roll_one loc now bp =
     (let ws = currentWindowStart loc now (quota bp)
      in if periodStart bp = ws then bp else bp\<lparr>periodStart := ws, used := 0, loggedBlock := False, loggedReserve := False\<rparr>)"

definition init_one :: "int \<Rightarrow> int \<Rightarrow> bwProvider \<Rightarrow> bwProvider" where
  "init_one loc now bp =
     (if periodStart bp = 0 then bp\<lparr>periodStart := currentWindowStart loc now (quota bp)\<rparr> else roll_one loc now bp)"

lemma rollIfNeeded_byHost:
  "byHost (rollIfNeeded loc bt h now) host = (if host = h then map_option (roll_one loc now) (byHost bt host) else byHost bt host)"
  by (auto simp: rollIfNeeded_def roll_one_def Let_def split: option.split)

lemma init_provider_byHost:
  "byHost (init_provider loc now bt h) host = (if host = h then map_option (init_one loc now) (byHost bt host) else byHost bt host)"
  by (auto simp: init_provider_def init_one_def rollIfNeeded_byHost split: option.split)

lemma init_all_byHost:
  "distinct hosts \<Longrightarrow> byHost (fold (\<lambda>h bt. init_provider loc now bt h) hosts bt) host =
     (if host \<in> set hosts then map_option (init_one loc now) (byHost bt host) else byHost bt host)"
  by (induction hosts arbitrary: bt) (auto simp: init_provider_byHost)

definition configured :: "(string \<Rightarrow> int option) \<Rightarrow> UsenetProvider list \<Rightarrow> string \<rightharpoonup> bwProvider" where
  "configured ParseSize ps host = map_option (fresh_provider ParseSize) (find (\<lambda>p. Host p = host) (rev ps))"

lemma byHost_configured:
  "byHost (fold (\<lambda>p bt. bt\<lparr>byHost := (byHost bt)(Host p \<mapsto> fresh_provider ParseSize p)\<rparr>) ps bt) host =
     (case configured ParseSize ps host of None \<Rightarrow> byHost bt host | Some bp \<Rightarrow> Some bp)"
proof (induction ps rule: rev_induct)
  case Nil
  show ?case by (simp add: configured_def)
next
  case (snoc p ps)
  then show ?case by (auto simp: configured_def)
qed

lemma ledger_configured:
  "ledger (fold (\<lambda>p bt. bt\<lparr>byHost := (byHost bt)(Host p \<mapsto> fresh_provider ParseSize p)\<rparr>) ps bt) = ledger bt"
  by (induction ps arbitrary: bt) auto

lemma configured_hosts: "configured ParseSize ps host = Some bp \<Longrightarrow> host \<in> Host ` set ps"
  by (auto simp: configured_def find_Some_iff intro!: image_eqI nth_mem [of _ "rev ps", simplified])

text \<open>The tracker that starts from a ledger: the configured quota, with the usage the ledger has.\<close>

lemma newBandwidthTracker_byHost:
  "byHost (newBandwidthTracker ParseSize loc ps led now) host =
     map_option (\<lambda>bp. init_one loc now (case led of None \<Rightarrow> bp | Some st \<Rightarrow> load_provider st host bp)) (configured ParseSize ps host)"
proof -
  define bt where "bt = fold (\<lambda>p bt. bt\<lparr>byHost := (byHost bt)(Host p \<mapsto> fresh_provider ParseSize p)\<rparr>) ps
    \<lparr>byHost = (\<lambda>_. None), ledger = led, dirty = False\<rparr>"
  have bt: "byHost bt host = configured ParseSize ps host" "ledger bt = led" for host
    by (simp_all add: bt_def byHost_configured ledger_configured split: option.split)
  have "byHost (load bt) host =
      map_option (\<lambda>bp. case led of None \<Rightarrow> bp | Some st \<Rightarrow> load_provider st host bp) (configured ParseSize ps host)"
    by (cases led) (simp_all add: load_def bt option.map_ident)
  then show ?thesis
    using configured_hosts [of ParseSize ps host]
    by (cases "configured ParseSize ps host")
      (auto simp: newBandwidthTracker_def Let_def bt_def [symmetric] init_all_byHost)
qed

section \<open>A provider's life\<close>

text \<open>Every event carries its time. A read does not look at the clock: its time is only there to say in which window the bytes
  arrived.\<close>

datatype bw_event = Metered string int int | Checked string int | Shown string int | Ticked bool int | Restarted int

definition bw_step :: "(string \<Rightarrow> int option) \<Rightarrow> int \<Rightarrow> UsenetProvider list \<Rightarrow> bw_event \<Rightarrow> BandwidthTracker \<Rightarrow> BandwidthTracker" where
  "bw_step ParseSize loc ps e bt =
     (case e of Metered host n t \<Rightarrow> countingReader_Read bt host n
      | Checked host t \<Rightarrow> snd (Tier loc bt host t)
      | Shown host t \<Rightarrow> snd (Snapshot loc bt host t)
      | Ticked ok t \<Rightarrow> saveLoop_tick ok bt
      | Restarted t \<Rightarrow> newBandwidthTracker ParseSize loc ps (ledger (Close True bt)) t)"

fun event_time :: "bw_event \<Rightarrow> int" where
  "event_time (Metered host n t) = t"
| "event_time (Checked host t) = t"
| "event_time (Shown host t) = t"
| "event_time (Ticked ok t) = t"
| "event_time (Restarted t) = t"

fun event_bytes :: "string \<Rightarrow> bw_event \<Rightarrow> int" where
  "event_bytes host (Metered h n t) = (if h = host \<and> 0 < n then n else 0)"
| "event_bytes host e = 0"

definition bytes_of :: "string \<Rightarrow> bw_event list \<Rightarrow> int" where
  "bytes_of host es = sum_list (map (event_bytes host) es)"

text \<open>The events at which the program looks at the window of \<open>host\<close>.\<close>

fun looks :: "string \<Rightarrow> bw_event \<Rightarrow> bool" where
  "looks host (Checked h t) = (h = host)"
| "looks host (Shown h t) = (h = host)"
| "looks host (Restarted t) = True"
| "looks host e = False"

definition event_window :: "int \<Rightarrow> providerQuota \<Rightarrow> bw_event \<Rightarrow> int" where
  "event_window loc q e = currentWindowStart loc (event_time e) q"

text \<open>The tracker of \<open>host\<close> counts \<open>n\<close> bytes in the window \<open>w\<close> of the quota \<open>q\<close>.\<close>

definition counts :: "BandwidthTracker \<Rightarrow> string \<Rightarrow> providerQuota \<Rightarrow> int \<Rightarrow> int \<Rightarrow> bool" where
  "counts bt host q w n \<longleftrightarrow> (\<exists>bp. byHost bt host = Some bp \<and> quota bp = q \<and> periodStart bp = w \<and> used bp = n)"

lemma tierOf_byHost:
  "byHost (snd (tierOf loc bt h bp now)) host =
     (if host = h \<and> 0 < limitBytes (quota bp) then map_option (roll_one loc now) (byHost bt host) else byHost bt host)"
  by (simp add: tierOf_def Let_def rollIfNeeded_byHost)

lemma Tier_byHost:
  "byHost (snd (Tier loc bt h now)) host = (case byHost bt host of None \<Rightarrow> None
    | Some bp \<Rightarrow> if host = h then
        Some ((case fst (Tier loc bt h now) of QuotaBlocked \<Rightarrow> loggedBlock_update (\<lambda>_. True)
               | QuotaReserve \<Rightarrow> loggedReserve_update (\<lambda>_. True) | QuotaNormal \<Rightarrow> id)
              (if 0 < limitBytes (quota bp) then roll_one loc now bp else bp)) else Some bp)"
proof (cases "byHost bt h")
  case None
  then show ?thesis by (cases "byHost bt host") (auto simp: Tier_def)
next
  case (Some bp)
  obtain t u bt' where t: "tierOf loc bt h bp now = ((t, u), bt')" by (metis surj_pair)
  have "byHost bt' host = (if host = h \<and> 0 < limitBytes (quota bp) then map_option (roll_one loc now) (byHost bt host) else byHost bt host)" for host
    using tierOf_byHost [of loc bt h bp now host] t by simp
  then show ?thesis
    using Some t by (cases "byHost bt host"; cases t) (auto simp: Tier_def)
qed

lemma roll_one_current: "currentWindowStart loc now (quota bp) = periodStart bp \<Longrightarrow> roll_one loc now bp = bp"
  by (simp add: roll_one_def)

definition tally :: "int \<Rightarrow> providerQuota \<Rightarrow> string \<Rightarrow> bw_event \<Rightarrow> int \<times> int \<Rightarrow> int \<times> int" where
  "tally loc q host e wn = (if looks host e \<and> event_window loc q e \<noteq> fst wn then (event_window loc q e, 0) else (fst wn, snd wn + event_bytes host e))"

definition tracks :: "BandwidthTracker \<Rightarrow> string \<Rightarrow> providerQuota \<Rightarrow> int \<times> int \<Rightarrow> bool" where
  "tracks bt host q wn \<longleftrightarrow> counts bt host q (fst wn) (snd wn)"

lemma counts_Tier:
  assumes "counts bt host q w n" "0 < limitBytes q"
  shows "tracks (snd (Tier loc bt h now)) host q (tally loc q host (Checked h now) (w, n))"
proof -
  obtain bp where "byHost bt host = Some bp" "quota bp = q" "periodStart bp = w" "used bp = n"
    using assms(1) by (auto simp: counts_def)
  then show ?thesis
    using assms(2)
    by (cases "fst (Tier loc bt h now)") (auto simp: tracks_def counts_def Tier_byHost tally_def event_window_def roll_one_def Let_def)
qed

lemma counts_Snapshot:
  assumes "counts bt host q w n" "0 < limitBytes q"
  shows "tracks (snd (Snapshot loc bt h now)) host q (tally loc q host (Shown h now) (w, n))"
proof -
  obtain bp where bp: "byHost bt host = Some bp" "quota bp = q" "periodStart bp = w" "used bp = n"
    using assms(1) by (auto simp: counts_def)
  have "snd (Snapshot loc bt h now) = (case byHost bt h of None \<Rightarrow> bt | Some bp \<Rightarrow> snd (tierOf loc bt h bp now))"
    by (simp add: Snapshot_def Let_def split: option.split prod.split)
  then show ?thesis
    using bp assms(2)
    by (cases "h = host") (auto simp: tracks_def counts_def tierOf_byHost tally_def event_window_def roll_one_def Let_def split: option.split)
qed

lemma counts_save: "counts (save ok bt) host q w n \<longleftrightarrow> counts bt host q w n"
  by (simp add: counts_def save_def)

lemma counts_tick: "counts (saveLoop_tick ok bt) host q w n \<longleftrightarrow> counts bt host q w n"
  by (simp add: saveLoop_tick_def counts_save) (simp add: counts_def)

lemma counts_Read:
  assumes "counts bt host q w n" "0 \<le> n" "n + event_bytes host (Metered h k t) \<le> max_i64"
  shows "tracks (countingReader_Read bt h k) host q (tally loc q host (Metered h k t) (w, n))"
  using assms by (auto simp: tracks_def counts_def countingReader_Read_def tally_def i64_id split: option.split if_splits)

text \<open>A restart after a flush carries the counter over while the window is the same, and starts from zero in another.\<close>

lemma counts_restart:
  assumes "counts bt host q w n" "map_option quota (configured ParseSize ps host) = Some q" "w \<noteq> 0"
  shows "tracks (newBandwidthTracker ParseSize loc ps (ledger (Close True bt)) now) host q (tally loc q host (Restarted now) (w, n))"
proof -
  obtain bp where bp: "byHost bt host = Some bp" "quota bp = q" "periodStart bp = w" "used bp = n"
    using assms(1) by (auto simp: counts_def)
  obtain fp where fp: "configured ParseSize ps host = Some fp" "quota fp = q" using assms(2) by auto
  have "load_provider (the (ledger (Close True bt))) host fp = fp\<lparr>used := n, periodStart := w\<rparr>"
    using bp by (simp add: Close_def save_def load_provider_def)
  moreover have "ledger (Close True bt) \<noteq> None" by (simp add: Close_def save_def)
  ultimately show ?thesis
    using fp assms(3) by (auto simp: tracks_def counts_def newBandwidthTracker_byHost tally_def event_window_def init_one_def roll_one_def Let_def)
qed

lemma counts_step:
  assumes "tracks bt host q wn" "fst wn \<noteq> 0" "0 \<le> snd wn" "snd wn + event_bytes host e \<le> max_i64" "0 < limitBytes q"
    and "map_option quota (configured ParseSize ps host) = Some q"
  shows "tracks (bw_step ParseSize loc ps e bt) host q (tally loc q host e wn)"
proof -
  obtain w n where wn: "wn = (w, n)" by fastforce
  have now: "counts bt host q w n" using assms(1) by (simp add: tracks_def wn)
  have "tracks (saveLoop_tick ok bt) host q (tally loc q host (Ticked ok t) (w, n))" for ok t using now by (simp add: tracks_def counts_tick tally_def)
  then show ?thesis
    using assms counts_Read [OF now] counts_Tier [OF now] counts_Snapshot [OF now] counts_restart [OF now]
    by (cases e) (simp_all add: bw_step_def wn)
qed

lemma event_bytes_nonneg: "0 \<le> event_bytes host e"
  by (cases e) auto

lemma bytes_of_simps [simp]: "bytes_of host [] = 0" "bytes_of host (e # es) = event_bytes host e + bytes_of host es"
  by (simp_all add: bytes_of_def)

lemma bytes_of_nonneg: "0 \<le> bytes_of host es"
  by (induction es) (auto simp: event_bytes_nonneg)

lemma looks_bytes: "looks host e \<Longrightarrow> event_bytes host e = 0"
  by (cases e) auto

lemma counts_run:
  assumes "tracks bt host q wn" "fst wn \<noteq> 0" "0 \<le> snd wn" "\<forall>e \<in> set es. event_window loc q e \<noteq> 0" "snd wn + bytes_of host es \<le> max_i64"
    and "0 < limitBytes q" "map_option quota (configured ParseSize ps host) = Some q"
  shows "tracks (fold (bw_step ParseSize loc ps) es bt) host q (fold (tally loc q host) es wn)"
  using assms(1-5)
proof (induction es arbitrary: bt wn)
  case (Cons e es)
  have "tracks (bw_step ParseSize loc ps e bt) host q (tally loc q host e wn)"
    by (rule counts_step) (use Cons.prems assms(6,7) bytes_of_nonneg [of host es] in auto)
  from Cons.IH [OF this] show ?case
    using Cons.prems event_bytes_nonneg [of host e] bytes_of_nonneg [of host es] by (simp add: tally_def add.assoc)
qed simp

text \<open>While the windows only move forward, the tally in the window \<open>w\<close> is what was read since the first look into it.\<close>

definition since_look :: "int \<Rightarrow> providerQuota \<Rightarrow> string \<Rightarrow> int \<Rightarrow> bw_event list \<Rightarrow> bw_event list" where
  "since_look loc q host w es = dropWhile (\<lambda>e. \<not> (looks host e \<and> event_window loc q e = w)) es"

lemma tally_since_look:
  assumes "sorted (w0 # map (event_window loc q) es @ [w])"
  shows "(if fst (fold (tally loc q host) es (w0, n)) = w then snd (fold (tally loc q host) es (w0, n)) else 0)
    = (if w0 = w then n + bytes_of host es else bytes_of host (since_look loc q host w es))"
  using assms
proof (induction es arbitrary: w0 n)
  case (Cons e es)
  let ?v = "event_window loc q e"
  have sorted: "sorted (v # map (event_window loc q) es @ [w])" if "v = w0 \<or> v = ?v" for v using Cons.prems that by auto
  have v: "w0 \<le> ?v" "?v \<le> w" using Cons.prems by auto
  show ?case
  proof (cases "looks host e \<and> ?v \<noteq> w0")
    case True
    then have "tally loc q host e (w0, n) = (?v, 0)" by (simp add: tally_def)
    then show ?thesis using Cons.IH [OF sorted, of ?v 0] True v by (auto simp: since_look_def looks_bytes)
  next
    case False
    then have "tally loc q host e (w0, n) = (w0, n + event_bytes host e)" by (auto simp: tally_def)
    then show ?thesis using Cons.IH [OF sorted, of w0 "n + event_bytes host e"] False v by (auto simp: since_look_def)
  qed
qed (simp add: since_look_def)

text \<open>All of it was read in that window.\<close>

lemma since_look_window:
  assumes "sorted (map (event_window loc q) es @ [w])"
  shows "bytes_of host (since_look loc q host w es) \<le> bytes_of host (filter (\<lambda>e. event_window loc q e = w) es)"
  using assms
proof (induction es)
  case (Cons e es)
  have "filter (\<lambda>e. event_window loc q e = w) es = es" if "event_window loc q e = w"
    using Cons.prems that by (auto simp: filter_id_conv sorted_append intro: antisym)
  then show ?case
    using Cons event_bytes_nonneg [of host e] by (auto simp: since_look_def)
qed (simp add: since_look_def)

text \<open>The answer is a function of the host's own tracker.\<close>

lemma Tier_one:
  "fst (Tier loc bt h now) = (case byHost bt h of None \<Rightarrow> QuotaNormal
    | Some bp \<Rightarrow> if limitBytes (quota bp) \<le> 0 then QuotaNormal else usage_tier (quota bp) (used (roll_one loc now bp)))"
  by (simp add: Tier_def tierOf_def Let_def rollIfNeeded_byHost split: option.split)

lemma roll_one_simps [simp]: "quota (roll_one loc now bp) = quota bp" "roll_one loc now (roll_one loc now bp) = roll_one loc now bp"
  by (simp_all add: roll_one_def Let_def)

lemma roll_one_logged [simp]:
  "used (roll_one loc now (bp\<lparr>loggedBlock := b\<rparr>)) = used (roll_one loc now bp)"
  "used (roll_one loc now (bp\<lparr>loggedReserve := b\<rparr>)) = used (roll_one loc now bp)"
  by (simp_all add: roll_one_def Let_def)

lemma Tier_stable: "fst (Tier loc (snd (Tier loc bt h now)) h' now) = fst (Tier loc bt h' now)"
proof (cases "byHost bt h'")
  case None
  then show ?thesis by (simp add: Tier_one [of _ _ h'] Tier_byHost)
next
  case (Some bp)
  then show ?thesis
    by (cases "fst (Tier loc bt h now)") (auto simp: Tier_one Tier_byHost)
qed

lemma providerTier_Some:
  "providerTier loc (Some bt) priority p now =
     (case fst (Tier loc bt (Host p) now) of QuotaBlocked \<Rightarrow> tierBlocked
      | QuotaReserve \<Rightarrow> if \<not> Backup p \<and> priority = PriorityUrgent then tierLead else tierFill
      | QuotaNormal \<Rightarrow> if Backup p then tierFill else tierLead, Some (snd (Tier loc bt (Host p) now)))"
  by (simp add: providerTier_def split: prod.split)

lemma providerTier_None: "providerTier loc None priority p now = (if Backup p then tierFill else tierLead, None)"
  by (simp add: providerTier_def)

text \<open>The check for headroom asks each primary in turn, and asking changes no answer.\<close>

lemma HasLeadHeadroom_iff:
  "fst (HasLeadHeadroom loc bw ps now) \<longleftrightarrow> (\<exists>p \<in> set ps. \<not> Backup p \<and> fst (providerTier loc bw PriorityNormal p now) = tierLead)"
proof (induction ps arbitrary: bw)
  case (Cons p ps)
  have "fst (providerTier loc (snd (providerTier loc bw PriorityNormal p now)) PriorityNormal p' now) =
      fst (providerTier loc bw PriorityNormal p' now)" for p'
    by (cases bw) (simp_all add: providerTier_None providerTier_Some Tier_stable)
  then show ?case using Cons.IH by (auto split: prod.split)
qed simp

section \<open>The role of a provider\<close>

lemma usage_tier_eq:
  assumes "wf_quota q" "0 < limitBytes q" "limitBytes q \<le> max_i64"
  shows "usage_tier q n = (if limitBytes q \<le> n then QuotaBlocked else if limitBytes q - reserveBytes q \<le> n then QuotaReserve else QuotaNormal)"
  using assms by (auto simp: usage_tier_def softThreshold_def Let_def i64_id wf_quota_def)

text \<open>C28. A provider's role is decided by the bytes read since the program first looked at the current quota window: the first tier
  check, stats page or start of the program in it. Whatever the reads, tier checks, stats pages, saves that fail or succeed and orderly
  restarts in between, over any number of windows and as long as the clock does not step into an earlier window, a
  provider with its limit read is not used at all, one inside its reserve only fills gaps unless it is a primary and the request is
  urgent, and every other primary leads. The count never has a byte of an earlier window; bytes of the current window that arrive before
  the first look at it are missing from it.\<close>

theorem provider_role_exact:
  fixes ps :: "UsenetProvider list" and p :: UsenetProvider and ParseSize :: "string \<Rightarrow> int option" and loc t0 :: int
  defines "q \<equiv> parseProviderQuota ParseSize p"
    and "start \<equiv> newBandwidthTracker ParseSize loc ps None t0"
  assumes "find (\<lambda>p'. Host p' = Host p) (rev ps) = Some p"
    and "0 < limitBytes q" "limitBytes q \<le> max_i64"
    and "0 < currentWindowStart loc t0 q" "sorted (currentWindowStart loc t0 q # map (event_window loc q) es @ [currentWindowStart loc now q])"
    and "bytes_of (Host p) es \<le> max_i64"
  shows "\<exists>n. n = (if currentWindowStart loc t0 q = currentWindowStart loc now q then bytes_of (Host p) es
        else bytes_of (Host p) (since_look loc q (Host p) (currentWindowStart loc now q) es)) \<and>
    n \<le> bytes_of (Host p) (filter (\<lambda>e. event_window loc q e = currentWindowStart loc now q) es) \<and>
    fst (providerTier loc (Some (fold (bw_step ParseSize loc ps) es start)) priority p now) =
      (if limitBytes q \<le> n then tierBlocked
       else if Backup p \<or> limitBytes q - reserveBytes q \<le> n \<and> priority \<noteq> PriorityUrgent then tierFill else tierLead)"
proof -
  let ?v = "currentWindowStart loc t0 q" and ?w = "currentWindowStart loc now q" and ?bt = "fold (bw_step ParseSize loc ps) es start"
  let ?wn = "fold (tally loc q (Host p)) es (?v, 0)"
  define n where "n = (if ?v = ?w then bytes_of (Host p) es else bytes_of (Host p) (since_look loc q (Host p) ?w es))"
  have wf: "wf_quota q" by (simp add: q_def parseProviderQuota_wf)
  have conf: "configured ParseSize ps (Host p) = Some (fresh_provider ParseSize p)" using assms(3) by (simp add: configured_def)
  have quota: "map_option quota (configured ParseSize ps (Host p)) = Some q" using conf by (simp add: fresh_provider_def q_def)
  from conf have zero: "tracks start (Host p) q (?v, 0)"
    by (simp add: tracks_def counts_def start_def newBandwidthTracker_byHost init_one_def fresh_provider_def q_def)
  have "\<forall>e \<in> set es. event_window loc q e \<noteq> 0" using assms(6,7) by fastforce
  then have "tracks ?bt (Host p) q ?wn" using counts_run [OF zero _ _ _ _ assms(4) quota, of es loc] assms(6,8) by simp
  then obtain bp where bp: "byHost ?bt (Host p) = Some bp" "quota bp = q" "periodStart bp = fst ?wn" "used bp = snd ?wn"
    by (auto simp: tracks_def counts_def)
  have "n = (if fst ?wn = ?w then snd ?wn else 0)" using tally_since_look [OF assms(7), of "Host p" 0] by (simp add: n_def)
  then have "fst (Tier loc ?bt (Host p) now) = usage_tier q n" using bp assms(4) by (auto simp: Tier_one roll_one_def Let_def)
  then have role: "fst (providerTier loc (Some ?bt) priority p now) = (if limitBytes q \<le> n then tierBlocked
      else if Backup p \<or> limitBytes q - reserveBytes q \<le> n \<and> priority \<noteq> PriorityUrgent then tierFill else tierLead)"
    using usage_tier_eq [OF wf assms(4,5)] by (simp add: providerTier_Some)
  have "filter (\<lambda>e. event_window loc q e = ?w) es = es" if "?v = ?w" using assms(7) that by (auto simp: filter_id_conv sorted_append intro: antisym)
  then have "n \<le> bytes_of (Host p) (filter (\<lambda>e. event_window loc q e = ?w) es)"
    using since_look_window [of loc q es ?w "Host p"] assms(7) by (auto simp: n_def)
  with role show ?thesis using n_def by blast
qed

definition sample_provider :: UsenetProvider where
  "sample_provider = \<lparr>Host = ''news'', Backbone = [], MaxConnections = 20, Backup = False, Quota = ''100'', QuotaPeriod = ''day'', QuotaResetDay = 0, QuotaResetHour = 0, Reserve = []\<rparr>"

text \<open>Two windows: 60 bytes are read on the first day; 30 arrive after midnight before the first check and are not counted; of the rest
  of that day 95 are, over a restart.\<close>

definition two_days :: "bw_event list" where
  "two_days = [Metered ''news'' 60 (26 * hour_ns), Checked ''news'' (27 * hour_ns), Metered ''news'' 30 (49 * hour_ns),
     Checked ''news'' (50 * hour_ns), Metered ''news'' 50 (51 * hour_ns), Ticked False (52 * hour_ns), Restarted (53 * hour_ns),
     Metered ''news'' 45 (54 * hour_ns)]"

theorem provider_role_exact_witness:
  "fst (providerTier 0 (Some (fold (bw_step (\<lambda>_. Some 100) 0 [sample_provider]) two_days
      (newBandwidthTracker (\<lambda>_. Some 100) 0 [sample_provider] None (25 * hour_ns)))) PriorityNormal sample_provider (55 * hour_ns)) = tierFill"
proof -
  let ?q = "parseProviderQuota (\<lambda>_. Some 100) sample_provider"
  have q: "limitBytes ?q = 100" "reserveBytes ?q = 10" by code_simp+
  have w: "currentWindowStart 0 (25 * hour_ns) ?q = 24 * hour_ns" "currentWindowStart 0 (55 * hour_ns) ?q = 48 * hour_ns" by code_simp+
  have n: "bytes_of ''news'' two_days = 185" "bytes_of ''news'' (since_look 0 ?q ''news'' (48 * hour_ns) two_days) = 95" by code_simp+
  have p: "Host sample_provider = ''news''" "\<not> Backup sample_provider" by (simp_all add: sample_provider_def)
  have "find (\<lambda>p'. Host p' = Host sample_provider) (rev [sample_provider]) = Some sample_provider" "0 < limitBytes ?q" "limitBytes ?q \<le> max_i64"
    "bytes_of (Host sample_provider) two_days \<le> max_i64" by (simp_all add: q n p)
  moreover have "0 < currentWindowStart 0 (25 * hour_ns) ?q" unfolding w by (simp add: hour_ns_def)
  moreover have "sorted (currentWindowStart 0 (25 * hour_ns) ?q # map (event_window 0 ?q) two_days @ [currentWindowStart 0 (55 * hour_ns) ?q])" by code_simp
  moreover have "24 * hour_ns \<noteq> 48 * hour_ns" by (simp add: hour_ns_def)
  ultimately show ?thesis
    using provider_role_exact [of sample_provider "[sample_provider]" "\<lambda>_. Some 100" 0 "25 * hour_ns" two_days "55 * hour_ns" PriorityNormal]
    by (simp add: q w n p del: mult_cancel_right)
qed

end
