(* ===== verification/Nntp_Client.thy ===== *)
theory Nntp_Client
  imports Quota_Usage
begin

text \<open>
  The state of the NNTP client that routing reads and writes: \<^verbatim>\<open>Client\<close> and \<^verbatim>\<open>ProviderPool\<close> of
  \<^verbatim>\<open>src/internal/nntp/client.go\<close>, the measurements of \<^verbatim>\<open>stat_routing.go\<close> and \<^verbatim>\<open>body_routing.go\<close>, and the error values of
  \<^verbatim>\<open>errors.go\<close>. A pool is named by its host, as in the map \<^verbatim>\<open>Client.pools\<close>; the sockets, slots and dial
  cool-downs of a pool are not part of the state. Each atomic field is one field; a definition that reads and
  writes several of them is one step.
\<close>

section \<open>Measurements and pools\<close>

record statLatency =
  nsPerStat :: int
  sampledAt :: int
  exploring :: bool
  eligible :: bool
  exploreWait :: int
  desyncs :: int
  errCheckout :: int
  errTimeout :: int
  errEOF :: int
  errClosed :: int
  errOther :: int
  stat_cancelled :: int
  hintDemotions :: int
  probeDemotions :: int

record bodyRateBucket =
  bk_slice :: int
  bk_bytes :: int
  bk_nanos :: int
  bk_count :: int

record bodyThroughput =
  bytesPerSec :: int
  body_samples :: int
  body_sampledAt :: int
  exploredAt :: int
  slow :: bool
  changedAt :: int
  buckets :: "bodyRateBucket list"

record ProviderPool =
  pp_max :: int
  pp_config :: UsenetProvider
  pp_stat :: statLatency
  pp_body :: bodyThroughput

record bodyScan =
  scan_at :: int
  scan_deferred :: u64
  scan_order :: "UsenetProvider list"

record Client =
  pools :: "string \<rightharpoonup> ProviderPool"
  providers :: "UsenetProvider list"
  bw :: "BandwidthTracker option"
  statHomes :: "string list"
  statProbing :: int
  body_scan :: "bodyScan option"
  preferFaster :: "bool option"

definition on_stat :: "string \<Rightarrow> (statLatency \<Rightarrow> statLatency) \<Rightarrow> Client \<Rightarrow> Client" where
  "on_stat host f c =
     (case pools c host of None \<Rightarrow> c | Some pp \<Rightarrow> c\<lparr>pools := (pools c)(host \<mapsto> pp\<lparr>pp_stat := f (pp_stat pp)\<rparr>)\<rparr>)"

definition on_body :: "string \<Rightarrow> (bodyThroughput \<Rightarrow> bodyThroughput) \<Rightarrow> Client \<Rightarrow> Client" where
  "on_body host f c =
     (case pools c host of None \<Rightarrow> c | Some pp \<Rightarrow> c\<lparr>pools := (pools c)(host \<mapsto> pp\<lparr>pp_body := f (pp_body pp)\<rparr>)\<rparr>)"

text \<open>\<^verbatim>\<open>statHomeBlocked\<close>; the quota check may roll the window of the provider over, so it returns the client too.\<close>

definition statHomeBlocked :: "int \<Rightarrow> int \<Rightarrow> string \<Rightarrow> Client \<Rightarrow> bool \<times> Client" where
  "statHomeBlocked loc now host c =
     (case bw c of None \<Rightarrow> (False, c)
      | Some bt \<Rightarrow> (case Tier loc bt host now of (t, bt') \<Rightarrow> (t = QuotaBlocked, c\<lparr>bw := Some bt'\<rparr>)))"

definition statHomePools :: "Client \<Rightarrow> string list" where
  "statHomePools c =
     (let usable = filter (\<lambda>p. case pools c (Host p) of None \<Rightarrow> False | Some pp \<Rightarrow> pp_max pp > 0) (providers c);
          primaries = filter (\<lambda>p. \<not> Backup p) usable
      in map Host (if primaries \<noteq> [] then primaries else usable))"

section \<open>Errors\<close>

datatype ErrorType = ErrorTypeUnknown | ErrorTypeConnection | ErrorTypeAuthentication | ErrorTypeTimeout | ErrorTypeArticleNotFound
  | ErrorTypeGroupNotFound | ErrorTypePermissionDenied | ErrorTypeServerBusy | ErrorTypeInvalidCommand | ErrorTypeProtocol
  | ErrorTypeYencDecode | ErrorTypeNoAvailableConnection

text \<open>The sentinel errors the code tests for with \<^verbatim>\<open>errors.Is\<close>, and every other leaf of an error chain.\<close>

datatype sentinel = StatDesync | DeadlineExceeded | NetTimeout | NetClosed | EOF | UnexpectedEOF | ConnReset | BrokenPipe | ConnAborted
  | ContextCanceled | ContextDeadline | PoolClosed | DataCorruption | CrcMismatch | DataMissing | OtherError

text \<open>An error value: a leaf, a \<^verbatim>\<open>fmt.Errorf\<close> wrapper with its format text, or an \<^verbatim>\<open>*Error\<close> with type, code, message and the error
  it wraps, or a recovered panic, which wraps its payload when that is an error. The arguments printed into a message are left out; no
  code under consideration reads them.\<close>

datatype error = Leaf sentinel | Wrap string error | Nntp ErrorType int string "error option" | PanicError "error option"

text \<open>What \<^verbatim>\<open>ctx.Err()\<close> returns when it is not nil.\<close>

datatype ctx_err = Canceled | Expired

fun ctx_error :: "ctx_err \<Rightarrow> error" where
  "ctx_error Canceled = Leaf ContextCanceled"
| "ctx_error Expired = Leaf ContextDeadline"

fun errors_Is :: "error \<Rightarrow> sentinel \<Rightarrow> bool" where
  "errors_Is (Leaf s) t = (s = t)"
| "errors_Is (Wrap m e) t = errors_Is e t"
| "errors_Is (Nntp k c m None) t = False"
| "errors_Is (Nntp k c m (Some e)) t = errors_Is e t"
| "errors_Is (PanicError None) t = False"
| "errors_Is (PanicError (Some e)) t = errors_Is e t"

text \<open>\<^verbatim>\<open>errors.As\<close> with a target of type \<^verbatim>\<open>*Error\<close>: the type of the first such error in the chain.\<close>

fun errors_As :: "error \<Rightarrow> ErrorType option" where
  "errors_As (Leaf s) = None"
| "errors_As (Wrap m e) = errors_As e"
| "errors_As (Nntp k c m e) = Some k"
| "errors_As (PanicError None) = None"
| "errors_As (PanicError (Some e)) = errors_As e"

fun IsPanicError :: "error \<Rightarrow> bool" where
  "IsPanicError (Leaf s) = False"
| "IsPanicError (Wrap m e) = IsPanicError e"
| "IsPanicError (Nntp k c m None) = False"
| "IsPanicError (Nntp k c m (Some e)) = IsPanicError e"
| "IsPanicError (PanicError e) = True"

definition NewConnectionError :: "error \<Rightarrow> error" where
  "NewConnectionError e = Nntp ErrorTypeConnection 0 ''connection failed'' (Some e)"

definition NewProtocolError :: "int \<Rightarrow> string \<Rightarrow> error" where
  "NewProtocolError code message = Nntp ErrorTypeProtocol code message None"

definition classifyNNTPError :: "int \<Rightarrow> string \<Rightarrow> error" where
  "classifyNNTPError code message =
     Nntp (if code = 430 \<or> code = 423 then ErrorTypeArticleNotFound
           else if code = 411 then ErrorTypeGroupNotFound
           else if code = 502 then ErrorTypePermissionDenied
           else if code = 503 then ErrorTypeServerBusy
           else if code = 481 \<or> code = 482 then ErrorTypeAuthentication
           else if code = 400 then ErrorTypeServerBusy
           else if code = 500 \<or> code = 501 then ErrorTypeInvalidCommand
           else if code \<ge> 400 then ErrorTypeProtocol
           else ErrorTypeUnknown) code message None"

definition IsArticleNotFoundError :: "error \<Rightarrow> bool" where
  "IsArticleNotFoundError e \<longleftrightarrow> errors_As e = Some ErrorTypeArticleNotFound"

definition IsCorruptArticle :: "error \<Rightarrow> bool" where
  "IsCorruptArticle e \<longleftrightarrow> errors_Is e DataCorruption \<or> errors_Is e CrcMismatch \<or> errors_Is e DataMissing"

definition IsCorruptArticleError :: "error \<Rightarrow> bool" where
  "IsCorruptArticleError e \<longleftrightarrow> errors_As e = Some ErrorTypeYencDecode \<and> IsCorruptArticle e"

lemma not_found_errors [simp]:
  "IsArticleNotFoundError (NewConnectionError e) = False"
  "IsArticleNotFoundError (NewProtocolError code m) = False"
  "IsArticleNotFoundError (classifyNNTPError code m) \<longleftrightarrow> code = 430 \<or> code = 423"
  "IsArticleNotFoundError (ctx_error ce) = False"
  by (cases ce; auto simp: IsArticleNotFoundError_def NewConnectionError_def NewProtocolError_def classifyNNTPError_def)+

section \<open>Quota checks\<close>

text \<open>A quota check changes nothing but the tracker, and repeating or interleaving checks at one moment does not
  change their answers: the blocked hosts are a set.\<close>

definition blocked_hosts :: "int \<Rightarrow> int \<Rightarrow> Client \<Rightarrow> string set" where
  "blocked_hosts loc now c = {h. fst (statHomeBlocked loc now h c)}"

lemma blocked_member: "fst (statHomeBlocked loc now h c) \<longleftrightarrow> h \<in> blocked_hosts loc now c"
  by (simp add: blocked_hosts_def)

lemma blocked_again [simp]: "blocked_hosts loc now (snd (statHomeBlocked loc now h c)) = blocked_hosts loc now c"
proof (cases "bw c")
  case (Some bt)
  then have "fst (statHomeBlocked loc now h' (snd (statHomeBlocked loc now h c))) = fst (statHomeBlocked loc now h' c)" for h'
    using Tier_stable [of loc bt h now h'] by (simp add: statHomeBlocked_def case_prod_beta)
  then show ?thesis by (simp add: blocked_hosts_def)
qed (simp add: statHomeBlocked_def)

definition same_but_quota :: "Client \<Rightarrow> Client \<Rightarrow> bool" where
  "same_but_quota c c' \<longleftrightarrow> (\<exists>b. c' = c\<lparr>bw := b\<rparr>)"

lemma same_but_quota_refl [simp]: "same_but_quota c c"
  by (auto simp: same_but_quota_def intro: exI [of _ "bw c"])

lemma blocked_same_but_quota [simp]: "same_but_quota c (snd (statHomeBlocked loc now h c))"
  by (cases "bw c") (auto simp: statHomeBlocked_def same_but_quota_def split: prod.split intro: exI [of _ "bw c"])

lemma same_but_quota_trans: "same_but_quota a b \<Longrightarrow> same_but_quota b c \<Longrightarrow> same_but_quota a c"
  by (auto simp: same_but_quota_def)

lemma same_but_quotaD:
  assumes "same_but_quota c c'"
  shows "pools c' = pools c" "providers c' = providers c" "statHomes c' = statHomes c" "body_scan c' = body_scan c"
    "preferFaster c' = preferFaster c" "statProbing c' = statProbing c"
  using assms by (auto simp: same_but_quota_def)

end
