(* ===== verification/Stable_Sort.thy ===== *)
theory Stable_Sort
  imports Main "HOL-Library.Multiset"
begin

text \<open>
  Go's \<^verbatim>\<open>sort.SliceStable\<close>. The code passes it a comparison; the result it documents, sorted and with equal
  elements in their original order, is unique when the comparison is the strict order of some key, and
  insertion from the right computes it. The locale \<open>keyed\<close> is that contract of a comparison: each caller's
  comparison is interpreted with the key it compares, and inherits the lemmas.
\<close>

fun insert_stable :: "('a \<Rightarrow> 'a \<Rightarrow> bool) \<Rightarrow> 'a \<Rightarrow> 'a list \<Rightarrow> 'a list" where
  "insert_stable lt x [] = [x]"
| "insert_stable lt x (y # ys) = (if lt y x then y # insert_stable lt x ys else x # y # ys)"

definition SliceStable :: "('a \<Rightarrow> 'a \<Rightarrow> bool) \<Rightarrow> 'a list \<Rightarrow> 'a list" where
  "SliceStable lt xs = foldr (insert_stable lt) xs []"

lemma mset_insert_stable: "mset (insert_stable lt x ys) = add_mset x (mset ys)"
  by (induction ys) auto

lemma mset_SliceStable [simp]: "mset (SliceStable lt xs) = mset xs"
  unfolding SliceStable_def by (induction xs) (simp_all add: mset_insert_stable)

lemma set_SliceStable [simp]: "set (SliceStable lt xs) = set xs"
  using mset_SliceStable [of lt xs] by (metis set_mset_mset)

lemma length_SliceStable [simp]: "length (SliceStable lt xs) = length xs"
  using mset_SliceStable [of lt xs] by (metis size_mset)

lemma SliceStable_Nil [simp]: "SliceStable lt [] = []"
  by (simp add: SliceStable_def)

locale keyed =
  fixes lt :: "'a \<Rightarrow> 'a \<Rightarrow> bool"
    and key :: "'a \<Rightarrow> 'k :: linorder"
  assumes lt_key: "lt x y \<longleftrightarrow> key x < key y"
begin

lemma insert_is_insort: "insert_stable lt x ys = insort_key key x ys"
  by (induction ys) (auto simp: lt_key not_le)

lemma is_sort_key: "SliceStable lt xs = sort_key key xs"
  unfolding SliceStable_def sort_key_def by (induction xs) (simp_all add: insert_is_insort)

lemma sorted_result: "sorted (map key (SliceStable lt xs))"
  by (simp add: is_sort_key)

lemma stable_result: "filter (\<lambda>y. key y = k) (SliceStable lt xs) = filter (\<lambda>y. key y = k) xs"
  by (simp add: is_sort_key sort_key_stable)

text \<open>The documented contract determines the result.\<close>

lemma only_result:
  assumes "sorted (map key ys)" "mset ys = mset xs" "\<And>k. filter (\<lambda>y. key y = k) ys = filter (\<lambda>y. key y = k) xs"
  shows "ys = SliceStable lt xs"
proof -
  have "filter (\<lambda>x. key k = key x) ys = filter (\<lambda>x. key k = key x) xs" for k
    using assms(3) [of "key k"] by (simp add: eq_commute)
  then have "sort_key key xs = ys" using assms(1,2) by (intro properties_for_sort_key)
  then show ?thesis by (simp add: is_sort_key)
qed

text \<open>Elements with the same key are left as they are.\<close>

lemma already_sorted: "sorted (map key xs) \<Longrightarrow> SliceStable lt xs = xs"
  by (simp add: is_sort_key sort_key_id_if_sorted)

end

end
