(* ===== verification/Stat_Routing.thy ===== *)
theory Stat_Routing
  imports Nntp_Client Stable_Sort "HOL-Library.Product_Lexorder"
begin

text \<open>
  Which provider is asked about an article first: \<^verbatim>\<open>src/internal/nntp/stat_routing.go\<close>. A provider's STAT latency is a
  moving average that decays to a single sample after a gap; a home takes chunks while it is within a factor of the fastest
  home, with hysteresis; a slow home is re-tested by one explorer after a wait that doubles; the order of a chunk starts at
  its home, and a call's hint moves providers that have none of its articles to the back of their tier.
\<close>

section \<open>Latency\<close>

definition second :: int where "second = 1000000000"

definition statSlowFactor :: int where "statSlowFactor = 4"
definition statLeaveFactor :: int where "statLeaveFactor = 6"
definition statLatencyFloor :: int where "statLatencyFloor = 25 * 1000000"
definition statExploreAfter :: int where "statExploreAfter = 30 * second"
definition statExploreMax :: int where "statExploreMax = 300 * second"
definition statErrorPenalty :: int where "statErrorPenalty = second"
definition statEWMADivisor :: int where "statEWMADivisor = 5"

lemmas stat_consts = second_def statSlowFactor_def statLeaveFactor_def statLatencyFloor_def statExploreAfter_def statExploreMax_def
  statErrorPenalty_def statEWMADivisor_def

datatype stat_cause = statCauseCheckout | statCauseTimeout | statCauseEOF | statCauseClosed | statCauseDesync | statCauseOther

definition statFailureCause :: "error \<Rightarrow> stat_cause" where
  "statFailureCause e =
     (if errors_Is e StatDesync then statCauseDesync
      else if errors_Is e DeadlineExceeded \<or> errors_Is e NetTimeout then statCauseTimeout
      else if errors_Is e NetClosed then statCauseClosed
      else if errors_Is e EOF \<or> errors_Is e UnexpectedEOF \<or> errors_Is e ConnReset \<or> errors_Is e BrokenPipe \<or> errors_Is e ConnAborted
      then statCauseEOF
      else statCauseOther)"

definition penalties :: "statLatency \<Rightarrow> int" where
  "penalties s = errCheckout s + errTimeout s + errEOF s + errClosed s + errOther s + desyncs s"

definition stat_record :: "int \<Rightarrow> int \<Rightarrow> statLatency \<Rightarrow> statLatency" where
  "stat_record perStat now s =
     (let sample = max perStat 1;
          stale = (sampledAt s = 0 \<or> now - sampledAt s \<ge> statExploreAfter);
          old = nsPerStat s;
          next = (if old > 0 \<and> \<not> stale then max (old + go_div (sample - old) statEWMADivisor) 1 else sample)
      in s\<lparr>nsPerStat := next, sampledAt := now\<rparr>)"

definition recordStatSample :: "int \<Rightarrow> UsenetProvider \<Rightarrow> int \<Rightarrow> Client \<Rightarrow> Client" where
  "recordStatSample now p perStat = on_stat (Host p) (stat_record perStat now)"

definition count_penalty :: "stat_cause \<Rightarrow> statLatency \<Rightarrow> statLatency" where
  "count_penalty cause s =
     (case cause of
        statCauseCheckout \<Rightarrow> s\<lparr>errCheckout := errCheckout s + 1\<rparr>
      | statCauseTimeout \<Rightarrow> s\<lparr>errTimeout := errTimeout s + 1\<rparr>
      | statCauseEOF \<Rightarrow> s\<lparr>errEOF := errEOF s + 1\<rparr>
      | statCauseClosed \<Rightarrow> s\<lparr>errClosed := errClosed s + 1\<rparr>
      | statCauseDesync \<Rightarrow> s\<lparr>desyncs := desyncs s + 1\<rparr>
      | statCauseOther \<Rightarrow> s\<lparr>errOther := errOther s + 1\<rparr>)"

definition notePenalty :: "int \<Rightarrow> UsenetProvider \<Rightarrow> stat_cause \<Rightarrow> Client \<Rightarrow> Client" where
  "notePenalty now p cause c = recordStatSample now p statErrorPenalty (on_stat (Host p) (count_penalty cause) c)"

definition recordStatHits :: "int \<Rightarrow> UsenetProvider \<Rightarrow> int \<Rightarrow> int \<Rightarrow> Client \<Rightarrow> Client" where
  "recordStatHits now p hitTime hits =
     on_stat (Host p) (\<lambda>s. if hits = 0 then s\<lparr>sampledAt := now\<rparr> else stat_record (go_div hitTime hits) now s)"

definition retestWait :: "statLatency \<Rightarrow> int" where
  "retestWait s = (if exploreWait s > 0 then exploreWait s else statExploreAfter)"

definition stat_tryExplore :: "int \<Rightarrow> statLatency \<Rightarrow> bool \<times> statLatency" where
  "stat_tryExplore now s =
     (if sampledAt s \<noteq> 0 \<and> now - sampledAt s < retestWait s then (False, s)
      else if exploring s then (False, s)
      else (True, s\<lparr>exploring := True\<rparr>))"

definition exploreDone :: "bool \<Rightarrow> statLatency \<Rightarrow> statLatency" where
  "exploreDone ok s =
     s\<lparr>exploreWait := (if ok then 0 else min (2 * retestWait s) statExploreMax), exploring := False\<rparr>"

section \<open>Eligibility\<close>

definition ns_of :: "Client \<Rightarrow> string \<Rightarrow> int" where
  "ns_of c host = (case pools c host of Some pp \<Rightarrow> nsPerStat (pp_stat pp) | None \<Rightarrow> 0)"

fun fastest_home :: "int \<Rightarrow> int \<Rightarrow> string list \<Rightarrow> int \<Rightarrow> Client \<Rightarrow> int \<times> Client" where
  "fastest_home loc now [] best c = (best, c)"
| "fastest_home loc now (h # hs) best c =
     (case statHomeBlocked loc now h c of (blocked, c) \<Rightarrow>
        if blocked then fastest_home loc now hs best c
        else let v = ns_of c h in fastest_home loc now hs (if v > 0 \<and> (best = 0 \<or> v < best) then v else best) c)"

definition statEligible :: "int \<Rightarrow> int \<Rightarrow> string \<Rightarrow> Client \<Rightarrow> (bool \<times> int \<times> int) \<times> Client" where
  "statEligible loc now home c =
     (let l = ns_of c home
      in case fastest_home loc now (statHomes c) 0 c of (best, c) \<Rightarrow>
        if l = 0 then ((False, l, best), c)
        else case statHomeBlocked loc now home c of (blocked, c) \<Rightarrow>
          if blocked then ((False, l, best), c)
          else
            let ref = max best statLatencyFloor;
                factor = (if case pools c home of Some pp \<Rightarrow> eligible (pp_stat pp) | None \<Rightarrow> False then statLeaveFactor else statSlowFactor)
            in ((l \<le> factor * ref, l, best), c))"

section \<open>The order of a chunk\<close>

definition faster_stat :: "(UsenetProvider \<Rightarrow> int) \<Rightarrow> UsenetProvider \<Rightarrow> UsenetProvider \<Rightarrow> bool" where
  "faster_stat lat p q =
     (if lat p = 0 then False else if lat q = 0 then True else lat p < lat q)"

definition statOrder :: "UsenetProvider \<Rightarrow> Client \<Rightarrow> UsenetProvider list" where
  "statOrder home c =
     (let order = filter (\<lambda>p. Host p = Host home) (providers c);
          rest = filter (\<lambda>p. Host p \<noteq> Host home) (providers c);
          backups = filter Backup rest;
          primaries = filter (\<lambda>p. \<not> Backup p) rest;
          order = (if order = [] then [home] else order);
          lat = (\<lambda>p. ns_of c (Host p))
      in order @ SliceStable (faster_stat lat) primaries @ backups)"

section \<open>The hint of a call\<close>

record statHintCounts =
  hint_answered :: int
  hint_hits :: int
  noted :: bool
  probing :: bool
  probeAnswered :: bool
  demoted :: bool

record statHint =
  hint_hosts :: "string list"
  hint_byHost :: "string \<rightharpoonup> statHintCounts"
  probeSettled :: bool

definition statHintMinAnswers :: int where "statHintMinAnswers = 32"

definition newStatHint :: "Client \<Rightarrow> statHint" where
  "newStatHint c =
     \<lparr>hint_hosts = remdups (map Host (providers c)),
      hint_byHost = map_of (map (\<lambda>p. (Host p, \<lparr>hint_answered = 0, hint_hits = 0, noted = False, probing = False, probeAnswered = False, demoted = False\<rparr>))
        (providers c)),
      probeSettled = False\<rparr>"

definition on_host :: "string \<Rightarrow> (statHintCounts \<Rightarrow> statHintCounts) \<Rightarrow> statHint \<Rightarrow> statHint" where
  "on_host host f h = h\<lparr>hint_byHost := (hint_byHost h)(host := map_option f (hint_byHost h host))\<rparr>"

definition hint_add :: "string \<Rightarrow> int \<Rightarrow> int \<Rightarrow> statHint \<Rightarrow> statHint" where
  "hint_add host a k h =
     (if a = 0 then h else on_host host (\<lambda>n. n\<lparr>hint_hits := hint_hits n + k, hint_answered := hint_answered n + a\<rparr>) h)"

definition absent :: "statHint \<Rightarrow> string \<Rightarrow> bool" where
  "absent h host \<longleftrightarrow>
     (case hint_byHost h host of None \<Rightarrow> False
      | Some n \<Rightarrow> hint_hits n = 0 \<and> (demoted n \<or> hint_answered n \<ge> statHintMinAnswers))"

definition probeStart :: "string \<Rightarrow> statHint \<Rightarrow> statHint" where
  "probeStart host = on_host host (\<lambda>n. n\<lparr>probing := True\<rparr>)"

definition probe_found :: "statHint \<Rightarrow> bool" where
  "probe_found h \<longleftrightarrow>
     (\<exists>host \<in> set (hint_hosts h). case hint_byHost h host of None \<Rightarrow> False | Some n \<Rightarrow> probing n \<and> hint_hits n > 0)"

definition probeDemoteLocked :: "statHint \<Rightarrow> statHint" where
  "probeDemoteLocked h =
     (if \<not> probe_found h then h
      else h\<lparr>hint_byHost := map_option (\<lambda>n. if probing n \<and> hint_hits n = 0 \<and> (probeSettled h \<or> probeAnswered n) then n\<lparr>demoted := True\<rparr> else n)
               \<circ> hint_byHost h\<rparr>)"

definition probeResult :: "string \<Rightarrow> int \<Rightarrow> int \<Rightarrow> statHint \<Rightarrow> statHint" where
  "probeResult host a k h =
     (if hint_byHost h host = None then h
      else if a = 0 then on_host host (\<lambda>n. n\<lparr>probing := False, demoted := False\<rparr>) h
      else probeDemoteLocked (hint_add host a k (on_host host (\<lambda>n. n\<lparr>probeAnswered := True\<rparr>) h)))"

definition probeSettle :: "statHint \<Rightarrow> statHint" where
  "probeSettle h = probeDemoteLocked (h\<lparr>probeSettled := True\<rparr>)"

definition hint_rank :: "statHint \<Rightarrow> UsenetProvider \<Rightarrow> nat" where
  "hint_rank h p = (if Backup p then 2 else 0) + (if absent h (Host p) then 1 else 0)"

text \<open>The log entry and the counter of a provider that the answers alone put last, once per call.\<close>

definition note_absent :: "UsenetProvider \<Rightarrow> statHint \<times> Client \<Rightarrow> statHint \<times> Client" where
  "note_absent p hc =
     (case hc of (h, c) \<Rightarrow>
        if \<not> absent h (Host p) then (h, c)
        else case hint_byHost h (Host p) of None \<Rightarrow> (h, c)
          | Some n \<Rightarrow>
              if hint_answered n \<ge> statHintMinAnswers \<and> \<not> noted n
              then (on_host (Host p) (\<lambda>n. n\<lparr>noted := True\<rparr>) h, on_stat (Host p) (\<lambda>s. s\<lparr>hintDemotions := hintDemotions s + 1\<rparr>) c)
              else (h, c))"

definition applyStatHint :: "statHint option \<Rightarrow> UsenetProvider list \<Rightarrow> Client \<Rightarrow> UsenetProvider list \<times> statHint option \<times> Client" where
  "applyStatHint hint rest c =
     (case hint of None \<Rightarrow> (rest, hint, c)
      | Some h \<Rightarrow>
          if length rest < 2 then (rest, hint, c)
          else
            let demoted = (\<exists>p \<in> set rest. absent h (Host p))
            in case fold note_absent rest (h, c) of (h', c') \<Rightarrow>
              (if demoted then SliceStable (\<lambda>p q. hint_rank h p < hint_rank h q) rest else rest, Some h', c'))"

section \<open>The probe of a call\<close>

definition statProbeIDs :: nat where "statProbeIDs = 4"
definition statProbeWait :: int where "statProbeWait = 250 * 1000000"
definition statProbeGraceFactor :: int where "statProbeGraceFactor = 3"
definition statProbeMaxCalls :: int where "statProbeMaxCalls = 4"

fun probe_homes :: "int \<Rightarrow> int \<Rightarrow> string set \<Rightarrow> string list \<Rightarrow> Client \<Rightarrow> string list \<times> Client" where
  "probe_homes loc now skipHosts [] c = ([], c)"
| "probe_homes loc now skipHosts (h # hs) c =
     (if h \<in> skipHosts then probe_homes loc now skipHosts hs c
      else case statEligible loc now h c of ((ok, _, _), c) \<Rightarrow>
        case probe_homes loc now skipHosts hs c of (homes, c) \<Rightarrow> (if ok then h # homes else homes, c))"

definition probe_ids :: "string list \<Rightarrow> string list" where
  "probe_ids messageIDs = map (\<lambda>i. messageIDs ! (i * length messageIDs div statProbeIDs)) [0..<statProbeIDs]"

text \<open>The part of \<^verbatim>\<open>statProbe\<close> before its goroutines start: \<^term>\<open>None\<close> when the call goes without a probe, else the
  homes asked and the articles they are asked about.\<close>

definition statProbe_start ::
    "int \<Rightarrow> int \<Rightarrow> string set \<Rightarrow> string list \<Rightarrow> statHint option \<Rightarrow> Client \<Rightarrow> (string list \<times> string list) option \<times> statHint option \<times> Client" where
  "statProbe_start loc now skipHosts messageIDs hint c =
     (case hint of None \<Rightarrow> (None, hint, c)
      | Some h \<Rightarrow>
          if length messageIDs \<le> statProbeIDs then (None, hint, c)
          else case probe_homes loc now skipHosts (statHomes c) c of (homes, c) \<Rightarrow>
            if length homes < 2 then (None, hint, c)
            else if statProbing c + 1 > statProbeMaxCalls then (None, hint, c)
            else (Some (homes, probe_ids messageIDs), Some (fold probeStart homes h), c\<lparr>statProbing := statProbing c + 1\<rparr>))"

definition probe_grace :: "int \<Rightarrow> int" where
  "probe_grace since = min (max (statProbeGraceFactor * since) statLatencyFloor) statProbeWait"

definition note_probe :: "int \<Rightarrow> string \<Rightarrow> statHint \<times> Client \<Rightarrow> statHint \<times> Client" where
  "note_probe took host hc =
     (case hc of (h, c) \<Rightarrow>
        case hint_byHost h host of None \<Rightarrow> (h, c)
        | Some n \<Rightarrow>
            if \<not> demoted n \<or> hint_hits n \<noteq> 0 then (h, c)
            else if \<not> probeAnswered n \<and> took < statProbeWait then (h, c)
            else if noted n then (h, c)
            else (on_host host (\<lambda>n. n\<lparr>noted := True\<rparr>) h, on_stat host (\<lambda>s. s\<lparr>probeDemotions := probeDemotions s + 1\<rparr>) c))"

text \<open>\<^verbatim>\<open>noteProbeDemotions\<close> ranges over a map; the hosts are independent, so the order does not matter.\<close>

definition noteProbeDemotions :: "statHint \<Rightarrow> int \<Rightarrow> Client \<Rightarrow> statHint \<times> Client" where
  "noteProbeDemotions h took c = fold (note_probe took) (hint_hosts h) (h, c)"

definition statProbe_end :: "statHint \<Rightarrow> int \<Rightarrow> Client \<Rightarrow> statHint \<times> Client" where
  "statProbe_end h took c = noteProbeDemotions h took (c\<lparr>statProbing := statProbing c - 1\<rparr>)"

section \<open>The orders are stable sorts\<close>

interpretation latency_order: keyed "faster_stat lat" "\<lambda>p. (lat p = 0, lat p)" for lat
  by unfold_locales (auto simp: faster_stat_def)

interpretation rank_order: keyed "\<lambda>p q. hint_rank h p < hint_rank h q" "hint_rank h" for h
  by unfold_locales simp

lemma mset_statOrder:
  assumes "Host home \<in> Host ` set (providers c)"
  shows "mset (statOrder home c) = mset (providers c)"
proof -
  have partition: "mset (filter P xs) + mset (filter (\<lambda>x. \<not> P x) xs) = mset xs" for P and xs :: "UsenetProvider list"
    by (induction xs) auto
  let ?home = "filter (\<lambda>p. Host p = Host home) (providers c)" and ?rest = "filter (\<lambda>p. Host p \<noteq> Host home) (providers c)"
  have "?home \<noteq> []" using assms by (auto simp: filter_empty_conv)
  then have "mset (statOrder home c) = mset ?home + (mset (filter Backup ?rest) + mset (filter (\<lambda>p. \<not> Backup p) ?rest))"
    unfolding statOrder_def Let_def by (simp add: union_commute del: mset_filter filter_filter)
  then show ?thesis unfolding partition .
qed

section \<open>Eligible homes\<close>

text \<open>The latencies the cut-off is taken from: those of the measured homes that are not over their quota.\<close>

definition measured :: "int \<Rightarrow> int \<Rightarrow> Client \<Rightarrow> string \<Rightarrow> bool" where
  "measured loc now c h \<longleftrightarrow> h \<notin> blocked_hosts loc now c \<and> ns_of c h > 0"

lemma fastest_home_spec:
  assumes "fastest_home loc now hs best c = (b, c')" "0 \<le> best"
  shows "same_but_quota c c' \<and> blocked_hosts loc now c' = blocked_hosts loc now c \<and>
    (best > 0 \<longrightarrow> 0 < b \<and> b \<le> best) \<and> (\<forall>h \<in> set hs. measured loc now c h \<longrightarrow> 0 < b \<and> b \<le> ns_of c h) \<and>
    (b = best \<or> (\<exists>h \<in> set hs. measured loc now c h \<and> b = ns_of c h))"
  using assms
proof (induction hs arbitrary: best c)
  case Nil
  then show ?case by auto
next
  case (Cons h hs)
  obtain bl c1 where bl: "statHomeBlocked loc now h c = (bl, c1)" by fastforce
  have c1: "same_but_quota c c1" "blocked_hosts loc now c1 = blocked_hosts loc now c" "bl \<longleftrightarrow> h \<in> blocked_hosts loc now c"
    using blocked_same_but_quota [of c loc now h] blocked_again [of loc now h c] blocked_member [of loc now h c] bl by simp_all
  have ns: "ns_of c1 = ns_of c" using same_but_quotaD(1) [OF c1(1)] by (auto simp: ns_of_def)
  then have m: "measured loc now c1 = measured loc now c" by (auto simp: measured_def c1(2))
  define best' where "best' = (if bl then best else if ns_of c h > 0 \<and> (best = 0 \<or> ns_of c h < best) then ns_of c h else best)"
  have rec: "fastest_home loc now hs best' c1 = (b, c')" using Cons.prems(1) bl ns by (auto simp: best'_def Let_def split: if_splits)
  have step: "0 \<le> best'" "best > 0 \<longrightarrow> 0 < best' \<and> best' \<le> best" "measured loc now c h \<longrightarrow> 0 < best' \<and> best' \<le> ns_of c h"
      "best' = best \<or> measured loc now c h \<and> best' = ns_of c h"
    using Cons.prems(2) c1(3) by (auto simp: best'_def measured_def)
  show ?case using Cons.IH [OF rec step(1)] step(2-) c1 unfolding m ns by (auto intro: same_but_quota_trans)
qed

text \<open>Eligibility spelled out: measured, not over the quota, and within the factor of the fastest home.\<close>

lemma statEligible_spec:
  assumes "statEligible loc now home c = ((ok, l, b), c')"
  shows "l = ns_of c home \<and> (\<forall>h \<in> set (statHomes c). measured loc now c h \<longrightarrow> 0 < b \<and> b \<le> ns_of c h) \<and>
    (b = 0 \<or> (\<exists>h \<in> set (statHomes c). measured loc now c h \<and> b = ns_of c h)) \<and>
    (ok \<longleftrightarrow> l \<noteq> 0 \<and> home \<notin> blocked_hosts loc now c \<and>
       l \<le> (if \<exists>pp. pools c home = Some pp \<and> eligible (pp_stat pp) then statLeaveFactor else statSlowFactor) * max b statLatencyFloor)"
proof -
  obtain b0 c1 where f: "fastest_home loc now (statHomes c) 0 c = (b0, c1)" by fastforce
  note spec = fastest_home_spec [OF f, simplified]
  obtain bl c2 where bl: "statHomeBlocked loc now home c1 = (bl, c2)" by fastforce
  have "bl \<longleftrightarrow> home \<in> blocked_hosts loc now c" using blocked_member [of loc now home c1] bl spec by simp
  moreover have "pools c2 = pools c"
    using same_but_quotaD(1) [OF same_but_quota_trans, of c c1 c2] spec blocked_same_but_quota [of c1 loc now home] bl by simp
  ultimately show ?thesis
    using assms f bl spec by (auto simp: statEligible_def Let_def split: if_splits option.splits)
qed

lemma rotation_not_empty:
  assumes "h \<in> set (statHomes c)" "measured loc now c h"
  shows "\<exists>home \<in> set (statHomes c). fst (fst (statEligible loc now home c))"
proof -
  obtain ok l b c' where "statEligible loc now h c = ((ok, l, b), c')" by (metis prod.exhaust)
  note spec = statEligible_spec [OF this]
  then obtain home where home: "home \<in> set (statHomes c)" "measured loc now c home" "\<forall>h \<in> set (statHomes c). measured loc now c h \<longrightarrow> ns_of c home \<le> ns_of c h"
    using assms by (metis less_irrefl)
  obtain ok l b c' where e: "statEligible loc now home c = ((ok, l, b), c')" by (metis prod.exhaust)
  note spec = statEligible_spec [OF e]
  then have b: "l = ns_of c home" "b = ns_of c home" using home by (metis order_antisym less_irrefl)+
  have "l \<le> k * max b statLatencyFloor" if "k \<ge> 1" for k
    using mult_right_mono [OF that, of "max b statLatencyFloor"] home(2) b by (simp add: measured_def le_max_iff_disj)
  then have ok using spec home(2) b by (auto simp: measured_def statLeaveFactor_def statSlowFactor_def)
  then show ?thesis using home(1) e by (metis fst_conv)
qed

end
