(* ===== verification/Stat_Window.thy ===== *)
theory Stat_Window
  imports Stat_Routing
begin

text \<open>
  One pipelined window of STATs on a connection, and the windows of a chunk on one provider: \<^verbatim>\<open>StatBatch\<close>,
  \<^verbatim>\<open>readResponse\<close> and \<^verbatim>\<open>parseStatResponse\<close> of \<^verbatim>\<open>src/internal/nntp/conns.go\<close> and \<^verbatim>\<open>batchStatOnProvider\<close> of \<^verbatim>\<open>client.go\<close>. The network is an
  argument: what writing the window returned, what each read of a line returned and when, and how many bytes were
  buffered after the last one.
\<close>

section \<open>Reply lines\<close>

record Response =
  Code :: int
  Message :: string

definition trim_suffix :: "string \<Rightarrow> char \<Rightarrow> string" where
  "trim_suffix s c = (if s \<noteq> [] \<and> last s = c then butlast s else s)"

definition digit :: "char \<Rightarrow> bool" where
  "digit c \<longleftrightarrow> (of_char c :: nat) \<ge> 48 \<and> (of_char c :: nat) \<le> 57"

definition digit_value :: "char \<Rightarrow> int" where
  "digit_value c = of_char c - 48"

definition readResponseCode :: "error + string \<Rightarrow> error + Response" where
  "readResponseCode read =
     (case read of Inl e \<Rightarrow> Inl e
      | Inr raw \<Rightarrow>
          let line = trim_suffix (trim_suffix raw (CHR 0x0A)) (CHR 0x0D)
          in if length line < 3 \<or> \<not> digit (line ! 0) \<or> \<not> digit (line ! 1) \<or> \<not> digit (line ! 2) \<or> (length line > 3 \<and> line ! 3 \<noteq> CHR '' '')
             then Inl (Wrap ''invalid response code'' (Leaf OtherError))
             else Inr \<lparr>Code = digit_value (line ! 0) * 100 + digit_value (line ! 1) * 10 + digit_value (line ! 2),
                       Message = drop 4 line\<rparr>)"

text \<open>\<^verbatim>\<open>strings.Fields\<close> and \<^verbatim>\<open>strconv.Atoi\<close>.\<close>

function fields_loop :: "string \<Rightarrow> string \<Rightarrow> string list" where
  "fields_loop cur s =
     (case s of [] \<Rightarrow> if cur = [] then [] else [rev cur]
      | c # s' \<Rightarrow>
          (case find (\<lambda>w. w \<noteq> [] \<and> has_prefix w s) white_runes of
             Some w \<Rightarrow> (if cur = [] then [] else [rev cur]) @ fields_loop [] (drop (length w) s)
           | None \<Rightarrow> fields_loop (c # cur) s'))"
  by pat_completeness auto
termination
  by (relation "measure (\<lambda>(cur, s). length s)")
    (auto dest!: has_prefix_length simp: find_Some_iff intro!: diff_less elim: order_less_le_trans [rotated])

declare fields_loop.simps [simp del]

definition strings_Fields :: "string \<Rightarrow> string list" where
  "strings_Fields s = fields_loop [] s"

definition Atoi :: "string \<Rightarrow> int option" where
  "Atoi s =
     (let neg = (s \<noteq> [] \<and> hd s = CHR ''-''); d = (if s \<noteq> [] \<and> (hd s = CHR ''-'' \<or> hd s = CHR ''+'') then tl s else s);
          v = (if neg then - int (value_of d) else int (value_of d))
      in if d = [] \<or> \<not> list_all digit d \<or> \<not> is_i64 v then None else Some v)"

definition parseStatResponse :: "Response \<Rightarrow> error + int \<times> string" where
  "parseStatResponse resp =
     (if Code resp \<noteq> 223 then Inl (classifyNNTPError (Code resp) (Message resp))
      else
        let fields = strings_Fields (Message resp)
        in if length fields < 2 then Inl (NewProtocolError (Code resp) ''unexpected STAT response format'')
           else case Atoi (fields ! 0) of
             None \<Rightarrow> Inl (NewProtocolError (Code resp) ''invalid article number'')
           | Some n \<Rightarrow> Inr (n, fields ! 1))"

section \<open>A pipelined window\<close>

record StatResult =
  MessageID :: string
  Available :: bool
  Error :: "error option"
  res_Host :: string

definition fresh_result :: "string \<Rightarrow> StatResult" where
  "fresh_result mid = \<lparr>MessageID = mid, Available = False, Error = None, res_Host = []\<rparr>"

lemma fresh_result_sel [simp]:
  "MessageID (fresh_result mid) = mid" "Available (fresh_result mid) = False" "Error (fresh_result mid) = None" "res_Host (fresh_result mid) = []"
  by (simp_all add: fresh_result_def)

record Connection =
  write_result :: "error option"
  reads :: "nat \<Rightarrow> error + string"
  read_time :: "nat \<Rightarrow> int"
  written_at :: int
  Buffered :: nat

definition readResponse :: "Connection \<Rightarrow> nat \<Rightarrow> error + Response" where
  "readResponse conn i = readResponseCode (reads conn i)"

text \<open>The reading loop: the results filled in and the time charged to hits, or the error that fails the window.\<close>

fun stat_replies :: "Connection \<Rightarrow> nat \<Rightarrow> int \<Rightarrow> StatResult list \<Rightarrow> error + StatResult list \<times> int" where
  "stat_replies conn i prev [] = Inr ([], 0)"
| "stat_replies conn i prev (r # rs) =
     (case readResponse conn i of
        Inl e \<Rightarrow> Inl (Wrap ''read STAT pipeline'' e)
      | Inr resp \<Rightarrow>
          let now = read_time conn i
          in case parseStatResponse resp of
               Inr _ \<Rightarrow> map_sum id (\<lambda>(rs, t). (r\<lparr>Available := True\<rparr> # rs, (now - prev) + t)) (stat_replies conn (Suc i) now rs)
             | Inl e \<Rightarrow>
                 if IsArticleNotFoundError e
                 then map_sum id (\<lambda>(rs, t). (r\<lparr>Error := Some e\<rparr> # rs, t)) (stat_replies conn (Suc i) now rs)
                 else Inl (Wrap ''reply out of step'' (Leaf StatDesync)))"

definition fail_window :: "StatResult list \<Rightarrow> error \<Rightarrow> StatResult list \<times> int \<times> error option" where
  "fail_window results e =
     (let connErr = NewConnectionError e
      in (map (\<lambda>r. r\<lparr>Available := False, Error := Some connErr\<rparr>) results, 0, Some connErr))"

definition StatBatch :: "string list \<Rightarrow> Connection \<Rightarrow> StatResult list \<times> int \<times> error option" where
  "StatBatch messageIDs conn =
     (let results = map fresh_result messageIDs; n = length messageIDs
      in if messageIDs = [] then (results, 0, None)
         else case write_result conn of
           Some e \<Rightarrow> fail_window results (Wrap ''write STAT pipeline'' e)
         | None \<Rightarrow>
             (case stat_replies conn 0 (written_at conn) results of
                Inl e \<Rightarrow> fail_window results e
              | Inr (results, hitTime) \<Rightarrow>
                  (case readResponse conn n of
                     Inl e \<Rightarrow> fail_window results (Wrap ''read STAT pipeline DATE check'' e)
                   | Inr resp \<Rightarrow>
                       if Code resp \<noteq> 111 then fail_window results (Wrap ''expected 111'' (Leaf StatDesync))
                       else if Buffered conn > 0 then fail_window results (Wrap ''unexpected bytes after the DATE check'' (Leaf StatDesync))
                       else (results, hitTime, None))))"

section \<open>A chunk on one provider\<close>

definition statPipelineDepth :: nat where "statPipelineDepth = 16"

text \<open>What the context and the network did during one window: \<^verbatim>\<open>ctx.Err()\<close> before it, the outcome of the checkout and
  \<^verbatim>\<open>ctx.Err()\<close> after a failed one, the connection, \<^verbatim>\<open>ctx.Err()\<close> after a failed window, and the clock.\<close>

record window_env =
  ctx_before :: "ctx_err option"
  checkout :: "error option"
  ctx_checkout :: "ctx_err option"
  conn_of :: Connection
  ctx_after :: "ctx_err option"
  clock_at :: int

definition available_count :: "StatResult list \<Rightarrow> int" where
  "available_count rs = int (length (filter Available rs))"

function windows_loop ::
    "(nat \<Rightarrow> window_env) \<Rightarrow> UsenetProvider \<Rightarrow> nat \<Rightarrow> string list \<Rightarrow> StatResult list \<Rightarrow> int \<Rightarrow> int \<Rightarrow> Client
      \<Rightarrow> (StatResult list \<times> error option) \<times> Client" where
  "windows_loop env p k messageIDs results hitTime hits c =
     (if messageIDs = [] then ((results, None), recordStatHits (clock_at (env k)) p hitTime hits c)
      else
        let w = env k; now = clock_at w
        in case ctx_before w of
             Some ce \<Rightarrow> ((results, Some (ctx_error ce)), recordStatHits now p hitTime hits c)
           | None \<Rightarrow>
               let ids = take statPipelineDepth messageIDs
               in case checkout w of
                    Some e \<Rightarrow>
                      ((results, Some e),
                       if ctx_checkout w = None then notePenalty now p statCauseCheckout c else recordStatHits now p hitTime hits c)
                  | None \<Rightarrow>
                      (case StatBatch ids (conn_of w) of
                         (win, t, Some e) \<Rightarrow>
                           (case ctx_after w of
                              Some ce \<Rightarrow>
                                ((results @ map (\<lambda>r. r\<lparr>Error := Some (ctx_error ce)\<rparr>) win, Some (ctx_error ce)),
                                 recordStatHits now p hitTime hits (on_stat (Host p) (\<lambda>s. s\<lparr>stat_cancelled := stat_cancelled s + 1\<rparr>) c))
                            | None \<Rightarrow> ((results @ win, Some e), notePenalty now p (statFailureCause e) c))
                       | (win, t, None) \<Rightarrow>
                           windows_loop env p (Suc k) (drop statPipelineDepth messageIDs) (results @ win) (hitTime + t) (hits + available_count win) c))"
  by pat_completeness auto
termination
  by (relation "measure (\<lambda>(env, p, k, ids, _). length ids)") (auto simp: statPipelineDepth_def)

declare windows_loop.simps [simp del]

definition batchStatOnProvider ::
    "(nat \<Rightarrow> window_env) \<Rightarrow> UsenetProvider \<Rightarrow> string list \<Rightarrow> Client \<Rightarrow> (StatResult list \<times> error option) \<times> Client" where
  "batchStatOnProvider env p messageIDs c = windows_loop env p 0 messageIDs [] 0 0 c"

section \<open>A window that is accepted is in step\<close>

text \<open>What the servers hold: the reply of each host to a STAT of each article. A server sends its reply lines in
  the order of the commands, the DATE reply last, and no other 111; \<open>in_order\<close> allows it to lose or add reply lines as long as it does
  not do both, and any read may fail.\<close>

type_synonym server = "string \<Rightarrow> string \<Rightarrow> Response"

definition in_order :: "server \<Rightarrow> string \<Rightarrow> string list \<Rightarrow> Connection \<Rightarrow> bool" where
  "in_order srv host ids conn \<longleftrightarrow>
     (\<exists>lines. (\<forall>r \<in> set lines. Code r \<noteq> 111) \<and> (length lines = length ids \<longrightarrow> lines = map (srv host) ids) \<and>
        (\<forall>i < length lines. \<forall>r. readResponse conn i = Inr r \<longrightarrow> r = lines ! i) \<and>
        (\<forall>r. readResponse conn (length lines) = Inr r \<longrightarrow> Code r = 111))"

definition has_article :: "server \<Rightarrow> string \<Rightarrow> string \<Rightarrow> bool" where
  "has_article srv host mid \<longleftrightarrow> (case parseStatResponse (srv host mid) of Inr _ \<Rightarrow> True | Inl _ \<Rightarrow> False)"

definition lacks_article :: "server \<Rightarrow> string \<Rightarrow> string \<Rightarrow> bool" where
  "lacks_article srv host mid \<longleftrightarrow> Code (srv host mid) = 430 \<or> Code (srv host mid) = 423"

text \<open>A result that a provider's answer bears out, and one that says exactly what the provider holds.\<close>

definition sound_result :: "server \<Rightarrow> string \<Rightarrow> string \<Rightarrow> StatResult \<Rightarrow> bool" where
  "sound_result srv host mid r \<longleftrightarrow>
     MessageID r = mid \<and> (Available r \<longrightarrow> has_article srv host mid) \<and>
     (\<not> Available r \<longrightarrow> (\<exists>e. Error r = Some e \<and> (IsArticleNotFoundError e \<longrightarrow> lacks_article srv host mid)))"

definition exact_result :: "server \<Rightarrow> string \<Rightarrow> string \<Rightarrow> StatResult \<Rightarrow> bool" where
  "exact_result srv host mid r \<longleftrightarrow>
     MessageID r = mid \<and>
     (if Available r then has_article srv host mid
      else \<exists>e. Error r = Some e \<and> IsArticleNotFoundError e \<and> lacks_article srv host mid)"

lemma exact_sound: "exact_result srv host mid r \<Longrightarrow> sound_result srv host mid r"
  by (auto simp: exact_result_def sound_result_def split: if_splits)

lemma lacks_not_has: "lacks_article srv host mid \<Longrightarrow> \<not> has_article srv host mid"
  by (auto simp: lacks_article_def has_article_def parseStatResponse_def)

lemma parse_not_found: "parseStatResponse r = Inl e \<Longrightarrow> IsArticleNotFoundError e \<longleftrightarrow> Code r = 430 \<or> Code r = 423"
  by (auto simp: parseStatResponse_def Let_def split: if_splits option.splits)

lemma stat_replies_exact:
  assumes "stat_replies conn i prev (map fresh_result ids) = Inr (rs, t)"
    and "\<And>k r. k < length ids \<Longrightarrow> readResponse conn (i + k) = Inr r \<Longrightarrow> r = srv host (ids ! k)"
  shows "list_all2 (exact_result srv host) ids rs"
  using assms
proof (induction ids arbitrary: i prev rs t)
  case (Cons mid ids)
  obtain resp where resp: "readResponse conn i = Inr resp"
    using Cons.prems(1) by (auto split: sum.splits)
  then have r: "resp = srv host mid" using Cons.prems(2) [of 0 resp] by simp
  obtain rs' t' where rest: "stat_replies conn (Suc i) (read_time conn i) (map fresh_result ids) = Inr (rs', t')"
    using Cons.prems(1) resp
    by (cases "stat_replies conn (Suc i) (read_time conn i) (map fresh_result ids)")
      (auto simp: Let_def split: sum.splits if_splits)
  have "list_all2 (exact_result srv host) ids rs'"
    using rest Cons.prems(2) [of "Suc _"] by (intro Cons.IH) (auto simp del: add_Suc_right simp: add_Suc_right [symmetric])
  moreover have "rs \<noteq> [] \<and> tl rs = rs' \<and> exact_result srv host mid (hd rs)"
    using Cons.prems(1) resp rest r parse_not_found [of resp]
    by (auto simp: Let_def exact_result_def has_article_def lacks_article_def split: sum.splits if_splits)
  ultimately show ?case by (cases rs) auto
qed simp

lemma stat_replies_reads:
  assumes "stat_replies conn i prev (map fresh_result ids) = Inr (rs, t)" "k < length ids"
  shows "\<exists>resp. readResponse conn (i + k) = Inr resp \<and> Code resp \<noteq> 111"
  using assms
proof (induction ids arbitrary: i prev rs t k)
  case (Cons mid ids)
  have head: "\<exists>resp. readResponse conn i = Inr resp \<and> Code resp \<noteq> 111"
    using Cons.prems(1) by (auto simp: parseStatResponse_def Let_def split: sum.splits if_splits)
  have tail: "\<exists>rs' t'. stat_replies conn (Suc i) (read_time conn i) (map fresh_result ids) = Inr (rs', t')"
    using Cons.prems(1) by (auto simp: Let_def map_sum_def split: sum.splits if_splits)
  show ?case using head tail Cons.IH [of "Suc i"] Cons.prems(2) by (cases k) auto
qed simp

lemma stat_replies_ids: "stat_replies conn i prev rs = Inr (rs', t) \<Longrightarrow> map MessageID rs' = map MessageID rs"
  by (induction rs arbitrary: i prev rs' t) (auto simp: Let_def map_sum_def split: sum.splits if_splits)

lemma StatBatch_ok:
  assumes "StatBatch ids conn = (rs, t, None)" "in_order srv host ids conn"
  shows "list_all2 (exact_result srv host) ids rs"
proof (cases "ids = []")
  case True
  then show ?thesis using assms(1) by (simp add: StatBatch_def)
next
  case False
  obtain lines where lines: "\<forall>r \<in> set lines. Code r \<noteq> 111" "length lines = length ids \<longrightarrow> lines = map (srv host) ids"
      "\<And>i r. i < length lines \<Longrightarrow> readResponse conn i = Inr r \<Longrightarrow> r = lines ! i"
      "\<And>r. readResponse conn (length lines) = Inr r \<Longrightarrow> Code r = 111"
    using assms(2) unfolding in_order_def by blast
  obtain date where run: "stat_replies conn 0 (written_at conn) (map fresh_result ids) = Inr (rs, t)"
      and date: "readResponse conn (length ids) = Inr date" "Code date = 111"
    using assms(1) False by (auto simp: StatBatch_def fail_window_def Let_def split: option.splits sum.splits if_splits)
  have read: "\<exists>resp. readResponse conn k = Inr resp \<and> Code resp \<noteq> 111" if "k < length ids" for k
    using stat_replies_reads [OF run] that by simp
  have "length lines = length ids"
  proof (rule linorder_cases [of "length lines" "length ids"])
    assume "length lines < length ids"
    then show ?thesis using read lines(4) by blast
  next
    assume less: "length ids < length lines"
    then have "date = lines ! length ids" using lines(3) date(1) by blast
    then show ?thesis using lines(1) less date(2) by auto
  qed simp
  then show ?thesis using stat_replies_exact [OF run] lines(2,3) by auto
qed

lemma fail_window_spec:
  assumes "map MessageID rs0 = ids" "fail_window rs0 e0 = (rs, t, Some e)"
  shows "list_all2 (\<lambda>mid r. MessageID r = mid \<and> \<not> Available r \<and> Error r = Some e) ids rs \<and> \<not> IsArticleNotFoundError e"
  using assms(2) unfolding assms(1) [symmetric] by (auto simp: fail_window_def Let_def list_all2_conv_all_nth)

lemma StatBatch_failed:
  assumes "StatBatch ids conn = (rs, t, Some e)"
  shows "list_all2 (\<lambda>mid r. MessageID r = mid \<and> \<not> Available r \<and> Error r = Some e) ids rs \<and> \<not> IsArticleNotFoundError e"
proof -
  let ?run = "stat_replies conn 0 (written_at conn) (map fresh_result ids)"
  have start: "map MessageID (map fresh_result ids) = ids" by (simp add: comp_def)
  show ?thesis
  proof (cases ?run)
    case (Inl e1)
    then show ?thesis
      using assms by (auto simp: StatBatch_def Let_def split: option.splits if_splits dest: fail_window_spec [OF start])
  next
    case (Inr p)
    obtain rs0 t0 where p: "p = (rs0, t0)" by (cases p)
    then have kept: "map MessageID rs0 = ids" using stat_replies_ids Inr start by metis
    show ?thesis
      using assms Inr unfolding p
      by (auto simp: StatBatch_def Let_def split: option.splits sum.splits if_splits
          dest: fail_window_spec [OF start] fail_window_spec [OF kept])
  qed
qed

text \<open>What a provider's answers may look like: replies in order on every window, and no checkout that fails with an
  article-not-found error.\<close>

definition answers_as :: "server \<Rightarrow> string \<Rightarrow> string list \<Rightarrow> (nat \<Rightarrow> window_env) \<Rightarrow> bool" where
  "answers_as srv host ids env \<longleftrightarrow>
     (\<forall>k. in_order srv host (take statPipelineDepth (drop (statPipelineDepth * k) ids)) (conn_of (env k)) \<and>
        (\<forall>e. checkout (env k) = Some e \<longrightarrow> \<not> IsArticleNotFoundError e))"

lemma windows_loop_sound:
  assumes "windows_loop env p k ids results hitTime hits c = ((rs, err), c')"
    and "\<And>j. in_order srv (Host p) (take statPipelineDepth (drop (statPipelineDepth * j) ids)) (conn_of (env (k + j)))"
    and "\<And>j e. checkout (env j) = Some e \<Longrightarrow> \<not> IsArticleNotFoundError e"
  shows "\<exists>new. rs = results @ new \<and> length new \<le> length ids \<and>
      list_all2 (sound_result srv (Host p)) (take (length new) ids) new \<and>
      (case err of None \<Rightarrow> list_all2 (exact_result srv (Host p)) ids new | Some e \<Rightarrow> \<not> IsArticleNotFoundError e)"
  using assms
proof (induction env p k ids results hitTime hits c rule: windows_loop.induct)
  case (1 env p k ids results hitTime hits c)
  note run = "1.prems"(1) [unfolded windows_loop.simps [of env p k ids] Let_def]
  let ?ids = "take statPipelineDepth ids"
  show ?case
  proof (cases "ids = [] \<or> ctx_before (env k) \<noteq> None \<or> checkout (env k) \<noteq> None")
    case True
    then show ?thesis
      using run "1.prems"(3) [of k]
      by (cases "ctx_before (env k)"; cases "checkout (env k)") (auto split: if_splits option.splits dest: sym)
  next
    case False
    then have go: "ids \<noteq> []" "ctx_before (env k) = None" "checkout (env k) = None" by auto
    obtain win t e where win: "StatBatch ?ids (conn_of (env k)) = (win, t, e)" by (metis prod_cases3)
    show ?thesis
    proof (cases e)
      case (Some e)
      note bad = StatBatch_failed [OF win [unfolded Some]]
      define new where "new = (case ctx_after (env k) of None \<Rightarrow> win | Some ce \<Rightarrow> map (\<lambda>r. r\<lparr>Error := Some (ctx_error ce)\<rparr>) win)"
      have "rs = results @ new" "err \<noteq> None" "\<forall>e. err = Some e \<longrightarrow> \<not> IsArticleNotFoundError e"
        using run go win Some bad by (auto simp: new_def split: option.splits)
      moreover have len: "length new = length ?ids"
        using bad by (auto simp: new_def list_all2_lengthD split: option.split dest: list_all2_lengthD)
      moreover have "list_all2 (sound_result srv (Host p)) ?ids new"
        using bad by (cases "ctx_after (env k)") (auto simp: new_def sound_result_def list_all2_map2 elim!: list_all2_mono)
      moreover have "take (length new) ids = ?ids" using len by (simp add: min_def)
      ultimately show ?thesis by (intro exI [of _ new]) (auto split: option.split)
    next
      case None
      have first: "list_all2 (exact_result srv (Host p)) ?ids win"
        using StatBatch_ok [OF win [unfolded None]] "1.prems"(2) [of 0] by simp
      then have sound: "list_all2 (sound_result srv (Host p)) ?ids win"
        by (rule list_all2_mono) (rule exact_sound)
      have len: "length win = length ?ids" using first by (metis list_all2_lengthD)
      let ?rest = "drop statPipelineDepth ids"
      have rec: "windows_loop env p (Suc k) ?rest (results @ win) (hitTime + t) (hits + available_count win) c = ((rs, err), c')"
        using run go win None by simp
      have "in_order srv (Host p) (take statPipelineDepth (drop (statPipelineDepth * j) ?rest)) (conn_of (env (Suc k + j)))" for j
        using "1.prems"(2) [of "Suc j"] by (simp add: add.commute)
      from "1.IH" [OF go(1) refl refl go(2) refl go(3) win [unfolded None, symmetric] refl refl rec this] "1.prems"(3) obtain new where
        new: "rs = (results @ win) @ new" "length new \<le> length ?rest" "list_all2 (sound_result srv (Host p)) (take (length new) ?rest) new"
          "case err of None \<Rightarrow> list_all2 (exact_result srv (Host p)) ?rest new | Some e \<Rightarrow> \<not> IsArticleNotFoundError e"
        by blast
      have "take (length (win @ new)) ids = ?ids @ take (length new) ?rest"
        using len new(2) by (cases "length ids \<le> statPipelineDepth") (simp_all add: take_add)
      then have "list_all2 (sound_result srv (Host p)) (take (length (win @ new)) ids) (win @ new)"
        using sound new(3) by (simp add: list_all2_appendI)
      moreover have "list_all2 (exact_result srv (Host p)) ids (win @ new)" if "err = None"
        using first new(4) that list_all2_appendI [of _ ?ids win ?rest new] by simp
      ultimately show ?thesis
        using new(1,2,4) len by (intro exI [of _ "win @ new"]) (auto split: option.splits)
    qed
  qed
qed

lemma batchStatOnProvider_sound:
  assumes "batchStatOnProvider env p ids c = ((rs, err), c')" "answers_as srv (Host p) ids env"
  shows "length rs \<le> length ids" "list_all2 (sound_result srv (Host p)) (take (length rs) ids) rs"
    "err = None \<Longrightarrow> list_all2 (exact_result srv (Host p)) ids rs" "err = Some e \<Longrightarrow> \<not> IsArticleNotFoundError e"
  using windows_loop_sound [of env p 0 ids "[]" 0 0 c rs err c' srv] assms
  by (auto simp: batchStatOnProvider_def answers_as_def)

end
