(* ===== verification/Stat_Batch.thy ===== *)
theory Stat_Batch
  imports Stat_Window
begin

text \<open>
  The availability check of many articles: \<^verbatim>\<open>batchStat\<close>, \<^verbatim>\<open>batchStatAcrossProviders\<close>, the exclusions and the tally of
  \<^verbatim>\<open>src/internal/nntp/client.go\<close>, and \<^verbatim>\<open>pickStatBatchSize\<close> of \<^verbatim>\<open>repair_pool.go\<close>. The chunks of a call run concurrently on a worker
  pool and share the call's hint and the latency measurements; whatever the other chunks, the probe and other calls do to
  them between two steps of a chunk is an argument, as are the context and the network.
\<close>

section \<open>Exclusions\<close>

record providerExclusions =
  ex_hosts :: "string set"
  ex_backbones :: "string set"

text \<open>Backbone names are compared as far as ASCII goes (see \<^const>\<open>lower_ascii\<close>).\<close>

definition normalizeBackbone :: "string \<Rightarrow> string" where
  "normalizeBackbone b = lower_ascii (strings_TrimSpace b)"

definition noExclusions :: providerExclusions where
  "noExclusions = \<lparr>ex_hosts = {}, ex_backbones = {}\<rparr>"

definition excludeHost :: "string \<Rightarrow> providerExclusions \<Rightarrow> providerExclusions" where
  "excludeHost host e = (if host = [] then e else e\<lparr>ex_hosts := insert host (ex_hosts e)\<rparr>)"

definition excludeBackbone :: "string \<Rightarrow> providerExclusions \<Rightarrow> providerExclusions" where
  "excludeBackbone backbone e =
     (let b = normalizeBackbone backbone in if b = [] then e else e\<lparr>ex_backbones := insert b (ex_backbones e)\<rparr>)"

definition excludes :: "providerExclusions \<Rightarrow> UsenetProvider \<Rightarrow> bool" where
  "excludes e p =
     (if ex_hosts e = {} \<and> ex_backbones e = {} then False
      else if Host p \<in> ex_hosts e then True
      else if Backbone p = [] then False
      else Backbone p \<in> ex_backbones e)"

definition excludeForArticleNotFound :: "UsenetProvider \<Rightarrow> providerExclusions \<Rightarrow> providerExclusions" where
  "excludeForArticleNotFound p e =
     (if Backbone p \<noteq> [] then excludeBackbone (Backbone p) e else excludeHost (Host p) e)"

section \<open>One chunk across the providers\<close>

record batchStatState =
  sawNotFound :: bool
  sawOtherErr :: bool
  lastErr :: "error option"
  exclusions :: providerExclusions

definition fresh_state :: batchStatState where
  "fresh_state = \<lparr>sawNotFound = False, sawOtherErr = False, lastErr = None, exclusions = noExclusions\<rparr>"

definition other_error :: "error \<Rightarrow> batchStatState \<Rightarrow> batchStatState" where
  "other_error e s = s\<lparr>sawOtherErr := True, lastErr := Some e\<rparr>"

definition not_found :: "UsenetProvider \<Rightarrow> batchStatState \<Rightarrow> batchStatState" where
  "not_found p s = s\<lparr>sawNotFound := True, exclusions := excludeForArticleNotFound p (exclusions s)\<rparr>"

text \<open>The loop over the unresolved articles that takes in a provider's results: the results, states and unresolved
  indices after it, and the counts of definitive replies and of hits.\<close>

fun take_replies ::
    "UsenetProvider \<Rightarrow> error option \<Rightarrow> nat list \<Rightarrow> StatResult list \<Rightarrow> StatResult list \<Rightarrow> batchStatState list
      \<Rightarrow> StatResult list \<times> batchStatState list \<times> nat list \<times> int \<times> int" where
  "take_replies p err [] replies results states = (results, states, [], 0, 0)"
| "take_replies p err (idx # unresolved) replies results states =
     (if excludes (exclusions (states ! idx)) p then
        case take_replies p err unresolved replies results states of (rs, ss, un, a, k) \<Rightarrow> (rs, ss, idx # un, a, k)
      else case replies of
        [] \<Rightarrow>
          (let e = (case err of Some e \<Rightarrow> e | None \<Rightarrow> NewConnectionError (Wrap ''provider returned incomplete batch results'' (Leaf OtherError)))
           in case take_replies p err unresolved [] results (states[idx := other_error e (states ! idx)]) of (rs, ss, un, a, k) \<Rightarrow>
                (rs, ss, idx # un, a, k))
      | res # replies' \<Rightarrow>
          if Available res then
            case take_replies p err unresolved replies' (results[idx := res\<lparr>res_Host := Host p\<rparr>]) states of (rs, ss, un, a, k) \<Rightarrow>
              (rs, ss, un, a + 1, k + 1)
          else if (case Error res of Some e \<Rightarrow> IsArticleNotFoundError e | None \<Rightarrow> False) then
            case take_replies p err unresolved replies' results (states[idx := not_found p (states ! idx)]) of (rs, ss, un, a, k) \<Rightarrow>
              (rs, ss, idx # un, a + 1, k)
          else
            let e = (case Error res of Some e \<Rightarrow> e
                     | None \<Rightarrow> (case err of Some e \<Rightarrow> e
                         | None \<Rightarrow> NewConnectionError (Wrap ''provider returned an empty STAT result'' (Leaf OtherError))))
            in case take_replies p err unresolved replies' results (states[idx := other_error e (states ! idx)]) of (rs, ss, un, a, k) \<Rightarrow>
              (rs, ss, idx # un, a, k))"

text \<open>What happens around a chunk: before its start (index 0) and before its provider number \<open>n\<close> (index \<open>n + 1\<close>) the others
  change the hint and the measurements; \<open>ctx_at n\<close> is \<^verbatim>\<open>ctx.Err()\<close> there, and \<open>wins\<close> is the network: the windows of asking a
  host about some articles.\<close>

record chunk_env =
  others :: "nat \<Rightarrow> statHint option \<Rightarrow> statHint option"
  remeasured :: "nat \<Rightarrow> (string \<rightharpoonup> ProviderPool) \<Rightarrow> (string \<rightharpoonup> ProviderPool)"
  ctx_at :: "nat \<Rightarrow> ctx_err option"
  wins :: "nat \<Rightarrow> string \<Rightarrow> string list \<Rightarrow> nat \<Rightarrow> window_env"

definition interfere :: "chunk_env \<Rightarrow> nat \<Rightarrow> statHint option \<times> Client \<Rightarrow> statHint option \<times> Client" where
  "interfere env n hc = (others env n (fst hc), (snd hc)\<lparr>pools := remeasured env n (pools (snd hc))\<rparr>)"

text \<open>One provider's turn in the loop: skipped, with nothing to ask, failed as a whole, or with results to take in.\<close>

definition provider_turn ::
    "chunk_env \<Rightarrow> string set \<Rightarrow> string list \<Rightarrow> nat \<Rightarrow> UsenetProvider \<Rightarrow> nat list \<Rightarrow> StatResult list \<Rightarrow> batchStatState list
      \<Rightarrow> statHint option \<times> Client \<Rightarrow> nat list \<times> StatResult list \<times> batchStatState list \<times> statHint option \<times> Client" where
  "provider_turn env skipHosts messageIDs n p unresolved results states hc =
     (if Host p \<in> skipHosts then (unresolved, results, states, hc)
      else
        let queryIdxs = filter (\<lambda>idx. \<not> excludes (exclusions (states ! idx)) p) unresolved;
            chunkIDs = map ((!) messageIDs) queryIdxs
        in if queryIdxs = [] then (unresolved, results, states, hc)
           else case batchStatOnProvider (wins env n (Host p) chunkIDs) p chunkIDs (snd hc) of ((replies, err), c) \<Rightarrow>
             if err \<noteq> None \<and> replies = [] then
               (unresolved, results, fold (\<lambda>idx ss. ss[idx := other_error (the err) (ss ! idx)]) queryIdxs states, fst hc, c)
             else case take_replies p err unresolved replies results states of (results, states, unresolved, a, k) \<Rightarrow>
               (unresolved, results, states, map_option (hint_add (Host p) a k) (fst hc), c))"

function providers_loop ::
    "chunk_env \<Rightarrow> string set \<Rightarrow> string list \<Rightarrow> nat \<Rightarrow> UsenetProvider list \<Rightarrow> nat list \<Rightarrow> StatResult list \<Rightarrow> batchStatState list
      \<Rightarrow> statHint option \<times> Client
      \<Rightarrow> (StatResult list \<times> batchStatState list \<times> nat list \<times> ctx_err option) \<times> statHint option \<times> Client" where
  "providers_loop env skipHosts messageIDs n [] unresolved results states hc = ((results, states, unresolved, None), hc)"
| "providers_loop env skipHosts messageIDs n (x # xs) unresolved results states hc =
     (if unresolved = [] then ((results, states, unresolved, None), hc)
      else case interfere env (Suc n) hc of (hint, c) \<Rightarrow>
        case applyStatHint hint (x # xs) c of (order, hint, c) \<Rightarrow>
          case ctx_at env n of
            Some ce \<Rightarrow> ((results, states, unresolved, Some ce), hint, c)
          | None \<Rightarrow>
              case provider_turn env skipHosts messageIDs n (hd order) unresolved results states (hint, c) of (unresolved, results, states, hc) \<Rightarrow>
                providers_loop env skipHosts messageIDs (Suc n) (tl order) unresolved results states hc)"
  by pat_completeness auto

lemma applyStatHint_mset: "applyStatHint hint rest c = (order, hint', c') \<Longrightarrow> mset order = mset rest"
  by (auto simp: applyStatHint_def Let_def split: option.splits if_splits prod.splits)

lemma applyStatHint_length: "applyStatHint hint rest c = (order, hint', c') \<Longrightarrow> length order = length rest"
  by (metis applyStatHint_mset size_mset)

termination providers_loop
  by (relation "measure (\<lambda>(env, sk, ids, n, order, _). length order)") (auto dest!: applyStatHint_length [OF sym])

declare providers_loop.simps [simp del]

text \<open>The verdict on an article that no provider had.\<close>

definition final_error :: "batchStatState \<Rightarrow> error" where
  "final_error s =
     (if sawNotFound s \<and> \<not> sawOtherErr s then classifyNNTPError 430 ''segment not found on any provider''
      else case lastErr s of Some e \<Rightarrow> e
        | None \<Rightarrow> NewConnectionError (Wrap (if sawNotFound s then ''not found on some providers but could not be verified on others''
            else ''could not be verified on any provider'') (Leaf OtherError)))"

definition settle :: "batchStatState list \<Rightarrow> nat \<Rightarrow> StatResult list \<Rightarrow> StatResult list" where
  "settle states idx results = results[idx := (results ! idx)\<lparr>Available := False, Error := Some (final_error (states ! idx))\<rparr>]"

definition batchStatAcrossProviders ::
    "chunk_env \<Rightarrow> string set \<Rightarrow> string list \<Rightarrow> UsenetProvider \<Rightarrow> statHint option \<times> Client
      \<Rightarrow> (StatResult list \<times> ctx_err option) \<times> statHint option \<times> Client" where
  "batchStatAcrossProviders env skipHosts messageIDs home hc =
     (case interfere env 0 hc of (hint, c) \<Rightarrow>
        let n = length messageIDs
        in case providers_loop env skipHosts messageIDs 0 (statOrder home c) [0..<n] (map fresh_result messageIDs) (replicate n fresh_state) (hint, c) of
             ((results, states, unresolved, Some ce), hc) \<Rightarrow> ((results, Some ce), hc)
           | ((results, states, unresolved, None), hc) \<Rightarrow> ((fold (settle states) unresolved results, None), hc))"

section \<open>The whole call\<close>

definition pickStatBatchSize :: "int \<Rightarrow> int \<Rightarrow> int \<Rightarrow> int \<Rightarrow> int" where
  "pickStatBatchSize totalIDs workers ceilSize minSize =
     (let size = (if workers > 0 \<and> totalIDs > 0
                  then let want = go_div (totalIDs + workers * 3 - 1) (workers * 3) in max (min want ceilSize) minSize
                  else ceilSize);
          windows = go_div (size + int statPipelineDepth div 2) (int statPipelineDepth);
          windows = max (min windows (go_div ceilSize (int statPipelineDepth))) 1
      in windows * int statPipelineDepth)"

fun chunks_of :: "nat \<Rightarrow> string list \<Rightarrow> string list list" where
  "chunks_of n [] = []"
| "chunks_of n (x # xs) = (if n = 0 then [x # xs] else take n (x # xs) # chunks_of n (drop n (x # xs)))"

text \<open>What became of a chunk: refused by \<^verbatim>\<open>Submit\<close>, taken by a worker after the context had ended, or run by a worker
  with or without a home.\<close>

datatype chunk_outcome = Refused error | Dropped ctx_err | Ran "UsenetProvider option" chunk_env

definition run_home :: "UsenetProvider option \<Rightarrow> Client \<Rightarrow> UsenetProvider" where
  "run_home home c =
     (case home of Some p \<Rightarrow> p
      | None \<Rightarrow> (case providers c of p # _ \<Rightarrow> p
          | [] \<Rightarrow> \<lparr>Host = [], Backbone = [], MaxConnections = 0, Backup = False, Quota = [], QuotaPeriod = [], QuotaResetDay = 0,
                 QuotaResetHour = 0, Reserve = []\<rparr>))"

definition chunk_error :: "error \<Rightarrow> string list \<Rightarrow> StatResult list" where
  "chunk_error e ids = map (\<lambda>mid. (fresh_result mid)\<lparr>Available := False, Error := Some e\<rparr>) ids"

definition run_chunk :: "chunk_outcome \<Rightarrow> string set \<Rightarrow> string list \<Rightarrow> statHint option \<times> Client \<Rightarrow> StatResult list \<times> statHint option \<times> Client" where
  "run_chunk outcome skipHosts ids hc =
     (case outcome of Refused e \<Rightarrow> (chunk_error e ids, hc)
      | Dropped ce \<Rightarrow> (chunk_error (ctx_error ce) ids, hc)
      | Ran home env \<Rightarrow>
          (case batchStatAcrossProviders env skipHosts ids (run_home home (snd hc)) hc of
             ((results, Some ce), hc) \<Rightarrow> (chunk_error (ctx_error ce) ids, hc)
           | ((results, None), hc) \<Rightarrow> (results, hc)))"

text \<open>Each chunk writes its own range of the results, so they are the chunks' results one after the other.\<close>

fun run_chunks :: "(nat \<Rightarrow> chunk_outcome) \<Rightarrow> string set \<Rightarrow> nat \<Rightarrow> string list list \<Rightarrow> statHint option \<times> Client
    \<Rightarrow> StatResult list \<times> statHint option \<times> Client" where
  "run_chunks outcomes skipHosts k [] hc = ([], hc)"
| "run_chunks outcomes skipHosts k (ids # rest) hc =
     (case run_chunk (outcomes k) skipHosts ids hc of (rs, hc) \<Rightarrow>
        case run_chunks outcomes skipHosts (Suc k) rest hc of (rs', hc) \<Rightarrow> (rs @ rs', hc))"

definition missing_result :: "StatResult \<Rightarrow> bool" where
  "missing_result r \<longleftrightarrow> \<not> Available r \<and> (case Error r of Some e \<Rightarrow> IsArticleNotFoundError e | None \<Rightarrow> False)"

definition tallyStatResults :: "StatResult list \<Rightarrow> int \<times> int" where
  "tallyStatResults results =
     fold (\<lambda>r (found, errs). if Available r then (found + 1, errs)
       else if (case Error r of Some e \<Rightarrow> errors_As e = Some ErrorTypeArticleNotFound | None \<Rightarrow> False) then (found, errs)
       else (found, errs + 1)) results (0, 0)"

record BatchStatResult =
  Results :: "StatResult list"
  TotalCount :: int
  FoundCount :: int
  ErrorCount :: int

text \<open>The call: \<open>closed\<close> is the client's flag, \<open>capacity\<close> the worker count of the pool, \<open>probed\<close> the clock when the probe starts and how
  long the call took by its end. What the probe's goroutines do to the hint is part of the chunks' surroundings.\<close>

definition batchStat ::
    "bool \<Rightarrow> int \<Rightarrow> int \<times> int \<times> int \<Rightarrow> (nat \<Rightarrow> chunk_outcome) \<Rightarrow> string set \<Rightarrow> string list \<Rightarrow> Client
      \<Rightarrow> (error + BatchStatResult) \<times> Client" where
  "batchStat closed capacity probed outcomes skipHosts messageIDs c =
     (if closed then (Inl (Wrap ''nntp client is closed'' (Leaf OtherError)), c)
      else if messageIDs = [] then (Inr \<lparr>Results = [], TotalCount = 0, FoundCount = 0, ErrorCount = 0\<rparr>, c)
      else
        let n = int (length messageIDs);
            batchSize = pickStatBatchSize n capacity (3 * int statPipelineDepth) (int statPipelineDepth);
            (loc, now, took) = probed
        in case statProbe_start loc now skipHosts messageIDs (Some (newStatHint c)) c of (probe, hint, c) \<Rightarrow>
             case run_chunks outcomes skipHosts 0 (chunks_of (nat batchSize) messageIDs) (hint, c) of (results, hint, c) \<Rightarrow>
               case tallyStatResults results of (found, errs) \<Rightarrow>
                 (Inr \<lparr>Results = results, TotalCount = n, FoundCount = found, ErrorCount = errs\<rparr>,
                  (case (probe, hint) of (Some _, Some h) \<Rightarrow> snd (statProbe_end h took c) | _ \<Rightarrow> c)))"

definition HasErrors :: "BatchStatResult \<Rightarrow> bool" where
  "HasErrors r \<longleftrightarrow> ErrorCount r > 0"

definition AllAvailable :: "BatchStatResult \<Rightarrow> bool" where
  "AllAvailable r \<longleftrightarrow> FoundCount r = TotalCount r"

definition FirstError :: "BatchStatResult \<Rightarrow> error option" where
  "FirstError r = (case find (\<lambda>res. Error res \<noteq> None) (Results r) of Some res \<Rightarrow> Error res | None \<Rightarrow> None)"

end
