(* ===== verification/Repair_Pool.thy ===== *)
theory Repair_Pool
  imports Stat_Routing Transition
begin

text \<open>
  The worker pool of the availability checks: \<^verbatim>\<open>src/internal/nntp/repair_pool.go\<close>. Chunks wait in a bounded channel; each worker
  has a home and takes chunks only while that home is eligible, except for one explorer per slow home. Every step is one pass of
  a worker from one blocking point to the next, one part of a send, one close of \<^verbatim>\<open>quit\<close>, or a measurement recorded meanwhile; workers and
  callers interleave freely. A task is a number; running it calls its callback \<^verbatim>\<open>done\<close>, which \<open>finished\<close> records.
\<close>

section \<open>The pool and its steps\<close>

definition repairDefaultPercent :: int where "repairDefaultPercent = 20"
definition repairPoolMinWorkers :: nat where "repairPoolMinWorkers = 2"

datatype wstate = Looking | Asleep | Waiting bool | Working nat bool | Gone

record RepairPool =
  sending :: "nat list"
  tasks :: "nat list"
  homes :: "string option list"
  wstates :: "wstate list"
  quit :: bool
  submitted :: "nat list"
  finished :: "nat list"
  client :: Client

definition home_share :: "int \<Rightarrow> int \<Rightarrow> int" where
  "home_share percent mx = max (go_div (mx * percent + 99) 100) 1"

definition worker_plan :: "int \<Rightarrow> Client \<Rightarrow> string option list" where
  "worker_plan percent c =
     (let percent = (if percent \<le> 0 then repairDefaultPercent else percent);
          percent = (if percent > 100 then 100 else percent);
          plan = concat (map (\<lambda>h. replicate (nat (home_share percent (case pools c h of Some pp \<Rightarrow> pp_max pp | None \<Rightarrow> 0))) (Some h)) (statHomes c))
      in if plan = [] then replicate repairPoolMinWorkers None else plan)"

definition newRepairPool :: "int \<Rightarrow> Client \<Rightarrow> RepairPool" where
  "newRepairPool percent c =
     (let plan = worker_plan percent c
      in \<lparr>sending = [], tasks = [], homes = plan, wstates = replicate (length plan) Looking, quit = False, submitted = [], finished = [], client = c\<rparr>)"

definition Capacity :: "RepairPool option \<Rightarrow> nat" where
  "Capacity p = (case p of None \<Rightarrow> 0 | Some p \<Rightarrow> length (wstates p))"

definition set_wstate :: "nat \<Rightarrow> wstate \<Rightarrow> RepairPool \<Rightarrow> RepairPool" where
  "set_wstate i w p = p\<lparr>wstates := (wstates p)[i := w]\<rparr>"

text \<open>\<^verbatim>\<open>Submit\<close> in two parts, because \<^verbatim>\<open>quit\<close> may be closed between its two selects: it is refused at the first once
  \<^verbatim>\<open>quit\<close> is closed; at the second it sends when the channel has room, even if \<^verbatim>\<open>quit\<close> has been closed meanwhile, or gives up
  because of \<^verbatim>\<open>quit\<close> or its context.\<close>

definition Submit_enter :: "nat \<Rightarrow> RepairPool \<Rightarrow> RepairPool option" where
  "Submit_enter t p = (if quit p then None else Some (p\<lparr>sending := t # sending p\<rparr>))"

definition Submit_send :: "nat \<Rightarrow> RepairPool \<Rightarrow> RepairPool option" where
  "Submit_send t p =
     (if t \<in> set (sending p) \<and> length (tasks p) < length (wstates p)
      then Some (p\<lparr>sending := remove1 t (sending p), tasks := tasks p @ [t], submitted := submitted p @ [t]\<rparr>)
      else None)"

definition Submit_refused :: "nat \<Rightarrow> RepairPool \<Rightarrow> RepairPool" where
  "Submit_refused t p = p\<lparr>sending := remove1 t (sending p)\<rparr>"

text \<open>A worker's note of its home's eligibility; back in the rotation, the next drop-out starts from the short wait.\<close>

definition note_eligible :: "bool \<Rightarrow> string \<Rightarrow> Client \<Rightarrow> Client" where
  "note_eligible ok h = on_stat h (\<lambda>s. (if ok then s\<lparr>exploreWait := 0\<rparr> else s)\<lparr>eligible := ok\<rparr>)"

text \<open>The first half of a worker's loop: from the top to the wait for a chunk or for the next look.\<close>

definition pool_worker_look :: "int \<Rightarrow> int \<Rightarrow> nat \<Rightarrow> RepairPool \<Rightarrow> RepairPool" where
  "pool_worker_look loc now i p =
     (case homes p ! i of None \<Rightarrow> set_wstate i (Waiting False) p
      | Some h \<Rightarrow>
          (case statEligible loc now h (client p) of ((ok, _, _), c) \<Rightarrow>
             case (if ok then (False, c) else statHomeBlocked loc now h c) of (blocked, c) \<Rightarrow>
               let c = note_eligible ok h c
               in if ok then set_wstate i (Waiting False) (p\<lparr>client := c\<rparr>)
                  else if blocked then set_wstate i Asleep (p\<lparr>client := c\<rparr>)
                  else case pools c h of None \<Rightarrow> set_wstate i Asleep (p\<lparr>client := c\<rparr>)
                    | Some pp \<Rightarrow>
                        (case stat_tryExplore now (pp_stat pp) of (got, s) \<Rightarrow>
                           set_wstate i (if got then Waiting True else Asleep) (p\<lparr>client := on_stat h (\<lambda>_. s) c\<rparr>))))"

text \<open>The second half: a worker that waits leaves when \<^verbatim>\<open>quit\<close> is closed, giving up an explorer's turn, or takes the next
  chunk; when the chunk is done an explorer's turn ends.\<close>

definition pool_worker_leave :: "nat \<Rightarrow> bool \<Rightarrow> RepairPool \<Rightarrow> RepairPool" where
  "pool_worker_leave i ex p =
     set_wstate i Gone (if ex then (case homes p ! i of Some h \<Rightarrow> p\<lparr>client := on_stat h (\<lambda>s. s\<lparr>exploring := False\<rparr>) (client p)\<rparr> | None \<Rightarrow> p) else p)"

definition pool_worker_done :: "int \<Rightarrow> int \<Rightarrow> nat \<Rightarrow> nat \<Rightarrow> bool \<Rightarrow> RepairPool \<Rightarrow> RepairPool" where
  "pool_worker_done loc now i t ex p =
     (let p = p\<lparr>finished := finished p @ [t]\<rparr>
      in set_wstate i Looking
           (if ex then (case homes p ! i of
                Some h \<Rightarrow> (case statEligible loc now h (client p) of ((ok, _, _), c) \<Rightarrow> p\<lparr>client := on_stat h (exploreDone ok) c\<rparr>)
              | None \<Rightarrow> p)
            else p))"

datatype plabel = PEnter nat | PSend nat | PRefused nat | PStop | PLook nat int int | PWake nat | PTake nat nat | PDone nat nat int int | PLeave nat | PMeasure string int int

inductive pool_step :: "plabel \<Rightarrow> RepairPool \<Rightarrow> RepairPool \<Rightarrow> bool" where
  ps_enter: "Submit_enter t p = Some p' \<Longrightarrow> pool_step (PEnter t) p p'"
| ps_send: "Submit_send t p = Some p' \<Longrightarrow> pool_step (PSend t) p p'"
| ps_refused: "pool_step (PRefused t) p (Submit_refused t p)"
| ps_stop: "pool_step PStop p (p\<lparr>quit := True\<rparr>)"
| ps_look: "i < length (wstates p) \<Longrightarrow> wstates p ! i = Looking \<Longrightarrow> pool_step (PLook i loc now) p (pool_worker_look loc now i p)"
| ps_wake: "i < length (wstates p) \<Longrightarrow> wstates p ! i = Asleep \<Longrightarrow> pool_step (PWake i) p (set_wstate i Looking p)"
| ps_take: "i < length (wstates p) \<Longrightarrow> wstates p ! i = Waiting ex \<Longrightarrow> tasks p = t # ts \<Longrightarrow>
    pool_step (PTake i t) p (set_wstate i (Working t ex) (p\<lparr>tasks := ts\<rparr>))"
| ps_done: "i < length (wstates p) \<Longrightarrow> wstates p ! i = Working t ex \<Longrightarrow> pool_step (PDone i t loc now) p (pool_worker_done loc now i t ex p)"
| ps_leave: "i < length (wstates p) \<Longrightarrow> wstates p ! i = Waiting ex \<Longrightarrow> quit p \<Longrightarrow> pool_step (PLeave i) p (pool_worker_leave i ex p)"
| ps_quit_asleep: "i < length (wstates p) \<Longrightarrow> wstates p ! i = Asleep \<Longrightarrow> quit p \<Longrightarrow> pool_step (PLeave i) p (set_wstate i Gone p)"
| ps_measure: "pool_step (PMeasure h t now) p (p\<lparr>client := on_stat h (stat_record t now) (client p)\<rparr>)"

definition fresh_pool :: "RepairPool \<Rightarrow> bool" where
  "fresh_pool p \<longleftrightarrow> (\<exists>percent c. p = newRepairPool percent c \<and> (\<forall>h pp. pools c h = Some pp \<longrightarrow> \<not> exploring (pp_stat pp)) \<and>
     (\<forall>h \<in> set (statHomes c). pools c h \<noteq> None))"

section \<open>One explorer per home, and no chunk run twice\<close>

fun explorer :: "wstate \<Rightarrow> bool" where
  "explorer (Waiting ex) = ex"
| "explorer (Working t ex) = ex"
| "explorer _ = False"

fun working_on :: "wstate \<Rightarrow> nat list" where
  "working_on (Working t ex) = [t]"
| "working_on _ = []"

definition explorers :: "RepairPool \<Rightarrow> string \<Rightarrow> nat set" where
  "explorers p h = {i. i < length (wstates p) \<and> homes p ! i = Some h \<and> explorer (wstates p ! i)}"

definition exploring_at :: "Client \<Rightarrow> string \<Rightarrow> bool" where
  "exploring_at c h \<longleftrightarrow> (case pools c h of Some pp \<Rightarrow> exploring (pp_stat pp) | None \<Rightarrow> False)"

definition pool_inv :: "RepairPool \<Rightarrow> bool" where
  "pool_inv p \<longleftrightarrow>
     length (homes p) = length (wstates p) \<and> length (tasks p) \<le> length (wstates p) \<and>
     (\<forall>i < length (wstates p). explorer (wstates p ! i) \<longrightarrow> homes p ! i \<noteq> None) \<and>
     (\<forall>h. card (explorers p h) = (if exploring_at (client p) h then 1 else 0)) \<and>
     mset (submitted p) = mset (tasks p) + mset (concat (map working_on (wstates p))) + mset (finished p)"

lemma explorers_set:
  "i < length (wstates p) \<Longrightarrow> explorers (set_wstate i w p) h =
     (if homes p ! i \<noteq> Some h then explorers p h else if explorer w then insert i (explorers p h) else explorers p h - {i})"
  by (auto simp: explorers_def set_wstate_def nth_list_update split: if_splits)

lemma finite_explorers [simp]: "finite (explorers p h)"
  by (simp add: explorers_def)

lemma explorers_only [simp]: "explorers (p\<lparr>client := c, tasks := ts, finished := fs\<rparr>) h = explorers p h"
  by (simp add: explorers_def)

lemma working_update:
  "i < length ws \<Longrightarrow> count (mset (concat (map working_on (ws[i := w])))) t + count (mset (working_on (ws ! i))) t
     = count (mset (concat (map working_on ws))) t + count (mset (working_on w)) t"
proof (induction ws arbitrary: i)
  case (Cons a ws)
  show ?case
  proof (cases i)
    case (Suc j)
    then show ?thesis using Cons.IH [of j] Cons.prems by simp
  qed simp
qed simp

lemma pool_inv_turn:
  assumes inv: "pool_inv p" and i: "i < length (wstates p)"
    and p': "p' = set_wstate i w (p\<lparr>client := c, tasks := ts, finished := fs\<rparr>)"
    and homed: "explorer w \<Longrightarrow> homes p ! i \<noteq> None"
    and flag: "\<And>h. exploring_at c h \<longleftrightarrow>
      (if homes p ! i = Some h \<and> (explorer w \<or> explorer (wstates p ! i)) then explorer w else exploring_at (client p) h)"
    and free: "\<And>h. explorer w \<Longrightarrow> \<not> explorer (wstates p ! i) \<Longrightarrow> homes p ! i = Some h \<Longrightarrow> \<not> exploring_at (client p) h"
    and tasks: "length ts \<le> length (wstates p)"
      "mset ts + mset (working_on w) + mset fs = mset (tasks p) + mset (working_on (wstates p ! i)) + mset (finished p)"
  shows "pool_inv p'"
proof -
  have mine: "i \<in> explorers p h \<longleftrightarrow> homes p ! i = Some h \<and> explorer (wstates p ! i)" for h using i by (simp add: explorers_def)
  have one: "card (explorers p h) = (if exploring_at (client p) h then 1 else 0)" for h using inv by (simp add: pool_inv_def)
  have "card (explorers p' h) = (if exploring_at c h then 1 else 0)" for h
  proof (cases "homes p ! i = Some h")
    case True
    have ex: "explorers p' h = (if explorer w then insert i (explorers p h) else explorers p h - {i})"
      using explorers_set [of i "p\<lparr>client := c, tasks := ts, finished := fs\<rparr>" w h] i True by (simp add: p')
    show ?thesis
      using one [of h] mine [of h] True flag [of h] free [of h]
      by (cases "explorer w"; cases "explorer (wstates p ! i)") (auto simp: ex insert_absorb card_insert_if split: if_splits)
  next
    case False
    then show ?thesis using explorers_set [of i "p\<lparr>client := c, tasks := ts, finished := fs\<rparr>" w h] i one [of h] flag [of h] by (simp add: p')
  qed
  moreover have "mset (submitted p') = mset (tasks p') + mset (concat (map working_on (wstates p'))) + mset (finished p')"
  proof (rule multiset_eqI)
    fix t
    have "count (mset (submitted p)) t = count (mset (tasks p)) t + count (mset (concat (map working_on (wstates p)))) t + count (mset (finished p)) t"
      using inv by (simp add: pool_inv_def)
    moreover have "count (mset ts) t + count (mset (working_on w)) t + count (mset fs) t
        = count (mset (tasks p)) t + count (mset (working_on (wstates p ! i))) t + count (mset (finished p)) t"
      using arg_cong [OF tasks(2), of "\<lambda>M. count M t"] by simp
    ultimately show "count (mset (submitted p')) t = count (mset (tasks p') + mset (concat (map working_on (wstates p'))) + mset (finished p')) t"
      using working_update [OF i, of w t] by (simp add: p' set_wstate_def)
  qed
  ultimately show ?thesis
    using inv i homed tasks(1) by (auto simp: p' set_wstate_def pool_inv_def nth_list_update)
qed

text \<open>Reading the eligibility of a home changes no measurement, and only an explorer's turn touches the flag.\<close>

lemma statEligible_same: "same_but_quota c (snd (statEligible loc now h c))"
proof -
  obtain b c1 where f: "fastest_home loc now (statHomes c) 0 c = (b, c1)" by fastforce
  then have "same_but_quota c c1" using fastest_home_spec [OF f] by simp
  moreover obtain bl c2 where bl: "statHomeBlocked loc now h c1 = (bl, c2)" by fastforce
  moreover have "same_but_quota c1 c2" using blocked_same_but_quota [of c1 loc now h] bl by simp
  ultimately show ?thesis using f by (auto simp: statEligible_def Let_def intro: same_but_quota_trans)
qed

lemma exploring_same: "same_but_quota c c' \<Longrightarrow> exploring_at c' = exploring_at c"
  by (auto simp: exploring_at_def same_but_quotaD)

lemma exploring_on_stat:
  "exploring_at (on_stat h f c) h' = (if h' = h then (case pools c h of Some pp \<Rightarrow> exploring (f (pp_stat pp)) | None \<Rightarrow> False) else exploring_at c h')"
  by (simp add: exploring_at_def on_stat_def split: option.split)

lemma exploring_on_stat_kept: "(\<And>s. exploring (f s) = exploring s) \<Longrightarrow> exploring_at (on_stat h f c) h' = exploring_at c h'"
  by (simp add: exploring_at_def on_stat_def split: option.split)

lemma stat_record_exploring [simp]: "exploring (stat_record t now s) = exploring s"
  by (simp add: stat_record_def Let_def)

lemma pool_look_shape:
  assumes "homes p ! i = Some h"
  obtains c w where "pool_worker_look loc now i p = set_wstate i w (p\<lparr>client := c\<rparr>)" "working_on w = []"
    "explorer w \<Longrightarrow> \<not> exploring_at (client p) h"
    "\<And>h'. exploring_at c h' \<longleftrightarrow> (if h' = h \<and> explorer w then True else exploring_at (client p) h')"
proof -
  obtain ok l b c1 where e: "statEligible loc now h (client p) = ((ok, l, b), c1)" by (metis prod.exhaust)
  obtain bl c2 where bl: "(if ok then (False, c1) else statHomeBlocked loc now h c1) = (bl, c2)" by fastforce
  have "same_but_quota (client p) c2"
    using statEligible_same [of "client p" loc now h] same_but_quota_trans [OF _ blocked_same_but_quota, of "client p" c1 loc now h] e bl
    by (auto split: if_splits)
  let ?c3 = "note_eligible ok h c2"
  have c3: "exploring_at ?c3 h' = exploring_at (client p) h'" for h'
    unfolding note_eligible_def exploring_same [OF \<open>same_but_quota (client p) c2\<close>, symmetric] by (rule exploring_on_stat_kept) simp
  show thesis
  proof (cases "ok \<or> bl \<or> pools ?c3 h = None")
    case True
    then have "pool_worker_look loc now i p = set_wstate i (if ok then Waiting False else Asleep) (p\<lparr>client := ?c3\<rparr>)"
      using assms e bl by (auto simp: pool_worker_look_def Let_def)
    then show thesis by (rule that [where c = ?c3]) (use c3 in \<open>auto split: if_splits\<close>)
  next
    case False
    then obtain pp where pp: "pools ?c3 h = Some pp" by blast
    obtain got s where got: "stat_tryExplore now (pp_stat pp) = (got, s)" by fastforce
    have s: "exploring s = (got \<or> exploring (pp_stat pp))" "got \<Longrightarrow> \<not> exploring (pp_stat pp)"
      using got by (auto simp: stat_tryExplore_def split: if_splits)
    have at: "exploring_at (client p) h = exploring (pp_stat pp)" using c3 [of h] pp by (simp add: exploring_at_def)
    have "pool_worker_look loc now i p = set_wstate i (if got then Waiting True else Asleep) (p\<lparr>client := on_stat h (\<lambda>_. s) ?c3\<rparr>)"
      using False assms e bl pp got by (auto simp: pool_worker_look_def Let_def)
    then show thesis by (rule that [where c = "on_stat h (\<lambda>_. s) ?c3"]) (use s at c3 pp in \<open>auto simp: exploring_on_stat split: if_splits\<close>)
  qed
qed

section \<open>The invariant\<close>

lemma pool_inv_start: "fresh_pool p \<Longrightarrow> pool_inv p"
  by (auto simp: fresh_pool_def newRepairPool_def Let_def pool_inv_def explorers_def exploring_at_def split: option.split)

lemma explorer_flag:
  assumes "pool_inv p" "i < length (wstates p)" "explorer (wstates p ! i)" "homes p ! i = Some h"
  shows "exploring_at (client p) h"
proof -
  have "i \<in> explorers p h" using assms(2-4) by (simp add: explorers_def)
  then have "card (explorers p h) \<noteq> 0" by auto
  moreover have "card (explorers p h) = (if exploring_at (client p) h then 1 else 0)" using assms(1) by (simp add: pool_inv_def)
  ultimately show ?thesis by presburger
qed

text \<open>An explorer's turn ends: whatever is written to its home, the flag is down.\<close>

lemma explorer_ends:
  assumes "pool_inv p" "i < length (wstates p)" "explorer (wstates p ! i)" "homes p ! i = Some h" "\<not> explorer w" "same_but_quota (client p) c"
    and "\<And>s. \<not> exploring (f s)" "mset (tasks p) + mset (working_on w) + mset fs = mset (tasks p) + mset (working_on (wstates p ! i)) + mset (finished p)"
  shows "pool_inv (set_wstate i w (p\<lparr>client := on_stat h f c, tasks := tasks p, finished := fs\<rparr>))"
  by (rule pool_inv_turn [where p = p and i = i and w = w and c = "on_stat h f c" and ts = "tasks p" and fs = fs])
    (use assms in \<open>auto simp: pool_inv_def exploring_on_stat exploring_same split: option.split\<close>)

lemma pool_inv_step: "pool_step l p p' \<Longrightarrow> pool_inv p \<Longrightarrow> pool_inv p'"
proof (induction rule: pool_step.induct)
  case (ps_enter t p p')
  then show ?case by (auto simp: pool_inv_def Submit_enter_def explorers_def split: if_splits)
next
  case (ps_send t p p')
  then show ?case by (auto simp: pool_inv_def Submit_send_def explorers_def split: if_splits)
next
  case (ps_refused t p)
  then show ?case by (simp add: pool_inv_def Submit_refused_def explorers_def)
next
  case (ps_stop p)
  then show ?case by (simp add: pool_inv_def explorers_def)
next
  case (ps_look i p loc now)
  show ?case
  proof (cases "homes p ! i")
    case None
    show ?thesis
      by (rule pool_inv_turn [where p = p and i = i and w = "Waiting False" and c = "client p" and ts = "tasks p" and fs = "finished p"]) (use ps_look None in \<open>auto simp: pool_worker_look_def pool_inv_def\<close>)
  next
    case (Some h)
    obtain c w where look: "pool_worker_look loc now i p = set_wstate i w (p\<lparr>client := c\<rparr>)" "working_on w = []"
        "explorer w \<Longrightarrow> \<not> exploring_at (client p) h" "\<And>h'. exploring_at c h' \<longleftrightarrow> (if h' = h \<and> explorer w then True else exploring_at (client p) h')"
      using pool_look_shape [OF Some] by metis
    show ?thesis
      by (rule pool_inv_turn [where p = p and i = i and w = w and c = c and ts = "tasks p" and fs = "finished p"]) (use ps_look Some look in \<open>auto simp: pool_inv_def\<close>)
  qed
next
  case (ps_wake i p)
  show ?case by (rule pool_inv_turn [where p = p and i = i and w = Looking and c = "client p" and ts = "tasks p" and fs = "finished p"]) (use ps_wake in \<open>auto simp: pool_inv_def\<close>)
next
  case (ps_take i p ex t ts)
  have up: "exploring_at (client p) h" if ex "homes p ! i = Some h" for h using explorer_flag [of p i h] ps_take that by simp
  show ?case by (rule pool_inv_turn [where p = p and i = i and w = "Working t ex" and c = "client p" and ts = ts and fs = "finished p"]) (use ps_take up in \<open>auto simp: pool_inv_def\<close>)
next
  case (ps_done i p t ex loc now)
  show ?case
  proof (cases ex)
    case True
    then obtain h where h: "homes p ! i = Some h" using ps_done by (auto simp: pool_inv_def)
    obtain ok l b c where e: "statEligible loc now h (client p) = ((ok, l, b), c)" by (metis prod.exhaust)
    have "pool_worker_done loc now i t ex p = set_wstate i Looking (p\<lparr>client := on_stat h (exploreDone ok) c, tasks := tasks p, finished := finished p @ [t]\<rparr>)"
      using True h e by (simp add: pool_worker_done_def set_wstate_def Let_def)
    then show ?thesis
      using explorer_ends [of p i h Looking c "exploreDone ok" "finished p @ [t]"] statEligible_same [of "client p" loc now h] ps_done True h e
      by (simp add: exploreDone_def)
  next
    case False
    show ?thesis
      by (rule pool_inv_turn [where p = p and i = i and w = Looking and c = "client p" and ts = "tasks p" and fs = "finished p @ [t]"]) (use ps_done False in \<open>auto simp: pool_inv_def pool_worker_done_def\<close>)
  qed
next
  case (ps_leave i p ex)
  show ?case
  proof (cases ex)
    case True
    then obtain h where h: "homes p ! i = Some h" using ps_leave by (auto simp: pool_inv_def)
    then show ?thesis
      using explorer_ends [of p i h Gone "client p" "\<lambda>s. s\<lparr>exploring := False\<rparr>" "finished p"] ps_leave True by (simp add: pool_worker_leave_def)
  next
    case False
    show ?thesis
      by (rule pool_inv_turn [where p = p and i = i and w = Gone and c = "client p" and ts = "tasks p" and fs = "finished p"]) (use ps_leave False in \<open>auto simp: pool_inv_def pool_worker_leave_def\<close>)
  qed
next
  case (ps_quit_asleep i p)
  show ?case by (rule pool_inv_turn [where p = p and i = i and w = Gone and c = "client p" and ts = "tasks p" and fs = "finished p"]) (use ps_quit_asleep in \<open>auto simp: pool_inv_def\<close>)
next
  case (ps_measure h t now p)
  then show ?case by (simp add: pool_inv_def explorers_def exploring_on_stat_kept)
qed

interpretation repair_pool: invariant fresh_pool pool_step pool_inv
  by unfold_locales (auto intro: pool_inv_start pool_inv_step)

text \<open>C23. In every reachable state of the repair pool at most one worker explores a provider, the provider's exploring flag is set exactly
  while one does, every submitted chunk is waiting, being worked on or finished, once each, and the queue holds no more than its
  capacity.\<close>

theorem explorers_and_chunks:
  assumes "reachable fresh_pool pool_step p"
  shows "card (explorers p h) \<le> 1 \<and> (exploring_at (client p) h \<longleftrightarrow> explorers p h \<noteq> {}) \<and>
    mset (submitted p) = mset (tasks p) + mset (concat (map working_on (wstates p))) + mset (finished p) \<and>
    length (tasks p) \<le> Capacity (Some p)"
proof -
  have "pool_inv p" by (rule repair_pool.reachable_inv [OF assms])
  then have "card (explorers p h) = (if exploring_at (client p) h then 1 else 0)" by (simp add: pool_inv_def)
  moreover from this have "exploring_at (client p) h \<longleftrightarrow> explorers p h \<noteq> {}" by (auto split: if_splits)
  ultimately show ?thesis using \<open>pool_inv p\<close> by (simp add: pool_inv_def Capacity_def)
qed

section \<open>A sample pool\<close>

text \<open>No homes, so two workers; one chunk is sent, the pool is stopped, and both workers leave.\<close>

definition bare_client :: Client where
  "bare_client = \<lparr>pools = (\<lambda>_. None), providers = [], bw = None, statHomes = [], statProbing = 0, body_scan = None, preferFaster = None\<rparr>"

definition stopped_pool :: RepairPool where
  "stopped_pool = \<lparr>sending = [], tasks = [7], homes = [None, None], wstates = [Gone, Gone], quit = True, submitted = [7], finished = [], client = bare_client\<rparr>"

lemma stopped_trace:
  "trace pool_step (newRepairPool 20 bare_client) [PLook 0 0 0, PLook 1 0 0, PEnter 7, PSend 7, PStop, PLeave 0, PLeave 1] stopped_pool"
proof -
  let ?p = "\<lambda>ts ws q. \<lparr>sending = [], tasks = ts, homes = [None, None], wstates = ws, quit = q, submitted = ts, finished = [], client = bare_client\<rparr>"
  have start: "newRepairPool 20 bare_client = ?p [] [Looking, Looking] False"
    by (simp add: newRepairPool_def worker_plan_def bare_client_def repairPoolMinWorkers_def numeral_2_eq_2 Let_def)
  have "pool_step (PLook 0 0 0) (?p [] [Looking, Looking] False) (?p [] [Waiting False, Looking] False)"
    using ps_look [of 0 "?p [] [Looking, Looking] False" 0 0] by (simp add: pool_worker_look_def set_wstate_def)
  moreover have "pool_step (PLook 1 0 0) (?p [] [Waiting False, Looking] False) (?p [] [Waiting False, Waiting False] False)"
    using ps_look [of 1 "?p [] [Waiting False, Looking] False" 0 0] by (simp add: pool_worker_look_def set_wstate_def)
  moreover have "pool_step (PEnter 7) (?p [] [Waiting False, Waiting False] False) ((?p [] [Waiting False, Waiting False] False)\<lparr>sending := [7]\<rparr>)"
    by (rule ps_enter) (simp add: Submit_enter_def)
  moreover have "pool_step (PSend 7) ((?p [] [Waiting False, Waiting False] False)\<lparr>sending := [7]\<rparr>) (?p [7] [Waiting False, Waiting False] False)"
    by (rule ps_send) (simp add: Submit_send_def)
  moreover have "pool_step PStop (?p [7] [Waiting False, Waiting False] False) (?p [7] [Waiting False, Waiting False] True)"
    using ps_stop [of "?p [7] [Waiting False, Waiting False] False"] by simp
  moreover have "pool_step (PLeave 0) (?p [7] [Waiting False, Waiting False] True) (?p [7] [Gone, Waiting False] True)"
    using ps_leave [of 0 "?p [7] [Waiting False, Waiting False] True" False] by (simp add: pool_worker_leave_def set_wstate_def)
  moreover have "pool_step (PLeave 1) (?p [7] [Gone, Waiting False] True) (?p [7] [Gone, Gone] True)"
    using ps_leave [of 1 "?p [7] [Gone, Waiting False] True" False] by (simp add: pool_worker_leave_def set_wstate_def)
  ultimately show ?thesis unfolding start stopped_pool_def by (meson trace_Cons trace_Nil)
qed

lemma stopped_reachable: "reachable fresh_pool pool_step stopped_pool"
proof (rule reachable_trace [OF reach_init stopped_trace])
  show "fresh_pool (newRepairPool 20 bare_client)" 
    unfolding fresh_pool_def by (intro exI [of _ 20] exI [of _ bare_client]) (simp add: bare_client_def)
qed

theorem explorers_and_chunks_witness:
  "card (explorers stopped_pool ''news'') \<le> 1 \<and> mset (submitted stopped_pool) = {#7#} \<and> length (tasks stopped_pool) \<le> 2"
  using explorers_and_chunks [OF stopped_reachable, of "''news''"] by (simp add: Capacity_def stopped_pool_def)

end
