(* ===== verification/Repair_Calls.thy ===== *)
theory Repair_Calls
  imports Repair_Pool
begin

text \<open>
  The callers of the repair pool: the second half of \<^verbatim>\<open>BatchStat\<close> in \<^verbatim>\<open>src/internal/nntp/client.go\<close>. A call adds one to its
  \<^verbatim>\<open>WaitGroup\<close> for a chunk, submits it, and takes one off when \<^verbatim>\<open>Submit\<close> refuses; the worker that runs the chunk takes one
  off in the callback; the call returns from \<^verbatim>\<open>wg.Wait\<close> once the count is zero. Calls and workers interleave freely, one
  statement of a call or one step of the pool at a time. A chunk is a number, and \<open>owner\<close> is the call its callback belongs to.
\<close>

section \<open>Calls\<close>

datatype phase = Unstarted | Submitting "nat list" | Checking nat "nat list" | Sending nat "nat list" | Returned

record calls =
  cpool :: RepairPool
  phase :: "nat \<Rightarrow> phase"
  wg :: "nat \<Rightarrow> int"
  owner :: "nat \<Rightarrow> nat"
  issued :: "nat set"

definition wg_add :: "nat \<Rightarrow> int \<Rightarrow> calls \<Rightarrow> calls" where
  "wg_add k d s = s\<lparr>wg := (wg s)(k := wg s k + d)\<rparr>"

definition set_phase :: "nat \<Rightarrow> phase \<Rightarrow> calls \<Rightarrow> calls" where
  "set_phase k ph s = s\<lparr>phase := (phase s)(k := ph)\<rparr>"

text \<open>A call cuts its chunks, then submits one after the other.\<close>

definition call_start :: "nat \<Rightarrow> nat list \<Rightarrow> calls \<Rightarrow> calls" where
  "call_start k ts s = set_phase k (Submitting ts) (s\<lparr>owner := (\<lambda>t. if t \<in> set ts then k else owner s t), issued := issued s \<union> set ts\<rparr>)"

definition call_add :: "nat \<Rightarrow> nat \<Rightarrow> nat list \<Rightarrow> calls \<Rightarrow> calls" where
  "call_add k t ts s = set_phase k (Checking t ts) (wg_add k 1 s)"

definition call_refused :: "nat \<Rightarrow> nat list \<Rightarrow> calls \<Rightarrow> calls" where
  "call_refused k ts s = set_phase k (Submitting ts) (wg_add k (-1) s)"

text \<open>The callback of a finished chunk is the only step of the pool that touches a call.\<close>

fun callback :: "plabel \<Rightarrow> calls \<Rightarrow> calls" where
  "callback (PDone i t loc now) s = wg_add (owner s t) (-1) s"
| "callback _ s = s"

fun by_worker :: "plabel \<Rightarrow> bool" where
  "by_worker (PEnter _) = False"
| "by_worker (PSend _) = False"
| "by_worker (PRefused _) = False"
| "by_worker _ = True"

datatype call_label = CallStart nat "nat list" | CallAdd nat | CallEnter nat | CallClosed nat | CallSend nat | CallRefused nat | CallReturn nat | CallPool plabel

inductive call_step :: "call_label \<Rightarrow> calls \<Rightarrow> calls \<Rightarrow> bool" where
  call_starts: "phase s k = Unstarted \<Longrightarrow> set ts \<inter> issued s = {} \<Longrightarrow> call_step (CallStart k ts) s (call_start k ts s)"
| call_adds: "phase s k = Submitting (t # ts) \<Longrightarrow> call_step (CallAdd k) s (call_add k t ts s)"
| call_enters: "phase s k = Checking t ts \<Longrightarrow> Submit_enter t (cpool s) = Some p \<Longrightarrow>
    call_step (CallEnter k) s (set_phase k (Sending t ts) (s\<lparr>cpool := p\<rparr>))"
| call_closeds: "phase s k = Checking t ts \<Longrightarrow> Submit_enter t (cpool s) = None \<Longrightarrow> call_step (CallClosed k) s (call_refused k ts s)"
| call_sends: "phase s k = Sending t ts \<Longrightarrow> Submit_send t (cpool s) = Some p \<Longrightarrow>
    call_step (CallSend k) s (set_phase k (Submitting ts) (s\<lparr>cpool := p\<rparr>))"
| call_refuseds: "phase s k = Sending t ts \<Longrightarrow> call_step (CallRefused k) s (call_refused k ts (s\<lparr>cpool := Submit_refused t (cpool s)\<rparr>))"
| call_returns: "phase s k = Submitting [] \<Longrightarrow> wg s k = 0 \<Longrightarrow> call_step (CallReturn k) s (set_phase k Returned s)"
| call_pools: "pool_step l (cpool s) p \<Longrightarrow> by_worker l \<Longrightarrow> call_step (CallPool l) s (callback l (s\<lparr>cpool := p\<rparr>))"

definition fresh_calls :: "calls \<Rightarrow> bool" where
  "fresh_calls s \<longleftrightarrow> fresh_pool (cpool s) \<and> (\<forall>k. phase s k = Unstarted \<and> wg s k = 0) \<and> issued s = {}"

section \<open>What a WaitGroup counts\<close>

definition held :: "RepairPool \<Rightarrow> nat multiset" where
  "held p = mset (tasks p) + mset (concat (map working_on (wstates p)))"

fun in_submit :: "phase \<Rightarrow> int" where
  "in_submit (Checking _ _) = 1"
| "in_submit (Sending _ _) = 1"
| "in_submit _ = 0"

fun todo :: "phase \<Rightarrow> nat set" where
  "todo (Submitting ts) = set ts"
| "todo (Checking t ts) = insert t (set ts)"
| "todo (Sending t ts) = insert t (set ts)"
| "todo _ = {}"

definition held_by :: "calls \<Rightarrow> nat \<Rightarrow> nat multiset" where
  "held_by s k = filter_mset (\<lambda>t. owner s t = k) (held (cpool s))"

definition calls_inv :: "calls \<Rightarrow> bool" where
  "calls_inv s \<longleftrightarrow> pool_inv (cpool s) \<and> set_mset (held (cpool s)) \<subseteq> issued s \<and>
     (\<forall>k. wg s k = int (size (held_by s k)) + in_submit (phase s k)) \<and>
     (\<forall>k. todo (phase s k) \<subseteq> {t \<in> issued s. owner s t = k}) \<and>
     (\<forall>k. phase s k = Unstarted \<or> phase s k = Returned \<longrightarrow> held_by s k = {#})"

lemma held_start: "fresh_pool p \<Longrightarrow> held p = {#}"
  by (auto simp: fresh_pool_def newRepairPool_def held_def Let_def)

lemma calls_inv_start: "fresh_calls s \<Longrightarrow> calls_inv s"
  by (simp add: fresh_calls_def calls_inv_def held_by_def held_start pool_inv_start)

text \<open>What a worker does to the chunks the pool holds: only a finished chunk leaves.\<close>

lemma held_set_wstate:
  assumes "i < length (wstates p)"
  shows "held (set_wstate i w (p\<lparr>client := c, tasks := ts, finished := fs\<rparr>)) + mset (working_on (wstates p ! i)) + mset (tasks p)
    = held p + mset (working_on w) + mset ts"
proof (rule multiset_eqI)
  fix t
  show "count (held (set_wstate i w (p\<lparr>client := c, tasks := ts, finished := fs\<rparr>)) + mset (working_on (wstates p ! i)) + mset (tasks p)) t
    = count (held p + mset (working_on w) + mset ts) t"
    using working_update [OF assms, of w t] by (simp add: held_def set_wstate_def)
qed

fun finishes :: "plabel \<Rightarrow> nat multiset" where
  "finishes (PDone i t loc now) = {#t#}"
| "finishes _ = {#}"

lemma look_shape:
  obtains c w where "pool_worker_look loc now i p = set_wstate i w (p\<lparr>client := c\<rparr>)" "w = Waiting False \<or> w = Waiting True \<or> w = Asleep"
proof (cases "homes p ! i")
  case None
  then show thesis by (intro that [where w = "Waiting False" and c = "client p"]) (simp_all add: pool_worker_look_def)
next
  case (Some h)
  obtain ok l b c1 where e: "statEligible loc now h (client p) = ((ok, l, b), c1)" by (metis prod.exhaust)
  obtain bl c2 where bl: "(if ok then (False, c1) else statHomeBlocked loc now h c1) = (bl, c2)" by fastforce
  let ?c3 = "note_eligible ok h c2"
  show thesis
  proof (cases "ok \<or> bl \<or> pools ?c3 h = None")
    case True
    then have "pool_worker_look loc now i p = set_wstate i (if ok then Waiting False else Asleep) (p\<lparr>client := ?c3\<rparr>)"
      using Some e bl by (auto simp: pool_worker_look_def Let_def)
    then show thesis by (rule that) simp
  next
    case False
    then obtain pp where pp: "pools ?c3 h = Some pp" by blast
    obtain got st where got: "stat_tryExplore now (pp_stat pp) = (got, st)" by fastforce
    then have "pool_worker_look loc now i p = set_wstate i (if got then Waiting True else Asleep) (p\<lparr>client := on_stat h (\<lambda>_. st) ?c3\<rparr>)"
      using False Some e bl pp by (auto simp: pool_worker_look_def Let_def)
    then show thesis by (rule that) simp
  qed
qed

lemma done_shape:
  obtains c where "pool_worker_done loc now i t ex p = set_wstate i Looking (p\<lparr>client := c, finished := finished p @ [t]\<rparr>)"
proof (cases "ex \<and> homes p ! i \<noteq> None")
  case True
  then obtain h where "homes p ! i = Some h" by blast
  then show thesis
    by (intro that [of "on_stat h (exploreDone (fst (fst (statEligible loc now h (client p))))) (snd (statEligible loc now h (client p)))"])
      (use True in \<open>simp add: pool_worker_done_def set_wstate_def Let_def split: prod.split\<close>)
next
  case False
  then show thesis by (intro that [of "client p"]) (auto simp: pool_worker_done_def set_wstate_def Let_def)
qed

lemma leave_shape:
  obtains c where "pool_worker_leave i ex p = set_wstate i Gone (p\<lparr>client := c\<rparr>)"
proof (cases "ex \<and> homes p ! i \<noteq> None")
  case True
  then obtain h where "homes p ! i = Some h" by blast
  then show thesis
    by (intro that [of "on_stat h (\<lambda>s. s\<lparr>exploring := False\<rparr>) (client p)"]) (use True in \<open>simp add: pool_worker_leave_def set_wstate_def\<close>)
next
  case False
  then show thesis by (intro that [of "client p"]) (auto simp: pool_worker_leave_def set_wstate_def)
qed

lemma held_by_worker:
  assumes "pool_step l p p'" "by_worker l"
  shows "held p = held p' + finishes l"
  using assms
proof (induction rule: pool_step.induct)
  case (ps_look i p loc now)
  obtain c w where "pool_worker_look loc now i p = set_wstate i w (p\<lparr>client := c\<rparr>)" "w = Waiting False \<or> w = Waiting True \<or> w = Asleep"
    by (rule look_shape)
  then show ?case using held_set_wstate [of i p w "finished p" "tasks p" c] ps_look by auto
next
  case (ps_wake i p)
  then show ?case using held_set_wstate [of i p Looking "finished p" "tasks p" "client p"] by simp
next
  case (ps_take i p ex t ts)
  then show ?case using held_set_wstate [of i p "Working t ex" "finished p" ts "client p"] by simp
next
  case (ps_done i p t ex loc now)
  obtain c where "pool_worker_done loc now i t ex p = set_wstate i Looking (p\<lparr>client := c, finished := finished p @ [t]\<rparr>)"
    by (rule done_shape)
  then show ?case using held_set_wstate [of i p Looking "finished p @ [t]" "tasks p" c] ps_done by simp
next
  case (ps_leave i p ex)
  obtain c where "pool_worker_leave i ex p = set_wstate i Gone (p\<lparr>client := c\<rparr>)" by (rule leave_shape)
  then show ?case using held_set_wstate [of i p Gone "finished p" "tasks p" c] ps_leave by simp
next
  case (ps_quit_asleep i p)
  then show ?case using held_set_wstate [of i p Gone "finished p" "tasks p" "client p"] by simp
qed (auto simp: held_def)

lemma held_send: "Submit_send t p = Some p' \<Longrightarrow> held p' = add_mset t (held p)"
  by (auto simp: Submit_send_def held_def split: if_splits)

lemma held_enter: "Submit_enter t p = Some p' \<Longrightarrow> held p' = held p"
  by (auto simp: Submit_enter_def held_def split: if_splits)

lemma held_refused [simp]: "held (Submit_refused t p) = held p"
  by (simp add: Submit_refused_def held_def)

lemma callback_wg:
  "callback l s = s\<lparr>wg := (\<lambda>k. wg s k - int (size (filter_mset (\<lambda>t. owner s t = k) (finishes l))))\<rparr>"
  by (cases l) (auto simp: wg_add_def fun_eq_iff)

lemmas call_ops = call_start_def call_add_def call_refused_def set_phase_def wg_add_def

text \<open>One statement of call \<open>k\<close>: it may move one chunk of its own into the pool, and moves its count along.\<close>

lemma calls_inv_move:
  assumes "calls_inv s" "pool_inv p" "held p = held (cpool s) + M" "set_mset M \<subseteq> todo (phase s k)" "todo ph \<subseteq> todo (phase s k)"
    and "d = int (size M) + in_submit ph - in_submit (phase s k)" "ph \<noteq> Unstarted" "ph = Returned \<Longrightarrow> held_by s k = {#} \<and> M = {#}"
  shows "calls_inv (set_phase k ph (wg_add k d (s\<lparr>cpool := p\<rparr>)))"
proof -
  let ?s = "set_phase k ph (wg_add k d (s\<lparr>cpool := p\<rparr>))"
  have mine: "todo (phase s j) \<subseteq> {t \<in> issued s. owner s t = j}" for j using assms(1) by (simp add: calls_inv_def)
  have own: "t \<in> issued s \<and> owner s t = k" if "t \<in># M" for t using mine [of k] assms(4) that by blast
  have "filter_mset (\<lambda>t. owner s t = j) M = (if j = k then M else {#})" for j
    using own by (auto simp: multiset_eq_iff count_eq_zero_iff)
  then have by_k: "held_by ?s j = held_by s j + (if j = k then M else {#})" for j
    using assms(3) by (simp add: held_by_def set_phase_def wg_add_def)
  have "wg ?s j = int (size (held_by ?s j)) + in_submit (phase ?s j)" for j
    using assms(1,6) unfolding by_k by (simp add: calls_inv_def set_phase_def wg_add_def)
  moreover have "todo (phase ?s j) \<subseteq> {t \<in> issued ?s. owner ?s t = j}" for j
    using mine [of j] mine [of k] assms(5) by (auto simp: set_phase_def wg_add_def)
  moreover have "held_by ?s j = {#}" if "phase ?s j = Unstarted \<or> phase ?s j = Returned" for j
    using that assms(1,7,8) unfolding by_k by (auto simp: calls_inv_def set_phase_def wg_add_def split: if_splits)
  moreover have "set_mset (held p) \<subseteq> issued s" using assms(1,3) own by (auto simp: calls_inv_def)
  ultimately show ?thesis using assms(2) unfolding calls_inv_def by (simp add: set_phase_def wg_add_def)
qed

lemma calls_pool_inv: "calls_inv s \<Longrightarrow> pool_inv (cpool s)"
  by (simp add: calls_inv_def)

lemma wg_add_0 [simp]: "wg_add k 0 s = s"
  by (simp add: wg_add_def)

lemma calls_inv_step:
  assumes "call_step l s s'" "calls_inv s"
  shows "calls_inv s'"
  using assms
proof (induction rule: call_step.induct)
  case (call_starts s k ts)
  have "held_by (call_start k ts s) k' = held_by s k'" for k'
    using call_starts by (auto simp: held_by_def call_ops calls_inv_def intro!: filter_mset_cong)
  moreover have "todo (phase s k') \<inter> set ts = {}" for k'
    using call_starts by (simp add: calls_inv_def) blast
  ultimately show ?case using call_starts by (auto simp: calls_inv_def call_ops)
next
  case (call_adds s k t ts)
  then show ?case using calls_inv_move [of s "cpool s" "{#}" k "Checking t ts" 1] by (simp add: calls_pool_inv call_add_def)
next
  case (call_enters s k t ts p)
  then show ?case
    using calls_inv_move [of s p "{#}" k "Sending t ts" 0] held_enter [OF call_enters(2)] pool_inv_step [OF ps_enter [OF call_enters(2)]]
    by (simp add: calls_pool_inv)
next
  case (call_closeds s k t ts)
  then show ?case using calls_inv_move [of s "cpool s" "{#}" k "Submitting ts" "-1"] by (auto simp: calls_pool_inv call_refused_def)
next
  case (call_sends s k t ts p)
  then show ?case
    using calls_inv_move [of s p "{#t#}" k "Submitting ts" 0] held_send [OF call_sends(2)] pool_inv_step [OF ps_send [OF call_sends(2)]]
    by (auto simp: calls_pool_inv)
next
  case (call_refuseds s k t ts)
  then show ?case
    using calls_inv_move [of s "Submit_refused t (cpool s)" "{#}" k "Submitting ts" "-1"] pool_inv_step [OF ps_refused, of "cpool s" t]
    by (auto simp: calls_pool_inv call_refused_def)
next
  case (call_returns s k)
  moreover from this have "held_by s k = {#}" by (simp add: calls_inv_def)
  ultimately show ?case using calls_inv_move [of s "cpool s" "{#}" k Returned 0] by (simp add: calls_pool_inv)
next
  case (call_pools l s p)
  have "held (cpool s) = held p + finishes l" by (rule held_by_worker [OF call_pools(1,2)])
  moreover have "pool_inv p" using pool_inv_step [OF call_pools(1)] call_pools(3) by (simp add: calls_inv_def)
  ultimately show ?case using call_pools(3) by (auto simp: calls_inv_def callback_wg held_by_def)
qed

interpretation batch_calls: invariant fresh_calls call_step calls_inv
  by unfold_locales (auto intro: calls_inv_start calls_inv_step)

section \<open>Workers leave a stopped pool\<close>

definition gone :: "RepairPool \<Rightarrow> bool" where
  "gone p \<longleftrightarrow> (\<forall>w \<in> set (wstates p). w = Gone)"

definition worker_run :: "RepairPool \<Rightarrow> plabel list \<Rightarrow> RepairPool \<Rightarrow> bool" where
  "worker_run p ls p' \<longleftrightarrow> trace pool_step p ls p' \<and> (\<forall>l \<in> set ls. by_worker l)"

text \<open>A worker of a stopped pool can leave at every point of its loop: at once where it waits, after a look where it does not, and after
  its chunk where it works on one. It takes no chunk from the queue.\<close>

lemma worker_leaves:
  assumes "quit p" "i < length (wstates p)"
  obtains ls c fs where "worker_run p ls (set_wstate i Gone (p\<lparr>client := c, finished := fs\<rparr>))"
proof -
  have waits: "\<exists>ls c. worker_run p ls (set_wstate i Gone (p\<lparr>client := c\<rparr>))"
    if q: "quit p" "i < length (wstates p)" "wstates p ! i = Waiting ex \<or> wstates p ! i = Asleep" for p ex
  proof -
    obtain c where "pool_worker_leave i ex p = set_wstate i Gone (p\<lparr>client := c\<rparr>)" by (rule leave_shape)
    moreover have "set_wstate i Gone p = set_wstate i Gone (p\<lparr>client := client p\<rparr>)" by simp
    ultimately have "\<exists>c. pool_step (PLeave i) p (set_wstate i Gone (p\<lparr>client := c\<rparr>))"
      using q(3) ps_leave [OF q(2), of ex] ps_quit_asleep [OF q(2) _ q(1)] q(1) by metis
    then obtain c where c: "pool_step (PLeave i) p (set_wstate i Gone (p\<lparr>client := c\<rparr>))" by blast
    show ?thesis by (rule exI [of _ "[PLeave i]"]) (use c in \<open>auto simp: worker_run_def\<close>)
  qed
  have looks: "\<exists>ls c. worker_run p ls (set_wstate i Gone (p\<lparr>client := c\<rparr>))"
    if q: "quit p" "i < length (wstates p)" "wstates p ! i = Looking" for p
  proof -
    obtain c w where look: "pool_worker_look 0 0 i p = set_wstate i w (p\<lparr>client := c\<rparr>)" "w = Waiting False \<or> w = Waiting True \<or> w = Asleep"
      by (rule look_shape)
    let ?p = "set_wstate i w (p\<lparr>client := c\<rparr>)"
    have "\<exists>ls c. worker_run ?p ls (set_wstate i Gone (?p\<lparr>client := c\<rparr>))"
      by (rule waits [where ex = "w = Waiting True"]) (use q look in \<open>auto simp: set_wstate_def\<close>)
    then obtain ls c' where "worker_run ?p ls (set_wstate i Gone (?p\<lparr>client := c'\<rparr>))" by blast
    moreover have "set_wstate i Gone (?p\<lparr>client := c'\<rparr>) = set_wstate i Gone (p\<lparr>client := c'\<rparr>)" by (simp add: set_wstate_def)
    moreover have "pool_step (PLook i 0 0) p ?p" using ps_look [OF q(2,3), of 0 0] look(1) by simp
    ultimately have "worker_run p (PLook i 0 0 # ls) (set_wstate i Gone (p\<lparr>client := c'\<rparr>))"
      by (auto simp: worker_run_def)
    then show ?thesis by blast
  qed
  show thesis
  proof (cases "wstates p ! i")
    case Looking
    then obtain ls c where "worker_run p ls (set_wstate i Gone (p\<lparr>client := c\<rparr>))" using looks [OF assms] by blast
    then show thesis by (intro that [where fs = "finished p"]) simp
  next
    case (Working t ex)
    obtain c where d: "pool_worker_done 0 0 i t ex p = set_wstate i Looking (p\<lparr>client := c, finished := finished p @ [t]\<rparr>)"
      by (rule done_shape)
    let ?p = "set_wstate i Looking (p\<lparr>client := c, finished := finished p @ [t]\<rparr>)"
    obtain ls c' where "worker_run ?p ls (set_wstate i Gone (?p\<lparr>client := c'\<rparr>))"
      using looks [of ?p] assms by (auto simp: set_wstate_def)
    moreover have "set_wstate i Gone (?p\<lparr>client := c'\<rparr>) = set_wstate i Gone (p\<lparr>client := c', finished := finished p @ [t]\<rparr>)"
      by (simp add: set_wstate_def)
    moreover have "pool_step (PDone i t 0 0) p ?p" using ps_done [OF assms(2) Working, of 0 0] d by simp
    ultimately have "worker_run p (PDone i t 0 0 # ls) (set_wstate i Gone (p\<lparr>client := c', finished := finished p @ [t]\<rparr>))"
      by (auto simp: worker_run_def)
    then show thesis by (rule that)
  next
    case Gone
    then have "worker_run p [] (set_wstate i Gone (p\<lparr>client := client p, finished := finished p\<rparr>))"
      using list_update_id [of "wstates p" i] by (simp add: worker_run_def set_wstate_def)
    then show thesis by (rule that)
  next
    case Asleep
    then obtain ls c where "worker_run p ls (set_wstate i Gone (p\<lparr>client := c\<rparr>))" using waits [OF assms] by blast
    then show thesis by (intro that [where fs = "finished p"]) simp
  next
    case (Waiting ex)
    then obtain ls c where "worker_run p ls (set_wstate i Gone (p\<lparr>client := c\<rparr>))" using waits [OF assms] by blast
    then show thesis by (intro that [where fs = "finished p"]) simp
  qed
qed

lemma trace_append: "trace step s ls t \<Longrightarrow> trace step t ls' u \<Longrightarrow> trace step s (ls @ ls') u"
  by (induction rule: trace.induct) auto

lemma worker_run_append: "worker_run p ls p' \<Longrightarrow> worker_run p' ls' p'' \<Longrightarrow> worker_run p (ls @ ls') p''"
  by (auto simp: worker_run_def intro: trace_append)

lemma workers_leave:
  assumes "quit p" "n \<le> length (wstates p)"
  shows "\<exists>ls p'. worker_run p ls p' \<and> quit p' \<and> tasks p' = tasks p \<and> length (wstates p') = length (wstates p) \<and> (\<forall>i < n. wstates p' ! i = Gone)"
  using assms(2)
proof (induction n)
  case 0
  have "worker_run p [] p" by (simp add: worker_run_def)
  then show ?case using assms(1) by blast
next
  case (Suc n)
  then obtain ls p' where run: "worker_run p ls p'" "quit p'" "tasks p' = tasks p" "length (wstates p') = length (wstates p)" "\<forall>i < n. wstates p' ! i = Gone"
    by auto
  obtain ls' c fs where "worker_run p' ls' (set_wstate n Gone (p'\<lparr>client := c, finished := fs\<rparr>))"
    by (rule worker_leaves [of p' n]) (use run Suc in auto)
  from worker_run_append [OF run(1) this]
  have "worker_run p (ls @ ls') (set_wstate n Gone (p'\<lparr>client := c, finished := fs\<rparr>))" .
  moreover have "\<forall>i < Suc n. wstates (set_wstate n Gone (p'\<lparr>client := c, finished := fs\<rparr>)) ! i = Gone"
    using run Suc.prems by (auto simp: set_wstate_def nth_list_update less_Suc_eq)
  moreover have "quit (set_wstate n Gone (p'\<lparr>client := c, finished := fs\<rparr>))" "tasks (set_wstate n Gone (p'\<lparr>client := c, finished := fs\<rparr>)) = tasks p"
      "length (wstates (set_wstate n Gone (p'\<lparr>client := c, finished := fs\<rparr>))) = length (wstates p)"
    using run by (simp_all add: set_wstate_def)
  ultimately show ?case by blast
qed

lemma call_runs:
  "worker_run (cpool s) ls p \<Longrightarrow>
     \<exists>s'. trace call_step s (map CallPool ls) s' \<and> cpool s' = p \<and> owner s' = owner s"
proof (induction ls arbitrary: s)
  case (Cons l ls)
  then obtain p1 where p1: "pool_step l (cpool s) p1" "by_worker l" "worker_run p1 ls p" by (auto simp: worker_run_def)
  let ?s = "callback l (s\<lparr>cpool := p1\<rparr>)"
  have "cpool ?s = p1" "owner ?s = owner s" by (simp_all add: callback_wg)
  then show ?case using Cons.IH [of ?s] p1 call_pools [OF p1(1,2)] by auto
qed (auto simp: worker_run_def)

text \<open>With every worker gone a queued chunk stays queued, and its call is not over.\<close>

definition stranded :: "nat \<Rightarrow> nat \<Rightarrow> calls \<Rightarrow> bool" where
  "stranded t k s \<longleftrightarrow> calls_inv s \<and> gone (cpool s) \<and> t \<in> set (tasks (cpool s)) \<and> owner s t = k"

lemma gone_step:
  assumes "pool_step l p p'" "gone p"
  shows "gone p'" "set (tasks p) \<subseteq> set (tasks p')"
proof -
  have g: "wstates p ! i = Gone" if "i < length (wstates p)" for i using that assms(2) by (simp add: gone_def)
  show "gone p'" "set (tasks p) \<subseteq> set (tasks p')"
    using assms by (cases, auto simp: gone_def g Submit_enter_def Submit_send_def Submit_refused_def split: if_splits)+
qed

lemma stranded_step:
  assumes "call_step l s s'" "stranded t k s"
  shows "stranded t k s'"
proof -
  have inv: "calls_inv s'" using calls_inv_step [OF assms(1)] assms(2) by (simp add: stranded_def)
  have "t \<in> issued s" using assms(2) by (auto simp: stranded_def calls_inv_def held_def)
  with assms have "gone (cpool s') \<and> t \<in> set (tasks (cpool s')) \<and> owner s' t = k"
    by cases (auto simp: stranded_def call_ops callback_wg dest: gone_step ps_enter [THEN gone_step(1)] ps_enter [THEN gone_step(2)]
      ps_send [THEN gone_step(1)] ps_send [THEN gone_step(2)] ps_refused [THEN gone_step(1)] ps_refused [THEN gone_step(2)])
  with inv show ?thesis by (simp add: stranded_def)
qed

lemma stranded_open: "stranded t k s \<Longrightarrow> phase s k \<noteq> Returned"
  by (auto simp: stranded_def calls_inv_def held_by_def held_def)

text \<open>A call returns only when its work is over: in every reachable state the count of its WaitGroup is never negative and is
  the number of its chunks that are queued, being worked on or about to be sent, so a call that has returned has none of them, in
  that state and in every later one, and no worker writes into results that were handed out.\<close>

lemma returned_call_settled:
  assumes "reachable fresh_calls call_step s"
  shows "wg s k = int (size (held_by s k)) + in_submit (phase s k) \<and>
    (phase s k = Returned \<longrightarrow> (\<forall>ls s'. trace call_step s ls s' \<longrightarrow> phase s' k = Returned \<and> held_by s' k = {#}))"
proof -
  have "calls_inv s" by (rule batch_calls.reachable_inv [OF assms])
  moreover have "phase s' k = Returned" if "trace call_step s ls s'" "phase s k = Returned" for ls s'
    using that
  proof (induction rule: trace.induct)
    case (trace_Cons l s t ls u)
    from trace_Cons.hyps(1) trace_Cons.prems have "phase t k = Returned" by cases (auto simp: call_ops callback_wg)
    then show ?case by (rule trace_Cons.IH)
  qed
  moreover have "calls_inv s'" if "trace call_step s ls s'" for ls s'
    by (rule batch_calls.reachable_inv [OF reachable_trace [OF assms that]])
  ultimately show ?thesis by (simp add: calls_inv_def)
qed

text \<open>C40. Stopping the pool can strand a call for good: from every reachable state of a stopped pool with a chunk in the queue there is a
  run, of the workers alone, in which each finishes what it is doing and leaves, after which the chunk stays in the queue and the
  call that submitted it never returns, whatever any call or worker does and whether or not contexts are cancelled: the wait for the
  chunks does not watch the context.\<close>

theorem stop_strands_calls:
  assumes "reachable fresh_calls call_step s" "quit (cpool s)" "t \<in> set (tasks (cpool s))"
  shows "\<exists>ls s'. trace call_step s ls s' \<and> (\<forall>l \<in> set ls. \<exists>w. l = CallPool w \<and> by_worker w) \<and>
    (\<forall>ls' s''. trace call_step s' ls' s'' \<longrightarrow> t \<in> set (tasks (cpool s'')) \<and> phase s'' (owner s t) \<noteq> Returned)"
proof -
  let ?n = "length (wstates (cpool s))"
  obtain ls p where run: "worker_run (cpool s) ls p" "tasks p = tasks (cpool s)" "length (wstates p) = ?n" "\<forall>i < ?n. wstates p ! i = Gone"
    using workers_leave [OF assms(2) le_refl] by auto
  obtain s' where s': "trace call_step s (map CallPool ls) s'" "cpool s' = p" "owner s' = owner s" using call_runs [OF run(1)] by blast
  have "calls_inv s'" by (rule batch_calls.reachable_inv [OF reachable_trace [OF assms(1) s'(1)]])
  then have "stranded t (owner s t) s'" using run s' assms(3) by (auto simp: stranded_def gone_def set_conv_nth)
  then have "stranded t (owner s t) s''" if "trace call_step s' ls' s''" for ls' s''
    using trace_preserves [OF that, of "stranded t (owner s t)" "\<lambda>_. True"] stranded_step by blast
  then have "\<forall>ls' s''. trace call_step s' ls' s'' \<longrightarrow> t \<in> set (tasks (cpool s'')) \<and> phase s'' (owner s t) \<noteq> Returned"
    using stranded_open by (metis stranded_def)
  moreover have "\<forall>l \<in> set (map CallPool ls). \<exists>w. l = CallPool w \<and> by_worker w" using run(1) by (auto simp: worker_run_def)
  ultimately show ?thesis using s'(1) by blast
qed

section \<open>Sample calls\<close>

text \<open>A pool without homes has two workers. Call 3 has one chunk, 7.\<close>

definition sample_calls :: "(RepairPool \<Rightarrow> RepairPool) \<Rightarrow> phase \<Rightarrow> int \<Rightarrow> calls" where
  "sample_calls f ph w = \<lparr>cpool = f (newRepairPool 20 bare_client), phase = (\<lambda>_. Unstarted)(3 := ph), wg = (\<lambda>_. 0)(3 := w), owner = (\<lambda>_. 3), issued = {7}\<rparr>"

lemma sample_workers: "length (wstates (newRepairPool 20 bare_client)) = 2"
  by (simp add: newRepairPool_def worker_plan_def bare_client_def repairPoolMinWorkers_def Let_def)

lemma sample_pool [simp]: "tasks (newRepairPool 20 bare_client) = []" "sending (newRepairPool 20 bare_client) = []"
  "submitted (newRepairPool 20 bare_client) = []" "\<not> quit (newRepairPool 20 bare_client)"
  by (simp_all add: newRepairPool_def Let_def)

lemma sample_fresh: "fresh_calls ((sample_calls id Unstarted 0)\<lparr>issued := {}\<rparr>)"
proof -
  have "fresh_pool (newRepairPool 20 bare_client)"
    unfolding fresh_pool_def by (intro exI [of _ 20] exI [of _ bare_client]) (simp add: bare_client_def)
  then show ?thesis by (simp add: fresh_calls_def sample_calls_def)
qed

lemma sample_checking: "reachable fresh_calls call_step (sample_calls id (Checking 7 []) 1)"
proof -
  let ?s = "(sample_calls id Unstarted 0)\<lparr>issued := {}\<rparr>"
  have "call_step (CallStart 3 [7]) ?s (sample_calls id (Submitting [7]) 0)"
    using call_starts [of ?s 3 "[7]"] by (simp add: sample_calls_def call_ops cong: if_cong)
  moreover have "call_step (CallAdd 3) (sample_calls id (Submitting [7]) 0) (sample_calls id (Checking 7 []) 1)"
    using call_adds [of "sample_calls id (Submitting [7]) 0" 3 7 "[]"] by (simp add: sample_calls_def call_ops)
  moreover have "reachable fresh_calls call_step ?s" using sample_fresh by (rule reach_init)
  ultimately show ?thesis using reach_step by metis
qed

text \<open>The chunk is sent, and the pool is stopped before a worker looks for it.\<close>

definition queued :: "RepairPool \<Rightarrow> RepairPool" where
  "queued p = p\<lparr>tasks := [7], submitted := [7]\<rparr>"

lemma sample_stopped: "reachable fresh_calls call_step (sample_calls (\<lambda>p. (queued p)\<lparr>quit := True\<rparr>) (Submitting []) 1)"
proof -
  let ?s = "\<lambda>f. sample_calls f (Sending 7 []) 1"
  have "call_step (CallEnter 3) (sample_calls id (Checking 7 []) 1) (?s (\<lambda>p. p\<lparr>sending := [7]\<rparr>))"
    using call_enters [of "sample_calls id (Checking 7 []) 1" 3 7 "[]"] by (simp add: sample_calls_def call_ops Submit_enter_def)
  moreover have "call_step (CallSend 3) (?s (\<lambda>p. p\<lparr>sending := [7]\<rparr>)) (sample_calls queued (Submitting []) 1)"
    using call_sends [of "?s (\<lambda>p. p\<lparr>sending := [7]\<rparr>)" 3 7 "[]" "queued (newRepairPool 20 bare_client)"] sample_workers
    by (simp add: sample_calls_def call_ops Submit_send_def queued_def)
  moreover have "call_step (CallPool PStop) (sample_calls queued (Submitting []) 1) (sample_calls (\<lambda>p. (queued p)\<lparr>quit := True\<rparr>) (Submitting []) 1)"
    using call_pools [OF ps_stop, of "sample_calls queued (Submitting []) 1"] by (simp add: sample_calls_def)
  ultimately show ?thesis using reach_step sample_checking by metis
qed

theorem stop_strands_calls_witness:
  "\<exists>s'. reachable fresh_calls call_step s' \<and>
     (\<forall>ls' s''. trace call_step s' ls' s'' \<longrightarrow> 7 \<in> set (tasks (cpool s'')) \<and> phase s'' 3 \<noteq> Returned)"
proof -
  let ?s = "sample_calls (\<lambda>p. (queued p)\<lparr>quit := True\<rparr>) (Submitting []) 1"
  have "quit (cpool ?s)" "7 \<in> set (tasks (cpool ?s))" "owner ?s 7 = 3" by (simp_all add: sample_calls_def queued_def)
  then show ?thesis using stop_strands_calls [OF sample_stopped, of 7] reachable_trace [OF sample_stopped] by metis
qed

end
