(* ===== verification/Conn_Pool.thy ===== *)
theory Conn_Pool
  imports Stat_Routing Transition "HOL-Library.Multiset"
begin

text \<open>
  The connection pools of \<^verbatim>\<open>src/internal/nntp/client.go\<close>. A pool has a stack of idle connections and a semaphore \<^verbatim>\<open>slots\<close> with one
  slot for each connection the provider allows; a goroutine takes a slot, then an idle connection or a new one, and gives the
  slot back after it has returned or closed the connection. The goroutines are a multiset of \<open>thread\<close> states and every step is
  one of theirs, from one lock or channel operation to the next; a race of \<^verbatim>\<open>raceForConnection\<close> is a group of threads with the flags
  of its receiver. Connections are numbers; the outcome of a ping or a dial and the moments at which contexts end are free.
\<close>

section \<open>Timeouts\<close>

record TimeoutConfig =
  DialTimeout :: int
  KeepAlive :: int
  HandshakeTimeout :: int
  StreamBodyTimeout :: int
  PingTimeout :: int
  StaleThreshold :: int
  IdleTimeout :: int
  ReaperInterval :: int

definition DefaultTimeouts :: TimeoutConfig where
  "DefaultTimeouts = \<lparr>DialTimeout = 10 * second, KeepAlive = 30 * second, HandshakeTimeout = 10 * second, StreamBodyTimeout = 60 * second,
     PingTimeout = 1500 * 1000000, StaleThreshold = 10 * second, IdleTimeout = 20 * second, ReaperInterval = 5 * second\<rparr>"

definition or_default :: "int \<Rightarrow> int \<Rightarrow> int" where
  "or_default v d = (if v \<le> 0 then d else v)"

definition normalizeTimeouts :: "TimeoutConfig \<Rightarrow> TimeoutConfig" where
  "normalizeTimeouts t =
     (let idle = or_default (IdleTimeout t) (20 * second);
          stale = StaleThreshold t;
          stale = (if stale \<le> 0 \<or> stale \<ge> idle then or_default (go_div idle 2) (10 * second) else stale);
          reap = or_default (ReaperInterval t) (5 * second);
          maxReap = max (go_div idle 4) second
      in \<lparr>DialTimeout = or_default (DialTimeout t) (10 * second), KeepAlive = or_default (KeepAlive t) (30 * second),
          HandshakeTimeout = or_default (HandshakeTimeout t) (10 * second), StreamBodyTimeout = or_default (StreamBodyTimeout t) (60 * second),
          PingTimeout = or_default (PingTimeout t) (1500 * 1000000), StaleThreshold = stale, IdleTimeout = idle,
          ReaperInterval = (if reap > maxReap then maxReap else reap)\<rparr>)"

definition timeouts :: TimeoutConfig where "timeouts = normalizeTimeouts DefaultTimeouts"

lemma timeouts_default: "timeouts = DefaultTimeouts"
  by (simp add: timeouts_def normalizeTimeouts_def DefaultTimeouts_def or_default_def second_def go_div_def Let_def)

section \<open>One pool\<close>

record connectionEntry =
  ent_conn :: nat
  lastUsed :: int

record conn_pool =
  idle :: "connectionEntry list"
  slots :: nat
  slot_max :: nat
  activeConns :: "nat set"
  dialFailStreak :: int
  dialCooldownUntil :: int

definition maxDialCooldown :: int where "maxDialCooldown = 15 * second"

definition inDialCooldown :: "int \<Rightarrow> conn_pool \<Rightarrow> bool" where
  "inDialCooldown now pp \<longleftrightarrow> dialCooldownUntil pp \<noteq> 0 \<and> now < dialCooldownUntil pp"

definition noteDialFailure :: "int \<Rightarrow> conn_pool \<Rightarrow> conn_pool" where
  "noteDialFailure now pp =
     (let streak = dialFailStreak pp + 1;
          backoff = min (second * 2 ^ nat (min (streak - 1) 4)) maxDialCooldown
      in pp\<lparr>dialFailStreak := streak, dialCooldownUntil := now + backoff\<rparr>)"

definition noteDialSuccess :: "conn_pool \<Rightarrow> conn_pool" where
  "noteDialSuccess pp = (if dialFailStreak pp \<noteq> 0 then pp\<lparr>dialFailStreak := 0, dialCooldownUntil := 0\<rparr> else pp)"

definition isWarm :: "int \<Rightarrow> conn_pool \<Rightarrow> bool" where
  "isWarm now pp \<longleftrightarrow> \<not> inDialCooldown now pp \<or> idle pp \<noteq> [] \<or> slots pp > 0"

definition isIdleExpired :: "int \<Rightarrow> connectionEntry \<Rightarrow> bool" where
  "isIdleExpired now e \<longleftrightarrow> lastUsed e \<noteq> 0 \<and> now - lastUsed e > IdleTimeout timeouts"

datatype ping = PingOk | PingFailed | PingTimedOut

definition checkEntryHealth :: "nat set \<Rightarrow> int \<Rightarrow> ping \<Rightarrow> connectionEntry \<Rightarrow> bool \<times> bool" where
  "checkEntryHealth closed now ping e =
     (if ent_conn e \<in> closed then (False, False)
      else if now - lastUsed e > StaleThreshold timeouts
      then (case ping of PingOk \<Rightarrow> (True, False) | PingFailed \<Rightarrow> (False, False) | PingTimedOut \<Rightarrow> (False, True))
      else (True, False))"

definition takeSlot :: "conn_pool \<Rightarrow> conn_pool option" where
  "takeSlot pp = (if slots pp < slot_max pp then Some (pp\<lparr>slots := slots pp + 1\<rparr>) else None)"

definition freeSlot :: "conn_pool \<Rightarrow> conn_pool" where
  "freeSlot pp = pp\<lparr>slots := slots pp - 1\<rparr>"

definition popIdle :: "conn_pool \<Rightarrow> (connectionEntry \<times> conn_pool) option" where
  "popIdle pp = (if idle pp = [] then None else Some (last (idle pp), pp\<lparr>idle := butlast (idle pp)\<rparr>))"

definition flushIdle :: "conn_pool \<Rightarrow> nat set \<times> conn_pool" where
  "flushIdle pp = (ent_conn ` set (idle pp), pp\<lparr>idle := []\<rparr>)"

definition pushIdle :: "connectionEntry \<Rightarrow> conn_pool \<Rightarrow> bool \<times> conn_pool" where
  "pushIdle e pp = (if length (idle pp) \<ge> slot_max pp then (False, pp) else (True, pp\<lparr>idle := idle pp @ [e]\<rparr>))"

definition reapIdle :: "int \<Rightarrow> conn_pool \<Rightarrow> nat set \<times> conn_pool" where
  "reapIdle now pp = (ent_conn ` set (takeWhile (isIdleExpired now) (idle pp)), pp\<lparr>idle := dropWhile (isIdleExpired now) (idle pp)\<rparr>)"

section \<open>Goroutines\<close>

text \<open>The states of a goroutine that wants, holds or returns a connection of a host. Those with a race number belong to that
  race: waiting for a slot, with a slot but before the look at the context, with a connection to report, with the report in the channel,
  and chosen by the receiver. A thread that is \<open>Lost\<close> is no goroutine any more: its connection and slot have no owner.\<close>

datatype thread =
    RWaiting nat string bool | RChosen nat string bool
  | Slotted "nat option" string bool | Checking "nat option" string bool connectionEntry | Dialing "nat option" string
  | RGot nat string nat | ROffered nat string nat | RWon nat string nat
  | Held string nat | Putting string nat | Returning string | Lost string nat

record race =
  race_done :: bool
  race_cancel :: bool
  race_over :: bool

record conns =
  cpools :: "string \<Rightarrow> conn_pool"
  threads :: "thread multiset"
  races :: "nat \<Rightarrow> race"
  next_race :: nat
  shut :: "nat set"
  client_closed :: bool
  next_conn :: nat

definition set_pool :: "string \<Rightarrow> conn_pool \<Rightarrow> conns \<Rightarrow> conns" where
  "set_pool h pp s = s\<lparr>cpools := (cpools s)(h := pp)\<rparr>"

definition shut_conns :: "nat set \<Rightarrow> conns \<Rightarrow> conns" where
  "shut_conns cs s = s\<lparr>shut := shut s \<union> cs\<rparr>"

definition on_race :: "nat \<Rightarrow> (race \<Rightarrow> race) \<Rightarrow> conns \<Rightarrow> conns" where
  "on_race r f s = s\<lparr>races := (races s)(r := f (races s r))\<rparr>"

text \<open>A goroutine moves from one state to the next, or ends.\<close>

definition become :: "thread multiset \<Rightarrow> thread multiset \<Rightarrow> conns \<Rightarrow> conns" where
  "become A B s = s\<lparr>threads := threads s - A + B\<rparr>"

definition got :: "nat option \<Rightarrow> string \<Rightarrow> nat \<Rightarrow> thread" where
  "got who h c = (case who of None \<Rightarrow> Held h c | Some r \<Rightarrow> RGot r h c)"

definition register :: "nat \<Rightarrow> conn_pool \<Rightarrow> conn_pool" where
  "register c pp = pp\<lparr>activeConns := insert c (activeConns pp)\<rparr>"

definition deregister :: "nat \<Rightarrow> conn_pool \<Rightarrow> conn_pool" where
  "deregister c pp = pp\<lparr>activeConns := activeConns pp - {c}\<rparr>"

text \<open>What \<^verbatim>\<open>getOrCreateFromPool\<close> does with an entry it popped: the thread's next state.\<close>

definition checked :: "nat option \<Rightarrow> string \<Rightarrow> bool \<Rightarrow> connectionEntry \<Rightarrow> int \<Rightarrow> ping \<Rightarrow> conns \<Rightarrow> thread \<times> conns" where
  "checked who h allow e now ping s =
     (if isIdleExpired now e then (Slotted who h allow, shut_conns {ent_conn e} s)
      else case checkEntryHealth (shut s) now ping e of (healthy, timedOut) \<Rightarrow>
        if healthy then (got who h (ent_conn e), set_pool h (register (ent_conn e) (cpools s h)) s)
        else if timedOut then
          (case flushIdle (cpools s h) of (cs, pp) \<Rightarrow> (Slotted who h allow, set_pool h pp (shut_conns (insert (ent_conn e) cs) s)))
        else (Slotted who h allow, shut_conns {ent_conn e} s))"

text \<open>\<^verbatim>\<open>put\<close> up to its lock, and from there to the release of the slot; \<^verbatim>\<open>release\<close> up to the release of the slot.\<close>

definition put_start :: "string \<Rightarrow> nat \<Rightarrow> conns \<Rightarrow> thread \<times> conns" where
  "put_start h c s =
     (let s = set_pool h (deregister c (cpools s h)) s
      in if c \<in> shut s \<or> client_closed s then (Returning h, shut_conns {c} s) else (Putting h c, s))"

definition put_push :: "string \<Rightarrow> nat \<Rightarrow> int \<Rightarrow> conns \<Rightarrow> thread \<times> conns" where
  "put_push h c now s =
     (case pushIdle \<lparr>ent_conn = c, lastUsed = now\<rparr> (cpools s h) of (pushed, pp) \<Rightarrow>
        (Returning h, set_pool h pp (if pushed then s else shut_conns {c} s)))"

definition release_conn :: "string \<Rightarrow> nat \<Rightarrow> conns \<Rightarrow> thread \<times> conns" where
  "release_conn h c s = (Returning h, shut_conns {c} (set_pool h (deregister c (cpools s h)) s))"

definition returnOrReleaseConn :: "string \<Rightarrow> nat \<Rightarrow> conns \<Rightarrow> thread \<times> conns" where
  "returnOrReleaseConn h c s = (if c \<in> shut s then release_conn h c s else put_start h c s)"

fun race_of :: "thread \<Rightarrow> nat option" where
  "race_of (RWaiting r h a) = Some r"
| "race_of (RChosen r h a) = Some r"
| "race_of (Slotted who h a) = who"
| "race_of (Checking who h a e) = who"
| "race_of (Dialing who h) = who"
| "race_of (RGot r h c) = Some r"
| "race_of (ROffered r h c) = Some r"
| "race_of _ = None"

text \<open>The channel of a race is closed and drained: none of its goroutines is left.\<close>

definition race_drained :: "nat \<Rightarrow> conns \<Rightarrow> bool" where
  "race_drained r s \<longleftrightarrow> (\<forall>t \<in># threads s. race_of t \<noteq> Some r)"

fun winner_of :: "nat \<Rightarrow> thread \<Rightarrow> bool" where
  "winner_of r (RWon r' h c) = (r' = r)"
| "winner_of r _ = False"

definition has_winner :: "nat \<Rightarrow> conns \<Rightarrow> bool" where
  "has_winner r s \<longleftrightarrow> (\<exists>t \<in># threads s. winner_of r t)"

section \<open>Steps\<close>

datatype clabel = CSlot string | CRace "string list" | CRacer nat string | CPop string | CChecked string nat | CDial string | CCold string
  | CDialled string nat | CDialFailed string | CSend nat string nat | CUnsend nat string nat | CTake nat string nat | CExtra nat string nat
  | CDrain nat string nat | CFinish nat | CCtx nat | CAbandon nat | CPut string nat | CPush string nat | CRelease string nat | CReturned string
  | CReap string | CShut nat | CClose | CClosePool string

inductive conn_step :: "clabel \<Rightarrow> conns \<Rightarrow> conns \<Rightarrow> bool" where
  cs_slot: "takeSlot (cpools s h) = Some pp \<Longrightarrow> conn_step (CSlot h) s (become {#} {#Slotted None h allow#} (set_pool h pp s))"
| cs_race: "conn_step (CRace hs) s
    (become {#} (mset (map (\<lambda>h. RWaiting (next_race s) h allow) hs))
      (on_race (next_race s) (\<lambda>_. \<lparr>race_done = False, race_cancel = False, race_over = False\<rparr>) (s\<lparr>next_race := next_race s + 1\<rparr>)))"
| cs_racer_slot: "RWaiting r h allow \<in># threads s \<Longrightarrow> takeSlot (cpools s h) = Some pp \<Longrightarrow>
    conn_step (CSlot h) s (become {#RWaiting r h allow#} {#RChosen r h allow#} (set_pool h pp s))"
| cs_racer_gives_up: "RWaiting r h allow \<in># threads s \<Longrightarrow> race_cancel (races s r) \<Longrightarrow>
    conn_step (CRacer r h) s (become {#RWaiting r h allow#} {#} s)"
| cs_racer_late: "RChosen r h allow \<in># threads s \<Longrightarrow> race_cancel (races s r) \<Longrightarrow>
    conn_step (CRacer r h) s (become {#RChosen r h allow#} {#} (set_pool h (freeSlot (cpools s h)) s))"
| cs_racer_on: "RChosen r h allow \<in># threads s \<Longrightarrow> \<not> race_cancel (races s r) \<Longrightarrow>
    conn_step (CRacer r h) s (become {#RChosen r h allow#} {#Slotted (Some r) h allow#} s)"
| cs_pop: "Slotted who h allow \<in># threads s \<Longrightarrow> popIdle (cpools s h) = Some (e, pp) \<Longrightarrow>
    conn_step (CPop h) s (become {#Slotted who h allow#} {#Checking who h allow e#} (set_pool h pp s))"
| cs_checked: "Checking who h allow e \<in># threads s \<Longrightarrow> checked who h allow e now ping s = (t, s') \<Longrightarrow>
    conn_step (CChecked h (ent_conn e)) s (become {#Checking who h allow e#} {#t#} s')"
| cs_dial: "Slotted who h allow \<in># threads s \<Longrightarrow> idle (cpools s h) = [] \<Longrightarrow> allow \<or> \<not> inDialCooldown now (cpools s h) \<Longrightarrow>
    conn_step (CDial h) s (become {#Slotted who h allow#} {#Dialing who h#} s)"
| cs_cold: "Slotted who h False \<in># threads s \<Longrightarrow> idle (cpools s h) = [] \<Longrightarrow> inDialCooldown now (cpools s h) \<Longrightarrow>
    conn_step (CCold h) s (become {#Slotted who h False#} {#} (set_pool h (freeSlot (cpools s h)) s))"
| cs_dialled: "Dialing who h \<in># threads s \<Longrightarrow>
    conn_step (CDialled h (next_conn s)) s (become {#Dialing who h#} {#got who h (next_conn s)#}
      (set_pool h (register (next_conn s) (noteDialSuccess (cpools s h))) (s\<lparr>next_conn := next_conn s + 1\<rparr>)))"
| cs_dial_failed: "Dialing who h \<in># threads s \<Longrightarrow>
    conn_step (CDialFailed h) s (become {#Dialing who h#} {#}
      (set_pool h (freeSlot (if ctx_done then cpools s h else noteDialFailure now (cpools s h))) s))"
| cs_send: "RGot r h c \<in># threads s \<Longrightarrow> conn_step (CSend r h c) s (become {#RGot r h c#} {#ROffered r h c#} s)"
| cs_unsend: "RGot r h c \<in># threads s \<Longrightarrow> race_cancel (races s r) \<Longrightarrow> put_start h c s = (t, s') \<Longrightarrow>
    conn_step (CUnsend r h c) s (become {#RGot r h c#} {#t#} s')"
| cs_take: "ROffered r h c \<in># threads s \<Longrightarrow> \<not> race_over (races s r) \<Longrightarrow> \<not> has_winner r s \<Longrightarrow>
    conn_step (CTake r h c) s (become {#ROffered r h c#} {#RWon r h c#} (on_race r (\<lambda>x. x\<lparr>race_cancel := True\<rparr>) s))"
| cs_extra: "ROffered r h c \<in># threads s \<Longrightarrow> \<not> race_over (races s r) \<Longrightarrow> has_winner r s \<Longrightarrow> returnOrReleaseConn h c s = (t, s') \<Longrightarrow>
    conn_step (CExtra r h c) s (become {#ROffered r h c#} {#t#} s')"
| cs_drain: "ROffered r h c \<in># threads s \<Longrightarrow> race_over (races s r) \<Longrightarrow> returnOrReleaseConn h c s = (t, s') \<Longrightarrow>
    conn_step (CDrain r h c) s (become {#ROffered r h c#} {#t#} s')"
| cs_finish: "RWon r h c \<in># threads s \<Longrightarrow> \<not> race_over (races s r) \<Longrightarrow> race_drained r s \<Longrightarrow>
    conn_step (CFinish r) s (become {#RWon r h c#} {#Held h c#} (on_race r (\<lambda>x. x\<lparr>race_over := True\<rparr>) s))"
| cs_finish_none: "\<not> has_winner r s \<Longrightarrow> \<not> race_over (races s r) \<Longrightarrow> race_drained r s \<Longrightarrow>
    conn_step (CFinish r) s (on_race r (\<lambda>x. x\<lparr>race_over := True\<rparr>) s)"
| cs_ctx: "conn_step (CCtx r) s (on_race r (\<lambda>x. x\<lparr>race_done := True, race_cancel := True\<rparr>) s)"
| cs_abandon: "race_done (races s r) \<Longrightarrow> \<not> race_over (races s r) \<Longrightarrow> \<not> has_winner r s \<Longrightarrow>
    conn_step (CAbandon r) s (on_race r (\<lambda>x. x\<lparr>race_over := True\<rparr>) s)"
| cs_abandon_winner: "race_done (races s r) \<Longrightarrow> \<not> race_over (races s r) \<Longrightarrow> RWon r h c \<in># threads s \<Longrightarrow>
    conn_step (CAbandon r) s (become {#RWon r h c#} {#Lost h c#} (on_race r (\<lambda>x. x\<lparr>race_over := True\<rparr>) s))"
| cs_put: "Held h c \<in># threads s \<Longrightarrow> put_start h c s = (t, s') \<Longrightarrow> conn_step (CPut h c) s (become {#Held h c#} {#t#} s')"
| cs_push: "Putting h c \<in># threads s \<Longrightarrow> put_push h c now s = (t, s') \<Longrightarrow> conn_step (CPush h c) s (become {#Putting h c#} {#t#} s')"
| cs_release: "Held h c \<in># threads s \<Longrightarrow> release_conn h c s = (t, s') \<Longrightarrow> conn_step (CRelease h c) s (become {#Held h c#} {#t#} s')"
| cs_returned: "Returning h \<in># threads s \<Longrightarrow>
    conn_step (CReturned h) s (become {#Returning h#} {#} (set_pool h (freeSlot (cpools s h)) s))"
| cs_reap: "reapIdle now (cpools s h) = (cs, pp) \<Longrightarrow> conn_step (CReap h) s (set_pool h pp (shut_conns cs s))"
| cs_shut: "conn_step (CShut c) s (shut_conns {c} s)"
| cs_close: "conn_step CClose s (s\<lparr>client_closed := True\<rparr>)"
| cs_close_pool: "client_closed s \<Longrightarrow> flushIdle (cpools s h) = (cs, pp) \<Longrightarrow>
    conn_step (CClosePool h) s (set_pool h pp (shut_conns (cs \<union> activeConns pp) s))"

definition fresh_conns :: "conns \<Rightarrow> bool" where
  "fresh_conns s \<longleftrightarrow> threads s = {#} \<and> (\<forall>h. idle (cpools s h) = [] \<and> slots (cpools s h) = 0)"

section \<open>Slots and connections\<close>

fun slot_at :: "string \<Rightarrow> thread \<Rightarrow> nat" where
  "slot_at h (RWaiting r h' a) = 0"
| "slot_at h (RChosen r h' a) = (if h' = h then 1 else 0)"
| "slot_at h (Slotted who h' a) = (if h' = h then 1 else 0)"
| "slot_at h (Checking who h' a e) = (if h' = h then 1 else 0)"
| "slot_at h (Dialing who h') = (if h' = h then 1 else 0)"
| "slot_at h (RGot r h' c) = (if h' = h then 1 else 0)"
| "slot_at h (ROffered r h' c) = (if h' = h then 1 else 0)"
| "slot_at h (RWon r h' c) = (if h' = h then 1 else 0)"
| "slot_at h (Held h' c) = (if h' = h then 1 else 0)"
| "slot_at h (Putting h' c) = (if h' = h then 1 else 0)"
| "slot_at h (Returning h') = (if h' = h then 1 else 0)"
| "slot_at h (Lost h' c) = (if h' = h then 1 else 0)"

text \<open>The connections a thread has, or is about to have.\<close>

fun open_at :: "string \<Rightarrow> thread \<Rightarrow> nat" where
  "open_at h (RWaiting r h' a) = 0"
| "open_at h (RChosen r h' a) = 0"
| "open_at h (Slotted who h' a) = 0"
| "open_at h (Returning h') = 0"
| "open_at h t = slot_at h t"

definition slots_held :: "string \<Rightarrow> conns \<Rightarrow> nat" where
  "slots_held h s = (\<Sum>t \<in># threads s. slot_at h t)"

definition conns_out :: "string \<Rightarrow> conns \<Rightarrow> nat" where
  "conns_out h s = (\<Sum>t \<in># threads s. open_at h t)"

definition conns_ok :: "conns \<Rightarrow> string \<Rightarrow> bool" where
  "conns_ok s h \<longleftrightarrow>
     slots (cpools s h) = slots_held h s \<and> slots_held h s \<le> slot_max (cpools s h) \<and>
     length (idle (cpools s h)) + conns_out h s \<le> slot_max (cpools s h)"

lemma open_le_slot: "open_at h t \<le> slot_at h t"
  by (cases t) auto

lemma conns_le_slots: "(\<Sum>t \<in># M. open_at h t) \<le> (\<Sum>t \<in># M. slot_at h t)"
  by (rule sum_mset_mono) (rule open_le_slot)

text \<open>A step takes some threads to others and changes one pool: what the slots and connections of that host have to do.\<close>

lemma conns_ok_become:
  assumes ok: "\<And>h. conns_ok s h" and A: "A \<subseteq># threads s"
    and s': "cpools s' = (cpools s)(h := pp)" "threads s' = threads s"
    and max: "slot_max pp = slot_max (cpools s h)"
    and others: "\<And>h'. h' \<noteq> h \<Longrightarrow> (\<Sum>t \<in># A. slot_at h' t) = (\<Sum>t \<in># B. slot_at h' t) \<and> (\<Sum>t \<in># B. open_at h' t) \<le> (\<Sum>t \<in># A. open_at h' t)"
    and slot: "slots pp + (\<Sum>t \<in># A. slot_at h t) = slots (cpools s h) + (\<Sum>t \<in># B. slot_at h t)" "slots pp \<le> slot_max pp"
    and out: "length (idle pp) + (\<Sum>t \<in># B. open_at h t) \<le> length (idle (cpools s h)) + (\<Sum>t \<in># A. open_at h t) \<or> idle pp = []"
  shows "conns_ok (become A B s') h'"
proof -
  obtain N where N: "threads s = N + A" using A by (metis subset_mset.diff_add)
  then have N': "threads (become A B s') = N + B" using s'(2) by (simp add: become_def)
  have held: "slots_held k (become A B s') + (\<Sum>t \<in># A. slot_at k t) = slots_held k s + (\<Sum>t \<in># B. slot_at k t)"
    and outs: "conns_out k (become A B s') + (\<Sum>t \<in># A. open_at k t) = conns_out k s + (\<Sum>t \<in># B. open_at k t)" for k
    using N N' by (simp_all add: slots_held_def conns_out_def)
  have pools: "cpools (become A B s') = (cpools s)(h := pp)" using s'(1) by (simp add: become_def)
  show ?thesis
  proof (cases "h' = h")
    case True
    have eq: "slots pp = slots_held h (become A B s')" using held [of h] slot(1) ok [of h] by (simp add: conns_ok_def)
    from out have "length (idle pp) + conns_out h (become A B s') \<le> slot_max pp"
    proof
      assume "idle pp = []"
      then show ?thesis
        using conns_le_slots [of h "threads (become A B s')"] eq slot(2) by (simp add: slots_held_def conns_out_def)
    qed (use outs [of h] ok [of h] max in \<open>simp add: conns_ok_def\<close>)
    then show ?thesis using True pools eq slot(2) by (simp add: conns_ok_def)
  next
    case False
    then show ?thesis using pools held [of h'] outs [of h'] others [OF False] ok [of h'] by (simp add: conns_ok_def)
  qed
qed

text \<open>The fields a pool operation leaves alone.\<close>

lemma takeSlot_Some: "takeSlot pp = Some pp' \<longleftrightarrow> slots pp < slot_max pp \<and> pp' = pp\<lparr>slots := slots pp + 1\<rparr>"
  by (auto simp: takeSlot_def)

lemma popIdle_Some: "popIdle pp = Some (e, pp') \<longleftrightarrow> idle pp \<noteq> [] \<and> e = last (idle pp) \<and> pp' = pp\<lparr>idle := butlast (idle pp)\<rparr>"
  by (auto simp: popIdle_def)

lemma pool_fields [simp]:
  "idle (freeSlot pp) = idle pp" "slots (freeSlot pp) = slots pp - 1" "slot_max (freeSlot pp) = slot_max pp" "activeConns (freeSlot pp) = activeConns pp"
  "idle (register c pp) = idle pp" "slots (register c pp) = slots pp" "slot_max (register c pp) = slot_max pp"
  "idle (deregister c pp) = idle pp" "slots (deregister c pp) = slots pp" "slot_max (deregister c pp) = slot_max pp"
  "idle (noteDialSuccess pp) = idle pp" "slots (noteDialSuccess pp) = slots pp" "slot_max (noteDialSuccess pp) = slot_max pp"
  "idle (noteDialFailure now pp) = idle pp" "slots (noteDialFailure now pp) = slots pp" "slot_max (noteDialFailure now pp) = slot_max pp"
  by (simp_all add: freeSlot_def register_def deregister_def noteDialSuccess_def noteDialFailure_def Let_def)

lemma conns_fields [simp]:
  "cpools (set_pool h pp s) = (cpools s)(h := pp)" "threads (set_pool h pp s) = threads s" "races (set_pool h pp s) = races s"
  "shut (set_pool h pp s) = shut s" "client_closed (set_pool h pp s) = client_closed s" "next_conn (set_pool h pp s) = next_conn s"
  "cpools (shut_conns cs s) = cpools s" "threads (shut_conns cs s) = threads s" "races (shut_conns cs s) = races s" "next_conn (shut_conns cs s) = next_conn s"
  "cpools (on_race r f s) = cpools s" "threads (on_race r f s) = threads s" "next_conn (on_race r f s) = next_conn s"
  "cpools (become A B s) = cpools s" "threads (become A B s) = threads s - A + B" "next_conn (become A B s) = next_conn s"
  by (simp_all add: set_pool_def shut_conns_def on_race_def become_def)

lemma got_at [simp]: "slot_at h (got who h' c) = (if h' = h then 1 else 0)" "open_at h (got who h' c) = (if h' = h then 1 else 0)"
  by (simp_all add: got_def split: option.split)

text \<open>The helpers that give a connection back or look at an idle one keep the slots of the pool, and what they leave of the
  connection is at most what they were given.\<close>

definition hands_over :: "string \<Rightarrow> conns \<Rightarrow> thread \<Rightarrow> conns \<Rightarrow> bool" where
  "hands_over h s t s' \<longleftrightarrow>
     threads s' = threads s \<and> (\<forall>h'. h' \<noteq> h \<longrightarrow> cpools s' h' = cpools s h') \<and>
     slots (cpools s' h) = slots (cpools s h) \<and> slot_max (cpools s' h) = slot_max (cpools s h) \<and>
     length (idle (cpools s' h)) + open_at h t \<le> length (idle (cpools s h)) + 1 \<and>
     (\<forall>h'. slot_at h' t = (if h' = h then 1 else 0)) \<and> (\<forall>h'. h' \<noteq> h \<longrightarrow> open_at h' t = 0)"

lemma hands_over_checked: "checked who h allow e now ping s = (t, s') \<Longrightarrow> hands_over h s t s'"
  by (auto simp: checked_def flushIdle_def hands_over_def split: prod.splits if_splits)

lemma hands_over_put_start: "put_start h c s = (t, s') \<Longrightarrow> hands_over h s t s'"
  by (auto simp: put_start_def hands_over_def Let_def split: if_splits)

lemma hands_over_put_push: "put_push h c now s = (t, s') \<Longrightarrow> hands_over h s t s'"
  by (auto simp: put_push_def pushIdle_def hands_over_def split: if_splits)

lemma hands_over_release: "release_conn h c s = (t, s') \<Longrightarrow> hands_over h s t s'"
  by (auto simp: release_conn_def hands_over_def)

lemma hands_over_return: "returnOrReleaseConn h c s = (t, s') \<Longrightarrow> hands_over h s t s'"
  by (auto simp: returnOrReleaseConn_def split: if_splits intro: hands_over_release hands_over_put_start)

lemmas hands_overs = hands_over_checked hands_over_put_start hands_over_put_push hands_over_release hands_over_return

lemma conns_ok_hand_over:
  assumes "\<And>h. conns_ok s h" "a \<in># threads s" "hands_over h s t s'"
    and "\<And>h'. slot_at h' a = (if h' = h then 1 else 0)" "\<And>h'. open_at h' a = (if h' = h then 1 else 0)"
  shows "conns_ok (become {#a#} {#t#} s') h'"
proof (rule conns_ok_become [where h = h and pp = "cpools s' h" and s = s])
  show "cpools s' = (cpools s)(h := cpools s' h)" using assms(3) by (auto simp: hands_over_def)
qed (use assms assms(1) [unfolded conns_ok_def, of h] in \<open>auto simp: hands_over_def\<close>)

lemma conns_ok_cong: "cpools s' = cpools s \<Longrightarrow> threads s' = threads s \<Longrightarrow> conns_ok s' h = conns_ok s h"
  by (simp add: conns_ok_def slots_held_def conns_out_def)

lemma slot_pos: "conns_ok s h \<Longrightarrow> t \<in># threads s \<Longrightarrow> slot_at h t = 1 \<Longrightarrow> 0 < slots (cpools s h)"
  by (auto simp: conns_ok_def slots_held_def dest!: multi_member_split)

text \<open>A thread that only changes state, with its slot and connection.\<close>

lemma conns_ok_move:
  assumes "\<And>h. conns_ok s h" "a \<in># threads s" "cpools s' = cpools s" "threads s' = threads s"
    and "\<And>h'. slot_at h' b = slot_at h' a" "\<And>h'. open_at h' b = open_at h' a"
  shows "conns_ok (become {#a#} {#b#} s') h"
  by (rule conns_ok_become [where h = h and pp = "cpools s h" and s = s]) (use assms in \<open>auto simp: conns_ok_def\<close>)

text \<open>A thread that ends and frees its slot.\<close>

lemma conns_ok_free:
  assumes "\<And>h. conns_ok s h" "a \<in># threads s" "cpools s' = (cpools s)(h := freeSlot pp)" "threads s' = threads s"
    and "slots pp = slots (cpools s h)" "slot_max pp = slot_max (cpools s h)" "idle pp = idle (cpools s h)"
    and "\<And>h'. slot_at h' a = (if h' = h then 1 else 0)" "\<And>h'. h' \<noteq> h \<Longrightarrow> open_at h' a = 0"
  shows "conns_ok (become {#a#} {#} s') h'"
  by (rule conns_ok_become [where h = h and pp = "freeSlot pp" and s = s])
    (use assms slot_pos [OF assms(1) assms(2), of h] assms(1) [unfolded conns_ok_def, of h] in auto)

text \<open>Idle connections that are closed where they are.\<close>

lemma conns_ok_drop:
  assumes "\<And>h. conns_ok s h" "cpools s' = (cpools s)(h := pp)" "threads s' = threads s" "slots pp = slots (cpools s h)" "slot_max pp = slot_max (cpools s h)"
    "length (idle pp) \<le> length (idle (cpools s h))"
  shows "conns_ok s' h'"
proof -
  have "conns_ok (become {#} {#} s') h'"
    by (rule conns_ok_become [where h = h and pp = pp and s = s]) (use assms assms(1) [unfolded conns_ok_def, of h] in auto)
  then show ?thesis by (simp add: become_def)
qed

lemma waiting_counts:
  "(\<Sum>t \<in># {#RWaiting r h a. h \<in># M#}. slot_at k t) = 0" "(\<Sum>t \<in># {#RWaiting r h a. h \<in># M#}. open_at k t) = 0"
  by (induction M) auto

lemma conns_ok_step: "conn_step l s s' \<Longrightarrow> (\<And>h. conns_ok s h) \<Longrightarrow> conns_ok s' k"
proof (induction rule: conn_step.induct)
  case (cs_slot s h pp allow)
  then show ?case
    by (intro conns_ok_become [where h = h and pp = pp and s = s]) (auto simp: takeSlot_Some)
next
  case (cs_race hs s allow)
  then show ?case by (simp add: conns_ok_def slots_held_def conns_out_def waiting_counts)
next
  case (cs_racer_slot r h allow s pp)
  then show ?case by (intro conns_ok_become [where h = h and pp = pp and s = s]) (auto simp: takeSlot_Some)
next
  case (cs_racer_gives_up r h allow s)
  then show ?case by (intro conns_ok_become [where h = h and pp = "cpools s h" and s = s]) (auto simp: conns_ok_def)
next
  case (cs_racer_late r h allow s)
  then show ?case by (intro conns_ok_free [where h = h and pp = "cpools s h" and s = s]) auto
next
  case (cs_racer_on r h allow s)
  then show ?case by (intro conns_ok_move [where s = s]) auto
next
  case (cs_pop who h allow s e pp)
  then show ?case
    by (intro conns_ok_become [where h = h and pp = pp and s = s]) (auto simp: popIdle_Some conns_ok_def)
next
  case (cs_checked who h allow e s now ping t s')
  then show ?case by (intro conns_ok_hand_over [where s = s]) (auto intro: hands_overs)
next
  case (cs_dial who h allow s now)
  then show ?case by (intro conns_ok_become [where h = h and pp = "cpools s h" and s = s]) (auto simp: conns_ok_def)
next
  case (cs_cold who h s now)
  then show ?case by (intro conns_ok_free [where h = h and pp = "cpools s h" and s = s]) auto
next
  case (cs_dialled who h s)
  then show ?case
    by (intro conns_ok_become [where h = h and pp = "register (next_conn s) (noteDialSuccess (cpools s h))" and s = s]) (auto simp: conns_ok_def)
next
  case (cs_dial_failed who h s ctx_done now)
  then show ?case
    by (intro conns_ok_free [where h = h and pp = "if ctx_done then cpools s h else noteDialFailure now (cpools s h)" and s = s]) auto
next
  case (cs_send r h c s)
  then show ?case by (intro conns_ok_move [where s = s]) auto
next
  case (cs_unsend r h c s t s')
  then show ?case by (intro conns_ok_hand_over [where s = s]) (auto intro: hands_overs)
next
  case (cs_take r h c s)
  then show ?case by (intro conns_ok_move [where s = s]) auto
next
  case (cs_extra r h c s t s')
  then show ?case by (intro conns_ok_hand_over [where s = s]) (auto intro: hands_overs)
next
  case (cs_drain r h c s t s')
  then show ?case by (intro conns_ok_hand_over [where s = s]) (auto intro: hands_overs)
next
  case (cs_finish r h c s)
  then show ?case by (intro conns_ok_move [where s = s]) auto
next
  case (cs_abandon_winner s r h c)
  then show ?case by (intro conns_ok_move [where s = s]) auto
next
  case (cs_put h c s t s')
  then show ?case by (intro conns_ok_hand_over [where s = s]) (auto intro: hands_overs)
next
  case (cs_push h c s now t s')
  then show ?case by (intro conns_ok_hand_over [where s = s]) (auto intro: hands_overs)
next
  case (cs_release h c s t s')
  then show ?case by (intro conns_ok_hand_over [where s = s]) (auto intro: hands_overs)
next
  case (cs_returned h s)
  then show ?case by (intro conns_ok_free [where h = h and pp = "cpools s h" and s = s]) auto
next
  case (cs_reap now s h cs pp)
  then show ?case
    by (simp add: reapIdle_def) (rule conns_ok_drop [where h = h and pp = pp and s = s], auto simp: length_dropWhile_le)
next
  case (cs_close_pool s h cs pp)
  then show ?case
    by (simp add: flushIdle_def) (rule conns_ok_drop [where h = h and pp = pp and s = s], auto)
qed (simp_all add: conns_ok_def slots_held_def conns_out_def)


interpretation conn_pools: invariant fresh_conns conn_step "\<lambda>s. \<forall>h. conns_ok s h"
proof
  show "\<forall>h. conns_ok s h" if "fresh_conns s" for s using that by (simp add: fresh_conns_def conns_ok_def slots_held_def conns_out_def)
qed (blast intro: conns_ok_step)

section \<open>No connection has two owners\<close>

fun conn_held :: "thread \<Rightarrow> nat multiset" where
  "conn_held (Checking who h a e) = {#ent_conn e#}"
| "conn_held (RGot r h c) = {#c#}"
| "conn_held (ROffered r h c) = {#c#}"
| "conn_held (RWon r h c) = {#c#}"
| "conn_held (Held h c) = {#c#}"
| "conn_held (Putting h c) = {#c#}"
| "conn_held (Lost h c) = {#c#}"
| "conn_held _ = {#}"

text \<open>The owners of a connection: an idle stack, which is counted for each host of a finite set, or a thread.\<close>

definition idle_conns :: "string \<Rightarrow> conns \<Rightarrow> nat multiset" where
  "idle_conns h s = mset (map ent_conn (idle (cpools s h)))"



lemma count_member_sum: "finite H \<Longrightarrow> h \<in> H \<Longrightarrow> idle_conns h s \<subseteq># (\<Sum>h \<in> H. idle_conns h s)"
  by (simp add: sum.remove [of H h])


lemma conn_held_got [simp]: "conn_held (got who h c) = {#c#}"
  by (simp add: got_def split: option.split)

lemma idle_conns_fields [simp]:
  "idle_conns h (become A B s) = idle_conns h s" "idle_conns h (shut_conns cs s) = idle_conns h s" "idle_conns h (on_race r f s) = idle_conns h s"
  "idle_conns h (set_pool h pp s) = mset (map ent_conn (idle pp))"
  by (simp_all add: idle_conns_def)







section \<open>What the pools guarantee\<close>


section \<open>A slot that is lost\<close>

fun lost_at :: "string \<Rightarrow> thread \<Rightarrow> nat" where
  "lost_at h (Lost h' c) = (if h' = h then 1 else 0)"
| "lost_at h _ = 0"

definition lost :: "string \<Rightarrow> conns \<Rightarrow> nat" where
  "lost h s = (\<Sum>t \<in># threads s. lost_at h t)"

lemma lost_le_slots: "lost h s \<le> slots_held h s"
proof -
  have "lost_at h t \<le> slot_at h t" for t by (cases t) auto
  then show ?thesis unfolding lost_def slots_held_def by (rule sum_mset_mono)
qed

lemma lost_become:
  assumes "A \<subseteq># threads s" "threads s' = threads s" "(\<Sum>t \<in># A. lost_at h t) = 0"
  shows "lost h s \<le> lost h (become A B s')"
proof -
  obtain N where "threads s = N + A" using assms(1) by (metis subset_mset.diff_add)
  then have "lost h s + (\<Sum>t \<in># B. lost_at h t) = lost h (become A B s') + (\<Sum>t \<in># A. lost_at h t)"
    using assms(2) by (simp add: lost_def)
  then show ?thesis using assms(3) by linarith
qed

lemma hands_over_threads: "hands_over h s t s' \<Longrightarrow> threads s' = threads s"
  by (simp add: hands_over_def)

lemma lost_step: "conn_step l s s' \<Longrightarrow> lost h s \<le> lost h s'"
  by (induction rule: conn_step.induct)
    (simp_all add: lost_become hands_over_threads [OF hands_over_checked] hands_over_threads [OF hands_over_put_start]
      hands_over_threads [OF hands_over_put_push] hands_over_threads [OF hands_over_release] hands_over_threads [OF hands_over_return],
     simp_all add: lost_def)

lemma max_step: "conn_step l s s' \<Longrightarrow> slot_max (cpools s' h) = slot_max (cpools s h)"
  by (induction rule: conn_step.induct)
    (auto simp: takeSlot_Some popIdle_Some reapIdle_def flushIdle_def checked_def put_start_def put_push_def pushIdle_def release_conn_def
      returnOrReleaseConn_def Let_def split: prod.splits if_splits)

text \<open>A race for a connection whose context ends after a connection has been won, and before the last of its goroutines has ended, leaks: the
  receiver returns the error of the context and forgets the connection it won. Its slot is never given back, and once a
  provider has lost as many slots as it has connections, no goroutine gets a slot of it again.\<close>

lemma abandoned_winner_leaks:
  assumes "reachable fresh_conns conn_step s" "RWon r h c \<in># threads s" "race_done (races s r)" "\<not> race_over (races s r)"
  shows "\<exists>s'. conn_step (CAbandon r) s s' \<and> lost h s' = lost h s + 1 \<and>
    (\<forall>ls t. trace conn_step s' ls t \<longrightarrow> lost h s + 1 \<le> lost h t \<and> (lost h s + 1 = slot_max (cpools s h) \<longrightarrow> CSlot h \<notin> set ls))"
proof -
  let ?s' = "become {#RWon r h c#} {#Lost h c#} (on_race r (\<lambda>x. x\<lparr>race_over := True\<rparr>) s)"
  have step: "conn_step (CAbandon r) s ?s'" by (rule cs_abandon_winner [OF assms(3,4,2)])
  obtain N where "threads s = add_mset (RWon r h c) N" using assms(2) by (metis multi_member_split)
  then have more: "lost h ?s' = lost h s + 1" by (simp add: lost_def)
  have "lost h u \<le> lost h t \<and> (lost h u = slot_max (cpools u h) \<longrightarrow> CSlot h \<notin> set ls)"
    if "trace conn_step u ls t" "reachable fresh_conns conn_step u" for u ls t
    using that
  proof (induction rule: trace.induct)
    case (trace_Cons l u v ls w)
    have v: "reachable fresh_conns conn_step v" by (rule reach_step [OF trace_Cons.prems trace_Cons.hyps(1)])
    have keep: "lost h u \<le> lost h v" "slot_max (cpools v h) = slot_max (cpools u h)"
      using lost_step max_step trace_Cons.hyps(1) by blast+
    have ok: "conns_ok u h" "conns_ok v h" using conn_pools.reachable_inv trace_Cons.prems v by blast+
    have "l \<noteq> CSlot h" if full: "lost h u = slot_max (cpools u h)"
    proof
      assume "l = CSlot h"
      then have "slots (cpools u h) < slot_max (cpools u h)" using trace_Cons.hyps(1) by (auto simp: takeSlot_Some elim: conn_step.cases)
      then show False using full ok(1) lost_le_slots [of h u] by (simp add: conns_ok_def)
    qed
    moreover have "lost h v = slot_max (cpools v h)" if "lost h u = slot_max (cpools u h)"
      using that keep ok(2) lost_le_slots [of h v] by (simp add: conns_ok_def)
    ultimately show ?case using trace_Cons.IH [OF v] keep by auto
  qed simp
  from this [OF _ reach_step [OF assms(1) step]] show ?thesis
    using step more max_step [OF step, of h] by (intro exI [of _ ?s']) auto
qed

section \<open>A sample race\<close>

text \<open>One provider with one connection: a race of one goroutine dials, wins, and is abandoned before its channel is closed.\<close>

definition one_conn :: conn_pool where
  "one_conn = \<lparr>idle = [], slots = 0, slot_max = 1, activeConns = {}, dialFailStreak = 0, dialCooldownUntil = 0\<rparr>"

definition no_race :: race where "no_race = \<lparr>race_done = False, race_cancel = False, race_over = False\<rparr>"

definition sample_conns :: "thread multiset \<Rightarrow> nat \<Rightarrow> race \<Rightarrow> nat \<Rightarrow> nat set \<Rightarrow> conns" where
  "sample_conns M n r k active =
     \<lparr>cpools = (\<lambda>_. one_conn)(''news'' := one_conn\<lparr>slots := n, activeConns := active\<rparr>), threads = M, races = (\<lambda>_. no_race)(0 := r),
      next_race = if M = {#} then 0 else 1, shut = {}, client_closed = False, next_conn = k\<rparr>"

definition won_state :: conns where
  "won_state = sample_conns {#RWon 0 ''news'' 0#} 1 \<lparr>race_done = True, race_cancel = True, race_over = False\<rparr> 1 {0}"

lemma sample_race:
  "trace conn_step (sample_conns {#} 0 no_race 0 {})
     [CRace [''news''], CSlot ''news'', CRacer 0 ''news'', CDial ''news'', CDialled ''news'' 0, CSend 0 ''news'' 0, CTake 0 ''news'' 0, CCtx 0] won_state"
proof -
  let ?s = sample_conns and ?n = "''news''" and ?c = "no_race\<lparr>race_cancel := True\<rparr>"
  have "conn_step (CRace [?n]) (?s {#} 0 no_race 0 {}) (?s {#RWaiting 0 ?n True#} 0 no_race 0 {})"
    using cs_race [of "[?n]" "?s {#} 0 no_race 0 {}" True] by (simp add: sample_conns_def become_def on_race_def no_race_def)
  moreover have "conn_step (CSlot ?n) (?s {#RWaiting 0 ?n True#} 0 no_race 0 {}) (?s {#RChosen 0 ?n True#} 1 no_race 0 {})"
    using cs_racer_slot [of 0 ?n True "?s {#RWaiting 0 ?n True#} 0 no_race 0 {}" "one_conn\<lparr>slots := 1, activeConns := {}\<rparr>"]
    by (simp add: sample_conns_def become_def set_pool_def takeSlot_def one_conn_def)
  moreover have "conn_step (CRacer 0 ?n) (?s {#RChosen 0 ?n True#} 1 no_race 0 {}) (?s {#Slotted (Some 0) ?n True#} 1 no_race 0 {})"
    using cs_racer_on [of 0 ?n True "?s {#RChosen 0 ?n True#} 1 no_race 0 {}"] by (simp add: sample_conns_def become_def no_race_def)
  moreover have "conn_step (CDial ?n) (?s {#Slotted (Some 0) ?n True#} 1 no_race 0 {}) (?s {#Dialing (Some 0) ?n#} 1 no_race 0 {})"
    using cs_dial [of "Some 0" ?n True "?s {#Slotted (Some 0) ?n True#} 1 no_race 0 {}"] by (simp add: sample_conns_def become_def one_conn_def)
  moreover have "conn_step (CDialled ?n 0) (?s {#Dialing (Some 0) ?n#} 1 no_race 0 {}) (?s {#RGot 0 ?n 0#} 1 no_race 1 {0})"
    using cs_dialled [of "Some 0" ?n "?s {#Dialing (Some 0) ?n#} 1 no_race 0 {}"]
    by (simp add: sample_conns_def become_def set_pool_def got_def register_def noteDialSuccess_def one_conn_def)
  moreover have "conn_step (CSend 0 ?n 0) (?s {#RGot 0 ?n 0#} 1 no_race 1 {0}) (?s {#ROffered 0 ?n 0#} 1 no_race 1 {0})"
    using cs_send [of 0 ?n 0 "?s {#RGot 0 ?n 0#} 1 no_race 1 {0}"] by (simp add: sample_conns_def become_def)
  moreover have "conn_step (CTake 0 ?n 0) (?s {#ROffered 0 ?n 0#} 1 no_race 1 {0}) (?s {#RWon 0 ?n 0#} 1 ?c 1 {0})"
    using cs_take [of 0 ?n 0 "?s {#ROffered 0 ?n 0#} 1 no_race 1 {0}"]
    by (simp add: sample_conns_def become_def on_race_def no_race_def has_winner_def)
  moreover have "conn_step (CCtx 0) (?s {#RWon 0 ?n 0#} 1 ?c 1 {0}) won_state"
    using cs_ctx [of 0 "?s {#RWon 0 ?n 0#} 1 ?c 1 {0}"] by (simp add: sample_conns_def on_race_def no_race_def won_state_def)
  ultimately show ?thesis by (simp only: trace_Cons_iff trace_Nil_iff) blast
qed

lemma won_reachable: "reachable fresh_conns conn_step won_state"
  by (rule reachable_trace [OF reach_init sample_race]) (auto simp: fresh_conns_def sample_conns_def one_conn_def)


lemma abandoned_winner_leaks_sample:
  "\<exists>s'. conn_step (CAbandon 0) won_state s' \<and> lost ''news'' s' = 1 \<and> slot_max (cpools won_state ''news'') = 1"
  using abandoned_winner_leaks [OF won_reachable, of 0 "''news''" 0]
  by (auto simp: won_state_def sample_conns_def one_conn_def lost_def)

end
