(* ===== verification/Body_Routing.thy ===== *)
theory Body_Routing
  imports Stat_Routing Float64 Transition
begin

unbundle bit_operations_syntax

text \<open>
  Which provider a body download tries first: \<^verbatim>\<open>src/internal/nntp/body_routing.go\<close>. Each provider's rate is taken over the samples of the
  last minute, kept in six buckets; a primary that is much slower than the fastest one is deferred behind the other primaries, is
  held there for a while, and is let one fetch through when its measurement has gone stale. Rates are computed in \<^verbatim>\<open>float64\<close>. A set
  of verdicts is one word with a bit for each of the first 64 providers, as in the code.
\<close>

section \<open>Measuring\<close>

definition bodySampleMinBytes :: int where "bodySampleMinBytes = 262144"
definition bodySlowFactor :: int where "bodySlowFactor = 4"
definition bodyFastEnough :: int where "bodyFastEnough = 4194304"
definition bodyRecoverPercent :: int where "bodyRecoverPercent = 125"
definition bodyMinSamples :: int where "bodyMinSamples = 5"
definition bodyExploreAfter :: int where "bodyExploreAfter = 300 * second"
definition bodyRateWindow :: int where "bodyRateWindow = 60 * second"
definition bodyRateBuckets :: int where "bodyRateBuckets = 6"
definition bodyVerdictHold :: int where "bodyVerdictHold = 30 * second"
definition bodyVerdictEvery :: int where "bodyVerdictEvery = second"

definition add_sample :: "int \<Rightarrow> int \<Rightarrow> int \<Rightarrow> bodyRateBucket \<Rightarrow> bodyRateBucket" where
  "add_sample sl n d bk =
     (let cur = (if bk_slice bk \<noteq> sl then \<lparr>bk_slice = sl, bk_bytes = 0, bk_nanos = 0, bk_count = 0\<rparr> else bk)
      in cur\<lparr>bk_bytes := bk_bytes cur + n, bk_nanos := bk_nanos cur + d, bk_count := bk_count cur + 1\<rparr>)"

definition in_rate_window :: "int \<Rightarrow> bodyRateBucket \<Rightarrow> bool" where
  "in_rate_window sl bk \<longleftrightarrow> bk_count bk > 0 \<and> sl - bk_slice bk < bodyRateBuckets"

definition rate_of :: "int \<Rightarrow> int \<Rightarrow> int" where
  "rate_of bytes nanos = max \<lfloor>fl (float_of_int bytes / fl (float_of_int nanos / float_of_int second))\<rfloor> 1"

definition body_record :: "int \<Rightarrow> int \<Rightarrow> int \<Rightarrow> bodyThroughput \<Rightarrow> bodyThroughput" where
  "body_record n d now b =
     (if n < bodySampleMinBytes then b
      else
        let d = max d 1000;
            sl = go_div now (go_div bodyRateWindow bodyRateBuckets);
            k = nat (go_mod sl bodyRateBuckets);
            bks = (buckets b)[k := add_sample sl n d (buckets b ! k)];
            live = filter (in_rate_window sl) bks;
            stale = (body_sampledAt b = 0 \<or> now - body_sampledAt b \<ge> bodyExploreAfter);
            rate = (if sum_list (map bk_count live) \<ge> bodyMinSamples \<or> stale \<or> bytesPerSec b = 0
                    then rate_of (sum_list (map bk_bytes live)) (sum_list (map bk_nanos live)) else bytesPerSec b)
        in b\<lparr>buckets := bks, bytesPerSec := rate, body_samples := body_samples b + 1, body_sampledAt := now\<rparr>)"

definition usable :: "int \<Rightarrow> bodyThroughput \<Rightarrow> int" where
  "usable now b =
     (if body_samples b < bodyMinSamples \<or> body_sampledAt b = 0 \<or> now - body_sampledAt b \<ge> bodyExploreAfter then 0 else bytesPerSec b)"

definition body_tryExplore :: "int \<Rightarrow> bodyThroughput \<Rightarrow> bool \<times> bodyThroughput" where
  "body_tryExplore now b =
     (if exploredAt b \<noteq> 0 \<and> now - exploredAt b < bodyExploreAfter then (False, b) else (True, b\<lparr>exploredAt := now\<rparr>))"

definition recordBody :: "int \<Rightarrow> string \<Rightarrow> int \<Rightarrow> int \<Rightarrow> Client \<Rightarrow> Client" where
  "recordBody now host n d = on_body host (body_record n d now)"

section \<open>Verdicts\<close>

fun fastest_loop :: "int \<Rightarrow> int \<Rightarrow> UsenetProvider list \<Rightarrow> int \<Rightarrow> Client \<Rightarrow> int \<times> Client" where
  "fastest_loop loc now [] best c = (best, c)"
| "fastest_loop loc now (p # ps) best c =
     (case pools c (Host p) of None \<Rightarrow> fastest_loop loc now ps best c
      | Some pp \<Rightarrow>
          if Backup p then fastest_loop loc now ps best c
          else case statHomeBlocked loc now (Host p) c of (blocked, c) \<Rightarrow>
            if blocked then fastest_loop loc now ps best c
            else fastest_loop loc now ps (max best (usable now (pp_body pp))) c)"

definition fastestBody :: "int \<Rightarrow> int \<Rightarrow> Client \<Rightarrow> int \<times> Client" where
  "fastestBody loc now c = fastest_loop loc now (providers c) 0 c"

definition body_cut :: "int \<Rightarrow> int" where
  "body_cut fastest = min bodyFastEnough (go_div fastest bodySlowFactor)"

definition bodyVerdict :: "int \<Rightarrow> int \<Rightarrow> bodyThroughput \<Rightarrow> bool \<times> bodyThroughput" where
  "bodyVerdict fastest now b =
     (let wasSlow = slow b; rate = usable now b
      in if rate = 0 then (wasSlow, b)
         else if wasSlow \<and> changedAt b \<noteq> 0 \<and> now - changedAt b < bodyVerdictHold then (True, b)
         else
           let cut = body_cut fastest;
               verdict = (if wasSlow \<and> \<not> rate < cut then rate * 100 < cut * bodyRecoverPercent else rate < cut)
           in (verdict, if verdict \<noteq> wasSlow then b\<lparr>slow := verdict, changedAt := now\<rparr> else b))"

definition bodyRoutingOn :: "Client \<Rightarrow> bool" where
  "bodyRoutingOn c \<longleftrightarrow> (case preferFaster c of None \<Rightarrow> True | Some on \<Rightarrow> on)"

text \<open>The loop over the primaries: the word of the deferred ones.\<close>

fun verdict_loop :: "int \<Rightarrow> int \<Rightarrow> nat \<Rightarrow> UsenetProvider list \<Rightarrow> u64 \<Rightarrow> Client \<Rightarrow> u64 \<times> Client" where
  "verdict_loop fastest now i [] deferred c = (deferred, c)"
| "verdict_loop fastest now i (p # ps) deferred c =
     (case pools c (Host p) of None \<Rightarrow> verdict_loop fastest now (Suc i) ps deferred c
      | Some pp \<Rightarrow>
          if Backup p \<or> i \<ge> 64 then verdict_loop fastest now (Suc i) ps deferred c
          else case bodyVerdict fastest now (pp_body pp) of (verdict, b) \<Rightarrow>
            verdict_loop fastest now (Suc i) ps (if verdict then deferred OR push_bit i 1 else deferred) (on_body (Host p) (\<lambda>_. b) c))"

section \<open>The scan order\<close>

definition is_deferred :: "u64 \<Rightarrow> nat \<Rightarrow> bool" where
  "is_deferred deferred i \<longleftrightarrow> i < 64 \<and> deferred AND push_bit i 1 \<noteq> 0"

definition body_rate :: "Client \<Rightarrow> UsenetProvider \<Rightarrow> int" where
  "body_rate c p = (case pools c (Host p) of Some pp \<Rightarrow> bytesPerSec (pp_body pp) | None \<Rightarrow> 0)"

text \<open>The position after the last primary, or \<^term>\<open>0\<close> when there is none.\<close>

fun after_last_primary :: "UsenetProvider list \<Rightarrow> nat" where
  "after_last_primary [] = 0"
| "after_last_primary (p # ps) = (let k = after_last_primary ps in if k > 0 then Suc k else if Backup p then 0 else 1)"

definition orderDeferring :: "u64 \<Rightarrow> Client \<Rightarrow> UsenetProvider list" where
  "orderDeferring deferred c =
     (if deferred = 0 then providers c
      else
        let indexed = zip [0..<length (providers c)] (providers c);
            moved = map snd (filter (\<lambda>(i, p). is_deferred deferred i) indexed);
            order = map snd (filter (\<lambda>(i, p). \<not> is_deferred deferred i) indexed);
            k = after_last_primary order
        in if k = 0 then providers c
           else take k order @ SliceStable (\<lambda>p q. body_rate c p > body_rate c q) moved @ drop k order)"

definition takeBodyVerdicts :: "int \<Rightarrow> int \<Rightarrow> Client \<Rightarrow> bodyScan \<times> Client" where
  "takeBodyVerdicts loc now c =
     (if \<not> bodyRoutingOn c then (\<lparr>scan_at = now, scan_deferred = 0, scan_order = providers c\<rparr>, c)
      else case fastestBody loc now c of (fastest, c) \<Rightarrow>
        case verdict_loop fastest now 0 (providers c) 0 c of (deferred, c) \<Rightarrow>
          (\<lparr>scan_at = now, scan_deferred = deferred, scan_order = orderDeferring deferred c\<rparr>, c))"

text \<open>The search for a deferred primary whose measurement is stale and may be taken again: its index, if there is one.\<close>

fun explore_loop :: "int \<Rightarrow> u64 \<Rightarrow> nat \<Rightarrow> UsenetProvider list \<Rightarrow> Client \<Rightarrow> nat option \<times> Client" where
  "explore_loop now deferred i [] c = (None, c)"
| "explore_loop now deferred i (p # ps) c =
     (if \<not> is_deferred deferred i then explore_loop now deferred (Suc i) ps c
      else case pools c (Host p) of None \<Rightarrow> explore_loop now deferred (Suc i) ps c
        | Some pp \<Rightarrow>
            if usable now (pp_body pp) \<noteq> 0 then explore_loop now deferred (Suc i) ps c
            else case body_tryExplore now (pp_body pp) of (got, b) \<Rightarrow>
              if got then (Some i, on_body (Host p) (\<lambda>_. b) c) else explore_loop now deferred (Suc i) ps c)"

definition current_scan :: "int \<Rightarrow> int \<Rightarrow> Client \<Rightarrow> bodyScan \<times> Client" where
  "current_scan loc now c =
     (case body_scan c of
        Some s \<Rightarrow>
          if now - scan_at s \<ge> bodyVerdictEvery \<or> now < scan_at s
          then (case takeBodyVerdicts loc now c of (s, c) \<Rightarrow> (s, c\<lparr>body_scan := Some s\<rparr>))
          else (s, c)
      | None \<Rightarrow> (case takeBodyVerdicts loc now c of (s, c) \<Rightarrow> (s, c\<lparr>body_scan := Some s\<rparr>)))"

definition bodyScanOrder :: "int \<Rightarrow> int \<Rightarrow> Client \<Rightarrow> UsenetProvider list \<times> Client" where
  "bodyScanOrder loc now c =
     (case current_scan loc now c of (s, c) \<Rightarrow>
        if scan_deferred s = 0 then (scan_order s, c)
        else case explore_loop now (scan_deferred s) 0 (providers c) c of
          (Some i, c) \<Rightarrow> (orderDeferring (scan_deferred s AND NOT (push_bit i 1)) c, c)
        | (None, c) \<Rightarrow> (scan_order s, c))"

section \<open>What the order looks like\<close>

interpretation rate_order: keyed "\<lambda>p q. body_rate c p > body_rate c q" "\<lambda>p. - body_rate c p" for c
  by unfold_locales simp

text \<open>An order that defers the primaries in \<open>D\<close>: the others up to the last primary among them, then those, fastest first
  by some rates, then the backups behind the last primary.\<close>

definition kept_order :: "UsenetProvider list \<Rightarrow> UsenetProvider set \<Rightarrow> UsenetProvider list" where
  "kept_order ps D = filter (\<lambda>p. p \<notin> D) ps"

definition lead_part :: "UsenetProvider list \<Rightarrow> UsenetProvider list" where
  "lead_part ps = rev (dropWhile Backup (rev ps))"

definition backup_part :: "UsenetProvider list \<Rightarrow> UsenetProvider list" where
  "backup_part ps = rev (takeWhile Backup (rev ps))"

definition deferring :: "UsenetProvider list \<Rightarrow> UsenetProvider set \<Rightarrow> (UsenetProvider \<Rightarrow> int) \<Rightarrow> UsenetProvider list" where
  "deferring ps D rate =
     lead_part (kept_order ps D) @ sort_key (\<lambda>p. - rate p) (filter (\<lambda>p. p \<in> D) ps) @ backup_part (kept_order ps D)"

lemma parts_append [simp]: "lead_part ps @ backup_part ps = ps"
  by (simp add: lead_part_def backup_part_def rev_append [symmetric] del: rev_append)

lemma backup_part_backups: "p \<in> set (backup_part ps) \<Longrightarrow> Backup p"
  by (auto simp: backup_part_def dest: set_takeWhileD)

lemma lead_part_last: "lead_part ps \<noteq> [] \<Longrightarrow> \<not> Backup (last (lead_part ps))"
  using hd_dropWhile [of Backup "rev ps"] by (simp add: lead_part_def last_rev)

lemma lead_part_nonempty: "p \<in> set ps \<Longrightarrow> \<not> Backup p \<Longrightarrow> lead_part ps \<noteq> []"
  by (auto simp: lead_part_def dropWhile_eq_Nil_conv)

lemma mset_deferring: "mset (deferring ps D rate) = mset ps"
proof -
  have "mset (lead_part (kept_order ps D)) + mset (backup_part (kept_order ps D)) = mset (kept_order ps D)"
    by (metis mset_append parts_append)
  moreover have "mset (kept_order ps D) + mset (filter (\<lambda>p. p \<in> D) ps) = mset ps"
    unfolding kept_order_def by (metis add.commute mset_filter multiset_partition)
  ultimately show ?thesis by (simp add: deferring_def) (metis add.assoc add.commute)
qed

lemma deferring_none: "deferring ps {} rate = ps"
  by (simp add: deferring_def kept_order_def)

lemma filter_indexed:
  "distinct ps \<Longrightarrow> map snd (filter (\<lambda>(i, p). Q i) (zip [k..<k + length ps] ps)) = filter (\<lambda>p. \<exists>i < length ps. ps ! i = p \<and> Q (k + i)) ps"
proof (induction ps arbitrary: k)
  case (Cons a ps)
  have later: "(\<exists>i < length (a # ps). (a # ps) ! i = p \<and> Q (k + i)) \<longleftrightarrow> (\<exists>i < length ps. ps ! i = p \<and> Q (Suc k + i))" if "p \<in> set ps" for p
    using that Cons.prems by (auto simp: Ex_less_Suc2)
  have first: "(\<exists>i < length (a # ps). (a # ps) ! i = a \<and> Q (k + i)) \<longleftrightarrow> Q k"
    using Cons.prems by (auto simp: Ex_less_Suc2 in_set_conv_nth)
  have "[k..<k + length (a # ps)] = k # [Suc k..<Suc k + length ps]" by (simp add: upt_conv_Cons del: upt_Suc)
  then show ?case
    using Cons.IH [of "Suc k"] Cons.prems first filter_cong [OF refl later, of ps] by (simp add: case_prod_beta)
qed simp

lemma after_last_primary_append: "after_last_primary (ps @ [p]) = (if Backup p then after_last_primary ps else Suc (length ps))"
  by (induction ps) (auto simp: Let_def)

lemma after_last_primary_lead: "after_last_primary ps = length (lead_part ps)"
  by (induction ps rule: rev_induct) (auto simp: after_last_primary_append lead_part_def)

lemma take_lead: "take (after_last_primary ps) ps = lead_part ps" "drop (after_last_primary ps) ps = backup_part ps"
  unfolding after_last_primary_lead by (metis append_eq_conv_conj parts_append)+

text \<open>The primaries a word defers.\<close>

definition deferred_set :: "u64 \<Rightarrow> UsenetProvider list \<Rightarrow> UsenetProvider set" where
  "deferred_set d ps = {p. \<exists>i < length ps. ps ! i = p \<and> is_deferred d i}"

definition only_primaries :: "u64 \<Rightarrow> UsenetProvider list \<Rightarrow> bool" where
  "only_primaries d ps \<longleftrightarrow> (\<forall>p \<in> deferred_set d ps. \<not> Backup p)"

text \<open>The order that defers \<open>D\<close>, unless no primary is left to go first.\<close>

definition primary_left :: "UsenetProvider list \<Rightarrow> UsenetProvider set \<Rightarrow> bool" where
  "primary_left ps D \<longleftrightarrow> (\<exists>p \<in> set ps. \<not> Backup p \<and> p \<notin> D)"

lemma lead_part_kept: "lead_part (kept_order ps D) \<noteq> [] \<longleftrightarrow> primary_left ps D"
  by (auto simp: lead_part_def kept_order_def primary_left_def dropWhile_eq_Nil_conv)

lemma orderDeferring_exact:
  assumes "distinct (providers c)"
  shows "orderDeferring d c =
    (if primary_left (providers c) (deferred_set d (providers c)) then deferring (providers c) (deferred_set d (providers c)) (body_rate c) else providers c)"
proof (cases "d = 0")
  case False
  let ?ps = "providers c" and ?D = "deferred_set d (providers c)"
  have moved: "map snd (filter (\<lambda>(i, p). is_deferred d i) (zip [0..<length ?ps] ?ps)) = filter (\<lambda>p. p \<in> ?D) ?ps"
    using filter_indexed [OF assms(1), of "is_deferred d" 0] by (simp add: deferred_set_def)
  have "filter (\<lambda>p. \<exists>i < length ?ps. ?ps ! i = p \<and> \<not> is_deferred d i) ?ps = filter (\<lambda>p. p \<notin> ?D) ?ps"
    using assms(1) by (intro filter_cong) (auto simp: deferred_set_def in_set_conv_nth nth_eq_iff_index_eq)
  then have order: "map snd (filter (\<lambda>(i, p). \<not> is_deferred d i) (zip [0..<length ?ps] ?ps)) = kept_order ?ps ?D"
    using filter_indexed [OF assms(1), of "\<lambda>i. \<not> is_deferred d i" 0] by (simp add: kept_order_def)
  show ?thesis
    using False unfolding orderDeferring_def Let_def moved order take_lead
    by (auto simp: rate_order.is_sort_key deferring_def after_last_primary_lead lead_part_kept [symmetric])
next
  case True
  then show ?thesis by (simp add: orderDeferring_def deferred_set_def is_deferred_def deferring_none)
qed

section \<open>The scans of a running client\<close>

text \<open>The word of a set of verdicts has bits for primaries only.\<close>

lemma is_deferred_bit: "is_deferred d i \<longleftrightarrow> i < 64 \<and> bit d i"
  by (simp add: is_deferred_def bit_iff_and_push_bit_not_eq_0)

lemma is_deferred_word:
  "is_deferred (d OR push_bit j 1) i \<longleftrightarrow> is_deferred d i \<or> (i = j \<and> i < 64)"
  "is_deferred (d AND NOT (push_bit j 1)) i \<longleftrightarrow> is_deferred d i \<and> i \<noteq> j"
  "\<not> is_deferred 0 i"
  by (auto simp: is_deferred_bit bit_or_iff bit_and_iff bit_not_iff bit_push_bit_iff bit_1_iff bit_exp_iff possible_bit_def)

lemma on_body_providers [simp]: "providers (on_body h f c) = providers c" "body_scan (on_body h f c) = body_scan c"
  by (simp_all add: on_body_def split: option.split)

text \<open>The providers whose latest verdict is slow. Only a verdict changes it.\<close>

definition slow_at :: "Client \<Rightarrow> string \<Rightarrow> bool" where
  "slow_at c host \<longleftrightarrow> (case pools c host of Some pp \<Rightarrow> slow (pp_body pp) | None \<Rightarrow> False)"

definition slow_set :: "Client \<Rightarrow> UsenetProvider set" where
  "slow_set c = {p. slow_at c (Host p)}"

lemma slow_set_on_body:
  assumes "\<And>b. slow (f b) = slow b"
  shows "slow_set (on_body h f c) = slow_set c"
proof -
  have "slow_at (on_body h f c) host = slow_at c host" for host using assms by (simp add: slow_at_def on_body_def split: option.split)
  then show ?thesis by (simp add: slow_set_def)
qed

lemma bodyVerdict_slow: "bodyVerdict fastest now b = (v, b') \<Longrightarrow> slow b' = v"
  by (auto simp: bodyVerdict_def Let_def split: if_splits)

text \<open>What a verdict is taken from, and what ordering and exploring read: a verdict leaves all of it alone.\<close>

definition measures :: "Client \<Rightarrow> string \<Rightarrow> (int \<times> int \<times> int \<times> int) option" where
  "measures c h = map_option (\<lambda>pp. (bytesPerSec (pp_body pp), body_samples (pp_body pp), body_sampledAt (pp_body pp), exploredAt (pp_body pp))) (pools c h)"

lemma measures_verdict:
  assumes "pools c (Host p) = Some pp" "bodyVerdict fastest now (pp_body pp) = (v, b)"
  shows "measures (on_body (Host p) (\<lambda>_. b) c) = measures c"
  using assms by (auto simp: measures_def fun_eq_iff on_body_def bodyVerdict_def Let_def split: option.split if_splits)

text \<open>The word of the verdicts has exactly the bits of the primaries that are judged slow.\<close>

definition judged :: "int \<Rightarrow> int \<Rightarrow> Client \<Rightarrow> UsenetProvider \<Rightarrow> bool" where
  "judged fastest now c p \<longleftrightarrow> \<not> Backup p \<and> (\<exists>pp. pools c (Host p) = Some pp \<and> fst (bodyVerdict fastest now (pp_body pp)))"

lemma verdict_loop_exact:
  assumes "verdict_loop fastest now k ps d c = (d', c')" "distinct (map Host ps)"
  shows "providers c' = providers c \<and> measures c' = measures c \<and> (\<forall>h. h \<notin> Host ` set ps \<longrightarrow> pools c' h = pools c h) \<and>
    (\<forall>i. is_deferred d' i \<longleftrightarrow> is_deferred d i \<or> (\<exists>j < length ps. i = k + j \<and> i < 64 \<and> judged fastest now c (ps ! j))) \<and>
    (\<forall>j < length ps. k + j < 64 \<and> judged fastest now c (ps ! j) \<longrightarrow> ps ! j \<in> slow_set c')"
  using assms
proof (induction ps arbitrary: k d c)
  case (Cons p ps)
  obtain d1 c1 where rec: "verdict_loop fastest now (Suc k) ps d1 c1 = (d', c')" "providers c1 = providers c" "measures c1 = measures c"
      "d1 = (if k < 64 \<and> judged fastest now c p then d OR push_bit k 1 else d)" "k < 64 \<and> judged fastest now c p \<longrightarrow> p \<in> slow_set c1"
      "\<forall>h. h \<noteq> Host p \<longrightarrow> pools c1 h = pools c h"
  proof (cases "pools c (Host p) = None \<or> Backup p \<or> k \<ge> 64")
    case True
    then have "verdict_loop fastest now (Suc k) ps d c = (d', c')" using Cons.prems(1) by (auto split: option.splits if_splits)
    then show thesis by (rule that) (use True in \<open>auto simp: judged_def\<close>)
  next
    case False
    then obtain pp where pp: "pools c (Host p) = Some pp" by auto
    obtain v b where v: "bodyVerdict fastest now (pp_body pp) = (v, b)" by fastforce
    let ?c1 = "on_body (Host p) (\<lambda>_. b) c"
    have v': "judged fastest now c p = v" using False pp v by (simp add: judged_def)
    have "verdict_loop fastest now (Suc k) ps (if v then d OR push_bit k 1 else d) ?c1 = (d', c')"
      using Cons.prems(1) False pp v by simp
    moreover have "v \<longrightarrow> p \<in> slow_set ?c1" using bodyVerdict_slow [OF v] pp by (simp add: slow_set_def slow_at_def on_body_def)
    moreover have "\<forall>h. h \<noteq> Host p \<longrightarrow> pools ?c1 h = pools c h" by (simp add: on_body_def split: option.split)
    ultimately show thesis using False measures_verdict [OF pp v] by (intro that) (auto simp: v')
  qed
  have others: "pools c1 (Host q) = pools c (Host q)" if "q \<in> set ps" for q
  proof -
    have "Host q \<noteq> Host p" using Cons.prems(2) imageI [OF that, of Host] by auto
    then show ?thesis using rec(6) by simp
  qed
  have judged: "judged fastest now c1 (ps ! j) = judged fastest now c (ps ! j)" if "j < length ps" for j
    using others [OF nth_mem [OF that]] by (simp add: judged_def)
  have ih: "\<forall>h. h \<notin> Host ` set ps \<longrightarrow> pools c' h = pools c1 h" "providers c' = providers c1" "measures c' = measures c1"
      "\<And>i. is_deferred d' i \<longleftrightarrow> is_deferred d1 i \<or> (\<exists>j < length ps. i = Suc k + j \<and> i < 64 \<and> judged fastest now c1 (ps ! j))"
      "\<forall>j < length ps. Suc k + j < 64 \<and> judged fastest now c1 (ps ! j) \<longrightarrow> ps ! j \<in> slow_set c'"
    using Cons.IH [OF rec(1)] Cons.prems(2) by auto
  have first: "p \<in> slow_set c'" if "p \<in> slow_set c1" using that ih(1) Cons.prems(2) by (simp add: slow_set_def slow_at_def)
  have "is_deferred d1 i \<longleftrightarrow> is_deferred d i \<or> (i = k \<and> i < 64 \<and> judged fastest now c p)" for i
    using rec(4) is_deferred_word(1) by auto
  then have bits: "is_deferred d' i \<longleftrightarrow> is_deferred d i \<or> (\<exists>j < length (p # ps). i = k + j \<and> i < 64 \<and> judged fastest now c ((p # ps) ! j))" for i
    unfolding ih(4) by (auto simp: Ex_less_Suc2 judged)
  have slow: "(p # ps) ! j \<in> slow_set c'" if "j < length (p # ps)" "k + j < 64 \<and> judged fastest now c ((p # ps) ! j)" for j
    using that ih(5) first rec(5) judged by (cases j) auto
  show ?case using ih(1-3) rec(2,3,6) bits slow by auto
qed auto

lemma fastest_loop_same: "fastest_loop loc now ps best c = (b, c') \<Longrightarrow> same_but_quota c c'"
proof (induction ps arbitrary: best c)
  case (Cons p ps)
  have "statHomeBlocked loc now (Host p) c = (bl, c1) \<Longrightarrow> same_but_quota c c1" for bl c1 by (metis blocked_same_but_quota snd_conv)
  then show ?case
    using Cons by (auto split: option.splits if_splits prod.splits) (blast intro: same_but_quota_trans)+
qed simp

lemma explore_loop_providers:
  "explore_loop now d i ps c = (r, c') \<Longrightarrow> providers c' = providers c \<and> body_scan c' = body_scan c \<and> slow_set c' = slow_set c \<and> body_rate c' = body_rate c"
proof (induction ps arbitrary: i c)
  case (Cons p ps)
  have "slow_set (on_body (Host p) (\<lambda>_. b) c) = slow_set c \<and> body_rate (on_body (Host p) (\<lambda>_. b) c) = body_rate c" if "pools c (Host p) = Some pp" "body_tryExplore now (pp_body pp) = (got, b)" for pp got b
    using that by (auto simp: slow_set_def slow_at_def body_rate_def fun_eq_iff on_body_def body_tryExplore_def split: if_splits option.splits)
  then show ?case using Cons by (auto split: option.splits if_splits prod.splits)
qed auto

text \<open>The orders a client may hand out: priority order, or one that defers some of the slow primaries.\<close>

definition routed_by :: "UsenetProvider list \<Rightarrow> UsenetProvider set \<Rightarrow> (UsenetProvider \<Rightarrow> int) \<Rightarrow> UsenetProvider list \<Rightarrow> bool" where
  "routed_by ps S rate order \<longleftrightarrow>
     (\<exists>D. D \<subseteq> {p \<in> S. \<not> Backup p} \<and> order = deferring ps D rate \<and> (D = {} \<or> lead_part (kept_order ps D) \<noteq> []))"

definition routed :: "UsenetProvider list \<Rightarrow> UsenetProvider set \<Rightarrow> UsenetProvider list \<Rightarrow> bool" where
  "routed ps S order \<longleftrightarrow> (\<exists>rate. routed_by ps S rate order)"

definition scan_ok :: "UsenetProvider list \<Rightarrow> Client \<Rightarrow> bodyScan \<Rightarrow> bool" where
  "scan_ok ps c s \<longleftrightarrow> only_primaries (scan_deferred s) ps \<and> deferred_set (scan_deferred s) ps \<subseteq> slow_set c \<and> routed ps (slow_set c) (scan_order s)"

lemma routed_by_plain: "routed_by ps S rate ps"
  unfolding routed_by_def by (metis deferring_none empty_subsetI)

lemma routedI: "routed_by ps S rate order \<Longrightarrow> routed ps S order"
  by (auto simp: routed_def)

lemma routed_order:
  assumes "distinct (providers c)" "only_primaries d (providers c)" "deferred_set d (providers c) \<subseteq> S"
  shows "routed_by (providers c) S (body_rate c) (orderDeferring d c)"
proof -
  have "deferred_set d (providers c) \<subseteq> {p \<in> S. \<not> Backup p}" using assms(2,3) by (auto simp: only_primaries_def)
  then show ?thesis
    using routed_by_plain [of "providers c" S "body_rate c"] lead_part_kept unfolding orderDeferring_exact [OF assms(1)] routed_by_def by auto
qed

lemma takeBodyVerdicts_ok:
  assumes "takeBodyVerdicts loc now c = (s, c')" "distinct (map Host (providers c))"
  shows "providers c' = providers c \<and> scan_ok (providers c) c' s \<and> routed_by (providers c) (slow_set c') (body_rate c') (scan_order s)"
proof (cases "bodyRoutingOn c")
  case True
  obtain fastest c1 where f: "fastest_loop loc now (providers c) 0 c = (fastest, c1)" by fastforce
  then have c1: "providers c1 = providers c" by (metis fastest_loop_same same_but_quotaD(2))
  obtain d c2 where v: "verdict_loop fastest now 0 (providers c1) 0 c1 = (d, c2)" by fastforce
  have distinct: "distinct (map Host (providers c1))" using c1 assms(2) by simp
  note loop = verdict_loop_exact [OF v distinct]
  then have c2: "providers c2 = providers c" using c1 by simp
  have bits: "j < 64 \<and> judged fastest now c1 (providers c ! j)" if "is_deferred d j" for j
    using loop that c1 by (auto simp: is_deferred_word)
  then have d: "only_primaries d (providers c)" by (auto simp: only_primaries_def deferred_set_def judged_def)
  have d': "deferred_set d (providers c) \<subseteq> slow_set c2"
    using loop c1 bits by (auto simp: deferred_set_def)
  have "distinct (providers c)" using assms(2) by (simp add: distinct_map)
  then show ?thesis
    using routed_order [of c2 d "slow_set c2"] d d' assms True f v c1 c2 by (auto simp: takeBodyVerdicts_def fastestBody_def scan_ok_def intro: routedI)
next
  case False
  then show ?thesis
    using assms routed_by_plain by (auto simp: takeBodyVerdicts_def scan_ok_def only_primaries_def deferred_set_def is_deferred_word intro: routedI)
qed

text \<open>What a running client does: it hands out scan orders, records downloads, and its setting may change.\<close>

datatype blabel = BScan int int "UsenetProvider list" | BBody string int int int | BPrefer "bool option"

inductive body_step :: "blabel \<Rightarrow> Client \<Rightarrow> Client \<Rightarrow> bool" where
  bs_scan: "bodyScanOrder loc now c = (order, c') \<Longrightarrow> body_step (BScan loc now order) c c'"
| bs_body: "body_step (BBody host n d now) c (recordBody now host n d c)"
| bs_prefer: "body_step (BPrefer on) c (c\<lparr>preferFaster := on\<rparr>)"

inductive_cases body_scanE: "body_step (BScan loc now order) c c'"

definition new_client :: "UsenetProvider list \<Rightarrow> Client \<Rightarrow> bool" where
  "new_client ps c \<longleftrightarrow> providers c = ps \<and> body_scan c = None \<and> distinct (map Host ps)"

definition client_ok :: "UsenetProvider list \<Rightarrow> Client \<Rightarrow> bool" where
  "client_ok ps c \<longleftrightarrow> providers c = ps \<and> distinct (map Host ps) \<and> (\<forall>s. body_scan c = Some s \<longrightarrow> scan_ok ps c s)"

lemma scan_ok_same: "slow_set c' = slow_set c \<Longrightarrow> scan_ok ps c' s = scan_ok ps c s"
  by (simp add: scan_ok_def)

text \<open>The verdicts at hand are too old to serve, or there are none.\<close>

definition scan_due :: "int \<Rightarrow> Client \<Rightarrow> bool" where
  "scan_due now c \<longleftrightarrow> (\<forall>s. body_scan c = Some s \<longrightarrow> now - scan_at s \<ge> bodyVerdictEvery \<or> now < scan_at s)"

lemma current_scan_ok:
  assumes "current_scan loc now c = (s, c')" "client_ok ps c"
  shows "client_ok ps c' \<and> scan_ok ps c' s \<and> (scan_due now c \<longrightarrow> routed_by ps (slow_set c') (body_rate c') (scan_order s))"
proof -
  obtain s1 c1 where t: "takeBodyVerdicts loc now c = (s1, c1)" by fastforce
  have new: "providers c1 = ps" "scan_ok ps c1 s1" "routed_by ps (slow_set c1) (body_rate c1) (scan_order s1)"
    using takeBodyVerdicts_ok [OF t] assms(2) by (auto simp: client_ok_def)
  have same: "slow_set (c1\<lparr>body_scan := Some s1\<rparr>) = slow_set c1" "body_rate (c1\<lparr>body_scan := Some s1\<rparr>) = body_rate c1"
    by (simp_all add: slow_set_def slow_at_def body_rate_def fun_eq_iff)
  then have fresh: "client_ok ps (c1\<lparr>body_scan := Some s1\<rparr>)" "scan_ok ps (c1\<lparr>body_scan := Some s1\<rparr>) s1"
    using assms(2) new scan_ok_same [of "c1\<lparr>body_scan := Some s1\<rparr>" c1] by (simp_all add: client_ok_def)
  show ?thesis
  proof (cases "s = s1 \<and> c' = c1\<lparr>body_scan := Some s1\<rparr>")
    case False
    then have "body_scan c = Some s" "c' = c" "\<not> scan_due now c" using assms(1) t by (auto simp: current_scan_def scan_due_def split: option.splits if_splits)
    then show ?thesis using assms(2) by (simp add: client_ok_def)
  qed (use fresh new(3) same in simp)
qed

lemma bodyScanOrder_ok:
  assumes "bodyScanOrder loc now c = (order, c')" "client_ok ps c"
  shows "client_ok ps c' \<and> routed ps (slow_set c') order \<and> (scan_due now c \<longrightarrow> routed_by ps (slow_set c') (body_rate c') order)"
proof -
  obtain s c1 where s: "current_scan loc now c = (s, c1)" by fastforce
  obtain r c2 where e: "explore_loop now (scan_deferred s) 0 (providers c1) c1 = (r, c2)" by fastforce
  have ok: "client_ok ps c1" "scan_ok ps c1 s" "scan_due now c \<longrightarrow> routed_by ps (slow_set c1) (body_rate c1) (scan_order s)"
    using current_scan_ok [OF s assms(2)] by auto
  have same: "providers c2 = ps" "slow_set c2 = slow_set c1" "body_scan c2 = body_scan c1" "body_rate c2 = body_rate c1"
    using explore_loop_providers [OF e] ok(1) by (simp_all add: client_ok_def)
  have c2: "client_ok ps c2" "scan_ok ps c2 s" using ok same by (simp_all add: client_ok_def scan_ok_same [OF same(2)])
  have "only_primaries (scan_deferred s AND NOT (push_bit i 1)) ps \<and> deferred_set (scan_deferred s AND NOT (push_bit i 1)) ps \<subseteq> slow_set c2" for i
    using c2(2) by (auto simp: scan_ok_def only_primaries_def deferred_set_def is_deferred_word simp del: push_bit_of_1)
  then have "routed_by ps (slow_set c2) (body_rate c2) (orderDeferring (scan_deferred s AND NOT (push_bit i 1)) c2)" for i
    using routed_order [of c2] c2(1) by (auto simp: client_ok_def distinct_map)
  then show ?thesis
    using assms(1) s e ok c2 same(2,4) by (auto simp: bodyScanOrder_def scan_ok_def split: if_splits option.splits intro: routedI)
qed

interpretation body_routing: invariant "new_client ps" body_step "client_ok ps" for ps
proof
  show "client_ok ps c" if "new_client ps c" for c using that by (simp add: new_client_def client_ok_def)
  have record_slow: "slow_set (recordBody now host n d c) = slow_set c" for now host n d c
    unfolding recordBody_def by (rule slow_set_on_body) (simp add: body_record_def Let_def)
  have prefer_slow: "slow_set (c\<lparr>preferFaster := on\<rparr>) = slow_set c" for c on by (simp add: slow_set_def slow_at_def)
  show "client_ok ps c'" if "client_ok ps c" "body_step l c c'" for c l c'
    using that(2,1)
  proof cases
    case (bs_body host n d now)
    then show ?thesis using that(1) scan_ok_same [OF record_slow] by (auto simp: client_ok_def, auto simp: recordBody_def)
  next
    case (bs_prefer on)
    then show ?thesis using that(1) scan_ok_same [OF prefer_slow] by (auto simp: client_ok_def)
  qed (auto dest: bodyScanOrder_ok)
qed

section \<open>Which primaries are deferred\<close>

text \<open>The specification of a new set of verdicts, over the measurements alone. A primary's rate counts when it rests on enough
  samples and is not stale. The reference is the best such rate among the primaries that are not over their hard quota.\<close>

definition current_rate :: "int \<Rightarrow> Client \<Rightarrow> UsenetProvider \<Rightarrow> int" where
  "current_rate now c p = (case pools c (Host p) of Some pp \<Rightarrow> usable now (pp_body pp) | None \<Rightarrow> 0)"

definition rated_primaries :: "int \<Rightarrow> int \<Rightarrow> UsenetProvider list \<Rightarrow> Client \<Rightarrow> UsenetProvider set" where
  "rated_primaries loc now ps c = {p \<in> set ps. \<not> Backup p \<and> Host p \<notin> blocked_hosts loc now c}"

definition top_rate :: "int \<Rightarrow> int \<Rightarrow> Client \<Rightarrow> int" where
  "top_rate loc now c = Max (insert 0 (current_rate now c ` rated_primaries loc now (providers c) c))"

text \<open>A primary that is not deferred becomes so when its rate is under 4 MiB/s and more than four times below the best; one that is
  deferred stays so for 30 seconds and then until its rate is a quarter above that mark; one without a current rate stays
  as it is.\<close>

definition too_slow :: "int \<Rightarrow> int \<Rightarrow> bodyThroughput \<Rightarrow> bool" where
  "too_slow best now b \<longleftrightarrow>
     (if usable now b = 0 then slow b
      else if slow b then changedAt b \<noteq> 0 \<and> now < changedAt b + 30 * second \<or> 4 * usable now b < 5 * min 4194304 (best div 4)
      else usable now b < 4194304 \<and> 4 * usable now b + 4 \<le> best)"

definition judged_slow :: "int \<Rightarrow> int \<Rightarrow> Client \<Rightarrow> UsenetProvider set" where
  "judged_slow loc now c =
     (if preferFaster c = Some False then {}
      else {p \<in> set (take 64 (providers c)). \<not> Backup p \<and> (\<exists>pp. pools c (Host p) = Some pp \<and> too_slow (top_rate loc now c) now (pp_body pp))})"

text \<open>The first of them without a current rate keeps its place for one fetch, at most once in five minutes. When no
  primary would be left in front, none is moved.\<close>

definition explorable :: "int \<Rightarrow> Client \<Rightarrow> UsenetProvider \<Rightarrow> bool" where
  "explorable now c p \<longleftrightarrow>
     (\<exists>pp. pools c (Host p) = Some pp \<and> usable now (pp_body pp) = 0 \<and> (exploredAt (pp_body pp) = 0 \<or> now - exploredAt (pp_body pp) \<ge> 300 * second))"

definition deferred_now :: "int \<Rightarrow> int \<Rightarrow> Client \<Rightarrow> UsenetProvider set" where
  "deferred_now loc now c =
     (let S = judged_slow loc now c; D = S - set_option (find (\<lambda>p. p \<in> S \<and> explorable now c p) (providers c))
      in if primary_left (providers c) D then D else {})"

lemma Max_insert_max: "finite A \<Longrightarrow> Max (insert (max x y) A) = Max (insert x (insert y A))" for x y :: int
  by (cases "A = {}") (simp_all add: max.assoc)

lemma fastest_loop_max:
  assumes "fastest_loop loc now ps best c = (b, c')"
  shows "Max (insert best (current_rate now c ` {p \<in> rated_primaries loc now ps c. pools c (Host p) \<noteq> None})) = b"
  using assms
proof (induction ps arbitrary: best c)
  case Nil
  then show ?case by (simp add: rated_primaries_def)
next
  case (Cons p ps)
  obtain bl c1 where bl: "statHomeBlocked loc now (Host p) c = (bl, c1)" by fastforce
  have c1: "pools c1 = pools c" "blocked_hosts loc now c1 = blocked_hosts loc now c" "bl \<longleftrightarrow> Host p \<in> blocked_hosts loc now c"
    using same_but_quotaD(1) [OF blocked_same_but_quota, of loc now "Host p" c] blocked_again [of loc now "Host p" c] blocked_member [of loc now "Host p" c] bl
    by simp_all
  have same: "current_rate now c1 = current_rate now c" "rated_primaries loc now ps c1 = rated_primaries loc now ps c"
    by (simp_all add: current_rate_def rated_primaries_def c1 fun_eq_iff)
  let ?R = "{q \<in> rated_primaries loc now ps c. pools c (Host q) \<noteq> None}"
  have fin: "finite (current_rate now c ` ?R)" by (simp add: rated_primaries_def)
  show ?case
  proof (cases "pools c (Host p) = None \<or> Backup p \<or> bl")
    case True
    then have "{q \<in> rated_primaries loc now (p # ps) c. pools c (Host q) \<noteq> None} = ?R" using c1(3) by (auto simp: rated_primaries_def)
    moreover have "fastest_loop loc now ps best c = (b, c') \<or> fastest_loop loc now ps best c1 = (b, c')"
      using True Cons.prems bl by (auto split: option.splits if_splits)
    ultimately show ?thesis using Cons.IH [of best c] Cons.IH [of best c1] by (auto simp: same c1(1))
  next
    case False
    then obtain pp where pp: "pools c (Host p) = Some pp" by auto
    have "{q \<in> rated_primaries loc now (p # ps) c. pools c (Host q) \<noteq> None} = insert p ?R" using False pp c1(3) by (auto simp: rated_primaries_def)
    moreover have "fastest_loop loc now ps (max best (current_rate now c p)) c1 = (b, c')"
      using False Cons.prems bl pp by (simp add: current_rate_def)
    moreover note Max_insert_max [OF fin, of best "current_rate now c p"]
    ultimately show ?thesis using Cons.IH [of "max best (current_rate now c p)" c1] by (simp add: same c1(1))
  qed
qed

lemma fastestBody_top: "fastestBody loc now c = (b, c') \<Longrightarrow> b = top_rate loc now c"
proof -
  assume f: "fastestBody loc now c = (b, c')"
  let ?A = "rated_primaries loc now (providers c) c"
  have "insert 0 (current_rate now c ` ?A) = insert 0 (current_rate now c ` {p \<in> ?A. pools c (Host p) \<noteq> None})"
    by (auto simp: current_rate_def split: option.splits)
  then show ?thesis using fastest_loop_max [OF f [unfolded fastestBody_def]] by (simp add: top_rate_def)
qed

lemma verdict_too_slow:
  assumes "0 \<le> best"
  shows "fst (bodyVerdict best now b) \<longleftrightarrow> too_slow best now b"
proof -
  have cut: "body_cut best = min 4194304 (best div 4)" using assms by (simp add: body_cut_def bodyFastEnough_def bodySlowFactor_def)
  have "rate < body_cut best \<longleftrightarrow> rate < 4194304 \<and> 4 * rate + 4 \<le> best" for rate unfolding cut by auto
  moreover have "(rate < body_cut best \<or> rate * 100 < body_cut best * bodyRecoverPercent) \<longleftrightarrow> 4 * rate < 5 * min 4194304 (best div 4)" for rate
    using assms unfolding cut bodyRecoverPercent_def by auto
  ultimately show ?thesis by (auto simp: bodyVerdict_def too_slow_def Let_def bodyVerdictHold_def)
qed

lemma judged_too_slow:
  assumes "0 \<le> best"
  shows "judged best now c p \<longleftrightarrow> \<not> Backup p \<and> (\<exists>pp. pools c (Host p) = Some pp \<and> too_slow best now (pp_body pp))"
  using verdict_too_slow [OF assms] by (simp add: judged_def)

lemma measures_body:
  assumes "measures c' = measures c"
  shows "body_rate c' = body_rate c" "explorable now c' = explorable now c"
proof -
  have "measures c' (Host p) = measures c (Host p)" for p :: UsenetProvider using assms by simp
  then have *: "map_option (\<lambda>pp. (bytesPerSec (pp_body pp), body_samples (pp_body pp), body_sampledAt (pp_body pp), exploredAt (pp_body pp))) (pools c' (Host p))
    = map_option (\<lambda>pp. (bytesPerSec (pp_body pp), body_samples (pp_body pp), body_sampledAt (pp_body pp), exploredAt (pp_body pp))) (pools c (Host p))" for p :: UsenetProvider
    by (simp only: measures_def)
  show "body_rate c' = body_rate c"
  proof
    show "body_rate c' p = body_rate c p" for p using * [of p] by (cases "pools c (Host p)"; cases "pools c' (Host p)") (auto simp: body_rate_def)
  qed
  show "explorable now c' = explorable now c"
  proof
    show "explorable now c' p = explorable now c p" for p
      using * [of p] by (cases "pools c (Host p)"; cases "pools c' (Host p)") (auto simp: explorable_def usable_def)
  qed
qed

lemma takeBodyVerdicts_exact:
  assumes "takeBodyVerdicts loc now c = (s, c')" "distinct (map Host (providers c))"
  shows "deferred_set (scan_deferred s) (providers c) = judged_slow loc now c \<and> scan_order s = orderDeferring (scan_deferred s) c' \<and> measures c' = measures c"
proof (cases "bodyRoutingOn c")
  case True
  obtain best c1 where f: "fastestBody loc now c = (best, c1)" by fastforce
  then have c1: "providers c1 = providers c" "pools c1 = pools c"
    unfolding fastestBody_def by (metis fastest_loop_same same_but_quotaD(2), metis fastest_loop_same same_but_quotaD(1))
  have best: "best = top_rate loc now c" "0 \<le> best"
    using fastestBody_top [OF f] by (simp_all add: top_rate_def rated_primaries_def Max_ge_iff)
  obtain d c2 where v: "verdict_loop best now 0 (providers c1) 0 c1 = (d, c2)" by fastforce
  have distinct: "distinct (map Host (providers c1))" using c1 assms(2) by simp
  note loop = verdict_loop_exact [OF v distinct]
  have s: "scan_deferred s = d" "scan_order s = orderDeferring d c2" "c' = c2" using assms(1) True f v by (auto simp: takeBodyVerdicts_def)
  have bit: "is_deferred d i \<longleftrightarrow> i < length (providers c) \<and> i < 64 \<and> judged best now c (providers c ! i)" for i
    using loop c1 by (auto simp: is_deferred_word judged_def)
  have "deferred_set d (providers c) = {p \<in> set (take 64 (providers c)). judged best now c p}"
    unfolding deferred_set_def bit by (auto simp: in_set_conv_nth)
  also have "\<dots> = judged_slow loc now c"
    using True by (auto simp: judged_too_slow [OF best(2)] best(1) [symmetric] judged_slow_def bodyRoutingOn_def split: option.splits)
  finally show ?thesis using s loop c1 by (auto simp: measures_def fun_eq_iff)
next
  case False
  then have "preferFaster c = Some False" by (auto simp: bodyRoutingOn_def split: option.splits)
  then show ?thesis using False assms(1) by (auto simp: takeBodyVerdicts_def deferred_set_def is_deferred_word judged_slow_def orderDeferring_def)
qed

lemma explore_loop_find:
  assumes "explore_loop now d i ps c = (r, c')"
  shows "case r of None \<Rightarrow> \<forall>j < length ps. \<not> (is_deferred d (i + j) \<and> explorable now c (ps ! j))
      | Some k \<Rightarrow> \<exists>j < length ps. k = i + j \<and> is_deferred d k \<and> explorable now c (ps ! j) \<and> (\<forall>m < j. \<not> (is_deferred d (i + m) \<and> explorable now c (ps ! m)))"
  using assms
proof (induction ps arbitrary: i)
  case (Cons p ps)
  show ?case
  proof (cases "is_deferred d i \<and> explorable now c p")
    case True
    then have "r = Some i" using Cons.prems by (auto simp: explorable_def body_tryExplore_def bodyExploreAfter_def)
    then show ?thesis using True by (auto intro: exI [of _ 0])
  next
    case False
    then have "explore_loop now d (Suc i) ps c = (r, c')"
      using Cons.prems by (auto simp: explorable_def body_tryExplore_def bodyExploreAfter_def split: option.splits if_splits)
    from Cons.IH [OF this] show ?thesis
    proof (cases r)
      case (Some k)
      with Cons.IH [OF \<open>explore_loop now d (Suc i) ps c = (r, c')\<close>] obtain j where "j < length ps" "k = Suc i + j" "is_deferred d k" "explorable now c (ps ! j)"
          "\<forall>m < j. \<not> (is_deferred d (Suc i + m) \<and> explorable now c (ps ! m))" by auto
      then show ?thesis using Some False by (auto simp: All_less_Suc2 intro!: exI [of _ "Suc j"])
    qed (use False in \<open>auto simp: All_less_Suc2\<close>)
  qed
qed simp

lemma deferred_nth: "distinct ps \<Longrightarrow> j < length ps \<Longrightarrow> ps ! j \<in> deferred_set d ps \<longleftrightarrow> is_deferred d j"
  by (auto simp: deferred_set_def nth_eq_iff_index_eq)

lemma deferred_set_minus: "distinct ps \<Longrightarrow> j < length ps \<Longrightarrow> deferred_set (d AND NOT (push_bit j 1)) ps = deferred_set d ps - {ps ! j}"
  by (auto simp: deferred_set_def is_deferred_word nth_eq_iff_index_eq simp del: push_bit_of_1)

lemma bodyScanOrder_exact:
  assumes "bodyScanOrder loc now c = (order, c')" "client_ok ps c" "scan_due now c"
  shows "order = deferring ps (deferred_now loc now c) (body_rate c) \<and> deferred_now loc now c \<subseteq> {p \<in> slow_set c'. \<not> Backup p}"
proof -
  have ps: "providers c = ps" "distinct (map Host ps)" "distinct ps" using assms(2) by (auto simp: client_ok_def distinct_map)
  obtain s c2 where t: "takeBodyVerdicts loc now c = (s, c2)" by fastforce
  note exact = takeBodyVerdicts_exact [OF t]
  let ?S = "judged_slow loc now c" and ?d = "scan_deferred s" and ?c1 = "c2\<lparr>body_scan := Some s\<rparr>"
  have cur: "current_scan loc now c = (s, ?c1)" using assms(3) t by (auto simp: current_scan_def scan_due_def split: option.split)
  have c2: "providers c2 = ps" using takeBodyVerdicts_ok [OF t] ps by simp
  have S: "deferred_set ?d ps = ?S" and so: "scan_order s = orderDeferring ?d c2" and m: "measures c2 = measures c" using exact ps by auto
  have m1: "measures ?c1 = measures c" using m by (simp add: measures_def fun_eq_iff)
  have plan: "orderDeferring d c3 = (if primary_left ps (deferred_set d ps) then deferring ps (deferred_set d ps) (body_rate c) else ps)"
    if "providers c3 = ps" "body_rate c3 = body_rate c" for d c3 using orderDeferring_exact [of c3 d] ps(3) that by simp
  obtain r c3 where e: "explore_loop now ?d 0 ps ?c1 = (r, c3)" by fastforce
  note found = explore_loop_find [OF e]
  have c3: "providers c3 = ps" "body_rate c3 = body_rate c" using explore_loop_providers [OF e] c2 measures_body(1) [OF m1] by simp_all
  let ?Q = "\<lambda>p. p \<in> ?S \<and> explorable now c p"
  have Q: "?Q (ps ! j) \<longleftrightarrow> is_deferred ?d j \<and> explorable now ?c1 (ps ! j)" if "j < length ps" for j
    using deferred_nth [OF ps(3) that, of ?d] measures_body(2) [OF m1] by (simp add: S)
  have "slow_set ?c1 = slow_set c2" by (simp add: slow_set_def slow_at_def)
  then have "slow_set c' = slow_set c2"
    using assms(1) cur e c2 explore_loop_providers [OF e] by (auto simp: bodyScanOrder_def split: if_splits option.splits)
  moreover have "scan_ok ps c2 s" using takeBodyVerdicts_ok [OF t] ps by simp
  ultimately have slow: "deferred_now loc now c \<subseteq> {p \<in> slow_set c'. \<not> Backup p}"
    by (auto simp: scan_ok_def only_primaries_def deferred_now_def Let_def S split: if_splits)
  have "order = deferring ps (deferred_now loc now c) (body_rate c)"
  proof (cases r)
    case None
    then have "find ?Q ps = None" using found Q by (auto simp: find_None_iff in_set_conv_nth)
    moreover have "order = orderDeferring ?d c2" using assms(1) cur e c2 None so by (auto simp: bodyScanOrder_def split: if_splits)
    ultimately show ?thesis
      using plan [of c2 ?d] c2 measures_body(1) [OF m] ps(1) by (simp add: deferred_now_def Let_def S deferring_none)
  next
    case (Some k)
    then have k: "k < length ps" "is_deferred ?d k" "?Q (ps ! k)" "\<forall>m < k. \<not> ?Q (ps ! m)" using found Q by auto
    then have first: "find ?Q ps = Some (ps ! k)" unfolding find_Some_iff by blast
    have "?d \<noteq> 0" using k(2) is_deferred_word(3) by metis
    then have "order = orderDeferring (?d AND NOT (push_bit k 1)) c3" using assms(1) cur e c2 Some by (auto simp: bodyScanOrder_def)
    then show ?thesis
      using plan [OF c3] first ps(1) deferred_set_minus [OF ps(3) k(1), of ?d] by (simp add: deferred_now_def Let_def S deferring_none del: push_bit_of_1)
  qed
  with slow show ?thesis by simp
qed

lemma deferring_parts:
  assumes "D = {} \<or> primary_left ps D"
  obtains xs ys where "deferring ps D rate = xs @ sort_key (\<lambda>p. - rate p) (filter (\<lambda>p. p \<in> D) ps) @ ys" "xs @ ys = filter (\<lambda>p. p \<notin> D) ps"
    "D \<noteq> {} \<longrightarrow> xs \<noteq> [] \<and> \<not> Backup (last xs) \<and> (\<forall>p \<in> set ys. Backup p)"
proof
  show "deferring ps D rate = lead_part (kept_order ps D) @ sort_key (\<lambda>p. - rate p) (filter (\<lambda>p. p \<in> D) ps) @ backup_part (kept_order ps D)"
    by (rule deferring_def)
  show "lead_part (kept_order ps D) @ backup_part (kept_order ps D) = filter (\<lambda>p. p \<notin> D) ps" by (simp add: kept_order_def)
  show "D \<noteq> {} \<longrightarrow> lead_part (kept_order ps D) \<noteq> [] \<and> \<not> Backup (last (lead_part (kept_order ps D))) \<and> (\<forall>p \<in> set (backup_part (kept_order ps D)). Backup p)"
    using assms lead_part_kept [of ps D] lead_part_last backup_part_backups by blast
qed

text \<open>C24. Every scan order a running client hands out contains each provider once: it is the configured order with a set \<open>D\<close> of
  primaries taken out and put in again right behind the last primary that is left, fastest first, so the other providers, backups
  included, keep their order. \<open>D\<close> has only primaries whose latest verdict is slow. When the verdicts are due, \<open>D\<close> and the
  rates are determined by the measurements of that moment: the primaries whose rate is under 4 MiB/s and more than four times below the
  best rate of a primary within its quota, those deferred less than 30 seconds ago or not yet a quarter above that mark, and those
  deferred without a current rate; except that the first one without a current rate keeps its place once in five minutes, that no
  primary is moved when all of them would be, and none when the setting is off.\<close>

theorem body_scan_routes:
  assumes "reachable (new_client ps) body_step c" "body_step (BScan loc now order) c c'"
  shows "mset order = mset ps \<and> (\<exists>D rate xs ys. (scan_due now c \<longrightarrow> D = deferred_now loc now c \<and> rate = body_rate c) \<and>
    D \<subseteq> {p. slow_at c' (Host p) \<and> \<not> Backup p} \<and>
    order = xs @ sort_key (\<lambda>p. - rate p) (filter (\<lambda>p. p \<in> D) ps) @ ys \<and> xs @ ys = filter (\<lambda>p. p \<notin> D) ps \<and>
    (D \<noteq> {} \<longrightarrow> xs \<noteq> [] \<and> \<not> Backup (last xs) \<and> (\<forall>p \<in> set ys. Backup p)))"
proof -
  have ok: "client_ok ps c" by (rule body_routing.reachable_inv [OF assms(1)])
  have scan: "bodyScanOrder loc now c = (order, c')" using assms(2) by (auto elim: body_scanE)
  have ps: "providers c = ps" using ok by (simp add: client_ok_def)
  obtain D rate where D: "D \<subseteq> {p \<in> slow_set c'. \<not> Backup p}" "order = deferring ps D rate" "D = {} \<or> primary_left ps D"
      "scan_due now c \<longrightarrow> D = deferred_now loc now c \<and> rate = body_rate c"
  proof (cases "scan_due now c")
    case True
    have "deferred_now loc now c = {} \<or> primary_left ps (deferred_now loc now c)" by (simp add: deferred_now_def Let_def ps)
    then show thesis using bodyScanOrder_exact [OF scan ok True] that by blast
  next
    case False
    then show thesis using bodyScanOrder_ok [OF scan ok] that by (auto simp: routed_def routed_by_def lead_part_kept)
  qed
  obtain xs ys where parts: "deferring ps D rate = xs @ sort_key (\<lambda>p. - rate p) (filter (\<lambda>p. p \<in> D) ps) @ ys" "xs @ ys = filter (\<lambda>p. p \<notin> D) ps"
      "D \<noteq> {} \<longrightarrow> xs \<noteq> [] \<and> \<not> Backup (last xs) \<and> (\<forall>p \<in> set ys. Backup p)"
    by (rule deferring_parts [OF D(3)])
  have all: "mset order = mset ps" using D(2) mset_deferring by simp
  have among: "D \<subseteq> {p. slow_at c' (Host p) \<and> \<not> Backup p}" using D(1) by (auto simp: slow_set_def)
  show ?thesis
    by (rule conjI [OF all], rule exI [of _ D], rule exI [of _ rate], rule exI [of _ xs], rule exI [of _ ys], rule conjI [OF D(4)],
      rule conjI [OF among], rule conjI [OF trans [OF D(2) parts(1)]], rule conjI [OF parts(2)], rule parts(3))
qed

section \<open>A deferral is held\<close>

text \<open>What happens to one primary's measurements: samples are recorded, verdicts taken against some fastest rate, explorers let
  through.\<close>

datatype body_event = Sampled int int int | Judged int int | Explored int

fun body_at :: "body_event \<Rightarrow> int" where
  "body_at (Sampled n d now) = now"
| "body_at (Judged fastest now) = now"
| "body_at (Explored now) = now"

fun body_apply :: "body_event \<Rightarrow> bodyThroughput \<Rightarrow> bodyThroughput" where
  "body_apply (Sampled n d now) b = body_record n d now b"
| "body_apply (Judged fastest now) b = snd (bodyVerdict fastest now b)"
| "body_apply (Explored now) b = snd (body_tryExplore now b)"

lemma held_step:
  assumes "slow b" "changedAt b = t" "t \<noteq> 0" "body_at e < t + bodyVerdictHold"
  shows "slow (body_apply e b) \<and> changedAt (body_apply e b) = t"
  using assms by (cases e) (auto simp: body_record_def body_tryExplore_def bodyVerdict_def Let_def)

lemma held_run:
  "slow b \<Longrightarrow> changedAt b = t \<Longrightarrow> t \<noteq> 0 \<Longrightarrow> \<forall>e \<in> set es. body_at e < t + bodyVerdictHold \<Longrightarrow>
   slow (fold body_apply es b) \<and> changedAt (fold body_apply es b) = t"
proof (induction es arbitrary: b)
  case (Cons e es)
  then show ?case using held_step [of b t e] by simp
qed simp

text \<open>The fastest primary itself is far above the cut.\<close>

lemma fastest_above_cut: "0 < rate \<Longrightarrow> \<not> rate < body_cut rate \<and> \<not> rate * 100 < body_cut rate * bodyRecoverPercent"
proof -
  assume r: "0 < rate"
  then have "body_cut rate \<le> rate div 4" by (simp add: body_cut_def bodySlowFactor_def)
  moreover have "4 * (rate div 4) \<le> rate" by simp
  ultimately show ?thesis using r by (auto simp: bodyRecoverPercent_def)
qed

text \<open>A primary judged slow stays deferred until the hold has passed, whatever is measured, judged or explored meanwhile. After the hold
  it gets its position back at the next verdict if it is itself the fastest, whatever its rate is.\<close>

lemma deferral_held:
  assumes "\<not> slow b" "bodyVerdict fastest t b = (True, b')" "t \<noteq> 0"
    and "\<forall>e \<in> set es. body_at e < t + bodyVerdictHold"
  shows "(now < t + bodyVerdictHold \<longrightarrow> fst (bodyVerdict fastest' now (fold body_apply es b'))) \<and>
    (t + bodyVerdictHold \<le> now \<and> 0 < usable now (fold body_apply es b') \<longrightarrow>
      \<not> fst (bodyVerdict (usable now (fold body_apply es b')) now (fold body_apply es b')))"
proof -
  have "slow b' \<and> changedAt b' = t" using assms(1,2) by (auto simp: bodyVerdict_def Let_def split: if_splits)
  then have run: "slow (fold body_apply es b') \<and> changedAt (fold body_apply es b') = t" using held_run assms(3,4) by blast
  then have "fst (bodyVerdict fastest' now (fold body_apply es b'))" if "now < t + bodyVerdictHold"
    using that assms(3) by (simp add: bodyVerdict_def Let_def)
  moreover have "\<not> fst (bodyVerdict (usable now (fold body_apply es b')) now (fold body_apply es b'))"
    if "t + bodyVerdictHold \<le> now" "0 < usable now (fold body_apply es b')"
    using that run fastest_above_cut [OF that(2)] by (simp add: bodyVerdict_def Let_def)
  ultimately show ?thesis by blast
qed

section \<open>A sample client\<close>

definition quick_body :: bodyThroughput where
  "quick_body = \<lparr>bytesPerSec = 12000000, body_samples = 5, body_sampledAt = second, exploredAt = 0, slow = False, changedAt = 0,
     buckets = replicate 6 \<lparr>bk_slice = 0, bk_bytes = 0, bk_nanos = 0, bk_count = 0\<rparr>\<rparr>"

definition slow_body :: bodyThroughput where "slow_body = quick_body\<lparr>bytesPerSec := 1000000\<rparr>"

definition idle_stat :: statLatency where
  "idle_stat = \<lparr>nsPerStat = 0, sampledAt = 0, exploring = False, eligible = False, exploreWait = 0, desyncs = 0, errCheckout = 0, errTimeout = 0,
     errEOF = 0, errClosed = 0, errOther = 0, stat_cancelled = 0, hintDemotions = 0, probeDemotions = 0\<rparr>"

definition first_p :: UsenetProvider where "first_p = sample_provider\<lparr>Host := ''alpha''\<rparr>"
definition second_p :: UsenetProvider where "second_p = sample_provider\<lparr>Host := ''beta''\<rparr>"
definition backup_p :: UsenetProvider where "backup_p = sample_provider\<lparr>Host := ''gamma'', Backup := True\<rparr>"

definition two_speed_client :: Client where
  "two_speed_client =
     \<lparr>pools = [''alpha'' \<mapsto> \<lparr>pp_max = 10, pp_config = first_p, pp_stat = idle_stat, pp_body = slow_body\<rparr>,
               ''beta'' \<mapsto> \<lparr>pp_max = 10, pp_config = second_p, pp_stat = idle_stat, pp_body = quick_body\<rparr>],
      providers = [first_p, second_p, backup_p], bw = None, statHomes = [], statProbing = 0, body_scan = None, preferFaster = None\<rparr>"

lemma first_scan: "fst (bodyScanOrder 0 (2 * second) two_speed_client) = [second_p, first_p, backup_p]"
  by code_simp

lemma first_fastest: "fst (fastestBody 0 (2 * second) two_speed_client) = 12000000"
  by code_simp

text \<open>The first provider runs at 1 MB/s where the second runs at 12: it is the one deferred.\<close>

lemma two_speed_judged: "judged_slow 0 (2 * second) two_speed_client = {first_p}"
proof -
  have top: "top_rate 0 (2 * second) two_speed_client = 12000000"
    using fastestBody_top [of 0 "2 * second" two_speed_client "fst (fastestBody 0 (2 * second) two_speed_client)"] by (metis first_fastest prod.collapse)
  have "too_slow 12000000 (2 * second) slow_body" "\<not> too_slow 12000000 (2 * second) quick_body" by code_simp+
  moreover have "preferFaster two_speed_client = None" "providers two_speed_client = [first_p, second_p, backup_p]" by (simp_all add: two_speed_client_def)
  moreover have "pools two_speed_client (Host first_p) = Some \<lparr>pp_max = 10, pp_config = first_p, pp_stat = idle_stat, pp_body = slow_body\<rparr>"
    "pools two_speed_client (Host second_p) = Some \<lparr>pp_max = 10, pp_config = second_p, pp_stat = idle_stat, pp_body = quick_body\<rparr>"
    by (simp_all add: two_speed_client_def first_p_def second_p_def sample_provider_def)
  moreover have "\<not> Backup first_p" "Backup backup_p" by (simp_all add: first_p_def backup_p_def sample_provider_def)
  ultimately show ?thesis by (auto simp: judged_slow_def top)
qed

lemma two_speed_deferred: "deferred_now 0 (2 * second) two_speed_client = {first_p}"
proof -
  have "usable (2 * second) slow_body \<noteq> 0" by code_simp
  then have "\<not> explorable (2 * second) two_speed_client first_p"
    by (auto simp: explorable_def two_speed_client_def first_p_def sample_provider_def)
  then have "find (\<lambda>p. p \<in> {first_p} \<and> explorable (2 * second) two_speed_client p) (providers two_speed_client) = None"
    by (auto simp: find_None_iff)
  moreover have "primary_left (providers two_speed_client) {first_p}"
    by (simp add: primary_left_def two_speed_client_def first_p_def second_p_def sample_provider_def)
  ultimately show ?thesis by (simp add: deferred_now_def two_speed_judged Let_def)
qed

theorem body_scan_routes_witness:
  "\<exists>xs ys. [second_p, first_p, backup_p] = xs @ [first_p] @ ys \<and> xs @ ys = [second_p, backup_p] \<and> \<not> Backup (last xs) \<and> (\<forall>p \<in> set ys. Backup p) \<and>
     slow_at (snd (bodyScanOrder 0 (2 * second) two_speed_client)) ''alpha''"
proof -
  let ?ps = "[first_p, second_p, backup_p]" and ?c' = "snd (bodyScanOrder 0 (2 * second) two_speed_client)"
  have "new_client ?ps two_speed_client"
    by (simp add: new_client_def two_speed_client_def first_p_def second_p_def backup_p_def sample_provider_def)
  then have reach: "reachable (new_client ?ps) body_step two_speed_client" by (rule reach_init)
  have step: "body_step (BScan 0 (2 * second) [second_p, first_p, backup_p]) two_speed_client ?c'"
    by (rule bs_scan) (metis first_scan prod.collapse)
  have due: "scan_due (2 * second) two_speed_client" by (simp add: scan_due_def two_speed_client_def)
  have kinds: "second_p \<noteq> first_p" "backup_p \<noteq> first_p" "Host first_p = ''alpha''"
    by (simp_all add: first_p_def second_p_def backup_p_def sample_provider_def)
  from conjunct2 [OF body_scan_routes [OF reach step]] obtain D rate xs ys where "scan_due (2 * second) two_speed_client \<longrightarrow>
      D = deferred_now 0 (2 * second) two_speed_client \<and> rate = body_rate two_speed_client" "D \<subseteq> {p. slow_at ?c' (Host p) \<and> \<not> Backup p}"
      "[second_p, first_p, backup_p] = xs @ sort_key (\<lambda>p. - rate p) (filter (\<lambda>p. p \<in> D) ?ps) @ ys" "xs @ ys = filter (\<lambda>p. p \<notin> D) ?ps"
      "D \<noteq> {} \<longrightarrow> xs \<noteq> [] \<and> \<not> Backup (last xs) \<and> (\<forall>p \<in> set ys. Backup p)"
    by (elim exE conjE) (rule that)
  then show ?thesis using due kinds by (intro exI [of _ xs] exI [of _ ys]) (simp add: two_speed_deferred)
qed

end
