(* ===== verification/Checkout.thy ===== *)
theory Checkout
  imports Stat_Batch Body_Routing
begin

text \<open>
  The choice of a connection for a download: \<^verbatim>\<open>getAnyAvailableConnection\<close> and the receiver of \<^verbatim>\<open>raceForConnection\<close> in
  \<^verbatim>\<open>src/internal/nntp/client.go\<close>. The quota tracker, the exclusions and the scan order are those of the other theories; the clock, whether a
  pool is warm, and what trying a provider gives (no free slot, a connection, an error) are arguments, as is the order in which
  the goroutines of a race report. The slots behind them are modelled in \<open>Conn_Pool\<close>.
\<close>

section \<open>Tiers\<close>

datatype slot_try = Full | Lent nat | Failed error

datatype racer_report = Silent | Won nat | Lost_race error

record checkout_env =
  zone :: int
  prio :: Priority
  clock :: "nat \<Rightarrow> UsenetProvider \<Rightarrow> int"
  scan_clock :: int
  warm :: "nat \<Rightarrow> UsenetProvider \<Rightarrow> bool"
  tried :: "bool \<Rightarrow> UsenetProvider \<Rightarrow> slot_try"
  arrivals :: "UsenetProvider list"
  racer :: "bool \<Rightarrow> UsenetProvider \<Rightarrow> racer_report"
  race_ctx :: "nat \<Rightarrow> ctx_err option"

definition tier_of :: "checkout_env \<Rightarrow> nat \<Rightarrow> UsenetProvider \<Rightarrow> Client \<Rightarrow> serveTier \<times> Client" where
  "tier_of env k p c = (case providerTier (zone env) (bw c) (prio env) p (clock env k p) of (t, b) \<Rightarrow> (t, c\<lparr>bw := b\<rparr>))"

text \<open>The first loop: whether there is a lead, and whether one may be used. It stops at the first that may.\<close>

fun lead_loop :: "checkout_env \<Rightarrow> providerExclusions \<Rightarrow> UsenetProvider list \<Rightarrow> Client \<Rightarrow> bool \<times> bool \<times> Client" where
  "lead_loop env ex [] c = (False, False, c)"
| "lead_loop env ex (p # ps) c =
     (case tier_of env 0 p c of (t, c) \<Rightarrow>
        if t \<noteq> tierLead then lead_loop env ex ps c
        else if \<not> excludes ex p then (True, True, c)
        else case lead_loop env ex ps c of (_, u, c) \<Rightarrow> (True, u, c))"

text \<open>The second: cool-downs are ignored when no eligible provider is warm.\<close>

fun warm_loop :: "checkout_env \<Rightarrow> serveTier \<Rightarrow> providerExclusions \<Rightarrow> UsenetProvider list \<Rightarrow> Client \<Rightarrow> bool \<times> Client" where
  "warm_loop env target ex [] c = (True, c)"
| "warm_loop env target ex (p # ps) c =
     (case tier_of env 1 p c of (t, c) \<Rightarrow>
        if t \<noteq> target \<or> excludes ex p then warm_loop env target ex ps c
        else if warm env 1 p then (False, c)
        else warm_loop env target ex ps c)"

text \<open>The scan: the connection, the number of eligible providers and the last error.\<close>

fun scan_loop ::
    "checkout_env \<Rightarrow> serveTier \<Rightarrow> providerExclusions \<Rightarrow> bool \<Rightarrow> UsenetProvider list \<Rightarrow> nat \<Rightarrow> error option \<Rightarrow> Client
      \<Rightarrow> (UsenetProvider \<times> nat) option \<times> nat \<times> error option \<times> Client" where
  "scan_loop env target ex ignore [] k err c = (None, k, err, c)"
| "scan_loop env target ex ignore (p # ps) k err c =
     (case tier_of env 2 p c of (t, c) \<Rightarrow>
        if t \<noteq> target \<or> excludes ex p then scan_loop env target ex ignore ps k err c
        else if \<not> ignore \<and> \<not> warm env 2 p then scan_loop env target ex ignore ps (Suc k) err c
        else case tried env ignore p of
          Lent conn \<Rightarrow> (Some (p, conn), Suc k, err, c)
        | Failed e \<Rightarrow> scan_loop env target ex ignore ps (Suc k) (Some e) c
        | Full \<Rightarrow> scan_loop env target ex ignore ps (Suc k) err c)"

fun eligible_loop :: "checkout_env \<Rightarrow> serveTier \<Rightarrow> providerExclusions \<Rightarrow> bool \<Rightarrow> UsenetProvider list \<Rightarrow> Client \<Rightarrow> UsenetProvider list \<times> Client" where
  "eligible_loop env target ex ignore [] c = ([], c)"
| "eligible_loop env target ex ignore (p # ps) c =
     (case tier_of env 3 p c of (t, c) \<Rightarrow>
        case eligible_loop env target ex ignore ps c of (el, c) \<Rightarrow>
          (if t \<noteq> target \<or> excludes ex p then el else if \<not> ignore \<and> \<not> warm env 3 p then el else p # el, c))"

section \<open>The receiver of a race\<close>

definition no_eligible :: error where "no_eligible = Wrap ''no eligible providers available'' (Leaf OtherError)"
definition no_connection :: error where "no_connection = Wrap ''failed to get connection from any provider'' (Leaf OtherError)"

text \<open>Before report number \<open>n\<close> the receiver may find the context done instead.\<close>

fun receive :: "checkout_env \<Rightarrow> bool \<Rightarrow> nat \<Rightarrow> UsenetProvider list \<Rightarrow> (UsenetProvider \<times> nat) option \<Rightarrow> error option \<Rightarrow> error + UsenetProvider \<times> nat" where
  "receive env ignore n [] win err =
     (case race_ctx env n of Some ce \<Rightarrow> Inl (ctx_error ce)
      | None \<Rightarrow> (case win of Some w \<Rightarrow> Inr w | None \<Rightarrow> (case err of Some e \<Rightarrow> Inl e | None \<Rightarrow> Inl no_connection)))"
| "receive env ignore n (p # ps) win err =
     (case race_ctx env n of Some ce \<Rightarrow> Inl (ctx_error ce)
      | None \<Rightarrow>
          (case racer env ignore p of
             Silent \<Rightarrow> receive env ignore (Suc n) ps win err
           | Won conn \<Rightarrow> receive env ignore (Suc n) ps (case win of None \<Rightarrow> Some (p, conn) | Some w \<Rightarrow> Some w) err
           | Lost_race e \<Rightarrow> receive env ignore (Suc n) ps win (Some e)))"

definition raceForConnection :: "checkout_env \<Rightarrow> UsenetProvider list \<Rightarrow> bool \<Rightarrow> error + UsenetProvider \<times> nat" where
  "raceForConnection env el ignore = receive env ignore 0 (filter (\<lambda>p. p \<in> set el) (arrivals env)) None None"

definition getAnyAvailableConnection :: "checkout_env \<Rightarrow> providerExclusions \<Rightarrow> Client \<Rightarrow> (error + UsenetProvider \<times> nat) \<times> Client" where
  "getAnyAvailableConnection env ex c =
     (case lead_loop env ex (providers c) c of (leadExists, leadUsable, c) \<Rightarrow>
        if \<not> leadUsable \<and> \<not> leadExists then (Inl no_eligible, c)
        else
          let target = (if leadUsable then tierLead else tierFill)
          in case warm_loop env target ex (providers c) c of (ignore, c) \<Rightarrow>
            case bodyScanOrder (zone env) (scan_clock env) c of (order, c) \<Rightarrow>
              case scan_loop env target ex ignore order 0 None c of (found, k, err, c) \<Rightarrow>
                (case found of Some w \<Rightarrow> (Inr w, c)
                 | None \<Rightarrow>
                     if k = 0 then (Inl no_eligible, c)
                     else case eligible_loop env target ex ignore (providers c) c of (el, c) \<Rightarrow>
                       if el = [] then (Inl (case err of Some e \<Rightarrow> e | None \<Rightarrow> no_eligible), c)
                       else (raceForConnection env el ignore, c)))"

section \<open>What a checkout gives\<close>

text \<open>Quota checks at one moment do not change each other's answers.\<close>

definition tier_at :: "int \<Rightarrow> Priority \<Rightarrow> int \<Rightarrow> Client \<Rightarrow> UsenetProvider \<Rightarrow> serveTier" where
  "tier_at loc priority now c p = fst (providerTier loc (bw c) priority p now)"

definition same_tiers :: "int \<Rightarrow> int \<Rightarrow> Client \<Rightarrow> Client \<Rightarrow> bool" where
  "same_tiers loc now c c' \<longleftrightarrow> (\<forall>priority p. tier_at loc priority now c' p = tier_at loc priority now c p)"

lemma same_tiers_refl [simp]: "same_tiers loc now c c"
  by (simp add: same_tiers_def)

lemma same_tiers_trans: "same_tiers loc now a b \<Longrightarrow> same_tiers loc now b c \<Longrightarrow> same_tiers loc now a c"
  by (simp add: same_tiers_def)

lemma same_tiers_bw: "bw c' = bw c \<Longrightarrow> same_tiers loc now c c'"
  by (simp add: same_tiers_def tier_at_def)

lemma providerTier_stable:
  "fst (providerTier loc (snd (providerTier loc b priority p now)) priority' p' now) = fst (providerTier loc b priority' p' now)"
  by (cases b) (simp_all add: providerTier_None providerTier_Some Tier_stable)

lemma blocked_same_tiers: "same_tiers loc now c (snd (statHomeBlocked loc now h c))"
  by (cases "bw c") (simp_all add: same_tiers_def tier_at_def statHomeBlocked_def providerTier_Some Tier_stable case_prod_beta)

lemma fastest_loop_tiers: "fastest_loop loc now ps best c = (b, c') \<Longrightarrow> same_tiers loc now c c'"
proof (induction ps arbitrary: best c)
  case (Cons p ps)
  have "statHomeBlocked loc now (Host p) c = (bl, c1) \<Longrightarrow> same_tiers loc now c c1" for bl c1 by (metis blocked_same_tiers snd_conv)
  then show ?case
    using Cons by (auto split: option.splits if_splits prod.splits) (blast intro: same_tiers_trans)+
qed simp

lemma on_body_bw [simp]: "bw (on_body h f c) = bw c"
  by (simp add: on_body_def split: option.split)

lemma verdict_loop_bw: "verdict_loop fastest now i ps d c = (d', c') \<Longrightarrow> bw c' = bw c"
  by (induction ps arbitrary: i d c) (auto split: option.splits if_splits prod.splits)

lemma explore_loop_bw: "explore_loop now d i ps c = (r, c') \<Longrightarrow> bw c' = bw c"
  by (induction ps arbitrary: i c) (auto split: option.splits if_splits prod.splits)

lemma bodyScanOrder_tiers:
  assumes "bodyScanOrder loc now c = (order, c')"
  shows "same_tiers loc now c c'"
proof -
  have taken: "same_tiers loc now c c1" if "takeBodyVerdicts loc now c = (s, c1)" for s c1
    using that by (auto simp: takeBodyVerdicts_def fastestBody_def split: if_splits prod.splits
        dest!: fastest_loop_tiers verdict_loop_bw intro: same_tiers_trans [OF _ same_tiers_bw])
  obtain s c1 where s: "current_scan loc now c = (s, c1)" by fastforce
  have "same_tiers loc now c c1"
  proof -
    obtain s2 c2 where t: "takeBodyVerdicts loc now c = (s2, c2)" by fastforce
    have "same_tiers loc now c (c2\<lparr>body_scan := x\<rparr>)" for x
      by (rule same_tiers_trans [OF taken [OF t] same_tiers_bw]) simp
    then show ?thesis using s t by (auto simp: current_scan_def split: option.splits if_splits)
  qed
  moreover have "bw c' = bw c1"
    using assms s by (auto simp: bodyScanOrder_def dest: explore_loop_bw split: if_splits prod.splits option.splits)
  ultimately show ?thesis by (blast intro: same_tiers_trans same_tiers_bw)
qed

text \<open>The loops of one call, all of whose quota checks fall on one moment.\<close>

definition at_once :: "checkout_env \<Rightarrow> int \<Rightarrow> bool" where
  "at_once env now \<longleftrightarrow> (\<forall>k p. clock env k p = now) \<and> scan_clock env = now"

lemma tier_of_at:
  assumes "tier_of env k p c = (t, c')" "at_once env now"
  shows "t = tier_at (zone env) (prio env) now c p" "same_tiers (zone env) now c c'"
  using assms providerTier_stable [of "zone env" "bw c" "prio env" p now]
  by (auto simp: tier_of_def at_once_def tier_at_def same_tiers_def split: prod.splits)

lemma lead_loop_spec:
  assumes "lead_loop env ex ps c = (some, use, c')" "at_once env now"
  shows "(some \<longleftrightarrow> (\<exists>p \<in> set ps. tier_at (zone env) (prio env) now c p = tierLead)) \<and>
    (use \<longleftrightarrow> (\<exists>p \<in> set ps. tier_at (zone env) (prio env) now c p = tierLead \<and> \<not> excludes ex p)) \<and> same_tiers (zone env) now c c'"
  using assms(1)
proof (induction ps arbitrary: some use c c')
  case (Cons p ps)
  obtain t c1 where t: "tier_of env 0 p c = (t, c1)" by fastforce
  note at = tier_of_at [OF t assms(2)]
  obtain a b c2 where rec: "lead_loop env ex ps c1 = (a, b, c2)" by (metis prod.exhaust)
  have "tier_at (zone env) (prio env) now c1 q = tier_at (zone env) (prio env) now c q" for q using at(2) by (simp add: same_tiers_def)
  then show ?case
    using Cons.IH [OF rec] Cons.prems t rec at same_tiers_trans [OF at(2), of c2] by (auto split: if_splits)
qed simp

lemma warm_loop_tiers: "warm_loop env target ex ps c = (i, c') \<Longrightarrow> at_once env now \<Longrightarrow> same_tiers (zone env) now c c'"
proof (induction ps arbitrary: c)
  case (Cons p ps)
  obtain t c1 where t: "tier_of env 1 p c = (t, c1)" by fastforce
  then show ?case
    using Cons tier_of_at(2) [OF t Cons.prems(2)] by (auto split: if_splits intro: same_tiers_trans)
qed simp

lemma scan_loop_spec:
  assumes "scan_loop env target ex ignore ps k err c = (found, k', err', c')" "at_once env now"
  shows "same_tiers (zone env) now c c' \<and>
    (\<forall>p conn. found = Some (p, conn) \<longrightarrow> p \<in> set ps \<and> tier_at (zone env) (prio env) now c p = target \<and> \<not> excludes ex p \<and> tried env ignore p = Lent conn)"
  using assms(1)
proof (induction ps arbitrary: k err c)
  case (Cons p ps)
  obtain t c1 where t: "tier_of env 2 p c = (t, c1)" by fastforce
  note at = tier_of_at [OF t assms(2)]
  have keep: "tier_at (zone env) (prio env) now c1 q = tier_at (zone env) (prio env) now c q" for q using at(2) by (simp add: same_tiers_def)
  show ?case
    using Cons.prems Cons.IH [of _ _ c1] t at keep
    by (auto split: if_splits slot_try.splits intro: same_tiers_trans [OF at(2)])
qed simp

lemma eligible_loop_spec:
  assumes "eligible_loop env target ex ignore ps c = (el, c')" "at_once env now"
  shows "same_tiers (zone env) now c c' \<and> (\<forall>p \<in> set el. p \<in> set ps \<and> tier_at (zone env) (prio env) now c p = target \<and> \<not> excludes ex p)"
  using assms(1)
proof (induction ps arbitrary: c el c')
  case (Cons p ps)
  obtain t c1 where t: "tier_of env 3 p c = (t, c1)" by fastforce
  note at = tier_of_at [OF t assms(2)]
  obtain el1 c2 where rec: "eligible_loop env target ex ignore ps c1 = (el1, c2)" by fastforce
  have "tier_at (zone env) (prio env) now c1 q = tier_at (zone env) (prio env) now c q" for q using at(2) by (simp add: same_tiers_def)
  then show ?case
    using Cons.IH [OF rec] Cons.prems t rec at same_tiers_trans [OF at(2), of c2] by (auto split: if_splits)
qed simp

lemma receive_won: "receive env ignore n ps win err = Inr (p, conn) \<Longrightarrow> win = Some (p, conn) \<or> p \<in> set ps \<and> racer env ignore p = Won conn"
  by (induction env ignore n ps win err rule: receive.induct) (auto split: option.splits racer_report.splits)

lemma race_won: "raceForConnection env el ignore = Inr (p, conn) \<Longrightarrow> p \<in> set el \<and> racer env ignore p = Won conn"
  by (auto simp: raceForConnection_def dest!: receive_won)

text \<open>A download never takes a connection from an excluded provider or from one over its hard quota. It takes one from the
  fill tier, the configured backups and the primaries in their reserve, only while there is a lead and every lead is excluded for
  this article; without any lead it fails.\<close>

lemma checkout_respects_tiers:
  assumes "getAnyAvailableConnection env ex c = (Inr (p, conn), c')" "at_once env now"
  shows "\<not> excludes ex p \<and> (tier_at (zone env) (prio env) now c p = tierLead \<or>
    tier_at (zone env) (prio env) now c p = tierFill \<and>
    (\<exists>q \<in> set (providers c). tier_at (zone env) (prio env) now c q = tierLead) \<and>
    (\<forall>q \<in> set (providers c). tier_at (zone env) (prio env) now c q = tierLead \<longrightarrow> excludes ex q))"
proof -
  obtain some use c1 where l: "lead_loop env ex (providers c) c = (some, use, c1)" by (metis prod.exhaust)
  let ?target = "if use then tierLead else tierFill"
  obtain i c2 where w: "warm_loop env ?target ex (providers c1) c1 = (i, c2)" by fastforce
  obtain order c3 where o: "bodyScanOrder (zone env) (scan_clock env) c2 = (order, c3)" by fastforce
  obtain found k err c4 where f: "scan_loop env ?target ex i order 0 None c3 = (found, k, err, c4)" by (metis prod.exhaust)
  obtain el c5 where e: "eligible_loop env ?target ex i (providers c4) c4 = (el, c5)" by fastforce
  note lead = lead_loop_spec [OF l assms(2)]
  have "same_tiers (zone env) now c2 c3" using bodyScanOrder_tiers [OF o] assms(2) by (simp add: at_once_def)
  then have c3: "same_tiers (zone env) now c c3"
    using lead warm_loop_tiers [OF w assms(2)] by (blast intro: same_tiers_trans)
  note scan = scan_loop_spec [OF f assms(2)]
  have c4: "same_tiers (zone env) now c c4" using c3 scan by (blast intro: same_tiers_trans)
  have "use \<or> some" by (rule ccontr) (use assms(1) l in \<open>simp add: getAnyAvailableConnection_def\<close>)
  then have "some" using lead by auto
  have "found = Some (p, conn) \<or> found = None \<and> raceForConnection env el i = Inr (p, conn)"
    using assms(1) l w o f e by (auto simp: getAnyAvailableConnection_def Let_def split: if_splits option.splits)
  then have "\<not> excludes ex p \<and> tier_at (zone env) (prio env) now c p = ?target"
    using scan eligible_loop_spec [OF e assms(2)] c3 c4 by (auto simp: same_tiers_def dest!: race_won)
  then show ?thesis using lead \<open>some\<close> by auto
qed

definition lending_env :: checkout_env where
  "lending_env = \<lparr>zone = 0, prio = PriorityNormal, clock = (\<lambda>_ _. 2 * second), scan_clock = 2 * second, warm = (\<lambda>_ _. True), tried = (\<lambda>_ _. Lent 0),
     arrivals = [], racer = (\<lambda>_ _. Silent), race_ctx = (\<lambda>_. None)\<rparr>"

definition leads_excluded :: providerExclusions where "leads_excluded = excludeHost ''beta'' (excludeHost ''alpha'' noExclusions)"

lemma backup_lent: "fst (getAnyAvailableConnection lending_env leads_excluded two_speed_client) = Inr (backup_p, 0)"
  by code_simp

lemma checkout_respects_tiers_sample:
  "\<not> excludes leads_excluded backup_p \<and>
   (\<exists>q \<in> set (providers two_speed_client). tier_at 0 PriorityNormal (2 * second) two_speed_client q = tierLead \<and> excludes leads_excluded q)"
proof -
  obtain c' where get: "getAnyAvailableConnection lending_env leads_excluded two_speed_client = (Inr (backup_p, 0), c')"
    using backup_lent by (metis prod.collapse)
  have "at_once lending_env (2 * second)" by (simp add: at_once_def lending_env_def)
  note tiers = checkout_respects_tiers [OF get this]
  have "tier_at (zone lending_env) (prio lending_env) (2 * second) two_speed_client backup_p = tierFill"
    by (simp add: tier_at_def two_speed_client_def providerTier_None backup_p_def)
  then show ?thesis using tiers by (auto simp: lending_env_def)
qed

end
