(* ===== verification/Retry.thy ===== *)
theory Retry
  imports Main
begin

text \<open>
  Bounded retries: \<^verbatim>\<open>src/internal/retry/retry.go\<close>. The operation is a function on a state; what it returns is \<open>Done\<close>, an error that may
  be retried, or one that \<^verbatim>\<open>Unrecoverable\<close> marks. When the context ends, before an attempt or during a sleep, is an argument, and the
  sleeps are listed in the result.
\<close>

datatype DelayMode = FixedDelay | BackOffDelay

record 'e retry_config =
  attempts :: int
  delay :: int
  maxDelay :: int
  delayType :: DelayMode
  retryIf :: "('e \<Rightarrow> bool) option"
  lastErrorOnly :: bool

definition defaultConfig :: "'e retry_config" where
  "defaultConfig = \<lparr>attempts = 1, delay = 0, maxDelay = 0, delayType = FixedDelay, retryIf = None, lastErrorOnly = True\<rparr>"

datatype 'e attempt = Done | Again 'e | Unrecoverable 'e

record 'e retry_ctx =
  before_try :: "nat \<Rightarrow> 'e option"
  in_sleep :: "nat \<Rightarrow> 'e option"

definition next_delay :: "'e retry_config \<Rightarrow> int \<Rightarrow> int" where
  "next_delay cfg d =
     (case delayType cfg of
        BackOffDelay \<Rightarrow> if d > 0 then (if maxDelay cfg > 0 \<and> 2 * d > maxDelay cfg then maxDelay cfg else 2 * d) else d
      | FixedDelay \<Rightarrow> if maxDelay cfg > 0 \<and> d > maxDelay cfg then maxDelay cfg else d)"

definition sleepWithContext :: "'e retry_ctx \<Rightarrow> nat \<Rightarrow> int \<Rightarrow> 'e option" where
  "sleepWithContext ctx n d = (if d \<le> 0 then None else in_sleep ctx n)"

fun retry_loop ::
    "'e retry_config \<Rightarrow> 'e retry_ctx \<Rightarrow> ('e \<Rightarrow> 'e) \<Rightarrow> ('s \<Rightarrow> 'e attempt \<times> 's) \<Rightarrow> nat \<Rightarrow> nat \<Rightarrow> int \<Rightarrow> 's \<Rightarrow> 'e option \<times> int list \<times> 's" where
  "retry_loop cfg ctx wrap f 0 n d s = (None, [], s)"
| "retry_loop cfg ctx wrap f (Suc left) n d s =
     (case before_try ctx n of Some e \<Rightarrow> (Some e, [], s)
      | None \<Rightarrow>
          (case f s of
             (Done, s) \<Rightarrow> (None, [], s)
           | (Unrecoverable e, s) \<Rightarrow> (Some e, [], s)
           | (Again e, s) \<Rightarrow>
               if (case retryIf cfg of Some p \<Rightarrow> \<not> p e | None \<Rightarrow> False) \<or> left = 0
               then (Some (if lastErrorOnly cfg then e else wrap e), [], s)
               else case sleepWithContext ctx n d of Some e \<Rightarrow> (Some e, [d], s)
                 | None \<Rightarrow> (case retry_loop cfg ctx wrap f left (Suc n) (next_delay cfg d) s of (r, ds, s) \<Rightarrow> (r, d # ds, s))))"

definition Do :: "'e retry_config \<Rightarrow> 'e retry_ctx \<Rightarrow> ('e \<Rightarrow> 'e) \<Rightarrow> ('s \<Rightarrow> 'e attempt \<times> 's) \<Rightarrow> 's \<Rightarrow> 'e option \<times> int list \<times> 's" where
  "Do cfg ctx wrap f s = retry_loop cfg ctx wrap f (nat (if attempts cfg \<le> 0 then 1 else attempts cfg)) 0 (delay cfg) s"

text \<open>A property of the state that every attempt keeps holds at the end, and the error returned comes from the last attempt made
  or from the context.\<close>

lemma retry_loop_keeps:
  assumes "retry_loop cfg ctx wrap f left n d s = (r, ds, s')" "I s" "lastErrorOnly cfg"
    and "\<And>s a s'. I s \<Longrightarrow> f s = (a, s') \<Longrightarrow> I s' \<and> (\<forall>e. a = Again e \<or> a = Unrecoverable e \<longrightarrow> Q e s')"
  shows "I s' \<and> (\<forall>e. r = Some e \<longrightarrow> Q e s' \<or> (\<exists>k. before_try ctx k = Some e \<or> in_sleep ctx k = Some e))"
  using assms(1,2)
proof (induction left arbitrary: n d s r ds s')
  case (Suc left)
  show ?case
  proof (cases "before_try ctx n")
    case None
    obtain a s1 where f: "f s = (a, s1)" by fastforce
    note step = assms(4) [OF Suc.prems(2) f]
    show ?thesis
    proof (cases a)
      case Done
      then show ?thesis using Suc.prems(1) None f step by simp
    next
      case (Unrecoverable e)
      then show ?thesis using Suc.prems(1) None f step by auto
    next
      case (Again e)
      obtain r1 ds1 s2 where rec: "retry_loop cfg ctx wrap f left (Suc n) (next_delay cfg d) s1 = (r1, ds1, s2)" by (metis prod.exhaust)
      show ?thesis
        using Suc.prems(1) None f Again step Suc.IH [OF rec] rec assms(3)
        by (auto simp: sleepWithContext_def split: if_splits option.splits)
    qed
  qed (use Suc.prems in auto)
qed simp

lemma Do_keeps:
  assumes "Do cfg ctx wrap f s = (r, ds, s')" "I s" "lastErrorOnly cfg"
    and "\<And>s a s'. I s \<Longrightarrow> f s = (a, s') \<Longrightarrow> I s' \<and> (\<forall>e. a = Again e \<or> a = Unrecoverable e \<longrightarrow> Q e s')"
  shows "I s' \<and> (\<forall>e. r = Some e \<longrightarrow> Q e s' \<or> (\<exists>k. before_try ctx k = Some e \<or> in_sleep ctx k = Some e))"
  by (rule retry_loop_keeps [where I = I and Q = Q, OF assms(1) [unfolded Do_def] assms(2,3)]) (rule assms(4))

text \<open>The operation is run at most the configured number of times, and at least once unless the context has ended before.\<close>

definition counted :: "('s \<Rightarrow> 'e attempt \<times> 's) \<Rightarrow> nat \<times> 's \<Rightarrow> 'e attempt \<times> (nat \<times> 's)" where
  "counted f ns = (case f (snd ns) of (a, s) \<Rightarrow> (a, (Suc (fst ns), s)))"

lemma counted_step: "f s = (a, s1) \<Longrightarrow> counted f (k, s) = (a, (Suc k, s1))"
  by (simp add: counted_def)

lemma retry_loop_bounded:
  "retry_loop cfg ctx wrap (counted f) left n d (k, s) = (r, ds, (k', s')) \<Longrightarrow>
     k \<le> k' \<and> k' \<le> k + left \<and> (before_try ctx n = None \<and> left > 0 \<longrightarrow> k < k') \<and> length ds < max 1 left"
proof (induction left arbitrary: n d k s r ds k' s')
  case (Suc left)
  obtain a s1 where f: "f s = (a, s1)" by fastforce
  obtain r1 ds1 k2 s2 where rec: "retry_loop cfg ctx wrap (counted f) left (Suc n) (next_delay cfg d) (Suc k, s1) = (r1, ds1, (k2, s2))"
    by (metis prod.exhaust)
  then show ?case
    using Suc.prems Suc.IH [OF rec] counted_step [where f = f and s = s and k = k, OF f]
    by (cases "before_try ctx n"; cases a) (auto split: option.splits if_splits)
qed simp

lemma Do_bounded:
  assumes "Do cfg ctx wrap (counted f) (0, s) = (r, ds, (k, s'))"
  shows "int k \<le> max 1 (attempts cfg) \<and> (before_try ctx 0 = None \<longrightarrow> 1 \<le> k) \<and> int (length ds) < max 1 (attempts cfg)"
  using retry_loop_bounded [OF assms [unfolded Do_def]] by (auto split: if_splits)

end
