(* ===== verification/Spec2Isabelle.thy ===== *)
theory Spec2Isabelle
  imports Par2_Repair Par2_Match Extents Ranges Overlay_Props Job_Queue Regrab_Guard Par2_Backoff Nzb_Faults Nzb_Store Buffer_Pool Stat_Verdicts Repair_Calls
    Conn_Pool Checkout Retry
begin

text \<open>
  A verification development for decypharr, a Go server that presents debrid and Usenet releases as a file system, under
  \<^verbatim>\<open>src/\<close>.

  \<^bold>\<open>The program.\<close> A manager takes releases from indexers and the arr applications into a queue of import jobs
  (\<^verbatim>\<open>pkg/manager\<close>). A Usenet release is an NZB record: files, groups and the message ids of their segments, kept in a
  binary file for each record (\<^verbatim>\<open>pkg/usenet\<close>, \<^verbatim>\<open>pkg/storage\<close>). Its bytes are downloaded on demand over NNTP, from
  providers with byte quotas (\<^verbatim>\<open>internal/nntp\<close>), into sparse buffers with a memory part and a disk part that share a pool
  (\<^verbatim>\<open>internal/buffer\<close>), and are served through a mounted cache (\<^verbatim>\<open>pkg/mount\<close>). Segments that no provider has any more are
  recorded in an overlay, which decides whether a read is padded with zeros, patched or failed
  (\<^verbatim>\<open>pkg/usenet/overlay\<close>). Patches come from a PAR2 engine (\<^verbatim>\<open>pkg/usenet/par2\<close>), which parses recovery sets,
  matches their files with the posted ones and reconstructs damaged slices. Failed repairs are retried under a backoff, and
  re-grabs of a release are guarded.

  \<^bold>\<open>Shared theories.\<close> \<open>Prelude\<close> has the machine types, the wrap-around of 64-bit sums as \<open>i64\<close>, Go's
  binary search and the list lemmas of the components; \<open>Go_Strings\<close>, \<open>Go_Time\<close> and \<open>Float64\<close> have the
  functions of Go's standard library that the code calls, with their rounding and calendar; \<open>Transition\<close> has
  reachability and runs with the locales \<open>invariant\<close> and \<open>refinement\<close>, \<open>Intervals\<close> the locale
  \<open>byte_set\<close>, and \<open>Char2_Field\<close> the locale \<open>char2_field\<close>. Each locale is an interface between components and
  is interpreted on their definitions: \<open>char2_field\<close> on the PAR2 product, \<open>byte_set\<close> on both range sets,
  \<open>invariant\<close> on the overlay store, the NZB store, the job queue, the buffer pool, the repair pool and its callers, the connection pools (twice: slots
  and owners) and the routing of bodies, \<open>refinement\<close> on the buffer. \<open>Stable_Sort\<close> has Go's stable sort with the locale \<open>keyed\<close>, interpreted on the orders in
  which the NNTP client tries its providers.

  \<^bold>\<open>PAR2\<close>, \<^verbatim>\<open>pkg/usenet/par2\<close>. \<open>GF16\<close> (\<^verbatim>\<open>gf16.go\<close>) shows that the product by logarithm tables is the product modulo
  the PAR2 polynomial and a field; \<open>Par2_Constants\<close> and \<open>Par2_Matrix\<close> (\<^verbatim>\<open>matrix.go\<close>) that the constants are
  distinct, that inversion succeeds exactly on nonsingular matrices and that the greedy choice of recovery slices is
  complete; \<open>Par2_Packet\<close> (\<^verbatim>\<open>packet.go\<close>) that walking packets, strictly or past damage, returns what was
  written and only verified packets; \<open>Par2_Index\<close> (\<^verbatim>\<open>index.go\<close>) that a parsed index is consistent and its slice
  numbering a bijection; \<open>Par2_Match\<close> (\<^verbatim>\<open>mapping.go\<close>) that matching is injective under every map order; \<open>Par2_Repair\<close>
  (\<^verbatim>\<open>repair.go\<close>) that repair returns the true bytes when its inputs are genuine, never unverified ones, and that the parallel
  accumulation equals the serial one under every schedule. MD5 and CRC32 are parameters.

  \<^bold>\<open>Buffers\<close>, \<^verbatim>\<open>internal/buffer\<close>. \<open>Extents\<close> is the range set of \<^verbatim>\<open>ranges.go\<close>. \<open>Buffer_Cache\<close> and
  \<open>Buffer_Ops\<close> define the buffer of \<^verbatim>\<open>buffer.go\<close>, \<^verbatim>\<open>block.go\<close> and \<^verbatim>\<open>alloc.go\<close>: the state is the record
  \<open>buffer\<close>, block memory and the file are functions from offsets to bytes, and \<open>faults\<close> lists the outcomes of the
  system calls to come, so every theorem holds for every pattern of failures. \<open>Buffer_Inv\<close>, \<open>Buffer_Coherence\<close>,
  \<open>Buffer_Steps\<close>, \<open>Buffer_Writes\<close>, \<open>Buffer_Array\<close>, \<open>Buffer_Discard\<close> and \<open>Buffer_Life\<close> prove, step by step, the invariant that
  relates the file, the resident blocks, the two range sets, the lock-free state slots and the counters; \<open>Buffer_Refinement\<close>
  concludes that every run of a buffer is a run of a sparse byte array, that bytes are read back as written and that closing
  settles the pool, and shows a race between the disk backstop and a seek back. \<open>Buffer_Pool\<close> (\<^verbatim>\<open>pool.go\<close>) has the
  shared counters and the reclaim loop. Every operation of a buffer is one step of its runs, so the refinement is about operations that
  follow one another. The code holds the lock of a buffer through most of them, but not through all: \<^verbatim>\<open>WriteAt\<close> takes it
  block by block, between the decision for write-through and the write, and around that write; \<^verbatim>\<open>punchBehindWindow\<close> drops it around each punch; and
  the reclaim loop of the pool holds no lock from one buffer or pass to the next. The lock-free read and the hole punch are also given as
  two steps each, and the race is stated over them; other interleavings inside an operation are not considered. Buffers over a
  temporary file of their own (\<^verbatim>\<open>os.CreateTemp\<close> on opening, \<^verbatim>\<open>os.Remove\<close> on closing) are left out: a buffer has the file it is given. A failing
  read of the file reports no bytes, where \<^verbatim>\<open>pread\<close> may report some. \<open>Ranges\<close> is the range set of \<^verbatim>\<open>pkg/mount/dfs/vfs/ranges\<close>; below, both are shown to agree.

  \<^bold>\<open>Overlay\<close>, \<^verbatim>\<open>pkg/usenet/overlay\<close>. \<open>Overlay\<close> defines the store and the padding policy over a disk whose calls may fail,
  \<open>Overlay_Steps\<close> what each operation does, \<open>Overlay_Props\<close> the caps on padding, the verdict, patches and entries that
  have been torn down. Comparisons of fractions are in float64.

  \<^bold>\<open>NZB records.\<close> \<open>Byte_Codec\<close> and \<open>Nzb_Codec\<close> (\<^verbatim>\<open>pkg/usenet/nzbcodec.go\<close>, \<^verbatim>\<open>pkg/storage/nzb.go\<close>) define the format and its
  readers, \<open>Nzb_Round_Trip\<close> that decoding inverts encoding, also for older layouts, \<open>Nzb_Sample\<close> that sampling message ids
  from the compressed bytes gives those of the record, \<open>Nzb_Faults\<close> where damaged bytes make a reader panic,
  \<open>Nzb_Store\<close> (\<^verbatim>\<open>pkg/usenet/storage.go\<close>) that the storage refines a map under failing calls. Compression and the
  legacy protobuf decoder are parameters. That listing the directory may fail when the statistics are recomputed is not modelled.

  \<^bold>\<open>Manager\<close>, \<^verbatim>\<open>pkg/manager\<close>. \<open>Job_Queue\<close> (\<^verbatim>\<open>jobqueue.go\<close>): workers and the condition variable as a step relation, no lost
  wake-up, no lost or doubled job. \<open>Regrab_Guard\<close> (\<^verbatim>\<open>regrab_guard.go\<close>, with its records in \<^verbatim>\<open>pkg/storage\<close>): the bound on strikes
  in every window, restarts included, as long as the writes of the database succeed. \<open>Par2_Backoff\<close> (\<^verbatim>\<open>par2_backoff.go\<close>): when a failed repair is tried again.

  \<^bold>\<open>Quotas\<close>, \<^verbatim>\<open>internal/nntp/bandwidth.go\<close>. \<open>Bandwidth\<close> defines the counters, \<open>Quota_Windows\<close> when a window starts,
  \<open>Quota_Usage\<close> that the role of a provider depends on the bytes read since the program first looked at the current window, and that bytes of the
  window read before that are not counted. The clock has a fixed offset from UTC. A read, a roll of the window and a save are one step
  each; in the code they are several atomic loads and stores, between which a concurrent read may be lost or saved with the other window.

  \<^bold>\<open>NNTP client\<close>, \<^verbatim>\<open>internal/nntp\<close>. \<open>Nntp_Client\<close> has the state of the client and the errors of \<^verbatim>\<open>errors.go\<close>. \<open>Stat_Routing\<close>
  (\<^verbatim>\<open>stat_routing.go\<close>) has the latency measurements, the choice of a home provider for each chunk of an availability check and the hints that
  reorder the providers; \<open>Stat_Window\<close> (\<^verbatim>\<open>conns.go\<close>) the pipelined STAT commands of one connection and the check that its
  replies are still in step; \<open>Stat_Batch\<close> (\<^verbatim>\<open>client.go\<close>) the check across providers, with its exclusions and tally. \<open>Stat_Verdicts\<close>
  shows that no verdict is invented whatever fails and that verdicts are exact when nothing does. \<open>Repair_Pool\<close> (\<^verbatim>\<open>repair_pool.go\<close>) has
  the workers that run the chunks as a step relation, with one explorer for each provider and no chunk lost or run twice; one look of a
  worker at its home, which is several atomic operations in the code, is one step. \<open>Repair_Calls\<close> adds the calls that wait for their chunks: a call returns
  only when none of its chunks is left, and stopping the pool can leave a call waiting for good. \<open>Body_Routing\<close> (\<^verbatim>\<open>body_routing.go\<close>) has the
  measured download rates, the verdicts and the scan order they give, and shows which primaries a new set of verdicts defers.
  \<open>Conn_Pool\<close> (\<^verbatim>\<open>client.go\<close>) has the connection pools: every goroutine that takes, checks, dials, races for or returns a connection is a
  thread state, and the slots, limits and owners are invariants of all interleavings; it also shows how an abandoned race loses a
  slot. \<open>Checkout\<close> has the choice of a provider for a download, with its tiers and exclusions, and \<open>Retry\<close> (\<^verbatim>\<open>internal/retry/retry.go\<close>) the
  bounded retry loop. The network is an argument: what a connection delivers for each window of commands, and
  when dialling or the context fails. The hypothesis on it is that a connection answers in order, with replies that stand for what
  its server holds. Measurements that concurrent calls make are arguments too. Dialling and the decoding of
  bodies are not modelled, nor the failover of a download around a checkout. Backbone names are compared as far as ASCII goes.

  \<^bold>\<open>Bounds and fuel.\<close> Sums of 64-bit integers wrap where the source's do; theorems on the buffer take offsets at most one block
  below \<^term>\<open>2 ^ 63\<close>, so that no sum of the code wraps. Loops are structural or have a termination proof. The reclaim
  loop of the pool takes the visiting order of each pass as an argument: run by itself it ends after at most two; with operations in
  between, which the model does not have, it may take more. The search for a
  constant and the walk of a byte stream are bounded by the sizes of their inputs, which their theorems show to be enough.

  \<^bold>\<open>Not modelled\<close>: the body downloads and the failover of the NNTP client, the HTTP server and its interface, debrid providers, archive
  parsers, mounts and media probing, which are protocol and input-output code around libraries; and the orchestration
  of the manager (\<^verbatim>\<open>par2_repair.go\<close>, \<^verbatim>\<open>repair_sweep.go\<close>, \<^verbatim>\<open>manager.go\<close>), which strings the components together with network calls,
  logs and timers. Page-cache hints, statistics that nothing reads back and log lines change no state and are left out.
\<close>

section \<open>The two range sets\<close>

text \<open>C18. The buffer's \<^verbatim>\<open>rangeSet\<close> and the mounted cache's \<^verbatim>\<open>Ranges\<close> both implement a plain set of byte offsets:
  after any common sequence of insertions and removals starting from empty, each reports a range as
  present exactly when all its bytes are in the set that the sequence denotes. In particular the two
  records that a cached file is kept in never disagree.\<close>

theorem range_sets_agree:
  assumes "\<forall>oper \<in> set ops. valid_op oper" "valid_range pos len"
  shows "(present (fold (run_op (\<lambda>rs pos len. snd (insert_extent rs pos len)) (\<lambda>rs pos len. snd (remove_extent rs pos len))) ops newRangeSet)
      pos len \<longleftrightarrow> {pos..<pos + len} \<subseteq> fold abs_op ops {}) \<and>
    (Present (fold (run_op (\<lambda>rs pos len. Insert rs \<lparr>Pos = pos, Size = len\<rparr>) (\<lambda>rs pos len. Remove rs \<lparr>Pos = pos, Size = len\<rparr>)) ops [])
      \<lparr>Pos = pos, Size = len\<rparr> \<longleftrightarrow> {pos..<pos + len} \<subseteq> fold abs_op ops {})"
  using extent_set.history [OF assms] range_set.history [OF assms] by simp_all

theorem range_sets_agree_witness:
  "Present (fold (run_op (\<lambda>rs pos len. Insert rs \<lparr>Pos = pos, Size = len\<rparr>) (\<lambda>rs pos len. Remove rs \<lparr>Pos = pos, Size = len\<rparr>))
      [Ins 0 10, Rem 3 2, Ins 4 1] []) \<lparr>Pos = 4, Size = 6\<rparr>"
  using range_sets_agree [of "[Ins 0 10, Rem 3 2, Ins 4 1]" 4 6] by auto

end
